(* ===== verification/Prelude.thy ===== *)
theory Prelude
  imports Main
begin

section \<open>Shared vocabulary of the development\<close>

text \<open>
  This theory holds what every component uses: the reading of \<open>size_t\<close> arithmetic, the
  sentinel \<open>npos\<close>, the collections of simplification rules, and the generic facts on
  lists and on half-open ranges of indexes.

  A \<open>size_t\<close> is a row number or a number of rows and is modelled as \<open>nat\<close>. Sums of
  row numbers are those of an in-memory table and stay far below \<open>2 ^ 64\<close>; a difference
  can drop below zero for ordinary inputs, so unsigned subtraction is \<open>sz_sub\<close>, which
  writes the wrap-around out, and the addition of a \<open>ptrdiff_t\<close> is \<open>sz_off\<close>.
\<close>

named_theorems sz_simps
named_theorems range_simps

definition npos :: nat where
  "npos = 2 ^ 64 - 1"

definition sz_sub :: "nat \<Rightarrow> nat \<Rightarrow> nat" where
  "sz_sub a b = (if b \<le> a then a - b else 2 ^ 64 - (b - a))"

definition sz_off :: "nat \<Rightarrow> int \<Rightarrow> nat" where
  "sz_off a d = (if 0 \<le> int a + d then nat (int a + d) else nat (int a + d + 2 ^ 64))"

lemma sz_sub_le [sz_simps]: "b \<le> a \<Longrightarrow> sz_sub a b = a - b"
  by (simp add: sz_sub_def)

lemma sz_off_int [simp]: "sz_off a (int b) = a + b"
  by (simp add: sz_off_def nat_add_distrib)

lemma sz_off_zero [simp]: "sz_off a 0 = a"
  by (simp add: sz_off_def)

lemma sz_off_one [simp]: "sz_off a 1 = Suc a"
  by (simp add: sz_off_def nat_add_distrib)

lemma sz_off_neg [sz_simps]: "b \<le> a \<Longrightarrow> sz_off a (- int b) = a - b"
  by (simp add: sz_off_def nat_diff_distrib)

lemma sz_off_minus_one [sz_simps]: "0 < a \<Longrightarrow> sz_off a (- 1) = a - 1"
  using sz_off_neg [of 1 a] by simp

subsection \<open>Lists\<close>

text \<open>\<open>find_if p xs\<close> is the offset that \<open>std::find_if\<close> returns: the first position
  that satisfies \<open>p\<close>, or the length. On a partitioned range it is also what
  \<open>std::lower_bound\<close> returns for the negated comparison.\<close>

definition find_if :: "('a \<Rightarrow> bool) \<Rightarrow> 'a list \<Rightarrow> nat" where
  "find_if p xs = length (takeWhile (\<lambda>x. \<not> p x) xs)"

lemma find_if_le: "find_if p xs \<le> length xs"
  by (simp add: find_if_def length_takeWhile_le)

lemma find_if_before: "i < find_if p xs \<Longrightarrow> \<not> p (xs ! i)"
  unfolding find_if_def
  by (metis nth_mem set_takeWhileD takeWhile_nth)

lemma find_if_at: "find_if p xs < length xs \<Longrightarrow> p (xs ! find_if p xs)"
  unfolding find_if_def using nth_length_takeWhile by fastforce

lemma find_if_split:
  obtains ys zs where "xs = ys @ zs" "find_if p xs = length ys"
    "\<forall>y \<in> set ys. \<not> p y" "zs = [] \<or> p (hd zs)"
proof
  show "xs = takeWhile (\<lambda>x. \<not> p x) xs @ dropWhile (\<lambda>x. \<not> p x) xs" by simp
  show "find_if p xs = length (takeWhile (\<lambda>x. \<not> p x) xs)" by (simp add: find_if_def)
  show "\<forall>y \<in> set (takeWhile (\<lambda>x. \<not> p x) xs). \<not> p y" by (auto dest: set_takeWhileD)
  show "dropWhile (\<lambda>x. \<not> p x) xs = [] \<or> p (hd (dropWhile (\<lambda>x. \<not> p x) xs))"
    using hd_dropWhile [of "\<lambda>x. \<not> p x" xs] by auto
qed

end
