(* ===== verification/Range_Vector.thy ===== *)
theory Range_Vector
  imports Prelude
begin

section \<open>The chunked vector of ranges\<close>

text \<open>
  \<open>ChunkedRangeVector\<close> of index\_set.hpp and index\_set.cpp: half-open ranges of row numbers in
  increasing order, stored in chunks of at most \<open>max_size\<close> ranges. Each chunk caches where
  its first range begins, where its last range ends and how many rows its ranges hold.
  A mutable iterator is the pair of the chunk's number and the offset in the chunk; the end
  iterator (outer position at the end, null inner pointer) is \<open>(length m, 0)\<close>.
\<close>

type_synonym rng = "nat \<times> nat"

record chunk =
  cdata :: "rng list"
  cbegin :: nat
  cend :: nat
  ccount :: nat

type_synonym chunks = "chunk list"
type_synonym iter = "nat \<times> nat"

definition max_size :: nat where
  "max_size = 4096 div 16"

definition empty_chunk :: chunk where
  "empty_chunk = \<lparr>cdata = [], cbegin = 0, cend = 0, ccount = 0\<rparr>"

subsection \<open>Iterators\<close>

definition begin_it :: "chunks \<Rightarrow> iter" where
  "begin_it m = (0, 0)"

definition end_it :: "chunks \<Rightarrow> iter" where
  "end_it m = (length m, 0)"

definition at :: "chunks \<Rightarrow> iter \<Rightarrow> rng" where
  "at m it = cdata (m ! fst it) ! snd it"

text \<open>An iterator that may be dereferenced: what \<open>it != end()\<close> says of the positions of the
  vector.\<close>

definition not_end :: "chunks \<Rightarrow> iter \<Rightarrow> bool" where
  "not_end m it \<longleftrightarrow> fst it < length m \<and> snd it < length (cdata (m ! fst it))"

definition next_chunk :: "iter \<Rightarrow> iter" where
  "next_chunk it = (Suc (fst it), 0)"

definition it_next :: "chunks \<Rightarrow> iter \<Rightarrow> iter" where
  "it_next m it =
     (if Suc (snd it) = length (cdata (m ! fst it)) then next_chunk it
      else (fst it, Suc (snd it)))"

definition it_prev :: "chunks \<Rightarrow> iter \<Rightarrow> iter" where
  "it_prev m it =
     (if snd it = 0 then (fst it - 1, length (cdata (m ! (fst it - 1))) - 1)
      else (fst it, snd it - 1))"

definition it_set :: "chunks \<Rightarrow> iter \<Rightarrow> nat \<Rightarrow> nat \<Rightarrow> chunks" where
  "it_set m it front back =
     (let c = m ! fst it; r = cdata c ! snd it in
      m[fst it := c\<lparr>
        ccount := sz_sub (ccount c) (sz_sub (snd r) (fst r)) + sz_sub back front,
        cbegin := (if snd it = 0 then front else cbegin c),
        cend := (if Suc (snd it) = length (cdata c) then back else cend c),
        cdata := (cdata c)[snd it := (front, back)]\<rparr>])"

definition it_adjust :: "chunks \<Rightarrow> iter \<Rightarrow> int \<Rightarrow> int \<Rightarrow> chunks" where
  "it_adjust m it front back =
     (let c = m ! fst it; r = cdata c ! snd it in
      m[fst it := c\<lparr>
        cbegin := (if snd it = 0 then sz_off (cbegin c) front else cbegin c),
        cend := (if Suc (snd it) = length (cdata c) then sz_off (cend c) back else cend c),
        ccount := sz_off (ccount c) (- front + back),
        cdata := (cdata c)[snd it := (sz_off (fst r) front, sz_off (snd r) back)]\<rparr>])"

definition it_shift :: "chunks \<Rightarrow> iter \<Rightarrow> int \<Rightarrow> chunks" where
  "it_shift m it distance =
     (let c = m ! fst it; r = cdata c ! snd it in
      m[fst it := c\<lparr>
        cbegin := (if snd it = 0 then sz_off (cbegin c) distance else cbegin c),
        cend := (if Suc (snd it) = length (cdata c) then sz_off (cend c) distance else cend c),
        cdata := (cdata c)[snd it := (sz_off (fst r) distance, sz_off (snd r) distance)]\<rparr>])"

subsection \<open>Insertion and removal of ranges\<close>

definition push_back :: "chunks \<Rightarrow> rng \<Rightarrow> chunks" where
  "push_back m v =
     (if m \<noteq> [] \<and> length (cdata (last m)) < max_size then
        (let c = last m in
         butlast m @ [c\<lparr>cdata := cdata c @ [v],
                        ccount := ccount c + sz_sub (snd v) (fst v),
                        cend := snd v\<rparr>])
      else m @ [\<lparr>cdata = [v], cbegin = fst v, cend = snd v, ccount = sz_sub (snd v) (fst v)\<rparr>])"

definition ensure_space :: "chunks \<Rightarrow> iter \<Rightarrow> chunks \<times> iter" where
  "ensure_space m pos =
     (if length (cdata (m ! fst pos)) + 1 \<le> max_size then (m, pos)
      else
        let c = m ! fst pos;
            to_move = max_size div 2;
            moved = drop (length (cdata c) - to_move) (cdata c);
            kept = take (length (cdata c) - to_move) (cdata c);
            moved_count = sum_list (map (\<lambda>r. sz_sub (snd r) (fst r)) moved);
            prev' = c\<lparr>cdata := kept, cend := snd (last kept), ccount := sz_sub (ccount c) moved_count\<rparr>;
            new' = \<lparr>cdata = moved, cbegin = fst (hd moved), cend = snd (last moved),
                    ccount = moved_count\<rparr>
        in (take (fst pos) m @ [prev', new'] @ drop (Suc (fst pos)) m,
            if to_move \<le> snd pos then (Suc (fst pos), snd pos - to_move) else pos))"

definition insert_rng :: "chunks \<Rightarrow> iter \<Rightarrow> rng \<Rightarrow> chunks \<times> iter" where
  "insert_rng m pos v =
     (if fst pos = length m then
        (let m' = push_back m v in (m', it_prev m' (end_it m')))
      else
        let (m', pos') = ensure_space m pos;
            c = m' ! fst pos'
        in (m'[fst pos' := c\<lparr>
              cdata := take (snd pos') (cdata c) @ [v] @ drop (snd pos') (cdata c),
              ccount := ccount c + sz_sub (snd v) (fst v),
              cbegin := min (cbegin c) (fst v),
              cend := max (cend c) (snd v)\<rparr>], pos'))"

definition erase_rng :: "chunks \<Rightarrow> iter \<Rightarrow> chunks \<times> iter" where
  "erase_rng m pos =
     (let offset = snd pos; c = m ! fst pos; r = cdata c ! offset;
          rest = take offset (cdata c) @ drop (Suc offset) (cdata c);
          count' = sz_sub (ccount c) (sz_sub (snd r) (fst r))
      in if rest = [] then (take (fst pos) m @ drop (Suc (fst pos)) m, (fst pos, 0))
         else
           (m[fst pos := c\<lparr>cdata := rest, ccount := count', cbegin := fst (hd rest),
                          cend := snd (last rest)\<rparr>],
            if offset < length rest then pos else (Suc (fst pos), 0)))"

subsection \<open>The debug check\<close>

fun verify_ranges :: "rng list \<Rightarrow> bool" where
  "verify_ranges [] = True"
| "verify_ranges [r] = (fst r < snd r)"
| "verify_ranges (r # s # rs) = (fst r < snd r \<and> snd r < fst s \<and> verify_ranges (s # rs))"

text \<open>The ranges in order, whatever the chunk boundaries.\<close>

definition flat :: "chunks \<Rightarrow> rng list" where
  "flat m = concat (map cdata m)"

definition rows_in :: "rng list \<Rightarrow> nat" where
  "rows_in rs = sum_list (map (\<lambda>r. snd r - fst r) rs)"

definition verify_chunk :: "chunk \<Rightarrow> bool" where
  "verify_chunk c \<longleftrightarrow>
     cdata c \<noteq> [] \<and> fst (hd (cdata c)) = cbegin c \<and> snd (last (cdata c)) = cend c \<and>
     ccount c \<le> cend c - cbegin c \<and> rows_in (cdata c) = ccount c"

definition verify :: "chunks \<Rightarrow> bool" where
  "verify m \<longleftrightarrow> verify_ranges (flat m) \<and> (\<forall>c \<in> set m. verify_chunk c)"


subsection \<open>Well-formed vectors and the position of an iterator\<close>

text \<open>The invariant of a vector: \<open>verify\<close> of the debug build, the bound on the size of a
  chunk, and the caches. \<open>chunk_ok\<close> does not ask the ranges to be ordered, since the code
  breaks the order for the length of a loop; \<open>sorted_ranges\<close> does.\<close>

definition chunk_ok :: "chunk \<Rightarrow> bool" where
  "chunk_ok c \<longleftrightarrow>
     cdata c \<noteq> [] \<and> length (cdata c) \<le> max_size \<and>
     cbegin c = fst (hd (cdata c)) \<and> cend c = snd (last (cdata c)) \<and>
     ccount c = rows_in (cdata c) \<and> (\<forall>r \<in> set (cdata c). fst r < snd r)"

definition chunks_ok :: "chunks \<Rightarrow> bool" where
  "chunks_ok m \<longleftrightarrow> (\<forall>c \<in> set m. chunk_ok c)"

definition ipos :: "chunks \<Rightarrow> iter \<Rightarrow> nat" where
  "ipos m it = length (flat (take (fst it) m)) + snd it"

definition iter_ok :: "chunks \<Rightarrow> iter \<Rightarrow> bool" where
  "iter_ok m it \<longleftrightarrow> not_end m it \<or> it = end_it m"

lemma max_size_ge: "2 \<le> max_size"
  by (simp add: max_size_def)

lemma flat_simps [simp]:
  "flat [] = []" "flat (c # m) = cdata c @ flat m" "flat (m @ m') = flat m @ flat m'"
  by (simp_all add: flat_def)

lemma rows_in_simps [simp]:
  "rows_in [] = 0" "rows_in (r # rs) = (snd r - fst r) + rows_in rs"
  "rows_in (rs @ rs') = rows_in rs + rows_in rs'"
  by (simp_all add: rows_in_def)

lemma chunks_ok_simps [simp]:
  "chunks_ok []" "chunks_ok (c # m) \<longleftrightarrow> chunk_ok c \<and> chunks_ok m"
  "chunks_ok (m @ m') \<longleftrightarrow> chunks_ok m \<and> chunks_ok m'"
  by (auto simp: chunks_ok_def)

text \<open>Every valid position splits the vector, its chunk and the flat list of ranges.\<close>

lemma not_end_split:
  assumes "not_end m it"
  obtains pre c post xs r ys where
    "m = pre @ c # post" "fst it = length pre" "cdata c = xs @ r # ys" "snd it = length xs"
    "at m it = r" "ipos m it = length (flat pre) + length xs"
    "flat m = (flat pre @ xs) @ r # (ys @ flat post)"
proof -
  let ?o = "fst it" and ?i = "snd it"
  from assms have o: "?o < length m" and i: "?i < length (cdata (m ! ?o))"
    by (auto simp: not_end_def)
  have m: "m = take ?o m @ m ! ?o # drop (Suc ?o) m"
    using o by (rule id_take_nth_drop)
  have c: "cdata (m ! ?o) = take ?i (cdata (m ! ?o)) @ cdata (m ! ?o) ! ?i # drop (Suc ?i) (cdata (m ! ?o))"
    using i by (rule id_take_nth_drop)
  show thesis
  proof (rule that [OF m _ c])
    show "flat m = (flat (take ?o m) @ take ?i (cdata (m ! ?o))) @ cdata (m ! ?o) ! ?i #
        drop (Suc ?i) (cdata (m ! ?o)) @ flat (drop (Suc ?o) m)"
      by (subst m, simp, subst c, simp)
  qed (use o i in \<open>auto simp: at_def ipos_def\<close>)
qed

lemma at_flat:
  assumes "not_end m it"
  shows "at m it = flat m ! ipos m it" and "ipos m it < length (flat m)"
  using assms by (auto elim!: not_end_split simp: nth_append)

lemma not_end_pos:
  assumes "iter_ok m it"
  shows "not_end m it \<longleftrightarrow> ipos m it < length (flat m)"
proof
  show "not_end m it \<Longrightarrow> ipos m it < length (flat m)" by (rule at_flat)
next
  assume "ipos m it < length (flat m)"
  then have "it \<noteq> end_it m" by (auto simp: end_it_def ipos_def)
  then show "not_end m it" using assms by (auto simp: iter_ok_def)
qed

lemma ipos_end [simp]: "ipos m (end_it m) = length (flat m)"
  by (simp add: end_it_def ipos_def)

lemma ipos_begin [simp]: "ipos m (begin_it m) = 0"
  by (simp add: begin_it_def ipos_def)

lemma iter_ok_end [simp]: "iter_ok m (end_it m)"
  by (simp add: iter_ok_def)

lemma chunk_ok_ne: "chunk_ok c \<Longrightarrow> cdata c \<noteq> []"
  by (simp add: chunk_ok_def)

lemma iter_ok_begin [simp]: "chunks_ok m \<Longrightarrow> iter_ok m (begin_it m)"
  by (cases m) (auto simp: iter_ok_def begin_it_def end_it_def not_end_def chunk_ok_def)

lemma iter_ok_chunk: "chunks_ok m \<Longrightarrow> o' \<le> length m \<Longrightarrow> iter_ok m (o', 0)"
  by (cases "o' = length m")
    (auto simp: iter_ok_def end_it_def not_end_def chunks_ok_def chunk_ok_def)

lemma iter_ok_le: "iter_ok m it \<Longrightarrow> ipos m it \<le> length (flat m)"
  using at_flat(2) [of m it] by (auto simp: iter_ok_def)

lemma it_next_ok:
  assumes "chunks_ok m" "not_end m it"
  shows "iter_ok m (it_next m it)" and "ipos m (it_next m it) = Suc (ipos m it)"
proof -
  from assms(2) show "ipos m (it_next m it) = Suc (ipos m it)"
    by (auto elim!: not_end_split simp: it_next_def next_chunk_def ipos_def)
  show "iter_ok m (it_next m it)"
    using assms iter_ok_chunk [OF assms(1), of "Suc (fst it)"]
    by (auto simp: it_next_def next_chunk_def not_end_def iter_ok_def)
qed

lemma it_prev_ok:
  assumes "chunks_ok m" "iter_ok m it" "0 < ipos m it"
  shows "not_end m (it_prev m it)" and "Suc (ipos m (it_prev m it)) = ipos m it"
proof -
  have "not_end m (it_prev m it) \<and> Suc (ipos m (it_prev m it)) = ipos m it"
  proof (cases "snd it = 0")
    case True
    with assms(3) have o: "0 < fst it" by (auto simp: ipos_def intro: ccontr)
    from assms(2) have le: "fst it \<le> length m" by (auto simp: iter_ok_def not_end_def end_it_def)
    let ?p = "fst it - 1"
    have p: "?p < length m" using o le by simp
    have ne: "cdata (m ! ?p) \<noteq> []" using assms(1) p by (auto simp: chunks_ok_def chunk_ok_def)
    have "take (fst it) m = take ?p m @ [m ! ?p]"
      using take_Suc_conv_app_nth [OF p] o by simp
    then show ?thesis using True p ne by (simp add: it_prev_def not_end_def ipos_def)
  next
    case False
    then show ?thesis using assms(2) by (auto simp: it_prev_def not_end_def iter_ok_def end_it_def ipos_def)
  qed
  then show "not_end m (it_prev m it)" and "Suc (ipos m (it_prev m it)) = ipos m it" by auto
qed

lemma begin_iff: "chunks_ok m \<Longrightarrow> iter_ok m it \<Longrightarrow> it = begin_it m \<longleftrightarrow> ipos m it = 0"
proof
  assume ok: "chunks_ok m" "iter_ok m it" and 0: "ipos m it = 0"
  have "fst it \<le> length m" using ok(2) by (auto simp: iter_ok_def not_end_def end_it_def)
  moreover have "fst it = 0 \<or> flat (take (fst it) m) \<noteq> []" if "fst it \<le> length m"
    using that ok(1) by (cases m; cases "fst it") (auto simp: chunk_ok_def)
  ultimately show "it = begin_it m" using 0 by (cases it) (auto simp: ipos_def begin_it_def)
qed simp

subsection \<open>Updating one range\<close>

text \<open>The three mutating operations of the iterator all replace one range and refresh the
  caches of its chunk: \<open>put_rng\<close> is that common effect.\<close>

definition put_rng :: "chunks \<Rightarrow> iter \<Rightarrow> rng \<Rightarrow> chunks" where
  "put_rng m it r =
     (let c = m ! fst it; rs = (cdata c)[snd it := r] in
      m[fst it := c\<lparr>cdata := rs,
        cbegin := (if snd it = 0 then fst r else cbegin c),
        cend := (if Suc (snd it) = length (cdata c) then snd r else cend c),
        ccount := rows_in rs\<rparr>])"

lemma put_rng_flat:
  assumes "not_end m it"
  shows "flat (put_rng m it r) = (flat m)[ipos m it := r]"
  using assms
  by (auto elim!: not_end_split simp: put_rng_def Let_def nth_append list_update_append)

lemma put_rng_shape:
  "map (\<lambda>c. length (cdata c)) (put_rng m it r) = map (\<lambda>c. length (cdata c)) m"
  by (auto simp: put_rng_def Let_def map_update intro!: list_update_id [THEN trans, symmetric]
      simp del: list_update_id)
    (metis (no_types, lifting) list_update_beyond list_update_id linorder_not_less nth_map
      length_map)

text \<open>Iterators depend on the lengths of the chunks only.\<close>

lemma shape_length:
  "map (\<lambda>c. length (cdata c)) m' = map (\<lambda>c. length (cdata c)) m \<Longrightarrow> length m' = length m"
  by (metis length_map)

lemma shape_nth:
  assumes "map (\<lambda>c. length (cdata c)) m' = map (\<lambda>c. length (cdata c)) m" "i < length m"
  shows "length (cdata (m' ! i)) = length (cdata (m ! i))"
  using assms nth_map [of i m "\<lambda>c. length (cdata c)"] nth_map [of i m' "\<lambda>c. length (cdata c)"]
    shape_length [OF assms(1)] by simp

lemma length_flat: "length (flat m) = sum_list (map (\<lambda>c. length (cdata c)) m)"
  by (induction m) auto

lemma shape_ipos:
  assumes "map (\<lambda>c. length (cdata c)) m' = map (\<lambda>c. length (cdata c)) m"
  shows "ipos m' it = ipos m it"
proof -
  have "map (\<lambda>c. length (cdata c)) (take (fst it) m') = map (\<lambda>c. length (cdata c)) (take (fst it) m)"
    using assms by (metis take_map)
  then show ?thesis by (simp add: ipos_def length_flat)
qed

lemma shape_not_end:
  "map (\<lambda>c. length (cdata c)) m' = map (\<lambda>c. length (cdata c)) m \<Longrightarrow> not_end m' it = not_end m it"
  using shape_nth [of m' m "fst it"] shape_length [of m' m] by (auto simp: not_end_def)

lemma shape_iter_ok:
  "map (\<lambda>c. length (cdata c)) m' = map (\<lambda>c. length (cdata c)) m \<Longrightarrow> iter_ok m' it = iter_ok m it"
  using shape_not_end [of m' m it] shape_length [of m' m] by (auto simp: iter_ok_def end_it_def)

lemma shape_it_next:
  "map (\<lambda>c. length (cdata c)) m' = map (\<lambda>c. length (cdata c)) m \<Longrightarrow> not_end m it \<Longrightarrow>
    it_next m' it = it_next m it"
  using shape_nth [of m' m "fst it"] by (auto simp: it_next_def not_end_def)

lemmas put_rng_simps [simp] =
  shape_ipos [OF put_rng_shape] shape_not_end [OF put_rng_shape]
  shape_iter_ok [OF put_rng_shape] shape_length [OF put_rng_shape]

lemma chunk_okI:
  assumes "cdata c \<noteq> []" "length (cdata c) \<le> max_size" "cbegin c = fst (hd (cdata c))"
    "cend c = snd (last (cdata c))" "ccount c = rows_in (cdata c)"
    "\<And>r. r \<in> set (cdata c) \<Longrightarrow> fst r < snd r"
  shows "chunk_ok c"
  using assms by (simp add: chunk_ok_def)

lemma put_rng_ok:
  assumes "chunks_ok m" "not_end m it" "fst r < snd r"
  shows "chunks_ok (put_rng m it r)"
proof -
  from assms(2) obtain pre c post xs r0 ys where
    m: "m = pre @ c # post" "fst it = length pre" and c: "cdata c = xs @ r0 # ys" "snd it = length xs"
    by (rule not_end_split)
  have ok: "chunk_ok c" using assms(1) m by simp
  have "chunk_ok (c\<lparr>cdata := xs @ r # ys, cbegin := (if xs = [] then fst r else cbegin c),
      cend := (if ys = [] then snd r else cend c), ccount := rows_in (xs @ r # ys)\<rparr>)"
    using ok c assms(3) by (intro chunk_okI) (auto simp: chunk_ok_def hd_append last_append)
  then show ?thesis
    using assms(1) m c by (simp add: put_rng_def Let_def)
qed

lemma rows_in_member: "r \<in> set rs \<Longrightarrow> snd r - fst r \<le> rows_in rs"
  by (induction rs) auto

lemma at_member: "not_end m it \<Longrightarrow> at m it \<in> set (cdata (m ! fst it))"
  by (simp add: not_end_def at_def)

lemma chunk_at: "chunks_ok m \<Longrightarrow> not_end m it \<Longrightarrow> chunk_ok (m ! fst it)"
  by (simp add: chunks_ok_def not_end_def)

lemma at_pos: "chunks_ok m \<Longrightarrow> not_end m it \<Longrightarrow> fst (at m it) < snd (at m it)"
  using at_member chunk_at by (auto simp: chunk_ok_def)

lemma at_cbegin: "chunks_ok m \<Longrightarrow> not_end m it \<Longrightarrow> snd it = 0 \<Longrightarrow> cbegin (m ! fst it) = fst (at m it)"
  using chunk_at [of m it] by (auto simp: chunk_ok_def at_def hd_conv_nth)

lemma at_cend:
  "chunks_ok m \<Longrightarrow> not_end m it \<Longrightarrow> Suc (snd it) = length (cdata (m ! fst it)) \<Longrightarrow>
    cend (m ! fst it) = snd (at m it)"
proof -
  assume a: "chunks_ok m" "not_end m it" and l: "Suc (snd it) = length (cdata (m ! fst it))"
  from l have "snd it = length (cdata (m ! fst it)) - 1" by simp
  then show ?thesis
    using chunk_at [OF a] by (simp add: chunk_ok_def at_def last_conv_nth)
qed

lemma rows_in_update:
  assumes "i < length rs"
  shows "int (rows_in (rs[i := r])) =
    int (rows_in rs) - int (snd (rs ! i) - fst (rs ! i)) + int (snd r - fst r)"
  by (subst (2) id_take_nth_drop [OF assms], subst upd_conv_take_nth_drop [OF assms]) simp

lemma it_set_put:
  assumes "chunks_ok m" "not_end m it" "front \<le> back"
  shows "it_set m it front back = put_rng m it (front, back)"
proof -
  have i: "snd it < length (cdata (m ! fst it))" using assms(2) by (simp add: not_end_def)
  have "snd (at m it) - fst (at m it) \<le> rows_in (cdata (m ! fst it))"
    by (rule rows_in_member [OF at_member [OF assms(2)]])
  then have "sz_sub (rows_in (cdata (m ! fst it))) (snd (at m it) - fst (at m it)) + (back - front)
      = rows_in ((cdata (m ! fst it))[snd it := (front, back)])"
    using rows_in_update [OF i, of "(front, back)"] by (simp add: sz_sub_le at_def)
  then show ?thesis
    using assms at_pos [OF assms(1,2)] chunk_at [OF assms(1,2)]
    by (cases "m ! fst it")
      (simp add: it_set_def put_rng_def Let_def sz_sub_le at_def chunk_ok_def)
qed

lemma sz_off_eq: "int a + d = int b \<Longrightarrow> sz_off a d = b"
  by (simp add: sz_off_def)

lemma it_adjust_put:
  assumes ok: "chunks_ok m" "not_end m it"
    and f: "int (fst (at m it)) + front = int (fst r)"
    and b: "int (snd (at m it)) + back = int (snd r)" and r: "fst r < snd r"
  shows "it_adjust m it front back = put_rng m it r"
proof -
  have i: "snd it < length (cdata (m ! fst it))" using ok(2) by (simp add: not_end_def)
  have "int (rows_in (cdata (m ! fst it))) + (- front + back)
      = int (rows_in ((cdata (m ! fst it))[snd it := r]))"
    using rows_in_update [OF i, of r] f b r at_pos [OF ok] by (simp add: at_def of_nat_diff)
  then have "sz_off (ccount (m ! fst it)) (- front + back) = rows_in ((cdata (m ! fst it))[snd it := r])"
    using chunk_at [OF ok] by (intro sz_off_eq) (simp add: chunk_ok_def)
  then show ?thesis
    using at_cbegin [OF ok] at_cend [OF ok] sz_off_eq [OF f] sz_off_eq [OF b]
    by (cases "m ! fst it") (auto simp: it_adjust_def put_rng_def Let_def at_def)
qed

lemma it_shift_put:
  assumes ok: "chunks_ok m" "not_end m it"
    and f: "int (fst (at m it)) + d = int (fst r)" and b: "int (snd (at m it)) + d = int (snd r)"
  shows "it_shift m it d = put_rng m it r"
proof -
  have i: "snd it < length (cdata (m ! fst it))" using ok(2) by (simp add: not_end_def)
  have "int (snd r) - int (fst r) = int (snd (at m it)) - int (fst (at m it))" using f b by simp
  then have "snd r - fst r = snd (at m it) - fst (at m it)" by linarith
  then have "rows_in ((cdata (m ! fst it))[snd it := r]) = ccount (m ! fst it)"
    using rows_in_update [OF i, of r] chunk_at [OF ok] by (simp add: at_def chunk_ok_def)
  then show ?thesis
    using at_cbegin [OF ok] at_cend [OF ok] sz_off_eq [OF f] sz_off_eq [OF b]
    by (cases "m ! fst it") (auto simp: it_shift_def put_rng_def Let_def at_def)
qed

subsection \<open>Inserting and erasing ranges\<close>

definition ordered :: "rng list \<Rightarrow> bool" where
  "ordered rs \<longleftrightarrow> sorted_wrt (\<lambda>r s. snd r \<le> fst s) rs"

lemma ordered_simps [simp]:
  "ordered []" "ordered (r # rs) \<longleftrightarrow> (\<forall>s \<in> set rs. snd r \<le> fst s) \<and> ordered rs"
  "ordered (rs @ rs') \<longleftrightarrow> ordered rs \<and> ordered rs' \<and> (\<forall>r \<in> set rs. \<forall>s \<in> set rs'. snd r \<le> fst s)"
  by (auto simp: ordered_def sorted_wrt_append)

lemma sum_sz_sub:
  "\<forall>r \<in> set rs. fst r < snd r \<Longrightarrow> sum_list (map (\<lambda>r. sz_sub (snd r) (fst r)) rs) = rows_in rs"
  by (induction rs) (auto simp: sz_sub_le)

lemma push_back_ok:
  assumes "chunks_ok m" "fst v < snd v"
  shows "chunks_ok (push_back m v)" and "flat (push_back m v) = flat m @ [v]"
    and "push_back m v \<noteq> []"
proof -
  have "chunks_ok (push_back m v) \<and> flat (push_back m v) = flat m @ [v]"
  proof (cases "m = []")
    case True
    then show ?thesis using assms(2) max_size_ge
      by (auto simp: push_back_def sz_sub_le intro!: chunk_okI)
  next
    case False
    then obtain n c where "m = n @ [c]" by (metis rev_exhaust)
    then show ?thesis using assms max_size_ge
      by (auto simp: push_back_def Let_def sz_sub_le chunk_ok_def)
  qed
  then show "chunks_ok (push_back m v)" and "flat (push_back m v) = flat m @ [v]" by auto
  show "push_back m v \<noteq> []" by (auto simp: push_back_def Let_def)
qed

lemma ensure_space_ok:
  assumes ok: "chunks_ok m" and ne: "not_end m pos" and e: "ensure_space m pos = (m', pos')"
  shows "chunks_ok m' \<and> flat m' = flat m \<and> not_end m' pos' \<and> ipos m' pos' = ipos m pos \<and>
    length (cdata (m' ! fst pos')) < max_size"
proof (cases "length (cdata (m ! fst pos)) + 1 \<le> max_size")
  case True
  then show ?thesis using assms by (auto simp: ensure_space_def)
next
  case False
  from ne obtain pre c post xs r ys where
    m: "m = pre @ c # post" "fst pos = length pre" and c: "cdata c = xs @ r # ys" "snd pos = length xs"
    and p: "ipos m pos = length (flat pre) + length xs"
    by (rule not_end_split)
  have c_ok: "chunk_ok c" using ok m by simp
  define n where "n = length (cdata c) - max_size div 2"
  define kept where "kept = take n (cdata c)"
  define moved where "moved = drop n (cdata c)"
  have len: "length (cdata c) = max_size"
    using False c_ok m by (auto simp: chunk_ok_def)
  have n: "n = max_size div 2" "length kept = n" "length moved = n" "n < max_size" "0 < n"
    by (simp_all add: n_def kept_def moved_def len max_size_def)
  have km: "cdata c = kept @ moved" by (simp add: kept_def moved_def)
  then have ne: "kept \<noteq> []" "moved \<noteq> []" using n by auto
  have pos: "\<forall>r \<in> set kept. fst r < snd r" "\<forall>r \<in> set moved. fst r < snd r"
    using c_ok km by (auto simp: chunk_ok_def)
  define c1 where "c1 = c\<lparr>cdata := kept, cend := snd (last kept),
    ccount := sz_sub (ccount c) (rows_in moved)\<rparr>"
  define c2 where "c2 = \<lparr>cdata = moved, cbegin = fst (hd moved), cend = snd (last moved),
    ccount = rows_in moved\<rparr>"
  have e': "m' = pre @ [c1, c2] @ post"
    "pos' = (if n \<le> snd pos then (Suc (length pre), snd pos - n) else pos)"
    using e False m sum_sz_sub [OF pos(2)] len n(1)
    by (auto simp: ensure_space_def Let_def c1_def c2_def moved_def kept_def n_def)
  have "chunk_ok c1" "chunk_ok c2"
    using c_ok km ne pos n by (auto simp: c1_def c2_def chunk_ok_def sz_sub_le)
  moreover have "length xs < n + n" using c len n(1) by (simp add: max_size_def)
  moreover have "cdata c1 = kept" "cdata c2 = moved" by (simp_all add: c1_def c2_def)
  ultimately show ?thesis
    using ok m e' c p km n by (auto simp: ipos_def not_end_def nth_append)
qed

lemma insert_here_ok:
  assumes c: "chunk_ok c" "cdata c = xs @ ys" "length (cdata c) < max_size"
    and v: "fst v < snd v" "ordered (xs @ v # ys)"
  shows "chunk_ok (c\<lparr>cdata := xs @ v # ys, ccount := ccount c + sz_sub (snd v) (fst v),
      cbegin := min (cbegin c) (fst v), cend := max (cend c) (snd v)\<rparr>)"
proof (rule chunk_okI)
  have pos: "\<forall>r \<in> set xs \<union> set ys. fst r < snd r" using c by (auto simp: chunk_ok_def)
  have ne: "xs \<noteq> [] \<or> ys \<noteq> []" using c by (auto simp: chunk_ok_def)
  have b: "cbegin c = fst (hd (xs @ ys))" and e: "cend c = snd (last (xs @ ys))"
    using c by (auto simp: chunk_ok_def)
  have "min (cbegin c) (fst v) = fst (hd (xs @ v # ys))"
  proof (cases xs)
    case Nil
    then have "fst v \<le> fst (hd ys)" using ne v by (cases ys) auto
    then show ?thesis using Nil ne b by simp
  next
    case (Cons x xs')
    then have "fst x < snd x" "snd x \<le> fst v" using pos v(2) by auto
    then show ?thesis using Cons b by simp
  qed
  then show "cbegin (c\<lparr>cdata := xs @ v # ys, ccount := ccount c + sz_sub (snd v) (fst v),
      cbegin := min (cbegin c) (fst v), cend := max (cend c) (snd v)\<rparr>) = fst (hd (cdata
      (c\<lparr>cdata := xs @ v # ys, ccount := ccount c + sz_sub (snd v) (fst v),
      cbegin := min (cbegin c) (fst v), cend := max (cend c) (snd v)\<rparr>)))"
    by simp
  have "max (cend c) (snd v) = snd (last (xs @ v # ys))"
  proof (cases "ys = []")
    case True
    then have "snd (last xs) \<le> fst v" using ne v by auto
    then show ?thesis using True ne e v(1) by simp
  next
    case False
    then have l: "last ys \<in> set ys" by simp
    then have "snd v \<le> fst (last ys)" "fst (last ys) < snd (last ys)" using pos v(2) by auto
    then show ?thesis using False e by simp
  qed
  then show "cend (c\<lparr>cdata := xs @ v # ys, ccount := ccount c + sz_sub (snd v) (fst v),
      cbegin := min (cbegin c) (fst v), cend := max (cend c) (snd v)\<rparr>) = snd (last (cdata
      (c\<lparr>cdata := xs @ v # ys, ccount := ccount c + sz_sub (snd v) (fst v),
      cbegin := min (cbegin c) (fst v), cend := max (cend c) (snd v)\<rparr>)))"
    by simp
qed (use c v in \<open>auto simp: chunk_ok_def sz_sub_le\<close>)

lemma insert_rng_ok:
  assumes ok: "chunks_ok m" "iter_ok m pos" and v: "fst v < snd v"
    and o': "ordered (take (ipos m pos) (flat m) @ v # drop (ipos m pos) (flat m))"
    and e: "insert_rng m pos v = (m', pos')"
  shows "chunks_ok m' \<and> not_end m' pos' \<and> ipos m' pos' = ipos m pos \<and>
    flat m' = take (ipos m pos) (flat m) @ v # drop (ipos m pos) (flat m)"
proof (cases "fst pos = length m")
  case True
  then have pos: "pos = end_it m" using ok(2) by (auto simp: iter_ok_def not_end_def)
  note pb = push_back_ok [OF ok(1) v]
  have e': "m' = push_back m v" "pos' = it_prev m' (end_it m')"
    using e True by (auto simp: insert_rng_def Let_def)
  have "0 < ipos m' (end_it m')" using pb e' by simp
  note pr = it_prev_ok [OF _ iter_ok_end this]
  show ?thesis using pr pb e' pos by auto
next
  case False
  then have ne: "not_end m pos" using ok(2) by (auto simp: iter_ok_def end_it_def)
  obtain m1 p1 where es: "ensure_space m pos = (m1, p1)"
    by (cases "ensure_space m pos") auto
  note E = ensure_space_ok [OF ok(1) ne es]
  then obtain pre c post xs r ys where
    m1: "m1 = pre @ c # post" "fst p1 = length pre" and c: "cdata c = xs @ r # ys" "snd p1 = length xs"
    and p: "ipos m1 p1 = length (flat pre) + length xs"
      "flat m1 = (flat pre @ xs) @ r # (ys @ flat post)"
    by (elim conjE not_end_split)
  have tk: "take (ipos m pos) (flat m) = flat pre @ xs" "drop (ipos m pos) (flat m) = r # ys @ flat post"
  proof -
    have "flat m = (flat pre @ xs) @ r # (ys @ flat post)" "ipos m pos = length (flat pre @ xs)"
      using E p by auto
    then show "take (ipos m pos) (flat m) = flat pre @ xs"
      "drop (ipos m pos) (flat m) = r # ys @ flat post"
      by (metis append_eq_conv_conj)+
  qed
  define c' where "c' = c\<lparr>cdata := xs @ v # (r # ys), ccount := ccount c + sz_sub (snd v) (fst v),
      cbegin := min (cbegin c) (fst v), cend := max (cend c) (snd v)\<rparr>"
  have e': "m' = pre @ c' # post" "pos' = p1"
    using e False es m1 c by (auto simp: insert_rng_def Let_def c'_def)
  have "chunk_ok c'" unfolding c'_def
    using E m1 c v o' tk by (intro insert_here_ok) auto
  then show ?thesis
    using E e' m1 p tk c by (auto simp: ipos_def not_end_def c'_def)
qed

lemma erase_rng_ok:
  assumes ok: "chunks_ok m" "not_end m pos" and e: "erase_rng m pos = (m', pos')"
  shows "chunks_ok m' \<and> iter_ok m' pos' \<and> ipos m' pos' = ipos m pos \<and>
    flat m' = take (ipos m pos) (flat m) @ drop (Suc (ipos m pos)) (flat m)"
proof -
  from ok(2) obtain pre c post xs r ys where
    m: "m = pre @ c # post" "fst pos = length pre" and c: "cdata c = xs @ r # ys" "snd pos = length xs"
    and p: "ipos m pos = length (flat pre) + length xs"
      "flat m = (flat pre @ xs) @ r # (ys @ flat post)"
    by (rule not_end_split)
  have oks: "chunks_ok pre" "chunk_ok c" "chunks_ok post" using ok(1) m by auto
  have fl: "take (ipos m pos) (flat m) @ drop (Suc (ipos m pos)) (flat m) = flat pre @ xs @ ys @ flat post"
    using p by simp
  show ?thesis
  proof (cases "xs @ ys = []")
    case True
    then have e': "m' = pre @ post" "pos' = (length pre, 0)"
      using e m c by (auto simp: erase_rng_def Let_def)
    then have "chunks_ok m'" using oks by simp
    then show ?thesis
      using e' fl True p iter_ok_chunk [of m' "length pre"] by (simp add: ipos_def)
  next
    case False
    define c' where "c' = c\<lparr>cdata := xs @ ys, ccount := sz_sub (ccount c) (sz_sub (snd r) (fst r)),
      cbegin := fst (hd (xs @ ys)), cend := snd (last (xs @ ys))\<rparr>"
    have e': "m' = pre @ c' # post" "pos' = (if ys \<noteq> [] then pos else (Suc (length pre), 0))"
      using e m c False by (auto simp: erase_rng_def Let_def c'_def)
    have "chunk_ok c'" unfolding c'_def
      using oks(2) c False by (intro chunk_okI) (auto simp: chunk_ok_def sz_sub_le)
    then have ok': "chunks_ok m'" using oks e' by simp
    show ?thesis
    proof (cases "ys = []")
      case True
      then show ?thesis using ok' e' fl p iter_ok_chunk [OF ok', of "Suc (length pre)"]
        by (simp add: ipos_def c'_def)
    next
      case False
      then show ?thesis using ok' e' fl p m c
        by (auto simp: iter_ok_def not_end_def ipos_def c'_def)
    qed
  qed
qed

text \<open>\<open>verify\<close> holds exactly for the chunk-wise well-formed vectors with ordered and
  separated ranges, up to the bound on the size of a chunk that it does not look at.\<close>

definition sorted_ranges :: "rng list \<Rightarrow> bool" where
  "sorted_ranges rs \<longleftrightarrow> (\<forall>r \<in> set rs. fst r < snd r) \<and> sorted_wrt (\<lambda>r s. snd r < fst s) rs"

lemma sorted_ranges_simps [simp]:
  "sorted_ranges []"
  "sorted_ranges (r # rs) \<longleftrightarrow> fst r < snd r \<and> (\<forall>s \<in> set rs. snd r < fst s) \<and> sorted_ranges rs"
  "sorted_ranges (rs @ rs') \<longleftrightarrow>
     sorted_ranges rs \<and> sorted_ranges rs' \<and> (\<forall>r \<in> set rs. \<forall>s \<in> set rs'. snd r < fst s)"
  by (auto simp: sorted_ranges_def sorted_wrt_append)

lemma sorted_ranges_ordered: "sorted_ranges rs \<Longrightarrow> ordered rs"
  by (induction rs) (auto intro: less_imp_le)

lemma verify_ranges_iff: "verify_ranges rs \<longleftrightarrow> sorted_ranges rs"
  by (induction rs rule: verify_ranges.induct) auto

definition vec_ok :: "chunks \<Rightarrow> bool" where
  "vec_ok m \<longleftrightarrow> chunks_ok m \<and> sorted_ranges (flat m)"

lemma sorted_ranges_span:
  "sorted_ranges rs \<Longrightarrow> rs \<noteq> [] \<Longrightarrow> fst (hd rs) + rows_in rs \<le> snd (last rs)"
proof (induction rs)
  case (Cons r rs)
  then show ?case by (cases rs) auto
qed simp

lemma vec_ok_verify: "vec_ok m \<Longrightarrow> verify m"
proof -
  assume v: "vec_ok m"
  then have "sorted_ranges (cdata c)" if "c \<in> set m" for c
    using that by (induction m) (auto simp: vec_ok_def)
  then show "verify m"
    using v sorted_ranges_span by (fastforce simp: verify_def verify_ranges_iff vec_ok_def
        verify_chunk_def chunks_ok_def chunk_ok_def)
qed

lemma it_shift_shape [simp]:
  "map (\<lambda>c. length (cdata c)) (it_shift m it d) = map (\<lambda>c. length (cdata c)) m"
proof (rule nth_equalityI)
  fix i assume "i < length (map (\<lambda>c. length (cdata c)) (it_shift m it d))"
  then show "map (\<lambda>c. length (cdata c)) (it_shift m it d) ! i = map (\<lambda>c. length (cdata c)) m ! i"
    by (cases "i = fst it") (simp_all add: it_shift_def Let_def)
qed (simp add: it_shift_def Let_def)

end
