(* ===== verification/Index_Rows.thy ===== *)
theory Index_Rows
  imports Range_Vector
begin

section \<open>What a list of ranges stands for\<close>

text \<open>
  The specification level of the index sets: \<open>rows\<close> is the set of row numbers that a list of
  ranges covers, \<open>rank S j\<close> how many members of \<open>S\<close> lie before \<open>j\<close>. A row \<open>j\<close> outside \<open>S\<close>
  has the number \<open>j - rank S j\<close> once the members of \<open>S\<close> are taken away, which is how every
  shift of the index sets is specified. \<open>cuts m it xs ys\<close> reads an iterator of the chunked
  vector as a split of its ranges, and the rules below are the only facts on iterators that
  the proofs about index sets use.
\<close>

definition rows :: "rng list \<Rightarrow> nat set" where
  "rows rs = (\<Union>r \<in> set rs. {fst r..<snd r})"

definition elems :: "chunks \<Rightarrow> nat set" where
  "elems m = rows (flat m)"

definition rank :: "nat set \<Rightarrow> nat \<Rightarrow> nat" where
  "rank S j = card (S \<inter> {..<j})"

lemma rows_simps [simp]:
  "rows [] = {}" "rows (r # rs) = {fst r..<snd r} \<union> rows rs" "rows (rs @ rs') = rows rs \<union> rows rs'"
  by (auto simp: rows_def)

lemma in_rows: "x \<in> rows rs \<longleftrightarrow> (\<exists>r \<in> set rs. fst r \<le> x \<and> x < snd r)"
  by (auto simp: rows_def)

lemma finite_rows [simp]: "finite (rows rs)"
  by (simp add: rows_def)

lemma card_rows: "sorted_ranges rs \<Longrightarrow> card (rows rs) = rows_in rs"
proof (induction rs)
  case (Cons r rs)
  have "{fst r..<snd r} \<inter> rows rs = {}" using Cons.prems by (auto simp: in_rows) fastforce
  then show ?case using Cons by (simp add: card_Un_disjoint)
qed simp

lemma rows_upper: "\<forall>r \<in> set rs. snd r \<le> b \<Longrightarrow> rows rs \<subseteq> {..<b}"
  by (auto simp: in_rows) fastforce

lemma rows_lower: "\<forall>r \<in> set rs. b \<le> fst r \<Longrightarrow> rows rs \<inter> {..<b} = {}"
  by (auto simp: in_rows) fastforce

lemma sorted_ranges_pos: "sorted_ranges rs \<Longrightarrow> r \<in> set rs \<Longrightarrow> fst r < snd r"
  by (simp add: sorted_ranges_def)

text \<open>The quantifier-free reading of the order: only the ranges that meet are compared.\<close>

lemma glue_Cons:
  "sorted_ranges (r # rs) \<longleftrightarrow> fst r < snd r \<and> sorted_ranges rs \<and> (rs = [] \<or> snd r < fst (hd rs))"
proof (cases rs)
  case (Cons s rs')
  then show ?thesis by (auto dest: order.strict_trans) fastforce?
qed simp

lemma glue_append:
  "sorted_ranges (xs @ ys) \<longleftrightarrow>
     sorted_ranges xs \<and> sorted_ranges ys \<and> (xs = [] \<or> ys = [] \<or> snd (last xs) < fst (hd ys))"
proof (induction xs)
  case (Cons x xs)
  then show ?case by (cases xs) (auto simp: glue_Cons simp del: sorted_ranges_simps(2,3))
qed auto

lemmas glue = glue_append glue_Cons

lemma le_last: "sorted_ranges xs \<Longrightarrow> (\<forall>r \<in> set xs. snd r \<le> i) \<longleftrightarrow> xs = [] \<or> snd (last xs) \<le> i"
proof (induction xs rule: rev_induct)
  case (snoc x xs)
  then have "\<forall>r \<in> set xs. snd r < fst x" "fst x < snd x" by auto
  then show ?case by fastforce
qed simp

lemma hd_less: "sorted_ranges ys \<Longrightarrow> (\<forall>r \<in> set ys. i < snd r) \<longleftrightarrow> ys = [] \<or> i < snd (hd ys)"
  by (cases ys) (fastforce dest: sorted_ranges_pos)+

lemma hd_fst_le: "sorted_ranges ys \<Longrightarrow> (\<forall>r \<in> set ys. i \<le> fst r) \<longleftrightarrow> ys = [] \<or> i \<le> fst (hd ys)"
  by (cases ys) fastforce+

subsection \<open>Ranks\<close>

lemma rank_empty [simp]: "rank {} j = 0"
  by (simp add: rank_def)

lemma rank_mono: "finite S \<Longrightarrow> j \<le> j' \<Longrightarrow> rank S j \<le> rank S j'"
  unfolding rank_def by (rule card_mono) auto

lemma rank_le: "rank S j \<le> j"
  unfolding rank_def using card_mono [of "{..<j}" "S \<inter> {..<j}"] by simp

lemma rank_Suc: "rank S (Suc j) = rank S j + (if j \<in> S then 1 else 0)"
proof -
  have "S \<inter> {..<Suc j} = (S \<inter> {..<j}) \<union> (if j \<in> S then {j} else {})"
    by (auto simp: less_Suc_eq)
  then show ?thesis by (auto simp: rank_def card_Un_disjoint)
qed

lemma unrank_mono: "j \<le> j' \<Longrightarrow> j - rank S j \<le> j' - rank S j'"
proof (induction rule: dec_induct)
  case (step n)
  then show ?case using rank_le [of S n] by (auto simp: rank_Suc)
qed simp

lemma unrank_strict: "j < j' \<Longrightarrow> j \<notin> S \<Longrightarrow> j - rank S j < j' - rank S j'"
proof -
  assume "j < j'" "j \<notin> S"
  have "j - rank S j < Suc j - rank S (Suc j)"
    using \<open>j \<notin> S\<close> rank_le [of S j] by (simp add: rank_Suc)
  also have "\<dots> \<le> j' - rank S j'" using \<open>j < j'\<close> by (intro unrank_mono) simp
  finally show ?thesis .
qed

lemma unrank_inj: "j \<notin> S \<Longrightarrow> j' \<notin> S \<Longrightarrow> j - rank S j = j' - rank S j' \<Longrightarrow> j = j'"
  by (metis linorder_neqE_nat nat_neq_iff unrank_strict)

lemma rank_insert: "finite S \<Longrightarrow> x \<notin> S \<Longrightarrow> rank (insert x S) j = rank S j + (if x < j then 1 else 0)"
  by (auto simp: rank_def Int_insert_left)

lemma rank_below: "S \<inter> {..<j} = {} \<Longrightarrow> rank S j = 0"
  by (simp add: rank_def)

lemma rank_above: "S \<subseteq> {..<j} \<Longrightarrow> rank S j = card S"
  by (simp add: rank_def Int_absorb2)

lemma rank_Un: "finite S \<Longrightarrow> finite T \<Longrightarrow> S \<inter> T = {} \<Longrightarrow> rank (S \<union> T) j = rank S j + rank T j"
  unfolding rank_def Int_Un_distrib2 by (rule card_Un_disjoint) auto

lemma rank_rows_split:
  assumes "sorted_ranges (xs @ ys)" "\<forall>r \<in> set xs. snd r \<le> j" "\<forall>r \<in> set ys. j \<le> fst r"
  shows "rank (rows (xs @ ys)) j = rows_in xs"
proof -
  have "rows (xs @ ys) \<inter> {..<j} = rows xs"
    using rows_upper [of xs j] rows_lower [of ys j] assms by auto
  then show ?thesis using assms(1) by (simp add: rank_def card_rows)
qed

lemma sorted_ranges_in_rows: "sorted_ranges rs \<Longrightarrow> rows_in rs + (if rs = [] then 0 else fst (hd rs)) \<le>
    (if rs = [] then 0 else snd (last rs))"
  using sorted_ranges_span [of rs] by auto

lemma rows_in_le: "sorted_ranges rs \<Longrightarrow> \<forall>r \<in> set rs. snd r \<le> j \<Longrightarrow> rows_in rs \<le> j"
  using sorted_ranges_span [of rs] by (cases "rs = []") (auto intro: order_trans dest!: last_in_set)

subsection \<open>Iterators as cuts\<close>

definition cuts :: "chunks \<Rightarrow> iter \<Rightarrow> rng list \<Rightarrow> rng list \<Rightarrow> bool" where
  "cuts m it xs ys \<longleftrightarrow> iter_ok m it \<and> flat m = xs @ ys \<and> ipos m it = length xs"

lemma cut_flat: "cuts m it xs ys \<Longrightarrow> flat m = xs @ ys"
  by (simp add: cuts_def)

lemma cut_at:
  assumes "cuts m it xs (r # ys)"
  shows "not_end m it" "at m it = r" "it \<noteq> end_it m"
proof -
  from assms show ne: "not_end m it" by (auto simp: cuts_def not_end_pos)
  from assms show "at m it = r" by (auto simp: cuts_def at_flat(1) [OF ne])
  from ne show "it \<noteq> end_it m" by (auto simp: not_end_def end_it_def)
qed

lemma cut_not_end: "cuts m it xs ys \<Longrightarrow> not_end m it \<longleftrightarrow> ys \<noteq> []"
  by (auto simp: cuts_def not_end_pos)

lemma cut_end: "cuts m it xs ys \<Longrightarrow> it = end_it m \<longleftrightarrow> ys = []"
  using cut_not_end [of m it xs ys] by (auto simp: cuts_def iter_ok_def not_end_def end_it_def)

lemma cut_next: "chunks_ok m \<Longrightarrow> cuts m it xs (r # ys) \<Longrightarrow> cuts m (it_next m it) (xs @ [r]) ys"
  using it_next_ok [of m it] cut_at(1) by (auto simp: cuts_def)

lemma cut_begin: "chunks_ok m \<Longrightarrow> cuts m it xs ys \<Longrightarrow> it = begin_it m \<longleftrightarrow> xs = []"
  using begin_iff [of m it] by (auto simp: cuts_def)

lemma cut_begin_it: "chunks_ok m \<Longrightarrow> cuts m (begin_it m) [] (flat m)"
  by (simp add: cuts_def)

lemma cut_end_it: "cuts m (end_it m) (flat m) []"
  by (simp add: cuts_def)

lemma cut_prev: "chunks_ok m \<Longrightarrow> cuts m it (xs @ [p]) ys \<Longrightarrow> cuts m (it_prev m it) xs (p # ys)"
  using it_prev_ok [of m it] by (auto simp: cuts_def iter_ok_def)

lemma cut_put: "cuts m it xs (r # ys) \<Longrightarrow> cuts (put_rng m it r') it xs (r' # ys)"
  using cut_at(1) [of m it xs r ys] by (auto simp: cuts_def put_rng_flat)

lemma cut_put_after:
  "cuts m it xs (r # ys) \<Longrightarrow> cuts m it' (xs @ [r]) ys \<Longrightarrow> cuts (put_rng m it r') it' (xs @ [r']) ys"
  using cut_at(1) [of m it xs r ys] by (auto simp: cuts_def put_rng_flat)

lemma cut_put_ok:
  "chunks_ok m \<Longrightarrow> cuts m it xs (r # ys) \<Longrightarrow> fst r' < snd r' \<Longrightarrow> chunks_ok (put_rng m it r')"
  by (blast intro: put_rng_ok cut_at(1))

lemma cut_insert:
  assumes "chunks_ok m" "cuts m it xs ys" "fst v < snd v" "ordered (xs @ v # ys)"
    "insert_rng m it v = (m', it')"
  shows "chunks_ok m' \<and> cuts m' it' xs (v # ys)"
  using insert_rng_ok [of m it v m' it'] assms by (auto simp: cuts_def iter_ok_def)

lemma cut_erase:
  assumes "chunks_ok m" "cuts m it xs (r # ys)" "erase_rng m it = (m', it')"
  shows "chunks_ok m' \<and> cuts m' it' xs ys"
  using erase_rng_ok [of m it m' it'] assms cut_at(1) [OF assms(2)] by (auto simp: cuts_def)

lemma cut_set:
  assumes "chunks_ok m" "cuts m it xs (r # ys)" "f < b"
  shows "it_set m it f b = put_rng m it (f, b)"
  using it_set_put [OF assms(1) cut_at(1) [OF assms(2)]] assms(3) by simp

lemma cut_adjust:
  assumes "chunks_ok m" "cuts m it xs (r # ys)"
    "int (fst r) + front = int (fst r')" "int (snd r) + back = int (snd r')" "fst r' < snd r'"
  shows "it_adjust m it front back = put_rng m it r'"
  using it_adjust_put [OF assms(1) cut_at(1) [OF assms(2)]] cut_at(2) [OF assms(2)] assms(3-) by simp

lemma cut_shift:
  assumes "chunks_ok m" "cuts m it xs (r # ys)"
    "int (fst r) + d = int (fst r')" "int (snd r) + d = int (snd r')"
  shows "it_shift m it d = put_rng m it r'"
  using it_shift_put [OF assms(1) cut_at(1) [OF assms(2)]] cut_at(2) [OF assms(2)] assms(3-) by simp

lemma cut_pos: "chunks_ok m \<Longrightarrow> cuts m it xs ys \<Longrightarrow> \<forall>r \<in> set (xs @ ys). fst r < snd r"
proof -
  assume "chunks_ok m" and c: "cuts m it xs ys"
  then have "\<forall>r \<in> set (flat m). fst r < snd r" by (auto simp: flat_def chunks_ok_def chunk_ok_def)
  then show ?thesis using c by (simp add: cuts_def)
qed

lemma cuts_prefix:
  assumes "cuts m it xs ys"
  shows "xs = flat (take (fst it) m) @ take (snd it) (flat (drop (fst it) m))"
proof -
  have "flat m = flat (take (fst it) m) @ flat (drop (fst it) m)"
    by (metis append_take_drop_id flat_simps(3))
  moreover have "xs = take (length xs) (flat m)" using assms by (simp add: cuts_def)
  moreover have "length xs = length (flat (take (fst it) m)) + snd it"
    using assms by (simp add: cuts_def ipos_def)
  ultimately show ?thesis by simp
qed

text \<open>The chunk in which an iterator at the start of a chunk stands.\<close>

lemma cut_chunk:
  assumes ok: "chunks_ok m" and c: "cuts m it xs ys" and ne: "not_end m it" and z: "snd it = 0"
  obtains zs where "ys = cdata (m ! fst it) @ zs" "cuts m (next_chunk it) (xs @ cdata (m ! fst it)) zs"
proof -
  let ?o = "fst it"
  have o: "?o < length m" using ne by (simp add: not_end_def)
  have m: "flat m = flat (take ?o m) @ cdata (m ! ?o) @ flat (drop (Suc ?o) m)"
    by (subst id_take_nth_drop [OF o]) simp
  have "length xs = length (flat (take ?o m))" using c z by (simp add: cuts_def ipos_def)
  then have xy: "xs = flat (take ?o m)" "ys = cdata (m ! ?o) @ flat (drop (Suc ?o) m)"
    using c m by (auto simp: cuts_def append_eq_append_conv)
  have "iter_ok m (next_chunk it)" using iter_ok_chunk [OF ok, of "Suc ?o"] o by (simp add: next_chunk_def)
  moreover have "ipos m (next_chunk it) = length (xs @ cdata (m ! ?o))"
    using o xy by (simp add: ipos_def next_chunk_def take_Suc_conv_app_nth)
  ultimately show thesis using that xy m by (simp add: cuts_def)
qed

end
