(* ===== verification/Index_Set.thy ===== *)
theory Index_Set
  imports Range_Vector "HOL-Library.While_Combinator"
begin

section \<open>Index sets: the operations\<close>

text \<open>
  \<open>IndexSet\<close> of index\_set.hpp and index\_set.cpp, operation by operation over the chunked
  vector of ranges, together with the builder that the operations taking a whole index set
  fill. An operation that changes the set returns the new vector; a mutable iterator handed
  from call to call is returned beside it. The traversal of a set that is only read
  (\<open>as_indexes()\<close>, a range-based \<open>for\<close>) is the list of the indexes or ranges it visits.
\<close>

subsection \<open>The builder\<close>

record rv_builder =
  b_data :: chunks
  b_outer :: nat

definition builder_for :: "chunks \<Rightarrow> rv_builder" where
  "builder_for expected =
     (let size = sum_list (map (\<lambda>c. length (cdata c)) expected) in
      \<lparr>b_data = replicate (size div max_size + 1) empty_chunk, b_outer = 0\<rparr>)"

definition builder_push :: "rv_builder \<Rightarrow> rng \<Rightarrow> rv_builder" where
  "builder_push b r =
     (let o' = b_outer b; c = b_data b ! o' in
      if cdata c = [] then
        b\<lparr>b_data := (b_data b)[o' := c\<lparr>cdata := [r], ccount := sz_sub (snd r) (fst r),
                                       cbegin := fst r\<rparr>]\<rparr>
      else if fst r = snd (last (cdata c)) then
        b\<lparr>b_data := (b_data b)[o' := c\<lparr>
            cdata := butlast (cdata c) @ [(fst (last (cdata c)), snd r)],
            ccount := ccount c + sz_sub (snd r) (fst r)\<rparr>]\<rparr>
      else if length (cdata c) < max_size then
        b\<lparr>b_data := (b_data b)[o' := c\<lparr>cdata := cdata c @ [r],
            ccount := ccount c + sz_sub (snd r) (fst r)\<rparr>]\<rparr>
      else
        (let d = (b_data b)[o' := c\<lparr>cend := snd (last (cdata c))\<rparr>] in
         if length d \<le> Suc o' then
           b\<lparr>b_data := d @ [\<lparr>cdata = [r], cbegin = fst r, cend = 0, ccount = 1\<rparr>],
             b_outer := Suc o'\<rparr>
         else
           (let c2 = d ! Suc o' in
            b\<lparr>b_data := d[Suc o' := c2\<lparr>cdata := cdata c2 @ [r], cbegin := fst r,
                                        ccount := sz_sub (snd r) (fst r)\<rparr>],
              b_outer := Suc o'\<rparr>)))"

definition builder_push_index :: "rv_builder \<Rightarrow> nat \<Rightarrow> rv_builder" where
  "builder_push_index b i = builder_push b (i, i + 1)"

definition builder_finalize :: "rv_builder \<Rightarrow> chunks" where
  "builder_finalize b =
     (if b_data b = [] then []
      else
        (let d = take (b_outer b + 1) (b_data b) in
         if cdata (last d) = [] then butlast d
         else butlast d @ [(last d)\<lparr>cend := snd (last (cdata (last d)))\<rparr>]))"

subsection \<open>Lookup\<close>

text \<open>The walk of \<open>as_indexes()\<close>: every index of every range, in order.\<close>

definition as_indexes :: "chunks \<Rightarrow> nat list" where
  "as_indexes m = concat (map (\<lambda>r. [fst r..<snd r]) (flat m))"

definition find_from :: "chunks \<Rightarrow> nat \<Rightarrow> iter \<Rightarrow> iter" where
  "find_from m index begin =
     (let o' = fst begin + find_if (\<lambda>c. cend c > index) (drop (fst begin) m) in
      if o' = length m then end_it m
      else if index < cbegin (m ! o') then (o', 0)
      else
        (let inner_begin = (if o' = fst begin then snd begin else 0) in
         (o', inner_begin + find_if (\<lambda>r. \<not> snd r \<le> index) (drop inner_begin (cdata (m ! o'))))))"

definition find_index :: "chunks \<Rightarrow> nat \<Rightarrow> iter" where
  "find_index m index = find_from m index (begin_it m)"

definition iset_contains :: "chunks \<Rightarrow> nat \<Rightarrow> bool" where
  "iset_contains m index = (let it = find_index m index in it \<noteq> end_it m \<and> fst (at m it) \<le> index)"

text \<open>The loops of \<open>count\<close>: the rest of the chunk in which the range starts, the complete
  chunks, the complete ranges of the last chunk.\<close>

function count_rest_of_chunk :: "chunks \<Rightarrow> iter \<Rightarrow> nat \<Rightarrow> nat \<Rightarrow> nat \<times> iter" where
  "count_rest_of_chunk m it end_index ret =
     (if not_end m it \<and> snd (at m it) < end_index \<and> snd it \<noteq> 0
      then count_rest_of_chunk m (it_next m it) end_index (ret + sz_sub (snd (at m it)) (fst (at m it)))
      else (ret, it))"
  by pat_completeness auto
termination
  by (relation "measures [\<lambda>(m, it, e, r). length m - fst it,
      \<lambda>(m, it, e, r). length (cdata (m ! fst it)) - snd it]")
    (auto simp: not_end_def it_next_def next_chunk_def)

function count_chunks :: "chunks \<Rightarrow> iter \<Rightarrow> nat \<Rightarrow> nat \<Rightarrow> nat \<times> iter" where
  "count_chunks m it end_index ret =
     (if not_end m it \<and> cend (m ! fst it) \<le> end_index
      then count_chunks m (next_chunk it) end_index (ret + ccount (m ! fst it))
      else (ret, it))"
  by pat_completeness auto
termination
  by (relation "measure (\<lambda>(m, it, e, r). length m - fst it)") (auto simp: not_end_def next_chunk_def)

function count_ranges :: "chunks \<Rightarrow> iter \<Rightarrow> nat \<Rightarrow> nat \<Rightarrow> nat \<times> iter" where
  "count_ranges m it end_index ret =
     (if not_end m it \<and> snd (at m it) \<le> end_index
      then count_ranges m (it_next m it) end_index (ret + sz_sub (snd (at m it)) (fst (at m it)))
      else (ret, it))"
  by pat_completeness auto
termination
  by (relation "measures [\<lambda>(m, it, e, r). length m - fst it,
      \<lambda>(m, it, e, r). length (cdata (m ! fst it)) - snd it]")
    (auto simp: not_end_def it_next_def next_chunk_def)

declare count_rest_of_chunk.simps [simp del] count_chunks.simps [simp del] count_ranges.simps [simp del]

definition count_tail :: "chunks \<Rightarrow> iter \<Rightarrow> nat \<Rightarrow> nat \<Rightarrow> nat" where
  "count_tail m it end_index ret =
     (let (ret, it) = count_chunks m it end_index ret;
          (ret, it) = count_ranges m it end_index ret
      in if it \<noteq> end_it m \<and> fst (at m it) < end_index
         then ret + sz_sub end_index (fst (at m it)) else ret)"

definition iset_count :: "chunks \<Rightarrow> nat \<Rightarrow> nat \<Rightarrow> nat" where
  "iset_count m start_index end_index =
     (let it = find_index m start_index in
      if it = end_it m \<or> fst (at m it) \<ge> end_index then 0
      else if snd (at m it) \<ge> end_index then
        sz_sub (min (snd (at m it)) end_index) (max (fst (at m it)) start_index)
      else if start_index > fst (at m it) \<or> snd it \<noteq> 0 then
        (let ret = sz_sub (snd (at m it)) (max (fst (at m it)) start_index);
             (ret, it) = count_rest_of_chunk m (it_next m it) end_index ret;
             ret = (if it \<noteq> end_it m \<and> fst (at m it) < end_index \<and> snd it \<noteq> 0
                    then ret + sz_sub end_index (fst (at m it)) else ret)
         in if it = end_it m \<or> snd (at m it) \<ge> end_index then ret
            else count_tail m it end_index ret)
      else count_tail m it end_index 0)"

subsection \<open>Adding indexes\<close>

definition do_add :: "chunks \<Rightarrow> iter \<Rightarrow> nat \<Rightarrow> chunks \<times> iter" where
  "do_add m it index =
     (let more_before = (it \<noteq> begin_it m); valid = (it \<noteq> end_it m); prev = it_prev m it in
      if valid \<and> fst (at m it) \<le> index \<and> snd (at m it) > index then (m, it)
      else if more_before \<and> snd (at m prev) = index then
        (let m1 = it_adjust m prev 0 1 in
         if valid \<and> snd (at m1 prev) = fst (at m1 it) then
           (let m2 = it_adjust m1 prev 0 (int (snd (at m1 it)) - int (fst (at m1 it)));
                (m3, e) = erase_rng m2 it
            in (m3, it_prev m3 e))
         else (m1, prev))
      else if valid \<and> fst (at m it) = index + 1 then (it_adjust m it (- 1) 0, it)
      else insert_rng m it (index, index + 1))"

definition iset_add :: "chunks \<Rightarrow> nat \<Rightarrow> chunks" where
  "iset_add m index = fst (do_add m (find_index m index) index)"

definition iset_of_list :: "nat list \<Rightarrow> chunks" where
  "iset_of_list values = foldl iset_add [] values"

fun add_indexes :: "chunks \<Rightarrow> iter \<Rightarrow> nat list \<Rightarrow> chunks" where
  "add_indexes m it [] = m"
| "add_indexes m it (index # is) =
     (let (m', it') = do_add m (find_from m index it) index in add_indexes m' it' is)"

definition iset_add_set :: "chunks \<Rightarrow> chunks \<Rightarrow> chunks" where
  "iset_add_set m other = add_indexes m (begin_it m) (as_indexes other)"

function shift_chunks :: "chunks \<Rightarrow> iter \<Rightarrow> nat \<Rightarrow> nat \<times> iter" where
  "shift_chunks m it index =
     (if not_end m it \<and> cend (m ! fst it) \<le> index
      then shift_chunks m (next_chunk it) (index + ccount (m ! fst it)) else (index, it))"
  by pat_completeness auto
termination
  by (relation "measure (\<lambda>(m, it, i). length m - fst it)") (auto simp: not_end_def next_chunk_def)

function shift_ranges :: "chunks \<Rightarrow> iter \<Rightarrow> nat \<Rightarrow> nat \<times> iter" where
  "shift_ranges m it index =
     (if not_end m it \<and> fst (at m it) \<le> index
      then shift_ranges m (it_next m it) (index + sz_sub (snd (at m it)) (fst (at m it)))
      else (index, it))"
  by pat_completeness auto
termination
  by (relation "measures [\<lambda>(m, it, i). length m - fst it,
      \<lambda>(m, it, i). length (cdata (m ! fst it)) - snd it]")
    (auto simp: not_end_def it_next_def next_chunk_def)

declare shift_chunks.simps [simp del] shift_ranges.simps [simp del]

definition add_shifted :: "chunks \<Rightarrow> nat \<Rightarrow> chunks \<times> nat" where
  "add_shifted m index =
     (let (index, it) = shift_chunks m (begin_it m) index;
          (index, it) = shift_ranges m it index
      in (fst (do_add m it index), index))"

text \<open>\<open>add_shifted_by\<close>: the two inner loops and the loop over the values, with the ranges
  of the two sets that are left, then the copy of the ranges that remain.\<close>

fun skip_shifts :: "rng list \<Rightarrow> nat \<Rightarrow> nat \<Rightarrow> nat \<Rightarrow> rng list \<times> nat \<times> nat" where
  "skip_shifts [] index new_shift skip_until = ([], new_shift, skip_until)"
| "skip_shifts (s # ss) index new_shift skip_until =
     (if fst s \<le> index
      then skip_shifts ss index (new_shift + sz_sub (snd s) (fst s)) (snd s)
      else (s # ss, new_shift, skip_until))"

fun copy_old :: "rv_builder \<Rightarrow> rng list \<Rightarrow> nat \<Rightarrow> nat \<Rightarrow> nat \<Rightarrow> rv_builder \<times> rng list \<times> nat" where
  "copy_old b [] index new_shift old_shift = (b, [], old_shift)"
| "copy_old b (r # rs) index new_shift old_shift =
     (if fst r \<le> sz_sub index new_shift + old_shift
      then copy_old (foldl builder_push_index b [fst r..<snd r]) rs index new_shift
             (old_shift + sz_sub (snd r) (fst r))
      else (b, r # rs, old_shift))"

fun add_shifted_loop ::
  "rv_builder \<Rightarrow> rng list \<Rightarrow> rng list \<Rightarrow> nat \<Rightarrow> nat \<Rightarrow> nat \<Rightarrow> nat list \<Rightarrow> rv_builder \<times> rng list" where
  "add_shifted_loop b old shifts skip_until old_shift new_shift [] = (b, old)"
| "add_shifted_loop b old shifts skip_until old_shift new_shift (index # values) =
     (let (shifts, new_shift, skip_until) = skip_shifts shifts index new_shift skip_until in
      if index < skip_until
      then add_shifted_loop b old shifts skip_until old_shift new_shift values
      else
        (let (b, old, old_shift) = copy_old b old index new_shift old_shift;
             b = builder_push_index b (sz_sub index new_shift + old_shift)
         in add_shifted_loop b old shifts skip_until old_shift new_shift values))"

definition add_shifted_by :: "chunks \<Rightarrow> chunks \<Rightarrow> chunks \<Rightarrow> chunks" where
  "add_shifted_by m shifted_by values =
     (if values = [] then m
      else
        (let (b, old) = add_shifted_loop (builder_for m) (flat m) (flat shifted_by) 0 0 0
                          (as_indexes values)
         in builder_finalize (foldl builder_push b old)))"

definition set_len :: "nat \<Rightarrow> chunks" where
  "set_len len = (if len \<noteq> 0 then push_back [] (0, len) else [])"

subsection \<open>Inserting and shifting\<close>

function shift_from :: "chunks \<Rightarrow> iter \<Rightarrow> int \<Rightarrow> chunks" where
  "shift_from m it d =
     (if not_end m it then (let m' = it_shift m it d in shift_from m' (it_next m' it) d) else m)"
  by pat_completeness auto
termination
proof (relation "measures [\<lambda>(m, it, d). length m - fst it,
    \<lambda>(m, it, d). length (cdata (m ! fst it)) - snd it]", goal_cases)
  case (2 m it d x)
  have s: "map (\<lambda>c. length (cdata c)) x = map (\<lambda>c. length (cdata c)) m" using 2 by simp
  show ?case
    using 2 shape_it_next [OF s 2(1)] shape_length [OF s] shape_nth [OF s, of "fst it"]
    by (auto simp: not_end_def it_next_def next_chunk_def)
qed auto

declare shift_from.simps [simp del]

fun add_run :: "chunks \<Rightarrow> iter \<Rightarrow> nat \<Rightarrow> nat \<Rightarrow> chunks" where
  "add_run m pos index 0 = m"
| "add_run m pos index (Suc n) =
     (let (m', e) = do_add m pos index in add_run m' (it_next m' e) (index + 1) n)"

definition insert_at :: "chunks \<Rightarrow> nat \<Rightarrow> nat \<Rightarrow> chunks" where
  "insert_at m index count =
     (let pos = find_index m index in
      if pos \<noteq> end_it m then
        if fst (at m pos) \<le> index then
          (let m1 = it_adjust m pos 0 (int count) in shift_from m1 (it_next m1 pos) (int count))
        else
          (let m1 = it_shift m pos (int count);
               m2 = shift_from m1 (it_next m1 pos) (int count)
           in add_run m2 pos index count)
      else add_run m pos index count)"

fun insert_merge :: "rv_builder \<Rightarrow> nat list \<Rightarrow> nat list \<Rightarrow> nat \<Rightarrow> rv_builder" where
  "insert_merge b (x # xs) (y # ys) shift =
     (if x + shift < y then insert_merge (builder_push_index b (x + shift)) xs (y # ys) shift
      else insert_merge (builder_push_index b y) (x # xs) ys (shift + 1))"
| "insert_merge b xs [] shift = foldl builder_push_index b (map (\<lambda>x. x + shift) xs)"
| "insert_merge b [] ys shift = foldl builder_push_index b ys"

definition insert_at_set :: "chunks \<Rightarrow> chunks \<Rightarrow> chunks" where
  "insert_at_set m positions =
     (if positions = [] then m
      else if m = [] then positions
      else builder_finalize (insert_merge (builder_for m) (as_indexes m) (as_indexes positions) 0))"

definition shift_for_insert_at :: "chunks \<Rightarrow> nat \<Rightarrow> nat \<Rightarrow> chunks" where
  "shift_for_insert_at m index count =
     (let it = find_index m index in
      if it = end_it m then m
      else
        (let m1 = shift_from m it (int count) in
         if fst (at m1 it) < index + count then
           (let old_second = snd (at m1 it);
                m2 = it_set m1 it (sz_sub (fst (at m1 it)) count) index
            in fst (insert_rng m2 (it_next m2 it) (index + count, old_second)))
         else m1))"

fun shift_merge :: "rv_builder \<Rightarrow> nat list \<Rightarrow> nat list \<Rightarrow> nat \<Rightarrow> rv_builder" where
  "shift_merge b (x # xs) (y # ys) shift =
     (if x + shift < y then shift_merge (builder_push_index b (x + shift)) xs (y # ys) shift
      else shift_merge b (x # xs) ys (shift + 1))"
| "shift_merge b xs [] shift = foldl builder_push_index b (map (\<lambda>x. x + shift) xs)"
| "shift_merge b [] ys shift = b"

definition shift_for_insert_at_set :: "chunks \<Rightarrow> chunks \<Rightarrow> chunks" where
  "shift_for_insert_at_set m values =
     (if m = [] \<or> values = [] then m
      else if cbegin (hd values) \<ge> cend (last m) then m
      else builder_finalize (shift_merge (builder_for m) (as_indexes m) (as_indexes values) 0))"

subsection \<open>Erasing and removing\<close>

definition do_erase :: "chunks \<Rightarrow> iter \<Rightarrow> nat \<Rightarrow> chunks" where
  "do_erase m it index =
     (let (m1, it1) =
        (if fst (at m it) \<le> index then
           (if fst (at m it) + 1 = snd (at m it) then erase_rng m it
            else (let m' = it_adjust m it 0 (- 1) in (m', it_next m' it)))
         else if it \<noteq> begin_it m \<and> snd (at m (it_prev m it)) + 1 = fst (at m it) then
           erase_rng (it_adjust m (it_prev m it) 0 (int (snd (at m it)) - int (fst (at m it)))) it
         else (m, it))
      in shift_from m1 it1 (- 1))"

definition erase_at :: "chunks \<Rightarrow> nat \<Rightarrow> chunks" where
  "erase_at m index =
     (let it = find_index m index in if it \<noteq> end_it m then do_erase m it index else m)"

fun erase_merge :: "rv_builder \<Rightarrow> nat list \<Rightarrow> nat list \<Rightarrow> nat \<Rightarrow> rv_builder" where
  "erase_merge b (x # xs) (y # ys) shift =
     (if x < y then erase_merge (builder_push_index b (sz_sub x shift)) xs (y # ys) shift
      else if x = y then erase_merge b xs ys (shift + 1)
      else erase_merge b (x # xs) ys (shift + 1))"
| "erase_merge b xs [] shift = foldl builder_push_index b (map (\<lambda>x. sz_sub x shift) xs)"
| "erase_merge b [] ys shift = b"

definition erase_at_set :: "chunks \<Rightarrow> chunks \<Rightarrow> chunks" where
  "erase_at_set m positions =
     (if m = [] \<or> positions = [] then m
      else builder_finalize (erase_merge (builder_for m) (as_indexes m) (as_indexes positions) 0))"

function unshift_chunks :: "chunks \<Rightarrow> iter \<Rightarrow> nat \<Rightarrow> nat \<Rightarrow> nat \<times> iter" where
  "unshift_chunks m it index shifted =
     (if not_end m it \<and> cend (m ! fst it) \<le> index
      then unshift_chunks m (next_chunk it) index (sz_sub shifted (ccount (m ! fst it)))
      else (shifted, it))"
  by pat_completeness auto
termination
  by (relation "measure (\<lambda>(m, it, i, s). length m - fst it)") (auto simp: not_end_def next_chunk_def)

function unshift_ranges :: "chunks \<Rightarrow> iter \<Rightarrow> nat \<Rightarrow> nat \<Rightarrow> nat \<times> iter" where
  "unshift_ranges m it index shifted =
     (if not_end m it \<and> snd (at m it) \<le> index
      then unshift_ranges m (it_next m it) index (sz_sub shifted (sz_sub (snd (at m it)) (fst (at m it))))
      else (shifted, it))"
  by pat_completeness auto
termination
  by (relation "measures [\<lambda>(m, it, i, s). length m - fst it,
      \<lambda>(m, it, i, s). length (cdata (m ! fst it)) - snd it]")
    (auto simp: not_end_def it_next_def next_chunk_def)

declare unshift_chunks.simps [simp del] unshift_ranges.simps [simp del]

definition erase_or_unshift :: "chunks \<Rightarrow> nat \<Rightarrow> chunks \<times> nat" where
  "erase_or_unshift m index =
     (let (shifted, it) = unshift_chunks m (begin_it m) index index;
          (shifted, it) = unshift_ranges m it index shifted
      in if it = end_it m then (m, shifted)
         else (do_erase m it index, if fst (at m it) \<le> index then npos else shifted))"

text \<open>One round of the loop of \<open>do_remove\<close> over the vector, the iterator and \<open>begin\<close>; the
  search for the next range to cut is part of it. \<open>while\<close> keeps the loop as a loop, and its
  termination on well-formed sets is proved with the functional result.\<close>

definition do_remove_step :: "nat \<Rightarrow> chunks \<times> iter \<times> nat \<Rightarrow> chunks \<times> iter \<times> nat" where
  "do_remove_step end' = (\<lambda>(m, it, begin).
     let begin = max (fst (at m it)) begin;
         (m, it) =
           (if fst (at m it) < begin \<and> snd (at m it) > end' then
              (let old_second = snd (at m it);
                   m1 = it_set m it (fst (at m it)) begin;
                   (m2, e) = insert_rng m1 (it_next m1 it) (end', old_second)
               in (m2, it_prev m2 e))
            else if begin = fst (at m it) \<and> end' \<ge> snd (at m it) then erase_rng m it
            else if begin = fst (at m it) then (it_set m it end' (snd (at m it)), it)
            else (it_set m it (fst (at m it)) begin, it))
     in (m, find_from m begin it, begin))"

definition do_remove_cond :: "nat \<Rightarrow> chunks \<times> iter \<times> nat \<Rightarrow> bool" where
  "do_remove_cond end' = (\<lambda>(m, it, begin). it \<noteq> end_it m \<and> fst (at m it) < end')"

definition do_remove :: "chunks \<Rightarrow> iter \<Rightarrow> nat \<Rightarrow> nat \<Rightarrow> chunks \<times> iter" where
  "do_remove m it begin end' =
     (let (m', it', _) = while (do_remove_cond end') (do_remove_step end')
                           (m, find_from m begin it, begin)
      in (m', it'))"

definition iset_remove :: "chunks \<Rightarrow> nat \<Rightarrow> nat \<Rightarrow> chunks" where
  "iset_remove m index count = fst (do_remove m (find_index m index) index (index + count))"

fun remove_ranges :: "chunks \<Rightarrow> iter \<Rightarrow> rng list \<Rightarrow> chunks" where
  "remove_ranges m it [] = m"
| "remove_ranges m it (r # rs) =
     (let (m', it') = do_remove m it (fst r) (snd r) in
      if it' = end_it m' then m' else remove_ranges m' it' rs)"

definition iset_remove_set :: "chunks \<Rightarrow> chunks \<Rightarrow> chunks" where
  "iset_remove_set m values = remove_ranges m (begin_it m) (flat values)"

subsection \<open>Shifting a single index\<close>

fun shift_index :: "rng list \<Rightarrow> nat \<Rightarrow> nat" where
  "shift_index [] index = index"
| "shift_index (r # rs) index =
     (if fst r > index then index else shift_index rs (index + sz_sub (snd r) (fst r)))"

definition iset_shift :: "chunks \<Rightarrow> nat \<Rightarrow> nat" where
  "iset_shift m index = shift_index (flat m) index"

definition iset_unshift :: "chunks \<Rightarrow> nat \<Rightarrow> nat" where
  "iset_unshift m index = sz_sub index (iset_count m 0 index)"

definition iset_clear :: "chunks \<Rightarrow> chunks" where
  "iset_clear m = []"

end
