(* ===== verification/Index_Set_Edit.thy ===== *)
theory Index_Set_Edit
  imports Index_Rows Index_Set
begin

section \<open>Index sets: single edits are correct\<close>

text \<open>
  The operations of \<open>IndexSet\<close> that work in place through mutable iterators: lookup, adding,
  inserting, erasing and removing. Each lemma says that the operation keeps \<open>vec_ok\<close> (what
  \<open>verify\<close> checks and the chunk bounds) and what it does to \<open>elems\<close>.
\<close>

subsection \<open>Finding a position\<close>

lemma find_if_append:
  "\<forall>x \<in> set xs. \<not> p x \<Longrightarrow> find_if p (xs @ ys) = length xs + find_if p ys"
  by (simp add: find_if_def takeWhile_append2)

lemma find_if_hit: "p y \<Longrightarrow> find_if p (y # ys) = 0"
  by (simp add: find_if_def)

lemma find_if_none: "\<forall>x \<in> set xs. \<not> p x \<Longrightarrow> find_if p xs = length xs"
  using find_if_append [of xs p "[]"] by (simp add: find_if_def)

lemma chunk_ends:
  assumes "sorted_ranges (cdata c)" "chunk_ok c" "r \<in> set (cdata c)"
  shows "snd r \<le> cend c" and "cbegin c \<le> fst r"
proof -
  from assms(2) have e: "cend c = snd (last (cdata c))" "cbegin c = fst (hd (cdata c))" "cdata c \<noteq> []"
    by (auto simp: chunk_ok_def)
  show "snd r \<le> cend c"
  proof -
    have "sorted_ranges (butlast (cdata c) @ [last (cdata c)])"
      "r \<in> set (butlast (cdata c) @ [last (cdata c)])"
      using assms(1,3) e(3) by simp_all
    then show ?thesis unfolding e(1) by auto
  qed
  show "cbegin c \<le> fst r"
    using assms(1,3) e by (cases "cdata c") (auto dest: bspec)
qed

definition at_index :: "nat \<Rightarrow> rng list \<Rightarrow> rng list \<Rightarrow> bool" where
  "at_index i xs ys \<longleftrightarrow> (\<forall>r \<in> set xs. snd r \<le> i) \<and> (\<forall>r \<in> set ys. i < snd r)"

lemma at_index_Cons:
  "sorted_ranges (xs @ r # ys) \<Longrightarrow> \<forall>r \<in> set xs. snd r \<le> i \<Longrightarrow> i < snd r \<Longrightarrow> at_index i xs (r # ys)"
  by (fastforce simp: at_index_def dest: sorted_ranges_pos)

lemma at_index_glue:
  "sorted_ranges xs \<Longrightarrow> sorted_ranges ys \<Longrightarrow>
    at_index i xs ys \<longleftrightarrow> (xs = [] \<or> snd (last xs) \<le> i) \<and> (ys = [] \<or> i < snd (hd ys))"
  by (simp add: at_index_def le_last hd_less)

lemma at_index_gap:
  assumes "sorted_ranges (xs @ ys)" "\<forall>r \<in> set xs. snd r \<le> i" "\<forall>r \<in> set ys. i \<le> fst r"
  shows "at_index i xs ys"
  unfolding at_index_def
proof (intro conjI ballI)
  fix r assume "r \<in> set ys"
  then have "i \<le> fst r" "fst r < snd r" using assms sorted_ranges_pos [of "xs @ ys" r] by auto
  then show "i < snd r" by simp
qed (use assms in auto)

lemma find_from_correct:
  assumes ok: "vec_ok m" and c: "cuts m it us vs" and us: "\<forall>r \<in> set us. snd r \<le> i"
  obtains xs ys where "cuts m (find_from m i it) xs ys" "at_index i xs ys"
proof -
  let ?o = "fst it"
  from ok have ch: "chunks_ok m" and so: "sorted_ranges (flat m)" by (auto simp: vec_ok_def)
  have o_le: "?o \<le> length m" using c by (auto simp: cuts_def iter_ok_def not_end_def end_it_def)
  obtain as bs where d: "drop ?o m = as @ bs" and n: "find_if (\<lambda>c. i < cend c) (drop ?o m) = length as"
    and as: "\<forall>c \<in> set as. \<not> i < cend c" and bs: "bs = [] \<or> i < cend (hd bs)"
    by (rule find_if_split)
  let ?o' = "?o + length as"
  have m: "m = take ?o m @ as @ bs" using d by (metis append_take_drop_id)
  have so_m: "sorted_ranges (cdata c)" if "c \<in> set m" for c
  proof -
    from that obtain p q where "m = p @ c # q" by (auto dest: split_list)
    then show ?thesis using so by simp
  qed
  have ch_m: "chunk_ok c" if "c \<in> set m" for c using ch that by (simp add: chunks_ok_def)
  have in_m: "c \<in> set m" if "c \<in> set as \<union> set bs" for c using that m by (metis Un_iff set_append)
  have as_le: "snd r \<le> i" if "r \<in> set (flat as)" for r
  proof -
    from that obtain c where "c \<in> set as" "r \<in> set (cdata c)" by (auto simp: flat_def)
    then show ?thesis using as chunk_ends(1) [OF so_m ch_m] in_m by fastforce
  qed
  have pre_le: "snd r \<le> i" if "r \<in> set (flat (take ?o m))" for r
  proof -
    have "us = flat (take ?o m) @ take (snd it) (flat (drop ?o m))"
      using c by (rule cuts_prefix)
    then have "set (flat (take ?o m)) \<subseteq> set us" by (metis Un_upper1 set_append)
    then show ?thesis using that us by auto
  qed
  show thesis
  proof (cases bs)
    case Nil
    then have "?o' = length m" using d o_le by (metis append_Nil2 length_drop le_add_diff_inverse)
    then have "find_from m i it = end_it m" using n by (simp add: find_from_def)
    moreover have "at_index i (flat m) []"
      using Nil as_le pre_le by (subst m) (auto simp: at_index_def)
    ultimately show thesis using that cut_end_it [of m] by simp
  next
    case (Cons b bs')
    have o': "?o' < length m" using m Cons o_le by (metis add.commute d drop_drop drop_eq_Nil
          leI list.distinct(1) append_eq_conv_conj)
    have b: "m ! ?o' = b" using d Cons o_le
      by (metis nth_append_length nth_drop)
    have tk: "take ?o' m = take ?o m @ as" using d by (metis append_eq_conv_conj take_add)
    have fl: "flat m = flat (take ?o m) @ flat as @ cdata b @ flat bs'"
      by (subst m) (simp add: Cons)
    have ib: "i < cend b" using bs Cons by simp
    have b_m: "b \<in> set m" using in_m Cons by simp
    have at0: "at_index i (flat (take ?o m) @ flat as @ p) (q @ flat bs')"
      if pq: "cdata b = p @ q" "\<forall>r \<in> set p. snd r \<le> i" "q \<noteq> []" "i < snd (hd q)" for p q
    proof -
      obtain r q' where q: "q = r # q'" using pq(3) by (cases q) auto
      have "sorted_ranges ((flat (take ?o m) @ flat as @ p) @ r # (q' @ flat bs'))"
        using so fl pq(1) q by simp
      then have "at_index i (flat (take ?o m) @ flat as @ p) (r # (q' @ flat bs'))"
        using pq q as_le pre_le by (intro at_index_Cons) auto
      then show ?thesis using q by simp
    qed
    have cut0: "cuts m (?o', j) (flat (take ?o m) @ flat as @ take j (cdata b)) (drop j (cdata b) @ flat bs')"
      if "j < length (cdata b)" for j
      using that o' b tk fl by (simp add: cuts_def iter_ok_def not_end_def ipos_def)
    show thesis
    proof (cases "i < cbegin b")
      case True
      then have "find_from m i it = (?o', 0)" using n o' b by (simp add: find_from_def)
      moreover have ne: "cdata b \<noteq> []" using ch_m [OF b_m] by (simp add: chunk_ok_def)
      moreover have "i < snd (hd (cdata b))"
        using True ch_m [OF b_m] ne by (auto simp: chunk_ok_def dest!: bspec [of _ _ "hd (cdata b)"])
      ultimately show thesis using that [OF _ at0 [of "[]" "cdata b"]] cut0 [of 0] by simp
    next
      case False
      let ?ib = "if as = [] then snd it else 0"
      have ib_le: "\<forall>r \<in> set (take ?ib (cdata b)). snd r \<le> i"
      proof (cases "as = []")
        case True
        have "snd it < length (cdata b)"
          using c o' b True by (auto simp: cuts_def iter_ok_def not_end_def end_it_def)
        then have "us = flat (take ?o m) @ take (snd it) (cdata b)"
          using cuts_prefix [OF c] d True Cons by simp
        then show ?thesis using us True by auto
      qed simp
      obtain p q where pq: "drop ?ib (cdata b) = p @ q" and
        nq: "find_if (\<lambda>r. \<not> snd r \<le> i) (drop ?ib (cdata b)) = length p"
        and p: "\<forall>r \<in> set p. \<not> \<not> snd r \<le> i" and q: "q = [] \<or> \<not> snd (hd q) \<le> i"
        by (rule find_if_split)
      have cb: "cdata b = (take ?ib (cdata b) @ p) @ q" using pq by (metis append_assoc append_take_drop_id)
      have "q \<noteq> []"
      proof
        assume "q = []"
        then have "\<forall>r \<in> set (cdata b). snd r \<le> i" using cb ib_le p by (metis Un_iff append_Nil2 set_append)
        then show False using ib ch_m [OF b_m]
          by (auto simp: chunk_ok_def dest!: bspec [of _ _ "last (cdata b)"])
      qed
      then have "0 < length q" by simp
      moreover have "?ib \<le> length (cdata b)"
        using c o' b by (auto simp: cuts_def iter_ok_def not_end_def end_it_def)
      ultimately have len: "?ib + length p < length (cdata b)"
        using pq by (metis add.commute add_less_cancel_left length_append length_drop
            le_add_diff_inverse less_add_same_cancel1 add.assoc)
      have tk2: "take (?ib + length p) (cdata b) = take ?ib (cdata b) @ p" "drop (?ib + length p) (cdata b) = q"
        using pq by (auto simp: take_add) (metis add.commute append_eq_conv_conj drop_drop)
      have "find_from m i it = (?o', ?ib + length p)"
        using n o' b False nq by (simp add: find_from_def)
      then show thesis
        using that [OF _ at0 [OF cb]] cut0 [OF len] tk2 ib_le p q \<open>q \<noteq> []\<close> by auto
    qed
  qed
qed

lemma find_index_correct:
  assumes "vec_ok m"
  obtains xs ys where "cuts m (find_index m i) xs ys" "at_index i xs ys"
  using find_from_correct [OF assms cut_begin_it, of i] assms
  by (auto simp: find_index_def vec_ok_def)

lemma at_index_contains:
  assumes "sorted_ranges (xs @ ys)" "at_index i xs ys"
  shows "i \<in> rows (xs @ ys) \<longleftrightarrow> ys \<noteq> [] \<and> fst (hd ys) \<le> i"
  using assms by (cases ys) (fastforce simp: at_index_def in_rows)+

lemma contains_correct:
  assumes "vec_ok m"
  shows "iset_contains m i \<longleftrightarrow> i \<in> elems m"
proof -
  from assms obtain xs ys where c: "cuts m (find_index m i) xs ys" and a: "at_index i xs ys"
    by (rule find_index_correct)
  have s: "sorted_ranges (xs @ ys)" and e: "elems m = rows (xs @ ys)"
    using assms c by (auto simp: vec_ok_def cuts_def elems_def)
  show ?thesis unfolding e at_index_contains [OF s a]
    using c by (cases ys) (auto simp: iset_contains_def Let_def cut_end cut_at)
qed

subsection \<open>Shifting everything behind an iterator\<close>

definition shift_rng :: "int \<Rightarrow> rng \<Rightarrow> rng" where
  "shift_rng d r = (sz_off (fst r) d, sz_off (snd r) d)"

lemma shift_from_correct:
  assumes "chunks_ok m" "cuts m it xs ys" "\<forall>r \<in> set ys. 0 \<le> int (fst r) + d"
  shows "chunks_ok (shift_from m it d) \<and> cuts (shift_from m it d) it xs (map (shift_rng d) ys) \<and>
    map (\<lambda>c. length (cdata c)) (shift_from m it d) = map (\<lambda>c. length (cdata c)) m"
  using assms
proof (induction ys arbitrary: m it xs)
  case Nil
  then show ?case by (simp add: shift_from.simps [of m it] cut_not_end)
next
  case (Cons r ys)
  let ?m = "it_shift m it d"
  note ok = Cons.prems(1) and c = Cons.prems(2)
  have r: "fst r < snd r" using cut_pos [OF ok c] by simp
  have f: "int (fst r) + d = int (fst (shift_rng d r))" "int (snd r) + d = int (snd (shift_rng d r))"
    using Cons.prems(3) r by (auto simp: shift_rng_def sz_off_def)
  have m: "?m = put_rng m it (shift_rng d r)" by (rule cut_shift [OF ok c f])
  have ok': "chunks_ok ?m" unfolding m by (rule cut_put_ok [OF ok c]) (use f r in linarith)
  have sh: "map (\<lambda>c. length (cdata c)) ?m = map (\<lambda>c. length (cdata c)) m" by simp
  have nx: "it_next ?m it = it_next m it" by (rule shape_it_next [OF sh cut_at(1) [OF c]])
  have c': "cuts ?m (it_next ?m it) (xs @ [shift_rng d r]) ys"
    unfolding nx unfolding m by (rule cut_put_after [OF c cut_next [OF ok c]])
  have eq: "shift_from m it d = shift_from ?m (it_next ?m it) d"
    using cut_at(1) [OF c] by (simp add: shift_from.simps [of m it] Let_def)
  note IH = Cons.IH [OF ok' c'] Cons.prems(3)
  have "iter_ok m it" "ipos m it = length xs" using c by (auto simp: cuts_def)
  moreover have "map (\<lambda>c. length (cdata c)) (shift_from m it d) = map (\<lambda>c. length (cdata c)) m"
    using IH eq sh by simp
  ultimately show ?case
    using IH eq shape_ipos [of "shift_from m it d" m it] shape_iter_ok [of "shift_from m it d" m it]
    by (auto simp: cuts_def)
qed

lemma shift_rng_nat [simp]: "shift_rng (int n) = (\<lambda>r. (fst r + n, snd r + n))"
  by (simp add: shift_rng_def fun_eq_iff)

lemma shift_rng_minus: "0 < fst r \<Longrightarrow> fst r < snd r \<Longrightarrow> shift_rng (- 1) r = (fst r - 1, snd r - 1)"
  by (simp add: shift_rng_def sz_simps)

lemma rows_shift_up: "rows (map (\<lambda>r. (fst r + n, snd r + n)) rs) = (\<lambda>x. x + n) ` rows rs"
proof (induction rs)
  case (Cons r rs)
  have "{fst r + n..<snd r + n} = (\<lambda>x. x + n) ` {fst r..<snd r}"
    by (simp add: image_add_atLeastLessThan')
  then show ?case using Cons by (simp add: image_Un)
qed simp

lemma sorted_shift_up:
  "sorted_ranges (map (\<lambda>r. (fst r + n, snd r + n)) rs) \<longleftrightarrow> sorted_ranges rs"
  by (induction rs) auto

subsection \<open>Adding one index\<close>

text \<open>What \<open>do_add\<close> does to a cut at the index: the ranges before, the range that now holds
  the index and the ranges behind it.\<close>

definition add_cut :: "rng list \<Rightarrow> nat \<Rightarrow> rng list \<Rightarrow> rng list \<times> rng \<times> rng list" where
  "add_cut xs i ys =
     (if ys \<noteq> [] \<and> fst (hd ys) \<le> i then (xs, hd ys, tl ys)
      else if xs \<noteq> [] \<and> snd (last xs) = i then
        if ys \<noteq> [] \<and> fst (hd ys) = i + 1 then (butlast xs, (fst (last xs), snd (hd ys)), tl ys)
        else (butlast xs, (fst (last xs), i + 1), ys)
      else if ys \<noteq> [] \<and> fst (hd ys) = i + 1 then (xs, (i, snd (hd ys)), tl ys)
      else (xs, (i, i + 1), ys))"

lemma add_cut_rows:
  assumes s: "sorted_ranges (xs @ ys)" and a: "at_index i xs ys"
    and e: "add_cut xs i ys = (xs', r, ys')"
  shows "sorted_ranges (xs' @ r # ys')" "rows (xs' @ r # ys') = insert i (rows (xs @ ys))"
    "fst r \<le> i" "i < snd r" "\<forall>s \<in> set xs'. snd s \<le> i"
proof -
  have sx: "sorted_ranges xs" "sorted_ranges ys" using s by (auto simp: glue)
  note a' = a [unfolded at_index_glue [OF sx]]
  note del = sorted_ranges_simps(2,3)
  have "sorted_ranges (xs' @ r # ys') \<and> rows (xs' @ r # ys') = insert i (rows (xs @ ys)) \<and>
      fst r \<le> i \<and> i < snd r \<and> (xs' = [] \<or> snd (last xs') \<le> i)"
  proof (cases "ys \<noteq> [] \<and> fst (hd ys) \<le> i")
    case True
    then obtain y ys0 where ys: "ys = y # ys0" by (cases ys) auto
    then have "xs' = xs" "r = y" "ys' = ys0" using True e by (auto simp: add_cut_def)
    then show ?thesis using True s a' ys by auto
  next
    case F1: False
    show ?thesis
    proof (cases "xs \<noteq> [] \<and> snd (last xs) = i")
      case True
      then obtain xs0 p where xs: "xs = xs0 @ [p]" "snd p = i" by (metis append_butlast_last_id)
      have p: "fst p < i" using s xs by auto
      show ?thesis
      proof (cases "ys \<noteq> [] \<and> fst (hd ys) = i + 1")
        case True
        then obtain y ys0 where ys: "ys = y # ys0" by (cases ys) auto
        then have "xs' = xs0" "r = (fst p, snd y)" "ys' = ys0" using True F1 xs e by (auto simp: add_cut_def)
        moreover have "{fst p..<snd y} = insert i ({fst p..<i} \<union> {fst y..<snd y})"
          using True ys p a' by auto
        ultimately show ?thesis using xs ys s a' by (auto simp: glue simp del: del)
      next
        case False
        then have "xs' = xs0" "r = (fst p, Suc i)" "ys' = ys" using F1 xs e by (auto simp: add_cut_def)
        moreover have "{fst p..<Suc i} = insert i {fst p..<i}" using p by auto
        moreover have "ys \<noteq> [] \<Longrightarrow> Suc i < fst (hd ys)" using F1 False by auto
        ultimately show ?thesis using xs s a' by (auto simp: glue simp del: del)
      qed
    next
      case F2: False
      show ?thesis
      proof (cases "ys \<noteq> [] \<and> fst (hd ys) = i + 1")
        case True
        then obtain y ys0 where ys: "ys = y # ys0" by (cases ys) auto
        then have "xs' = xs" "r = (i, snd y)" "ys' = ys0" using True F1 F2 e by (auto simp: add_cut_def)
        moreover have "{i..<snd y} = insert i {fst y..<snd y}" using True ys a' by auto
        ultimately show ?thesis using F2 ys s a' by (auto simp: glue simp del: del)
      next
        case False
        then have "xs' = xs" "r = (i, Suc i)" "ys' = ys" using F1 F2 e by (auto simp: add_cut_def)
        moreover have "ys \<noteq> [] \<Longrightarrow> Suc i < fst (hd ys)" using F1 False by auto
        ultimately show ?thesis using F2 s a' by (auto simp: glue simp del: del)
      qed
    qed
  qed
  then show "sorted_ranges (xs' @ r # ys')" "rows (xs' @ r # ys') = insert i (rows (xs @ ys))"
    "fst r \<le> i" "i < snd r" "\<forall>s \<in> set xs'. snd s \<le> i" using le_last [of xs' i] by auto
qed

lemma do_add_correct:
  assumes ok: "chunks_ok m" and c: "cuts m it xs ys" and s: "sorted_ranges (xs @ ys)"
    and a: "at_index i xs ys" and e: "do_add m it i = (m', it')" and ac: "add_cut xs i ys = (xs', r, ys')"
  shows "chunks_ok m' \<and> cuts m' it' xs' (r # ys')"
proof -
  note bg = cut_begin [OF ok c] and en = cut_end [OF c]
  have hit: "it \<noteq> end_it m \<and> fst (at m it) \<le> i \<and> i < snd (at m it) \<longleftrightarrow> ys \<noteq> [] \<and> fst (hd ys) \<le> i"
    using c a en by (cases ys) (auto simp: cut_at at_index_def)
  have prev: "it \<noteq> begin_it m \<and> snd (at m (it_prev m it)) = i \<longleftrightarrow> xs \<noteq> [] \<and> snd (last xs) = i"
    using c bg cut_at(2) [OF cut_prev [OF ok]] by (cases xs rule: rev_cases) auto
  have nxt: "it \<noteq> end_it m \<and> fst (at m it) = i + 1 \<longleftrightarrow> ys \<noteq> [] \<and> fst (hd ys) = i + 1"
    using c en by (cases ys) (auto simp: cut_at)
  show ?thesis
  proof (cases "ys \<noteq> [] \<and> fst (hd ys) \<le> i")
    case True
    then have "m' = m" "it' = it" "xs' = xs" "r # ys' = ys"
      using e ac hit by (auto simp: do_add_def add_cut_def)
    then show ?thesis using ok c by simp
  next
    case F1: False
    show ?thesis
    proof (cases "xs \<noteq> [] \<and> snd (last xs) = i")
      case True
      then obtain xs0 p where xs: "xs = xs0 @ [p]" "snd p = i" by (metis append_butlast_last_id)
      let ?p = "it_prev m it" and ?r1 = "(fst p, i + 1)"
      have cp: "cuts m ?p xs0 (p # ys)" using cut_prev [OF ok] c xs by simp
      have lt: "fst p < i" using s xs by auto
      have m1: "it_adjust m ?p 0 1 = put_rng m ?p ?r1"
        by (rule cut_adjust [OF ok cp]) (use xs lt in auto)
      let ?m1 = "put_rng m ?p ?r1"
      have ok1: "chunks_ok ?m1" by (rule cut_put_ok [OF ok cp]) (use lt in simp)
      have c1: "cuts ?m1 ?p xs0 (?r1 # ys)" by (rule cut_put [OF cp])
      have c1': "cuts ?m1 it (xs0 @ [?r1]) ys" by (rule cut_put_after [OF cp]) (use c xs in simp)
      have at1: "at ?m1 ?p = ?r1" by (rule cut_at(2) [OF c1])
      show ?thesis
      proof (cases "ys \<noteq> [] \<and> fst (hd ys) = i + 1")
        case T2: True
        then obtain y ys0 where ys: "ys = y # ys0" by (cases ys) auto
        have y: "fst y = i + 1" "fst y < snd y" using T2 ys s by auto
        have at2: "at ?m1 it = y" using cut_at(2) c1' ys by simp
        let ?r2 = "(fst p, snd y)"
        have m2: "it_adjust ?m1 ?p 0 (int (snd y) - int (fst y)) = put_rng ?m1 ?p ?r2"
          by (rule cut_adjust [OF ok1 c1]) (use y lt in auto)
        let ?m2 = "put_rng ?m1 ?p ?r2"
        have ok2: "chunks_ok ?m2" by (rule cut_put_ok [OF ok1 c1]) (use y lt in simp)
        have c2: "cuts ?m2 it (xs0 @ [?r2]) (y # ys0)"
          using cut_put_after [OF c1 c1'] ys by simp
        obtain m3 e3 where er: "erase_rng ?m2 it = (m3, e3)" by (cases "erase_rng ?m2 it") auto
        have 3: "chunks_ok m3" "cuts m3 e3 (xs0 @ [?r2]) ys0" using cut_erase [OF ok2 c2 er] by auto
        have "m' = m3" "it' = it_prev m3 e3"
          using e hit F1 prev True nxt T2 en m1 at1 at2 m2 er y ys by (auto simp: do_add_def Let_def)
        moreover have "xs' = xs0" "r = ?r2" "ys' = ys0"
          using ac F1 T2 xs ys by (auto simp: add_cut_def)
        ultimately show ?thesis using 3(1) cut_prev [OF 3] by simp
      next
        case F2: False
        have "\<not> (it \<noteq> end_it m \<and> snd (at ?m1 ?p) = fst (at ?m1 it))"
          using F2 en at1 c1' cut_at(2) [of ?m1 it] by (cases ys) auto
        then have "m' = ?m1" "it' = ?p"
          using e hit F1 prev True m1 by (auto simp: do_add_def Let_def)
        moreover have "xs' = xs0" "r = ?r1" "ys' = ys" using ac F1 F2 xs by (auto simp: add_cut_def)
        ultimately show ?thesis using ok1 c1 by simp
      qed
    next
      case F2: False
      show ?thesis
      proof (cases "ys \<noteq> [] \<and> fst (hd ys) = i + 1")
        case T3: True
        then obtain y ys0 where ys: "ys = y # ys0" by (cases ys) auto
        have y: "fst y = i + 1" "fst y < snd y" using T3 ys s by auto
        have cy: "cuts m it xs (y # ys0)" using c ys by simp
        have m1: "it_adjust m it (- 1) 0 = put_rng m it (i, snd y)"
          by (rule cut_adjust [OF ok cy]) (use y in auto)
        have "m' = put_rng m it (i, snd y)" "it' = it"
          using e hit F1 prev F2 nxt T3 m1 by (auto simp: do_add_def Let_def)
        moreover have "xs' = xs" "r = (i, snd y)" "ys' = ys0"
          using ac F1 F2 T3 ys by (auto simp: add_cut_def)
        moreover have "chunks_ok (put_rng m it (i, snd y))"
          by (rule cut_put_ok [OF ok cy]) (use y in simp)
        ultimately show ?thesis using cut_put [OF cy] by simp
      next
        case F3: False
        have rr: "xs' = xs" "r = (i, i + 1)" "ys' = ys" using ac F1 F2 F3 by (auto simp: add_cut_def)
        have ins: "insert_rng m it (i, i + 1) = (m', it')"
          using e hit F1 prev F2 nxt F3 by (auto simp: do_add_def Let_def)
        have ord: "ordered (xs @ (i, i + 1) # ys)"
          using sorted_ranges_ordered [OF add_cut_rows(1) [OF s a ac]] rr by simp
        from cut_insert [OF ok c _ ord ins] rr show ?thesis by simp
      qed
    qed
  qed
qed

lemma vec_ok_cuts: "vec_ok m \<longleftrightarrow> chunks_ok m \<and> sorted_ranges (xs @ ys)" if "cuts m it xs ys"
  using that by (simp add: vec_ok_def cuts_def)

lemma elems_cuts: "cuts m it xs ys \<Longrightarrow> elems m = rows (xs @ ys)"
  by (simp add: elems_def cuts_def)

text \<open>One call of \<open>do_add\<close> at the right position, as the callers see it.\<close>

lemma do_add_step:
  assumes "vec_ok m" "cuts m it xs ys" "at_index i xs ys" "do_add m it i = (m', it')"
  obtains xs' r ys' where "add_cut xs i ys = (xs', r, ys')" "cuts m' it' xs' (r # ys')" "vec_ok m'"
    "elems m' = insert i (elems m)"
proof -
  obtain xs' r ys' where ac: "add_cut xs i ys = (xs', r, ys')" by (cases "add_cut xs i ys") auto
  have s: "chunks_ok m" "sorted_ranges (xs @ ys)" using assms(1,2) by (auto simp: vec_ok_cuts)
  have "chunks_ok m' \<and> cuts m' it' xs' (r # ys')"
    by (rule do_add_correct [OF s(1) assms(2) s(2) assms(3,4) ac])
  then show thesis
    using that [OF ac] add_cut_rows [OF s(2) assms(3) ac] assms(2)
    by (auto simp: vec_ok_cuts elems_cuts)
qed

lemma add_correct:
  assumes "vec_ok m"
  shows "vec_ok (iset_add m i)" and "elems (iset_add m i) = insert i (elems m)"
proof -
  from assms obtain xs ys where c: "cuts m (find_index m i) xs ys" "at_index i xs ys"
    by (rule find_index_correct)
  obtain m' it' where d: "do_add m (find_index m i) i = (m', it')"
    by (cases "do_add m (find_index m i) i") auto
  from do_add_step [OF assms c d] show "vec_ok (iset_add m i)" "elems (iset_add m i) = insert i (elems m)"
    by (auto simp: iset_add_def d)
qed

lemma vec_ok_empty [simp]: "vec_ok []"
  by (simp add: vec_ok_def)

lemma elems_empty [simp]: "elems [] = {}"
  by (simp add: elems_def)

lemma iset_of_list_correct:
  "vec_ok m \<Longrightarrow> vec_ok (foldl iset_add m is) \<and> elems (foldl iset_add m is) = set is \<union> elems m"
  by (induction "is" arbitrary: m) (auto simp: add_correct)

lemma add_indexes_correct:
  assumes "vec_ok m" "cuts m it xs ys" "\<forall>r \<in> set xs. \<forall>i \<in> set is. snd r \<le> i" "sorted_wrt (<) is"
  shows "vec_ok (add_indexes m it is) \<and> elems (add_indexes m it is) = set is \<union> elems m"
  using assms
proof (induction "is" arbitrary: m it xs ys)
  case (Cons i "is")
  have "\<forall>r \<in> set xs. snd r \<le> i" using Cons.prems(3) by simp
  from find_from_correct [OF Cons.prems(1,2) this]
  obtain us vs where c: "cuts m (find_from m i it) us vs" "at_index i us vs" .
  obtain m' it' where d: "do_add m (find_from m i it) i = (m', it')"
    by (cases "do_add m (find_from m i it) i") auto
  from do_add_step [OF Cons.prems(1) c d] obtain xs' r ys' where
    st: "add_cut us i vs = (xs', r, ys')" "cuts m' it' xs' (r # ys')" "vec_ok m'"
      "elems m' = insert i (elems m)" .
  have "sorted_ranges (us @ vs)" using Cons.prems(1) c(1) by (auto simp: vec_ok_cuts)
  note le = add_cut_rows(5) [OF this c(2) st(1)]
  have "\<forall>r \<in> set xs'. \<forall>j \<in> set is. snd r \<le> j" using le Cons.prems(4) by fastforce
  from Cons.IH [OF st(3,2) this] Cons.prems(4) st(4) d show ?case by auto
qed simp

lemma set_as_indexes: "set (as_indexes m) = elems m"
  by (auto simp: as_indexes_def elems_def rows_def)

lemma sorted_indexes: "sorted_ranges rs \<Longrightarrow> sorted_wrt (<) (concat (map (\<lambda>r. [fst r..<snd r]) rs))"
  by (induction rs) (fastforce simp: sorted_wrt_append)+

lemma sorted_as_indexes: "vec_ok m \<Longrightarrow> sorted_wrt (<) (as_indexes m)"
  by (simp add: as_indexes_def vec_ok_def sorted_indexes)

lemma add_set_correct:
  assumes "vec_ok m" "vec_ok other"
  shows "vec_ok (iset_add_set m other)" and "elems (iset_add_set m other) = elems m \<union> elems other"
  using add_indexes_correct [OF assms(1) cut_begin_it [of m], of "as_indexes other"]
    sorted_as_indexes [OF assms(2)] set_as_indexes [of other] assms(1)
  by (auto simp: iset_add_set_def vec_ok_def)

subsection \<open>Inserting and shifting at a position\<close>

text \<open>Where a row goes when \<open>n\<close> rows are inserted before position \<open>i\<close>, and when the row at
  \<open>i\<close> is erased.\<close>

definition bump :: "nat \<Rightarrow> nat \<Rightarrow> nat \<Rightarrow> nat" where
  "bump i n x = (if x < i then x else x + n)"

definition close :: "nat \<Rightarrow> nat \<Rightarrow> nat" where
  "close i x = (if x < i then x else x - 1)"

lemma bump_below: "A \<subseteq> {..<i} \<Longrightarrow> bump i n ` A = A"
  by (force simp: bump_def)

lemma bump_above: "A \<inter> {..<i} = {} \<Longrightarrow> bump i n ` A = (\<lambda>x. x + n) ` A"
  by (rule image_cong) (auto simp: bump_def)

lemma bump_interval: "a \<le> i \<Longrightarrow> i \<le> b \<Longrightarrow> bump i n ` {a..<b} = {a..<i} \<union> {i + n..<b + n}"
proof -
  assume ab: "a \<le> i" "i \<le> b"
  then have "{a..<b} = {a..<i} \<union> {i..<b}" by auto
  then have "bump i n ` {a..<b} = bump i n ` {a..<i} \<union> bump i n ` {i..<b}" by (simp only: image_Un)
  also have "bump i n ` {a..<i} = {a..<i}" by (rule bump_below) auto
  also have "bump i n ` {i..<b} = (\<lambda>x. x + n) ` {i..<b}" by (rule bump_above) auto
  finally show ?thesis by (simp add: image_add_atLeastLessThan')
qed

lemma close_below: "A \<subseteq> {..<i} \<Longrightarrow> close i ` A = A"
  by (force simp: close_def)

lemma close_interval: "i < a \<Longrightarrow> close i ` {a..<b} = {a - 1..<b - 1}"
proof -
  assume "i < a"
  then have "close i ` {a..<b} = (\<lambda>x. x - 1) ` {a..<b}" by (intro image_cong) (auto simp: close_def)
  also have "\<dots> = {a - 1..<b - 1}"
  proof (intro set_eqI iffI)
    fix x assume "x \<in> {a - 1..<b - 1}"
    then have "x = Suc x - 1" "Suc x \<in> {a..<b}" using \<open>i < a\<close> by auto
    then show "x \<in> (\<lambda>x. x - 1) ` {a..<b}" by blast
  qed (use \<open>i < a\<close> in auto)
  finally show ?thesis .
qed

lemma close_rows:
  "\<forall>r \<in> set rs. i < fst r \<and> fst r < snd r \<Longrightarrow> close i ` rows rs = rows (map (shift_rng (- 1)) rs)"
  by (induction rs) (auto simp: image_Un close_interval shift_rng_minus)

lemma at_index_below: "at_index i xs ys \<Longrightarrow> rows xs \<subseteq> {..<i}"
  using rows_upper [of xs i] by (auto simp: at_index_def)

lemma add_run_correct:
  assumes "vec_ok m" "cuts m it xs ys" "\<forall>r \<in> set xs. snd r \<le> i" "\<forall>r \<in> set ys. i + n < fst r"
  shows "vec_ok (add_run m it i n) \<and> elems (add_run m it i n) = elems m \<union> {i..<i + n}"
  using assms
proof (induction n arbitrary: m it xs i)
  case 0
  then show ?case by simp
next
  case (Suc n)
  have s: "sorted_ranges (xs @ ys)" using Suc.prems(1,2) by (auto simp: vec_ok_cuts)
  have a: "at_index i xs ys"
    by (rule at_index_gap [OF s Suc.prems(3)]) (use Suc.prems(4) in \<open>auto dest!: bspec\<close>)
  obtain m' it' where d: "do_add m it i = (m', it')" by (cases "do_add m it i") auto
  from do_add_step [OF Suc.prems(1,2) a d] obtain xs' r ys' where
    st: "add_cut xs i ys = (xs', r, ys')" "cuts m' it' xs' (r # ys')" "vec_ok m'"
      "elems m' = insert i (elems m)" .
  have hd: "\<not> (ys \<noteq> [] \<and> fst (hd ys) \<le> i)" "\<not> (ys \<noteq> [] \<and> fst (hd ys) = i + 1)"
    using Suc.prems(4) by (cases ys; auto)+
  then have r: "snd r = i + 1" "ys' = ys" using st(1) by (auto simp: add_cut_def split: if_splits)
  have "cuts m' (it_next m' it') (xs' @ [r]) ys"
    using cut_next [OF _ st(2)] st(3) r by (simp add: vec_ok_def)
  moreover have "\<forall>q \<in> set (xs' @ [r]). snd q \<le> i + 1"
    using add_cut_rows(5) [OF s a st(1)] r by auto
  moreover have "\<forall>q \<in> set ys. i + 1 + n < fst q" using Suc.prems(4) by simp
  ultimately have "vec_ok (add_run m' (it_next m' it') (i + 1) n) \<and>
      elems (add_run m' (it_next m' it') (i + 1) n) = elems m' \<union> {i + 1..<i + 1 + n}"
    by (rule Suc.IH [OF st(3)])
  moreover have "{i..<i + Suc n} = insert i {i + 1..<i + 1 + n}" by auto
  ultimately show ?case using d st(4) by simp
qed

lemma insert_at_correct:
  assumes "vec_ok m" "0 < n"
  shows "vec_ok (insert_at m i n) \<and> elems (insert_at m i n) = bump i n ` elems m \<union> {i..<i + n}"
proof -
  let ?it = "find_index m i"
  from assms(1) obtain xs ys where c: "cuts m ?it xs ys" and a: "at_index i xs ys"
    by (rule find_index_correct)
  have ok: "chunks_ok m" and s: "sorted_ranges (xs @ ys)" using assms(1) c by (auto simp: vec_ok_cuts)
  note el = elems_cuts [OF c] and bx = bump_below [OF at_index_below [OF a]]
  have above: "rows zs \<inter> {..<i} = {}" if "\<forall>r \<in> set zs. i \<le> fst r" for zs
    using rows_lower [OF that] .
  show ?thesis
  proof (cases ys)
    case Nil
    then have "insert_at m i n = add_run m ?it i n" using cut_end [OF c] by (simp add: insert_at_def)
    moreover have "vec_ok (add_run m ?it i n) \<and> elems (add_run m ?it i n) = elems m \<union> {i..<i + n}"
      by (rule add_run_correct [OF assms(1) c]) (use a Nil in \<open>auto simp: at_index_def\<close>)
    ultimately show ?thesis using bx el Nil by simp
  next
    case (Cons r ys0)
    have cr: "cuts m ?it xs (r # ys0)" using c Cons by simp
    have ne: "?it \<noteq> end_it m" "at m ?it = r" using cut_at [OF cr] by auto
    have sr: "fst r < snd r" "i < snd r" "sorted_ranges (xs @ r # ys0)"
      using s Cons a by (auto simp: at_index_def)
    have ys0: "\<forall>q \<in> set ys0. i \<le> fst q" using sr by fastforce
    show ?thesis
    proof (cases "fst r \<le> i")
      case True
      let ?r = "(fst r, snd r + n)"
      have m1: "it_adjust m ?it 0 (int n) = put_rng m ?it ?r"
        by (rule cut_adjust [OF ok cr]) (use sr in auto)
      let ?m1 = "put_rng m ?it ?r"
      have ok1: "chunks_ok ?m1" by (rule cut_put_ok [OF ok cr]) (use sr in simp)
      have c1: "cuts ?m1 (it_next ?m1 ?it) (xs @ [?r]) ys0" by (rule cut_next [OF ok1 cut_put [OF cr]])
      let ?m2 = "shift_from ?m1 (it_next ?m1 ?it) (int n)"
      have 2: "chunks_ok ?m2 \<and> cuts ?m2 (it_next ?m1 ?it) (xs @ [?r]) (map (shift_rng (int n)) ys0)"
        using shift_from_correct [OF ok1 c1, of "int n"] by simp
      have "insert_at m i n = ?m2" using ne True m1 by (simp add: insert_at_def Let_def)
      moreover have "sorted_ranges (xs @ ?r # map (shift_rng (int n)) ys0)"
        using sr sorted_shift_up [of n ys0] by (auto simp: trans_less_add1)
      moreover have "rows (xs @ ?r # map (shift_rng (int n)) ys0) = bump i n ` elems m \<union> {i..<i + n}"
        using el Cons bx bump_interval [OF True less_imp_le [OF sr(2)], of n]
          bump_above [OF above [OF ys0], of n] True sr(2)
        by (auto simp: image_Un rows_shift_up)
      ultimately show ?thesis using 2 by (auto simp: vec_ok_cuts elems_cuts)
    next
      case False
      let ?r = "(fst r + n, snd r + n)"
      have m1: "it_shift m ?it (int n) = put_rng m ?it ?r" by (rule cut_shift [OF ok cr]) auto
      let ?m1 = "put_rng m ?it ?r"
      have ok1: "chunks_ok ?m1" by (rule cut_put_ok [OF ok cr]) (use sr in simp)
      have c1: "cuts ?m1 (it_next ?m1 ?it) (xs @ [?r]) ys0" by (rule cut_next [OF ok1 cut_put [OF cr]])
      let ?m2 = "shift_from ?m1 (it_next ?m1 ?it) (int n)"
      have 2: "chunks_ok ?m2 \<and> cuts ?m2 (it_next ?m1 ?it) (xs @ [?r]) (map (shift_rng (int n)) ys0) \<and>
          map (\<lambda>c. length (cdata c)) ?m2 = map (\<lambda>c. length (cdata c)) ?m1"
        using shift_from_correct [OF ok1 c1, of "int n"] by simp
      then have "cuts ?m2 ?it xs (?r # map (shift_rng (int n)) ys0)"
        using cut_put [OF cr, of ?r] shape_ipos [of ?m2 ?m1 ?it] shape_iter_ok [of ?m2 ?m1 ?it]
        by (auto simp: cuts_def)
      then have c2: "cuts ?m2 ?it xs (map (shift_rng (int n)) ys)" using Cons by simp
      have s2: "sorted_ranges (xs @ map (shift_rng (int n)) ys)"
        using s sorted_shift_up [of n ys] by (auto simp: trans_less_add1)
      then have v2: "vec_ok ?m2" using 2 c2 by (auto simp: vec_ok_cuts)
      have i: "insert_at m i n = add_run ?m2 ?it i n" using ne False m1 by (simp add: insert_at_def Let_def)
      have ys: "\<forall>q \<in> set ys. i < fst q" using False Cons sr by fastforce
      have "vec_ok (add_run ?m2 ?it i n) \<and> elems (add_run ?m2 ?it i n) = elems ?m2 \<union> {i..<i + n}"
        by (rule add_run_correct [OF v2 c2]) (use a ys in \<open>auto simp: at_index_def\<close>)
      moreover have "elems ?m2 = bump i n ` elems m"
        using elems_cuts [OF c2] el bx bump_above [OF above, of ys n] less_imp_le [OF ys [rule_format]]
        by (simp add: image_Un rows_shift_up)
      ultimately show ?thesis using i by simp
    qed
  qed
qed

lemma shift_for_insert_at_correct:
  assumes "vec_ok m" "0 < n"
  shows "vec_ok (shift_for_insert_at m i n) \<and> elems (shift_for_insert_at m i n) = bump i n ` elems m"
proof -
  let ?it = "find_index m i"
  from assms(1) obtain xs ys where c: "cuts m ?it xs ys" and a: "at_index i xs ys"
    by (rule find_index_correct)
  have ok: "chunks_ok m" and s: "sorted_ranges (xs @ ys)" using assms(1) c by (auto simp: vec_ok_cuts)
  note el = elems_cuts [OF c] and bx = bump_below [OF at_index_below [OF a]]
  show ?thesis
  proof (cases ys)
    case Nil
    then have "shift_for_insert_at m i n = m" using cut_end [OF c] by (simp add: shift_for_insert_at_def)
    then show ?thesis using assms bx el Nil by simp
  next
    case (Cons r ys0)
    let ?m1 = "shift_from m ?it (int n)" and ?r = "(fst r + n, snd r + n)"
    have sr: "fst r < snd r" "i < snd r" "sorted_ranges (xs @ r # ys0)"
      using s Cons a by (auto simp: at_index_def)
    have ys0: "rows ys0 \<inter> {..<i} = {}" using sr by (intro rows_lower) fastforce
    have 1: "chunks_ok ?m1" "cuts ?m1 ?it xs (?r # map (shift_rng (int n)) ys0)"
      using shift_from_correct [OF ok c, of "int n"] Cons by auto
    have at1: "at ?m1 ?it = ?r" "?it \<noteq> end_it m"
      using cut_at(2) [OF 1(2)] cut_end [OF c] Cons by auto
    show ?thesis
    proof (cases "fst r < i")
      case True
      let ?m2 = "it_set ?m1 ?it (sz_sub (fst r + n) n) i"
      have m2: "?m2 = put_rng ?m1 ?it (fst r, i)"
        using cut_set [OF 1, of "fst r" i] True by (simp add: sz_sub_le)
      have ok2: "chunks_ok ?m2" unfolding m2 by (rule cut_put_ok [OF 1]) (use True in simp)
      have c2: "cuts ?m2 (it_next ?m2 ?it) (xs @ [(fst r, i)]) (map (shift_rng (int n)) ys0)"
        unfolding m2 by (rule cut_next [OF ok2 [unfolded m2] cut_put [OF 1(2)]])
      obtain m3 e where ins: "insert_rng ?m2 (it_next ?m2 ?it) (i + n, snd r + n) = (m3, e)"
        by (cases "insert_rng ?m2 (it_next ?m2 ?it) (i + n, snd r + n)") auto
      have s3: "sorted_ranges ((xs @ [(fst r, i)]) @ (i + n, snd r + n) # map (shift_rng (int n)) ys0)"
        using sr True assms(2) sorted_shift_up [of n ys0] by (cases ys0) (auto simp: glue simp del: sorted_ranges_simps(2,3))
      have "chunks_ok m3 \<and> cuts m3 e (xs @ [(fst r, i)]) ((i + n, snd r + n) # map (shift_rng (int n)) ys0)"
        by (rule cut_insert [OF ok2 c2 _ sorted_ranges_ordered [OF s3] ins]) (use sr in simp)
      moreover have "shift_for_insert_at m i n = m3"
        using at1 True ins by (simp add: shift_for_insert_at_def Let_def)
      moreover have "bump i n ` elems m =
          rows ((xs @ [(fst r, i)]) @ (i + n, snd r + n) # map (shift_rng (int n)) ys0)"
        using el Cons bx bump_interval [of "fst r" i "snd r" n] bump_above [OF ys0, of n] True sr(2)
        by (auto simp: image_Un rows_shift_up)
      ultimately show ?thesis using s3 by (auto simp: vec_ok_cuts elems_cuts)
    next
      case False
      then have "shift_for_insert_at m i n = ?m1"
        using at1 by (simp add: shift_for_insert_at_def Let_def)
      moreover have "sorted_ranges (xs @ map (shift_rng (int n)) ys)"
        using s sorted_shift_up [of n ys] by (auto simp: trans_less_add1)
      moreover have "rows ys \<inter> {..<i} = {}" using Cons ys0 False by auto
      then have "bump i n ` elems m = rows (xs @ map (shift_rng (int n)) ys)"
        using el bx bump_above [of "rows ys" i n] by (simp add: image_Un rows_shift_up)
      ultimately show ?thesis using 1 Cons by (auto simp: vec_ok_cuts elems_cuts)
    qed
  qed
qed

end
