(* ===== verification/Index_Set_Erase.thy ===== *)
theory Index_Set_Erase
  imports Index_Set_Edit
begin

section \<open>Index sets: erasing, removing and counting are correct\<close>

text \<open>
  \<open>erase_at\<close>, \<open>erase_or_unshift\<close>, \<open>add_shifted\<close>, \<open>remove\<close>, \<open>count\<close>, \<open>shift\<close> and
  \<open>unshift\<close>. The loop of \<open>do_remove\<close> is shown to end, by the number of ranges it can
  still cut, together with what it leaves.
\<close>

subsection \<open>Erasing a row\<close>

lemma do_erase_correct:
  assumes ok: "chunks_ok m" and c: "cuts m it xs (r # ys)" and s: "sorted_ranges (xs @ r # ys)"
    and a: "at_index i xs (r # ys)"
  shows "vec_ok (do_erase m it i) \<and> elems (do_erase m it i) = close i ` (elems m - {i})"
proof -
  note el = elems_cuts [OF c] and bx = close_below [OF at_index_below [OF a]]
  have r: "fst r < snd r" "i < snd r" "at m it = r" using s a cut_at [OF c] by (auto simp: at_index_def)
  have i_xs: "i \<notin> rows xs" using at_index_below [OF a] by auto
  have ys_gt: "\<forall>q \<in> set ys. i < fst q \<and> fst q < snd q"
  proof
    fix q assume "q \<in> set ys"
    then have "snd r < fst q" "fst q < snd q" using s by (auto dest: sorted_ranges_pos)
    then show "i < fst q \<and> fst q < snd q" using r by simp
  qed
  have i_ys: "i \<notin> rows ys" using ys_gt by (fastforce simp: in_rows)
  let ?sh = "map (shift_rng (- 1))"
  have shl: "\<And>q. q \<in> set ys \<Longrightarrow> shift_rng (- 1) q = (fst q - 1, snd q - 1)"
    using ys_gt by (intro shift_rng_minus) auto
  have sy: "sorted_ranges (?sh ys)"
  proof -
    have "\<forall>q \<in> set zs. 0 < fst q \<and> fst q < snd q \<Longrightarrow> sorted_ranges zs \<Longrightarrow> sorted_ranges (?sh zs)" for zs
    proof (induction zs)
      case (Cons z zs)
      then have "sorted_ranges (?sh zs)" "shift_rng (- 1) z = (fst z - 1, snd z - 1)"
        by (auto simp: shift_rng_minus)
      moreover have "snd z - 1 < fst (shift_rng (- 1) q)" if "q \<in> set zs" for q
        using that Cons.prems shift_rng_minus [of q] by fastforce
      ultimately show ?case using Cons.prems by auto
    qed simp
    then show ?thesis using ys_gt s by force
  qed
  have hd_ys: "ys = [] \<or> fst (hd (?sh ys)) = fst (hd ys) - 1 \<and> snd r < fst (hd ys)"
    using shl s by (cases ys) auto
  have ri: "\<forall>q \<in> set ys. 0 \<le> int (fst q) + - 1" using ys_gt by fastforce
  have sx: "sorted_ranges xs" "xs = [] \<or> snd (last xs) < fst r \<and> snd (last xs) \<le> i"
    using s a by (auto simp: at_index_def)
  note finish = shift_from_correct [where d = "- 1"]
  show ?thesis
  proof (cases "fst r \<le> i")
    case True
    show ?thesis
    proof (cases "fst r + 1 = snd r")
      case T2: True
      obtain m1 e1 where er: "erase_rng m it = (m1, e1)" by (cases "erase_rng m it") auto
      have 1: "chunks_ok m1" "cuts m1 e1 xs ys" using cut_erase [OF ok c er] by auto
      have 2: "chunks_ok (shift_from m1 e1 (- 1))" "cuts (shift_from m1 e1 (- 1)) e1 xs (?sh ys)"
        using finish [OF 1 ri] by auto
      have "do_erase m it i = shift_from m1 e1 (- 1)"
        using True T2 r er by (simp add: do_erase_def)
      moreover have "sorted_ranges (xs @ ?sh ys)"
        using sx sy hd_ys T2 True r by (cases "ys = []") (auto simp: glue simp del: sorted_ranges_simps(2,3))
      moreover have "rows (xs @ ?sh ys) = close i ` (elems m - {i})"
      proof -
        have "fst r = i" using True T2 r by simp
        then have "elems m - {i} = rows xs \<union> rows ys" using el T2 i_xs i_ys by auto
        then show ?thesis using bx close_rows [OF ys_gt] by (simp add: image_Un)
      qed
      ultimately show ?thesis using 2 by (auto simp: vec_ok_cuts elems_cuts)
    next
      case F2: False
      let ?r = "(fst r, snd r - 1)"
      have m1: "it_adjust m it 0 (- 1) = put_rng m it ?r"
        by (rule cut_adjust [OF ok c]) (use r F2 in auto)
      let ?m1 = "put_rng m it ?r"
      have ok1: "chunks_ok ?m1" by (rule cut_put_ok [OF ok c]) (use r F2 in auto)
      have c1: "cuts ?m1 (it_next ?m1 it) (xs @ [?r]) ys" by (rule cut_next [OF ok1 cut_put [OF c]])
      let ?m2 = "shift_from ?m1 (it_next ?m1 it) (- 1)"
      have 2: "chunks_ok ?m2" "cuts ?m2 (it_next ?m1 it) (xs @ [?r]) (?sh ys)"
        using finish [OF ok1 c1 ri] by auto
      have "do_erase m it i = ?m2" using True F2 r m1 by (simp add: do_erase_def Let_def)
      moreover have "sorted_ranges ((xs @ [?r]) @ ?sh ys)"
        using sx sy hd_ys F2 r by (cases "ys = []") (auto simp: glue simp del: sorted_ranges_simps(2,3))
      moreover have "rows ((xs @ [?r]) @ ?sh ys) = close i ` (elems m - {i})"
      proof -
        have "elems m - {i} = rows xs \<union> {fst r..<i} \<union> {i + 1..<snd r} \<union> rows ys"
        proof -
          have "{fst r..<snd r} - {i} = {fst r..<i} \<union> {i + 1..<snd r}" using True r by auto
          then show ?thesis using el i_xs i_ys by (simp add: Un_Diff Un_assoc)
        qed
        moreover have "close i ` {fst r..<i} = {fst r..<i}" by (rule close_below) auto
        moreover have "close i ` {i + 1..<snd r} = {i..<snd r - 1}" using close_interval [of i "i + 1"] by simp
        moreover have "{fst r..<snd r - 1} = {fst r..<i} \<union> {i..<snd r - 1}" using True r by auto
        ultimately show ?thesis using bx close_rows [OF ys_gt] by (simp add: image_Un Un_assoc)
      qed
      ultimately show ?thesis using 2 by (auto simp: vec_ok_cuts elems_cuts)
    qed
  next
    case False
    have el': "elems m - {i} = rows xs \<union> {fst r..<snd r} \<union> rows ys"
      using el i_xs i_ys False by auto
    have cl: "close i ` (elems m - {i}) = rows xs \<union> {fst r - 1..<snd r - 1} \<union> rows (?sh ys)"
      using el' bx close_rows [OF ys_gt] close_interval [of i "fst r" "snd r"] False
      by (simp add: image_Un)
    show ?thesis
    proof (cases "xs \<noteq> [] \<and> snd (last xs) + 1 = fst r")
      case True
      then obtain xs0 p where xs: "xs = xs0 @ [p]" "snd p + 1 = fst r" by (metis append_butlast_last_id)
      have p: "fst p < snd p" using s xs by auto
      have c': "cuts m it (xs0 @ [p]) (r # ys)" using c xs by simp
      note cp = cut_prev [OF ok c']
      let ?r = "(fst p, snd r - 1)" and ?p = "it_prev m it"
      have m1: "it_adjust m ?p 0 (int (snd r) - int (fst r)) = put_rng m ?p ?r"
        by (rule cut_adjust [OF ok cp]) (use p xs r in \<open>auto simp: of_nat_diff\<close>)
      let ?m1 = "put_rng m ?p ?r"
      have ok1: "chunks_ok ?m1" by (rule cut_put_ok [OF ok cp]) (use p xs r in auto)
      have c1: "cuts ?m1 it (xs0 @ [?r]) (r # ys)" by (rule cut_put_after [OF cp c'])
      obtain m2 e2 where er: "erase_rng ?m1 it = (m2, e2)" by (cases "erase_rng ?m1 it") auto
      have 2: "chunks_ok m2" "cuts m2 e2 (xs0 @ [?r]) ys" using cut_erase [OF ok1 c1 er] by auto
      have 3: "chunks_ok (shift_from m2 e2 (- 1))" "cuts (shift_from m2 e2 (- 1)) e2 (xs0 @ [?r]) (?sh ys)"
        using finish [OF 2 ri] by auto
      have "do_erase m it i = shift_from m2 e2 (- 1)"
        using False True r m1 er xs cut_begin [OF ok c] cut_at(2) [OF cp]
        by (simp add: do_erase_def Let_def)
      moreover have "sorted_ranges ((xs0 @ [?r]) @ ?sh ys)"
        using sx sy hd_ys r xs p s
        by (cases "ys = []") (auto simp: glue simp del: sorted_ranges_simps(2,3))
      moreover have "rows ((xs0 @ [?r]) @ ?sh ys) = close i ` (elems m - {i})"
      proof -
        have "{fst p..<snd r - 1} = {fst p..<snd p} \<union> {fst r - 1..<snd r - 1}" using xs p r by auto
        then show ?thesis using cl xs by (simp add: Un_assoc)
      qed
      ultimately show ?thesis using 3 by (auto simp: vec_ok_cuts elems_cuts)
    next
      case F2: False
      have prev: "\<not> (it \<noteq> begin_it m \<and> snd (at m (it_prev m it)) + 1 = fst (at m it))"
        using F2 r cut_begin [OF ok c] cut_at(2) [OF cut_prev [OF ok]] c
        by (cases xs rule: rev_cases) auto
      have rr: "shift_rng (- 1) r = (fst r - 1, snd r - 1)" using False r by (intro shift_rng_minus) auto
      have "\<forall>q \<in> set (r # ys). 0 \<le> int (fst q) + - 1" using ri False by auto
      from finish [OF ok c this] have 2: "chunks_ok (shift_from m it (- 1))"
        "cuts (shift_from m it (- 1)) it xs ((fst r - 1, snd r - 1) # ?sh ys)"
        by (auto simp: rr)
      have "do_erase m it i = shift_from m it (- 1)"
        using False r prev by (auto simp: do_erase_def Let_def)
      moreover have "sorted_ranges (xs @ (fst r - 1, snd r - 1) # ?sh ys)"
        using sx sy hd_ys r F2 False
        by (cases "ys = []"; cases "xs = []") (auto simp: glue simp del: sorted_ranges_simps(2,3))
      ultimately show ?thesis using 2 cl by (auto simp: vec_ok_cuts elems_cuts)
    qed
  qed
qed

lemma erase_at_correct:
  assumes "vec_ok m"
  shows "vec_ok (erase_at m i) \<and> elems (erase_at m i) = close i ` (elems m - {i})"
proof -
  let ?it = "find_index m i"
  from assms obtain xs ys where c: "cuts m ?it xs ys" and a: "at_index i xs ys"
    by (rule find_index_correct)
  have ok: "chunks_ok m" and s: "sorted_ranges (xs @ ys)" using assms c by (auto simp: vec_ok_cuts)
  show ?thesis
  proof (cases ys)
    case Nil
    have "elems m \<subseteq> {..<i}" using elems_cuts [OF c] at_index_below [OF a] Nil by simp
    moreover from this have "elems m - {i} = elems m" by auto
    ultimately show ?thesis
      using Nil cut_end [OF c] assms close_below [of "elems m" i] by (simp add: erase_at_def)
  next
    case (Cons r ys0)
    then show ?thesis
      using do_erase_correct [of m ?it xs r ys0 i] ok c s a cut_end [OF c] by (simp add: erase_at_def)
  qed
qed

subsection \<open>The walks over complete chunks and single ranges\<close>

text \<open>A walk that consumes ranges from an iterator while a test holds. The chunk step and the
  range step of the three walks below keep the same relation between the rows consumed and the
  accumulator.\<close>

lemma unshift_chunks_correct:
  assumes "vec_ok m" "cuts m it xs ys" "snd it = 0" "\<forall>r \<in> set xs. snd r \<le> i" "acc = i - rows_in xs"
  shows "\<exists>us vs. cuts m (snd (unshift_chunks m it i acc)) us vs \<and> (\<forall>r \<in> set us. snd r \<le> i) \<and>
    fst (unshift_chunks m it i acc) = i - rows_in us"
  using assms
proof (induction m it i acc arbitrary: xs ys rule: unshift_chunks.induct)
  case (1 m it i acc)
  have ok: "chunks_ok m" "sorted_ranges (xs @ ys)" using "1.prems" by (auto simp: vec_ok_cuts)
  show ?case
  proof (cases "not_end m it \<and> cend (m ! fst it) \<le> i")
    case True
    from cut_chunk [OF ok(1) "1.prems"(2) _ "1.prems"(3)] True obtain zs where
      z: "ys = cdata (m ! fst it) @ zs" "cuts m (next_chunk it) (xs @ cdata (m ! fst it)) zs" by blast
    let ?c = "m ! fst it"
    have c: "chunk_ok ?c" "sorted_ranges (cdata ?c)" using chunk_at [OF ok(1)] True ok(2) z(1) by auto
    have le: "\<forall>r \<in> set (xs @ cdata ?c). snd r \<le> i"
      using "1.prems"(4) chunk_ends(1) [OF c(2,1)] True by fastforce
    have "rows_in (xs @ cdata ?c) \<le> i" using ok(2) z(1) by (intro rows_in_le [OF _ le]) auto
    then have acc: "sz_sub acc (ccount ?c) = i - rows_in (xs @ cdata ?c)"
      using "1.prems"(5) c(1) by (simp add: sz_sub_le chunk_ok_def)
    have "snd (next_chunk it) = 0" by (simp add: next_chunk_def)
    from "1.IH" [OF True "1.prems"(1) z(2) this le acc] True show ?thesis
      by (simp add: unshift_chunks.simps [of m it i acc])
  next
    case False
    then show ?thesis using "1.prems" by (subst (1 2) unshift_chunks.simps) auto
  qed
qed

lemma unshift_ranges_correct:
  assumes "vec_ok m" "cuts m it xs ys" "\<forall>r \<in> set xs. snd r \<le> i" "acc = i - rows_in xs"
  shows "\<exists>us vs. cuts m (snd (unshift_ranges m it i acc)) us vs \<and> at_index i us vs \<and>
    fst (unshift_ranges m it i acc) = i - rows_in us"
  using assms
proof (induction m it i acc arbitrary: xs ys rule: unshift_ranges.induct)
  case (1 m it i acc)
  have ok: "chunks_ok m" "sorted_ranges (xs @ ys)" using "1.prems" by (auto simp: vec_ok_cuts)
  show ?case
  proof (cases "not_end m it \<and> snd (at m it) \<le> i")
    case True
    then obtain r ys' where ys: "ys = r # ys'" using cut_not_end [OF "1.prems"(2)] by (cases ys) auto
    then have c: "cuts m it xs (r # ys')" using "1.prems"(2) by simp
    note nx = cut_next [OF ok(1) c] and at = cut_at(2) [OF c]
    have r: "fst r < snd r" using ok(2) ys by simp
    have le: "\<forall>q \<in> set (xs @ [r]). snd q \<le> i" using "1.prems"(3) True at by auto
    have "rows_in (xs @ [r]) \<le> i" using ok(2) ys by (intro rows_in_le [OF _ le]) auto
    then have acc: "sz_sub acc (sz_sub (snd (at m it)) (fst (at m it))) = i - rows_in (xs @ [r])"
      using "1.prems"(4) r at by (simp add: sz_sub_le)
    from "1.IH" [OF True "1.prems"(1) nx le acc] True show ?thesis
      by (simp add: unshift_ranges.simps [of m it i acc])
  next
    case False
    then have "ys = [] \<or> i < snd (hd ys)"
      using cut_not_end [OF "1.prems"(2)] cut_at(2) [of m it xs] "1.prems"(2) by (cases ys) auto
    then have "at_index i xs ys"
      using "1.prems"(3) ok(2) le_last [of xs i] by (auto simp: at_index_glue)
    then show ?thesis using False "1.prems" by (subst (1 2) unshift_ranges.simps) auto
  qed
qed

lemma rank_at_index:
  assumes "sorted_ranges (xs @ ys)" "at_index i xs ys" "i \<notin> rows (xs @ ys)"
  shows "rank (rows (xs @ ys)) i = rows_in xs"
proof (rule rank_rows_split [OF assms(1)])
  show "\<forall>r \<in> set xs. snd r \<le> i" using assms(2) by (simp add: at_index_def)
  show "\<forall>r \<in> set ys. i \<le> fst r"
  proof
    fix r assume "r \<in> set ys"
    then show "i \<le> fst r" using assms(2,3) by (fastforce simp: at_index_def in_rows)
  qed
qed

lemma erase_or_unshift_correct:
  assumes "vec_ok m"
  shows "vec_ok (fst (erase_or_unshift m i))"
    and "elems (fst (erase_or_unshift m i)) = close i ` (elems m - {i})"
    and "snd (erase_or_unshift m i) = (if i \<in> elems m then npos else i - rank (elems m) i)"
proof -
  have ok: "chunks_ok m" using assms by (simp add: vec_ok_def)
  obtain s1 it1 where 1: "unshift_chunks m (begin_it m) i i = (s1, it1)" by (rule prod.exhaust)
  obtain s2 it2 where 2: "unshift_ranges m it1 i s1 = (s2, it2)" by (rule prod.exhaust)
  from unshift_chunks_correct [OF assms cut_begin_it [OF ok], of i i] 1
  obtain us vs where u: "cuts m it1 us vs" "\<forall>r \<in> set us. snd r \<le> i" "s1 = i - rows_in us"
    by (auto simp: begin_it_def)
  from unshift_ranges_correct [OF assms u(1,2,3)] 2
  obtain xs ys where c: "cuts m it2 xs ys" and a: "at_index i xs ys" and s2: "s2 = i - rows_in xs" by auto
  have s: "sorted_ranges (xs @ ys)" using assms c by (simp add: vec_ok_cuts)
  have rk: "i \<notin> elems m \<Longrightarrow> rank (elems m) i = rows_in xs"
    using rank_at_index [OF s a] elems_cuts [OF c] by simp
  note mem = at_index_contains [OF s a]
  have "vec_ok (fst (erase_or_unshift m i)) \<and>
    elems (fst (erase_or_unshift m i)) = close i ` (elems m - {i}) \<and>
    snd (erase_or_unshift m i) = (if i \<in> elems m then npos else i - rank (elems m) i)"
  proof (cases ys)
    case Nil
    have "elems m \<subseteq> {..<i}" using elems_cuts [OF c] at_index_below [OF a] Nil by simp
    moreover from this have "elems m - {i} = elems m" "i \<notin> elems m" by auto
    ultimately show ?thesis
      using Nil cut_end [OF c] assms close_below [of "elems m" i] 1 2 s2 rk by (simp add: erase_or_unshift_def)
  next
    case (Cons r ys0)
    have cr: "cuts m it2 xs (r # ys0)" using c Cons by simp
    have "erase_or_unshift m i = (do_erase m it2 i, if fst r \<le> i then npos else s2)"
      using Cons cut_end [OF c] 1 2 cut_at(2) [OF cr] by (simp add: erase_or_unshift_def)
    moreover have "i \<in> elems m \<longleftrightarrow> fst r \<le> i" using mem elems_cuts [OF c] Cons by simp
    ultimately show ?thesis
      using do_erase_correct [OF ok cr, of i] s a Cons s2 rk by auto
  qed
  then show "vec_ok (fst (erase_or_unshift m i))"
    "elems (fst (erase_or_unshift m i)) = close i ` (elems m - {i})"
    "snd (erase_or_unshift m i) = (if i \<in> elems m then npos else i - rank (elems m) i)" by auto
qed

subsection \<open>Adding a shifted index, shifting and unshifting\<close>

lemma shift_chunks_correct:
  assumes "vec_ok m" "cuts m it xs ys" "snd it = 0" "\<forall>r \<in> set xs. snd r \<le> acc" "acc = i + rows_in xs"
  shows "\<exists>us vs. cuts m (snd (shift_chunks m it acc)) us vs \<and>
    (\<forall>r \<in> set us. snd r \<le> fst (shift_chunks m it acc)) \<and> fst (shift_chunks m it acc) = i + rows_in us"
  using assms
proof (induction m it acc arbitrary: xs ys rule: shift_chunks.induct)
  case (1 m it acc)
  have ok: "chunks_ok m" "sorted_ranges (xs @ ys)" using "1.prems" by (auto simp: vec_ok_cuts)
  show ?case
  proof (cases "not_end m it \<and> cend (m ! fst it) \<le> acc")
    case True
    from cut_chunk [OF ok(1) "1.prems"(2) _ "1.prems"(3)] True obtain zs where
      z: "ys = cdata (m ! fst it) @ zs" "cuts m (next_chunk it) (xs @ cdata (m ! fst it)) zs" by blast
    let ?c = "m ! fst it"
    have c: "chunk_ok ?c" "sorted_ranges (cdata ?c)" using chunk_at [OF ok(1)] True ok(2) z(1) by auto
    have le: "\<forall>r \<in> set (xs @ cdata ?c). snd r \<le> acc + ccount ?c"
      using "1.prems"(4) chunk_ends(1) [OF c(2,1)] True by fastforce
    have acc: "acc + ccount ?c = i + rows_in (xs @ cdata ?c)"
      using "1.prems"(5) c(1) by (simp add: chunk_ok_def)
    have "snd (next_chunk it) = 0" by (simp add: next_chunk_def)
    from "1.IH" [OF True "1.prems"(1) z(2) this le acc] True show ?thesis
      by (simp add: shift_chunks.simps [of m it acc])
  next
    case False
    then show ?thesis using "1.prems" by (subst (1 2 3) shift_chunks.simps) auto
  qed
qed

lemma shift_ranges_correct:
  assumes "vec_ok m" "cuts m it xs ys" "\<forall>r \<in> set xs. snd r \<le> acc" "acc = i + rows_in xs"
  shows "\<exists>us vs. cuts m (snd (shift_ranges m it acc)) us vs \<and>
    at_index (fst (shift_ranges m it acc)) us vs \<and>
    (\<forall>r \<in> set vs. fst (shift_ranges m it acc) < fst r) \<and> fst (shift_ranges m it acc) = i + rows_in us"
  using assms
proof (induction m it acc arbitrary: xs ys rule: shift_ranges.induct)
  case (1 m it acc)
  have ok: "chunks_ok m" "sorted_ranges (xs @ ys)" using "1.prems" by (auto simp: vec_ok_cuts)
  show ?case
  proof (cases "not_end m it \<and> fst (at m it) \<le> acc")
    case True
    then obtain r ys' where ys: "ys = r # ys'" using cut_not_end [OF "1.prems"(2)] by (cases ys) auto
    then have c: "cuts m it xs (r # ys')" using "1.prems"(2) by simp
    note nx = cut_next [OF ok(1) c] and at = cut_at(2) [OF c]
    have r: "fst r < snd r" using ok(2) ys by simp
    let ?acc = "acc + sz_sub (snd (at m it)) (fst (at m it))"
    have le: "\<forall>q \<in> set (xs @ [r]). snd q \<le> ?acc"
      using "1.prems"(3) True at r by (auto simp: sz_sub_le)
    have acc: "?acc = i + rows_in (xs @ [r])"
      using "1.prems"(4) r at by (simp add: sz_sub_le)
    from "1.IH" [OF True "1.prems"(1) nx le acc] True show ?thesis
      by (simp add: shift_ranges.simps [of m it acc])
  next
    case False
    then have "ys = [] \<or> Suc acc \<le> fst (hd ys)"
      using cut_not_end [OF "1.prems"(2)] cut_at(2) [of m it xs] "1.prems"(2) by (cases ys) auto
    then have gt: "\<forall>r \<in> set ys. Suc acc \<le> fst r" using ok(2) hd_fst_le [of ys "Suc acc"] by auto
    have "at_index acc xs ys"
      by (rule at_index_gap [OF ok(2) "1.prems"(3)]) (use gt in fastforce)
    then show ?thesis using False "1.prems" gt by (subst (1 2 3 4) shift_ranges.simps) (auto simp: Suc_le_eq)
  qed
qed

lemma at_gap:
  assumes "sorted_ranges (xs @ ys)" "at_index j xs ys" "\<forall>r \<in> set ys. j < fst r" "j = i + rows_in xs"
  shows "j \<notin> rows (xs @ ys)" and "j - rank (rows (xs @ ys)) j = i"
proof -
  show j: "j \<notin> rows (xs @ ys)"
    unfolding at_index_contains [OF assms(1,2)] using assms(3) by (cases ys) auto
  show "j - rank (rows (xs @ ys)) j = i"
    using rank_at_index [OF assms(1,2) j] assms(4) by simp
qed

lemma add_shifted_correct:
  assumes "vec_ok m"
  shows "vec_ok (fst (add_shifted m i))"
    and "elems (fst (add_shifted m i)) = insert (snd (add_shifted m i)) (elems m)"
    and "snd (add_shifted m i) \<notin> elems m"
    and "snd (add_shifted m i) - rank (elems m) (snd (add_shifted m i)) = i"
proof -
  have ok: "chunks_ok m" using assms by (simp add: vec_ok_def)
  obtain s1 it1 where 1: "shift_chunks m (begin_it m) i = (s1, it1)" by (rule prod.exhaust)
  obtain s2 it2 where 2: "shift_ranges m it1 s1 = (s2, it2)" by (rule prod.exhaust)
  from shift_chunks_correct [OF assms cut_begin_it [OF ok], of i i] 1
  obtain us vs where u: "cuts m it1 us vs" "\<forall>r \<in> set us. snd r \<le> s1" "s1 = i + rows_in us"
    by (auto simp: begin_it_def)
  from shift_ranges_correct [OF assms u] 2
  obtain xs ys where c: "cuts m it2 xs ys" and a: "at_index s2 xs ys" "\<forall>r \<in> set ys. s2 < fst r"
    and s2: "s2 = i + rows_in xs" by auto
  have s: "sorted_ranges (xs @ ys)" using assms c by (simp add: vec_ok_cuts)
  obtain m' it' where d: "do_add m it2 s2 = (m', it')" by (rule prod.exhaust)
  have r: "add_shifted m i = (m', s2)" using 1 2 d by (simp add: add_shifted_def)
  from do_add_step [OF assms c a(1) d]
  show "vec_ok (fst (add_shifted m i))"
    "elems (fst (add_shifted m i)) = insert (snd (add_shifted m i)) (elems m)"
    by (auto simp: r)
  show "snd (add_shifted m i) \<notin> elems m"
    "snd (add_shifted m i) - rank (elems m) (snd (add_shifted m i)) = i"
    using at_gap [OF s a s2] elems_cuts [OF c] by (simp_all add: r)
qed

lemma shift_index_correct:
  assumes "sorted_ranges (xs @ ys)" "\<forall>r \<in> set xs. snd r \<le> j" "j = i + rows_in xs"
  shows "shift_index ys j \<notin> rows (xs @ ys) \<and>
    shift_index ys j - rank (rows (xs @ ys)) (shift_index ys j) = i"
  using assms
proof (induction ys arbitrary: xs j)
  case Nil
  have "at_index j xs []" using Nil.prems by (simp add: at_index_def)
  from at_gap [OF Nil.prems(1) this _ Nil.prems(3)] show ?case by simp
next
  case (Cons r ys)
  have r: "fst r < snd r" using Cons.prems(1) by simp
  show ?case
  proof (cases "fst r > j")
    case True
    then have "\<forall>q \<in> set (r # ys). Suc j \<le> fst q"
      using Cons.prems(1) hd_fst_le [of "r # ys" "Suc j"] by (auto simp: Suc_le_eq)
    moreover from this have "at_index j xs (r # ys)"
      by (intro at_index_gap [OF Cons.prems(1,2)]) fastforce
    ultimately show ?thesis using at_gap [OF Cons.prems(1) _ _ Cons.prems(3)] True by (simp add: Suc_le_eq)
  next
    case False
    define k where "k = j + (snd r - fst r)"
    have le: "\<forall>q \<in> set (xs @ [r]). snd q \<le> k" using Cons.prems(2) r False by (auto simp: k_def)
    have k: "k = i + rows_in (xs @ [r])" using Cons.prems(3) by (simp add: k_def)
    have s: "sorted_ranges ((xs @ [r]) @ ys)" using Cons.prems(1) by simp
    have "shift_index (r # ys) j = shift_index ys k" using False r by (simp add: sz_sub_le k_def)
    then show ?thesis using Cons.IH [OF s le k] by simp
  qed
qed

lemma shift_correct:
  assumes "vec_ok m"
  shows "iset_shift m i \<notin> elems m" and "iset_shift m i - rank (elems m) (iset_shift m i) = i"
  using shift_index_correct [of "[]" "flat m" i i] assms
  by (auto simp: iset_shift_def elems_def vec_ok_def)

lemma shift_unique:
  assumes "vec_ok m" "j \<notin> elems m" "j - rank (elems m) j = i"
  shows "iset_shift m i = j"
  using shift_correct [OF assms(1), of i] assms(2,3) by (metis unrank_inj)

subsection \<open>Counting\<close>

lemma count_chunks_correct:
  assumes "vec_ok m" "cuts m it xs ys" "snd it = 0" "\<forall>r \<in> set xs. snd r \<le> e" "acc = rows_in xs"
  shows "\<exists>us vs. cuts m (snd (count_chunks m it e acc)) us vs \<and> (\<forall>r \<in> set us. snd r \<le> e) \<and>
    fst (count_chunks m it e acc) = rows_in us"
  using assms
proof (induction m it e acc arbitrary: xs ys rule: count_chunks.induct)
  case (1 m it e acc)
  have ok: "chunks_ok m" "sorted_ranges (xs @ ys)" using "1.prems" by (auto simp: vec_ok_cuts)
  show ?case
  proof (cases "not_end m it \<and> cend (m ! fst it) \<le> e")
    case True
    from cut_chunk [OF ok(1) "1.prems"(2) _ "1.prems"(3)] True obtain zs where
      z: "ys = cdata (m ! fst it) @ zs" "cuts m (next_chunk it) (xs @ cdata (m ! fst it)) zs" by blast
    let ?c = "m ! fst it"
    have c: "chunk_ok ?c" "sorted_ranges (cdata ?c)" using chunk_at [OF ok(1)] True ok(2) z(1) by auto
    have le: "\<forall>r \<in> set (xs @ cdata ?c). snd r \<le> e"
      using "1.prems"(4) chunk_ends(1) [OF c(2,1)] True by fastforce
    have acc: "acc + ccount ?c = rows_in (xs @ cdata ?c)"
      using "1.prems"(5) c(1) by (simp add: chunk_ok_def)
    have "snd (next_chunk it) = 0" by (simp add: next_chunk_def)
    from "1.IH" [OF True "1.prems"(1) z(2) this le acc] True show ?thesis
      by (simp add: count_chunks.simps [of m it e acc])
  next
    case False
    then show ?thesis using "1.prems" by (subst (1 2) count_chunks.simps) auto
  qed
qed

lemma count_ranges_correct:
  assumes "vec_ok m" "cuts m it xs ys" "\<forall>r \<in> set xs. snd r \<le> e" "acc = rows_in xs"
  shows "\<exists>us vs. cuts m (snd (count_ranges m it e acc)) us vs \<and> at_index e us vs \<and>
    fst (count_ranges m it e acc) = rows_in us"
  using assms
proof (induction m it e acc arbitrary: xs ys rule: count_ranges.induct)
  case (1 m it e acc)
  have ok: "chunks_ok m" "sorted_ranges (xs @ ys)" using "1.prems" by (auto simp: vec_ok_cuts)
  show ?case
  proof (cases "not_end m it \<and> snd (at m it) \<le> e")
    case True
    then obtain r ys' where ys: "ys = r # ys'" using cut_not_end [OF "1.prems"(2)] by (cases ys) auto
    then have c: "cuts m it xs (r # ys')" using "1.prems"(2) by simp
    note nx = cut_next [OF ok(1) c] and at = cut_at(2) [OF c]
    have r: "fst r < snd r" using ok(2) ys by simp
    have le: "\<forall>q \<in> set (xs @ [r]). snd q \<le> e" using "1.prems"(3) True at by auto
    have acc: "acc + sz_sub (snd (at m it)) (fst (at m it)) = rows_in (xs @ [r])"
      using "1.prems"(4) r at by (simp add: sz_sub_le)
    from "1.IH" [OF True "1.prems"(1) nx le acc] True show ?thesis
      by (simp add: count_ranges.simps [of m it e acc])
  next
    case False
    then have "ys = [] \<or> e < snd (hd ys)"
      using cut_not_end [OF "1.prems"(2)] cut_at(2) [of m it xs] "1.prems"(2) by (cases ys) auto
    then have "at_index e xs ys"
      using "1.prems"(3) ok(2) le_last [of xs e] by (auto simp: at_index_glue)
    then show ?thesis using False "1.prems" by (subst (1 2) count_ranges.simps) auto
  qed
qed

lemma rank_inside:
  assumes "sorted_ranges (xs @ r # ys)" "at_index e xs (r # ys)" "fst r \<le> e"
  shows "rank (rows (xs @ r # ys)) e = rows_in xs + (e - fst r)"
proof -
  have lt: "e < snd r" using assms(2) by (simp add: at_index_def)
  have "rows ys \<inter> {..<e} = {}"
    using assms(1) lt by (intro rows_lower) fastforce
  moreover have "rows xs \<inter> {..<e} = rows xs" using at_index_below [OF assms(2)] by (rule Int_absorb2)
  moreover have "{fst r..<snd r} \<inter> {..<e} = {fst r..<e}" using lt by auto
  ultimately have "rows (xs @ r # ys) \<inter> {..<e} = rows (xs @ (if fst r < e then [(fst r, e)] else []))"
    by (simp add: Int_Un_distrib2)
  moreover have "sorted_ranges (xs @ (if fst r < e then [(fst r, e)] else []))" using assms(1) by auto
  ultimately have "rank (rows (xs @ r # ys)) e = rows_in (xs @ (if fst r < e then [(fst r, e)] else []))"
    by (simp only: rank_def card_rows)
  then show ?thesis using assms(3) by (auto split: if_splits)
qed

lemma count_tail_correct:
  assumes "vec_ok m"
  shows "count_tail m (begin_it m) e 0 = rank (elems m) e"
proof -
  have ok: "chunks_ok m" using assms by (simp add: vec_ok_def)
  obtain s1 it1 where 1: "count_chunks m (begin_it m) e 0 = (s1, it1)" by (rule prod.exhaust)
  obtain s2 it2 where 2: "count_ranges m it1 e s1 = (s2, it2)" by (rule prod.exhaust)
  from count_chunks_correct [OF assms cut_begin_it [OF ok], of e 0] 1
  obtain us vs where u: "cuts m it1 us vs" "\<forall>r \<in> set us. snd r \<le> e" "s1 = rows_in us"
    by (auto simp: begin_it_def)
  from count_ranges_correct [OF assms u] 2
  obtain xs ys where c: "cuts m it2 xs ys" and a: "at_index e xs ys" and s2: "s2 = rows_in xs" by auto
  have s: "sorted_ranges (xs @ ys)" using assms c by (simp add: vec_ok_cuts)
  show ?thesis
  proof (cases "ys \<noteq> [] \<and> fst (hd ys) < e")
    case True
    then obtain r ys0 where ys: "ys = r # ys0" by (cases ys) auto
    then show ?thesis
      using 1 2 s2 True cut_end [OF c] cut_at(2) [of m it2 xs r ys0] c elems_cuts [OF c]
        rank_inside [of xs r ys0 e] s a by (simp add: count_tail_def sz_sub_le)
  next
    case False
    have "\<forall>r \<in> set ys. e \<le> fst r" using False s hd_fst_le [of ys e] by auto
    then have "rank (rows (xs @ ys)) e = rows_in xs"
      using s a by (intro rank_rows_split) (auto simp: at_index_def)
    moreover have "\<not> (it2 \<noteq> end_it m \<and> fst (at m it2) < e)"
      using False cut_end [OF c] cut_at(2) [of m it2 xs] c by (cases ys) auto
    ultimately show ?thesis using 1 2 s2 elems_cuts [OF c] by (auto simp: count_tail_def)
  qed
qed

lemma count_from_zero:
  assumes "vec_ok m"
  shows "iset_count m 0 e = rank (elems m) e"
proof -
  let ?it = "find_index m 0"
  from assms obtain xs ys where c: "cuts m ?it xs ys" and a: "at_index 0 xs ys"
    by (rule find_index_correct)
  have ok: "chunks_ok m" and s: "sorted_ranges (xs @ ys)" using assms c by (auto simp: vec_ok_cuts)
  have xs: "xs = []" using a s by (cases xs) (auto simp: at_index_def)
  then have it: "?it = begin_it m" using cut_begin [OF ok c] by simp
  show ?thesis
  proof (cases ys)
    case Nil
    then show ?thesis using xs cut_end [OF c] elems_cuts [OF c] by (simp add: iset_count_def)
  next
    case (Cons r ys0)
    have at: "at m ?it = r" "?it \<noteq> end_it m" using cut_at [of m ?it xs r ys0] c Cons by auto
    have el: "elems m = rows ([] @ r # ys0)" using elems_cuts [OF c] xs Cons by simp
    show ?thesis
    proof (cases "fst r \<ge> e")
      case True
      then have "\<forall>q \<in> set (r # ys0). e \<le> fst q"
        using s xs Cons hd_fst_le [of "r # ys0" e] by auto
      then have "rank (elems m) e = 0"
        using el rows_lower [of "r # ys0" e] by (intro rank_below) auto
      then show ?thesis using True at by (simp add: iset_count_def)
    next
      case F1: False
      show ?thesis
      proof (cases "snd r > e")
        case True
        have "at_index e [] (r # ys0)" using True s xs Cons by (intro at_index_Cons) auto
        then show ?thesis
          using rank_inside [of "[]" r ys0 e] s xs Cons F1 True at el
          by (simp add: iset_count_def sz_sub_le)
      next
        case F2: False
        show ?thesis
        proof (cases "snd r = e")
          case True
          have "\<forall>q \<in> set ys0. e \<le> fst q" using s xs Cons True by fastforce
          then have "rank (rows ([r] @ ys0)) e = rows_in [r]"
            using s xs Cons True by (intro rank_rows_split) auto
          then show ?thesis using True F1 at el by (simp add: iset_count_def sz_sub_le)
        next
          case False
          then have "iset_count m 0 e = count_tail m (begin_it m) e 0"
            using F1 F2 at it by (simp add: iset_count_def begin_it_def)
          then show ?thesis using count_tail_correct [OF assms] by simp
        qed
      qed
    qed
  qed
qed

lemma unshift_correct:
  "vec_ok m \<Longrightarrow> iset_unshift m i = i - rank (elems m) i"
  by (simp add: iset_unshift_def count_from_zero sz_sub_le rank_le)

end
