(* ===== verification/Index_Set_Bulk.thy ===== *)
theory Index_Set_Bulk
  imports Index_Set_Erase
begin

section \<open>Index sets: removal and the operations on whole sets are correct\<close>

text \<open>
  The loop of \<open>do_remove\<close>, which ends because each round uses up a range, and the operations
  that rebuild the set through the builder: \<open>insert_at\<close>, \<open>shift_for_insert_at\<close>,
  \<open>erase_at\<close> and \<open>add_shifted_by\<close> for a whole index set. The builder keeps the chunk
  caches right for single indexes; for a range that opens a chunk beyond the space reserved it
  records the count 1 whatever the range holds, so the last lemmas say when that can happen.
\<close>

subsection \<open>Removing rows without shifting\<close>

definition remove_inv :: "nat set \<Rightarrow> nat \<Rightarrow> nat \<Rightarrow> chunks \<times> iter \<times> nat \<Rightarrow> bool" where
  "remove_inv S b0 e = (\<lambda>(m, it, b). vec_ok m \<and> b0 \<le> b \<and> b < e \<and>
     (\<exists>xs ys. cuts m it xs ys \<and> at_index b xs ys) \<and>
     elems m - {b0..<e} = S - {b0..<e} \<and> elems m \<inter> {b0..<b} = {})"

definition remove_measure :: "nat \<Rightarrow> chunks \<times> iter \<times> nat \<Rightarrow> nat" where
  "remove_measure e = (\<lambda>(m, it, b). length (filter (\<lambda>r. fst r < e \<and> b < snd r) (flat m)))"

lemma filter_cut:
  assumes "at_index b xs ys" "b \<le> b'"
  shows "length (filter (\<lambda>r. fst r < e \<and> b' < snd r) (xs @ ys)) \<le> length (filter (\<lambda>r. fst r < e) ys)"
proof -
  have "filter (\<lambda>r. fst r < e \<and> b' < snd r) xs = []"
    using assms by (fastforce simp: at_index_def filter_empty_conv)
  moreover have "length (filter (\<lambda>r. fst r < e \<and> b' < snd r) ys) \<le> length (filter (\<lambda>r. fst r < e) ys)"
    by (induction ys) auto
  ultimately show ?thesis by simp
qed

lemma remove_round:
  assumes inv: "remove_inv S b0 e (m, it, b)" and cond: "do_remove_cond e (m, it, b)"
  obtains m1 it1 b1 xs1 ys1 where
    "do_remove_step e (m, it, b) = (m1, find_from m1 b1 it1, b1)" "vec_ok m1"
    "cuts m1 it1 xs1 ys1" "\<forall>r \<in> set xs1. snd r \<le> b1" "b \<le> b1" "b1 < e"
    "elems m1 - {b0..<e} = elems m - {b0..<e}" "elems m1 \<inter> {b0..<b1} = {}"
    "remove_measure e (m1, it1, b1) < remove_measure e (m, it, b)"
proof -
  from inv obtain xs ys where c: "cuts m it xs ys" and a: "at_index b xs ys" and v: "vec_ok m"
    and b: "b0 \<le> b" "b < e" and d: "elems m \<inter> {b0..<b} = {}" by (auto simp: remove_inv_def)
  from cond cut_end [OF c] have "ys \<noteq> []" by (simp add: do_remove_cond_def)
  then obtain r zs where ys: "ys = r # zs" by (cases ys) auto
  have cr: "cuts m it xs (r # zs)" using c ys by simp
  have ok: "chunks_ok m" and s: "sorted_ranges (xs @ r # zs)" using v cr by (auto simp: vec_ok_cuts)
  have at: "at m it = r" using cut_at [OF cr] by simp
  have r: "fst r < snd r" "fst r < e" "b < snd r"
    using s cond at a ys by (auto simp: do_remove_cond_def at_index_def)
  note el = elems_cuts [OF cr] and bx = at_index_below [OF a]
  define b1 where "b1 = max (fst r) b"
  have b1: "b \<le> b1" "b1 < e" "fst r \<le> b1" "b1 < snd r" using r b by (auto simp: b1_def)
  have le: "\<forall>q \<in> set xs. snd q \<le> b1" using a b1 by (fastforce simp: at_index_def)
  have zs: "\<forall>q \<in> set zs. snd r < fst q" using s by auto
  have rz: "rows zs \<inter> {..<snd r} = {}" using zs by (intro rows_lower) fastforce
  have mb: "remove_measure e (m, it, b) = Suc (length (filter (\<lambda>r. fst r < e) zs))"
  proof -
    have "filter (\<lambda>r. fst r < e \<and> b < snd r) xs = []"
      using a by (fastforce simp: at_index_def filter_empty_conv)
    moreover have "filter (\<lambda>r. fst r < e \<and> b < snd r) zs = filter (\<lambda>r. fst r < e) zs"
      using a ys by (intro filter_cong) (auto simp: at_index_def)
    ultimately show ?thesis using r cut_flat [OF cr] by (simp add: remove_measure_def)
  qed
  have fx: "filter (\<lambda>r. fst r < e \<and> b1 < snd r) xs = []"
    using le by (fastforce simp: filter_empty_conv)
  have fz: "length (filter (\<lambda>r. fst r < e \<and> b1 < snd r) zs) \<le> length (filter (\<lambda>r. fst r < e) zs)"
    by (induction zs) auto
  have gap: "b1 = b \<or> fst r = b1" by (auto simp: b1_def)
  have "rows xs \<subseteq> elems m" unfolding el by simp
  then have "rows xs \<inter> {b0..<b} = {}" using d by blast
  moreover have "rows xs \<inter> {b..<b1} = {}" using bx by (metis (no_types, lifting) Int_emptyI
        atLeastLessThan_iff lessThan_iff not_le subsetD)
  moreover have "{b0..<b1} = {b0..<b} \<union> {b..<b1}" using b b1 by auto
  ultimately have xb: "rows xs \<inter> {b0..<b1} = {}" by (simp add: Int_Un_distrib)
  have rb: "{fst r..<b1} \<inter> {b0..<b1} = {}"
  proof (cases "fst r = b1")
    case False
    then have "b1 = b" using gap by simp
    have "{fst r..<b1} \<subseteq> {fst r..<snd r}" using b1(4) by simp
    also have "\<dots> \<subseteq> elems m" unfolding el by auto
    finally have "{fst r..<b} \<subseteq> elems m" using \<open>b1 = b\<close> by simp
    then show ?thesis using d unfolding \<open>b1 = b\<close> by blast
  qed simp
  have e0: "{fst r..<snd r} - {b0..<e} = ({fst r..<b1} \<union> {e..<snd r}) - {b0..<e}"
    using b b1 by auto
  show thesis
  proof (cases "fst r < b1 \<and> snd r > e")
    case True
    let ?r = "(fst r, b1)"
    have m1: "it_set m it (fst r) b1 = put_rng m it ?r" by (rule cut_set [OF ok cr]) (use True in simp)
    let ?m1 = "put_rng m it ?r"
    have ok1: "chunks_ok ?m1" by (rule cut_put_ok [OF ok cr]) (use True in simp)
    have c1: "cuts ?m1 (it_next ?m1 it) (xs @ [?r]) zs" by (rule cut_next [OF ok1 cut_put [OF cr]])
    obtain m2 e2 where ins: "insert_rng ?m1 (it_next ?m1 it) (e, snd r) = (m2, e2)" by (rule prod.exhaust)
    have s2: "sorted_ranges ((xs @ [?r]) @ (e, snd r) # zs)"
      using s True b1 by (cases zs) (auto simp: glue simp del: sorted_ranges_simps(2,3))
    have 2: "chunks_ok m2" "cuts m2 e2 (xs @ [?r]) ((e, snd r) # zs)"
      using cut_insert [OF ok1 c1 _ sorted_ranges_ordered [OF s2] ins] True by auto
    note c3 = cut_prev [OF 2]
    have st: "do_remove_step e (m, it, b) = (m2, find_from m2 b1 (it_prev m2 e2), b1)"
      using True at m1 ins by (simp add: do_remove_step_def Let_def b1_def [symmetric])
    have em: "elems m2 = rows xs \<union> {fst r..<b1} \<union> {e..<snd r} \<union> rows zs"
      using elems_cuts [OF c3] by (simp add: Un_assoc)
    show thesis
    proof (rule that [OF st _ c3 le])
      show "vec_ok m2" using vec_ok_cuts [OF c3] 2 s2 by simp
      show "elems m2 - {b0..<e} = elems m - {b0..<e}" using em el e0 by (simp add: Un_Diff Un_assoc)
      show "elems m2 \<inter> {b0..<b1} = {}" using em xb rb rz b1 by auto
      have "filter (\<lambda>r. fst r < e) zs = []" using zs True by (fastforce simp: filter_empty_conv)
      then have "filter (\<lambda>r. fst r < e \<and> b1 < snd r) zs = []" using fz by simp
      then show "remove_measure e (m2, it_prev m2 e2, b1) < remove_measure e (m, it, b)"
        using mb cut_flat [OF c3] fx by (simp add: remove_measure_def)
    qed (use b1 in auto)
  next
    case F1: False
    show thesis
    proof (cases "b1 = fst r \<and> e \<ge> snd r")
      case True
      obtain m2 e2 where er: "erase_rng m it = (m2, e2)" by (rule prod.exhaust)
      have 2: "chunks_ok m2" "cuts m2 e2 xs zs" using cut_erase [OF ok cr er] by auto
      have st: "do_remove_step e (m, it, b) = (m2, find_from m2 b1 e2, b1)"
        using True F1 at er by (simp add: do_remove_step_def Let_def b1_def [symmetric])
      have em: "elems m2 = rows xs \<union> rows zs" using elems_cuts [OF 2(2)] by simp
      show thesis
      proof (rule that [OF st _ 2(2) le])
        show "vec_ok m2" using vec_ok_cuts [OF 2(2)] 2 s by auto
        have "{fst r..<snd r} - {b0..<e} = {}" using True b b1 by auto
        then show "elems m2 - {b0..<e} = elems m - {b0..<e}"
          unfolding em el rows_simps Un_Diff by blast
        show "elems m2 \<inter> {b0..<b1} = {}" using em xb rz b1 by auto
        show "remove_measure e (m2, e2, b1) < remove_measure e (m, it, b)"
          using mb cut_flat [OF 2(2)] fx fz by (simp add: remove_measure_def)
      qed (use b1 in auto)
    next
      case F2: False
      define r' where "r' = (if b1 = fst r then (e, snd r) else (fst r, b1))"
      have r': "fst r' < snd r'" using F2 b1 by (auto simp: r'_def)
      have m1: "(if b1 = fst r then it_set m it e (snd r) else it_set m it (fst r) b1) = put_rng m it r'"
        using F2 b1 cut_set [OF ok cr, of e "snd r"] cut_set [OF ok cr, of "fst r" b1]
        by (auto simp: r'_def)
      let ?m1 = "put_rng m it r'"
      have ok1: "chunks_ok ?m1" by (rule cut_put_ok [OF ok cr r'])
      have c1: "cuts ?m1 it xs (r' # zs)" by (rule cut_put [OF cr])
      have st0: "do_remove_step e (m, it, b) = (?m1, find_from ?m1 b1 it, b1)"
        using F1 F2 at m1 by (auto simp: do_remove_step_def Let_def b1_def [symmetric])
      have s1: "sorted_ranges (xs @ r' # zs)"
        using s r' F1 F2 b1 by (cases zs) (auto simp: glue r'_def simp del: sorted_ranges_simps(2,3))
      have em: "elems ?m1 = rows xs \<union> {fst r'..<snd r'} \<union> rows zs"
        using elems_cuts [OF c1] by (simp add: Un_assoc)
      show thesis
      proof (rule that [OF st0 _ c1 le])
        show "vec_ok ?m1" using vec_ok_cuts [OF c1] ok1 s1 by simp
        show "elems ?m1 - {b0..<e} = elems m - {b0..<e}"
          using em el e0 F1 F2 b b1 by (auto simp: r'_def)
        show "elems ?m1 \<inter> {b0..<b1} = {}" using em xb rb rz b1 by (auto simp: r'_def)
        have "filter (\<lambda>r. fst r < e \<and> b1 < snd r) [r'] = []" by (auto simp: r'_def)
        then show "remove_measure e (?m1, it, b1) < remove_measure e (m, it, b)"
          using mb cut_flat [OF c1] fx fz by (auto simp: remove_measure_def split: if_splits)
      qed (use b1 in auto)
    qed
  qed
qed

lemma remove_step_inv:
  assumes "remove_inv S b0 e st" "do_remove_cond e st"
  shows "remove_inv S b0 e (do_remove_step e st)"
    and "remove_measure e (do_remove_step e st) < remove_measure e st"
proof -
  obtain m it b where st: "st = (m, it, b)" by (cases st) auto
  from remove_round [OF assms [unfolded st]] obtain m1 it1 b1 xs1 ys1 where
    r: "do_remove_step e (m, it, b) = (m1, find_from m1 b1 it1, b1)" "vec_ok m1"
    "cuts m1 it1 xs1 ys1" "\<forall>r \<in> set xs1. snd r \<le> b1" "b \<le> b1" "b1 < e"
    "elems m1 - {b0..<e} = elems m - {b0..<e}" "elems m1 \<inter> {b0..<b1} = {}"
    "remove_measure e (m1, it1, b1) < remove_measure e (m, it, b)" .
  from find_from_correct [OF r(2,3,4)] obtain us vs where
    "cuts m1 (find_from m1 b1 it1) us vs" "at_index b1 us vs" .
  then show "remove_inv S b0 e (do_remove_step e st)"
    using assms(1) r st by (auto simp: remove_inv_def)
  show "remove_measure e (do_remove_step e st) < remove_measure e st"
    using r st by (simp add: remove_measure_def)
qed

lemma do_remove_correct:
  assumes v: "vec_ok m" and c: "cuts m it xs ys" and le: "\<forall>r \<in> set xs. snd r \<le> b" and be: "b < e"
    and d: "do_remove m it b e = (m', it')"
  shows "vec_ok m' \<and> elems m' = elems m - {b..<e} \<and>
    (\<exists>us vs. cuts m' it' us vs \<and> (\<forall>r \<in> set us. snd r \<le> e))"
proof -
  let ?Q = "\<lambda>(m', it', b'). vec_ok m' \<and> elems m' = elems m - {b..<e} \<and>
    (\<exists>us vs. cuts m' it' us vs \<and> (\<forall>r \<in> set us. snd r \<le> e))"
  from find_from_correct [OF v c le] obtain us vs where
    f: "cuts m (find_from m b it) us vs" "at_index b us vs" .
  have "?Q (while (do_remove_cond e) (do_remove_step e) (m, find_from m b it, b))"
  proof (rule while_rule [where P = "remove_inv (elems m) b e" and r = "measure (remove_measure e)"])
    show "remove_inv (elems m) b e (m, find_from m b it, b)"
      using v be f by (auto simp: remove_inv_def)
  next
    fix st assume inv: "remove_inv (elems m) b e st" and no: "\<not> do_remove_cond e st"
    obtain m1 it1 b1 where st: "st = (m1, it1, b1)" by (cases st) auto
    from inv st obtain us vs where i: "vec_ok m1" "b \<le> b1" "b1 < e" "cuts m1 it1 us vs"
      "at_index b1 us vs" "elems m1 - {b..<e} = elems m - {b..<e}" "elems m1 \<inter> {b..<b1} = {}"
      by (auto simp: remove_inv_def)
    have s: "sorted_ranges (us @ vs)" using i by (simp add: vec_ok_cuts)
    have "vs = [] \<or> e \<le> fst (hd vs)"
      using no st cut_end [OF i(4)] cut_at(2) [of m1 it1 us] i(4)
      by (cases vs) (auto simp: do_remove_cond_def)
    then have "\<forall>r \<in> set vs. e \<le> fst r" using s hd_fst_le [of vs e] by auto
    then have "rows vs \<inter> {..<e} = {}" by (rule rows_lower)
    then have "elems m1 \<inter> {b..<e} = {}"
      using elems_cuts [OF i(4)] at_index_below [OF i(5)] i(7) by fastforce
    then have "elems m1 = elems m - {b..<e}" using i(6) by blast
    moreover have "\<forall>r \<in> set us. snd r \<le> e" using i(3,5) by (fastforce simp: at_index_def)
    ultimately show "?Q st" using st i by auto
  qed (use remove_step_inv in auto)
  then show ?thesis using d by (auto simp: do_remove_def split: prod.splits)
qed

lemma remove_correct:
  assumes "vec_ok m" "0 < n"
  shows "vec_ok (iset_remove m i n)" and "elems (iset_remove m i n) = elems m - {i..<i + n}"
proof -
  from assms(1) obtain xs ys where c: "cuts m (find_index m i) xs ys" and a: "at_index i xs ys"
    by (rule find_index_correct)
  obtain m' it' where d: "do_remove m (find_index m i) i (i + n) = (m', it')" by (rule prod.exhaust)
  have "\<forall>r \<in> set xs. snd r \<le> i" using a by (simp add: at_index_def)
  from do_remove_correct [OF assms(1) c this _ d] assms(2)
  show "vec_ok (iset_remove m i n)" "elems (iset_remove m i n) = elems m - {i..<i + n}"
    by (auto simp: iset_remove_def d)
qed

lemma remove_ranges_correct:
  assumes "vec_ok m" "cuts m it xs ys" "sorted_ranges rs" "\<forall>q \<in> set xs. \<forall>r \<in> set rs. snd q \<le> fst r"
  shows "vec_ok (remove_ranges m it rs) \<and> elems (remove_ranges m it rs) = elems m - rows rs"
  using assms
proof (induction rs arbitrary: m it xs ys)
  case (Cons r rs)
  obtain m' it' where d: "do_remove m it (fst r) (snd r) = (m', it')" by (rule prod.exhaust)
  have "\<forall>q \<in> set xs. snd q \<le> fst r" "fst r < snd r" using Cons.prems by auto
  from do_remove_correct [OF Cons.prems(1,2) this d] obtain us vs where
    1: "vec_ok m'" "elems m' = elems m - {fst r..<snd r}" "cuts m' it' us vs" "\<forall>q \<in> set us. snd q \<le> snd r"
    by auto
  show ?case
  proof (cases "it' = end_it m'")
    case True
    then have "vs = []" using cut_end [OF 1(3)] by simp
    then have "elems m' \<subseteq> {..<snd r}" using elems_cuts [OF 1(3)] rows_upper [OF 1(4)] by simp
    moreover have "rows rs \<inter> {..<snd r} = {}" using Cons.prems(3) by (intro rows_lower) fastforce
    ultimately have "elems m' = elems m' - rows rs" by auto
    then show ?thesis using True d 1 by auto
  next
    case False
    have "\<forall>q \<in> set us. \<forall>s \<in> set rs. snd q \<le> fst s" using 1(4) Cons.prems(3) by fastforce
    from Cons.IH [OF 1(1,3) _ this] Cons.prems(3) False d 1(2) show ?thesis by auto
  qed
qed simp

lemma remove_set_correct:
  assumes "vec_ok m" "vec_ok values"
  shows "vec_ok (iset_remove_set m values)" and "elems (iset_remove_set m values) = elems m - elems values"
  using remove_ranges_correct [OF assms(1) cut_begin_it [of m], of "flat values"] assms
  by (auto simp: iset_remove_set_def vec_ok_def elems_def)

subsection \<open>The builder\<close>

text \<open>Pushing a range onto a list of ranges: it joins the last range when they touch.\<close>

definition rpush :: "rng list \<Rightarrow> rng \<Rightarrow> rng list" where
  "rpush rs r =
     (if rs \<noteq> [] \<and> fst r = snd (last rs) then butlast rs @ [(fst (last rs), snd r)] else rs @ [r])"

lemma rpush_correct:
  assumes "sorted_ranges rs" "fst r < snd r" "rs = [] \<or> snd (last rs) \<le> fst r"
  shows "sorted_ranges (rpush rs r)" "rows (rpush rs r) = rows rs \<union> {fst r..<snd r}"
    "rpush rs r \<noteq> []" "snd (last (rpush rs r)) = snd r" "length rs \<le> length (rpush rs r)"
    "\<forall>q \<in> set (rpush rs r). fst q < snd q"
proof -
  show s: "sorted_ranges (rpush rs r)"
    using assms by (cases rs rule: rev_cases) (auto simp: rpush_def glue simp del: sorted_ranges_simps(2,3))
  show "rows (rpush rs r) = rows rs \<union> {fst r..<snd r}"
  proof (cases rs rule: rev_cases)
    case (snoc zs z)
    have "fst r = snd z \<Longrightarrow> {fst z..<snd r} = {fst z..<snd z} \<union> {snd z..<snd r}"
      using assms snoc by auto
    then show ?thesis using snoc by (auto simp: rpush_def)
  qed (simp add: rpush_def)
  show "rpush rs r \<noteq> []" "snd (last (rpush rs r)) = snd r" "length rs \<le> length (rpush rs r)"
    by (auto simp: rpush_def)
  show "\<forall>q \<in> set (rpush rs r). fst q < snd q" using s sorted_ranges_pos by blast
qed

text \<open>The chunk that is being filled has no valid \<open>end\<close> yet. The flag says whether the cached
  counts are right.\<close>

definition open_ok :: "bool \<Rightarrow> chunk \<Rightarrow> bool" where
  "open_ok g c \<longleftrightarrow> cdata c \<noteq> [] \<and> length (cdata c) \<le> max_size \<and> cbegin c = fst (hd (cdata c)) \<and>
     (\<forall>r \<in> set (cdata c). fst r < snd r) \<and> (g \<longrightarrow> ccount c = rows_in (cdata c))"

definition builder_inv :: "bool \<Rightarrow> nat \<Rightarrow> rv_builder \<Rightarrow> rng list \<Rightarrow> bool" where
  "builder_inv g n b rs \<longleftrightarrow> n \<le> length (b_data b) \<and> flat (b_data b) = rs \<and>
     (\<exists>filled cur rest. b_data b = filled @ cur # rest \<and> b_outer b = length filled \<and>
        (\<forall>c \<in> set filled. open_ok g c \<and> length (cdata c) = max_size \<and> cend c = snd (last (cdata c))) \<and>
        (\<forall>c \<in> set rest. c = empty_chunk) \<and> (filled = [] \<and> cur = empty_chunk \<or> open_ok g cur))"

lemma flat_empties [simp]: "\<forall>c \<in> set cs. c = empty_chunk \<Longrightarrow> flat cs = []"
  by (induction cs) (auto simp: empty_chunk_def)

lemma builder_invI:
  assumes "b_data b = filled @ cur # rest" "b_outer b = length filled" "n \<le> length (b_data b)"
    "\<And>c. c \<in> set filled \<Longrightarrow> open_ok g c \<and> length (cdata c) = max_size \<and> cend c = snd (last (cdata c))"
    "\<And>c. c \<in> set rest \<Longrightarrow> c = empty_chunk" "filled = [] \<and> cur = empty_chunk \<or> open_ok g cur"
    "flat filled @ cdata cur = rs"
  shows "builder_inv g n b rs"
proof -
  have "flat rest = []" using assms(5) by simp
  then show ?thesis
    unfolding builder_inv_def using assms
    by (intro conjI exI [of _ filled] exI [of _ cur] exI [of _ rest]) auto
qed

lemma full_length:
  "\<forall>c \<in> set cs. length (cdata c) = n \<Longrightarrow> length (flat cs) = n * length cs"
  by (induction cs) auto

lemma builder_push_inv:
  assumes b: "builder_inv g n b rs" and r: "fst r < snd r"
    and fits: "g \<Longrightarrow> snd r = Suc (fst r) \<or> length (rpush rs r) \<le> max_size * n"
  shows "builder_inv g n (builder_push b r) (rpush rs r)"
proof -
  from b obtain filled cur rest where d: "b_data b = filled @ cur # rest" "b_outer b = length filled"
    and dn: "\<forall>c \<in> set filled. open_ok g c \<and> length (cdata c) = max_size \<and> cend c = snd (last (cdata c))"
    and re: "\<forall>c \<in> set rest. c = empty_chunk" and cu: "filled = [] \<and> cur = empty_chunk \<or> open_ok g cur"
    and n: "n \<le> length (b_data b)" and fl: "flat (b_data b) = rs"
    by (auto simp: builder_inv_def)
  have rs: "rs = flat filled @ cdata cur" using fl d re by simp
  have at: "b_data b ! b_outer b = cur" using d by simp
  show ?thesis
  proof (cases "cdata cur = []")
    case True
    then have e: "filled = []" using cu by (auto simp: open_ok_def)
    let ?c = "cur\<lparr>cdata := [r], ccount := sz_sub (snd r) (fst r), cbegin := fst r\<rparr>"
    have "builder_push b r = b\<lparr>b_data := ?c # rest\<rparr>"
      using True at d e by (simp add: builder_push_def Let_def)
    moreover have "open_ok g ?c" using r max_size_ge by (simp add: open_ok_def sz_sub_le)
    moreover have "rpush rs r = [r]" using rs True e by (simp add: rpush_def)
    ultimately show ?thesis using n d e re by (auto simp: builder_inv_def)
  next
    case ne: False
    then have oc: "open_ok g cur" using cu by (auto simp: empty_chunk_def)
    show ?thesis
    proof (cases "fst r = snd (last (cdata cur))")
      case True
      let ?l = "last (cdata cur)"
      let ?c = "cur\<lparr>cdata := butlast (cdata cur) @ [(fst ?l, snd r)],
        ccount := ccount cur + sz_sub (snd r) (fst r)\<rparr>"
      have "builder_push b r = b\<lparr>b_data := filled @ ?c # rest\<rparr>"
        using True ne at d by (simp add: builder_push_def Let_def)
      moreover have "open_ok g ?c"
      proof -
        obtain zs z where z: "cdata cur = zs @ [z]" using ne by (metis rev_exhaust)
        then show ?thesis using oc r True by (auto simp: open_ok_def sz_sub_le hd_append)
      qed
      moreover have "rpush rs r = flat filled @ butlast (cdata cur) @ [(fst ?l, snd r)]"
        using rs ne True by (simp add: rpush_def butlast_append)
      ultimately show ?thesis using n d re dn by (auto simp: builder_inv_def)
    next
      case F1: False
      have rp: "rpush rs r = rs @ [r]" using rs ne F1 by (simp add: rpush_def)
      show ?thesis
      proof (cases "length (cdata cur) < max_size")
        case True
        let ?c = "cur\<lparr>cdata := cdata cur @ [r], ccount := ccount cur + sz_sub (snd r) (fst r)\<rparr>"
        have "builder_push b r = b\<lparr>b_data := filled @ ?c # rest\<rparr>"
          using True F1 ne at d by (simp add: builder_push_def Let_def)
        moreover have "open_ok g ?c" using oc r True ne by (auto simp: open_ok_def sz_sub_le hd_append)
        ultimately show ?thesis using n d re dn rp rs by (auto simp: builder_inv_def)
      next
        case F2: False
        then have len: "length (cdata cur) = max_size" using oc by (auto simp: open_ok_def)
        let ?c = "cur\<lparr>cend := snd (last (cdata cur))\<rparr>"
        have c_ok: "open_ok g ?c" "length (cdata ?c) = max_size" "cend ?c = snd (last (cdata ?c))"
          using oc len by (auto simp: open_ok_def)
        show ?thesis
        proof (cases rest)
          case Nil
          let ?n = "\<lparr>cdata = [r], cbegin = fst r, cend = 0, ccount = 1\<rparr>"
          have "builder_push b r = b\<lparr>b_data := (filled @ [?c]) @ [?n], b_outer := Suc (length filled)\<rparr>"
            using F1 F2 ne at d Nil by (simp add: builder_push_def Let_def)
          moreover have "g \<longrightarrow> snd r = Suc (fst r)"
          proof (rule ccontr)
            assume "\<not> (g \<longrightarrow> snd r = Suc (fst r))"
            then have "length (rpush rs r) \<le> max_size * n" using fits by auto
            moreover have "length rs = max_size * Suc (length filled)"
              using rs full_length [of filled max_size] dn len by simp
            moreover have "n \<le> Suc (length filled)" using n d Nil by simp
            ultimately show False using rp by (auto dest!: mult_le_mono2 [of n _ max_size])
          qed
          then have "open_ok g ?n" using r max_size_ge by (auto simp: open_ok_def)
          ultimately show ?thesis using n d Nil dn c_ok rp rs
            by (intro builder_invI [where filled = "filled @ [?c]" and cur = ?n and rest = "[]"]) auto
        next
          case (Cons e rest')
          let ?n = "e\<lparr>cdata := cdata e @ [r], cbegin := fst r, ccount := sz_sub (snd r) (fst r)\<rparr>"
          have e: "cdata e = []" "\<forall>c \<in> set rest'. c = empty_chunk"
            using re Cons by (auto simp: empty_chunk_def)
          have "builder_push b r = b\<lparr>b_data := (filled @ [?c]) @ ?n # rest', b_outer := Suc (length filled)\<rparr>"
            using F1 F2 ne at d Cons by (simp add: builder_push_def Let_def nth_append list_update_append)
          moreover have "open_ok g ?n" using r max_size_ge e by (auto simp: open_ok_def sz_sub_le)
          ultimately show ?thesis using n d Cons dn c_ok rp rs e
            by (intro builder_invI [where filled = "filled @ [?c]" and cur = ?n and rest = rest']) auto
        qed
      qed
    qed
  qed
qed

lemma builder_for_inv: "builder_inv g (length (flat m) div max_size + 1) (builder_for m) []"
proof -
  let ?k = "length (flat m) div max_size"
  have "builder_for m = \<lparr>b_data = empty_chunk # replicate ?k empty_chunk, b_outer = 0\<rparr>"
    by (simp add: builder_for_def length_flat)
  then show ?thesis
    by (intro builder_invI [where filled = "[]" and cur = empty_chunk]) (auto simp: empty_chunk_def)
qed

lemma finalize_open:
  assumes "builder_inv g n b rs"
  shows "flat (builder_finalize b) = rs" and "g \<Longrightarrow> chunks_ok (builder_finalize b)"
proof -
  from assms obtain filled cur rest where d: "b_data b = filled @ cur # rest" "b_outer b = length filled"
    and dn: "\<forall>c \<in> set filled. open_ok g c \<and> length (cdata c) = max_size \<and> cend c = snd (last (cdata c))"
    and re: "\<forall>c \<in> set rest. c = empty_chunk" and cu: "filled = [] \<and> cur = empty_chunk \<or> open_ok g cur"
    and fl: "flat (b_data b) = rs"
    by (auto simp: builder_inv_def)
  have rs: "rs = flat filled @ cdata cur" using fl d re by simp
  have f: "builder_finalize b = (if cdata cur = [] then filled
      else filled @ [cur\<lparr>cend := snd (last (cdata cur))\<rparr>])"
    using d by (simp add: builder_finalize_def Let_def)
  show "flat (builder_finalize b) = rs" using f rs by simp
  have ce: "cdata empty_chunk = []" by (simp add: empty_chunk_def)
  have "chunk_ok c" if "g" "open_ok g c" "cend c = snd (last (cdata c))" for c
    using that by (auto simp: open_ok_def chunk_ok_def)
  then show "g \<Longrightarrow> chunks_ok (builder_finalize b)"
    using f dn cu ce by (auto simp: chunks_ok_def open_ok_def)
qed

lemma push_indexes_inv:
  assumes "builder_inv g n b rs" "sorted_ranges rs" "sorted_wrt (<) js"
    "rs = [] \<or> (\<forall>j \<in> set js. snd (last rs) \<le> j)"
  shows "\<exists>rs'. builder_inv g n (foldl builder_push_index b js) rs' \<and> sorted_ranges rs' \<and>
    rows rs' = rows rs \<union> set js \<and> (js = [] \<longrightarrow> rs' = rs) \<and>
    (js \<noteq> [] \<longrightarrow> rs' \<noteq> [] \<and> snd (last rs') = Suc (last js))"
  using assms
proof (induction js arbitrary: b rs)
  case (Cons j js)
  let ?rs = "rpush rs (j, j + 1)"
  have p: "rs = [] \<or> snd (last rs) \<le> fst (j, j + 1)" using Cons.prems(4) by auto
  note R = rpush_correct [OF Cons.prems(2) _ p]
  have b: "builder_inv g n (builder_push_index b j) ?rs"
    unfolding builder_push_index_def by (rule builder_push_inv [OF Cons.prems(1)]) auto
  have "?rs = [] \<or> (\<forall>i \<in> set js. snd (last ?rs) \<le> i)" using R(4) Cons.prems(3) by auto
  moreover have "sorted_wrt (<) js" using Cons.prems(3) by simp
  ultimately obtain rs' where "builder_inv g n (foldl builder_push_index (builder_push_index b j) js) rs'"
    "sorted_ranges rs'" "rows rs' = rows ?rs \<union> set js" "js = [] \<longrightarrow> rs' = ?rs"
    "js \<noteq> [] \<longrightarrow> rs' \<noteq> [] \<and> snd (last rs') = Suc (last js)"
    using Cons.IH [OF b] R(1) by auto
  then show ?case using R by (intro exI [of _ rs']) (auto simp: atLeastLessThanSuc)
qed auto

lemma build_correct:
  assumes "sorted_wrt (<) js"
  shows "vec_ok (builder_finalize (foldl builder_push_index (builder_for m) js))"
    and "elems (builder_finalize (foldl builder_push_index (builder_for m) js)) = set js"
proof -
  from push_indexes_inv [OF builder_for_inv [of True m] _ assms] obtain rs' where
    r: "builder_inv True (length (flat m) div max_size + 1) (foldl builder_push_index (builder_for m) js) rs'"
    "sorted_ranges rs'" "rows rs' = set js" by auto
  from finalize_open [OF r(1)] r(2,3)
  show "vec_ok (builder_finalize (foldl builder_push_index (builder_for m) js))"
    "elems (builder_finalize (foldl builder_push_index (builder_for m) js)) = set js"
    by (simp_all add: vec_ok_def elems_def)
qed

subsection \<open>Inserting, shifting and erasing whole sets\<close>

text \<open>\<open>spread P S\<close> are the rows of \<open>S\<close> after the rows of \<open>P\<close> have been put in, \<open>squash P S\<close>
  those that are left, renumbered, after the rows of \<open>P\<close> have been taken out.\<close>

definition spread :: "nat set \<Rightarrow> nat set \<Rightarrow> nat set" where
  "spread P S = {j. j \<notin> P \<and> j - rank P j \<in> S}"

definition squash :: "nat set \<Rightarrow> nat set \<Rightarrow> nat set" where
  "squash P S = (\<lambda>x. x - rank P x) ` (S - P)"

lemma rank_Cons: "sorted_wrt (<) (y # ys) \<Longrightarrow> rank (set (y # ys)) j = (if y < j then 1 else 0) + rank (set ys) j"
  using rank_insert [of "set ys" y j] by auto

lemma rank_none: "\<forall>y \<in> set ys. j \<le> y \<Longrightarrow> rank (set ys) j = 0"
  by (rule rank_below) fastforce

text \<open>The list of indexes that a merge pushes, with the rows still to place.\<close>

fun merged :: "nat list \<Rightarrow> nat list \<Rightarrow> nat \<Rightarrow> bool \<Rightarrow> nat list" where
  "merged (x # xs) (y # ys) k ins =
     (if x + k < y then (x + k) # merged xs (y # ys) k ins
      else (if ins then [y] else []) @ merged (x # xs) ys (k + 1) ins)"
| "merged xs [] k ins = map (\<lambda>x. x + k) xs"
| "merged [] ys k ins = (if ins then ys else [])"

lemma insert_merge_merged:
  "insert_merge b xs ys k = foldl builder_push_index b (merged xs ys k True)"
  by (induction b xs ys k rule: insert_merge.induct) auto

lemma shift_merge_merged:
  "shift_merge b xs ys k = foldl builder_push_index b (merged xs ys k False)"
  by (induction b xs ys k rule: shift_merge.induct) auto

lemma merged_facts:
  "sorted_wrt (<) xs \<Longrightarrow> sorted_wrt (<) ys \<Longrightarrow>
   set (merged xs ys k ins) =
      {j. j \<notin> set ys \<and> (\<exists>x \<in> set xs. j = x + k + rank (set ys) j)} \<union> (if ins then set ys else {}) \<and>
   sorted_wrt (<) (merged xs ys k ins)"
proof (induction xs ys k ins rule: merged.induct)
  case (1 x xs y ys k ins)
  let ?Y = "set (y # ys)"
  have sx: "sorted_wrt (<) xs" "\<forall>z \<in> set xs. x < z" and sy: "sorted_wrt (<) ys" "\<forall>z \<in> set ys. y < z"
    using "1.prems" by auto
  show ?case
  proof (cases "x + k < y")
    case True
    note IH = "1.IH"(1) [OF True sx(1) "1.prems"(2)]
    have r0: "rank ?Y (x + k) = 0" by (rule rank_none) (use True sy in fastforce)
    have nin: "x + k \<notin> ?Y" using True sy by fastforce
    have "j = x + k" if "j \<notin> ?Y" "j = x + k + rank ?Y j" for j
      using unrank_inj [OF that(1) nin] r0 that(2) by (metis add_diff_cancel_right' diff_zero)
    then have "{j. j \<notin> ?Y \<and> (\<exists>z \<in> set (x # xs). j = z + k + rank ?Y j)} =
        insert (x + k) {j. j \<notin> ?Y \<and> (\<exists>z \<in> set xs. j = z + k + rank ?Y j)}"
      using nin r0 by auto
    moreover have "x + k < j" if "j \<in> set (merged xs (y # ys) k ins)" for j
      using that IH True sx(2) sy by (fastforce split: if_splits)
    ultimately show ?thesis using True IH by auto
  next
    case False
    note IH = "1.IH"(2) [OF False "1.prems"(1) sy(1)]
    have "j \<notin> ?Y \<and> (\<exists>z \<in> set (x # xs). j = z + k + rank ?Y j) \<longleftrightarrow>
        j \<notin> set ys \<and> (\<exists>z \<in> set (x # xs). j = z + (k + 1) + rank (set ys) j)" for j
    proof -
      have z: "y \<le> z + k" if "z \<in> set (x # xs)" for z using that sx(2) False by fastforce
      show ?thesis
      proof (cases "y < j")
        case True
        then show ?thesis using rank_Cons [OF "1.prems"(2)] by auto
      next
        case F: False
        have "rank (set ys) j = 0" by (rule rank_none) (use F sy in fastforce)
        then show ?thesis using F z rank_Cons [OF "1.prems"(2)] by fastforce
      qed
    qed
    note eq = Collect_cong [OF this]
    have lt: "y < j" if "j \<in> set (merged (x # xs) ys (k + 1) ins)" for j
    proof -
      have "j \<in> set ys \<or> (\<exists>z \<in> set (x # xs). j = z + (k + 1) + rank (set ys) j)"
        using that IH by (simp split: if_splits) blast?
      then show ?thesis
      proof (elim disjE bexE)
        fix z assume "z \<in> set (x # xs)" "j = z + (k + 1) + rank (set ys) j"
        moreover have "x \<le> z" using sx(2) \<open>z \<in> set (x # xs)\<close> by auto
        ultimately show ?thesis using False by linarith
      qed (use sy(2) in blast)
    qed
    show ?thesis unfolding eq using False IH lt by (cases ins) auto
  qed
qed (auto simp: sorted_wrt_map)

lemmas merged_correct = merged_facts [THEN conjunct1] merged_facts [THEN conjunct2]

lemma spread_rank: "{j. j \<notin> P \<and> (\<exists>x \<in> S. j = x + rank P j)} = spread P S"
proof -
  have "(\<exists>x \<in> S. j = x + rank P j) \<longleftrightarrow> j - rank P j \<in> S" for j
    using rank_le [of P j] by (metis add_diff_cancel_right' le_add_diff_inverse2)
  then show ?thesis by (auto simp: spread_def)
qed

lemma spread_empty [simp]: "spread {} S = S" "spread P {} = {}"
  by (auto simp: spread_def)

lemma insert_at_set_correct:
  assumes "vec_ok m" "vec_ok p"
  shows "vec_ok (insert_at_set m p)" and "elems (insert_at_set m p) = elems p \<union> spread (elems p) (elems m)"
proof -
  note M = merged_correct [OF sorted_as_indexes [OF assms(1)] sorted_as_indexes [OF assms(2)], of 0 True]
  note B = build_correct [OF M(2), of m]
  have e: "elems (builder_finalize (foldl builder_push_index (builder_for m)
      (merged (as_indexes m) (as_indexes p) 0 True))) = elems p \<union> spread (elems p) (elems m)"
    by (simp add: B(2) M(1) set_as_indexes spread_rank Un_commute)
  show "vec_ok (insert_at_set m p)"
    using B(1) assms by (simp add: insert_at_set_def insert_merge_merged)
  show "elems (insert_at_set m p) = elems p \<union> spread (elems p) (elems m)"
    using e by (simp add: insert_at_set_def insert_merge_merged)
qed

lemma vec_ends:
  assumes "vec_ok m" "m \<noteq> []"
  shows "\<forall>x \<in> elems m. cbegin (hd m) \<le> x \<and> x < cend (last m)"
proof -
  have ok: "chunks_ok m" "sorted_ranges (flat m)" using assms by (auto simp: vec_ok_def)
  obtain c cs where m: "m = c # cs" using assms(2) by (cases m) auto
  obtain ds d where m': "m = ds @ [d]" using assms(2) by (metis rev_exhaust)
  have "chunk_ok c" using ok(1) m by simp
  have "chunk_ok d" using ok(1) m' by simp
  note cd = \<open>chunk_ok c\<close> \<open>chunk_ok d\<close>
  then have c: "flat m \<noteq> []" "fst (hd (flat m)) = cbegin c" and d: "snd (last (flat m)) = cend d"
    using m cd(1) apply (auto simp: chunk_ok_def)[2] using m' cd(2) by (simp add: chunk_ok_def)
  have "\<forall>r \<in> set (flat m). fst (hd (flat m)) \<le> fst r"
    using hd_fst_le [OF ok(2), of "fst (hd (flat m))"] by auto
  moreover have "\<forall>r \<in> set (flat m). snd r \<le> snd (last (flat m))"
    using le_last [OF ok(2), of "snd (last (flat m))"] by auto
  ultimately have "\<forall>r \<in> set (flat m). cbegin (hd m) \<le> fst r \<and> snd r \<le> cend (last m)"
    using c d m m' by (metis last_snoc list.sel(1))
  then show ?thesis unfolding elems_def by (auto simp del: split_paired_All simp: rows_def intro: le_trans less_le_trans)
qed

lemma spread_behind:
  assumes "\<forall>v \<in> V. b \<le> v" "\<forall>s \<in> S. s < b" "b \<in> V \<or> V = {}"
  shows "spread V S = S"
proof (intro set_eqI iffI)
  fix j assume "j \<in> spread V S"
  then have j: "j \<notin> V" "j - rank V j \<in> S" by (auto simp: spread_def)
  have "j < b"
  proof (rule ccontr)
    assume "\<not> j < b"
    then have "b - rank V b \<le> j - rank V j" by (intro unrank_mono) simp
    moreover have "rank V b = 0" by (rule rank_below) (use assms(1) in fastforce)
    ultimately show False using j(2) assms(2) by fastforce
  qed
  then have "rank V j = 0" by (intro rank_below) (use assms(1) in fastforce)
  then show "j \<in> S" using j(2) by simp
next
  fix j assume j: "j \<in> S"
  then have "j < b" using assms(2) by simp
  then have "rank V j = 0" by (intro rank_below) (use assms(1) in fastforce)
  then show "j \<in> spread V S" using j assms by (fastforce simp: spread_def)
qed

lemma first_row:
  assumes "vec_ok v" "v \<noteq> []"
  shows "cbegin (hd v) \<in> elems v"
proof -
  obtain c cs where v: "v = c # cs" using assms(2) by (cases v) auto
  have "chunk_ok c" using assms v by (simp add: vec_ok_def)
  then obtain r rs where "cdata c = r # rs" "cbegin c = fst r" "fst r < snd r"
    by (cases "cdata c") (auto simp: chunk_ok_def)
  then show ?thesis using v by (auto simp: elems_def)
qed

lemma shift_for_insert_at_set_correct:
  assumes "vec_ok m" "vec_ok v"
  shows "vec_ok (shift_for_insert_at_set m v)" and "elems (shift_for_insert_at_set m v) = spread (elems v) (elems m)"
proof -
  note M = merged_correct [OF sorted_as_indexes [OF assms(1)] sorted_as_indexes [OF assms(2)], of 0 False]
  note B = build_correct [OF M(2), of m]
  have e: "elems (builder_finalize (foldl builder_push_index (builder_for m)
      (merged (as_indexes m) (as_indexes v) 0 False))) = spread (elems v) (elems m)"
    by (simp add: B(2) M(1) set_as_indexes spread_rank Un_commute)
  show "vec_ok (shift_for_insert_at_set m v)"
    using B(1) assms by (simp add: shift_for_insert_at_set_def shift_merge_merged)
  have "spread (elems v) (elems m) = elems m"
    if "m \<noteq> []" "v \<noteq> []" "cend (last m) \<le> cbegin (hd v)"
  proof (rule spread_behind)
    show "\<forall>x \<in> elems v. cbegin (hd v) \<le> x" using vec_ends [OF assms(2) that(2)] by blast
    show "\<forall>x \<in> elems m. x < cbegin (hd v)" using vec_ends [OF assms(1) that(1)] that(3) by fastforce
    show "cbegin (hd v) \<in> elems v \<or> elems v = {}" using first_row [OF assms(2) that(2)] by simp
  qed
  then show "elems (shift_for_insert_at_set m v) = spread (elems v) (elems m)"
    using e by (auto simp: shift_for_insert_at_set_def shift_merge_merged)
qed

fun squashed :: "nat list \<Rightarrow> nat list \<Rightarrow> nat \<Rightarrow> nat list" where
  "squashed (x # xs) (y # ys) k =
     (if x < y then (x - k) # squashed xs (y # ys) k
      else if x = y then squashed xs ys (k + 1)
      else squashed (x # xs) ys (k + 1))"
| "squashed xs [] k = map (\<lambda>x. x - k) xs"
| "squashed [] ys k = []"

lemma erase_merge_squashed:
  "sorted_wrt (<) xs \<Longrightarrow> sorted_wrt (<) ys \<Longrightarrow> \<forall>z \<in> set xs \<union> set ys. k \<le> z \<Longrightarrow>
    erase_merge b xs ys k = foldl builder_push_index b (squashed xs ys k)"
proof (induction b xs ys k rule: erase_merge.induct)
  case (1 b x xs y ys k)
  have up: "\<forall>z \<in> set xs. x < z" "\<forall>z \<in> set ys. y < z" using "1.prems" by auto
  consider "x < y" | "x = y" | "y < x" by linarith
  then show ?case
  proof cases
    case 1
    then show ?thesis using "1.IH"(1) "1.prems" by (simp add: sz_sub_le)
  next
    case 2
    have "\<forall>z \<in> set xs \<union> set ys. k + 1 \<le> z" using up 2 "1.prems"(3) by fastforce
    then show ?thesis using "1.IH"(2) "1.prems" 2 by simp
  next
    case 3
    have "\<forall>z \<in> set (x # xs) \<union> set ys. k + 1 \<le> z" using up 3 "1.prems"(3) by fastforce
    then show ?thesis using "1.IH"(3) "1.prems" 3 by simp
  qed
next
  case (2 b xs k)
  then have "map (\<lambda>x. sz_sub x k) xs = map (\<lambda>x. x - k) xs" by (auto simp: sz_sub_le)
  then show ?case by (simp only: erase_merge.simps squashed.simps)
qed auto

lemma squashed_facts:
  "sorted_wrt (<) xs \<Longrightarrow> sorted_wrt (<) ys \<Longrightarrow> \<forall>z \<in> set xs \<union> set ys. k \<le> z \<Longrightarrow>
   set (squashed xs ys k) = (\<lambda>x. x - k - rank (set ys) x) ` (set xs - set ys) \<and>
   sorted_wrt (<) (squashed xs ys k)"
proof (induction xs ys k rule: squashed.induct)
  case (1 x xs y ys k)
  let ?Y = "set (y # ys)" and ?f = "\<lambda>k Y x. x - k - rank Y x"
  have sx: "sorted_wrt (<) xs" "\<forall>z \<in> set xs. x < z" and sy: "sorted_wrt (<) ys" "\<forall>z \<in> set ys. y < z"
    using "1.prems" by auto
  have step: "?f k ?Y z = ?f (k + 1) (set ys) z" if "y < z" for z
    using rank_Cons [OF "1.prems"(2), of z] that by simp
  consider "x < y" | "x = y" | "y < x" by linarith
  then show ?case
  proof cases
    case 1
    have "\<forall>z \<in> set xs \<union> set (y # ys). k \<le> z" using "1.prems"(3) by auto
    note IH = "1.IH"(1) [OF 1 sx(1) "1.prems"(2) this]
    have r0: "rank ?Y x = 0" by (rule rank_none) (use 1 sy in fastforce)
    have nin: "x \<notin> ?Y" using 1 sy by fastforce
    then have "set (x # xs) - ?Y = insert x (set xs - ?Y)" by auto
    then have "?f k ?Y ` (set (x # xs) - ?Y) = insert (x - k) (?f k ?Y ` (set xs - ?Y))"
      using r0 by simp
    moreover have "x - k < z" if "z \<in> set (squashed xs (y # ys) k)" for z
    proof -
      from that IH obtain w where w: "w \<in> set xs" "w \<notin> ?Y" "z = w - k - rank ?Y w" by auto
      have "x < w" using w sx(2) by simp
      have "x - rank ?Y x < w - rank ?Y w" by (rule unrank_strict [OF \<open>x < w\<close> nin])
      moreover have "k \<le> x" using "1.prems"(3) by simp
      ultimately show ?thesis using w(3) r0 by simp
    qed
    ultimately show ?thesis using 1 IH by simp
  next
    case 2
    have le: "\<forall>z \<in> set xs \<union> set ys. k + 1 \<le> z" using sx(2) sy(2) 2 "1.prems"(3) by fastforce
    have "set (x # xs) - ?Y = set xs - set ys" using 2 sx(2) by auto
    moreover have "?f k ?Y ` (set xs - set ys) = ?f (k + 1) (set ys) ` (set xs - set ys)"
      by (rule image_cong) (use sx(2) 2 step in auto)
    ultimately show ?thesis using 2 "1.IH"(2) [OF _ 2 sx(1) sy(1) le] by simp
  next
    case 3
    have le: "\<forall>z \<in> set (x # xs) \<union> set ys. k + 1 \<le> z" using sx(2) sy(2) 3 "1.prems"(3) by fastforce
    have "set (x # xs) - ?Y = set (x # xs) - set ys" using 3 sx(2) by auto
    moreover have "?f k ?Y ` (set (x # xs) - set ys) = ?f (k + 1) (set ys) ` (set (x # xs) - set ys)"
      by (rule image_cong) (use sx(2) 3 step in auto)
    ultimately show ?thesis using 3 "1.IH"(3) [OF _ _ "1.prems"(1) sy(1) le] by simp
  qed
next
  case (2 xs k)
  have "sorted_wrt (\<lambda>x y. x - k < y - k) xs"
    by (rule sorted_wrt_mono_rel [OF _ 2(1)]) (use 2(3) in auto)
  then show ?case by (simp add: sorted_wrt_map)
qed auto

lemmas squashed_correct = squashed_facts [THEN conjunct1] squashed_facts [THEN conjunct2]

lemma erase_at_set_correct:
  assumes "vec_ok m" "vec_ok p"
  shows "vec_ok (erase_at_set m p)" and "elems (erase_at_set m p) = squash (elems p) (elems m)"
proof -
  note S = sorted_as_indexes [OF assms(1)] sorted_as_indexes [OF assms(2)]
  note Q = squashed_correct [OF S, of 0] and E = erase_merge_squashed [OF S, of 0]
  have "sorted_wrt (<) (squashed (as_indexes m) (as_indexes p) 0)" using Q(2) by simp
  note B = build_correct [OF this, of m]
  show "vec_ok (erase_at_set m p)" using assms B(1) E by (simp add: erase_at_set_def)
  show "elems (erase_at_set m p) = squash (elems p) (elems m)"
    using B(2) E Q(1) by (auto simp: erase_at_set_def set_as_indexes squash_def)
qed

lemma set_len_correct: "vec_ok (set_len n)" "elems (set_len n) = {..<n}"
  by (auto simp: set_len_def push_back_def vec_ok_def chunk_ok_def elems_def sz_sub_le max_size_def)

end
