(* ===== verification/List_Edit.thy ===== *)
theory List_Edit
  imports Index_Set_Bulk
begin

section \<open>What a change set promises\<close>

text \<open>
  The specification of a change set, over plain lists: \<open>edit D I old new\<close> says that deleting
  the rows at \<open>D\<close> from \<open>old\<close> leaves what deleting the rows at \<open>I\<close> from \<open>new\<close> leaves, so that a
  client which removes the rows \<open>D\<close> and then inserts the rows \<open>I\<close> arrives at \<open>new\<close>. \<open>tracks M
  new vs\<close> says which rows of \<open>new\<close> are marked. The lemmas state how each way of changing the
  collection changes the two sets.
\<close>

definition edit :: "nat set \<Rightarrow> nat set \<Rightarrow> 'a list \<Rightarrow> 'a list \<Rightarrow> bool" where
  "edit D I old new \<longleftrightarrow> D \<subseteq> {..<length old} \<and> I \<subseteq> {..<length new} \<and> nths old (- D) = nths new (- I)"

definition insert_rows :: "nat \<Rightarrow> 'a list \<Rightarrow> 'a list \<Rightarrow> 'a list" where
  "insert_rows i xs ys = take i ys @ xs @ drop i ys"

definition drop_nth :: "nat \<Rightarrow> 'a list \<Rightarrow> 'a list" where
  "drop_nth i xs = take i xs @ drop (Suc i) xs"

subsection \<open>Rows outside a set\<close>

lemma nths_same:
  assumes "\<And>i. i < length xs \<Longrightarrow> i \<in> A \<longleftrightarrow> i \<in> B"
  shows "nths xs A = nths xs B"
proof -
  have "filter (\<lambda>p. snd p \<in> A) (zip xs [0..<length xs]) = filter (\<lambda>p. snd p \<in> B) (zip xs [0..<length xs])"
    by (rule filter_cong [OF refl]) (use assms in \<open>auto dest!: set_zip_rightD\<close>)
  then show ?thesis by (simp add: nths_def)
qed

lemma nths_none: "A \<inter> {..<length xs} = {} \<Longrightarrow> nths xs A = []"
  using nths_same [of xs A "{}"] by auto

lemma nths_split:
  assumes "j < length xs"
  shows "nths xs A = nths (take j xs) A @ (if j \<in> A then [xs ! j] else []) @
    nths (drop (Suc j) xs) {i. i + Suc j \<in> A}"
proof -
  have "nths xs A = nths (take j xs @ xs ! j # drop (Suc j) xs) A"
    by (simp only: id_take_nth_drop [OF assms, symmetric])
  then show ?thesis using assms by (simp add: nths_append nths_Cons min_def)
qed

lemma nths_two: "nths xs A = nths (take j xs) A @ nths (drop j xs) {i. i + min (length xs) j \<in> A}"
  using nths_append [of "take j xs" "drop j xs" A] by simp

lemma length_unranked: "length (nths xs (- S)) = length xs - rank S (length xs)"
proof -
  have "{i. i < length xs \<and> i \<in> - S} = {..<length xs} - S \<inter> {..<length xs}" by auto
  then show ?thesis by (simp add: length_nths rank_def card_Diff_subset)
qed

lemma length_unranked_take: "j \<le> length xs \<Longrightarrow> length (nths (take j xs) (- S)) = j - rank S j"
  using length_unranked [of "take j xs" S] by simp

lemma nth_unranked:
  assumes "j < length xs" "j \<notin> S"
  shows "nths xs (- S) ! (j - rank S j) = xs ! j" and "j - rank S j < length (nths xs (- S))"
  using assms length_unranked_take [of j xs S] by (simp_all add: nths_split [OF assms(1)] nth_append)

lemma nths_insert:
  assumes "j < length xs" "j \<notin> S"
  shows "nths xs (- insert j S) = drop_nth (j - rank S j) (nths xs (- S))"
proof -
  have 1: "nths (take j xs) (- insert j S) = nths (take j xs) (- S)" by (rule nths_same) auto
  have 2: "nths (drop (Suc j) xs) {i. i + Suc j \<in> - insert j S} = nths (drop (Suc j) xs) {i. i + Suc j \<in> - S}"
    by (rule nths_same) auto
  show ?thesis
    using assms 1 2 length_unranked_take [of j xs S]
    by (simp add: nths_split [OF assms(1)] drop_nth_def)
qed

lemma nths_insert_rows:
  assumes "i \<le> length ys"
  shows "nths (insert_rows i xs ys) (bump i (length xs) ` A) = nths ys A"
proof -
  let ?B = "bump i (length xs) ` A"
  have "nths xs {k. k + i \<in> ?B} = []" by (rule nths_none) (auto simp: bump_def split: if_splits)
  moreover have "nths (take i ys) ?B = nths (take i ys) A"
    by (rule nths_same) (force simp: bump_def split: if_splits)
  moreover have "nths (drop i ys) {k. k + (length xs + i) \<in> ?B} = nths (drop i ys) {k. k + i \<in> A}"
    by (rule nths_same) (force simp: bump_def split: if_splits)
  moreover have "nths (insert_rows i xs ys) ?B = nths (take i ys) ?B @ nths xs {k. k + i \<in> ?B} @
      nths (drop i ys) {k. k + (length xs + i) \<in> ?B}"
    using assms by (simp add: insert_rows_def nths_append min_absorb2 add.assoc)
  moreover have "nths ys A = nths (take i ys) A @ nths (drop i ys) {k. k + i \<in> A}"
    using nths_two [of ys A i] assms by (simp add: min_absorb2)
  ultimately show ?thesis by simp
qed

lemma bump_image: "bump i n ` A = {x. x < i \<and> x \<in> A} \<union> {x. i + n \<le> x \<and> x - n \<in> A}"
proof -
  have "x \<in> bump i n ` A" if "i + n \<le> x" "x - n \<in> A" for x
    using that by (intro image_eqI [of _ _ "x - n"]) (auto simp: bump_def)
  then show ?thesis by (auto simp: bump_def image_iff split: if_splits)
qed

lemma bump_Compl: "- (bump i n ` I \<union> {i..<i + n}) = bump i n ` (- I)"
  by (auto simp: bump_image)

lemma edit_insert:
  assumes "edit D I old new" "i \<le> length new" "length xs = n"
  shows "edit D (bump i n ` I \<union> {i..<i + n}) old (insert_rows i xs new)"
proof -
  have "bump i n ` I \<union> {i..<i + n} \<subseteq> {..<length (insert_rows i xs new)}"
    using assms by (auto simp: edit_def insert_rows_def bump_def)
  moreover have "nths (insert_rows i xs new) (- (bump i n ` I \<union> {i..<i + n})) = nths new (- I)"
    unfolding bump_Compl using nths_insert_rows [of i new xs "- I"] assms by simp
  ultimately show ?thesis using assms(1) by (simp add: edit_def)
qed

lemma close_image: "close i ` (A - {i}) = {x. x < i \<and> x \<in> A} \<union> {x. i \<le> x \<and> Suc x \<in> A}"
proof -
  have "x \<in> close i ` (A - {i})" if "i \<le> x" "Suc x \<in> A" for x
    using that by (intro image_eqI [of _ _ "Suc x"]) (auto simp: close_def)
  moreover have "x \<in> close i ` (A - {i})" if "x < i" "x \<in> A" for x
    using that by (intro image_eqI [of _ _ x]) (auto simp: close_def)
  ultimately show ?thesis by (auto simp: close_def split: if_splits)
qed

lemma nths_drop_nth:
  assumes "i < length ys"
  shows "nths (drop_nth i ys) (close i ` (A - {i})) = nths ys (A - {i})"
proof -
  let ?B = "close i ` (A - {i})"
  have 1: "nths (take i ys) ?B = nths (take i ys) (A - {i})" by (rule nths_same) (auto simp: close_image)
  have 2: "nths (drop (Suc i) ys) {k. k + i \<in> ?B} = nths (drop (Suc i) ys) {k. k + Suc i \<in> A - {i}}"
    by (rule nths_same) (auto simp: close_image)
  show ?thesis
    using assms 1 2 nths_split [of i ys "A - {i}"] by (simp add: drop_nth_def nths_append min_def)
qed

lemma close_Compl: "- (close i ` (I - {i})) = close i ` (- I - {i})"
  unfolding close_image by auto

lemma nths_dropped:
  assumes "i < length ys"
  shows "nths (drop_nth i ys) (- (close i ` (I - {i}))) =
    (if i \<in> I then nths ys (- I) else drop_nth (i - rank I i) (nths ys (- I)))"
proof -
  have "- I - {i} = - insert i I" by auto
  then have "nths (drop_nth i ys) (- (close i ` (I - {i}))) = nths ys (- insert i I)"
    unfolding close_Compl using nths_drop_nth [OF assms, of "- I"] by simp
  then show ?thesis using assms by (auto simp: nths_insert insert_absorb)
qed

lemma close_bound: "I \<subseteq> {..<n} \<Longrightarrow> close i ` (I - {i}) \<subseteq> {..<n - 1}" if "i < n"
  using that by (auto simp: close_def)

lemma edit_erase:
  assumes "edit D I old new" "i < length new"
  shows "i \<in> I \<Longrightarrow> edit D (close i ` (I - {i})) old (drop_nth i new)"
    and "i \<notin> I \<Longrightarrow> j \<notin> D \<Longrightarrow> j - rank D j = i - rank I i \<Longrightarrow>
      edit (insert j D) (close i ` (I - {i})) old (drop_nth i new)"
proof -
  have b: "close i ` (I - {i}) \<subseteq> {..<length (drop_nth i new)}"
    using close_bound [OF assms(2), of I] assms by (simp add: edit_def drop_nth_def min_def)
  show "edit D (close i ` (I - {i})) old (drop_nth i new)" if "i \<in> I"
    using b that assms by (simp add: edit_def nths_dropped)
  assume i: "i \<notin> I" and j: "j \<notin> D" "j - rank D j = i - rank I i"
  have eq: "nths old (- D) = nths new (- I)" and D: "D \<subseteq> {..<length old}"
    using assms(1) by (simp_all add: edit_def)
  have jl: "j < length old"
  proof (rule ccontr)
    assume "\<not> j < length old"
    then have "rank D (length old) = rank D j" using D by (subst (1 2) rank_above) (auto simp: subset_iff)
    then have "length (nths old (- D)) \<le> j - rank D j"
      using \<open>\<not> j < length old\<close> by (simp add: length_unranked)
    then show False using nth_unranked(2) [OF assms(2) i] eq j(2) by simp
  qed
  then show "edit (insert j D) (close i ` (I - {i})) old (drop_nth i new)"
    using b i j D eq nths_dropped [OF assms(2), of I] nths_insert [OF jl j(1)] by (simp add: edit_def)
qed

text \<open>The rows that correspond to each other under an edit.\<close>

lemma edit_row:
  assumes "edit D I old new" "i < length new" "i \<notin> I" "j \<notin> D" "j - rank D j = i - rank I i"
  shows "j < length old" and "old ! j = new ! i"
proof -
  have "edit (insert j D) (close i ` (I - {i})) old (drop_nth i new)"
    by (rule edit_erase(2) [OF assms])
  then show jl: "j < length old" by (simp add: edit_def)
  show "old ! j = new ! i"
    using nth_unranked(1) [OF jl assms(4)] nth_unranked(1) [OF assms(2,3)] assms by (simp add: edit_def)
qed

lemma edit_length: "edit D I old new \<Longrightarrow> length old - card D = length new - card I"
  using length_unranked [of old D] length_unranked [of new I]
  by (simp add: edit_def rank_above)

lemma edit_cards: "edit D I old new \<Longrightarrow> card D \<le> length old \<and> card I \<le> length new"
  using card_mono [of "{..<length old}" D] card_mono [of "{..<length new}" I] by (simp add: edit_def)

lemma edit_refl [simp]: "edit {} {} xs xs"
  by (simp add: edit_def)

end
