(* ===== verification/Row_Sets.thy ===== *)
theory Row_Sets
  imports List_Edit
begin

section \<open>The interface of the index sets\<close>

text \<open>
  What the change builder and the notifiers rely on when they use an index set: the operations
  they call and the law of each over the set of rows it stands for. The lemmas of the locale
  are proved from those laws alone; the interpretation at the end discharges the laws for the
  operations of \<open>IndexSet\<close>. \<open>change_sets\<close> extends the interface with the operations that
  renumber one set by another.
\<close>

locale row_sets =
  fixes ok :: "'s \<Rightarrow> bool" and members :: "'s \<Rightarrow> nat set"
    and contains :: "'s \<Rightarrow> nat \<Rightarrow> bool" and add :: "'s \<Rightarrow> nat \<Rightarrow> 's"
    and take_out :: "'s \<Rightarrow> nat \<Rightarrow> nat \<Rightarrow> 's"
    and put_in :: "'s \<Rightarrow> nat \<Rightarrow> nat \<Rightarrow> 's" and make_room :: "'s \<Rightarrow> nat \<Rightarrow> nat \<Rightarrow> 's"
    and erase :: "'s \<Rightarrow> nat \<Rightarrow> 's" and erase_unshift :: "'s \<Rightarrow> nat \<Rightarrow> 's \<times> nat"
    and shift :: "'s \<Rightarrow> nat \<Rightarrow> nat" and unshift :: "'s \<Rightarrow> nat \<Rightarrow> nat"
    and add_shift :: "'s \<Rightarrow> nat \<Rightarrow> 's \<times> nat"
  assumes finite_members: "ok s \<Longrightarrow> finite (members s)"
    and contains: "ok s \<Longrightarrow> contains s i \<longleftrightarrow> i \<in> members s"
    and add: "ok s \<Longrightarrow> ok (add s i) \<and> members (add s i) = insert i (members s)"
    and take_out: "ok s \<Longrightarrow> 0 < n \<Longrightarrow> ok (take_out s i n) \<and> members (take_out s i n) = members s - {i..<i + n}"
    and put_in: "ok s \<Longrightarrow> 0 < n \<Longrightarrow> ok (put_in s i n) \<and>
          members (put_in s i n) = bump i n ` members s \<union> {i..<i + n}"
    and make_room: "ok s \<Longrightarrow> 0 < n \<Longrightarrow> ok (make_room s i n) \<and> members (make_room s i n) = bump i n ` members s"
    and erase: "ok s \<Longrightarrow> ok (erase s i) \<and> members (erase s i) = close i ` (members s - {i})"
    and erase_unshift: "ok s \<Longrightarrow> ok (fst (erase_unshift s i)) \<and>
          members (fst (erase_unshift s i)) = close i ` (members s - {i}) \<and>
          snd (erase_unshift s i) = (if i \<in> members s then npos else i - rank (members s) i)"
    and shift: "ok s \<Longrightarrow> shift s i \<notin> members s \<and> shift s i - rank (members s) (shift s i) = i"
    and unshift: "ok s \<Longrightarrow> unshift s i = i - rank (members s) i"
    and add_shift: "ok s \<Longrightarrow> ok (fst (add_shift s i)) \<and>
          members (fst (add_shift s i)) = insert (snd (add_shift s i)) (members s) \<and>
          snd (add_shift s i) \<notin> members s \<and>
          snd (add_shift s i) - rank (members s) (snd (add_shift s i)) = i"
begin

lemma unshift_shift: "ok s \<Longrightarrow> unshift s (shift s i) = i"
  by (simp add: unshift shift)

lemma shift_unshift: "ok s \<Longrightarrow> i \<notin> members s \<Longrightarrow> shift s (unshift s i) = i"
  using shift [of s "unshift s i"] unshift [of s i] by (metis unrank_inj)

lemma shift_strict: "ok s \<Longrightarrow> i < j \<Longrightarrow> shift s i < shift s j"
proof (rule ccontr)
  assume "ok s" "i < j" "\<not> shift s i < shift s j"
  then show False
    using shift [of s i] shift [of s j] unrank_mono [of "shift s j" "shift s i" "members s"] by simp
qed

lemma add_shift_shift: "ok s \<Longrightarrow> snd (add_shift s i) = shift s i"
  using add_shift [of s i] shift [of s i] by (metis unrank_inj)

lemma erase_put_in: "ok s \<Longrightarrow> members (erase (put_in s i 1) i) = members s"
proof -
  assume s: "ok s"
  then have p: "ok (put_in s i 1)" "members (put_in s i 1) = bump i 1 ` members s \<union> {i}"
    using put_in [OF s, of 1 i] by auto
  have "close i ` (bump i 1 ` members s \<union> {i} - {i}) = members s"
    unfolding close_image bump_image by auto
  then show ?thesis using erase [OF p(1), of i] p(2) by simp
qed

text \<open>The two ways in which a row disappears keep the change set an edit.\<close>

lemma insert_keeps:
  assumes "ok ins" "edit D (members ins) old new" "i \<le> length new" "xs \<noteq> []"
  shows "ok (put_in ins i (length xs)) \<and> edit D (members (put_in ins i (length xs))) old (insert_rows i xs new)"
  using put_in [OF assms(1), of "length xs" i] edit_insert [OF assms(2,3) refl] assms(4) by auto

lemma erase_keeps:
  assumes "ok del" "ok ins" "edit (members del) (members ins) old new" "i < length new" "length new \<le> npos"
    "erase_unshift ins i = (ins', u)" "del' = (if u \<noteq> npos then fst (add_shift del u) else del)"
  shows "ok del' \<and> ok ins' \<and> edit (members del') (members ins') old (drop_nth i new)"
proof (cases "i \<in> members ins")
  case True
  then have "u = npos" "members ins' = close i ` (members ins - {i})" "ok ins'"
    using erase_unshift [OF assms(2), of i] assms(6) by auto
  then show ?thesis using edit_erase(1) [OF assms(3,4) True] assms(1,7) by simp
next
  case False
  then have u: "u = i - rank (members ins) i" "members ins' = close i ` (members ins - {i})" "ok ins'"
    using erase_unshift [OF assms(2), of i] assms(6) by auto
  then have "u \<noteq> npos" using assms(4,5) by simp
  then show ?thesis
    using edit_erase(2) [OF assms(3,4) False] add_shift [OF assms(1), of u] u assms(7) by simp
qed

text \<open>Where a row that was not deleted has gone to.\<close>

lemma follow_kept:
  assumes "ok del" "ok ins" "edit (members del) (members ins) old new" "i < length old" "i \<notin> members del"
  shows "shift ins (unshift del i) < length new \<and> new ! shift ins (unshift del i) = old ! i"
proof -
  have e: "edit (members ins) (members del) new old" using assms(3) by (simp add: edit_def)
  have s: "shift ins (unshift del i) \<notin> members ins"
    "shift ins (unshift del i) - rank (members ins) (shift ins (unshift del i)) = i - rank (members del) i"
    using shift [OF assms(2)] unshift [OF assms(1)] by simp_all
  show ?thesis using edit_row [OF e assms(4,5) s] by simp
qed

text \<open>A row that is marked stays marked while other rows come and go.\<close>

lemma make_room_marks:
  "ok s \<Longrightarrow> i \<le> length new \<Longrightarrow> xs \<noteq> [] \<Longrightarrow>
    nths (insert_rows i xs new) (members (make_room s i (length xs))) = nths new (members s)"
  using make_room [of s "length xs" i] nths_insert_rows [of i new xs "members s"] by simp

lemma erase_marks:
  "ok s \<Longrightarrow> i < length new \<Longrightarrow> nths (drop_nth i new) (members (erase s i)) = nths new (members s - {i})"
  using erase [of s i] nths_drop_nth [of i new "members s"] by simp

end

locale change_sets = row_sets +
  fixes put_all :: "'a \<Rightarrow> 'a \<Rightarrow> 'a" and room_for_all :: "'a \<Rightarrow> 'a \<Rightarrow> 'a"
    and erase_all :: "'a \<Rightarrow> 'a \<Rightarrow> 'a" and remove_all :: "'a \<Rightarrow> 'a \<Rightarrow> 'a" and union :: "'a \<Rightarrow> 'a \<Rightarrow> 'a"
  assumes put_all: "ok s \<Longrightarrow> ok p \<Longrightarrow> ok (put_all s p) \<and> members (put_all s p) = members p \<union> spread (members p) (members s)"
    and room_for_all: "ok s \<Longrightarrow> ok p \<Longrightarrow> ok (room_for_all s p) \<and> members (room_for_all s p) = spread (members p) (members s)"
    and erase_all: "ok s \<Longrightarrow> ok p \<Longrightarrow> ok (erase_all s p) \<and> members (erase_all s p) = squash (members p) (members s)"
    and remove_all: "ok s \<Longrightarrow> ok p \<Longrightarrow> ok (remove_all s p) \<and> members (remove_all s p) = members s - members p"
    and union: "ok s \<Longrightarrow> ok p \<Longrightarrow> ok (union s p) \<and> members (union s p) = members s \<union> members p"
begin

lemma erase_all_put_all: "ok s \<Longrightarrow> ok p \<Longrightarrow> members (erase_all (put_all s p) p) = members s"
proof -
  assume s: "ok s" and p: "ok p"
  note q = put_all [OF s p]
  have "squash (members p) (members p \<union> spread (members p) (members s)) = members s"
  proof (intro set_eqI iffI)
    fix x assume "x \<in> members s"
    then have "shift p x \<in> members p \<union> spread (members p) (members s) - members p"
      using shift [OF p, of x] by (simp add: spread_def)
    moreover have "x = shift p x - rank (members p) (shift p x)" using shift [OF p, of x] by simp
    ultimately show "x \<in> squash (members p) (members p \<union> spread (members p) (members s))"
      unfolding squash_def by (rule rev_image_eqI)
  qed (auto simp: squash_def spread_def)
  then show ?thesis using erase_all [of "put_all s p" p] q p by simp
qed

end

subsection \<open>The index sets of the program\<close>

lemma finite_elems: "finite (elems m)"
  by (simp add: elems_def)

interpretation iset: row_sets vec_ok elems iset_contains iset_add iset_remove insert_at
  shift_for_insert_at erase_at erase_or_unshift iset_shift iset_unshift add_shifted
proof (unfold_locales, goal_cases)
  case (1 s) show ?case by (rule finite_elems)
next
  case (2 s i) then show ?case by (rule contains_correct)
next
  case (3 s i) then show ?case using add_correct by blast
next
  case (4 s n i) then show ?case using remove_correct by blast
next
  case (5 s n i) then show ?case using insert_at_correct by blast
next
  case (6 s n i) then show ?case using shift_for_insert_at_correct by blast
next
  case (7 s i) then show ?case by (rule erase_at_correct)
next
  case (8 s i) then show ?case by (simp add: erase_or_unshift_correct)
next
  case (9 s i) then show ?case by (simp add: shift_correct)
next
  case (10 s i) then show ?case by (rule unshift_correct)
next
  case (11 s i) then show ?case by (simp add: add_shifted_correct)
qed

interpretation isets: change_sets vec_ok elems iset_contains iset_add iset_remove insert_at
  shift_for_insert_at erase_at erase_or_unshift iset_shift iset_unshift add_shifted
  insert_at_set shift_for_insert_at_set erase_at_set iset_remove_set iset_add_set
proof (unfold_locales, goal_cases)
  case (1 s p) then show ?case by (simp add: insert_at_set_correct)
next
  case (2 s p) then show ?case by (simp add: shift_for_insert_at_set_correct)
next
  case (3 s p) then show ?case by (simp add: erase_at_set_correct)
next
  case (4 s p) then show ?case using remove_set_correct by blast
next
  case (5 s p) then show ?case using add_set_correct by blast
qed

end
