(* ===== verification/Index_Set_Props.thy ===== *)
theory Index_Set_Props
  imports Row_Sets
begin

section \<open>The properties of the index sets\<close>

text \<open>
  What the rest of the program relies on when it uses an \<open>IndexSet\<close>, stated over the
  operations of the code. \<open>vec_ok\<close> is the representation invariant of the chunked vector and
  \<open>elems\<close> the set of rows it stands for.
\<close>

definition sample_set :: chunks where
  "sample_set = [\<lparr>cdata = [(0, 2), (5, 6)], cbegin = 0, cend = 6, ccount = 3\<rparr>]"

lemma sample_set_ok: "vec_ok sample_set"
  by (simp add: sample_set_def vec_ok_def chunk_ok_def max_size_def)

lemma sample_set_elems: "elems sample_set = {0, 1, 5}"
  by (auto simp: sample_set_def elems_def)

text \<open>C6: every operation of \<open>IndexSet\<close> but \<open>add_shifted_by\<close> keeps the representation invariant of the
  chunked vector, and a vector that satisfies it passes the checks of \<open>verify()\<close>. \<open>add_shifted_by\<close>
  builds its result with \<open>ChunkedRangeVectorBuilder\<close>, which stores a wrong \<open>count\<close> for a range of
  several rows that opens a chunk.\<close>

theorem index_set_invariant:
  assumes "vec_ok m" "vec_ok p" "0 < n"
  shows "verify m \<and>
    vec_ok (iset_add m i) \<and>
    vec_ok (iset_add_set m p) \<and>
    vec_ok (iset_remove m i n) \<and>
    vec_ok (iset_remove_set m p) \<and>
    vec_ok (insert_at m i n) \<and>
    vec_ok (insert_at_set m p) \<and>
    vec_ok (shift_for_insert_at m i n) \<and>
    vec_ok (shift_for_insert_at_set m p) \<and>
    vec_ok (erase_at m i) \<and>
    vec_ok (erase_at_set m p) \<and>
    vec_ok (fst (erase_or_unshift m i)) \<and>
    vec_ok (fst (add_shifted m i)) \<and>
    vec_ok (set_len i)"
  by (simp_all add: assms vec_ok_verify add_correct add_set_correct remove_correct remove_set_correct insert_at_correct
    insert_at_set_correct shift_for_insert_at_correct shift_for_insert_at_set_correct erase_at_correct
    erase_at_set_correct erase_or_unshift_correct add_shifted_correct set_len_correct)

theorem index_set_invariant_witness: "verify sample_set \<and> vec_ok (insert_at sample_set 1 2)"
  using index_set_invariant [OF sample_set_ok sample_set_ok, of 2 1] by simp

text \<open>C4: the functional behaviour of the operations at one position: adding and removing rows,
  making room for new rows with and without adding them, erasing a row and closing the gap.\<close>

theorem index_set_single:
  assumes "vec_ok m" "0 < n"
  shows "(iset_contains m i \<longleftrightarrow> i \<in> elems m) \<and>
    elems (iset_add m i) = insert i (elems m) \<and>
    elems (iset_remove m i n) = elems m - {i..<i + n} \<and>
    elems (insert_at m i n) = {x. x < i \<and> x \<in> elems m} \<union> {x. i + n \<le> x \<and> x - n \<in> elems m} \<union> {i..<i + n} \<and>
    elems (shift_for_insert_at m i n) = {x. x < i \<and> x \<in> elems m} \<union> {x. i + n \<le> x \<and> x - n \<in> elems m} \<and>
    elems (erase_at m i) = {x. x < i \<and> x \<in> elems m} \<union> {x. i \<le> x \<and> Suc x \<in> elems m}"
  by (intro conjI) (simp_all only: assms contains_correct add_correct remove_correct insert_at_correct
      shift_for_insert_at_correct erase_at_correct bump_image close_image)

theorem index_set_single_witness:
  "elems (iset_remove sample_set 1 4) = {0, 5} \<and> iset_contains sample_set 5"
  using index_set_single [OF sample_set_ok, of 4 5] index_set_single [OF sample_set_ok, of 4 1]
  by (simp add: sample_set_elems insert_Diff_if)

text \<open>C5: the operations that take a whole set: union and difference, and the two renumberings
  by another set, in which a row \<open>x\<close> outside the set \<open>P\<close> has the number \<open>x - rank P x\<close> once the
  rows of \<open>P\<close> are gone.\<close>

theorem index_set_bulk:
  assumes "vec_ok m" "vec_ok p"
  shows "elems (iset_add_set m p) = elems m \<union> elems p \<and>
    elems (iset_remove_set m p) = elems m - elems p \<and>
    elems (insert_at_set m p) = elems p \<union> {j. j \<notin> elems p \<and> j - rank (elems p) j \<in> elems m} \<and>
    elems (shift_for_insert_at_set m p) = {j. j \<notin> elems p \<and> j - rank (elems p) j \<in> elems m} \<and>
    elems (erase_at_set m p) = (\<lambda>x. x - rank (elems p) x) ` (elems m - elems p)"
  by (intro conjI) (simp_all only: assms add_set_correct remove_set_correct insert_at_set_correct
      shift_for_insert_at_set_correct erase_at_set_correct spread_def squash_def)

theorem index_set_bulk_witness: "elems (iset_remove_set sample_set (set_len 1)) = {1, 5}"
  using index_set_bulk [OF sample_set_ok set_len_correct(1), of 1]
  by (simp add: sample_set_elems set_len_correct insert_Diff_if)

text \<open>C7: \<open>shift\<close> and \<open>unshift\<close> are inverse to each other on the rows outside the set, \<open>shift\<close>
  is strictly increasing, and \<open>add_shifted\<close> and \<open>erase_or_unshift\<close> agree with them.\<close>

theorem shift_unshift_inverse:
  assumes "vec_ok m"
  shows "iset_unshift m (iset_shift m i) = i \<and>
    (j \<notin> elems m \<longrightarrow> iset_shift m (iset_unshift m j) = j) \<and>
    (i < k \<longrightarrow> iset_shift m i < iset_shift m k) \<and>
    iset_shift m i \<notin> elems m \<and>
    snd (add_shifted m i) = iset_shift m i \<and> elems (fst (add_shifted m i)) = insert (iset_shift m i) (elems m) \<and>
    snd (erase_or_unshift m j) = (if j \<in> elems m then npos else iset_unshift m j)"
proof (intro conjI)
  show "iset_unshift m (iset_shift m i) = i" by (rule iset.unshift_shift [OF assms])
  show "j \<notin> elems m \<longrightarrow> iset_shift m (iset_unshift m j) = j" using iset.shift_unshift [OF assms] by blast
  show "i < k \<longrightarrow> iset_shift m i < iset_shift m k" using iset.shift_strict [OF assms] by blast
  show "iset_shift m i \<notin> elems m" using iset.shift [OF assms, of i] by simp
  show "snd (add_shifted m i) = iset_shift m i" "elems (fst (add_shifted m i)) = insert (iset_shift m i) (elems m)"
    using iset.add_shift [OF assms, of i] iset.add_shift_shift [OF assms, of i] by simp_all
  show "snd (erase_or_unshift m j) = (if j \<in> elems m then npos else iset_unshift m j)"
    using iset.erase_unshift [OF assms, of j] iset.unshift [OF assms, of j] by simp
qed

theorem shift_unshift_inverse_witness:
  "iset_shift sample_set (iset_unshift sample_set 7) = 7 \<and> iset_shift sample_set 1 < iset_shift sample_set 3"
  using shift_unshift_inverse [OF sample_set_ok, of 1 7 3]
  by (simp add: sample_set_elems)

text \<open>erasing what was just inserted gives the old set back, for one row and for a whole set
  of rows.\<close>

theorem insert_erase_roundtrip:
  assumes "vec_ok m" "vec_ok p"
  shows "elems (erase_at (insert_at m i 1) i) = elems m \<and>
    elems (erase_at_set (insert_at_set m p) p) = elems m"
  using iset.erase_put_in [OF assms(1)] isets.erase_all_put_all [OF assms] by blast

theorem insert_erase_roundtrip_witness: "elems (erase_at (insert_at sample_set 1 1) 1) = {0, 1, 5}"
  using insert_erase_roundtrip [OF sample_set_ok sample_set_ok, of 1] by (simp add: sample_set_elems)

text \<open>\<open>count(0, e)\<close>, the form in which the change builder and \<open>unshift\<close> use \<open>count\<close>, is the
  number of members before \<open>e\<close>.\<close>

theorem count_from_start:
  assumes "vec_ok m"
  shows "iset_count m 0 e = card (elems m \<inter> {..<e}) \<and>
    iset_unshift m e + iset_count m 0 e = e"
  using count_from_zero [OF assms, of e] unshift_correct [OF assms, of e] rank_le [of "elems m" e]
  by (simp_all add: rank_def)

theorem count_from_start_witness: "iset_count sample_set 0 3 = card ({0, 1, 5} \<inter> {..<(3::nat)})"
  using count_from_start [OF sample_set_ok, of 3] by (simp add: sample_set_elems)

text \<open>\<open>count\<close> with a start index above zero is wrong on some well formed sets: when the range
  starts inside one chunk and ends inside the first range of the next chunk, the rows in that
  last range are not counted.\<close>

theorem count_misses_rows:
  "vec_ok [\<lparr>cdata = [(0, 2)], cbegin = 0, cend = 2, ccount = 2\<rparr>, \<lparr>cdata = [(4, 8)], cbegin = 4, cend = 8, ccount = 4\<rparr>] \<and>
    elems [\<lparr>cdata = [(0, 2)], cbegin = 0, cend = 2, ccount = 2\<rparr>, \<lparr>cdata = [(4, 8)], cbegin = 4, cend = 8, ccount = 4\<rparr>]
     \<inter> {1..<6} = {1, 4, 5} \<and>
    iset_count [\<lparr>cdata = [(0, 2)], cbegin = 0, cend = 2, ccount = 2\<rparr>, \<lparr>cdata = [(4, 8)], cbegin = 4, cend = 8, ccount = 4\<rparr>]
     1 6 = 1"
  by (auto simp: vec_ok_def chunk_ok_def max_size_def elems_def iset_count_def find_index_def find_from_def
      begin_it_def end_it_def at_def find_if_def it_next_def next_chunk_def count_rest_of_chunk.simps
      not_end_def sz_sub_def)

end
