(* ===== verification/Change_Builder.thy ===== *)
theory Change_Builder
  imports Index_Set "HOL-Library.AList" "HOL-Library.Product_Lexorder"
begin

section \<open>The collection change builder: the operations\<close>

text \<open>
  \<open>CollectionChangeSet\<close> (collection\_notifications.hpp) and \<open>CollectionChangeBuilder\<close>
  (impl/collection\_change\_builder.hpp, .cpp). The builder accumulates what happened to a
  collection since a client last looked at it; every method is one definition on the record of
  its fields. The unordered map from new to old row numbers is an association list with
  distinct keys, whose order stands for the iteration order of the container. The
  \<open>REALM_ASSERT\<close>s are compiled out in the shipped configuration and are not control flow.
\<close>

record move_rec =
  mv_from :: nat
  mv_to :: nat

record change_set =
  deletions :: chunks
  insertions :: chunks
  modifications :: chunks
  modifications_new :: chunks
  moves :: "move_rec list"
  columns :: "chunks list"

record change_builder = change_set +
  move_mapping :: "(nat \<times> nat) list"
  track_columns :: bool

definition change_set_empty :: "'a change_set_scheme \<Rightarrow> bool" where
  "change_set_empty c \<longleftrightarrow> deletions c = [] \<and> insertions c = [] \<and> modifications c = [] \<and>
     modifications_new c = [] \<and> moves c = []"

definition new_builder :: "chunks \<Rightarrow> chunks \<Rightarrow> chunks \<Rightarrow> move_rec list \<Rightarrow> change_builder" where
  "new_builder del ins mods ms =
     \<lparr>deletions = foldl (\<lambda>d m. iset_add d (mv_from m)) del ms,
      insertions = foldl (\<lambda>i m. iset_add i (mv_to m)) ins ms,
      modifications = mods, modifications_new = [], moves = ms, columns = [],
      move_mapping = [], track_columns = True\<rparr>"

definition empty_builder :: change_builder where
  "empty_builder = new_builder [] [] [] []"

definition for_each_col :: "(chunks \<Rightarrow> chunks) \<Rightarrow> change_builder \<Rightarrow> change_builder" where
  "for_each_col f c =
     (let c = c\<lparr>modifications := f (modifications c)\<rparr> in
      if track_columns c then c\<lparr>columns := map f (columns c)\<rparr> else c)"

definition resize :: "nat \<Rightarrow> 'a \<Rightarrow> 'a list \<Rightarrow> 'a list" where
  "resize n d xs = take n xs @ replicate (n - length xs) d"

subsection \<open>Recording single operations\<close>

definition modify :: "change_builder \<Rightarrow> nat \<Rightarrow> nat \<Rightarrow> change_builder" where
  "modify c ndx col =
     (let c = c\<lparr>modifications := iset_add (modifications c) ndx\<rparr> in
      if \<not> track_columns c \<or> col = npos then c
      else
        (let cols = (if col \<ge> length (columns c) then resize (col + 1) [] (columns c) else columns c)
         in c\<lparr>columns := cols[col := iset_add (cols ! col) ndx]\<rparr>))"

definition shift_mapping :: "(nat \<times> nat) list \<Rightarrow> nat \<Rightarrow> nat \<Rightarrow> (nat \<times> nat) list" where
  "shift_mapping mm index count =
     filter (\<lambda>p. \<not> fst p \<ge> index) mm @
     map (\<lambda>p. (fst p + count, snd p)) (filter (\<lambda>p. fst p \<ge> index) mm)"

definition insert_rows_at :: "change_builder \<Rightarrow> nat \<Rightarrow> nat \<Rightarrow> bool \<Rightarrow> change_builder" where
  "insert_rows_at c index count track_moves =
     (let c = for_each_col (\<lambda>col. shift_for_insert_at col index count) c in
      if \<not> track_moves then c
      else
        (let c = c\<lparr>insertions := insert_at (insertions c) index count,
                  moves := map (\<lambda>m. if mv_to m \<ge> index then m\<lparr>mv_to := mv_to m + count\<rparr> else m)
                             (moves c)\<rparr>
         in if move_mapping c = [] then c
            else c\<lparr>move_mapping := shift_mapping (move_mapping c) index count\<rparr>))"

fun erase_moves :: "nat \<Rightarrow> move_rec list \<Rightarrow> move_rec list" where
  "erase_moves index [] = []"
| "erase_moves index (m # ms) =
     (if mv_to m = index then erase_moves index ms
      else if mv_to m > index then m\<lparr>mv_to := mv_to m - 1\<rparr> # erase_moves index ms
      else m # erase_moves index ms)"

definition erase_row :: "change_builder \<Rightarrow> nat \<Rightarrow> change_builder" where
  "erase_row c index =
     (let c = for_each_col (\<lambda>col. erase_at col index) c;
          (ins, unshifted) = erase_or_unshift (insertions c) index;
          c = c\<lparr>insertions := ins\<rparr>;
          c = (if unshifted \<noteq> npos then c\<lparr>deletions := fst (add_shifted (deletions c) unshifted)\<rparr>
               else c)
      in c\<lparr>moves := erase_moves index (moves c)\<rparr>)"

definition clear_rows :: "change_builder \<Rightarrow> nat \<Rightarrow> change_builder" where
  "clear_rows c old_size =
     (let old_size =
        (if old_size \<noteq> npos then
           foldl (\<lambda>s r. sz_sub s (sz_sub (snd r) (fst r)))
             (foldl (\<lambda>s r. s + sz_sub (snd r) (fst r)) old_size (flat (deletions c)))
             (flat (insertions c))
         else old_size)
      in c\<lparr>modifications := [], insertions := [], moves := [], move_mapping := [], columns := [],
           deletions := set_len old_size\<rparr>)"

definition move_col :: "nat \<Rightarrow> nat \<Rightarrow> chunks \<Rightarrow> chunks" where
  "move_col src dst col =
     (let modified = iset_contains col src; col = erase_at col src
      in if modified then insert_at col dst 1 else shift_for_insert_at col dst 1)"

fun move_moves :: "nat \<Rightarrow> nat \<Rightarrow> move_rec list \<Rightarrow> chunks \<Rightarrow> bool \<Rightarrow> move_rec list \<times> chunks \<times> bool" where
  "move_moves src dst [] ins updated = ([], ins, updated)"
| "move_moves src dst (m # ms) ins updated =
     (if mv_to m \<noteq> src then
        (let m = (if mv_to m \<ge> dst \<and> mv_to m < src then m\<lparr>mv_to := mv_to m + 1\<rparr>
                  else if mv_to m \<le> dst \<and> mv_to m > src then m\<lparr>mv_to := mv_to m - 1\<rparr>
                  else m);
             (ms, ins, updated) = move_moves src dst ms ins updated
         in (m # ms, ins, updated))
      else
        (let (ms, ins, updated) = move_moves src dst ms (insert_at (erase_at ins src) dst 1) True
         in (m\<lparr>mv_to := dst\<rparr> # ms, ins, updated)))"

definition move_row :: "change_builder \<Rightarrow> nat \<Rightarrow> nat \<Rightarrow> change_builder" where
  "move_row c src dst =
     (let (ms, ins, updated_existing_move) = move_moves src dst (moves c) (insertions c) False;
          c = c\<lparr>moves := ms, insertions := ins\<rparr>;
          c = (if \<not> updated_existing_move then
                 (let (ins, shifted_from) = erase_or_unshift (insertions c) src;
                      c = c\<lparr>insertions := insert_at ins dst 1\<rparr>
                  in if shifted_from \<noteq> npos then
                       (let (del, shifted_from) = add_shifted (deletions c) shifted_from
                        in c\<lparr>deletions := del,
                             moves := moves c @ [\<lparr>mv_from = shifted_from, mv_to = dst\<rparr>]\<rparr>)
                     else c)
               else c)
      in for_each_col (move_col src dst) c)"

subsection \<open>Row semantics: moves over the last row, swaps\<close>

definition last_end :: "chunks \<Rightarrow> nat" where
  "last_end m = snd (at m (it_prev m (end_it m)))"

definition move_over_col :: "nat \<Rightarrow> nat \<Rightarrow> chunks \<Rightarrow> chunks" where
  "move_over_col row_ndx last_row col =
     (if iset_contains col last_row then iset_add (iset_remove col last_row 1) row_ndx
      else iset_remove col row_ndx 1)"

definition move_over :: "change_builder \<Rightarrow> nat \<Rightarrow> nat \<Rightarrow> bool \<Rightarrow> change_builder" where
  "move_over c row_ndx last_row track_moves =
     (if row_ndx = last_row then
        (let c = (if track_moves then
                    (let (ins, shifted_from) = erase_or_unshift (insertions c) row_ndx;
                         c = c\<lparr>insertions := ins\<rparr>;
                         c = (if shifted_from \<noteq> npos
                              then c\<lparr>deletions := fst (add_shifted (deletions c) shifted_from)\<rparr> else c)
                     in c\<lparr>move_mapping := AList.delete row_ndx (move_mapping c)\<rparr>)
                  else c)
         in for_each_col (\<lambda>col. iset_remove col row_ndx 1) c)
      else
        (let c = for_each_col (move_over_col row_ndx last_row) c in
         if \<not> track_moves then c
         else
           (let row_is_insertion = iset_contains (insertions c) row_ndx;
                last_is_insertion = (insertions c \<noteq> [] \<and> last_end (insertions c) = last_row + 1);
                found = (if last_is_insertion then map_of (move_mapping c) last_row else None);
                last_was_already_moved = (found \<noteq> None);
                c = (case found of
                       Some old \<Rightarrow> c\<lparr>move_mapping :=
                         AList.delete last_row (AList.update row_ndx old (move_mapping c))\<rparr>
                     | None \<Rightarrow> c);
                c = (if row_is_insertion \<and> \<not> last_was_already_moved
                     then c\<lparr>move_mapping := AList.delete row_ndx (move_mapping c)\<rparr> else c);
                c = (if last_is_insertion then c\<lparr>insertions := iset_remove (insertions c) last_row 1\<rparr>
                     else if \<not> last_was_already_moved then
                       (let (del, shifted) = add_shifted (deletions c) (iset_unshift (insertions c) last_row)
                        in c\<lparr>deletions := del,
                             move_mapping := AList.update row_ndx shifted (move_mapping c)\<rparr>)
                     else c)
            in if \<not> row_is_insertion then
                 c\<lparr>deletions := fst (add_shifted (deletions c) (iset_unshift (insertions c) row_ndx)),
                   insertions := iset_add (insertions c) row_ndx\<rparr>
               else c)))"

definition swap_col :: "nat \<Rightarrow> nat \<Rightarrow> chunks \<Rightarrow> chunks" where
  "swap_col ndx_1 ndx_2 col =
     (let row_1_modified = iset_contains col ndx_1; row_2_modified = iset_contains col ndx_2 in
      if row_1_modified \<noteq> row_2_modified then
        (if row_1_modified then iset_add (iset_remove col ndx_1 1) ndx_2
         else iset_add (iset_remove col ndx_2 1) ndx_1)
      else col)"

text \<open>Marks the row at \<open>src\<close> as moved to \<open>dst\<close>, unless it is a new insertion.\<close>

definition add_swap_move :: "nat \<Rightarrow> nat \<Rightarrow> change_builder \<Rightarrow> change_builder" where
  "add_swap_move src dst c =
     (if \<not> iset_contains (insertions c) src then
        (let (del, old) = add_shifted (deletions c) (iset_unshift (insertions c) src)
         in c\<lparr>deletions := del, move_mapping := AList.update dst old (move_mapping c),
              insertions := iset_add (insertions c) src\<rparr>)
      else c)"

definition update_move :: "nat \<Rightarrow> nat \<Rightarrow> nat \<Rightarrow> change_builder \<Rightarrow> change_builder" where
  "update_move original ndx_1 ndx_2 c =
     (let c = c\<lparr>move_mapping := AList.update ndx_1 original (AList.delete ndx_2 (move_mapping c))\<rparr>
      in add_swap_move ndx_1 ndx_2 c)"

definition swap_rows :: "change_builder \<Rightarrow> nat \<Rightarrow> nat \<Rightarrow> bool \<Rightarrow> change_builder" where
  "swap_rows c a b track_moves =
     (let ndx_1 = min a b; ndx_2 = max a b;
          c = for_each_col (swap_col ndx_1 ndx_2) c
      in if \<not> track_moves then c
         else case (map_of (move_mapping c) ndx_1, map_of (move_mapping c) ndx_2) of
             (Some old_1, Some old_2) \<Rightarrow>
               c\<lparr>move_mapping := AList.update ndx_2 old_1 (AList.update ndx_1 old_2 (move_mapping c))\<rparr>
           | (Some old_1, None) \<Rightarrow> update_move old_1 ndx_2 ndx_1 c
           | (None, Some old_2) \<Rightarrow> update_move old_2 ndx_1 ndx_2 c
           | (None, None) \<Rightarrow> add_swap_move ndx_1 ndx_2 (add_swap_move ndx_2 ndx_1 c))"

definition subsume :: "change_builder \<Rightarrow> nat \<Rightarrow> nat \<Rightarrow> bool \<Rightarrow> change_builder" where
  "subsume c old_ndx new_ndx track_moves =
     (let c = for_each_col (\<lambda>col. if iset_contains col old_ndx then iset_add col new_ndx else col) c
      in if \<not> track_moves then c
         else case map_of (move_mapping c) old_ndx of
             Some old \<Rightarrow> c\<lparr>move_mapping :=
               AList.delete old_ndx (AList.update new_ndx old (move_mapping c))\<rparr>
           | None \<Rightarrow>
               if \<not> iset_contains (insertions c) old_ndx then
                 c\<lparr>move_mapping := AList.update new_ndx
                     (iset_shift (deletions c) (iset_unshift (insertions c) old_ndx)) (move_mapping c)\<rparr>
               else c)"

fun parse_moves :: "(nat \<times> nat) list \<Rightarrow> change_builder \<Rightarrow> change_builder" where
  "parse_moves [] c = c"
| "parse_moves ((new, old) # ps) c =
     parse_moves ps
       (if new = old then c\<lparr>deletions := iset_remove (deletions c) old 1,
                            insertions := iset_remove (insertions c) new 1\<rparr>
        else c\<lparr>moves := moves c @ [\<lparr>mv_from = old, mv_to = new\<rparr>]\<rparr>)"

definition parse_complete :: "change_builder \<Rightarrow> change_builder" where
  "parse_complete c =
     (let c = (parse_moves (move_mapping c) c)\<lparr>move_mapping := []\<rparr>
      in c\<lparr>moves := sort_key mv_from (moves c)\<rparr>)"

definition insert_column :: "change_builder \<Rightarrow> nat \<Rightarrow> change_builder" where
  "insert_column c ndx =
     (if ndx < length (columns c)
      then c\<lparr>columns := take ndx (columns c) @ [[]] @ drop ndx (columns c)\<rparr> else c)"

text \<open>\<open>std::rotate\<close> of the positions \<open>b\<close>, \<open>m\<close>, \<open>e\<close>.\<close>

definition rotate_range :: "nat \<Rightarrow> nat \<Rightarrow> nat \<Rightarrow> 'a list \<Rightarrow> 'a list" where
  "rotate_range b m e xs = take b xs @ drop m (take e xs) @ drop b (take m xs) @ drop e xs"

definition move_column :: "change_builder \<Rightarrow> nat \<Rightarrow> nat \<Rightarrow> change_builder" where
  "move_column c src dst =
     (if src \<ge> length (columns c) \<and> dst \<ge> length (columns c) then c
      else
        (let cols = (if src \<ge> length (columns c) \<or> dst \<ge> length (columns c)
                     then resize (max src dst + 1) [] (columns c) else columns c)
         in c\<lparr>columns := (if src < dst then rotate_range src (src + 1) (dst + 1) cols
                          else rotate_range dst src (src + 1) cols)\<rparr>))"

subsection \<open>Merging two change sets\<close>

definition clean_up_moves :: "move_rec list \<Rightarrow> chunks \<Rightarrow> chunks \<Rightarrow> move_rec list \<times> chunks \<times> chunks" where
  "clean_up_moves ms del ins =
     foldl (\<lambda>(kept, del, ins) m.
       if sz_sub (mv_from m) (iset_count del 0 (mv_from m)) \<noteq> sz_sub (mv_to m) (iset_count ins 0 (mv_to m))
       then (kept @ [m], del, ins)
       else (kept, iset_remove del (mv_from m) 1, iset_remove ins (mv_to m) 1)) ([], del, ins) ms"

definition clean_up_stale_moves :: "change_builder \<Rightarrow> change_builder" where
  "clean_up_stale_moves c =
     (let (ms, del, ins) = clean_up_moves (moves c) (deletions c) (insertions c)
      in c\<lparr>moves := ms, deletions := del, insertions := ins\<rparr>)"

text \<open>The lambda \<open>for_each_col\<close> of \<open>merge\<close>, which visits the two sets column by column; the
  function returns the new pair of sets.\<close>

definition merge_cols ::
  "(chunks \<Rightarrow> chunks \<Rightarrow> chunks \<times> chunks) \<Rightarrow> change_builder \<Rightarrow> change_builder \<Rightarrow> change_builder \<times> change_builder" where
  "merge_cols f t c =
     (let (tm, cm) = f (modifications t) (modifications c);
          t = t\<lparr>modifications := tm\<rparr>; c = c\<lparr>modifications := cm\<rparr>
      in if track_columns t then
           (let tc = (if length (columns t) < length (columns c) then resize (length (columns c)) [] (columns t)
                      else columns t);
                cc = (if length (columns t) < length (columns c) then columns c
                      else if length (columns t) > length (columns c)
                      then resize (length (columns t)) [] (columns c) else columns c);
                ps = map2 f tc cc
            in (t\<lparr>columns := map fst ps\<rparr>, c\<lparr>columns := map snd ps @ drop (length ps) cc\<rparr>))
         else (t, c))"

definition carry_modified :: "move_rec \<Rightarrow> chunks \<Rightarrow> chunks \<Rightarrow> chunks \<times> chunks" where
  "carry_modified m col other =
     (col, if iset_contains col (mv_from m) then iset_add other (mv_to m) else other)"

fun merge_old_moves ::
  "move_rec list \<Rightarrow> change_builder \<Rightarrow> change_builder \<Rightarrow> move_rec list \<times> change_builder \<times> change_builder" where
  "merge_old_moves [] t c = ([], t, c)"
| "merge_old_moves (old # ms) t c =
     (let k = find_if (\<lambda>m. mv_to old = mv_from m) (moves c) in
      if k < length (moves c) then
        (let it = moves c ! k;
             (t, c) = merge_cols (carry_modified it) t c;
             c = c\<lparr>moves := butlast ((moves c)[k := last (moves c)])\<rparr>;
             (kept, t, c) = merge_old_moves ms t c
         in (old\<lparr>mv_to := mv_to it\<rparr> # kept, t, c))
      else if iset_contains (deletions c) (mv_to old) then merge_old_moves ms t c
      else
        (let (kept, t', c') = merge_old_moves ms t c
         in (old\<lparr>mv_to := iset_shift (insertions c) (iset_unshift (deletions c) (mv_to old))\<rparr> # kept, t', c')))"

fun carry_moves :: "move_rec list \<Rightarrow> change_builder \<Rightarrow> change_builder \<Rightarrow> change_builder \<times> change_builder" where
  "carry_moves [] t c = (t, c)"
| "carry_moves (m # ms) t c = (let (t, c) = merge_cols (carry_modified m) t c in carry_moves ms t c)"

definition merge :: "change_builder \<Rightarrow> change_builder \<Rightarrow> change_builder" where
  "merge t c =
     (if change_set_empty c then t
      else if change_set_empty t then c
      else
        (let (t, c) =
           (if moves c \<noteq> [] \<or> deletions c \<noteq> [] \<or> insertions c \<noteq> [] then
              (let (kept, t, c) = merge_old_moves (moves t) t c in (t\<lparr>moves := kept\<rparr>, c))
            else (t, c));
           c = (if insertions t \<noteq> [] \<and> moves c \<noteq> []
                then c\<lparr>moves := filter (\<lambda>m. \<not> iset_contains (insertions t) (mv_from m)) (moves c)\<rparr>
                else c);
           (t, c) = (if modifications t \<noteq> [] \<and> moves c \<noteq> [] then carry_moves (moves c) t c else (t, c));
           c = (if deletions t \<noteq> [] \<or> insertions t \<noteq> []
                then c\<lparr>moves := map (\<lambda>m. m\<lparr>mv_from :=
                          iset_shift (deletions t) (iset_unshift (insertions t) (mv_from m))\<rparr>) (moves c)\<rparr>
                else c);
           t = t\<lparr>moves := moves t @ moves c\<rparr>;
           t = t\<lparr>deletions := add_shifted_by (deletions t) (insertions t) (deletions c)\<rparr>;
           t = t\<lparr>insertions := insert_at_set (erase_at_set (insertions t) (deletions c)) (insertions c)\<rparr>;
           t = clean_up_stale_moves t;
           (t, c) = merge_cols (\<lambda>col other.
             (iset_add_set (shift_for_insert_at_set (erase_at_set col (deletions c)) (insertions c)) other,
              other)) t c
         in t))"

text \<open>\<open>finalize\<close>, on a builder that has been given up.\<close>

definition finalize :: "change_builder \<Rightarrow> change_set" where
  "finalize c =
     (let modifications_in_old =
        shift_for_insert_at_set (erase_at_set (modifications c) (insertions c)) (deletions c)
      in \<lparr>deletions = deletions c, insertions = insertions c, modifications = modifications_in_old,
          modifications_new = iset_remove_set (modifications c) (insertions c),
          moves = moves c, columns = columns c\<rparr>)"

subsection \<open>Comparing two lists of rows\<close>

record row_info =
  row_index :: nat
  prev_tv_index :: nat
  tv_index :: nat
  shifted_tv_index :: nat

definition unsorted_step ::
  "chunks \<Rightarrow> nat \<times> chunks \<times> change_builder \<Rightarrow> row_info \<Rightarrow> nat \<times> chunks \<times> change_builder" where
  "unsorted_step candidates s row =
     (let (expected, removed, c) = s in
      if shifted_tv_index row = expected then (expected + 1, removed, c)
      else if \<not> iset_contains candidates (row_index row) then (shifted_tv_index row + 1, removed, c)
      else
        (let calc_expected = sz_sub (tv_index row) (iset_count (insertions c) 0 (tv_index row)) +
               iset_count removed 0 (prev_tv_index row)
         in if shifted_tv_index row = calc_expected then (calc_expected + 1, removed, c)
            else (expected, iset_add removed (prev_tv_index row),
              c\<lparr>moves := moves c @ [\<lparr>mv_from = prev_tv_index row, mv_to = tv_index row\<rparr>],
                insertions := iset_add (insertions c) (tv_index row)\<rparr>)))"

definition calculate_moves_unsorted ::
  "row_info list \<Rightarrow> chunks \<Rightarrow> chunks \<Rightarrow> change_builder \<Rightarrow> chunks \<times> change_builder" where
  "calculate_moves_unsorted new_rows removed candidates c =
     snd (foldl (unsorted_step candidates) (0, removed, c) new_rows)"

record lcs_row =
  l_row :: nat
  l_tv :: nat

record lcs_match =
  m_i :: nat
  m_j :: nat
  m_size :: nat
  m_modified :: nat

text \<open>In \<open>i - size + 1\<close> the difference may wrap around and the sum wraps back; it is written
  \<open>sz_sub (i + 1) size\<close>. \<open>length(j)\<close>, over the pairs \<open>(j, len)\<close> of the previous row.\<close>

fun block_length :: "(nat \<times> nat) list \<Rightarrow> nat \<Rightarrow> nat" where
  "block_length [] j = 1"
| "block_length ((pj, len) # prev) j = (if pj + 1 = j then len + 1 else block_length prev j)"

definition b_matches :: "lcs_row list \<Rightarrow> nat \<Rightarrow> nat \<Rightarrow> nat \<Rightarrow> nat list" where
  "b_matches b ai begin2 end2 =
     takeWhile (\<lambda>j. \<not> j \<ge> end2) (filter (\<lambda>j. \<not> j < begin2)
       (map l_tv (takeWhile (\<lambda>r. l_row r = ai) (dropWhile (\<lambda>r. l_row r < ai) b))))"

definition match_step ::
  "chunks \<Rightarrow> (nat \<times> nat) list \<Rightarrow> nat \<Rightarrow> lcs_match \<times> (nat \<times> nat) list \<Rightarrow> nat \<Rightarrow> lcs_match \<times> (nat \<times> nat) list" where
  "match_step modified prev i s j =
     (let (best, cur) = s; size = block_length prev j; cur = cur @ [(j, size)] in
      if size > m_size best then
        (\<lparr>m_i = sz_sub (i + 1) size, m_j = sz_sub (j + 1) size, m_size = size, m_modified = npos\<rparr>, cur)
      else if size = m_size best then
        (let best = (if m_modified best = npos
                     then best\<lparr>m_modified := iset_count modified (sz_sub (m_j best + 1) size) (m_j best + 1)\<rparr>
                     else best);
             count = iset_count modified (sz_sub (j + 1) size) (j + 1)
         in if count < m_modified best
            then (\<lparr>m_i = sz_sub (i + 1) size, m_j = sz_sub (j + 1) size, m_size = size, m_modified = count\<rparr>, cur)
            else (best, cur))
      else (best, cur))"

definition find_longest_match ::
  "lcs_row list \<Rightarrow> lcs_row list \<Rightarrow> chunks \<Rightarrow> nat \<Rightarrow> nat \<Rightarrow> nat \<Rightarrow> nat \<Rightarrow> lcs_match" where
  "find_longest_match a b modified begin1 end1 begin2 end2 =
     fst (foldl (\<lambda>(best, prev) i.
         foldl (match_step modified prev i) (best, []) (b_matches b (l_row (a ! i)) begin2 end2))
       (\<lparr>m_i = begin1, m_j = begin2, m_size = 0, m_modified = 0\<rparr>, []) [begin1..<end1])"

text \<open>The block found starts and ends inside the range searched, whatever the two sequences
  are; the recursion on the two sides of it therefore ends.\<close>

definition in_range :: "nat \<Rightarrow> nat \<Rightarrow> nat \<Rightarrow> nat \<Rightarrow> nat \<Rightarrow> nat \<Rightarrow> nat \<Rightarrow> bool" where
  "in_range begin1 end1 begin2 end2 i j len \<longleftrightarrow>
     begin1 \<le> i \<and> begin2 \<le> j \<and> (0 < len \<longrightarrow> i + len \<le> end1 \<and> j + len \<le> end2)"

definition prev_ok :: "nat \<Rightarrow> nat \<Rightarrow> nat \<Rightarrow> nat \<Rightarrow> (nat \<times> nat) list \<Rightarrow> bool" where
  "prev_ok begin1 i begin2 end2 prev \<longleftrightarrow>
     (\<forall>(j, len) \<in> set prev. begin2 + len \<le> j + 1 \<and> begin1 + len \<le> i \<and> j < end2 \<and> 0 < len)"

lemma block_length_pos: "0 < block_length prev j"
  by (induction prev j rule: block_length.induct) auto

lemma block_length_bound:
  "prev_ok begin1 i begin2 end2 prev \<Longrightarrow> begin1 \<le> i \<Longrightarrow> begin2 \<le> j \<Longrightarrow>
    begin2 + block_length prev j \<le> j + 1 \<and> begin1 + block_length prev j \<le> i + 1"
  by (induction prev j rule: block_length.induct) (auto simp: prev_ok_def)

lemma b_matches_range: "j \<in> set (b_matches b ai begin2 end2) \<Longrightarrow> begin2 \<le> j \<and> j < end2"
  by (auto simp: b_matches_def dest!: set_takeWhileD)

lemma match_step_result:
  assumes "match_step modified prev i (best, cur) j = (best', cur')"
  shows "cur' = cur @ [(j, block_length prev j)]"
    and "m_i best' = m_i best \<and> m_j best' = m_j best \<and> m_size best' = m_size best \<or>
      m_i best' = sz_sub (i + 1) (block_length prev j) \<and> m_j best' = sz_sub (j + 1) (block_length prev j) \<and>
      m_size best' = block_length prev j"
  using assms by (auto simp: match_step_def Let_def split: if_splits)

lemma match_step_range:
  assumes "prev_ok begin1 i begin2 end2 prev" "prev_ok begin1 (Suc i) begin2 end2 cur"
    "begin1 \<le> i" "i < end1" "begin2 \<le> j" "j < end2" "in_range begin1 end1 begin2 end2 (m_i best) (m_j best) (m_size best)"
    "match_step modified prev i (best, cur) j = (best', cur')"
  shows "in_range begin1 end1 begin2 end2 (m_i best') (m_j best') (m_size best')"
    and "prev_ok begin1 (Suc i) begin2 end2 cur'"
proof -
  note r = match_step_result [OF assms(8)] and l = block_length_bound [OF assms(1,3,5)] block_length_pos [of prev j]
  show "prev_ok begin1 (Suc i) begin2 end2 cur'" using r(1) l assms(2,6) by (auto simp: prev_ok_def)
  show "in_range begin1 end1 begin2 end2 (m_i best') (m_j best') (m_size best')"
    using r(2)
  proof
    assume "m_i best' = m_i best \<and> m_j best' = m_j best \<and> m_size best' = m_size best"
    then show ?thesis using assms(7) by simp
  next
    assume e: "m_i best' = sz_sub (i + 1) (block_length prev j) \<and> m_j best' = sz_sub (j + 1) (block_length prev j) \<and>
      m_size best' = block_length prev j"
    then show ?thesis using l assms(4,6) by (auto simp: in_range_def sz_sub_le)
  qed
qed

lemma match_steps_range:
  assumes "prev_ok begin1 i begin2 end2 prev" "begin1 \<le> i" "i < end1" "\<forall>j \<in> set js. begin2 \<le> j \<and> j < end2"
    "prev_ok begin1 (Suc i) begin2 end2 cur" "in_range begin1 end1 begin2 end2 (m_i best) (m_j best) (m_size best)"
    "foldl (match_step modified prev i) (best, cur) js = (best', cur')"
  shows "in_range begin1 end1 begin2 end2 (m_i best') (m_j best') (m_size best') \<and>
    prev_ok begin1 (Suc i) begin2 end2 cur'"
  using assms(4-)
proof (induction js arbitrary: best cur)
  case (Cons j js)
  obtain b1 c1 where s: "match_step modified prev i (best, cur) j = (b1, c1)" by (rule prod.exhaust)
  have "begin2 \<le> j" "j < end2" using Cons.prems(1) by auto
  note r = match_step_range [OF assms(1) Cons.prems(2) assms(2,3) this Cons.prems(3) s]
  show ?case using Cons.IH [OF _ r(2,1)] Cons.prems(1,4) s by simp
qed simp

lemma find_longest_match_range:
  assumes "find_longest_match a b modified begin1 end1 begin2 end2 = m"
  shows "in_range begin1 end1 begin2 end2 (m_i m) (m_j m) (m_size m)"
proof -
  let ?f = "\<lambda>(best, prev) i. foldl (match_step modified prev i) (best, []) (b_matches b (l_row (a ! i)) begin2 end2)"
  have "begin1 \<le> e \<Longrightarrow> e \<le> end1 \<Longrightarrow>
    foldl ?f (\<lparr>m_i = begin1, m_j = begin2, m_size = 0, m_modified = 0\<rparr>, []) [begin1..<e] = (best, prev) \<Longrightarrow>
    in_range begin1 end1 begin2 end2 (m_i best) (m_j best) (m_size best) \<and> prev_ok begin1 e begin2 end2 prev"
    for e best prev
  proof (induction e arbitrary: best prev rule: dec_induct)
    case base
    then show ?case by (auto simp: in_range_def prev_ok_def)
  next
    case (step e)
    obtain b1 p1 where s: "foldl ?f (\<lparr>m_i = begin1, m_j = begin2, m_size = 0, m_modified = 0\<rparr>, []) [begin1..<e] = (b1, p1)"
      by (rule prod.exhaust)
    from step.IH [OF _ s] step.prems have IH: "in_range begin1 end1 begin2 end2 (m_i b1) (m_j b1) (m_size b1)"
      "prev_ok begin1 e begin2 end2 p1" by auto
    have "foldl (match_step modified p1 e) (b1, []) (b_matches b (l_row (a ! e)) begin2 end2) = (best, prev)"
      using step.prems step.hyps s by simp
    from match_steps_range [OF IH(2) step.hyps(1) _ _ _ IH(1) this] step.prems b_matches_range
    show ?case by (auto simp: prev_ok_def)
  qed
  note inv = this
  show ?thesis
  proof (cases "begin1 \<le> end1")
    case False
    then show ?thesis using assms by (auto simp: find_longest_match_def in_range_def)
  next
    case True
    obtain best prev where s: "foldl ?f (\<lparr>m_i = begin1, m_j = begin2, m_size = 0, m_modified = 0\<rparr>, []) [begin1..<end1] = (best, prev)"
      by (rule prod.exhaust)
    then show ?thesis
      using assms inv [OF True order_refl s] by (simp add: find_longest_match_def)
  qed
qed

function find_longest_matches ::
  "lcs_row list \<Rightarrow> lcs_row list \<Rightarrow> chunks \<Rightarrow> nat \<Rightarrow> nat \<Rightarrow> nat \<Rightarrow> nat \<Rightarrow> lcs_match list" where
  "find_longest_matches a b modified begin1 end1 begin2 end2 =
     (let m = find_longest_match a b modified begin1 end1 begin2 end2 in
      if m_size m = 0 then []
      else
        (if m_i m > begin1 \<and> m_j m > begin2
         then find_longest_matches a b modified begin1 (m_i m) begin2 (m_j m) else []) @
        [m] @
        (if m_i m + m_size m < end2 \<and> m_j m + m_size m < end2
         then find_longest_matches a b modified (m_i m + m_size m) end1 (m_j m + m_size m) end2 else []))"
  by pat_completeness auto
termination
proof (relation "measure (\<lambda>(a, b, modified, begin1, end1, begin2, end2). end2 - begin2)", goal_cases)
  case (2 a b modified begin1 end1 begin2 end2 x)
  then show ?case using find_longest_match_range [OF 2(1) [symmetric]] by (auto simp: in_range_def)
next
  case (3 a b modified begin1 end1 begin2 end2 x)
  then show ?case using find_longest_match_range [OF 3(1) [symmetric]] by (auto simp: in_range_def)
qed auto

declare find_longest_matches.simps [simp del]

definition longest_matches ::
  "lcs_row list \<Rightarrow> lcs_row list \<Rightarrow> nat \<Rightarrow> chunks \<Rightarrow> lcs_match list" where
  "longest_matches a b start_index modified =
     find_longest_matches a b modified start_index (length a) start_index (length b) @
     [\<lparr>m_i = length a, m_j = length b, m_size = 0, m_modified = 0\<rparr>]"

text \<open>The loop that turns the matches into deletions and insertions.\<close>

fun align ::
  "lcs_row list \<Rightarrow> row_info list \<Rightarrow> lcs_match list \<Rightarrow> nat \<Rightarrow> nat \<Rightarrow> chunks \<Rightarrow> chunks \<Rightarrow> chunks \<times> chunks" where
  "align a rws [] i j del ins = (del, ins)"
| "align a rws (m # ms) i j del ins =
     align a rws ms (max i (m_i m) + m_size m) (max j (m_j m) + m_size m)
       (foldl (\<lambda>d k. iset_add d (l_tv (a ! k))) del [i..<m_i m])
       (foldl (\<lambda>s k. iset_add s (tv_index (rws ! k))) ins [j..<m_j m])"

definition lcs_a :: "row_info list \<Rightarrow> lcs_row list" where
  "lcs_a rws = map (\<lambda>(t, r). \<lparr>l_row = r, l_tv = t\<rparr>)
     (sort (map (\<lambda>row. (prev_tv_index row, row_index row)) rws))"

definition lcs_b :: "row_info list \<Rightarrow> lcs_row list" where
  "lcs_b rws = map (\<lambda>(r, t). \<lparr>l_row = r, l_tv = t\<rparr>)
     (sort (map (\<lambda>i. (row_index (rws ! i), i)) [0..<length rws]))"

definition calculate_moves_sorted :: "row_info list \<Rightarrow> change_builder \<Rightarrow> change_builder" where
  "calculate_moves_sorted rws c =
     (let a = lcs_a rws;
          first_difference = find_if (\<lambda>(x, y). l_row x \<noteq> row_index y) (zip a rws)
      in if first_difference = length a then c
         else
           (let ms = longest_matches a (lcs_b rws) first_difference (modifications c);
                (del, ins) = align a rws ms first_difference first_difference (deletions c) (insertions c)
            in c\<lparr>deletions := del, insertions := ins\<rparr>))"

text \<open>The walk over the old and the new rows, both sorted by row index: the new rows with
  what is known of their old place, the old rows that are gone, the new rows that came.\<close>

fun match_rows ::
  "row_info list \<Rightarrow> row_info list \<Rightarrow> chunks \<Rightarrow> chunks \<Rightarrow> row_info list \<times> chunks \<times> chunks" where
  "match_rows (r # old) (n # new) removed ins =
     (if row_index r = row_index n then
        (let (rws, removed, ins) = match_rows old new removed ins
         in (n\<lparr>prev_tv_index := tv_index r, shifted_tv_index := shifted_tv_index r\<rparr> # rws, removed, ins))
      else if row_index r < row_index n then match_rows old (n # new) (iset_add removed (tv_index r)) ins
      else
        (let (rws, removed, ins) = match_rows (r # old) new removed (iset_add ins (tv_index n))
         in (n # rws, removed, ins)))"
| "match_rows old [] removed ins = ([], foldl (\<lambda>s r. iset_add s (tv_index r)) removed old, ins)"
| "match_rows [] new removed ins = (new, removed, foldl (\<lambda>s r. iset_add s (tv_index r)) ins new)"

fun collect_old :: "nat list \<Rightarrow> nat \<Rightarrow> nat \<Rightarrow> chunks \<Rightarrow> row_info list \<times> chunks" where
  "collect_old [] i deleted del = ([], del)"
| "collect_old (p # ps) i deleted del =
     (if p = npos then collect_old ps (i + 1) (deleted + 1) (iset_add del i)
      else
        (let (rws, del) = collect_old ps (i + 1) deleted del
         in (\<lparr>row_index = p, prev_tv_index = npos, tv_index = i, shifted_tv_index = i - deleted\<rparr> # rws, del)))"

definition calculate :: "nat list \<Rightarrow> nat list \<Rightarrow> (nat \<Rightarrow> bool) \<Rightarrow> chunks option \<Rightarrow> change_builder" where
  "calculate prev_rows next_rows row_did_change move_candidates =
     (let (old_rows, del) = collect_old prev_rows 0 0 [];
          old_rows = sort_key row_index old_rows;
          new_rows = sort_key row_index (map (\<lambda>i. \<lparr>row_index = next_rows ! i, prev_tv_index = npos,
                       tv_index = i, shifted_tv_index = 0\<rparr>) [0..<length next_rows]);
          (new_rows, removed, ins) = match_rows old_rows new_rows [] [];
          new_rows = sort_key tv_index (filter (\<lambda>r. prev_tv_index r \<noteq> npos) new_rows);
          mods = foldl (\<lambda>s r. if row_did_change (row_index r) then iset_add s (tv_index r) else s) [] new_rows;
          ret = empty_builder\<lparr>deletions := del, insertions := ins, modifications := mods\<rparr>;
          (removed, ret) =
            (case move_candidates of
               Some candidates \<Rightarrow> calculate_moves_unsorted new_rows removed candidates ret
             | None \<Rightarrow> (removed, calculate_moves_sorted new_rows ret))
      in ret\<lparr>deletions := iset_add_set (deletions ret) removed\<rparr>)"

end
