(* ===== verification/Change_Edits.thy ===== *)
theory Change_Edits
  imports Change_Builder Row_Sets
begin

section \<open>Recording the operations on a list\<close>

text \<open>
  The operations with the semantics of a list of links: \<open>insert\<close>, \<open>modify\<close>, \<open>erase\<close>,
  \<open>clear\<close> and \<open>move\<close>. \<open>tracked c old new marks\<close> is what a builder promises after it has seen
  everything that turned \<open>old\<close> into \<open>new\<close>: its sets are well formed, deletions and insertions
  are an edit, every reported move is a move of one row, and the rows marked as modified are
  the marked ones. Every operation keeps it, and so does every sequence of operations.
\<close>

definition sets_ok :: "change_builder \<Rightarrow> bool" where
  "sets_ok c \<longleftrightarrow> vec_ok (deletions c) \<and> vec_ok (insertions c) \<and> vec_ok (modifications c) \<and>
     (\<forall>col \<in> set (columns c). vec_ok col)"

definition moves_ok :: "change_builder \<Rightarrow> 'a list \<Rightarrow> 'a list \<Rightarrow> bool" where
  "moves_ok c old new \<longleftrightarrow> distinct (map mv_to (moves c)) \<and>
     (\<forall>m \<in> set (moves c). mv_from m \<in> elems (deletions c) \<and> mv_to m \<in> elems (insertions c) \<and>
        old ! mv_from m = new ! mv_to m)"

definition marked :: "bool list \<Rightarrow> nat set" where
  "marked fs = {i. i < length fs \<and> fs ! i}"

definition tracked :: "change_builder \<Rightarrow> 'a list \<Rightarrow> 'a list \<Rightarrow> bool list \<Rightarrow> bool" where
  "tracked c old new fs \<longleftrightarrow> sets_ok c \<and> edit (elems (deletions c)) (elems (insertions c)) old new \<and>
     moves_ok c old new \<and> length fs = length new \<and> elems (modifications c) = marked fs \<and>
     move_mapping c = []"

subsection \<open>Positions after an edit of the list\<close>

lemma length_insert_rows [simp]: "length (insert_rows i xs ys) = length xs + length ys"
  by (simp add: insert_rows_def min_def)

lemma length_drop_nth [simp]: "i < length ys \<Longrightarrow> length (drop_nth i ys) = length ys - 1"
  by (simp add: drop_nth_def min_def)

lemma nth_insert_rows:
  assumes "i \<le> length ys" "k < length ys"
  shows "insert_rows i xs ys ! bump i (length xs) k = ys ! k"
  using assms by (auto simp: insert_rows_def bump_def nth_append min_def)

lemma nth_insert_rows_in:
  "i \<le> length ys \<Longrightarrow> k < length xs \<Longrightarrow> insert_rows i xs ys ! (i + k) = xs ! k"
  by (auto simp: insert_rows_def nth_append min_def)

lemma nth_drop_nth: "k < length ys \<Longrightarrow> k \<noteq> i \<Longrightarrow> drop_nth i ys ! close i k = ys ! k"
  by (auto simp: drop_nth_def close_def nth_append min_def)

lemma bump_less: "i \<le> n \<Longrightarrow> k < n \<Longrightarrow> bump i m k < m + n"
  by (simp add: bump_def)

lemma close_less: "i < n \<Longrightarrow> k < n \<Longrightarrow> k \<noteq> i \<Longrightarrow> close i k < n - 1"
  by (auto simp: close_def)

lemma bump_inj: "bump i n a = bump i n b \<longleftrightarrow> a = b"
  by (auto simp: bump_def)

lemma close_inj: "a \<noteq> i \<Longrightarrow> b \<noteq> i \<Longrightarrow> close i a = close i b \<longleftrightarrow> a = b"
  by (auto simp: close_def)

lemma marked_insert_rows:
  assumes "i \<le> length fs"
  shows "marked (insert_rows i xs fs) = bump i (length xs) ` marked fs \<union> (\<lambda>k. i + k) ` marked xs"
proof (intro set_eqI iffI)
  fix k assume k: "k \<in> marked (insert_rows i xs fs)"
  consider "k < i" | "i \<le> k" "k < i + length xs" | "i + length xs \<le> k" by linarith
  then show "k \<in> bump i (length xs) ` marked fs \<union> (\<lambda>k. i + k) ` marked xs"
  proof cases
    case 1
    then have "k \<in> marked fs" using k assms nth_insert_rows [of i fs k xs] by (auto simp: marked_def bump_def)
    then show ?thesis using 1 by (auto simp: bump_image)
  next
    case 2
    then have "k - i \<in> marked xs" using k assms nth_insert_rows_in [of i fs "k - i" xs] by (auto simp: marked_def)
    then show ?thesis using 2 by (auto intro!: image_eqI [of _ _ "k - i"])
  next
    case 3
    then have "bump i (length xs) (k - length xs) = k" by (auto simp: bump_def)
    moreover have "k - length xs < length fs" using k 3 by (auto simp: marked_def)
    ultimately have "k - length xs \<in> marked fs"
      using k assms nth_insert_rows [of i fs "k - length xs" xs] by (simp add: marked_def)
    then show ?thesis using 3 by (simp add: bump_image)
  qed
next
  fix k assume "k \<in> bump i (length xs) ` marked fs \<union> (\<lambda>k. i + k) ` marked xs"
  then show "k \<in> marked (insert_rows i xs fs)"
    using assms by (auto simp: marked_def nth_insert_rows nth_insert_rows_in bump_less)
qed

lemma marked_drop_nth:
  assumes "i < length fs"
  shows "marked (drop_nth i fs) = close i ` (marked fs - {i})"
proof (intro set_eqI iffI)
  fix k assume "k \<in> marked (drop_nth i fs)"
  then show "k \<in> close i ` (marked fs - {i})"
    using assms by (auto simp: close_image marked_def drop_nth_def nth_append min_def split: if_splits)
next
  fix k assume "k \<in> close i ` (marked fs - {i})"
  then show "k \<in> marked (drop_nth i fs)"
    using assms close_less [of i "length fs"] by (auto simp: marked_def nth_drop_nth)
qed

lemma marked_replicate [simp]: "marked (replicate n False) = {}" "marked [] = {}"
  by (auto simp: marked_def)

lemma marked_one [simp]: "marked [b] = (if b then {0} else {})"
  by (auto simp: marked_def)

lemma marked_update: "i < length fs \<Longrightarrow> marked (fs[i := True]) = insert i (marked fs)"
  by (auto simp: marked_def nth_list_update)

subsection \<open>The steps\<close>

lemma for_each_col_simps [simp]:
  "deletions (for_each_col f c) = deletions c" "insertions (for_each_col f c) = insertions c"
  "moves (for_each_col f c) = moves c" "move_mapping (for_each_col f c) = move_mapping c"
  "modifications (for_each_col f c) = f (modifications c)"
  by (simp_all add: for_each_col_def Let_def)

lemma for_each_col_ok: "sets_ok c \<Longrightarrow> (\<And>m. vec_ok m \<Longrightarrow> vec_ok (f m)) \<Longrightarrow> sets_ok (for_each_col f c)"
  by (auto simp: sets_ok_def for_each_col_def Let_def)

lemma insert_tracked:
  assumes t: "tracked c old new fs" and i: "i \<le> length new" and xs: "xs \<noteq> []"
  shows "tracked (insert_rows_at c i (length xs) True) old (insert_rows i xs new)
    (insert_rows i (replicate (length xs) False) fs)"
proof -
  let ?n = "length xs" and ?f = "\<lambda>col. shift_for_insert_at col i (length xs)"
  let ?c = "insert_rows_at c i (length xs) True"
  have n: "0 < ?n" using xs by simp
  have so: "sets_ok c" and ed: "edit (elems (deletions c)) (elems (insertions c)) old new"
    and mo: "moves_ok c old new" and le: "length fs = length new" and mk: "elems (modifications c) = marked fs"
    and mm: "move_mapping c = []"
    using t by (auto simp: tracked_def)
  have f: "vec_ok (?f m)" if "vec_ok m" for m using iset.make_room [OF that n] by simp
  have c: "deletions ?c = deletions c" "insertions ?c = insert_at (insertions c) i ?n"
    "modifications ?c = ?f (modifications c)" "move_mapping ?c = []"
    "columns ?c = columns (for_each_col ?f c)"
    "moves ?c = map (\<lambda>m. m\<lparr>mv_to := bump i ?n (mv_to m)\<rparr>) (moves c)"
    using mm by (auto simp: insert_rows_at_def Let_def bump_def)
  have I: "vec_ok (insertions ?c)" "elems (insertions ?c) = bump i ?n ` elems (insertions c) \<union> {i..<i + ?n}"
    using iset.put_in [OF _ n, of "insertions c" i] so c by (auto simp: sets_ok_def)
  have "sets_ok ?c" using for_each_col_ok [OF so, of ?f] f I(1) c by (simp add: sets_ok_def)
  moreover have "edit (elems (deletions ?c)) (elems (insertions ?c)) old (insert_rows i xs new)"
    using iset.insert_keeps [OF _ ed i xs] so c by (auto simp: sets_ok_def)
  moreover have "moves_ok ?c old (insert_rows i xs new)"
    unfolding moves_ok_def
  proof (intro conjI ballI)
    show "distinct (map mv_to (moves ?c))"
      using mo by (auto simp: c moves_ok_def distinct_map inj_on_def bump_inj)
    fix m assume "m \<in> set (moves ?c)"
    then obtain m0 where m0: "m0 \<in> set (moves c)" "m = m0\<lparr>mv_to := bump i ?n (mv_to m0)\<rparr>" using c by auto
    have k: "mv_to m0 < length new" using mo ed m0(1) by (auto simp: moves_ok_def edit_def)
    show "mv_from m \<in> elems (deletions ?c)" "mv_to m \<in> elems (insertions ?c)"
      using mo m0 c I by (auto simp: moves_ok_def)
    show "old ! mv_from m = insert_rows i xs new ! mv_to m"
      using mo m0 nth_insert_rows [OF i k] by (auto simp: moves_ok_def)
  qed
  moreover have "elems (modifications ?c) = marked (insert_rows i (replicate ?n False) fs)"
    using iset.make_room [OF _ n] so c mk marked_insert_rows [of i fs "replicate ?n False"] i le
    by (simp add: sets_ok_def)
  ultimately show ?thesis using le c by (simp add: tracked_def)
qed

lemma erase_moves_eq:
  "erase_moves i ms = map (\<lambda>m. m\<lparr>mv_to := close i (mv_to m)\<rparr>) (filter (\<lambda>m. mv_to m \<noteq> i) ms)"
  by (induction ms) (auto simp: close_def)

lemma erase_tracked:
  assumes t: "tracked c old new fs" and i: "i < length new" and n: "length new \<le> npos"
  shows "tracked (erase_row c i) old (drop_nth i new) (drop_nth i fs)"
proof -
  let ?f = "\<lambda>col. erase_at col i" and ?c = "erase_row c i"
  have so: "sets_ok c" and ed: "edit (elems (deletions c)) (elems (insertions c)) old new"
    and mo: "moves_ok c old new" and le: "length fs = length new" and mk: "elems (modifications c) = marked fs"
    and mm: "move_mapping c = []"
    using t by (auto simp: tracked_def)
  have v: "vec_ok (deletions c)" "vec_ok (insertions c)" "vec_ok (modifications c)" using so by (simp_all add: sets_ok_def)
  obtain ins u where e: "erase_or_unshift (insertions c) i = (ins, u)" by (rule prod.exhaust)
  define del where "del = (if u \<noteq> npos then fst (add_shifted (deletions c) u) else deletions c)"
  have c: "deletions ?c = del" "insertions ?c = ins"
    "modifications ?c = ?f (modifications c)" "move_mapping ?c = []"
    "columns ?c = columns (for_each_col ?f c)"
    "moves ?c = map (\<lambda>m. m\<lparr>mv_to := close i (mv_to m)\<rparr>) (filter (\<lambda>m. mv_to m \<noteq> i) (moves c))"
    using e mm by (auto simp: erase_row_def Let_def del_def erase_moves_eq)
  have k: "vec_ok del \<and> vec_ok ins \<and> edit (elems del) (elems ins) old (drop_nth i new)"
    by (rule iset.erase_keeps [OF v(1,2) ed i n e del_def])
  have ins: "elems ins = close i ` (elems (insertions c) - {i})" using iset.erase_unshift [OF v(2), of i] e by simp
  have sub: "elems (deletions c) \<subseteq> elems del" using iset.add_shift [OF v(1), of u] by (auto simp: del_def)
  have "vec_ok (?f m)" if "vec_ok m" for m using iset.erase [OF that] by simp
  then have "sets_ok ?c" using for_each_col_ok [OF so, of ?f] k c by (simp add: sets_ok_def)
  moreover have "moves_ok ?c old (drop_nth i new)"
    unfolding moves_ok_def
  proof (intro conjI ballI)
    show "distinct (map mv_to (moves ?c))"
      using mo by (auto simp: c moves_ok_def distinct_map inj_on_def close_inj)
    fix m assume "m \<in> set (moves ?c)"
    then obtain m0 where m0: "m0 \<in> set (moves c)" "mv_to m0 \<noteq> i" "m = m0\<lparr>mv_to := close i (mv_to m0)\<rparr>"
      using c by auto
    have l: "mv_to m0 < length new" using mo ed m0(1) by (auto simp: moves_ok_def edit_def)
    show "mv_from m \<in> elems (deletions ?c)" "mv_to m \<in> elems (insertions ?c)"
      using mo m0 c ins sub by (auto simp: moves_ok_def)
    show "old ! mv_from m = drop_nth i new ! mv_to m"
      using mo m0 nth_drop_nth [OF l m0(2)] by (auto simp: moves_ok_def)
  qed
  moreover have "elems (modifications ?c) = marked (drop_nth i fs)"
    using iset.erase [OF v(3)] c mk marked_drop_nth [of i fs] i le by simp
  ultimately show ?thesis using le i c k by (simp add: tracked_def)
qed

lemma modify_fields [simp]:
  "deletions (modify c i col) = deletions c" "insertions (modify c i col) = insertions c"
  "moves (modify c i col) = moves c" "move_mapping (modify c i col) = move_mapping c"
  "modifications (modify c i col) = iset_add (modifications c) i"
  by (simp_all add: modify_def Let_def)

lemma modify_sets_ok:
  assumes so: "sets_ok c"
  shows "sets_ok (modify c i col)"
proof -
  have "\<forall>x \<in> set (columns (modify c i col)). vec_ok x"
  proof (cases "\<not> track_columns c \<or> col = npos")
    case True
    then show ?thesis using so by (auto simp: modify_def Let_def sets_ok_def)
  next
    case False
    let ?cols = "if col \<ge> length (columns c) then resize (col + 1) [] (columns c) else columns c"
    have ok: "\<forall>y \<in> set ?cols. vec_ok y" using so
      by (auto simp: sets_ok_def resize_def vec_ok_def dest!: in_set_takeD split: if_splits)
    have "col < length ?cols" by (simp add: resize_def)
    then have "vec_ok (iset_add (?cols ! col) i)" using ok add_correct(1) nth_mem by blast
    then have "\<forall>x \<in> set (?cols[col := iset_add (?cols ! col) i]). vec_ok x"
      using ok set_update_subset_insert [of ?cols col "iset_add (?cols ! col) i"] by blast
    then show ?thesis using False by (simp add: modify_def Let_def)
  qed
  then show ?thesis using so add_correct(1) by (simp add: sets_ok_def)
qed

lemma modify_tracked:
  assumes t: "tracked c old new fs" and i: "i < length new"
  shows "tracked (modify c i col) old new (fs[i := True])"
proof -
  have so: "sets_ok c" and le: "length fs = length new" and mk: "elems (modifications c) = marked fs"
    using t by (auto simp: tracked_def)
  have "elems (iset_add (modifications c) i) = marked (fs[i := True])"
    using add_correct(2) so i le mk by (simp add: sets_ok_def marked_update)
  then show ?thesis using t modify_sets_ok [OF so] by (simp add: tracked_def moves_ok_def)
qed

lemma move_moves_eq:
  assumes "distinct (map mv_to ms)"
  shows "move_moves src dst ms ins up =
    (map (\<lambda>m. m\<lparr>mv_to := (if mv_to m = src then dst else bump dst 1 (close src (mv_to m)))\<rparr>) ms,
     if \<exists>m \<in> set ms. mv_to m = src then insert_at (erase_at ins src) dst 1 else ins,
     up \<or> (\<exists>m \<in> set ms. mv_to m = src))"
  using assms
proof (induction ms arbitrary: ins up)
  case (Cons m ms)
  show ?case
  proof (cases "mv_to m = src")
    case True
    then have "\<not> (\<exists>m' \<in> set ms. mv_to m' = src)" using Cons.prems by (metis distinct.simps(2) imageI list.set_map list.simps(9))
    then show ?thesis using True Cons by simp
  next
    case False
    have "(if mv_to m \<ge> dst \<and> mv_to m < src then m\<lparr>mv_to := mv_to m + 1\<rparr>
        else if mv_to m \<le> dst \<and> mv_to m > src then m\<lparr>mv_to := mv_to m - 1\<rparr> else m) =
        m\<lparr>mv_to := bump dst 1 (close src (mv_to m))\<rparr>"
      using False by (cases m) (auto simp: bump_def close_def)
    then show ?thesis using False Cons by (simp add: Let_def)
  qed
qed simp

text \<open>\<open>move\<close> is the erasure of the row, followed by its insertion at the new place.\<close>

lemma move_tracked:
  assumes t: "tracked c old new fs" and i: "src < length new" and j: "dst < length new"
    and n: "length new \<le> npos"
  shows "tracked (move_row c src dst) old (insert_rows dst [new ! src] (drop_nth src new))
    (insert_rows dst [fs ! src] (drop_nth src fs))"
proof -
  let ?c = "move_row c src dst" and ?new = "insert_rows dst [new ! src] (drop_nth src new)"
  let ?I = "elems (insertions c)" and ?D = "elems (deletions c)"
  let ?up = "\<exists>m \<in> set (moves c). mv_to m = src"
  have so: "sets_ok c" and ed: "edit ?D ?I old new"
    and mo: "moves_ok c old new" and le: "length fs = length new" and mk: "elems (modifications c) = marked fs"
    and mm: "move_mapping c = []"
    using t by (auto simp: tracked_def)
  have v: "vec_ok (deletions c)" "vec_ok (insertions c)" "vec_ok (modifications c)" using so by (simp_all add: sets_ok_def)
  have dl: "dst \<le> length (drop_nth src new)" using i j by simp
  obtain ins u where e: "erase_or_unshift (insertions c) src = (ins, u)" by (rule prod.exhaust)
  define del where "del = (if u \<noteq> npos then fst (add_shifted (deletions c) u) else deletions c)"
  have eu: "vec_ok ins" "elems ins = close src ` (?I - {src})"
    "u = (if src \<in> ?I then npos else src - rank ?I src)"
    using iset.erase_unshift [OF v(2), of src] e by auto
  have k: "vec_ok del \<and> vec_ok ins \<and> edit (elems del) (elems ins) old (drop_nth src new)"
    by (rule iset.erase_keeps [OF v(1,2) ed i n e del_def])
  have same: "elems (erase_at (insertions c) src) = elems ins" "vec_ok (erase_at (insertions c) src)"
    using iset.erase [OF v(2), of src] eu by auto
  have upI: "src \<in> ?I" if ?up using that mo by (auto simp: moves_ok_def)
  define ins' where "ins' = (if ?up then erase_at (insertions c) src else ins)"
  have ins': "vec_ok ins'" "elems ins' = elems ins" using same eu by (auto simp: ins'_def)
  define new_moves where "new_moves = (if u \<noteq> npos then [\<lparr>mv_from = snd (add_shifted (deletions c) u), mv_to = dst\<rparr>] else [])"
  have up_u: "u = npos" if ?up using upI [OF that] eu(3) by simp
  have c: "deletions ?c = del" "insertions ?c = insert_at ins' dst 1"
    "modifications ?c = move_col src dst (modifications c)" "move_mapping ?c = []"
    "moves ?c = map (\<lambda>m. m\<lparr>mv_to := (if mv_to m = src then dst else bump dst 1 (close src (mv_to m)))\<rparr>) (moves c) @ new_moves"
    and cols: "columns ?c = (if track_columns c then map (move_col src dst) (columns c) else columns c)"
    using mo mm e up_u
    by (auto simp: move_row_def move_moves_eq moves_ok_def Let_def del_def ins'_def new_moves_def
        for_each_col_def split: prod.splits)
  have I': "vec_ok (insert_at ins' dst 1)" "elems (insert_at ins' dst 1) = bump dst 1 ` elems ins \<union> {dst}"
    using iset.put_in [OF ins'(1), of 1 dst] ins'(2) by auto
  have mc: "vec_ok (move_col src dst m) \<and> elems (move_col src dst m) =
      bump dst 1 ` close src ` (elems m - {src}) \<union> (if src \<in> elems m then {dst} else {})" if "vec_ok m" for m
    using iset.contains [OF that] iset.erase [OF that, of src] iset.put_in [of "erase_at m src" 1 dst]
      iset.make_room [of "erase_at m src" 1 dst] by (auto simp: move_col_def Let_def)
  have "sets_ok ?c" using so k I' c cols mc by (auto simp: sets_ok_def)
  moreover have "edit (elems (deletions ?c)) (elems (insertions ?c)) old ?new"
    using edit_insert [OF _ dl, of "elems del" "elems ins" old "[new ! src]" 1] k c I' by simp
  moreover have "moves_ok ?c old ?new"
    unfolding moves_ok_def
  proof (intro conjI ballI)
    have fresh: "bump dst 1 (close src k) \<noteq> dst" for k by (auto simp: bump_def)
    have nup: "\<forall>m \<in> set (moves c). mv_to m \<noteq> src" if "u \<noteq> npos" using up_u that by auto
    have d: "distinct (map mv_to (moves c))" using mo by (simp add: moves_ok_def)
    have "distinct (map mv_to (map (\<lambda>m. m\<lparr>mv_to := (if mv_to m = src then dst else bump dst 1 (close src (mv_to m)))\<rparr>) (moves c)))"
      using d fresh by (auto simp: distinct_map inj_on_def bump_inj close_inj split: if_splits) (metis fresh)+
    then show "distinct (map mv_to (moves ?c))"
      using nup fresh unfolding c by (auto simp: new_moves_def dest: sym)
    fix m assume m: "m \<in> set (moves ?c)"
    have here: "?new ! dst = new ! src" using nth_insert_rows_in [OF dl, of 0 "[new ! src]"] by simp
    have "mv_from m \<in> elems del \<and> mv_to m \<in> elems (insertions ?c) \<and> old ! mv_from m = ?new ! mv_to m"
    proof (cases "m \<in> set new_moves")
      case True
      then have u: "u \<noteq> npos" "m = \<lparr>mv_from = snd (add_shifted (deletions c) u), mv_to = dst\<rparr>"
        by (auto simp: new_moves_def split: if_splits)
      note a = iset.add_shift [OF v(1), of u]
      have "src \<notin> ?I" "u = src - rank ?I src" using u(1) eu(3) by (auto split: if_splits)
      then have "old ! snd (add_shifted (deletions c) u) = new ! src"
        using edit_row(2) [OF ed i] a by simp
      then show ?thesis using u here a c I' by (simp add: del_def)
    next
      case False
      then obtain m0 where m0: "m0 \<in> set (moves c)"
        "m = m0\<lparr>mv_to := (if mv_to m0 = src then dst else bump dst 1 (close src (mv_to m0)))\<rparr>"
        using m c by auto
      have o: "mv_from m0 \<in> ?D" "mv_to m0 \<in> ?I" "old ! mv_from m0 = new ! mv_to m0" using mo m0 by (auto simp: moves_ok_def)
      have l: "mv_to m0 < length new" using o ed by (auto simp: edit_def)
      have "mv_from m0 \<in> elems del" using o iset.add_shift [OF v(1), of u] by (auto simp: del_def)
      moreover have "mv_to m \<in> elems (insertions ?c)" using m0 o c I' eu by auto
      moreover have "?new ! mv_to m = new ! mv_to m0"
      proof (cases "mv_to m0 = src")
        case False
        have "close src (mv_to m0) < length (drop_nth src new)" using close_less [OF i l False] i by simp
        then show ?thesis
          using nth_insert_rows [OF dl, of "close src (mv_to m0)" "[new ! src]"] nth_drop_nth [OF l False] False m0 by simp
      qed (use m0 here in simp)
      ultimately show ?thesis using m0 o by simp
    qed
    then show "mv_from m \<in> elems (deletions ?c)" "mv_to m \<in> elems (insertions ?c)"
      "old ! mv_from m = ?new ! mv_to m" using c by simp_all
  qed
  moreover have "elems (modifications ?c) = marked (insert_rows dst [fs ! src] (drop_nth src fs))"
    using mc [OF v(3)] c mk marked_insert_rows [of dst "drop_nth src fs" "[fs ! src]"] marked_drop_nth [of src fs] i j le
    by (auto simp: marked_def)
  ultimately show ?thesis using le i c by (simp add: tracked_def)
qed

lemma count_ranges_up:
  "\<forall>r \<in> set rs. fst r < snd r \<Longrightarrow> foldl (\<lambda>s r. s + sz_sub (snd r) (fst r)) a rs = a + rows_in rs"
  by (induction rs arbitrary: a) (auto simp: sz_sub_le)

lemma count_ranges_down:
  "\<forall>r \<in> set rs. fst r < snd r \<Longrightarrow> rows_in rs \<le> a \<Longrightarrow>
    foldl (\<lambda>s r. sz_sub s (sz_sub (snd r) (fst r))) a rs = a - rows_in rs"
  by (induction rs arbitrary: a) (auto simp: sz_sub_le)

lemma card_elems: "vec_ok m \<Longrightarrow> card (elems m) = rows_in (flat m)"
  by (simp add: elems_def vec_ok_def card_rows)

lemma flat_pos: "vec_ok m \<Longrightarrow> \<forall>r \<in> set (flat m). fst r < snd r"
  by (simp add: vec_ok_def sorted_ranges_def)

lemma clear_tracked:
  assumes t: "tracked c old new fs" and n: "length new < npos"
  shows "tracked (clear_rows c (length new)) old [] []"
    and "elems (deletions (clear_rows c (length new))) = {..<length old}"
proof -
  have ed: "edit (elems (deletions c)) (elems (insertions c)) old new" and so: "sets_ok c"
    using t by (auto simp: tracked_def)
  have v: "vec_ok (deletions c)" "vec_ok (insertions c)" using so by (simp_all add: sets_ok_def)
  have le: "rows_in (flat (insertions c)) \<le> length new + rows_in (flat (deletions c))"
    and eq: "length new + rows_in (flat (deletions c)) - rows_in (flat (insertions c)) = length old"
    using edit_length [OF ed] edit_cards [OF ed] card_elems [OF v(1)] card_elems [OF v(2)] by auto
  have d: "deletions (clear_rows c (length new)) = set_len (length old)"
    using n count_ranges_up [OF flat_pos [OF v(1)]] count_ranges_down [OF flat_pos [OF v(2)] le] eq
    by (simp add: clear_rows_def Let_def)
  then show "elems (deletions (clear_rows c (length new))) = {..<length old}" by (simp add: set_len_correct)
  have "nths old (- {..<length old}) = []" by (rule nths_none) auto
  then show "tracked (clear_rows c (length new)) old [] []"
    using d by (simp add: tracked_def sets_ok_def moves_ok_def edit_def set_len_correct)
      (simp add: clear_rows_def Let_def vec_ok_def elems_def)
qed

lemma empty_tracked: "tracked empty_builder xs xs (replicate (length xs) False)"
  by (simp add: tracked_def empty_builder_def new_builder_def sets_ok_def moves_ok_def vec_ok_def elems_def)

subsection \<open>Every sequence of operations\<close>

datatype 'a list_op = Insert nat "'a list" | Modify nat | Erase nat | Clear | Move nat nat

text \<open>One operation on the collection, as the collection sees it: the rows and, for each, whether
  it was modified.\<close>

inductive list_step :: "'a list \<times> bool list \<Rightarrow> 'a list_op \<Rightarrow> 'a list \<times> bool list \<Rightarrow> bool" where
  "i \<le> length xs \<Longrightarrow> ys \<noteq> [] \<Longrightarrow>
     list_step (xs, fs) (Insert i ys) (insert_rows i ys xs, insert_rows i (replicate (length ys) False) fs)"
| "i < length xs \<Longrightarrow> list_step (xs, fs) (Modify i) (xs, fs[i := True])"
| "i < length xs \<Longrightarrow> list_step (xs, fs) (Erase i) (drop_nth i xs, drop_nth i fs)"
| "list_step (xs, fs) Clear ([], [])"
| "src < length xs \<Longrightarrow> dst < length xs \<Longrightarrow>
     list_step (xs, fs) (Move src dst)
       (insert_rows dst [xs ! src] (drop_nth src xs), insert_rows dst [fs ! src] (drop_nth src fs))"

inductive_cases list_step_cases: "list_step (xs, fs) op (xs', fs')"

text \<open>The calls by which an observer of the collection records it.\<close>

fun record_op :: "change_builder \<Rightarrow> nat \<Rightarrow> 'a list_op \<Rightarrow> change_builder" where
  "record_op c n (Insert i ys) = insert_rows_at c i (length ys) True"
| "record_op c n (Modify i) = modify c i npos"
| "record_op c n (Erase i) = erase_row c i"
| "record_op c n Clear = clear_rows c n"
| "record_op c n (Move src dst) = move_row c src dst"

inductive recorded :: "'a list \<Rightarrow> change_builder \<Rightarrow> 'a list \<Rightarrow> bool list \<Rightarrow> bool" for old where
  start: "recorded old empty_builder old (replicate (length old) False)"
| step: "recorded old c xs fs \<Longrightarrow> list_step (xs, fs) op (xs', fs') \<Longrightarrow> length xs < npos \<Longrightarrow>
    recorded old (record_op c (length xs) op) xs' fs'"

lemma step_tracked:
  assumes "tracked c old xs fs" "list_step (xs, fs) op (xs', fs')" "length xs < npos"
  shows "tracked (record_op c (length xs) op) old xs' fs'"
  by (rule list_step_cases [OF assms(2)])
    (use assms(1,3) in \<open>auto simp: insert_tracked modify_tracked erase_tracked clear_tracked(1) move_tracked\<close>)

lemma recorded_tracked: "recorded old c xs fs \<Longrightarrow> tracked c old xs fs"
  by (induction rule: recorded.induct) (auto simp: empty_tracked step_tracked)

end
