(* ===== verification/Change_Calculate.thy ===== *)
theory Change_Calculate
  imports Change_Edits "HOL-Library.Multiset"
begin

section \<open>Comparing two versions of a collection\<close>

text \<open>
  \<open>calculate\<close> without move candidates, the path taken for sorted results and lists: the change
  it reports turns the old rows into the new ones. The proof follows the code: the walk over the
  two sorted lists pairs every new row with at most one old row, the search for common blocks
  yields a chain of blocks on which the two sequences agree, and \<open>align\<close> keeps exactly the rows
  of the chain.
\<close>

subsection \<open>Kept positions\<close>

lemma nths_Suc: "nths xs A = nths (take n xs) A @ (if n \<in> A then [xs ! n] else [])" if "length xs = Suc n"
  using nths_split [of n xs A] that by simp

lemma nths_sorted:
  assumes "sorted_wrt (<) ts" "set ts \<subseteq> {..<length xs}"
  shows "nths xs (set ts) = map ((!) xs) ts"
  using assms
proof (induction ts rule: rev_induct)
  case (snoc t ts)
  have t: "t < length xs" "\<forall>s \<in> set ts. s < t" using snoc.prems by (auto simp: sorted_wrt_append)
  have "nths (take t xs) (set (ts @ [t])) = nths (take t xs) (set ts)" by (rule nths_same) auto
  moreover have "nths (drop (Suc t) xs) {i. i + Suc t \<in> set (ts @ [t])} = []"
    by (rule nths_none) (use t in fastforce)
  moreover have "nths xs (set ts) = nths (take t xs) (set ts)"
  proof -
    have "nths (drop (Suc t) xs) {i. i + Suc t \<in> set ts} = []" by (rule nths_none) (use t in fastforce)
    moreover have "t \<notin> set ts" using t by auto
    ultimately show ?thesis by (subst nths_split [OF t(1)]) simp
  qed
  ultimately show ?case
    using snoc t by (subst nths_split [OF t(1)]) (simp add: sorted_wrt_append)
qed simp

text \<open>The common case: an edit given by the positions that are kept on the two sides.\<close>

lemma edit_kept:
  assumes "sorted_wrt (<) ss" "sorted_wrt (<) ts" "map ((!) old) ss = map ((!) new) ts"
    "set ss = {..<length old} - D" "set ts = {..<length new} - I" "D \<subseteq> {..<length old}" "I \<subseteq> {..<length new}"
  shows "edit D I old new"
proof -
  have "nths old (- D) = nths old (set ss)" by (rule nths_same) (use assms(4) in auto)
  moreover have "nths new (- I) = nths new (set ts)" by (rule nths_same) (use assms(5) in auto)
  ultimately show ?thesis
    using nths_sorted [OF assms(1), of old] nths_sorted [OF assms(2), of new] assms by (auto simp: edit_def)
qed

subsection \<open>Blocks\<close>

text \<open>\<open>block A B p q n\<close>: the \<open>n\<close> entries before \<open>p\<close> in \<open>A\<close> are those before \<open>q\<close> in \<open>B\<close>.\<close>

definition block :: "'a list \<Rightarrow> 'a list \<Rightarrow> nat \<Rightarrow> nat \<Rightarrow> nat \<Rightarrow> bool" where
  "block A B p q n \<longleftrightarrow> n \<le> p \<and> n \<le> q \<and> (\<forall>k < n. A ! (p - n + k) = B ! (q - n + k))"

lemma block_Suc: "block A B p q n \<Longrightarrow> A ! p = B ! q \<Longrightarrow> block A B (Suc p) (Suc q) (Suc n)"
  by (auto simp: block_def less_Suc_eq)

lemma block_one: "A ! p = B ! q \<Longrightarrow> block A B (Suc p) (Suc q) (Suc 0)"
  by (simp add: block_def)

definition b_rows :: "nat list \<Rightarrow> lcs_row list \<Rightarrow> bool" where
  "b_rows B b \<longleftrightarrow> (\<forall>r \<in> set b. B ! l_tv r = l_row r)"

lemma b_matches_row: "b_rows B b \<Longrightarrow> j \<in> set (b_matches b ai b2 e2) \<Longrightarrow> B ! j = ai"
  by (auto simp: b_matches_def b_rows_def dest!: set_takeWhileD set_dropWhileD)

lemma block_length_block:
  assumes "\<forall>(j, len) \<in> set prev. block A B i (Suc j) len" "A ! i = B ! j"
  shows "block A B (Suc i) (Suc j) (block_length prev j)"
  using assms by (induction prev j rule: block_length.induct) (auto simp: block_one block_Suc)

definition best_block :: "'a list \<Rightarrow> 'a list \<Rightarrow> lcs_match \<Rightarrow> bool" where
  "best_block A B m \<longleftrightarrow> block A B (m_i m + m_size m) (m_j m + m_size m) (m_size m)"

lemma match_steps_block:
  assumes "\<forall>(j, len) \<in> set prev. block A B i (Suc j) len" "\<forall>j \<in> set js. A ! i = B ! j"
    "\<forall>(j, len) \<in> set cur. block A B (Suc i) (Suc j) len" "best_block A B best"
    "foldl (match_step modified prev i) (best, cur) js = (best', cur')"
  shows "(\<forall>(j, len) \<in> set cur'. block A B (Suc i) (Suc j) len) \<and> best_block A B best'"
  using assms(2-)
proof (induction js arbitrary: best cur)
  case (Cons j js)
  obtain b1 c1 where s: "match_step modified prev i (best, cur) j = (b1, c1)" by (rule prod.exhaust)
  note r = match_step_result [OF s]
  have bl: "block A B (Suc i) (Suc j) (block_length prev j)"
    using block_length_block [OF assms(1)] Cons.prems(1) by simp
  then have le: "block_length prev j \<le> i + 1" "block_length prev j \<le> j + 1" by (simp_all add: block_def)
  have "best_block A B b1"
    using r(2)
  proof
    assume e: "m_i b1 = sz_sub (i + 1) (block_length prev j) \<and> m_j b1 = sz_sub (j + 1) (block_length prev j) \<and>
      m_size b1 = block_length prev j"
    then have "m_i b1 + m_size b1 = Suc i" "m_j b1 + m_size b1 = Suc j" using le by (simp_all add: sz_sub_le)
    then show ?thesis using bl e unfolding best_block_def by simp
  qed (use Cons.prems(3) in \<open>simp add: best_block_def\<close>)
  moreover have "\<forall>(j, len) \<in> set c1. block A B (Suc i) (Suc j) len" using r(1) bl Cons.prems(2) by auto
  ultimately show ?case using Cons.IH [of c1 b1] Cons.prems(1,4) s by simp
qed simp

lemma find_longest_match_block:
  assumes b: "b_rows B b" and e1: "end1 \<le> length a"
  shows "best_block (map l_row a) B (find_longest_match a b modified begin1 end1 begin2 end2)"
proof -
  let ?A = "map l_row a"
  let ?f = "\<lambda>(best, prev) i. foldl (match_step modified prev i) (best, []) (b_matches b (l_row (a ! i)) begin2 end2)"
  let ?s = "(\<lparr>m_i = begin1, m_j = begin2, m_size = 0, m_modified = 0\<rparr>, [])"
  have inv: "begin1 \<le> e \<Longrightarrow> e \<le> end1 \<Longrightarrow> foldl ?f ?s [begin1..<e] = (best, prev) \<Longrightarrow>
    best_block ?A B best \<and> (\<forall>(j, len) \<in> set prev. block ?A B e (Suc j) len)" for e best prev
  proof (induction e arbitrary: best prev rule: dec_induct)
    case base
    then show ?case by (auto simp: best_block_def block_def)
  next
    case (step e)
    obtain b1 p1 where s: "foldl ?f ?s [begin1..<e] = (b1, p1)" by (rule prod.exhaust)
    from step.IH [OF _ s] step.prems have IH: "best_block ?A B b1"
      "\<forall>(j, len) \<in> set p1. block ?A B e (Suc j) len" by auto
    have "foldl (match_step modified p1 e) (b1, []) (b_matches b (l_row (a ! e)) begin2 end2) = (best, prev)"
      using step.prems step.hyps s by simp
    moreover have "\<forall>j \<in> set (b_matches b (l_row (a ! e)) begin2 end2). ?A ! e = B ! j"
      using b_matches_row [OF b] step.prems(1) e1 by auto
    ultimately show ?case using match_steps_block [OF IH(2), of "b_matches b (l_row (a ! e)) begin2 end2" "[]" b1] IH(1)
      by auto
  qed
  obtain best prev where s: "foldl ?f ?s [begin1..<end1] = (best, prev)" by (rule prod.exhaust)
  show ?thesis
  proof (cases "begin1 \<le> end1")
    case True
    then show ?thesis using inv [OF True order_refl s] s by (simp add: find_longest_match_def)
  next
    case False
    then show ?thesis by (simp add: find_longest_match_def best_block_def block_def)
  qed
qed

subsection \<open>Chains of blocks\<close>

fun block_chain :: "'a list \<Rightarrow> 'a list \<Rightarrow> nat \<Rightarrow> nat \<Rightarrow> nat \<Rightarrow> nat \<Rightarrow> lcs_match list \<Rightarrow> bool" where
  "block_chain A B i j p q [] \<longleftrightarrow> i \<le> p \<and> j \<le> q"
| "block_chain A B i j p q (m # ms) \<longleftrightarrow> i \<le> m_i m \<and> j \<le> m_j m \<and>
     (\<forall>k < m_size m. A ! (m_i m + k) = B ! (m_j m + k)) \<and>
     block_chain A B (m_i m + m_size m) (m_j m + m_size m) p q ms"

lemma block_chain_append:
  "block_chain A B i j p q xs \<Longrightarrow> block_chain A B p q p' q' ys \<Longrightarrow> block_chain A B i j p' q' (xs @ ys)"
proof (induction xs arbitrary: i j)
  case Nil
  then show ?case by (cases ys) auto
qed simp

lemma best_block_chain:
  "best_block A B m \<Longrightarrow> i \<le> m_i m \<Longrightarrow> j \<le> m_j m \<Longrightarrow>
    block_chain A B i j (m_i m + m_size m) (m_j m + m_size m) [m]"
  by (auto simp: best_block_def block_def)

lemma find_longest_matches_chain:
  assumes "b_rows B b" "end1 \<le> length a" "begin1 \<le> end1" "begin2 \<le> end2"
  shows "block_chain (map l_row a) B begin1 begin2 end1 end2
    (find_longest_matches a b modified begin1 end1 begin2 end2)"
  using assms
proof (induction a b modified begin1 end1 begin2 end2 rule: find_longest_matches.induct)
  case (1 a b modified begin1 end1 begin2 end2)
  let ?A = "map l_row a"
  define m where "m = find_longest_match a b modified begin1 end1 begin2 end2"
  have r: "in_range begin1 end1 begin2 end2 (m_i m) (m_j m) (m_size m)"
    using find_longest_match_range m_def by blast
  have bb: "best_block ?A B m" using find_longest_match_block 1(3,4) m_def by blast
  show ?case
  proof (cases "m_size m = 0")
    case True
    then show ?thesis using 1(5,6) by (subst find_longest_matches.simps) (simp add: m_def [symmetric])
  next
    case False
    then have le: "begin1 \<le> m_i m" "begin2 \<le> m_j m" "m_i m + m_size m \<le> end1" "m_j m + m_size m \<le> end2"
      using r by (auto simp: in_range_def)
    let ?l = "if m_i m > begin1 \<and> m_j m > begin2 then find_longest_matches a b modified begin1 (m_i m) begin2 (m_j m) else []"
    let ?r = "if m_i m + m_size m < end2 \<and> m_j m + m_size m < end2
      then find_longest_matches a b modified (m_i m + m_size m) end1 (m_j m + m_size m) end2 else []"
    have "block_chain ?A B begin1 begin2 (m_i m) (m_j m) ?l"
      using 1(1) [OF m_def False] 1(3,4) le by auto
    moreover have "block_chain ?A B (m_i m + m_size m) (m_j m + m_size m) end1 end2 ?r"
      using 1(2) [OF m_def False] 1(3,4) le by auto
    moreover have "find_longest_matches a b modified begin1 end1 begin2 end2 = ?l @ [m] @ ?r"
      using False by (subst find_longest_matches.simps) (simp add: m_def [symmetric])
    moreover note best_block_chain [OF bb order_refl order_refl]
    ultimately show ?thesis by (simp only: block_chain_append)
  qed
qed

definition kept_i :: "lcs_match list \<Rightarrow> nat list" where
  "kept_i ms = concat (map (\<lambda>m. [m_i m..<m_i m + m_size m]) ms)"

definition kept_j :: "lcs_match list \<Rightarrow> nat list" where
  "kept_j ms = concat (map (\<lambda>m. [m_j m..<m_j m + m_size m]) ms)"

lemma chain_kept:
  "block_chain A B i j p q ms \<Longrightarrow> map ((!) A) (kept_i ms) = map ((!) B) (kept_j ms) \<and>
    sorted_wrt (<) (kept_i ms) \<and> sorted_wrt (<) (kept_j ms) \<and>
    set (kept_i ms) \<subseteq> {i..<p} \<and> set (kept_j ms) \<subseteq> {j..<q} \<and> i \<le> p \<and> j \<le> q"
proof (induction ms arbitrary: i j)
  case (Cons m ms)
  let ?i = "m_i m + m_size m" and ?j = "m_j m + m_size m"
  have c: "i \<le> m_i m" "j \<le> m_j m" "\<forall>k < m_size m. A ! (m_i m + k) = B ! (m_j m + k)" using Cons.prems by simp_all
  have "block_chain A B ?i ?j p q ms" using Cons.prems by simp
  note IH = Cons.IH [OF this]
  have "map ((!) A) [m_i m..<?i] = map ((!) B) [m_j m..<?j]"
    by (rule nth_equalityI) (use c(3) in auto)
  moreover have "set (kept_i ms) \<subseteq> {?i..<p}" "set (kept_j ms) \<subseteq> {?j..<q}" using IH by simp_all
  ultimately show ?case
    using IH c(1,2) by (auto simp: kept_i_def kept_j_def sorted_wrt_append)
qed (simp add: kept_i_def kept_j_def)

subsection \<open>Turning a chain into deletions and insertions\<close>

lemma foldl_add_correct:
  "vec_ok m \<Longrightarrow> vec_ok (foldl (\<lambda>d k. iset_add d (f k)) m ks) \<and>
    elems (foldl (\<lambda>d k. iset_add d (f k)) m ks) = elems m \<union> f ` set ks"
  by (induction ks arbitrary: m) (auto simp: add_correct)

lemma align_correct:
  assumes "block_chain A B i j p q ms" "vec_ok del" "vec_ok ins"
    "align a rws (ms @ [\<lparr>m_i = p, m_j = q, m_size = 0, m_modified = 0\<rparr>]) i j del ins = (del', ins')"
  shows "vec_ok del' \<and> vec_ok ins' \<and>
    elems del' = elems del \<union> (\<lambda>k. l_tv (a ! k)) ` ({i..<p} - set (kept_i ms)) \<and>
    elems ins' = elems ins \<union> (\<lambda>k. tv_index (rws ! k)) ` ({j..<q} - set (kept_j ms))"
  using assms
proof (induction ms arbitrary: i j del ins)
  case Nil
  then show ?case by (auto simp: foldl_add_correct kept_i_def kept_j_def)
next
  case (Cons m ms)
  let ?i = "m_i m + m_size m" and ?j = "m_j m + m_size m"
  let ?d = "foldl (\<lambda>d k. iset_add d (l_tv (a ! k))) del [i..<m_i m]"
  let ?s = "foldl (\<lambda>s k. iset_add s (tv_index (rws ! k))) ins [j..<m_j m]"
  have c: "i \<le> m_i m" "j \<le> m_j m" "block_chain A B ?i ?j p q ms" using Cons.prems(1) by simp_all
  have d: "vec_ok ?d \<and> elems ?d = elems del \<union> (\<lambda>k. l_tv (a ! k)) ` set [i..<m_i m]"
    by (rule foldl_add_correct [OF Cons.prems(2)])
  have s: "vec_ok ?s \<and> elems ?s = elems ins \<union> (\<lambda>k. tv_index (rws ! k)) ` set [j..<m_j m]"
    by (rule foldl_add_correct [OF Cons.prems(3)])
  have "align a rws (ms @ [\<lparr>m_i = p, m_j = q, m_size = 0, m_modified = 0\<rparr>]) ?i ?j ?d ?s = (del', ins')"
    using Cons.prems(4) c by (simp add: max_absorb2)
  note IH = Cons.IH [OF c(3) conjunct1 [OF d] conjunct1 [OF s] this]
  note k = chain_kept [OF c(3)]
  have "{i..<p} - set (kept_i (m # ms)) = {i..<m_i m} \<union> ({?i..<p} - set (kept_i ms))"
    using c k by (auto simp: kept_i_def)
  moreover have "{j..<q} - set (kept_j (m # ms)) = {j..<m_j m} \<union> ({?j..<q} - set (kept_j ms))"
    using c k by (auto simp: kept_j_def)
  ultimately show ?case using IH d s by (simp add: image_Un Un_assoc)
qed

lemma sort_fst_strict:
  assumes "distinct (map fst xs)"
  shows "sorted_wrt (<) (map fst (sort (xs :: (nat \<times> nat) list)))"
proof -
  have "sorted (map fst (sort xs))"
    unfolding sorted_wrt_map
    by (rule sorted_wrt_mono_rel [OF _ sorted_sort [of xs]]) (auto simp: less_eq_prod_def)
  moreover have "distinct (map fst (sort xs))"
    using assms by (simp add: distinct_map) 
  ultimately show ?thesis by (simp add: strict_sorted_iff)
qed

text \<open>The rows that the two versions share, ready to be aligned.\<close>

definition shared_rows :: "nat list \<Rightarrow> nat list \<Rightarrow> row_info list \<Rightarrow> bool" where
  "shared_rows old new rws \<longleftrightarrow> distinct (map prev_tv_index rws) \<and> sorted_wrt (<) (map tv_index rws) \<and>
     (\<forall>r \<in> set rws. prev_tv_index r < length old \<and> tv_index r < length new \<and>
        old ! prev_tv_index r = row_index r \<and> new ! tv_index r = row_index r)"

lemma lcs_a_facts:
  assumes "shared_rows old new rws"
  shows "length (lcs_a rws) = length rws" "sorted_wrt (<) (map l_tv (lcs_a rws))"
    "l_tv ` set (lcs_a rws) = prev_tv_index ` set rws" "\<forall>r \<in> set (lcs_a rws). old ! l_tv r = l_row r"
proof -
  let ?xs = "map (\<lambda>row. (prev_tv_index row, row_index row)) rws"
  have d: "distinct (map fst ?xs)" using assms by (simp add: shared_rows_def comp_def)
  have m: "map l_tv (lcs_a rws) = map fst (sort ?xs)"
    by (simp add: lcs_a_def comp_def split_beta)
  show "length (lcs_a rws) = length rws" by (simp add: lcs_a_def)
  show "sorted_wrt (<) (map l_tv (lcs_a rws))" unfolding m by (rule sort_fst_strict [OF d])
  show "l_tv ` set (lcs_a rws) = prev_tv_index ` set rws" by (force simp: lcs_a_def)
  show "\<forall>r \<in> set (lcs_a rws). old ! l_tv r = l_row r" using assms by (auto simp: lcs_a_def shared_rows_def)
qed

lemma lcs_b_rows: "b_rows (map row_index rws) (lcs_b rws)" "length (lcs_b rws) = length rws"
  by (auto simp: b_rows_def lcs_b_def)

lemma sorted_wrt_picks:
  "sorted_wrt (<) xs \<Longrightarrow> sorted_wrt (<) ks \<Longrightarrow> set ks \<subseteq> {..<length xs} \<Longrightarrow>
    sorted_wrt (<) (map (\<lambda>k. xs ! k) (ks :: nat list))" for xs :: "nat list"
  unfolding sorted_wrt_map
  by (rule sorted_wrt_mono_rel [of _ "(<)"]) (auto simp: sorted_wrt_iff_nth_less subset_iff)

lemma picks_set: "inj_on f {..<n} \<Longrightarrow> K \<subseteq> {..<n} \<Longrightarrow> f ` ({..<n} - K) = f ` {..<n} - f ` K"
  by (auto simp: inj_on_def)

lemma strict_nth_inj: "sorted_wrt (<) xs \<Longrightarrow> inj_on ((!) xs) {..<length xs}" for xs :: "nat list"
  using strict_sorted_iff inj_on_nth by (metis lessThan_iff)

lemma calculate_moves_sorted_correct:
  assumes sh: "shared_rows old new rws" and v: "vec_ok (deletions c)" "vec_ok (insertions c)"
  obtains ss ts where "sorted_wrt (<) ss" "sorted_wrt (<) ts" "map ((!) old) ss = map ((!) new) ts"
    "set ss \<subseteq> prev_tv_index ` set rws" "set ts \<subseteq> tv_index ` set rws"
    "vec_ok (deletions (calculate_moves_sorted rws c))" "vec_ok (insertions (calculate_moves_sorted rws c))"
    "elems (deletions (calculate_moves_sorted rws c)) = elems (deletions c) \<union> (prev_tv_index ` set rws - set ss)"
    "elems (insertions (calculate_moves_sorted rws c)) = elems (insertions c) \<union> (tv_index ` set rws - set ts)"
proof -
  let ?a = "lcs_a rws" and ?A = "map l_row (lcs_a rws)" and ?B = "map row_index rws" and ?n = "length rws"
  note A = lcs_a_facts [OF sh]
  define f where "f = find_if (\<lambda>(x, y). l_row x \<noteq> row_index y) (zip ?a rws)"
  define ms where "ms = (if f = ?n then [] else
    find_longest_matches ?a (lcs_b rws) (modifications c) f ?n f ?n)"
  have fn: "f \<le> ?n" using find_if_le [of "\<lambda>(x, y). l_row x \<noteq> row_index y" "zip ?a rws"] A(1) by (simp add: f_def)
  have same: "?A ! k = ?B ! k" if "k < f" for k
    using find_if_before [OF that [unfolded f_def]] that fn A(1) by simp
  have ch: "block_chain ?A ?B f f ?n ?n ms"
    using find_longest_matches_chain [OF lcs_b_rows(1) [of rws], of ?n ?a f f ?n "modifications c"] fn A(1) by (simp add: ms_def)
  note K = chain_kept [OF ch]
  define ki kj where "ki = [0..<f] @ kept_i ms" and "kj = [0..<f] @ kept_j ms"
  have ks: "sorted_wrt (<) ki" "sorted_wrt (<) kj" "set ki \<subseteq> {..<?n}" "set kj \<subseteq> {..<?n}"
    "{f..<?n} - set (kept_i ms) = {..<?n} - set ki" "{f..<?n} - set (kept_j ms) = {..<?n} - set kj"
    using K fn by (auto simp: ki_def kj_def sorted_wrt_append)
  have AB: "map ((!) ?A) ki = map ((!) ?B) kj" using K same by (simp add: ki_def kj_def)
  define ss ts where "ss = map (\<lambda>k. map l_tv ?a ! k) ki" and "ts = map (\<lambda>k. map tv_index rws ! k) kj"
  have st: "sorted_wrt (<) (map tv_index rws)" using sh by (simp add: shared_rows_def)
  have sets: "set ss = (\<lambda>k. l_tv (?a ! k)) ` set ki" "set ts = (\<lambda>k. tv_index (rws ! k)) ` set kj"
    using ks(3,4) A(1) by (auto simp: ss_def ts_def intro!: image_eqI)
  have all: "(\<lambda>k. l_tv (?a ! k)) ` {..<?n} = prev_tv_index ` set rws" "(\<lambda>k. tv_index (rws ! k)) ` {..<?n} = tv_index ` set rws"
    using A(1,3) by (auto simp: set_conv_nth image_def) blast+
  show thesis
  proof (rule that [of ss ts])
    show "sorted_wrt (<) ss" "sorted_wrt (<) ts"
      unfolding ss_def ts_def using sorted_wrt_picks [OF A(2) ks(1)] sorted_wrt_picks [OF st ks(2)] ks A(1) by simp_all
    have "map ((!) old) ss = map ((!) ?A) ki"
      using ks(3) A(1,4) by (auto simp: ss_def)
    moreover have "map ((!) new) ts = map ((!) ?B) kj"
      using ks(4) sh by (auto simp: ts_def shared_rows_def)
    ultimately show "map ((!) old) ss = map ((!) new) ts" using AB by simp
    show "set ss \<subseteq> prev_tv_index ` set rws" "set ts \<subseteq> tv_index ` set rws"
      unfolding sets all [symmetric] using ks(3,4) by (intro image_mono; simp)+
    have inj: "inj_on (\<lambda>k. l_tv (?a ! k)) {..<?n}" "inj_on (\<lambda>k. tv_index (rws ! k)) {..<?n}"
      using strict_nth_inj [OF A(2)] strict_nth_inj [OF st] A(1) by (auto simp: inj_on_def)
    have al: "align ?a rws (ms @ [\<lparr>m_i = ?n, m_j = ?n, m_size = 0, m_modified = 0\<rparr>]) f f (deletions c) (insertions c) =
        (deletions (calculate_moves_sorted rws c), insertions (calculate_moves_sorted rws c))"
      using A(1) lcs_b_rows(2)
      by (auto simp: calculate_moves_sorted_def f_def [symmetric] ms_def longest_matches_def Let_def split: prod.splits)
    note r = align_correct [OF ch v al]
    then show "vec_ok (deletions (calculate_moves_sorted rws c))" "vec_ok (insertions (calculate_moves_sorted rws c))"
      by simp_all
    show "elems (deletions (calculate_moves_sorted rws c)) = elems (deletions c) \<union> (prev_tv_index ` set rws - set ss)"
      using r picks_set [OF inj(1) ks(3)] sets all ks(5) by simp
    show "elems (insertions (calculate_moves_sorted rws c)) = elems (insertions c) \<union> (tv_index ` set rws - set ts)"
      using r picks_set [OF inj(2) ks(4)] sets all ks(6) by simp
  qed
qed

subsection \<open>Pairing old and new rows\<close>

lemma collect_old_correct:
  assumes "vec_ok del" "collect_old ps i deleted del = (rws, del')"
  shows "vec_ok del' \<and> elems del' = elems del \<union> {k. i \<le> k \<and> k < i + length ps \<and> ps ! (k - i) = npos} \<and>
    tv_index ` set rws = {k. i \<le> k \<and> k < i + length ps \<and> ps ! (k - i) \<noteq> npos} \<and>
    distinct (map tv_index rws) \<and> (\<forall>r \<in> set rws. row_index r = ps ! (tv_index r - i))"
  using assms
proof (induction ps i deleted del arbitrary: rws rule: collect_old.induct)
  case (2 p ps i deleted del)
  have step: "{k. i \<le> k \<and> k < i + length (p # ps) \<and> Q ((p # ps) ! (k - i))} =
      (if Q p then {i} else {}) \<union> {k. i + 1 \<le> k \<and> k < i + 1 + length ps \<and> Q (ps ! (k - (i + 1)))}" for Q
  proof (rule set_eqI)
    fix k
    show "k \<in> {k. i \<le> k \<and> k < i + length (p # ps) \<and> Q ((p # ps) ! (k - i))} \<longleftrightarrow>
      k \<in> (if Q p then {i} else {}) \<union> {k. i + 1 \<le> k \<and> k < i + 1 + length ps \<and> Q (ps ! (k - (i + 1)))}"
      by (cases k i rule: linorder_cases) (auto simp: nth_Cons')
  qed
  note st = step [of "\<lambda>x. x = npos"] step [of "\<lambda>x. x \<noteq> npos"]
  let ?S = "{k. i + 1 \<le> k \<and> k < i + 1 + length ps \<and> ps ! (k - (i + 1)) \<noteq> npos}"
  have rows: "\<forall>x \<in> set rs. i + 1 \<le> tv_index x \<and> row_index x = (p # ps) ! (tv_index x - i)"
    if "tv_index ` set rs = ?S" "\<forall>r \<in> set rs. row_index r = ps ! (tv_index r - (i + 1))" for rs :: "row_info list"
  proof
    fix x assume x: "x \<in> set rs"
    then have "i + 1 \<le> tv_index x" using that(1) by (metis (no_types, lifting) imageI mem_Collect_eq)
    then show "i + 1 \<le> tv_index x \<and> row_index x = (p # ps) ! (tv_index x - i)"
      using that(2) x by (simp add: nth_Cons')
  qed
  show ?case
  proof (cases "p = npos")
    case True
    have v: "vec_ok (iset_add del i)" using 2(3) by (simp add: add_correct)
    have "collect_old ps (i + 1) (deleted + 1) (iset_add del i) = (rws, del')" using 2(4) True by simp
    note IH = 2(1) [OF True v this]
    show ?thesis unfolding st using IH rows [of rws] True by (simp add: add_correct(2) [OF 2(3)])
  next
    case False
    obtain rs where r: "collect_old ps (i + 1) deleted del = (rs, del')"
      "rws = \<lparr>row_index = p, prev_tv_index = npos, tv_index = i, shifted_tv_index = i - deleted\<rparr> # rs"
      using 2(4) False by (auto split: prod.splits)
    note IH = 2(2) [OF False 2(3) r(1)]
    have "\<forall>x \<in> set rs. i + 1 \<le> tv_index x \<and> row_index x = (p # ps) ! (tv_index x - i)"
      using rows [of rs] IH by simp
    moreover from this have "i \<notin> tv_index ` set rs" by fastforce
    ultimately show ?thesis unfolding st using IH False r(2) by simp
  qed
qed auto

lemma match_rows_correct:
  assumes "vec_ok removed" "vec_ok ins" "\<forall>n \<in> set new. prev_tv_index n = npos" "\<forall>r \<in> set old. tv_index r \<noteq> npos"
    "match_rows old new removed ins = (rws, removed', ins')"
  shows "vec_ok removed' \<and> vec_ok ins' \<and> map tv_index rws = map tv_index new \<and>
    map row_index rws = map row_index new \<and>
    elems ins' = elems ins \<union> tv_index ` set (filter (\<lambda>r. prev_tv_index r = npos) rws) \<and>
    (\<exists>R. mset (map prev_tv_index (filter (\<lambda>r. prev_tv_index r \<noteq> npos) rws)) + R = mset (map tv_index old) \<and>
         elems removed' = elems removed \<union> set_mset R) \<and>
    (\<forall>r \<in> set rws. prev_tv_index r \<noteq> npos \<longrightarrow>
       (\<exists>q \<in> set old. tv_index q = prev_tv_index r \<and> row_index q = row_index r))"
  using assms
proof (induction old new removed ins arbitrary: rws rule: match_rows.induct)
  case (1 r old n new removed ins)
  consider "row_index r = row_index n" | "row_index r \<noteq> row_index n" "row_index r < row_index n"
    | "row_index r \<noteq> row_index n" "\<not> row_index r < row_index n" by blast
  then show ?case
  proof cases
    case 1
    obtain rs where rs: "match_rows old new removed ins = (rs, removed', ins')"
      "rws = n\<lparr>prev_tv_index := tv_index r, shifted_tv_index := shifted_tv_index r\<rparr> # rs"
      using "1.prems"(5) 1 by (auto split: prod.splits)
    from "1.IH"(1) [OF 1 "1.prems"(1,2) _ _ rs(1)] "1.prems"(3,4) rs(2) 1 show ?thesis
      by (clarsimp simp: image_iff)
  next
    case 2
    have "match_rows old (n # new) (iset_add removed (tv_index r)) ins = (rws, removed', ins')"
      using "1.prems"(5) 2 by simp
    from "1.IH"(2) [OF 2 _ "1.prems"(2,3) _ this] "1.prems"(1,4) add_correct [OF "1.prems"(1)]
    obtain R where R: "mset (map prev_tv_index (filter (\<lambda>r. prev_tv_index r \<noteq> npos) rws)) + R = mset (map tv_index old)"
      "elems removed' = insert (tv_index r) (elems removed) \<union> set_mset R"
      and rest: "vec_ok removed' \<and> vec_ok ins' \<and> map tv_index rws = map tv_index (n # new) \<and>
        map row_index rws = map row_index (n # new) \<and>
        elems ins' = elems ins \<union> tv_index ` set (filter (\<lambda>r. prev_tv_index r = npos) rws) \<and>
        (\<forall>r \<in> set rws. prev_tv_index r \<noteq> npos \<longrightarrow>
          (\<exists>q \<in> set old. tv_index q = prev_tv_index r \<and> row_index q = row_index r))"
      by auto
    have "mset (map prev_tv_index (filter (\<lambda>r. prev_tv_index r \<noteq> npos) rws)) + add_mset (tv_index r) R =
        mset (map tv_index (r # old))" using R(1) by simp
    moreover have "elems removed' = elems removed \<union> set_mset (add_mset (tv_index r) R)" using R(2) by auto
    ultimately have "\<exists>R. mset (map prev_tv_index (filter (\<lambda>r. prev_tv_index r \<noteq> npos) rws)) + R =
        mset (map tv_index (r # old)) \<and> elems removed' = elems removed \<union> set_mset R" by blast
    moreover have "\<forall>r' \<in> set rws. prev_tv_index r' \<noteq> npos \<longrightarrow>
        (\<exists>q \<in> set (r # old). tv_index q = prev_tv_index r' \<and> row_index q = row_index r')" using rest by auto
    ultimately show ?thesis using rest by blast
  next
    case 3
    obtain rs where rs: "match_rows (r # old) new removed (iset_add ins (tv_index n)) = (rs, removed', ins')"
      "rws = n # rs"
      using "1.prems"(5) 3 by (auto split: prod.splits)
    have v: "vec_ok (iset_add ins (tv_index n))" and n: "prev_tv_index n = npos" "\<forall>n \<in> set new. prev_tv_index n = npos"
      using add_correct [OF "1.prems"(2)] "1.prems"(3) by simp_all
    note IH = "1.IH"(3) [OF 3 "1.prems"(1) v n(2) "1.prems"(4) rs(1)]
    show ?thesis unfolding rs(2) using IH n(1) add_correct(2) [OF "1.prems"(2)] by simp
  qed
next
  case (2 old removed ins)
  have "vec_ok removed' \<and> elems removed' = elems removed \<union> tv_index ` set old"
    using foldl_add_correct [OF 2(1), of tv_index old] 2(5) by auto
  moreover from this have "\<exists>R. mset (map prev_tv_index []) + R = mset (map tv_index old) \<and>
      elems removed' = elems removed \<union> set_mset R"
    by (intro exI [of _ "mset (map tv_index old)"]) simp
  moreover have "rws = []" "ins' = ins" using 2(5) by simp_all
  ultimately show ?case using 2(2) by simp
next
  case (3 v va removed ins)
  have "vec_ok ins' \<and> elems ins' = elems ins \<union> tv_index ` set (v # va)"
    using foldl_add_correct [OF 3(2), of tv_index "v # va"] 3(5) by auto
  moreover have "filter (\<lambda>r. prev_tv_index r \<noteq> npos) (v # va) = []" "filter (\<lambda>r. prev_tv_index r = npos) (v # va) = v # va"
    using 3(3) by (auto simp: filter_empty_conv intro: filter_True)
  moreover have "rws = v # va" "removed' = removed" using 3(5) by simp_all
  ultimately show ?case using 3(1,3) by simp
qed

subsection \<open>The whole comparison\<close>

lemma mset_split_distinct:
  assumes "mset xs + R = mset ys" "distinct ys"
  shows "distinct xs \<and> set xs \<inter> set_mset R = {} \<and> set xs \<union> set_mset R = set ys"
proof -
  obtain zs where "mset zs = R" using ex_mset by blast
  then have m: "mset (xs @ zs) = mset ys" "set_mset R = set zs" using assms(1) by auto
  then have "distinct (xs @ zs)" using assms(2) mset_eq_imp_distinct_iff by blast
  then show ?thesis using m mset_eq_setD [OF m(1)] by auto
qed

lemma sort_key_strict:
  "distinct (map f xs) \<Longrightarrow> sorted_wrt (<) (map f (sort_key f xs))" for f :: "'a \<Rightarrow> nat"
  by (simp add: strict_sorted_iff distinct_map)

lemma mark_changed_correct:
  "vec_ok m \<Longrightarrow> vec_ok (foldl (\<lambda>s r. if p (row_index r) then iset_add s (tv_index r) else s) m rws) \<and>
    elems (foldl (\<lambda>s r. if p (row_index r) then iset_add s (tv_index r) else s) m rws) =
      elems m \<union> tv_index ` {r \<in> set rws. p (row_index r)}"
  by (induction rws arbitrary: m) (auto simp: add_correct)

lemma empty_set_ok [simp]: "vec_ok []" "elems [] = {}"
  by (simp_all add: vec_ok_def elems_def)

text \<open>The state of \<open>calculate\<close> before the moves are looked for.\<close>

definition compared ::
  "nat list \<Rightarrow> nat list \<Rightarrow> row_info list \<Rightarrow> chunks \<Rightarrow> chunks \<Rightarrow> chunks \<Rightarrow> bool" where
  "compared old new rws del removed ins \<longleftrightarrow> shared_rows old new rws \<and>
     vec_ok del \<and> vec_ok removed \<and> vec_ok ins \<and>
     elems del \<union> elems removed = {..<length old} - prev_tv_index ` set rws \<and>
     elems ins = {..<length new} - tv_index ` set rws"

lemma compared_start:
  assumes "collect_old old 0 0 [] = (old_rows, del)" "length old \<le> npos"
    "match_rows (sort_key row_index old_rows) (sort_key row_index (map (\<lambda>i. \<lparr>row_index = new ! i,
        prev_tv_index = npos, tv_index = i, shifted_tv_index = 0\<rparr>) [0..<length new])) [] [] = (rws, removed, ins)"
  shows "compared old new (sort_key tv_index (filter (\<lambda>r. prev_tv_index r \<noteq> npos) rws)) del removed ins"
proof -
  let ?new = "sort_key row_index (map (\<lambda>i. \<lparr>row_index = new ! i,
        prev_tv_index = npos, tv_index = i, shifted_tv_index = 0\<rparr>) [0..<length new])"
  let ?K = "filter (\<lambda>r. prev_tv_index r \<noteq> npos) rws"
  have o: "vec_ok del" "elems del = {k. k < length old \<and> old ! k = npos}"
    "tv_index ` set old_rows = {k. k < length old \<and> old ! k \<noteq> npos}" "distinct (map tv_index old_rows)"
    "\<forall>r \<in> set old_rows. row_index r = old ! tv_index r"
    using collect_old_correct [OF _ assms(1)] by simp_all
  have lt: "tv_index r < length old" if "r \<in> set old_rows" for r
    using o(3) that by (metis (no_types, lifting) imageI mem_Collect_eq)
  have old: "\<forall>r \<in> set (sort_key row_index old_rows). tv_index r \<noteq> npos" using lt assms(2) by fastforce
  have new: "\<forall>n \<in> set ?new. prev_tv_index n = npos" "distinct (map tv_index ?new)" "tv_index ` set ?new = {..<length new}"
    "\<forall>n \<in> set ?new. row_index n = new ! tv_index n"
    by (auto simp: distinct_map inj_on_def image_image atLeast0LessThan)
  note m = match_rows_correct [OF _ _ new(1) old assms(3), simplified]
  have tvs: "map tv_index rws = map tv_index ?new" "map row_index rws = map row_index ?new" using m by simp_all
  obtain R where R: "mset (map prev_tv_index ?K) + R = mset (map tv_index (sort_key row_index old_rows))" "elems removed = set_mset R"
    using m by auto
  have d: "distinct (map tv_index (sort_key row_index old_rows))" using o(4) by (simp add: distinct_map)
  note P = mset_split_distinct [OF R(1) d]
  have dk: "distinct (map tv_index rws)" using tvs(1) new(2) by simp
  have all: "tv_index ` set rws = {..<length new}" using tvs(1) new(3) by (metis list.set_map)
  have row: "row_index r = new ! tv_index r" if "r \<in> set rws" for r
  proof -
    obtain k where k: "k < length rws" "r = rws ! k" using \<open>r \<in> set rws\<close> by (auto simp: in_set_conv_nth)
    then have l: "k < length ?new" using map_eq_imp_length_eq [OF tvs(1)] by simp
    then have "row_index (?new ! k) = new ! tv_index (?new ! k)" using new(4) nth_mem by blast
    then show ?thesis using arg_cong [OF tvs(1), of "\<lambda>l. l ! k"] arg_cong [OF tvs(2), of "\<lambda>l. l ! k"] k l by simp
  qed
  have "shared_rows old new (sort_key tv_index ?K)"
    unfolding shared_rows_def
  proof (intro conjI ballI)
    show "distinct (map prev_tv_index (sort_key tv_index ?K))" using P by (simp add: distinct_map)
    show "sorted_wrt (<) (map tv_index (sort_key tv_index ?K))"
      by (rule sort_key_strict) (rule distinct_map_filter [OF dk])
    fix r assume "r \<in> set (sort_key tv_index ?K)"
    then have r: "r \<in> set rws" "prev_tv_index r \<noteq> npos" by auto
    then obtain q where q: "q \<in> set old_rows" "tv_index q = prev_tv_index r" "row_index q = row_index r" using m by auto
    show "prev_tv_index r < length old" "old ! prev_tv_index r = row_index r"
      using lt [OF q(1)] q o(5) by auto
    show "tv_index r < length new" using r(1) all by blast
    show "new ! tv_index r = row_index r" using row [OF r(1)] by simp
  qed
  moreover have "elems del \<union> elems removed = {..<length old} - prev_tv_index ` set (sort_key tv_index ?K)"
  proof -
    have "prev_tv_index ` set ?K \<union> set_mset R = {k. k < length old \<and> old ! k \<noteq> npos}" "prev_tv_index ` set ?K \<inter> set_mset R = {}"
      using P o(3) by auto
    then show ?thesis using o(2) R(2) by auto
  qed
  moreover have "elems ins = {..<length new} - tv_index ` set (sort_key tv_index ?K)"
  proof -
    have e: "elems ins = tv_index ` set (filter (\<lambda>r. prev_tv_index r = npos) rws)" using m by simp
    have i: "inj_on tv_index (set rws)" using dk by (simp add: distinct_map)
    have "tv_index ` {r \<in> set rws. prev_tv_index r = npos} = tv_index ` set rws - tv_index ` {r \<in> set rws. prev_tv_index r \<noteq> npos}"
      using i by (auto simp: inj_on_def)
    then show ?thesis using e all by simp
  qed
  ultimately show ?thesis using o(1) m by (simp add: compared_def)
qed

lemma calculate_correct:
  assumes "length old \<le> npos"
  shows "sets_ok (calculate old new p None)"
    and "edit (elems (deletions (calculate old new p None))) (elems (insertions (calculate old new p None))) old new"
    and "\<forall>j \<in> elems (modifications (calculate old new p None)). j < length new \<and> p (new ! j)"
    and "\<forall>j < length new. j \<notin> elems (insertions (calculate old new p None)) \<and> p (new ! j) \<longrightarrow>
      j \<in> elems (modifications (calculate old new p None))"
proof -
  let ?c = "calculate old new p None"
  let ?new = "sort_key row_index (map (\<lambda>i. \<lparr>row_index = new ! i,
        prev_tv_index = npos, tv_index = i, shifted_tv_index = 0\<rparr>) [0..<length new])"
  obtain old_rows del where o: "collect_old old 0 0 [] = (old_rows, del)" by (rule prod.exhaust)
  obtain rws0 removed ins where m: "match_rows (sort_key row_index old_rows) ?new [] [] = (rws0, removed, ins)"
    by (rule prod_cases3)
  define rws where "rws = sort_key tv_index (filter (\<lambda>r. prev_tv_index r \<noteq> npos) rws0)"
  define mods where "mods = foldl (\<lambda>s r. if p (row_index r) then iset_add s (tv_index r) else s) [] rws"
  define ret where "ret = empty_builder\<lparr>deletions := del, insertions := ins, modifications := mods\<rparr>"
  have st: "compared old new rws del removed ins" using compared_start [OF o assms m] by (simp add: rws_def)
  have sh: "shared_rows old new rws" and v: "vec_ok (deletions ret)" "vec_ok (insertions ret)" "vec_ok removed"
    using st by (auto simp: compared_def ret_def)
  obtain ss ts where r: "sorted_wrt (<) ss" "sorted_wrt (<) ts" "map ((!) old) ss = map ((!) new) ts"
    "set ss \<subseteq> prev_tv_index ` set rws" "set ts \<subseteq> tv_index ` set rws"
    "vec_ok (deletions (calculate_moves_sorted rws ret))" "vec_ok (insertions (calculate_moves_sorted rws ret))"
    "elems (deletions (calculate_moves_sorted rws ret)) = elems (deletions ret) \<union> (prev_tv_index ` set rws - set ss)"
    "elems (insertions (calculate_moves_sorted rws ret)) = elems (insertions ret) \<union> (tv_index ` set rws - set ts)"
    by (rule calculate_moves_sorted_correct [OF sh v(1,2)])
  have c: "?c = (calculate_moves_sorted rws ret)\<lparr>deletions := iset_add_set (deletions (calculate_moves_sorted rws ret)) removed\<rparr>"
    using o m by (simp add: calculate_def rws_def mods_def ret_def Let_def)
  have same: "modifications (calculate_moves_sorted rws ret) = mods" "columns (calculate_moves_sorted rws ret) = []"
    by (auto simp: calculate_moves_sorted_def ret_def empty_builder_def new_builder_def Let_def split: prod.splits)
  have md: "vec_ok mods \<and> elems mods = tv_index ` {r \<in> set rws. p (row_index r)}"
    using mark_changed_correct [of "[]" p rws] by (simp add: mods_def)
  have D: "elems (deletions ?c) = elems del \<union> elems removed \<union> (prev_tv_index ` set rws - set ss)"
    "vec_ok (deletions ?c)"
    using add_set_correct [OF r(6) v(3)] r(8) c by (auto simp: ret_def)
  have I: "elems (insertions ?c) = elems ins \<union> (tv_index ` set rws - set ts)" using r(9) c by (simp add: ret_def)
  have bounds: "prev_tv_index ` set rws \<subseteq> {..<length old}" "tv_index ` set rws \<subseteq> {..<length new}"
    using sh by (auto simp: shared_rows_def)
  show "sets_ok ?c" using D(2) r(7) md same by (simp add: sets_ok_def c)
  have eq: "elems (deletions ?c) = {..<length old} - set ss" "elems (insertions ?c) = {..<length new} - set ts"
    using D(1) I st r(4,5) bounds by (auto simp: compared_def)
  have sub: "set ss \<subseteq> {..<length old}" "set ts \<subseteq> {..<length new}" using r(4,5) bounds by auto
  show "edit (elems (deletions ?c)) (elems (insertions ?c)) old new"
    by (rule edit_kept [OF r(1,2,3)]) (use eq sub in auto)
  have row: "\<forall>r \<in> set rws. tv_index r < length new \<and> new ! tv_index r = row_index r" using sh by (simp add: shared_rows_def)
  show "\<forall>j \<in> elems (modifications ?c). j < length new \<and> p (new ! j)"
    using md same row by (auto simp: c)
  show "\<forall>j < length new. j \<notin> elems (insertions ?c) \<and> p (new ! j) \<longrightarrow> j \<in> elems (modifications ?c)"
  proof (intro allI impI)
    fix j assume j: "j < length new" "j \<notin> elems (insertions ?c) \<and> p (new ! j)"
    then have "j \<in> set ts" using eq by auto
    then obtain q where "q \<in> set rws" "tv_index q = j" using r(5) by auto
    then show "j \<in> elems (modifications ?c)" using md same row j by (auto simp: c)
  qed
qed

end
