(* ===== verification/Change_Rows.thy ===== *)
theory Change_Rows
  imports Change_Calculate
begin

section \<open>Recording the operations on a table, and handing the change set over\<close>

text \<open>
  The operations with the semantics of table rows: rows are appended, a deleted row is
  replaced by the last one (\<open>move_over\<close>), two rows are swapped; \<open>parse_complete\<close> then turns
  the recorded mapping into moves. A row that is not an insertion keeps its number, which the
  invariant \<open>row_edit\<close> says. The last part is about \<open>finalize\<close> and about the moves that the
  comparison of unsorted results reports.
\<close>

definition row_edit :: "nat set \<Rightarrow> nat set \<Rightarrow> 'a list \<Rightarrow> 'a list \<Rightarrow> bool" where
  "row_edit D I old new \<longleftrightarrow> I \<subseteq> {..<length new} \<and>
     D = {k. k < length old \<and> (length new \<le> k \<or> k \<in> I)} \<and>
     (\<forall>k < length new. k \<notin> I \<longrightarrow> k < length old \<and> old ! k = new ! k)"

definition mapping_ok :: "(nat \<times> nat) list \<Rightarrow> nat set \<Rightarrow> nat set \<Rightarrow> 'a list \<Rightarrow> 'a list \<Rightarrow> bool" where
  "mapping_ok mm D I old new \<longleftrightarrow> distinct (map fst mm) \<and>
     (\<forall>k k' v. map_of mm k = Some v \<and> map_of mm k' = Some v \<longrightarrow> k = k') \<and>
     (\<forall>k v. map_of mm k = Some v \<longrightarrow> k \<in> I \<and> v \<in> D \<and> old ! v = new ! k)"

definition row_tracked :: "change_builder \<Rightarrow> 'a list \<Rightarrow> 'a list \<Rightarrow> bool list \<Rightarrow> bool" where
  "row_tracked c old new fs \<longleftrightarrow> sets_ok c \<and>
     row_edit (elems (deletions c)) (elems (insertions c)) old new \<and>
     mapping_ok (move_mapping c) (elems (deletions c)) (elems (insertions c)) old new \<and>
     moves c = [] \<and> length fs = length new \<and> elems (modifications c) = marked fs"

lemma rank_cong: "(\<And>k. k < j \<Longrightarrow> k \<in> A \<longleftrightarrow> k \<in> B) \<Longrightarrow> rank A j = rank B j"
  unfolding rank_def by (rule arg_cong [where f = card]) auto

lemma row_edit_rank:
  "row_edit D I old new \<Longrightarrow> j \<le> length old \<Longrightarrow> j \<le> length new \<Longrightarrow> rank D j = rank I j"
  by (rule rank_cong) (auto simp: row_edit_def)

lemma row_edit_edit:
  assumes "row_edit D I old new"
  shows "edit D I old new"
proof -
  let ?ss = "filter (\<lambda>k. k \<notin> I) [0..<length new]"
  have k: "\<forall>k < length new. k \<notin> I \<longrightarrow> k < length old \<and> old ! k = new ! k" using assms by (simp add: row_edit_def)
  show ?thesis
  proof (rule edit_kept [of ?ss ?ss])
    show "sorted_wrt (<) ?ss" by (rule sorted_wrt_filter) simp
    then show "sorted_wrt (<) ?ss" .
    show "map ((!) old) ?ss = map ((!) new) ?ss" using k by simp
    show "set ?ss = {..<length old} - D" using k assms by (auto simp: row_edit_def)
    show "set ?ss = {..<length new} - I" by auto
    show "D \<subseteq> {..<length old}" "I \<subseteq> {..<length new}" using assms by (auto simp: row_edit_def)
  qed
qed

text \<open>The row that \<open>deletions.add_shifted(insertions.unshift(i))\<close> marks as deleted is \<open>i\<close>.\<close>

lemma add_unshifted:
  assumes "vec_ok del" "vec_ok ins" "rank (elems del) i = rank (elems ins) i" "i \<notin> elems del"
    "add_shifted del (iset_unshift ins i) = (del', k)"
  shows "k = i \<and> vec_ok del' \<and> elems del' = insert i (elems del)"
proof -
  note a = iset.add_shift [OF assms(1), of "iset_unshift ins i"]
  have "k \<notin> elems del" "k - rank (elems del) k = i - rank (elems del) i"
    using a assms(3,5) iset.unshift [OF assms(2), of i] by auto
  then have "k = i" using unrank_inj assms(4) by blast
  then show ?thesis using a assms(5) by simp
qed

lemma last_end_eq:
  assumes "vec_ok m" "elems m \<subseteq> {..n}"
  shows "(m \<noteq> [] \<and> last_end m = n + 1) \<longleftrightarrow> n \<in> elems m"
proof (cases "m = []")
  case False
  have ok: "chunks_ok m" and so: "sorted_ranges (flat m)" using assms(1) by (simp_all add: vec_ok_def)
  have fl: "flat m \<noteq> []" using False ok by (cases m) (auto simp: chunk_ok_def)
  then obtain rs r where r: "flat m = rs @ [r]" by (metis rev_exhaust)
  have "cuts m (end_it m) (rs @ [r]) []" using cut_end_it [of m] r by simp
  from cut_at(2) [OF cut_prev [OF ok this]] have l: "last_end m = snd r" by (simp add: last_end_def)
  have pos: "fst r < snd r" using so r by (simp add: glue)
  then have "snd r - 1 \<in> elems m" using r by (auto simp: elems_def)
  then have le: "snd r \<le> n + 1" using assms(2) by auto
  have up: "\<forall>q \<in> set (rs @ [r]). snd q \<le> snd r" using le_last [of "rs @ [r]" "snd r"] so r by simp
  show ?thesis
  proof
    assume "m \<noteq> [] \<and> last_end m = n + 1"
    then show "n \<in> elems m" using l pos r by (auto simp: elems_def)
  next
    assume "n \<in> elems m"
    then obtain q where "q \<in> set (rs @ [r])" "n < snd q" unfolding elems_def r in_rows by blast
    then have "n < snd r" using up by fastforce
    then show "m \<noteq> [] \<and> last_end m = n + 1" using le l False by simp
  qed
qed (simp add: elems_def)

lemma map_of_delete: "distinct (map fst mm) \<Longrightarrow> map_of (AList.delete k mm) = (map_of mm)(k := None)"
  by (rule delete_conv')

subsection \<open>The steps on rows\<close>

definition move_last_over :: "nat \<Rightarrow> 'a list \<Rightarrow> 'a list" where
  "move_last_over i xs = butlast (xs[i := last xs])"

definition swap_nth :: "nat \<Rightarrow> nat \<Rightarrow> 'a list \<Rightarrow> 'a list" where
  "swap_nth a b xs = xs[a := xs ! b, b := xs ! a]"

lemma length_move_last_over [simp]: "length (move_last_over i xs) = length xs - 1"
  by (simp add: move_last_over_def)

lemma nth_move_last_over:
  "k < length xs - 1 \<Longrightarrow> move_last_over i xs ! k = (if k = i then xs ! (length xs - 1) else xs ! k)"
  by (cases "xs = []") (auto simp: move_last_over_def nth_butlast nth_list_update last_conv_nth)

lemma move_over_col_correct:
  assumes "vec_ok m" "elems m = marked fs" "i < length fs - 1"
  shows "vec_ok (move_over_col i (length fs - 1) m) \<and>
    elems (move_over_col i (length fs - 1) m) = marked (move_last_over i fs)"
proof -
  let ?n = "length fs - 1"
  have t: "vec_ok (iset_remove m k 1) \<and> elems (iset_remove m k 1) = elems m - {k}" for k
    using iset.take_out [OF assms(1), of 1 k] by auto
  have mark: "k \<in> marked (move_last_over i fs) \<longleftrightarrow> k < ?n \<and> (if k = i then fs ! ?n else fs ! k)" for k
    using nth_move_last_over [of k fs i] by (auto simp: marked_def)
  have here: "k \<in> elems m \<longleftrightarrow> (k < ?n \<or> k = ?n) \<and> fs ! k" for k
  proof -
    have "length fs = ?n + 1" using assms(3) by simp
    then have "k < length fs \<longleftrightarrow> k < ?n \<or> k = ?n" by linarith
    then show ?thesis using assms(2) by (simp add: marked_def)
  qed
  show ?thesis
  proof (cases "?n \<in> elems m")
    case True
    then have "elems (move_over_col i ?n m) = insert i (elems m - {?n})" "vec_ok (move_over_col i ?n m)"
      using iset.contains [OF assms(1)] t add_correct by (auto simp: move_over_col_def)
    moreover have "insert i (elems m - {?n}) = marked (move_last_over i fs)"
    proof (rule set_eqI)
      fix k
      have "fs ! ?n" using True here by simp
      then show "k \<in> insert i (elems m - {?n}) \<longleftrightarrow> k \<in> marked (move_last_over i fs)"
        using assms(3) by (cases "k = i") (auto simp: mark here)
    qed
    ultimately show ?thesis by simp
  next
    case False
    then have "elems (move_over_col i ?n m) = elems m - {i}" "vec_ok (move_over_col i ?n m)"
      using iset.contains [OF assms(1)] t by (auto simp: move_over_col_def)
    moreover have "elems m - {i} = marked (move_last_over i fs)"
      using False assms(3) by (intro set_eqI) (auto simp: mark here)
    ultimately show ?thesis by simp
  qed
qed

lemma move_over_col_ok: "vec_ok m \<Longrightarrow> vec_ok (move_over_col i n m)"
  using iset.take_out [of m 1] add_correct by (auto simp: move_over_col_def)

lemma row_edit_append:
  assumes "row_edit D I old new" and that: "length xs = n"
  shows "row_edit D (bump (length new) n ` I \<union> {length new..<length new + n}) old (new @ xs)"
proof -
  have I: "I \<subseteq> {..<length new}" using assms by (simp add: row_edit_def)
  then have "bump (length new) n ` I = I" by (rule bump_below)
  then show ?thesis using assms that I by (auto simp: row_edit_def nth_append)
qed

lemma row_edit_move_over:
  assumes "row_edit D I old new" "new \<noteq> []"
  defines "n \<equiv> length new - 1"
  shows "i < n \<Longrightarrow> row_edit (D \<union> ({n} - I) \<union> ({i} - I)) (insert i (I - {n})) old (move_last_over i new)"
    and "row_edit (D \<union> ({n} - I)) (I - {n}) old (butlast new)"
proof -
  have l: "k < length new \<longleftrightarrow> k < n \<or> k = n" "length new \<le> k \<longleftrightarrow> n \<le> k \<and> k \<noteq> n" for k
  proof -
    have "length new = n + 1" using assms(2) by (cases new) (simp_all add: n_def)
    then show "k < length new \<longleftrightarrow> k < n \<or> k = n" "length new \<le> k \<longleftrightarrow> n \<le> k \<and> k \<noteq> n" by auto
  qed
  have I: "k \<in> I \<Longrightarrow> k < n \<or> k = n" and D: "k \<in> D \<longleftrightarrow> k < length old \<and> (n \<le> k \<and> k \<noteq> n \<or> k \<in> I)"
    and e: "k < n \<or> k = n \<Longrightarrow> k \<notin> I \<Longrightarrow> k < length old \<and> old ! k = new ! k" for k
    using assms(1) l by (auto simp: row_edit_def)
  have len: "length (move_last_over i new) = n" "length (butlast new) = n" by (simp_all add: n_def)
  have m: "move_last_over i new ! k = new ! k" if "k < n" "k \<noteq> i" for k
    using that nth_move_last_over [of k new i] by (simp add: n_def)
  have b: "butlast new ! k = new ! k" if "k < n" for k using that by (simp add: n_def nth_butlast)
  show "row_edit (D \<union> ({n} - I) \<union> ({i} - I)) (insert i (I - {n})) old (move_last_over i new)" if "i < n"
    unfolding row_edit_def len using I e m that by (auto simp: D)
  show "row_edit (D \<union> ({n} - I)) (I - {n}) old (butlast new)"
    unfolding row_edit_def len using I e b by (auto simp: D)
qed

lemma row_edit_swap:
  assumes "row_edit D I old new" "a < length new" "b < length new"
  shows "row_edit (D \<union> ({a, b} - I)) (insert a (insert b I)) old (swap_nth a b new)"
proof -
  have "swap_nth a b new ! k = new ! k" if "k \<noteq> a" "k \<noteq> b" for k using that by (simp add: swap_nth_def)
  then show ?thesis using assms by (auto simp: row_edit_def swap_nth_def)
qed

lemma row_edit_same:
  "row_edit D I old new \<Longrightarrow> k \<in> D \<Longrightarrow> k \<in> I \<Longrightarrow> old ! k = new ! k \<Longrightarrow> row_edit (D - {k}) (I - {k}) old new"
  by (auto simp: row_edit_def)

lemma append_row_tracked:
  assumes t: "row_tracked c old new fs" and xs: "xs \<noteq> []"
  shows "row_tracked (insert_rows_at c (length new) (length xs) True) old (new @ xs)
    (fs @ replicate (length xs) False)"
proof -
  let ?n = "length xs" and ?f = "\<lambda>col. shift_for_insert_at col (length new) (length xs)"
  let ?c = "insert_rows_at c (length new) (length xs) True"
  have n: "0 < ?n" using xs by simp
  have so: "sets_ok c" and ed: "row_edit (elems (deletions c)) (elems (insertions c)) old new"
    and mp: "mapping_ok (move_mapping c) (elems (deletions c)) (elems (insertions c)) old new"
    and le: "length fs = length new" and mk: "elems (modifications c) = marked fs" and mv: "moves c = []"
    using t by (auto simp: row_tracked_def)
  have f: "vec_ok (?f m)" if "vec_ok m" for m using iset.make_room [OF that n] by simp
  have keys: "fst p < length new" if "p \<in> set (move_mapping c)" for p
  proof -
    have "map_of (move_mapping c) (fst p) = Some (snd p)" using that mp by (auto simp: mapping_ok_def)
    then have "fst p \<in> elems (insertions c)" using mp unfolding mapping_ok_def by blast
    then show ?thesis using ed by (auto simp: row_edit_def)
  qed
  then have "filter (\<lambda>p. \<not> length new \<le> fst p) (move_mapping c) = move_mapping c"
    "filter (\<lambda>p. length new \<le> fst p) (move_mapping c) = []"
    by (auto simp: filter_id_conv filter_empty_conv not_le)
  then have mm: "move_mapping ?c = move_mapping c" by (simp add: insert_rows_at_def Let_def shift_mapping_def)
  have c: "deletions ?c = deletions c" "insertions ?c = insert_at (insertions c) (length new) ?n"
    "modifications ?c = ?f (modifications c)" "columns ?c = columns (for_each_col ?f c)" "moves ?c = []"
    using mv by (auto simp: insert_rows_at_def Let_def)
  have I: "vec_ok (insertions ?c)"
    "elems (insertions ?c) = bump (length new) ?n ` elems (insertions c) \<union> {length new..<length new + ?n}"
    using iset.put_in [OF _ n, of "insertions c" "length new"] so c by (auto simp: sets_ok_def)
  have bI: "bump (length new) ?n ` elems (insertions c) = elems (insertions c)"
    by (rule bump_below) (use ed in \<open>simp add: row_edit_def\<close>)
  have "sets_ok ?c" using for_each_col_ok [OF so, of ?f] f I(1) c by (simp add: sets_ok_def)
  moreover have "row_edit (elems (deletions ?c)) (elems (insertions ?c)) old (new @ xs)"
    using row_edit_append [OF ed refl, of xs] I c by simp
  moreover have "mapping_ok (move_mapping ?c) (elems (deletions ?c)) (elems (insertions ?c)) old (new @ xs)"
    using mp ed I bI unfolding mm c mapping_ok_def row_edit_def by (auto simp: nth_append) blast?
  moreover have "elems (modifications ?c) = marked (fs @ replicate ?n False)"
  proof -
    have "elems (modifications ?c) = bump (length new) ?n ` marked fs"
      using iset.make_room [OF _ n, of "modifications c" "length new"] so c mk by (simp add: sets_ok_def)
    also have "\<dots> = marked fs" by (rule bump_below) (use le in \<open>auto simp: marked_def\<close>)
    also have "\<dots> = marked (fs @ replicate ?n False)"
    proof (rule set_eqI)
      show "k \<in> marked fs \<longleftrightarrow> k \<in> marked (fs @ replicate ?n False)" for k
        by (cases "k < length fs") (auto simp: marked_def nth_append)
    qed
    finally show ?thesis .
  qed
  ultimately show ?thesis using le c by (simp add: row_tracked_def)
qed

lemma mapping_okD:
  "mapping_ok mm D I old new \<Longrightarrow> map_of mm k = Some v \<Longrightarrow> k \<in> I \<and> v \<in> D \<and> old ! v = new ! k"
  by (simp add: mapping_ok_def)

lemma mapping_inj: "mapping_ok mm D I old new \<Longrightarrow> map_of mm k = Some v \<Longrightarrow> map_of mm k' = Some v \<Longrightarrow> k = k'"
  unfolding mapping_ok_def by blast

lemma mapping_okI:
  "distinct (map fst mm) \<Longrightarrow>
    (\<And>k k' v. map_of mm k = Some v \<Longrightarrow> map_of mm k' = Some v \<Longrightarrow> k = k') \<Longrightarrow> (\<And>k v. map_of mm k = Some v \<Longrightarrow> k \<in> I \<and> v \<in> D \<and> old ! v = new ! k) \<Longrightarrow>
    mapping_ok mm D I old new"
  unfolding mapping_ok_def by blast

lemma mapping_distinct: "mapping_ok mm D I old new \<Longrightarrow> distinct (map fst mm)"
  by (simp add: mapping_ok_def)

text \<open>How the mapping of \<open>move_over\<close> changes: the last row takes the place of the deleted one.\<close>

definition move_over_mapping :: "nat \<Rightarrow> nat \<Rightarrow> chunks \<Rightarrow> (nat \<times> nat) list \<Rightarrow> (nat \<times> nat) list" where
  "move_over_mapping i n ins mm =
     (if n \<in> elems ins then
        (case map_of mm n of
           Some v \<Rightarrow> AList.delete n (AList.update i v mm)
         | None \<Rightarrow> if i \<in> elems ins then AList.delete i mm else mm)
      else AList.update i n (if i \<in> elems ins then AList.delete i mm else mm))"

lemma move_over_mapping_ok:
  assumes mp: "mapping_ok mm D I old new" and ed: "row_edit D I old new" and i: "i < n" "n = length new - 1" "new \<noteq> []"
    and I: "I = elems ins"
  shows "mapping_ok (move_over_mapping i n ins mm) (D \<union> ({n} - I) \<union> ({i} - I)) (insert i (I - {n})) old
    (move_last_over i new)"
proof -
  note d = mapping_distinct [OF mp]
  have look: "k = i \<and> (n \<in> I \<and> map_of mm n = Some v \<or> n \<notin> I \<and> v = n) \<or>
      k \<noteq> i \<and> k \<noteq> n \<and> map_of mm k = Some v"
    if a: "map_of (move_over_mapping i n ins mm) k = Some v" for k v
  proof (cases "n \<in> I")
    case True
    show ?thesis
    proof (cases "map_of mm n")
      case None
      then show ?thesis using a True I mapping_okD [OF mp, of k v]
        by (auto simp: move_over_mapping_def map_of_delete [OF d] split: if_splits)
    next
      case (Some w)
      then have "map_of (move_over_mapping i n ins mm) = (map_of mm)(i \<mapsto> w, n := None)"
        using True I by (simp add: move_over_mapping_def delete_conv' update_conv')
      then show ?thesis using a i(1) Some True by (auto split: if_splits)
    qed
  next
    case False
    have "map_of (move_over_mapping i n ins mm) k = ((if i \<in> I then (map_of mm)(i := None) else map_of mm)(i \<mapsto> n)) k"
      using False I by (auto simp: move_over_mapping_def delete_conv' update_conv')
    then show ?thesis using a False mapping_okD [OF mp, of k v] by (auto split: if_splits)
  qed
  have nD: "n \<notin> I \<Longrightarrow> n \<notin> D" using ed i by (cases new) (auto simp: row_edit_def)
  note D = mapping_okD [OF mp]
  show ?thesis
  proof (rule mapping_okI)
    show "distinct (map fst (move_over_mapping i n ins mm))"
      using d by (auto simp: move_over_mapping_def distinct_delete distinct_update split: option.splits)
    show "k = k'" if "map_of (move_over_mapping i n ins mm) k = Some v" "map_of (move_over_mapping i n ins mm) k' = Some v" for k k' v
      using look [OF that(1)] look [OF that(2)] mapping_inj [OF mp, of k v k'] mapping_inj [OF mp, of n v k]
        mapping_inj [OF mp, of n v k'] D [of k v] D [of k' v] nD by blast
    fix k v assume a: "map_of (move_over_mapping i n ins mm) k = Some v"
    have nI: "k \<in> I \<Longrightarrow> k < n \<or> k = n" using ed i by (auto simp: row_edit_def)
    have here: "move_last_over i new ! i = new ! n" "k < n \<Longrightarrow> k \<noteq> i \<Longrightarrow> move_last_over i new ! k = new ! k"
      using i by (auto simp: nth_move_last_over)
    have old: "n \<notin> I \<Longrightarrow> old ! n = new ! n" using ed i by (cases new) (auto simp: row_edit_def)
    show "k \<in> insert i (I - {n}) \<and> v \<in> D \<union> ({n} - I) \<union> ({i} - I) \<and> old ! v = move_last_over i new ! k"
      using look [OF a] D [of k v] D [of n v] nI here old by auto
  qed
qed

lemma move_over_tracked:
  assumes t: "row_tracked c old new fs" and i: "i < length new - 1"
  shows "row_tracked (move_over c i (length new - 1) True) old (move_last_over i new) (move_last_over i fs)"
proof -
  let ?n = "length new - 1" and ?I = "elems (insertions c)" and ?D = "elems (deletions c)"
  let ?c = "move_over c i (length new - 1) True"
  have so: "sets_ok c" and ed: "row_edit ?D ?I old new" and mp: "mapping_ok (move_mapping c) ?D ?I old new"
    and le: "length fs = length new" and mk: "elems (modifications c) = marked fs" and mv: "moves c = []"
    using t by (auto simp: row_tracked_def)
  have v: "vec_ok (deletions c)" "vec_ok (insertions c)" "vec_ok (modifications c)" using so by (simp_all add: sets_ok_def)
  have ne: "new \<noteq> []" "i \<noteq> ?n" "length new = Suc ?n" using i by auto
  have lt: "?n < length new" "\<not> length new \<le> ?n" "i < length new" "\<not> length new \<le> i" using i by linarith+
  have I: "?I \<subseteq> {..?n}" using ed ne(3) by (auto simp: row_edit_def)
  have cols: "vec_ok m \<Longrightarrow> vec_ok (move_over_col i ?n m)" for m by (rule move_over_col_ok)
  have isI: "iset_contains (insertions c) i \<longleftrightarrow> i \<in> ?I" by (rule iset.contains [OF v(2)])
  have la: "(insertions c \<noteq> [] \<and> last_end (insertions c) = ?n + 1) \<longleftrightarrow> ?n \<in> ?I" by (rule last_end_eq [OF v(2) I])
  define ins1 where "ins1 = (if ?n \<in> ?I then iset_remove (insertions c) ?n 1 else insertions c)"
  have i1: "vec_ok ins1" "elems ins1 = ?I - {?n}"
    using iset.take_out [OF v(2), of 1 ?n] v(2) by (auto simp: ins1_def)
  define a1 where "a1 = add_shifted (deletions c) (iset_unshift (insertions c) ?n)"
  have ol: "?n < length old" "?n \<notin> ?D" if "?n \<notin> ?I" using that ed lt unfolding row_edit_def by blast+
  have a1: "snd a1 = ?n \<and> vec_ok (fst a1) \<and> elems (fst a1) = insert ?n ?D" if "?n \<notin> ?I"
    by (rule add_unshifted [OF v(1,2) _ ol(2) [OF that]])
      (use row_edit_rank [OF ed, of ?n] ol(1) [OF that] in \<open>simp_all add: a1_def\<close>)
  define del1 where "del1 = (if ?n \<in> ?I then deletions c else fst a1)"
  have d1: "vec_ok del1" "elems del1 = ?D \<union> ({?n} - ?I)" using a1 v(1) by (auto simp: del1_def)
  define a2 where "a2 = add_shifted del1 (iset_unshift ins1 i)"
  have oi: "i < length old" "i \<notin> ?D" if "i \<notin> ?I" using that ed lt unfolding row_edit_def by blast+
  have a2: "snd a2 = i \<and> vec_ok (fst a2) \<and> elems (fst a2) = insert i (?D \<union> ({?n} - ?I))" if n: "i \<notin> ?I"
  proof -
    have "rank (elems del1) i = rank ?D i" "rank (elems ins1) i = rank ?I i"
      using i unfolding d1 i1 by (auto intro!: rank_cong)
    then show ?thesis
      using add_unshifted [OF d1(1) i1(1), of i "fst a2" "snd a2"] row_edit_rank [OF ed, of i] oi [OF n] i d1
      by (simp add: a2_def)
  qed
  have c: "deletions ?c = (if i \<in> ?I then del1 else fst a2)" "insertions ?c = (if i \<in> ?I then ins1 else iset_add ins1 i)"
    "move_mapping ?c = move_over_mapping i ?n (insertions c) (move_mapping c)" "moves ?c = []"
    "modifications ?c = move_over_col i ?n (modifications c)"
    "columns ?c = columns (for_each_col (move_over_col i ?n) c)"
    using ne(2) mv a1 unfolding move_over_def Let_def a1_def
    by (simp_all add: isI la [simplified] move_over_mapping_def del1_def ins1_def a1_def a2_def split_beta
        split: option.splits)
  have D: "elems (deletions ?c) = ?D \<union> ({?n} - ?I) \<union> ({i} - ?I)" "vec_ok (deletions ?c)" using c(1) d1 a2 by auto
  have I2: "elems (insertions ?c) = insert i (?I - {?n})" "vec_ok (insertions ?c)"
    using c(2) i1 add_correct ne(2) by auto
  have "sets_ok ?c" using for_each_col_ok [OF so, of "move_over_col i ?n"] cols D(2) I2(2) c by (simp add: sets_ok_def)
  moreover have "row_edit (elems (deletions ?c)) (elems (insertions ?c)) old (move_last_over i new)"
    unfolding D I2 by (rule row_edit_move_over(1) [OF ed ne(1) i])
  moreover have "mapping_ok (move_mapping ?c) (elems (deletions ?c)) (elems (insertions ?c)) old (move_last_over i new)"
    unfolding D I2 c(3) by (rule move_over_mapping_ok [OF mp ed i refl _ refl]) (use i in auto)
  moreover have "elems (modifications ?c) = marked (move_last_over i fs)"
    using move_over_col_correct [OF v(3) mk, of i] i le c by simp
  ultimately show ?thesis using le c by (simp add: row_tracked_def)
qed
lemma remove_last_tracked:
  assumes t: "row_tracked c old new fs" and ne: "new \<noteq> []" and np: "length new \<le> npos"
  shows "row_tracked (move_over c (length new - 1) (length new - 1) True) old (butlast new) (butlast fs)"
proof -
  let ?I = "elems (insertions c)" and ?D = "elems (deletions c)"
  let ?c = "move_over c (length new - 1) (length new - 1) True"
  define n where "n = length new - 1"
  have n: "length new = Suc n" using ne by (cases new) (simp_all add: n_def)
  have so: "sets_ok c" and ed: "row_edit ?D ?I old new" and mp: "mapping_ok (move_mapping c) ?D ?I old new"
    and le: "length fs = length new" and mk: "elems (modifications c) = marked fs" and mv: "moves c = []"
    using t by (auto simp: row_tracked_def)
  have v: "vec_ok (deletions c)" "vec_ok (insertions c)" "vec_ok (modifications c)" using so by (simp_all add: sets_ok_def)
  have I: "k \<in> ?I \<Longrightarrow> k < n \<or> k = n" for k using ed n by (auto simp: row_edit_def)
  have cl: "close n ` (?I - {n}) = ?I - {n}" by (rule close_below) (use I in auto)
  define e where "e = erase_or_unshift (insertions c) n"
  have e: "vec_ok (fst e)" "elems (fst e) = ?I - {n}" "snd e = (if n \<in> ?I then npos else n - rank ?I n)"
    using iset.erase_unshift [OF v(2), of n] cl by (auto simp: e_def)
  define del where "del = (if snd e \<noteq> npos then fst (add_shifted (deletions c) (snd e)) else deletions c)"
  have d: "vec_ok del \<and> elems del = ?D \<union> ({n} - ?I)"
  proof (cases "n \<in> ?I")
    case True
    then show ?thesis using e v by (auto simp: del_def)
  next
    case False
    then have ol: "n < length old" "n \<notin> ?D" using ed n by (auto simp: row_edit_def)
    have u: "snd e = iset_unshift (insertions c) n" "snd e \<noteq> npos"
      using e(3) False iset.unshift [OF v(2), of n] n np by auto
    have "rank ?D n = rank ?I n" using row_edit_rank [OF ed, of n] ol n by simp
    from add_unshifted [OF v(1,2) this ol(2) prod.collapse [symmetric]] u False
    show ?thesis by (auto simp: del_def)
  qed
  have c: "deletions ?c = del" "insertions ?c = fst e" "move_mapping ?c = AList.delete n (move_mapping c)" "moves ?c = []"
    "modifications ?c = iset_remove (modifications c) n 1"
    "columns ?c = columns (for_each_col (\<lambda>col. iset_remove col n 1) c)"
    using mv by (simp_all add: move_over_def n_def Let_def e_def del_def split_beta for_each_col_def)
  have rm: "vec_ok (iset_remove m n 1) \<and> elems (iset_remove m n 1) = elems m - {n}" if "vec_ok m" for m
    using iset.take_out [OF that, of 1 n] by auto
  have "sets_ok ?c" using for_each_col_ok [OF so, of "\<lambda>col. iset_remove col n 1"] rm d e c by (simp add: sets_ok_def)
  moreover have "row_edit (elems (deletions ?c)) (elems (insertions ?c)) old (butlast new)"
    using row_edit_move_over(2) [OF ed ne] c d e by (simp add: n_def)
  moreover have "mapping_ok (move_mapping ?c) (elems (deletions ?c)) (elems (insertions ?c)) old (butlast new)"
  proof (rule mapping_okI)
    show "distinct (map fst (move_mapping ?c))" using mapping_distinct [OF mp] c by (simp add: distinct_delete)
    show "k = k'" if "map_of (move_mapping ?c) k = Some w" "map_of (move_mapping ?c) k' = Some w" for k k' w
      using that c mapping_inj [OF mp, of k w k'] by (auto simp: delete_conv' split: if_splits)
    fix k w assume "map_of (move_mapping ?c) k = Some w"
    then have k: "map_of (move_mapping c) k = Some w" "k \<noteq> n" using c by (auto simp: delete_conv' split: if_splits)
    then show "k \<in> elems (insertions ?c) \<and> w \<in> elems (deletions ?c) \<and> old ! w = butlast new ! k"
      using mapping_okD [OF mp k(1)] I [of k] c d e n by (auto simp: nth_butlast)
  qed
  moreover have "elems (modifications ?c) = marked (butlast fs)"
  proof -
    have lf: "length fs = Suc n" using le n by simp
    have "marked fs - {n} = marked (butlast fs)"
    proof (rule set_eqI)
      show "k \<in> marked fs - {n} \<longleftrightarrow> k \<in> marked (butlast fs)" for k
        using lf by (cases "k < n") (auto simp: marked_def nth_butlast)
    qed
    then show ?thesis using rm [OF v(3)] c mk by simp
  qed
  ultimately show ?thesis using le c by (simp add: row_tracked_def)
qed

lemma swap_col_correct:
  assumes "vec_ok m"
  shows "vec_ok (swap_col a b m) \<and> (elems m = marked fs \<longrightarrow> a \<noteq> b \<longrightarrow> a < length fs \<longrightarrow> b < length fs \<longrightarrow>
    elems (swap_col a b m) = marked (swap_nth a b fs))"
proof -
  have t: "vec_ok (iset_remove m k 1) \<and> elems (iset_remove m k 1) = elems m - {k}" for k
    using iset.take_out [OF assms, of 1 k] by auto
  have "vec_ok (swap_col a b m)" using t add_correct assms by (auto simp: swap_col_def Let_def)
  moreover have "elems (swap_col a b m) = (if a \<in> elems m \<longleftrightarrow> b \<in> elems m then elems m
      else if a \<in> elems m then insert b (elems m - {a}) else insert a (elems m - {b}))"
    using t add_correct iset.contains [OF assms] by (auto simp: swap_col_def Let_def)
  ultimately show ?thesis by (auto simp: marked_def swap_nth_def nth_list_update split: if_splits)
qed

text \<open>Marking the row at \<open>src\<close> as moved to \<open>dst\<close>, when it kept its number.\<close>

lemma add_swap_move_fields:
  assumes "vec_ok (deletions c)" "vec_ok (insertions c)" "src \<notin> elems (insertions c) \<Longrightarrow> rank (elems (deletions c)) src = rank (elems (insertions c)) src"
    "src \<notin> elems (insertions c) \<Longrightarrow> src \<notin> elems (deletions c)"
  shows "vec_ok (deletions (add_swap_move src dst c)) \<and> vec_ok (insertions (add_swap_move src dst c)) \<and>
    elems (deletions (add_swap_move src dst c)) = elems (deletions c) \<union> ({src} - elems (insertions c)) \<and>
    elems (insertions (add_swap_move src dst c)) = insert src (elems (insertions c)) \<and>
    move_mapping (add_swap_move src dst c) = (if src \<in> elems (insertions c) then move_mapping c
      else AList.update dst src (move_mapping c)) \<and>
    modifications (add_swap_move src dst c) = modifications c \<and> columns (add_swap_move src dst c) = columns c \<and>
    moves (add_swap_move src dst c) = moves c"
proof (cases "src \<in> elems (insertions c)")
  case True
  then show ?thesis using assms iset.contains [OF assms(2), of src] by (auto simp: add_swap_move_def insert_absorb)
next
  case False
  obtain del k where a: "add_shifted (deletions c) (iset_unshift (insertions c) src) = (del, k)" by (rule prod.exhaust)
  from add_unshifted [OF assms(1,2) assms(3) [OF False] assms(4) [OF False] a] a False add_correct [OF assms(2)]
  show ?thesis using iset.contains [OF assms(2), of src] by (auto simp: add_swap_move_def Let_def)
qed
lemma mapping_swap:
  assumes mp: "mapping_ok mm D I old new" and ed: "row_edit D I old new" and l: "x < length new" "y < length new" "x \<noteq> y"
    and d: "distinct (map fst mm')" and k: "\<And>k. k \<noteq> x \<Longrightarrow> k \<noteq> y \<Longrightarrow> map_of mm' k = map_of mm k"
    and x: "map_of mm' x = map_of mm y \<or> map_of mm' x = None \<or> map_of mm' x = Some y \<and> y \<notin> I"
    and y: "map_of mm' y = map_of mm x \<or> map_of mm' y = None \<or> map_of mm' y = Some x \<and> x \<notin> I"
  shows "mapping_ok mm' (D \<union> ({x, y} - I)) (insert x (insert y I)) old (swap_nth x y new)"
proof (rule mapping_okI [OF d])
  have look: "j = x \<and> (map_of mm y = Some v \<or> v = y \<and> y \<notin> I) \<or> j = y \<and> (map_of mm x = Some v \<or> v = x \<and> x \<notin> I) \<or>
      j \<noteq> x \<and> j \<noteq> y \<and> map_of mm j = Some v" if "map_of mm' j = Some v" for j v
    using that k x y by (cases "j = x"; cases "j = y") auto
  have nD: "k \<notin> I \<Longrightarrow> k < length new \<Longrightarrow> k \<notin> D \<and> old ! k = new ! k" for k using ed by (auto simp: row_edit_def)
  note D = mapping_okD [OF mp]
  show "j = j'" if "map_of mm' j = Some v" "map_of mm' j' = Some v" for j j' v
    using look [OF that(1)] look [OF that(2)] mapping_inj [OF mp, of j v j'] mapping_inj [OF mp, of x v j]
      mapping_inj [OF mp, of x v j'] mapping_inj [OF mp, of y v j] mapping_inj [OF mp, of y v j']
      mapping_inj [OF mp, of x v y] D [of j v] D [of j' v] D [of x v] D [of y v] nD [of x] nD [of y] l by metis
  fix j v assume a: "map_of mm' j = Some v"
  have s: "swap_nth x y new ! x = new ! y" "swap_nth x y new ! y = new ! x"
    "\<And>k. k \<noteq> x \<Longrightarrow> k \<noteq> y \<Longrightarrow> swap_nth x y new ! k = new ! k"
    using l by (simp_all add: swap_nth_def)
  show "j \<in> insert x (insert y I) \<and> v \<in> D \<union> ({x, y} - I) \<and> old ! v = swap_nth x y new ! j"
    using look [OF a] D [of j v] D [of x v] D [of y v] nD [of x] nD [of y] l s by (elim disjE) auto
qed

lemma swap_nth_sym: "a \<noteq> b \<Longrightarrow> swap_nth a b xs = swap_nth b a xs"
  by (simp add: swap_nth_def list_update_swap)

lemma length_swap_nth [simp]: "length (swap_nth a b xs) = length xs"
  by (simp add: swap_nth_def)

lemma swap_tracked:
  assumes t: "row_tracked c old new fs" and l: "a < length new" "b < length new" and ne: "a \<noteq> b"
  shows "row_tracked (swap_rows c a b True) old (swap_nth a b new) (swap_nth a b fs)"
proof -
  define x y where "x = min a b" and "y = max a b"
  have xy: "x < y" "y < length new" "swap_nth a b new = swap_nth x y new" "swap_nth a b fs = swap_nth x y fs"
    using l ne swap_nth_sym [of a b] by (auto simp: x_def y_def min_def max_def)
  let ?I = "elems (insertions c)" and ?D = "elems (deletions c)" and ?mm = "move_mapping c"
  let ?c = "swap_rows c a b True" and ?s = "for_each_col (swap_col x y) c"
  have so: "sets_ok c" and ed: "row_edit ?D ?I old new" and mp: "mapping_ok ?mm ?D ?I old new"
    and le: "length fs = length new" and mk: "elems (modifications c) = marked fs" and mv: "moves c = []"
    using t by (auto simp: row_tracked_def)
  have v: "vec_ok (deletions c)" "vec_ok (insertions c)" "vec_ok (modifications c)" using so by (simp_all add: sets_ok_def)
  have old: "k < length old \<and> k \<notin> ?D \<and> rank ?D k = rank ?I k" if "k < length new" "k \<notin> ?I" for k
    using that ed row_edit_rank [OF ed, of k] by (auto simp: row_edit_def)
  note d = mapping_distinct [OF mp]
  have conc: "vec_ok (deletions ?c) \<and> vec_ok (insertions ?c) \<and> elems (deletions ?c) = ?D \<union> ({x, y} - ?I) \<and>
      elems (insertions ?c) = insert x (insert y ?I) \<and> moves ?c = [] \<and>
      modifications ?c = swap_col x y (modifications c) \<and> columns ?c = columns ?s \<and>
      mapping_ok (move_mapping ?c) (?D \<union> ({x, y} - ?I)) (insert x (insert y ?I)) old (swap_nth x y new)"
  proof (cases "map_of ?mm x")
    case xs: (Some ox)
    then have xI: "x \<in> ?I" using mapping_okD [OF mp] by blast
    show ?thesis
    proof (cases "map_of ?mm y")
      case ys: (Some oy)
      then have yI: "y \<in> ?I" using mapping_okD [OF mp] by blast
      have c: "?c = ?s\<lparr>move_mapping := AList.update y ox (AList.update x oy ?mm)\<rparr>"
        using xs ys by (simp add: swap_rows_def Let_def x_def [symmetric] y_def [symmetric])
      have "mapping_ok (AList.update y ox (AList.update x oy ?mm)) (?D \<union> ({x, y} - ?I)) (insert x (insert y ?I)) old (swap_nth x y new)"
        by (rule mapping_swap [OF mp ed]) (use xy xs ys d in \<open>auto simp: update_conv' distinct_update simp del: map_of_eq_Some_iff\<close>)
      then show ?thesis using xI yI v mv by (auto simp: c insert_absorb)
    next
      case yn: None
      define c1 where "c1 = ?s\<lparr>move_mapping := AList.update y ox (AList.delete x ?mm)\<rparr>"
      have c: "?c = add_swap_move y x c1"
        using xs yn by (simp add: swap_rows_def update_move_def c1_def Let_def x_def [symmetric] y_def [symmetric])
      have f: "deletions c1 = deletions c" "insertions c1 = insertions c" by (simp_all add: c1_def)
      note F = add_swap_move_fields [of c1 y x, unfolded f, OF v(1,2)]
      have "mapping_ok (if y \<in> ?I then AList.update y ox (AList.delete x ?mm)
          else AList.update x y (AList.update y ox (AList.delete x ?mm)))
          (?D \<union> ({x, y} - ?I)) (insert x (insert y ?I)) old (swap_nth x y new)"
        by (rule mapping_swap [OF mp ed])
          (use xy xs yn d in \<open>auto simp: update_conv' delete_conv' distinct_update distinct_delete simp del: map_of_eq_Some_iff\<close>)
      then show ?thesis using F old [of y] xy xI mv by (auto simp: c c1_def insert_absorb)
    qed
  next
    case xn: None
    show ?thesis
    proof (cases "map_of ?mm y")
      case ys: (Some oy)
      then have yI: "y \<in> ?I" using mapping_okD [OF mp] by blast
      define c1 where "c1 = ?s\<lparr>move_mapping := AList.update x oy (AList.delete y ?mm)\<rparr>"
      have c: "?c = add_swap_move x y c1"
        using xn ys by (simp add: swap_rows_def update_move_def c1_def Let_def x_def [symmetric] y_def [symmetric])
      have f: "deletions c1 = deletions c" "insertions c1 = insertions c" by (simp_all add: c1_def)
      note F = add_swap_move_fields [of c1 x y, unfolded f, OF v(1,2)]
      have "mapping_ok (if x \<in> ?I then AList.update x oy (AList.delete y ?mm)
          else AList.update y x (AList.update x oy (AList.delete y ?mm)))
          (?D \<union> ({x, y} - ?I)) (insert x (insert y ?I)) old (swap_nth x y new)"
        by (rule mapping_swap [OF mp ed])
          (use xy xn ys d in \<open>auto simp: update_conv' delete_conv' distinct_update distinct_delete simp del: map_of_eq_Some_iff\<close>)
      then show ?thesis using F old [of x] xy yI mv by (auto simp: c c1_def insert_absorb)
    next
      case yn: None
      have c: "?c = add_swap_move x y (add_swap_move y x ?s)"
        using xn yn by (simp add: swap_rows_def Let_def x_def [symmetric] y_def [symmetric])
      have f: "deletions ?s = deletions c" "insertions ?s = insertions c" by simp_all
      note F = add_swap_move_fields [of ?s y x, unfolded f, OF v(1,2)]
      let ?t = "add_swap_move y x ?s"
      have G: "vec_ok (deletions ?t)" "vec_ok (insertions ?t)" "elems (deletions ?t) = ?D \<union> ({y} - ?I)"
        "elems (insertions ?t) = insert y ?I"
        "move_mapping ?t = (if y \<in> ?I then ?mm else AList.update x y ?mm)"
        "modifications ?t = swap_col x y (modifications c)" "columns ?t = columns ?s" "moves ?t = []"
        using F old [of y] xy mv by auto
      have r: "rank (?D \<union> ({y} - ?I)) x = rank ?D x" "rank (insert y ?I) x = rank ?I x"
        using xy by (auto intro!: rank_cong)
      note H = add_swap_move_fields [of ?t x y, unfolded G(3,4), OF G(1,2)]
      have "mapping_ok (if x \<in> ?I then (if y \<in> ?I then ?mm else AList.update x y ?mm)
          else AList.update y x (if y \<in> ?I then ?mm else AList.update x y ?mm))
          (?D \<union> ({x, y} - ?I)) (insert x (insert y ?I)) old (swap_nth x y new)"
        by (rule mapping_swap [OF mp ed]) (use xy xn yn d in \<open>auto simp: update_conv' distinct_update simp del: map_of_eq_Some_iff\<close>)
      then show ?thesis using H G r old [of x] xy by (auto simp: c)
    qed
  qed
  have cols: "vec_ok m \<Longrightarrow> vec_ok (swap_col x y m)" for m using swap_col_correct by blast
  have "sets_ok ?c" using for_each_col_ok [OF so, of "swap_col x y"] cols conc by (simp add: sets_ok_def)
  moreover have "row_edit (elems (deletions ?c)) (elems (insertions ?c)) old (swap_nth x y new)"
    using row_edit_swap [OF ed, of x y] xy conc by simp
  moreover have "elems (modifications ?c) = marked (swap_nth x y fs)"
    using swap_col_correct [OF v(3), of x y fs] mk xy le conc by simp
  ultimately show ?thesis using conc le xy by (simp add: row_tracked_def)
qed

lemma modify_row_tracked:
  assumes t: "row_tracked c old new fs" and i: "i < length new"
  shows "row_tracked (modify c i col) old new (fs[i := True])"
proof -
  have so: "sets_ok c" using t by (simp add: row_tracked_def)
  show ?thesis using t i modify_sets_ok [OF so]
    by (simp add: row_tracked_def) (simp add: sets_ok_def add_correct marked_update)
qed

lemma insert_column_row_tracked:
  assumes "row_tracked c old new fs"
  shows "row_tracked (insert_column c ndx) old new fs"
proof -
  have "set (columns (insert_column c ndx)) \<subseteq> insert [] (set (columns c))"
    by (auto simp: insert_column_def dest: in_set_takeD in_set_dropD)
  moreover have "vec_ok []" by (simp add: vec_ok_def)
  ultimately have "sets_ok c \<Longrightarrow> sets_ok (insert_column c ndx)"
    by (auto simp: sets_ok_def insert_column_def dest: in_set_takeD in_set_dropD)
  then show ?thesis using assms by (auto simp: row_tracked_def insert_column_def)
qed

lemma empty_row_tracked: "row_tracked empty_builder xs xs (replicate (length xs) False)"
  by (simp add: row_tracked_def empty_builder_def new_builder_def sets_ok_def row_edit_def mapping_ok_def)

subsection \<open>From the mapping to moves\<close>

definition moves_found :: "change_builder \<Rightarrow> 'a list \<Rightarrow> 'a list \<Rightarrow> bool" where
  "moves_found c old new \<longleftrightarrow> (\<forall>m \<in> set (moves c). mv_from m \<in> elems (deletions c) \<and>
     mv_to m \<in> elems (insertions c) \<and> old ! mv_from m = new ! mv_to m)"

lemma parse_moves_correct:
  assumes "vec_ok (deletions c)" "vec_ok (insertions c)" "row_edit (elems (deletions c)) (elems (insertions c)) old new"
    "mapping_ok mm (elems (deletions c)) (elems (insertions c)) old new" "moves_found c old new"
    "\<forall>m \<in> set (moves c). map_of mm (mv_to m) = None \<and> mv_from m \<notin> snd ` set mm \<and> mv_from m \<noteq> mv_to m"
  shows "vec_ok (deletions (parse_moves mm c)) \<and> vec_ok (insertions (parse_moves mm c)) \<and>
    row_edit (elems (deletions (parse_moves mm c))) (elems (insertions (parse_moves mm c))) old new \<and>
    moves_found (parse_moves mm c) old new \<and> (\<forall>m \<in> set (moves (parse_moves mm c)). mv_from m \<noteq> mv_to m) \<and>
    modifications (parse_moves mm c) = modifications c \<and> columns (parse_moves mm c) = columns c"
  using assms
proof (induction mm c rule: parse_moves.induct)
  case (2 new' old' ps c)
  let ?D = "elems (deletions c)" and ?I = "elems (insertions c)"
  note mp = "2.prems"(4)
  have d: "distinct (map fst ps)" "new' \<notin> fst ` set ps" using mapping_distinct [OF mp] by auto
  have here: "new' \<in> ?I \<and> old' \<in> ?D \<and> old ! old' = new ! new'" by (rule mapping_okD [OF mp]) simp
  have tl: "map_of ((new', old') # ps) k = Some v" "k \<noteq> new'" if "map_of ps k = Some v" for k v
    using that d(2) by (auto dest!: map_of_SomeD intro: rev_image_eqI)
  have other: "v \<noteq> old'" if "map_of ps k = Some v" for k v
    using mapping_inj [OF mp, of k v new'] tl [OF that] by auto
  have "mapping_ok ps (?D - {old'} \<union> ?D) ?I old new \<and> old' \<notin> snd ` set ps"
  proof
    show "mapping_ok ps (?D - {old'} \<union> ?D) ?I old new"
      by (rule mapping_okI [OF d(1)]) (use tl mapping_okD [OF mp] mapping_inj [OF mp] in \<open>blast+\<close>)
    show "old' \<notin> snd ` set ps"
    proof
      assume "old' \<in> snd ` set ps"
      then obtain k where "(k, old') \<in> set ps" by auto
      then show False using other map_of_is_SomeI [OF d(1)] by blast
    qed
  qed
  then have ps: "mapping_ok ps ?D ?I old new" "old' \<notin> snd ` set ps" by (simp_all add: Un_absorb1 Diff_subset)
  show ?case
  proof (cases "new' = old'")
    case True
    let ?c = "c\<lparr>deletions := iset_remove (deletions c) old' 1, insertions := iset_remove (insertions c) new' 1\<rparr>"
    have r: "vec_ok (iset_remove (deletions c) old' 1)" "vec_ok (iset_remove (insertions c) new' 1)"
      "elems (iset_remove (deletions c) old' 1) = ?D - {old'}" "elems (iset_remove (insertions c) new' 1) = ?I - {old'}"
      using iset.take_out [OF "2.prems"(1), of 1 old'] iset.take_out [OF "2.prems"(2), of 1 new'] True by auto
    have "mapping_ok ps (?D - {old'}) (?I - {old'}) old new"
      by (rule mapping_okI [OF d(1)]) (use tl other True mapping_okD [OF ps(1)] mapping_inj [OF ps(1)] in \<open>blast+\<close>)
    moreover have "row_edit (?D - {old'}) (?I - {old'}) old new"
      by (rule row_edit_same [OF "2.prems"(3)]) (use here True in auto)
    moreover have "moves_found ?c old new"
      using "2.prems"(5,6) True r by (fastforce simp: moves_found_def)
    moreover have "\<forall>m \<in> set (moves ?c). map_of ps (mv_to m) = None \<and> mv_from m \<notin> snd ` set ps \<and> mv_from m \<noteq> mv_to m"
      using "2.prems"(6) by (auto split: if_splits)
    ultimately show ?thesis using "2.IH" True r by simp
  next
    case False
    let ?c = "c\<lparr>moves := moves c @ [\<lparr>mv_from = old', mv_to = new'\<rparr>]\<rparr>"
    have mf: "moves_found ?c old new" using "2.prems"(5) here by (auto simp: moves_found_def)
    have fr: "\<forall>m \<in> set (moves ?c). map_of ps (mv_to m) = None \<and> mv_from m \<notin> snd ` set ps \<and> mv_from m \<noteq> mv_to m"
    proof -
      have "\<forall>m \<in> set (moves c). map_of ps (mv_to m) = None \<and> mv_from m \<notin> snd ` set ps \<and> mv_from m \<noteq> mv_to m"
        using "2.prems"(6) by (simp split: if_splits) blast
      moreover have "map_of ps new' = None" using d(2) by (simp add: map_of_eq_None_iff)
      ultimately show ?thesis using ps(2) False by (simp add: ball_Un)
    qed
    have eq: "parse_moves ((new', old') # ps) c = parse_moves ps ?c" using False by simp
    have mp': "mapping_ok ps (elems (deletions ?c)) (elems (insertions ?c)) old new" using ps(1) by simp
    have v: "vec_ok (deletions ?c)" "vec_ok (insertions ?c)"
      "row_edit (elems (deletions ?c)) (elems (insertions ?c)) old new" using "2.prems"(1-3) by simp_all
    show ?thesis unfolding eq using "2.IH" [unfolded if_not_P [OF False], OF v mp' mf fr] by simp
  qed
qed (auto simp: moves_found_def)

lemma parse_complete_correct:
  assumes "row_tracked c old new fs"
  shows "sets_ok (parse_complete c)"
    and "edit (elems (deletions (parse_complete c))) (elems (insertions (parse_complete c))) old new"
    and "moves_found (parse_complete c) old new"
    and "\<forall>m \<in> set (moves (parse_complete c)). mv_from m \<noteq> mv_to m"
    and "sorted (map mv_from (moves (parse_complete c)))"
    and "elems (modifications (parse_complete c)) = marked fs"
proof -
  have t: "sets_ok c" "row_edit (elems (deletions c)) (elems (insertions c)) old new"
    "mapping_ok (move_mapping c) (elems (deletions c)) (elems (insertions c)) old new" "moves c = []"
    "elems (modifications c) = marked fs"
    using assms by (simp_all add: row_tracked_def)
  then have "vec_ok (deletions c)" "vec_ok (insertions c)" "moves_found c old new" by (simp_all add: sets_ok_def moves_found_def)
  note p = parse_moves_correct [OF this(1,2) t(2,3) this(3)]
  let ?p = "parse_moves (move_mapping c) c"
  have f: "deletions (parse_complete c) = deletions ?p" "insertions (parse_complete c) = insertions ?p"
    "modifications (parse_complete c) = modifications ?p" "columns (parse_complete c) = columns ?p"
    "moves (parse_complete c) = sort_key mv_from (moves ?p)"
    by (simp_all add: parse_complete_def Let_def)
  show "sets_ok (parse_complete c)" using p t f by (simp add: sets_ok_def)
  show "edit (elems (deletions (parse_complete c))) (elems (insertions (parse_complete c))) old new"
    using p t f by (simp add: row_edit_edit)
  show "moves_found (parse_complete c) old new" using p t f by (simp add: moves_found_def)
  show "\<forall>m \<in> set (moves (parse_complete c)). mv_from m \<noteq> mv_to m" using p t f by simp
  show "sorted (map mv_from (moves (parse_complete c)))" using f by simp
  show "elems (modifications (parse_complete c)) = marked fs" using p t f by simp
qed

subsection \<open>Every sequence of operations on the rows\<close>

datatype 'a row_op = Append "'a list" | Change nat | Remove_last | Move_last_over nat | Swap nat nat

inductive row_step :: "'a list \<times> bool list \<Rightarrow> 'a row_op \<Rightarrow> 'a list \<times> bool list \<Rightarrow> bool" where
  "ys \<noteq> [] \<Longrightarrow> row_step (xs, fs) (Append ys) (xs @ ys, fs @ replicate (length ys) False)"
| "i < length xs \<Longrightarrow> row_step (xs, fs) (Change i) (xs, fs[i := True])"
| "xs \<noteq> [] \<Longrightarrow> row_step (xs, fs) Remove_last (butlast xs, butlast fs)"
| "i < length xs - 1 \<Longrightarrow> row_step (xs, fs) (Move_last_over i) (move_last_over i xs, move_last_over i fs)"
| "a < length xs \<Longrightarrow> b < length xs \<Longrightarrow> a \<noteq> b \<Longrightarrow>
     row_step (xs, fs) (Swap a b) (swap_nth a b xs, swap_nth a b fs)"

inductive_cases row_step_cases: "row_step (xs, fs) op (xs', fs')"

fun record_row_op :: "change_builder \<Rightarrow> nat \<Rightarrow> 'a row_op \<Rightarrow> change_builder" where
  "record_row_op c n (Append ys) = insert_rows_at c n (length ys) True"
| "record_row_op c n (Change i) = modify c i npos"
| "record_row_op c n Remove_last = move_over c (n - 1) (n - 1) True"
| "record_row_op c n (Move_last_over i) = move_over c i (n - 1) True"
| "record_row_op c n (Swap a b) = swap_rows c a b True"

inductive rows_recorded :: "'a list \<Rightarrow> change_builder \<Rightarrow> 'a list \<Rightarrow> bool list \<Rightarrow> bool" for old where
  row_start: "rows_recorded old empty_builder old (replicate (length old) False)"
| row_next: "rows_recorded old c xs fs \<Longrightarrow> row_step (xs, fs) op (xs', fs') \<Longrightarrow> length xs \<le> npos \<Longrightarrow>
    rows_recorded old (record_row_op c (length xs) op) xs' fs'"

lemma row_step_tracked:
  assumes "row_tracked c old xs fs" "row_step (xs, fs) op (xs', fs')" "length xs \<le> npos"
  shows "row_tracked (record_row_op c (length xs) op) old xs' fs'"
  by (rule row_step_cases [OF assms(2)])
    (use assms(1,3) in \<open>auto simp: append_row_tracked modify_row_tracked swap_tracked
        remove_last_tracked [simplified] move_over_tracked [simplified]\<close>)

lemma rows_recorded_tracked: "rows_recorded old c xs fs \<Longrightarrow> row_tracked c old xs fs"
  by (induction rule: rows_recorded.induct) (auto simp: empty_row_tracked row_step_tracked)

subsection \<open>Handing the change set over\<close>

lemma unrank_card: "card {k. k \<notin> S \<and> k < j} = j - rank S j"
proof -
  have "{k. k \<notin> S \<and> k < j} = {..<j} - S \<inter> {..<j}" by auto
  then show ?thesis by (simp add: rank_def card_Diff_subset)
qed

lemma nths_survivors: "nths (nths xs (- S)) B = nths xs {k. k \<notin> S \<and> k - rank S k \<in> B}"
proof -
  have "{k \<in> - S. \<exists>j \<in> B. card {k' \<in> - S. k' < k} = j} = {k. k \<notin> S \<and> k - rank S k \<in> B}"
    using unrank_card [of S] by auto
  then show ?thesis by (simp add: nths_nths)
qed

lemma finalize_correct:
  assumes "sets_ok c" "edit (elems (deletions c)) (elems (insertions c)) old new"
  shows "elems (modifications_new (finalize c)) = elems (modifications c) - elems (insertions c)"
    and "nths old (elems (modifications (finalize c))) = nths new (elems (modifications_new (finalize c)))"
    and "deletions (finalize c) = deletions c" "insertions (finalize c) = insertions c" "moves (finalize c) = moves c"
proof -
  let ?D = "elems (deletions c)" and ?I = "elems (insertions c)" and ?M = "elems (modifications c)"
  have v: "vec_ok (deletions c)" "vec_ok (insertions c)" "vec_ok (modifications c)" using assms(1) by (simp_all add: sets_ok_def)
  note e = isets.erase_all [OF v(3,2)]
  have old: "elems (modifications (finalize c)) = spread ?D (squash ?I ?M)"
    using e isets.room_for_all [OF _ v(1), of "erase_at_set (modifications c) (insertions c)"]
    by (simp add: finalize_def Let_def)
  show new: "elems (modifications_new (finalize c)) = ?M - ?I"
    using isets.remove_all [OF v(3,2)] by (simp add: finalize_def Let_def)
  have "{k. k \<notin> ?I \<and> k - rank ?I k \<in> squash ?I ?M} = ?M - ?I"
    using unrank_inj [of _ ?I] by (auto simp: squash_def)
  then have "nths new (?M - ?I) = nths (nths new (- ?I)) (squash ?I ?M)" by (simp add: nths_survivors)
  also have "\<dots> = nths (nths old (- ?D)) (squash ?I ?M)" using assms(2) by (simp add: edit_def)
  also have "\<dots> = nths old (spread ?D (squash ?I ?M))" by (simp add: nths_survivors spread_def)
  finally show "nths old (elems (modifications (finalize c))) = nths new (elems (modifications_new (finalize c)))"
    using old new by simp
qed (simp_all add: finalize_def Let_def)

subsection \<open>The moves found without a sort order\<close>

definition moves_between :: "change_builder \<Rightarrow> chunks \<Rightarrow> nat list \<Rightarrow> nat list \<Rightarrow> bool" where
  "moves_between c removed old new \<longleftrightarrow> (\<forall>m \<in> set (moves c). mv_from m \<in> elems removed \<and>
     mv_to m \<in> elems (insertions c) \<and> old ! mv_from m = new ! mv_to m)"

lemma unsorted_steps:
  assumes "vec_ok removed" "vec_ok (insertions c)" "moves_between c removed old new"
    "\<forall>r \<in> set rws. old ! prev_tv_index r = new ! tv_index r"
    "foldl (unsorted_step cand) (x, removed, c) rws = (x', removed', c')"
  shows "vec_ok removed' \<and> vec_ok (insertions c') \<and> moves_between c' removed' old new \<and>
    elems removed \<subseteq> elems removed' \<and> deletions c' = deletions c \<and> modifications c' = modifications c \<and> columns c' = columns c"
  using assms
proof (induction rws arbitrary: x removed c)
  case (Cons r rws)
  obtain x1 removed1 c1 where s: "unsorted_step cand (x, removed, c) r = (x1, removed1, c1)" by (rule prod_cases3)
  have "vec_ok removed1 \<and> vec_ok (insertions c1) \<and> moves_between c1 removed1 old new \<and>
    elems removed \<subseteq> elems removed1 \<and> deletions c1 = deletions c \<and> modifications c1 = modifications c \<and> columns c1 = columns c"
  proof (cases "(removed1, c1) = (removed, c)")
    case True
    then show ?thesis using Cons.prems by simp
  next
    case False
    then have "removed1 = iset_add removed (prev_tv_index r)"
      "c1 = c\<lparr>moves := moves c @ [\<lparr>mv_from = prev_tv_index r, mv_to = tv_index r\<rparr>],
              insertions := iset_add (insertions c) (tv_index r)\<rparr>"
      using s by (auto simp: unsorted_step_def Let_def split: if_splits)
    then show ?thesis
      using Cons.prems(1-4) add_correct [OF Cons.prems(1)] add_correct [OF Cons.prems(2)] by (auto simp: moves_between_def)
  qed
  then show ?case using Cons.IH [of removed1 c1 x1] Cons.prems(4,5) s by auto
qed simp

lemma calculate_unsorted_moves:
  assumes "length old \<le> npos"
  shows "sets_ok (calculate old new p (Some cand))" and "moves_found (calculate old new p (Some cand)) old new"
proof -
  let ?c = "calculate old new p (Some cand)"
  let ?new = "sort_key row_index (map (\<lambda>i. \<lparr>row_index = new ! i,
        prev_tv_index = npos, tv_index = i, shifted_tv_index = 0\<rparr>) [0..<length new])"
  obtain old_rows del where o: "collect_old old 0 0 [] = (old_rows, del)" by (rule prod.exhaust)
  obtain rws0 removed ins where m: "match_rows (sort_key row_index old_rows) ?new [] [] = (rws0, removed, ins)"
    by (rule prod_cases3)
  define rws where "rws = sort_key tv_index (filter (\<lambda>r. prev_tv_index r \<noteq> npos) rws0)"
  define mods where "mods = foldl (\<lambda>s r. if p (row_index r) then iset_add s (tv_index r) else s) [] rws"
  define ret where "ret = empty_builder\<lparr>deletions := del, insertions := ins, modifications := mods\<rparr>"
  have st: "compared old new rws del removed ins" using compared_start [OF o assms m] by (simp add: rws_def)
  have v: "vec_ok removed" "vec_ok (insertions ret)" "vec_ok (deletions ret)" "vec_ok (modifications ret)" "columns ret = []"
    using st mark_changed_correct [of "[]" p rws]
    by (auto simp: compared_def ret_def mods_def empty_builder_def new_builder_def)
  have row: "\<forall>r \<in> set rws. old ! prev_tv_index r = new ! tv_index r" using st by (auto simp: compared_def shared_rows_def)
  have mb: "moves_between ret removed old new" by (simp add: moves_between_def ret_def empty_builder_def new_builder_def)
  obtain x removed' c' where f: "foldl (unsorted_step cand) (0, removed, ret) rws = (x, removed', c')" by (rule prod_cases3)
  have c: "?c = c'\<lparr>deletions := iset_add_set (deletions c') removed'\<rparr>"
    using o m f by (simp add: calculate_def rws_def mods_def ret_def calculate_moves_unsorted_def Let_def)
  note u = unsorted_steps [OF v(1,2) mb row f]
  have a: "vec_ok (deletions ?c)" "elems (deletions ?c) = elems del \<union> elems removed'"
    using add_set_correct [of "deletions c'" removed'] u v(3) c by (auto simp: ret_def)
  show "sets_ok ?c" using a u v c by (simp add: sets_ok_def)
  show "moves_found ?c old new" using u a c by (auto simp: moves_found_def moves_between_def)
qed

end
