(* ===== verification/Change_Props.thy ===== *)
theory Change_Props
  imports Change_Rows
begin

section \<open>The properties of the change builder\<close>

text \<open>
  \<open>edit D I old new\<close>: deleting the rows \<open>D\<close> of \<open>old\<close> leaves what deleting the rows \<open>I\<close> of
  \<open>new\<close> leaves, which is what a client that updates a list view relies on. \<open>marked fs\<close> are the
  rows whose ghost flag says that they were modified since the last notification.
\<close>

lemma small_npos: "0 \<noteq> npos" "Suc 0 \<noteq> npos" "2 \<noteq> npos" "Suc (Suc 0) < npos" "Suc (Suc (Suc 0)) < npos"
  "Suc (Suc 0) \<le> npos" "Suc (Suc (Suc 0)) \<le> npos" "Suc (Suc (Suc (Suc 0))) \<le> npos"
  by (simp_all add: npos_def)

text \<open>C1: whatever sequence of insertions, modifications, erasures, moves and clears happened to a
  list, the builder that recorded it holds an edit from the old list to the new one, every
  reported move is a move of one row and is also reported as a deletion and an insertion, and
  exactly the modified rows are marked.\<close>

theorem list_changes_recorded:
  assumes "recorded old c new fs"
  shows "edit (elems (deletions c)) (elems (insertions c)) old new \<and>
    (\<forall>m \<in> set (moves c). mv_from m \<in> elems (deletions c) \<and> mv_to m \<in> elems (insertions c) \<and>
      old ! mv_from m = new ! mv_to m) \<and>
    elems (modifications c) = marked fs \<and>
    sets_ok c"
  using recorded_tracked [OF assms] by (simp_all add: tracked_def moves_ok_def)

lemma recorded_sample:
  "recorded [10, 11, 12] (record_op (record_op empty_builder 3 (Move 0 2)) 3 (Erase 0)) [12, 10::nat] [False, False]"
proof -
  have 1: "recorded [10, 11, 12] (record_op empty_builder 3 (Move 0 2)) [11, 12, 10::nat] [False, False, False]"
    using recorded.step [OF recorded.start [of "[10, 11, 12::nat]"] list_step.intros(5) [of 0 _ 2]]
    by (simp add: insert_rows_def drop_nth_def small_npos numeral_3_eq_3)
  show ?thesis
    using recorded.step [OF 1 list_step.intros(3) [of 0]]
    by (simp add: drop_nth_def small_npos numeral_3_eq_3)
qed

theorem list_changes_recorded_witness:
  "nths [10, 11, 12] (- elems (deletions (record_op (record_op empty_builder 3 (Move 0 2)) 3 (Erase 0 :: nat list_op)))) =
   nths [12, 10::nat] (- elems (insertions (record_op (record_op empty_builder 3 (Move 0 2)) 3 (Erase 0 :: nat list_op))))"
  using list_changes_recorded [OF recorded_sample] by (simp add: edit_def)

text \<open>After \<open>clear\<close> every row of the old collection is deleted, whatever the builder held
  before: the size of the old collection is computed back from the recorded changes.\<close>

theorem clear_deletes_all:
  assumes "recorded old c new fs" "length new < npos"
  shows "elems (deletions (clear_rows c (length new))) = {..<length old} \<and>
    elems (insertions (clear_rows c (length new))) = {} \<and>
    elems (modifications (clear_rows c (length new))) = {} \<and>
    moves (clear_rows c (length new)) = []"
  using clear_tracked(2) [OF recorded_tracked [OF assms(1)] assms(2)] by (simp add: clear_rows_def Let_def)

theorem clear_deletes_all_witness:
  "elems (deletions (clear_rows (record_op (record_op empty_builder 3 (Move 0 2)) 3 (Erase 0 :: nat list_op)) 2)) = {..<3}"
  using clear_deletes_all [OF recorded_sample] by (simp add: small_npos numeral_2_eq_2 numeral_3_eq_3)

text \<open>C3: whatever sequence of appends, modifications, deletions by moving the last row over and
  swaps happened to the rows of a table, the builder after \<open>parse_complete\<close> holds an edit, its
  moves are moves of one row to another place, reported in the order of their sources, and
  exactly the modified rows are marked.\<close>

theorem row_changes_recorded:
  assumes "rows_recorded old c new fs"
  shows "edit (elems (deletions (parse_complete c))) (elems (insertions (parse_complete c))) old new \<and>
    (\<forall>m \<in> set (moves (parse_complete c)). mv_from m \<in> elems (deletions (parse_complete c)) \<and>
      mv_to m \<in> elems (insertions (parse_complete c)) \<and> old ! mv_from m = new ! mv_to m \<and> mv_from m \<noteq> mv_to m) \<and>
    sorted (map mv_from (moves (parse_complete c))) \<and>
    elems (modifications (parse_complete c)) = marked fs"
  using parse_complete_correct [OF rows_recorded_tracked [OF assms]] by (simp_all add: moves_found_def)

lemma rows_recorded_sample:
  "rows_recorded [10, 11, 12] (record_row_op (record_row_op empty_builder 3 (Swap 0 2)) 3 (Move_last_over 0))
     [10, 11::nat] [False, False]"
proof -
  have 1: "rows_recorded [10, 11, 12] (record_row_op empty_builder 3 (Swap 0 2)) [12, 11, 10::nat] [False, False, False]"
    using row_next [OF row_start [of "[10, 11, 12::nat]"] row_step.intros(5) [of 0 _ 2]]
    by (simp add: swap_nth_def small_npos nth_Cons' numeral_3_eq_3)
  show ?thesis
    using row_next [OF 1 row_step.intros(4) [of 0]]
    by (simp add: move_last_over_def small_npos numeral_3_eq_3)
qed

theorem row_changes_recorded_witness:
  "sorted (map mv_from (moves (parse_complete
    (record_row_op (record_row_op empty_builder 3 (Swap 0 2)) 3 (Move_last_over 0 :: nat row_op)))))"
  using row_changes_recorded [OF rows_recorded_sample] by blast

text \<open>C2: the comparison of two versions of a sorted or linked collection: applying the computed
  deletions and insertions to the old rows gives the new rows, whatever the rows are and however
  often each occurs; a row is marked as modified only when the callback says that it changed,
  and every such row that is not an insertion is marked.\<close>

theorem calculate_is_edit:
  assumes "length old \<le> npos"
  shows "edit (elems (deletions (calculate old new p None))) (elems (insertions (calculate old new p None))) old new \<and>
    (\<forall>j \<in> elems (modifications (calculate old new p None)). j < length new \<and> p (new ! j)) \<and>
    (\<forall>j. j < length new \<and> j \<notin> elems (insertions (calculate old new p None)) \<and> p (new ! j) \<longrightarrow>
      j \<in> elems (modifications (calculate old new p None))) \<and>
    sets_ok (calculate old new p None)"
  using calculate_correct [OF assms] by blast+

theorem calculate_is_edit_witness:
  "nths [7, 5, 9, 5] (- elems (deletions (calculate [7, 5, 9, 5] [5, 7, 8] (\<lambda>r. r = 7) None))) =
   nths [5, 7, 8::nat] (- elems (insertions (calculate [7, 5, 9, 5] [5, 7, 8] (\<lambda>r. r = 7) None)))"
  using calculate_is_edit [of "[7, 5, 9, 5]" "[5, 7, 8]" "\<lambda>r. r = 7"] by (simp add: edit_def small_npos)

text \<open>C8: the search for common blocks: the matches found are disjoint, in increasing order, inside
  the two sequences, and the sequences agree on every match; the recursion ends for every input.\<close>

theorem longest_matches_chain:
  assumes "b_rows B b" "begin1 \<le> length a" "begin2 \<le> length b"
  shows "block_chain (map l_row a) B begin1 begin2 (length a) (length b)
    (find_longest_matches a b modified begin1 (length a) begin2 (length b))"
  using find_longest_matches_chain [OF assms(1) order_refl assms(2,3)] .

theorem longest_matches_chain_witness:
  "block_chain [4, 6] [4, 6::nat] 0 0 2 2 (find_longest_matches
     [\<lparr>l_row = 4, l_tv = 0\<rparr>, \<lparr>l_row = 6, l_tv = 1\<rparr>] [\<lparr>l_row = 4, l_tv = 0\<rparr>, \<lparr>l_row = 6, l_tv = 1\<rparr>] [] 0 2 0 2)"
  using longest_matches_chain [of "[4, 6]" "[\<lparr>l_row = 4, l_tv = 0\<rparr>, \<lparr>l_row = 6, l_tv = 1\<rparr>]" 0
      "[\<lparr>l_row = 4, l_tv = 0\<rparr>, \<lparr>l_row = 6, l_tv = 1\<rparr>]" 0 "[]"]
  by (simp add: b_rows_def numeral_2_eq_2)

text \<open>the moves that the comparison of unsorted results reports: each is also a deletion and an
  insertion, and the row at its source is the row at its destination, which is what \<open>verify()\<close>
  and the documentation of \<open>CollectionChangeSet::moves\<close> say.\<close>

theorem unsorted_moves_real:
  assumes "length old \<le> npos" "m \<in> set (moves (calculate old new p (Some candidates)))"
  shows "mv_from m \<in> elems (deletions (calculate old new p (Some candidates))) \<and>
    mv_to m \<in> elems (insertions (calculate old new p (Some candidates))) \<and>
    old ! mv_from m = new ! mv_to m"
  using calculate_unsorted_moves(2) [OF assms(1), of new p candidates] assms(2) by (auto simp: moves_found_def)

theorem unsorted_moves_real_witness:
  "\<exists>m. m \<in> set (moves (calculate [1, 2] [2, 1] (\<lambda>r. False) (Some (set_len 3)))) \<and> mv_from m \<in>
     elems (deletions (calculate [1, 2] [2, 1] (\<lambda>r. False) (Some (set_len 3))))"
proof -
  have "moves (calculate [1, 2] [2, 1] (\<lambda>r. False) (Some (set_len 3))) \<noteq> []"
    by (simp add: calculate_def Let_def calculate_moves_unsorted_def unsorted_step_def set_len_def push_back_def
      iset_contains_def iset_count_def find_index_def find_from_def find_if_def begin_it_def end_it_def at_def
      count_tail_def count_chunks.simps count_ranges.simps not_end_def small_npos sz_sub_def empty_builder_def new_builder_def)
  then obtain m where m: "m \<in> set (moves (calculate [1, 2] [2, 1] (\<lambda>r. False) (Some (set_len 3))))"
    by (metis list.set_intros(1) neq_Nil_conv)
  show ?thesis using unsorted_moves_real [OF _ m] m by (intro exI [of _ m]) (simp add: small_npos)
qed

text \<open>handing a change set over: the modifications in the new collection are the marked rows that
  are not insertions, the modifications in the old collection are the same rows at their old
  places, and deletions, insertions and moves are handed over as they are.\<close>

theorem finalize_modifications:
  assumes "sets_ok c" "edit (elems (deletions c)) (elems (insertions c)) old new"
  shows "elems (modifications_new (finalize c)) = elems (modifications c) - elems (insertions c) \<and>
    nths old (elems (modifications (finalize c))) = nths new (elems (modifications_new (finalize c))) \<and>
    deletions (finalize c) = deletions c \<and> insertions (finalize c) = insertions c \<and> moves (finalize c) = moves c"
  using finalize_correct [OF assms] by simp_all

theorem finalize_modifications_witness:
  "nths [3, 4] (elems (modifications (finalize (empty_builder\<lparr>modifications := set_len 1\<rparr>)))) =
   nths [3, 4::nat] (elems (modifications_new (finalize (empty_builder\<lparr>modifications := set_len 1\<rparr>))))"
  using finalize_modifications [of "empty_builder\<lparr>modifications := set_len 1\<rparr>" "[3, 4::nat]" "[3, 4]"]
  by (simp add: sets_ok_def empty_builder_def new_builder_def set_len_correct)

end
