(* ===== verification/Log_Input.thy ===== *)
theory Log_Input
  imports Prelude "HOL-Library.Word" "HOL-Library.Monad_Syntax"
begin

section \<open>The input of the transaction log parser\<close>

text \<open>
  \<open>TransactLogParser\<close> (\<open>realm/impl/transact_log.hpp\<close>) reads bytes from a chunk of memory
  between \<open>m_input_begin\<close> and \<open>m_input_end\<close>; when the chunk is used up it asks the
  \<open>NoCopyInputStream\<close> for the next one. The state of the input is therefore the rest of
  the current chunk and the list of the chunks to come. A stream that has no further
  chunk, and one whose next chunk is empty, both answer false, as the streams of
  \<open>realm/impl/input_stream.hpp\<close> do.

  A reader returns the value read and the new state, or \<open>None\<close> where the code throws
  \<open>BadTransactLog\<close>. The predicate \<open>reads\<close> says that a reader consumes given bytes and
  yields a given value, whichever way the bytes are cut into chunks; the rules for it are
  collected in \<open>reads\<close>.
\<close>

type_synonym byte = "8 word"
type_synonym input = "byte list \<times> byte list list"
type_synonym 'a reader = "input \<Rightarrow> ('a \<times> input) option"

named_theorems reads_intros
named_theorems shrink_intros

subsection \<open>Bytes\<close>

fun next_input_buffer :: "input \<Rightarrow> bool \<times> input" where
  "next_input_buffer (cur, []) = (False, (cur, []))"
| "next_input_buffer (cur, b # bs) = (b \<noteq> [], (b, bs))"

definition has_next :: "input \<Rightarrow> bool \<times> input" where
  "has_next st = (if fst st \<noteq> [] then (True, st) else next_input_buffer st)"

fun read_char :: "byte reader" where
  "read_char (c # cur, bs) = Some (c, (cur, bs))"
| "read_char ([], bs) =
     (case next_input_buffer ([], bs) of
        (True, (c # cur, bs')) \<Rightarrow> Some (c, (cur, bs'))
      | _ \<Rightarrow> None)"

fun read_bytes :: "nat \<Rightarrow> byte list reader" where
  "read_bytes n (cur, []) =
     (if n \<le> length cur then Some (take n cur, (drop n cur, [])) else None)"
| "read_bytes n (cur, b # bs) =
     (if n \<le> length cur then Some (take n cur, (drop n cur, b # bs))
      else if b = [] then None
      else do { (d, st) \<leftarrow> read_bytes (n - length cur) (b, bs); Some (cur @ d, st) })"

definition read_buffer :: "nat \<Rightarrow> byte list reader" where
  "read_buffer n st =
     (if n \<le> length (fst st) then Some (take n (fst st), (drop n (fst st), snd st))
      else read_bytes n st)"

subsection \<open>What a reader consumes\<close>

fun flat_input :: "input \<Rightarrow> byte list" where
  "flat_input (cur, bs) = cur @ concat bs"

fun input_ok :: "input \<Rightarrow> bool" where
  "input_ok (cur, bs) \<longleftrightarrow> [] \<notin> set bs"

definition reads :: "'a reader \<Rightarrow> 'a \<Rightarrow> byte list \<Rightarrow> bool" where
  "reads m v bytes \<longleftrightarrow> (\<forall>st r. input_ok st \<longrightarrow> flat_input st = bytes @ r \<longrightarrow>
     (\<exists>st'. m st = Some (v, st') \<and> input_ok st' \<and> flat_input st' = r))"

lemma reads_return [reads_intros]: "reads (\<lambda>st. Some (v, st)) v []"
  by (simp add: reads_def)

lemma reads_bind:
  assumes "reads m v bs" and "reads (f v) w cs"
  shows "reads (\<lambda>st. Option.bind (m st) (\<lambda>(x, st'). f x st')) w (bs @ cs)"
  unfolding reads_def
proof (intro allI impI)
  fix st r
  assume ok: "input_ok st" and fl: "flat_input st = (bs @ cs) @ r"
  then obtain st1 where 1: "m st = Some (v, st1)" "input_ok st1" "flat_input st1 = cs @ r"
    using assms(1) unfolding reads_def by (metis append_assoc)
  then obtain st2 where "f v st1 = Some (w, st2)" "input_ok st2" "flat_input st2 = r"
    using assms(2) unfolding reads_def by metis
  with 1 show "\<exists>st'. Option.bind (m st) (\<lambda>(x, st'). f x st') = Some (w, st')
      \<and> input_ok st' \<and> flat_input st' = r"
    by simp
qed

lemma reads_let [reads_intros]: "reads (f v) w bs \<Longrightarrow> reads (\<lambda>st. let x = v in f x st) w bs"
  by simp

lemma reads_if_True: "P \<Longrightarrow> reads f w bs \<Longrightarrow> reads (\<lambda>st. if P then f st else g st) w bs"
  by simp

lemma reads_if_False: "\<not> P \<Longrightarrow> reads g w bs \<Longrightarrow> reads (\<lambda>st. if P then f st else g st) w bs"
  by simp

lemma reads_map:
  "reads m v bs \<Longrightarrow> reads (\<lambda>st. Option.bind (m st) (\<lambda>(x, st'). Some (f x, st'))) (f v) bs"
  using reads_bind [of m v bs "\<lambda>x st'. Some (f x, st')" "f v" "[]"] by (simp add: reads_return)

lemma reads_char [reads_intros]: "reads read_char c [c]"
  unfolding reads_def
proof (intro allI impI)
  fix st r
  assume ok: "input_ok st" and fl: "flat_input st = [c] @ r"
  obtain cur bs where st: "st = (cur, bs)" by (cases st)
  show "\<exists>st'. read_char st = Some (c, st') \<and> input_ok st' \<and> flat_input st' = r"
  proof (cases cur)
    case Nil
    with ok fl st obtain b bs' where "bs = b # bs'" "b \<noteq> []" by (cases bs) auto
    with Nil ok fl st show ?thesis by (cases b) auto
  next
    case (Cons a list)
    with ok fl st show ?thesis by auto
  qed
qed

lemma reads_bytes_aux:
  "[] \<notin> set bs \<Longrightarrow> n \<le> length (flat_input (cur, bs)) \<Longrightarrow>
    \<exists>st'. read_bytes n (cur, bs) = Some (take n (flat_input (cur, bs)), st') \<and> input_ok st'
      \<and> flat_input st' = drop n (flat_input (cur, bs))"
proof (induction bs arbitrary: n cur)
  case Nil
  then show ?case by simp
next
  case (Cons b bs)
  show ?case
  proof (cases "n \<le> length cur")
    case True
    with Cons.prems show ?thesis by simp
  next
    case False
    from Cons.prems False have "[] \<notin> set bs" "n - length cur \<le> length (flat_input (b, bs))" by auto
    from Cons.IH [OF this] obtain st' where
      "read_bytes (n - length cur) (b, bs) = Some (take (n - length cur) (flat_input (b, bs)), st')"
      "input_ok st'" "flat_input st' = drop (n - length cur) (flat_input (b, bs))"
      by blast
    with False Cons.prems show ?thesis by (cases st') auto
  qed
qed

lemma reads_bytes [reads_intros]: "n = length bs \<Longrightarrow> reads (read_bytes n) bs bs"
  unfolding reads_def
proof (intro allI impI)
  fix st r
  assume n: "n = length bs" and ok: "input_ok st" and fl: "flat_input st = bs @ r"
  obtain cur cs where st: "st = (cur, cs)" by (cases st)
  with ok fl n have "[] \<notin> set cs" "n \<le> length (flat_input (cur, cs))" by simp_all
  from reads_bytes_aux [OF this] obtain st' where
    "read_bytes n st = Some (take n (flat_input st), st')" "input_ok st'" "flat_input st' = drop n (flat_input st)"
    using st by auto
  moreover from fl n have "take n (flat_input st) = bs" "drop n (flat_input st) = r" by auto
  ultimately show "\<exists>st'. read_bytes n st = Some (bs, st') \<and> input_ok st' \<and> flat_input st' = r"
    by auto
qed

lemma reads_buffer [reads_intros]: "n = length bs \<Longrightarrow> reads (read_buffer n) bs bs"
  unfolding reads_def
proof (intro allI impI)
  fix st r
  assume n: "n = length bs" and ok: "input_ok st" and fl: "flat_input st = bs @ r"
  obtain cur cs where st: "st = (cur, cs)" by (cases st)
  show "\<exists>st'. read_buffer n st = Some (bs, st') \<and> input_ok st' \<and> flat_input st' = r"
  proof (cases "n \<le> length cur")
    case True
    from fl n have "take n (flat_input st) = bs" "drop n (flat_input st) = r" by auto
    with True st have "take n cur = bs" "drop n cur @ concat cs = r" by simp_all
    with True st ok show ?thesis by (simp add: read_buffer_def)
  next
    case False
    with reads_bytes [OF n] ok fl st show ?thesis
      by (simp add: read_buffer_def reads_def)
  qed
qed

subsection \<open>Readers do not add input\<close>

definition shrinks :: "'a reader \<Rightarrow> bool" where
  "shrinks m \<longleftrightarrow> (\<forall>st v st'. m st = Some (v, st') \<longrightarrow> length (flat_input st') \<le> length (flat_input st))"

lemma shrinks_return [shrink_intros]: "shrinks (\<lambda>st. Some (v, st))"
  by (simp add: shrinks_def)

lemma shrinks_None [shrink_intros]: "shrinks (\<lambda>st. None)"
  by (simp add: shrinks_def)

lemma shrinks_bind [shrink_intros]:
  assumes "shrinks m" and "\<And>x. shrinks (f x)"
  shows "shrinks (\<lambda>st. Option.bind (m st) (\<lambda>(x, st'). f x st'))"
  using assms unfolding shrinks_def by (fastforce split: Option.bind_splits intro: order.trans)

lemma shrinks_if [shrink_intros]:
  "shrinks f \<Longrightarrow> shrinks g \<Longrightarrow> shrinks (\<lambda>st. if P then f st else g st)"
  by (cases P) simp_all

lemma shrinks_let [shrink_intros]: "shrinks (f v) \<Longrightarrow> shrinks (\<lambda>st. let x = v in f x st)"
  by simp

lemma read_char_less: "read_char st = Some (c, st') \<Longrightarrow> length (flat_input st') < length (flat_input st)"
proof (induction st rule: read_char.induct)
  case (1 c cur bs)
  then show ?case by auto
next
  case (2 bs)
  then show ?case by (cases bs) (auto split: list.splits bool.splits prod.splits)
qed

lemma shrinks_char [shrink_intros]: "shrinks read_char"
  unfolding shrinks_def by (auto dest!: read_char_less)

lemma shrinks_bytes [shrink_intros]: "shrinks (read_bytes n)"
  unfolding shrinks_def
proof (intro allI impI)
  fix st v st'
  assume "read_bytes n st = Some (v, st')"
  then show "length (flat_input st') \<le> length (flat_input st)"
  proof (induction n st arbitrary: v st' rule: read_bytes.induct)
    case (1 n cur)
    then show ?case by (auto split: if_splits)
  next
    case (2 n cur b bs)
    show ?case
    proof (cases "n \<le> length cur")
      case True
      with "2.prems" show ?thesis by auto
    next
      case False
      with "2.prems" obtain d where b: "b \<noteq> []" and
        d: "read_bytes (n - length cur) (b, bs) = Some (d, st')"
        by (auto split: if_splits Option.bind_splits)
      from "2.IH" [OF False b d] show ?thesis by simp
    qed
  qed
qed

lemma shrinks_buffer [shrink_intros]: "shrinks (read_buffer n)"
  using shrinks_bytes [of n] unfolding shrinks_def read_buffer_def
  by (force split: if_splits)

end
