(* ===== verification/Varint.thy ===== *)
theory Varint
  imports Log_Input
begin

unbundle bit_operations_syntax

section \<open>The integer encoding of the transaction log\<close>

text \<open>
  \<open>TransactLogEncoder::encode_int\<close> and \<open>TransactLogParser::read_int\<close> are templates over the
  integer type. A type is described by \<open>std::numeric_limits\<close>: its number of value bits and
  whether it is signed; values are integers of its range, so that the conversions and the
  shifts of the code are exact, and the places where the code wraps around (the negation of
  an unsigned value) write the modulus out. The instances the log uses are \<open>size_t\<close>,
  \<open>int64_t\<close>, \<open>int\<close> (also \<open>int32_t\<close>) and \<open>char\<close>.
\<close>

datatype int_type = Int_Type (digits: nat) (is_signed: bool)

definition t_size :: int_type where "t_size = Int_Type 64 False"
definition t_int64 :: int_type where "t_int64 = Int_Type 63 True"
definition t_int :: int_type where "t_int = Int_Type 31 True"
definition t_char :: int_type where "t_char = Int_Type 7 True"

definition type_max :: "int_type \<Rightarrow> int" where
  "type_max T = 2 ^ digits T - 1"

definition type_min :: "int_type \<Rightarrow> int" where
  "type_min T = (if is_signed T then - (2 ^ digits T) else 0)"

definition representable :: "int_type \<Rightarrow> int \<Rightarrow> bool" where
  "representable T v \<longleftrightarrow> type_min T \<le> v \<and> v \<le> type_max T"

subsection \<open>Encoding\<close>

definition max_enc_bytes :: "int_type \<Rightarrow> nat" where
  "max_enc_bytes T = (1 + digits T + 6) div 7"

fun enc_bytes :: "nat \<Rightarrow> int \<Rightarrow> byte list \<times> int" where
  "enc_bytes 0 v = ([], v)"
| "enc_bytes (Suc n) v =
     (if drop_bit 6 v = 0 then ([], v)
      else let (bs, w) = enc_bytes n (drop_bit 7 v)
           in (word_of_int (128 OR (v AND 127)) # bs, w))"

definition encode_int :: "int_type \<Rightarrow> int \<Rightarrow> byte list" where
  "encode_int T v =
     (let negative = v < 0;
          value = (if negative then - (v + 1) else v);
          (bs, w) = enc_bytes (max_enc_bytes T) value
      in bs @ [word_of_int (if negative then 64 OR w else w)])"

subsection \<open>Decoding\<close>

fun read_parts :: "int_type \<Rightarrow> nat \<Rightarrow> nat \<Rightarrow> int \<Rightarrow> (int \<times> int) reader" where
  "read_parts T 0 i value st = None"
| "read_parts T (Suc n) i value st = do {
     (c, st) \<leftarrow> read_char st;
     let part = uint c;
     if 255 < part then None
     else if part AND 128 = 0 then
       let p = part AND 63
       in if drop_bit (i * 7) (type_max T) < p then None
          else Some ((value OR push_bit (i * 7) p, part), st)
     else if n = 0 then None
     else read_parts T n (Suc i) (value OR push_bit (i * 7) (part AND 127)) st }"

definition negate_value :: "int_type \<Rightarrow> int \<Rightarrow> int option" where
  "negate_value T value =
     (if is_signed T then
        (if - value < type_min T + 1 then None else Some (- value - 1))
      else let neg = (- value) mod 2 ^ digits T
           in if (neg - 1) mod 2 ^ digits T > neg then None
              else Some ((neg - 1) mod 2 ^ digits T))"

definition read_int :: "int_type \<Rightarrow> int reader" where
  "read_int T st = do {
     ((value, part), st) \<leftarrow> read_parts T (max_enc_bytes T) 0 0 st;
     if part AND 64 \<noteq> 0 then do { value \<leftarrow> negate_value T value; Some (value, st) }
     else Some (value, st) }"

declare read_parts.simps(2) [simp del]

subsection \<open>Bits\<close>

lemma and_127: "(v::int) AND 127 = v mod 128"
  using take_bit_eq_mask [of 7 v] by (simp add: mask_eq_exp_minus_1 take_bit_eq_mod)

lemma and_63: "(v::int) AND 63 = v mod 64"
  using take_bit_eq_mask [of 6 v] by (simp add: mask_eq_exp_minus_1 take_bit_eq_mod)

lemma or_push_bit:
  fixes a b :: int
  assumes "0 \<le> a" and "a < 2 ^ n"
  shows "a OR push_bit n b = a + b * 2 ^ n"
proof -
  have "take_bit n a = a" using assms by (simp add: take_bit_int_eq_self_iff)
  then have "a AND push_bit n b = 0"
    by (metis (no_types, lifting) and.assoc and_zero_eq mask_eq_exp_minus_1 push_bit_and
        push_bit_mask_eq push_bit_of_0 take_bit_eq_mask and.commute take_bit_push_bit
        diff_self_eq_0 push_bit_take_bit take_bit_0 take_bit_and)
  then show ?thesis by (simp add: disjunctive_add_eq_or [symmetric] push_bit_eq_mult)
qed

lemma or_128: "0 \<le> v \<Longrightarrow> v < 128 \<Longrightarrow> 128 OR v = v + (128::int)"
  using or_push_bit [of v 7 1] by (simp add: or.commute push_bit_eq_mult)

lemma or_64: "0 \<le> v \<Longrightarrow> v < 64 \<Longrightarrow> 64 OR v = v + (64::int)"
  using or_push_bit [of v 6 1] by (simp add: or.commute push_bit_eq_mult)

lemma and_128: "(v::int) AND 128 = 0 \<longleftrightarrow> even (v div 128)"
  using and_exp_eq_0_iff_not_bit [of v 7] by (simp add: bit_iff_odd)

lemma and_64: "(v::int) AND 64 = 0 \<longleftrightarrow> even (v div 64)"
  using and_exp_eq_0_iff_not_bit [of v 6] by (simp add: bit_iff_odd)

lemma uint_byte: "0 \<le> v \<Longrightarrow> v < 256 \<Longrightarrow> uint (word_of_int v :: byte) = v"
  by (simp add: uint_word_of_int take_bit_int_eq_self_iff)

subsection \<open>Reading back what was written\<close>

lemma enc_bytes_small: "drop_bit 6 v = 0 \<Longrightarrow> enc_bytes n v = ([], v)"
  by (cases n) simp_all

lemma drop_bit_6_zero: "0 \<le> v \<Longrightarrow> drop_bit 6 v = (0::int) \<longleftrightarrow> v < 64"
  unfolding drop_bit_eq_div by auto

lemma enc_bytes_step:
  assumes "0 \<le> v" and "\<not> v < 64"
  shows "enc_bytes (Suc n) v = (word_of_int (128 OR (v AND 127)) # fst (enc_bytes n (v div 128)),
    snd (enc_bytes n (v div 128)))"
proof -
  have "drop_bit 6 v \<noteq> 0" using assms drop_bit_6_zero by blast
  moreover have "drop_bit 7 v = v div 128" by (simp add: drop_bit_eq_div)
  ultimately show ?thesis by (simp only: enc_bytes.simps if_False Let_def case_prod_unfold)
qed

lemma continuation_byte:
  assumes "0 \<le> (v::int)"
  shows "uint (word_of_int (128 OR (v AND 127)) :: byte) = v mod 128 + 128"
proof -
  have r: "0 \<le> v mod 128" "v mod 128 < 128" by simp_all
  have "128 OR (v AND 127) = v mod 128 + 128"
    unfolding and_127 using r by (rule or_128)
  then show ?thesis using r uint_byte [of "v mod 128 + 128"] by (simp only:)
qed

lemma continuation_parts:
  assumes "part = v mod 128 + (128::int)"
  shows "\<not> 255 < part" and "part AND 128 \<noteq> 0" and "part AND 127 = v mod 128"
proof -
  obtain r where r: "v mod 128 = r" "0 \<le> r" "r < 128" by simp
  have "part div 128 = 1" "part < 256" using assms r by simp_all
  then show "\<not> 255 < part" and "part AND 128 \<noteq> 0" by (simp_all add: and_128)
  show "part AND 127 = v mod 128" using assms by (simp add: and_127)
qed

lemma last_byte:
  assumes "0 \<le> (v::int)" "v < 64"
  shows "uint (word_of_int (if neg then 64 OR v else v) :: byte) = (if neg then v + 64 else v)"
  using assms by (simp add: or_64 uint_byte)

lemma last_parts:
  assumes "0 \<le> (v::int)" "v < 64" and "part = (if neg then v + 64 else v)"
  shows "\<not> 255 < part" and "part AND 128 = 0" and "part AND 63 = v"
    and "part AND 64 \<noteq> 0 \<longleftrightarrow> neg"
proof -
  have "part div 128 = 0" "part div 64 = (if neg then 1 else 0)" "part mod 64 = v" "part < 256"
    using assms by (auto split: if_splits)
  then show "\<not> 255 < part" and "part AND 128 = 0" and "part AND 63 = v"
    and "part AND 64 \<noteq> 0 \<longleftrightarrow> neg"
    by (simp_all add: and_128 and_64 and_63)
qed

lemma reads_step:
  assumes "\<And>st. m st = Option.bind (read_char st) (\<lambda>(c, st). f c st)"
    and "reads (f c) v bs"
  shows "reads m v (c # bs)"
proof -
  have "reads (\<lambda>st. Option.bind (read_char st) (\<lambda>(c, st). f c st)) v ([c] @ bs)"
    using reads_bind [of read_char c "[c]" f v bs] reads_char assms(2) by blast
  moreover have "m = (\<lambda>st. Option.bind (read_char st) (\<lambda>(c, st). f c st))"
    using assms(1) by auto
  ultimately show ?thesis by simp
qed

lemma shift_split:
  fixes acc v :: int
  shows "acc + v mod 128 * 2 ^ (i * 7) + v div 128 * 2 ^ (Suc i * 7) = acc + v * 2 ^ (i * 7)"
proof -
  obtain q r where qr: "v div 128 = q" "v mod 128 = r" by blast
  then have "v = q * 128 + r" by (metis div_mult_mod_eq)
  then show ?thesis unfolding qr by (simp add: power_add algebra_simps)
qed

lemma div_shift_le: "(v::int) div 128 * 2 ^ (Suc i * 7) \<le> v * 2 ^ (i * 7)"
proof -
  have "v div 128 * 128 \<le> v" by presburger
  then have "v div 128 * 128 * 2 ^ (i * 7) \<le> v * 2 ^ (i * 7)"
    by (rule mult_right_mono) simp
  then show ?thesis by (simp add: power_add algebra_simps)
qed

lemma mod_shift_bound:
  fixes acc v :: int
  assumes "0 \<le> acc" and "acc < 2 ^ (i * 7)"
  shows "acc + v mod 128 * 2 ^ (i * 7) < 2 ^ (Suc i * 7)"
proof -
  have "v mod 128 \<le> 127" by presburger
  then have "v mod 128 * 2 ^ (i * 7) \<le> 127 * 2 ^ (i * 7)"
    by (rule mult_right_mono) simp
  moreover have "2 ^ (Suc i * 7) = 128 * (2::int) ^ (i * 7)" by (simp add: power_add)
  ultimately show ?thesis using assms by linarith
qed

lemma reads_parts_last:
  assumes v: "0 \<le> v" "v < 64" and "0 \<le> acc" and "acc < 2 ^ (i * 7)"
    and "v * 2 ^ (i * 7) \<le> type_max T"
  shows "\<exists>part. (part AND 64 \<noteq> 0 \<longleftrightarrow> neg) \<and>
    reads (read_parts T (Suc n) i acc) (acc + v * 2 ^ (i * 7), part)
      [word_of_int (if neg then 64 OR v else v)]"
proof (intro exI conjI)
  let ?c = "word_of_int (if neg then 64 OR v else v) :: byte"
  note c = last_parts [OF v last_byte [OF v]]
  show "uint ?c AND 64 \<noteq> 0 \<longleftrightarrow> neg" by (rule c)
  have "\<not> drop_bit (i * 7) (type_max T) < v"
    using zdiv_mono1 [OF assms(5), of "2 ^ (i * 7)"] by (simp add: drop_bit_eq_div)
  moreover have "acc OR push_bit (i * 7) v = acc + v * 2 ^ (i * 7)"
    using assms(3,4) by (rule or_push_bit)
  ultimately show "reads (read_parts T (Suc n) i acc) (acc + v * 2 ^ (i * 7), uint ?c) [?c]"
    by (intro reads_step [OF read_parts.simps(2)])
      (simp add: c Let_def reads_return del: uint_word_of_int)
qed

lemma reads_parts:
  assumes "0 \<le> v" and "v < 2 ^ (7 * n + 6)" and "n \<le> m"
    and "0 \<le> acc" and "acc < 2 ^ (i * 7)" and "v * 2 ^ (i * 7) \<le> type_max T"
    and "enc_bytes m v = (bs, w)"
  shows "\<exists>part. (part AND 64 \<noteq> 0 \<longleftrightarrow> neg) \<and>
    reads (read_parts T (Suc n) i acc) (acc + v * 2 ^ (i * 7), part)
      (bs @ [word_of_int (if neg then 64 OR w else w)])"
  using assms
proof (induction n arbitrary: v m i acc bs)
  case (0 v m i acc bs)
  then have v: "0 \<le> v" "v < 64" by simp_all
  then show ?case using reads_parts_last [OF v, of acc i T neg 0] 0
    by (cases neg) (auto simp: enc_bytes_small drop_bit_6_zero)
next
  case (Suc n v m i acc bs)
  show ?case
  proof (cases "v < 64")
    case True
    then show ?thesis using reads_parts_last [OF Suc.prems(1) True, of acc i T neg "Suc n"] Suc.prems
      by (cases neg) (auto simp: enc_bytes_small drop_bit_6_zero)
  next
    case False
    obtain m' where m: "m = Suc m'" using Suc.prems(3) by (cases m) auto
    obtain bs' where e: "enc_bytes m' (v div 128) = (bs', w)"
      and bs: "bs = word_of_int (128 OR (v AND 127)) # bs'"
      using Suc.prems(7) enc_bytes_step [OF Suc.prems(1) False] unfolding m
      by (cases "enc_bytes m' (v div 128)") (simp del: enc_bytes.simps)
    let ?acc = "acc OR push_bit (i * 7) (v mod 128)"
    have acc: "?acc = acc + v mod 128 * 2 ^ (i * 7)"
      using Suc.prems(4,5) by (rule or_push_bit)
    have "?acc < 2 ^ (Suc i * 7)" "0 \<le> ?acc"
      using mod_shift_bound [OF Suc.prems(4,5)] acc Suc.prems(4) by simp_all
    moreover have "v div 128 * 2 ^ (Suc i * 7) \<le> type_max T"
      using div_shift_le Suc.prems(6) order.trans by blast
    moreover have "v div 128 < 2 ^ (7 * n + 6)" using Suc.prems(2) by (simp add: power_add)
    ultimately obtain part where part: "part AND 64 \<noteq> 0 \<longleftrightarrow> neg"
      and r: "reads (read_parts T (Suc n) (Suc i) ?acc)
         (?acc + v div 128 * 2 ^ (Suc i * 7), part)
         (bs' @ [word_of_int (if neg then 64 OR w else w)])"
      using Suc.IH [of "v div 128" m' ?acc "Suc i" bs', OF _ _ _ _ _ _ e] Suc.prems(1,3) m
      by (metis Suc_le_mono div_int_pos_iff zero_le_numeral)
    have eq: "?acc + v div 128 * 2 ^ (Suc i * 7) = acc + v * 2 ^ (i * 7)"
      unfolding acc by (rule shift_split)
    have "reads (read_parts T (Suc (Suc n)) i acc) (acc + v * 2 ^ (i * 7), part)
        (word_of_int (128 OR (v AND 127)) # (bs' @ [word_of_int (if neg then 64 OR w else w)]))"
    proof (rule reads_step [OF read_parts.simps(2)])
      note c = continuation_parts [OF continuation_byte [OF Suc.prems(1)]]
      show "reads (\<lambda>st. let part = uint (word_of_int (128 OR (v AND 127)) :: byte) in
         if 255 < part then None
         else if part AND 128 = 0 then
           let p = part AND 63
           in if drop_bit (i * 7) (type_max T) < p then None
              else Some ((acc OR push_bit (i * 7) p, part), st)
         else if Suc n = 0 then None
         else read_parts T (Suc n) (Suc i) (acc OR push_bit (i * 7) (part AND 127)) st)
       (acc + v * 2 ^ (i * 7), part) (bs' @ [word_of_int (if neg then 64 OR w else w)])"
        unfolding Let_def using c r eq by simp
    qed
    with part bs show ?thesis by auto
  qed
qed

text \<open>Every value of a type is read back as it was written, by the reader of the same type.
  The number of bytes is bounded by the table in the comment above \<open>encode_int\<close>.\<close>

lemma max_enc_bytes_pos: "\<exists>n. max_enc_bytes T = Suc n \<and> digits T \<le> 7 * n + 6"
proof (intro exI conjI)
  show "max_enc_bytes T = Suc (digits T div 7)"
    by (simp add: max_enc_bytes_def)
  have "digits T mod 7 < 7" by simp
  then show "digits T \<le> 7 * (digits T div 7) + 6"
    using div_mult_mod_eq [of "digits T" 7] by linarith
qed

lemma type_max_less:
  assumes "digits T \<le> n"
  shows "type_max T < 2 ^ n"
proof -
  have "(2::int) ^ digits T \<le> 2 ^ n" using assms by (rule power_increasing) simp
  then show ?thesis unfolding type_max_def by linarith
qed

lemma reads_int:
  assumes "representable T v"
  shows "reads (read_int T) v (encode_int T v)"
proof -
  define neg where "neg = (v < 0)"
  define u where "u = (if neg then - (v + 1) else v)"
  obtain n where n: "max_enc_bytes T = Suc n" and d: "digits T \<le> 7 * n + 6"
    using max_enc_bytes_pos by blast
  have u: "0 \<le> u" "u \<le> type_max T"
    using assms unfolding u_def neg_def representable_def type_min_def type_max_def
    by (auto split: if_splits)
  have "type_max T < 2 ^ (7 * n + 6)" using d by (rule type_max_less)
  with u have u2: "u < 2 ^ (7 * n + 6)" by simp
  obtain bs w where e: "enc_bytes (Suc n) u = (bs, w)" by (rule prod.exhaust)
  obtain part where part: "part AND 64 \<noteq> 0 \<longleftrightarrow> neg"
    and r: "reads (read_parts T (Suc n) 0 0) (u, part)
       (bs @ [word_of_int (if neg then 64 OR w else w)])"
    using reads_parts [OF u(1) u2, of "Suc n" 0 0 T bs w neg] u e by auto
  have "negate_value T u = Some v" if neg
    using that assms u unfolding negate_value_def u_def neg_def representable_def type_min_def
    by (auto split: if_splits)
  then have "reads (\<lambda>st. if part AND 64 \<noteq> 0 then Option.bind (negate_value T u) (\<lambda>x. Some (x, st))
      else Some (u, st)) v []"
    using part by (auto simp: u_def reads_return split: if_splits)
  moreover define G where "G = (\<lambda>(u, part :: int) st. if part AND 64 \<noteq> 0
        then Option.bind (negate_value T u) (\<lambda>x. Some (x, st)) else Some (u, st :: input))"
  ultimately have "reads (G (u, part)) v []" by simp
  from reads_bind [of _ _ _ G v "[]", OF r this]
  have "reads (read_int T) v ((bs @ [word_of_int (if neg then 64 OR w else w)]) @ [])"
    unfolding read_int_def [abs_def] n G_def by (simp only: case_prod_unfold fst_conv snd_conv)
  then show ?thesis
    unfolding encode_int_def Let_def neg_def [symmetric] u_def [symmetric] n e by simp
qed

lemma enc_bytes_length: "length (fst (enc_bytes n v)) \<le> n"
  by (induction n v rule: enc_bytes.induct) (auto split: prod.splits)

lemma enc_bytes_length_value:
  "0 \<le> v \<Longrightarrow> v < 2 ^ (7 * k + 6) \<Longrightarrow> length (fst (enc_bytes n v)) \<le> k"
proof (induction n v arbitrary: k rule: enc_bytes.induct)
  case (1 v)
  then show ?case by simp
next
  case (2 n v)
  show ?case
  proof (cases "v < 64")
    case True
    with 2 show ?thesis by (simp add: drop_bit_6_zero)
  next
    case False
    with 2 obtain k' where k: "k = Suc k'" by (cases k) auto
    have "v div 128 < 2 ^ (7 * k' + 6)" using "2.prems"(2) k by (simp add: power_add)
    moreover have "drop_bit 6 v \<noteq> 0" "drop_bit 7 v = v div 128" "0 \<le> v div 128"
      using "2.prems"(1) False drop_bit_6_zero by (blast, simp add: drop_bit_eq_div, simp)
    ultimately have "length (fst (enc_bytes n (v div 128))) \<le> k'" using "2.IH" [of k'] by simp
    then show ?thesis using k enc_bytes_step [OF "2.prems"(1) False, of n]
      by (simp del: enc_bytes.simps)
  qed
qed

lemma encode_int_length:
  assumes "representable T v"
  shows "length (encode_int T v) \<le> max_enc_bytes T"
proof -
  obtain n where n: "max_enc_bytes T = Suc n" and d: "digits T \<le> 7 * n + 6"
    using max_enc_bytes_pos by blast
  let ?u = "if v < 0 then - (v + 1) else v"
  have u: "0 \<le> ?u" "?u \<le> type_max T"
    using assms unfolding representable_def type_min_def type_max_def by (auto split: if_splits)
  have "type_max T < 2 ^ (7 * n + 6)" using d by (rule type_max_less)
  with u have "length (fst (enc_bytes (Suc n) ?u)) \<le> n"
    by (intro enc_bytes_length_value) simp_all
  then show ?thesis by (simp add: encode_int_def n case_prod_unfold Let_def)
qed

lemma encode_int_nonempty: "encode_int T v \<noteq> []"
  by (simp add: encode_int_def case_prod_unfold Let_def)

lemma max_enc_bytes_types [simp]:
  "max_enc_bytes t_size = 10" "max_enc_bytes t_int64 = 10" "max_enc_bytes t_int = 5"
  "max_enc_bytes t_char = 2"
  by (simp_all add: max_enc_bytes_def t_size_def t_int64_def t_int_def t_char_def)

subsection \<open>What the reader accepts\<close>

text \<open>The comment above \<open>encode_int\<close> says that decoding fails exactly when the value does not
  fit the type that is asked for. For an unsigned type this does not hold: the negation
  wraps around and only the value \<open>-1\<close> is refused.\<close>

lemma negate_unsigned:
  assumes "\<not> is_signed T" and "0 < u" and "u \<le> type_max T"
  shows "negate_value T u = Some (2 ^ digits T - u - 1)"
proof -
  have "(- u) mod 2 ^ digits T = 2 ^ digits T - u"
    using assms(2,3) by (simp add: zmod_zminus1_eq_if type_max_def)
  moreover have "(2 ^ digits T - u - 1) mod 2 ^ digits T = 2 ^ digits T - u - 1"
    using assms(2,3) by (simp add: type_max_def)
  ultimately show ?thesis using assms(1) by (simp add: negate_value_def)
qed

lemma shrinks_parts [shrink_intros]: "shrinks (read_parts T n i acc)"
proof (induction n arbitrary: i acc)
  case 0
  then show ?case by (simp add: shrinks_None)
next
  case (Suc n)
  show ?case unfolding read_parts.simps(2) Let_def
    by (intro shrink_intros Suc.IH)
qed

lemma shrinks_int [shrink_intros]: "shrinks (read_int T)"
proof -
  have "shrinks (\<lambda>st. Option.bind (negate_value T u) (\<lambda>x. Some (x, st)))" for u
    by (cases "negate_value T u") (simp_all add: shrinks_def)
  then show ?thesis unfolding read_int_def case_prod_unfold
    by (auto simp: shrinks_def split: Option.bind_splits if_splits
        dest!: shrinks_parts [unfolded shrinks_def, rule_format])
qed

end
