(* ===== verification/Transact_Encode.thy ===== *)
theory Transact_Encode
  imports Varint
begin

section \<open>Writing transaction log instructions\<close>

text \<open>
  The encoder of \<open>realm/impl/transact_log.hpp\<close>: the instruction codes, the calls an
  \<open>InstructionHandler\<close> understands, the encoding of arguments with the space reserved for
  them, and one operation per method of \<open>TransactLogEncoder\<close>. The three \<open>select\<close> methods are
  defined in a source file that is not part of the repository and have no model here.

  A \<open>size_t\<close> or an \<open>int64_t\<close> argument is a 64 bit word, a \<open>float\<close> and a \<open>double\<close> are the
  words of their representation, a string is its bytes and the null string is \<open>None\<close>.
\<close>

type_synonym size_t = "64 word"
type_synonym int64 = "64 word"
type_synonym bytes = "byte list"

subsection \<open>Instructions and calls\<close>

datatype instruction =
  instr_InsertGroupLevelTable | instr_EraseGroupLevelTable | instr_RenameGroupLevelTable
| instr_MoveGroupLevelTable | instr_SelectTable | instr_Set | instr_SetUnique | instr_SetDefault
| instr_AddInteger | instr_NullifyLink | instr_InsertSubstring | instr_EraseFromString
| instr_InsertEmptyRows | instr_EraseRows | instr_SwapRows | instr_MoveRow | instr_MergeRows
| instr_ClearTable | instr_OptimizeTable | instr_SelectDescriptor | instr_InsertColumn
| instr_InsertLinkColumn | instr_InsertNullableColumn | instr_EraseColumn | instr_EraseLinkColumn
| instr_RenameColumn | instr_MoveColumn | instr_AddSearchIndex | instr_RemoveSearchIndex
| instr_SetLinkType | instr_SelectLinkList | instr_LinkListSet | instr_LinkListInsert
| instr_LinkListMove | instr_LinkListSwap | instr_LinkListErase | instr_LinkListNullify
| instr_LinkListClear | instr_LinkListSetAll | instr_AddRowWithKey

fun instr_byte :: "instruction \<Rightarrow> byte" where
  "instr_byte instr_InsertGroupLevelTable = 1"
| "instr_byte instr_EraseGroupLevelTable = 2"
| "instr_byte instr_RenameGroupLevelTable = 3"
| "instr_byte instr_MoveGroupLevelTable = 4"
| "instr_byte instr_SelectTable = 5"
| "instr_byte instr_Set = 6"
| "instr_byte instr_SetUnique = 7"
| "instr_byte instr_SetDefault = 8"
| "instr_byte instr_AddInteger = 9"
| "instr_byte instr_NullifyLink = 10"
| "instr_byte instr_InsertSubstring = 11"
| "instr_byte instr_EraseFromString = 12"
| "instr_byte instr_InsertEmptyRows = 13"
| "instr_byte instr_EraseRows = 14"
| "instr_byte instr_SwapRows = 15"
| "instr_byte instr_MoveRow = 16"
| "instr_byte instr_MergeRows = 17"
| "instr_byte instr_ClearTable = 18"
| "instr_byte instr_OptimizeTable = 19"
| "instr_byte instr_SelectDescriptor = 20"
| "instr_byte instr_InsertColumn = 21"
| "instr_byte instr_InsertLinkColumn = 22"
| "instr_byte instr_InsertNullableColumn = 23"
| "instr_byte instr_EraseColumn = 24"
| "instr_byte instr_EraseLinkColumn = 25"
| "instr_byte instr_RenameColumn = 26"
| "instr_byte instr_MoveColumn = 27"
| "instr_byte instr_AddSearchIndex = 28"
| "instr_byte instr_RemoveSearchIndex = 29"
| "instr_byte instr_SetLinkType = 30"
| "instr_byte instr_SelectLinkList = 31"
| "instr_byte instr_LinkListSet = 32"
| "instr_byte instr_LinkListInsert = 33"
| "instr_byte instr_LinkListMove = 34"
| "instr_byte instr_LinkListSwap = 35"
| "instr_byte instr_LinkListErase = 36"
| "instr_byte instr_LinkListNullify = 37"
| "instr_byte instr_LinkListClear = 38"
| "instr_byte instr_LinkListSetAll = 39"
| "instr_byte instr_AddRowWithKey = 40"

definition instructions :: "instruction list" where
  "instructions =
     [instr_InsertGroupLevelTable, instr_EraseGroupLevelTable,
      instr_RenameGroupLevelTable, instr_MoveGroupLevelTable, instr_SelectTable,
      instr_Set, instr_SetUnique, instr_SetDefault, instr_AddInteger, instr_NullifyLink,
      instr_InsertSubstring, instr_EraseFromString, instr_InsertEmptyRows,
      instr_EraseRows, instr_SwapRows, instr_MoveRow, instr_MergeRows, instr_ClearTable,
      instr_OptimizeTable, instr_SelectDescriptor, instr_InsertColumn,
      instr_InsertLinkColumn, instr_InsertNullableColumn, instr_EraseColumn,
      instr_EraseLinkColumn, instr_RenameColumn, instr_MoveColumn, instr_AddSearchIndex,
      instr_RemoveSearchIndex, instr_SetLinkType, instr_SelectLinkList,
      instr_LinkListSet, instr_LinkListInsert, instr_LinkListMove, instr_LinkListSwap,
      instr_LinkListErase, instr_LinkListNullify, instr_LinkListClear,
      instr_LinkListSetAll, instr_AddRowWithKey]"

definition instr_of :: "byte \<Rightarrow> instruction option" where
  "instr_of c = find (\<lambda>i. instr_byte i = c) instructions"

datatype data_type =
  type_Int | type_Bool | type_Float | type_Double | type_String | type_Binary
| type_OldDateTime | type_Timestamp | type_Table | type_Mixed | type_Link | type_LinkList

fun type_code :: "data_type \<Rightarrow> int" where
  "type_code type_Int = 0"
| "type_code type_Bool = 1"
| "type_code type_Float = 9"
| "type_code type_Double = 10"
| "type_code type_String = 2"
| "type_code type_Binary = 4"
| "type_code type_OldDateTime = 7"
| "type_code type_Timestamp = 8"
| "type_code type_Table = 5"
| "type_code type_Mixed = 6"
| "type_code type_Link = 12"
| "type_code type_LinkList = 13"

datatype link_type = link_Strong | link_Weak

fun link_type_code :: "link_type \<Rightarrow> int" where
  "link_type_code link_Strong = 0"
| "link_type_code link_Weak = 1"

datatype timestamp = Timestamp (get_seconds: int64) (get_nanoseconds: "32 word")

datatype mixed =
  Mixed_Int int64
| Mixed_Bool bool
| Mixed_Float "32 word"
| Mixed_Double "64 word"
| Mixed_OldDateTime int64
| Mixed_String bytes
| Mixed_Binary bytes
| Mixed_Timestamp timestamp
| Mixed_Table

fun mixed_type :: "mixed \<Rightarrow> data_type" where
  "mixed_type (Mixed_Int v) = type_Int"
| "mixed_type (Mixed_Bool v) = type_Bool"
| "mixed_type (Mixed_Float v) = type_Float"
| "mixed_type (Mixed_Double v) = type_Double"
| "mixed_type (Mixed_OldDateTime v) = type_OldDateTime"
| "mixed_type (Mixed_String v) = type_String"
| "mixed_type (Mixed_Binary v) = type_Binary"
| "mixed_type (Mixed_Timestamp v) = type_Timestamp"
| "mixed_type Mixed_Table = type_Table"

text \<open>One constructor per method of the \<open>InstructionHandler\<close> interface.\<close>

datatype group_call =
  Select_Table size_t "(size_t \<times> size_t) list"
| Select_Descriptor "size_t list"
| Select_Link_List size_t size_t size_t
| Insert_Group_Level_Table size_t size_t bytes
| Erase_Group_Level_Table size_t size_t
| Rename_Group_Level_Table size_t bytes

datatype row_call =
  Insert_Empty_Rows size_t size_t size_t bool
| Add_Row_With_Key size_t size_t size_t int64
| Erase_Rows size_t size_t size_t bool
| Swap_Rows size_t size_t
| Move_Row size_t size_t
| Merge_Rows size_t size_t
| Clear_Table size_t
| Optimize_Table

datatype field_call =
  Set_Int size_t size_t int64 instruction size_t
| Set_Bool size_t size_t bool instruction
| Set_Float size_t size_t "32 word" instruction
| Set_Double size_t size_t "64 word" instruction
| Set_String size_t size_t "bytes option" instruction size_t
| Set_Binary size_t size_t "bytes option" instruction
| Set_OldDateTime size_t size_t int64 instruction
| Set_Timestamp size_t size_t timestamp instruction
| Set_Table size_t size_t instruction
| Set_Mixed size_t size_t mixed instruction
| Set_Link size_t size_t size_t size_t instruction
| Set_Null size_t size_t instruction size_t

datatype edit_call =
  Add_Int size_t size_t int64
| Nullify_Link size_t size_t size_t
| Insert_Substring size_t size_t size_t bytes
| Erase_Substring size_t size_t size_t size_t

datatype column_call =
  Insert_Link_Column size_t data_type bytes size_t size_t
| Insert_Column size_t data_type bytes bool
| Erase_Link_Column size_t size_t size_t
| Erase_Column size_t
| Rename_Column size_t bytes
| Add_Search_Index size_t
| Remove_Search_Index size_t
| Set_Link_Type size_t link_type

datatype list_call =
  Link_List_Set size_t size_t size_t
| Link_List_Insert size_t size_t size_t
| Link_List_Move size_t size_t
| Link_List_Swap size_t size_t
| Link_List_Erase size_t size_t
| Link_List_Nullify size_t size_t
| Link_List_Clear size_t

datatype call =
  Group group_call
| Rows row_call
| Field field_call
| Edit edit_call
| Column column_call
| Links list_call

subsection \<open>Arguments\<close>

text \<open>The overloads of \<open>encode\<close> are chosen by the type of the argument; \<open>arg\<close> has one
  constructor per overload. Floating point values are copied byte by byte, least significant
  byte first.\<close>

datatype arg =
  A_Instr instruction
| A_Type data_type
| A_Bool bool
| A_Num int_type int
| A_Float "32 word"
| A_Double "64 word"
| A_String bytes
| A_Integers "int64 list"
| A_Unsigned "size_t list"

fun le_bytes :: "nat \<Rightarrow> int \<Rightarrow> bytes" where
  "le_bytes 0 x = []"
| "le_bytes (Suc n) x = word_of_int (x mod 256) # le_bytes n (x div 256)"

definition encode_size :: "size_t \<Rightarrow> bytes" where
  "encode_size n = encode_int t_size (uint n)"

definition encode_int64 :: "int64 \<Rightarrow> bytes" where
  "encode_int64 v = encode_int t_int64 (sint v)"

fun encode :: "arg \<Rightarrow> bytes" where
  "encode (A_Instr i) = [instr_byte i]"
| "encode (A_Type t) = [word_of_int (type_code t)]"
| "encode (A_Bool b) = [of_bool b]"
| "encode (A_Num T v) = encode_int T v"
| "encode (A_Float v) = le_bytes 4 (uint v)"
| "encode (A_Double v) = le_bytes 8 (uint v)"
| "encode (A_String s) = encode_size (of_nat (length s)) @ s"
| "encode (A_Integers xs) = concat (map encode_int64 xs)"
| "encode (A_Unsigned xs) = concat (map encode_size xs)"

definition max_enc_bytes_per_num :: nat where
  "max_enc_bytes_per_num = (if (10::nat) < 8 then 8 else 10)"

definition max_numbers_per_chunk :: nat where
  "max_numbers_per_chunk = 8"

fun arg_max_size :: "arg \<Rightarrow> nat" where
  "arg_max_size (A_Instr i) = 1"
| "arg_max_size (A_Type t) = 1"
| "arg_max_size (A_Bool b) = 1"
| "arg_max_size (A_Num T v) = max_enc_bytes_per_num"
| "arg_max_size (A_Float v) = max_enc_bytes_per_num"
| "arg_max_size (A_Double v) = max_enc_bytes_per_num"
| "arg_max_size (A_String s) = max_enc_bytes_per_num + length s"
| "arg_max_size (A_Integers xs) = max_enc_bytes_per_num * max_numbers_per_chunk"
| "arg_max_size (A_Unsigned xs) = max_enc_bytes_per_num * length xs"

fun max_size_list :: "arg list \<Rightarrow> nat" where
  "max_size_list [] = 0"
| "max_size_list (a # args) = arg_max_size a + max_size_list args"

subsection \<open>The buffer\<close>

text \<open>\<open>written\<close> holds the bytes from the start of the buffer to the write position, \<open>space\<close>
  is the distance from there to the end of the free space. Writing past that end has no
  result; the lemmas on \<open>append_simple_instr\<close> show that it does not happen. The exception for a
  size that overflows, and the wrap-around of the sum of the sizes, are left out: they need more
  arguments than fit into memory.\<close>

record encoder =
  written :: bytes
  space :: nat

definition buffer_reserve :: "nat \<Rightarrow> nat \<Rightarrow> nat" where
  "buffer_reserve current_capacity min_capacity =
     (if min_capacity \<le> current_capacity then current_capacity
      else let new_capacity = (if current_capacity * 3 < 2 ^ 64 then current_capacity * 3
                               else 2 ^ 64 - 1) div 2
           in if new_capacity < min_capacity then min_capacity else new_capacity)"

definition transact_log_reserve :: "nat \<Rightarrow> encoder \<Rightarrow> encoder" where
  "transact_log_reserve n e =
     (let size = length (written e);
          capacity = buffer_reserve (size + space e) (size + n)
      in e\<lparr>space := capacity - size\<rparr>)"

definition reserve :: "nat \<Rightarrow> encoder \<Rightarrow> encoder" where
  "reserve n e = (if space e < n then transact_log_reserve n e else e)"

definition put :: "bytes \<Rightarrow> encoder \<Rightarrow> encoder option" where
  "put bs e =
     (if length bs \<le> space e
      then Some (e\<lparr>written := written e @ bs, space := space e - length bs\<rparr>) else None)"

fun put_integers :: "int64 list \<Rightarrow> encoder \<Rightarrow> encoder option" where
  "put_integers [] e = Some e"
| "put_integers (x # xs) e = do { e \<leftarrow> put (encode_int64 x) e; put_integers xs e }"

function encode_integer_list :: "int64 list \<Rightarrow> encoder \<Rightarrow> encoder option" where
  "encode_integer_list xs e =
     (if max_numbers_per_chunk < length xs then do {
        e \<leftarrow> put_integers (take max_numbers_per_chunk xs) e;
        let e = reserve (max_enc_bytes_per_num * max_numbers_per_chunk) e;
        encode_integer_list (drop max_numbers_per_chunk xs) e }
      else put_integers xs e)"
  by pat_completeness auto
termination by (relation "measure (\<lambda>(xs, e). length xs)") (auto simp: max_numbers_per_chunk_def)

fun encode_arg :: "arg \<Rightarrow> encoder \<Rightarrow> encoder option" where
  "encode_arg (A_Integers xs) e = encode_integer_list xs e"
| "encode_arg a e = put (encode a) e"

fun encode_list :: "arg list \<Rightarrow> encoder \<Rightarrow> encoder option" where
  "encode_list [] e = Some e"
| "encode_list (a # args) e = do { e \<leftarrow> encode_arg a e; encode_list args e }"

definition append_simple_instr :: "arg list \<Rightarrow> encoder \<Rightarrow> encoder option" where
  "append_simple_instr args e = encode_list args (reserve (max_size_list args) e)"

abbreviation A_Size :: "size_t \<Rightarrow> arg" where
  "A_Size n \<equiv> A_Num t_size (uint n)"

abbreviation A_Int64 :: "int64 \<Rightarrow> arg" where
  "A_Int64 v \<equiv> A_Num t_int64 (sint v)"

fun mixed_args :: "mixed \<Rightarrow> arg list" where
  "mixed_args (Mixed_Int v) = [A_Int64 v]"
| "mixed_args (Mixed_Bool v) = [A_Bool v]"
| "mixed_args (Mixed_Float v) = [A_Float v]"
| "mixed_args (Mixed_Double v) = [A_Double v]"
| "mixed_args (Mixed_OldDateTime v) = [A_Int64 v]"
| "mixed_args (Mixed_String v) = [A_String v]"
| "mixed_args (Mixed_Binary v) = [A_String v]"
| "mixed_args (Mixed_Timestamp ts) =
     [A_Int64 (get_seconds ts), A_Num t_int (sint (get_nanoseconds ts))]"
| "mixed_args Mixed_Table = []"

definition append_mixed_instr ::
  "instruction \<Rightarrow> mixed \<Rightarrow> arg list \<Rightarrow> encoder \<Rightarrow> encoder option" where
  "append_mixed_instr instr v numbers =
     append_simple_instr (A_Instr instr # numbers @ A_Type (mixed_type v) # mixed_args v)"

definition set_null_sentinel :: int where
  "set_null_sentinel = - 1"

subsection \<open>The methods of the encoder\<close>

definition enc_insert_group_level_table ::
  "size_t \<Rightarrow> size_t \<Rightarrow> bytes \<Rightarrow> encoder \<Rightarrow> encoder option" where
  "enc_insert_group_level_table table_ndx prior_num_tables name =
     append_simple_instr [A_Instr instr_InsertGroupLevelTable, A_Size table_ndx, A_Size prior_num_tables,
         A_String name]"

definition enc_erase_group_level_table ::
  "size_t \<Rightarrow> size_t \<Rightarrow> encoder \<Rightarrow> encoder option" where
  "enc_erase_group_level_table table_ndx prior_num_tables =
     append_simple_instr [A_Instr instr_EraseGroupLevelTable, A_Size table_ndx, A_Size prior_num_tables]"

definition enc_rename_group_level_table ::
  "size_t \<Rightarrow> bytes \<Rightarrow> encoder \<Rightarrow> encoder option" where
  "enc_rename_group_level_table table_ndx new_name =
     append_simple_instr [A_Instr instr_RenameGroupLevelTable, A_Size table_ndx, A_String new_name]"

definition enc_insert_column ::
  "size_t \<Rightarrow> data_type \<Rightarrow> bytes \<Rightarrow> bool \<Rightarrow> encoder \<Rightarrow> encoder option" where
  "enc_insert_column col_ndx ty name nullable =
     append_simple_instr [A_Instr (if nullable then instr_InsertNullableColumn else instr_InsertColumn),
         A_Size col_ndx, A_Type ty, A_String name]"

definition enc_insert_link_column ::
  "size_t \<Rightarrow> data_type \<Rightarrow> bytes \<Rightarrow> size_t \<Rightarrow> size_t \<Rightarrow> encoder \<Rightarrow> encoder option" where
  "enc_insert_link_column col_ndx ty name link_target_table_ndx backlink_col_ndx =
     append_simple_instr [A_Instr instr_InsertLinkColumn, A_Size col_ndx, A_Type ty,
         A_Size link_target_table_ndx, A_Size backlink_col_ndx, A_String name]"

definition enc_erase_column ::
  "size_t \<Rightarrow> encoder \<Rightarrow> encoder option" where
  "enc_erase_column col_ndx =
     append_simple_instr [A_Instr instr_EraseColumn, A_Size col_ndx]"

definition enc_erase_link_column ::
  "size_t \<Rightarrow> size_t \<Rightarrow> size_t \<Rightarrow> encoder \<Rightarrow> encoder option" where
  "enc_erase_link_column col_ndx link_target_table_ndx backlink_col_ndx =
     append_simple_instr [A_Instr instr_EraseLinkColumn, A_Size col_ndx, A_Size link_target_table_ndx,
         A_Size backlink_col_ndx]"

definition enc_rename_column ::
  "size_t \<Rightarrow> bytes \<Rightarrow> encoder \<Rightarrow> encoder option" where
  "enc_rename_column col_ndx new_name =
     append_simple_instr [A_Instr instr_RenameColumn, A_Size col_ndx, A_String new_name]"

definition enc_set_null ::
  "size_t \<Rightarrow> size_t \<Rightarrow> instruction \<Rightarrow> size_t \<Rightarrow> encoder \<Rightarrow> encoder option" where
  "enc_set_null col_ndx ndx variant prior_num_rows =
     (if variant = instr_SetUnique
      then append_simple_instr [A_Instr variant, A_Num t_int set_null_sentinel, A_Size col_ndx, A_Size ndx,
             A_Size prior_num_rows]
      else append_simple_instr [A_Instr variant, A_Num t_int set_null_sentinel, A_Size col_ndx, A_Size ndx])"

definition enc_set_int ::
  "size_t \<Rightarrow> size_t \<Rightarrow> int64 \<Rightarrow> instruction \<Rightarrow> size_t \<Rightarrow> encoder \<Rightarrow> encoder option" where
  "enc_set_int col_ndx ndx v variant prior_num_rows =
     (if variant = instr_SetUnique
      then append_simple_instr [A_Instr variant, A_Type type_Int, A_Size col_ndx, A_Size ndx,
             A_Size prior_num_rows, A_Int64 v]
      else append_simple_instr [A_Instr variant, A_Type type_Int, A_Size col_ndx, A_Size ndx, A_Int64 v])"

definition enc_add_int ::
  "size_t \<Rightarrow> size_t \<Rightarrow> int64 \<Rightarrow> encoder \<Rightarrow> encoder option" where
  "enc_add_int col_ndx ndx v =
     append_simple_instr [A_Instr instr_AddInteger, A_Size col_ndx, A_Size ndx, A_Int64 v]"

definition enc_set_bool ::
  "size_t \<Rightarrow> size_t \<Rightarrow> bool \<Rightarrow> instruction \<Rightarrow> encoder \<Rightarrow> encoder option" where
  "enc_set_bool col_ndx ndx v variant =
     append_simple_instr [A_Instr variant, A_Type type_Bool, A_Size col_ndx, A_Size ndx, A_Bool v]"

definition enc_set_float ::
  "size_t \<Rightarrow> size_t \<Rightarrow> 32 word \<Rightarrow> instruction \<Rightarrow> encoder \<Rightarrow> encoder option" where
  "enc_set_float col_ndx ndx v variant =
     append_simple_instr [A_Instr variant, A_Type type_Float, A_Size col_ndx, A_Size ndx, A_Float v]"

definition enc_set_double ::
  "size_t \<Rightarrow> size_t \<Rightarrow> 64 word \<Rightarrow> instruction \<Rightarrow> encoder \<Rightarrow> encoder option" where
  "enc_set_double col_ndx ndx v variant =
     append_simple_instr [A_Instr instr_Set, A_Type type_Double, A_Size col_ndx, A_Size ndx, A_Double v]"

definition enc_set_string ::
  "size_t \<Rightarrow> size_t \<Rightarrow> bytes option \<Rightarrow> instruction \<Rightarrow> size_t \<Rightarrow> encoder \<Rightarrow> encoder option" where
  "enc_set_string col_ndx ndx v variant prior_num_rows =
     (case v of
        None \<Rightarrow> enc_set_null col_ndx ndx variant prior_num_rows
      | Some s \<Rightarrow>
          if variant = instr_SetUnique
          then append_simple_instr [A_Instr variant, A_Type type_String, A_Size col_ndx, A_Size ndx,
                 A_Size prior_num_rows, A_String s]
          else append_simple_instr [A_Instr variant, A_Type type_String, A_Size col_ndx, A_Size ndx,
                 A_String s])"

definition enc_set_binary ::
  "size_t \<Rightarrow> size_t \<Rightarrow> bytes option \<Rightarrow> instruction \<Rightarrow> encoder \<Rightarrow> encoder option" where
  "enc_set_binary col_ndx row_ndx v variant =
     (case v of
        None \<Rightarrow> enc_set_null col_ndx row_ndx variant 0
      | Some s \<Rightarrow> append_simple_instr [A_Instr variant, A_Type type_Binary, A_Size col_ndx,
          A_Size row_ndx, A_String s])"

definition enc_set_olddatetime ::
  "size_t \<Rightarrow> size_t \<Rightarrow> int64 \<Rightarrow> instruction \<Rightarrow> encoder \<Rightarrow> encoder option" where
  "enc_set_olddatetime col_ndx ndx v variant =
     append_simple_instr [A_Instr variant, A_Type type_OldDateTime, A_Size col_ndx, A_Size ndx, A_Int64 v]"

definition enc_set_timestamp ::
  "size_t \<Rightarrow> size_t \<Rightarrow> timestamp \<Rightarrow> instruction \<Rightarrow> encoder \<Rightarrow> encoder option" where
  "enc_set_timestamp col_ndx ndx v variant =
     append_simple_instr [A_Instr variant, A_Type type_Timestamp, A_Size col_ndx, A_Size ndx,
         A_Int64 (get_seconds v), A_Num t_int (sint (get_nanoseconds v))]"

definition enc_set_table ::
  "size_t \<Rightarrow> size_t \<Rightarrow> instruction \<Rightarrow> encoder \<Rightarrow> encoder option" where
  "enc_set_table col_ndx ndx variant =
     append_simple_instr [A_Instr variant, A_Type type_Table, A_Size col_ndx, A_Size ndx]"

definition enc_set_mixed ::
  "size_t \<Rightarrow> size_t \<Rightarrow> mixed \<Rightarrow> instruction \<Rightarrow> encoder \<Rightarrow> encoder option" where
  "enc_set_mixed col_ndx ndx v variant =
     append_mixed_instr variant v [A_Type type_Mixed, A_Size col_ndx, A_Size ndx]"

definition enc_set_link ::
  "size_t \<Rightarrow> size_t \<Rightarrow> size_t \<Rightarrow> size_t \<Rightarrow> instruction \<Rightarrow> encoder \<Rightarrow> encoder option" where
  "enc_set_link col_ndx ndx v target_group_level_ndx variant =
     append_simple_instr [A_Instr variant, A_Type type_Link, A_Size col_ndx, A_Size ndx, A_Size (1 + v),
         A_Size target_group_level_ndx]"

definition enc_nullify_link ::
  "size_t \<Rightarrow> size_t \<Rightarrow> size_t \<Rightarrow> encoder \<Rightarrow> encoder option" where
  "enc_nullify_link col_ndx ndx target_group_level_ndx =
     append_simple_instr [A_Instr instr_NullifyLink, A_Size col_ndx, A_Size ndx,
         A_Size target_group_level_ndx]"

definition enc_insert_substring ::
  "size_t \<Rightarrow> size_t \<Rightarrow> size_t \<Rightarrow> bytes \<Rightarrow> encoder \<Rightarrow> encoder option" where
  "enc_insert_substring col_ndx row_ndx pos v =
     append_simple_instr [A_Instr instr_InsertSubstring, A_Size col_ndx, A_Size row_ndx, A_Size pos,
         A_String v]"

definition enc_erase_substring ::
  "size_t \<Rightarrow> size_t \<Rightarrow> size_t \<Rightarrow> size_t \<Rightarrow> encoder \<Rightarrow> encoder option" where
  "enc_erase_substring col_ndx row_ndx pos sz =
     append_simple_instr [A_Instr instr_EraseFromString, A_Size col_ndx, A_Size row_ndx, A_Size pos,
         A_Size sz]"

definition enc_insert_empty_rows ::
  "size_t \<Rightarrow> size_t \<Rightarrow> size_t \<Rightarrow> bool \<Rightarrow> encoder \<Rightarrow> encoder option" where
  "enc_insert_empty_rows row_ndx num_rows_to_insert prior_num_rows unordered =
     append_simple_instr [A_Instr instr_InsertEmptyRows, A_Size row_ndx, A_Size num_rows_to_insert,
         A_Size prior_num_rows, A_Bool unordered]"

definition enc_add_row_with_key ::
  "size_t \<Rightarrow> size_t \<Rightarrow> size_t \<Rightarrow> int64 \<Rightarrow> encoder \<Rightarrow> encoder option" where
  "enc_add_row_with_key row_ndx prior_num_rows key_col_ndx key =
     append_simple_instr [A_Instr instr_AddRowWithKey, A_Size row_ndx, A_Size prior_num_rows,
         A_Size key_col_ndx, A_Int64 key]"

definition enc_erase_rows ::
  "size_t \<Rightarrow> size_t \<Rightarrow> size_t \<Rightarrow> bool \<Rightarrow> encoder \<Rightarrow> encoder option" where
  "enc_erase_rows row_ndx num_rows_to_erase prior_num_rows unordered =
     append_simple_instr [A_Instr instr_EraseRows, A_Size row_ndx, A_Size num_rows_to_erase,
         A_Size prior_num_rows, A_Bool unordered]"

definition enc_swap_rows ::
  "size_t \<Rightarrow> size_t \<Rightarrow> encoder \<Rightarrow> encoder option" where
  "enc_swap_rows row_ndx_1 row_ndx_2 =
     append_simple_instr [A_Instr instr_SwapRows, A_Size row_ndx_1, A_Size row_ndx_2]"

definition enc_move_row ::
  "size_t \<Rightarrow> size_t \<Rightarrow> encoder \<Rightarrow> encoder option" where
  "enc_move_row from_ndx to_ndx =
     append_simple_instr [A_Instr instr_MoveRow, A_Size from_ndx, A_Size to_ndx]"

definition enc_merge_rows ::
  "size_t \<Rightarrow> size_t \<Rightarrow> encoder \<Rightarrow> encoder option" where
  "enc_merge_rows row_ndx new_row_ndx =
     append_simple_instr [A_Instr instr_MergeRows, A_Size row_ndx, A_Size new_row_ndx]"

definition enc_add_search_index ::
  "size_t \<Rightarrow> encoder \<Rightarrow> encoder option" where
  "enc_add_search_index col_ndx =
     append_simple_instr [A_Instr instr_AddSearchIndex, A_Size col_ndx]"

definition enc_remove_search_index ::
  "size_t \<Rightarrow> encoder \<Rightarrow> encoder option" where
  "enc_remove_search_index col_ndx =
     append_simple_instr [A_Instr instr_RemoveSearchIndex, A_Size col_ndx]"

definition enc_set_link_type ::
  "size_t \<Rightarrow> link_type \<Rightarrow> encoder \<Rightarrow> encoder option" where
  "enc_set_link_type col_ndx link_type =
     append_simple_instr [A_Instr instr_SetLinkType, A_Size col_ndx, A_Num t_int (link_type_code link_type)]"

definition enc_clear_table ::
  "size_t \<Rightarrow> encoder \<Rightarrow> encoder option" where
  "enc_clear_table old_size =
     append_simple_instr [A_Instr instr_ClearTable, A_Size old_size]"

definition enc_optimize_table ::
  "encoder \<Rightarrow> encoder option" where
  "enc_optimize_table =
     append_simple_instr [A_Instr instr_OptimizeTable]"

definition enc_link_list_set ::
  "size_t \<Rightarrow> size_t \<Rightarrow> size_t \<Rightarrow> encoder \<Rightarrow> encoder option" where
  "enc_link_list_set link_ndx v prior_size =
     append_simple_instr [A_Instr instr_LinkListSet, A_Size link_ndx, A_Size v, A_Size prior_size]"

definition enc_link_list_nullify ::
  "size_t \<Rightarrow> size_t \<Rightarrow> encoder \<Rightarrow> encoder option" where
  "enc_link_list_nullify link_ndx prior_size =
     append_simple_instr [A_Instr instr_LinkListNullify, A_Size link_ndx, A_Size prior_size]"

definition enc_link_list_set_all ::
  "int64 list \<Rightarrow> encoder \<Rightarrow> encoder option" where
  "enc_link_list_set_all values =
     append_simple_instr
       [A_Instr instr_LinkListSetAll, A_Size (of_nat (length values)), A_Integers values]"

definition enc_link_list_insert ::
  "size_t \<Rightarrow> size_t \<Rightarrow> size_t \<Rightarrow> encoder \<Rightarrow> encoder option" where
  "enc_link_list_insert link_ndx v prior_size =
     append_simple_instr [A_Instr instr_LinkListInsert, A_Size link_ndx, A_Size v, A_Size prior_size]"

definition enc_link_list_move ::
  "size_t \<Rightarrow> size_t \<Rightarrow> encoder \<Rightarrow> encoder option" where
  "enc_link_list_move from_link_ndx to_link_ndx =
     append_simple_instr [A_Instr instr_LinkListMove, A_Size from_link_ndx, A_Size to_link_ndx]"

definition enc_link_list_swap ::
  "size_t \<Rightarrow> size_t \<Rightarrow> encoder \<Rightarrow> encoder option" where
  "enc_link_list_swap link1_ndx link2_ndx =
     append_simple_instr [A_Instr instr_LinkListSwap, A_Size link1_ndx, A_Size link2_ndx]"

definition enc_link_list_erase ::
  "size_t \<Rightarrow> size_t \<Rightarrow> encoder \<Rightarrow> encoder option" where
  "enc_link_list_erase link_ndx prior_size =
     append_simple_instr [A_Instr instr_LinkListErase, A_Size link_ndx, A_Size prior_size]"

definition enc_link_list_clear ::
  "size_t \<Rightarrow> encoder \<Rightarrow> encoder option" where
  "enc_link_list_clear old_list_size =
     append_simple_instr [A_Instr instr_LinkListClear, A_Size old_list_size]"

text \<open>The encoder as an \<open>InstructionHandler\<close>; the \<open>select\<close> methods are not available.\<close>

fun encode_call :: "call \<Rightarrow> (encoder \<Rightarrow> encoder option) option" where
  "encode_call (Group (Select_Table g p)) = None"
| "encode_call (Group (Select_Descriptor p)) = None"
| "encode_call (Group (Select_Link_List c r t)) = None"
| "encode_call (Group (Insert_Group_Level_Table a b c)) = Some (enc_insert_group_level_table a b c)"
| "encode_call (Group (Erase_Group_Level_Table a b)) = Some (enc_erase_group_level_table a b)"
| "encode_call (Group (Rename_Group_Level_Table a b)) = Some (enc_rename_group_level_table a b)"
| "encode_call (Column (Insert_Column a b c d)) = Some (enc_insert_column a b c d)"
| "encode_call (Column (Insert_Link_Column a b c d e)) = Some (enc_insert_link_column a b c d e)"
| "encode_call (Column (Erase_Column a)) = Some (enc_erase_column a)"
| "encode_call (Column (Erase_Link_Column a b c)) = Some (enc_erase_link_column a b c)"
| "encode_call (Column (Rename_Column a b)) = Some (enc_rename_column a b)"
| "encode_call (Field (Set_Null a b c d)) = Some (enc_set_null a b c d)"
| "encode_call (Field (Set_Int a b c d e)) = Some (enc_set_int a b c d e)"
| "encode_call (Edit (Add_Int a b c)) = Some (enc_add_int a b c)"
| "encode_call (Field (Set_Bool a b c d)) = Some (enc_set_bool a b c d)"
| "encode_call (Field (Set_Float a b c d)) = Some (enc_set_float a b c d)"
| "encode_call (Field (Set_Double a b c d)) = Some (enc_set_double a b c d)"
| "encode_call (Field (Set_String a b c d e)) = Some (enc_set_string a b c d e)"
| "encode_call (Field (Set_Binary a b c d)) = Some (enc_set_binary a b c d)"
| "encode_call (Field (Set_OldDateTime a b c d)) = Some (enc_set_olddatetime a b c d)"
| "encode_call (Field (Set_Timestamp a b c d)) = Some (enc_set_timestamp a b c d)"
| "encode_call (Field (Set_Table a b c)) = Some (enc_set_table a b c)"
| "encode_call (Field (Set_Mixed a b c d)) = Some (enc_set_mixed a b c d)"
| "encode_call (Field (Set_Link a b c d e)) = Some (enc_set_link a b c d e)"
| "encode_call (Edit (Nullify_Link a b c)) = Some (enc_nullify_link a b c)"
| "encode_call (Edit (Insert_Substring a b c d)) = Some (enc_insert_substring a b c d)"
| "encode_call (Edit (Erase_Substring a b c d)) = Some (enc_erase_substring a b c d)"
| "encode_call (Rows (Insert_Empty_Rows a b c d)) = Some (enc_insert_empty_rows a b c d)"
| "encode_call (Rows (Add_Row_With_Key a b c d)) = Some (enc_add_row_with_key a b c d)"
| "encode_call (Rows (Erase_Rows a b c d)) = Some (enc_erase_rows a b c d)"
| "encode_call (Rows (Swap_Rows a b)) = Some (enc_swap_rows a b)"
| "encode_call (Rows (Move_Row a b)) = Some (enc_move_row a b)"
| "encode_call (Rows (Merge_Rows a b)) = Some (enc_merge_rows a b)"
| "encode_call (Column (Add_Search_Index a)) = Some (enc_add_search_index a)"
| "encode_call (Column (Remove_Search_Index a)) = Some (enc_remove_search_index a)"
| "encode_call (Column (Set_Link_Type a b)) = Some (enc_set_link_type a b)"
| "encode_call (Rows (Clear_Table a)) = Some (enc_clear_table a)"
| "encode_call (Rows Optimize_Table) = Some enc_optimize_table"
| "encode_call (Links (Link_List_Set a b c)) = Some (enc_link_list_set a b c)"
| "encode_call (Links (Link_List_Nullify a b)) = Some (enc_link_list_nullify a b)"
| "encode_call (Links (Link_List_Insert a b c)) = Some (enc_link_list_insert a b c)"
| "encode_call (Links (Link_List_Move a b)) = Some (enc_link_list_move a b)"
| "encode_call (Links (Link_List_Swap a b)) = Some (enc_link_list_swap a b)"
| "encode_call (Links (Link_List_Erase a b)) = Some (enc_link_list_erase a b)"
| "encode_call (Links (Link_List_Clear a)) = Some (enc_link_list_clear a)"

end
