(* ===== verification/Transact_Parse.thy ===== *)
theory Transact_Parse
  imports Transact_Encode
begin

section \<open>Parsing transaction logs\<close>

text \<open>
  \<open>TransactLogParser\<close> of \<open>realm/impl/transact_log.hpp\<close>. \<open>parse_one\<close> reads one instruction and
  returns the calls it makes on the \<open>InstructionHandler\<close>, in their order; \<open>None\<close> is the
  exception \<open>BadTransactLog\<close>. \<open>parse\<close> is the loop over the whole input; the handler is a
  function that returns \<open>None\<close> where the method returns false, which the parser turns into
  the same exception.
\<close>

subsection \<open>Values\<close>

fun of_le_bytes :: "bytes \<Rightarrow> int" where
  "of_le_bytes [] = 0"
| "of_le_bytes (b # bs) = uint b + 256 * of_le_bytes bs"

definition max_string_size :: nat where
  "max_string_size = 16777208 - 8 - 1"

definition max_levels :: int where
  "max_levels = 1024"

definition read_size :: "size_t reader" where
  "read_size st = do { (v, st) \<leftarrow> read_int t_size st; Some (word_of_int v, st) }"

definition read_int64 :: "int64 reader" where
  "read_int64 st = do { (v, st) \<leftarrow> read_int t_int64 st; Some (word_of_int v, st) }"

definition read_int32 :: "32 word reader" where
  "read_int32 st = do { (v, st) \<leftarrow> read_int t_int st; Some (word_of_int v, st) }"

definition read_bool :: "bool reader" where
  "read_bool st = do { (v, st) \<leftarrow> read_int t_char st; Some (v \<noteq> 0, st) }"

definition read_float :: "32 word reader" where
  "read_float st = do { (bs, st) \<leftarrow> read_bytes 4 st; Some (word_of_int (of_le_bytes bs), st) }"

definition read_double :: "64 word reader" where
  "read_double st = do { (bs, st) \<leftarrow> read_bytes 8 st; Some (word_of_int (of_le_bytes bs), st) }"

definition read_string :: "bytes reader" where
  "read_string st = do {
     (n, st) \<leftarrow> read_size st;
     if max_string_size < unat n then None else read_buffer (unat n) st }"

definition read_timestamp :: "timestamp reader" where
  "read_timestamp st = do {
     (seconds, st) \<leftarrow> read_int64 st;
     (nanoseconds, st) \<leftarrow> read_int32 st;
     Some (Timestamp seconds nanoseconds, st) }"

definition read_binary :: "bytes reader" where
  "read_binary st = do { (n, st) \<leftarrow> read_size st; read_buffer (unat n) st }"

definition data_types :: "data_type list" where
  "data_types = [type_Int, type_Bool, type_Float, type_Double, type_String, type_Binary,
     type_OldDateTime, type_Timestamp, type_Table, type_Mixed, type_Link, type_LinkList]"

definition data_type_of :: "int \<Rightarrow> data_type option" where
  "data_type_of n = find (\<lambda>t. type_code t = n) data_types"

definition link_type_of :: "int \<Rightarrow> link_type option" where
  "link_type_of n = (if n = 0 then Some link_Strong else if n = 1 then Some link_Weak else None)"

definition read_data_type :: "data_type option reader" where
  "read_data_type st = do { (n, st) \<leftarrow> read_int t_int st; Some (data_type_of n, st) }"

definition mixed_value :: "data_type option \<Rightarrow> mixed reader" where
  "mixed_value ty st = (case ty of
       Some type_Int \<Rightarrow> do { (v, st) \<leftarrow> read_int64 st; Some (Mixed_Int v, st) }
     | Some type_Bool \<Rightarrow> do { (v, st) \<leftarrow> read_bool st; Some (Mixed_Bool v, st) }
     | Some type_Float \<Rightarrow> do { (v, st) \<leftarrow> read_float st; Some (Mixed_Float v, st) }
     | Some type_Double \<Rightarrow> do { (v, st) \<leftarrow> read_double st; Some (Mixed_Double v, st) }
     | Some type_OldDateTime \<Rightarrow> do { (v, st) \<leftarrow> read_int64 st; Some (Mixed_OldDateTime v, st) }
     | Some type_Timestamp \<Rightarrow> do { (v, st) \<leftarrow> read_timestamp st; Some (Mixed_Timestamp v, st) }
     | Some type_String \<Rightarrow> do { (v, st) \<leftarrow> read_string st; Some (Mixed_String v, st) }
     | Some type_Binary \<Rightarrow> do { (v, st) \<leftarrow> read_binary st; Some (Mixed_Binary v, st) }
     | Some type_Table \<Rightarrow> Some (Mixed_Table, st)
     | _ \<Rightarrow> None)"

definition read_mixed :: "mixed reader" where
  "read_mixed st = do { (ty, st) \<leftarrow> read_data_type st; mixed_value ty st }"

subsection \<open>Instructions\<close>

text \<open>The value of a \<open>Set\<close> instruction, chosen by its type; \<open>instr\<close> is the variant.\<close>

definition parse_value ::
  "instruction \<Rightarrow> size_t \<Rightarrow> size_t \<Rightarrow> size_t \<Rightarrow> data_type option \<Rightarrow> field_call reader" where
  "parse_value instr col_ndx row_ndx prior_num_rows ty st = (case ty of
       Some type_Int \<Rightarrow> do { (v, st) \<leftarrow> read_int64 st;
         Some (Set_Int col_ndx row_ndx v instr prior_num_rows, st) }
     | Some type_Bool \<Rightarrow> do { (v, st) \<leftarrow> read_bool st;
         Some (Set_Bool col_ndx row_ndx v instr, st) }
     | Some type_Float \<Rightarrow> do { (v, st) \<leftarrow> read_float st;
         Some (Set_Float col_ndx row_ndx v instr, st) }
     | Some type_Double \<Rightarrow> do { (v, st) \<leftarrow> read_double st;
         Some (Set_Double col_ndx row_ndx v instr, st) }
     | Some type_String \<Rightarrow> do { (v, st) \<leftarrow> read_string st;
         Some (Set_String col_ndx row_ndx (Some v) instr prior_num_rows, st) }
     | Some type_Binary \<Rightarrow> do { (v, st) \<leftarrow> read_binary st;
         Some (Set_Binary col_ndx row_ndx (Some v) instr, st) }
     | Some type_OldDateTime \<Rightarrow> do { (v, st) \<leftarrow> read_int64 st;
         Some (Set_OldDateTime col_ndx row_ndx v instr, st) }
     | Some type_Timestamp \<Rightarrow> do { (seconds, st) \<leftarrow> read_int64 st;
         (nanoseconds, st) \<leftarrow> read_int32 st;
         Some (Set_Timestamp col_ndx row_ndx (Timestamp seconds nanoseconds) instr, st) }
     | Some type_Table \<Rightarrow> Some (Set_Table col_ndx row_ndx instr, st)
     | Some type_Mixed \<Rightarrow> do { (v, st) \<leftarrow> read_mixed st;
         Some (Set_Mixed col_ndx row_ndx v instr, st) }
     | Some type_Link \<Rightarrow> do { (v, st) \<leftarrow> read_size st;
         (target_group_level_ndx, st) \<leftarrow> read_size st;
         Some (Set_Link col_ndx row_ndx (v - 1) target_group_level_ndx instr, st) }
     | _ \<Rightarrow> None)"

definition parse_set :: "instruction \<Rightarrow> call reader" where
  "parse_set instr st = do {
     (ty, st) \<leftarrow> read_int t_int st;
     (col_ndx, st) \<leftarrow> read_size st;
     (row_ndx, st) \<leftarrow> read_size st;
     (prior_num_rows, st) \<leftarrow> (if instr = instr_SetUnique then read_size st else Some (0, st));
     if ty = set_null_sentinel then Some (Field (Set_Null col_ndx row_ndx instr prior_num_rows), st)
     else do {
       (c, st) \<leftarrow> parse_value instr col_ndx row_ndx prior_num_rows (data_type_of ty) st;
       Some (Field c, st) } }"

definition parse_edit :: "instruction \<Rightarrow> edit_call reader" where
  "parse_edit instr st = (case instr of
       instr_AddInteger \<Rightarrow> do { (col_ndx, st) \<leftarrow> read_size st; (row_ndx, st) \<leftarrow> read_size st;
         (v, st) \<leftarrow> read_int64 st; Some (Add_Int col_ndx row_ndx v, st) }
     | instr_NullifyLink \<Rightarrow> do { (col_ndx, st) \<leftarrow> read_size st; (row_ndx, st) \<leftarrow> read_size st;
         (target, st) \<leftarrow> read_size st; Some (Nullify_Link col_ndx row_ndx target, st) }
     | instr_InsertSubstring \<Rightarrow> do { (col_ndx, st) \<leftarrow> read_size st; (row_ndx, st) \<leftarrow> read_size st;
         (pos, st) \<leftarrow> read_size st; (v, st) \<leftarrow> read_string st;
         Some (Insert_Substring col_ndx row_ndx pos v, st) }
     | instr_EraseFromString \<Rightarrow> do { (col_ndx, st) \<leftarrow> read_size st; (row_ndx, st) \<leftarrow> read_size st;
         (pos, st) \<leftarrow> read_size st; (sz, st) \<leftarrow> read_size st;
         Some (Erase_Substring col_ndx row_ndx pos sz, st) }
     | _ \<Rightarrow> None)"

definition parse_rows :: "instruction \<Rightarrow> row_call reader" where
  "parse_rows instr st = (case instr of
       instr_InsertEmptyRows \<Rightarrow> do { (row_ndx, st) \<leftarrow> read_size st; (num, st) \<leftarrow> read_size st;
         (prior_num_rows, st) \<leftarrow> read_size st; (unordered, st) \<leftarrow> read_bool st;
         Some (Insert_Empty_Rows row_ndx num prior_num_rows unordered, st) }
     | instr_AddRowWithKey \<Rightarrow> do { (row_ndx, st) \<leftarrow> read_size st; (prior, st) \<leftarrow> read_size st;
         (key_col_ndx, st) \<leftarrow> read_size st; (key, st) \<leftarrow> read_int64 st;
         Some (Add_Row_With_Key row_ndx prior key_col_ndx key, st) }
     | instr_EraseRows \<Rightarrow> do { (row_ndx, st) \<leftarrow> read_size st; (num, st) \<leftarrow> read_size st;
         (prior_num_rows, st) \<leftarrow> read_size st; (unordered, st) \<leftarrow> read_bool st;
         Some (Erase_Rows row_ndx num prior_num_rows unordered, st) }
     | instr_SwapRows \<Rightarrow> do { (row_ndx_1, st) \<leftarrow> read_size st; (row_ndx_2, st) \<leftarrow> read_size st;
         Some (Swap_Rows row_ndx_1 row_ndx_2, st) }
     | instr_MoveRow \<Rightarrow> do { (from_ndx, st) \<leftarrow> read_size st; (to_ndx, st) \<leftarrow> read_size st;
         Some (Move_Row from_ndx to_ndx, st) }
     | instr_MergeRows \<Rightarrow> do { (row_ndx, st) \<leftarrow> read_size st; (new_row_ndx, st) \<leftarrow> read_size st;
         Some (Merge_Rows row_ndx new_row_ndx, st) }
     | instr_ClearTable \<Rightarrow> do { (old_size, st) \<leftarrow> read_size st; Some (Clear_Table old_size, st) }
     | instr_OptimizeTable \<Rightarrow> Some (Optimize_Table, st)
     | _ \<Rightarrow> None)"

definition parse_links :: "instruction \<Rightarrow> list_call reader" where
  "parse_links instr st = (case instr of
       instr_LinkListSet \<Rightarrow> do { (link_ndx, st) \<leftarrow> read_size st; (v, st) \<leftarrow> read_size st;
         (prior_size, st) \<leftarrow> read_size st; Some (Link_List_Set link_ndx v prior_size, st) }
     | instr_LinkListInsert \<Rightarrow> do { (link_ndx, st) \<leftarrow> read_size st; (v, st) \<leftarrow> read_size st;
         (prior_size, st) \<leftarrow> read_size st; Some (Link_List_Insert link_ndx v prior_size, st) }
     | instr_LinkListMove \<Rightarrow> do { (from_ndx, st) \<leftarrow> read_size st; (to_ndx, st) \<leftarrow> read_size st;
         Some (Link_List_Move from_ndx to_ndx, st) }
     | instr_LinkListSwap \<Rightarrow> do { (link1_ndx, st) \<leftarrow> read_size st; (link2_ndx, st) \<leftarrow> read_size st;
         Some (Link_List_Swap link1_ndx link2_ndx, st) }
     | instr_LinkListErase \<Rightarrow> do { (link_ndx, st) \<leftarrow> read_size st; (prior, st) \<leftarrow> read_size st;
         Some (Link_List_Erase link_ndx prior, st) }
     | instr_LinkListNullify \<Rightarrow> do { (link_ndx, st) \<leftarrow> read_size st; (prior, st) \<leftarrow> read_size st;
         Some (Link_List_Nullify link_ndx prior, st) }
     | instr_LinkListClear \<Rightarrow> do { (old_list_size, st) \<leftarrow> read_size st;
         Some (Link_List_Clear old_list_size, st) }
     | _ \<Rightarrow> None)"

text \<open>\<open>LinkListSetAll\<close> is delivered as one \<open>link_list_set\<close> per entry.\<close>

fun parse_set_all :: "size_t \<Rightarrow> nat \<Rightarrow> nat \<Rightarrow> list_call list reader" where
  "parse_set_all sz i 0 st = Some ([], st)"
| "parse_set_all sz i (Suc n) st = do {
     (link, st) \<leftarrow> read_size st;
     (cs, st) \<leftarrow> parse_set_all sz (Suc i) n st;
     Some (Link_List_Set (of_nat i) link sz # cs, st) }"

definition parse_columns :: "instruction \<Rightarrow> column_call reader" where
  "parse_columns instr st = (case instr of
       instr_AddSearchIndex \<Rightarrow> do { (col_ndx, st) \<leftarrow> read_size st; Some (Add_Search_Index col_ndx, st) }
     | instr_RemoveSearchIndex \<Rightarrow> do { (col_ndx, st) \<leftarrow> read_size st;
         Some (Remove_Search_Index col_ndx, st) }
     | instr_SetLinkType \<Rightarrow> do { (col_ndx, st) \<leftarrow> read_size st; (n, st) \<leftarrow> read_int t_int st;
         (case link_type_of n of None \<Rightarrow> None | Some t \<Rightarrow> Some (Set_Link_Type col_ndx t, st)) }
     | instr_EraseColumn \<Rightarrow> do { (col_ndx, st) \<leftarrow> read_size st; Some (Erase_Column col_ndx, st) }
     | instr_EraseLinkColumn \<Rightarrow> do { (col_ndx, st) \<leftarrow> read_size st; (target, st) \<leftarrow> read_size st;
         (backlink_col_ndx, st) \<leftarrow> read_size st;
         Some (Erase_Link_Column col_ndx target backlink_col_ndx, st) }
     | instr_RenameColumn \<Rightarrow> do { (col_ndx, st) \<leftarrow> read_size st; (name, st) \<leftarrow> read_string st;
         Some (Rename_Column col_ndx name, st) }
     | _ \<Rightarrow> None)"

definition parse_insert_column :: "instruction \<Rightarrow> column_call reader" where
  "parse_insert_column instr st = do {
     (col_ndx, st) \<leftarrow> read_size st;
     (n, st) \<leftarrow> read_int t_int st;
     (case data_type_of n of None \<Rightarrow> None | Some ty \<Rightarrow>
        if ty = type_Link \<or> ty = type_LinkList then None
        else do {
          (name, st) \<leftarrow> read_string st;
          let nullable = (instr = instr_InsertNullableColumn);
          if nullable \<and> ty = type_Mixed then None
          else Some (Insert_Column col_ndx ty name nullable, st) }) }"

definition parse_insert_link_column :: "column_call reader" where
  "parse_insert_link_column st = do {
     (col_ndx, st) \<leftarrow> read_size st;
     (n, st) \<leftarrow> read_int t_int st;
     (case data_type_of n of None \<Rightarrow> None | Some ty \<Rightarrow>
        if ty \<noteq> type_Link \<and> ty \<noteq> type_LinkList then None
        else do {
          (target, st) \<leftarrow> read_size st;
          (backlink_col_ndx, st) \<leftarrow> read_size st;
          (name, st) \<leftarrow> read_string st;
          Some (Insert_Link_Column col_ndx ty name target backlink_col_ndx, st) }) }"

fun read_path :: "nat \<Rightarrow> size_t list reader" where
  "read_path 0 st = Some ([], st)"
| "read_path (Suc n) st = do {
     (x, st) \<leftarrow> read_size st; (xs, st) \<leftarrow> read_path n st; Some (x # xs, st) }"

fun read_table_path :: "nat \<Rightarrow> (size_t \<times> size_t) list reader" where
  "read_table_path 0 st = Some ([], st)"
| "read_table_path (Suc n) st = do {
     (col_ndx, st) \<leftarrow> read_size st; (row_ndx, st) \<leftarrow> read_size st;
     (xs, st) \<leftarrow> read_table_path n st; Some ((col_ndx, row_ndx) # xs, st) }"

definition parse_select_table :: "group_call reader" where
  "parse_select_table st = do {
     (levels, st) \<leftarrow> read_int t_int st;
     if levels < 0 \<or> levels > max_levels then None
     else do {
       (group_level_ndx, st) \<leftarrow> read_size st;
       (path, st) \<leftarrow> read_table_path (nat levels) st;
       Some (Select_Table group_level_ndx path, st) } }"

definition parse_select_descriptor :: "group_call reader" where
  "parse_select_descriptor st = do {
     (levels, st) \<leftarrow> read_int t_int st;
     if levels < 0 \<or> levels > max_levels then None
     else do {
       (path, st) \<leftarrow> read_path (nat levels) st;
       Some (Select_Descriptor path, st) } }"

definition parse_group :: "instruction \<Rightarrow> group_call reader" where
  "parse_group instr st = (case instr of
       instr_SelectLinkList \<Rightarrow> do { (col_ndx, st) \<leftarrow> read_size st; (row_ndx, st) \<leftarrow> read_size st;
         (target, st) \<leftarrow> read_size st; Some (Select_Link_List col_ndx row_ndx target, st) }
     | instr_InsertGroupLevelTable \<Rightarrow> do { (table_ndx, st) \<leftarrow> read_size st;
         (num_tables, st) \<leftarrow> read_size st; (name, st) \<leftarrow> read_string st;
         Some (Insert_Group_Level_Table table_ndx num_tables name, st) }
     | instr_EraseGroupLevelTable \<Rightarrow> do { (table_ndx, st) \<leftarrow> read_size st;
         (prior_num_tables, st) \<leftarrow> read_size st;
         Some (Erase_Group_Level_Table table_ndx prior_num_tables, st) }
     | instr_RenameGroupLevelTable \<Rightarrow> do { (table_ndx, st) \<leftarrow> read_size st;
         (new_name, st) \<leftarrow> read_string st; Some (Rename_Group_Level_Table table_ndx new_name, st) }
     | _ \<Rightarrow> None)"

definition one :: "('a \<Rightarrow> call) \<Rightarrow> 'a reader \<Rightarrow> call list reader" where
  "one f m st = do { (c, st) \<leftarrow> m st; Some ([f c], st) }"

definition parse_instr :: "instruction \<Rightarrow> call list reader" where
  "parse_instr instr =
     (if instr \<in> {instr_SetDefault, instr_SetUnique, instr_Set} then one id (parse_set instr)
      else if instr \<in> {instr_AddInteger, instr_NullifyLink, instr_InsertSubstring,
          instr_EraseFromString} then one Edit (parse_edit instr)
      else if instr \<in> {instr_InsertEmptyRows, instr_AddRowWithKey, instr_EraseRows, instr_SwapRows,
          instr_MoveRow, instr_MergeRows, instr_ClearTable, instr_OptimizeTable}
        then one Rows (parse_rows instr)
      else if instr = instr_SelectTable then one Group parse_select_table
      else if instr = instr_SelectDescriptor then one Group parse_select_descriptor
      else if instr = instr_LinkListSetAll then
        (\<lambda>st. do { (sz, st) \<leftarrow> read_size st;
                  (cs, st) \<leftarrow> parse_set_all sz 0 (unat sz) st; Some (map Links cs, st) })
      else if instr \<in> {instr_LinkListSet, instr_LinkListInsert, instr_LinkListMove,
          instr_LinkListSwap, instr_LinkListErase, instr_LinkListNullify, instr_LinkListClear}
        then one Links (parse_links instr)
      else if instr \<in> {instr_InsertColumn, instr_InsertNullableColumn}
        then one Column (parse_insert_column instr)
      else if instr = instr_InsertLinkColumn then one Column parse_insert_link_column
      else if instr \<in> {instr_AddSearchIndex, instr_RemoveSearchIndex, instr_SetLinkType,
          instr_EraseColumn, instr_EraseLinkColumn, instr_RenameColumn}
        then one Column (parse_columns instr)
      else one Group (parse_group instr))"

definition parse_one :: "call list reader" where
  "parse_one st = do {
     (c, st) \<leftarrow> read_char st;
     (case instr_of c of None \<Rightarrow> None | Some instr \<Rightarrow> parse_instr instr st) }"

subsection \<open>The whole input\<close>

fun deliver :: "(call \<Rightarrow> 's \<Rightarrow> 's option) \<Rightarrow> call list \<Rightarrow> 's \<Rightarrow> 's option" where
  "deliver handler [] s = Some s"
| "deliver handler (c # cs) s = do { s \<leftarrow> handler c s; deliver handler cs s }"

lemma shrinks_size [shrink_intros]: "shrinks read_size"
  unfolding read_size_def [abs_def] by (intro shrink_intros)

lemma shrinks_int64 [shrink_intros]: "shrinks read_int64"
  unfolding read_int64_def [abs_def] by (intro shrink_intros)

lemma shrinks_int32 [shrink_intros]: "shrinks read_int32"
  unfolding read_int32_def [abs_def] by (intro shrink_intros)

lemma shrinks_bool [shrink_intros]: "shrinks read_bool"
  unfolding read_bool_def [abs_def] by (intro shrink_intros)

lemma shrinks_float [shrink_intros]: "shrinks read_float"
  unfolding read_float_def [abs_def] by (intro shrink_intros)

lemma shrinks_double [shrink_intros]: "shrinks read_double"
  unfolding read_double_def [abs_def] by (intro shrink_intros)

lemma shrinks_string [shrink_intros]: "shrinks read_string"
  unfolding read_string_def [abs_def] by (intro shrink_intros)

lemma shrinks_binary [shrink_intros]: "shrinks read_binary"
  unfolding read_binary_def [abs_def] by (intro shrink_intros)

lemma shrinks_timestamp [shrink_intros]: "shrinks read_timestamp"
  unfolding read_timestamp_def [abs_def] by (intro shrink_intros)

lemma shrinks_mixed [shrink_intros]: "shrinks read_mixed"
proof -
  have "shrinks (mixed_value ty)" for ty
  proof (cases ty)
    case None
    then show ?thesis by (simp add: mixed_value_def [abs_def] shrinks_None)
  next
    case (Some t)
    then show ?thesis unfolding mixed_value_def [abs_def]
      by (cases t) (simp_all only: option.case data_type.case; intro shrink_intros)+
  qed
  then show ?thesis unfolding read_mixed_def [abs_def] read_data_type_def [abs_def]
    by (intro shrink_intros)
qed

lemma shrinks_value [shrink_intros]: "shrinks (parse_value i c r p ty)"
proof (cases ty)
  case None
  then show ?thesis by (simp add: parse_value_def [abs_def] shrinks_None)
next
  case (Some t)
  then show ?thesis unfolding parse_value_def [abs_def]
    by (cases t) (simp_all only: option.case data_type.case; intro shrink_intros)+
qed

lemma shrinks_one [shrink_intros]: "shrinks m \<Longrightarrow> shrinks (one f m)"
  unfolding one_def [abs_def] by (intro shrink_intros)

lemma shrinks_set [shrink_intros]: "shrinks (parse_set i)"
  unfolding parse_set_def [abs_def] by (intro shrink_intros)

lemma shrinks_edit [shrink_intros]: "shrinks (parse_edit i)"
  unfolding parse_edit_def [abs_def]
  by (cases i) (simp_all only: instruction.case; intro shrink_intros)+

lemma shrinks_rows [shrink_intros]: "shrinks (parse_rows i)"
  unfolding parse_rows_def [abs_def]
  by (cases i) (simp_all only: instruction.case; intro shrink_intros)+

lemma shrinks_links [shrink_intros]: "shrinks (parse_links i)"
  unfolding parse_links_def [abs_def]
  by (cases i) (simp_all only: instruction.case; intro shrink_intros)+

lemma shrinks_group [shrink_intros]: "shrinks (parse_group i)"
  unfolding parse_group_def [abs_def]
  by (cases i) (simp_all only: instruction.case; intro shrink_intros)+

lemma shrinks_case_option:
  "shrinks f \<Longrightarrow> (\<And>x. shrinks (g x)) \<Longrightarrow> shrinks (\<lambda>st. case x of None \<Rightarrow> f st | Some y \<Rightarrow> g y st)"
  by (cases x) simp_all

lemma shrinks_columns [shrink_intros]: "shrinks (parse_columns i)"
  unfolding parse_columns_def [abs_def]
  by (cases i) (simp_all only: instruction.case; intro shrink_intros shrinks_case_option)+

lemma shrinks_insert_column [shrink_intros]: "shrinks (parse_insert_column i)"
  unfolding parse_insert_column_def [abs_def] by (intro shrink_intros shrinks_case_option)

lemma shrinks_insert_link_column [shrink_intros]: "shrinks parse_insert_link_column"
  unfolding parse_insert_link_column_def [abs_def] by (intro shrink_intros shrinks_case_option)

lemma shrinks_path [shrink_intros]: "shrinks (read_path n)"
proof (induction n)
  case (Suc n)
  show ?case unfolding read_path.simps [abs_def] by (intro shrink_intros Suc.IH)
qed (simp add: shrinks_return)

lemma shrinks_table_path [shrink_intros]: "shrinks (read_table_path n)"
proof (induction n)
  case (Suc n)
  show ?case unfolding read_table_path.simps [abs_def] by (intro shrink_intros Suc.IH)
qed (simp add: shrinks_return)

lemma shrinks_set_all [shrink_intros]: "shrinks (parse_set_all sz i n)"
proof (induction n arbitrary: i)
  case (Suc n)
  show ?case unfolding parse_set_all.simps [abs_def] by (intro shrink_intros Suc.IH)
qed (simp add: shrinks_def)

lemma shrinks_select_table [shrink_intros]: "shrinks parse_select_table"
  unfolding parse_select_table_def [abs_def] by (intro shrink_intros)

lemma shrinks_select_descriptor [shrink_intros]: "shrinks parse_select_descriptor"
  unfolding parse_select_descriptor_def [abs_def] by (intro shrink_intros)

lemma shrinks_instr: "shrinks (parse_instr i)"
  by (cases i) (simp_all add: parse_instr_def shrink_intros)

lemma parse_one_less: "parse_one st = Some (cs, st') \<Longrightarrow> length (flat_input st') < length (flat_input st)"
proof -
  assume "parse_one st = Some (cs, st')"
  then obtain c st1 i where c: "read_char st = Some (c, st1)" and "parse_instr i st1 = Some (cs, st')"
    unfolding parse_one_def by (auto split: Option.bind_splits option.splits)
  with shrinks_instr [of i] have "length (flat_input st') \<le> length (flat_input st1)"
    unfolding shrinks_def by blast
  with read_char_less [OF c] show ?thesis by simp
qed

lemma has_next_le: "length (flat_input (snd (has_next st))) \<le> length (flat_input st)"
  by (cases st rule: next_input_buffer.cases) (auto simp: has_next_def)

function parse :: "(call \<Rightarrow> 's \<Rightarrow> 's option) \<Rightarrow> input \<Rightarrow> 's \<Rightarrow> 's option" where
  "parse handler st s =
     (if fst (has_next st) then do {
        (cs, st') \<leftarrow> parse_one (snd (has_next st));
        s \<leftarrow> deliver handler cs s;
        parse handler st' s }
      else Some s)"
  by pat_completeness auto
termination
  by (relation "measure (\<lambda>(handler, st, s). length (flat_input st))")
    (auto dest!: parse_one_less intro: less_le_trans [OF _ has_next_le])

declare parse.simps [simp del]

end
