(* ===== verification/Transact_Roundtrip.thy ===== *)
theory Transact_Roundtrip
  imports Transact_Parse
begin

section \<open>What is written is read back\<close>

text \<open>
  For every call on the encoder: the bytes stay inside the space that was reserved
  (\<open>emits\<close>), and the parser turns them into the same call on its handler. Two things are
  changed on the way, and \<open>decoded\<close> says how: null strings and null binaries are written as
  \<open>set_null\<close>, and \<open>prior_num_rows\<close> is only written for \<open>SetUnique\<close>. A third change is an
  error of the code: \<open>set_double\<close> writes \<open>instr_Set\<close> whatever its variant is.
\<close>

subsection \<open>Reading the argument types\<close>

lemma word_of_int_uint_size: "(word_of_int (uint (n :: size_t)) :: size_t) = n"
  by simp

lemma representable_size: "representable t_size (uint (n :: size_t))"
  using uint_lt2p [of n] by (simp add: representable_def type_min_def type_max_def t_size_def)

lemma representable_int64: "representable t_int64 (sint (n :: int64))"
  using sint_lt [of n] sint_ge [of n]
  by (simp add: representable_def type_min_def type_max_def t_int64_def)

lemma representable_int32: "representable t_int (sint (n :: 32 word))"
  using sint_lt [of n] sint_ge [of n]
  by (simp add: representable_def type_min_def type_max_def t_int_def)

lemma reads_map_def:
  assumes "m = (\<lambda>st. Option.bind (m' st) (\<lambda>(x, st'). Some (f x, st')))" and "reads m' v bs"
  shows "reads m (f v) bs"
  using assms reads_map by simp

lemma reads_size [reads_intros]: "reads read_size n (encode_int t_size (uint n))"
proof -
  have "reads read_size (word_of_int (uint n)) (encode_int t_size (uint n))"
    by (rule reads_map_def [OF _ reads_int [OF representable_size]]) (simp add: read_size_def [abs_def])
  then show ?thesis by simp
qed

lemma reads_int64 [reads_intros]: "reads read_int64 n (encode_int t_int64 (sint n))"
proof -
  have "reads read_int64 (word_of_int (sint n)) (encode_int t_int64 (sint n))"
    by (rule reads_map_def [OF _ reads_int [OF representable_int64]])
      (simp add: read_int64_def [abs_def])
  then show ?thesis by simp
qed

lemma reads_int32 [reads_intros]: "reads read_int32 n (encode_int t_int (sint n))"
proof -
  have "reads read_int32 (word_of_int (sint n)) (encode_int t_int (sint n))"
    by (rule reads_map_def [OF _ reads_int [OF representable_int32]])
      (simp add: read_int32_def [abs_def])
  then show ?thesis by simp
qed

lemma encode_int_small: "0 \<le> v \<Longrightarrow> v < 64 \<Longrightarrow> encode_int T v = [word_of_int v]"
  by (simp add: encode_int_def enc_bytes_small drop_bit_6_zero)

lemma reads_bool [reads_intros]: "reads read_bool b [of_bool b]"
proof -
  have "representable t_char (of_bool b)"
    by (simp add: representable_def type_min_def type_max_def t_char_def)
  then have "reads read_bool ((of_bool b :: int) \<noteq> 0) (encode_int t_char (of_bool b))"
    by (intro reads_map_def [OF _ reads_int]) (simp_all add: read_bool_def [abs_def])
  then show ?thesis by (cases b) (simp_all add: encode_int_small)
qed

lemma type_code_range: "0 \<le> type_code t" "type_code t < 64"
  by (cases t; simp)+

lemma data_type_of_code [simp]: "data_type_of (type_code t) = Some t"
  by (cases t) (simp_all add: data_type_of_def data_types_def)

lemma reads_small_int: "0 \<le> v \<Longrightarrow> v < 64 \<Longrightarrow> reads (read_int t_int) v [word_of_int v]"
  using reads_int [of t_int v] encode_int_small [of v t_int]
  by (simp add: representable_def type_min_def type_max_def t_int_def)

lemma reads_type_code [reads_intros]:
  "reads (read_int t_int) (type_code t) [word_of_int (type_code t)]"
  by (rule reads_small_int) (rule type_code_range)+

lemma reads_data_type [reads_intros]:
  "reads read_data_type (Some t) [word_of_int (type_code t)]"
proof -
  have "reads read_data_type (data_type_of (type_code t)) [word_of_int (type_code t)]"
    by (rule reads_map_def [OF _ reads_type_code]) (simp add: read_data_type_def [abs_def])
  then show ?thesis by simp
qed

lemma link_type_code_ok: "representable t_int (link_type_code t)"
  by (cases t) (simp_all add: representable_def type_min_def type_max_def t_int_def)

lemma reads_link_type_code [reads_intros]:
  "reads (read_int t_int) (link_type_code t) (encode_int t_int (link_type_code t))"
  by (rule reads_int) (rule link_type_code_ok)

lemma link_type_of_code [simp]: "link_type_of (link_type_code t) = Some t"
  by (cases t) (simp_all add: link_type_of_def)

lemma reads_sentinel [reads_intros]:
  "reads (read_int t_int) set_null_sentinel (encode_int t_int set_null_sentinel)"
  by (rule reads_int) (simp add: representable_def type_min_def type_max_def t_int_def
      set_null_sentinel_def)

lemma le_bytes_length [simp]: "length (le_bytes n x) = n"
  by (induction n arbitrary: x) simp_all

lemma of_le_bytes_le_bytes: "0 \<le> x \<Longrightarrow> x < 256 ^ n \<Longrightarrow> of_le_bytes (le_bytes n x) = x"
proof (induction n arbitrary: x)
  case 0
  then show ?case by simp
next
  case (Suc n)
  have "x div 256 < 256 ^ n" using Suc.prems(2) by simp
  then have "of_le_bytes (le_bytes n (x div 256)) = x div 256"
    using Suc.IH [of "x div 256"] Suc.prems(1) by simp
  moreover have "uint (word_of_int (x mod 256) :: byte) = x mod 256" by (rule uint_byte) simp_all
  ultimately show ?case by (simp only: le_bytes.simps of_le_bytes.simps) simp
qed

lemma reads_float [reads_intros]: "reads read_float v (le_bytes 4 (uint v))"
proof -
  have "reads read_float (word_of_int (of_le_bytes (le_bytes 4 (uint v)))) (le_bytes 4 (uint v))"
    by (rule reads_map_def [OF _ reads_bytes]) (simp_all add: read_float_def [abs_def])
  moreover have "of_le_bytes (le_bytes 4 (uint v)) = uint v"
    using uint_lt2p [of v] by (intro of_le_bytes_le_bytes) simp_all
  ultimately show ?thesis by simp
qed

lemma reads_double [reads_intros]: "reads read_double v (le_bytes 8 (uint v))"
proof -
  have "reads read_double (word_of_int (of_le_bytes (le_bytes 8 (uint v)))) (le_bytes 8 (uint v))"
    by (rule reads_map_def [OF _ reads_bytes]) (simp_all add: read_double_def [abs_def])
  moreover have "of_le_bytes (le_bytes 8 (uint v)) = uint v"
    using uint_lt2p [of v] by (intro of_le_bytes_le_bytes) simp_all
  ultimately show ?thesis by simp
qed

lemma max_string_size_less: "n \<le> max_string_size \<Longrightarrow> n < 2 ^ 64"
  by (simp add: max_string_size_def)

lemma unat_of_nat_size: "n < 2 ^ 64 \<Longrightarrow> unat (of_nat n :: size_t) = n"
  by (simp add: unat_of_nat take_bit_nat_eq_self_iff)

lemma reads_binary:
  assumes "length s < 2 ^ 64"
  shows "reads read_binary s (encode_size (of_nat (length s)) @ s)"
  unfolding read_binary_def [abs_def] encode_size_def
  by (rule reads_bind [OF reads_size]) (rule reads_buffer, simp only: unat_of_nat_size [OF assms])

lemma reads_string:
  assumes "length s \<le> max_string_size"
  shows "reads read_string s (encode_size (of_nat (length s)) @ s)"
  unfolding read_string_def [abs_def] encode_size_def
proof (rule reads_bind [OF reads_size], rule reads_if_False)
  note len = unat_of_nat_size [OF max_string_size_less [OF assms]]
  show "\<not> max_string_size < unat (of_nat (length s) :: size_t)" using assms len by simp
  show "reads (read_buffer (unat (of_nat (length s) :: size_t))) s s"
    by (rule reads_buffer) (simp only: len)
qed

lemma reads_timestamp [reads_intros]:
  "reads read_timestamp ts (encode_int t_int64 (sint (get_seconds ts)) @
     encode_int t_int (sint (get_nanoseconds ts)))"
proof -
  have "reads read_timestamp (Timestamp (get_seconds ts) (get_nanoseconds ts))
     (encode_int t_int64 (sint (get_seconds ts)) @ encode_int t_int (sint (get_nanoseconds ts)) @ [])"
    unfolding read_timestamp_def [abs_def] by (rule reads_bind reads_intros)+
  then show ?thesis by simp
qed

subsection \<open>Writing stays inside the reserved space\<close>

definition emits :: "(encoder \<Rightarrow> encoder option) \<Rightarrow> bytes \<Rightarrow> bool" where
  "emits f bs \<longleftrightarrow> (\<forall>e. \<exists>e'. f e = Some e' \<and> written e' = written e @ bs)"

fun arg_ok :: "arg \<Rightarrow> bool" where
  "arg_ok (A_Num T v) \<longleftrightarrow> representable T v \<and> max_enc_bytes T \<le> 10"
| "arg_ok _ \<longleftrightarrow> True"

fun args_ok :: "arg list \<Rightarrow> bool" where
  "args_ok [] \<longleftrightarrow> True"
| "args_ok (A_Integers xs # args) \<longleftrightarrow> args = []"
| "args_ok (a # args) \<longleftrightarrow> arg_ok a \<and> args_ok args"

lemma encode_size_length: "length (encode_size n) \<le> 10"
  using encode_int_length [OF representable_size [of n]] by (simp add: encode_size_def)

lemma encode_int64_length: "length (encode_int64 n) \<le> 10"
  using encode_int_length [OF representable_int64 [of n]] by (simp add: encode_int64_def)

lemma max_enc_bytes_per_num_10 [simp]: "max_enc_bytes_per_num = 10"
  by (simp add: max_enc_bytes_per_num_def)

lemma concat_length_le:
  "(\<And>x. x \<in> set xs \<Longrightarrow> length (f x) \<le> n) \<Longrightarrow> length (concat (map f xs)) \<le> n * length xs"
  by (induction xs) (auto intro: add_mono)

lemma encode_length:
  assumes "arg_ok a" and "\<forall>xs. a \<noteq> A_Integers xs"
  shows "length (encode a) \<le> arg_max_size a"
proof (cases a)
  case (A_Num T v)
  then show ?thesis using assms(1) encode_int_length [of T v] by simp
next
  case (A_String s)
  then show ?thesis using encode_size_length by simp
next
  case (A_Unsigned xs)
  then show ?thesis using concat_length_le [of xs encode_size 10] encode_size_length by simp
qed (use assms in auto)

lemma put_space: "length bs \<le> space e \<Longrightarrow>
    put bs e = Some (e\<lparr>written := written e @ bs, space := space e - length bs\<rparr>)"
  by (simp add: put_def)

lemma buffer_reserve_ge: "m \<le> buffer_reserve c m"
  by (auto simp: buffer_reserve_def Let_def)

lemma reserve_space: "n \<le> space (reserve n e)" and reserve_written [simp]: "written (reserve n e) = written e"
  using buffer_reserve_ge [of "length (written e) + n" "length (written e) + space e"]
  by (auto simp: reserve_def transact_log_reserve_def Let_def)

lemma put_integers_space:
  "10 * length xs \<le> space e \<Longrightarrow>
    \<exists>e'. put_integers xs e = Some e' \<and> written e' = written e @ concat (map encode_int64 xs)"
proof (induction xs arbitrary: e)
  case Nil
  then show ?case by simp
next
  case (Cons x xs)
  have "length (encode_int64 x) \<le> space e"
    using Cons.prems encode_int64_length [of x] by simp
  define e1 where
    "e1 = e\<lparr>written := written e @ encode_int64 x, space := space e - length (encode_int64 x)\<rparr>"
  have e1: "put (encode_int64 x) e = Some e1" "written e1 = written e @ encode_int64 x"
    "space e1 = space e - length (encode_int64 x)"
    using put_space [OF \<open>length (encode_int64 x) \<le> space e\<close>] by (simp_all add: e1_def)
  have "10 * length xs \<le> space e1"
    using Cons.prems encode_int64_length [of x] e1(3) by simp
  from Cons.IH [OF this] e1 show ?case by auto
qed

lemma encode_integer_list_space:
  "10 * max_numbers_per_chunk \<le> space e \<Longrightarrow>
    \<exists>e'. encode_integer_list xs e = Some e' \<and> written e' = written e @ concat (map encode_int64 xs)"
proof (induction "length xs" arbitrary: xs e rule: less_induct)
  case less
  show ?case
  proof (cases "max_numbers_per_chunk < length xs")
    case True
    let ?h = "take max_numbers_per_chunk xs" and ?t = "drop max_numbers_per_chunk xs"
    have "10 * length ?h \<le> space e" using less.prems by simp
    then obtain e1 where e1: "put_integers ?h e = Some e1"
      "written e1 = written e @ concat (map encode_int64 ?h)" using put_integers_space by blast
    have "length ?t < length xs" using True by (simp add: max_numbers_per_chunk_def)
    then obtain e' where "encode_integer_list ?t (reserve (10 * max_numbers_per_chunk) e1) = Some e'"
      "written e' = written e1 @ concat (map encode_int64 ?t)"
      using less.hyps [of ?t "reserve (10 * max_numbers_per_chunk) e1"] reserve_space by auto
    moreover have "concat (map encode_int64 xs) =
        concat (map encode_int64 ?h) @ concat (map encode_int64 ?t)"
      by (metis append_take_drop_id concat_append map_append)
    ultimately show ?thesis using True e1 by simp
  next
    case False
    then show ?thesis using put_integers_space [of xs e] less.prems by simp
  qed
qed

declare encode_integer_list.simps [simp del]

lemma encode_list_step:
  assumes "arg_ok a" and "\<forall>xs. a \<noteq> A_Integers xs" and "arg_max_size a + n \<le> space e"
  shows "\<exists>e'. encode_arg a e = Some e' \<and> written e' = written e @ encode a \<and> n \<le> space e'"
proof -
  have le: "length (encode a) \<le> arg_max_size a" using assms(1,2) by (rule encode_length)
  have "encode_arg a e = put (encode a) e" using assms(2) by (cases a) simp_all
  with le assms(3) show ?thesis by (simp add: put_space)
qed

lemma encode_list_space:
  "args_ok args \<Longrightarrow> max_size_list args \<le> space e \<Longrightarrow>
    \<exists>e'. encode_list args e = Some e' \<and> written e' = written e @ concat (map encode args)"
proof (induction args arbitrary: e)
  case Nil
  then show ?case by simp
next
  case (Cons a args)
  show ?case
  proof (cases "\<exists>xs. a = A_Integers xs")
    case True
    then obtain xs where a: "a = A_Integers xs" by blast
    with Cons.prems have "args = []" "10 * max_numbers_per_chunk \<le> space e" by simp_all
    with encode_integer_list_space [of e xs] a show ?thesis by auto
  next
    case False
    with Cons.prems have ok: "arg_ok a" "args_ok args" by (cases a; simp)+
    obtain e1 where e1: "encode_arg a e = Some e1" "written e1 = written e @ encode a"
      "max_size_list args \<le> space e1"
      using encode_list_step [OF ok(1)] False Cons.prems(2) by fastforce
    from Cons.IH [OF ok(2) e1(3)] e1 show ?thesis by auto
  qed
qed

lemma emits_append:
  assumes "args_ok args"
  shows "emits (append_simple_instr args) (concat (map encode args))"
  unfolding emits_def append_simple_instr_def
  using encode_list_space [OF assms reserve_space] by auto

subsection \<open>Reading an instruction\<close>

lemma instr_of_byte [simp]: "instr_of (instr_byte i) = Some i"
  by (cases i) (simp_all add: instr_of_def instructions_def)

lemma reads_parse_one:
  assumes "reads (parse_instr i) cs bs"
  shows "reads parse_one cs ([instr_byte i] @ bs)"
  unfolding parse_one_def [abs_def]
  by (rule reads_bind [OF reads_char]) (simp add: assms)

lemma reads_one: "reads m v bs \<Longrightarrow> reads (one f m) [f v] bs"
  unfolding one_def [abs_def] using reads_bind [of m v bs "\<lambda>c st. Some ([f c], st)" "[f v]" "[]"]
  by (simp add: reads_return)

lemma reads_nil: "reads m v (bs @ []) \<Longrightarrow> reads m v bs"
  by simp

lemma reads_set_null:
  assumes "i \<in> {instr_Set, instr_SetUnique, instr_SetDefault}"
    and "p = (if i = instr_SetUnique then prior else 0)"
  shows "reads (parse_set i) (Field (Set_Null c r i p))
    (encode_int t_int set_null_sentinel @ encode_int t_size (uint c) @ encode_int t_size (uint r)
       @ (if i = instr_SetUnique then encode_int t_size (uint prior) else []) @ [])"
proof -
  have u: "reads (\<lambda>st. if i = instr_SetUnique then read_size st else Some (0, st)) p
      (if i = instr_SetUnique then encode_int t_size (uint prior) else [])"
    using assms by (simp add: reads_size reads_return)
  show ?thesis unfolding parse_set_def [abs_def]
    by (rule reads_bind, rule reads_sentinel, rule reads_bind, rule reads_size, rule reads_bind,
        rule reads_size, rule reads_bind, rule u, rule reads_if_True, simp, rule reads_return)
qed

lemma reads_set_value:
  assumes "i \<in> {instr_Set, instr_SetUnique, instr_SetDefault}"
    and "p = (if i = instr_SetUnique then prior else 0)"
    and "reads (parse_value i c r p (Some ty)) v bs"
  shows "reads (parse_set i) (Field v)
    ([word_of_int (type_code ty)] @ encode_int t_size (uint c) @ encode_int t_size (uint r)
       @ (if i = instr_SetUnique then encode_int t_size (uint prior) else []) @ bs)"
proof -
  have u: "reads (\<lambda>st. if i = instr_SetUnique then read_size st else Some (0, st)) p
      (if i = instr_SetUnique then encode_int t_size (uint prior) else [])"
    using assms by (simp add: reads_size reads_return)
  have n: "type_code ty \<noteq> set_null_sentinel"
    using type_code_range(1) [of ty] by (simp add: set_null_sentinel_def)
  have "reads (\<lambda>st. Option.bind (parse_value i c r p (data_type_of (type_code ty)) st)
      (\<lambda>(x, st'). Some (Field x, st'))) (Field v) bs"
    using reads_map [OF assms(3)] by simp
  note v = this
  show ?thesis unfolding parse_set_def [abs_def]
    by (rule reads_bind, rule reads_type_code, rule reads_bind, rule reads_size, rule reads_bind,
        rule reads_size, rule reads_bind, rule u, rule reads_if_False, rule n, rule v)
qed

subsection \<open>The round trip of a call\<close>

fun decoded_field :: "field_call \<Rightarrow> field_call" where
  "decoded_field (Set_Int c r v i p) = Set_Int c r v i (if i = instr_SetUnique then p else 0)"
| "decoded_field (Set_Null c r i p) = Set_Null c r i (if i = instr_SetUnique then p else 0)"
| "decoded_field (Set_String c r None i p) = Set_Null c r i (if i = instr_SetUnique then p else 0)"
| "decoded_field (Set_String c r (Some s) i p) =
     Set_String c r (Some s) i (if i = instr_SetUnique then p else 0)"
| "decoded_field (Set_Binary c r None i) = Set_Null c r i 0"
| "decoded_field (Set_Double c r v i) = Set_Double c r v instr_Set"
| "decoded_field f = f"

fun decoded :: "call \<Rightarrow> call" where
  "decoded (Field f) = Field (decoded_field f)"
| "decoded c = c"

text \<open>What the assertions of the encoder ask for, the size limit of strings, and the number of
  levels of a path that the parser has room for.\<close>

fun valid_field :: "field_call \<Rightarrow> bool" where
  "valid_field (Set_Int c r v i p) \<longleftrightarrow> i \<in> {instr_Set, instr_SetDefault, instr_SetUnique}"
| "valid_field (Set_Null c r i p) \<longleftrightarrow> i \<in> {instr_Set, instr_SetDefault, instr_SetUnique}"
| "valid_field (Set_String c r s i p) \<longleftrightarrow> i \<in> {instr_Set, instr_SetDefault, instr_SetUnique} \<and>
     (case s of None \<Rightarrow> True | Some bs \<Rightarrow> length bs \<le> max_string_size)"
| "valid_field (Set_Binary c r s i) \<longleftrightarrow> i \<in> {instr_Set, instr_SetDefault} \<and>
     (case s of None \<Rightarrow> True | Some bs \<Rightarrow> length bs < 2 ^ 64)"
| "valid_field (Set_Bool c r v i) \<longleftrightarrow> i \<in> {instr_Set, instr_SetDefault}"
| "valid_field (Set_Float c r v i) \<longleftrightarrow> i \<in> {instr_Set, instr_SetDefault}"
| "valid_field (Set_Double c r v i) \<longleftrightarrow> i \<in> {instr_Set, instr_SetDefault}"
| "valid_field (Set_OldDateTime c r v i) \<longleftrightarrow> i \<in> {instr_Set, instr_SetDefault}"
| "valid_field (Set_Timestamp c r v i) \<longleftrightarrow> i \<in> {instr_Set, instr_SetDefault}"
| "valid_field (Set_Table c r i) \<longleftrightarrow> i \<in> {instr_Set, instr_SetDefault}"
| "valid_field (Set_Link c r v t i) \<longleftrightarrow> i \<in> {instr_Set, instr_SetDefault}"
| "valid_field (Set_Mixed c r v i) \<longleftrightarrow> i \<in> {instr_Set, instr_SetDefault} \<and>
     (case v of Mixed_String s \<Rightarrow> length s \<le> max_string_size | Mixed_Binary s \<Rightarrow> length s < 2 ^ 64
        | _ \<Rightarrow> True)"

fun valid_call :: "call \<Rightarrow> bool" where
  "valid_call (Field f) \<longleftrightarrow> valid_field f"
| "valid_call (Group (Insert_Group_Level_Table t n name)) \<longleftrightarrow> length name \<le> max_string_size"
| "valid_call (Group (Select_Table g p)) \<longleftrightarrow> int (length p) \<le> max_levels"
| "valid_call (Group (Select_Descriptor p)) \<longleftrightarrow> int (length p) \<le> max_levels"
| "valid_call (Group (Rename_Group_Level_Table t name)) \<longleftrightarrow> length name \<le> max_string_size"
| "valid_call (Edit (Insert_Substring c r p s)) \<longleftrightarrow> length s \<le> max_string_size"
| "valid_call (Column (Insert_Link_Column c t name lt b)) \<longleftrightarrow>
     t \<in> {type_Link, type_LinkList} \<and> length name \<le> max_string_size"
| "valid_call (Column (Insert_Column c t name nullable)) \<longleftrightarrow>
     t \<notin> {type_Link, type_LinkList} \<and> \<not> (nullable \<and> t = type_Mixed) \<and>
     length name \<le> max_string_size"
| "valid_call (Column (Rename_Column c name)) \<longleftrightarrow> length name \<le> max_string_size"
| "valid_call c \<longleftrightarrow> True"

lemma parse_instr_simps:
  "parse_instr instr_Set = one id (parse_set instr_Set)"
  "parse_instr instr_SetUnique = one id (parse_set instr_SetUnique)"
  "parse_instr instr_SetDefault = one id (parse_set instr_SetDefault)"
  "parse_instr instr_AddInteger = one Edit (parse_edit instr_AddInteger)"
  "parse_instr instr_NullifyLink = one Edit (parse_edit instr_NullifyLink)"
  "parse_instr instr_InsertSubstring = one Edit (parse_edit instr_InsertSubstring)"
  "parse_instr instr_EraseFromString = one Edit (parse_edit instr_EraseFromString)"
  "parse_instr instr_InsertEmptyRows = one Rows (parse_rows instr_InsertEmptyRows)"
  "parse_instr instr_AddRowWithKey = one Rows (parse_rows instr_AddRowWithKey)"
  "parse_instr instr_EraseRows = one Rows (parse_rows instr_EraseRows)"
  "parse_instr instr_SwapRows = one Rows (parse_rows instr_SwapRows)"
  "parse_instr instr_MoveRow = one Rows (parse_rows instr_MoveRow)"
  "parse_instr instr_MergeRows = one Rows (parse_rows instr_MergeRows)"
  "parse_instr instr_ClearTable = one Rows (parse_rows instr_ClearTable)"
  "parse_instr instr_OptimizeTable = one Rows (parse_rows instr_OptimizeTable)"
  "parse_instr instr_LinkListSet = one Links (parse_links instr_LinkListSet)"
  "parse_instr instr_LinkListInsert = one Links (parse_links instr_LinkListInsert)"
  "parse_instr instr_LinkListMove = one Links (parse_links instr_LinkListMove)"
  "parse_instr instr_LinkListSwap = one Links (parse_links instr_LinkListSwap)"
  "parse_instr instr_LinkListErase = one Links (parse_links instr_LinkListErase)"
  "parse_instr instr_LinkListNullify = one Links (parse_links instr_LinkListNullify)"
  "parse_instr instr_LinkListClear = one Links (parse_links instr_LinkListClear)"
  "parse_instr instr_AddSearchIndex = one Column (parse_columns instr_AddSearchIndex)"
  "parse_instr instr_RemoveSearchIndex = one Column (parse_columns instr_RemoveSearchIndex)"
  "parse_instr instr_SetLinkType = one Column (parse_columns instr_SetLinkType)"
  "parse_instr instr_EraseColumn = one Column (parse_columns instr_EraseColumn)"
  "parse_instr instr_EraseLinkColumn = one Column (parse_columns instr_EraseLinkColumn)"
  "parse_instr instr_RenameColumn = one Column (parse_columns instr_RenameColumn)"
  "parse_instr instr_InsertGroupLevelTable = one Group (parse_group instr_InsertGroupLevelTable)"
  "parse_instr instr_EraseGroupLevelTable = one Group (parse_group instr_EraseGroupLevelTable)"
  "parse_instr instr_RenameGroupLevelTable = one Group (parse_group instr_RenameGroupLevelTable)"
  "parse_instr instr_SelectLinkList = one Group (parse_group instr_SelectLinkList)"
  "parse_instr instr_InsertColumn = one Column (parse_insert_column instr_InsertColumn)"
  "parse_instr instr_InsertNullableColumn = one Column (parse_insert_column instr_InsertNullableColumn)"
  "parse_instr instr_InsertLinkColumn = one Column parse_insert_link_column"
  by (simp_all add: parse_instr_def)

text \<open>Each call: the bytes of its arguments are emitted and read back.\<close>

definition roundtrips :: "(encoder \<Rightarrow> encoder option) \<Rightarrow> call list \<Rightarrow> bool" where
  "roundtrips f cs \<longleftrightarrow> (\<exists>bs. emits f bs \<and> bs \<noteq> [] \<and> reads parse_one cs bs)"

lemma roundtrips_append:
  assumes "args_ok (A_Instr i # args)" and "reads (parse_instr i) cs (concat (map encode args))"
  shows "roundtrips (append_simple_instr (A_Instr i # args)) cs"
  unfolding roundtrips_def using emits_append [OF assms(1)] reads_parse_one [OF assms(2)] by auto

lemmas size_ok = representable_size representable_int64 representable_int32

lemmas parse_defs = parse_instr_simps parse_edit_def [abs_def] parse_rows_def [abs_def]
  parse_links_def [abs_def] parse_columns_def [abs_def] parse_group_def [abs_def]
  parse_insert_column_def [abs_def] parse_insert_link_column_def [abs_def]

lemmas arg_bytes = encode.simps list.map concat.simps

lemma roundtrips_edit:
  assumes "encode_call (Edit c) = Some f" and "valid_call (Edit c)"
  shows "roundtrips f [Edit c]"
  using assms
  apply (cases c; clarsimp simp: enc_add_int_def enc_nullify_link_def enc_insert_substring_def
    enc_erase_substring_def)
  by (rule roundtrips_append, simp add: size_ok,
      simp only: parse_defs instruction.case arg_bytes,
      ((rule reads_one reads_bind reads_intros) | (rule reads_string, assumption))+)+

lemma roundtrips_rows:
  assumes "encode_call (Rows c) = Some f"
  shows "roundtrips f [Rows c]"
  using assms
  apply (cases c; clarsimp simp: enc_insert_empty_rows_def enc_add_row_with_key_def
    enc_erase_rows_def enc_swap_rows_def enc_move_row_def enc_merge_rows_def enc_clear_table_def
    enc_optimize_table_def)
  by (rule roundtrips_append, simp add: size_ok,
      simp only: parse_defs instruction.case arg_bytes,
      (rule reads_one reads_bind reads_intros)+)+

lemma roundtrips_links:
  assumes "encode_call (Links c) = Some f"
  shows "roundtrips f [Links c]"
  using assms
  apply (cases c; clarsimp simp: enc_link_list_set_def enc_link_list_insert_def
    enc_link_list_move_def enc_link_list_swap_def enc_link_list_erase_def
    enc_link_list_nullify_def enc_link_list_clear_def)
  by (rule roundtrips_append, simp add: size_ok,
      simp only: parse_defs instruction.case arg_bytes,
      (rule reads_one reads_bind reads_intros)+)+

lemma roundtrips_group:
  assumes "encode_call (Group c) = Some f" and "valid_call (Group c)"
  shows "roundtrips f [Group c]"
  using assms
  apply (cases c; clarsimp simp: enc_insert_group_level_table_def enc_erase_group_level_table_def
    enc_rename_group_level_table_def)
  by (rule roundtrips_append, simp add: size_ok,
      simp only: parse_defs instruction.case arg_bytes,
      ((rule reads_one reads_bind reads_intros) | (rule reads_string, assumption))+)+

lemma reads_insert_column:
  assumes "t \<notin> {type_Link, type_LinkList}" and "\<not> (nullable \<and> t = type_Mixed)"
    and "length name \<le> max_string_size"
    and "i = (if nullable then instr_InsertNullableColumn else instr_InsertColumn)"
  shows "reads (parse_insert_column i) (Insert_Column c t name nullable)
    (encode_int t_size (uint c) @ [word_of_int (type_code t)] @
      (encode_size (of_nat (length name)) @ name) @ [])"
  unfolding parse_insert_column_def [abs_def]
  apply (rule reads_bind, rule reads_size, rule reads_bind, rule reads_type_code)
  apply (simp only: data_type_of_code option.case)
  apply (rule reads_if_False, use assms(1) in simp)
  apply (rule reads_bind, rule reads_string, rule assms(3), rule reads_let, rule reads_if_False)
  using assms(2,4) by (auto simp: reads_return)

lemma reads_insert_link_column:
  assumes "t \<in> {type_Link, type_LinkList}" and "length name \<le> max_string_size"
  shows "reads parse_insert_link_column (Insert_Link_Column c t name lt b)
    (encode_int t_size (uint c) @ [word_of_int (type_code t)] @ encode_int t_size (uint lt) @
      encode_int t_size (uint b) @ (encode_size (of_nat (length name)) @ name) @ [])"
  unfolding parse_insert_link_column_def [abs_def]
  apply (rule reads_bind, rule reads_size, rule reads_bind, rule reads_type_code)
  apply (simp only: data_type_of_code option.case)
  apply (rule reads_if_False, use assms(1) in blast)
  by (rule reads_bind, rule reads_size, rule reads_bind, rule reads_size, rule reads_bind,
      rule reads_string, rule assms(2), rule reads_return)

lemma reads_set_link_type:
  "reads (parse_columns instr_SetLinkType) (Set_Link_Type c t)
    (encode_int t_size (uint c) @ encode_int t_int (link_type_code t) @ [])"
  unfolding parse_columns_def [abs_def] instruction.case
  by (rule reads_bind, rule reads_size, rule reads_bind, rule reads_link_type_code)
    (simp add: reads_return)

lemma roundtrips_insert_column:
  assumes "valid_call (Column (Insert_Column c t name nullable))"
  shows "roundtrips (enc_insert_column c t name nullable) [Column (Insert_Column c t name nullable)]"
proof -
  define i where "i = (if nullable then instr_InsertNullableColumn else instr_InsertColumn)"
  have "parse_instr i = one Column (parse_insert_column i)"
    by (simp add: i_def parse_instr_simps)
  then show ?thesis
    unfolding enc_insert_column_def i_def [symmetric] using assms
    by (intro roundtrips_append) (simp add: size_ok, simp only: arg_bytes,
        intro reads_one reads_insert_column, auto simp: i_def)
qed

lemma roundtrips_columns:
  assumes "encode_call (Column c) = Some f" and "valid_call (Column c)"
  shows "roundtrips f [Column c]"
proof (cases c)
  case (Insert_Column a t name nullable)
  then show ?thesis using assms roundtrips_insert_column [of a t name nullable] by simp
next
  case (Insert_Link_Column a t name lt b)
  with assms(2) have v: "t \<in> {type_Link, type_LinkList}" "length name \<le> max_string_size"
    by simp_all
  have "roundtrips (enc_insert_link_column a t name lt b) [Column c]"
    unfolding enc_insert_link_column_def Insert_Link_Column
    by (rule roundtrips_append, simp add: size_ok, simp only: parse_instr_simps arg_bytes,
        rule reads_one, rule reads_insert_link_column, rule v(1), rule v(2))
  then show ?thesis using assms Insert_Link_Column by simp
next
  case (Set_Link_Type a t)
  have "roundtrips (enc_set_link_type a t) [Column c]"
    unfolding enc_set_link_type_def Set_Link_Type
    by (rule roundtrips_append, simp add: size_ok link_type_code_ok,
        simp only: parse_instr_simps arg_bytes, rule reads_one, rule reads_set_link_type)
  then show ?thesis using assms Set_Link_Type by simp
qed (insert assms, clarsimp simp: enc_erase_link_column_def enc_erase_column_def
    enc_rename_column_def enc_add_search_index_def enc_remove_search_index_def,
    rule roundtrips_append, simp add: size_ok,
    simp only: parse_defs instruction.case arg_bytes,
    ((rule reads_one reads_bind reads_intros) | (rule reads_string, assumption))+)+

lemma roundtrips_set_plain:
  assumes "i \<in> {instr_Set, instr_SetDefault}" and "args_ok args"
    and "reads (parse_value i c r 0 (Some ty)) v (concat (map encode args))"
  shows "roundtrips (append_simple_instr (A_Instr i # A_Type ty # A_Size c # A_Size r # args))
    [Field v]"
proof (rule roundtrips_append)
  show "args_ok (A_Instr i # A_Type ty # A_Size c # A_Size r # args)"
    using assms(2) by (simp add: size_ok)
  have "parse_instr i = one id (parse_set i)" using assms(1) by (auto simp: parse_instr_simps)
  moreover have "reads (parse_set i) (Field v) (concat (map encode (A_Type ty # A_Size c # A_Size r # args)))"
    using reads_set_value [of i 0 0 c r ty v "concat (map encode args)"] assms(1,3) by auto
  ultimately show "reads (parse_instr i) [Field v]
      (concat (map encode (A_Type ty # A_Size c # A_Size r # args)))"
    using reads_one [of "parse_set i" "Field v" _ id] by simp
qed

lemma roundtrips_set_unique:
  assumes "args_ok args"
    and "reads (parse_value instr_SetUnique c r p (Some ty)) v (concat (map encode args))"
  shows "roundtrips (append_simple_instr
    (A_Instr instr_SetUnique # A_Type ty # A_Size c # A_Size r # A_Size p # args)) [Field v]"
proof (rule roundtrips_append)
  show "args_ok (A_Instr instr_SetUnique # A_Type ty # A_Size c # A_Size r # A_Size p # args)"
    using assms(1) by (simp add: size_ok)
  have "reads (parse_set instr_SetUnique) (Field v)
      (concat (map encode (A_Type ty # A_Size c # A_Size r # A_Size p # args)))"
    using reads_set_value [of instr_SetUnique p p c r ty v "concat (map encode args)"] assms(2)
    by simp
  then show "reads (parse_instr instr_SetUnique) [Field v]
      (concat (map encode (A_Type ty # A_Size c # A_Size r # A_Size p # args)))"
    using reads_one [of "parse_set instr_SetUnique" "Field v" _ id] by (simp add: parse_instr_simps)
qed

lemma roundtrips_set_null:
  assumes "i \<in> {instr_Set, instr_SetDefault, instr_SetUnique}"
  shows "roundtrips (enc_set_null c r i p) [Field (decoded_field (Set_Null c r i p))]"
proof -
  have s: "representable t_int set_null_sentinel"
    by (simp add: representable_def type_min_def type_max_def t_int_def set_null_sentinel_def)
  have "parse_instr i = one id (parse_set i)" using assms by (auto simp: parse_instr_simps)
  then have "reads (parse_instr i) [Field (decoded_field (Set_Null c r i p))]
    (encode_int t_int set_null_sentinel @ encode_int t_size (uint c) @ encode_int t_size (uint r)
       @ (if i = instr_SetUnique then encode_int t_size (uint p) else []) @ [])"
    using reads_one [OF reads_set_null [of i _ p c r], of _ id] assms by auto
  then show ?thesis unfolding enc_set_null_def
    by (auto intro!: roundtrips_append simp: s size_ok)
qed

lemmas value_defs = parse_value_def [abs_def] option.case data_type.case

lemma reads_mixed_value:
  assumes "case v of Mixed_String s \<Rightarrow> length s \<le> max_string_size
      | Mixed_Binary s \<Rightarrow> length s < 2 ^ 64 | _ \<Rightarrow> True"
  shows "reads (mixed_value (Some (mixed_type v))) v (concat (map encode (mixed_args v)))"
proof (cases v)
  case (Mixed_Timestamp ts)
  then show ?thesis
    using reads_map [OF reads_timestamp [of ts], of Mixed_Timestamp]
    by (simp add: mixed_value_def [abs_def])
next
  case (Mixed_String s)
  then show ?thesis using assms reads_map [OF reads_string [of s], of Mixed_String]
    by (simp add: mixed_value_def [abs_def])
next
  case (Mixed_Binary s)
  then show ?thesis using assms reads_map [OF reads_binary [of s], of Mixed_Binary]
    by (simp add: mixed_value_def [abs_def])
qed (simp only: mixed_value_def [abs_def] option.case data_type.case mixed_type.simps
       mixed_args.simps arg_bytes, (rule reads_bind reads_intros)+)+

lemma mixed_args_ok: "args_ok (mixed_args v)"
  by (cases v) (simp_all add: size_ok)

lemma args_ok_append: "args_ok (mixed_args v) \<Longrightarrow>
    args_ok (A_Instr i # A_Type t # A_Size c # A_Size r # A_Type u # mixed_args v)"
  by (simp add: size_ok)

lemma reads_mixed:
  assumes "case v of Mixed_String s \<Rightarrow> length s \<le> max_string_size
      | Mixed_Binary s \<Rightarrow> length s < 2 ^ 64 | _ \<Rightarrow> True"
  shows "reads read_mixed v (concat (map encode (A_Type (mixed_type v) # mixed_args v)))"
  using reads_bind [of _ _ _ mixed_value, OF reads_data_type reads_mixed_value [OF assms]]
  unfolding read_mixed_def [abs_def] by simp

lemma roundtrips_field:
  assumes "encode_call (Field c) = Some f" and "valid_call (Field c)"
  shows "roundtrips f [Field (decoded_field c)]"
proof (cases c)
  case (Set_Int a b v i p)
  have "roundtrips (enc_set_int a b v i p) [Field (decoded_field c)]"
    unfolding enc_set_int_def using assms(2) Set_Int
    by (auto intro!: roundtrips_set_plain roundtrips_set_unique simp: size_ok value_defs
        intro: reads_map [OF reads_int64])
  then show ?thesis using assms(1) Set_Int by simp
next
  case (Set_Null a b i p)
  then show ?thesis using assms roundtrips_set_null [of i a b p] by simp
next
  case (Set_String a b v i p)
  have "roundtrips (enc_set_string a b v i p) [Field (decoded_field c)]"
    using assms(2) Set_String roundtrips_set_null [of i a b p] unfolding enc_set_string_def
    by (auto intro!: roundtrips_set_plain roundtrips_set_unique simp: size_ok value_defs
        intro: reads_map [OF reads_string] split: option.splits)
  then show ?thesis using assms(1) Set_String by simp
next
  case (Set_Binary a b v i)
  have "roundtrips (enc_set_binary a b v i) [Field (decoded_field c)]"
    using assms(2) Set_Binary roundtrips_set_null [of i a b 0] unfolding enc_set_binary_def
    by (auto intro!: roundtrips_set_plain simp: value_defs
        intro: reads_map [OF reads_binary [simplified]] split: option.splits)
  then show ?thesis using assms(1) Set_Binary by simp
next
  case (Set_Mixed a b v i)
  have "reads (parse_value i a b 0 (Some type_Mixed)) (Set_Mixed a b v i)
      (concat (map encode (A_Type (mixed_type v) # mixed_args v)))"
    unfolding value_defs using assms(2) Set_Mixed by (intro reads_map reads_mixed) simp
  then have "roundtrips (enc_set_mixed a b v i) [Field (decoded_field c)]"
    unfolding enc_set_mixed_def append_mixed_instr_def using assms(2) Set_Mixed
      roundtrips_set_plain [of i "A_Type (mixed_type v) # mixed_args v" a b type_Mixed] mixed_args_ok
    by simp
  then show ?thesis using assms(1) Set_Mixed by simp
next
  case (Set_Link a b v t i)
  have "reads (parse_value i a b 0 (Some type_Link)) (Set_Link a b (1 + v - 1) t i)
      (concat (map encode [A_Size (1 + v), A_Size t]))"
    unfolding value_defs arg_bytes by (rule reads_bind reads_intros)+
  then show ?thesis using assms Set_Link roundtrips_set_plain [of i "[A_Size (1 + v), A_Size t]"]
    by (auto simp: enc_set_link_def size_ok)
next
  case (Set_Timestamp a b v i)
  have "reads (parse_value i a b 0 (Some type_Timestamp))
      (Set_Timestamp a b (Timestamp (get_seconds v) (get_nanoseconds v)) i)
      (concat (map encode [A_Int64 (get_seconds v), A_Num t_int (sint (get_nanoseconds v))]))"
    unfolding value_defs arg_bytes by (rule reads_bind reads_intros)+
  then show ?thesis using assms Set_Timestamp roundtrips_set_plain
      [of i "[A_Int64 (get_seconds v), A_Num t_int (sint (get_nanoseconds v))]"]
    by (auto simp: enc_set_timestamp_def size_ok)
qed (use assms in \<open>auto intro!: roundtrips_set_plain simp: size_ok value_defs enc_set_bool_def
      enc_set_float_def enc_set_double_def enc_set_olddatetime_def enc_set_table_def
      intro: reads_map [OF reads_int64] reads_map [OF reads_bool [of True, simplified]]
        reads_map [OF reads_bool [of False, simplified]] reads_map [OF reads_float]
        reads_map [OF reads_double] reads_return\<close>)

subsection \<open>\<open>LinkListSetAll\<close>\<close>

fun set_all_calls :: "size_t \<Rightarrow> nat \<Rightarrow> int64 list \<Rightarrow> list_call list" where
  "set_all_calls sz i [] = []"
| "set_all_calls sz i (v # vs) = Link_List_Set (of_nat i) v sz # set_all_calls sz (Suc i) vs"

lemma encode_int64_nonneg:
  assumes "0 \<le> sint (v :: int64)"
  shows "encode_int64 v = encode_int t_size (uint v)"
proof -
  have "sint v = uint v"
    using assms sint_lt [of v] by (simp add: uint_sint take_bit_int_eq_self)
  then show ?thesis by (simp add: encode_int64_def encode_int_def)
qed

lemma reads_set_all:
  assumes "\<forall>v \<in> set vs. 0 \<le> sint v"
  shows "reads (parse_set_all sz i (length vs)) (set_all_calls sz i vs) (concat (map encode_int64 vs))"
  using assms
proof (induction vs arbitrary: i)
  case Nil
  then show ?case by (simp add: reads_def)
next
  case (Cons v vs)
  have "reads (parse_set_all sz i (Suc (length vs))) (set_all_calls sz i (v # vs))
      (encode_int t_size (uint v) @ concat (map encode_int64 vs) @ [])"
    unfolding parse_set_all.simps [abs_def] set_all_calls.simps
    by (rule reads_bind, rule reads_size, rule reads_bind, rule Cons.IH)
      (use Cons.prems in \<open>auto intro: reads_return\<close>)
  then show ?case using Cons.prems encode_int64_nonneg [of v]
    by (simp del: parse_set_all.simps)
qed

lemma roundtrips_set_all:
  assumes "\<forall>v \<in> set vs. 0 \<le> sint v" and "length vs < 2 ^ 64"
  shows "roundtrips (enc_link_list_set_all vs)
    (map Links (set_all_calls (of_nat (length vs)) 0 vs))"
  unfolding enc_link_list_set_all_def
proof (rule roundtrips_append)
  show "args_ok [A_Instr instr_LinkListSetAll, A_Size (of_nat (length vs)), A_Integers vs]"
    by (simp add: size_ok)
  have "reads (\<lambda>st. do { (sz, st) \<leftarrow> read_size st; (cs, st) \<leftarrow> parse_set_all sz 0 (unat sz) st;
      Some (map Links cs, st) }) (map Links (set_all_calls (of_nat (length vs)) 0 vs))
      (encode_int t_size (uint (of_nat (length vs) :: size_t)) @ concat (map encode_int64 vs) @ [])"
    by (rule reads_bind, rule reads_size, rule reads_bind,
        simp only: unat_of_nat_size [OF assms(2)], rule reads_set_all [OF assms(1)], rule reads_return)
  then show "reads (parse_instr instr_LinkListSetAll)
      (map Links (set_all_calls (of_nat (length vs)) 0 vs))
      (concat (map encode [A_Size (of_nat (length vs)), A_Integers vs]))"
    by (simp add: parse_instr_def)
qed

subsection \<open>Logs\<close>

lemma roundtrips_call:
  assumes "encode_call c = Some f" and "valid_call c"
  shows "roundtrips f [decoded c]"
  using assms roundtrips_edit roundtrips_rows roundtrips_links roundtrips_group roundtrips_columns
    roundtrips_field by (cases c) auto

fun encode_calls :: "call list \<Rightarrow> encoder \<Rightarrow> encoder option" where
  "encode_calls [] e = Some e"
| "encode_calls (c # cs) e = do { f \<leftarrow> encode_call c; e \<leftarrow> f e; encode_calls cs e }"

lemma has_next_reads:
  assumes "input_ok st" and "flat_input st = bs @ r" and "bs \<noteq> []"
  shows "fst (has_next st)" and "input_ok (snd (has_next st))" and "flat_input (snd (has_next st)) = bs @ r"
  using assms by (cases st rule: next_input_buffer.cases; auto simp: has_next_def)+

lemma parse_roundtrip:
  assumes "list_all2 (\<lambda>bs cs. bs \<noteq> [] \<and> reads parse_one cs bs) bss css"
    and "input_ok st" and "flat_input st = concat bss"
  shows "parse handler st s = deliver handler (concat css) s"
  using assms
proof (induction bss css arbitrary: st s rule: list_all2_induct)
  case Nil
  then show ?case
    by (subst parse.simps) (cases st rule: next_input_buffer.cases; auto simp: has_next_def)
next
  case (Cons bs bss cs css)
  have bs: "bs \<noteq> []" "reads parse_one cs bs" and fl: "flat_input st = bs @ concat bss"
    using Cons.hyps Cons.prems(2) by (simp_all del: flat_input.simps)
  note h = has_next_reads [OF Cons.prems(1) fl bs(1)]
  obtain st' where p: "parse_one (snd (has_next st)) = Some (cs, st')" "input_ok st'"
    "flat_input st' = concat bss"
    using bs(2) h(2,3) unfolding reads_def by blast
  have "deliver handler (xs @ ys) t = Option.bind (deliver handler xs t) (deliver handler ys)"
    for xs ys t by (induction xs arbitrary: t) (auto split: Option.bind_split)
  moreover have "parse handler st' = deliver handler (concat css)"
    using Cons.IH [OF p(2,3)] by (rule ext)
  ultimately show ?case using p h by (subst parse.simps) simp
qed

lemma encode_calls_parse:
  assumes "list_all (\<lambda>c. encode_call c \<noteq> None \<and> valid_call c) cs"
  shows "\<exists>e' bss. encode_calls cs e = Some e' \<and> written e' = written e @ concat bss
    \<and> list_all2 (\<lambda>bs ds. bs \<noteq> [] \<and> reads parse_one ds bs) bss (map (\<lambda>c. [decoded c]) cs)"
  using assms
proof (induction cs arbitrary: e)
  case Nil
  show ?case by (auto intro: exI [of _ "[]"])
next
  case (Cons c cs)
  then obtain f where f: "encode_call c = Some f" "valid_call c" by auto
  then obtain bs where bs: "emits f bs" "bs \<noteq> []" "reads parse_one [decoded c] bs"
    using roundtrips_call unfolding roundtrips_def by blast
  then obtain e1 where e1: "f e = Some e1" "written e1 = written e @ bs"
    unfolding emits_def by blast
  from Cons.prems have "list_all (\<lambda>c. encode_call c \<noteq> None \<and> valid_call c) cs" by simp
  from Cons.IH [OF this, of e1] obtain e' bss where "encode_calls cs e1 = Some e'" "written e' = written e1 @ concat bss"
    "list_all2 (\<lambda>bs ds. bs \<noteq> [] \<and> reads parse_one ds bs) bss (map (\<lambda>c. [decoded c]) cs)"
    by blast
  with f bs e1 show ?case by (intro exI [of _ e'] exI [of _ "bs # bss"]) simp
qed

end
