(* ===== verification/Transact_Reverse.thy ===== *)
theory Transact_Reverse
  imports Transact_Roundtrip
begin

section \<open>Reversing a transaction log\<close>

text \<open>
  \<open>TransactReverser\<close> of \<open>realm/impl/transact_log.hpp\<close> is an \<open>InstructionHandler\<close> that writes
  the inverse of every instruction it is given and remembers where each of them starts and
  ends; \<open>ReversedNoCopyInputStream\<close> then hands them out last to first, one written_block for each.
  The \<open>select\<close> instructions are held back until the next selection of the same kind, so that
  they end up in front of the instructions they are for when the log is read backwards.

  The encoding of the \<open>select\<close> instructions is not part of the repository and is a parameter,
  \<open>sel\<close>. The lemmas relate the code to \<open>rev_calls\<close>, the same machine on lists of calls, and
  show that each inverse is read under the selection of its original.
\<close>

subsection \<open>The code\<close>

record reverser =
  r_encoder :: encoder
  r_instructions :: "(nat \<times> nat) list"
  r_start :: nat
  r_pending_ts :: "nat \<times> nat"
  r_pending_ds :: "nat \<times> nat"
  r_pending_lv :: "nat \<times> nat"

definition new_reverser :: reverser where
  "new_reverser = \<lparr>r_encoder = \<lparr>written = [], space = 0\<rparr>, r_instructions = [], r_start = 0,
     r_pending_ts = (0, 0), r_pending_ds = (0, 0), r_pending_lv = (0, 0)\<rparr>"

definition get_inst :: "reverser \<Rightarrow> (nat \<times> nat) \<times> reverser" where
  "get_inst r =
     (let end_pos = length (written (r_encoder r)) in ((r_start r, end_pos), r\<lparr>r_start := end_pos\<rparr>))"

definition append_instruction :: "reverser \<Rightarrow> reverser" where
  "append_instruction r =
     (let (instr, r) = get_inst r in r\<lparr>r_instructions := r_instructions r @ [instr]\<rparr>)"

definition sync_linkview :: "reverser \<Rightarrow> reverser" where
  "sync_linkview r =
     (if fst (r_pending_lv r) \<noteq> snd (r_pending_lv r)
      then r\<lparr>r_instructions := r_instructions r @ [r_pending_lv r], r_pending_lv := (0, 0)\<rparr> else r)"

definition sync_descriptor :: "reverser \<Rightarrow> reverser" where
  "sync_descriptor r0 =
     (let r = sync_linkview r0
      in if fst (r_pending_ds r) \<noteq> snd (r_pending_ds r)
         then r\<lparr>r_instructions := r_instructions r @ [r_pending_ds r], r_pending_ds := (0, 0)\<rparr> else r)"

definition sync_table :: "reverser \<Rightarrow> reverser" where
  "sync_table r0 =
     (let r = sync_descriptor r0
      in if fst (r_pending_ts r) \<noteq> snd (r_pending_ts r)
         then r\<lparr>r_instructions := r_instructions r @ [r_pending_ts r], r_pending_ts := (0, 0)\<rparr> else r)"

definition write_call :: "(encoder \<Rightarrow> encoder option) \<Rightarrow> reverser \<Rightarrow> reverser option" where
  "write_call f r = do { e \<leftarrow> f (r_encoder r); Some (r\<lparr>r_encoder := e\<rparr>) }"

definition write_append :: "(encoder \<Rightarrow> encoder option) \<Rightarrow> reverser \<Rightarrow> reverser option" where
  "write_append f r = do { r \<leftarrow> write_call f r; Some (append_instruction r) }"

fun reverse_group ::
  "(group_call \<Rightarrow> encoder \<Rightarrow> encoder option) \<Rightarrow> group_call \<Rightarrow> reverser \<Rightarrow> reverser option" where
  "reverse_group sel (Select_Table g path) r = do {
     r \<leftarrow> write_call (sel (Select_Table g path)) (sync_table r);
     let (instr, r) = get_inst r;
     Some (r\<lparr>r_pending_ts := instr\<rparr>) }"
| "reverse_group sel (Select_Descriptor path) r = do {
     r \<leftarrow> write_call (sel (Select_Descriptor path)) (sync_descriptor r);
     let (instr, r) = get_inst r;
     Some (r\<lparr>r_pending_ds := instr\<rparr>) }"
| "reverse_group sel (Select_Link_List c rw t) r = do {
     r \<leftarrow> write_call (sel (Select_Link_List c rw t)) (sync_linkview r);
     let (instr, r) = get_inst r;
     Some (r\<lparr>r_pending_lv := instr\<rparr>) }"
| "reverse_group sel (Insert_Group_Level_Table t n name) r =
     write_append (enc_erase_group_level_table t (n + 1)) (sync_table r)"
| "reverse_group sel (Erase_Group_Level_Table t n) r =
     write_append (enc_insert_group_level_table t (n - 1) []) (sync_table r)"
| "reverse_group sel (Rename_Group_Level_Table t name) r = Some (sync_table r)"

fun reverse_rows :: "row_call \<Rightarrow> reverser \<Rightarrow> reverser option" where
  "reverse_rows Optimize_Table r = Some r"
| "reverse_rows (Insert_Empty_Rows row_ndx num prior unordered) r =
     write_append (enc_erase_rows row_ndx num (prior + num) unordered) r"
| "reverse_rows (Add_Row_With_Key row_ndx prior key_col key) r =
     write_append (enc_erase_rows row_ndx 1 (prior + 1) True) r"
| "reverse_rows (Erase_Rows row_ndx num prior unordered) r =
     write_append (enc_insert_empty_rows row_ndx num (prior - num) unordered) r"
| "reverse_rows (Swap_Rows row_ndx_1 row_ndx_2) r = write_append (enc_swap_rows row_ndx_1 row_ndx_2) r"
| "reverse_rows (Move_Row from_ndx to_ndx) r = write_append (enc_move_row to_ndx from_ndx) r"
| "reverse_rows (Merge_Rows row_ndx new_row_ndx) r = do {
     r \<leftarrow> write_append (enc_merge_rows row_ndx row_ndx) r;
     write_append (enc_merge_rows new_row_ndx new_row_ndx) r }"
| "reverse_rows (Clear_Table old_size) r =
     write_append (enc_insert_empty_rows 0 old_size 0 False) r"

fun reverse_field :: "field_call \<Rightarrow> reverser \<Rightarrow> reverser option" where
  "reverse_field (Set_Int c rw v i p) r = write_append (enc_set_int c rw v i p) r"
| "reverse_field (Set_Bool c rw v i) r = write_append (enc_set_bool c rw v i) r"
| "reverse_field (Set_Float c rw v i) r = write_append (enc_set_float c rw v i) r"
| "reverse_field (Set_Double c rw v i) r = write_append (enc_set_double c rw v i) r"
| "reverse_field (Set_String c rw v i p) r = write_append (enc_set_string c rw v i p) r"
| "reverse_field (Set_Binary c rw v i) r = write_append (enc_set_binary c rw v i) r"
| "reverse_field (Set_OldDateTime c rw v i) r = write_append (enc_set_olddatetime c rw v i) r"
| "reverse_field (Set_Timestamp c rw v i) r = write_append (enc_set_timestamp c rw v i) r"
| "reverse_field (Set_Table c rw i) r = write_append (enc_set_table c rw i) r"
| "reverse_field (Set_Mixed c rw v i) r = write_append (enc_set_mixed c rw v i) r"
| "reverse_field (Set_Null c rw i p) r = write_append (enc_set_null c rw i p) r"
| "reverse_field (Set_Link c rw v t i) r = write_append (enc_set_link c rw v t i) r"

fun reverse_edit :: "edit_call \<Rightarrow> reverser \<Rightarrow> reverser option" where
  "reverse_edit (Add_Int c rw v) r = write_append (enc_add_int c rw (- v)) r"
| "reverse_edit (Insert_Substring c rw pos s) r = Some r"
| "reverse_edit (Erase_Substring c rw pos n) r = Some r"
| "reverse_edit (Nullify_Link c rw t) r = write_append (enc_set_link c rw 0 t instr_Set) r"

fun reverse_columns :: "column_call \<Rightarrow> reverser \<Rightarrow> reverser option" where
  "reverse_columns (Add_Search_Index c) r = Some r"
| "reverse_columns (Remove_Search_Index c) r = Some r"
| "reverse_columns (Set_Link_Type c t) r = Some r"
| "reverse_columns (Insert_Link_Column c t name target backlink) r =
     write_append (enc_erase_link_column c target backlink) r"
| "reverse_columns (Erase_Link_Column c target backlink) r =
     write_append (enc_insert_link_column c type_Link [] target backlink) r"
| "reverse_columns (Insert_Column c t name nullable) r = write_append (enc_erase_column c) r"
| "reverse_columns (Erase_Column c) r = write_append (enc_insert_column c type_Int [] False) r"
| "reverse_columns (Rename_Column c name) r = Some r"

fun reverse_list_clear :: "nat \<Rightarrow> size_t \<Rightarrow> reverser \<Rightarrow> reverser option" where
  "reverse_list_clear 0 old_list_size r = Some r"
| "reverse_list_clear (Suc i) old_list_size r = do {
     r \<leftarrow> write_append (enc_link_list_insert (of_nat i) 0 (old_list_size - of_nat (Suc i))) r;
     reverse_list_clear i old_list_size r }"

fun reverse_links :: "list_call \<Rightarrow> reverser \<Rightarrow> reverser option" where
  "reverse_links (Link_List_Set row v prior) r = write_append (enc_link_list_set row v prior) r"
| "reverse_links (Link_List_Insert link_ndx v prior) r =
     write_append (enc_link_list_erase link_ndx (prior + 1)) r"
| "reverse_links (Link_List_Move from_ndx to_ndx) r =
     write_append (enc_link_list_move from_ndx to_ndx) r"
| "reverse_links (Link_List_Swap link1 link2) r = write_append (enc_link_list_swap link1 link2) r"
| "reverse_links (Link_List_Erase link_ndx prior) r =
     write_append (enc_link_list_insert link_ndx 0 (prior - 1)) r"
| "reverse_links (Link_List_Clear old_list_size) r =
     reverse_list_clear (unat old_list_size) old_list_size r"
| "reverse_links (Link_List_Nullify link_ndx prior) r =
     write_append (enc_link_list_insert link_ndx 0 (prior - 1)) r"

fun reverse_call ::
  "(group_call \<Rightarrow> encoder \<Rightarrow> encoder option) \<Rightarrow> call \<Rightarrow> reverser \<Rightarrow> reverser option" where
  "reverse_call sel (Group c) r = reverse_group sel c r"
| "reverse_call sel (Rows c) r = reverse_rows c r"
| "reverse_call sel (Field c) r = reverse_field c r"
| "reverse_call sel (Edit c) r = reverse_edit c r"
| "reverse_call sel (Column c) r = reverse_columns c r"
| "reverse_call sel (Links c) r = reverse_links c r"

fun reverse_calls ::
  "(group_call \<Rightarrow> encoder \<Rightarrow> encoder option) \<Rightarrow> call list \<Rightarrow> reverser \<Rightarrow> reverser option" where
  "reverse_calls sel [] r = Some r"
| "reverse_calls sel (c # cs) r = do { r \<leftarrow> reverse_call sel c r; reverse_calls sel cs r }"

definition written_block :: "bytes \<Rightarrow> nat \<times> nat \<Rightarrow> bytes" where
  "written_block buf p = take (snd p - fst p) (drop (fst p) buf)"

definition reversed_input :: "reverser \<Rightarrow> input" where
  "reversed_input r0 =
     (let r = sync_table r0
      in ([], map (written_block (written (r_encoder r))) (rev (r_instructions r))))"

subsection \<open>The calls it stands for\<close>

fun list_clear_inverse :: "nat \<Rightarrow> size_t \<Rightarrow> call list" where
  "list_clear_inverse 0 n = []"
| "list_clear_inverse (Suc i) n =
     Links (Link_List_Insert (of_nat i) 0 (n - of_nat (Suc i))) # list_clear_inverse i n"

fun inverse_links :: "list_call \<Rightarrow> call list" where
  "inverse_links (Link_List_Insert l v p) = [Links (Link_List_Erase l (p + 1))]"
| "inverse_links (Link_List_Erase l p) = [Links (Link_List_Insert l 0 (p - 1))]"
| "inverse_links (Link_List_Nullify l p) = [Links (Link_List_Insert l 0 (p - 1))]"
| "inverse_links (Link_List_Clear n) = list_clear_inverse (unat n) n"
| "inverse_links c = [Links c]"

fun inverse_call :: "call \<Rightarrow> call list" where
  "inverse_call (Group (Insert_Group_Level_Table t n name)) = [Group (Erase_Group_Level_Table t (n + 1))]"
| "inverse_call (Group (Erase_Group_Level_Table t n)) = [Group (Insert_Group_Level_Table t (n - 1) [])]"
| "inverse_call (Group c) = []"
| "inverse_call (Rows Optimize_Table) = []"
| "inverse_call (Rows (Insert_Empty_Rows r n p u)) = [Rows (Erase_Rows r n (p + n) u)]"
| "inverse_call (Rows (Add_Row_With_Key r p c k)) = [Rows (Erase_Rows r 1 (p + 1) True)]"
| "inverse_call (Rows (Erase_Rows r n p u)) = [Rows (Insert_Empty_Rows r n (p - n) u)]"
| "inverse_call (Rows (Move_Row a b)) = [Rows (Move_Row b a)]"
| "inverse_call (Rows (Merge_Rows a b)) = [Rows (Merge_Rows a a), Rows (Merge_Rows b b)]"
| "inverse_call (Rows (Clear_Table n)) = [Rows (Insert_Empty_Rows 0 n 0 False)]"
| "inverse_call (Rows (Swap_Rows a b)) = [Rows (Swap_Rows a b)]"
| "inverse_call (Field c) = [Field c]"
| "inverse_call (Edit (Add_Int c r v)) = [Edit (Add_Int c r (- v))]"
| "inverse_call (Edit (Nullify_Link c r t)) = [Field (Set_Link c r 0 t instr_Set)]"
| "inverse_call (Edit c) = []"
| "inverse_call (Column (Insert_Link_Column c t name lt b)) = [Column (Erase_Link_Column c lt b)]"
| "inverse_call (Column (Erase_Link_Column c lt b)) = [Column (Insert_Link_Column c type_Link [] lt b)]"
| "inverse_call (Column (Insert_Column c t name nullable)) = [Column (Erase_Column c)]"
| "inverse_call (Column (Erase_Column c)) = [Column (Insert_Column c type_Int [] False)]"
| "inverse_call (Column c) = []"
| "inverse_call (Links c) = inverse_links c"

type_synonym rev_state =
  "call list \<times> group_call option \<times> group_call option \<times> group_call option"

definition opt_call :: "group_call option \<Rightarrow> call list" where
  "opt_call x = (case x of None \<Rightarrow> [] | Some c \<Rightarrow> [Group c])"

fun rev_step :: "call \<Rightarrow> rev_state \<Rightarrow> rev_state" where
  "rev_step (Group (Select_Table g p)) (out, t, d, l) =
     (out @ opt_call l @ opt_call d @ opt_call t, Some (Select_Table g p), None, None)"
| "rev_step (Group (Select_Descriptor p)) (out, t, d, l) =
     (out @ opt_call l @ opt_call d, t, Some (Select_Descriptor p), None)"
| "rev_step (Group (Select_Link_List c r x)) (out, t, d, l) =
     (out @ opt_call l, t, d, Some (Select_Link_List c r x))"
| "rev_step (Group c) (out, t, d, l) =
     (out @ opt_call l @ opt_call d @ opt_call t @ inverse_call (Group c), None, None, None)"
| "rev_step c (out, t, d, l) = (out @ inverse_call c, t, d, l)"

definition rev_calls :: "call list \<Rightarrow> call list" where
  "rev_calls cs = (case fold rev_step cs ([], None, None, None) of
     (out, t, d, l) \<Rightarrow> opt_call t @ opt_call d @ opt_call l @ rev out)"

subsection \<open>The code writes the bytes of these calls\<close>

fun write_all :: "call list \<Rightarrow> reverser \<Rightarrow> reverser option" where
  "write_all [] r = Some r"
| "write_all (c # cs) r = do { f \<leftarrow> encode_call c; r \<leftarrow> write_append f r; write_all cs r }"

lemma write_all_Nil: "write_all [] = Some"
  by (simp add: fun_eq_iff)

lemma write_all_single: "encode_call c = Some f \<Longrightarrow> write_all [c] = write_append f"
  by (simp add: fun_eq_iff write_all_Nil)

lemmas write_all_simps = write_all_Nil write_all_single

lemma reverse_list_clear_write: "reverse_list_clear i n = write_all (list_clear_inverse i n)"
proof (induction i)
  case 0
  show ?case by (simp add: fun_eq_iff)
next
  case (Suc i)
  show ?case by (rule ext) (simp add: Suc.IH)
qed

lemma reverse_call_write:
  assumes "\<forall>g. c \<noteq> Group g"
  shows "reverse_call sel c r = write_all (inverse_call c) r"
proof (cases c)
  case (Rows x)
  then show ?thesis by (cases x) (simp_all add: write_all_simps)
next
  case (Field x)
  then show ?thesis by (cases x) (simp_all add: write_all_simps)
next
  case (Edit x)
  then show ?thesis by (cases x) (simp_all add: write_all_simps)
next
  case (Column x)
  then show ?thesis by (cases x) (simp_all add: write_all_simps)
next
  case (Links x)
  then show ?thesis by (cases x) (simp_all add: reverse_list_clear_write write_all_simps)
qed (use assms in simp)

definition is_block :: "bytes \<Rightarrow> nat \<times> nat \<Rightarrow> call \<Rightarrow> bool" where
  "is_block buf p c \<longleftrightarrow> fst p < snd p \<and> snd p \<le> length buf \<and>
     reads parse_one [decoded c] (written_block buf p)"

definition pending_ok :: "bytes \<Rightarrow> nat \<times> nat \<Rightarrow> group_call option \<Rightarrow> bool" where
  "pending_ok buf p x \<longleftrightarrow> (case x of None \<Rightarrow> fst p = snd p | Some c \<Rightarrow> is_block buf p (Group c))"

fun rev_rel :: "reverser \<Rightarrow> rev_state \<Rightarrow> bool" where
  "rev_rel r (out, t, d, l) \<longleftrightarrow>
     list_all2 (is_block (written (r_encoder r))) (r_instructions r) out \<and>
     pending_ok (written (r_encoder r)) (r_pending_ts r) t \<and>
     pending_ok (written (r_encoder r)) (r_pending_ds r) d \<and>
     pending_ok (written (r_encoder r)) (r_pending_lv r) l \<and>
     r_start r = length (written (r_encoder r))"

lemma block_append: "snd p \<le> length buf \<Longrightarrow> written_block (buf @ bs) p = written_block buf p"
  by (simp add: written_block_def)

lemma is_block_append: "is_block buf p c \<Longrightarrow> is_block (buf @ bs) p c"
  by (simp add: is_block_def block_append)

lemma pending_ok_append: "pending_ok buf p x \<Longrightarrow> pending_ok (buf @ bs) p x"
  by (auto simp: pending_ok_def is_block_append split: option.splits)

lemma is_block_new:
  assumes "reads parse_one [decoded c] bs" and "bs \<noteq> []"
  shows "is_block (buf @ bs) (length buf, length buf + length bs) c"
  using assms by (simp add: is_block_def written_block_def)

lemma sync_linkview_rel:
  assumes "rev_rel r (out, t, d, l)"
  shows "rev_rel (sync_linkview r) (out @ opt_call l, t, d, None)"
  using assms by (cases l) (auto simp: sync_linkview_def opt_call_def pending_ok_def is_block_def
      list_all2_appendI)

lemma sync_descriptor_step:
  assumes "rev_rel r (out, t, d, None)"
  shows "rev_rel (if fst (r_pending_ds r) \<noteq> snd (r_pending_ds r)
    then r\<lparr>r_instructions := r_instructions r @ [r_pending_ds r], r_pending_ds := (0, 0)\<rparr> else r)
    (out @ opt_call d, t, None, None)"
  using assms by (cases d) (auto simp: opt_call_def pending_ok_def is_block_def list_all2_appendI)

lemma sync_descriptor_rel:
  assumes "rev_rel r (out, t, d, l)"
  shows "rev_rel (sync_descriptor r) (out @ opt_call l @ opt_call d, t, None, None)"
  using sync_descriptor_step [OF sync_linkview_rel [OF assms]]
  unfolding sync_descriptor_def Let_def append_assoc .

lemma sync_table_step:
  assumes "rev_rel r (out, t, None, None)"
  shows "rev_rel (if fst (r_pending_ts r) \<noteq> snd (r_pending_ts r)
    then r\<lparr>r_instructions := r_instructions r @ [r_pending_ts r], r_pending_ts := (0, 0)\<rparr> else r)
    (out @ opt_call t, None, None, None)"
  using assms by (cases t) (auto simp: opt_call_def pending_ok_def is_block_def list_all2_appendI)

lemma sync_table_rel:
  assumes "rev_rel r (out, t, d, l)"
  shows "rev_rel (sync_table r) (out @ opt_call l @ opt_call d @ opt_call t, None, None, None)"
  using sync_table_step [OF sync_descriptor_rel [OF assms]]
  unfolding sync_table_def Let_def append_assoc .

lemma blocks_append:
  "list_all2 (is_block buf) ps cs \<Longrightarrow> list_all2 (is_block (buf @ bs)) ps cs"
  by (erule list_all2_mono) (rule is_block_append)

lemma write_call_rel:
  assumes "rev_rel r (out, t, d, l)" and "roundtrips f [decoded c]"
  obtains r' where "write_call f r = Some r'" and "r_instructions r' = r_instructions r"
    and "list_all2 (is_block (written (r_encoder r'))) (r_instructions r) out"
    and "pending_ok (written (r_encoder r')) (r_pending_ts r') t"
    and "pending_ok (written (r_encoder r')) (r_pending_ds r') d"
    and "pending_ok (written (r_encoder r')) (r_pending_lv r') l"
    and "is_block (written (r_encoder r')) (r_start r', length (written (r_encoder r'))) c"
proof -
  from assms(2) obtain bs where bs: "emits f bs" "bs \<noteq> []" "reads parse_one [decoded c] bs"
    unfolding roundtrips_def by blast
  then obtain e where e: "f (r_encoder r) = Some e" "written e = written (r_encoder r) @ bs"
    unfolding emits_def by blast
  have w: "written (r_encoder (r\<lparr>r_encoder := e\<rparr>)) = written (r_encoder r) @ bs"
    using e(2) by simp
  show ?thesis
  proof (rule that [of "r\<lparr>r_encoder := e\<rparr>"])
    show "write_call f r = Some (r\<lparr>r_encoder := e\<rparr>)" using e(1) by (simp add: write_call_def)
    show "is_block (written (r_encoder (r\<lparr>r_encoder := e\<rparr>)))
        (r_start (r\<lparr>r_encoder := e\<rparr>), length (written (r_encoder (r\<lparr>r_encoder := e\<rparr>)))) c"
      unfolding w using is_block_new [OF bs(3,2), of "written (r_encoder r)"] assms(1) by simp
  qed (insert assms(1), simp_all add: e(2) pending_ok_append blocks_append)
qed

lemma write_append_rel:
  assumes "rev_rel r (out, t, d, l)" and "roundtrips f [decoded c]"
  obtains r' where "write_append f r = Some r'" and "rev_rel r' (out @ [c], t, d, l)"
proof -
  obtain r1 where w: "write_call f r = Some r1" and r1: "r_instructions r1 = r_instructions r"
    "list_all2 (is_block (written (r_encoder r1))) (r_instructions r) out"
    "pending_ok (written (r_encoder r1)) (r_pending_ts r1) t"
    "pending_ok (written (r_encoder r1)) (r_pending_ds r1) d"
    "pending_ok (written (r_encoder r1)) (r_pending_lv r1) l"
    "is_block (written (r_encoder r1)) (r_start r1, length (written (r_encoder r1))) c"
    by (rule write_call_rel [OF assms])
  have "rev_rel (append_instruction r1) (out @ [c], t, d, l)"
    using r1 by (simp add: append_instruction_def get_inst_def Let_def list_all2_appendI)
  moreover have "write_append f r = Some (append_instruction r1)"
    using w by (simp add: write_append_def)
  ultimately show ?thesis by (rule that [rotated])
qed

lemma write_all_rel:
  assumes "rev_rel r (out, t, d, l)" and "list_all (\<lambda>c. encode_call c \<noteq> None \<and> valid_call c) cs"
  shows "\<exists>r'. write_all cs r = Some r' \<and> rev_rel r' (out @ cs, t, d, l)"
  using assms
proof (induction cs arbitrary: r out)
  case Nil
  then show ?case by simp
next
  case (Cons c cs)
  then obtain f where f: "encode_call c = Some f" "roundtrips f [decoded c]"
    using roundtrips_call by auto
  then obtain r1 where r1: "write_append f r = Some r1" "rev_rel r1 (out @ [c], t, d, l)"
    using write_append_rel Cons.prems(1) by metis
  from Cons.IH [OF r1(2)] Cons.prems(2) f r1 show ?case by auto
qed

fun is_select :: "group_call \<Rightarrow> bool" where
  "is_select (Select_Table g p) = True"
| "is_select (Select_Descriptor p) = True"
| "is_select (Select_Link_List c r t) = True"
| "is_select g = False"

text \<open>The assumption on the part of the encoder that is not in the repository: what it writes
  for a selection is read back as that selection.\<close>

definition select_ok :: "(group_call \<Rightarrow> encoder \<Rightarrow> encoder option) \<Rightarrow> bool" where
  "select_ok sel \<longleftrightarrow> (\<forall>g. is_select g \<longrightarrow> valid_call (Group g) \<longrightarrow> roundtrips (sel g) [Group g])"

lemma list_clear_inverse_valid:
  "list_all (\<lambda>c. encode_call c \<noteq> None \<and> valid_call c) (list_clear_inverse i n)"
  by (induction i) simp_all

lemma inverse_call_valid:
  assumes "valid_call c"
  shows "list_all (\<lambda>c. encode_call c \<noteq> None \<and> valid_call c) (inverse_call c)"
proof (cases c)
  case (Group x)
  then show ?thesis by (cases x) simp_all
next
  case (Rows x)
  then show ?thesis by (cases x) simp_all
next
  case (Field x)
  then show ?thesis using assms by (cases x) simp_all
next
  case (Edit x)
  then show ?thesis by (cases x) simp_all
next
  case (Column x)
  then show ?thesis by (cases x) simp_all
next
  case (Links x)
  then show ?thesis by (cases x) (simp_all add: list_clear_inverse_valid [simplified])
qed

lemma rev_step_other:
  "\<forall>g. c \<noteq> Group g \<Longrightarrow> rev_step c (out, t, d, l) = (out @ inverse_call c, t, d, l)"
  by (cases c) auto

lemma write_select_rel:
  assumes "rev_rel r (out, t, d, l)" and "select_ok sel" and "is_select g \<and> valid_call (Group g)"
  obtains r' where "write_call (sel g) r = Some r'" and "r_instructions r' = r_instructions r"
    and "list_all2 (is_block (written (r_encoder r'))) (r_instructions r) out"
    and "pending_ok (written (r_encoder r')) (r_pending_ts r') t"
    and "pending_ok (written (r_encoder r')) (r_pending_ds r') d"
    and "pending_ok (written (r_encoder r')) (r_pending_lv r') l"
    and "pending_ok (written (r_encoder r')) (r_start r', length (written (r_encoder r'))) (Some g)"
proof -
  have "roundtrips (sel g) [decoded (Group g)]" using assms(2,3) by (simp add: select_ok_def)
  then show ?thesis
    by (rule write_call_rel [OF assms(1)]) (rule that, assumption+, simp add: pending_ok_def)
qed

lemma reverse_group_rel:
  assumes "rev_rel r (out, t, d, l)" and "select_ok sel" and "valid_call (Group g)"
  shows "\<exists>r'. reverse_group sel g r = Some r' \<and> rev_rel r' (rev_step (Group g) (out, t, d, l))"
proof (cases g)
  case (Select_Table i p)
  note R = sync_table_rel [OF assms(1)]
  obtain r1 where "write_call (sel g) (sync_table r) = Some r1"
    and "r_instructions r1 = r_instructions (sync_table r)"
    and "list_all2 (is_block (written (r_encoder r1))) (r_instructions (sync_table r))
      (out @ opt_call l @ opt_call d @ opt_call t)"
    and "pending_ok (written (r_encoder r1)) (r_pending_ds r1) None"
    and "pending_ok (written (r_encoder r1)) (r_pending_lv r1) None"
    and "pending_ok (written (r_encoder r1)) (r_start r1, length (written (r_encoder r1))) (Some g)"
    by (rule write_select_rel [OF R assms(2), of g]) (use assms(3) in \<open>simp add: Select_Table\<close>)
  then show ?thesis by (simp add: Select_Table get_inst_def Let_def)
next
  case (Select_Descriptor p)
  note R = sync_descriptor_rel [OF assms(1)]
  obtain r1 where "write_call (sel g) (sync_descriptor r) = Some r1"
    and "r_instructions r1 = r_instructions (sync_descriptor r)"
    and "list_all2 (is_block (written (r_encoder r1))) (r_instructions (sync_descriptor r))
      (out @ opt_call l @ opt_call d)"
    and "pending_ok (written (r_encoder r1)) (r_pending_ts r1) t"
    and "pending_ok (written (r_encoder r1)) (r_pending_lv r1) None"
    and "pending_ok (written (r_encoder r1)) (r_start r1, length (written (r_encoder r1))) (Some g)"
    by (rule write_select_rel [OF R assms(2), of g]) (use assms(3) in \<open>simp add: Select_Descriptor\<close>)
  then show ?thesis by (simp add: Select_Descriptor get_inst_def Let_def)
next
  case (Select_Link_List c rw x)
  note R = sync_linkview_rel [OF assms(1)]
  obtain r1 where "write_call (sel g) (sync_linkview r) = Some r1"
    and "r_instructions r1 = r_instructions (sync_linkview r)"
    and "list_all2 (is_block (written (r_encoder r1))) (r_instructions (sync_linkview r))
      (out @ opt_call l)"
    and "pending_ok (written (r_encoder r1)) (r_pending_ts r1) t"
    and "pending_ok (written (r_encoder r1)) (r_pending_ds r1) d"
    and "pending_ok (written (r_encoder r1)) (r_start r1, length (written (r_encoder r1))) (Some g)"
    by (rule write_select_rel [OF R assms(2), of g]) (use assms(3) in \<open>simp add: Select_Link_List\<close>)
  then show ?thesis by (simp add: Select_Link_List get_inst_def Let_def)
next
  case (Insert_Group_Level_Table i n name)
  from write_all_rel [OF sync_table_rel [OF assms(1)], of "inverse_call (Group g)"]
  show ?thesis by (simp add: Insert_Group_Level_Table write_all_simps)
next
  case (Erase_Group_Level_Table i n)
  from write_all_rel [OF sync_table_rel [OF assms(1)], of "inverse_call (Group g)"]
  show ?thesis by (simp add: Erase_Group_Level_Table write_all_simps)
next
  case (Rename_Group_Level_Table i name)
  then show ?thesis using sync_table_rel [OF assms(1)] by simp
qed

lemma reverse_call_rel:
  assumes "rev_rel r s" and "select_ok sel" and "valid_call c"
  shows "\<exists>r'. reverse_call sel c r = Some r' \<and> rev_rel r' (rev_step c s)"
proof -
  obtain out t d l where s: "s = (out, t, d, l)" by (rule prod_cases4)
  show ?thesis
  proof (cases "\<exists>g. c = Group g")
    case True
    then show ?thesis using reverse_group_rel [of r out t d l sel] assms s by auto
  next
    case False
    with write_all_rel [of r out t d l, OF _ inverse_call_valid [OF assms(3)]] assms(1) s
    show ?thesis using reverse_call_write [of c sel r] rev_step_other [of c out t d l] by simp
  qed
qed

lemma reverse_calls_rel:
  assumes "rev_rel r s" and "select_ok sel" and "list_all valid_call cs"
  shows "\<exists>r'. reverse_calls sel cs r = Some r' \<and> rev_rel r' (fold rev_step cs s)"
  using assms
proof (induction cs arbitrary: r s)
  case Nil
  then show ?case by simp
next
  case (Cons c cs)
  then obtain r1 where "reverse_call sel c r = Some r1" "rev_rel r1 (rev_step c s)"
    using reverse_call_rel [of r s sel c] by auto
  with Cons show ?case by auto
qed

lemma blocks_nonempty: "list_all2 (\<lambda>bs cs. bs \<noteq> [] \<and> P cs bs) bss css \<Longrightarrow> [] \<notin> set bss"
  by (induction rule: list_all2_induct) auto

lemma reversed_parse:
  assumes "rev_rel r (out, t, d, l)"
  shows "parse handler (reversed_input r) s =
    deliver handler (map decoded (opt_call t @ opt_call d @ opt_call l @ rev out)) s"
proof -
  let ?r = "sync_table r" and ?out = "out @ opt_call l @ opt_call d @ opt_call t"
  let ?bss = "map (written_block (written (r_encoder ?r))) (rev (r_instructions ?r))"
  have all: "list_all2 (is_block (written (r_encoder ?r))) (rev (r_instructions ?r)) (rev ?out)"
    using sync_table_rel [OF assms] by (simp del: rev_append)
  have l2: "list_all2 (\<lambda>bs cs. bs \<noteq> [] \<and> reads parse_one cs bs) ?bss
      (map (\<lambda>c. [decoded c]) (rev ?out))"
    unfolding list.rel_map by (rule list_all2_mono [OF all]) (auto simp: is_block_def written_block_def)
  have ok: "input_ok ([], ?bss)" "flat_input ([], ?bss) = concat ?bss"
    using blocks_nonempty [OF l2] by simp_all
  have "parse handler ([], ?bss) s = deliver handler (concat (map (\<lambda>c. [decoded c]) (rev ?out))) s"
    by (rule parse_roundtrip [OF l2 ok])
  moreover have "rev (opt_call x) = opt_call x" for x by (cases x) (simp_all add: opt_call_def)
  moreover have "concat (map (\<lambda>c. [decoded c]) xs) = map decoded xs" for xs
    by (induction xs) simp_all
  ultimately show ?thesis by (simp add: reversed_input_def Let_def)
qed

lemma reverser_refines:
  assumes "select_ok sel" and "list_all valid_call cs"
  shows "\<exists>r. reverse_calls sel cs new_reverser = Some r \<and>
    parse handler (reversed_input r) s = deliver handler (map decoded (rev_calls cs)) s"
proof -
  have "rev_rel new_reverser ([], None, None, None)"
    by (simp add: new_reverser_def pending_ok_def)
  from reverse_calls_rel [OF this assms] obtain r where
    r: "reverse_calls sel cs new_reverser = Some r"
    "rev_rel r (fold rev_step cs ([], None, None, None))" by blast
  obtain out t d l where "fold rev_step cs ([], None, None, None) = (out, t, d, l)"
    by (rule prod_cases4)
  with r reversed_parse [of r out t d l handler s] show ?thesis by (simp add: rev_calls_def)
qed

subsection \<open>Every inverse is read under the selection of its original\<close>

text \<open>The selection a handler keeps: the table, the descriptor and the link list, as far as
  they are selected. Group level changes end all of it.\<close>

type_synonym selection = "group_call option \<times> group_call option \<times> group_call option"

fun select :: "call \<Rightarrow> selection \<Rightarrow> selection" where
  "select (Group (Select_Table g p)) s = (Some (Select_Table g p), None, None)"
| "select (Group (Select_Descriptor p)) (t, d, l) = (t, Some (Select_Descriptor p), None)"
| "select (Group (Select_Link_List c r x)) (t, d, l) = (t, d, Some (Select_Link_List c r x))"
| "select (Group g) s = (None, None, None)"
| "select c s = s"

text \<open>What of the selection a call depends on, and whether it is there.\<close>

fun needs :: "call \<Rightarrow> selection \<Rightarrow> selection" where
  "needs (Group g) s = (None, None, None)"
| "needs (Column c) (t, d, l) = (t, d, None)"
| "needs (Links c) (t, d, l) = (t, None, l)"
| "needs c (t, d, l) = (t, None, None)"

fun selected :: "call \<Rightarrow> selection \<Rightarrow> bool" where
  "selected (Group (Select_Descriptor p)) (t, d, l) \<longleftrightarrow> t \<noteq> None"
| "selected (Group (Select_Link_List c r x)) (t, d, l) \<longleftrightarrow> t \<noteq> None"
| "selected (Group g) s \<longleftrightarrow> True"
| "selected (Column c) (t, d, l) \<longleftrightarrow> t \<noteq> None \<and> d \<noteq> None"
| "selected (Links c) (t, d, l) \<longleftrightarrow> t \<noteq> None \<and> l \<noteq> None"
| "selected c (t, d, l) \<longleftrightarrow> t \<noteq> None"

fun well_selected :: "selection \<Rightarrow> call list \<Rightarrow> bool" where
  "well_selected s [] \<longleftrightarrow> True"
| "well_selected s (c # cs) \<longleftrightarrow> selected c s \<and> well_selected (select c s) cs"

text \<open>The calls other than selections, each with what it needs of the selection.\<close>

fun trace :: "selection \<Rightarrow> call list \<Rightarrow> (selection \<times> call) list" where
  "trace s [] = []"
| "trace s (Group (Select_Table g p) # cs) = trace (select (Group (Select_Table g p)) s) cs"
| "trace s (Group (Select_Descriptor p) # cs) = trace (select (Group (Select_Descriptor p)) s) cs"
| "trace s (Group (Select_Link_List c r x) # cs) =
     trace (select (Group (Select_Link_List c r x)) s) cs"
| "trace s (c # cs) = (needs c s, c) # trace (select c s) cs"

definition inverse_entry :: "selection \<times> call \<Rightarrow> (selection \<times> call) list" where
  "inverse_entry e = map (Pair (fst e)) (inverse_call (snd e))"

definition inverse_trace :: "(selection \<times> call) list \<Rightarrow> (selection \<times> call) list" where
  "inverse_trace tr = rev (concat (map inverse_entry tr))"

text \<open>A larger selection does not change what a well selected log does.\<close>

fun sel_le :: "selection \<Rightarrow> selection \<Rightarrow> bool" where
  "sel_le (t, d, l) (t', d', l') \<longleftrightarrow>
     (t = None \<or> t = t') \<and> (d = None \<or> d = d') \<and> (l = None \<or> l = l')"

lemma sel_le_refl [simp]: "sel_le s s"
  by (cases s) simp

lemma select_mono: "sel_le s s' \<Longrightarrow> sel_le (select c s) (select c s')"
  by (cases s; cases s'; cases c; (rename_tac g, case_tac g)?) auto

lemma needs_mono: "sel_le s s' \<Longrightarrow> selected c s \<Longrightarrow> needs c s' = needs c s"
  by (cases s; cases s'; cases c; (rename_tac g, case_tac g)?) auto

lemma selected_mono: "sel_le s s' \<Longrightarrow> selected c s \<Longrightarrow> selected c s'"
  by (cases s; cases s'; cases c; (rename_tac g, case_tac g)?) auto

definition is_sel :: "call \<Rightarrow> bool" where
  "is_sel c \<longleftrightarrow> (\<exists>g. c = Group g \<and> is_select g)"

lemma trace_Cons:
  "trace s (c # cs) = (if is_sel c then [] else [(needs c s, c)]) @ trace (select c s) cs"
  by (cases c; (rename_tac g, case_tac g)?) (auto simp: is_sel_def)

lemma trace_mono:
  "sel_le s s' \<Longrightarrow> well_selected s cs \<Longrightarrow> trace s' cs = trace s cs \<and> well_selected s' cs"
proof (induction cs arbitrary: s s')
  case Nil
  then show ?case by simp
next
  case (Cons c cs)
  then show ?case using needs_mono [of s s' c] selected_mono [of s s' c] select_mono [of s s' c]
    by (simp add: trace_Cons)
qed

lemma trace_append: "trace s (xs @ ys) = trace s xs @ trace (fold select xs s) ys"
proof (induction xs arbitrary: s)
  case (Cons x xs)
  then show ?case by (simp add: trace_Cons del: trace.simps)
qed simp

lemma well_selected_append:
  "well_selected s (xs @ ys) \<longleftrightarrow> well_selected s xs \<and> well_selected (fold select xs s) ys"
  by (induction xs arbitrary: s) auto

text \<open>The registers of the reverser hold the selection in force: which is well formed.\<close>

definition sel_wf :: "selection \<Rightarrow> bool" where
  "sel_wf s = (case s of (t, d, l) \<Rightarrow>
     (\<forall>x. t = Some x \<longrightarrow> (\<exists>g p. x = Select_Table g p)) \<and>
     (\<forall>x. d = Some x \<longrightarrow> (\<exists>p. x = Select_Descriptor p)) \<and>
     (\<forall>x. l = Some x \<longrightarrow> (\<exists>c r y. x = Select_Link_List c r y)) \<and>
     (d \<noteq> None \<or> l \<noteq> None \<longrightarrow> t \<noteq> None))"

definition restores :: "call list \<Rightarrow> selection \<Rightarrow> selection \<Rightarrow> bool" where
  "restores cs s s' \<longleftrightarrow> trace s cs = [] \<and> well_selected s cs \<and> sel_le s' (fold select cs s)"

lemma restores_links:
  assumes "sel_wf (t, d, l)"
  shows "restores (opt_call l) (t, d, l') (t, d, l)"
  using assms by (cases l) (auto simp: restores_def opt_call_def sel_wf_def)

lemma restores_descriptor:
  assumes "sel_wf (t, d, l)"
  shows "restores (opt_call d @ opt_call l) (t, d', l') (t, d, l)"
  using assms by (cases l; cases d) (auto simp: restores_def opt_call_def sel_wf_def)

lemma restores_table:
  assumes "sel_wf (t, d, l)"
  shows "restores (opt_call t @ opt_call d @ opt_call l) s (t, d, l)"
  using assms by (cases s; cases t; cases l; cases d) (auto simp: restores_def opt_call_def sel_wf_def)

lemma restores_trace:
  assumes "restores cs s s'" and "well_selected s' ys"
  shows "trace s (cs @ ys) = trace s' ys" and "well_selected s (cs @ ys)"
  using assms trace_mono [of s' "fold select cs s" ys]
  by (simp_all add: restores_def trace_append well_selected_append)

text \<open>The inverse of a call runs under the selection the call ran under.\<close>

definition same_sel :: "call \<Rightarrow> call \<Rightarrow> bool" where
  "same_sel c c' \<longleftrightarrow> \<not> is_sel c' \<and>
     (\<forall>s. needs c' s = needs c s \<and> (selected c s \<longrightarrow> selected c' s) \<and> select c' s = select c s)"

lemma list_clear_same_sel:
  "c' \<in> set (list_clear_inverse i n) \<Longrightarrow> \<exists>x. c' = Links x"
  by (induction i) auto

lemma same_sel_links: "same_sel (Links x) (Links y)"
  by (auto simp: same_sel_def is_sel_def)

lemma inverse_same_sel:
  assumes "c' \<in> set (inverse_call c)"
  shows "same_sel c c'"
proof (cases c)
  case (Group x)
  with assms show ?thesis by (cases x) (auto simp: same_sel_def is_sel_def)
next
  case (Rows x)
  with assms show ?thesis by (cases x) (auto simp: same_sel_def is_sel_def)
next
  case (Field x)
  with assms show ?thesis by (auto simp: same_sel_def is_sel_def)
next
  case (Edit x)
  with assms show ?thesis by (cases x) (auto simp: same_sel_def is_sel_def)
next
  case (Column x)
  with assms show ?thesis by (cases x) (auto simp: same_sel_def is_sel_def)
next
  case (Links x)
  with assms show ?thesis
    by (cases x) (auto simp: same_sel_links dest: list_clear_same_sel)
qed

lemma is_sel_inverse: "is_sel c \<Longrightarrow> inverse_call c = []"
  by (cases c; (rename_tac g, case_tac g)?) (auto simp: is_sel_def)

lemma trace_inverse:
  assumes "\<forall>c'\<in>set cs. same_sel c c'" and "selected c s" and "select c s = s"
  shows "trace s (cs @ ys) = map (Pair (needs c s)) cs @ trace s ys \<and>
    well_selected s (cs @ ys) = well_selected s ys"
  using assms by (induction cs) (simp_all add: trace_Cons same_sel_def del: split_paired_All)

fun state_sel :: "rev_state \<Rightarrow> selection" where
  "state_sel (out, t, d, l) = (t, d, l)"

fun undone :: "rev_state \<Rightarrow> (selection \<times> call) list \<Rightarrow> bool" where
  "undone (out, t, d, l) tr \<longleftrightarrow> sel_wf (t, d, l) \<and> well_selected (t, d, l) (rev out) \<and>
     trace (t, d, l) (rev out) = inverse_trace tr"

lemma rev_opt_call [simp]: "rev (opt_call x) = opt_call x"
  by (cases x) (simp_all add: opt_call_def)

lemma inverse_trace_append: "inverse_trace (xs @ ys) = inverse_trace ys @ inverse_trace xs"
  by (simp add: inverse_trace_def)

lemma inverse_trace_Nil [simp]: "inverse_trace [] = []"
  by (simp add: inverse_trace_def)

lemma inverse_trace_single: "inverse_trace [(n, c)] = map (Pair n) (rev (inverse_call c))"
  by (simp add: inverse_trace_def inverse_entry_def rev_map)

lemma undone_group:
  assumes "undone (out, t, d, l) tr" and "selected (Group g) (t, d, l)"
  shows "undone (rev_step (Group g) (out, t, d, l)) (tr @ trace (t, d, l) [Group g])"
proof -
  have wf: "sel_wf (t, d, l)" and ok: "well_selected (t, d, l) (rev out)"
    using assms(1) by simp_all
  note table = restores_trace [OF restores_table [OF wf] ok]
    and descriptor = restores_trace [OF restores_descriptor [OF wf] ok]
    and links = restores_trace [OF restores_links [OF wf] ok]
  show ?thesis
  proof (cases g)
    case (Select_Table x p)
    then show ?thesis using assms(1) table [of "(Some g, None, None)"] by (simp add: sel_wf_def)
  next
    case (Select_Descriptor p)
    then show ?thesis using assms descriptor [of "Some g" None] by (simp add: sel_wf_def)
  next
    case (Select_Link_List c r x)
    then show ?thesis using assms links [of "Some g"] by (simp add: sel_wf_def)
  next
    case (Insert_Group_Level_Table i n name)
    then show ?thesis using assms(1) table [of "(None, None, None)"]
      by (simp add: sel_wf_def inverse_trace_append inverse_trace_single)
  next
    case (Erase_Group_Level_Table i n)
    then show ?thesis using assms(1) table [of "(None, None, None)"]
      by (simp add: sel_wf_def inverse_trace_append inverse_trace_single)
  next
    case (Rename_Group_Level_Table i name)
    then show ?thesis using assms(1) table [of "(None, None, None)"]
      by (simp add: sel_wf_def inverse_trace_append inverse_trace_single)
  qed
qed

lemma undone_step:
  assumes "undone s tr" and "selected c (state_sel s)"
  shows "undone (rev_step c s) (tr @ trace (state_sel s) [c]) \<and>
    state_sel (rev_step c s) = select c (state_sel s)"
proof -
  obtain out t d l where s: "s = (out, t, d, l)" by (rule prod_cases4)
  show ?thesis
  proof (cases "\<exists>g. c = Group g")
    case True
    then obtain g where "c = Group g" by blast
    with undone_group [of out t d l tr g] assms s show ?thesis by (cases g) auto
  next
    case False
    then have "select c (t, d, l) = (t, d, l)" and "\<not> is_sel c"
      by (cases c; simp add: is_sel_def)+
    then show ?thesis
      using assms s rev_step_other [OF False [simplified], of out t d l]
        trace_inverse [of "rev (inverse_call c)" c "(t, d, l)" "rev out"] inverse_same_sel [of _ c]
      by (simp add: trace_Cons inverse_trace_append inverse_trace_single)
  qed
qed

lemma undone_fold:
  assumes "undone s tr" and "well_selected (state_sel s) cs"
  shows "undone (fold rev_step cs s) (tr @ trace (state_sel s) cs)"
  using assms
proof (induction cs arbitrary: s tr)
  case Nil
  then show ?case by simp
next
  case (Cons c cs)
  then have "undone (rev_step c s) (tr @ trace (state_sel s) [c])"
    and "state_sel (rev_step c s) = select c (state_sel s)"
    using undone_step [of s tr c] by simp_all
  with Cons show ?case using trace_append [of "state_sel s" "[c]" cs] by fastforce
qed

lemma rev_calls_trace:
  assumes "well_selected (None, None, None) cs"
  shows "trace s (rev_calls cs) = inverse_trace (trace (None, None, None) cs) \<and>
    well_selected s (rev_calls cs)"
proof -
  obtain out t d l where f: "fold rev_step cs ([], None, None, None) = (out, t, d, l)"
    by (rule prod_cases4)
  have "undone (out, t, d, l) (trace (None, None, None) cs)"
    using undone_fold [of "([], None, None, None)" "[]" cs] assms f by (simp add: sel_wf_def)
  then show ?thesis using restores_trace [OF restores_table, of t d l "rev out" s] f
    by (simp add: rev_calls_def)
qed

end
