(* ===== verification/Transact_Props.thy ===== *)
theory Transact_Props
  imports Transact_Reverse
begin

section \<open>The properties of the transaction log\<close>

text \<open>
  What the users of the transaction log rely on: integers and calls survive the trip through
  the log however it is cut into chunks, the encoder never writes past the space it
  reserved, the parser always makes progress, and the log a rollback reads undoes the calls
  in reverse order, each under the selection it was made under.
\<close>

subsection \<open>Integers\<close>

text \<open>C9: an integer that fits its type is written in at most \<open>max_enc_bytes\<close> bytes, and
  reading it back yields the same integer and leaves exactly the bytes after it, in whatever
  way the input is cut into chunks.\<close>

theorem read_int_encode_int:
  assumes "representable T v" and "input_ok st" and "flat_input st = encode_int T v @ rest"
  shows "length (encode_int T v) \<le> max_enc_bytes T \<and>
    (\<exists>st'. read_int T st = Some (v, st') \<and> input_ok st' \<and> flat_input st' = rest)"
  using reads_int [OF assms(1)] encode_int_length [OF assms(1)] assms(2,3)
  unfolding reads_def by blast

theorem read_int_encode_int_witness:
  "\<exists>st'. read_int t_int64 ([171], [[65, 1], [2]]) = Some (- 172, st') \<and> input_ok st' \<and> flat_input st' = [1, 2]"
proof -
  have "encode_int t_int64 (- 172) = [171, 65]" by code_simp
  then show ?thesis
    using read_int_encode_int [of t_int64 "- 172" "([171], [[65, 1], [2]])" "[1, 2]"]
    by (simp add: representable_def type_min_def type_max_def t_int64_def)
qed

lemma read_negative_size:
  assumes "0 \<le> v" and "v < 64"
  shows "read_int t_size ([word_of_int (64 OR v)], []) = (if v = 0 then None else Some (2 ^ 64 - 1 - v, ([], [])))"
proof -
  have u: "uint (word_of_int (64 OR v) :: byte) = v + 64"
    using uint_byte [of "v + 64"] assms by (simp only: or_64 [OF assms] add.commute [of 64])
  have d: "(v + 64) div 64 = 1" "(v + 64) div 128 = 0" "(v + 64) mod 64 = v" using assms by auto
  then have p: "(v + 64) AND 128 = 0" "(v + 64) AND 63 = v" "(v + 64) AND 64 \<noteq> 0"
    unfolding and_128 and_63 and_64 by simp_all
  have "read_parts t_size (Suc 9) 0 0 ([word_of_int (64 OR v)], []) = Some ((v, v + 64), ([], []))"
    unfolding read_parts.simps(2) using assms u p by (simp add: type_max_def t_size_def)
  moreover have "max_enc_bytes t_size = Suc 9" by (simp add: t_size_def max_enc_bytes_def)
  moreover have "negate_value t_size v = (if v = 0 then None else Some (2 ^ 64 - 1 - v))"
    using assms negate_unsigned [of t_size v]
    by (simp add: t_size_def type_max_def) (simp add: negate_value_def)
  ultimately show ?thesis using p(3) by (simp add: read_int_def)
qed

text \<open>decoding does not fail whenever the encoded value falls outside the range of the
  requested type: the one byte encoding of each negative value down to \<open>-64\<close>, read as
  \<open>size_t\<close>, is refused for \<open>-1\<close> only, the others come back as large sizes.\<close>

theorem read_negative_as_size:
  assumes "- 64 \<le> n" and "n < 0"
  shows "\<not> representable t_size n \<and>
    read_int t_size (encode_int t_int64 n, []) =
      (if n = - 1 then None else Some (2 ^ 64 + n, ([], [])))"
proof -
  define v where "v = - (n + 1)"
  have v: "0 \<le> v" "v < 64" "n = - v - 1" using assms by (simp_all add: v_def)
  have "encode_int t_int64 n = [word_of_int (64 OR v)]"
    using v enc_bytes_small [of v] drop_bit_6_zero [of v] by (simp add: encode_int_def)
  then show ?thesis using read_negative_size [OF v(1,2)] v(1,3)
    by (simp add: representable_def type_min_def t_size_def)
qed

theorem read_negative_as_size_witness:
  "read_int t_size (encode_int t_int64 (- 5), []) = Some (18446744073709551611, ([], []))"
  using read_negative_as_size [of "- 5"] by simp

subsection \<open>Calls\<close>

text \<open>C10: a log written by the encoder from calls that satisfy its assertions, cut into any
  non-empty chunks, makes the parser call the handler with the same calls in the same order
  and stop with the handler's state, or with its failure. \<open>decoded\<close> lists the exceptions:
  null strings and binaries come back as \<open>set_null\<close>, \<open>prior_num_rows\<close> is only kept for
  \<open>SetUnique\<close>, and \<open>set_double\<close> loses its variant.\<close>

theorem transact_log_roundtrip:
  assumes "list_all (\<lambda>c. encode_call c \<noteq> None \<and> valid_call c) cs" and "written e = []"
  shows "\<exists>e'. encode_calls cs e = Some e' \<and>
    (\<forall>st. input_ok st \<longrightarrow> flat_input st = written e' \<longrightarrow>
      parse handler st s = deliver handler (map decoded cs) s)"
proof -
  have c: "concat (map (\<lambda>c. [decoded c]) cs) = map decoded cs" by (induction cs) simp_all
  obtain e' bss where e: "encode_calls cs e = Some e'" "written e' = concat bss"
    and r: "list_all2 (\<lambda>bs ds. bs \<noteq> [] \<and> reads parse_one ds bs) bss (map (\<lambda>c. [decoded c]) cs)"
    using encode_calls_parse [OF assms(1), of e] assms(2) by auto
  show ?thesis using e parse_roundtrip [OF r, of _ handler s] c
    by (intro exI [of _ e']) (auto simp del: flat_input.simps input_ok.simps)
qed

definition sample_calls :: "call list" where
  "sample_calls = [Group (Insert_Group_Level_Table 0 0 [97]), Rows (Insert_Empty_Rows 0 2 0 False),
     Field (Set_Int 0 1 (- 5) instr_Set 7), Field (Set_String 1 0 None instr_SetUnique 2),
     Links (Link_List_Insert 0 1 0)]"

theorem transact_log_roundtrip_witness:
  "\<exists>e'. encode_calls sample_calls \<lparr>written = [], space = 0\<rparr> = Some e' \<and>
    (\<forall>st. input_ok st \<longrightarrow> flat_input st = written e' \<longrightarrow>
      parse (\<lambda>c s. Some (s @ [c])) st [] = Some
       [Group (Insert_Group_Level_Table 0 0 [97]), Rows (Insert_Empty_Rows 0 2 0 False),
        Field (Set_Int 0 1 (- 5) instr_Set 0), Field (Set_Null 1 0 instr_SetUnique 2),
        Links (Link_List_Insert 0 1 0)])"
  using transact_log_roundtrip [of sample_calls "\<lparr>written = [], space = 0\<rparr>"
      "\<lambda>c s. Some (s @ [c])" "[]"]
  by (simp add: sample_calls_def max_string_size_def del: flat_input.simps input_ok.simps)

lemma emits_ex: "args_ok args \<Longrightarrow> \<exists>bs. emits (append_simple_instr args) bs"
  using emits_append by blast

lemma emits_some: "emits f bs \<Longrightarrow> \<exists>e' bs. f e = Some e' \<and> written e' = written e @ bs"
  unfolding emits_def by blast

lemma encode_group_emits:
  assumes "encode_call (Group c) = Some f"
  shows "\<exists>bs. emits f bs"
  using assms by (cases c) (auto simp: enc_insert_group_level_table_def
    enc_erase_group_level_table_def enc_rename_group_level_table_def size_ok emits_ex)

lemma encode_rows_emits:
  assumes "encode_call (Rows c) = Some f"
  shows "\<exists>bs. emits f bs"
  using assms by (cases c) (auto simp: enc_insert_empty_rows_def enc_add_row_with_key_def
    enc_erase_rows_def enc_swap_rows_def enc_move_row_def enc_merge_rows_def enc_clear_table_def
    enc_optimize_table_def size_ok emits_ex)

lemma sentinel_ok: "representable t_int set_null_sentinel"
  by (simp add: representable_def type_min_def type_max_def t_int_def set_null_sentinel_def)

lemma encode_null_emits: "\<exists>bs. emits (enc_set_null c r i p) bs"
  by (simp add: enc_set_null_def size_ok sentinel_ok emits_ex)

lemma encode_field_emits:
  assumes "encode_call (Field c) = Some f"
  shows "\<exists>bs. emits f bs"
proof (cases c)
  case (Set_Mixed a b v i)
  then show ?thesis using assms mixed_args_ok [of v]
    by (auto simp: enc_set_mixed_def append_mixed_instr_def size_ok emits_ex)
qed (use assms in \<open>auto simp: enc_set_int_def enc_set_bool_def enc_set_float_def enc_set_double_def
      enc_set_string_def enc_set_binary_def enc_set_olddatetime_def enc_set_timestamp_def
      enc_set_table_def enc_set_link_def size_ok encode_null_emits emits_ex
      split: option.splits\<close>)

lemma encode_edit_emits:
  assumes "encode_call (Edit c) = Some f"
  shows "\<exists>bs. emits f bs"
  using assms by (cases c) (auto simp: enc_add_int_def enc_nullify_link_def enc_insert_substring_def
    enc_erase_substring_def size_ok emits_ex)

lemma encode_column_emits:
  assumes "encode_call (Column c) = Some f"
  shows "\<exists>bs. emits f bs"
  using assms by (cases c) (auto simp: enc_insert_column_def enc_insert_link_column_def
    enc_erase_column_def enc_erase_link_column_def enc_rename_column_def enc_add_search_index_def
    enc_remove_search_index_def enc_set_link_type_def size_ok link_type_code_ok emits_ex)

lemma encode_links_emits:
  assumes "encode_call (Links c) = Some f"
  shows "\<exists>bs. emits f bs"
  using assms by (cases c) (auto simp: enc_link_list_set_def enc_link_list_nullify_def
    enc_link_list_insert_def enc_link_list_move_def enc_link_list_swap_def enc_link_list_erase_def
    enc_link_list_clear_def size_ok emits_ex)

lemma encode_set_all_emits: "\<exists>bs. emits (enc_link_list_set_all vs) bs"
  by (auto simp: enc_link_list_set_all_def size_ok emits_ex)

text \<open>C11: no method of the encoder, whatever its arguments, writes past the space it has
  reserved: it always completes, and appends to what was written before.\<close>

theorem encoder_stays_in_space:
  assumes "encode_call c = Some f \<or> f = enc_link_list_set_all vs"
  shows "\<exists>e' bs. f e = Some e' \<and> written e' = written e @ bs"
proof -
  have "\<exists>bs. emits f bs"
    using assms encode_set_all_emits [of vs] encode_group_emits encode_rows_emits
      encode_field_emits encode_edit_emits encode_column_emits encode_links_emits
    by (cases c) metis+
  then show ?thesis using emits_some by blast
qed

theorem encoder_stays_in_space_witness:
  "\<exists>e' bs. enc_link_list_set_all (replicate 20 (- 1)) \<lparr>written = [7], space = 3\<rparr> = Some e' \<and>
    written e' = 7 # bs"
  using encoder_stays_in_space [of "Rows Optimize_Table" "enc_link_list_set_all (replicate 20 (- 1))"
      "replicate 20 (- 1)" "\<lparr>written = [7], space = 3\<rparr>"]
  by simp

text \<open>\<open>link_list_set_all\<close> is delivered as one \<open>link_list_set\<close> per entry, in order, each with
  the length of the list as \<open>prior_size\<close>.\<close>

theorem set_all_roundtrip:
  assumes "\<forall>v \<in> set vs. 0 \<le> sint v" and "length vs < 2 ^ 64" and "written e = []"
  shows "\<exists>e'. enc_link_list_set_all vs e = Some e' \<and>
    (\<forall>st. input_ok st \<longrightarrow> flat_input st = written e' \<longrightarrow> parse handler st s =
      deliver handler (map (\<lambda>i. Links (Link_List_Set (of_nat i) (vs ! i) (of_nat (length vs))))
        [0..<length vs]) s)"
proof -
  have c: "set_all_calls n i xs =
      map (\<lambda>j. Link_List_Set (of_nat (i + j)) (xs ! j) n) [0..<length xs]" for n i xs
  proof (induction xs arbitrary: i)
    case (Cons x xs)
    show ?case by (simp add: Cons.IH map_Suc_upt [symmetric] upt_rec [of 0] o_def del: upt_Suc)
  qed simp
  obtain bs where bs: "emits (enc_link_list_set_all vs) bs" "bs \<noteq> []"
    "reads parse_one (map Links (set_all_calls (of_nat (length vs)) 0 vs)) bs"
    using roundtrips_set_all [OF assms(1,2)] unfolding roundtrips_def by blast
  then obtain e' where e: "enc_link_list_set_all vs e = Some e'" "written e' = bs"
    using assms(3) unfolding emits_def by force
  have "list_all2 (\<lambda>bs cs. bs \<noteq> [] \<and> reads parse_one cs bs) [bs]
      [map Links (set_all_calls (of_nat (length vs)) 0 vs)]" using bs by simp
  from parse_roundtrip [OF this, of _ handler s] show ?thesis
    using e by (intro exI [of _ e']) (simp add: c o_def del: flat_input.simps input_ok.simps)
qed

theorem set_all_roundtrip_witness:
  "\<exists>e'. enc_link_list_set_all [5, 3] \<lparr>written = [], space = 0\<rparr> = Some e' \<and>
    (\<forall>st. input_ok st \<longrightarrow> flat_input st = written e' \<longrightarrow> parse (\<lambda>c s. Some (s @ [c])) st [] =
      Some [Links (Link_List_Set 0 5 2), Links (Link_List_Set 1 3 2)])"
  using set_all_roundtrip [of "[5, 3]" "\<lparr>written = [], space = 0\<rparr>" "\<lambda>c s. Some (s @ [c])" "[]"]
  by (simp add: upt_rec del: flat_input.simps input_ok.simps)

text \<open>Every instruction takes at least one byte of the input.\<close>

lemma read_size_less:
  assumes "read_size st = Some (n, st')"
  shows "length (flat_input st') < length (flat_input st)"
proof -
  obtain v st1 where r: "read_int t_size st = Some (v, st1)" "st1 = st'"
    using assms unfolding read_size_def by (auto split: Option.bind_splits)
  obtain k where "max_enc_bytes t_size = Suc k" using max_enc_bytes_pos by blast
  with r obtain x part st2 where
    p: "read_parts t_size (Suc k) 0 0 st = Some ((x, part), st2)" and "st2 = st1"
    unfolding read_int_def by (auto split: Option.bind_splits if_splits)
  from p obtain c st3 where c: "read_char st = Some (c, st3)"
    and "st2 = st3 \<or> read_parts t_size k 1 (push_bit 0 (uint c AND 127)) st3 = Some ((x, part), st2)"
    unfolding read_parts.simps(2) Let_def by (auto split: Option.bind_splits if_splits)
  with shrinks_parts [of t_size k 1 "push_bit 0 (uint c AND 127)"]
  have "length (flat_input st2) \<le> length (flat_input st3)" unfolding shrinks_def by blast
  with read_char_less [OF c] r(2) \<open>st2 = st1\<close> show ?thesis by simp
qed

lemma set_all_bound:
  "parse_set_all sz i n st = Some (cs, st') \<Longrightarrow> length cs + length (flat_input st') \<le> length (flat_input st)"
proof (induction n arbitrary: i st cs)
  case (Suc n)
  then obtain l st1 ds where "read_size st = Some (l, st1)"
    "parse_set_all sz (Suc i) n st1 = Some (ds, st')" "length cs = Suc (length ds)"
    by (auto split: Option.bind_splits)
  with Suc.IH [of "Suc i" st1 ds] read_size_less [of st l st1] show ?case by simp
qed simp

lemma one_length: "one f m st = Some (cs, st') \<Longrightarrow> length cs = 1"
  by (auto simp: one_def split: Option.bind_splits)

lemma parse_instr_bound:
  assumes "parse_instr i st = Some (cs, st')"
  shows "length cs \<le> 1 \<or> length cs + length (flat_input st') \<le> length (flat_input st)"
proof (cases "i = instr_LinkListSetAll")
  case True
  then obtain sz st1 ds where "read_size st = Some (sz, st1)"
    "parse_set_all sz 0 (unat sz) st1 = Some (ds, st')" "length cs = length ds"
    using assms by (auto simp: parse_instr_def split: Option.bind_splits)
  with set_all_bound [of sz 0 "unat sz" st1 ds st'] read_size_less [of st sz st1] show ?thesis by simp
next
  case False
  then have "length cs = 1"
    using assms by (cases i) (auto simp: parse_instr_def dest!: one_length)
  then show ?thesis by simp
qed

text \<open>the parser makes progress and does not amplify its input. Reading an instruction takes
  at least one byte, and the calls it makes are no more than the bytes it took; so a log of
  \<open>n\<close> bytes, well formed or not, leads to at most \<open>n\<close> calls of the handler.\<close>

theorem parse_one_bound:
  assumes "parse_one st = Some (cs, st')"
  shows "length (flat_input st') < length (flat_input st) \<and> length cs + length (flat_input st') \<le> length (flat_input st)"
proof -
  obtain c st1 i where c: "read_char st = Some (c, st1)" and i: "parse_instr i st1 = Some (cs, st')"
    using assms unfolding parse_one_def by (auto split: Option.bind_splits option.splits)
  with shrinks_instr [of i] have "length (flat_input st') \<le> length (flat_input st1)"
    unfolding shrinks_def by blast
  with read_char_less [OF c] parse_instr_bound [OF i] show ?thesis by linarith
qed

theorem parse_one_bound_witness:
  "\<exists>cs st'. parse_one ([39, 2, 5], [[3, 8]]) = Some (cs, st') \<and> length cs = 2 \<and>
    length cs + length (flat_input st') \<le> 5"
proof -
  have "parse_one ([39, 2, 5], [[3, 8]]) =
    Some ([Links (Link_List_Set 0 5 2), Links (Link_List_Set 1 3 2)], ([8], []))" by code_simp
  then show ?thesis using parse_one_bound [of "([39, 2, 5], [[3, 8]])"] by fastforce
qed

text \<open>\<open>set_double\<close> ignores its variant: \<open>SetDefault\<close> is written, and therefore delivered,
  as a plain \<open>Set\<close>, while \<open>set_float\<close> keeps it.\<close>

theorem set_double_loses_variant:
  assumes "input_ok st" and "flat_input st = bs"
    and "enc_set_double c r v instr_SetDefault \<lparr>written = [], space = n\<rparr> = Some e" and "written e = bs"
  shows "parse handler st s = deliver handler [Field (Set_Double c r v instr_Set)] s"
proof -
  have "encode_calls [Field (Set_Double c r v instr_SetDefault)] \<lparr>written = [], space = n\<rparr> = Some e"
    using assms(3) by simp
  moreover obtain e' bss where "encode_calls [Field (Set_Double c r v instr_SetDefault)]
      \<lparr>written = [], space = n\<rparr> = Some e'" "written e' = concat bss"
    "list_all2 (\<lambda>bs ds. bs \<noteq> [] \<and> reads parse_one ds bs) bss
      [[decoded (Field (Set_Double c r v instr_SetDefault))]]"
    using encode_calls_parse [of "[Field (Set_Double c r v instr_SetDefault)]"
        "\<lparr>written = [], space = n\<rparr>"] by auto
  ultimately show ?thesis
    using parse_roundtrip [of bss "[[decoded (Field (Set_Double c r v instr_SetDefault))]]" st handler s]
      assms by simp
qed

theorem set_double_loses_variant_witness:
  "parse (\<lambda>c s. Some (s @ [c])) ([6, 10, 1], [[2, 0, 0, 0, 0, 0, 0, 0, 64]]) [] =
    Some [Field (Set_Double 1 2 4611686018427387904 instr_Set)]"
proof -
  have "enc_set_double 1 2 4611686018427387904 instr_SetDefault \<lparr>written = [], space = 100\<rparr> =
    Some \<lparr>written = [6, 10, 1, 2, 0, 0, 0, 0, 0, 0, 0, 64], space = 88\<rparr>" by code_simp
  then show ?thesis
    using set_double_loses_variant [of "([6, 10, 1], [[2, 0, 0, 0, 0, 0, 0, 0, 64]])"
      "[6, 10, 1, 2, 0, 0, 0, 0, 0, 0, 0, 64]" 1 2 4611686018427387904 100
      "\<lparr>written = [6, 10, 1, 2, 0, 0, 0, 0, 0, 0, 0, 64], space = 88\<rparr>" "\<lambda>c s. Some (s @ [c])" "[]"]
    by simp
qed

subsection \<open>Rollback\<close>

text \<open>An encoder of selections in the format the parser reads, to show that the assumption on
  the part of the encoder that is not in the repository can hold.\<close>

fun sample_select :: "group_call \<Rightarrow> encoder \<Rightarrow> encoder option" where
  "sample_select (Select_Table g p) = append_simple_instr [A_Instr instr_SelectTable,
     A_Num t_int (int (length p)), A_Size g, A_Unsigned (concat (map (\<lambda>(a, b). [a, b]) p))]"
| "sample_select (Select_Descriptor p) = append_simple_instr [A_Instr instr_SelectDescriptor,
     A_Num t_int (int (length p)), A_Unsigned p]"
| "sample_select (Select_Link_List c r x) =
     append_simple_instr [A_Instr instr_SelectLinkList, A_Size c, A_Size r, A_Size x]"
| "sample_select g = (\<lambda>e. None)"

lemma reads_path: "reads (read_path (length p)) p (concat (map encode_size p))"
proof (induction p)
  case Nil
  then show ?case by (simp add: reads_return)
next
  case (Cons x p)
  have "reads (read_path (Suc (length p))) (x # p)
      (encode_size x @ concat (map encode_size p) @ [])"
    unfolding read_path.simps [abs_def] encode_size_def [of x]
    by (rule reads_bind, rule reads_size, rule reads_bind, rule Cons.IH, rule reads_return)
  then show ?case by (simp del: read_path.simps)
qed

lemma reads_table_path:
  "reads (read_table_path (length p)) p
    (concat (map encode_size (concat (map (\<lambda>(a, b). [a, b]) p))))"
proof (induction p)
  case Nil
  then show ?case by (simp add: reads_return)
next
  case (Cons x p)
  obtain a b where x: "x = (a, b)" by (rule prod.exhaust)
  have "reads (read_table_path (Suc (length p))) ((a, b) # p)
      (encode_size a @ encode_size b @
        concat (map encode_size (concat (map (\<lambda>(a, b). [a, b]) p))) @ [])"
    unfolding read_table_path.simps [abs_def] encode_size_def [of a] encode_size_def [of b]
    by (rule reads_bind, rule reads_size, rule reads_bind, rule reads_size, rule reads_bind,
        rule Cons.IH, rule reads_return)
  then show ?case using x by (simp del: read_table_path.simps)
qed

lemma levels_ok: "int n \<le> max_levels \<Longrightarrow> representable t_int (int n)"
  by (simp add: representable_def type_min_def type_max_def t_int_def max_levels_def)

lemma sample_select_table:
  assumes "int (length p) \<le> max_levels"
  shows "roundtrips (sample_select (Select_Table g p)) [Group (Select_Table g p)]"
  unfolding sample_select.simps
proof (rule roundtrips_append)
  show "args_ok [A_Instr instr_SelectTable, A_Num t_int (int (length p)), A_Size g,
      A_Unsigned (concat (map (\<lambda>(a, b). [a, b]) p))]"
    using levels_ok [OF assms] by (simp add: size_ok)
  have "reads parse_select_table (Select_Table g p) (encode_int t_int (int (length p)) @
      encode_int t_size (uint g) @
      concat (map encode_size (concat (map (\<lambda>(a, b). [a, b]) p))) @ [])"
    unfolding parse_select_table_def [abs_def]
    by (rule reads_bind, rule reads_int, rule levels_ok, rule assms, rule reads_if_False,
        insert assms, simp, rule reads_bind, rule reads_size, rule reads_bind)
      (simp only: nat_int, rule reads_table_path, rule reads_return)
  from reads_one [OF this, of Group] show "reads (parse_instr instr_SelectTable)
      [Group (Select_Table g p)] (concat (map encode [A_Num t_int (int (length p)), A_Size g,
        A_Unsigned (concat (map (\<lambda>(a, b). [a, b]) p))]))"
    by (simp add: parse_instr_def)
qed

lemma sample_select_descriptor:
  assumes "int (length p) \<le> max_levels"
  shows "roundtrips (sample_select (Select_Descriptor p)) [Group (Select_Descriptor p)]"
  unfolding sample_select.simps
proof (rule roundtrips_append)
  show "args_ok [A_Instr instr_SelectDescriptor, A_Num t_int (int (length p)), A_Unsigned p]"
    using levels_ok [OF assms] by simp
  have "reads parse_select_descriptor (Select_Descriptor p) (encode_int t_int (int (length p)) @
      concat (map encode_size p) @ [])"
    unfolding parse_select_descriptor_def [abs_def]
    by (rule reads_bind, rule reads_int, rule levels_ok, rule assms, rule reads_if_False,
        insert assms, simp, rule reads_bind)
      (simp only: nat_int, rule reads_path, rule reads_return)
  from reads_one [OF this, of Group] show "reads (parse_instr instr_SelectDescriptor)
      [Group (Select_Descriptor p)]
      (concat (map encode [A_Num t_int (int (length p)), A_Unsigned p]))"
    by (simp add: parse_instr_def)
qed

lemma sample_select_links:
  "roundtrips (sample_select (Select_Link_List c r x)) [Group (Select_Link_List c r x)]"
  unfolding sample_select.simps
  by (rule roundtrips_append, simp add: size_ok,
      simp only: parse_defs instruction.case arg_bytes, (rule reads_one reads_bind reads_intros)+)

lemma sample_select_ok: "select_ok sample_select"
  unfolding select_ok_def
proof (intro allI impI)
  fix g
  assume "is_select g" and "valid_call (Group g)"
  then show "roundtrips (sample_select g) [Group g]"
    by (cases g) (simp_all add: sample_select_table sample_select_descriptor sample_select_links
        del: sample_select.simps)
qed

text \<open>C12: the log that a rollback reads is understood by the parser as the inverses of the
  original calls in reverse order, and every inverse runs under the table, descriptor or
  link list selection under which its original ran, whatever was selected before. The calls
  are those of a log whose column and link list instructions follow a selection; \<open>sel\<close> is
  the part of the encoder that is not in the repository.\<close>

theorem reverser_correct:
  assumes "select_ok sel" and "list_all valid_call cs" and "well_selected (None, None, None) cs"
  shows "\<exists>r. reverse_calls sel cs new_reverser = Some r \<and>
    parse handler (reversed_input r) s = deliver handler (map decoded (rev_calls cs)) s \<and>
    trace start (rev_calls cs) = inverse_trace (trace (None, None, None) cs)"
proof -
  obtain r where "reverse_calls sel cs new_reverser = Some r"
    "parse handler (reversed_input r) s = deliver handler (map decoded (rev_calls cs)) s"
    using reverser_refines [OF assms(1,2), of handler s] by (elim exE conjE)
  then show ?thesis using rev_calls_trace [OF assms(3), of start]
    by (intro exI [of _ r] conjI) simp_all
qed

definition sample_session :: "call list" where
  "sample_session = [Group (Select_Table 3 []), Rows (Insert_Empty_Rows 0 2 5 False),
     Group (Select_Link_List 1 0 4), Links (Link_List_Insert 0 9 0),
     Group (Select_Table 7 []), Edit (Add_Int 2 1 6)]"

theorem reverser_correct_witness:
  "\<exists>r. reverse_calls sample_select sample_session new_reverser = Some r \<and>
    parse (\<lambda>c s. Some (s @ [c])) (reversed_input r) [] = Some
      [Group (Select_Table 7 []), Edit (Add_Int 2 1 (- 6)),
       Group (Select_Table 3 []), Group (Select_Link_List 1 0 4), Links (Link_List_Erase 0 1),
       Rows (Erase_Rows 0 2 7 False)]"
proof -
  have "list_all valid_call sample_session" and "well_selected (None, None, None) sample_session"
    by (simp_all add: sample_session_def max_levels_def)
  from reverser_correct [OF sample_select_ok this, of "\<lambda>c s. Some (s @ [c])" "[]" "(None, None, None)"]
  obtain r where
    r: "reverse_calls sample_select sample_session new_reverser = Some r"
    "parse (\<lambda>c s. Some (s @ [c])) (reversed_input r) [] =
      deliver (\<lambda>c s. Some (s @ [c])) (map decoded (rev_calls sample_session)) []"
    by (elim exE conjE)
  have "rev_calls sample_session = [Group (Select_Table 7 []), Edit (Add_Int 2 1 (- 6)),
       Group (Select_Table 3 []), Group (Select_Link_List 1 0 4), Links (Link_List_Erase 0 1),
       Rows (Erase_Rows 0 2 7 False)]"
    by (simp add: sample_session_def rev_calls_def opt_call_def)
  with r show ?thesis by (intro exI [of _ r]) simp
qed

subsection \<open>What the inverses do to a link list\<close>

text \<open>A link list and what the instructions do to it. \<open>prior_size\<close> is the size of the list
  before the instruction; an instruction whose index or \<open>prior_size\<close> does not fit the list
  has no result.\<close>

definition move_elem :: "nat \<Rightarrow> nat \<Rightarrow> 'a list \<Rightarrow> 'a list" where
  "move_elem i j xs = (let ys = take i xs @ drop (Suc i) xs in take j ys @ xs ! i # drop j ys)"

fun list_apply :: "list_call \<Rightarrow> size_t list \<Rightarrow> size_t list option" where
  "list_apply (Link_List_Set l v n) xs =
     (if unat n = length xs \<and> unat l < length xs then Some (xs[unat l := v]) else None)"
| "list_apply (Link_List_Insert l v n) xs =
     (if unat n = length xs \<and> unat l \<le> length xs
      then Some (take (unat l) xs @ v # drop (unat l) xs) else None)"
| "list_apply (Link_List_Move i j) xs =
     (if unat i < length xs \<and> unat j < length xs then Some (move_elem (unat i) (unat j) xs) else None)"
| "list_apply (Link_List_Swap i j) xs =
     (if unat i < length xs \<and> unat j < length xs
      then Some (xs[unat i := xs ! unat j, unat j := xs ! unat i]) else None)"
| "list_apply (Link_List_Erase l n) xs =
     (if unat n = length xs \<and> unat l < length xs
      then Some (take (unat l) xs @ drop (Suc (unat l)) xs) else None)"
| "list_apply (Link_List_Nullify l n) xs =
     (if unat n = length xs \<and> unat l < length xs
      then Some (take (unat l) xs @ drop (Suc (unat l)) xs) else None)"
| "list_apply (Link_List_Clear n) xs = (if unat n = length xs then Some [] else None)"

fun list_run :: "call list \<Rightarrow> size_t list \<Rightarrow> size_t list option" where
  "list_run [] xs = Some xs"
| "list_run (Links c # cs) xs = do { xs \<leftarrow> list_apply c xs; list_run cs xs }"
| "list_run (c # cs) xs = list_run cs xs"

text \<open>The list is restored up to the targets of links that were removed, which the log does not
  keep: they come back as row \<open>0\<close>.\<close>

definition lost :: "list_call \<Rightarrow> nat set" where
  "lost c = (case c of Link_List_Erase l n \<Rightarrow> {unat l} | Link_List_Nullify l n \<Rightarrow> {unat l}
     | Link_List_Set l v n \<Rightarrow> {unat l} | _ \<Rightarrow> {})"

lemma unat_Suc: "unat n = m \<Longrightarrow> m < 2 ^ 64 - 1 \<Longrightarrow> unat (n + 1 :: size_t) = Suc m"
  by (subst unat_add_lem [THEN iffD1]) simp_all

lemma unat_pred: "unat n = Suc m \<Longrightarrow> unat (n - 1 :: size_t) = m"
  by (subst unat_minus_one) auto

lemma erase_insert_restores:
  assumes "i < length xs"
  shows "take i (take i xs @ drop (Suc i) xs) @ v # drop i (take i xs @ drop (Suc i) xs) = xs[i := v]"
  using assms upd_conv_take_nth_drop [of i xs v] by (simp add: min_def)

lemma insert_erase_restores:
  assumes "i \<le> length xs"
  shows "take i (take i xs @ v # drop i xs) @ drop (Suc i) (take i xs @ v # drop i xs) = xs"
  using assms by (simp add: min_def)

lemma erase_inverse:
  assumes "unat n = length xs" and "unat l < length xs"
  shows "list_apply (Link_List_Insert l 0 (n - 1)) (take (unat l) xs @ drop (Suc (unat l)) xs) =
    Some (xs[unat l := 0])"
  using assms unat_pred [of n "length xs - 1"] erase_insert_restores [OF assms(2), of 0]
  by (simp add: min_def)

lemma insert_inverse:
  assumes "unat n = length xs" and "unat l \<le> length xs" and "length xs < 2 ^ 64 - 1"
  shows "list_apply (Link_List_Erase l (n + 1)) (take (unat l) xs @ v # drop (unat l) xs) = Some xs"
  using assms unat_Suc [OF assms(1,3)] insert_erase_restores [OF assms(2), of v]
  by (simp add: min_def)

lemma swap_inverse:
  assumes "i < length xs" and "j < length xs"
  shows "(xs[i := xs ! j, j := xs ! i])[i := xs[i := xs ! j, j := xs ! i] ! j,
    j := xs[i := xs ! j, j := xs ! i] ! i] = xs"
  using assms by (intro nth_equalityI) (auto simp: nth_list_update)

text \<open>C13: undoing a change of a link list with its inverse gives back the list, up to the
  targets the log does not keep; moves, clears and replaced targets are not part of this.\<close>

theorem list_inverse_restores:
  assumes "list_apply c xs = Some ys" and "length xs < 2 ^ 64 - 1"
    and "\<forall>i j. c \<noteq> Link_List_Move i j" and "\<forall>n. c \<noteq> Link_List_Clear n"
    and "\<forall>l v n. c \<noteq> Link_List_Set l v n"
  shows "reverse_links c r = write_all (inverse_call (Links c)) r \<and>
    (\<exists>zs. list_run (rev (inverse_call (Links c))) ys = Some zs \<and> length zs = length xs \<and>
      (\<forall>i<length xs. i \<notin> lost c \<longrightarrow> zs ! i = xs ! i))"
proof (rule conjI)
  show "reverse_links c r = write_all (inverse_call (Links c)) r"
    using reverse_call_write [of "Links c"] by simp
  show "\<exists>zs. list_run (rev (inverse_call (Links c))) ys = Some zs \<and> length zs = length xs \<and>
      (\<forall>i<length xs. i \<notin> lost c \<longrightarrow> zs ! i = xs ! i)"
  proof (cases c)
    case (Link_List_Insert l v n)
    then have n: "unat n = length xs" "unat l \<le> length xs"
      and ys: "ys = take (unat l) xs @ v # drop (unat l) xs"
      using assms(1) by (auto split: if_splits)
    show ?thesis unfolding ys using insert_inverse [OF n assms(2), of v] Link_List_Insert
      by (simp del: list_apply.simps)
  next
    case (Link_List_Swap i j)
    then have n: "unat i < length xs" "unat j < length xs"
      and ys: "ys = xs[unat i := xs ! unat j, unat j := xs ! unat i]"
      using assms(1) by (auto split: if_splits)
    show ?thesis unfolding ys using swap_inverse [OF n] n Link_List_Swap by simp
  next
    case (Link_List_Erase l n)
    then have n: "unat n = length xs" "unat l < length xs"
      and ys: "ys = take (unat l) xs @ drop (Suc (unat l)) xs"
      using assms(1) by (auto split: if_splits)
    show ?thesis unfolding ys using erase_inverse [OF n] Link_List_Erase
      by (simp add: lost_def del: list_apply.simps)
  next
    case (Link_List_Nullify l n)
    then have n: "unat n = length xs" "unat l < length xs"
      and ys: "ys = take (unat l) xs @ drop (Suc (unat l)) xs"
      using assms(1) by (auto split: if_splits)
    show ?thesis unfolding ys using erase_inverse [OF n] Link_List_Nullify
      by (simp add: lost_def del: list_apply.simps)
  qed (use assms in auto)
qed

theorem list_inverse_restores_witness:
  "\<exists>zs. list_run (rev (inverse_call (Links (Link_List_Erase 1 3)))) [4, 6] = Some zs \<and>
    length zs = 3 \<and> zs ! 0 = 4 \<and> zs ! 2 = 6"
  using list_inverse_restores [of "Link_List_Erase 1 3" "[4, 5, 6]" "[4, 6]"]
  by (fastforce simp: lost_def simp del: list_run.simps inverse_call.simps)

text \<open>the inverse of a move is not its inverse: it is written with the two indexes in the
  original order. The inverses of the removals of a clear insert the rows in the right order,
  but with the \<open>prior_size\<close> arguments in descending order, which is not the size the list has.\<close>

theorem list_move_clear_not_inverse:
  "reverse_links (Link_List_Move i j) r = write_append (enc_link_list_move i j) r \<and>
   list_apply (Link_List_Move 0 2) [a, b, c] = Some [b, c, a] \<and>
   list_run (rev (inverse_call (Links (Link_List_Move 0 2)))) [b, c, a] = Some [c, a, b] \<and>
   reverse_links (Link_List_Clear 2) r = write_all (inverse_call (Links (Link_List_Clear 2))) r \<and>
   rev (inverse_call (Links (Link_List_Clear 2))) =
     [Links (Link_List_Insert 0 0 1), Links (Link_List_Insert 1 0 0)] \<and>
   list_run (rev (inverse_call (Links (Link_List_Clear 2)))) [] = None"
proof -
  have "inverse_call (Links (Link_List_Clear 2)) =
    [Links (Link_List_Insert 1 0 0), Links (Link_List_Insert 0 0 1)]" by code_simp
  then show ?thesis using reverse_call_write [of "Links (Link_List_Clear 2)"]
    by (simp add: move_elem_def Let_def del: inverse_links.simps(4) reverse_links.simps(6))
qed

end
