(* ===== verification/Transact_Convenient.thy ===== *)
theory Transact_Convenient
  imports Transact_Encode
begin

section \<open>Writing instructions together with their selections\<close>

text \<open>
  \<open>TransactLogConvenientEncoder\<close> of \<open>realm/impl/transact_log.hpp\<close>, the encoder that the storage
  engine calls whenever it changes something: each method selects the table, the descriptor or
  the link list it is called on, unless the cached selection says that it is selected already,
  and writes the instruction. The objects it is called on belong to the storage engine: a table,
  a spec and a link list are known by their address, a number here, and what the encoder asks
  them is the argument \<open>accessors\<close> of the model. The bodies of \<open>do_select_table\<close>,
  \<open>do_select_desc\<close>, \<open>do_select_link_list\<close> and \<open>link_list_clear\<close> are not in the repository; the
  first three are the argument \<open>selector\<close>, the last has no model.
\<close>

type_synonym table = nat
type_synonym spec = nat
type_synonym link_view = nat

text \<open>A \<open>Descriptor\<close> refers to the spec it describes and to its root table.\<close>

datatype descriptor = Descriptor (root_table: table) (desc_spec: spec)

text \<open>What the storage engine answers at the moment of a call. \<open>table_at\<close>, \<open>spec_at\<close> and
  \<open>list_at\<close> are the positions that the selection instructions carry: the position of a table
  is its index in the group and a path of subtables, that of a spec adds the path of
  subdescriptors to the position of the root table, that of a link list adds column, row and
  the index of the target table to the position of the origin table.\<close>

type_synonym table_pos = "size_t \<times> (size_t \<times> size_t) list"

record accessors =
  table_size :: "table \<Rightarrow> size_t"
  column_link_target :: "table \<Rightarrow> size_t \<Rightarrow> size_t"
  link_target_table :: "table \<Rightarrow> size_t \<Rightarrow> table"
  index_in_group :: "table \<Rightarrow> size_t"
  backlink_column :: "table \<Rightarrow> size_t \<Rightarrow> size_t \<Rightarrow> size_t"
  column_type :: "spec \<Rightarrow> size_t \<Rightarrow> data_type"
  list_size :: "link_view \<Rightarrow> size_t"
  table_at :: "table \<Rightarrow> table_pos"
  spec_at :: "spec \<Rightarrow> table_pos \<times> size_t list"
  list_at :: "link_view \<Rightarrow> table_pos \<times> size_t \<times> size_t \<times> size_t"

subsection \<open>The selection caches\<close>

text \<open>A null pointer is \<open>None\<close>.\<close>

record conv_encoder =
  m_encoder :: encoder
  m_selected_table :: "table option"
  m_selected_spec :: "spec option"
  m_selected_link_list :: "link_view option"

record selector =
  do_select_table :: "accessors \<Rightarrow> table \<Rightarrow> conv_encoder \<Rightarrow> conv_encoder option"
  do_select_desc :: "accessors \<Rightarrow> descriptor \<Rightarrow> conv_encoder \<Rightarrow> conv_encoder option"
  do_select_link_list :: "accessors \<Rightarrow> link_view \<Rightarrow> conv_encoder \<Rightarrow> conv_encoder option"

definition unselect_all :: "conv_encoder \<Rightarrow> conv_encoder" where
  "unselect_all c =
     c\<lparr>m_selected_table := None, m_selected_spec := None, m_selected_link_list := None\<rparr>"

definition reset_selection_caches :: "conv_encoder \<Rightarrow> conv_encoder" where
  "reset_selection_caches c = unselect_all c"

definition select_table :: "selector \<Rightarrow> accessors \<Rightarrow> table \<Rightarrow> conv_encoder \<Rightarrow> conv_encoder option" where
  "select_table sel w t c = do {
     c \<leftarrow> (if m_selected_table c \<noteq> Some t then do_select_table sel w t c else Some c);
     Some (c\<lparr>m_selected_spec := None, m_selected_link_list := None\<rparr>) }"

definition select_desc ::
  "selector \<Rightarrow> accessors \<Rightarrow> descriptor \<Rightarrow> conv_encoder \<Rightarrow> conv_encoder option" where
  "select_desc sel w d c = do {
     c \<leftarrow> (if m_selected_spec c \<noteq> Some (desc_spec d) then do_select_desc sel w d c else Some c);
     Some (c\<lparr>m_selected_link_list := None\<rparr>) }"

definition select_link_list ::
  "selector \<Rightarrow> accessors \<Rightarrow> link_view \<Rightarrow> conv_encoder \<Rightarrow> conv_encoder option" where
  "select_link_list sel w l c = do {
     c \<leftarrow> (if m_selected_link_list c \<noteq> Some l then do_select_link_list sel w l c else Some c);
     Some (c\<lparr>m_selected_spec := None\<rparr>) }"

text \<open>The storage engine reports the destruction of an object, as its address may be used
  again. \<open>on_link_list_destroyed\<close> is an atomic compare and exchange.\<close>

definition on_table_destroyed :: "table \<Rightarrow> conv_encoder \<Rightarrow> conv_encoder" where
  "on_table_destroyed t c = (if m_selected_table c = Some t then c\<lparr>m_selected_table := None\<rparr> else c)"

definition on_spec_destroyed :: "spec \<Rightarrow> conv_encoder \<Rightarrow> conv_encoder" where
  "on_spec_destroyed s c = (if m_selected_spec c = Some s then c\<lparr>m_selected_spec := None\<rparr> else c)"

definition on_link_list_destroyed :: "link_view \<Rightarrow> conv_encoder \<Rightarrow> conv_encoder" where
  "on_link_list_destroyed l c =
     (if m_selected_link_list c = Some l then c\<lparr>m_selected_link_list := None\<rparr> else c)"

definition put_call :: "(encoder \<Rightarrow> encoder option) \<Rightarrow> conv_encoder \<Rightarrow> conv_encoder option" where
  "put_call f c = do { e \<leftarrow> f (m_encoder c); Some (c\<lparr>m_encoder := e\<rparr>) }"

subsection \<open>Methods that need no selection\<close>

definition conv_insert_group_level_table where
  "conv_insert_group_level_table table_ndx prior_num_tables name c =
     put_call (enc_insert_group_level_table table_ndx prior_num_tables name) (unselect_all c)"

definition conv_erase_group_level_table where
  "conv_erase_group_level_table table_ndx prior_num_tables c =
     put_call (enc_erase_group_level_table table_ndx prior_num_tables) (unselect_all c)"

definition conv_rename_group_level_table where
  "conv_rename_group_level_table table_ndx new_name c =
     put_call (enc_rename_group_level_table table_ndx new_name) (unselect_all c)"

subsection \<open>Methods on a descriptor\<close>

text \<open>\<open>link\<close> is the target table of a \<open>LinkTargetInfo\<close>, which is valid when there is one.\<close>

definition conv_insert_column where
  "conv_insert_column sel w d col_ndx ty name link nullable c = do {
     c \<leftarrow> select_desc sel w d c;
     case link of
       Some m_target_table \<Rightarrow>
         let target_table_ndx = index_in_group w m_target_table;
             origin_table_ndx = index_in_group w (root_table d);
             backlink_col_ndx = backlink_column w m_target_table origin_table_ndx col_ndx
         in put_call (enc_insert_link_column col_ndx ty name target_table_ndx backlink_col_ndx) c
     | None \<Rightarrow> put_call (enc_insert_column col_ndx ty name nullable) c }"

definition is_link_type :: "data_type \<Rightarrow> bool" where
  "is_link_type ty \<longleftrightarrow> ty = type_Link \<or> ty = type_LinkList"

definition conv_erase_column where
  "conv_erase_column sel w d col_ndx c = do {
     c \<leftarrow> select_desc sel w d c;
     let ty = column_type w (desc_spec d) col_ndx;
     if \<not> is_link_type ty then put_call (enc_erase_column col_ndx) c
     else
       let target_table = link_target_table w (root_table d) col_ndx;
           target_table_ndx = index_in_group w target_table;
           origin_table_ndx = index_in_group w (root_table d);
           backlink_col_ndx = backlink_column w target_table origin_table_ndx col_ndx
       in put_call (enc_erase_link_column col_ndx target_table_ndx backlink_col_ndx) c }"

definition conv_rename_column where
  "conv_rename_column sel w d col_ndx name c =
     do { c \<leftarrow> select_desc sel w d c; put_call (enc_rename_column col_ndx name) c }"

definition conv_add_search_index where
  "conv_add_search_index sel w d col_ndx c =
     do { c \<leftarrow> select_desc sel w d c; put_call (enc_add_search_index col_ndx) c }"

definition conv_remove_search_index where
  "conv_remove_search_index sel w d col_ndx c =
     do { c \<leftarrow> select_desc sel w d c; put_call (enc_remove_search_index col_ndx) c }"

subsection \<open>Methods on a table\<close>

definition conv_set_int where
  "conv_set_int sel w t col_ndx ndx v variant c =
     do {
       c \<leftarrow> select_table sel w t c;
       let prior_num_rows = (if variant = instr_SetUnique then table_size w t else 0);
       put_call (enc_set_int col_ndx ndx v variant prior_num_rows) c }"

definition conv_add_int where
  "conv_add_int sel w t col_ndx ndx v c =
     do { c \<leftarrow> select_table sel w t c; put_call (enc_add_int col_ndx ndx v) c }"

definition conv_set_bool where
  "conv_set_bool sel w t col_ndx ndx v variant c =
     do { c \<leftarrow> select_table sel w t c; put_call (enc_set_bool col_ndx ndx v variant) c }"

definition conv_set_float where
  "conv_set_float sel w t col_ndx ndx v variant c =
     do { c \<leftarrow> select_table sel w t c; put_call (enc_set_float col_ndx ndx v variant) c }"

definition conv_set_double where
  "conv_set_double sel w t col_ndx ndx v variant c =
     do { c \<leftarrow> select_table sel w t c; put_call (enc_set_double col_ndx ndx v variant) c }"

definition conv_set_string where
  "conv_set_string sel w t col_ndx ndx v variant c =
     do {
       c \<leftarrow> select_table sel w t c;
       let prior_num_rows = (if variant = instr_SetUnique then table_size w t else 0);
       put_call (enc_set_string col_ndx ndx v variant prior_num_rows) c }"

definition conv_set_binary where
  "conv_set_binary sel w t col_ndx ndx v variant c =
     do { c \<leftarrow> select_table sel w t c; put_call (enc_set_binary col_ndx ndx v variant) c }"

definition conv_set_olddatetime where
  "conv_set_olddatetime sel w t col_ndx ndx v variant c =
     do { c \<leftarrow> select_table sel w t c; put_call (enc_set_olddatetime col_ndx ndx v variant) c }"

definition conv_set_timestamp where
  "conv_set_timestamp sel w t col_ndx ndx v variant c =
     do { c \<leftarrow> select_table sel w t c; put_call (enc_set_timestamp col_ndx ndx v variant) c }"

definition conv_set_table where
  "conv_set_table sel w t col_ndx ndx variant c =
     do { c \<leftarrow> select_table sel w t c; put_call (enc_set_table col_ndx ndx variant) c }"

definition conv_set_mixed where
  "conv_set_mixed sel w t col_ndx ndx v variant c =
     do { c \<leftarrow> select_table sel w t c; put_call (enc_set_mixed col_ndx ndx v variant) c }"

definition conv_set_link where
  "conv_set_link sel w t col_ndx ndx v variant c =
     do {
       c \<leftarrow> select_table sel w t c;
       let target_group_level_ndx = column_link_target w t col_ndx;
       put_call (enc_set_link col_ndx ndx v target_group_level_ndx variant) c }"

definition conv_set_null where
  "conv_set_null sel w t col_ndx row_ndx variant c =
     do {
       c \<leftarrow> select_table sel w t c;
       let prior_num_rows = (if variant = instr_SetUnique then table_size w t else 0);
       put_call (enc_set_null col_ndx row_ndx variant prior_num_rows) c }"

definition conv_nullify_link where
  "conv_nullify_link sel w t col_ndx ndx c =
     do {
       c \<leftarrow> select_table sel w t c;
       let target_group_level_ndx = column_link_target w t col_ndx;
       put_call (enc_nullify_link col_ndx ndx target_group_level_ndx) c }"

definition conv_insert_substring where
  "conv_insert_substring sel w t col_ndx row_ndx pos v c =
     (if length v > 0 then do {
        c \<leftarrow> select_table sel w t c;
        put_call (enc_insert_substring col_ndx row_ndx pos v) c }
      else Some c)"

definition conv_erase_substring where
  "conv_erase_substring sel w t col_ndx row_ndx pos sz c =
     (if sz > 0 then do {
        c \<leftarrow> select_table sel w t c;
        put_call (enc_erase_substring col_ndx row_ndx pos sz) c }
      else Some c)"

definition conv_insert_empty_rows where
  "conv_insert_empty_rows sel w t row_ndx num_rows_to_insert prior_num_rows c =
     do {
       c \<leftarrow> select_table sel w t c;
       put_call (enc_insert_empty_rows row_ndx num_rows_to_insert prior_num_rows False) c }"

definition conv_add_row_with_key where
  "conv_add_row_with_key sel w t row_ndx prior_num_rows key_col_ndx key c =
     do {
       c \<leftarrow> select_table sel w t c;
       put_call (enc_add_row_with_key row_ndx prior_num_rows key_col_ndx key) c }"

definition conv_erase_rows where
  "conv_erase_rows sel w t row_ndx num_rows_to_erase prior_num_rows is_move_last_over c =
     do {
       c \<leftarrow> select_table sel w t c;
       put_call (enc_erase_rows row_ndx num_rows_to_erase prior_num_rows is_move_last_over) c }"

definition conv_swap_rows where
  "conv_swap_rows sel w t row_ndx_1 row_ndx_2 c =
     do { c \<leftarrow> select_table sel w t c; put_call (enc_swap_rows row_ndx_1 row_ndx_2) c }"

definition conv_move_row where
  "conv_move_row sel w t from_ndx to_ndx c =
     do { c \<leftarrow> select_table sel w t c; put_call (enc_move_row from_ndx to_ndx) c }"

definition conv_merge_rows where
  "conv_merge_rows sel w t row_ndx new_row_ndx c =
     do { c \<leftarrow> select_table sel w t c; put_call (enc_merge_rows row_ndx new_row_ndx) c }"

definition conv_set_link_type where
  "conv_set_link_type sel w t col_ndx ty c =
     do { c \<leftarrow> select_table sel w t c; put_call (enc_set_link_type col_ndx ty) c }"

definition conv_clear_table where
  "conv_clear_table sel w t prior_num_rows c =
     do { c \<leftarrow> select_table sel w t c; put_call (enc_clear_table prior_num_rows) c }"

definition conv_optimize_table where
  "conv_optimize_table sel w t c =
     do { c \<leftarrow> select_table sel w t c; put_call (enc_optimize_table) c }"

subsection \<open>Methods on a link list\<close>

definition conv_link_list_set where
  "conv_link_list_set sel w l link_ndx v c =
     do { c \<leftarrow> select_link_list sel w l c; put_call (enc_link_list_set link_ndx v (list_size w l)) c }"

definition conv_link_list_nullify where
  "conv_link_list_nullify sel w l link_ndx c =
     do { c \<leftarrow> select_link_list sel w l c;
       let prior_size = list_size w l;
       put_call (enc_link_list_nullify link_ndx prior_size) c }"

definition conv_set_link_list where
  "conv_set_link_list sel w l vs c =
     do { c \<leftarrow> select_link_list sel w l c; put_call (enc_link_list_set_all vs) c }"

definition conv_link_list_insert where
  "conv_link_list_insert sel w l link_ndx v c =
     do { c \<leftarrow> select_link_list sel w l c;
       let prior_size = list_size w l - 1;
       put_call (enc_link_list_insert link_ndx v prior_size) c }"

definition conv_link_list_move where
  "conv_link_list_move sel w l from_link_ndx to_link_ndx c =
     do { c \<leftarrow> select_link_list sel w l c; put_call (enc_link_list_move from_link_ndx to_link_ndx) c }"

definition conv_link_list_swap where
  "conv_link_list_swap sel w l link1_ndx link2_ndx c =
     do { c \<leftarrow> select_link_list sel w l c; put_call (enc_link_list_swap link1_ndx link2_ndx) c }"

definition conv_link_list_erase where
  "conv_link_list_erase sel w l link_ndx c =
     do { c \<leftarrow> select_link_list sel w l c;
       let prior_size = list_size w l;
       put_call (enc_link_list_erase link_ndx prior_size) c }"

subsection \<open>Sequences of calls\<close>

text \<open>One constructor per method. The storage engine may answer differently at each call, so a
  sequence of calls comes with the answers in force.\<close>

datatype group_op =
  G_Insert_Group_Level_Table size_t size_t bytes
| G_Erase_Group_Level_Table size_t size_t
| G_Rename_Group_Level_Table size_t bytes

datatype desc_op =
  D_Insert_Column size_t data_type bytes "table option" bool
| D_Erase_Column size_t
| D_Rename_Column size_t bytes
| D_Add_Search_Index size_t
| D_Remove_Search_Index size_t

datatype table_op =
  T_Set_Int size_t size_t int64 instruction
| T_Add_Int size_t size_t int64
| T_Set_Bool size_t size_t bool instruction
| T_Set_Float size_t size_t "32 word" instruction
| T_Set_Double size_t size_t "64 word" instruction
| T_Set_String size_t size_t "bytes option" instruction
| T_Set_Binary size_t size_t "bytes option" instruction
| T_Set_Olddatetime size_t size_t int64 instruction
| T_Set_Timestamp size_t size_t timestamp instruction
| T_Set_Table size_t size_t instruction
| T_Set_Mixed size_t size_t mixed instruction
| T_Set_Link size_t size_t size_t instruction
| T_Set_Null size_t size_t instruction
| T_Nullify_Link size_t size_t
| T_Insert_Substring size_t size_t size_t bytes
| T_Erase_Substring size_t size_t size_t size_t
| T_Insert_Empty_Rows size_t size_t size_t
| T_Add_Row_With_Key size_t size_t size_t int64
| T_Erase_Rows size_t size_t size_t bool
| T_Swap_Rows size_t size_t
| T_Move_Row size_t size_t
| T_Merge_Rows size_t size_t
| T_Set_Link_Type size_t link_type
| T_Clear_Table size_t
| T_Optimize_Table

datatype link_op =
  L_Link_List_Set size_t size_t
| L_Link_List_Nullify size_t
| L_Set_Link_List "int64 list"
| L_Link_List_Insert size_t size_t
| L_Link_List_Move size_t size_t
| L_Link_List_Swap size_t size_t
| L_Link_List_Erase size_t

datatype conv_op =
  On_Group group_op
| On_Desc descriptor desc_op
| On_Table table table_op
| On_List link_view link_op
| Table_Destroyed table
| Spec_Destroyed spec
| List_Destroyed link_view
| Reset_Caches

fun run_group_op :: "group_op \<Rightarrow> conv_encoder \<Rightarrow> conv_encoder option" where
  "run_group_op (G_Insert_Group_Level_Table a b c) = conv_insert_group_level_table a b c"
| "run_group_op (G_Erase_Group_Level_Table a b) = conv_erase_group_level_table a b"
| "run_group_op (G_Rename_Group_Level_Table a b) = conv_rename_group_level_table a b"

fun run_desc_op ::
  "selector \<Rightarrow> accessors \<Rightarrow> descriptor \<Rightarrow> desc_op \<Rightarrow> conv_encoder \<Rightarrow> conv_encoder option" where
  "run_desc_op sel w d (D_Insert_Column a e f g h) = conv_insert_column sel w d a e f g h"
| "run_desc_op sel w d (D_Erase_Column a) = conv_erase_column sel w d a"
| "run_desc_op sel w d (D_Rename_Column a e) = conv_rename_column sel w d a e"
| "run_desc_op sel w d (D_Add_Search_Index a) = conv_add_search_index sel w d a"
| "run_desc_op sel w d (D_Remove_Search_Index a) = conv_remove_search_index sel w d a"

fun run_table_op ::
  "selector \<Rightarrow> accessors \<Rightarrow> table \<Rightarrow> table_op \<Rightarrow> conv_encoder \<Rightarrow> conv_encoder option" where
  "run_table_op sel w t (T_Set_Int a b c d) = conv_set_int sel w t a b c d"
| "run_table_op sel w t (T_Add_Int a b c) = conv_add_int sel w t a b c"
| "run_table_op sel w t (T_Set_Bool a b c d) = conv_set_bool sel w t a b c d"
| "run_table_op sel w t (T_Set_Float a b c d) = conv_set_float sel w t a b c d"
| "run_table_op sel w t (T_Set_Double a b c d) = conv_set_double sel w t a b c d"
| "run_table_op sel w t (T_Set_String a b c d) = conv_set_string sel w t a b c d"
| "run_table_op sel w t (T_Set_Binary a b c d) = conv_set_binary sel w t a b c d"
| "run_table_op sel w t (T_Set_Olddatetime a b c d) = conv_set_olddatetime sel w t a b c d"
| "run_table_op sel w t (T_Set_Timestamp a b c d) = conv_set_timestamp sel w t a b c d"
| "run_table_op sel w t (T_Set_Table a b c) = conv_set_table sel w t a b c"
| "run_table_op sel w t (T_Set_Mixed a b c d) = conv_set_mixed sel w t a b c d"
| "run_table_op sel w t (T_Set_Link a b c d) = conv_set_link sel w t a b c d"
| "run_table_op sel w t (T_Set_Null a b c) = conv_set_null sel w t a b c"
| "run_table_op sel w t (T_Nullify_Link a b) = conv_nullify_link sel w t a b"
| "run_table_op sel w t (T_Insert_Substring a b c d) = conv_insert_substring sel w t a b c d"
| "run_table_op sel w t (T_Erase_Substring a b c d) = conv_erase_substring sel w t a b c d"
| "run_table_op sel w t (T_Insert_Empty_Rows a b c) = conv_insert_empty_rows sel w t a b c"
| "run_table_op sel w t (T_Add_Row_With_Key a b c d) = conv_add_row_with_key sel w t a b c d"
| "run_table_op sel w t (T_Erase_Rows a b c d) = conv_erase_rows sel w t a b c d"
| "run_table_op sel w t (T_Swap_Rows a b) = conv_swap_rows sel w t a b"
| "run_table_op sel w t (T_Move_Row a b) = conv_move_row sel w t a b"
| "run_table_op sel w t (T_Merge_Rows a b) = conv_merge_rows sel w t a b"
| "run_table_op sel w t (T_Set_Link_Type a b) = conv_set_link_type sel w t a b"
| "run_table_op sel w t (T_Clear_Table a) = conv_clear_table sel w t a"
| "run_table_op sel w t T_Optimize_Table = conv_optimize_table sel w t"

fun run_link_op ::
  "selector \<Rightarrow> accessors \<Rightarrow> link_view \<Rightarrow> link_op \<Rightarrow> conv_encoder \<Rightarrow> conv_encoder option" where
  "run_link_op sel w l (L_Link_List_Set a b) = conv_link_list_set sel w l a b"
| "run_link_op sel w l (L_Link_List_Nullify a) = conv_link_list_nullify sel w l a"
| "run_link_op sel w l (L_Set_Link_List a) = conv_set_link_list sel w l a"
| "run_link_op sel w l (L_Link_List_Insert a b) = conv_link_list_insert sel w l a b"
| "run_link_op sel w l (L_Link_List_Move a b) = conv_link_list_move sel w l a b"
| "run_link_op sel w l (L_Link_List_Swap a b) = conv_link_list_swap sel w l a b"
| "run_link_op sel w l (L_Link_List_Erase a) = conv_link_list_erase sel w l a"

fun run_op :: "selector \<Rightarrow> accessors \<Rightarrow> conv_op \<Rightarrow> conv_encoder \<Rightarrow> conv_encoder option" where
  "run_op sel w (On_Group g) c = run_group_op g c"
| "run_op sel w (On_Desc d x) c = run_desc_op sel w d x c"
| "run_op sel w (On_Table t x) c = run_table_op sel w t x c"
| "run_op sel w (On_List l x) c = run_link_op sel w l x c"
| "run_op sel w (Table_Destroyed t) c = Some (on_table_destroyed t c)"
| "run_op sel w (Spec_Destroyed s) c = Some (on_spec_destroyed s c)"
| "run_op sel w (List_Destroyed l) c = Some (on_link_list_destroyed l c)"
| "run_op sel w Reset_Caches c = Some (reset_selection_caches c)"

fun run_ops ::
  "selector \<Rightarrow> (accessors \<times> conv_op) list \<Rightarrow> conv_encoder \<Rightarrow> conv_encoder option" where
  "run_ops sel [] c = Some c"
| "run_ops sel ((w, op) # ops) c = do { c \<leftarrow> run_op sel w op c; run_ops sel ops c }"

text \<open>A new encoder: the buffer is empty and nothing is selected.\<close>

definition new_conv_encoder :: conv_encoder where
  "new_conv_encoder = \<lparr>m_encoder = \<lparr>written = [], space = 0\<rparr>, m_selected_table = None,
     m_selected_spec = None, m_selected_link_list = None\<rparr>"

end
