(* ===== verification/Convenient_Log.thy ===== *)
theory Convenient_Log
  imports Transact_Convenient Transact_Reverse
begin

section \<open>The log of the convenient encoder\<close>

text \<open>
  The specification of \<open>TransactLogConvenientEncoder\<close> does not know the selection caches:
  \<open>op_entries\<close> says which calls a method stands for and under which selection a handler has to
  receive them. The simulation \<open>cache_ok\<close> relates the caches to the selection that the bytes
  written so far leave a reader with.
\<close>

subsection \<open>What a method stands for\<close>

fun table_calls :: "accessors \<Rightarrow> table \<Rightarrow> table_op \<Rightarrow> call list" where
  "table_calls w t (T_Set_Int a b c d) =
     [Field (Set_Int a b c d (if d = instr_SetUnique then table_size w t else 0))]"
| "table_calls w t (T_Add_Int a b c) = [Edit (Add_Int a b c)]"
| "table_calls w t (T_Set_Bool a b c d) = [Field (Set_Bool a b c d)]"
| "table_calls w t (T_Set_Float a b c d) = [Field (Set_Float a b c d)]"
| "table_calls w t (T_Set_Double a b c d) = [Field (Set_Double a b c d)]"
| "table_calls w t (T_Set_String a b c d) =
     [Field (Set_String a b c d (if d = instr_SetUnique then table_size w t else 0))]"
| "table_calls w t (T_Set_Binary a b c d) = [Field (Set_Binary a b c d)]"
| "table_calls w t (T_Set_Olddatetime a b c d) = [Field (Set_OldDateTime a b c d)]"
| "table_calls w t (T_Set_Timestamp a b c d) = [Field (Set_Timestamp a b c d)]"
| "table_calls w t (T_Set_Table a b c) = [Field (Set_Table a b c)]"
| "table_calls w t (T_Set_Mixed a b c d) = [Field (Set_Mixed a b c d)]"
| "table_calls w t (T_Set_Link a b c d) = [Field (Set_Link a b c (column_link_target w t a) d)]"
| "table_calls w t (T_Set_Null a b c) =
     [Field (Set_Null a b c (if c = instr_SetUnique then table_size w t else 0))]"
| "table_calls w t (T_Nullify_Link a b) = [Edit (Nullify_Link a b (column_link_target w t a))]"
| "table_calls w t (T_Insert_Substring a b c d) =
     (if d = [] then [] else [Edit (Insert_Substring a b c d)])"
| "table_calls w t (T_Erase_Substring a b c d) =
     (if d = 0 then [] else [Edit (Erase_Substring a b c d)])"
| "table_calls w t (T_Insert_Empty_Rows a b c) = [Rows (Insert_Empty_Rows a b c False)]"
| "table_calls w t (T_Add_Row_With_Key a b c d) = [Rows (Add_Row_With_Key a b c d)]"
| "table_calls w t (T_Erase_Rows a b c d) = [Rows (Erase_Rows a b c d)]"
| "table_calls w t (T_Swap_Rows a b) = [Rows (Swap_Rows a b)]"
| "table_calls w t (T_Move_Row a b) = [Rows (Move_Row a b)]"
| "table_calls w t (T_Merge_Rows a b) = [Rows (Merge_Rows a b)]"
| "table_calls w t (T_Set_Link_Type a b) = [Column (Set_Link_Type a b)]"
| "table_calls w t (T_Clear_Table a) = [Rows (Clear_Table a)]"
| "table_calls w t T_Optimize_Table = [Rows Optimize_Table]"

fun list_calls :: "accessors \<Rightarrow> link_view \<Rightarrow> link_op \<Rightarrow> call list" where
  "list_calls w l (L_Link_List_Set a b) = [Links (Link_List_Set a b (list_size w l))]"
| "list_calls w l (L_Link_List_Nullify a) = [Links (Link_List_Nullify a (list_size w l))]"
| "list_calls w l (L_Set_Link_List vs) = map Links (set_all_calls (of_nat (length vs)) 0 vs)"
| "list_calls w l (L_Link_List_Insert a b) = [Links (Link_List_Insert a b (list_size w l - 1))]"
| "list_calls w l (L_Link_List_Move a b) = [Links (Link_List_Move a b)]"
| "list_calls w l (L_Link_List_Swap a b) = [Links (Link_List_Swap a b)]"
| "list_calls w l (L_Link_List_Erase a) = [Links (Link_List_Erase a (list_size w l))]"

fun desc_calls :: "accessors \<Rightarrow> descriptor \<Rightarrow> desc_op \<Rightarrow> call list" where
  "desc_calls w d (D_Insert_Column a ty name None b) = [Column (Insert_Column a ty name b)]"
| "desc_calls w d (D_Insert_Column a ty name (Some t) b) =
     [Column (Insert_Link_Column a ty name (index_in_group w t)
       (backlink_column w t (index_in_group w (root_table d)) a))]"
| "desc_calls w d (D_Erase_Column a) =
     (if is_link_type (column_type w (desc_spec d) a)
      then let t = link_target_table w (root_table d) a
           in [Column (Erase_Link_Column a (index_in_group w t)
                (backlink_column w t (index_in_group w (root_table d)) a))]
      else [Column (Erase_Column a)])"
| "desc_calls w d (D_Rename_Column a name) = [Column (Rename_Column a name)]"
| "desc_calls w d (D_Add_Search_Index a) = [Column (Add_Search_Index a)]"
| "desc_calls w d (D_Remove_Search_Index a) = [Column (Remove_Search_Index a)]"

fun group_calls :: "group_op \<Rightarrow> call list" where
  "group_calls (G_Insert_Group_Level_Table a b name) = [Group (Insert_Group_Level_Table a b name)]"
| "group_calls (G_Erase_Group_Level_Table a b) = [Group (Erase_Group_Level_Table a b)]"
| "group_calls (G_Rename_Group_Level_Table a name) = [Group (Rename_Group_Level_Table a name)]"

fun op_calls :: "accessors \<Rightarrow> conv_op \<Rightarrow> call list" where
  "op_calls w (On_Group g) = group_calls g"
| "op_calls w (On_Desc d x) = desc_calls w d x"
| "op_calls w (On_Table t x) = table_calls w t x"
| "op_calls w (On_List l x) = list_calls w l x"
| "op_calls w _ = []"

definition table_sel :: "table_pos \<Rightarrow> group_call" where
  "table_sel p = Select_Table (fst p) (snd p)"

definition desc_sel :: "accessors \<Rightarrow> spec \<Rightarrow> group_call" where
  "desc_sel w s = Select_Descriptor (snd (spec_at w s))"

definition list_sel :: "accessors \<Rightarrow> link_view \<Rightarrow> group_call" where
  "list_sel w l = (case snd (list_at w l) of (c, r, x) \<Rightarrow> Select_Link_List c r x)"

fun op_needs :: "accessors \<Rightarrow> conv_op \<Rightarrow> selection" where
  "op_needs w (On_Desc d x) =
     (Some (table_sel (table_at w (root_table d))), Some (desc_sel w (desc_spec d)), None)"
| "op_needs w (On_Table t x) = (Some (table_sel (table_at w t)), None, None)"
| "op_needs w (On_List l x) = (Some (table_sel (fst (list_at w l))), None, Some (list_sel w l))"
| "op_needs w _ = (None, None, None)"

definition op_entries :: "accessors \<Rightarrow> conv_op \<Rightarrow> (selection \<times> call) list" where
  "op_entries w op = map (\<lambda>c. (op_needs w op, decoded c)) (op_calls w op)"

definition session_entries :: "(accessors \<times> conv_op) list \<Rightarrow> (selection \<times> call) list" where
  "session_entries ops = concat (map (\<lambda>(w, op). op_entries w op) ops)"

subsection \<open>Sessions\<close>

text \<open>The positions of the objects a method is called on are consistent and not too deep for
  the parser, and the arguments are those the encoder asserts. \<open>set_link_type\<close> is left out: it
  is treated on its own below.\<close>

definition pos_ok :: "table_pos \<Rightarrow> bool" where
  "pos_ok p \<longleftrightarrow> int (length (snd p)) \<le> max_levels"

definition desc_ok :: "accessors \<Rightarrow> descriptor \<Rightarrow> bool" where
  "desc_ok w d \<longleftrightarrow> fst (spec_at w (desc_spec d)) = table_at w (root_table d) \<and>
     pos_ok (table_at w (root_table d)) \<and> int (length (snd (spec_at w (desc_spec d)))) \<le> max_levels"

definition values_ok :: "int64 list \<Rightarrow> bool" where
  "values_ok vs \<longleftrightarrow> list_all (\<lambda>v. 0 \<le> sint v) vs \<and> length vs < 2 ^ 64"

fun op_ok :: "accessors \<Rightarrow> conv_op \<Rightarrow> bool" where
  "op_ok w (On_Group g) \<longleftrightarrow> list_all valid_call (group_calls g)"
| "op_ok w (On_Desc d x) \<longleftrightarrow> list_all valid_call (desc_calls w d x) \<and> desc_ok w d"
| "op_ok w (On_Table t (T_Set_Link_Type a b)) \<longleftrightarrow> False"
| "op_ok w (On_Table t x) \<longleftrightarrow> list_all valid_call (table_calls w t x) \<and> pos_ok (table_at w t)"
| "op_ok w (On_List l (L_Set_Link_List vs)) \<longleftrightarrow> values_ok vs \<and> pos_ok (fst (list_at w l))"
| "op_ok w (On_List l x) \<longleftrightarrow> pos_ok (fst (list_at w l))"
| "op_ok w _ \<longleftrightarrow> True"

text \<open>An object keeps its position over a change that is made through it: changing the rows of
  a table moves the subtables and link lists in it, changing its columns moves its
  subdescriptors and other link lists, changing the group moves everything, but a method
  never moves the object it is called on. When an object is destroyed its address may be used
  for another.\<close>

definition keeps_table :: "accessors \<Rightarrow> accessors \<Rightarrow> table_pos \<Rightarrow> bool" where
  "keeps_table w w' p \<longleftrightarrow> (\<forall>x. table_at w x = p \<longrightarrow> table_at w' x = p)"

definition same_positions :: "accessors \<Rightarrow> accessors \<Rightarrow> bool" where
  "same_positions w w' \<longleftrightarrow> table_at w' = table_at w \<and> spec_at w' = spec_at w \<and> list_at w' = list_at w"

fun keeps :: "accessors \<Rightarrow> conv_op \<Rightarrow> accessors \<Rightarrow> bool" where
  "keeps w (On_Desc d x) w' \<longleftrightarrow>
     keeps_table w w' (table_at w (root_table d)) \<and> spec_at w' (desc_spec d) = spec_at w (desc_spec d)"
| "keeps w (On_Table t x) w' \<longleftrightarrow>
     (if table_calls w t x = [] then same_positions w w' else keeps_table w w' (table_at w t))"
| "keeps w (On_List l x) w' \<longleftrightarrow>
     keeps_table w w' (fst (list_at w l)) \<and> list_at w' l = list_at w l"
| "keeps w (Table_Destroyed t) w' \<longleftrightarrow> (\<forall>x. x \<noteq> t \<longrightarrow> table_at w' x = table_at w x) \<and>
     spec_at w' = spec_at w \<and> list_at w' = list_at w"
| "keeps w (Spec_Destroyed s) w' \<longleftrightarrow> (\<forall>x. x \<noteq> s \<longrightarrow> spec_at w' x = spec_at w x) \<and>
     table_at w' = table_at w \<and> list_at w' = list_at w"
| "keeps w (List_Destroyed l) w' \<longleftrightarrow> (\<forall>x. x \<noteq> l \<longrightarrow> list_at w' x = list_at w x) \<and>
     table_at w' = table_at w \<and> spec_at w' = spec_at w"
| "keeps w _ w' \<longleftrightarrow> True"

fun session_ok :: "(accessors \<times> conv_op) list \<Rightarrow> bool" where
  "session_ok [] \<longleftrightarrow> True"
| "session_ok ((w, op) # ops) \<longleftrightarrow> op_ok w op \<and>
     (case ops of [] \<Rightarrow> True | (w', op') # _ \<Rightarrow> keeps w op w') \<and> session_ok ops"

subsection \<open>The functions that are not in the repository\<close>

text \<open>\<open>wrote\<close>: the bytes added to the buffer are read as the calls.\<close>

definition wrote :: "encoder \<Rightarrow> encoder \<Rightarrow> call list \<Rightarrow> bool" where
  "wrote e e' cs \<longleftrightarrow> (\<exists>bss css. written e' = written e @ concat bss \<and> concat css = cs \<and>
     list_all2 (\<lambda>bs cs. bs \<noteq> [] \<and> reads parse_one cs bs) bss css)"

text \<open>The table of a descriptor or a link list is selected on the way, unless it is selected
  already.\<close>

definition table_part :: "accessors \<Rightarrow> table_pos \<Rightarrow> conv_encoder \<Rightarrow> call list \<Rightarrow> bool" where
  "table_part w p c cs \<longleftrightarrow> cs = [Group (table_sel p)] \<or>
     cs = [] \<and> (\<exists>x. m_selected_table c = Some x \<and> table_at w x = p)"

definition selector_ok :: "selector \<Rightarrow> bool" where
  "selector_ok sel \<longleftrightarrow> (\<forall>w c.
     (\<forall>t. pos_ok (table_at w t) \<longrightarrow> (\<exists>c'. do_select_table sel w t c = Some c' \<and>
        wrote (m_encoder c) (m_encoder c') [Group (table_sel (table_at w t))] \<and>
        m_selected_table c' = Some t)) \<and>
     (\<forall>d. desc_ok w d \<longrightarrow> (\<exists>c' cs. do_select_desc sel w d c = Some c' \<and>
        table_part w (table_at w (root_table d)) c cs \<and>
        wrote (m_encoder c) (m_encoder c') (cs @ [Group (desc_sel w (desc_spec d))]) \<and>
        m_selected_spec c' = Some (desc_spec d) \<and>
        m_selected_table c' = Some (root_table d))) \<and>
     (\<forall>l. pos_ok (fst (list_at w l)) \<longrightarrow> (\<exists>c' cs. do_select_link_list sel w l c = Some c' \<and>
        table_part w (fst (list_at w l)) c cs \<and>
        wrote (m_encoder c) (m_encoder c') (cs @ [Group (list_sel w l)]) \<and>
        m_selected_link_list c' = Some l \<and>
        (\<forall>x. m_selected_table c' = Some x \<longrightarrow> table_at w x = fst (list_at w l)))))"

lemma wrote_refl: "written e' = written e \<Longrightarrow> wrote e e' []"
  unfolding wrote_def by (intro exI [of _ "[]"]) simp

lemma wrote_trans:
  assumes "wrote e1 e2 cs" and "wrote e2 e3 ds"
  shows "wrote e1 e3 (cs @ ds)"
proof -
  obtain bss css where "written e2 = written e1 @ concat bss" "concat css = cs"
    "list_all2 (\<lambda>bs cs. bs \<noteq> [] \<and> reads parse_one cs bs) bss css"
    using assms(1) unfolding wrote_def by blast
  moreover obtain bss' css' where "written e3 = written e2 @ concat bss'" "concat css' = ds"
    "list_all2 (\<lambda>bs cs. bs \<noteq> [] \<and> reads parse_one cs bs) bss' css'"
    using assms(2) unfolding wrote_def by blast
  ultimately show ?thesis unfolding wrote_def
    by (intro exI [of _ "bss @ bss'"] exI [of _ "css @ css'"]) (simp add: list_all2_appendI)
qed

lemma wrote_roundtrips:
  assumes "roundtrips f cs"
  shows "\<exists>e'. f e = Some e' \<and> wrote e e' cs"
proof -
  obtain bs where "emits f bs" "bs \<noteq> []" "reads parse_one cs bs"
    using assms unfolding roundtrips_def by blast
  moreover from \<open>emits f bs\<close> obtain e' where "f e = Some e'" "written e' = written e @ bs"
    unfolding emits_def by blast
  ultimately show ?thesis unfolding wrote_def
    by (intro exI [of _ e']) (auto intro!: exI [of _ "[bs]"] exI [of _ "[cs]"])
qed

lemma wrote_parse:
  assumes "wrote e e' cs" and "written e = []" and "input_ok st" and "flat_input st = written e'"
  shows "parse handler st s = deliver handler cs s"
proof -
  obtain bss css where w: "written e' = concat bss" "concat css = cs"
    "list_all2 (\<lambda>bs cs. bs \<noteq> [] \<and> reads parse_one cs bs) bss css"
    using assms(1,2) unfolding wrote_def by auto
  from parse_roundtrip [OF w(3) assms(3)] assms(4) w(1,2) show ?thesis by simp
qed

subsection \<open>The caches and the selection of the reader\<close>

fun cache_ok :: "accessors \<Rightarrow> conv_encoder \<Rightarrow> selection \<Rightarrow> bool" where
  "cache_ok w c (t, d, l) \<longleftrightarrow>
     (\<forall>x. m_selected_table c = Some x \<longrightarrow> t = Some (table_sel (table_at w x))) \<and>
     (\<forall>s. m_selected_spec c = Some s \<longrightarrow>
        t = Some (table_sel (fst (spec_at w s))) \<and> d = Some (desc_sel w s)) \<and>
     (\<forall>x. m_selected_link_list c = Some x \<longrightarrow>
        t = Some (table_sel (fst (list_at w x))) \<and> l = Some (list_sel w x))"

definition reaches ::
  "accessors \<Rightarrow> selection \<Rightarrow> selection \<Rightarrow> conv_encoder \<Rightarrow> conv_encoder \<Rightarrow> call list \<Rightarrow> bool" where
  "reaches w n s c c' cs \<longleftrightarrow> wrote (m_encoder c) (m_encoder c') cs \<and> restores cs s n \<and>
     list_all valid_call cs \<and> cache_ok w c' (fold select cs s)"

lemma table_sel_eq [simp]: "table_sel p = table_sel q \<longleftrightarrow> p = q"
  by (simp add: table_sel_def prod_eq_iff)

lemma table_part_cases:
  assumes "table_part w p c cs" and "cache_ok w c (t, d, l)" and "pos_ok p"
  obtains d' l' where "fold select cs (t, d, l) = (Some (table_sel p), d', l')"
    and "well_selected (t, d, l) cs" and "trace (t, d, l) cs = []" and "list_all valid_call cs"
  using assms by (auto simp: table_part_def table_sel_def pos_ok_def)

lemma list_sel_cases: obtains c r x where "list_sel w l = Select_Link_List c r x"
  by (cases "snd (list_at w l)") (simp add: list_sel_def)

lemma select_table_reaches:
  assumes "selector_ok sel" and "cache_ok w c s" and "pos_ok (table_at w t)"
  shows "\<exists>c' cs. select_table sel w t c = Some c' \<and>
    reaches w (Some (table_sel (table_at w t)), None, None) s c c' cs \<and>
    m_selected_table c' = Some t \<and> m_selected_spec c' = None \<and> m_selected_link_list c' = None"
proof (cases "m_selected_table c = Some t")
  case True
  with assms(2) show ?thesis
    by (cases s; intro exI [of _ "c\<lparr>m_selected_spec := None, m_selected_link_list := None\<rparr>"]
        exI [of _ "[]"]) (auto simp: select_table_def reaches_def restores_def intro: wrote_refl)
next
  case False
  have "\<exists>c'. do_select_table sel w t c = Some c' \<and>
      wrote (m_encoder c) (m_encoder c') [Group (table_sel (table_at w t))] \<and>
      m_selected_table c' = Some t"
    using assms(1,3) unfolding selector_ok_def by (elim allE [of _ w] allE [of _ c]) simp
  then obtain c' where c': "do_select_table sel w t c = Some c'"
    "wrote (m_encoder c) (m_encoder c') [Group (table_sel (table_at w t))]"
    "m_selected_table c' = Some t" by blast
  with False assms(3) show ?thesis
    by (intro exI [of _ "c'\<lparr>m_selected_spec := None, m_selected_link_list := None\<rparr>"]
        exI [of _ "[Group (table_sel (table_at w t))]"])
      (simp add: select_table_def reaches_def restores_def table_sel_def pos_ok_def)
qed

lemma select_desc_reaches:
  assumes "selector_ok sel" and "cache_ok w c s" and "desc_ok w d"
  shows "\<exists>c' cs. select_desc sel w d c = Some c' \<and>
    reaches w (Some (table_sel (table_at w (root_table d))), Some (desc_sel w (desc_spec d)), None)
      s c c' cs \<and>
    (\<forall>x. m_selected_table c' = Some x \<longrightarrow> table_at w x = table_at w (root_table d)) \<and>
    (m_selected_spec c \<noteq> Some (desc_spec d) \<longrightarrow> m_selected_table c' = Some (root_table d)) \<and>
    m_selected_spec c' = Some (desc_spec d) \<and> m_selected_link_list c' = None"
proof -
  obtain t e l where s: "s = (t, e, l)" by (rule prod_cases3)
  have p: "pos_ok (table_at w (root_table d))" using assms(3) by (simp add: desc_ok_def)
  show ?thesis
  proof (cases "m_selected_spec c = Some (desc_spec d)")
    case True
    with assms(2,3) s show ?thesis
      by (intro exI [of _ "c\<lparr>m_selected_link_list := None\<rparr>"] exI [of _ "[]"])
        (auto simp: select_desc_def reaches_def restores_def desc_ok_def intro: wrote_refl)
  next
    case False
    have "\<exists>c' cs. do_select_desc sel w d c = Some c' \<and>
        table_part w (table_at w (root_table d)) c cs \<and>
        wrote (m_encoder c) (m_encoder c') (cs @ [Group (desc_sel w (desc_spec d))]) \<and>
        m_selected_spec c' = Some (desc_spec d) \<and> m_selected_table c' = Some (root_table d)"
      using assms(1,3) unfolding selector_ok_def by (elim allE [of _ w] allE [of _ c]) simp
    then obtain c' cs where c': "do_select_desc sel w d c = Some c'"
      "table_part w (table_at w (root_table d)) c cs"
      "wrote (m_encoder c) (m_encoder c') (cs @ [Group (desc_sel w (desc_spec d))])"
      "m_selected_spec c' = Some (desc_spec d)" "m_selected_table c' = Some (root_table d)"
      by blast
    obtain d' l' where "fold select cs (t, e, l) = (Some (table_sel (table_at w (root_table d))), d', l')"
      "well_selected (t, e, l) cs" "trace (t, e, l) cs = []" "list_all valid_call cs"
      using table_part_cases [OF c'(2) assms(2) [unfolded s] p] by blast
    with False c' assms(3) s show ?thesis
      by (intro exI [of _ "c'\<lparr>m_selected_link_list := None\<rparr>"]
          exI [of _ "cs @ [Group (desc_sel w (desc_spec d))]"])
        (simp add: select_desc_def reaches_def restores_def well_selected_append trace_append
          desc_sel_def desc_ok_def)
  qed
qed

lemma select_link_list_reaches:
  assumes "selector_ok sel" and "cache_ok w c s" and "pos_ok (fst (list_at w l))"
  shows "\<exists>c' cs. select_link_list sel w l c = Some c' \<and>
    reaches w (Some (table_sel (fst (list_at w l))), None, Some (list_sel w l)) s c c' cs \<and>
    (\<forall>x. m_selected_table c' = Some x \<longrightarrow> table_at w x = fst (list_at w l)) \<and>
    m_selected_spec c' = None \<and> m_selected_link_list c' = Some l"
proof -
  obtain t e k where s: "s = (t, e, k)" by (rule prod_cases3)
  show ?thesis
  proof (cases "m_selected_link_list c = Some l")
    case True
    with assms(2) s show ?thesis
      by (intro exI [of _ "c\<lparr>m_selected_spec := None\<rparr>"] exI [of _ "[]"])
        (auto simp: select_link_list_def reaches_def restores_def intro: wrote_refl)
  next
    case False
    have "\<exists>c' cs. do_select_link_list sel w l c = Some c' \<and>
        table_part w (fst (list_at w l)) c cs \<and>
        wrote (m_encoder c) (m_encoder c') (cs @ [Group (list_sel w l)]) \<and>
        m_selected_link_list c' = Some l \<and>
        (\<forall>x. m_selected_table c' = Some x \<longrightarrow> table_at w x = fst (list_at w l))"
      using assms(1,3) unfolding selector_ok_def by (elim allE [of _ w] allE [of _ c]) simp
    then obtain c' cs where c': "do_select_link_list sel w l c = Some c'"
      "table_part w (fst (list_at w l)) c cs"
      "wrote (m_encoder c) (m_encoder c') (cs @ [Group (list_sel w l)])"
      "m_selected_link_list c' = Some l"
      "\<forall>x. m_selected_table c' = Some x \<longrightarrow> table_at w x = fst (list_at w l)" by blast
    obtain d' l' where "fold select cs (t, e, k) = (Some (table_sel (fst (list_at w l))), d', l')"
      "well_selected (t, e, k) cs" "trace (t, e, k) cs = []" "list_all valid_call cs"
      using table_part_cases [OF c'(2) assms(2) [unfolded s] assms(3)] by blast
    with False c' s show ?thesis
      by (intro exI [of _ "c'\<lparr>m_selected_spec := None\<rparr>"]
          exI [of _ "cs @ [Group (list_sel w l)]"], cases rule: list_sel_cases [of w l])
        (simp add: select_link_list_def reaches_def restores_def well_selected_append trace_append)
  qed
qed

subsection \<open>Methods\<close>

lemmas conv_defs = conv_insert_group_level_table_def conv_erase_group_level_table_def
  conv_rename_group_level_table_def conv_insert_column_def conv_erase_column_def
  conv_rename_column_def conv_add_search_index_def conv_remove_search_index_def conv_set_int_def
  conv_add_int_def conv_set_bool_def conv_set_float_def conv_set_double_def conv_set_string_def
  conv_set_binary_def conv_set_olddatetime_def conv_set_timestamp_def conv_set_table_def
  conv_set_mixed_def conv_set_link_def conv_set_null_def conv_nullify_link_def
  conv_insert_substring_def conv_erase_substring_def conv_insert_empty_rows_def
  conv_add_row_with_key_def conv_erase_rows_def conv_swap_rows_def conv_move_row_def
  conv_merge_rows_def conv_set_link_type_def conv_clear_table_def conv_optimize_table_def
  conv_link_list_set_def conv_link_list_nullify_def conv_set_link_list_def
  conv_link_list_insert_def conv_link_list_move_def conv_link_list_swap_def
  conv_link_list_erase_def

lemma run_group_op_eq:
  "run_group_op g c = put_call (the (encode_call (hd (group_calls g)))) (unselect_all c)"
  by (cases g) (simp_all add: conv_defs)

lemma run_desc_op_eq:
  "run_desc_op sel w d x c = do {
     c \<leftarrow> select_desc sel w d c; put_call (the (encode_call (hd (desc_calls w d x)))) c }"
proof (cases x)
  case (D_Insert_Column a ty name link b)
  then show ?thesis by (cases link) (simp_all add: conv_defs Let_def)
qed (simp_all add: conv_defs Let_def)

lemma run_table_op_eq:
  "run_table_op sel w t x c =
     (if table_calls w t x = [] then Some c
      else do { c \<leftarrow> select_table sel w t c; put_call (the (encode_call (hd (table_calls w t x)))) c })"
  by (cases x) (simp_all add: conv_defs Let_def word_gt_0)

fun list_writer :: "accessors \<Rightarrow> link_view \<Rightarrow> link_op \<Rightarrow> encoder \<Rightarrow> encoder option" where
  "list_writer w l (L_Set_Link_List vs) = enc_link_list_set_all vs"
| "list_writer w l x = the (encode_call (hd (list_calls w l x)))"

lemma run_link_op_eq:
  "run_link_op sel w l x c = do { c \<leftarrow> select_link_list sel w l c; put_call (list_writer w l x) c }"
  by (cases x) (simp_all add: conv_defs Let_def)

lemmas run_op_eqs = run_group_op_eq run_desc_op_eq run_table_op_eq run_link_op_eq

text \<open>What is written by the methods is read back as the calls they stand for.\<close>

lemma roundtrips_hd:
  assumes "list_all valid_call cs" and "length cs = 1" and "list_all (\<lambda>c. encode_call c \<noteq> None) cs"
  shows "roundtrips (the (encode_call (hd cs))) (map decoded cs)"
  using assms roundtrips_call [of "hd cs"] by (cases cs) auto

lemma group_calls_write:
  "list_all valid_call (group_calls g) \<Longrightarrow>
   roundtrips (the (encode_call (hd (group_calls g)))) (map decoded (group_calls g))"
  by (rule roundtrips_hd; cases g) simp_all

lemma desc_calls_write:
  assumes "list_all valid_call (desc_calls w d x)"
  shows "roundtrips (the (encode_call (hd (desc_calls w d x)))) (map decoded (desc_calls w d x))"
proof (cases x)
  case (D_Insert_Column a ty name link b)
  show ?thesis
    by (rule roundtrips_hd [OF assms]; cases link) (simp_all add: D_Insert_Column)
next
  case (D_Erase_Column a)
  show ?thesis
    by (rule roundtrips_hd [OF assms]; simp add: D_Erase_Column Let_def)
qed (rule roundtrips_hd [OF assms]; simp)+

lemma table_calls_write:
  assumes "list_all valid_call (table_calls w t x)" and "table_calls w t x \<noteq> []"
  shows "roundtrips (the (encode_call (hd (table_calls w t x)))) (map decoded (table_calls w t x))"
  by (rule roundtrips_hd [OF assms(1)]; insert assms(2); cases x) (simp_all split: if_splits)

lemma list_calls_write:
  assumes "op_ok w (On_List l x)"
  shows "roundtrips (list_writer w l x) (map decoded (list_calls w l x))"
proof (cases x)
  case (L_Set_Link_List vs)
  have "decoded \<circ> Links = Links" by auto
  then show ?thesis using assms roundtrips_set_all [of vs] L_Set_Link_List
    by (simp add: values_ok_def list_all_iff)
qed (use roundtrips_hd [of "list_calls w l x"] in simp_all)

text \<open>Calls that need exactly the selection \<open>n\<close> and leave it alone.\<close>

definition runs_under :: "selection \<Rightarrow> call list \<Rightarrow> bool" where
  "runs_under n cs \<longleftrightarrow>
     (\<forall>x\<in>set cs. \<not> is_sel x \<and> (\<forall>s. select x s = s) \<and> selected x n \<and> needs x n = n)"

lemma runs_under_trace:
  assumes "runs_under n ds" and "sel_le n s"
  shows "trace s ds = map (Pair n) ds \<and> well_selected s ds \<and> fold select ds s = s"
  using assms(1)
proof (induction ds)
  case (Cons x ds)
  then have x: "\<not> is_sel x" "select x s = s" "selected x n" "needs x n = n"
    and "runs_under n ds" by (simp_all add: runs_under_def del: split_paired_All)
  with Cons.IH assms(2) selected_mono [of n s x] needs_mono [of n s x] show ?case
    by (simp add: trace_Cons del: trace.simps)
qed simp

lemma runs_under_Column: "runs_under (Some t, Some d, None) (map Column cs)"
  and runs_under_Links: "runs_under (Some t, None, Some l) (map Links ls)"
  by (auto simp: runs_under_def is_sel_def)

definition table_call :: "call \<Rightarrow> bool" where
  "table_call x \<longleftrightarrow> (case x of Field _ \<Rightarrow> True | Edit _ \<Rightarrow> True | Rows _ \<Rightarrow> True | _ \<Rightarrow> False)"

lemma table_call_runs:
  "table_call x \<Longrightarrow> \<not> is_sel x \<and> (\<forall>s. select x s = s) \<and>
     selected x (Some t, None, None) \<and> needs x (Some t, None, None) = (Some t, None, None)"
  by (cases x) (auto simp: is_sel_def table_call_def)

lemma runs_under_table: "list_all table_call cs \<Longrightarrow> runs_under (Some t, None, None) cs"
  unfolding runs_under_def list_all_iff by (blast dest: table_call_runs)

lemma table_calls_kind:
  "op_ok w (On_Table t x) \<Longrightarrow> list_all table_call (map decoded (table_calls w t x))"
  by (cases x) (simp_all add: table_call_def)

lemma desc_calls_kind: "\<exists>cs. map decoded (desc_calls w d x) = map Column cs"
proof (cases x)
  case (D_Insert_Column a ty name link b)
  then show ?thesis by (cases link) (auto simp: Cons_eq_map_conv)
qed (auto simp: Cons_eq_map_conv Let_def)

lemma list_calls_kind: "\<exists>cs. map decoded (list_calls w l x) = map Links cs"
proof (cases x)
  case (L_Set_Link_List vs)
  have "decoded \<circ> Links = Links" by auto
  then show ?thesis using L_Set_Link_List by auto
qed (auto simp: Cons_eq_map_conv)

subsection \<open>A step\<close>

lemma put_call_wrote:
  assumes "roundtrips f cs"
  shows "\<exists>c'. put_call f c = Some c' \<and> wrote (m_encoder c) (m_encoder c') cs \<and>
    (\<forall>w. cache_ok w c' = cache_ok w c) \<and> m_selected_table c' = m_selected_table c \<and>
    m_selected_spec c' = m_selected_spec c \<and> m_selected_link_list c' = m_selected_link_list c"
proof -
  obtain e' where "f (m_encoder c) = Some e'" "wrote (m_encoder c) e' cs"
    using wrote_roundtrips [OF assms] by blast
  then show ?thesis
    by (intro exI [of _ "c\<lparr>m_encoder := e'\<rparr>"]) (simp add: put_call_def fun_eq_iff)
qed

lemma valid_decoded: "valid_call c \<Longrightarrow> valid_call (decoded c)"
proof (cases c)
  case (Field f)
  then show "valid_call c \<Longrightarrow> valid_call (decoded c)"
    by (cases f rule: decoded_field.cases) auto
qed simp_all

definition stepped :: "accessors \<Rightarrow> (selection \<times> call) list \<Rightarrow> selection \<Rightarrow> conv_encoder \<Rightarrow>
    conv_encoder \<Rightarrow> call list \<Rightarrow> bool" where
  "stepped w es s c c' cs \<longleftrightarrow> wrote (m_encoder c) (m_encoder c') cs \<and> trace s cs = es \<and>
     well_selected s cs \<and> list_all valid_call cs \<and> cache_ok w c' (fold select cs s)"

lemma write_under:
  assumes "reaches w n s c c1 cs" and "roundtrips f (map decoded ds)"
    and "runs_under n (map decoded ds)" and "list_all valid_call ds"
  shows "\<exists>c2. put_call f c1 = Some c2 \<and>
    stepped w (map (\<lambda>c. (n, decoded c)) ds) s c c2 (cs @ map decoded ds) \<and>
    m_selected_table c2 = m_selected_table c1 \<and> m_selected_spec c2 = m_selected_spec c1 \<and>
    m_selected_link_list c2 = m_selected_link_list c1"
proof -
  obtain c2 where c2: "put_call f c1 = Some c2" "wrote (m_encoder c1) (m_encoder c2) (map decoded ds)"
    "cache_ok w c2 = cache_ok w c1" "m_selected_table c2 = m_selected_table c1"
    "m_selected_spec c2 = m_selected_spec c1" "m_selected_link_list c2 = m_selected_link_list c1"
    using put_call_wrote [OF assms(2), of c1] by blast
  have r: "wrote (m_encoder c) (m_encoder c1) cs" "trace s cs = []" "well_selected s cs"
    "sel_le n (fold select cs s)" "list_all valid_call cs" "cache_ok w c1 (fold select cs s)"
    using assms(1) by (simp_all add: reaches_def restores_def)
  have "list_all valid_call (map decoded ds)"
    using assms(4) valid_decoded by (auto simp: list_all_iff)
  with c2 r wrote_trans [OF r(1) c2(2)] runs_under_trace [OF assms(3) r(4)] show ?thesis
    by (intro exI [of _ c2]) (simp add: stepped_def trace_append well_selected_append o_def)
qed

lemma group_step:
  assumes "op_ok w (On_Group g)"
  shows "\<exists>c' cs. run_group_op g c = Some c' \<and>
    (\<forall>w'. stepped w' (op_entries w (On_Group g)) s c c' cs)"
proof -
  from put_call_wrote [OF group_calls_write [of g], of "unselect_all c"] assms obtain c' where
    c': "put_call (the (encode_call (hd (group_calls g)))) (unselect_all c) = Some c'"
    "wrote (m_encoder (unselect_all c)) (m_encoder c') (map decoded (group_calls g))"
    "\<forall>w'. cache_ok w' c' = cache_ok w' (unselect_all c)" by auto
  have "list_all valid_call (map decoded (group_calls g))"
    using assms valid_decoded by (auto simp: list_all_iff)
  moreover have "cache_ok w' (unselect_all c) x" for x w' by (cases x) (simp add: unselect_all_def)
  moreover have "trace s (map decoded (group_calls g)) = op_entries w (On_Group g)"
    "well_selected s (map decoded (group_calls g))"
    by (cases g; simp add: op_entries_def)+
  ultimately show ?thesis using c'
    by (intro exI [of _ c'] exI [of _ "map decoded (group_calls g)"])
      (simp add: run_group_op_eq stepped_def unselect_all_def)
qed

text \<open>After the step the caches are right for the next one.\<close>

definition next_ok :: "accessors \<Rightarrow> conv_encoder \<Rightarrow> selection \<Rightarrow> conv_op \<Rightarrow> bool" where
  "next_ok w c s op \<longleftrightarrow> (\<forall>w'. keeps w op w' \<longrightarrow> cache_ok w' c s)"

lemma cache_ok_keeps:
  assumes "cache_ok w c s"
    and "\<forall>x. m_selected_table c = Some x \<longrightarrow> table_at w' x = table_at w x"
    and "\<forall>x. m_selected_spec c = Some x \<longrightarrow> spec_at w' x = spec_at w x"
    and "\<forall>x. m_selected_link_list c = Some x \<longrightarrow> list_at w' x = list_at w x"
  shows "cache_ok w' c s"
  using assms by (cases s) (simp add: desc_sel_def list_sel_def)

lemma table_step:
  assumes "selector_ok sel" and "op_ok w (On_Table t x)" and "cache_ok w c s"
  shows "\<exists>c' cs. run_table_op sel w t x c = Some c' \<and>
    stepped w (op_entries w (On_Table t x)) s c c' cs \<and>
    next_ok w c' (fold select cs s) (On_Table t x)"
proof (cases "table_calls w t x = []")
  case True
  have "next_ok w c s (On_Table t x)" unfolding next_ok_def
    using True cache_ok_keeps [OF assms(3)] by (simp add: same_positions_def)
  with True assms(3) show ?thesis
    by (intro exI [of _ c] exI [of _ "[]"])
      (simp add: run_table_op_eq stepped_def op_entries_def wrote_refl)
next
  case False
  have ok: "pos_ok (table_at w t)" "list_all valid_call (table_calls w t x)"
    using assms(2) by (cases x; simp)+
  obtain c1 cs where c1: "select_table sel w t c = Some c1"
    "reaches w (Some (table_sel (table_at w t)), None, None) s c c1 cs"
    "m_selected_table c1 = Some t" "m_selected_spec c1 = None" "m_selected_link_list c1 = None"
    using select_table_reaches [OF assms(1,3) ok(1)] by blast
  obtain c2 where c2: "put_call (the (encode_call (hd (table_calls w t x)))) c1 = Some c2"
    "stepped w (op_entries w (On_Table t x)) s c c2 (cs @ map decoded (table_calls w t x))"
    "m_selected_table c2 = Some t" "m_selected_spec c2 = None" "m_selected_link_list c2 = None"
    using write_under [OF c1(2) table_calls_write [OF ok(2) False]
        runs_under_table [OF table_calls_kind [OF assms(2)]] ok(2)] c1(3-5)
    by (auto simp: op_entries_def)
  have "next_ok w c2 (fold select (cs @ map decoded (table_calls w t x)) s) (On_Table t x)"
    unfolding next_ok_def
    by (intro allI impI, rule cache_ok_keeps [of w])
      (use c2 False in \<open>simp_all add: stepped_def keeps_table_def\<close>)
  with c1(1) c2(1,2) False show ?thesis
    by (intro exI [of _ c2] exI [of _ "cs @ map decoded (table_calls w t x)"])
      (simp add: run_table_op_eq)
qed

lemma desc_step:
  assumes "selector_ok sel" and "op_ok w (On_Desc d x)" and "cache_ok w c s"
  shows "\<exists>c' cs. run_desc_op sel w d x c = Some c' \<and>
    stepped w (op_entries w (On_Desc d x)) s c c' cs \<and>
    next_ok w c' (fold select cs s) (On_Desc d x)"
proof -
  have ok: "desc_ok w d" "list_all valid_call (desc_calls w d x)" using assms(2) by simp_all
  obtain c1 cs where c1: "select_desc sel w d c = Some c1"
    "reaches w (Some (table_sel (table_at w (root_table d))), Some (desc_sel w (desc_spec d)), None)
      s c c1 cs"
    "\<forall>x. m_selected_table c1 = Some x \<longrightarrow> table_at w x = table_at w (root_table d)"
    "m_selected_spec c1 = Some (desc_spec d)" "m_selected_link_list c1 = None"
    using select_desc_reaches [OF assms(1,3) ok(1)] by blast
  obtain xs where xs: "map decoded (desc_calls w d x) = map Column xs"
    using desc_calls_kind by blast
  obtain c2 where c2: "put_call (the (encode_call (hd (desc_calls w d x)))) c1 = Some c2"
    "stepped w (op_entries w (On_Desc d x)) s c c2 (cs @ map decoded (desc_calls w d x))"
    "m_selected_table c2 = m_selected_table c1" "m_selected_spec c2 = Some (desc_spec d)"
    "m_selected_link_list c2 = None"
    using write_under [OF c1(2) desc_calls_write [OF ok(2)] _ ok(2)] c1(4,5)
      runs_under_Column [of _ _ xs] xs by (auto simp: op_entries_def)
  have "next_ok w c2 (fold select (cs @ map decoded (desc_calls w d x)) s) (On_Desc d x)"
    unfolding next_ok_def
    by (intro allI impI, rule cache_ok_keeps [of w])
      (use c2 c1(3) in \<open>simp_all add: stepped_def keeps_table_def\<close>)
  with c1(1) c2(1,2) show ?thesis
    by (intro exI [of _ c2] exI [of _ "cs @ map decoded (desc_calls w d x)"])
      (simp add: run_desc_op_eq)
qed

lemma list_step:
  assumes "selector_ok sel" and "op_ok w (On_List l x)" and "cache_ok w c s"
  shows "\<exists>c' cs. run_link_op sel w l x c = Some c' \<and>
    stepped w (op_entries w (On_List l x)) s c c' cs \<and>
    next_ok w c' (fold select cs s) (On_List l x)"
proof -
  have ok: "pos_ok (fst (list_at w l))" using assms(2) by (cases x) simp_all
  have v: "list_all valid_call (list_calls w l x)"
    by (cases x) (simp_all add: list_all_iff)
  obtain c1 cs where c1: "select_link_list sel w l c = Some c1"
    "reaches w (Some (table_sel (fst (list_at w l))), None, Some (list_sel w l)) s c c1 cs"
    "\<forall>x. m_selected_table c1 = Some x \<longrightarrow> table_at w x = fst (list_at w l)"
    "m_selected_spec c1 = None" "m_selected_link_list c1 = Some l"
    using select_link_list_reaches [OF assms(1,3) ok] by blast
  obtain xs where xs: "map decoded (list_calls w l x) = map Links xs"
    using list_calls_kind by blast
  obtain c2 where c2: "put_call (list_writer w l x) c1 = Some c2"
    "stepped w (op_entries w (On_List l x)) s c c2 (cs @ map decoded (list_calls w l x))"
    "m_selected_table c2 = m_selected_table c1" "m_selected_spec c2 = None"
    "m_selected_link_list c2 = Some l"
    using write_under [OF c1(2) list_calls_write [OF assms(2)] _ v] c1(4,5)
      runs_under_Links [of _ _ xs] xs by (auto simp: op_entries_def)
  have "next_ok w c2 (fold select (cs @ map decoded (list_calls w l x)) s) (On_List l x)"
    unfolding next_ok_def
    by (intro allI impI, rule cache_ok_keeps [of w])
      (use c2 c1(3) in \<open>simp_all add: stepped_def keeps_table_def\<close>)
  with c1(1) c2(1,2) show ?thesis
    by (intro exI [of _ c2] exI [of _ "cs @ map decoded (list_calls w l x)"])
      (simp add: run_link_op_eq)
qed

text \<open>Destroying an object only clears caches.\<close>

definition clears :: "conv_encoder \<Rightarrow> conv_encoder \<Rightarrow> bool" where
  "clears c c' \<longleftrightarrow> m_encoder c' = m_encoder c \<and>
     m_selected_table c' \<in> {None, m_selected_table c} \<and> m_selected_spec c' \<in> {None, m_selected_spec c} \<and>
     m_selected_link_list c' \<in> {None, m_selected_link_list c}"

lemma clears_cache: "clears c c' \<Longrightarrow> cache_ok w c s \<Longrightarrow> cache_ok w c' s"
  by (cases s) (auto simp: clears_def)

lemma clears_step:
  assumes "clears c c'" and "cache_ok w c s" and "op_calls w op = []"
    and "\<And>w'. keeps w op w' \<Longrightarrow>
      (\<forall>x. m_selected_table c' = Some x \<longrightarrow> table_at w' x = table_at w x) \<and>
      (\<forall>x. m_selected_spec c' = Some x \<longrightarrow> spec_at w' x = spec_at w x) \<and>
      (\<forall>x. m_selected_link_list c' = Some x \<longrightarrow> list_at w' x = list_at w x)"
  shows "stepped w (op_entries w op) s c c' [] \<and> next_ok w c' s op"
proof -
  note cache = clears_cache [OF assms(1,2)]
  have "wrote (m_encoder c) (m_encoder c') []"
    using assms(1) by (auto simp: clears_def intro: wrote_refl)
  moreover have "next_ok w c' s op"
    unfolding next_ok_def using cache_ok_keeps [OF cache] assms(4) by blast
  ultimately show ?thesis using cache assms(3) by (simp add: stepped_def op_entries_def)
qed

lemmas destroyed_defs = on_table_destroyed_def on_spec_destroyed_def on_link_list_destroyed_def
  reset_selection_caches_def unselect_all_def

lemma event_clears:
  "clears c (on_table_destroyed t c)" "clears c (on_spec_destroyed sp c)"
  "clears c (on_link_list_destroyed l c)" "clears c (reset_selection_caches c)"
  by (simp_all add: clears_def destroyed_defs)

lemma event_step:
  assumes "op \<in> {Table_Destroyed t, Spec_Destroyed sp, List_Destroyed l, Reset_Caches}"
    and "cache_ok w c s"
  shows "\<exists>c'. run_op sel w op c = Some c' \<and> stepped w (op_entries w op) s c c' [] \<and>
    next_ok w c' s op"
proof -
  consider "op = Table_Destroyed t" | "op = Spec_Destroyed sp" | "op = List_Destroyed l"
    | "op = Reset_Caches" using assms(1) by auto
  then show ?thesis
  proof cases
    case 1
    have "stepped w (op_entries w op) s c (on_table_destroyed t c) [] \<and> next_ok w (on_table_destroyed t c) s op"
      by (rule clears_step [OF event_clears(1) assms(2)]) (use 1 in \<open>auto simp: destroyed_defs\<close>)
    with 1 show ?thesis by simp
  next
    case 2
    have "stepped w (op_entries w op) s c (on_spec_destroyed sp c) [] \<and> next_ok w (on_spec_destroyed sp c) s op"
      by (rule clears_step [OF event_clears(2) assms(2)]) (use 2 in \<open>auto simp: destroyed_defs\<close>)
    with 2 show ?thesis by simp
  next
    case 3
    have "stepped w (op_entries w op) s c (on_link_list_destroyed l c) [] \<and> next_ok w (on_link_list_destroyed l c) s op"
      by (rule clears_step [OF event_clears(3) assms(2)]) (use 3 in \<open>auto simp: destroyed_defs\<close>)
    with 3 show ?thesis by simp
  next
    case 4
    have "stepped w (op_entries w op) s c (reset_selection_caches c) [] \<and> next_ok w (reset_selection_caches c) s op"
      by (rule clears_step [OF event_clears(4) assms(2)]) (use 4 in \<open>auto simp: destroyed_defs\<close>)
    with 4 show ?thesis by simp
  qed
qed

lemma op_step:
  assumes "selector_ok sel" and "op_ok w op" and "cache_ok w c s"
  shows "\<exists>c' cs. run_op sel w op c = Some c' \<and> stepped w (op_entries w op) s c c' cs \<and>
    next_ok w c' (fold select cs s) op"
proof (cases op)
  case (On_Group g)
  with group_step [of w g c s] assms(2) show ?thesis by (auto simp: next_ok_def stepped_def)
next
  case (On_Desc d x)
  with desc_step [of sel w d x c s] assms show ?thesis by auto
next
  case (On_Table t x)
  with table_step [of sel w t x c s] assms show ?thesis by auto
next
  case (On_List l x)
  with list_step [of sel w l x c s] assms show ?thesis by auto
next
  case (Table_Destroyed t)
  with event_step [of op t _ _ w c s sel] assms(3) show ?thesis by (metis fold_simps(1) insertCI)
next
  case (Spec_Destroyed sp)
  with event_step [of op _ sp _ w c s sel] assms(3) show ?thesis by (metis fold_simps(1) insertCI)
next
  case (List_Destroyed l)
  with event_step [of op _ _ l w c s sel] assms(3) show ?thesis by (metis fold_simps(1) insertCI)
next
  case Reset_Caches
  with event_step [of op _ _ _ w c s sel] assms(3) show ?thesis by (metis fold_simps(1) insertCI)
qed

subsection \<open>A session\<close>

lemma session_run:
  assumes "selector_ok sel" and "session_ok ops"
    and "ops = [] \<or> cache_ok (fst (hd ops)) c s"
  shows "\<exists>c' cs. run_ops sel ops c = Some c' \<and> wrote (m_encoder c) (m_encoder c') cs \<and>
    trace s cs = session_entries ops \<and> well_selected s cs \<and> list_all valid_call cs"
  using assms(2,3)
proof (induction ops arbitrary: c s)
  case Nil
  then show ?case by (intro exI [of _ c] exI [of _ "[]"]) (simp add: session_entries_def wrote_refl)
next
  case (Cons p ops)
  obtain w op where p: "p = (w, op)" by (rule prod.exhaust)
  obtain c1 cs where c1: "run_op sel w op c = Some c1" "stepped w (op_entries w op) s c c1 cs"
    "next_ok w c1 (fold select cs s) op"
    using op_step [OF assms(1), of w op c s] Cons.prems p by auto
  have "ops = [] \<or> cache_ok (fst (hd ops)) c1 (fold select cs s)"
    using c1(3) Cons.prems(1) p by (cases ops) (auto simp: next_ok_def)
  from Cons.IH [OF _ this] Cons.prems(1) p obtain c2 ds where c2: "run_ops sel ops c1 = Some c2"
    "wrote (m_encoder c1) (m_encoder c2) ds" "trace (fold select cs s) ds = session_entries ops"
    "well_selected (fold select cs s) ds" "list_all valid_call ds" by auto
  from c1 c2 p wrote_trans [OF _ c2(2), of "m_encoder c" cs] show ?case
    by (intro exI [of _ c2] exI [of _ "cs @ ds"])
      (simp add: stepped_def trace_append well_selected_append session_entries_def)
qed

end
