(* ===== verification/Convenient_Props.thy ===== *)
theory Convenient_Props
  imports Convenient_Log Transact_Props
begin

section \<open>Properties of the log that the storage engine writes\<close>

text \<open>
  What the readers of a transaction log rely on when it was written through
  \<open>TransactLogConvenientEncoder\<close>: every instruction is read under the selection of the object
  that the method was called on, although most selections are never written, and a rollback
  undoes the methods in reverse order under the same selections. The three \<open>do_select\<close>
  functions are a parameter; \<open>sample_selector\<close> shows that what is assumed of them can hold.
\<close>

subsection \<open>A selector\<close>

definition put_sel :: "group_call \<Rightarrow> conv_encoder \<Rightarrow> conv_encoder option" where
  "put_sel g c = put_call (sample_select g) c"

definition sample_do_table :: "accessors \<Rightarrow> table \<Rightarrow> conv_encoder \<Rightarrow> conv_encoder option" where
  "sample_do_table w t c = do {
     c \<leftarrow> put_sel (table_sel (table_at w t)) c; Some (c\<lparr>m_selected_table := Some t\<rparr>) }"

definition sample_selector :: selector where
  "sample_selector = \<lparr>
     do_select_table = sample_do_table,
     do_select_desc = (\<lambda>w d c. do {
       c \<leftarrow> (if m_selected_table c = Some (root_table d) then Some c
             else sample_do_table w (root_table d) c);
       c \<leftarrow> put_sel (desc_sel w (desc_spec d)) c;
       Some (c\<lparr>m_selected_spec := Some (desc_spec d)\<rparr>) }),
     do_select_link_list = (\<lambda>w l c. do {
       c \<leftarrow> put_sel (table_sel (fst (list_at w l))) c;
       c \<leftarrow> put_sel (list_sel w l) c;
       Some (c\<lparr>m_selected_table := None, m_selected_link_list := Some l\<rparr>) })\<rparr>"

lemma put_sel_wrote:
  assumes "is_select g" and "valid_call (Group g)"
  shows "\<exists>c'. put_sel g c = Some c' \<and> wrote (m_encoder c) (m_encoder c') [Group g] \<and>
    m_selected_table c' = m_selected_table c"
proof -
  have "roundtrips (sample_select g) [Group g]"
    using sample_select_ok assms by (simp add: select_ok_def)
  from put_call_wrote [OF this, of c] show ?thesis unfolding put_sel_def by blast
qed

lemma sels_ok:
  "pos_ok p \<Longrightarrow> is_select (table_sel p) \<and> valid_call (Group (table_sel p))"
  "desc_ok w d \<Longrightarrow> is_select (desc_sel w (desc_spec d)) \<and> valid_call (Group (desc_sel w (desc_spec d)))"
  "is_select (list_sel w l) \<and> valid_call (Group (list_sel w l))"
  by (simp_all add: table_sel_def pos_ok_def desc_ok_def desc_sel_def)
    (cases rule: list_sel_cases [of w l], simp)

lemma sample_do_table_wrote:
  assumes "pos_ok (table_at w t)"
  shows "\<exists>c'. sample_do_table w t c = Some c' \<and>
    wrote (m_encoder c) (m_encoder c') [Group (table_sel (table_at w t))] \<and>
    m_selected_table c' = Some t"
  using put_sel_wrote [of "table_sel (table_at w t)" c] sels_ok(1) [OF assms]
  by (auto simp: sample_do_table_def)

lemma sample_do_desc:
  assumes "desc_ok w d"
  shows "\<exists>c' cs. do_select_desc sample_selector w d c = Some c' \<and>
    table_part w (table_at w (root_table d)) c cs \<and>
    wrote (m_encoder c) (m_encoder c') (cs @ [Group (desc_sel w (desc_spec d))]) \<and>
    m_selected_spec c' = Some (desc_spec d) \<and> m_selected_table c' = Some (root_table d)"
proof -
  have "pos_ok (table_at w (root_table d))" using assms by (simp add: desc_ok_def)
  from sample_do_table_wrote [OF this, of c] obtain c1 cs where
    c1: "(if m_selected_table c = Some (root_table d) then Some c
       else sample_do_table w (root_table d) c) = Some c1"
    "wrote (m_encoder c) (m_encoder c1) cs" "m_selected_table c1 = Some (root_table d)"
    "table_part w (table_at w (root_table d)) c cs"
    by (cases "m_selected_table c = Some (root_table d)") (auto simp: table_part_def intro: wrote_refl)
  obtain c2 where "put_sel (desc_sel w (desc_spec d)) c1 = Some c2"
    "wrote (m_encoder c1) (m_encoder c2) [Group (desc_sel w (desc_spec d))]"
    "m_selected_table c2 = m_selected_table c1"
    using put_sel_wrote sels_ok(2) [OF assms] by blast
  with c1 wrote_trans [OF c1(2)] show ?thesis
    by (intro exI [of _ "c2\<lparr>m_selected_spec := Some (desc_spec d)\<rparr>"] exI [of _ cs])
      (simp add: sample_selector_def)
qed

lemma sample_do_list:
  assumes "pos_ok (fst (list_at w l))"
  shows "\<exists>c' cs. do_select_link_list sample_selector w l c = Some c' \<and>
    table_part w (fst (list_at w l)) c cs \<and>
    wrote (m_encoder c) (m_encoder c') (cs @ [Group (list_sel w l)]) \<and>
    m_selected_link_list c' = Some l \<and>
    (\<forall>x. m_selected_table c' = Some x \<longrightarrow> table_at w x = fst (list_at w l))"
proof -
  obtain c1 where c1: "put_sel (table_sel (fst (list_at w l))) c = Some c1"
    "wrote (m_encoder c) (m_encoder c1) [Group (table_sel (fst (list_at w l)))]"
    using put_sel_wrote sels_ok(1) [OF assms] by blast
  obtain c2 where "put_sel (list_sel w l) c1 = Some c2"
    "wrote (m_encoder c1) (m_encoder c2) [Group (list_sel w l)]"
    using put_sel_wrote sels_ok(3) by blast
  with c1 wrote_trans [OF c1(2)] show ?thesis
    by (intro exI [of _ "c2\<lparr>m_selected_table := None, m_selected_link_list := Some l\<rparr>"]
        exI [of _ "[Group (table_sel (fst (list_at w l)))]"])
      (simp add: sample_selector_def table_part_def)
qed

lemma sample_selector_ok: "selector_ok sample_selector"
  unfolding selector_ok_def
  using sample_do_table_wrote sample_do_desc sample_do_list by (simp add: sample_selector_def)

subsection \<open>Reading the log\<close>

lemma new_cache_ok: "cache_ok w new_conv_encoder (None, None, None)"
  by (simp add: new_conv_encoder_def)

lemma new_written: "written (m_encoder new_conv_encoder) = []"
  by (simp add: new_conv_encoder_def)

lemma session_log:
  assumes "selector_ok sel" and "session_ok ops"
  shows "\<exists>c cs. run_ops sel ops new_conv_encoder = Some c \<and>
    wrote (m_encoder new_conv_encoder) (m_encoder c) cs \<and>
    trace (None, None, None) cs = session_entries ops \<and>
    well_selected (None, None, None) cs \<and> list_all valid_call cs"
  by (rule session_run [OF assms]) (simp add: new_conv_encoder_def)

text \<open>C16: a log written through the convenient encoder, with objects destroyed and moved
  between the calls, makes the parser call its handler so that each method arrives as the
  calls it stands for, in order, under the table, descriptor or link list it was called on. The
  methods are those with a body in the headers, but for \<open>set_link_type\<close>, which selects the wrong
  object. \<open>sel\<close> stands for the functions that are not in the repository.\<close>

theorem convenient_log_selected:
  assumes "selector_ok sel" and "session_ok ops"
  shows "\<exists>c cs. run_ops sel ops new_conv_encoder = Some c \<and>
    (\<forall>st. input_ok st \<longrightarrow> flat_input st = written (m_encoder c) \<longrightarrow>
      parse handler st s = deliver handler cs s) \<and>
    trace (None, None, None) cs = session_entries ops \<and> well_selected (None, None, None) cs"
proof -
  obtain c cs where c: "run_ops sel ops new_conv_encoder = Some c"
    "wrote (m_encoder new_conv_encoder) (m_encoder c) cs"
    "trace (None, None, None) cs = session_entries ops" "well_selected (None, None, None) cs"
    using session_log [OF assms] by blast
  from wrote_parse [OF c(2) new_written, of _ handler s] c(1,3,4) show ?thesis by blast
qed

text \<open>A group in which table 5 is the group level table 3 and has a link list, until the table
  is destroyed and its address used for the group level table 7.\<close>

definition sample_accessors :: "size_t \<Rightarrow> accessors" where
  "sample_accessors i = \<lparr>table_size = (\<lambda>t. 2), column_link_target = (\<lambda>t c. 4),
     link_target_table = (\<lambda>t c. 6), index_in_group = (\<lambda>t. i), backlink_column = (\<lambda>t x c. 0),
     column_type = (\<lambda>s c. type_Int), list_size = (\<lambda>l. 1),
     table_at = (\<lambda>t. if t = 5 then (i, []) else (0, [])),
     spec_at = (\<lambda>s. ((3, []), [])), list_at = (\<lambda>l. ((3, []), 1, 0, 4))\<rparr>"

definition sample_ops :: "(accessors \<times> conv_op) list" where
  "sample_ops =
    [(sample_accessors 3, On_Table 5 (T_Insert_Empty_Rows 0 2 5)),
     (sample_accessors 3, On_Table 5 (T_Insert_Substring 0 0 0 [])),
     (sample_accessors 3, On_Desc (Descriptor 5 9) (D_Insert_Column 1 type_Int [97] None False)),
     (sample_accessors 3, On_List 8 (L_Link_List_Insert 0 9)),
     (sample_accessors 3, Table_Destroyed 5),
     (sample_accessors 7, On_Table 5 (T_Add_Int 2 1 6))]"

lemma sample_ops_ok: "session_ok sample_ops"
  by (simp add: sample_ops_def sample_accessors_def max_string_size_def pos_ok_def desc_ok_def max_levels_def
      keeps_table_def same_positions_def)

lemma sample_ops_entries:
  "session_entries sample_ops =
    [((Some (Select_Table 3 []), None, None), Rows (Insert_Empty_Rows 0 2 5 False)),
     ((Some (Select_Table 3 []), Some (Select_Descriptor []), None),
       Column (Insert_Column 1 type_Int [97] False)),
     ((Some (Select_Table 3 []), None, Some (Select_Link_List 1 0 4)), Links (Link_List_Insert 0 9 0)),
     ((Some (Select_Table 7 []), None, None), Edit (Add_Int 2 1 6))]"
  by (simp add: session_entries_def sample_ops_def sample_accessors_def op_entries_def table_sel_def
      desc_sel_def list_sel_def)

theorem convenient_log_selected_witness:
  "\<exists>c cs. run_ops sample_selector sample_ops new_conv_encoder = Some c \<and>
    (\<forall>st. input_ok st \<longrightarrow> flat_input st = written (m_encoder c) \<longrightarrow>
      parse (\<lambda>c s. Some (s @ [c])) st [] = deliver (\<lambda>c s. Some (s @ [c])) cs []) \<and>
    trace (None, None, None) cs =
    [((Some (Select_Table 3 []), None, None), Rows (Insert_Empty_Rows 0 2 5 False)),
     ((Some (Select_Table 3 []), Some (Select_Descriptor []), None),
       Column (Insert_Column 1 type_Int [97] False)),
     ((Some (Select_Table 3 []), None, Some (Select_Link_List 1 0 4)), Links (Link_List_Insert 0 9 0)),
     ((Some (Select_Table 7 []), None, None), Edit (Add_Int 2 1 6))]"
  using convenient_log_selected [OF sample_selector_ok sample_ops_ok,
      of "\<lambda>c s. Some (s @ [c])" "[]"] sample_ops_entries
  by (elim exE conjE) (intro exI conjI, assumption+, simp)

subsection \<open>Rolling back\<close>

lemma reverse_calls_deliver: "reverse_calls sel cs r = deliver (reverse_call sel) cs r"
proof (induction cs arbitrary: r)
  case (Cons x cs)
  then show ?case by (cases "reverse_call sel x r") simp_all
qed simp

text \<open>C17: when the log of a session is parsed with the reverser as the handler and the reversed
  log is parsed again, the second handler receives the inverses of the methods of the session,
  last method first, each under the selection of its method, whatever was selected before.\<close>

theorem session_rollback:
  assumes "selector_ok sel" and "select_ok enc_select" and "session_ok ops"
  shows "\<exists>c r cs. run_ops sel ops new_conv_encoder = Some c \<and>
    (\<forall>st. input_ok st \<longrightarrow> flat_input st = written (m_encoder c) \<longrightarrow>
      parse (reverse_call enc_select) st new_reverser = Some r) \<and>
    parse handler (reversed_input r) s = deliver handler (map decoded cs) s \<and>
    trace start cs = inverse_trace (session_entries ops)"
proof -
  obtain c cs where c: "run_ops sel ops new_conv_encoder = Some c"
    "wrote (m_encoder new_conv_encoder) (m_encoder c) cs"
    "trace (None, None, None) cs = session_entries ops" "well_selected (None, None, None) cs"
    "list_all valid_call cs" using session_log [OF assms(1,3)] by blast
  obtain r where r: "reverse_calls enc_select cs new_reverser = Some r"
    "parse handler (reversed_input r) s = deliver handler (map decoded (rev_calls cs)) s"
    using reverser_refines [OF assms(2) c(5), of handler s] by (elim exE conjE)
  have "parse (reverse_call enc_select) st new_reverser = Some r"
    if "input_ok st" "flat_input st = written (m_encoder c)" for st
    using wrote_parse [OF c(2) new_written that, of "reverse_call enc_select" new_reverser]
      reverse_calls_deliver r(1) by simp
  moreover have "trace start (rev_calls cs) = inverse_trace (session_entries ops)"
    using rev_calls_trace [OF c(4), of start] c(3) by simp
  ultimately show ?thesis using c(1) r(2) by blast
qed

theorem session_rollback_witness:
  "\<exists>c r cs. run_ops sample_selector sample_ops new_conv_encoder = Some c \<and>
    (\<forall>st. input_ok st \<longrightarrow> flat_input st = written (m_encoder c) \<longrightarrow>
      parse (reverse_call sample_select) st new_reverser = Some r) \<and>
    parse (\<lambda>c s. Some (s @ [c])) (reversed_input r) [] =
      deliver (\<lambda>c s. Some (s @ [c])) (map decoded cs) [] \<and>
    trace (None, None, None) cs =
    [((Some (Select_Table 7 []), None, None), Edit (Add_Int 2 1 (- 6))),
     ((Some (Select_Table 3 []), None, Some (Select_Link_List 1 0 4)), Links (Link_List_Erase 0 1)),
     ((Some (Select_Table 3 []), Some (Select_Descriptor []), None), Column (Erase_Column 1)),
     ((Some (Select_Table 3 []), None, None), Rows (Erase_Rows 0 2 7 False))]"
proof -
  have "inverse_trace (session_entries sample_ops) =
    [((Some (Select_Table 7 []), None, None), Edit (Add_Int 2 1 (- 6))),
     ((Some (Select_Table 3 []), None, Some (Select_Link_List 1 0 4)), Links (Link_List_Erase 0 1)),
     ((Some (Select_Table 3 []), Some (Select_Descriptor []), None), Column (Erase_Column 1)),
     ((Some (Select_Table 3 []), None, None), Rows (Erase_Rows 0 2 7 False))]"
    by (simp add: sample_ops_entries inverse_trace_def inverse_entry_def)
  with session_rollback [OF sample_selector_ok sample_select_ok sample_ops_ok,
      of "\<lambda>c s. Some (s @ [c])" "[]" "(None, None, None)"] show ?thesis by simp
qed

subsection \<open>\<open>set_link_type\<close>\<close>

lemma set_link_type_writes: "roundtrips (enc_set_link_type col ty) [Column (Set_Link_Type col ty)]"
  using roundtrips_call [of "Column (Set_Link_Type col ty)"] by simp

lemma set_link_type_after_desc:
  assumes "selector_ok sel" and "desc_ok w (Descriptor t sp)"
  shows "\<exists>c cs. run_ops sel [(w, On_Desc (Descriptor t sp) (D_Add_Search_Index i)),
      (w, On_Table t (T_Set_Link_Type col ty))] new_conv_encoder = Some c \<and>
    wrote (m_encoder new_conv_encoder) (m_encoder c) cs \<and>
    trace (None, None, None) cs =
      [((Some (table_sel (table_at w t)), Some (desc_sel w sp), None), Column (Add_Search_Index i)),
       ((Some (table_sel (table_at w t)), Some (desc_sel w sp), None), Column (Set_Link_Type col ty))]"
proof -
  let ?n = "(Some (table_sel (table_at w t)), Some (desc_sel w sp), None)"
  have no_spec: "m_selected_spec new_conv_encoder \<noteq> Some sp" by (simp add: new_conv_encoder_def)
  obtain c1 cs where c1: "select_desc sel w (Descriptor t sp) new_conv_encoder = Some c1"
    "reaches w ?n (None, None, None) new_conv_encoder c1 cs" "m_selected_table c1 = Some t"
    using select_desc_reaches [OF assms(1) new_cache_ok assms(2)] no_spec by auto
  have "roundtrips (enc_add_search_index i) [Column (Add_Search_Index i)]"
    using roundtrips_call [of "Column (Add_Search_Index i)"] by simp
  from put_call_wrote [OF this, of c1] obtain c2 where
    c2: "put_call (enc_add_search_index i) c1 = Some c2"
    "wrote (m_encoder c1) (m_encoder c2) [Column (Add_Search_Index i)]" "m_selected_table c2 = Some t"
    using c1(3) by auto
  let ?c2 = "c2\<lparr>m_selected_spec := None, m_selected_link_list := None\<rparr>"
  obtain c3 where c3: "put_call (enc_set_link_type col ty) ?c2 = Some c3"
    "wrote (m_encoder c2) (m_encoder c3) [Column (Set_Link_Type col ty)]"
    using put_call_wrote [OF set_link_type_writes, of col ty ?c2] by auto
  have "runs_under ?n (map Column [Add_Search_Index i, Set_Link_Type col ty])"
    by (rule runs_under_Column)
  with c1(2) have "trace (None, None, None) (cs @ map Column [Add_Search_Index i, Set_Link_Type col ty])
      = map (Pair ?n) (map Column [Add_Search_Index i, Set_Link_Type col ty])"
    using runs_under_trace by (simp add: reaches_def restores_def trace_append del: list.map)
  moreover have "wrote (m_encoder new_conv_encoder) (m_encoder c3)
      (cs @ map Column [Add_Search_Index i, Set_Link_Type col ty])"
    using c1(2) wrote_trans [OF _ wrote_trans [OF c2(2) c3(2)]] by (simp add: reaches_def)
  ultimately show ?thesis using c1(1) c2(1,3) c3(1)
    by (intro exI [of _ c3] exI [of _ "cs @ map Column [Add_Search_Index i, Set_Link_Type col ty]"])
      (simp add: conv_defs select_table_def)
qed

lemma set_link_type_alone:
  assumes "selector_ok sel" and "pos_ok (table_at w t)"
  shows "\<exists>c cs. run_ops sel [(w, On_Table t (T_Set_Link_Type col ty))] new_conv_encoder = Some c \<and>
    wrote (m_encoder new_conv_encoder) (m_encoder c) cs \<and> \<not> well_selected (None, None, None) cs"
proof -
  have "m_selected_table new_conv_encoder \<noteq> Some t" by (simp add: new_conv_encoder_def)
  moreover obtain c1 where c1: "do_select_table sel w t new_conv_encoder = Some c1"
    "wrote (m_encoder new_conv_encoder) (m_encoder c1) [Group (table_sel (table_at w t))]"
    using assms unfolding selector_ok_def by blast
  let ?c1 = "c1\<lparr>m_selected_spec := None, m_selected_link_list := None\<rparr>"
  obtain c2 where "put_call (enc_set_link_type col ty) ?c1 = Some c2"
    "wrote (m_encoder c1) (m_encoder c2) [Column (Set_Link_Type col ty)]"
    using put_call_wrote [OF set_link_type_writes, of col ty ?c1] by auto
  ultimately show ?thesis using c1(1) wrote_trans [OF c1(2)]
    by (intro exI [of _ c2] exI [of _ "[Group (table_sel (table_at w t)), Column (Set_Link_Type col ty)]"])
      (fastforce simp: conv_defs select_table_def table_sel_def)
qed

text \<open>\<open>set_link_type\<close> is a descriptor instruction, but the method selects the table. After a
  change through another descriptor of the same table the cached table hides that this
  descriptor is still selected, and a reader receives \<open>set_link_type\<close> under it; on its own the
  method leaves a log in which no descriptor is selected.\<close>

theorem set_link_type_descriptor:
  assumes "selector_ok sel" and "desc_ok w (Descriptor t sp)"
  shows "(\<exists>c cs. run_ops sel [(w, On_Desc (Descriptor t sp) (D_Add_Search_Index i)),
      (w, On_Table t (T_Set_Link_Type col ty))] new_conv_encoder = Some c \<and>
    (\<forall>st. input_ok st \<longrightarrow> flat_input st = written (m_encoder c) \<longrightarrow>
      parse handler st s = deliver handler cs s) \<and>
    trace (None, None, None) cs =
      [((Some (table_sel (table_at w t)), Some (desc_sel w sp), None), Column (Add_Search_Index i)),
       ((Some (table_sel (table_at w t)), Some (desc_sel w sp), None), Column (Set_Link_Type col ty))]) \<and>
    (\<exists>c cs. run_ops sel [(w, On_Table t (T_Set_Link_Type col ty))] new_conv_encoder = Some c \<and>
    (\<forall>st. input_ok st \<longrightarrow> flat_input st = written (m_encoder c) \<longrightarrow>
      parse handler st s = deliver handler cs s) \<and> \<not> well_selected (None, None, None) cs)"
proof -
  have "pos_ok (table_at w t)" using assms(2) by (simp add: desc_ok_def)
  from set_link_type_alone [OF assms(1) this, of col ty] set_link_type_after_desc [OF assms, of i col ty]
    wrote_parse [OF _ new_written, of _ _ _ handler s] show ?thesis
    by (elim exE conjE) (intro conjI; blast)
qed

theorem set_link_type_descriptor_witness:
  "\<exists>c cs. run_ops sample_selector
      [(sample_accessors 3, On_Desc (Descriptor 5 9) (D_Add_Search_Index 2)),
       (sample_accessors 3, On_Table 5 (T_Set_Link_Type 1 link_Strong))] new_conv_encoder = Some c \<and>
    (\<forall>st. input_ok st \<longrightarrow> flat_input st = written (m_encoder c) \<longrightarrow>
      parse (\<lambda>c s. Some (s @ [c])) st [] = deliver (\<lambda>c s. Some (s @ [c])) cs []) \<and>
    trace (None, None, None) cs =
      [((Some (Select_Table 3 []), Some (Select_Descriptor []), None), Column (Add_Search_Index 2)),
       ((Some (Select_Table 3 []), Some (Select_Descriptor []), None),
        Column (Set_Link_Type 1 link_Strong))]"
proof -
  have "desc_ok (sample_accessors 3) (Descriptor 5 9)"
    by (simp add: desc_ok_def sample_accessors_def pos_ok_def max_levels_def)
  from set_link_type_descriptor [OF sample_selector_ok this, of 2 1 link_Strong
      "\<lambda>c s. Some (s @ [c])" "[]", THEN conjunct1] show ?thesis
    by (simp add: table_sel_def desc_sel_def sample_accessors_def del: flat_input.simps input_ok.simps)
qed

end
