(* ===== verification/Transact_Observer.thy ===== *)
theory Transact_Observer
  imports Change_Rows Transact_Parse
begin

section \<open>Observing a transaction log\<close>

text \<open>
  The instruction handlers of \<open>impl/transact_log_handler.cpp\<close>: \<open>TransactLogValidator\<close> refuses
  the schema changes that the object store cannot follow, \<open>TransactLogObserver\<close> in addition
  records into change builders what happens to the rows of the tables and to the link lists
  that somebody observes.

  The code holds the builders of the tables in a vector and points into it, and has pointers
  to the builders of the lists, which live elsewhere. Here both kinds of pointer are indexes
  (\<open>target\<close>): into \<open>info_tables\<close> and into the store \<open>list_builders\<close>. An index stays valid where a
  pointer would not: after an instruction that inserts a table the pointers into the vector of the
  builders are stale in the code until the next selection, which the convenient encoder writes
  before any other instruction on a table. \<open>TransactLogObserver\<close> inherits the methods for schema
  changes from \<open>TransactLogValidationMixin\<close>; they are written out for both, over the two states.
  The assertions on the order of the arguments of \<open>swap_rows\<close> and on \<open>move_row\<close> are left out, as in a
  release build. A handler returns \<open>None\<close>
  where the code throws \<open>UnsupportedSchemaChange\<close>. Sizes of the log are words; in the change
  info they are natural numbers, as in the builders.
\<close>

record list_info =
  li_table :: nat
  li_row :: nat
  li_col :: nat
  li_changes :: nat

record change_info =
  table_modifications_needed :: "bool list"
  table_moves_needed :: "bool list"
  info_lists :: "list_info list"
  info_tables :: "change_builder list"
  column_indices :: "nat list list"
  table_indices :: "nat list"
  track_all :: bool
  schema_changed :: bool

datatype target = Table_Changes nat | List_Changes nat

record observer = change_info +
  list_builders :: "change_builder list"
  current_table :: nat
  active_list :: "nat option"
  active_table :: "target option"
  active_descriptor :: "target option"
  need_move_info :: bool
  top_level :: bool

subsection \<open>Vectors of indexes\<close>

definition resize_to :: "nat \<Rightarrow> 'a \<Rightarrow> 'a list \<Rightarrow> 'a list" where
  "resize_to n d xs = (if length xs < n then resize n d xs else xs)"

definition rotate_or_extend :: "'a \<Rightarrow> nat \<Rightarrow> nat \<Rightarrow> 'a list \<Rightarrow> 'a list" where
  "rotate_or_extend d src dst xs =
     (if length xs \<le> src \<and> length xs \<le> dst then xs
      else let ys = resize_to (max src dst + 1) d xs
           in if src < dst then rotate_range src (src + 1) (dst + 1) ys
              else rotate_range dst src (src + 1) ys)"

definition insert_empty_at :: "'a \<Rightarrow> nat \<Rightarrow> 'a list \<Rightarrow> 'a list" where
  "insert_empty_at d pos xs = (if pos < length xs then take pos xs @ d # drop pos xs else xs)"

definition adjust_for_move :: "nat \<Rightarrow> nat \<Rightarrow> nat \<Rightarrow> nat" where
  "adjust_for_move src dst v =
     (if v = src then dst
      else if v > src \<and> v \<le> dst then v - 1
      else if v < src \<and> v \<ge> dst then v + 1
      else v)"

definition expand_to :: "nat \<Rightarrow> nat list \<Rightarrow> nat list" where
  "expand_to i cols =
     (let old_size = length cols in
      if old_size > i then cols
      else let first = (if old_size = 0 then 0 else (cols ! (old_size - 1) + 1) mod (npos + 1))
           in cols @ [first..<first + (max (old_size * 2) (i + 1) - old_size)])"

definition adjust_ge :: "nat \<Rightarrow> nat list \<Rightarrow> nat list" where
  "adjust_ge i = map (\<lambda>v. if v \<ge> i then v + 1 else v)"

subsection \<open>Validation\<close>

text \<open>The state of the validator is the index of the selected table.\<close>

fun validate_group :: "group_call \<Rightarrow> nat \<Rightarrow> nat option" where
  "validate_group (Select_Table g path) cur = Some (unat g)"
| "validate_group (Erase_Group_Level_Table t n) cur = None"
| "validate_group (Rename_Group_Level_Table t name) cur = None"
| "validate_group (Insert_Group_Level_Table t n name) cur = Some cur"
| "validate_group (Select_Descriptor path) cur = Some cur"
| "validate_group (Select_Link_List c r t) cur = Some cur"

fun validate_column :: "column_call \<Rightarrow> nat \<Rightarrow> nat option" where
  "validate_column (Erase_Column c) cur = None"
| "validate_column (Erase_Link_Column c t b) cur = None"
| "validate_column (Rename_Column c name) cur = None"
| "validate_column (Add_Search_Index c) cur = Some cur"
| "validate_column (Remove_Search_Index c) cur = Some cur"
| "validate_column (Insert_Column c t name n) cur = Some cur"
| "validate_column (Insert_Link_Column c t name lt b) cur = Some cur"
| "validate_column (Set_Link_Type c t) cur = Some cur"

fun validate :: "call \<Rightarrow> nat \<Rightarrow> nat option" where
  "validate (Group c) cur = validate_group c cur"
| "validate (Column c) cur = validate_column c cur"
| "validate c cur = Some cur"

subsection \<open>Marking fields\<close>

definition update_target ::
  "target \<Rightarrow> (change_builder \<Rightarrow> change_builder) \<Rightarrow> observer \<Rightarrow> observer" where
  "update_target t f s = (case t of
       Table_Changes i \<Rightarrow> s\<lparr>info_tables := (info_tables s)[i := f (info_tables s ! i)]\<rparr>
     | List_Changes i \<Rightarrow> s\<lparr>list_builders := (list_builders s)[i := f (list_builders s ! i)]\<rparr>)"

definition on_active_table :: "(change_builder \<Rightarrow> change_builder) \<Rightarrow> observer \<Rightarrow> observer" where
  "on_active_table f s = (case active_table s of None \<Rightarrow> s | Some t \<Rightarrow> update_target t f s)"

definition on_active_list :: "(change_builder \<Rightarrow> change_builder) \<Rightarrow> observer \<Rightarrow> observer" where
  "on_active_list f s = (case active_list s of None \<Rightarrow> s | Some i \<Rightarrow> update_target (List_Changes i) f s)"

definition mark_dirty :: "size_t \<Rightarrow> size_t \<Rightarrow> observer \<Rightarrow> observer" where
  "mark_dirty row col = on_active_table (\<lambda>c. modify c (unat row) (unat col))"

definition mark_dirty_if_set :: "size_t \<Rightarrow> size_t \<Rightarrow> instruction \<Rightarrow> observer \<Rightarrow> observer" where
  "mark_dirty_if_set row col instr s = (if instr = instr_Set then mark_dirty row col s else s)"

fun observe_field :: "field_call \<Rightarrow> observer \<Rightarrow> observer" where
  "observe_field (Set_Int c r v i p) = mark_dirty_if_set r c i"
| "observe_field (Set_Bool c r v i) = mark_dirty_if_set r c i"
| "observe_field (Set_Float c r v i) = mark_dirty_if_set r c i"
| "observe_field (Set_Double c r v i) = mark_dirty_if_set r c i"
| "observe_field (Set_String c r v i p) = mark_dirty_if_set r c i"
| "observe_field (Set_Binary c r v i) = mark_dirty_if_set r c i"
| "observe_field (Set_OldDateTime c r v i) = mark_dirty_if_set r c i"
| "observe_field (Set_Timestamp c r v i) = mark_dirty_if_set r c i"
| "observe_field (Set_Table c r i) = mark_dirty_if_set r c i"
| "observe_field (Set_Mixed c r v i) = mark_dirty_if_set r c i"
| "observe_field (Set_Link c r v t i) = mark_dirty_if_set r c i"
| "observe_field (Set_Null c r i p) = mark_dirty_if_set r c i"

fun observe_edit :: "edit_call \<Rightarrow> observer \<Rightarrow> observer" where
  "observe_edit (Add_Int c r v) = mark_dirty r c"
| "observe_edit (Nullify_Link c r t) = mark_dirty r c"
| "observe_edit (Insert_Substring c r p v) = mark_dirty r c"
| "observe_edit (Erase_Substring c r p n) = mark_dirty r c"

subsection \<open>Selections\<close>

text \<open>There can be several builders for one list; the last one is used.\<close>

definition find_list :: "nat \<Rightarrow> nat \<Rightarrow> nat \<Rightarrow> observer \<Rightarrow> nat option" where
  "find_list tbl col row s = map_option li_changes
     (find (\<lambda>l. li_table l = tbl \<and> li_row l = row \<and> li_col l = col) (rev (info_lists s)))"

definition select_subtable :: "size_t \<times> size_t \<Rightarrow> observer \<Rightarrow> observer" where
  "select_subtable p s =
     (let s = (mark_dirty (snd p) (fst p) s)\<lparr>active_table := None, top_level := False\<rparr>
      in case find_list (current_table s) (unat (fst p)) (unat (snd p)) s of
           Some b \<Rightarrow> s\<lparr>active_table := Some (List_Changes b), need_move_info := True\<rparr>
         | None \<Rightarrow> s)"

definition observe_select_table :: "size_t \<Rightarrow> (size_t \<times> size_t) list \<Rightarrow> observer \<Rightarrow> observer" where
  "observe_select_table group_level_ndx path s =
     (let tbl_ndx = unat group_level_ndx;
          s = s\<lparr>current_table := tbl_ndx, active_table := None, top_level := True\<rparr>
      in if length path > 1 then s\<lparr>top_level := False\<rparr>
         else if \<not> track_all s \<and> (tbl_ndx \<ge> length (table_modifications_needed s) \<or>
             \<not> table_modifications_needed s ! tbl_ndx) then s
         else
           (let s = s\<lparr>need_move_info := track_all s \<or>
                      (tbl_ndx < length (table_moves_needed s) \<and> table_moves_needed s ! tbl_ndx),
                    info_tables := (if length (info_tables s) \<le> tbl_ndx
                      then resize (max (length (info_tables s) * 2) (tbl_ndx + 1)) empty_builder (info_tables s)
                      else info_tables s),
                    active_table := Some (Table_Changes tbl_ndx)\<rparr>
            in case path of [] \<Rightarrow> s | p # ps \<Rightarrow> select_subtable p s))"

definition observe_select_descriptor :: "size_t list \<Rightarrow> observer \<Rightarrow> observer" where
  "observe_select_descriptor path s =
     s\<lparr>active_descriptor := (if length path = 0 then active_table s else None)\<rparr>"

definition observe_select_link_list :: "size_t \<Rightarrow> size_t \<Rightarrow> observer \<Rightarrow> observer" where
  "observe_select_link_list col row s =
     (let s = mark_dirty row col s
      in s\<lparr>active_list := find_list (current_table s) (unat col) (unat row) s\<rparr>)"

subsection \<open>Link lists\<close>

fun observe_links :: "list_call \<Rightarrow> observer \<Rightarrow> observer" where
  "observe_links (Link_List_Set i v n) s = on_active_list (\<lambda>c. modify c (unat i) npos) s"
| "observe_links (Link_List_Insert i v n) s = on_active_list (\<lambda>c. insert_rows_at c (unat i) 1 True) s"
| "observe_links (Link_List_Erase i n) s = on_active_list (\<lambda>c. erase_row c (unat i)) s"
| "observe_links (Link_List_Nullify i n) s = on_active_list (\<lambda>c. erase_row c (unat i)) s"
| "observe_links (Link_List_Swap i j) s =
     on_active_list (\<lambda>c. modify c (unat j) npos) (on_active_list (\<lambda>c. modify c (unat i) npos) s)"
| "observe_links (Link_List_Clear n) s = on_active_list (\<lambda>c. clear_rows c (unat n)) s"
| "observe_links (Link_List_Move i j) s = on_active_list (\<lambda>c. move_row c (unat i) (unat j)) s"

subsection \<open>Rows\<close>

definition map_lists :: "(list_info \<Rightarrow> list_info) \<Rightarrow> observer \<Rightarrow> observer" where
  "map_lists f s = s\<lparr>info_lists := map f (info_lists s)\<rparr>"

definition observe_insert_rows :: "nat \<Rightarrow> nat \<Rightarrow> observer \<Rightarrow> observer" where
  "observe_insert_rows row_ndx num s =
     (let s = on_active_table (\<lambda>c. insert_rows_at c row_ndx num (need_move_info s)) s
      in if \<not> top_level s then s
         else map_lists (\<lambda>l. if li_table l = current_table s \<and> li_row l \<ge> row_ndx
                then l\<lparr>li_row := li_row l + num\<rparr> else l) s)"

text \<open>The loop over the lists when \<open>row_ndx\<close> is removed and \<open>last_row\<close> takes its place: the
  list of the removed row is replaced by the last element of the vector, and the loop goes
  on with the next index.\<close>

function prune_lists :: "nat \<Rightarrow> nat \<Rightarrow> nat \<Rightarrow> nat \<Rightarrow> list_info list \<Rightarrow> list_info list" where
  "prune_lists cur row_ndx last_row i ls =
     (if i < length ls then
        (let l = ls ! i in
         if li_table l \<noteq> cur then prune_lists cur row_ndx last_row (i + 1) ls
         else if li_row l = row_ndx then
           prune_lists cur row_ndx last_row (i + 1)
             (butlast (if i + 1 < length ls then ls[i := last ls] else ls))
         else prune_lists cur row_ndx last_row (i + 1)
           (if li_row l = last_row then ls[i := l\<lparr>li_row := row_ndx\<rparr>] else ls))
      else ls)"
  by pat_completeness auto
termination by (relation "measure (\<lambda>(cur, row, last, i, ls). length ls - i)") auto

declare prune_lists.simps [simp del]

definition observe_erase_rows :: "nat \<Rightarrow> nat \<Rightarrow> bool \<Rightarrow> observer \<Rightarrow> observer" where
  "observe_erase_rows row_ndx prior_num_rows unordered s =
     (if \<not> unordered then on_active_table (\<lambda>c. erase_row c row_ndx) s
      else
        (let last_row = sz_sub prior_num_rows 1;
             s = on_active_table (\<lambda>c. move_over c row_ndx last_row (need_move_info s)) s
         in if \<not> top_level s then s
            else s\<lparr>info_lists := prune_lists (current_table s) row_ndx last_row 0 (info_lists s)\<rparr>))"

definition observe_swap_rows :: "nat \<Rightarrow> nat \<Rightarrow> observer \<Rightarrow> observer" where
  "observe_swap_rows a b s =
     (if \<not> top_level s then
        on_active_table (\<lambda>c. let c = move_row c a b in if a + 1 \<noteq> b then move_row c (b - 1) a else c) s
      else map_lists (\<lambda>l. if li_table l = current_table s
             then (if li_row l = a then l\<lparr>li_row := b\<rparr> else if li_row l = b then l\<lparr>li_row := a\<rparr> else l)
             else l) (on_active_table (\<lambda>c. swap_rows c a b (need_move_info s)) s))"

definition observe_merge_rows :: "nat \<Rightarrow> nat \<Rightarrow> observer \<Rightarrow> observer" where
  "observe_merge_rows src dst s =
     (let s = on_active_table (\<lambda>c. subsume c src dst (need_move_info s)) s
      in if \<not> top_level s then s
         else map_lists (\<lambda>l. if li_table l = current_table s \<and> li_row l = src
                then l\<lparr>li_row := dst\<rparr> else l) s)"

definition observe_clear_table :: "observer \<Rightarrow> observer" where
  "observe_clear_table s =
     (let s = on_active_table (\<lambda>c. clear_rows c npos) s
      in if \<not> top_level s then s
         else s\<lparr>info_lists := filter (\<lambda>l. li_table l \<noteq> current_table s) (info_lists s)\<rparr>)"

fun observe_rows :: "row_call \<Rightarrow> observer \<Rightarrow> observer" where
  "observe_rows (Insert_Empty_Rows r n p u) = observe_insert_rows (unat r) (unat n)"
| "observe_rows (Add_Row_With_Key r p c k) = observe_insert_rows (unat r) 1"
| "observe_rows (Erase_Rows r n p u) = observe_erase_rows (unat r) (unat p) u"
| "observe_rows (Swap_Rows a b) = observe_swap_rows (unat a) (unat b)"
| "observe_rows (Move_Row a b) = on_active_table (\<lambda>c. move_row c (unat a) (unat b))"
| "observe_rows (Merge_Rows a b) = observe_merge_rows (unat a) (unat b)"
| "observe_rows (Clear_Table n) = observe_clear_table"
| "observe_rows Optimize_Table = (\<lambda>s. s)"

subsection \<open>Changes of the schema\<close>

definition observe_insert_column :: "nat \<Rightarrow> observer \<Rightarrow> observer" where
  "observe_insert_column ndx s =
     (let s = s\<lparr>schema_changed := True\<rparr>;
          s = (case active_descriptor s of None \<Rightarrow> s
               | Some t \<Rightarrow> update_target t (\<lambda>c. insert_column c ndx) s)
      in if active_descriptor s \<noteq> active_table s \<or> \<not> top_level s then s
         else
           (let s = map_lists (\<lambda>l. if li_table l = current_table s \<and> li_col l \<ge> ndx
                      then l\<lparr>li_col := li_col l + 1\<rparr> else l) s;
                cis = resize_to (current_table s + 1) [] (column_indices s);
                indices = insert_empty_at 0 ndx (expand_to ndx (cis ! current_table s))
            in s\<lparr>column_indices := cis[current_table s := indices[ndx := npos]]\<rparr>))"

definition prepare_table_indices :: "observer \<Rightarrow> observer" where
  "prepare_table_indices s =
     (if table_indices s = [] \<and> table_modifications_needed s \<noteq> []
      then s\<lparr>table_indices := [0..<length (table_modifications_needed s)]\<rparr> else s)"

definition observe_insert_table :: "nat \<Rightarrow> observer \<Rightarrow> observer" where
  "observe_insert_table ndx s =
     (let s = prepare_table_indices (map_lists
                (\<lambda>l. if li_table l \<ge> ndx then l\<lparr>li_table := li_table l + 1\<rparr> else l)
                (s\<lparr>schema_changed := True\<rparr>))
      in s\<lparr>table_indices := adjust_ge ndx (table_indices s),
           info_tables := insert_empty_at empty_builder ndx (info_tables s),
           table_moves_needed := insert_empty_at False ndx (table_moves_needed s),
           table_modifications_needed := insert_empty_at False ndx (table_modifications_needed s)\<rparr>)"

text \<open>The parser no longer delivers moves of columns and tables; the observer still has them.\<close>

definition observe_move_column :: "nat \<Rightarrow> nat \<Rightarrow> observer \<Rightarrow> observer" where
  "observe_move_column src dst s =
     (let s = s\<lparr>schema_changed := True\<rparr>;
          s = (case active_descriptor s of None \<Rightarrow> s
               | Some t \<Rightarrow> update_target t (\<lambda>c. move_column c src dst) s)
      in if active_descriptor s \<noteq> active_table s \<or> \<not> top_level s then s
         else
           (let s = map_lists (\<lambda>l. if li_table l = current_table s
                      then l\<lparr>li_col := adjust_for_move src dst (li_col l)\<rparr> else l) s;
                cis = resize_to (current_table s + 1) [] (column_indices s);
                indices = expand_to (max src dst + 1) (cis ! current_table s)
            in s\<lparr>column_indices := cis[current_table s := rotate_or_extend 0 src dst indices]\<rparr>))"

definition observe_move_table :: "nat \<Rightarrow> nat \<Rightarrow> observer \<Rightarrow> observer" where
  "observe_move_table src dst s =
     (let s = prepare_table_indices (map_lists
                (\<lambda>l. l\<lparr>li_table := adjust_for_move src dst (li_table l)\<rparr>) (s\<lparr>schema_changed := True\<rparr>))
      in s\<lparr>table_indices := map (adjust_for_move src dst) (table_indices s),
           info_tables := rotate_or_extend empty_builder src dst (info_tables s),
           table_modifications_needed := rotate_or_extend False src dst (table_modifications_needed s),
           table_moves_needed := rotate_or_extend False src dst (table_moves_needed s)\<rparr>)"

subsection \<open>The handler\<close>

fun observe_group :: "group_call \<Rightarrow> observer \<Rightarrow> observer option" where
  "observe_group (Select_Table g path) s = Some (observe_select_table g path s)"
| "observe_group (Select_Descriptor path) s = Some (observe_select_descriptor path s)"
| "observe_group (Select_Link_List c r t) s = Some (observe_select_link_list c r s)"
| "observe_group (Insert_Group_Level_Table t n name) s = Some (observe_insert_table (unat t) s)"
| "observe_group (Erase_Group_Level_Table t n) s = None"
| "observe_group (Rename_Group_Level_Table t name) s = None"

fun observe_column :: "column_call \<Rightarrow> observer \<Rightarrow> observer option" where
  "observe_column (Insert_Column c t name n) s = Some (observe_insert_column (unat c) s)"
| "observe_column (Insert_Link_Column c t name lt b) s = Some (observe_insert_column (unat c) s)"
| "observe_column (Erase_Column c) s = None"
| "observe_column (Erase_Link_Column c t b) s = None"
| "observe_column (Rename_Column c name) s = None"
| "observe_column (Add_Search_Index c) s = Some s"
| "observe_column (Remove_Search_Index c) s = Some s"
| "observe_column (Set_Link_Type c t) s = Some s"

fun observe :: "call \<Rightarrow> observer \<Rightarrow> observer option" where
  "observe (Group c) s = observe_group c s"
| "observe (Rows c) s = Some (observe_rows c s)"
| "observe (Field c) s = Some (observe_field c s)"
| "observe (Edit c) s = Some (observe_edit c s)"
| "observe (Column c) s = observe_column c s"
| "observe (Links c) s = Some (observe_links c s)"

definition observer_complete :: "observer \<Rightarrow> observer" where
  "observer_complete s =
     (let s = s\<lparr>info_tables := map parse_complete (info_tables s)\<rparr>
      in foldl (\<lambda>s l. update_target (List_Changes (li_changes l)) clean_up_stale_moves s) s (info_lists s))"

definition new_observer :: "change_info \<Rightarrow> change_builder list \<Rightarrow> observer" where
  "new_observer i bs = change_info.extend i
     \<lparr>list_builders = bs, current_table = 0, active_list = None, active_table = None,
      active_descriptor = None, need_move_info = False, top_level = True\<rparr>"

end
