(* ===== verification/Observer_Rows.thy ===== *)
theory Observer_Rows
  imports Transact_Observer
begin

section \<open>The observer follows the tables\<close>

text \<open>
  The tables as the log sees them: \<open>world_step\<close> says what an instruction does to the rows of
  the selected table and which of them it modifies. The invariant \<open>follows\<close> relates them to
  the state of the observer; it is kept by every instruction, so that the builder of every
  observed table holds the changes of that table, whatever happens to the others in between.
\<close>

type_synonym 'a table = "'a list \<times> bool list"
type_synonym 'a world = "nat option \<times> (nat \<Rightarrow> 'a table)"

fun field_row :: "field_call \<Rightarrow> size_t" where
  "field_row (Set_Int c r v i p) = r"
| "field_row (Set_Bool c r v i) = r"
| "field_row (Set_Float c r v i) = r"
| "field_row (Set_Double c r v i) = r"
| "field_row (Set_String c r v i p) = r"
| "field_row (Set_Binary c r v i) = r"
| "field_row (Set_OldDateTime c r v i) = r"
| "field_row (Set_Timestamp c r v i) = r"
| "field_row (Set_Table c r i) = r"
| "field_row (Set_Mixed c r v i) = r"
| "field_row (Set_Link c r v t i) = r"
| "field_row (Set_Null c r i p) = r"

fun field_variant :: "field_call \<Rightarrow> instruction" where
  "field_variant (Set_Int c r v i p) = i"
| "field_variant (Set_Bool c r v i) = i"
| "field_variant (Set_Float c r v i) = i"
| "field_variant (Set_Double c r v i) = i"
| "field_variant (Set_String c r v i p) = i"
| "field_variant (Set_Binary c r v i) = i"
| "field_variant (Set_OldDateTime c r v i) = i"
| "field_variant (Set_Timestamp c r v i) = i"
| "field_variant (Set_Table c r i) = i"
| "field_variant (Set_Mixed c r v i) = i"
| "field_variant (Set_Link c r v t i) = i"
| "field_variant (Set_Null c r i p) = i"

fun edit_row :: "edit_call \<Rightarrow> size_t" where
  "edit_row (Add_Int c r v) = r"
| "edit_row (Nullify_Link c r t) = r"
| "edit_row (Insert_Substring c r p v) = r"
| "edit_row (Erase_Substring c r p n) = r"

lemma observe_field_eq:
  "\<exists>col. observe_field f s = (if field_variant f = instr_Set then mark_dirty (field_row f) col s else s)"
  by (cases f) (auto simp: mark_dirty_if_set_def)

lemma observe_edit_eq: "\<exists>col. observe_edit f s = mark_dirty (edit_row f) col s"
  by (cases f) auto

subsection \<open>What the instructions do to the tables\<close>

fun map_table :: "nat \<Rightarrow> ('a table \<Rightarrow> 'a table) \<Rightarrow> 'a world \<Rightarrow> 'a world" where
  "map_table t f (cur, db) = (cur, db(t := f (db t)))"

fun add_rows :: "'a list \<Rightarrow> 'a table \<Rightarrow> 'a table" where
  "add_rows ys (xs, fs) = (xs @ ys, fs @ replicate (length ys) False)"

fun mark_row :: "nat \<Rightarrow> 'a table \<Rightarrow> 'a table" where
  "mark_row i (xs, fs) = (xs, fs[i := True])"

fun remove_row :: "nat \<Rightarrow> 'a table \<Rightarrow> 'a table" where
  "remove_row i (xs, fs) = (move_last_over i xs, move_last_over i fs)"

fun exchange_rows :: "nat \<Rightarrow> nat \<Rightarrow> 'a table \<Rightarrow> 'a table" where
  "exchange_rows a b (xs, fs) = (swap_nth a b xs, swap_nth a b fs)"

text \<open>Rows are appended, removed by moving the last row over, and swapped; new rows are not
  reported as modified, and neither are fields that are set to a default or a unique value.\<close>

inductive world_step :: "call \<Rightarrow> 'a world \<Rightarrow> 'a world \<Rightarrow> bool" where
  select: "world_step (Group (Select_Table g [])) (cur, db) (Some (unat g), db)"
| descriptor: "world_step (Group (Select_Descriptor p)) w w"
| link_list: "unat r < length (fst (db t)) \<Longrightarrow>
    world_step (Group (Select_Link_List c r x)) (Some t, db) (map_table t (mark_row (unat r)) (Some t, db))"
| links: "world_step (Links l) w w"
| insert: "unat r = length (fst (db t)) \<Longrightarrow> length ys = unat n \<Longrightarrow> ys \<noteq> [] \<Longrightarrow>
    world_step (Rows (Insert_Empty_Rows r n p u)) (Some t, db) (map_table t (add_rows ys) (Some t, db))"
| insert_key: "unat r = length (fst (db t)) \<Longrightarrow>
    world_step (Rows (Add_Row_With_Key r p c k)) (Some t, db) (map_table t (add_rows [y]) (Some t, db))"
| erase: "unat p = length (fst (db t)) \<Longrightarrow> unat r < length (fst (db t)) \<Longrightarrow>
    world_step (Rows (Erase_Rows r n p True)) (Some t, db) (map_table t (remove_row (unat r)) (Some t, db))"
| swap: "unat a < unat b \<Longrightarrow> unat b < length (fst (db t)) \<Longrightarrow>
    world_step (Rows (Swap_Rows a b)) (Some t, db) (map_table t (exchange_rows (unat a) (unat b)) (Some t, db))"
| optimize: "world_step (Rows Optimize_Table) w w"
| set_field: "unat (field_row f) < length (fst (db t)) \<Longrightarrow> field_variant f = instr_Set \<Longrightarrow>
    world_step (Field f) (Some t, db) (map_table t (mark_row (unat (field_row f))) (Some t, db))"
| default_field: "field_variant f \<noteq> instr_Set \<Longrightarrow> world_step (Field f) w w"
| edit_field: "unat (edit_row f) < length (fst (db t)) \<Longrightarrow>
    world_step (Edit f) (Some t, db) (map_table t (mark_row (unat (edit_row f))) (Some t, db))"
| new_column: "world_step (Column (Insert_Column c ty name n)) w w"
| new_link_column: "world_step (Column (Insert_Link_Column c ty name lt b)) w w"
| index: "world_step (Column (Add_Search_Index c)) w w"
| no_index: "world_step (Column (Remove_Search_Index c)) w w"
| link_type: "world_step (Column (Set_Link_Type c lt)) w w"

inductive world_run :: "call list \<Rightarrow> 'a world \<Rightarrow> 'a world \<Rightarrow> bool" where
  run_Nil: "world_run [] w w"
| run_Cons: "world_step c w w' \<Longrightarrow> \<forall>t. length (fst (snd w t)) \<le> npos \<Longrightarrow> world_run cs w' w'' \<Longrightarrow>
    world_run (c # cs) w w''"

subsection \<open>The invariant\<close>

definition wanted :: "observer \<Rightarrow> nat \<Rightarrow> bool" where
  "wanted s t \<longleftrightarrow> track_all s \<or>
     (t < length (table_modifications_needed s) \<and> table_modifications_needed s ! t)"

definition moves_wanted :: "observer \<Rightarrow> nat \<Rightarrow> bool" where
  "moves_wanted s t \<longleftrightarrow> track_all s \<or> (t < length (table_moves_needed s) \<and> table_moves_needed s ! t)"

definition table_builder :: "observer \<Rightarrow> nat \<Rightarrow> change_builder" where
  "table_builder s t = (if t < length (info_tables s) then info_tables s ! t else empty_builder)"

definition selects :: "observer \<Rightarrow> nat \<Rightarrow> bool" where
  "selects s t \<longleftrightarrow> current_table s = t \<and>
     (if wanted s t then active_table s = Some (Table_Changes t) \<and> t < length (info_tables s) \<and>
        need_move_info s = moves_wanted s t
      else active_table s = None)"

definition table_follows :: "observer \<Rightarrow> 'a table \<Rightarrow> 'a table \<Rightarrow> nat \<Rightarrow> bool" where
  "table_follows s old new t \<longleftrightarrow>
     (wanted s t \<and> moves_wanted s t \<longrightarrow> row_tracked (table_builder s t) (fst old) (fst new) (snd new)) \<and>
     length (snd new) = length (fst new)"

definition follows :: "(nat \<Rightarrow> 'a table) \<Rightarrow> observer \<Rightarrow> 'a world \<Rightarrow> bool" where
  "follows old s w \<longleftrightarrow> top_level s \<and> (\<forall>t. table_follows s (old t) (snd w t) t) \<and>
     (case fst w of None \<Rightarrow> active_table s = None | Some t \<Rightarrow> selects s t)"

text \<open>What a handler may change without harm: everything but the flags and the builders.\<close>

definition same_tables :: "observer \<Rightarrow> observer \<Rightarrow> bool" where
  "same_tables s s' \<longleftrightarrow> track_all s' = track_all s \<and> info_tables s' = info_tables s \<and>
     table_modifications_needed s' = table_modifications_needed s \<and>
     table_moves_needed s' = table_moves_needed s \<and> current_table s' = current_table s \<and>
     active_table s' = active_table s \<and> need_move_info s' = need_move_info s \<and>
     top_level s' = top_level s"

lemma follows_same:
  assumes "same_tables s s'" and "follows (old :: nat \<Rightarrow> 'a table) s w"
  shows "follows old s' w"
proof -
  have "wanted s' = wanted s" "moves_wanted s' = moves_wanted s" "table_builder s' = table_builder s"
    using assms(1) by (simp_all add: same_tables_def wanted_def moves_wanted_def table_builder_def fun_eq_iff)
  then have "selects s' = selects s" "\<And>(x :: 'a table) y. table_follows s' x y = table_follows s x y"
    using assms(1) by (simp_all add: same_tables_def selects_def table_follows_def fun_eq_iff)
  then show ?thesis using assms by (cases "fst w") (simp_all add: same_tables_def follows_def)
qed

lemma same_map_lists [simp]: "same_tables s (map_lists f s)"
  by (simp add: same_tables_def map_lists_def)

lemma same_lists [simp]: "same_tables s (s\<lparr>info_lists := ls\<rparr>)"
  by (simp add: same_tables_def)

lemma same_on_active_list [simp]: "same_tables s (on_active_list f s)"
  by (cases "active_list s") (simp_all add: same_tables_def on_active_list_def update_target_def)

lemma same_refl [simp]: "same_tables s s"
  by (simp add: same_tables_def)

lemma same_trans: "same_tables s s' \<Longrightarrow> same_tables s' s'' \<Longrightarrow> same_tables s s''"
  by (simp add: same_tables_def)

lemma same_links: "same_tables s (observe_links l s)"
  by (cases l) (auto intro: same_trans same_on_active_list)

text \<open>A change of the selected table, seen in its builder.\<close>

lemma follows_on_active:
  assumes "follows old s (Some t, db)"
    and "\<And>c. row_tracked c (fst (old t)) (fst (db t)) (snd (db t)) \<Longrightarrow> need_move_info s \<Longrightarrow>
      row_tracked (g c) (fst (old t)) (fst (f (db t))) (snd (f (db t)))"
    and "length (snd (db t)) = length (fst (db t)) \<Longrightarrow> length (snd (f (db t))) = length (fst (f (db t)))"
  shows "follows old (on_active_table g s) (map_table t f (Some t, db))"
proof (cases "wanted s t")
  case True
  then have a: "active_table s = Some (Table_Changes t)" "t < length (info_tables s)"
    "need_move_info s = moves_wanted s t"
    using assms(1) by (simp_all add: follows_def selects_def)
  let ?s = "on_active_table g s"
  have s: "?s = s\<lparr>info_tables := (info_tables s)[t := g (info_tables s ! t)]\<rparr>"
    using a by (simp add: on_active_table_def update_target_def)
  have b: "table_builder ?s t' = (if t' = t then g (table_builder s t) else table_builder s t')" for t'
    using a(2) by (simp add: s table_builder_def)
  have w: "wanted ?s = wanted s" "moves_wanted ?s = moves_wanted s"
    by (simp_all add: s wanted_def moves_wanted_def fun_eq_iff)
  have "table_follows s (old t') (db t') t'" for t' using assms(1) by (simp add: follows_def)
  then have "table_follows ?s (old t') (snd (map_table t f (Some t, db)) t') t'" for t'
    using assms(2,3) a(3) True by (auto simp: table_follows_def b w)
  then show ?thesis using assms(1) a True by (simp add: follows_def selects_def w) (simp add: s)
next
  case False
  then have "active_table s = None" using assms(1) by (simp add: follows_def selects_def)
  then have s: "on_active_table g s = s" by (simp add: on_active_table_def)
  have "table_follows s (old t') (db t') t'" for t' using assms(1) by (simp add: follows_def)
  then have "table_follows s (old t') (snd (map_table t f (Some t, db)) t') t'" for t'
    using assms(3) False by (auto simp: table_follows_def)
  then show ?thesis using assms(1) by (simp add: s follows_def)
qed

subsection \<open>Every instruction keeps it\<close>

lemma follows_length:
  "follows old s (cur, db) \<Longrightarrow> length (snd (db t)) = length (fst (db t))"
  by (simp add: follows_def table_follows_def)

lemma follows_mark:
  assumes "follows old s (Some t, db)" and "unat row < length (fst (db t))"
  shows "follows old (mark_dirty row col s) (map_table t (mark_row (unat row)) (Some t, db))"
  unfolding mark_dirty_def
proof (rule follows_on_active [OF assms(1)])
  obtain xs fs where t: "db t = (xs, fs)" by (rule prod.exhaust)
  show "row_tracked (modify c (unat row) (unat col)) (fst (old t)) (fst (mark_row (unat row) (db t)))
      (snd (mark_row (unat row) (db t)))"
    if "row_tracked c (fst (old t)) (fst (db t)) (snd (db t))" for c
    using modify_row_tracked that assms(2) unfolding t mark_row.simps fst_conv snd_conv by blast
  show "length (snd (mark_row (unat row) (db t))) = length (fst (mark_row (unat row) (db t)))"
    if "length (snd (db t)) = length (fst (db t))" using that t by simp
qed

lemma follows_insert:
  assumes "follows old s (Some t, db)" and "r = length (fst (db t))" and "ys \<noteq> []"
  shows "follows old (observe_insert_rows r (length ys) s) (map_table t (add_rows ys) (Some t, db))"
proof -
  have "follows old (on_active_table (\<lambda>c. insert_rows_at c r (length ys) (need_move_info s)) s)
      (map_table t (add_rows ys) (Some t, db))"
  proof (rule follows_on_active [OF assms(1)])
    obtain xs fs where t: "db t = (xs, fs)" by (rule prod.exhaust)
    show "row_tracked (insert_rows_at c r (length ys) (need_move_info s)) (fst (old t)) (fst (add_rows ys (db t))) (snd (add_rows ys (db t)))"
      if "row_tracked c (fst (old t)) (fst (db t)) (snd (db t))" and m: "need_move_info s" for c
    proof -
      have tr: "row_tracked c (fst (old t)) xs fs" using that(1) by (simp add: t)
      show ?thesis using append_row_tracked [OF tr assms(3)] assms(2) m t by simp
    qed
    show "length (snd (add_rows ys (db t))) = length (fst (add_rows ys (db t)))"
      if "length (snd (db t)) = length (fst (db t))" using that t assms(2-) by (simp add: swap_nth_def)
  qed
  then show ?thesis unfolding observe_insert_rows_def Let_def
    by (simp add: follows_same [OF same_map_lists] del: map_table.simps)
qed

lemma update_last [simp]: "xs[length xs - Suc 0 := last xs] = xs"
  by (cases xs rule: rev_cases) simp_all

lemma remove_row_tracked:
  assumes "row_tracked c old new fs" and "i < length new" and "length new \<le> npos"
  shows "row_tracked (move_over c i (length new - 1) True) old (move_last_over i new) (move_last_over i fs)"
proof (cases "i = length new - 1")
  case True
  have l: "length fs = length new" using assms(1) by (simp add: row_tracked_def)
  have "move_last_over i new = butlast new" "move_last_over i fs = butlast fs"
    using True update_last [of new] update_last [of fs] l by (simp_all add: move_last_over_def)
  moreover have "new \<noteq> []" using assms(2) by auto
  ultimately show ?thesis using remove_last_tracked [OF assms(1) _ assms(3)] True by simp
next
  case False
  with assms(2) show ?thesis by (intro move_over_tracked [OF assms(1)]) simp
qed

lemma follows_erase:
  assumes "follows old s (Some t, db)" and "p = length (fst (db t))" and "r < length (fst (db t))"
    and "length (fst (db t)) \<le> npos"
  shows "follows old (observe_erase_rows r p True s) (map_table t (remove_row r) (Some t, db))"
proof -
  have p: "sz_sub p 1 = p - 1" using assms(2,3,4) by (simp add: sz_sub_le)
  have "follows old (on_active_table (\<lambda>c. move_over c r (p - 1) (need_move_info s)) s)
      (map_table t (remove_row r) (Some t, db))"
  proof (rule follows_on_active [OF assms(1)])
    obtain xs fs where t: "db t = (xs, fs)" by (rule prod.exhaust)
    show "row_tracked (move_over c r (p - 1) (need_move_info s)) (fst (old t)) (fst (remove_row r (db t))) (snd (remove_row r (db t)))"
      if "row_tracked c (fst (old t)) (fst (db t)) (snd (db t))" and m: "need_move_info s" for c
    proof -
      have tr: "row_tracked c (fst (old t)) xs fs" using that(1) by (simp add: t)
      show ?thesis using remove_row_tracked [OF tr, of r] assms(2-) m t by simp
    qed
    show "length (snd (remove_row r (db t))) = length (fst (remove_row r (db t)))"
      if "length (snd (db t)) = length (fst (db t))" using that t assms(2-) by (simp add: swap_nth_def)
  qed
  from follows_same [OF same_lists this] this show ?thesis
    unfolding observe_erase_rows_def Let_def p by (simp del: map_table.simps)
qed

lemma follows_swap:
  assumes "follows old s (Some t, db)" and "a < b" and "b < length (fst (db t))"
  shows "follows old (observe_swap_rows a b s) (map_table t (exchange_rows a b) (Some t, db))"
proof -
  have "top_level s" using assms(1) by (simp add: follows_def)
  moreover have "follows old (on_active_table (\<lambda>c. swap_rows c a b (need_move_info s)) s)
      (map_table t (exchange_rows a b) (Some t, db))"
  proof (rule follows_on_active [OF assms(1)])
    obtain xs fs where t: "db t = (xs, fs)" by (rule prod.exhaust)
    show "row_tracked (swap_rows c a b (need_move_info s)) (fst (old t)) (fst (exchange_rows a b (db t))) (snd (exchange_rows a b (db t)))"
      if "row_tracked c (fst (old t)) (fst (db t)) (snd (db t))" and m: "need_move_info s" for c
    proof -
      have tr: "row_tracked c (fst (old t)) xs fs" using that(1) by (simp add: t)
      show ?thesis using swap_tracked [OF tr, of a b] assms(2-) m t by simp
    qed
    show "length (snd (exchange_rows a b (db t))) = length (fst (exchange_rows a b (db t)))"
      if "length (snd (db t)) = length (fst (db t))" using that t assms(2-) by (simp add: swap_nth_def)
  qed
  ultimately show ?thesis unfolding observe_swap_rows_def
    by (simp add: follows_same [OF same_map_lists] del: map_table.simps)
qed

lemma follows_any_table:
  assumes "follows old s (cur, db)"
    and "\<And>t c. row_tracked c (fst (old t)) (fst (db t)) (snd (db t)) \<Longrightarrow>
      row_tracked (g c) (fst (old t)) (fst (db t)) (snd (db t))"
  shows "follows old (update_target x g s) (cur, db)"
proof (cases x)
  case (Table_Changes i)
  let ?s = "update_target x g s"
  have s: "?s = s\<lparr>info_tables := (info_tables s)[i := g (info_tables s ! i)]\<rparr>"
    by (simp add: update_target_def Table_Changes)
  have b: "table_builder ?s t = (if t = i \<and> i < length (info_tables s) then g (table_builder s t)
      else table_builder s t)" for t
    by (simp add: s table_builder_def)
  have w: "wanted ?s = wanted s" "moves_wanted ?s = moves_wanted s"
    by (simp_all add: s wanted_def moves_wanted_def fun_eq_iff)
  have "table_follows s (old t) (db t) t" for t using assms(1) by (simp add: follows_def)
  then have "table_follows ?s (old t) (db t) t" for t
    using assms(2) by (auto simp: table_follows_def b w)
  moreover have "selects ?s t = selects s t" for t by (simp add: selects_def w) (simp add: s)
  ultimately show ?thesis using assms(1) by (cases cur) (simp_all add: follows_def s)
next
  case (List_Changes i)
  then have "same_tables s (update_target x g s)" by (simp add: update_target_def same_tables_def)
  then show ?thesis using assms(1) by (rule follows_same)
qed

lemma follows_insert_column:
  assumes "follows old s w"
  shows "follows old (observe_insert_column ndx s) w"
proof -
  obtain cur db where w: "w = (cur, db)" by (rule prod.exhaust)
  let ?s0 = "s\<lparr>schema_changed := True\<rparr>"
  let ?s1 = "case active_descriptor ?s0 of None \<Rightarrow> ?s0
    | Some t \<Rightarrow> update_target t (\<lambda>c. insert_column c ndx) ?s0"
  have 0: "follows old ?s0 (cur, db)"
    by (rule follows_same [of s]) (use assms w in \<open>simp_all add: same_tables_def\<close>)
  have 1: "follows old ?s1 (cur, db)"
  proof (cases "active_descriptor ?s0")
    case None
    then show ?thesis using 0 by simp
  next
    case (Some x)
    show ?thesis unfolding Some option.case
      by (rule follows_any_table [OF 0]) (rule insert_column_row_tracked)
  qed
  have "follows old (map_lists f ?s1\<lparr>column_indices := ci\<rparr>) (cur, db)" for f ci
    by (rule follows_same [OF _ 1]) (simp add: same_tables_def map_lists_def)
  then show ?thesis using 1 by (simp add: observe_insert_column_def Let_def w)
qed

lemma follows_select:
  assumes "follows old s (cur, db)"
  shows "follows old (observe_select_table g [] s) (Some (unat g), db)"
proof -
  let ?s = "observe_select_table g [] s" and ?n = "length (info_tables s)" and ?t = "unat g"
  let ?s1 = "s\<lparr>current_table := ?t, active_table := None, top_level := True\<rparr>"
  have tf: "table_follows s (old t) (db t) t" for t using assms by (simp add: follows_def)
  have w: "wanted ?s t = wanted s t" "moves_wanted ?s t = moves_wanted s t" for t
    by (simp_all add: wanted_def moves_wanted_def observe_select_table_def Let_def)
  have b: "table_builder ?s t = table_builder s t" for t
    by (auto simp: table_builder_def observe_select_table_def Let_def resize_def nth_append)
  have "table_follows ?s (old t) (db t) t" for t using tf [of t] by (simp add: table_follows_def w b)
  moreover have "selects ?s ?t"
    by (auto simp: selects_def w) (auto simp: wanted_def moves_wanted_def observe_select_table_def
        Let_def resize_def)
  moreover have "top_level ?s" by (simp add: observe_select_table_def Let_def)
  ultimately show ?thesis by (simp add: follows_def)
qed

lemma follows_step:
  assumes "world_step c w w'" and "follows old s w" and "\<forall>t. length (fst (snd w t)) \<le> npos"
  shows "\<exists>s'. observe c s = Some s' \<and> follows old s' w'"
  using assms
proof cases
  case (select g cur db)
  then show ?thesis using assms(2) follows_select [of old s cur db g] by simp
next
  case (descriptor p)
  have "same_tables s (observe_select_descriptor p s)"
    by (simp add: observe_select_descriptor_def same_tables_def)
  from follows_same [OF this assms(2)] descriptor show ?thesis by simp
next
  case (link_list r db t c x)
  let ?s = "mark_dirty r c s"
  have "follows old ?s w'" using follows_mark [of old s t db r c] link_list assms(2)
    by (simp del: map_table.simps)
  moreover have "same_tables ?s (observe_select_link_list c r s)"
    by (simp add: observe_select_link_list_def Let_def same_tables_def)
  ultimately show ?thesis using follows_same [of ?s _ old w'] link_list by simp
next
  case (links l)
  from follows_same [OF same_links assms(2)] links show ?thesis by simp
next
  case (insert r db t ys n p u)
  then show ?thesis using follows_insert [of old s t db "unat r" ys] assms(2)
    by (simp del: map_table.simps)
next
  case (insert_key r db t p c k y)
  then show ?thesis using follows_insert [of old s t db "unat r" "[y]"] assms(2)
    by (simp del: map_table.simps)
next
  case (erase p db t r n)
  then show ?thesis using follows_erase [of old s t db "unat p" "unat r"] assms(2,3)
    by (simp del: map_table.simps)
next
  case (swap a b db t)
  then show ?thesis using follows_swap [of old s t db "unat a" "unat b"] assms(2)
    by (simp del: map_table.simps)
next
  case (set_field f db t)
  obtain col where "observe_field f s = mark_dirty (field_row f) col s"
    using observe_field_eq [of f s] set_field by auto
  then show ?thesis using follows_mark [of old s t db "field_row f" col] set_field assms(2)
    by (simp del: map_table.simps)
next
  case (default_field f)
  then show ?thesis using observe_field_eq [of f s] assms(2) by auto
next
  case (edit_field f db t)
  obtain col where "observe_edit f s = mark_dirty (edit_row f) col s"
    using observe_edit_eq [of f s] by auto
  then show ?thesis using follows_mark [of old s t db "edit_row f" col] edit_field assms(2)
    by (simp del: map_table.simps)
qed (use assms(2) in \<open>auto intro: follows_insert_column\<close>)

lemma follows_run:
  assumes "world_run cs w w'" and "follows old s w"
  shows "\<exists>s'. deliver observe cs s = Some s' \<and> follows old s' w'"
  using assms
proof (induction arbitrary: s rule: world_run.induct)
  case (run_Nil w)
  then show ?case by simp
next
  case (run_Cons c w w' cs w'')
  then obtain s1 where "observe c s = Some s1" "follows old s1 w'" using follows_step by blast
  with run_Cons.IH show ?case by auto
qed

lemma follows_start:
  assumes "info_tables i = []" and "\<forall>t. snd (db t) = replicate (length (fst (db t))) False"
  shows "follows db (new_observer i bs) (None, db)"
  using assms by (simp add: follows_def table_follows_def table_builder_def new_observer_def
      change_info.defs empty_row_tracked)

lemma info_tables_complete: "info_tables (observer_complete s) = map parse_complete (info_tables s)"
proof -
  have "info_tables (foldl (\<lambda>s l. update_target (List_Changes (li_changes l)) clean_up_stale_moves s) s ls)
      = info_tables s" for ls :: "list_info list" and s
    by (induction ls arbitrary: s) (simp_all add: update_target_def)
  then show ?thesis by (simp add: observer_complete_def Let_def)
qed

lemma parse_complete_empty [simp]: "parse_complete empty_builder = empty_builder"
  by (simp add: parse_complete_def empty_builder_def new_builder_def)

lemma table_builder_complete:
  "table_builder (observer_complete s) t = parse_complete (table_builder s t)"
  by (simp add: table_builder_def info_tables_complete)

end
