(* ===== verification/KVO_Adapter.thy ===== *)
theory KVO_Adapter
  imports Transact_Observer
begin

section \<open>Key-value observation\<close>

text \<open>
  \<open>KVOAdapter\<close> of \<open>impl/transact_log_handler.cpp\<close>: from the observed rows it works out which
  tables and lists the observer of the transaction log has to track, and afterwards it turns
  the recorded changes into one \<open>ColumnInfo\<close> per column of every observed row. The group is
  not part of the repository; the constructor only asks it for the column types of a table
  and for the size of a subtable, which are parameters here. Pointers to observers and
  builders are indexes into the lists that hold them, iterators over the ranges of an index
  set are the ranges still to come.
\<close>

datatype change_kind = Kind_None | Kind_Set | Kind_Insert | Kind_Remove | Kind_SetAll

record column_change =
  initial_column_index :: nat
  change_kind :: change_kind
  change_indices :: chunks

record observer_state =
  os_table :: nat
  os_row :: nat
  os_info :: nat
  os_changes :: "column_change list"

record list_watch =
  lw_observer :: nat
  lw_col :: nat
  lw_initial_size :: nat

definition no_column_change :: column_change where
  "no_column_change = \<lparr>initial_column_index = npos, change_kind = Kind_None, change_indices = []\<rparr>"

subsection \<open>What has to be tracked\<close>

definition watch_columns ::
  "(nat \<Rightarrow> data_type list) \<Rightarrow> (nat \<Rightarrow> nat \<Rightarrow> nat \<Rightarrow> nat) \<Rightarrow> nat \<Rightarrow> observer_state \<Rightarrow> list_watch list" where
  "watch_columns column_types subtable_size k ob = concat (map (\<lambda>i.
     let ty = column_types (os_table ob) ! i in
     if ty = type_LinkList then [\<lparr>lw_observer = k, lw_col = i, lw_initial_size = npos\<rparr>]
     else if ty = type_Table
       then [\<lparr>lw_observer = k, lw_col = i, lw_initial_size = subtable_size (os_table ob) i (os_row ob)\<rparr>]
     else []) [0..<length (column_types (os_table ob))])"

definition watch_lists ::
  "(nat \<Rightarrow> data_type list) \<Rightarrow> (nat \<Rightarrow> nat \<Rightarrow> nat \<Rightarrow> nat) \<Rightarrow> observer_state list \<Rightarrow> list_watch list" where
  "watch_lists column_types subtable_size obs =
     concat (map2 (watch_columns column_types subtable_size) [0..<length obs] obs)"

definition tables_needed :: "observer_state list \<Rightarrow> nat list" where
  "tables_needed obs = remdups_adj (sort (map os_table obs))"

definition kvo_info ::
  "(nat \<Rightarrow> data_type list) \<Rightarrow> (nat \<Rightarrow> nat \<Rightarrow> nat \<Rightarrow> nat) \<Rightarrow> observer_state list \<Rightarrow> change_info" where
  "kvo_info column_types subtable_size obs =
     (let none = \<lparr>table_modifications_needed = [], table_moves_needed = [], info_lists = [],
                  info_tables = [], column_indices = [], table_indices = [], track_all = False,
                  schema_changed = False\<rparr>
      in if obs = [] then none
         else
           (let needed = tables_needed obs;
                flags = foldl (\<lambda>fs t. fs[t := True]) (replicate (foldl max 0 needed + 1) False) needed;
                ws = watch_lists column_types subtable_size obs
            in none\<lparr>table_modifications_needed := flags, table_moves_needed := flags,
                    info_lists := map2 (\<lambda>k w. \<lparr>li_table = os_table (obs ! lw_observer w),
                      li_row = os_row (obs ! lw_observer w), li_col = lw_col w, li_changes = k\<rparr>)
                      [0..<length ws] ws\<rparr>))"

subsection \<open>Rows\<close>

definition new_table_ndx :: "nat list \<Rightarrow> nat \<Rightarrow> nat" where
  "new_table_ndx tis ndx = (if ndx < length tis then tis ! ndx else ndx)"

text \<open>The new index of the observed row, or nothing if it was deleted. The moves are sorted by
  their source, so that the lower bound is the first one with a source that is not smaller.\<close>

definition locate_row :: "change_builder \<Rightarrow> nat \<Rightarrow> nat option" where
  "locate_row table idx =
     (case dropWhile (\<lambda>m. mv_from m < idx) (moves table) of
        m # ms \<Rightarrow>
          if mv_from m = idx then Some (mv_to m)
          else if iset_contains (deletions table) idx then None
          else Some (iset_shift (insertions table) (iset_unshift (deletions table) idx))
      | [] \<Rightarrow>
          if iset_contains (deletions table) idx then None
          else Some (iset_shift (insertions table) (iset_unshift (deletions table) idx)))"

definition initial_column :: "nat list list \<Rightarrow> nat \<Rightarrow> nat \<Rightarrow> nat" where
  "initial_column cis table_ndx i =
     (if table_ndx \<ge> length cis \<or> cis ! table_ndx = [] then i
      else let indices = cis ! table_ndx in
        if i \<ge> length indices then (i - length indices + last indices + 1) mod (npos + 1)
        else indices ! i)"

definition column_changes :: "nat list list \<Rightarrow> nat \<Rightarrow> change_builder \<Rightarrow> nat \<Rightarrow> column_change list" where
  "column_changes cis table_ndx table idx = map2 (\<lambda>i c.
     let init = initial_column cis table_ndx i
     in \<lparr>initial_column_index = init,
         change_kind = (if init \<noteq> npos \<and> iset_contains c idx then Kind_Set else Kind_None),
         change_indices = []\<rparr>) [0..<length (columns table)] (columns table)"

text \<open>One observer: its new state and whether it is invalidated.\<close>

definition before_row :: "observer \<Rightarrow> observer_state \<Rightarrow> observer_state \<times> bool" where
  "before_row s ob =
     (let table_ndx = new_table_ndx (table_indices s) (os_table ob) in
      if table_ndx \<ge> length (info_tables s) then (ob, False)
      else let table = info_tables s ! table_ndx in
        case locate_row table (os_row ob) of
          None \<Rightarrow> (ob, True)
        | Some idx \<Rightarrow>
            if iset_contains (modifications table) idx
            then (ob\<lparr>os_changes := column_changes (column_indices s) table_ndx table idx\<rparr>, False)
            else (ob, False))"

subsection \<open>Lists\<close>

definition in_next_range :: "(nat \<times> nat) list \<Rightarrow> nat \<Rightarrow> (nat \<times> nat) list \<times> bool" where
  "in_next_range rs i =
     (let rs = (if rs \<noteq> [] \<and> i \<ge> snd (hd rs) then tl rs else rs)
      in (rs, rs \<noteq> [] \<and> i \<ge> fst (hd rs) \<and> i < snd (hd rs)))"

fun mark_shifted ::
  "nat list \<Rightarrow> (nat \<times> nat) list \<Rightarrow> (nat \<times> nat) list \<Rightarrow> int \<Rightarrow> chunks \<Rightarrow> chunks" where
  "mark_shifted [] del ins shift ind = ind"
| "mark_shifted (i # is) del ins shift ind =
     (let (del, deleted) = in_next_range del i;
          (ins, inserted) = (if deleted then (ins, False)
                             else in_next_range ins (nat ((int i + shift) mod (2 ^ 64))));
          shift = (if deleted then shift - 1 else if inserted then shift + 1 else shift);
          ind = (if shift \<noteq> 0 then iset_add ind i else ind)
      in mark_shifted is del ins shift ind)"

definition moved_indices :: "change_builder \<Rightarrow> chunks" where
  "moved_indices b =
     (let del = flat (deletions b); ins = flat (insertions b);
          ind = iset_add_set (modifications b) (deletions b);
          start = min (fst (hd ins)) (fst (hd del));
          stop = max (snd (last ins)) (snd (last del))
      in mark_shifted [start..<stop] del ins 0 ind)"

definition list_change :: "change_builder \<Rightarrow> nat \<Rightarrow> column_change \<Rightarrow> column_change" where
  "list_change b initial_size ch =
     (if moves b \<noteq> [] \<and> iset_count (insertions b) 0 npos = length (moves b) \<and>
         iset_count (deletions b) 0 npos = length (moves b)
      then ch\<lparr>change_kind := Kind_Set, change_indices := moved_indices b\<rparr>
      else if of_bool (insertions b = []) + of_bool (modifications b = []) +
          of_bool (deletions b = []) < (2 :: nat)
      then ch\<lparr>change_kind := Kind_SetAll\<rparr>
      else if insertions b \<noteq> [] then ch\<lparr>change_kind := Kind_Insert, change_indices := insertions b\<rparr>
      else if modifications b \<noteq> [] then ch\<lparr>change_kind := Kind_Set, change_indices := modifications b\<rparr>
      else ch\<lparr>change_kind := Kind_Remove,
              change_indices := (if last_end (deletions b) > initial_size then set_len initial_size
                                 else deletions b)\<rparr>)"

definition before_list ::
  "list_watch \<Rightarrow> change_builder \<Rightarrow> observer_state list \<Rightarrow> observer_state list" where
  "before_list w b obs =
     (let ob = obs ! lw_observer w; chs = os_changes ob in
      if change_set_empty b then
        (if lw_col w < length chs
         then obs[lw_observer w := ob\<lparr>os_changes := chs[lw_col w := (chs ! lw_col w)\<lparr>change_kind := Kind_None\<rparr>]\<rparr>]
         else obs)
      else if chs = [] then obs
      else
        (let b = b\<lparr>modifications := iset_remove_set (modifications b) (insertions b)\<rparr>
         in obs[lw_observer w := ob\<lparr>os_changes :=
              chs[lw_col w := list_change b (lw_initial_size w) (chs ! lw_col w)]\<rparr>]))"

text \<open>What is handed to \<open>will_change\<close>: the observers and the user data of the invalidated ones;
  nothing when no table was tracked.\<close>

definition kvo_before ::
  "list_watch list \<Rightarrow> observer \<Rightarrow> observer_state list \<Rightarrow> (observer_state list \<times> nat list) option" where
  "kvo_before ws s obs =
     (if info_tables s = [] then None
      else
        (let rs = map (before_row s) obs;
             invalidated = map os_info (filter (\<lambda>ob. snd (before_row s ob)) obs);
             obs = foldl (\<lambda>obs (w, b). before_list w b obs) (map fst rs) (zip ws (list_builders s))
         in Some (obs, invalidated)))"

end
