(* ===== verification/Observer_Lists.thy ===== *)
theory Observer_Lists
  imports Observer_Rows KVO_Adapter
begin

section \<open>Lists, columns and rows that somebody observes\<close>

text \<open>
  The list entries of the change info keep pointing at their rows when rows are removed or
  swapped, the operations on the selected list reach its builder, the column indexes map the
  new columns to the old ones, and the rows that key-value observation asks for are found
  again.
\<close>

subsection \<open>The entries of the lists\<close>

text \<open>What the loop of \<open>erase_rows\<close> is meant to do to one entry.\<close>

definition follow_last :: "nat \<Rightarrow> nat \<Rightarrow> nat \<Rightarrow> list_info \<Rightarrow> list_info" where
  "follow_last cur row_ndx last_row l =
     (if li_table l = cur \<and> li_row l = last_row then l\<lparr>li_row := row_ndx\<rparr> else l)"

lemma prune_lists_untracked:
  assumes "\<forall>l \<in> set (drop i ls). li_table l = cur \<longrightarrow> li_row l \<noteq> row_ndx"
  shows "prune_lists cur row_ndx last_row i ls =
    take i ls @ map (follow_last cur row_ndx last_row) (drop i ls)"
  using assms
proof (induction cur row_ndx last_row i ls rule: prune_lists.induct)
  case (1 cur row_ndx last_row i ls)
  show ?case
  proof (cases "i < length ls")
    case True
    define l where "l = ls ! i"
    define ls' where "ls' = ls[i := follow_last cur row_ndx last_row l]"
    have d: "drop i ls = l # drop (i + 1) ls" using True by (simp add: l_def Cons_nth_drop_Suc)
    then have n: "\<not> (li_table l = cur \<and> li_row l = row_ndx)" using 1(4) by simp
    have same: "drop (i + 1) ls' = drop (i + 1) ls" and tk: "take (i + 1) ls' = take i ls @ [follow_last cur row_ndx last_row l]"
      using True by (simp_all add: ls'_def take_Suc_conv_app_nth)
    have st: "prune_lists cur row_ndx last_row i ls = prune_lists cur row_ndx last_row (i + 1) ls'"
      using True n by (subst prune_lists.simps) (auto simp: ls'_def l_def follow_last_def Let_def)
    have p: "\<forall>l \<in> set (drop (i + 1) ls'). li_table l = cur \<longrightarrow> li_row l \<noteq> row_ndx"
      using 1(4) d same by simp
    have "prune_lists cur row_ndx last_row (i + 1) ls' =
      take (i + 1) ls' @ map (follow_last cur row_ndx last_row) (drop (i + 1) ls')"
    proof (cases "li_table l = cur")
      case False
      then have "ls' = ls" using True by (simp add: ls'_def follow_last_def l_def)
      then show ?thesis using 1(1) [OF True l_def] False p by simp
    next
      case tab: True
      with n have r: "li_row l \<noteq> row_ndx" by simp
      have e: "ls' = (if li_row l = last_row then ls[i := l\<lparr>li_row := row_ndx\<rparr>] else ls)"
        using tab True by (simp add: ls'_def follow_last_def l_def)
      show ?thesis using 1(3) [OF True l_def] tab r p unfolding e by simp
    qed
    then show ?thesis unfolding st by (simp only: tk same d) simp
  next
    case False
    then show ?thesis by (subst prune_lists.simps) simp
  qed
qed

text \<open>The entry that replaces a removed one is not looked at: if it belongs to the last row, it
  keeps the index of the row that has moved away.\<close>

lemma prune_lists_skips:
  "prune_lists t 0 2 0
     [\<lparr>li_table = t, li_row = 0, li_col = c, li_changes = 0\<rparr>,
      \<lparr>li_table = t, li_row = 2, li_col = c, li_changes = 1\<rparr>] =
   [\<lparr>li_table = t, li_row = 2, li_col = c, li_changes = 1\<rparr>]"
  by (simp add: prune_lists.simps)

subsection \<open>The selected list\<close>

text \<open>A list of slots: setting a link modifies a slot, a swap modifies two.\<close>

inductive slots_step :: "list_call \<Rightarrow> 'a list \<times> bool list \<Rightarrow> 'a list \<times> bool list \<Rightarrow> bool" where
  "unat i < length xs \<Longrightarrow> slots_step (Link_List_Set i v n) (xs, fs) (xs, fs[unat i := True])"
| "unat i \<le> length xs \<Longrightarrow> slots_step (Link_List_Insert i v n) (xs, fs)
     (insert_rows (unat i) [y] xs, insert_rows (unat i) [False] fs)"
| "unat i < length xs \<Longrightarrow> slots_step (Link_List_Erase i n) (xs, fs) (drop_nth (unat i) xs, drop_nth (unat i) fs)"
| "unat i < length xs \<Longrightarrow> slots_step (Link_List_Nullify i n) (xs, fs) (drop_nth (unat i) xs, drop_nth (unat i) fs)"
| "unat i < length xs \<Longrightarrow> unat j < length xs \<Longrightarrow>
     slots_step (Link_List_Swap i j) (xs, fs) (xs, fs[unat i := True, unat j := True])"
| "unat n = length xs \<Longrightarrow> slots_step (Link_List_Clear n) (xs, fs) ([], [])"
| "unat i < length xs \<Longrightarrow> unat j < length xs \<Longrightarrow> slots_step (Link_List_Move i j) (xs, fs)
     (insert_rows (unat j) [xs ! unat i] (drop_nth (unat i) xs),
      insert_rows (unat j) [fs ! unat i] (drop_nth (unat i) fs))"

inductive slots_run :: "list_call list \<Rightarrow> 'a list \<times> bool list \<Rightarrow> 'a list \<times> bool list \<Rightarrow> bool" where
  "slots_run [] w w"
| "slots_step c w w' \<Longrightarrow> length (fst w) < npos \<Longrightarrow> slots_run cs w' w'' \<Longrightarrow> slots_run (c # cs) w w''"

fun list_record :: "list_call \<Rightarrow> change_builder \<Rightarrow> change_builder" where
  "list_record (Link_List_Set i v n) c = modify c (unat i) npos"
| "list_record (Link_List_Insert i v n) c = insert_rows_at c (unat i) 1 True"
| "list_record (Link_List_Erase i n) c = erase_row c (unat i)"
| "list_record (Link_List_Nullify i n) c = erase_row c (unat i)"
| "list_record (Link_List_Swap i j) c = modify (modify c (unat i) npos) (unat j) npos"
| "list_record (Link_List_Clear n) c = clear_rows c (unat n)"
| "list_record (Link_List_Move i j) c = move_row c (unat i) (unat j)"

lemma slots_recorded:
  assumes "slots_step l (xs, fs) (xs', fs')" and "recorded old c xs fs" and "length xs < npos"
  shows "recorded old (list_record l c) xs' fs'"
  using assms(1)
proof cases
  case (1 i v n)
  then show ?thesis using recorded.step [OF assms(2) list_step.intros(2) [of "unat i"] assms(3)] by simp
next
  case (2 i v n y)
  then show ?thesis using recorded.step [OF assms(2) list_step.intros(1) [of "unat i" xs "[y]"] assms(3)] by simp
next
  case (3 i n)
  then show ?thesis using recorded.step [OF assms(2) list_step.intros(3) [of "unat i"] assms(3)] by simp
next
  case (4 i n)
  then show ?thesis using recorded.step [OF assms(2) list_step.intros(3) [of "unat i"] assms(3)] by simp
next
  case (5 i j)
  have "recorded old (modify c (unat i) npos) xs (fs[unat i := True])"
    using recorded.step [OF assms(2) list_step.intros(2) [of "unat i"] assms(3)] 5 by simp
  from recorded.step [OF this list_step.intros(2) [of "unat j"] assms(3)] 5 show ?thesis by simp
next
  case (6 n)
  then show ?thesis using recorded.step [OF assms(2) list_step.intros(4) assms(3)] by simp
next
  case (7 i j)
  then show ?thesis using recorded.step [OF assms(2) list_step.intros(5) [of "unat i" xs "unat j"] assms(3)] by simp
qed

lemma observe_links_record:
  assumes "active_list s = Some b" and "b < length (list_builders s)"
  shows "observe_links l s = s\<lparr>list_builders := (list_builders s)[b := list_record l (list_builders s ! b)]\<rparr>"
  using assms by (cases l) (simp_all add: on_active_list_def update_target_def)

lemma slots_observed:
  assumes "slots_run ls w w'" and "recorded old (list_builders s ! b) (fst w) (snd w)"
    and "active_list s = Some b" and "b < length (list_builders s)"
  shows "\<exists>s'. deliver observe (map Links ls) s = Some s' \<and>
    recorded old (list_builders s' ! b) (fst w') (snd w') \<and>
    (\<forall>b'. b' \<noteq> b \<longrightarrow> list_builders s' ! b' = list_builders s ! b') \<and>
    info_lists s' = info_lists s \<and> info_tables s' = info_tables s"
  using assms
proof (induction ls w w' arbitrary: s rule: slots_run.induct)
  case (1 w)
  then show ?case by simp
next
  case (2 c w w' cs w'')
  let ?s = "observe_links c s"
  have s: "?s = s\<lparr>list_builders := (list_builders s)[b := list_record c (list_builders s ! b)]\<rparr>"
    by (rule observe_links_record [OF 2(6,7)])
  have "recorded old (list_record c (list_builders s ! b)) (fst w') (snd w')"
    by (rule slots_recorded [of _ "fst w" "snd w"]) (use 2 in simp_all)
  then have "recorded old (list_builders ?s ! b) (fst w') (snd w')"
    and "active_list ?s = Some b" and "b < length (list_builders ?s)" using 2(6,7) by (simp_all add: s)
  from 2(4) [OF this] show ?case by (auto simp: s)
qed

subsection \<open>Columns\<close>

text \<open>The new columns of a table, mapped to the old ones: \<open>[]\<close> is the identity, and beyond the
  end of the list the columns go on as after its last entry, which is never a new column.\<close>

definition columns_ok :: "nat list \<Rightarrow> bool" where
  "columns_ok L \<longleftrightarrow> (L \<noteq> [] \<longrightarrow> last L < length L) \<and> length L \<le> 2 ^ 62"

definition column_at :: "nat list \<Rightarrow> nat \<Rightarrow> nat" where
  "column_at L i = initial_column [L] 0 i"

lemma initial_column_at: "initial_column cis t i = (if t < length cis then column_at (cis ! t) i else i)"
  by (simp add: initial_column_def column_at_def)

lemma column_at_simps:
  assumes "columns_ok L" and "i < 2 ^ 62"
  shows "column_at L i = (if L = [] then i else if i < length L then L ! i else i - length L + last L + 1)"
proof -
  have "Suc (i + last L - length L) mod 2 ^ 64 = Suc (i + last L - length L)" if "L \<noteq> []"
    using assms that by (intro mod_less) (auto simp: columns_ok_def)
  then show ?thesis by (simp add: column_at_def initial_column_def npos_def Let_def)
qed

lemma expand_to_eq:
  assumes "columns_ok L" and "length L \<le> i"
  shows "expand_to i L = L @ [(if L = [] then 0 else last L + 1)..<(if L = [] then 0 else last L + 1) +
    (max (length L * 2) (i + 1) - length L)]"
proof -
  have "(last L + 1) mod (npos + 1) = last L + 1" if "L \<noteq> []"
    using assms(1) that by (intro mod_less) (auto simp: columns_ok_def npos_def)
  then show ?thesis using assms(2) by (simp add: expand_to_def Let_def last_conv_nth)
qed

lemma expand_to_ok:
  assumes "columns_ok L" and "length L < 2 ^ 60" and "i < 2 ^ 60"
  shows "columns_ok (expand_to i L) \<and> i < length (expand_to i L) \<and> length (expand_to i L) \<le> 2 ^ 61 \<and>
    (\<forall>j < 2 ^ 61. column_at (expand_to i L) j = column_at L j)"
proof (cases "i < length L")
  case True
  then show ?thesis using assms by (simp add: expand_to_def)
next
  case False
  define n where "n = max (length L * 2) (i + 1) - length L"
  define a where "a = (if L = [] then 0 else last L + 1)"
  have n: "0 < n" "length L + n \<le> 2 ^ 61" "i < length L + n"
    using False assms(2,3) by (auto simp: n_def max_def)
  have a: "a \<le> length L" using assms(1) by (auto simp: a_def columns_ok_def)
  have e: "expand_to i L = L @ [a..<a + n]"
    using expand_to_eq [OF assms(1)] False by (simp add: a_def n_def)
  have l: "last (L @ [a..<a + n]) = a + n - 1" using n(1) by (cases n) simp_all
  have ok: "columns_ok (L @ [a..<a + n])" using l n a by (simp add: columns_ok_def)
  have "column_at (L @ [a..<a + n]) j = column_at L j" if "j < 2 ^ 61" for j
    using that n a by (simp add: column_at_simps [OF ok] column_at_simps [OF assms(1)] l nth_append)
      (auto simp: a_def)
  then show ?thesis using ok n unfolding e by simp
qed

lemma insert_column_at:
  assumes "columns_ok L" and "length L < 2 ^ 60" and "ndx < 2 ^ 60"
  shows "columns_ok ((insert_empty_at 0 ndx (expand_to ndx L))[ndx := npos]) \<and>
    (\<forall>i < 2 ^ 60. column_at ((insert_empty_at 0 ndx (expand_to ndx L))[ndx := npos]) i =
      (if i < ndx then column_at L i else if i = ndx then npos else column_at L (i - 1)))"
proof -
  define E where "E = expand_to ndx L"
  have E: "columns_ok E" "ndx < length E" "length E \<le> 2 ^ 61" "\<And>j. j < 2 ^ 61 \<Longrightarrow> column_at E j = column_at L j"
    using expand_to_ok [OF assms] by (simp_all add: E_def)
  have ne: "E \<noteq> []" using E(2) by auto
  let ?F = "take ndx E @ npos # drop ndx E"
  have F: "(insert_empty_at 0 ndx E)[ndx := npos] = ?F"
    using E(2) by (simp add: insert_empty_at_def list_update_append min_def)
  have l: "last ?F = last E" "length ?F = length E + 1" using E(2) by (simp_all add: last_drop)
  have ok: "columns_ok ?F" using E(1,3) l ne by (simp add: columns_ok_def)
  have "column_at ?F i = (if i < ndx then column_at E i else if i = ndx then npos else column_at E (i - 1))"
    if i: "i < 2 ^ 60" for i
  proof -
    have "?F ! i = (if i < ndx then E ! i else if i = ndx then npos else E ! (i - 1))" if "i < length E + 1"
      using that E(2) by (auto simp: nth_append min_def nth_Cons' Suc_diff_Suc)
    moreover have "column_at ?F i = (if i < length ?F then ?F ! i else i - length ?F + last ?F + 1)"
      using column_at_simps [OF ok, of i] i by simp
    moreover have "column_at E k = (if k < length E then E ! k else k - length E + last E + 1)" if "k \<le> i" for k
      using column_at_simps [OF E(1), of k] that i ne by simp
    ultimately show ?thesis using E(2) by (auto simp only: l split: if_splits)
  qed
  then show ?thesis using ok E(4) unfolding E_def [symmetric] F by auto
qed

subsection \<open>Observed rows\<close>

lemma dropWhile_sorted:
  assumes "sorted (map f xs)"
  shows "case dropWhile (\<lambda>x. f x < k) xs of [] \<Rightarrow> k \<notin> f ` set xs
    | y # ys \<Rightarrow> y \<in> set xs \<and> (f y \<noteq> k \<longrightarrow> k \<notin> f ` set xs)"
  using assms
proof (induction xs)
  case (Cons x xs)
  show ?case
  proof (cases "f x < k")
    case True
    then show ?thesis using Cons
      by (cases "dropWhile (\<lambda>x. f x < k) xs") (auto simp del: dropWhile_eq_Nil_conv)
  next
    case False
    then show ?thesis using Cons.prems by fastforce
  qed
qed simp

lemma locate_row_moves:
  assumes "sorted (map mv_from (moves c))"
  shows "(\<exists>m \<in> set (moves c). mv_from m = i \<and> locate_row c i = Some (mv_to m)) \<or>
    i \<notin> mv_from ` set (moves c) \<and>
    locate_row c i = (if iset_contains (deletions c) i then None
      else Some (iset_shift (insertions c) (iset_unshift (deletions c) i)))"
  using dropWhile_sorted [OF assms, of i]
  by (cases "dropWhile (\<lambda>m. mv_from m < i) (moves c)")
    (auto simp: locate_row_def simp del: dropWhile_eq_Nil_conv)

lemma locate_row_correct:
  assumes "sets_ok c" and "edit (elems (deletions c)) (elems (insertions c)) old new"
    and "moves_found c old new" and "sorted (map mv_from (moves c))" and "i < length old"
  shows "case locate_row c i of Some k \<Rightarrow> k < length new \<and> new ! k = old ! i
    | None \<Rightarrow> i \<in> elems (deletions c) \<and> i \<notin> mv_from ` set (moves c)"
  using locate_row_moves [OF assms(4), of i]
proof (elim disjE)
  assume "\<exists>m \<in> set (moves c). mv_from m = i \<and> locate_row c i = Some (mv_to m)"
  then obtain m where m: "m \<in> set (moves c)" "mv_from m = i" "locate_row c i = Some (mv_to m)" by blast
  moreover have "mv_to m < length new" using m(1) assms(2,3) by (auto simp: edit_def moves_found_def)
  ultimately show ?thesis using assms(3) by (auto simp: moves_found_def)
next
  have v: "vec_ok (deletions c)" "vec_ok (insertions c)" using assms(1) by (simp_all add: sets_ok_def)
  assume "i \<notin> mv_from ` set (moves c) \<and> locate_row c i = (if iset_contains (deletions c) i then None
      else Some (iset_shift (insertions c) (iset_unshift (deletions c) i)))"
  then show ?thesis
    using iset.follow_kept [OF v assms(2,5)] iset.contains [OF v(1), of i] by simp
qed

subsection \<open>Moves in an observed list\<close>

text \<open>An index set has only one representation as ranges.\<close>

lemma sorted_ranges_eq:
  "sorted_ranges rs \<Longrightarrow> sorted_ranges qs \<Longrightarrow> rows rs = rows qs \<Longrightarrow> rs = qs"
proof (induction rs arbitrary: qs)
  case Nil
  then show ?case by (cases qs) auto
next
  case (Cons r rs)
  have r: "fst r < snd r" "\<forall>x \<in> rows rs. snd r < x" using Cons.prems(1) by (auto simp: in_rows) fastforce
  then have "rows qs \<noteq> {}" using Cons.prems(3) by auto
  then obtain q qs' where qs: "qs = q # qs'" by (cases qs) auto
  have q: "fst q < snd q" "\<forall>x \<in> rows qs'. snd q < x" using Cons.prems(2) qs by (auto simp: in_rows) fastforce
  have mem: "(fst r \<le> x \<and> x < snd r) \<or> x \<in> rows rs \<longleftrightarrow> (fst q \<le> x \<and> x < snd q) \<or> x \<in> rows qs'" for x
    using Cons.prems(3) qs by (auto simp: set_eq_iff)
  have "fst r = fst q" using mem [of "fst r"] mem [of "fst q"] r q by fastforce
  moreover have "snd r = snd q"
    using mem [of "snd r"] mem [of "snd q"] r q calculation by fastforce
  moreover have "rows rs = rows qs'"
    using mem r q calculation by (intro set_eqI) (metis leD less_imp_le_nat)
  ultimately show ?case using Cons.IH [of qs'] Cons.prems(1,2) qs by (simp add: prod_eq_iff)
qed

lemma flat_unique: "vec_ok m \<Longrightarrow> sorted_ranges rs \<Longrightarrow> elems m = rows rs \<Longrightarrow> flat m = rs"
  using sorted_ranges_eq [of "flat m" rs] by (simp add: vec_ok_def elems_def)

fun shifted_at :: "nat list \<Rightarrow> (nat \<times> nat) list \<Rightarrow> (nat \<times> nat) list \<Rightarrow> int \<Rightarrow> nat set" where
  "shifted_at [] del ins shift = {}"
| "shifted_at (i # is) del ins shift =
     (let (del, deleted) = in_next_range del i;
          (ins, inserted) = (if deleted then (ins, False)
                             else in_next_range ins (nat ((int i + shift) mod (2 ^ 64))));
          shift = (if deleted then shift - 1 else if inserted then shift + 1 else shift)
      in (if shift \<noteq> 0 then {i} else {}) \<union> shifted_at is del ins shift)"

lemma mark_shifted_correct:
  "vec_ok ind \<Longrightarrow> vec_ok (mark_shifted is del ins shift ind) \<and>
    elems (mark_shifted is del ins shift ind) = elems ind \<union> shifted_at is del ins shift"
  by (induction "is" arbitrary: del ins shift ind)
    (auto simp: Let_def add_correct split: prod.splits)

subsection \<open>Key-value observation of moves\<close>

text \<open>Recording a move of a row that was not inserted or moved before.\<close>

lemma move_row_fresh:
  assumes "vec_ok (deletions c)" and "vec_ok (insertions c)" and "src \<notin> elems (insertions c)"
    and "\<forall>m \<in> set (moves c). mv_to m \<noteq> src" and "src < npos"
    and "k \<notin> elems (deletions c)"
    and "k - rank (elems (deletions c)) k = src - rank (elems (insertions c)) src"
  shows "vec_ok (deletions (move_row c src dst)) \<and> vec_ok (insertions (move_row c src dst)) \<and>
    elems (deletions (move_row c src dst)) = insert k (elems (deletions c)) \<and>
    elems (insertions (move_row c src dst)) =
      bump dst 1 ` close src ` (elems (insertions c) - {src}) \<union> {dst} \<and>
    moves (move_row c src dst) = map (\<lambda>m. if mv_to m \<ge> dst \<and> mv_to m < src then m\<lparr>mv_to := mv_to m + 1\<rparr>
      else if mv_to m \<le> dst \<and> mv_to m > src then m\<lparr>mv_to := mv_to m - 1\<rparr> else m) (moves c) @
      [\<lparr>mv_from = k, mv_to = dst\<rparr>]"
proof -
  have mm: "move_moves src dst ms ins False = (map (\<lambda>m. if mv_to m \<ge> dst \<and> mv_to m < src then m\<lparr>mv_to := mv_to m + 1\<rparr>
      else if mv_to m \<le> dst \<and> mv_to m > src then m\<lparr>mv_to := mv_to m - 1\<rparr> else m) ms, ins, False)"
    if "\<forall>m \<in> set ms. mv_to m \<noteq> src" for ms ins
    using that by (induction ms) simp_all
  define u where "u = src - rank (elems (insertions c)) src"
  obtain ins1 del1 x where i: "erase_or_unshift (insertions c) src = (ins1, u)"
    and d: "add_shifted (deletions c) u = (del1, x)"
    using iset.erase_unshift [OF assms(2), of src] assms(3) by (cases "erase_or_unshift (insertions c) src";
        cases "add_shifted (deletions c) u") (auto simp: u_def)
  have i1: "vec_ok ins1" "elems ins1 = close src ` (elems (insertions c) - {src})"
    using iset.erase_unshift [OF assms(2), of src] i by simp_all
  have d1: "vec_ok del1" "elems del1 = insert x (elems (deletions c))" "x \<notin> elems (deletions c)"
    "x - rank (elems (deletions c)) x = u"
    using iset.add_shift [OF assms(1), of u] d by simp_all
  have "x = k" using unrank_inj [OF d1(3) assms(6)] d1(4) assms(7) by (simp add: u_def)
  moreover have "u \<noteq> npos" using assms(5) by (simp add: u_def)
  ultimately show ?thesis
    using i1 d1(1,2) iset.put_in [OF i1(1), of 1 dst] mm [OF assms(4)]
    by (simp add: move_row_def i d Let_def)
qed

lemma clean_up_keep:
  assumes "vec_ok del" and "vec_ok ins"
    and "\<forall>m \<in> set ms. mv_from m - rank (elems del) (mv_from m) \<noteq> mv_to m - rank (elems ins) (mv_to m)"
  shows "clean_up_moves ms del ins = (ms, del, ins)"
proof -
  have "foldl (\<lambda>(kept, del, ins) m.
       if sz_sub (mv_from m) (iset_count del 0 (mv_from m)) \<noteq> sz_sub (mv_to m) (iset_count ins 0 (mv_to m))
       then (kept @ [m], del, ins)
       else (kept, iset_remove del (mv_from m) 1, iset_remove ins (mv_to m) 1)) (kept, del, ins) ms =
    (kept @ ms, del, ins)" for kept
    using assms(3) by (induction ms arbitrary: kept)
      (simp_all add: count_from_zero [OF assms(1)] count_from_zero [OF assms(2)] sz_sub_le rank_le)
  then show ?thesis by (simp add: clean_up_moves_def)
qed

definition two_moves :: change_builder where
  "two_moves = move_row (move_row empty_builder 1 0) 3 1"

lemma two_moves_fields:
  "vec_ok (deletions two_moves) \<and> vec_ok (insertions two_moves) \<and>
   elems (deletions two_moves) = {1, 3} \<and> elems (insertions two_moves) = {0, 1} \<and>
   moves two_moves = [\<lparr>mv_from = 1, mv_to = 0\<rparr>, \<lparr>mv_from = 3, mv_to = 1\<rparr>]"
proof -
  let ?c = "move_row empty_builder 1 0"
  have e: "deletions empty_builder = []" "insertions empty_builder = []" "moves empty_builder = []"
    by (simp_all add: empty_builder_def new_builder_def)
  have n: "1 < npos" "3 < npos" by (simp_all add: npos_def)
  have 1: "vec_ok (deletions ?c) \<and> vec_ok (insertions ?c) \<and> elems (deletions ?c) = {1} \<and>
    elems (insertions ?c) = {0} \<and> moves ?c = [\<lparr>mv_from = 1, mv_to = 0\<rparr>]"
    using move_row_fresh [of empty_builder 1 1 0] n(1) by (simp add: e)
  have r: "rank {1} 3 = 1" "rank {0} 3 = 1"
    using rank_insert [of "{}" 1 3] rank_insert [of "{}" 0 3] by simp_all
  have "bump 1 1 ` close 3 ` ({0} - {3}) \<union> {1} = {0, 1}" by (auto simp: bump_def close_def)
  then show ?thesis
    using move_row_fresh [of ?c 3 3 1] 1 n(2) r unfolding two_moves_def [symmetric] by auto
qed

lemma two_moves_clean: "clean_up_stale_moves two_moves = two_moves"
proof -
  have r: "rank {1, 3} 1 = 0" "rank {1, 3} 3 = 1" "rank {0, 1} 0 = 0" "rank {0, 1} 1 = 1"
    using rank_insert [of "{3}" 1 1] rank_insert [of "{}" 3 1] rank_insert [of "{3}" 1 3]
      rank_insert [of "{}" 3 3] rank_insert [of "{1}" 0 0] rank_insert [of "{}" 1 0]
      rank_insert [of "{1}" 0 1] rank_insert [of "{}" 1 1] by simp_all
  have "clean_up_moves (moves two_moves) (deletions two_moves) (insertions two_moves) =
      (moves two_moves, deletions two_moves, insertions two_moves)"
    using two_moves_fields r by (intro clean_up_keep) auto
  then show ?thesis by (simp add: clean_up_stale_moves_def)
qed

lemma two_moves_change:
  "let ch = list_change two_moves n c
   in change_kind ch = Kind_Set \<and> elems (change_indices ch) = {0, 1, 3}"
proof -
  have f: "vec_ok (deletions two_moves)" "vec_ok (insertions two_moves)"
    "elems (deletions two_moves) = {1, 3}" "elems (insertions two_moves) = {0, 1}"
    "moves two_moves = [\<lparr>mv_from = 1, mv_to = 0\<rparr>, \<lparr>mv_from = 3, mv_to = 1\<rparr>]"
    using two_moves_fields by simp_all
  have "rows [(1, 2), (3, 4)] = {1, 3}" "rows [(0, 2)] = {0, 1}" by auto
  then have fl: "flat (deletions two_moves) = [(1, 2), (3, 4)]" "flat (insertions two_moves) = [(0, 2)]"
    using flat_unique [OF f(1), of "[(1, 2), (3, 4)]"] flat_unique [OF f(2), of "[(0, 2)]"] f(3,4)
    by simp_all
  have mc: "vec_ok (move_col i j ms) \<and> elems (move_col i j ms) = {}" if "vec_ok ms" "elems ms = {}" for i j ms
    using that iset.contains [of ms i] iset.erase [of ms i] iset.make_room [of "erase_at ms i" 1 j]
    by (simp add: move_col_def)
  have mr: "modifications (move_row c i j) = move_col i j (modifications c)" for c i j
    by (simp add: move_row_def Let_def for_each_col_def split: prod.splits)
  have m: "vec_ok (modifications two_moves)" "elems (modifications two_moves) = {}"
    using mc [OF _ _, of "move_col 1 0 []" 3 1] mc [of "[]" 1 0]
    by (simp_all add: two_moves_def mr empty_builder_def new_builder_def vec_ok_def)
  have c: "card {1, 3 :: nat} = 2" "card {0, 1 :: nat} = 2" by simp_all
  have n: "{1, 3} \<subseteq> {..<npos}" "{0, 1} \<subseteq> {..<npos}" by (simp_all add: npos_def)
  have k: "iset_count (insertions two_moves) 0 npos = 2" "iset_count (deletions two_moves) 0 npos = 2"
    using count_from_zero [OF f(1), of npos] count_from_zero [OF f(2), of npos] f(3,4)
      rank_above [OF n(1)] rank_above [OF n(2)] c by simp_all
  have "list_change two_moves n c = c\<lparr>change_kind := Kind_Set, change_indices := moved_indices two_moves\<rparr>"
    using k f(5) by (simp add: list_change_def)
  moreover have "shifted_at [0..<4] [(1, 2), (3, 4)] [(0, 2)] 0 = {0, 3}"
    by code_simp
  moreover have "vec_ok (iset_add_set (modifications two_moves) (deletions two_moves))"
    "elems (iset_add_set (modifications two_moves) (deletions two_moves)) = {1, 3}"
    using add_set_correct [OF m(1) f(1)] f(3) m(2) by simp_all
  ultimately show ?thesis
    using mark_shifted_correct [of "iset_add_set (modifications two_moves) (deletions two_moves)"
        "[0..<4]" "[(1, 2), (3, 4)]" "[(0, 2)]" 0]
    by (auto simp: moved_indices_def fl Let_def)
qed

end
