(* ===== verification/Observer_Props.thy ===== *)
theory Observer_Props
  imports Observer_Lists Change_Props
begin

section \<open>The properties of the transaction log handlers\<close>

text \<open>
  What the notifiers rely on when a transaction is observed: which changes of a table and of a
  list end up in the builders, where an observed row has gone, and which schema changes are
  refused.
\<close>

text \<open>C14: for every table whose modifications and moves are wanted, in whatever order the
  instructions for the different tables come: the builder that the observer has at the end
  of the log turns the old rows of the table into the new ones, its moves are moves of one
  row, sorted by their source, and exactly the rows with a modified field are marked. The log is one
  of those \<open>world_run\<close> describes: it selects top-level tables, appends, removes (moving the last row
  over) and swaps rows, sets fields, edits link lists and adds columns and indexes. Clearing a
  table, merging and moving rows, new tables and subtables are not among them.\<close>

theorem observed_tables:
  assumes "world_run cs (None, old) (cur, new)" and "info_tables i = []"
    and "\<forall>t. snd (old t) = replicate (length (fst (old t))) False"
  shows "\<exists>s. deliver observe cs (new_observer i bs) = Some s \<and>
    (\<forall>t. wanted s t \<and> moves_wanted s t \<longrightarrow>
      (let c = table_builder (observer_complete s) t
       in edit (elems (deletions c)) (elems (insertions c)) (fst (old t)) (fst (new t)) \<and>
          moves_found c (fst (old t)) (fst (new t)) \<and>
          sorted (map mv_from (moves c)) \<and>
          elems (modifications c) = marked (snd (new t))))"
proof -
  obtain s where s: "deliver observe cs (new_observer i bs) = Some s" "follows old s (cur, new)"
    using follows_run [OF assms(1) follows_start [OF assms(2,3)]] by blast
  have "let c = table_builder (observer_complete s) t
       in edit (elems (deletions c)) (elems (insertions c)) (fst (old t)) (fst (new t)) \<and>
          moves_found c (fst (old t)) (fst (new t)) \<and>
          sorted (map mv_from (moves c)) \<and>
          elems (modifications c) = marked (snd (new t))"
    if "wanted s t \<and> moves_wanted s t" for t
  proof -
    have "row_tracked (table_builder s t) (fst (old t)) (fst (new t)) (snd (new t))"
      using s(2) that by (simp add: follows_def table_follows_def)
    from parse_complete_correct [OF this] show ?thesis
      by (simp add: Let_def table_builder_complete)
  qed
  with s(1) show ?thesis by blast
qed

definition sample_info :: change_info where
  "sample_info = \<lparr>table_modifications_needed = [], table_moves_needed = [], info_lists = [],
     info_tables = [], column_indices = [], table_indices = [], track_all = True,
     schema_changed = False\<rparr>"

lemma sample_run:
  "world_run [Group (Select_Table 0 []), Rows (Erase_Rows 0 1 3 True)]
    (None, \<lambda>t. ([5, 6, 7 :: nat], [False, False, False]))
    (Some 0, (\<lambda>t. ([5, 6, 7], [False, False, False]))(0 := ([7, 6], [False, False])))"
proof -
  let ?db = "\<lambda>t :: nat. ([5, 6, 7 :: nat], [False, False, False])"
  have n: "3 \<le> npos" by (simp add: npos_def)
  have 1: "world_step (Group (Select_Table 0 [])) (None, ?db) (Some 0, ?db)"
    using world_step.select [of 0 None ?db] by simp
  have "world_step (Rows (Erase_Rows 0 1 3 True)) (Some 0, ?db)
      (map_table 0 (remove_row 0) (Some 0, ?db))"
    using world_step.erase [of 3 ?db 0 0 1] by simp
  then have 2: "world_step (Rows (Erase_Rows 0 1 3 True)) (Some 0, ?db)
      (Some 0, ?db(0 := ([7, 6], [False, False])))"
    by (simp add: move_last_over_def)
  show ?thesis using n by (intro run_Cons [OF 1] run_Cons [OF 2] run_Nil) simp_all
qed

theorem observed_tables_witness:
  "\<exists>s. deliver observe [Group (Select_Table 0 []), Rows (Erase_Rows 0 1 3 True)]
      (new_observer sample_info []) = Some s \<and>
    edit (elems (deletions (table_builder (observer_complete s) 0)))
      (elems (insertions (table_builder (observer_complete s) 0))) [5, 6, 7 :: nat] [7, 6]"
proof -
  obtain s where s: "deliver observe [Group (Select_Table 0 []), Rows (Erase_Rows 0 1 3 True)]
      (new_observer sample_info []) = Some s"
    and t: "wanted s 0 \<and> moves_wanted s 0 \<longrightarrow>
      edit (elems (deletions (table_builder (observer_complete s) 0)))
      (elems (insertions (table_builder (observer_complete s) 0))) [5, 6, 7 :: nat] [7, 6]"
    using observed_tables [OF sample_run, of sample_info "[]"]
    by (fastforce simp: sample_info_def Let_def numeral_3_eq_3 simp del: deliver.simps)
  have "follows (\<lambda>t. ([5, 6, 7 :: nat], [False, False, False])) (new_observer sample_info [])
      (None, \<lambda>t. ([5, 6, 7], [False, False, False]))"
    by (rule follows_start) (simp_all add: sample_info_def numeral_3_eq_3)
  have "track_all s"
    using s by (auto simp: new_observer_def sample_info_def change_info.defs observe_select_table_def
        Let_def observe_erase_rows_def on_active_table_def update_target_def)
  with s t show ?thesis by (auto simp: wanted_def moves_wanted_def)
qed

text \<open>key-value observation finds the observed row again: in a builder that has recorded the
  changes of its table, the index it computes is that of the row that was observed, and a row
  is only called deleted if it is among the deletions and was not moved.\<close>

theorem kvo_row_followed:
  assumes "rows_recorded old c new fs" and "i < length old"
  shows "case locate_row (parse_complete c) i of
      Some k \<Rightarrow> k < length new \<and> new ! k = old ! i
    | None \<Rightarrow> i \<in> elems (deletions (parse_complete c)) \<and> i \<notin> mv_from ` set (moves (parse_complete c))"
  using parse_complete_correct [OF rows_recorded_tracked [OF assms(1)]] assms(2)
  by (intro locate_row_correct) simp_all

theorem kvo_row_followed_witness:
  "case locate_row (parse_complete
      (record_row_op (record_row_op empty_builder 3 (Swap 0 2)) 3 (Move_last_over 0 :: nat row_op))) 1 of
      Some k \<Rightarrow> k < 2 \<and> [10, 11 :: nat] ! k = 11 | None \<Rightarrow> True"
  using kvo_row_followed [OF rows_recorded_sample, of 1] by (auto split: option.splits)

text \<open>C15: the instructions on a selected link list that somebody observes end up in its builder:
  it stays the record of all changes of the list, and no other builder changes.\<close>

theorem observed_list:
  assumes "slots_run ls (xs, fs) (xs', fs')" and "recorded old (list_builders s ! b) xs fs"
    and "active_list s = Some b" and "b < length (list_builders s)"
  shows "\<exists>s'. deliver observe (map Links ls) s = Some s' \<and>
    (let c = list_builders s' ! b
     in edit (elems (deletions c)) (elems (insertions c)) old xs' \<and>
        elems (modifications c) = marked fs') \<and>
    (\<forall>b'. b' \<noteq> b \<longrightarrow> list_builders s' ! b' = list_builders s ! b')"
proof -
  obtain s' where s': "deliver observe (map Links ls) s = Some s'"
    "recorded old (list_builders s' ! b) xs' fs'"
    "\<forall>b'. b' \<noteq> b \<longrightarrow> list_builders s' ! b' = list_builders s ! b'"
    using slots_observed [OF assms(1), of old s b] assms(2-4) by auto
  then show ?thesis using recorded_tracked [OF s'(2)]
    by (intro exI [of _ s']) (simp add: tracked_def)
qed

theorem observed_list_witness:
  "\<exists>s'. deliver observe [Links (Link_List_Move 0 2), Links (Link_List_Erase 0 3)]
      ((new_observer sample_info [empty_builder])\<lparr>active_list := Some 0\<rparr>) = Some s' \<and>
    edit (elems (deletions (list_builders s' ! 0))) (elems (insertions (list_builders s' ! 0)))
      [10, 11, 12] [12, 10 :: nat]"
proof -
  have "slots_run [Link_List_Move 0 2, Link_List_Erase 0 3]
      ([10, 11, 12 :: nat], [False, False, False]) ([12, 10], [False, False])"
  proof (rule slots_run.intros(2))
    show "slots_step (Link_List_Move 0 2) ([10, 11, 12 :: nat], [False, False, False])
        ([11, 12, 10], [False, False, False])"
      using slots_step.intros(7) [of 0 "[10, 11, 12 :: nat]" 2 "[False, False, False]"]
      by (simp add: insert_rows_def drop_nth_def)
    show "slots_run [Link_List_Erase 0 3] ([11, 12, 10 :: nat], [False, False, False])
        ([12, 10], [False, False])"
    proof (rule slots_run.intros(2))
      show "slots_step (Link_List_Erase 0 3) ([11, 12, 10 :: nat], [False, False, False])
          ([12, 10], [False, False])"
        using slots_step.intros(3) [of 0 "[11, 12, 10 :: nat]" 3 "[False, False, False]"]
        by (simp add: drop_nth_def)
    qed (simp_all add: npos_def slots_run.intros(1))
  qed (simp add: npos_def)
  moreover have "recorded [10, 11, 12 :: nat] empty_builder [10, 11, 12] [False, False, False]"
    using recorded.start [of "[10, 11, 12 :: nat]"] by (simp add: numeral_3_eq_3)
  ultimately show ?thesis
    using observed_list [of "[Link_List_Move 0 2, Link_List_Erase 0 3]" "[10, 11, 12 :: nat]"
        "[False, False, False]" "[12, 10]" "[False, False]" "[10, 11, 12]"
        "((new_observer sample_info [empty_builder])\<lparr>active_list := Some 0\<rparr>)" 0]
    by (fastforce simp: new_observer_def change_info.defs Let_def simp del: deliver.simps)
qed

text \<open>the entry of an observed list stays with its row: when a row without observed lists is
  removed and the last row takes its place, and when two rows are swapped, every entry of
  the table afterwards points at the row it pointed at before.\<close>

theorem list_entries_follow:
  assumes "top_level s" and "cur = current_table s" and "r < length xs" and "length xs \<le> npos"
    and "\<forall>l \<in> set (info_lists s). li_table l = cur \<longrightarrow> li_row l < length xs \<and> li_row l \<noteq> r"
    and "a < b" and "b < length xs"
  shows "list_all2 (\<lambda>l l'. li_table l' = li_table l \<and> li_col l' = li_col l \<and> li_changes l' = li_changes l \<and>
        (if li_table l = cur then li_row l' < length xs - 1 \<and> move_last_over r xs ! li_row l' = xs ! li_row l
         else li_row l' = li_row l))
      (info_lists s) (info_lists (observe_erase_rows r (length xs) True s)) \<and>
    list_all2 (\<lambda>l l'. li_table l' = li_table l \<and> li_col l' = li_col l \<and> li_changes l' = li_changes l \<and>
        (if li_table l = cur then li_row l' < length xs \<and> swap_nth a b xs ! li_row l' = xs ! li_row l
         else li_row l' = li_row l))
      (info_lists s) (info_lists (observe_swap_rows a b s))"
proof (rule conjI)
  have fields: "info_lists (on_active_table f s) = info_lists s" "top_level (on_active_table f s) = top_level s"
    "current_table (on_active_table f s) = current_table s" for f
    by (simp_all add: on_active_table_def update_target_def split: option.splits target.splits)
  have n: "sz_sub (length xs) 1 = length xs - 1" using assms(3) by (cases xs) (simp_all add: sz_sub_le)
  have "info_lists (observe_erase_rows r (length xs) True s) =
      map (follow_last cur r (length xs - 1)) (info_lists s)"
    using prune_lists_untracked [of 0 "info_lists s" cur r "length xs - 1"] assms(1,2,5)
    by (simp add: observe_erase_rows_def Let_def fields n [simplified])
  moreover have "li_row l < length xs \<Longrightarrow> li_row l \<noteq> r \<Longrightarrow> li_row l \<noteq> length xs - 1 \<Longrightarrow>
      move_last_over r xs ! li_row l = xs ! li_row l" for l :: list_info
    by (subst nth_move_last_over) auto
  moreover have "r \<noteq> length xs - 1 \<Longrightarrow> move_last_over r xs ! r = xs ! (length xs - 1)"
    using assms(3) by (subst nth_move_last_over) auto
  ultimately show "list_all2 (\<lambda>l l'. li_table l' = li_table l \<and> li_col l' = li_col l \<and> li_changes l' = li_changes l \<and>
        (if li_table l = cur then li_row l' < length xs - 1 \<and> move_last_over r xs ! li_row l' = xs ! li_row l
         else li_row l' = li_row l))
      (info_lists s) (info_lists (observe_erase_rows r (length xs) True s))"
    using assms(3,5) by (auto simp: list.rel_map list.rel_refl_strong follow_last_def intro!: list.rel_refl_strong)
  show "list_all2 (\<lambda>l l'. li_table l' = li_table l \<and> li_col l' = li_col l \<and> li_changes l' = li_changes l \<and>
        (if li_table l = cur then li_row l' < length xs \<and> swap_nth a b xs ! li_row l' = xs ! li_row l
         else li_row l' = li_row l))
      (info_lists s) (info_lists (observe_swap_rows a b s))"
    using assms(1,2,5-) by (auto simp: observe_swap_rows_def map_lists_def fields list.rel_map swap_nth_def
        nth_list_update intro!: list.rel_refl_strong)
qed

theorem list_entries_follow_witness:
  "list_all2 (\<lambda>l l'. move_last_over 1 [5, 6, 7, 8 :: nat] ! li_row l' = 8)
    [\<lparr>li_table = 0, li_row = 3, li_col = 1, li_changes = 0\<rparr>]
    (info_lists (observe_erase_rows 1 (length [5, 6, 7, 8 :: nat]) True
      ((new_observer sample_info [])\<lparr>info_lists :=
        [\<lparr>li_table = 0, li_row = 3, li_col = 1, li_changes = 0\<rparr>]\<rparr>)))"
proof -
  have "length [5, 6, 7, 8 :: nat] \<le> npos" "3 < length [5, 6, 7, 8 :: nat]" by (simp_all add: npos_def)
  then show ?thesis
    using list_entries_follow [of "(new_observer sample_info [])\<lparr>info_lists :=
        [\<lparr>li_table = 0, li_row = 3, li_col = 1, li_changes = 0\<rparr>]\<rparr>" 0 1 "[5, 6, 7, 8 :: nat]" 0 2]
    by (auto simp: new_observer_def change_info.defs list_all2_Cons1 simp del: list.size)
qed

text \<open>the loop over the lists passes over the entry that it moves into the place of a removed
  one: when the lists of the removed row and of the last row are both observed, the entry of
  the last row is not updated, so that it points beyond the end of the table and the list is
  not found any more when it is selected.\<close>

theorem erase_rows_skips_list:
  assumes "top_level s" and "active_table s = None"
    and "info_lists s =
      [\<lparr>li_table = current_table s, li_row = 0, li_col = c, li_changes = 0\<rparr>,
       \<lparr>li_table = current_table s, li_row = 2, li_col = c, li_changes = 1\<rparr>]"
  shows "\<exists>s'. observe (Rows (Erase_Rows 0 1 3 True)) s = Some s' \<and>
    info_lists s' = [\<lparr>li_table = current_table s, li_row = 2, li_col = c, li_changes = 1\<rparr>] \<and>
    find_list (current_table s) c 0 s' = None"
proof -
  have "sz_sub 3 1 = 2" by (simp add: sz_sub_le)
  then show ?thesis using assms prune_lists_skips [of "current_table s" c]
    by (simp add: observe_erase_rows_def Let_def on_active_table_def find_list_def)
qed

theorem erase_rows_skips_list_witness:
  "\<exists>s'. observe (Rows (Erase_Rows 0 1 3 True)) ((new_observer sample_info [])\<lparr>info_lists :=
      [\<lparr>li_table = 0, li_row = 0, li_col = 4, li_changes = 0\<rparr>,
       \<lparr>li_table = 0, li_row = 2, li_col = 4, li_changes = 1\<rparr>]\<rparr>) = Some s' \<and>
    find_list 0 4 0 s' = None"
  using erase_rows_skips_list [of "(new_observer sample_info [])\<lparr>info_lists :=
      [\<lparr>li_table = 0, li_row = 0, li_col = 4, li_changes = 0\<rparr>,
       \<lparr>li_table = 0, li_row = 2, li_col = 4, li_changes = 1\<rparr>]\<rparr>" 4]
  by (auto simp: new_observer_def change_info.defs)

text \<open>inserting a column keeps the map from the columns of the table to the columns it had at
  first: the columns before the new one keep their origin, the new one has none, and the ones
  behind it have the origin of their left neighbour; other tables are not affected.\<close>

theorem column_indices_follow:
  assumes "active_descriptor s = active_table s" and "top_level s" and "t = current_table s"
    and "t < length (column_indices s) \<longrightarrow> columns_ok (column_indices s ! t) \<and>
      length (column_indices s ! t) < 2 ^ 60"
    and "ndx < 2 ^ 60" and "i < 2 ^ 60"
  shows "columns_ok (column_indices (observe_insert_column ndx s) ! t) \<and>
    initial_column (column_indices (observe_insert_column ndx s)) t i =
      (if i < ndx then initial_column (column_indices s) t i
       else if i = ndx then npos
       else initial_column (column_indices s) t (i - 1)) \<and>
    (t' \<noteq> t \<longrightarrow> initial_column (column_indices (observe_insert_column ndx s)) t' i =
       initial_column (column_indices s) t' i)"
proof -
  define L where "L = (if t < length (column_indices s) then column_indices s ! t else [])"
  define R where "R = resize_to (t + 1) [] (column_indices s)"
  define s0 where "s0 = s\<lparr>schema_changed := True\<rparr>"
  define s1 where "s1 = (case active_descriptor s0 of None \<Rightarrow> s0
    | Some x \<Rightarrow> update_target x (\<lambda>c. insert_column c ndx) s0)"
  have s1: "active_descriptor s1 = active_table s1" "top_level s1" "current_table s1 = t"
    "column_indices s1 = column_indices s"
    using assms(1-3) by (simp_all add: s1_def s0_def update_target_def split: option.splits target.splits)
  have "columns_ok L" "length L < 2 ^ 60" using assms(4) by (simp_all add: L_def columns_ok_def)
  note L = insert_column_at [OF this assms(5)]
  have R: "R ! t = L" "length R = max (length (column_indices s)) (t + 1)"
    "\<And>u. u \<noteq> t \<Longrightarrow> u < length R \<Longrightarrow> R ! u = (if u < length (column_indices s) then column_indices s ! u else [])"
    by (auto simp: R_def L_def resize_to_def resize_def nth_append)
  have ci: "column_indices (observe_insert_column ndx s) =
      R[t := (insert_empty_at 0 ndx (expand_to ndx L))[ndx := npos]]"
    using s1 R(1) unfolding observe_insert_column_def
    by (simp add: Let_def s1_def [symmetric] s0_def [symmetric] map_lists_def R_def)
  have old: "initial_column (column_indices s) t j = column_at L j" if "j < 2 ^ 60" for j
    using that column_at_simps [of "[]" j] by (simp add: initial_column_at L_def columns_ok_def)
  have "initial_column (R[t := X]) t' i = initial_column (column_indices s) t' i" if "t' \<noteq> t" for X
    using that R(2) R(3) [of t'] column_at_simps [of "[]" i] assms(6)
    by (auto simp: initial_column_at columns_ok_def)
  note other = this
  have "t < length R" "t < length (R[t := X])" for X using R(2) by simp_all
  then show ?thesis unfolding ci using L assms(6) other old
    by (intro conjI impI) (simp_all add: initial_column_at [of "R[t := _]" t])
qed

theorem column_indices_follow_witness:
  "map (initial_column (column_indices (observe_insert_column 1 (new_observer sample_info []))) 0) [0, 1, 2, 3] =
    [0, npos, 1, 2]"
  using column_indices_follow [of "new_observer sample_info []" 0 1 0]
    column_indices_follow [of "new_observer sample_info []" 0 1 1]
    column_indices_follow [of "new_observer sample_info []" 0 1 2]
    column_indices_follow [of "new_observer sample_info []" 0 1 3]
  by (simp add: new_observer_def change_info.defs sample_info_def initial_column_def)

lemma current_table_on_active [simp]: "current_table (on_active_table f s) = current_table s"
  by (simp add: on_active_table_def update_target_def split: option.splits target.splits)

lemma current_table_on_list [simp]: "current_table (on_active_list f s) = current_table s"
  by (simp add: on_active_list_def update_target_def split: option.splits)

lemma current_table_rows: "current_table (observe_rows c s) = current_table s"
  by (cases c) (simp_all add: observe_insert_rows_def observe_erase_rows_def observe_swap_rows_def
      observe_merge_rows_def observe_clear_table_def map_lists_def Let_def)

lemma current_table_column: "current_table (observe_insert_column ndx s) = current_table s"
  by (simp add: observe_insert_column_def map_lists_def Let_def update_target_def
      split: option.splits target.splits)

lemma current_table_select: "current_table (observe_select_table g path s) = unat g"
  by (simp add: observe_select_table_def select_subtable_def mark_dirty_def Let_def
      split: list.splits option.splits)

lemma current_table_group:
  "map_option current_table (observe_group g s) = validate_group g (current_table s)"
  by (cases g) (simp_all add: current_table_select observe_select_descriptor_def
      observe_select_link_list_def observe_insert_table_def prepare_table_indices_def
      map_lists_def mark_dirty_def Let_def)

text \<open>the validator and the observer refuse the same instructions: removing and renaming
  tables and columns, and nothing else; where both go on they agree on the selected table.\<close>

theorem refused_calls:
  "map_option current_table (observe c s) = validate c (current_table s) \<and>
   (validate c cur = None \<longleftrightarrow>
     (\<exists>t n. c = Group (Erase_Group_Level_Table t n)) \<or> (\<exists>t name. c = Group (Rename_Group_Level_Table t name)) \<or>
     (\<exists>col. c = Column (Erase_Column col)) \<or> (\<exists>col t b. c = Column (Erase_Link_Column col t b)) \<or>
     (\<exists>col name. c = Column (Rename_Column col name)))"
proof (cases c)
  case (Group g)
  then show ?thesis using current_table_group [of g s] by (cases g) simp_all
next
  case (Rows g)
  then show ?thesis by (simp add: current_table_rows)
next
  case (Field g)
  then show ?thesis using observe_field_eq [of g s] by (auto simp: mark_dirty_def)
next
  case (Edit g)
  then show ?thesis using observe_edit_eq [of g s] by (auto simp: mark_dirty_def)
next
  case (Column g)
  then show ?thesis by (cases g) (simp_all add: current_table_column)
next
  case (Links g)
  then show ?thesis by (cases g) simp_all
qed

text \<open>key-value observation loses a position when several links move. After moving the link
  at \<open>1\<close> to the front and then the last link to \<open>1\<close>, the list has other links at all four
  positions, but only \<open>0\<close>, \<open>1\<close> and \<open>3\<close> are reported as set: the loop that looks for shifted
  links counts a run of insertions once and arrives at position \<open>2\<close> with a shift of zero.\<close>

theorem kvo_misses_moved_link:
  "recorded [10, 11, 12, 13] two_moves [11, 13, 10, 12 :: nat] [False, False, False, False] \<and>
   (let ch = list_change (clean_up_stale_moves two_moves) n c
    in change_kind ch = Kind_Set \<and> elems (change_indices ch) = {0, 1, 3}) \<and>
   list_all2 (\<noteq>) [10, 11, 12, 13] [11, 13, 10, 12 :: nat]"
proof -
  have n: "Suc (Suc (Suc (Suc 0))) < npos" by (simp add: npos_def)
  have 1: "recorded [10, 11, 12, 13] (move_row empty_builder 1 0) [11, 10, 12, 13 :: nat] [False, False, False, False]"
    using recorded.step [OF recorded.start [of "[10, 11, 12, 13 :: nat]"] list_step.intros(5) [of 1 _ 0]]
    by (simp add: insert_rows_def drop_nth_def n)
  have 2: "recorded [10, 11, 12, 13] two_moves [11, 13, 10, 12 :: nat] [False, False, False, False]"
    using recorded.step [OF 1 list_step.intros(5) [of 3 _ 1]]
    by (simp add: insert_rows_def drop_nth_def n two_moves_def)
  show ?thesis using 2 two_moves_change two_moves_clean by simp
qed

end
