(* ===== verification/Property_Type.thy ===== *)
theory Property_Type
  imports Std_Algorithms Transact_Encode
begin

section \<open>Properties\<close>

text \<open>
  \<open>PropertyType\<close> and \<open>Property\<close> of \<open>property.hpp\<close>, and the two orders on strings that the
  schema code uses: \<open>std::string\<close> compares bytes as unsigned, \<open>StringData\<close>
  (\<open>realm/string_data.hpp\<close>) compares them as \<open>char\<close>, which is signed on the platforms the
  library is built for. A string is its list of bytes; the null \<open>StringData\<close> does not occur here.
\<close>

subsection \<open>Strings\<close>

fun lex_less :: "('a \<Rightarrow> 'a \<Rightarrow> bool) \<Rightarrow> 'a list \<Rightarrow> 'a list \<Rightarrow> bool" where
  "lex_less lt xs [] = False"
| "lex_less lt [] (y # ys) = True"
| "lex_less lt (x # xs) (y # ys) = (if lt x y then True else if lt y x then False else lex_less lt xs ys)"

definition string_less :: "bytes \<Rightarrow> bytes \<Rightarrow> bool" where
  "string_less = lex_less (<)"

definition string_data_less :: "bytes \<Rightarrow> bytes \<Rightarrow> bool" where
  "string_data_less = lex_less word_sless"

lemma lex_less_Cons:
  assumes "strict_total lt"
  shows "lex_less lt (x # xs) (y # ys) \<longleftrightarrow> lt x y \<or> x = y \<and> lex_less lt xs ys"
proof -
  note D = strict_weakD [OF strict_totalD(1) [OF assms]]
  consider "lt x y" | "\<not> lt x y" "lt y x" | "\<not> lt x y" "\<not> lt y x" by blast
  then show ?thesis
  proof cases
    case 1
    then show ?thesis by simp
  next
    case 2
    have "x \<noteq> y"
    proof
      assume "x = y"
      with 2(2) D(1) [of x] show False by simp
    qed
    with 2 show ?thesis by simp
  next
    case 3
    then have "x = y" by (rule strict_totalD(2) [OF assms])
    with 3 show ?thesis by simp
  qed
qed

lemma strict_total_lex_less:
  assumes lt: "strict_total lt"
  shows "strict_total (lex_less lt)"
proof (rule strict_totalI)
  note D = strict_weakD [OF strict_totalD(1) [OF lt]]
  show "\<not> lex_less lt xs xs" for xs by (induction xs) (simp_all add: D(1))
  show "lex_less lt xs zs" if "lex_less lt xs ys" "lex_less lt ys zs" for xs ys zs
    using that
  proof (induction xs arbitrary: ys zs)
    case Nil
    then show ?case by (cases ys; cases zs) simp_all
  next
    case (Cons x xs)
    then obtain y ys' z zs' where "ys = y # ys'" "zs = z # zs'" by (cases ys; cases zs) auto
    with Cons.prems have "lt x y \<or> x = y \<and> lex_less lt xs ys'" "lt y z \<or> y = z \<and> lex_less lt ys' zs'"
      by (simp_all only: lex_less_Cons [OF lt])
    with Cons.IH D(2) have "lt x z \<or> x = z \<and> lex_less lt xs zs'" by metis
    with \<open>zs = _\<close> show ?case by (simp only: lex_less_Cons [OF lt])
  qed
  show "xs = ys" if "\<not> lex_less lt xs ys" "\<not> lex_less lt ys xs" for xs ys
    using that
  proof (induction xs arbitrary: ys)
    case Nil
    then show ?case by (cases ys) simp_all
  next
    case (Cons x xs)
    then obtain y ys' where "ys = y # ys'" by (cases ys) simp_all
    with Cons.prems have "\<not> lt x y" "\<not> lt y x" "\<not> lex_less lt xs ys'" "\<not> lex_less lt ys' xs"
      by (auto split: if_splits)
    with Cons.IH [of ys'] strict_totalD(2) [OF lt, of x y] \<open>ys = _\<close> show ?case by simp
  qed
qed

lemma string_less_total: "strict_total string_less"
  unfolding string_less_def by (intro strict_total_lex_less strict_totalI) auto

lemma sint_inj: "sint x = sint y \<Longrightarrow> x = (y :: 'a :: len word)"
  by (rule signed_word_eqI)

lemma string_data_less_total: "strict_total string_data_less"
  unfolding string_data_less_def
  by (intro strict_total_lex_less strict_totalI) (auto simp: word_sless_alt intro: sint_inj)

text \<open>On ASCII strings the two orders agree.\<close>

definition ascii :: "bytes \<Rightarrow> bool" where
  "ascii s \<longleftrightarrow> list_all (\<lambda>b. b < 128) s"

lemma sless_ascii: "x < 128 \<Longrightarrow> y < 128 \<Longrightarrow> word_sless x y \<longleftrightarrow> x < (y :: byte)"
proof -
  have "sint b = uint b" if "b < 128" for b :: byte
    using that signed_take_bit_int_eq_self [of 7 "uint b"] order_trans [OF _ uint_ge_0 [of b], of "- 128"]
    by (simp add: sint_uint word_less_def)
  then show "x < 128 \<Longrightarrow> y < 128 \<Longrightarrow> ?thesis" by (simp add: word_sless_alt word_less_def)
qed

lemma string_data_less_ascii: "ascii s \<Longrightarrow> ascii t \<Longrightarrow> string_data_less s t \<longleftrightarrow> string_less s t"
  unfolding string_data_less_def string_less_def
proof (induction s arbitrary: t)
  case Nil
  then show ?case by (cases t) simp_all
next
  case (Cons x s)
  then show ?case by (cases t) (simp_all add: ascii_def sless_ascii)
qed

subsection \<open>\<open>PropertyType\<close>\<close>

text \<open>An \<open>unsigned char\<close>: a base type, and the flags for nullable and array. \<open>==\<close> on property
  types ignores the flags.\<close>

type_synonym property_type = "8 word"

definition PT_Int :: property_type where "PT_Int = 0"
definition PT_Bool :: property_type where "PT_Bool = 1"
definition PT_String :: property_type where "PT_String = 2"
definition PT_Data :: property_type where "PT_Data = 3"
definition PT_Date :: property_type where "PT_Date = 4"
definition PT_Float :: property_type where "PT_Float = 5"
definition PT_Double :: property_type where "PT_Double = 6"
definition PT_Object :: property_type where "PT_Object = 7"
definition PT_LinkingObjects :: property_type where "PT_LinkingObjects = 8"
definition PT_Any :: property_type where "PT_Any = 9"
definition PT_Required :: property_type where "PT_Required = 0"
definition PT_Nullable :: property_type where "PT_Nullable = 64"
definition PT_Array :: property_type where "PT_Array = 128"

lemmas PT_defs = PT_Int_def PT_Bool_def PT_String_def PT_Data_def PT_Date_def PT_Float_def
  PT_Double_def PT_Object_def PT_LinkingObjects_def PT_Any_def PT_Required_def PT_Nullable_def
  PT_Array_def

unbundle bit_operations_syntax

definition PT_Flags :: property_type where "PT_Flags = PT_Nullable OR PT_Array"

definition pt_base :: "property_type \<Rightarrow> property_type" where
  "pt_base t = t AND NOT PT_Flags"

definition pt_eq :: "property_type \<Rightarrow> property_type \<Rightarrow> bool" where
  "pt_eq a b \<longleftrightarrow> pt_base a = pt_base b"

definition is_array :: "property_type \<Rightarrow> bool" where
  "is_array t \<longleftrightarrow> t AND PT_Array = PT_Array"

definition is_nullable :: "property_type \<Rightarrow> bool" where
  "is_nullable t \<longleftrightarrow> t AND PT_Nullable = PT_Nullable"

text \<open>A type is its base and its two flags.\<close>

lemma bit_Nullable: "bit PT_Nullable n \<longleftrightarrow> n = 6" and bit_Array: "bit PT_Array n \<longleftrightarrow> n = 7"
  using bit_exp_iff [where 'a = "8 word", of 6 n] bit_exp_iff [where 'a = "8 word", of 7 n]
  by (auto simp: PT_defs)

lemma is_array_bit: "is_array t \<longleftrightarrow> bit t 7" and is_nullable_bit: "is_nullable t \<longleftrightarrow> bit t 6"
proof -
  have "t AND PT_Array = (if bit t 7 then PT_Array else 0)"
    by (rule bit_eqI) (auto simp: bit_and_iff bit_Array)
  then show "is_array t \<longleftrightarrow> bit t 7" by (simp add: is_array_def PT_defs)
  have "t AND PT_Nullable = (if bit t 6 then PT_Nullable else 0)"
    by (rule bit_eqI) (auto simp: bit_and_iff bit_Nullable)
  then show "is_nullable t \<longleftrightarrow> bit t 6" by (simp add: is_nullable_def PT_defs)
qed

lemma bit_base: "bit (pt_base t) n \<longleftrightarrow> bit t n \<and> n \<noteq> 6 \<and> n \<noteq> 7"
  using bit_imp_le_length [of t n]
  by (auto simp: pt_base_def PT_Flags_def bit_and_iff bit_not_iff bit_or_iff bit_Array bit_Nullable)

lemma pt_split: "t = (if is_array t then PT_Array else 0) OR (if is_nullable t then PT_Nullable else 0)
    OR pt_base t"
  by (rule bit_eqI) (auto simp: bit_or_iff bit_base is_array_bit is_nullable_bit bit_Array bit_Nullable)

lemma pt_ext: "pt_eq a b \<Longrightarrow> is_array a = is_array b \<Longrightarrow> is_nullable a = is_nullable b \<Longrightarrow> a = b"
  using pt_split [of a] pt_split [of b] by (metis pt_eq_def)

subsection \<open>\<open>Property\<close>\<close>

text \<open>\<open>table_column\<close> is a \<open>size_t\<close> that starts as -1.\<close>

record property =
  p_name :: bytes
  public_name :: bytes
  p_type :: property_type
  object_type :: bytes
  link_origin_property_name :: bytes
  is_primary :: bool
  is_indexed :: bool
  table_column :: nat

definition new_property :: property where
  "new_property = \<lparr>p_name = [], public_name = [], p_type = PT_Int, object_type = [],
     link_origin_property_name = [], is_primary = False, is_indexed = False, table_column = 2 ^ 64 - 1\<rparr>"

definition value_property :: "bytes \<Rightarrow> property_type \<Rightarrow> bool \<Rightarrow> bool \<Rightarrow> bytes \<Rightarrow> property" where
  "value_property n ty primary indexed public = new_property\<lparr>p_name := n, public_name := public,
     p_type := ty, is_primary := primary, is_indexed := indexed\<rparr>"

definition link_property :: "bytes \<Rightarrow> property_type \<Rightarrow> bytes \<Rightarrow> bytes \<Rightarrow> bytes \<Rightarrow> property" where
  "link_property n ty obj origin public = new_property\<lparr>p_name := n, public_name := public,
     p_type := ty, object_type := obj, link_origin_property_name := origin\<rparr>"

definition requires_index :: "property \<Rightarrow> bool" where
  "requires_index p \<longleftrightarrow> is_primary p \<or> is_indexed p"

definition type_is_indexable :: "property \<Rightarrow> bool" where
  "type_is_indexable p \<longleftrightarrow> pt_eq (p_type p) PT_Int \<or> pt_eq (p_type p) PT_Bool \<or>
     pt_eq (p_type p) PT_Date \<or> pt_eq (p_type p) PT_String"

definition type_is_nullable :: "property \<Rightarrow> bool" where
  "type_is_nullable p \<longleftrightarrow> \<not> (is_array (p_type p) \<and> pt_eq (p_type p) PT_Object) \<and>
     \<not> pt_eq (p_type p) PT_LinkingObjects"

definition property_eq :: "property \<Rightarrow> property \<Rightarrow> bool" where
  "property_eq l r \<longleftrightarrow> p_type l = p_type r \<and> is_primary l = is_primary r \<and>
     requires_index l = requires_index r \<and> p_name l = p_name r \<and> object_type l = object_type r \<and>
     link_origin_property_name l = link_origin_property_name r"

text \<open>Text in messages; a literal is turned into its bytes.\<close>

definition lit :: "string \<Rightarrow> bytes" where
  "lit s = map (\<lambda>c. of_nat (of_char c)) s"

definition string_for_property_type :: "property_type \<Rightarrow> bytes" where
  "string_for_property_type t =
     (if is_array t then
        if pt_eq t PT_LinkingObjects then lit ''linking objects'' else lit ''array''
      else let b = pt_base t in
        if b = PT_String then lit ''string''
        else if b = PT_Int then lit ''int''
        else if b = PT_Bool then lit ''bool''
        else if b = PT_Date then lit ''date''
        else if b = PT_Data then lit ''data''
        else if b = PT_Double then lit ''double''
        else if b = PT_Float then lit ''float''
        else if b = PT_Object then lit ''object''
        else if b = PT_Any then lit ''any''
        else lit ''linking objects'')"

definition type_string :: "property \<Rightarrow> bytes" where
  "type_string p =
     (let t = p_type p; b = pt_base t in
      if is_array t then
        if pt_eq t PT_Object then lit ''array<'' @ object_type p @ lit ''>''
        else if pt_eq t PT_LinkingObjects then lit ''linking objects<'' @ object_type p @ lit ''>''
        else lit ''array<'' @ string_for_property_type b @ lit ''>''
      else
        if b = PT_Object then lit ''<'' @ object_type p @ lit ''>''
        else if b = PT_LinkingObjects then lit ''linking objects<'' @ object_type p @ lit ''>''
        else string_for_property_type b)"

end
