(* ===== verification/Object_Schema.thy ===== *)
theory Object_Schema
  imports Property_Type
begin

section \<open>Object schemas\<close>

text \<open>
  \<open>ObjectSchema\<close> (\<open>object_schema.cpp\<close>): the properties of a class, how they are found by name,
  and how a class is read from a table of the file. What the storage engine answers about its
  tables is given as data: a \<open>core_column\<close> per column and the rows of the table of primary
  keys. A pointer to a property becomes the property, and an assignment through such a pointer
  becomes \<open>update_property\<close>.
\<close>

record object_schema =
  o_name :: bytes
  persisted_properties :: "property list"
  computed_properties :: "property list"
  primary_key :: bytes

definition new_object_schema :: "bytes \<Rightarrow> property list \<Rightarrow> property list \<Rightarrow> object_schema" where
  "new_object_schema name persisted computed =
     \<lparr>o_name = name, persisted_properties = persisted, computed_properties = computed,
      primary_key = (case find is_primary persisted of Some p \<Rightarrow> p_name p | None \<Rightarrow> [])\<rparr>"

subsection \<open>Finding properties\<close>

definition property_for_name :: "object_schema \<Rightarrow> bytes \<Rightarrow> property option" where
  "property_for_name os name =
     (case find (\<lambda>p. p_name p = name) (persisted_properties os) of
        Some p \<Rightarrow> Some p
      | None \<Rightarrow> find (\<lambda>p. p_name p = name) (computed_properties os))"

definition property_for_public_name :: "object_schema \<Rightarrow> bytes \<Rightarrow> property option" where
  "property_for_public_name os public =
     (case find (\<lambda>p. public_name p = public \<or> public_name p = [] \<and> p_name p = public)
         (persisted_properties os) of
        Some p \<Rightarrow> Some p
      | None \<Rightarrow> find (\<lambda>p. (if public_name p = [] then p_name p else public_name p) = public)
          (computed_properties os))"

definition primary_key_property :: "object_schema \<Rightarrow> property option" where
  "primary_key_property os = property_for_name os (primary_key os)"

definition property_is_computed :: "object_schema \<Rightarrow> property \<Rightarrow> bool" where
  "property_is_computed os p \<longleftrightarrow> (\<exists>q\<in>set (computed_properties os). property_eq q p)"

fun update_first :: "bytes \<Rightarrow> (property \<Rightarrow> property) \<Rightarrow> property list \<Rightarrow> property list" where
  "update_first name f [] = []"
| "update_first name f (p # ps) = (if p_name p = name then f p # ps else p # update_first name f ps)"

definition update_property :: "bytes \<Rightarrow> (property \<Rightarrow> property) \<Rightarrow> object_schema \<Rightarrow> object_schema" where
  "update_property name f os =
     (if find (\<lambda>p. p_name p = name) (persisted_properties os) \<noteq> None
      then os\<lparr>persisted_properties := update_first name f (persisted_properties os)\<rparr>
      else os\<lparr>computed_properties := update_first name f (computed_properties os)\<rparr>)"

definition set_primary_key_property :: "object_schema \<Rightarrow> object_schema" where
  "set_primary_key_property os =
     (if primary_key os \<noteq> []
      then update_property (primary_key os) (\<lambda>p. p\<lparr>is_primary := True\<rparr>) os else os)"

subsection \<open>Reading a class from the file\<close>

datatype core_column = Core_Column (col_name: bytes) (col_type: data_type) (col_nullable: bool)
  (col_index: bool) (col_target: bytes) (col_sub: "core_column list")

text \<open>A column of type table is a list of primitive values when it has a single subcolumn of
  this name. \<open>from_core_type\<close> has no result for the types that do not occur in a file.\<close>

definition ArrayColumnName :: bytes where
  "ArrayColumnName = lit ''!ARRAY_VALUE''"

fun from_core_type :: "core_column \<Rightarrow> property_type option" where
  "from_core_type (Core_Column n ty nullable idx tgt sub) =
     (let opt = (if nullable then PT_Nullable else PT_Required) in
      case ty of
        type_Int \<Rightarrow> Some (PT_Int OR opt)
      | type_Float \<Rightarrow> Some (PT_Float OR opt)
      | type_Double \<Rightarrow> Some (PT_Double OR opt)
      | type_Bool \<Rightarrow> Some (PT_Bool OR opt)
      | type_String \<Rightarrow> Some (PT_String OR opt)
      | type_Binary \<Rightarrow> Some (PT_Data OR opt)
      | type_Timestamp \<Rightarrow> Some (PT_Date OR opt)
      | type_Mixed \<Rightarrow> Some (PT_Any OR opt)
      | type_Link \<Rightarrow> Some (PT_Object OR PT_Nullable)
      | type_LinkList \<Rightarrow> Some (PT_Object OR PT_Array)
      | type_Table \<Rightarrow> (case sub of [] \<Rightarrow> None
          | c # _ \<Rightarrow> map_option (\<lambda>t. t OR PT_Array) (from_core_type c))
      | type_OldDateTime \<Rightarrow> None)"

definition c_object_table_prefix :: bytes where
  "c_object_table_prefix = lit ''class_''"

definition object_type_for_table_name :: "bytes \<Rightarrow> bytes" where
  "object_type_for_table_name name =
     (if take (length c_object_table_prefix) name = c_object_table_prefix
      then drop (length c_object_table_prefix) name else [])"

definition table_name_for_object_type :: "bytes \<Rightarrow> bytes" where
  "table_name_for_object_type ty = c_object_table_prefix @ ty"

text \<open>\<open>object_id_column\<close> is the name of the column that synchronisation adds to its tables, which
  is defined in a header that is not in the repository.\<close>

definition property_for_column_index :: "bytes \<Rightarrow> core_column list \<Rightarrow> nat \<Rightarrow> property option option" where
  "property_for_column_index object_id_column cols i =
     (let c = cols ! i in
      if col_name c = object_id_column then Some None
      else if col_type c = type_Table \<and>
          (length (col_sub c) \<noteq> 1 \<or> col_name (col_sub c ! 0) \<noteq> ArrayColumnName) then Some None
      else case from_core_type c of
          None \<Rightarrow> None
        | Some ty \<Rightarrow> Some (Some (new_property\<lparr>p_name := col_name c, p_type := ty,
            is_indexed := col_index c, table_column := i,
            object_type := (if pt_eq ty PT_Object then object_type_for_table_name (col_target c)
                            else [])\<rparr>)))"

record group =
  g_tables :: "(bytes \<times> core_column list) list"
  g_primary_keys :: "(bytes \<times> bytes) list option"

definition get_primary_key_for_object :: "group \<Rightarrow> bytes \<Rightarrow> bytes" where
  "get_primary_key_for_object g ty =
     (case g_primary_keys g of None \<Rightarrow> []
      | Some rows \<Rightarrow> (case find (\<lambda>r. fst r = ty) rows of None \<Rightarrow> [] | Some r \<Rightarrow> snd r))"

fun read_properties :: "bytes \<Rightarrow> core_column list \<Rightarrow> nat list \<Rightarrow> property list option" where
  "read_properties oid cols [] = Some []"
| "read_properties oid cols (i # is) = do {
     p \<leftarrow> property_for_column_index oid cols i;
     ps \<leftarrow> read_properties oid cols is;
     Some ((case p of None \<Rightarrow> [] | Some p \<Rightarrow> [p]) @ ps) }"

definition read_object_schema :: "bytes \<Rightarrow> group \<Rightarrow> bytes \<Rightarrow> nat \<Rightarrow> object_schema option" where
  "read_object_schema oid g name index = do {
     cols \<leftarrow> (if index < length (g_tables g) then Some (snd (g_tables g ! index))
              else map_of (g_tables g) (table_name_for_object_type name));
     ps \<leftarrow> read_properties oid cols [0..<length cols];
     Some (set_primary_key_property \<lparr>o_name = name, persisted_properties = ps,
       computed_properties = [], primary_key = get_primary_key_for_object g name\<rparr>) }"

definition object_schema_eq :: "object_schema \<Rightarrow> object_schema \<Rightarrow> bool" where
  "object_schema_eq a b \<longleftrightarrow> o_name a = o_name b \<and> primary_key a = primary_key b \<and>
     list_all2 property_eq (persisted_properties a) (persisted_properties b) \<and>
     list_all2 property_eq (computed_properties a) (computed_properties b)"

end
