(* ===== verification/Schema_Compare.thy ===== *)
theory Schema_Compare
  imports Object_Schema
begin

section \<open>Schemas and their differences\<close>

text \<open>
  \<open>Schema\<close> (\<open>schema.cpp\<close>): a vector of object schemas sorted by name, the search in it, and the
  list of changes that turns one schema into another. The callbacks of \<open>zip_matching\<close> are given
  as the list of the pairs it calls them with.
\<close>

type_synonym schema = "object_schema list"

definition make_schema :: "object_schema list \<Rightarrow> schema" where
  "make_schema types = std_sort (\<lambda>l r. string_less (o_name l) (o_name r)) types"

text \<open>An iterator is an index, \<open>end()\<close> the length.\<close>

definition schema_find :: "schema \<Rightarrow> bytes \<Rightarrow> nat" where
  "schema_find s name =
     (let it = lower_bound (\<lambda>l. string_data_less (o_name l) name) s
      in if it \<noteq> length s \<and> o_name (s ! it) \<noteq> name then length s else it)"

fun schema_from_tables ::
  "bytes \<Rightarrow> group \<Rightarrow> nat \<Rightarrow> (bytes \<times> core_column list) list \<Rightarrow> object_schema list option" where
  "schema_from_tables oid g i [] = Some []"
| "schema_from_tables oid g i (t # ts) = do {
     let ty = object_type_for_table_name (fst t);
     os \<leftarrow> (if ty \<noteq> [] then map_option (\<lambda>os. [os]) (read_object_schema oid g ty i) else Some []);
     rest \<leftarrow> schema_from_tables oid g (i + 1) ts;
     Some (os @ rest) }"

definition schema_from_group :: "bytes \<Rightarrow> group \<Rightarrow> schema option" where
  "schema_from_group oid g = map_option make_schema (schema_from_tables oid g 0 (g_tables g))"

subsection \<open>Changes\<close>

datatype schema_change =
  AddTable object_schema
| RemoveTable object_schema
| AddInitialProperties object_schema
| AddProperty object_schema property
| RemoveProperty object_schema property
| ChangePropertyType object_schema property property
| MakePropertyNullable object_schema property
| MakePropertyRequired object_schema property
| AddIndex object_schema property
| RemoveIndex object_schema property
| ChangePrimaryKey object_schema "property option"

fun is_not_remove_property :: "schema_change \<Rightarrow> bool" where
  "is_not_remove_property (RemoveProperty e p) = False"
| "is_not_remove_property c = True"

fun get_removed_column :: "schema_change \<Rightarrow> nat" where
  "get_removed_column (RemoveProperty e p) = table_column p"
| "get_removed_column c = 0"

definition compare_property :: "object_schema \<Rightarrow> object_schema \<Rightarrow> property \<Rightarrow> schema_change list" where
  "compare_property existing target p =
     (case property_for_name target (p_name p) of
        None \<Rightarrow> [RemoveProperty existing p]
      | Some q \<Rightarrow>
        if property_is_computed target q then [RemoveProperty existing p]
        else if \<not> pt_eq (p_type p) (p_type q) \<or> object_type p \<noteq> object_type q \<or>
            is_array (p_type p) \<noteq> is_array (p_type q) then [ChangePropertyType existing p q]
        else
          (if is_nullable (p_type p) \<noteq> is_nullable (p_type q)
           then if is_nullable (p_type p) then [MakePropertyRequired existing p]
                else [MakePropertyNullable existing p]
           else []) @
          (if requires_index q
           then if \<not> is_indexed p then [AddIndex existing p] else []
           else if requires_index p then [RemoveIndex existing p] else []))"

definition sort_removals :: "schema_change list \<Rightarrow> schema_change list" where
  "sort_removals changes =
     (let cs = std_partition is_not_remove_property changes
      in takeWhile is_not_remove_property cs @
         std_sort (\<lambda>a b. get_removed_column a > get_removed_column b)
           (dropWhile is_not_remove_property cs))"

definition compare_objects ::
  "object_schema \<Rightarrow> object_schema \<Rightarrow> schema_change list \<Rightarrow> schema_change list" where
  "compare_objects existing target changes =
     sort_removals (changes @
       concat (map (compare_property existing target) (persisted_properties existing)) @
       (if primary_key existing \<noteq> primary_key target
        then [ChangePrimaryKey existing (primary_key_property target)] else []) @
       concat (map (\<lambda>q. if property_for_name existing (p_name q) = None then [AddProperty existing q]
                        else []) (persisted_properties target)))"

fun zip_matching :: "schema \<Rightarrow> schema \<Rightarrow> (object_schema option \<times> object_schema option) list" where
  "zip_matching (a # as) (b # bs) =
     (if o_name a = o_name b then (Some a, Some b) # zip_matching as bs
      else if string_less (o_name a) (o_name b) then (Some a, None) # zip_matching as (b # bs)
      else (None, Some b) # zip_matching (a # as) bs)"
| "zip_matching [] bs = map (\<lambda>b. (None, Some b)) bs"
| "zip_matching as [] = map (\<lambda>a. (Some a, None)) as"

fun compare_tables ::
  "bool \<Rightarrow> schema_change list \<Rightarrow> object_schema option \<times> object_schema option \<Rightarrow> schema_change list" where
  "compare_tables removals changes (Some target, None) = changes @ [AddTable target]"
| "compare_tables removals changes (None, Some existing) =
     (if removals then changes @ [RemoveTable existing] else changes)"
| "compare_tables removals changes _ = changes"

fun compare_columns ::
  "schema_change list \<Rightarrow> object_schema option \<times> object_schema option \<Rightarrow> schema_change list" where
  "compare_columns changes (Some target, Some existing) = compare_objects existing target changes"
| "compare_columns changes (Some target, None) = changes @ [AddInitialProperties target]"
| "compare_columns changes (None, _) = changes"

definition schema_compare :: "schema \<Rightarrow> schema \<Rightarrow> bool \<Rightarrow> schema_change list" where
  "schema_compare this target include_removals =
     foldl compare_columns
       (foldl (compare_tables include_removals) [] (zip_matching target this))
       (zip_matching target this)"

definition copy_columns :: "object_schema \<Rightarrow> object_schema \<Rightarrow> object_schema" where
  "copy_columns existing other =
     foldl (\<lambda>e p. update_property (p_name p) (\<lambda>q. q\<lparr>table_column := table_column p\<rparr>) e)
       existing (persisted_properties other)"

definition copy_table_columns_from :: "schema \<Rightarrow> schema \<Rightarrow> schema" where
  "copy_table_columns_from this other =
     concat (map (\<lambda>(e, x). case e of None \<Rightarrow> []
       | Some existing \<Rightarrow> [case x of None \<Rightarrow> existing | Some other \<Rightarrow> copy_columns existing other])
       (zip_matching this other))"

definition schema_eq :: "schema \<Rightarrow> schema \<Rightarrow> bool" where
  "schema_eq a b \<longleftrightarrow> list_all2 object_schema_eq a b"

end
