(* ===== verification/Schema_Validate.thy ===== *)
theory Schema_Validate
  imports Schema_Compare
begin

section \<open>Validation of a schema\<close>

text \<open>
  \<open>ObjectSchema::validate\<close> with \<open>validate_property\<close> (\<open>object_schema.cpp\<close>) and \<open>Schema::validate\<close>
  (\<open>schema.cpp\<close>). Each message is a constructor with the arguments of its format string, and the
  vector of exceptions is the list of them.
\<close>

datatype schema_error =
  Linking_Objects_Not_Array bytes bytes
| Cannot_Be_Nullable bytes bytes bytes
| Must_Be_Nullable bytes bytes
| Cannot_Be_Primary_Key bytes bytes bytes
| Two_Primary_Keys bytes bytes bytes
| Cannot_Be_Indexed bytes bytes bytes
| Cannot_Have_Origin bytes bytes bytes
| Must_Have_Origin bytes bytes bytes
| Cannot_Have_Object_Type bytes bytes bytes
| Unknown_Object_Type bytes bytes bytes bytes
| Origin_Does_Not_Exist bytes bytes bytes bytes
| Origin_Not_Link bytes bytes bytes bytes
| Origin_Links_Elsewhere bytes bytes bytes bytes bytes
| Duplicate_Alias bytes bytes
| Duplicate_Property bytes bytes
| Alias_Conflict bytes bytes bytes
| Primary_Key_Missing bytes bytes
| Duplicate_Class bytes

definition check_shape :: "bytes \<Rightarrow> property \<Rightarrow> schema_error list" where
  "check_shape obj p =
     (if pt_eq (p_type p) PT_LinkingObjects \<and> \<not> is_array (p_type p)
      then [Linking_Objects_Not_Array obj (p_name p)] else []) @
     (if is_nullable (p_type p) \<and> \<not> type_is_nullable p
      then [Cannot_Be_Nullable obj (p_name p) (string_for_property_type (p_type p))]
      else if pt_eq (p_type p) PT_Object \<and> \<not> is_nullable (p_type p) \<and> \<not> is_array (p_type p)
      then [Must_Be_Nullable obj (p_name p)] else [])"

definition check_primary :: "bytes \<Rightarrow> property \<Rightarrow> property option \<Rightarrow> schema_error list" where
  "check_primary obj p primary =
     (if is_primary p
      then (if \<not> pt_eq (p_type p) PT_Int \<and> \<not> pt_eq (p_type p) PT_String
            then [Cannot_Be_Primary_Key obj (p_name p) (string_for_property_type (p_type p))] else []) @
           (case primary of Some q \<Rightarrow> [Two_Primary_Keys (p_name p) (p_name q) obj] | None \<Rightarrow> [])
      else [])"

definition check_index :: "bytes \<Rightarrow> property \<Rightarrow> schema_error list" where
  "check_index obj p =
     (if is_indexed p \<and> \<not> type_is_indexable p
      then [Cannot_Be_Indexed obj (p_name p) (string_for_property_type (p_type p))] else []) @
     (if \<not> pt_eq (p_type p) PT_LinkingObjects \<and> link_origin_property_name p \<noteq> []
      then [Cannot_Have_Origin obj (p_name p) (string_for_property_type (p_type p))]
      else if pt_eq (p_type p) PT_LinkingObjects \<and> link_origin_property_name p = []
      then [Must_Have_Origin obj (p_name p) (string_for_property_type (p_type p))] else [])"

definition check_target :: "schema \<Rightarrow> bytes \<Rightarrow> property \<Rightarrow> schema_error list" where
  "check_target schema obj p =
     (if \<not> pt_eq (p_type p) PT_Object \<and> \<not> pt_eq (p_type p) PT_LinkingObjects
      then if object_type p \<noteq> [] then [Cannot_Have_Object_Type obj (p_name p) (type_string p)] else []
      else let it = schema_find schema (object_type p) in
        if it = length schema
        then [Unknown_Object_Type obj (p_name p) (string_for_property_type (p_type p)) (object_type p)]
        else if \<not> pt_eq (p_type p) PT_LinkingObjects then []
        else let origin = link_origin_property_name p in
          case property_for_name (schema ! it) origin of
            None \<Rightarrow> [Origin_Does_Not_Exist (object_type p) origin obj (p_name p)]
          | Some q \<Rightarrow>
              if \<not> pt_eq (p_type q) PT_Object
              then [Origin_Not_Link (object_type p) origin obj (p_name p)]
              else if object_type q \<noteq> obj
              then [Origin_Links_Elsewhere (object_type p) origin obj (p_name p) (object_type q)]
              else [])"

text \<open>The primary key found so far is threaded through the calls.\<close>

definition validate_property ::
  "schema \<Rightarrow> bytes \<Rightarrow> property \<Rightarrow> property option \<Rightarrow> property option \<times> schema_error list" where
  "validate_property schema obj p primary =
     (if is_primary p then Some p else primary,
      check_shape obj p @ check_primary obj p primary @ check_index obj p @ check_target schema obj p)"

fun validate_properties ::
  "schema \<Rightarrow> bytes \<Rightarrow> property list \<Rightarrow> property option \<Rightarrow> property option \<times> schema_error list" where
  "validate_properties schema obj [] primary = (primary, [])"
| "validate_properties schema obj (p # ps) primary =
     (let (primary, errs) = validate_property schema obj p primary;
          (primary, rest) = validate_properties schema obj ps primary
      in (primary, errs @ rest))"

definition all_properties :: "object_schema \<Rightarrow> property list" where
  "all_properties os = persisted_properties os @ computed_properties os"

definition public_property_names :: "object_schema \<Rightarrow> bytes list" where
  "public_property_names os =
     std_sort string_data_less (filter (\<lambda>n. n \<noteq> []) (map public_name (all_properties os)))"

definition internal_property_names :: "object_schema \<Rightarrow> bytes list" where
  "internal_property_names os = std_sort string_data_less (map p_name (all_properties os))"

definition validate_names :: "object_schema \<Rightarrow> schema_error list" where
  "validate_names os =
     map (\<lambda>n. Duplicate_Alias n (o_name os)) (duplicates (public_property_names os)) @
     map (\<lambda>n. Duplicate_Property n (o_name os)) (duplicates (internal_property_names os)) @
     map (\<lambda>n. Alias_Conflict (o_name os)
         (case property_for_public_name os n of Some p \<Rightarrow> p_name p | None \<Rightarrow> []) n)
       (set_intersection string_data_less (public_property_names os) (internal_property_names os))"

definition validate_object :: "schema \<Rightarrow> object_schema \<Rightarrow> schema_error list" where
  "validate_object schema os =
     (let (primary, errs) = validate_properties schema (o_name os) (persisted_properties os) None;
          (primary, errs') = validate_properties schema (o_name os) (computed_properties os) primary
      in validate_names os @ errs @ errs' @
         (if primary_key os \<noteq> [] \<and> primary = None \<and> primary_key_property os = None
          then [Primary_Key_Missing (o_name os) (primary_key os)] else []))"

definition schema_validate :: "schema \<Rightarrow> schema_error list + unit" where
  "schema_validate s =
     (let errs = map (\<lambda>os. Duplicate_Class (o_name os))
            (adjacent_equal (\<lambda>l r. o_name l = o_name r) s) @ concat (map (validate_object s) s)
      in if errs \<noteq> [] then Inl errs else Inr ())"

end
