(* ===== verification/Schema_Lemmas.thy ===== *)
theory Schema_Lemmas
  imports Schema_Validate
begin

section \<open>Lemmas on schemas\<close>

text \<open>
  The search in a sorted schema, the pairs that \<open>zip_matching\<close> visits, which changes a
  comparison lists and in which order, and what a schema without errors satisfies.
\<close>

subsection \<open>Sorted schemas\<close>

definition names :: "schema \<Rightarrow> bytes list" where
  "names s = map o_name s"

definition sorted_schema :: "schema \<Rightarrow> bool" where
  "sorted_schema s \<longleftrightarrow> sorted_wrt (\<lambda>l r. \<not> string_less (o_name r) (o_name l)) s"

lemma in_names: "z \<in> set s \<Longrightarrow> o_name z \<in> set (names s)"
  by (simp add: names_def)

lemma strict_weak_names: "strict_weak (\<lambda>l r. string_less (o_name l) (o_name r))"
  using strict_weakD [OF strict_totalD(1) [OF string_less_total]] unfolding strict_weak_def by metis

lemma sorted_make_schema: "sorted_schema (make_schema types)"
  unfolding sorted_schema_def make_schema_def by (rule sorted_std_sort [OF strict_weak_names])

lemma set_make_schema [simp]: "set (make_schema types) = set types"
  by (simp add: make_schema_def)

lemma mset_names_make_schema: "mset (names (make_schema types)) = mset (names types)"
  by (simp add: names_def make_schema_def)

lemma distinct_names_make_schema: "distinct (names (make_schema types)) \<longleftrightarrow> distinct (names types)"
  by (metis mset_names_make_schema mset_eq_imp_distinct_iff)

lemma sorted_schema_strict:
  assumes "sorted_schema s" and "distinct (names s)"
  shows "sorted_wrt (\<lambda>l r. string_less (o_name l) (o_name r)) s"
proof -
  have "string_less (o_name (s ! i)) (o_name (s ! j))" if "i < j" "j < length s" for i j
  proof -
    have "\<not> string_less (o_name (s ! j)) (o_name (s ! i))"
      using assms(1) that by (simp add: sorted_schema_def sorted_wrt_iff_nth_less)
    moreover have "o_name (s ! i) \<noteq> o_name (s ! j)"
      using assms(2) that by (auto simp: names_def distinct_conv_nth)
    ultimately show ?thesis using strict_totalD(2) [OF string_less_total] by blast
  qed
  then show ?thesis by (simp add: sorted_wrt_iff_nth_less)
qed

definition ascii_schema :: "schema \<Rightarrow> bool" where
  "ascii_schema s \<longleftrightarrow> list_all ascii (names s)"

text \<open>The first object with the name, or the end.\<close>

lemma schema_find_correct:
  assumes "sorted_schema s" and "ascii_schema s" and "ascii name"
  shows "if name \<in> set (names s) then schema_find s name < length s \<and>
      o_name (s ! schema_find s name) = name \<and> (\<forall>i < schema_find s name. o_name (s ! i) \<noteq> name)
    else schema_find s name = length s"
proof -
  let ?it = "lower_bound (\<lambda>l. string_data_less (o_name l) name) s"
  note lt = strict_weakD [OF strict_totalD(1) [OF string_less_total]]
  have below: "string_data_less (o_name (s ! i)) name \<longleftrightarrow> string_less (o_name (s ! i)) name"
    if "i < length s" for i
    using assms(2,3) that
    by (intro string_data_less_ascii) (auto simp: ascii_schema_def names_def list_all_iff)
  have mono: "string_data_less (o_name (s ! i)) name"
    if ij: "i \<le> j" "j < length s" "string_data_less (o_name (s ! j)) name" for i j
  proof (cases "i = j")
    case False
    with ij have "\<not> string_less (o_name (s ! j)) (o_name (s ! i))"
      using assms(1) by (simp add: sorted_schema_def sorted_wrt_iff_nth_less)
    moreover have "string_less (o_name (s ! j)) name" using ij below by simp
    ultimately have "string_less (o_name (s ! i)) name" using lt(2,3,4) by metis
    with ij below [of i] show ?thesis by simp
  qed (use ij in simp)
  have le: "?it \<le> length s" by (rule lower_bound_correct(1)) (rule mono)
  have lo: "string_less (o_name (s ! i)) name" if "i < ?it" for i
  proof -
    have "string_data_less (o_name (s ! i)) name"
      by (rule lower_bound_correct(2) [OF _ that]) (rule mono)
    with below [of i] le that show ?thesis by simp
  qed
  have hi: "\<not> string_less (o_name (s ! i)) name" if "?it \<le> i" "i < length s" for i
  proof -
    have "\<not> string_data_less (o_name (s ! i)) name"
      by (rule lower_bound_correct(3) [OF _ that]) (rule mono)
    with below [of i] that show ?thesis by simp
  qed
  show ?thesis
  proof (cases "name \<in> set (names s)")
    case True
    then obtain k where k: "k < length s" "o_name (s ! k) = name"
      by (auto simp: names_def in_set_conv_nth)
    have "?it \<le> k" using lo [of k] k lt(1) by (metis not_le)
    then have it: "?it < length s" using k by simp
    have "\<not> string_less (o_name (s ! k)) (o_name (s ! ?it))"
    proof (cases "?it = k")
      case False
      with \<open>?it \<le> k\<close> k(1) show ?thesis
        using sorted_wrt_nth_less [OF assms(1) [unfolded sorted_schema_def], of ?it k] by linarith
    qed (use lt(1) in simp)
    then have "o_name (s ! ?it) = name"
      using hi [of ?it] it k strict_totalD(2) [OF string_less_total] by simp
    moreover have "o_name (s ! i) \<noteq> name" if "i < ?it" for i using lo [OF that] lt(1) by metis
    ultimately show ?thesis using it True by (simp add: schema_find_def Let_def)
  next
    case False
    have "?it \<noteq> length s \<Longrightarrow> o_name (s ! ?it) \<noteq> name"
      using le in_names [of "s ! ?it" s] False by auto
    with False show ?thesis by (auto simp: schema_find_def Let_def)
  qed
qed


subsection \<open>The pairs visited by \<open>zip_matching\<close>\<close>

lemma names_Cons [simp]: "names (a # s) = o_name a # names s" and names_Nil [simp]: "names [] = []"
  by (simp_all add: names_def)

lemma zip_matching_first: "map fst (filter (\<lambda>p. fst p \<noteq> None) (zip_matching a b)) = map Some a"
  by (induction a b rule: zip_matching.induct) (simp_all add: o_def)

abbreviation strictly_sorted :: "schema \<Rightarrow> bool" where
  "strictly_sorted \<equiv> sorted_wrt (\<lambda>l r. string_less (o_name l) (o_name r))"

lemma zip_matching_pairs:
  assumes "strictly_sorted a" and "strictly_sorted b"
  shows "set (zip_matching a b) =
    {(Some x, Some y) |x y. x \<in> set a \<and> y \<in> set b \<and> o_name x = o_name y} \<union>
    {(Some x, None) |x. x \<in> set a \<and> o_name x \<notin> set (names b)} \<union>
    {(None, Some y) |y. y \<in> set b \<and> o_name y \<notin> set (names a)}"
  using assms
proof (induction a b rule: zip_matching.induct)
  case (1 x a y b)
  note lt = strict_weakD [OF strict_totalD(1) [OF string_less_total]]
  have x: "string_less (o_name x) n" if "n \<in> set (names a)" for n
    using 1(4) that by (auto simp: names_def)
  have y: "string_less (o_name y) n" if "n \<in> set (names b)" for n
    using 1(5) that by (auto simp: names_def)
  consider "o_name x = o_name y" | "o_name x \<noteq> o_name y" "string_less (o_name x) (o_name y)"
    | "o_name x \<noteq> o_name y" "\<not> string_less (o_name x) (o_name y)" by blast
  then show ?case
  proof cases
    case 1
    then have "\<forall>z\<in>set a \<union> set b. o_name z \<noteq> o_name y"
      using x y lt(1) in_names by (metis UnE)
    with 1 "1.IH"(1) "1.prems" show ?thesis by (auto dest: in_names)
  next
    case 2
    then have "\<forall>z\<in>set a \<union> set b. o_name z \<noteq> o_name x" "o_name x \<notin> set (names b)"
      using x y lt(1,4) in_names by (metis UnE)+
    with 2 "1.IH"(2) "1.prems" show ?thesis by (auto dest: in_names)
  next
    case 3
    then have "string_less (o_name y) (o_name x)" using strict_totalD(2) [OF string_less_total] by metis
    then have "\<forall>z\<in>set a \<union> set b. o_name z \<noteq> o_name y" "o_name y \<notin> set (names a)"
      using x y lt(1,4) in_names by (metis UnE)+
    with 3 "1.IH"(3) "1.prems" show ?thesis by (auto dest: in_names)
  qed
qed auto


subsection \<open>Which changes a comparison lists\<close>

text \<open>What has to change, without regard to the order: \<open>differs e t c\<close> for a class that is in
  both schemas, \<open>needed\<close> for the whole schema.\<close>

definition same_shape :: "property \<Rightarrow> property \<Rightarrow> bool" where
  "same_shape p q \<longleftrightarrow> pt_eq (p_type p) (p_type q) \<and> object_type p = object_type q \<and>
     is_array (p_type p) = is_array (p_type q)"

fun differs :: "object_schema \<Rightarrow> object_schema \<Rightarrow> schema_change \<Rightarrow> bool" where
  "differs e t (RemoveProperty e' p) \<longleftrightarrow> e' = e \<and> p \<in> set (persisted_properties e) \<and>
     (\<forall>q\<in>set (persisted_properties t). p_name q \<noteq> p_name p)"
| "differs e t (ChangePropertyType e' p q) \<longleftrightarrow> e' = e \<and> p \<in> set (persisted_properties e) \<and>
     q \<in> set (persisted_properties t) \<and> p_name q = p_name p \<and> \<not> same_shape p q"
| "differs e t (MakePropertyNullable e' p) \<longleftrightarrow> e' = e \<and> p \<in> set (persisted_properties e) \<and>
     (\<exists>q\<in>set (persisted_properties t). p_name q = p_name p \<and> same_shape p q \<and>
       \<not> is_nullable (p_type p) \<and> is_nullable (p_type q))"
| "differs e t (MakePropertyRequired e' p) \<longleftrightarrow> e' = e \<and> p \<in> set (persisted_properties e) \<and>
     (\<exists>q\<in>set (persisted_properties t). p_name q = p_name p \<and> same_shape p q \<and>
       is_nullable (p_type p) \<and> \<not> is_nullable (p_type q))"
| "differs e t (AddIndex e' p) \<longleftrightarrow> e' = e \<and> p \<in> set (persisted_properties e) \<and>
     (\<exists>q\<in>set (persisted_properties t). p_name q = p_name p \<and> same_shape p q \<and>
       requires_index q \<and> \<not> is_indexed p)"
| "differs e t (RemoveIndex e' p) \<longleftrightarrow> e' = e \<and> p \<in> set (persisted_properties e) \<and>
     (\<exists>q\<in>set (persisted_properties t). p_name q = p_name p \<and> same_shape p q \<and>
       \<not> requires_index q \<and> requires_index p)"
| "differs e t (ChangePrimaryKey e' k) \<longleftrightarrow> e' = e \<and> primary_key e \<noteq> primary_key t \<and>
     k = primary_key_property t"
| "differs e t (AddProperty e' q) \<longleftrightarrow> e' = e \<and> q \<in> set (persisted_properties t) \<and>
     (\<forall>p\<in>set (persisted_properties e @ computed_properties e). p_name p \<noteq> p_name q)"
| "differs e t _ \<longleftrightarrow> False"

definition added :: "schema \<Rightarrow> schema \<Rightarrow> object_schema \<Rightarrow> bool" where
  "added E T t \<longleftrightarrow> t \<in> set T \<and> o_name t \<notin> set (names E)"

fun needed :: "schema \<Rightarrow> schema \<Rightarrow> bool \<Rightarrow> schema_change \<Rightarrow> bool" where
  "needed E T removals (AddTable t) \<longleftrightarrow> added E T t"
| "needed E T removals (AddInitialProperties t) \<longleftrightarrow> added E T t"
| "needed E T removals (RemoveTable e) \<longleftrightarrow> removals \<and> added T E e"
| "needed E T removals c \<longleftrightarrow> (\<exists>e\<in>set E. \<exists>t\<in>set T. o_name t = o_name e \<and> differs e t c)"

text \<open>No two properties of a class have the same name.\<close>

definition distinct_properties :: "object_schema \<Rightarrow> bool" where
  "distinct_properties os \<longleftrightarrow> distinct (map p_name (all_properties os))"

lemma find_distinct:
  "distinct (map f xs) \<Longrightarrow> x \<in> set xs \<Longrightarrow> find (\<lambda>y. f y = f x) xs = Some x"
  by (induction xs) force+

lemma find_None: "find P xs = None \<longleftrightarrow> (\<forall>x\<in>set xs. \<not> P x)"
  by (auto simp: find_None_iff)

lemma find_SomeD: "find P xs = Some x \<Longrightarrow> x \<in> set xs \<and> P x"
  by (induction xs) (auto split: if_splits)

lemma property_for_name_None:
  "property_for_name os n = None \<longleftrightarrow> (\<forall>p\<in>set (all_properties os). p_name p \<noteq> n)"
  by (auto simp: property_for_name_def all_properties_def find_None split: option.splits
      dest: find_SomeD)

lemma property_for_name_SomeD:
  "property_for_name os n = Some p \<Longrightarrow> p \<in> set (all_properties os) \<and> p_name p = n"
  by (auto simp: property_for_name_def all_properties_def split: option.splits dest: find_SomeD)

lemma distinct_propertiesD:
  assumes "distinct_properties os" and "p \<in> set (all_properties os)" and "q \<in> set (all_properties os)"
    and "p_name p = p_name q"
  shows "p = q"
  using assms unfolding distinct_properties_def distinct_map inj_on_def by blast

lemma property_for_name_distinct:
  assumes "distinct_properties os" and "q \<in> set (all_properties os)"
  shows "property_for_name os (p_name q) = Some q"
proof (cases "property_for_name os (p_name q)")
  case None
  with assms(2) show ?thesis by (auto simp: property_for_name_None)
next
  case (Some r)
  with property_for_name_SomeD [OF Some] distinct_propertiesD [OF assms(1) _ assms(2)] show ?thesis
    by blast
qed

lemma persisted_not_computed:
  assumes "distinct_properties os" and "p \<in> set (persisted_properties os)"
  shows "p \<notin> set (computed_properties os)" and "\<not> property_is_computed os p"
  using assms
  by (auto simp: distinct_properties_def all_properties_def property_is_computed_def property_eq_def)

text \<open>The target property that \<open>compare_property\<close> works with.\<close>

lemma compare_property_cases:
  assumes "distinct_properties t"
  obtains "\<forall>q\<in>set (persisted_properties t). p_name q \<noteq> p_name p"
      and "compare_property e t p = [RemoveProperty e p]"
  | q where "q \<in> set (persisted_properties t)" and "p_name q = p_name p"
      and "property_for_name t (p_name p) = Some q" and "\<not> property_is_computed t q"
      and "\<forall>r\<in>set (persisted_properties t). p_name r = p_name p \<longrightarrow> r = q"
proof (cases "\<exists>q\<in>set (persisted_properties t). p_name q = p_name p")
  case True
  then obtain q where q: "q \<in> set (persisted_properties t)" "p_name q = p_name p" by blast
  then have "q \<in> set (all_properties t)" by (simp add: all_properties_def)
  moreover have "r = q" if "r \<in> set (persisted_properties t)" "p_name r = p_name p" for r
    using distinct_propertiesD [OF assms, of r q] q that by (simp add: all_properties_def)
  ultimately show thesis
    using that(2) [OF q] property_for_name_distinct [OF assms, of q] persisted_not_computed(2) [OF assms q(1)]
      q(2) by simp
next
  case False
  have "compare_property e t p = [RemoveProperty e p]"
  proof (cases "property_for_name t (p_name p)")
    case (Some q)
    with property_for_name_SomeD [OF Some] False have "q \<in> set (computed_properties t)"
      by (auto simp: all_properties_def)
    then have "property_is_computed t q"
      by (auto simp: property_is_computed_def property_eq_def)
    with Some show ?thesis by (simp add: compare_property_def)
  qed (simp add: compare_property_def)
  with False that(1) show thesis by blast
qed


fun about :: "schema_change \<Rightarrow> property option" where
  "about (RemoveProperty e p) = Some p"
| "about (ChangePropertyType e p q) = Some p"
| "about (MakePropertyNullable e p) = Some p"
| "about (MakePropertyRequired e p) = Some p"
| "about (AddIndex e p) = Some p"
| "about (RemoveIndex e p) = Some p"
| "about _ = None"

lemma compare_property_set:
  assumes "distinct_properties t" and p: "p \<in> set (persisted_properties e)"
  shows "c \<in> set (compare_property e t p) \<longleftrightarrow> about c = Some p \<and> differs e t c"
proof (rule compare_property_cases [OF assms(1), of p e])
  assume "\<forall>q\<in>set (persisted_properties t). p_name q \<noteq> p_name p"
    and "compare_property e t p = [RemoveProperty e p]"
  then show ?thesis using p by (cases c) auto
next
  fix q
  assume q: "q \<in> set (persisted_properties t)" "p_name q = p_name p"
    "property_for_name t (p_name p) = Some q" "\<not> property_is_computed t q"
    and u: "\<forall>r\<in>set (persisted_properties t). p_name r = p_name p \<longrightarrow> r = q"
  have ex: "(\<exists>r\<in>set (persisted_properties t). p_name r = p_name p \<and> P r) \<longleftrightarrow> P q" for P
    using q u by blast
  have all: "(\<forall>r\<in>set (persisted_properties t). p_name r \<noteq> p_name p) \<longleftrightarrow> False"
    using q by blast
  have one: "r \<in> set (persisted_properties t) \<and> p_name r = p_name p \<and> P r \<longleftrightarrow> r = q \<and> P r" for P r
    using q u by blast
  have cmp: "compare_property e t p =
      (if \<not> same_shape p q then [ChangePropertyType e p q]
       else (if is_nullable (p_type p) \<noteq> is_nullable (p_type q)
             then if is_nullable (p_type p) then [MakePropertyRequired e p]
                  else [MakePropertyNullable e p] else []) @
            (if requires_index q then if \<not> is_indexed p then [AddIndex e p] else []
             else if requires_index p then [RemoveIndex e p] else []))"
    using q by (auto simp: compare_property_def same_shape_def)
  show ?thesis
  proof (cases c)
    case (RemoveProperty e' p')
    then show ?thesis using all by (auto simp: cmp)
  next
    case (ChangePropertyType e' p' q')
    then show ?thesis using p one [of q' "\<lambda>r. \<not> same_shape p r"] by (auto simp: cmp)
  next
    case (MakePropertyNullable e' p')
    then show ?thesis using p
        ex [of "\<lambda>r. same_shape p r \<and> \<not> is_nullable (p_type p) \<and> is_nullable (p_type r)"]
      by (auto simp: cmp)
  next
    case (MakePropertyRequired e' p')
    then show ?thesis using p
        ex [of "\<lambda>r. same_shape p r \<and> is_nullable (p_type p) \<and> \<not> is_nullable (p_type r)"]
      by (auto simp: cmp)
  next
    case (AddIndex e' p')
    then show ?thesis using p ex [of "\<lambda>r. same_shape p r \<and> requires_index r \<and> \<not> is_indexed p"]
      by (auto simp: cmp)
  next
    case (RemoveIndex e' p')
    then show ?thesis using p ex [of "\<lambda>r. same_shape p r \<and> \<not> requires_index r \<and> requires_index p"]
      by (auto simp: cmp)
  qed (auto simp: cmp)
qed

subsection \<open>The order of the changes\<close>

lemma sort_removals_split:
  obtains us vs where "std_partition is_not_remove_property cs = us @ vs"
    and "\<forall>u\<in>set us. is_not_remove_property u" and "\<forall>v\<in>set vs. \<not> is_not_remove_property v"
    and "sort_removals cs = us @ std_sort (\<lambda>a b. get_removed_column a > get_removed_column b) vs"
proof -
  obtain us vs where s: "std_partition is_not_remove_property cs = us @ vs"
    "\<forall>u\<in>set us. is_not_remove_property u" "\<forall>v\<in>set vs. \<not> is_not_remove_property v"
    using std_partition_groups [of is_not_remove_property cs] by (elim exE conjE)
  have "takeWhile is_not_remove_property (us @ vs) = us"
    using s(2,3) by (cases vs) simp_all
  moreover have "dropWhile is_not_remove_property (us @ vs) = vs"
    using s(2,3) by (cases vs) simp_all
  ultimately show thesis using that [OF s] s(1) by (simp add: sort_removals_def Let_def)
qed

lemma mset_sort_removals [simp]: "mset (sort_removals cs) = mset cs"
proof (rule sort_removals_split [of cs])
  fix us vs
  assume "std_partition is_not_remove_property cs = us @ vs"
    and "sort_removals cs = us @ std_sort (\<lambda>a b. get_removed_column a > get_removed_column b) vs"
  then show ?thesis by (metis mset_append mset_std_partition mset_std_sort)
qed

lemma set_sort_removals [simp]: "set (sort_removals cs) = set cs"
  by (metis mset_sort_removals set_mset_mset)

text \<open>Removals come last, and with decreasing columns.\<close>

definition removals_ordered :: "schema_change list \<Rightarrow> bool" where
  "removals_ordered cs \<longleftrightarrow> (\<exists>us vs. cs = us @ vs \<and> (\<forall>u\<in>set us. is_not_remove_property u) \<and>
     (\<forall>v\<in>set vs. \<not> is_not_remove_property v) \<and>
     sorted_wrt (\<lambda>a b. get_removed_column b \<le> get_removed_column a) vs)"

lemma sort_removals_ordered: "removals_ordered (sort_removals cs)"
proof (rule sort_removals_split [of cs])
  fix us vs
  assume "\<forall>u\<in>set us. is_not_remove_property u" "\<forall>v\<in>set vs. \<not> is_not_remove_property v"
    "sort_removals cs = us @ std_sort (\<lambda>a b. get_removed_column a > get_removed_column b) vs"
  moreover have "sorted_wrt (\<lambda>a b. get_removed_column b \<le> get_removed_column a)
      (std_sort (\<lambda>a b. get_removed_column a > get_removed_column b) vs)"
    using sorted_std_sort [OF strict_weak_key_greater [of get_removed_column], of vs]
    by (simp add: not_less)
  ultimately show ?thesis unfolding removals_ordered_def
    by (intro exI [of _ us] exI conjI) auto
qed

lemma compare_objects_set:
  assumes "distinct_properties t"
  shows "set (compare_objects e t changes) = set changes \<union> {c. differs e t c}"
proof -
  have "c \<in> set (compare_objects e t changes) \<longleftrightarrow> c \<in> set changes \<or>
      (\<exists>p\<in>set (persisted_properties e). about c = Some p \<and> differs e t c) \<or>
      (about c = None \<and> differs e t c)" for c
    using compare_property_set [OF assms, of _ e c]
    by (cases c) (auto simp: compare_objects_def property_for_name_None all_properties_def)
  moreover have "p \<in> set (persisted_properties e)" if "about c = Some p" "differs e t c" for c p
    using that by (cases c) auto
  ultimately show ?thesis by (auto simp: option.exhaust_sel)
qed

lemma compare_tables_set:
  "set (foldl (compare_tables r) cs ps) = set cs \<union> {AddTable t |t. (Some t, None) \<in> set ps} \<union>
     {RemoveTable e |e. r \<and> (None, Some e) \<in> set ps}"
proof (induction ps arbitrary: cs)
  case (Cons p ps)
  obtain a b where "p = (a, b)" by (rule prod.exhaust)
  with Cons show ?case by (cases a; cases b) auto
qed simp

lemma compare_columns_set:
  assumes "\<forall>t e. (Some t, Some e) \<in> set ps \<longrightarrow> distinct_properties t"
  shows "set (foldl compare_columns cs ps) = set cs \<union>
     {AddInitialProperties t |t. (Some t, None) \<in> set ps} \<union>
     {c. \<exists>t e. (Some t, Some e) \<in> set ps \<and> differs e t c}"
  using assms
proof (induction ps arbitrary: cs)
  case (Cons p ps)
  obtain a b where p: "p = (a, b)" by (rule prod.exhaust)
  have "\<forall>t e. (Some t, Some e) \<in> set ps \<longrightarrow> distinct_properties t" using Cons.prems by simp
  note IH = Cons.IH [OF this]
  show ?case
  proof (cases a)
    case None
    with p IH show ?thesis by simp
  next
    case t: (Some t)
    show ?thesis
    proof (cases b)
      case None
      with p t IH show ?thesis by auto
    next
      case (Some e)
      with p t Cons.prems have "distinct_properties t" by simp
      from IH compare_objects_set [OF this, of e cs] p t Some show ?thesis by auto
    qed
  qed
qed simp


lemma schema_compare_needed:
  assumes "sorted_schema E" and "sorted_schema T" and "distinct (names E)" and "distinct (names T)"
    and "\<forall>t\<in>set T. distinct_properties t"
  shows "c \<in> set (schema_compare E T r) \<longleftrightarrow> needed E T r c"
proof -
  note pairs = zip_matching_pairs [OF sorted_schema_strict [OF assms(2,4)] sorted_schema_strict [OF assms(1,3)]]
  have "\<forall>t e. (Some t, Some e) \<in> set (zip_matching T E) \<longrightarrow> distinct_properties t"
    using assms(5) by (auto simp: pairs)
  note cols = compare_columns_set [OF this]
  show ?thesis
    unfolding schema_compare_def cols compare_tables_set pairs
    by (cases c) (auto simp: added_def)
qed

text \<open>The tables to be added are in front, so that the columns of the rest can refer to them,
  and only the columns of new tables may follow the removals.\<close>

definition changes_ordered :: "schema_change list \<Rightarrow> schema_change list \<Rightarrow> bool" where
  "changes_ordered ts cs \<longleftrightarrow> (\<exists>us vs ws. cs = ts @ us @ vs @ ws \<and>
     (\<forall>u\<in>set us. is_not_remove_property u) \<and> (\<forall>v\<in>set vs. \<not> is_not_remove_property v) \<and>
     sorted_wrt (\<lambda>a b. get_removed_column b \<le> get_removed_column a) vs \<and>
     (\<forall>w\<in>set ws. \<exists>t. w = AddInitialProperties t))"

lemma std_partition_prefix:
  "\<forall>x\<in>set xs. P x \<Longrightarrow> std_partition P (xs @ ys) = xs @ std_partition P ys"
  by (induction xs) auto

lemma sort_removals_prefix:
  assumes "\<forall>x\<in>set xs. is_not_remove_property x"
  shows "sort_removals (xs @ ys) = xs @ sort_removals ys"
  using assms by (simp add: sort_removals_def std_partition_prefix [OF assms] takeWhile_append2
      dropWhile_append2 Let_def)

lemma compare_objects_ordered:
  assumes "changes_ordered ts cs" and "\<forall>x\<in>set ts. is_not_remove_property x"
  shows "changes_ordered ts (compare_objects e t cs)"
proof -
  obtain us where cs: "cs = ts @ us" using assms(1) unfolding changes_ordered_def by blast
  obtain ys where "compare_objects e t cs = ts @ sort_removals ys"
    using sort_removals_prefix [OF assms(2)] by (simp add: compare_objects_def cs)
  moreover obtain us vs where "sort_removals ys = us @ vs" "\<forall>u\<in>set us. is_not_remove_property u"
    "\<forall>v\<in>set vs. \<not> is_not_remove_property v"
    "sorted_wrt (\<lambda>a b. get_removed_column b \<le> get_removed_column a) vs"
    using sort_removals_ordered [of ys] unfolding removals_ordered_def by (elim exE conjE)
  ultimately show ?thesis unfolding changes_ordered_def
    by (intro exI [of _ us] exI [of _ vs] exI [of _ "[]"]) simp
qed

lemma compare_columns_ordered:
  assumes "changes_ordered ts cs" and "\<forall>x\<in>set ts. is_not_remove_property x"
  shows "changes_ordered ts (foldl compare_columns cs ps)"
  using assms(1)
proof (induction ps arbitrary: cs)
  case (Cons p ps)
  obtain a b where p: "p = (a, b)" by (rule prod.exhaust)
  have "changes_ordered ts (compare_columns cs p)"
  proof (cases a)
    case None
    with p Cons.prems show ?thesis by simp
  next
    case a: (Some t)
    show ?thesis
    proof (cases b)
      case None
      from Cons.prems obtain us vs ws where "cs = ts @ us @ vs @ ws"
        "\<forall>u\<in>set us. is_not_remove_property u" "\<forall>v\<in>set vs. \<not> is_not_remove_property v"
        "sorted_wrt (\<lambda>a b. get_removed_column b \<le> get_removed_column a) vs"
        "\<forall>w\<in>set ws. \<exists>t. w = AddInitialProperties t"
        unfolding changes_ordered_def by (elim exE conjE)
      then show ?thesis unfolding changes_ordered_def p a None
        by (intro exI [of _ us] exI [of _ vs] exI [of _ "ws @ [AddInitialProperties t]"]) auto
    next
      case (Some e)
      with p a compare_objects_ordered [OF Cons.prems assms(2)] show ?thesis by simp
    qed
  qed
  with Cons.IH show ?case by simp
qed simp

lemma schema_compare_ordered:
  "changes_ordered (foldl (compare_tables r) [] (zip_matching T E)) (schema_compare E T r)"
  unfolding schema_compare_def
proof (rule compare_columns_ordered)
  let ?ts = "foldl (compare_tables r) [] (zip_matching T E)"
  show "changes_ordered ?ts ?ts" unfolding changes_ordered_def by (intro exI [of _ "[]"]) simp
  show "\<forall>x\<in>set ?ts. is_not_remove_property x" by (auto simp: compare_tables_set)
qed

fun is_table_change :: "schema_change \<Rightarrow> bool" where
  "is_table_change (AddTable t) = True"
| "is_table_change (RemoveTable e) = True"
| "is_table_change c = False"

lemma compare_property_no_table: "c \<in> set (compare_property e t p) \<Longrightarrow> \<not> is_table_change c"
  by (auto simp: compare_property_def split: option.splits if_splits)

lemma compare_objects_tables:
  "filter_mset is_table_change (mset (compare_objects e t cs)) = filter_mset is_table_change (mset cs)"
proof -
  have "filter is_table_change (compare_property e t p) = []" for p
    using compare_property_no_table by (auto simp: filter_empty_conv)
  then have "filter is_table_change (concat (map (compare_property e t) ps)) = []" for ps
    by (simp add: filter_concat o_def)
  moreover have "filter is_table_change
      (concat (map (\<lambda>q. if property_for_name e (p_name q) = None then [AddProperty e q] else []) qs)) = []"
    for qs by (auto simp: filter_empty_conv)
  ultimately show ?thesis by (simp add: compare_objects_def flip: mset_filter)
qed

lemma compare_columns_tables:
  "filter_mset is_table_change (mset (foldl compare_columns cs ps)) = filter_mset is_table_change (mset cs)"
proof (induction ps arbitrary: cs)
  case (Cons p ps)
  obtain a b where "p = (a, b)" by (rule prod.exhaust)
  with Cons show ?case by (cases a; cases b) (simp_all add: compare_objects_tables)
qed simp

lemma schema_compare_tables:
  "filter is_table_change (schema_compare E T removals) =
    foldl (compare_tables removals) [] (zip_matching T E)"
proof -
  let ?ts = "foldl (compare_tables removals) [] (zip_matching T E)"
  obtain rest where r: "schema_compare E T removals = ?ts @ rest"
    using schema_compare_ordered [of removals T E] unfolding changes_ordered_def by blast
  have all: "filter is_table_change ?ts = ?ts" by (auto simp: filter_id_conv compare_tables_set)
  have "filter_mset is_table_change (mset (?ts @ rest)) = filter_mset is_table_change (mset ?ts)"
    using compare_columns_tables [of ?ts "zip_matching T E"] r by (simp add: schema_compare_def)
  then have "filter is_table_change rest = []" by (simp flip: mset_filter)
  with all r show ?thesis by simp
qed

lemma schema_compare_tables_first:
  "changes_ordered (filter is_table_change (schema_compare E T removals)) (schema_compare E T removals)"
  unfolding schema_compare_tables by (rule schema_compare_ordered)

text \<open>The changes to tables are additions only, one for each class without a counterpart.\<close>

lemma compare_tables_added:
  "foldl (compare_tables False) cs ps = cs @ map AddTable [t. (Some t, None) \<leftarrow> ps]"
proof (induction ps arbitrary: cs)
  case (Cons p ps)
  obtain a b where "p = (a, b)" by (rule prod.exhaust)
  with Cons show ?case by (cases a; cases b) auto
qed simp

lemma added_names:
  "names [t. (Some t, None) \<leftarrow> ps] =
    map (\<lambda>p. o_name (the (fst p))) (filter (\<lambda>p. snd p = None) (filter (\<lambda>p. fst p \<noteq> None) ps))"
proof (induction ps)
  case (Cons p ps)
  obtain a b where "p = (a, b)" by (rule prod.exhaust)
  with Cons show ?case by (cases a; cases b) auto
qed simp

lemma distinct_added:
  assumes "distinct (names a)"
  shows "distinct (names [t. (Some t, None) \<leftarrow> zip_matching a b])"
proof -
  have "map (o_name \<circ> the) (map fst (filter (\<lambda>p. fst p \<noteq> None) (zip_matching a b))) = names a"
    unfolding zip_matching_first by (simp add: names_def)
  then have "distinct (map (\<lambda>p. o_name (the (fst p))) (filter (\<lambda>p. fst p \<noteq> None) (zip_matching a b)))"
    using assms by (simp add: o_def)
  then show ?thesis unfolding added_names by (rule distinct_map_filter)
qed

subsection \<open>Valid schemas\<close>

text \<open>What validation asks for, without regard to the order of the checks. The types that may have an
  index or be a primary key are given by the base type alone, so a list counts as its elements.\<close>

definition is_link :: "property \<Rightarrow> bool" where
  "is_link p \<longleftrightarrow> pt_eq (p_type p) PT_Object"

definition is_backlink :: "property \<Rightarrow> bool" where
  "is_backlink p \<longleftrightarrow> pt_eq (p_type p) PT_LinkingObjects"

definition property_ok :: "schema \<Rightarrow> bytes \<Rightarrow> property \<Rightarrow> bool" where
  "property_ok s obj p \<longleftrightarrow>
     (is_backlink p \<longrightarrow> is_array (p_type p)) \<and>
     (is_nullable (p_type p) \<longrightarrow> type_is_nullable p) \<and>
     (is_link p \<longrightarrow> is_nullable (p_type p) \<or> is_array (p_type p)) \<and>
     (is_primary p \<longrightarrow> pt_eq (p_type p) PT_Int \<or> pt_eq (p_type p) PT_String) \<and>
     (is_indexed p \<longrightarrow> (\<exists>ty \<in> {PT_Int, PT_Bool, PT_Date, PT_String}. pt_eq (p_type p) ty)) \<and>
     (link_origin_property_name p \<noteq> [] \<longleftrightarrow> is_backlink p) \<and>
     (object_type p \<noteq> [] \<longrightarrow> is_link p \<or> is_backlink p) \<and>
     (is_link p \<or> is_backlink p \<longrightarrow> (\<exists>target\<in>set s. o_name target = object_type p \<and>
       (is_backlink p \<longrightarrow> (\<exists>q. property_for_name target (link_origin_property_name p) = Some q \<and>
          is_link q \<and> object_type q = obj))))"

definition object_ok :: "schema \<Rightarrow> object_schema \<Rightarrow> bool" where
  "object_ok s os \<longleftrightarrow> distinct_properties os \<and>
     distinct (filter (\<lambda>n. n \<noteq> []) (map public_name (all_properties os))) \<and>
     (\<forall>p\<in>set (all_properties os). \<forall>q\<in>set (all_properties os). public_name p \<noteq> [] \<longrightarrow>
        public_name p \<noteq> p_name q) \<and>
     (\<forall>p\<in>set (all_properties os). property_ok s (o_name os) p) \<and>
     length (filter is_primary (all_properties os)) \<le> 1 \<and>
     (primary_key os \<noteq> [] \<longrightarrow>
       (\<exists>p\<in>set (all_properties os). is_primary p \<or> p_name p = primary_key os))"

definition schema_ok :: "schema \<Rightarrow> bool" where
  "schema_ok s \<longleftrightarrow> distinct (names s) \<and> (\<forall>os\<in>set s. object_ok s os)"

definition ascii_links :: "schema \<Rightarrow> bool" where
  "ascii_links s \<longleftrightarrow> (\<forall>os\<in>set s. \<forall>p\<in>set (all_properties os). ascii (object_type p))"

lemma check_target_empty:
  assumes "sorted_schema s" and "ascii_schema s" and "distinct (names s)" and "ascii (object_type p)"
  shows "check_target s obj p = [] \<longleftrightarrow> (object_type p \<noteq> [] \<longrightarrow> is_link p \<or> is_backlink p) \<and>
     (is_link p \<or> is_backlink p \<longrightarrow> (\<exists>target\<in>set s. o_name target = object_type p \<and>
       (is_backlink p \<longrightarrow> (\<exists>q. property_for_name target (link_origin_property_name p) = Some q \<and>
          is_link q \<and> object_type q = obj))))"
proof (cases "is_link p \<or> is_backlink p")
  case False
  then show ?thesis by (simp add: check_target_def is_link_def is_backlink_def)
next
  case True
  note find = schema_find_correct [OF assms(1,2,4)]
  show ?thesis
  proof (cases "object_type p \<in> set (names s)")
    case False
    with find True show ?thesis
      by (auto simp: check_target_def is_link_def is_backlink_def dest: in_names)
  next
    case found: True
    let ?i = "schema_find s (object_type p)"
    have i: "?i < length s" "o_name (s ! ?i) = object_type p" using find found by simp_all
    have u: "x = s ! ?i" if "x \<in> set s" "o_name x = object_type p" for x
      using that i assms(3) nth_mem [OF i(1)] unfolding names_def distinct_map inj_on_def by metis
    have ex: "(\<exists>x\<in>set s. o_name x = object_type p \<and> P x) \<longleftrightarrow> P (s ! ?i)" for P
      using u i nth_mem [OF i(1)] by metis
    show ?thesis unfolding ex using True i
      by (auto simp: check_target_def Let_def is_link_def is_backlink_def split: option.splits)
  qed
qed

lemma validate_property_empty:
  assumes "sorted_schema s" and "ascii_schema s" and "distinct (names s)" and "ascii (object_type p)"
  shows "snd (validate_property s obj p primary) = [] \<longleftrightarrow>
    property_ok s obj p \<and> (is_primary p \<longrightarrow> primary = None)"
  unfolding validate_property_def snd_conv append_is_Nil_conv check_target_empty [OF assms]
  by (auto simp: check_shape_def check_primary_def check_index_def property_ok_def type_is_indexable_def is_link_def
      is_backlink_def split: option.splits)


lemma validate_properties_empty:
  assumes "sorted_schema s" and "ascii_schema s" and "distinct (names s)"
    and "\<forall>p\<in>set ps. ascii (object_type p)"
  shows "(snd (validate_properties s obj ps primary) = [] \<longleftrightarrow> (\<forall>p\<in>set ps. property_ok s obj p) \<and>
      length (filter is_primary ps) + (if primary = None then 0 else 1) \<le> 1) \<and>
    (fst (validate_properties s obj ps primary) = None \<longleftrightarrow> primary = None \<and> (\<forall>p\<in>set ps. \<not> is_primary p))"
  using assms(4)
proof (induction ps arbitrary: primary)
  case (Cons p ps)
  obtain pr errs where v: "validate_property s obj p primary = (pr, errs)" by (rule prod.exhaust)
  obtain pr' rest where w: "validate_properties s obj ps pr = (pr', rest)" by (rule prod.exhaust)
  have errs: "errs = [] \<longleftrightarrow> property_ok s obj p \<and> (is_primary p \<longrightarrow> primary = None)"
    using validate_property_empty [OF assms(1-3), of p obj primary] v Cons.prems by simp
  have pr: "pr = (if is_primary p then Some p else primary)"
    using v by (simp add: validate_property_def)
  from Cons.IH [of pr] Cons.prems w errs pr show ?case by (auto simp: v)
qed simp

lemma distinct_sort_filter:
  "duplicates (std_sort string_data_less xs) = [] \<longleftrightarrow> distinct xs"
  by (rule duplicates_sort_empty [OF string_data_less_total])

lemma validate_names_empty:
  "validate_names os = [] \<longleftrightarrow> distinct_properties os \<and>
     distinct (filter (\<lambda>n. n \<noteq> []) (map public_name (all_properties os))) \<and>
     (\<forall>p\<in>set (all_properties os). \<forall>q\<in>set (all_properties os). public_name p \<noteq> [] \<longrightarrow>
        public_name p \<noteq> p_name q)"
proof -
  note sorted = sorted_std_sort [OF strict_totalD(1) [OF string_data_less_total]]
  have "set (set_intersection string_data_less (public_property_names os) (internal_property_names os)) =
      set (public_property_names os) \<inter> set (internal_property_names os)"
    unfolding public_property_names_def internal_property_names_def
    by (rule set_intersection_set [OF string_data_less_total sorted sorted])
  then have "set_intersection string_data_less (public_property_names os) (internal_property_names os) = []
      \<longleftrightarrow> (\<forall>p\<in>set (all_properties os). \<forall>q\<in>set (all_properties os). public_name p \<noteq> [] \<longrightarrow>
        public_name p \<noteq> p_name q)"
    unfolding set_empty [symmetric]
    by (auto simp: public_property_names_def internal_property_names_def) (simp add: eq_commute)
  then show ?thesis
    by (simp add: validate_names_def distinct_properties_def public_property_names_def
        internal_property_names_def distinct_sort_filter) blast
qed

lemma validate_object_empty:
  assumes "sorted_schema s" and "ascii_schema s" and "distinct (names s)"
    and "\<forall>p\<in>set (all_properties os). ascii (object_type p)"
  shows "validate_object s os = [] \<longleftrightarrow> object_ok s os"
proof -
  obtain pr errs where v: "validate_properties s (o_name os) (persisted_properties os) None = (pr, errs)"
    by (rule prod.exhaust)
  obtain pr' errs' where w: "validate_properties s (o_name os) (computed_properties os) pr = (pr', errs')"
    by (rule prod.exhaust)
  have a: "\<forall>p\<in>set (persisted_properties os). ascii (object_type p)"
    "\<forall>p\<in>set (computed_properties os). ascii (object_type p)"
    using assms(4) by (auto simp: all_properties_def)
  note V = validate_properties_empty [OF assms(1-3) a(1), of "o_name os" None]
  note W = validate_properties_empty [OF assms(1-3) a(2), of "o_name os" pr]
  have errs: "errs = [] \<and> errs' = [] \<longleftrightarrow> (\<forall>p\<in>set (all_properties os). property_ok s (o_name os) p) \<and>
      length (filter is_primary (all_properties os)) \<le> 1"
  proof -
    let ?n = "length (filter is_primary (persisted_properties os))"
    let ?m = "length (filter is_primary (computed_properties os))"
    have "pr = None \<longleftrightarrow> ?n = 0" using V v by (simp add: filter_empty_conv)
    then have "errs = [] \<longleftrightarrow> (\<forall>p\<in>set (persisted_properties os). property_ok s (o_name os) p) \<and> ?n \<le> 1"
      and "errs' = [] \<longleftrightarrow> (\<forall>p\<in>set (computed_properties os). property_ok s (o_name os) p) \<and>
        ?m + (if ?n = 0 then 0 else 1) \<le> 1"
      using V W v w by simp_all
    moreover have "n \<le> 1 \<and> m + (if n = 0 then 0 else 1) \<le> 1 \<longleftrightarrow> n + m \<le> 1" for n m :: nat by auto
    ultimately show ?thesis by (simp only: all_properties_def set_append ball_Un filter_append
        length_append) blast
  qed
  have "pr' = None \<longleftrightarrow> (\<forall>p\<in>set (all_properties os). \<not> is_primary p)"
    using V W v w by (auto simp: all_properties_def)
  moreover have "primary_key_property os = None \<longleftrightarrow>
      (\<forall>p\<in>set (all_properties os). p_name p \<noteq> primary_key os)"
    by (simp add: primary_key_property_def property_for_name_None)
  ultimately show ?thesis
    using errs validate_names_empty [of os] v w
    by (simp add: validate_object_def object_ok_def) blast
qed

lemma property_ok_cong: "set s = set s' \<Longrightarrow> property_ok s obj p = property_ok s' obj p"
  by (simp add: property_ok_def)

lemma schema_ok_cong: "mset s = mset s' \<Longrightarrow> schema_ok s = schema_ok s'"
proof -
  assume m: "mset s = mset s'"
  then have set: "set s = set s'" by (rule mset_eq_setD)
  have "mset (names s) = mset (names s')" using m by (simp add: names_def)
  then have "distinct (names s) = distinct (names s')" by (rule mset_eq_imp_distinct_iff)
  with set show ?thesis by (simp add: schema_ok_def object_ok_def property_ok_cong [OF set])
qed

lemma schema_validate_ok:
  assumes "sorted_schema s" and "ascii_schema s" and "ascii_links s"
  shows "schema_validate s = Inr () \<longleftrightarrow> schema_ok s"
proof -
  have dup: "adjacent_equal (\<lambda>l r. o_name l = o_name r) s = [] \<longleftrightarrow> distinct (names s)"
    unfolding names_def
    by (rule adjacent_equal_empty [OF string_less_total]) (fact assms(1) [unfolded sorted_schema_def])
  show ?thesis
  proof (cases "distinct (names s)")
    case True
    then have "validate_object s os = [] \<longleftrightarrow> object_ok s os" if "os \<in> set s" for os
      using validate_object_empty [OF assms(1,2) True] assms(3) that by (simp add: ascii_links_def)
    with True dup show ?thesis by (simp add: schema_validate_def schema_ok_def Let_def)
  next
    case False
    with dup show ?thesis by (simp add: schema_validate_def schema_ok_def Let_def)
  qed
qed

end
