(* ===== verification/Schema_Modes.thy ===== *)
theory Schema_Modes
  imports Schema_Validate
begin

section \<open>Which changes are allowed\<close>

text \<open>
  The verifiers of \<open>object_store.cpp\<close>, and the functions of \<open>Realm\<close> (\<open>shared_realm.cpp\<close>) that
  decide by the schema mode whether a schema can be used and whether the file has to be
  written. A thrown exception is \<open>Inl\<close>. A visitor of the C++ code is a function on the changes;
  one that inherits from \<open>SchemaDifferenceExplainer\<close> falls back on \<open>explain\<close>.
\<close>

datatype difference =
  Class_Added bytes
| Class_Removed bytes
| Property_Added bytes bytes
| Property_Removed bytes bytes
| Property_Type_Changed bytes bytes bytes bytes
| Property_Made_Optional bytes bytes
| Property_Made_Required bytes bytes
| Primary_Key_Changed bytes bytes bytes
| Primary_Key_Added bytes
| Primary_Key_Removed bytes
| Property_Made_Indexed bytes bytes
| Property_Made_Unindexed bytes bytes

datatype schema_exception =
  Schema_Mismatch "difference list"
| Invalid_Schema_Change "difference list"
| Invalid_External_Schema_Change "difference list"
| Invalid_Schema_Version nat nat

fun explain :: "schema_change \<Rightarrow> difference list" where
  "explain (AddTable o') = [Class_Added (o_name o')]"
| "explain (RemoveTable o') = []"
| "explain (AddInitialProperties o') = []"
| "explain (AddProperty o' p) = [Property_Added (o_name o') (p_name p)]"
| "explain (RemoveProperty o' p) = [Property_Removed (o_name o') (p_name p)]"
| "explain (ChangePropertyType o' old new) =
     [Property_Type_Changed (o_name o') (p_name new) (type_string old) (type_string new)]"
| "explain (MakePropertyNullable o' p) = [Property_Made_Optional (o_name o') (p_name p)]"
| "explain (MakePropertyRequired o' p) = [Property_Made_Required (o_name o') (p_name p)]"
| "explain (ChangePrimaryKey o' p) =
     (case p of
        Some q \<Rightarrow> if primary_key o' \<noteq> [] then [Primary_Key_Changed (o_name o') (primary_key o') (p_name q)]
                  else [Primary_Key_Added (o_name o')]
      | None \<Rightarrow> [Primary_Key_Removed (o_name o')])"
| "explain (AddIndex o' p) = [Property_Made_Indexed (o_name o') (p_name p)]"
| "explain (RemoveIndex o' p) = [Property_Made_Unindexed (o_name o') (p_name p)]"

definition verify_no_errors ::
  "(difference list \<Rightarrow> schema_exception) \<Rightarrow> (schema_change \<Rightarrow> difference list) \<Rightarrow>
   schema_change list \<Rightarrow> schema_exception + unit" where
  "verify_no_errors E verifier changes =
     (let errors = concat (map verifier changes) in if errors \<noteq> [] then Inl (E errors) else Inr ())"

fun change_needs_migration :: "schema_change \<Rightarrow> bool" where
  "change_needs_migration (AddIndex o' p) = False"
| "change_needs_migration (AddInitialProperties o') = False"
| "change_needs_migration (AddProperty o' p) = True"
| "change_needs_migration (AddTable o') = False"
| "change_needs_migration (RemoveTable o') = False"
| "change_needs_migration (ChangePrimaryKey o' k) = True"
| "change_needs_migration (ChangePropertyType o' p q) = True"
| "change_needs_migration (MakePropertyNullable o' p) = True"
| "change_needs_migration (MakePropertyRequired o' p) = True"
| "change_needs_migration (RemoveIndex o' p) = False"
| "change_needs_migration (RemoveProperty o' p) = True"

definition needs_migration :: "schema_change list \<Rightarrow> bool" where
  "needs_migration changes \<longleftrightarrow> list_ex change_needs_migration changes"

definition verify_no_changes_required :: "schema_change list \<Rightarrow> schema_exception + unit" where
  "verify_no_changes_required = verify_no_errors Schema_Mismatch explain"

fun explain_migration :: "schema_change \<Rightarrow> difference list" where
  "explain_migration (AddTable o') = []"
| "explain_migration (AddInitialProperties o') = []"
| "explain_migration (AddIndex o' p) = []"
| "explain_migration (RemoveIndex o' p) = []"
| "explain_migration c = explain c"

definition verify_no_migration_required :: "schema_change list \<Rightarrow> schema_exception + unit" where
  "verify_no_migration_required = verify_no_errors Schema_Mismatch explain_migration"

fun explain_additive :: "schema_change \<Rightarrow> difference list" where
  "explain_additive (AddTable o') = []"
| "explain_additive (AddInitialProperties o') = []"
| "explain_additive (AddProperty o' p) = []"
| "explain_additive (RemoveProperty o' p) = []"
| "explain_additive (AddIndex o' p) = []"
| "explain_additive (RemoveIndex o' p) = []"
| "explain_additive c = explain c"

fun index_change :: "schema_change \<Rightarrow> bool" where
  "index_change (AddIndex o' p) = True"
| "index_change (RemoveIndex o' p) = True"
| "index_change c = False"

fun other_change :: "schema_change \<Rightarrow> bool" where
  "other_change (AddTable o') = True"
| "other_change (AddInitialProperties o') = True"
| "other_change (AddProperty o' p) = True"
| "other_change c = False"

definition verify_valid_additive_changes ::
  "schema_change list \<Rightarrow> bool \<Rightarrow> schema_exception + bool" where
  "verify_valid_additive_changes changes update_indexes =
     (case verify_no_errors Invalid_Schema_Change explain_additive changes of
        Inl e \<Rightarrow> Inl e
      | Inr _ \<Rightarrow> Inr (list_ex other_change changes \<or> list_ex index_change changes \<and> update_indexes))"

fun explain_external :: "schema_change \<Rightarrow> difference list" where
  "explain_external (AddTable o') = []"
| "explain_external (AddInitialProperties o') = []"
| "explain_external (AddProperty o' p) = []"
| "explain_external (AddIndex o' p) = []"
| "explain_external (RemoveIndex o' p) = []"
| "explain_external (RemoveTable o') = [Class_Removed (o_name o')]"
| "explain_external c = explain c"

definition verify_valid_external_changes :: "schema_change list \<Rightarrow> schema_exception + unit" where
  "verify_valid_external_changes = verify_no_errors Invalid_External_Schema_Change explain_external"

fun explain_read_only :: "schema_change \<Rightarrow> difference list" where
  "explain_read_only (AddTable o') = []"
| "explain_read_only (AddInitialProperties o') = []"
| "explain_read_only (RemoveProperty o' p) = []"
| "explain_read_only (AddIndex o' p) = []"
| "explain_read_only (RemoveIndex o' p) = []"
| "explain_read_only c = explain c"

definition verify_compatible_for_immutable_and_readonly ::
  "schema_change list \<Rightarrow> schema_exception + unit" where
  "verify_compatible_for_immutable_and_readonly =
     verify_no_errors Invalid_Schema_Change explain_read_only"

subsection \<open>Schema modes\<close>

datatype schema_mode = Automatic | Immutable | ReadOnlyAlternative | ResetFile | Additive | Manual

text \<open>A version is an unsigned 64 bit number; the largest one says that the file has none.\<close>

definition NotVersioned :: nat where
  "NotVersioned = 2 ^ 64 - 1"

text \<open>Whether to write; \<open>Reset_And_Write\<close> deletes the file first. The branch that the code
  declares unreachable is \<open>None\<close>.\<close>

datatype decision = No_Write | Write | Reset_And_Write

definition schema_change_needs_write_transaction ::
  "schema_mode \<Rightarrow> nat \<Rightarrow> schema_change list \<Rightarrow> nat \<Rightarrow> (schema_exception + decision) option" where
  "schema_change_needs_write_transaction mode m_schema_version changes version =
     (if version = m_schema_version \<and> changes = [] then Some (Inr No_Write)
      else case mode of
        Automatic \<Rightarrow>
          if version < m_schema_version \<and> m_schema_version \<noteq> NotVersioned
          then Some (Inl (Invalid_Schema_Version m_schema_version version)) else Some (Inr Write)
      | Immutable \<Rightarrow>
          if version \<noteq> m_schema_version then Some (Inl (Invalid_Schema_Version m_schema_version version))
          else (case verify_compatible_for_immutable_and_readonly changes of
              Inl e \<Rightarrow> Some (Inl e) | Inr _ \<Rightarrow> Some (Inr No_Write))
      | ReadOnlyAlternative \<Rightarrow>
          (case verify_compatible_for_immutable_and_readonly changes of
              Inl e \<Rightarrow> Some (Inl e) | Inr _ \<Rightarrow> Some (Inr No_Write))
      | ResetFile \<Rightarrow>
          if m_schema_version = NotVersioned then Some (Inr Write)
          else if m_schema_version = version \<and> \<not> needs_migration changes then Some (Inr Write)
          else Some (Inr Reset_And_Write)
      | Additive \<Rightarrow>
          let will_apply_index_changes = version > m_schema_version in
          (case verify_valid_additive_changes changes will_apply_index_changes of
              Inl e \<Rightarrow> Some (Inl e)
            | Inr w \<Rightarrow> if w then Some (Inr Write)
                else Some (Inr (if version \<noteq> m_schema_version then Write else No_Write)))
      | Manual \<Rightarrow>
          if version < m_schema_version \<and> m_schema_version \<noteq> NotVersioned
          then Some (Inl (Invalid_Schema_Version m_schema_version version))
          else if version = m_schema_version then
            (case verify_no_changes_required changes of Inl e \<Rightarrow> Some (Inl e) | Inr _ \<Rightarrow> None)
          else Some (Inr Write))"

definition verify_schema_subset :: "schema_mode \<Rightarrow> schema_change list \<Rightarrow> schema_exception + unit" where
  "verify_schema_subset mode changes =
     (case mode of
        Automatic \<Rightarrow> verify_no_migration_required changes
      | ResetFile \<Rightarrow> verify_no_migration_required changes
      | Immutable \<Rightarrow> verify_compatible_for_immutable_and_readonly changes
      | ReadOnlyAlternative \<Rightarrow> verify_compatible_for_immutable_and_readonly changes
      | Additive \<Rightarrow> (case verify_valid_additive_changes changes False of Inl e \<Rightarrow> Inl e | Inr _ \<Rightarrow> Inr ())
      | Manual \<Rightarrow> verify_no_changes_required changes)"

text \<open>\<open>set_schema_subset\<close> on a Realm that was opened without a schema.\<close>

definition set_schema_subset :: "schema_mode \<Rightarrow> schema \<Rightarrow> schema \<Rightarrow> schema_exception + schema" where
  "set_schema_subset mode m_schema schema =
     (case verify_schema_subset mode (schema_compare m_schema schema False) of
        Inl e \<Rightarrow> Inl e
      | Inr _ \<Rightarrow> Inr (copy_table_columns_from schema m_schema))"


text \<open>The first part of \<open>update_schema\<close>: the schema is validated and compared with that of the
  file, and the mode decides.\<close>

datatype update_error = Invalid_Schema "schema_error list" | Refused schema_exception

definition update_schema_check ::
  "schema_mode \<Rightarrow> nat \<Rightarrow> schema \<Rightarrow> schema \<Rightarrow> nat \<Rightarrow> (update_error + decision) option" where
  "update_schema_check mode m_schema_version actual_schema schema version =
     (case schema_validate schema of
        Inl errs \<Rightarrow> Some (Inl (Invalid_Schema errs))
      | Inr _ \<Rightarrow>
          (case schema_change_needs_write_transaction mode m_schema_version
              (schema_compare actual_schema schema False) version of
             None \<Rightarrow> None
           | Some (Inl e) \<Rightarrow> Some (Inl (Refused e))
           | Some (Inr d) \<Rightarrow> Some (Inr d)))"

end
