(* ===== verification/Schema_Props.thy ===== *)
theory Schema_Props
  imports Schema_Lemmas Schema_Modes
begin

section \<open>Properties of schemas\<close>

text \<open>
  What opening a file relies on: classes are found by name, a schema without errors is consistent,
  and the changes listed by a comparison are exactly those that are needed, in an order in which
  they can be applied.
\<close>

subsection \<open>Search\<close>

lemma find_ok:
  assumes "ascii_schema types" and "ascii name"
  shows "if name \<in> set (names types)
    then schema_find (make_schema types) name < length types \<and>
      o_name (make_schema types ! schema_find (make_schema types) name) = name
    else schema_find (make_schema types) name = length types"
proof -
  have "set (names (make_schema types)) = set (names types)"
    by (metis mset_names_make_schema set_mset_mset)
  moreover have "ascii_schema (make_schema types)"
    using assms(1) calculation by (simp add: ascii_schema_def list_all_iff)
  moreover have "length (make_schema types) = length types" by (simp add: make_schema_def)
  ultimately show ?thesis
    using schema_find_correct [OF sorted_make_schema _ assms(2), of types] by (simp split: if_splits)
qed

text \<open>a schema built from classes with ASCII names finds a class by its name when there is
  one, and returns \<open>end()\<close> when there is none.\<close>

theorem schema_find_by_name:
  assumes "ascii_schema types" and "ascii name"
  shows "(name \<in> set (names types) \<longrightarrow> schema_find (make_schema types) name < length types \<and>
      o_name (make_schema types ! schema_find (make_schema types) name) = name) \<and>
    (name \<notin> set (names types) \<longrightarrow> schema_find (make_schema types) name = length types)"
  using find_ok [OF assms] by (auto split: if_splits)

definition sample_class :: "string \<Rightarrow> object_schema" where
  "sample_class s = new_object_schema (lit s) [value_property (lit ''id'') PT_Int True False []] []"

theorem schema_find_by_name_witness:
  "schema_find (make_schema [sample_class ''dog'', sample_class ''cat'', sample_class ''bird'']) (lit ''cat'') < 3 \<and>
   schema_find (make_schema [sample_class ''dog'', sample_class ''cat'', sample_class ''bird'']) (lit ''cow'') = 3"
proof -
  let ?types = "[sample_class ''dog'', sample_class ''cat'', sample_class ''bird'']"
  have "ascii_schema ?types" "ascii (lit ''cat'')" "ascii (lit ''cow'')"
    "lit ''cat'' \<in> set (names ?types)" "lit ''cow'' \<notin> set (names ?types)"
    by (simp_all add: ascii_schema_def ascii_def sample_class_def new_object_schema_def lit_def)
  with schema_find_by_name [of ?types "lit ''cat''", THEN conjunct1]
    schema_find_by_name [of ?types "lit ''cow''", THEN conjunct2]
  show ?thesis by (simp del: names_Cons)
qed

lemma sample_order:
  "string_less [97] [195, 169]" "\<not> string_less [195, 169] [97]"
  "\<not> string_data_less [97] [195, 169]" "\<not> string_data_less [195, 169] [195, 169]"
  by (simp_all add: string_less_def string_data_less_def word_sless_alt)

lemma optional_link:
  "pt_eq (PT_Object OR PT_Nullable) PT_Object" "\<not> pt_eq (PT_Object OR PT_Nullable) PT_LinkingObjects"
  "string_for_property_type (PT_Object OR PT_Nullable) = lit ''object''"
  by code_simp+

text \<open>a class whose name is not ASCII can be in the schema and not be found, and then a link
  to it is reported as a link to an unknown class: the vector is sorted by unsigned bytes and
  searched by signed ones.\<close>

theorem schema_find_misses:
  assumes "o_name a = [97]" and "o_name b = [195, 169]"
  shows "make_schema [b, a] = [a, b] \<and> schema_find [a, b] (o_name b) = length [a, b] \<and>
    check_target [a, b] obj (link_property n (PT_Object OR PT_Nullable) (o_name b) [] []) =
      [Unknown_Object_Type obj n (lit ''object'') (o_name b)]"
proof -
  have "schema_find [a, b] (o_name b) = 2"
    using assms sample_order by (simp add: schema_find_def lower_bound_def lower_bound_loop_step)
  then show ?thesis using assms sample_order
    by (simp add: make_schema_def std_sort_def check_target_def link_property_def new_property_def
        optional_link)
qed

theorem schema_find_misses_witness:
  "schema_find (make_schema [new_object_schema [195, 169] [] [], new_object_schema [97] [] []])
     [195, 169] = 2"
  using schema_find_misses [of "new_object_schema [97] [] []" "new_object_schema [195, 169] [] []"]
  by (simp add: new_object_schema_def)

subsection \<open>Validation\<close>

text \<open>C18: a schema built from classes whose names and link targets are ASCII is accepted exactly
  when class names are unique and every class is well formed: unique property names, aliases
  that clash with nothing, at most one primary key, of type int or string, and existing if it
  is named, nullability, indexes and object types only where they are allowed (for indexes and
  primary keys a list counts as its elements), links to classes of the schema, and backlinks that name a link back to their class.\<close>

theorem schema_validate_iff:
  assumes "ascii_schema types" and "ascii_links types"
  shows "schema_validate (make_schema types) = Inr () \<longleftrightarrow> schema_ok types"
proof -
  have "mset (make_schema types) = mset types" by (simp add: make_schema_def)
  from schema_ok_cong [OF this] show ?thesis
    using schema_validate_ok [OF sorted_make_schema, of types] assms
    by (simp add: ascii_schema_def ascii_links_def list_all_iff names_def)
qed

definition sample_types :: "object_schema list" where
  "sample_types =
    [new_object_schema (lit ''dog'') [link_property (lit ''owner'') (PT_Object OR PT_Nullable) (lit ''person'') [] []] [],
     new_object_schema (lit ''person'') [value_property (lit ''id'') PT_Int True False []]
       [link_property (lit ''dogs'') (PT_LinkingObjects OR PT_Array) (lit ''dog'') (lit ''owner'') []]]"

lemma sample_flags:
  "pt_eq (PT_Object OR PT_Nullable) PT_Object" "is_nullable (PT_Object OR PT_Nullable)"
  "\<not> pt_eq (PT_Object OR PT_Nullable) PT_LinkingObjects" "\<not> pt_eq PT_Int PT_Object"
  "\<not> pt_eq PT_Int PT_LinkingObjects" "\<not> is_nullable PT_Int" "pt_eq PT_Int PT_Int"
  "pt_eq (PT_LinkingObjects OR PT_Array) PT_LinkingObjects" "is_array (PT_LinkingObjects OR PT_Array)"
  "\<not> pt_eq (PT_LinkingObjects OR PT_Array) PT_Object" "\<not> is_nullable (PT_LinkingObjects OR PT_Array)"
  "\<not> is_array (PT_Object OR PT_Nullable)"
  by code_simp+

lemmas new_defs = new_object_schema_def link_property_def value_property_def new_property_def

lemma sample_types_ok: "schema_ok sample_types"
  by (simp add: schema_ok_def object_ok_def sample_types_def new_defs distinct_properties_def
      all_properties_def property_ok_def is_link_def is_backlink_def sample_flags lit_def
      type_is_nullable_def type_is_indexable_def property_for_name_def)

theorem schema_validate_iff_witness:
  "schema_validate (make_schema sample_types) = Inr () \<and>
   schema_validate (make_schema (sample_types @ sample_types)) \<noteq> Inr ()"
proof -
  have a: "ascii_schema sample_types" "ascii_links sample_types"
    by (simp_all add: ascii_schema_def ascii_links_def sample_types_def new_defs ascii_def
        all_properties_def lit_def)
  then have "ascii_schema (sample_types @ sample_types)" "ascii_links (sample_types @ sample_types)"
    by (auto simp: ascii_schema_def ascii_links_def names_def)
  moreover have "\<not> schema_ok (sample_types @ sample_types)"
    by (simp add: schema_ok_def names_def sample_types_def)
  ultimately show ?thesis
    using schema_validate_iff [OF a] schema_validate_iff [of "sample_types @ sample_types"]
      sample_types_ok by blast
qed

subsection \<open>Comparison\<close>

lemma schema_compare_changes:
  assumes "distinct (names E)" and "distinct (names T)" and "list_all distinct_properties T"
  shows "c \<in> set (schema_compare (make_schema E) (make_schema T) removals) \<longleftrightarrow> needed E T removals c"
proof -
  have "set (names (make_schema S)) = set (names S)" for S
    by (metis mset_names_make_schema set_mset_mset)
  then have "needed (make_schema E) (make_schema T) removals c \<longleftrightarrow> needed E T removals c"
    by (cases c) (simp_all add: added_def)
  moreover have "\<forall>t\<in>set (make_schema T). distinct_properties t" using assms(3) by (simp add: list_all_iff)
  ultimately show ?thesis
    using schema_compare_needed [OF sorted_make_schema sorted_make_schema, of E T c removals] assms(1,2)
    by (simp add: distinct_names_make_schema)
qed

text \<open>C19: the comparison of two schemas lists exactly the changes that are needed: the classes and
  properties that one side lacks, and what differs in type, nullability, index or primary
  key between properties and classes of the same name.\<close>

theorem schema_compare_exact:
  assumes "distinct (names E)" and "distinct (names T)" and "list_all distinct_properties T"
  shows "c \<in> set (schema_compare (make_schema E) (make_schema T) removals) \<longleftrightarrow> needed E T removals c"
  by (rule schema_compare_changes [OF assms])

definition sample_optional :: "object_schema list" where
  "sample_optional =
    [new_object_schema (lit ''dog'') [value_property (lit ''age'') (PT_Int OR PT_Nullable) False True []] []]"

definition sample_required :: "object_schema list" where
  "sample_required =
    [new_object_schema (lit ''dog'') [value_property (lit ''age'') PT_Int False False []] []]"

lemma more_flags:
  "pt_eq PT_Int (PT_Int OR PT_Nullable)" "is_nullable (PT_Int OR PT_Nullable)"
  "\<not> is_array (PT_Int OR PT_Nullable)" "\<not> is_array PT_Int"
  by code_simp+

theorem schema_compare_exact_witness:
  "{MakePropertyNullable (hd sample_required) (hd (persisted_properties (hd sample_required))),
    AddIndex (hd sample_required) (hd (persisted_properties (hd sample_required)))} \<subseteq>
   set (schema_compare (make_schema sample_required) (make_schema sample_optional) False)"
  using schema_compare_exact [of sample_required sample_optional _ False]
  by (simp add: sample_required_def sample_optional_def new_defs distinct_properties_def
      all_properties_def same_shape_def more_flags sample_flags requires_index_def lit_def)

text \<open>C20: the changes come in an order in which they can be applied: first all the changes to
  tables, so that links find their target, then the changes to columns, then the removals of
  columns, by decreasing column so that none renumbers a later one; only the properties of
  new tables may follow them.\<close>

theorem schema_compare_order:
  "changes_ordered (filter is_table_change (schema_compare E T removals)) (schema_compare E T removals)"
  by (rule schema_compare_tables_first)

subsection \<open>Schema modes\<close>

text \<open>Two schemas agree where both have a class or a property; the additive mode asks for no more.
  A file that is only read must also have every property of its classes that is asked for.\<close>

definition additive_compatible :: "object_schema list \<Rightarrow> object_schema list \<Rightarrow> bool" where
  "additive_compatible E T \<longleftrightarrow> (\<forall>e\<in>set E. \<forall>t\<in>set T. o_name t = o_name e \<longrightarrow>
     primary_key e = primary_key t \<and>
     (\<forall>p\<in>set (persisted_properties e). \<forall>q\<in>set (persisted_properties t). p_name q = p_name p \<longrightarrow>
       same_shape p q \<and> is_nullable (p_type p) = is_nullable (p_type q)))"

definition read_only_compatible :: "object_schema list \<Rightarrow> object_schema list \<Rightarrow> bool" where
  "read_only_compatible E T \<longleftrightarrow> additive_compatible E T \<and>
     (\<forall>e\<in>set E. \<forall>t\<in>set T. o_name t = o_name e \<longrightarrow>
       p_name ` set (persisted_properties t) \<subseteq> p_name ` set (all_properties e))"

definition accepted :: "schema_mode \<Rightarrow> nat \<Rightarrow> nat \<Rightarrow> object_schema list \<Rightarrow> object_schema list \<Rightarrow> bool" where
  "accepted mode old new E T \<longleftrightarrow>
     (case mode of
        Automatic \<Rightarrow> old \<le> new \<or> old = NotVersioned
      | Immutable \<Rightarrow> new = old \<and> read_only_compatible E T
      | ReadOnlyAlternative \<Rightarrow> read_only_compatible E T
      | ResetFile \<Rightarrow> True
      | Additive \<Rightarrow> additive_compatible E T
      | Manual \<Rightarrow> if new = old then \<forall>c. \<not> needed E T False c else old < new \<or> old = NotVersioned)"

lemma explain_primary_key: "explain (ChangePrimaryKey e k) \<noteq> []"
  by (simp split: option.splits)

fun incompatible_change :: "schema_change \<Rightarrow> bool" where
  "incompatible_change (ChangePropertyType e p q) = True"
| "incompatible_change (MakePropertyNullable e p) = True"
| "incompatible_change (MakePropertyRequired e p) = True"
| "incompatible_change (ChangePrimaryKey e k) = True"
| "incompatible_change c = False"

lemma additive_compatible_iff:
  "additive_compatible E T \<longleftrightarrow> (\<forall>c. needed E T False c \<longrightarrow> \<not> incompatible_change c)"
proof
  assume "additive_compatible E T"
  then have "\<not> needed E T False c" if "incompatible_change c" for c
    using that by (cases c) (auto simp: additive_compatible_def; blast)+
  then show "\<forall>c. needed E T False c \<longrightarrow> \<not> incompatible_change c" by blast
next
  assume no: "\<forall>c. needed E T False c \<longrightarrow> \<not> incompatible_change c"
  show "additive_compatible E T"
    unfolding additive_compatible_def
  proof (intro ballI impI conjI)
    fix e t
    assume et: "e \<in> set E" "t \<in> set T" "o_name t = o_name e"
    show "primary_key e = primary_key t"
      using no [rule_format, of "ChangePrimaryKey e (primary_key_property t)"] et by auto
    fix p q
    assume pq: "p \<in> set (persisted_properties e)" "q \<in> set (persisted_properties t)" "p_name q = p_name p"
    show s: "same_shape p q"
      using no [rule_format, of "ChangePropertyType e p q"] et pq by auto
    show "is_nullable (p_type p) = is_nullable (p_type q)"
      using no [rule_format, of "MakePropertyNullable e p"]
        no [rule_format, of "MakePropertyRequired e p"] et pq s by simp blast
  qed
qed

lemma read_only_compatible_iff:
  "read_only_compatible E T \<longleftrightarrow>
    (\<forall>c. needed E T False c \<longrightarrow> \<not> incompatible_change c \<and> (\<forall>e p. c \<noteq> AddProperty e p))"
proof -
  have "(\<forall>e\<in>set E. \<forall>t\<in>set T. o_name t = o_name e \<longrightarrow>
       p_name ` set (persisted_properties t) \<subseteq> p_name ` set (all_properties e)) \<longleftrightarrow>
     (\<forall>e p. \<not> needed E T False (AddProperty e p))"
    by (auto simp: all_properties_def image_iff subset_iff; metis)
  then show ?thesis unfolding read_only_compatible_def additive_compatible_iff by blast
qed

lemma verify_no_errors_ok:
  "verify_no_errors X f changes = Inr () \<longleftrightarrow> (\<forall>c\<in>set changes. f c = [])"
  by (auto simp: verify_no_errors_def)

lemma additive_silent: "explain_additive c = [] \<longleftrightarrow> \<not> incompatible_change c"
  by (cases c) (auto split: option.splits)

lemma read_only_silent: "explain_read_only c = [] \<longleftrightarrow>
    \<not> incompatible_change c \<and> (\<forall>e p. c \<noteq> AddProperty e p)"
  by (cases c) (auto split: option.splits)

lemma explain_silent: "explain c = [] \<longleftrightarrow> (\<exists>e. c = RemoveTable e) \<or> (\<exists>t. c = AddInitialProperties t)"
  by (cases c) (auto split: option.splits)

lemma no_changes_iff:
  "(\<forall>c. needed E T False c \<longrightarrow> explain c = []) \<longleftrightarrow> (\<forall>c. \<not> needed E T False c)"
proof
  assume silent: "\<forall>c. needed E T False c \<longrightarrow> explain c = []"
  show "\<forall>c. \<not> needed E T False c"
  proof (intro allI notI)
    fix c assume c: "needed E T False c"
    with silent have "(\<exists>e. c = RemoveTable e) \<or> (\<exists>t. c = AddInitialProperties t)"
      by (simp add: explain_silent)
    with c obtain t where "needed E T False (AddTable t)" by auto
    with silent show False by fastforce
  qed
qed simp

text \<open>What the decision of a mode to write depends on, for all modes: reading needs all the
  properties asked for, with their types.\<close>

lemma mode_decision:
  assumes "distinct (names E)" and "distinct (names T)" and "list_all distinct_properties T"
  shows "let result = schema_change_needs_write_transaction mode old
      (schema_compare (make_schema E) (make_schema T) False) new
    in result \<noteq> None \<and> ((\<exists>d. result = Some (Inr d)) \<longleftrightarrow> accepted mode old new E T)"
proof -
  let ?cs = "schema_compare (make_schema E) (make_schema T) False"
  note exact = schema_compare_changes [OF assms(1-3)]
  have all: "(\<forall>c\<in>set ?cs. P c) \<longleftrightarrow> (\<forall>c. needed E T False c \<longrightarrow> P c)" for P
    using exact by blast
  have add: "(\<forall>c\<in>set ?cs. explain_additive c = []) \<longleftrightarrow> additive_compatible E T"
    unfolding all additive_silent additive_compatible_iff ..
  have ro: "verify_compatible_for_immutable_and_readonly ?cs = Inr () \<longleftrightarrow> read_only_compatible E T"
    unfolding verify_compatible_for_immutable_and_readonly_def verify_no_errors_ok all
      read_only_silent read_only_compatible_iff ..
  have empty: "?cs = [] \<longleftrightarrow> (\<forall>c. \<not> needed E T False c)"
    using exact by (metis empty_iff list.set_cases list.set(1) list.set_intros(1) neq_Nil_conv)
  have same: "verify_no_changes_required ?cs = Inr () \<longleftrightarrow> ?cs = []"
    unfolding verify_no_changes_required_def verify_no_errors_ok all no_changes_iff empty ..
  have ok: "additive_compatible E T \<and> read_only_compatible E T" if "?cs = []"
    using that empty by (simp add: additive_compatible_iff read_only_compatible_iff)
  have add': "(\<exists>w. verify_valid_additive_changes ?cs idx = Inr w) \<longleftrightarrow> additive_compatible E T" for idx
    using add by (auto simp: verify_valid_additive_changes_def verify_no_errors_def split: sum.splits)
  show ?thesis
  proof (cases "new = old \<and> ?cs = []")
    case True
    then show ?thesis using ok empty
      by (cases mode) (simp_all add: schema_change_needs_write_transaction_def accepted_def)
  next
    case False
    show ?thesis
    proof (cases mode)
      case Additive
      then show ?thesis using False add' [of "new > old"]
        by (auto simp: schema_change_needs_write_transaction_def accepted_def Let_def split: sum.splits)
    next
      case Manual
      then show ?thesis using False same empty
        by (auto simp: schema_change_needs_write_transaction_def accepted_def split: sum.splits)
    qed (use False ro in \<open>auto simp: schema_change_needs_write_transaction_def accepted_def split: sum.splits\<close>)
  qed
qed

lemma sample_distinct:
  "distinct (names sample_required)" "distinct (names sample_optional)"
  "list_all distinct_properties sample_required" "list_all distinct_properties sample_optional"
  by (simp_all add: sample_required_def sample_optional_def new_defs distinct_properties_def
      all_properties_def lit_def names_def)

text \<open>C22: when a mode that may write decides not to, the file needs no class and no property
  added, its version is the one asked for and, but for the additive mode, nothing differs.\<close>

theorem no_write_complete:
  assumes "distinct (names E)" and "distinct (names T)" and "list_all distinct_properties T"
    and "schema_change_needs_write_transaction mode old
      (schema_compare (make_schema E) (make_schema T) False) new = Some (Inr No_Write)"
    and "mode \<noteq> Immutable" and "mode \<noteq> ReadOnlyAlternative"
  shows "new = old \<and> \<not> needed E T False (AddTable c) \<and> \<not> needed E T False (AddProperty c p) \<and>
    (mode \<noteq> Additive \<longrightarrow> \<not> needed E T False change)"
proof (cases "new = old \<and> schema_compare (make_schema E) (make_schema T) False = []")
  case True
  then show ?thesis using schema_compare_changes [OF assms(1-3)] by (metis empty_iff list.set(1))
next
  case False
  let ?cs = "schema_compare (make_schema E) (make_schema T) False"
  from False assms(4-6) have m: "mode = Additive" "new = old" "\<not> list_ex other_change ?cs"
    by (cases mode; auto simp: schema_change_needs_write_transaction_def Let_def
        verify_valid_additive_changes_def split: sum.splits if_splits)+
  from m(3) have "AddTable c \<notin> set ?cs" "AddProperty c p \<notin> set ?cs"
    by (auto simp: list_ex_iff)
  with m show ?thesis using schema_compare_changes [OF assms(1-3)] by blast
qed

lemma sample_required_same:
  "schema_compare (make_schema sample_required) (make_schema sample_required) False = []"
  by (simp add: sample_required_def make_schema_def std_sort_def schema_compare_def compare_objects_def
      new_defs compare_property_def property_for_name_def sort_removals_def property_is_computed_def
      sample_flags more_flags requires_index_def)

theorem no_write_complete_witness:
  "\<not> needed sample_required sample_required False (AddTable (hd sample_optional))"
  using no_write_complete [OF sample_distinct(1,1,3), of Automatic 1 1 "hd sample_optional"]
    sample_required_same by (simp add: schema_change_needs_write_transaction_def)

end
