(* ===== verification/Schema_Apply.thy ===== *)
theory Schema_Apply
  imports Schema_Modes Prelude
begin

section \<open>Applying a schema to a file\<close>

text \<open>
  The functions of \<open>object_store.cpp\<close> that change the tables of a group. The group is an object of
  the storage engine: its type is a type variable, and the record \<open>db\<close> holds the functions
  of \<open>Group\<close>, \<open>Table\<close> and \<open>realm::sync\<close> that the code calls, a table being given by its name.
  \<open>db_view\<close> stands for the accessors that read names, columns and the primary keys. A branch that
  the code declares unreachable is \<open>None\<close>. Assertions (that the target of a link exists, and those on
  object ids in \<open>set_primary_key_for_object\<close>) are left out, as in a release build. \<open>TableHelper\<close> only saves the lookup of a table, whose
  accessor stays attached while columns come and go.
\<close>

datatype cell = Cell_Int "64 word" | Cell_Bool bool | Cell_Float "32 word" | Cell_Double "64 word"
  | Cell_String bytes | Cell_Binary bytes | Cell_Timestamp int int

record 'g db =
  db_view :: "'g \<Rightarrow> group"
  db_size :: "'g \<Rightarrow> bytes \<Rightarrow> nat"
  db_get_or_add_table :: "'g \<Rightarrow> bytes \<Rightarrow> 'g"
  db_sync_create_table :: "'g \<Rightarrow> bytes \<Rightarrow> 'g"
  db_sync_create_table_with_primary_key :: "'g \<Rightarrow> bytes \<Rightarrow> data_type \<Rightarrow> bytes \<Rightarrow> bool \<Rightarrow> 'g"
  db_remove_table :: "'g \<Rightarrow> bytes \<Rightarrow> 'g"
  db_insert_column :: "'g \<Rightarrow> bytes \<Rightarrow> nat \<Rightarrow> data_type \<Rightarrow> bytes \<Rightarrow> bool \<Rightarrow> 'g"
  db_add_subcolumn :: "'g \<Rightarrow> bytes \<Rightarrow> nat \<Rightarrow> data_type \<Rightarrow> bytes \<Rightarrow> bool \<Rightarrow> 'g"
  db_insert_column_link :: "'g \<Rightarrow> bytes \<Rightarrow> nat \<Rightarrow> data_type \<Rightarrow> bytes \<Rightarrow> bytes \<Rightarrow> 'g"
  db_remove_column :: "'g \<Rightarrow> bytes \<Rightarrow> nat \<Rightarrow> 'g"
  db_rename_column :: "'g \<Rightarrow> bytes \<Rightarrow> nat \<Rightarrow> bytes \<Rightarrow> 'g"
  db_add_search_index :: "'g \<Rightarrow> bytes \<Rightarrow> nat \<Rightarrow> 'g"
  db_remove_search_index :: "'g \<Rightarrow> bytes \<Rightarrow> nat \<Rightarrow> 'g"
  db_add_empty_row :: "'g \<Rightarrow> bytes \<Rightarrow> 'g"
  db_move_last_over :: "'g \<Rightarrow> bytes \<Rightarrow> nat \<Rightarrow> 'g"
  db_find_first_string :: "'g \<Rightarrow> bytes \<Rightarrow> nat \<Rightarrow> bytes \<Rightarrow> nat option"
  db_get :: "'g \<Rightarrow> data_type \<Rightarrow> bytes \<Rightarrow> nat \<Rightarrow> nat \<Rightarrow> cell"
  db_set :: "'g \<Rightarrow> bytes \<Rightarrow> nat \<Rightarrow> nat \<Rightarrow> cell \<Rightarrow> 'g"
  db_set_string_unique :: "'g \<Rightarrow> bytes \<Rightarrow> nat \<Rightarrow> nat \<Rightarrow> bytes \<Rightarrow> 'g"
  db_has_object_ids :: "'g \<Rightarrow> bool"
  db_distinct_size :: "'g \<Rightarrow> bytes \<Rightarrow> nat \<Rightarrow> nat"
  db_default_permissions :: "'g \<Rightarrow> schema_change list \<Rightarrow> bytes \<Rightarrow> 'g"

definition has_table :: "'g db \<Rightarrow> 'g \<Rightarrow> bytes \<Rightarrow> bool" where
  "has_table db g name \<longleftrightarrow> map_of (g_tables (db_view db g)) name \<noteq> None"

definition columns_of :: "'g db \<Rightarrow> 'g \<Rightarrow> bytes \<Rightarrow> core_column list" where
  "columns_of db g name = (case map_of (g_tables (db_view db g)) name of None \<Rightarrow> [] | Some cs \<Rightarrow> cs)"

definition get_column_index :: "'g db \<Rightarrow> 'g \<Rightarrow> bytes \<Rightarrow> bytes \<Rightarrow> nat" where
  "get_column_index db g t name =
     (let i = find_if (\<lambda>c. col_name c = name) (columns_of db g t)
      in if i = length (columns_of db g t) then npos else i)"

subsection \<open>Metadata\<close>

definition pk_table :: bytes where "pk_table = lit ''pk''"
definition metadata_table :: bytes where "metadata_table = lit ''metadata''"

definition create_metadata_tables :: "'g db \<Rightarrow> 'g \<Rightarrow> 'g" where
  "create_metadata_tables db g =
     (let g = db_get_or_add_table db (db_get_or_add_table db g pk_table) metadata_table;
          g = (if columns_of db g metadata_table = []
               then db_set db (db_add_empty_row db
                   (db_insert_column db g metadata_table 0 type_Int (lit ''version'') False) metadata_table)
                 metadata_table 0 0 (Cell_Int (of_nat NotVersioned))
               else g);
          g = (if columns_of db g pk_table = []
               then db_insert_column db
                   (db_insert_column db g pk_table 0 type_String (lit ''pk_table'') False)
                 pk_table 1 type_String (lit ''pk_property'') False
               else g)
      in db_add_search_index db g pk_table 0)"

definition set_schema_version :: "'g db \<Rightarrow> 'g \<Rightarrow> nat \<Rightarrow> 'g" where
  "set_schema_version db g version =
     db_set db (create_metadata_tables db g) metadata_table 0 0 (Cell_Int (of_nat version))"

definition get_schema_version :: "'g db \<Rightarrow> 'g \<Rightarrow> nat" where
  "get_schema_version db g =
     (if \<not> has_table db g metadata_table \<or> columns_of db g metadata_table = [] then NotVersioned
      else case db_get db g type_Int metadata_table 0 0 of Cell_Int v \<Rightarrow> unat v | _ \<Rightarrow> 0)"

definition set_primary_key_for_object :: "'g db \<Rightarrow> 'g \<Rightarrow> bytes \<Rightarrow> bytes \<Rightarrow> 'g" where
  "set_primary_key_for_object db g ty key =
     (if db_has_object_ids db g then g
      else case db_find_first_string db g pk_table 0 ty of
          None \<Rightarrow>
            if key \<noteq> [] then
              let row = db_size db g pk_table; g = db_add_empty_row db g pk_table
              in db_set db (db_set_string_unique db g pk_table 0 row ty) pk_table 1 row (Cell_String key)
            else g
        | Some row \<Rightarrow>
            if key = [] then db_move_last_over db g pk_table row
            else db_set db g pk_table 1 row (Cell_String key))"

subsection \<open>Columns\<close>

definition to_core_type :: "property_type \<Rightarrow> data_type option" where
  "to_core_type t =
     (let b = pt_base t in
      if b = PT_Int then Some type_Int
      else if b = PT_Bool then Some type_Bool
      else if b = PT_Float then Some type_Float
      else if b = PT_Double then Some type_Double
      else if b = PT_String then Some type_String
      else if b = PT_Date then Some type_Timestamp
      else if b = PT_Data then Some type_Binary
      else None)"

definition insert_property_column :: "'g db \<Rightarrow> 'g \<Rightarrow> bytes \<Rightarrow> property \<Rightarrow> nat \<Rightarrow> 'g option" where
  "insert_property_column db g t p col_ndx =
     (if pt_eq (p_type p) PT_Object
      then Some (db_insert_column_link db g t col_ndx (if is_array (p_type p) then type_LinkList else type_Link)
        (p_name p) (table_name_for_object_type (object_type p)))
      else case to_core_type (p_type p) of
          None \<Rightarrow> None
        | Some ty \<Rightarrow>
            if is_array (p_type p)
            then Some (db_add_subcolumn db (db_insert_column db g t col_ndx type_Table (p_name p) False)
              t col_ndx ty ArrayColumnName (is_nullable (p_type p)))
            else let g = db_insert_column db g t col_ndx ty (p_name p) (is_nullable (p_type p))
              in Some (if requires_index p then db_add_search_index db g t col_ndx else g))"

definition add_column :: "'g db \<Rightarrow> 'g \<Rightarrow> bytes \<Rightarrow> property \<Rightarrow> 'g option" where
  "add_column db g t p = insert_property_column db g t p (length (columns_of db g t))"

definition replace_column :: "'g db \<Rightarrow> 'g \<Rightarrow> bytes \<Rightarrow> property \<Rightarrow> property \<Rightarrow> 'g option" where
  "replace_column db g t old new =
     map_option (\<lambda>g. db_remove_column db g t (table_column old + 1))
       (insert_property_column db g t new (table_column old))"

definition create_table :: "'g db \<Rightarrow> 'g \<Rightarrow> object_schema \<Rightarrow> 'g option" where
  "create_table db g os =
     (let name = table_name_for_object_type (o_name os) in
      case primary_key_property os of
        Some pk \<Rightarrow> map_option (\<lambda>ty. db_sync_create_table_with_primary_key db g name ty (p_name pk)
            (is_nullable (p_type pk))) (to_core_type (p_type pk))
      | None \<Rightarrow> Some (db_sync_create_table db g name))"

fun add_columns :: "'g db \<Rightarrow> 'g \<Rightarrow> bytes \<Rightarrow> property list \<Rightarrow> 'g option" where
  "add_columns db g t [] = Some g"
| "add_columns db g t (p # ps) =
     (if is_primary p then add_columns db g t ps
      else case add_column db g t p of None \<Rightarrow> None | Some g \<Rightarrow> add_columns db g t ps)"

definition add_initial_columns :: "'g db \<Rightarrow> 'g \<Rightarrow> object_schema \<Rightarrow> 'g option" where
  "add_initial_columns db g os =
     add_columns db g (table_name_for_object_type (o_name os)) (persisted_properties os)"

definition copy_property_values :: "'g db \<Rightarrow> 'g \<Rightarrow> bytes \<Rightarrow> property \<Rightarrow> 'g" where
  "copy_property_values db g t p =
     (case to_core_type (p_type p) of
        None \<Rightarrow> g
      | Some ty \<Rightarrow>
          foldl (\<lambda>g i. db_set db g t (table_column p) i (db_get db g ty t (table_column p + 1) i))
            g [0..<db_size db g t])"

definition make_property_optional :: "'g db \<Rightarrow> 'g \<Rightarrow> bytes \<Rightarrow> property \<Rightarrow> 'g option" where
  "make_property_optional db g t p =
     (let p = p\<lparr>p_type := p_type p OR PT_Nullable\<rparr> in
      map_option (\<lambda>g. db_remove_column db (copy_property_values db g t p) t (table_column p + 1))
        (insert_property_column db g t p (table_column p)))"

definition make_property_required :: "'g db \<Rightarrow> 'g \<Rightarrow> bytes \<Rightarrow> property \<Rightarrow> 'g option" where
  "make_property_required db g t p =
     (let p = p\<lparr>p_type := p_type p AND NOT PT_Nullable\<rparr> in
      map_option (\<lambda>g. db_remove_column db g t (table_column p + 1))
        (insert_property_column db g t p (table_column p)))"

subsection \<open>Applying changes\<close>

fun apply_all :: "('c \<Rightarrow> 'g \<Rightarrow> 'g option) \<Rightarrow> 'c list \<Rightarrow> 'g \<Rightarrow> 'g option" where
  "apply_all f [] g = Some g"
| "apply_all f (c # cs) g = (case f c g of None \<Rightarrow> None | Some g \<Rightarrow> apply_all f cs g)"

abbreviation table_of :: "object_schema \<Rightarrow> bytes" where
  "table_of os \<equiv> table_name_for_object_type (o_name os)"

text \<open>The applier of \<open>apply_non_migration_changes\<close> does what it supports and explains the rest.\<close>

fun apply_non_migration :: "'g db \<Rightarrow> schema_change \<Rightarrow> 'g \<Rightarrow> 'g option" where
  "apply_non_migration db (AddTable os) g = create_table db g os"
| "apply_non_migration db (AddInitialProperties os) g = add_initial_columns db g os"
| "apply_non_migration db (AddIndex os p) g = Some (db_add_search_index db g (table_of os) (table_column p))"
| "apply_non_migration db (RemoveIndex os p) g = Some (db_remove_search_index db g (table_of os) (table_column p))"
| "apply_non_migration db c g = Some g"

datatype apply_error = Schema_Error schema_exception | Renamed_Property_Missing bytes bytes
  | Duplicate_Primary_Key bytes bytes | Undefined_Dereference

definition apply_non_migration_changes ::
  "'g db \<Rightarrow> 'g \<Rightarrow> schema_change list \<Rightarrow> (apply_error + 'g) option" where
  "apply_non_migration_changes db g changes =
     (case apply_all (apply_non_migration db) changes g of
        None \<Rightarrow> None
      | Some g \<Rightarrow>
          (case verify_no_errors Schema_Mismatch explain_migration changes of
             Inl e \<Rightarrow> Some (Inl (Schema_Error e)) | Inr _ \<Rightarrow> Some (Inr g)))"

definition primary_key_name :: "property option \<Rightarrow> bytes" where
  "primary_key_name p = (case p of None \<Rightarrow> [] | Some p \<Rightarrow> p_name p)"

fun apply_initial :: "'g db \<Rightarrow> schema_change \<Rightarrow> 'g \<Rightarrow> 'g option" where
  "apply_initial db (AddTable os) g = create_table db g os"
| "apply_initial db (RemoveTable os) g = Some g"
| "apply_initial db (AddInitialProperties os) g = add_initial_columns db g os"
| "apply_initial db (AddProperty os p) g = add_column db g (table_of os) p"
| "apply_initial db (RemoveProperty os p) g = Some (db_remove_column db g (table_of os) (table_column p))"
| "apply_initial db (MakePropertyNullable os p) g = make_property_optional db g (table_of os) p"
| "apply_initial db (MakePropertyRequired os p) g = make_property_required db g (table_of os) p"
| "apply_initial db (ChangePrimaryKey os k) g =
     Some (set_primary_key_for_object db g (o_name os) (primary_key_name k))"
| "apply_initial db (AddIndex os p) g = Some (db_add_search_index db g (table_of os) (table_column p))"
| "apply_initial db (RemoveIndex os p) g = Some (db_remove_search_index db g (table_of os) (table_column p))"
| "apply_initial db (ChangePropertyType os old new) g = replace_column db g (table_of os) old new"

definition create_initial_tables :: "'g db \<Rightarrow> 'g \<Rightarrow> schema_change list \<Rightarrow> 'g option" where
  "create_initial_tables db g changes = apply_all (apply_initial db) changes g"

fun apply_additive :: "'g db \<Rightarrow> bool \<Rightarrow> schema_change \<Rightarrow> 'g \<Rightarrow> 'g option" where
  "apply_additive db update_indexes (AddTable os) g = create_table db g os"
| "apply_additive db update_indexes (AddInitialProperties os) g = add_initial_columns db g os"
| "apply_additive db update_indexes (AddProperty os p) g = add_column db g (table_of os) p"
| "apply_additive db update_indexes (AddIndex os p) g =
     Some (if update_indexes then db_add_search_index db g (table_of os) (table_column p) else g)"
| "apply_additive db update_indexes (RemoveIndex os p) g =
     Some (if update_indexes then db_remove_search_index db g (table_of os) (table_column p) else g)"
| "apply_additive db update_indexes c g = Some g"

definition apply_additive_changes ::
  "'g db \<Rightarrow> 'g \<Rightarrow> schema_change list \<Rightarrow> bool \<Rightarrow> 'g option" where
  "apply_additive_changes db g changes update_indexes =
     apply_all (apply_additive db update_indexes) changes g"

fun apply_pre_migration :: "'g db \<Rightarrow> schema_change \<Rightarrow> 'g \<Rightarrow> 'g option" where
  "apply_pre_migration db (RemoveProperty os p) g = Some g"
| "apply_pre_migration db c g = apply_initial db c g"

definition apply_pre_migration_changes :: "'g db \<Rightarrow> 'g \<Rightarrow> schema_change list \<Rightarrow> 'g option" where
  "apply_pre_migration_changes db g changes = apply_all (apply_pre_migration db) changes g"

definition validate_primary_column_uniqueness ::
  "'g db \<Rightarrow> 'g \<Rightarrow> bytes \<Rightarrow> bytes \<Rightarrow> apply_error + unit" where
  "validate_primary_column_uniqueness db g ty key =
     (let t = table_name_for_object_type ty in
      if db_distinct_size db g t (get_column_index db g t key) \<noteq> db_size db g t
      then Inl (Duplicate_Primary_Key ty key) else Inr ())"

fun validate_primary_columns :: "'g db \<Rightarrow> 'g \<Rightarrow> (bytes \<times> bytes) list \<Rightarrow> apply_error + unit" where
  "validate_primary_columns db g [] = Inr ()"
| "validate_primary_columns db g ((ty, key) # rows) =
     (case validate_primary_column_uniqueness db g ty key of
        Inl e \<Rightarrow> Inl e | Inr _ \<Rightarrow> validate_primary_columns db g rows)"

definition validate_all_primary_columns :: "'g db \<Rightarrow> 'g \<Rightarrow> apply_error + unit" where
  "validate_all_primary_columns db g =
     validate_primary_columns db g
       (case g_primary_keys (db_view db g) of None \<Rightarrow> [] | Some rows \<Rightarrow> rows)"

text \<open>A class that is not in the initial schema is looked up in it all the same:
  \<open>Undefined_Dereference\<close>.\<close>

fun apply_post_migration ::
  "'g db \<Rightarrow> schema \<Rightarrow> bool \<Rightarrow> schema_change \<Rightarrow> 'g \<Rightarrow> (apply_error + 'g) option" where
  "apply_post_migration db initial reread (RemoveProperty os p) g =
     (let i = schema_find initial (o_name os) in
      if initial \<noteq> [] \<and> i = length initial then Some (Inl Undefined_Dereference)
      else if initial \<noteq> [] \<and> property_for_name (initial ! i) (p_name p) = None
      then Some (Inl (Renamed_Property_Missing (o_name os) (p_name p)))
      else Some (Inr (db_remove_column db g (table_of os) (table_column p))))"
| "apply_post_migration db initial reread (ChangePrimaryKey os k) g =
     (case k of None \<Rightarrow> Some (Inr g)
      | Some p \<Rightarrow> (case validate_primary_column_uniqueness db g (o_name os) (p_name p) of
            Inl e \<Rightarrow> Some (Inl e) | Inr _ \<Rightarrow> Some (Inr g)))"
| "apply_post_migration db initial reread (AddTable os) g = map_option Inr (create_table db g os)"
| "apply_post_migration db initial reread (AddInitialProperties os) g =
     (if reread then map_option Inr (add_initial_columns db g os) else Some (Inr g))"
| "apply_post_migration db initial reread (AddIndex os p) g =
     Some (Inr (db_add_search_index db g (table_of os) (table_column p)))"
| "apply_post_migration db initial reread (RemoveIndex os p) g =
     Some (Inr (db_remove_search_index db g (table_of os) (table_column p)))"
| "apply_post_migration db initial reread c g = Some (Inr g)"

fun apply_until_error ::
  "('c \<Rightarrow> 'g \<Rightarrow> (apply_error + 'g) option) \<Rightarrow> 'c list \<Rightarrow> 'g \<Rightarrow> (apply_error + 'g) option" where
  "apply_until_error f [] g = Some (Inr g)"
| "apply_until_error f (c # cs) g =
     (case f c g of None \<Rightarrow> None | Some (Inl e) \<Rightarrow> Some (Inl e) | Some (Inr g) \<Rightarrow> apply_until_error f cs g)"

definition apply_post_migration_changes ::
  "'g db \<Rightarrow> 'g \<Rightarrow> schema_change list \<Rightarrow> schema \<Rightarrow> bool \<Rightarrow> (apply_error + 'g) option" where
  "apply_post_migration_changes db g changes initial reread =
     apply_until_error (apply_post_migration db initial reread) changes g"

definition set_object_columns :: "'g db \<Rightarrow> 'g \<Rightarrow> object_schema \<Rightarrow> object_schema" where
  "set_object_columns db g os =
     (if \<not> has_table db g (table_of os) then os
      else os\<lparr>persisted_properties :=
        map (\<lambda>p. p\<lparr>table_column := get_column_index db g (table_of os) (p_name p)\<rparr>) (persisted_properties os)\<rparr>)"

definition set_schema_columns :: "'g db \<Rightarrow> 'g \<Rightarrow> schema \<Rightarrow> schema" where
  "set_schema_columns db g s = map (set_object_columns db g) s"

text \<open>The migration function works on the group and on the target schema, and may throw. The
  result is the new group and the target schema with its columns.\<close>

definition apply_schema_changes ::
  "'g db \<Rightarrow> bytes \<Rightarrow> 'g \<Rightarrow> nat \<Rightarrow> schema \<Rightarrow> nat \<Rightarrow> schema_mode \<Rightarrow> schema_change list \<Rightarrow> bytes option \<Rightarrow>
   ('g \<Rightarrow> schema \<Rightarrow> apply_error + 'g \<times> schema) option \<Rightarrow> (apply_error + 'g \<times> schema) option" where
  "apply_schema_changes db oid g schema_version target target_version mode changes user migration =
     (let g = create_metadata_tables db g;
          finish = (\<lambda>g target. let g = set_schema_version db g target_version
            in Some (Inr (g, set_schema_columns db g target)))
      in
      if mode = Additive then
        (case apply_additive_changes db g changes True of
           None \<Rightarrow> None
         | Some g \<Rightarrow>
             let g = (if schema_version < target_version \<or> schema_version = NotVersioned
                      then set_schema_version db g target_version else g);
                 g = (case user of None \<Rightarrow> g | Some u \<Rightarrow> db_default_permissions db g changes u)
             in Some (Inr (g, set_schema_columns db g target)))
      else if schema_version = NotVersioned then
        (case create_initial_tables db g changes of None \<Rightarrow> None | Some g \<Rightarrow> finish g target)
      else if mode = Manual then
        (case (case migration of None \<Rightarrow> Inr (g, set_schema_columns db g target)
               | Some f \<Rightarrow> f g (set_schema_columns db g target)) of
           Inl e \<Rightarrow> Some (Inl e)
         | Inr (g, target) \<Rightarrow>
             (case schema_from_group oid (db_view db g) of
                None \<Rightarrow> None
              | Some actual \<Rightarrow>
                  (case verify_no_changes_required (schema_compare actual target False) of
                     Inl e \<Rightarrow> Some (Inl (Schema_Error e))
                   | Inr _ \<Rightarrow>
                       (case validate_all_primary_columns db g of
                          Inl e \<Rightarrow> Some (Inl e)
                        | Inr _ \<Rightarrow>
                            let target = set_schema_columns db g target
                            in Some (Inr (set_schema_version db g target_version, target))))))
      else if schema_version = target_version then
        (case apply_non_migration_changes db g changes of
           None \<Rightarrow> None
         | Some (Inl e) \<Rightarrow> Some (Inl e)
         | Some (Inr g) \<Rightarrow> Some (Inr (g, set_schema_columns db g target)))
      else
        (case schema_from_group oid (db_view db g) of
           None \<Rightarrow> None
         | Some old_schema \<Rightarrow>
             (case apply_pre_migration_changes db g changes of
                None \<Rightarrow> None
              | Some g \<Rightarrow>
                  (case migration of
                     None \<Rightarrow>
                       (case apply_post_migration_changes db g changes [] False of
                          None \<Rightarrow> None | Some (Inl e) \<Rightarrow> Some (Inl e) | Some (Inr g) \<Rightarrow> finish g target)
                   | Some f \<Rightarrow>
                       (case f g (set_schema_columns db g target) of
                          Inl e \<Rightarrow> Some (Inl e)
                        | Inr (g, target) \<Rightarrow>
                            (case schema_from_group oid (db_view db g) of
                               None \<Rightarrow> None
                             | Some s \<Rightarrow>
                                 (case apply_post_migration_changes db g (schema_compare s target False)
                                     old_schema True of
                                    None \<Rightarrow> None
                                  | Some (Inl e) \<Rightarrow> Some (Inl e)
                                  | Some (Inr g) \<Rightarrow>
                                      (case validate_all_primary_columns db g of
                                         Inl e \<Rightarrow> Some (Inl e) | Inr _ \<Rightarrow> finish g target))))))))"

subsection \<open>Other operations on the file\<close>

definition delete_data_for_object :: "'g db \<Rightarrow> 'g \<Rightarrow> bytes \<Rightarrow> 'g" where
  "delete_data_for_object db g ty =
     (if has_table db g (table_name_for_object_type ty)
      then set_primary_key_for_object db (db_remove_table db g (table_name_for_object_type ty)) ty []
      else g)"

definition is_empty_file :: "'g db \<Rightarrow> 'g \<Rightarrow> bool" where
  "is_empty_file db g \<longleftrightarrow>
     list_all (\<lambda>(name, cols). let ty = object_type_for_table_name name
       in ty = [] \<or> take 2 ty = lit ''__'' \<or> db_size db g name = 0) (g_tables (db_view db g))"

datatype rename_error = Rename_No_Table bytes | Rename_Class_Removed bytes
  | Rename_Source_Exists bytes bytes bytes | Rename_Source_Missing bytes bytes
  | Rename_Type_Differs bytes bytes bytes bytes bytes | Rename_Optional_To_Required bytes bytes bytes

definition shift_columns :: "nat \<Rightarrow> nat \<Rightarrow> property \<Rightarrow> property" where
  "shift_columns removed old p =
     (if table_column p = removed then p\<lparr>table_column := old\<rparr>
      else if table_column p > removed then p\<lparr>table_column := table_column p - 1\<rparr> else p)"

definition rename_property ::
  "'g db \<Rightarrow> bytes \<Rightarrow> 'g \<Rightarrow> schema \<Rightarrow> bytes \<Rightarrow> bytes \<Rightarrow> bytes \<Rightarrow> (rename_error + 'g \<times> schema) option" where
  "rename_property db oid g target ty old_name new_name =
     (let t = table_name_for_object_type ty; i = schema_find target ty in
      if \<not> has_table db g t then Some (Inl (Rename_No_Table ty))
      else if i = length target then Some (Inl (Rename_Class_Removed ty))
      else if property_for_name (target ! i) old_name \<noteq> None
      then Some (Inl (Rename_Source_Exists ty old_name new_name))
      else case read_object_schema oid (db_view db g) ty npos of
        None \<Rightarrow> None
      | Some os \<Rightarrow>
          (case property_for_name os old_name of
             None \<Rightarrow> Some (Inl (Rename_Source_Missing ty old_name))
           | Some old \<Rightarrow>
              (case property_for_name os new_name of
                 None \<Rightarrow> Some (Inr (db_rename_column db g t (table_column old) new_name, target))
               | Some new \<Rightarrow>
                   if \<not> pt_eq (p_type old) (p_type new) \<or> object_type old \<noteq> object_type new
                   then Some (Inl (Rename_Type_Differs ty old_name new_name (type_string old) (type_string new)))
                   else if is_nullable (p_type old) \<and> \<not> is_nullable (p_type new)
                   then Some (Inl (Rename_Optional_To_Required ty old_name new_name))
                   else
                     let removed = table_column new;
                         g = db_remove_column db (db_rename_column db g t (table_column old) new_name) t removed;
                         os' = target ! i;
                         target = target[i := os'\<lparr>persisted_properties :=
                           map (shift_columns removed (table_column old)) (persisted_properties os')\<rparr>]
                     in if is_nullable (p_type new) \<and> \<not> is_nullable (p_type old)
                        then map_option (\<lambda>g. Inr (g, target))
                          (make_property_optional db g t (new\<lparr>table_column := table_column old\<rparr>))
                        else Some (Inr (g, target)))))"

end
