(* ===== verification/Apply_Lemmas.thy ===== *)
theory Apply_Lemmas
  imports Schema_Lemmas Schema_Apply
begin

section \<open>What applying a schema does to a file\<close>

text \<open>
  The classes of a file are seen through the signatures of their columns: the name, type and
  target that the object store reads back from a column. The documented behaviour of the
  storage engine is the predicate \<open>engine_ok\<close>, stated for the tables of a group as a map from
  names to columns, since the order of the tables may change whenever one is added.
\<close>

subsection \<open>Signatures of columns\<close>

type_synonym triple = "bytes \<times> property_type \<times> bytes"

text \<open>\<open>None\<close>: the column has a type the object store cannot read; \<open>Some None\<close>: it is skipped.\<close>

definition sig :: "bytes \<Rightarrow> core_column \<Rightarrow> triple option option" where
  "sig oid c =
     (if col_name c = oid then Some None
      else if col_type c = type_Table \<and>
          (length (col_sub c) \<noteq> 1 \<or> col_name (col_sub c ! 0) \<noteq> ArrayColumnName) then Some None
      else map_option (\<lambda>ty. Some (col_name c, ty,
          if pt_eq ty PT_Object then object_type_for_table_name (col_target c) else []))
        (from_core_type c))"

definition triple :: "property \<Rightarrow> triple" where
  "triple p = (p_name p, p_type p, object_type p)"

definition prop_at :: "bytes \<Rightarrow> core_column list \<Rightarrow> nat \<Rightarrow> property list" where
  "prop_at oid cols i =
     (case sig oid (cols ! i) of
        Some (Some (n, ty, target)) \<Rightarrow> [new_property\<lparr>p_name := n, p_type := ty,
          is_indexed := col_index (cols ! i), table_column := i, object_type := target\<rparr>]
      | _ \<Rightarrow> [])"

lemma property_sig:
  "property_for_column_index oid cols i =
    (if sig oid (cols ! i) = None then None
     else Some (case prop_at oid cols i of [] \<Rightarrow> None | p # _ \<Rightarrow> Some p))"
  by (auto simp: property_for_column_index_def sig_def prop_at_def Let_def split: option.splits)

lemma prop_at_single: "prop_at oid cols i = [] \<or> (\<exists>p. prop_at oid cols i = [p])"
  by (auto simp: prop_at_def split: option.splits)

lemma read_properties_sig:
  "read_properties oid cols is =
    (if list_all (\<lambda>i. sig oid (cols ! i) \<noteq> None) is then Some (concat (map (prop_at oid cols) is)) else None)"
proof (induction "is")
  case (Cons i "is")
  then show ?case using prop_at_single [of oid cols i]
    by (auto simp: property_sig split: option.splits)
qed simp

definition readable :: "bytes \<Rightarrow> core_column list \<Rightarrow> bool" where
  "readable oid cols \<longleftrightarrow> (\<forall>c\<in>set cols. sig oid c \<noteq> None)"

definition class_of :: "bytes \<Rightarrow> group \<Rightarrow> bytes \<Rightarrow> core_column list \<Rightarrow> object_schema" where
  "class_of oid G name cols = set_primary_key_property
     \<lparr>o_name = name, persisted_properties = concat (map (prop_at oid cols) [0..<length cols]),
      computed_properties = [], primary_key = get_primary_key_for_object G name\<rparr>"

lemma read_object_schema_sig:
  assumes "index < length (g_tables G)"
  shows "read_object_schema oid G name index =
    (if readable oid (snd (g_tables G ! index)) then Some (class_of oid G name (snd (g_tables G ! index))) else None)"
  using assms by (auto simp: read_object_schema_def read_properties_sig class_of_def readable_def
      list_all_iff all_set_conv_all_nth)

text \<open>Marking the primary key changes nothing else.\<close>

lemma update_first_map:
  "(\<And>p. h (f p) = h p) \<Longrightarrow> map h (update_first n f ps) = map h ps"
  by (induction ps) auto

lemma class_of_simps [simp]:
  "o_name (class_of oid G name cols) = name"
  "primary_key (class_of oid G name cols) = get_primary_key_for_object G name"
  "computed_properties (class_of oid G name cols) = []"
  by (simp_all add: class_of_def set_primary_key_property_def update_property_def)

lemma class_of_persisted:
  "map (\<lambda>p. (table_column p, triple p)) (persisted_properties (class_of oid G name cols)) =
   map (\<lambda>p. (table_column p, triple p)) (concat (map (prop_at oid cols) [0..<length cols]))"
  by (simp add: class_of_def set_primary_key_property_def update_property_def update_first_map triple_def)

lemma prop_at_set:
  "(\<lambda>p. (table_column p, triple p)) ` set (prop_at oid cols i) = {(i, x) |x. sig oid (cols ! i) = Some (Some x)}"
  by (auto simp: prop_at_def triple_def split: option.splits)

lemma class_of_columns:
  "(\<lambda>p. (table_column p, triple p)) ` set (persisted_properties (class_of oid G name cols)) =
   {(i, x). i < length cols \<and> sig oid (cols ! i) = Some (Some x)}"
proof -
  have "(\<lambda>p. (table_column p, triple p)) ` set (persisted_properties (class_of oid G name cols)) =
      (\<Union>i\<in>{0..<length cols}. (\<lambda>p. (table_column p, triple p)) ` set (prop_at oid cols i))"
    using arg_cong [OF class_of_persisted [of oid G name cols], of set] by (simp add: image_UN)
  then show ?thesis unfolding prop_at_set by auto
qed

lemma class_of_triples:
  "triple ` set (persisted_properties (class_of oid G name cols)) = {x. Some (Some x) \<in> sig oid ` set cols}"
proof -
  have "triple ` set (persisted_properties (class_of oid G name cols)) =
      snd ` (\<lambda>p. (table_column p, triple p)) ` set (persisted_properties (class_of oid G name cols))"
    by (simp add: image_image)
  then show ?thesis unfolding class_of_columns by (force simp: in_set_conv_nth image_iff)
qed

subsection \<open>The classes of a file\<close>

lemma class_prefix [simp]: "object_type_for_table_name (table_name_for_object_type c) = c"
  by (simp add: object_type_for_table_name_def table_name_for_object_type_def)

lemma class_table: "object_type_for_table_name n = c \<and> c \<noteq> [] \<longleftrightarrow> n = table_name_for_object_type c \<and> c \<noteq> []"
  by (auto simp: object_type_for_table_name_def table_name_for_object_type_def
      split: if_splits) (metis append_take_drop_id)

lemma table_name_inj [simp]: "table_name_for_object_type c = table_name_for_object_type d \<longleftrightarrow> c = d"
  by (simp add: table_name_for_object_type_def)

definition read_class :: "bytes \<Rightarrow> group \<Rightarrow> bytes \<times> core_column list \<Rightarrow> object_schema list" where
  "read_class oid G t = (let c = object_type_for_table_name (fst t)
     in if c = [] then [] else [class_of oid G c (snd t)])"

definition readable_file :: "bytes \<Rightarrow> group \<Rightarrow> bool" where
  "readable_file oid G \<longleftrightarrow>
     (\<forall>t\<in>set (g_tables G). object_type_for_table_name (fst t) \<noteq> [] \<longrightarrow> readable oid (snd t))"

lemma schema_from_tables_sig:
  assumes "ts = drop i (g_tables G)"
  shows "schema_from_tables oid G i ts =
    (if \<forall>t\<in>set ts. object_type_for_table_name (fst t) \<noteq> [] \<longrightarrow> readable oid (snd t)
     then Some (concat (map (read_class oid G) ts)) else None)"
  using assms
proof (induction ts arbitrary: i)
  case (Cons t ts)
  from Cons.prems have i: "i < length (g_tables G)" "g_tables G ! i = t" "ts = drop (i + 1) (g_tables G)"
    by (metis drop_all linorder_not_le list.distinct(1), metis hd_drop_conv_nth list.sel(1) drop_all
        linorder_not_le list.distinct(1), metis Suc_eq_plus1 drop_Suc list.sel(3) tl_drop)
  have "schema_from_tables oid G i (t # ts) =
      (case read_object_schema oid G (object_type_for_table_name (fst t)) i of
         None \<Rightarrow> if object_type_for_table_name (fst t) = []
           then schema_from_tables oid G (i + 1) ts else None
       | Some os \<Rightarrow> map_option ((@) (if object_type_for_table_name (fst t) = [] then [] else [os]))
           (schema_from_tables oid G (i + 1) ts))"
    by (cases "schema_from_tables oid G (i + 1) ts") (auto simp: Let_def split: option.splits)
  moreover have "read_class oid G t = (if object_type_for_table_name (fst t) = [] then []
      else [class_of oid G (object_type_for_table_name (fst t)) (snd t)])"
    by (simp add: read_class_def Let_def)
  ultimately show ?case
    using Cons.IH [OF i(3)] read_object_schema_sig [OF i(1), of oid "object_type_for_table_name (fst t)"] i(2)
    by (simp del: schema_from_tables.simps) blast
qed simp

lemma schema_from_group_sig:
  "schema_from_group oid G =
    (if readable_file oid G then Some (make_schema (concat (map (read_class oid G) (g_tables G)))) else None)"
  using schema_from_tables_sig [of "g_tables G" 0 G oid]
  by (auto simp: schema_from_group_def readable_file_def)

lemma in_read_classes:
  assumes "distinct (map fst (g_tables G))"
  shows "e \<in> set (concat (map (read_class oid G) (g_tables G))) \<longleftrightarrow>
    (\<exists>c cols. c \<noteq> [] \<and> map_of (g_tables G) (table_name_for_object_type c) = Some cols \<and>
      e = class_of oid G c cols)"
proof -
  have one: "e \<in> set (read_class oid G t) \<longleftrightarrow> (\<exists>c. c \<noteq> [] \<and> fst t = table_name_for_object_type c \<and>
      e = class_of oid G c (snd t))" for t
  proof -
    have "e \<in> set (read_class oid G t) \<longleftrightarrow> (\<exists>c. (object_type_for_table_name (fst t) = c \<and> c \<noteq> []) \<and>
        e = class_of oid G c (snd t))"
      by (simp add: read_class_def Let_def)
    then show ?thesis unfolding class_table by blast
  qed
  have "e \<in> set (concat (map (read_class oid G) (g_tables G))) \<longleftrightarrow>
      (\<exists>t\<in>set (g_tables G). e \<in> set (read_class oid G t))" by (simp only: set_concat set_map) blast
  also have "\<dots> \<longleftrightarrow> (\<exists>t\<in>set (g_tables G). \<exists>c. c \<noteq> [] \<and> fst t = table_name_for_object_type c \<and>
      e = class_of oid G c (snd t))" by (simp only: one)
  also have "\<dots> \<longleftrightarrow> (\<exists>c cols. c \<noteq> [] \<and> (table_name_for_object_type c, cols) \<in> set (g_tables G) \<and>
      e = class_of oid G c cols)" by force
  finally show ?thesis by (simp only: map_of_eq_Some_iff [OF assms])
qed

lemma distinct_read_classes:
  assumes "distinct (map fst ts)"
  shows "distinct (names (concat (map (read_class oid G) ts)))"
  using assms
proof (induction ts)
  case (Cons t ts)
  have "o_name e \<noteq> object_type_for_table_name (fst t)"
    if "e \<in> set (concat (map (read_class oid G) ts))" for e
  proof -
    from that obtain u where u: "u \<in> set ts" "e \<in> set (read_class oid G u)" by auto
    then have "fst u = table_name_for_object_type (o_name e)" "o_name e \<noteq> []"
      using class_table [of "fst u" "o_name e"] by (auto simp: read_class_def Let_def split: if_splits)
    moreover have "fst u \<noteq> fst t" using u(1) Cons.prems by (metis distinct.simps(2) image_eqI list.set_map list.simps(9))
    ultimately show ?thesis using class_table [of "fst t" "o_name e"] by metis
  qed
  then have "object_type_for_table_name (fst t) \<notin> set (names (concat (map (read_class oid G) ts)))"
    unfolding names_def set_map by (metis imageE)
  moreover have "read_class oid G t = (if object_type_for_table_name (fst t) = [] then []
      else [class_of oid G (object_type_for_table_name (fst t)) (snd t)])"
    by (simp add: read_class_def Let_def)
  ultimately show ?case using Cons.IH Cons.prems by (simp add: names_def)
qed (simp add: names_def)

text \<open>A schema read from a file, without regard to the order of the tables.\<close>

lemma schema_from_group_set:
  assumes "distinct (map fst (g_tables G))" and "schema_from_group oid G = Some E"
  shows "e \<in> set E \<longleftrightarrow> (\<exists>c cols. c \<noteq> [] \<and> map_of (g_tables G) (table_name_for_object_type c) = Some cols \<and>
      e = class_of oid G c cols)"
    and "distinct (names E)" and "sorted_schema E"
  using assms in_read_classes [OF assms(1), of e oid] distinct_read_classes [OF assms(1), of oid G]
  by (auto simp: schema_from_group_sig distinct_names_make_schema sorted_make_schema split: if_splits)

lemma readable_file_iff:
  assumes "distinct (map fst (g_tables G))"
  shows "readable_file oid G \<longleftrightarrow> (\<forall>c cols. c \<noteq> [] \<longrightarrow>
    map_of (g_tables G) (table_name_for_object_type c) = Some cols \<longrightarrow> readable oid cols)"
proof -
  have "readable_file oid G \<longleftrightarrow> (\<forall>n cols. (n, cols) \<in> set (g_tables G) \<longrightarrow>
      object_type_for_table_name n \<noteq> [] \<longrightarrow> readable oid cols)"
    unfolding readable_file_def by (metis fst_conv prod.collapse snd_conv)
  also have "\<dots> \<longleftrightarrow> (\<forall>c cols. c \<noteq> [] \<longrightarrow> (table_name_for_object_type c, cols) \<in> set (g_tables G) \<longrightarrow>
      readable oid cols)"
    by (metis class_table)
  finally show ?thesis by (simp only: map_of_eq_Some_iff [OF assms])
qed

subsection \<open>The documented behaviour of the storage engine\<close>

definition tables_in :: "'g db \<Rightarrow> 'g \<Rightarrow> bytes \<Rightarrow> core_column list option" where
  "tables_in db g = map_of (g_tables (db_view db g))"

definition unique_tables :: "'g db \<Rightarrow> 'g \<Rightarrow> bool" where
  "unique_tables db g \<longleftrightarrow> distinct (map fst (g_tables (db_view db g)))"

definition key_of :: "'g db \<Rightarrow> 'g \<Rightarrow> bytes \<Rightarrow> bytes" where
  "key_of db g = get_primary_key_for_object (db_view db g)"

definition becomes :: "'g db \<Rightarrow> 'g \<Rightarrow> 'g \<Rightarrow> bytes \<Rightarrow> core_column list \<Rightarrow> bool" where
  "becomes db g g' t cols \<longleftrightarrow> unique_tables db g' \<and> tables_in db g' = (tables_in db g)(t \<mapsto> cols) \<and>
     key_of db g' = key_of db g"

abbreviation put_column :: "core_column list \<Rightarrow> nat \<Rightarrow> core_column \<Rightarrow> core_column list" where
  "put_column cols i c \<equiv> take i cols @ c # drop i cols"

fun with_index :: "bool \<Rightarrow> core_column \<Rightarrow> core_column" where
  "with_index b (Core_Column n ty nul idx target sub) = Core_Column n ty nul b target sub"

fun with_sub :: "core_column list \<Rightarrow> core_column \<Rightarrow> core_column" where
  "with_sub sub' (Core_Column n ty nul idx target sub) = Core_Column n ty nul idx target sub'"

definition indexable_types :: "data_type list" where
  "indexable_types = [type_Int, type_Bool, type_String, type_Timestamp]"

text \<open>The tables of classes; the tables with the metadata have other names. A change of the columns of
  a class does not change the primary keys, which are in one of those.\<close>

definition is_class_table :: "bytes \<Rightarrow> bool" where
  "is_class_table t \<longleftrightarrow> t \<in> range table_name_for_object_type"

lemma is_class_table_name [simp]: "is_class_table (table_name_for_object_type c)"
  by (simp add: is_class_table_def)

text \<open>Names have at most 63 bytes. \<open>insert_column\<close> is not for links, and \<open>create_table\<close> is for
  names with the prefix, of tables that do not exist. A new table has columns that are used
  for the object IDs, and the primary key if there is one; whether it has an index is not said.\<close>

definition columns_law :: "'g db \<Rightarrow> bool" where
  "columns_law db \<longleftrightarrow> (\<forall>g t cols. is_class_table t \<and> unique_tables db g \<and> tables_in db g t = Some cols \<longrightarrow>
     (\<forall>i ty n nul. i \<le> length cols \<and> ty \<noteq> type_Link \<and> ty \<noteq> type_LinkList \<and> length n \<le> 63 \<longrightarrow>
        becomes db g (db_insert_column db g t i ty n nul) t (put_column cols i (Core_Column n ty nul False [] []))) \<and>
     (\<forall>i ty n target. i \<le> length cols \<and> ty \<in> {type_Link, type_LinkList} \<and> length n \<le> 63 \<and>
        tables_in db g target \<noteq> None \<longrightarrow>
        (\<exists>nul. becomes db g (db_insert_column_link db g t i ty n target) t
           (put_column cols i (Core_Column n ty nul False target [])))) \<and>
     (\<forall>i ty n nul. i < length cols \<and> col_type (cols ! i) = type_Table \<and> length n \<le> 63 \<longrightarrow>
        becomes db g (db_add_subcolumn db g t i ty n nul) t
          (cols[i := with_sub (col_sub (cols ! i) @ [Core_Column n ty nul False [] []]) (cols ! i)])) \<and>
     (\<forall>i. i < length cols \<and> col_type (cols ! i) \<in> set indexable_types \<longrightarrow>
        becomes db g (db_add_search_index db g t i) t (cols[i := with_index True (cols ! i)])) \<and>
     (\<forall>i. i < length cols \<longrightarrow>
        becomes db g (db_remove_search_index db g t i) t (cols[i := with_index False (cols ! i)])))"

definition tables_law :: "'g db \<Rightarrow> bytes \<Rightarrow> bool" where
  "tables_law db oid \<longleftrightarrow> (\<forall>g c. unique_tables db g \<and> tables_in db g (table_name_for_object_type c) = None \<and>
     length (table_name_for_object_type c) \<le> 63 \<longrightarrow>
     (\<exists>oids. list_all (\<lambda>x. col_name x = oid) oids \<and>
        becomes db g (db_sync_create_table db g (table_name_for_object_type c))
          (table_name_for_object_type c) oids) \<and>
     (\<forall>ty n nul. ty \<in> {type_Int, type_String} \<and> length n \<le> 63 \<longrightarrow>
       (let g' = db_sync_create_table_with_primary_key db g (table_name_for_object_type c) ty n nul in
        \<exists>oids idx. list_all (\<lambda>x. col_name x = oid) oids \<and> unique_tables db g' \<and>
          tables_in db g' = (tables_in db g)(table_name_for_object_type c \<mapsto> oids @ [Core_Column n ty nul idx [] []]) \<and>
          key_of db g' = (key_of db g)(c := n))))"

definition engine_ok :: "'g db \<Rightarrow> bytes \<Rightarrow> bool" where
  "engine_ok db oid \<longleftrightarrow> columns_law db \<and> tables_law db oid"

subsection \<open>Columns that can be created\<close>

definition creatable :: "bytes \<Rightarrow> property \<Rightarrow> bool" where
  "creatable oid q \<longleftrightarrow> length (p_name q) \<le> 63 \<and> p_name q \<noteq> oid \<and>
     (is_link q \<or> to_core_type (p_type q) \<noteq> None) \<and> (is_array (p_type q) \<longrightarrow> \<not> requires_index q)"

text \<open>What validation guarantees for a persisted property.\<close>

definition valid_column :: "property \<Rightarrow> bool" where
  "valid_column q \<longleftrightarrow> (is_link q \<longrightarrow> is_nullable (p_type q) \<noteq> is_array (p_type q)) \<and>
     (object_type q \<noteq> [] \<longrightarrow> is_link q) \<and> (requires_index q \<longrightarrow> type_is_indexable q)"

lemma pt_build:
  "t = (pt_base t OR (if is_nullable t then PT_Nullable else PT_Required)) OR
     (if is_array t then PT_Array else 0)"
  by (rule bit_eqI) (auto simp: bit_or_iff bit_base is_array_bit is_nullable_bit bit_Array bit_Nullable
      PT_Required_def)

lemma to_core_type_cases:
  assumes "to_core_type t = Some ty"
  shows "(pt_base t, ty) \<in> {(PT_Int, type_Int), (PT_Bool, type_Bool), (PT_Float, type_Float),
    (PT_Double, type_Double), (PT_String, type_String), (PT_Date, type_Timestamp), (PT_Data, type_Binary)}"
  using assms by (auto simp: to_core_type_def Let_def split: if_splits)

lemma from_core_value:
  assumes "to_core_type t = Some ty"
  shows "from_core_type (Core_Column n ty nul idx target sub) =
    Some (pt_base t OR (if nul then PT_Nullable else PT_Required))"
  using to_core_type_cases [OF assms] by auto

lemma pt_base_base [simp]: "pt_base (pt_base t) = pt_base t"
  by (rule bit_eqI) (simp add: bit_base)

lemma base_values [simp]:
  "pt_base PT_Int = PT_Int" "pt_base PT_Bool = PT_Bool" "pt_base PT_Float = PT_Float"
  "pt_base PT_Double = PT_Double" "pt_base PT_String = PT_String" "pt_base PT_Date = PT_Date"
  "pt_base PT_Data = PT_Data" "pt_base PT_Object = PT_Object" "pt_base PT_LinkingObjects = PT_LinkingObjects"
  by code_simp+

lemma base_distinct:
  "PT_Int \<noteq> PT_Object" "PT_Bool \<noteq> PT_Object" "PT_Float \<noteq> PT_Object" "PT_Double \<noteq> PT_Object"
  "PT_String \<noteq> PT_Object" "PT_Date \<noteq> PT_Object" "PT_Data \<noteq> PT_Object"
  by (simp_all add: PT_defs)

lemma to_core_not_link:
  assumes "to_core_type t = Some ty"
  shows "\<not> pt_eq t PT_Object" and "ty \<notin> {type_Link, type_LinkList, type_Table}"
  using to_core_type_cases [OF assms] base_distinct by (auto simp: pt_eq_def)

lemma base_or_flags [simp]:
  "pt_base (pt_base t OR (if nul then PT_Nullable else PT_Required)) = pt_base t"
  "pt_base (t OR PT_Array) = pt_base t"
  by (rule bit_eqI; auto simp: bit_or_iff bit_base bit_Array bit_Nullable PT_Required_def)+

text \<open>A value, a list of values and a link are read back with the type they were created for.\<close>

lemma sig_value:
  assumes "to_core_type t = Some ty" and "\<not> is_array t" and "n \<noteq> oid"
  shows "sig oid (Core_Column n ty (is_nullable t) idx target []) = Some (Some (n, t, []))"
proof -
  have "from_core_type (Core_Column n ty (is_nullable t) idx target []) = Some t"
    using from_core_value [OF assms(1), of n "is_nullable t" idx target "[]"] pt_build [of t] assms(2) by simp
  then show ?thesis using to_core_not_link [OF assms(1)] assms(3) by (simp add: sig_def)
qed

lemma sig_list:
  assumes "to_core_type t = Some ty" and "is_array t" and "n \<noteq> oid"
  shows "sig oid (Core_Column n type_Table nul idx target
      [Core_Column ArrayColumnName ty (is_nullable t) False [] []]) = Some (Some (n, t, []))"
proof -
  have "from_core_type (Core_Column n type_Table nul idx target
      [Core_Column ArrayColumnName ty (is_nullable t) False [] []]) = Some t"
    using from_core_value [OF assms(1), of ArrayColumnName "is_nullable t" False "[]" "[]"]
      pt_build [of t] assms(2) by simp
  then show ?thesis using to_core_not_link [OF assms(1)] assms(3) by (simp add: sig_def)
qed

lemma sig_link:
  assumes "pt_eq t PT_Object" and "is_nullable t \<noteq> is_array t" and "n \<noteq> oid"
  shows "sig oid (Core_Column n (if is_array t then type_LinkList else type_Link) nul idx
      (table_name_for_object_type target) []) = Some (Some (n, t, target))"
proof -
  have "t = (if is_array t then PT_Object OR PT_Array else PT_Object OR PT_Nullable)"
    using pt_build [of t] assms(1,2) by (auto simp: pt_eq_def PT_Required_def split: if_splits)
  then have "from_core_type (Core_Column n (if is_array t then type_LinkList else type_Link) nul idx
      (table_name_for_object_type target) []) = Some t" by (simp split: if_splits)
  then show ?thesis using assms(1,3) by (simp add: sig_def)
qed

lemma with_index_simps [simp]:
  "col_name (with_index b c) = col_name c" "col_type (with_index b c) = col_type c"
  "col_sub (with_index b c) = col_sub c" "col_target (with_index b c) = col_target c"
  "from_core_type (with_index b c) = from_core_type c"
  by (cases c; simp only: with_index.simps core_column.sel from_core_type.simps)+

lemma sig_with_index [simp]: "sig oid (with_index b c) = sig oid c"
  unfolding sig_def with_index_simps ..

subsection \<open>The operations on tables\<close>

lemma put_column_end [simp]: "put_column cols (length cols) c = cols @ [c]"
  by simp

lemma becomes_trans:
  assumes "becomes db g g' t xs" and "becomes db g' g'' t ys"
  shows "becomes db g g'' t ys"
  using assms by (simp add: becomes_def)

lemma becomes_same: "becomes db g g' t xs \<Longrightarrow> tables_in db g' t = Some xs \<and> unique_tables db g'"
  by (simp add: becomes_def)

lemma column_laws:
  assumes "engine_ok db oid" and "is_class_table t" and "unique_tables db g" and "tables_in db g t = Some cols"
  shows "i \<le> length cols \<Longrightarrow> ty \<noteq> type_Link \<Longrightarrow> ty \<noteq> type_LinkList \<Longrightarrow> length n \<le> 63 \<Longrightarrow>
      becomes db g (db_insert_column db g t i ty n nul) t (put_column cols i (Core_Column n ty nul False [] []))"
    and "i \<le> length cols \<Longrightarrow> ty \<in> {type_Link, type_LinkList} \<Longrightarrow> length n \<le> 63 \<Longrightarrow>
      tables_in db g target \<noteq> None \<Longrightarrow>
      \<exists>nul. becomes db g (db_insert_column_link db g t i ty n target) t
        (put_column cols i (Core_Column n ty nul False target []))"
    and "i < length cols \<Longrightarrow> col_type (cols ! i) = type_Table \<Longrightarrow> length n \<le> 63 \<Longrightarrow>
      becomes db g (db_add_subcolumn db g t i ty n nul) t
        (cols[i := with_sub (col_sub (cols ! i) @ [Core_Column n ty nul False [] []]) (cols ! i)])"
    and "i < length cols \<Longrightarrow> col_type (cols ! i) \<in> set indexable_types \<Longrightarrow>
      becomes db g (db_add_search_index db g t i) t (cols[i := with_index True (cols ! i)])"
    and "i < length cols \<Longrightarrow>
      becomes db g (db_remove_search_index db g t i) t (cols[i := with_index False (cols ! i)])"
proof -
  note laws = assms(1) [unfolded engine_ok_def columns_law_def, THEN conjunct1, THEN spec [of _ g],
      THEN spec [of _ t], THEN spec [of _ cols], THEN mp, OF conjI [OF assms(2) conjI [OF assms(3,4)]]]
  note 1 = laws [THEN conjunct1] and 2 = laws [THEN conjunct2, THEN conjunct1]
    and 3 = laws [THEN conjunct2, THEN conjunct2, THEN conjunct1]
    and 4 = laws [THEN conjunct2, THEN conjunct2, THEN conjunct2, THEN conjunct1]
    and 5 = laws [THEN conjunct2, THEN conjunct2, THEN conjunct2, THEN conjunct2]
  show "i \<le> length cols \<Longrightarrow> ty \<noteq> type_Link \<Longrightarrow> ty \<noteq> type_LinkList \<Longrightarrow> length n \<le> 63 \<Longrightarrow>
      becomes db g (db_insert_column db g t i ty n nul) t (put_column cols i (Core_Column n ty nul False [] []))"
    using 1 by blast
  show "i \<le> length cols \<Longrightarrow> ty \<in> {type_Link, type_LinkList} \<Longrightarrow> length n \<le> 63 \<Longrightarrow>
      tables_in db g target \<noteq> None \<Longrightarrow>
      \<exists>nul. becomes db g (db_insert_column_link db g t i ty n target) t
        (put_column cols i (Core_Column n ty nul False target []))"
    using 2 by blast
  show "i < length cols \<Longrightarrow> col_type (cols ! i) = type_Table \<Longrightarrow> length n \<le> 63 \<Longrightarrow>
      becomes db g (db_add_subcolumn db g t i ty n nul) t
        (cols[i := with_sub (col_sub (cols ! i) @ [Core_Column n ty nul False [] []]) (cols ! i)])"
    using 3 by blast
  show "i < length cols \<Longrightarrow> col_type (cols ! i) \<in> set indexable_types \<Longrightarrow>
      becomes db g (db_add_search_index db g t i) t (cols[i := with_index True (cols ! i)])"
    using 4 by blast
  show "i < length cols \<Longrightarrow>
      becomes db g (db_remove_search_index db g t i) t (cols[i := with_index False (cols ! i)])"
    using 5 by blast
qed

lemma indexable_core:
  assumes "to_core_type (p_type p) = Some ty" and "type_is_indexable p"
  shows "ty \<in> set indexable_types"
proof -
  have "pt_base (p_type p) \<in> {PT_Int, PT_Bool, PT_Date, PT_String}"
    using assms(2) by (simp add: type_is_indexable_def pt_eq_def)
  with assms(1) show ?thesis
    by (auto simp: to_core_type_def indexable_types_def PT_defs split: if_splits)
qed

lemma insert_property_column_step:
  assumes e: "engine_ok db oid" and t: "is_class_table t" and g: "unique_tables db g" "tables_in db g t = Some cols"
    and q: "creatable oid q" "valid_column q"
    and link: "is_link q \<longrightarrow> tables_in db g (table_name_for_object_type (object_type q)) \<noteq> None"
  obtains g' c where "add_column db g t q = Some g'" and "becomes db g g' t (cols @ [c])"
    and "sig oid c = Some (Some (triple q))"
proof -
  note laws = column_laws [OF e t g]
  let ?n = "length cols"
  have n: "columns_of db g t = cols" using g(2) by (simp add: columns_of_def tables_in_def)
  have name: "length (p_name q) \<le> 63" "p_name q \<noteq> oid" using q(1) by (simp_all add: creatable_def)
  show thesis
  proof (cases "is_link q")
    case True
    let ?ty = "if is_array (p_type q) then type_LinkList else type_Link"
    let ?t = "table_name_for_object_type (object_type q)"
    have "?ty \<in> {type_Link, type_LinkList}" by simp
    from laws(2) [OF _ this name(1), of ?n ?t] link True obtain nul where b: "becomes db g (db_insert_column_link db g t ?n ?ty (p_name q) ?t) t
        (cols @ [Core_Column (p_name q) ?ty nul False ?t []])"
      unfolding put_column_end by blast
    have "add_column db g t q = Some (db_insert_column_link db g t ?n ?ty (p_name q) ?t)"
      using True n by (simp add: add_column_def insert_property_column_def is_link_def)
    then show thesis
      using that b sig_link [of "p_type q" "p_name q" oid nul False "object_type q"] True q name(2)
      by (simp add: is_link_def valid_column_def triple_def)
  next
    case False
    then obtain ty where ty: "to_core_type (p_type q) = Some ty" using q(1) by (auto simp: creatable_def)
    have no: "object_type q = []" "\<not> pt_eq (p_type q) PT_Object"
      using q(2) False by (auto simp: valid_column_def is_link_def)
    show thesis
    proof (cases "is_array (p_type q)")
      case True
      let ?g = "db_insert_column db g t ?n type_Table (p_name q) False"
      have 1: "becomes db g ?g t (cols @ [Core_Column (p_name q) type_Table False False [] []])"
        using laws(1) [of ?n type_Table "p_name q" False] name(1) by simp
      let ?sub = "Core_Column ArrayColumnName ty (is_nullable (p_type q)) False [] []"
      have "becomes db ?g (db_add_subcolumn db ?g t ?n ty ArrayColumnName (is_nullable (p_type q))) t
          (cols @ [Core_Column (p_name q) type_Table False False [] [?sub]])"
        using column_laws(3) [OF e t, of ?g "cols @ [Core_Column (p_name q) type_Table False False [] []]"
            ?n ArrayColumnName ty "is_nullable (p_type q)"] becomes_same [OF 1]
        by (simp add: ArrayColumnName_def lit_def)
      note 2 = becomes_trans [OF 1 this]
      have "add_column db g t q = Some (db_add_subcolumn db ?g t ?n ty ArrayColumnName (is_nullable (p_type q)))"
        using True n ty no(2) by (simp add: add_column_def insert_property_column_def)
      then show thesis
        using that 2 sig_list [OF ty True name(2), of False False "[]"] no(1) by (simp add: triple_def)
    next
      case val: False
      let ?g = "db_insert_column db g t ?n ty (p_name q) (is_nullable (p_type q))"
      let ?c = "\<lambda>b. Core_Column (p_name q) ty (is_nullable (p_type q)) b [] []"
      have 1: "becomes db g ?g t (cols @ [?c False])"
        using laws(1) [of ?n ty "p_name q" "is_nullable (p_type q)"] to_core_not_link(2) [OF ty] name(1)
        by auto
      have add: "add_column db g t q = Some (if requires_index q then db_add_search_index db ?g t ?n else ?g)"
        using val n ty no(2) by (simp add: add_column_def insert_property_column_def Let_def)
      have s: "sig oid (?c b) = Some (Some (triple q))" for b
        using sig_value [OF ty val name(2), of b "[]"] no(1) by (simp add: triple_def)
      show thesis
      proof (cases "requires_index q")
        case True
        then have "ty \<in> set indexable_types"
          using q(2) indexable_core [OF ty] by (simp add: valid_column_def)
        then have "becomes db ?g (db_add_search_index db ?g t ?n) t (cols @ [?c True])"
          using column_laws(4) [OF e t, of ?g "cols @ [?c False]" ?n] becomes_same [OF 1] by simp
        from that [OF _ becomes_trans [OF 1 this] s] add True show thesis by simp
      next
        case False
        with that [OF _ 1 s] add show thesis by simp
      qed
    qed
  qed
qed

subsection \<open>The progress of an additive update\<close>

definition sigs :: "'g db \<Rightarrow> bytes \<Rightarrow> 'g \<Rightarrow> bytes \<Rightarrow> triple option option list option" where
  "sigs db oid g c = map_option (map (sig oid)) (tables_in db g (table_name_for_object_type c))"

abbreviation created :: "property \<Rightarrow> triple option option" where
  "created q \<equiv> Some (Some (triple q))"

definition wanted :: "object_schema list \<Rightarrow> bytes \<Rightarrow> triple option option set" where
  "wanted T c = {created q |t q. t \<in> set T \<and> o_name t = c \<and> q \<in> set (persisted_properties t)}"

fun done_in :: "(bytes \<Rightarrow> triple option option list option) \<Rightarrow> (bytes \<Rightarrow> bytes) \<Rightarrow> schema_change \<Rightarrow> bool" where
  "done_in S K (AddTable t) \<longleftrightarrow> K (o_name t) = primary_key t \<and>
     (\<exists>xs. S (o_name t) = Some xs \<and> (\<forall>q\<in>set (persisted_properties t). is_primary q \<longrightarrow> created q \<in> set xs))"
| "done_in S K (AddInitialProperties t) \<longleftrightarrow>
     (\<exists>xs. S (o_name t) = Some xs \<and> (\<forall>q\<in>set (persisted_properties t). \<not> is_primary q \<longrightarrow> created q \<in> set xs))"
| "done_in S K (AddProperty e q) \<longleftrightarrow> (\<exists>xs. S (o_name e) = Some xs \<and> created q \<in> set xs)"
| "done_in S K c \<longleftrightarrow> True"

text \<open>The tables and primary keys of the old file stay, new columns and tables come from the
  target, and what has been applied is there.\<close>

definition progress ::
  "'g db \<Rightarrow> bytes \<Rightarrow> 'g \<Rightarrow> object_schema list \<Rightarrow> schema_change set \<Rightarrow> 'g \<Rightarrow> bool" where
  "progress db oid g0 T D g \<longleftrightarrow> unique_tables db g \<and>
     (\<forall>c xs. sigs db oid g0 c = Some xs \<longrightarrow>
       (\<exists>ys. sigs db oid g c = Some (xs @ ys) \<and> set ys \<subseteq> wanted T c)) \<and>
     (\<forall>c ys. sigs db oid g0 c = None \<longrightarrow> sigs db oid g c = Some ys \<longrightarrow>
       (\<exists>t. AddTable t \<in> D \<and> o_name t = c) \<and> set ys \<subseteq> insert (Some None) (wanted T c)) \<and>
     (\<forall>c. sigs db oid g0 c \<noteq> None \<or> sigs db oid g c = None \<longrightarrow> key_of db g c = key_of db g0 c) \<and>
     (\<forall>d\<in>D. done_in (sigs db oid g) (key_of db g) d)"

lemma progressI:
  assumes "unique_tables db g"
    and "\<And>c xs. sigs db oid g0 c = Some xs \<Longrightarrow> \<exists>ys. sigs db oid g c = Some (xs @ ys) \<and> set ys \<subseteq> wanted T c"
    and "\<And>c ys. sigs db oid g0 c = None \<Longrightarrow> sigs db oid g c = Some ys \<Longrightarrow>
       (\<exists>t. AddTable t \<in> D \<and> o_name t = c) \<and> set ys \<subseteq> insert (Some None) (wanted T c)"
    and "\<And>c. sigs db oid g0 c \<noteq> None \<or> sigs db oid g c = None \<Longrightarrow> key_of db g c = key_of db g0 c"
    and "\<And>d. d \<in> D \<Longrightarrow> done_in (sigs db oid g) (key_of db g) d"
  shows "progress db oid g0 T D g"
  using assms unfolding progress_def by simp

lemma progressD:
  assumes "progress db oid g0 T D g"
  shows "unique_tables db g"
    and "sigs db oid g0 c = Some xs \<Longrightarrow> \<exists>ys. sigs db oid g c = Some (xs @ ys) \<and> set ys \<subseteq> wanted T c"
    and "sigs db oid g0 c = None \<Longrightarrow> sigs db oid g c = Some ys \<Longrightarrow>
       (\<exists>t. AddTable t \<in> D \<and> o_name t = c) \<and> set ys \<subseteq> insert (Some None) (wanted T c)"
    and "sigs db oid g0 c \<noteq> None \<or> sigs db oid g c = None \<Longrightarrow> key_of db g c = key_of db g0 c"
    and "d \<in> D \<Longrightarrow> done_in (sigs db oid g) (key_of db g) d"
  using assms unfolding progress_def by (elim conjE; blast)+

lemma done_in_mono:
  assumes "done_in S K d" and "\<And>c xs. S c = Some xs \<Longrightarrow> \<exists>ys. S' c = Some ys \<and> set xs \<subseteq> set ys"
    and "\<And>c. S c \<noteq> None \<Longrightarrow> K' c = K c"
  shows "done_in S' K' d"
  using assms(1)
proof (cases d)
  case (AddTable t)
  with assms(1) obtain xs where "S (o_name t) = Some xs" "K (o_name t) = primary_key t"
    "\<forall>q\<in>set (persisted_properties t). is_primary q \<longrightarrow> created q \<in> set xs" by auto
  with AddTable assms(2) [of "o_name t" xs] assms(3) [of "o_name t"] show ?thesis by auto
next
  case (AddInitialProperties t)
  with assms(1) obtain xs where "S (o_name t) = Some xs"
    "\<forall>q\<in>set (persisted_properties t). \<not> is_primary q \<longrightarrow> created q \<in> set xs" by auto
  with AddInitialProperties assms(2) [of "o_name t" xs] show ?thesis by auto
next
  case (AddProperty e q)
  with assms(1) obtain xs where "S (o_name e) = Some xs" "created q \<in> set xs" by auto
  with AddProperty assms(2) [of "o_name e" xs] show ?thesis by auto
qed simp_all

lemma progress_init:
  assumes "unique_tables db g"
  shows "progress db oid g T {} g"
  by (rule progressI) (use assms in auto)

lemma progress_grow:
  assumes p: "progress db oid g0 T D g"
    and b: "becomes db g g' (table_name_for_object_type c) cols'"
    and cols: "tables_in db g (table_name_for_object_type c) = Some cols"
    and ys: "map (sig oid) cols' = map (sig oid) cols @ ys" "set ys \<subseteq> wanted T c"
  shows "progress db oid g0 T D g'" and "sigs db oid g' c = Some (map (sig oid) cols @ ys)"
proof -
  let ?xs = "map (sig oid) cols"
  have S: "sigs db oid g c = Some ?xs" "sigs db oid g' = (sigs db oid g)(c \<mapsto> ?xs @ ys)"
    using b cols ys(1) by (auto simp: sigs_def becomes_def)
  then show "sigs db oid g' c = Some (?xs @ ys)" by simp
  have K: "key_of db g' = key_of db g" using b by (simp add: becomes_def)
  show "progress db oid g0 T D g'"
  proof (rule progressI)
    show "unique_tables db g'" using b by (simp add: becomes_def)
  next
    fix d xs
    assume "sigs db oid g0 d = Some xs"
    from progressD(2) [OF p this] obtain zs where
      "sigs db oid g d = Some (xs @ zs)" "set zs \<subseteq> wanted T d" by blast
    then show "\<exists>ys. sigs db oid g' d = Some (xs @ ys) \<and> set ys \<subseteq> wanted T d"
      using S ys(2) by (cases "d = c") auto
  next
    fix d zs
    assume d: "sigs db oid g0 d = None" "sigs db oid g' d = Some zs"
    show "(\<exists>t. AddTable t \<in> D \<and> o_name t = d) \<and> set zs \<subseteq> insert (Some None) (wanted T d)"
    proof (cases "d = c")
      case True
      then have "zs = ?xs @ ys" "sigs db oid g d = Some ?xs" using S d(2) by simp_all
      with progressD(3) [OF p d(1), of ?xs] ys(2) True show ?thesis
        by (simp only: set_append Un_subset_iff) blast
    next
      case False
      with progressD(3) [OF p d(1), of zs] S d(2) show ?thesis by simp
    qed
  next
    fix d
    assume "sigs db oid g0 d \<noteq> None \<or> sigs db oid g' d = None"
    with progressD(4) [OF p, of d] S K show "key_of db g' d = key_of db g0 d"
      by (cases "d = c") auto
  next
    fix d
    assume "d \<in> D"
    from progressD(5) [OF p this] show "done_in (sigs db oid g') (key_of db g') d"
      by (rule done_in_mono) (use S K in \<open>auto split: if_splits\<close>)
  qed
qed

lemma progress_insert:
  assumes "progress db oid g0 T D g" and "done_in (sigs db oid g) (key_of db g) d"
  shows "progress db oid g0 T (insert d D) g"
  using assms unfolding progress_def by (elim conjE, intro conjI) blast+

text \<open>A class that the object store can create.\<close>

definition storable :: "bytes \<Rightarrow> object_schema \<Rightarrow> bool" where
  "storable oid t \<longleftrightarrow> o_name t \<noteq> [] \<and> length (table_name_for_object_type (o_name t)) \<le> 63 \<and>
     list_all (\<lambda>q. p_name q \<noteq> []) (all_properties t) \<and>
     list_all (creatable oid) (persisted_properties t) \<and>
     list_all (\<lambda>q. is_primary q \<longleftrightarrow> primary_key t \<noteq> [] \<and> p_name q = primary_key t) (persisted_properties t) \<and>
     (primary_key t = [] \<or> primary_key t \<in> p_name ` set (persisted_properties t))"

definition valid_class :: "object_schema \<Rightarrow> bool" where
  "valid_class t \<longleftrightarrow> distinct_properties t \<and> (\<forall>q\<in>set (persisted_properties t). valid_column q \<and>
     (is_primary q \<longrightarrow> pt_eq (p_type q) PT_Int \<or> pt_eq (p_type q) PT_String))"

lemma storable_key:
  assumes "storable oid t"
  shows "primary_key_property t = (if primary_key t = [] then None
    else find (\<lambda>q. p_name q = primary_key t) (persisted_properties t))"
    and "primary_key t \<noteq> [] \<Longrightarrow> \<exists>q\<in>set (persisted_properties t).
      primary_key_property t = Some q \<and> p_name q = primary_key t \<and> is_primary q"
proof -
  have names: "p_name q \<noteq> []" if "q \<in> set (all_properties t)" for q
    using assms that by (simp add: storable_def list_all_iff)
  show 1: "primary_key_property t = (if primary_key t = [] then None
    else find (\<lambda>q. p_name q = primary_key t) (persisted_properties t))"
  proof (cases "primary_key t = []")
    case True
    then show ?thesis using names by (simp add: primary_key_property_def property_for_name_None)
  next
    case False
    with assms obtain q where "q \<in> set (persisted_properties t)" "p_name q = primary_key t"
      by (auto simp: storable_def)
    then have "find (\<lambda>q. p_name q = primary_key t) (persisted_properties t) \<noteq> None"
      by (auto simp: find_None)
    with False show ?thesis by (auto simp: primary_key_property_def property_for_name_def)
  qed
  assume key: "primary_key t \<noteq> []"
  with assms obtain q where "q \<in> set (persisted_properties t)" "p_name q = primary_key t"
    by (auto simp: storable_def)
  then obtain r where r: "find (\<lambda>q. p_name q = primary_key t) (persisted_properties t) = Some r"
    by (cases "find (\<lambda>q. p_name q = primary_key t) (persisted_properties t)") (auto simp: find_None)
  with find_SomeD [OF r] key 1 assms show "\<exists>q\<in>set (persisted_properties t).
      primary_key_property t = Some q \<and> p_name q = primary_key t \<and> is_primary q"
    by (intro bexI [of _ r]) (auto simp: storable_def list_all_iff)
qed

text \<open>Whatever adds one table with columns that are wanted.\<close>

lemma progress_new:
  assumes p: "progress db oid g0 T D g" and new: "sigs db oid g (o_name t) = None" "sigs db oid g0 (o_name t) = None"
    and g': "unique_tables db g'" "sigs db oid g' = (sigs db oid g)(o_name t \<mapsto> ys)"
      "key_of db g' = (key_of db g)(o_name t := primary_key t)"
    and ys: "set ys \<subseteq> insert (Some None) (wanted T (o_name t))"
      "\<forall>q\<in>set (persisted_properties t). is_primary q \<longrightarrow> created q \<in> set ys"
  shows "progress db oid g0 T (insert (AddTable t) D) g'"
proof (rule progressI)
  fix d xs
  assume d: "sigs db oid g0 d = Some xs"
  from progressD(2) [OF p d] new(2) d show "\<exists>ys. sigs db oid g' d = Some (xs @ ys) \<and> set ys \<subseteq> wanted T d"
    unfolding g'(2) by (cases "d = o_name t") auto
next
  fix d zs
  assume d: "sigs db oid g0 d = None" "sigs db oid g' d = Some zs"
  show "(\<exists>u. AddTable u \<in> insert (AddTable t) D \<and> o_name u = d) \<and> set zs \<subseteq> insert (Some None) (wanted T d)"
  proof (cases "d = o_name t")
    case True
    then show ?thesis using d(2) ys(1) unfolding g'(2) by auto
  next
    case False
    with d(2) have "sigs db oid g d = Some zs" unfolding g'(2) by simp
    from progressD(3) [OF p d(1) this] show ?thesis by blast
  qed
next
  fix d
  assume d: "sigs db oid g0 d \<noteq> None \<or> sigs db oid g' d = None"
  with new(2) have "d \<noteq> o_name t" unfolding g'(2) by auto
  with d progressD(4) [OF p, of d] show "key_of db g' d = key_of db g0 d" unfolding g' by simp
next
  fix d
  assume "d \<in> insert (AddTable t) D"
  then consider "d = AddTable t" | "d \<in> D" by blast
  then show "done_in (sigs db oid g') (key_of db g') d"
  proof cases
    case 1
    then show ?thesis using ys(2) unfolding g' by simp
  next
    case 2
    from progressD(5) [OF p this] show ?thesis
      by (rule done_in_mono) (use new(1) in \<open>auto simp: g' split: if_splits\<close>)
  qed
qed (rule g'(1))

lemma key_core:
  assumes "pt_eq t PT_Int \<or> pt_eq t PT_String"
  shows "\<exists>ty. to_core_type t = Some ty \<and> ty \<in> {type_Int, type_String}"
proof -
  have "pt_base t \<in> {PT_Int, PT_String}" using assms by (simp add: pt_eq_def)
  then show ?thesis by (auto simp: to_core_type_def PT_defs)
qed

lemma create_table_step:
  assumes e: "engine_ok db oid" and p: "progress db oid g0 T D g" and t: "t \<in> set T" "storable oid t" "valid_class t"
    and new: "sigs db oid g (o_name t) = None" "sigs db oid g0 (o_name t) = None"
    and stale: "key_of db g0 (o_name t) = []"
  shows "\<exists>g'. create_table db g t = Some g' \<and> progress db oid g0 T (insert (AddTable t) D) g'"
proof -
  let ?t = "table_name_for_object_type (o_name t)"
  have none: "tables_in db g ?t = None" using new(1) by (simp add: sigs_def)
  have len: "length ?t \<le> 63" using t(2) by (simp add: storable_def)
  have key: "key_of db g (o_name t) = []" using progressD(4) [OF p, of "o_name t"] new stale by simp
  note laws = e [unfolded engine_ok_def tables_law_def, THEN conjunct2, THEN spec [of _ g],
      THEN spec [of _ "o_name t"], THEN mp, OF conjI [OF progressD(1) [OF p] conjI [OF none len]]]
  have skipped: "sig oid ` set oids \<subseteq> {Some None}" if "list_all (\<lambda>x. col_name x = oid) oids" for oids
    using that by (auto simp: list_all_iff sig_def)
  show ?thesis
  proof (cases "primary_key t = []")
    case True
    let ?g = "db_sync_create_table db g ?t"
    from laws [THEN conjunct1] obtain oids where o: "list_all (\<lambda>x. col_name x = oid) oids"
      "becomes db g ?g ?t oids" by blast
    have "create_table db g t = Some ?g"
      using True storable_key(1) [OF t(2)] by (simp add: create_table_def)
    moreover have "progress db oid g0 T (insert (AddTable t) D) ?g"
    proof (rule progress_new [OF p new])
      show "unique_tables db ?g" using o(2) by (simp add: becomes_def)
      show "sigs db oid ?g = (sigs db oid g)(o_name t \<mapsto> map (sig oid) oids)"
        using o(2) by (auto simp: becomes_def sigs_def)
      show "key_of db ?g = (key_of db g)(o_name t := primary_key t)"
        using o(2) key True by (auto simp: becomes_def)
      show "set (map (sig oid) oids) \<subseteq> insert (Some None) (wanted T (o_name t))"
        using skipped [OF o(1)] by auto
      show "\<forall>q\<in>set (persisted_properties t). is_primary q \<longrightarrow> created q \<in> set (map (sig oid) oids)"
        using t(2) True by (auto simp: storable_def list_all_iff)
    qed
    ultimately show ?thesis by blast
  next
    case False
    obtain q where q: "q \<in> set (persisted_properties t)" "primary_key_property t = Some q"
      "p_name q = primary_key t" "is_primary q" using storable_key(2) [OF t(2) False] by blast
    have c: "creatable oid q" "valid_column q" "pt_eq (p_type q) PT_Int \<or> pt_eq (p_type q) PT_String"
      using t(2,3) q by (auto simp: storable_def valid_class_def list_all_iff)
    then obtain ty where ty: "to_core_type (p_type q) = Some ty" "ty \<in> {type_Int, type_String}"
      using key_core by blast
    have arr: "\<not> is_array (p_type q)" using c(1) q(4) by (auto simp: creatable_def requires_index_def)
    have no: "object_type q = []" using c(2) to_core_not_link(1) [OF ty(1)] by (auto simp: valid_column_def is_link_def)
    have name: "length (p_name q) \<le> 63" "p_name q \<noteq> oid" using c(1) by (simp_all add: creatable_def)
    let ?g = "db_sync_create_table_with_primary_key db g ?t ty (p_name q) (is_nullable (p_type q))"
    from laws [THEN conjunct2, THEN spec [of _ ty], THEN spec [of _ "p_name q"],
        THEN spec [of _ "is_nullable (p_type q)"], THEN mp, OF conjI [OF ty(2) name(1)], unfolded Let_def]
    obtain oids idx where o: "list_all (\<lambda>x. col_name x = oid) oids" "unique_tables db ?g"
      "tables_in db ?g = (tables_in db g)(?t \<mapsto> oids @ [Core_Column (p_name q) ty (is_nullable (p_type q)) idx [] []])"
      "key_of db ?g = (key_of db g)(o_name t := p_name q)" by blast
    have s: "sig oid (Core_Column (p_name q) ty (is_nullable (p_type q)) idx [] []) = created q"
      using sig_value [OF ty(1) arr name(2)] no by (simp add: triple_def)
    have "create_table db g t = Some ?g" using q(2) ty(1) by (simp add: create_table_def)
    moreover have "progress db oid g0 T (insert (AddTable t) D) ?g"
    proof (rule progress_new [OF p new o(2)])
      show "sigs db oid ?g = (sigs db oid g)(o_name t \<mapsto> map (sig oid) oids @ [created q])"
        using s by (auto simp: o(3) sigs_def)
      show "key_of db ?g = (key_of db g)(o_name t := primary_key t)" using o(4) q(3) by simp
      show "set (map (sig oid) oids @ [created q]) \<subseteq> insert (Some None) (wanted T (o_name t))"
        using skipped [OF o(1)] t(1) q(1) by (auto simp: wanted_def)
      show "\<forall>r\<in>set (persisted_properties t). is_primary r \<longrightarrow> created r \<in> set (map (sig oid) oids @ [created q])"
      proof (intro ballI impI)
        fix r
        assume r: "r \<in> set (persisted_properties t)" "is_primary r"
        then have "p_name r = p_name q" using t(2) q(3) by (simp add: storable_def list_all_iff)
        with distinct_propertiesD [of t r q] t(3) r(1) q(1) have "r = q"
          by (simp add: valid_class_def all_properties_def)
        then show "created r \<in> set (map (sig oid) oids @ [created q])" by simp
      qed
    qed
    ultimately show ?thesis by blast
  qed
qed

lemma add_columns_step:
  assumes e: "engine_ok db oid" and "progress db oid g0 T D g" and t: "t \<in> set T"
    and "set ps \<subseteq> set (persisted_properties t)" and "\<forall>q\<in>set ps. creatable oid q \<and> valid_column q"
    and "sigs db oid g (o_name t) = Some xs"
    and "\<And>q g'. q \<in> set ps \<Longrightarrow> is_link q \<Longrightarrow> progress db oid g0 T D g' \<Longrightarrow> sigs db oid g' (object_type q) \<noteq> None"
  shows "\<exists>g' ys. add_columns db g (table_name_for_object_type (o_name t)) ps = Some g' \<and> progress db oid g0 T D g' \<and>
    sigs db oid g' (o_name t) = Some (xs @ ys) \<and>
    (\<forall>q\<in>set ps. \<not> is_primary q \<longrightarrow> created q \<in> set ys)"
  using assms(2,4-)
proof (induction ps arbitrary: g xs)
  case (Cons q ps)
  let ?t = "table_name_for_object_type (o_name t)"
  show ?case
  proof (cases "is_primary q")
    case True
    with Cons.IH [OF Cons.prems(1) _ _ Cons.prems(4)] Cons.prems(2,3,5) show ?thesis by auto
  next
    case False
    obtain cols where cols: "tables_in db g ?t = Some cols" "xs = map (sig oid) cols"
      using Cons.prems(4) by (auto simp: sigs_def)
    have link: "is_link q \<longrightarrow> tables_in db g (table_name_for_object_type (object_type q)) \<noteq> None"
      using Cons.prems(5) [of q g] Cons.prems(1) by (auto simp: sigs_def)
    obtain g1 c where g1: "add_column db g ?t q = Some g1" "becomes db g g1 ?t (cols @ [c])"
      "sig oid c = created q"
      using insert_property_column_step [OF e is_class_table_name progressD(1) [OF Cons.prems(1)] cols(1) _ _ link] Cons.prems(3) by auto
    have "set [created q] \<subseteq> wanted T (o_name t)" using Cons.prems(2) t by (auto simp: wanted_def)
    from progress_grow [OF Cons.prems(1) g1(2) cols(1) _ this] g1(3) cols(2)
    have p: "progress db oid g0 T D g1" "sigs db oid g1 (o_name t) = Some (xs @ [created q])" by simp_all
    from Cons.IH [OF p(1) _ _ p(2)] Cons.prems(2,3,5)
    obtain g2 ys where "add_columns db g1 ?t ps = Some g2" "progress db oid g0 T D g2"
      "sigs db oid g2 (o_name t) = Some ((xs @ [created q]) @ ys)"
      "\<forall>q\<in>set ps. \<not> is_primary q \<longrightarrow> created q \<in> set ys" by auto
    with False g1(1) show ?thesis by (intro exI [of _ g2] exI [of _ "created q # ys"]) auto
  qed
qed simp

subsection \<open>One change\<close>

lemma pt_base_or: "pt_base (a OR b) = pt_base a OR pt_base b"
  and pt_base_flags: "pt_base PT_Nullable = 0" "pt_base PT_Array = 0" "pt_base PT_Required = 0"
  and pt_base_Any: "pt_base PT_Any = PT_Any"
  by (rule bit_eqI, auto simp: bit_or_iff bit_base) code_simp+

lemma pt_base_optional: "pt_base (if nul then PT_Nullable else PT_Required) = 0"
  by (simp add: pt_base_flags)

lemma sig_indexable:
  assumes "sig oid c = Some (Some (n, ty, target))" and "\<not> is_array ty"
    and "pt_base ty \<in> {PT_Int, PT_Bool, PT_Date, PT_String}"
  shows "col_type c \<in> set indexable_types"
proof -
  have "from_core_type c = Some ty" using assms(1) by (auto simp: sig_def split: if_splits)
  moreover obtain m cty nul idx tgt sub where c: "c = Core_Column m cty nul idx tgt sub"
    by (rule core_column.exhaust)
  moreover have "is_array (x OR PT_Array)" for x by (simp add: is_array_bit bit_or_iff bit_Array)
  ultimately have "cty = type_Int \<or> cty = type_Bool \<or> cty = type_String \<or> cty = type_Timestamp \<or>
      pt_base ty \<in> {PT_Float, PT_Double, PT_Data, PT_Any, PT_Object}"
    using assms(2) by (cases cty) (auto simp: pt_base_or pt_base_flags pt_base_optional pt_base_Any split: list.splits)
  with assms(3) c show ?thesis by (auto simp: indexable_types_def PT_defs)
qed

text \<open>What the update starts from: a file that can be read, and a target schema that is valid,
  storable and compatible with it.\<close>

definition update_ok ::
  "'g db \<Rightarrow> bytes \<Rightarrow> 'g \<Rightarrow> object_schema list \<Rightarrow> object_schema list \<Rightarrow> bool" where
  "update_ok db oid g0 E T \<longleftrightarrow> engine_ok db oid \<and> unique_tables db g0 \<and>
     schema_from_group oid (db_view db g0) = Some E \<and>
     (\<forall>c. key_of db g0 c \<noteq> [] \<longrightarrow> sigs db oid g0 c \<noteq> None) \<and> distinct (names T) \<and>
     (\<forall>t\<in>set T. storable oid t \<and> valid_class t \<and>
       (\<forall>q\<in>set (persisted_properties t). is_link q \<longrightarrow> object_type q \<in> set (names T)))"

lemma file_class:
  assumes "unique_tables db g" and "schema_from_group oid (db_view db g) = Some E" and "e \<in> set E"
  obtains cols where "tables_in db g (table_name_for_object_type (o_name e)) = Some cols"
    and "sigs db oid g (o_name e) = Some (map (sig oid) cols)" and "o_name e \<noteq> []"
    and "primary_key e = key_of db g (o_name e)" and "computed_properties e = []"
    and "(\<lambda>p. (table_column p, triple p)) ` set (persisted_properties e) =
      {(i, x). i < length cols \<and> sig oid (cols ! i) = Some (Some x)}"
    and "triple ` set (persisted_properties e) = {x. Some (Some x) \<in> sig oid ` set cols}"
proof -
  from schema_from_group_set(1) [OF assms(1) [unfolded unique_tables_def] assms(2), of e] assms(3)
  obtain c cols where "c \<noteq> []" "tables_in db g (table_name_for_object_type c) = Some cols"
    "e = class_of oid (db_view db g) c cols" by (auto simp: tables_in_def)
  then show thesis
    using that [of cols] class_of_columns [of oid "db_view db g" c cols]
      class_of_triples [of oid "db_view db g" c cols]
    by (simp add: sigs_def key_of_def)
qed

lemma class_in_file:
  assumes "unique_tables db g" and "schema_from_group oid (db_view db g) = Some E" and "c \<noteq> []"
  shows "c \<in> set (names E) \<longleftrightarrow> sigs db oid g c \<noteq> None"
proof -
  note S = schema_from_group_set(1) [OF assms(1) [unfolded unique_tables_def] assms(2)]
  have "c \<in> set (names E) \<longleftrightarrow> (\<exists>e. o_name e = c \<and> e \<in> set E)" by (auto simp: names_def)
  also have "\<dots> \<longleftrightarrow> (\<exists>cols. tables_in db g (table_name_for_object_type c) = Some cols)"
    unfolding S tables_in_def using assms(3) by (metis class_of_simps(1))
  finally show ?thesis by (simp add: sigs_def)
qed

definition tables_ready :: "'g db \<Rightarrow> bytes \<Rightarrow> 'g \<Rightarrow> object_schema list \<Rightarrow> schema_change set \<Rightarrow> bool" where
  "tables_ready db oid g0 T D \<longleftrightarrow> (\<forall>t\<in>set T. sigs db oid g0 (o_name t) \<noteq> None \<or> AddTable t \<in> D)"

lemma ready_table:
  assumes "progress db oid g0 T D g" and "tables_ready db oid g0 T D" and "c \<in> set (names T)"
  shows "sigs db oid g c \<noteq> None"
proof -
  from assms(3) obtain t where t: "t \<in> set T" "o_name t = c" by (auto simp: names_def)
  show ?thesis
  proof (cases "sigs db oid g0 c")
    case None
    with assms(2) t have "AddTable t \<in> D" by (auto simp: tables_ready_def)
    from progressD(5) [OF assms(1) this] t(2) show ?thesis by auto
  next
    case (Some xs)
    from progressD(2) [OF assms(1) this] show ?thesis by auto
  qed
qed

lemma old_column:
  assumes U: "update_ok db oid g0 E T" and p: "progress db oid g0 T D g" and e: "e \<in> set E"
    and q: "q \<in> set (persisted_properties e)"
  obtains cols where "tables_in db g (table_name_for_object_type (o_name e)) = Some cols"
    and "table_column q < length cols" and "sig oid (cols ! table_column q) = created q"
proof -
  from U have g0: "unique_tables db g0" "schema_from_group oid (db_view db g0) = Some E"
    by (simp_all add: update_ok_def)
  obtain cols0 where c0: "sigs db oid g0 (o_name e) = Some (map (sig oid) cols0)"
    "(\<lambda>p. (table_column p, triple p)) ` set (persisted_properties e) =
      {(i, x). i < length cols0 \<and> sig oid (cols0 ! i) = Some (Some x)}"
    by (rule file_class [OF g0 e])
  have "(table_column q, triple q) \<in> (\<lambda>p. (table_column p, triple p)) ` set (persisted_properties e)"
    using q by (rule imageI)
  then have i: "table_column q < length cols0" "sig oid (cols0 ! table_column q) = created q"
    unfolding c0(2) by auto
  from progressD(2) [OF p c0(1)] obtain ys where
    "sigs db oid g (o_name e) = Some (map (sig oid) cols0 @ ys)" by blast
  then obtain cols where cols: "tables_in db g (table_name_for_object_type (o_name e)) = Some cols"
    "map (sig oid) cols = map (sig oid) cols0 @ ys" by (auto simp: sigs_def)
  from arg_cong [OF cols(2), of length] i(1) have l: "table_column q < length cols" by simp
  then have "sig oid (cols ! table_column q) = (map (sig oid) cols0 @ ys) ! table_column q"
    by (metis cols(2) nth_map)
  with i show thesis by (intro that [OF cols(1) l]) (simp add: nth_append)
qed

lemma progress_index:
  assumes p: "progress db oid g0 T D g"
    and cols: "tables_in db g (table_name_for_object_type c) = Some cols" "i < length cols"
    and b: "becomes db g g' (table_name_for_object_type c) (cols[i := with_index v (cols ! i)])"
  shows "progress db oid g0 T D g'"
proof (rule progress_grow(1) [OF p b cols(1)])
  show "map (sig oid) (cols[i := with_index v (cols ! i)]) = map (sig oid) cols @ []"
    using cols(2) by (simp add: map_update list_update_same_conv)
qed simp

lemma needed_pair:
  assumes "needed E T False c" and "\<not> is_table_change c" and "\<forall>t. c \<noteq> AddInitialProperties t"
  obtains e t where "e \<in> set E" and "t \<in> set T" and "o_name t = o_name e" and "differs e t c"
  using assms by (cases c) auto

text \<open>Every change of the list but those to tables can be applied once all tables are there.\<close>

lemma change_step:
  assumes U: "update_ok db oid g0 E T" and p: "progress db oid g0 T D g" and r: "tables_ready db oid g0 T D"
    and n: "needed E T False c" "\<not> is_table_change c"
  shows "\<exists>g'. apply_additive db upd c g = Some g' \<and> progress db oid g0 T (insert c D) g'"
proof -
  from U have e: "engine_ok db oid" by (simp add: update_ok_def)
  have T: "storable oid t" "valid_class t" "\<And>q. q \<in> set (persisted_properties t) \<Longrightarrow> is_link q \<Longrightarrow>
      object_type q \<in> set (names T)" if "t \<in> set T" for t
    using U that by (auto simp: update_ok_def)
  have creatable: "creatable oid q \<and> valid_column q" if "t \<in> set T" "q \<in> set (persisted_properties t)" for t q
    using T(1,2) [OF that(1)] that(2) by (auto simp: storable_def valid_class_def list_all_iff)
  have idle: ?thesis if "apply_additive db upd c g = Some g" "\<And>S K. done_in S K c"
    using that progress_insert [OF p] by blast
  show ?thesis
  proof (cases "\<exists>t. c = AddInitialProperties t")
    case True
    then obtain t where c: "c = AddInitialProperties t" and t: "t \<in> set T"
      using n by (auto simp: added_def)
    obtain xs where xs: "sigs db oid g (o_name t) = Some xs"
      using ready_table [OF p r, of "o_name t"] t by (auto simp: names_def)
    have "\<exists>g' ys. add_columns db g (table_name_for_object_type (o_name t)) (persisted_properties t) = Some g' \<and>
        progress db oid g0 T D g' \<and> sigs db oid g' (o_name t) = Some (xs @ ys) \<and>
        (\<forall>q\<in>set (persisted_properties t). \<not> is_primary q \<longrightarrow> created q \<in> set ys)"
      using creatable [OF t] ready_table [OF _ r] T(3) [OF t]
      by (intro add_columns_step [OF e p t subset_refl _ xs]) blast+
    then obtain g' ys where "add_columns db g (table_name_for_object_type (o_name t)) (persisted_properties t) = Some g'"
      "progress db oid g0 T D g'" "sigs db oid g' (o_name t) = Some (xs @ ys)"
      "\<forall>q\<in>set (persisted_properties t). \<not> is_primary q \<longrightarrow> created q \<in> set ys" by blast
    then show ?thesis
      using c progress_insert [of db oid g0 T D g' c] by (simp add: add_initial_columns_def)
  next
    case False
    then obtain e' t where et: "e' \<in> set E" "t \<in> set T" "o_name t = o_name e'" "differs e' t c"
      using needed_pair [OF n] by metis
    show ?thesis
    proof (cases c)
      case (AddProperty e'' q)
      with et have q: "e'' = e'" "q \<in> set (persisted_properties t)" by auto
      obtain cols where cols: "tables_in db g (table_name_for_object_type (o_name t)) = Some cols"
        using ready_table [OF p r, of "o_name t"] et(2) by (auto simp: names_def sigs_def)
      have link: "is_link q \<longrightarrow> tables_in db g (table_name_for_object_type (object_type q)) \<noteq> None"
        using ready_table [OF p r] T(3) [OF et(2) q(2)] by (auto simp: sigs_def)
      obtain g' x where g': "add_column db g (table_name_for_object_type (o_name t)) q = Some g'"
        "becomes db g g' (table_name_for_object_type (o_name t)) (cols @ [x])" "sig oid x = created q"
        using insert_property_column_step [OF e is_class_table_name progressD(1) [OF p] cols _ _ link] creatable [OF et(2) q(2)] by blast
      have "set [created q] \<subseteq> wanted T (o_name t)" using et(2) q(2) by (auto simp: wanted_def)
      from progress_grow [OF p g'(2) cols _ this] g'(3) have
        "progress db oid g0 T D g'" "sigs db oid g' (o_name t) = Some (map (sig oid) cols @ [created q])" by simp_all
      then show ?thesis
        using AddProperty q(1) g'(1) et(3) progress_insert [of db oid g0 T D g' c] by simp
    next
      case (AddIndex e'' q)
      with et obtain r where q: "e'' = e'" "q \<in> set (persisted_properties e')"
        "r \<in> set (persisted_properties t)" "p_name r = p_name q" "same_shape q r" "requires_index r" by auto
      obtain cols where cols: "tables_in db g (table_name_for_object_type (o_name e')) = Some cols"
        "table_column q < length cols" "sig oid (cols ! table_column q) = created q"
        by (rule old_column [OF U p et(1) q(2)])
      have "\<not> is_array (p_type q)" "type_is_indexable q"
        using creatable [OF et(2) q(3)] q(5,6)
        by (auto simp: creatable_def valid_column_def same_shape_def type_is_indexable_def pt_eq_def)
      then have "col_type (cols ! table_column q) \<in> set indexable_types"
        using sig_indexable [of oid "cols ! table_column q"] cols(3)
        by (simp add: triple_def type_is_indexable_def pt_eq_def)
      from progress_index [OF p cols(1,2) column_laws(4) [OF e is_class_table_name progressD(1) [OF p] cols(1,2) this]]
      show ?thesis using AddIndex q(1) p by (auto intro: progress_insert)
    next
      case (RemoveIndex e'' q)
      with et have q: "e'' = e'" "q \<in> set (persisted_properties e')" by auto
      obtain cols where cols: "tables_in db g (table_name_for_object_type (o_name e')) = Some cols"
        "table_column q < length cols" by (rule old_column [OF U p et(1) q(2)])
      from progress_index [OF p cols column_laws(5) [OF e is_class_table_name progressD(1) [OF p] cols]]
      show ?thesis using RemoveIndex q(1) p by (auto intro: progress_insert)
    qed (use idle n(2) False in auto)
  qed
qed

lemma apply_all_append:
  "apply_all f (xs @ ys) g = (case apply_all f xs g of None \<Rightarrow> None | Some g \<Rightarrow> apply_all f ys g)"
  by (induction xs arbitrary: g) (auto split: option.splits)

lemma changes_step:
  assumes U: "update_ok db oid g0 E T" and "tables_ready db oid g0 T D"
    and "\<forall>c\<in>set cs. needed E T False c \<and> \<not> is_table_change c" and "progress db oid g0 T D g"
  shows "\<exists>g'. apply_all (apply_additive db upd) cs g = Some g' \<and> progress db oid g0 T (D \<union> set cs) g'"
  using assms(2-)
proof (induction cs arbitrary: g D)
  case (Cons c cs)
  have c: "needed E T False c" "\<not> is_table_change c" using Cons.prems(2) by simp_all
  from change_step [OF U Cons.prems(3,1) c, of upd] obtain g' where
    g': "apply_additive db upd c g = Some g'" "progress db oid g0 T (insert c D) g'" by blast
  have "tables_ready db oid g0 T (insert c D)" using Cons.prems(1) by (auto simp: tables_ready_def)
  from Cons.IH [OF this _ g'(2)] Cons.prems(2) g'(1) show ?case by auto
qed simp

end
