(* ===== verification/Memory_Engine.thy ===== *)
theory Memory_Engine
  imports Apply_Lemmas
begin

section \<open>An engine in memory\<close>

text \<open>
  The functions of the storage engine over the tables of a group held as data, without rows.
  It satisfies the documented behaviour, and stands in for the engine where the model is run
  on an example.
\<close>

definition on_table :: "(core_column list \<Rightarrow> core_column list) \<Rightarrow> bytes \<Rightarrow> group \<Rightarrow> group" where
  "on_table f t g = g\<lparr>g_tables := map (\<lambda>(n, cols). (n, if n = t then f cols else cols)) (g_tables g)\<rparr>"

definition new_table :: "group \<Rightarrow> bytes \<Rightarrow> core_column list \<Rightarrow> group" where
  "new_table g t cols = (if map_of (g_tables g) t = None then g\<lparr>g_tables := g_tables g @ [(t, cols)]\<rparr> else g)"

definition memory_engine :: "bytes \<Rightarrow> group db" where
  "memory_engine oid =
     \<lparr>db_view = \<lambda>g. g,
      db_size = \<lambda>g t. 0,
      db_get_or_add_table = \<lambda>g t. new_table g t [],
      db_sync_create_table = \<lambda>g t. new_table g t [Core_Column oid type_Int False False [] []],
      db_sync_create_table_with_primary_key = \<lambda>g t ty n nul.
        (new_table g t [Core_Column oid type_Int False False [] [], Core_Column n ty nul True [] []])
          \<lparr>g_primary_keys := Some ((object_type_for_table_name t, n) #
            (case g_primary_keys g of None \<Rightarrow> [] | Some rows \<Rightarrow> rows))\<rparr>,
      db_remove_table = \<lambda>g t. g\<lparr>g_tables := filter (\<lambda>(n, cols). n \<noteq> t) (g_tables g)\<rparr>,
      db_insert_column = \<lambda>g t i ty n nul.
        on_table (\<lambda>cols. put_column cols i (Core_Column n ty nul False [] [])) t g,
      db_add_subcolumn = \<lambda>g t i ty n nul. on_table (\<lambda>cols. cols[i := with_sub
        (col_sub (cols ! i) @ [Core_Column n ty nul False [] []]) (cols ! i)]) t g,
      db_insert_column_link = \<lambda>g t i ty n target.
        on_table (\<lambda>cols. put_column cols i (Core_Column n ty False False target [])) t g,
      db_remove_column = \<lambda>g t i. on_table (\<lambda>cols. take i cols @ drop (i + 1) cols) t g,
      db_rename_column = \<lambda>g t i n. on_table (\<lambda>cols. cols[i := (case cols ! i of
        Core_Column m ty nul idx target sub \<Rightarrow> Core_Column n ty nul idx target sub)]) t g,
      db_add_search_index = \<lambda>g t i. on_table (\<lambda>cols. cols[i := with_index True (cols ! i)]) t g,
      db_remove_search_index = \<lambda>g t i. on_table (\<lambda>cols. cols[i := with_index False (cols ! i)]) t g,
      db_add_empty_row = \<lambda>g t. g,
      db_move_last_over = \<lambda>g t i. g,
      db_find_first_string = \<lambda>g t i s. None,
      db_get = \<lambda>g ty t i r. Cell_Int 0,
      db_set = \<lambda>g t i r c. g,
      db_set_string_unique = \<lambda>g t i r s. g,
      db_has_object_ids = \<lambda>g. False,
      db_distinct_size = \<lambda>g t i. 0,
      db_default_permissions = \<lambda>g cs u. g\<rparr>"

lemma map_of_on_table:
  "map_of (map (\<lambda>(n, cols). (n, if n = t then f cols else cols)) ts) =
    (case map_of ts t of None \<Rightarrow> map_of ts | Some cols \<Rightarrow> (map_of ts)(t \<mapsto> f cols))"
  by (induction ts) (auto split: option.splits)

lemma becomes_on_table:
  assumes "unique_tables (memory_engine oid) g" and "tables_in (memory_engine oid) g t = Some cols"
  shows "becomes (memory_engine oid) g (on_table f t g) t (f cols)"
  using assms
  by (simp add: becomes_def unique_tables_def tables_in_def key_of_def memory_engine_def on_table_def
      map_of_on_table comp_def case_prod_beta get_primary_key_for_object_def fun_eq_iff)

lemma map_of_snoc: "map_of ts t = None \<Longrightarrow> map_of (ts @ [(t, c)]) = (map_of ts)(t \<mapsto> c)"
  by (rule ext) (auto simp: map_add_def split: option.splits)

lemma becomes_new_table:
  assumes "unique_tables (memory_engine oid) g" and "tables_in (memory_engine oid) g t = None"
  shows "becomes (memory_engine oid) g (new_table g t cols) t cols"
proof -
  have t: "map_of (g_tables g) t = None" using assms(2) by (simp add: tables_in_def memory_engine_def)
  then have "t \<notin> fst ` set (g_tables g)" by (simp add: map_of_eq_None_iff)
  with assms(1) map_of_snoc [OF t] t show ?thesis
    by (simp add: becomes_def unique_tables_def tables_in_def key_of_def memory_engine_def new_table_def
      get_primary_key_for_object_def fun_eq_iff)
qed

lemma memory_engine_ok: "engine_ok (memory_engine oid) oid"
  unfolding engine_ok_def
proof
  let ?M = "memory_engine oid"
  show "columns_law ?M"
    unfolding columns_law_def
  proof (intro allI impI)
    fix g t cols
    assume "is_class_table t \<and> unique_tables ?M g \<and> tables_in ?M g t = Some cols"
    then have a: "unique_tables ?M g \<and> tables_in ?M g t = Some cols" by simp
    note b = becomes_on_table [OF a [THEN conjunct1] a [THEN conjunct2]]
    show "(\<forall>i ty n nul. i \<le> length cols \<and> ty \<noteq> type_Link \<and> ty \<noteq> type_LinkList \<and> length n \<le> 63 \<longrightarrow>
          becomes ?M g (db_insert_column ?M g t i ty n nul) t (put_column cols i (Core_Column n ty nul False [] []))) \<and>
        (\<forall>i ty n target. i \<le> length cols \<and> ty \<in> {type_Link, type_LinkList} \<and> length n \<le> 63 \<and>
          tables_in ?M g target \<noteq> None \<longrightarrow>
          (\<exists>nul. becomes ?M g (db_insert_column_link ?M g t i ty n target) t
             (put_column cols i (Core_Column n ty nul False target [])))) \<and>
        (\<forall>i ty n nul. i < length cols \<and> col_type (cols ! i) = type_Table \<and> length n \<le> 63 \<longrightarrow>
          becomes ?M g (db_add_subcolumn ?M g t i ty n nul) t
            (cols[i := with_sub (col_sub (cols ! i) @ [Core_Column n ty nul False [] []]) (cols ! i)])) \<and>
        (\<forall>i. i < length cols \<and> col_type (cols ! i) \<in> set indexable_types \<longrightarrow>
          becomes ?M g (db_add_search_index ?M g t i) t (cols[i := with_index True (cols ! i)])) \<and>
        (\<forall>i. i < length cols \<longrightarrow>
          becomes ?M g (db_remove_search_index ?M g t i) t (cols[i := with_index False (cols ! i)]))"
      using b by (intro conjI allI impI; (intro exI [of _ False])?; simp add: memory_engine_def [of oid])
  qed
  show "tables_law ?M oid"
    unfolding tables_law_def
  proof (intro allI impI)
    fix g c
    let ?t = "table_name_for_object_type c"
    assume a: "unique_tables ?M g \<and> tables_in ?M g ?t = None \<and> length ?t \<le> 63"
    note b = becomes_new_table [OF a [THEN conjunct1] a [THEN conjunct2, THEN conjunct1]]
    have "\<exists>oids. list_all (\<lambda>x. col_name x = oid) oids \<and> becomes ?M g (db_sync_create_table ?M g ?t) ?t oids"
      using b [of "[Core_Column oid type_Int False False [] []]"]
      by (intro exI [of _ "[Core_Column oid type_Int False False [] []]"]) (simp add: memory_engine_def)
    moreover have "\<exists>oids idx. list_all (\<lambda>x. col_name x = oid) oids \<and> unique_tables ?M g' \<and>
          tables_in ?M g' = (tables_in ?M g)(?t \<mapsto> oids @ [Core_Column n ty nul idx [] []]) \<and>
          key_of ?M g' = (key_of ?M g)(c := n)"
      if "g' = db_sync_create_table_with_primary_key ?M g ?t ty n nul" for g' ty n nul
    proof (intro exI [of _ "[Core_Column oid type_Int False False [] []]"] exI [of _ True] conjI)
      let ?cols = "[Core_Column oid type_Int False False [] [], Core_Column n ty nul True [] []]"
      from b [of ?cols] that
      show "unique_tables ?M g'"
        and "tables_in ?M g' = (tables_in ?M g)(?t \<mapsto> [Core_Column oid type_Int False False [] []] @
            [Core_Column n ty nul True [] []])"
        by (simp_all add: becomes_def unique_tables_def tables_in_def memory_engine_def)
      show "key_of ?M g' = (key_of ?M g)(c := n)"
        using that by (auto simp: key_of_def memory_engine_def get_primary_key_for_object_def fun_eq_iff
            split: option.splits)
    qed simp
    ultimately show "(\<exists>oids. list_all (\<lambda>x. col_name x = oid) oids \<and>
          becomes ?M g (db_sync_create_table ?M g ?t) ?t oids) \<and>
        (\<forall>ty n nul. ty \<in> {type_Int, type_String} \<and> length n \<le> 63 \<longrightarrow>
          (let g' = db_sync_create_table_with_primary_key ?M g ?t ty n nul in
           \<exists>oids idx. list_all (\<lambda>x. col_name x = oid) oids \<and> unique_tables ?M g' \<and>
             tables_in ?M g' = (tables_in ?M g)(?t \<mapsto> oids @ [Core_Column n ty nul idx [] []]) \<and>
             key_of ?M g' = (key_of ?M g)(c := n)))"
      unfolding Let_def by blast
  qed
qed

end
