(* ===== verification/Apply_Props.thy ===== *)
theory Apply_Props
  imports Memory_Engine Schema_Props
begin

section \<open>Properties of applying a schema\<close>

text \<open>
  What the additive mode promises: the update of the tables goes through, the file read back
  has everything that was asked for, and nothing of the old file is lost or moved.
\<close>

lemma tables_step:
  assumes U: "update_ok db oid g0 E T" and "progress db oid g0 T D g"
    and "\<forall>t\<in>set ns. added E T t" and "distinct (names ns)"
    and "\<forall>u. AddTable u \<in> D \<longrightarrow> o_name u \<notin> set (names ns)"
  shows "\<exists>g'. apply_all (apply_additive db upd) (map AddTable ns) g = Some g' \<and>
    progress db oid g0 T (D \<union> AddTable ` set ns) g'"
  using assms(2-)
proof (induction ns arbitrary: g D)
  case (Cons t ns)
  from U have e: "engine_ok db oid" and g0: "unique_tables db g0" "schema_from_group oid (db_view db g0) = Some E"
    by (simp_all add: update_ok_def)
  have t: "t \<in> set T" "o_name t \<notin> set (names E)" using Cons.prems(2) by (simp_all add: added_def)
  then have ok: "storable oid t" "valid_class t" using U by (auto simp: update_ok_def)
  then have "o_name t \<noteq> []" by (simp add: storable_def)
  then have 0: "sigs db oid g0 (o_name t) = None" using class_in_file [OF g0] t(2) by blast
  have 1: "sigs db oid g (o_name t) = None"
  proof (rule ccontr)
    assume "sigs db oid g (o_name t) \<noteq> None"
    with progressD(3) [OF Cons.prems(1) 0] obtain u where "AddTable u \<in> D" "o_name u = o_name t" by blast
    with Cons.prems(4) show False by auto
  qed
  have "key_of db g0 (o_name t) = []" using U 0 by (auto simp: update_ok_def)
  from create_table_step [OF e Cons.prems(1) t(1) ok 1 0 this] obtain g1 where
    g1: "create_table db g t = Some g1" "progress db oid g0 T (insert (AddTable t) D) g1" by blast
  from Cons.IH [OF g1(2)] Cons.prems(2-4) obtain g2 where
    "apply_all (apply_additive db upd) (map AddTable ns) g1 = Some g2"
    "progress db oid g0 T (insert (AddTable t) D \<union> AddTable ` set ns) g2" by auto
  with g1(1) show ?case by auto
qed simp

lemma compare_to_target:
  assumes "distinct (names E)" and "distinct (names T)" and "list_all distinct_properties T" and "sorted_schema E"
  shows "c \<in> set (schema_compare E (make_schema T) False) \<longleftrightarrow> needed E T False c"
proof -
  have "\<forall>t\<in>set (make_schema T). distinct_properties t" using assms(3) by (simp add: list_all_iff)
  moreover have "set (names (make_schema T)) = set (names T)"
    by (metis mset_names_make_schema set_mset_mset)
  moreover have "needed E (make_schema T) False c \<longleftrightarrow> needed E T False c"
    using calculation(2) by (cases c) (simp_all add: added_def)
  ultimately show ?thesis
    using schema_compare_needed [OF assms(4) sorted_make_schema assms(1), of T c False] assms(2)
    by (simp add: distinct_names_make_schema)
qed

lemma added_classes:
  assumes "distinct (names E)" and "distinct (names T)" and "list_all distinct_properties T" and "sorted_schema E"
  obtains ns rest where "schema_compare E (make_schema T) False = map AddTable ns @ rest"
    and "\<forall>t\<in>set ns. added E T t" and "distinct (names ns)"
    and "\<forall>c\<in>set rest. needed E T False c \<and> \<not> is_table_change c"
    and "\<forall>c. needed E T False c \<longrightarrow> c \<in> set (map AddTable ns @ rest)"
proof -
  let ?cs = "schema_compare E (make_schema T) False" and ?z = "zip_matching (make_schema T) E"
  let ?ns = "[t. (Some t, None) \<leftarrow> ?z]"
  note needed = compare_to_target [OF assms]
  obtain rest where r: "?cs = map AddTable ?ns @ rest"
    using schema_compare_ordered [of False "make_schema T" E]
    unfolding changes_ordered_def compare_tables_added append_Nil by blast
  have "filter is_table_change ?cs = map AddTable ?ns"
    using schema_compare_tables [of E "make_schema T" False] by (simp add: compare_tables_added)
  then have "filter is_table_change rest = []" unfolding r by (simp add: filter_map o_def)
  then have "\<forall>c\<in>set rest. needed E T False c \<and> \<not> is_table_change c"
    using needed r by (auto simp: filter_empty_conv)
  moreover have "\<forall>t\<in>set ?ns. added E T t"
  proof
    fix t assume "t \<in> set ?ns"
    then have "AddTable t \<in> set ?cs" unfolding r by auto
    then show "added E T t" unfolding needed by simp
  qed
  moreover have "distinct (names ?ns)"
    using distinct_added [of "make_schema T" E] assms(2) by (simp add: distinct_names_make_schema)
  ultimately show thesis using that [OF r] needed r by auto
qed

text \<open>The changes that may be left: columns that are not asked for, and indexes.\<close>

fun harmless :: "schema_change \<Rightarrow> bool" where
  "harmless (RemoveProperty e p) = True"
| "harmless (AddIndex e p) = True"
| "harmless (RemoveIndex e p) = True"
| "harmless c = False"

definition keeps :: "object_schema list \<Rightarrow> object_schema list \<Rightarrow> bool" where
  "keeps E E' \<longleftrightarrow> (\<forall>e\<in>set E. \<exists>e'\<in>set E'. o_name e' = o_name e \<and> primary_key e' = primary_key e \<and>
     (\<lambda>p. (table_column p, triple p)) ` set (persisted_properties e) \<subseteq>
     (\<lambda>p. (table_column p, triple p)) ` set (persisted_properties e'))"

lemma same_triple:
  "triple p = triple q \<longleftrightarrow> p_name p = p_name q \<and> same_shape p q \<and> is_nullable (p_type p) = is_nullable (p_type q)"
  using pt_ext [of "p_type p" "p_type q"] by (auto simp: triple_def same_shape_def pt_eq_def)

text \<open>A file in which the whole target has been applied.\<close>

lemma applied:
  assumes U: "update_ok db oid g0 E T" and ac: "additive_compatible E T"
    and p: "progress db oid g0 T D g" and D: "\<forall>c. needed E T False c \<longrightarrow> c \<in> D"
    and t: "t \<in> set T"
  obtains ys where "sigs db oid g (o_name t) = Some ys" and "key_of db g (o_name t) = primary_key t"
    and "\<forall>q\<in>set (persisted_properties t). created q \<in> set ys"
    and "\<forall>n ty ob. Some (Some (n, ty, ob)) \<in> set ys \<longrightarrow>
      (\<forall>q\<in>set (persisted_properties t). p_name q = n \<longrightarrow> triple q = (n, ty, ob))"
proof -
  from U have g0: "unique_tables db g0" "schema_from_group oid (db_view db g0) = Some E"
    and T: "distinct (names T)" and ok: "storable oid t" "valid_class t"
    using t by (auto simp: update_ok_def)
  have ready: "tables_ready db oid g0 T D"
    unfolding tables_ready_def
  proof (intro ballI)
    fix u assume u: "u \<in> set T"
    then have "o_name u \<noteq> []" using U by (auto simp: update_ok_def storable_def)
    from class_in_file [OF g0 this] D u show "sigs db oid g0 (o_name u) \<noteq> None \<or> AddTable u \<in> D"
      by (auto simp: added_def)
  qed
  have w: "triple q = (n, ty, ob)" if "Some (Some (n, ty, ob)) \<in> wanted T (o_name t)"
    "q \<in> set (persisted_properties t)" "p_name q = n" for n ty ob q
  proof -
    from that(1) obtain u r where u: "u \<in> set T" "o_name u = o_name t" "r \<in> set (persisted_properties u)"
      "triple r = (n, ty, ob)" by (auto simp: wanted_def)
    then have "u = t" using T t unfolding names_def distinct_map inj_on_def by blast
    with u that ok(2) have "r = q"
      using distinct_propertiesD [of t r q] by (auto simp: valid_class_def all_properties_def triple_def)
    with u(4) show ?thesis by simp
  qed
  from ready_table [OF p ready, of "o_name t"] t obtain ys where ys: "sigs db oid g (o_name t) = Some ys"
    by (auto simp: names_def)
  show thesis
  proof (cases "sigs db oid g0 (o_name t)")
    case (Some xs)
    then have "o_name t \<in> set (names E)" using class_in_file [OF g0, of "o_name t"] ok(1) by (simp add: storable_def)
    then obtain e where e: "e \<in> set E" "o_name e = o_name t" by (auto simp: names_def)
    obtain cols where c: "sigs db oid g0 (o_name e) = Some (map (sig oid) cols)"
      "primary_key e = key_of db g0 (o_name e)" "computed_properties e = []"
      "triple ` set (persisted_properties e) = {x. Some (Some x) \<in> sig oid ` set cols}"
      by (rule file_class [OF g0 e(1)])
    then have xs: "xs = map (sig oid) cols" using Some e(2) by simp
    have pk: "primary_key e = primary_key t" using ac e t by (auto simp: additive_compatible_def)
    have old: "triple q = triple r" if "r \<in> set (persisted_properties e)" "q \<in> set (persisted_properties t)"
      "p_name q = p_name r" for q r
      using ac e t that by (auto simp: additive_compatible_def same_triple same_shape_def pt_eq_def)
    from progressD(2) [OF p Some] ys obtain zs where zs: "ys = xs @ zs" "set zs \<subseteq> wanted T (o_name t)" by auto
    show thesis
    proof (rule that [OF ys])
      show "key_of db g (o_name t) = primary_key t"
        using progressD(4) [OF p, of "o_name t"] Some pk c(2) e(2) by simp
    next
      show "\<forall>q\<in>set (persisted_properties t). created q \<in> set ys"
      proof
        fix q assume q: "q \<in> set (persisted_properties t)"
        show "created q \<in> set ys"
        proof (cases "\<exists>r\<in>set (persisted_properties e). p_name r = p_name q")
          case True
          then obtain r where "r \<in> set (persisted_properties e)" "triple r = triple q" using old [OF _ q] by metis
          then have "triple q \<in> triple ` set (persisted_properties e)" by (metis imageI)
          then show ?thesis using zs(1) xs by (simp add: c(4))
        next
          case False
          then have "differs e t (AddProperty e q)" using q c(3) by auto
          then have "needed E T False (AddProperty e q)"
            unfolding needed.simps using e t by (intro bexI [of _ e] bexI [of _ t]) simp_all
          from progressD(5) [OF p D [rule_format, OF this]] ys e(2) show ?thesis by simp
        qed
      qed
    next
      show "\<forall>n ty ob. Some (Some (n, ty, ob)) \<in> set ys \<longrightarrow>
          (\<forall>q\<in>set (persisted_properties t). p_name q = n \<longrightarrow> triple q = (n, ty, ob))"
      proof (intro allI impI ballI)
        fix n ty ob q
        assume a: "Some (Some (n, ty, ob)) \<in> set ys" and q: "q \<in> set (persisted_properties t)" "p_name q = n"
        show "triple q = (n, ty, ob)"
        proof (cases "Some (Some (n, ty, ob)) \<in> set xs")
          case True
          then have "(n, ty, ob) \<in> triple ` set (persisted_properties e)" by (simp add: c(4) xs)
          then obtain r where "r \<in> set (persisted_properties e)" "triple r = (n, ty, ob)" by auto
          then show ?thesis using old [of r q] q by (simp add: triple_def)
        next
          case False
          with a zs have "Some (Some (n, ty, ob)) \<in> wanted T (o_name t)" by auto
          from w [OF this q] show ?thesis .
        qed
      qed
    qed
  next
    case None
    then have "added E T t" using class_in_file [OF g0, of "o_name t"] ok(1) t by (auto simp: added_def storable_def)
    then have a: "AddTable t \<in> D" "AddInitialProperties t \<in> D" using D by simp_all
    note d = progressD(5) [OF p a(1)] progressD(5) [OF p a(2)]
    show thesis
    proof (rule that [OF ys])
      show "key_of db g (o_name t) = primary_key t" using d(1) by simp
      show "\<forall>q\<in>set (persisted_properties t). created q \<in> set ys" using d ys by auto
      show "\<forall>n ty ob. Some (Some (n, ty, ob)) \<in> set ys \<longrightarrow>
          (\<forall>q\<in>set (persisted_properties t). p_name q = n \<longrightarrow> triple q = (n, ty, ob))"
        using progressD(3) [OF p None ys] w by blast
    qed
  qed
qed

lemma additive_progress:
  assumes U: "update_ok db oid g E T"
  shows "\<exists>g'. apply_additive_changes db g (schema_compare E (make_schema T) False) upd = Some g' \<and>
    progress db oid g T (set (schema_compare E (make_schema T) False)) g' \<and>
    (\<forall>c. needed E T False c \<longrightarrow> c \<in> set (schema_compare E (make_schema T) False))"
proof -
  from U have g: "unique_tables db g" "schema_from_group oid (db_view db g) = Some E"
    by (simp_all add: update_ok_def)
  note E = schema_from_group_set(2,3) [OF g(1) [unfolded unique_tables_def] g(2)]
  have T: "distinct (names T)" "list_all distinct_properties T"
    using U by (auto simp: update_ok_def valid_class_def list_all_iff)
  obtain ns rest where cs: "schema_compare E (make_schema T) False = map AddTable ns @ rest"
    "\<forall>t\<in>set ns. added E T t" "distinct (names ns)" "\<forall>c\<in>set rest. needed E T False c \<and> \<not> is_table_change c"
    "\<forall>c. needed E T False c \<longrightarrow> c \<in> set (map AddTable ns @ rest)"
    by (rule added_classes [OF E(1) T E(2)])
  from tables_step [OF U progress_init [OF g(1)] cs(2,3)] obtain g1 where g1:
    "apply_all (apply_additive db upd) (map AddTable ns) g = Some g1" "progress db oid g T (AddTable ` set ns) g1"
    by auto
  have "tables_ready db oid g T (AddTable ` set ns)"
    unfolding tables_ready_def
  proof (intro ballI)
    fix t assume t: "t \<in> set T"
    then have "o_name t \<noteq> []" using U by (auto simp: update_ok_def storable_def)
    from class_in_file [OF g this] cs(4,5) t show "sigs db oid g (o_name t) \<noteq> None \<or> AddTable t \<in> AddTable ` set ns"
      by (auto simp: added_def dest!: spec [of _ "AddTable t"])
  qed
  from changes_step [OF U this cs(4) g1(2), of upd] obtain g2 where g2:
    "apply_all (apply_additive db upd) rest g1 = Some g2" "progress db oid g T (AddTable ` set ns \<union> set rest) g2" by blast
  show ?thesis
    using g1(1) g2 cs(1,5) by (auto simp: apply_additive_changes_def apply_all_append)
qed

text \<open>The updated file can be read.\<close>

lemma progress_readable:
  assumes U: "update_ok db oid g0 E T" and p: "progress db oid g0 T D g"
  obtains E' where "schema_from_group oid (db_view db g) = Some E'"
proof -
  from U have g0: "unique_tables db g0" "schema_from_group oid (db_view db g0) = Some E"
    by (simp_all add: update_ok_def)
  have old: "readable oid cols" if "c \<noteq> []" "tables_in db g0 (table_name_for_object_type c) = Some cols" for c cols
    using readable_file_iff [OF g0(1) [unfolded unique_tables_def], of oid] g0(2) that
    by (auto simp: schema_from_group_sig tables_in_def split: if_splits)
  have "readable oid cols" if c: "c \<noteq> []" "tables_in db g (table_name_for_object_type c) = Some cols" for c cols
  proof -
    have s: "sigs db oid g c = Some (map (sig oid) cols)" using c(2) by (simp add: sigs_def)
    have w: "None \<notin> wanted T c" by (auto simp: wanted_def)
    have "None \<notin> set (map (sig oid) cols)"
    proof (cases "sigs db oid g0 c")
      case None
      from progressD(3) [OF p None s] w show ?thesis by blast
    next
      case (Some xs)
      then obtain cols0 where "tables_in db g0 (table_name_for_object_type c) = Some cols0" "xs = map (sig oid) cols0"
        by (auto simp: sigs_def)
      with old [OF c(1)] have "None \<notin> set xs" by (force simp: readable_def)
      moreover obtain ys where "map (sig oid) cols = xs @ ys" "set ys \<subseteq> wanted T c"
        using progressD(2) [OF p Some] s by auto
      ultimately show ?thesis using w by (simp only: set_append) blast
    qed
    then show ?thesis by (force simp: readable_def)
  qed
  then have "readable_file oid (db_view db g)"
    using readable_file_iff [OF progressD(1) [OF p, unfolded unique_tables_def], of oid]
    by (auto simp: tables_in_def)
  then show thesis by (intro that) (simp add: schema_from_group_sig)
qed

lemma progress_keeps:
  assumes U: "update_ok db oid g0 E T" and p: "progress db oid g0 T D g"
    and E': "schema_from_group oid (db_view db g) = Some E'"
  shows "keeps E E'"
  unfolding keeps_def
proof (intro ballI)
  fix e assume e: "e \<in> set E"
  from U have g0: "unique_tables db g0" "schema_from_group oid (db_view db g0) = Some E"
    by (simp_all add: update_ok_def)
  note g = progressD(1) [OF p]
  let ?col = "\<lambda>p. (table_column p, triple p)"
  obtain cols0 where c0: "sigs db oid g0 (o_name e) = Some (map (sig oid) cols0)" "o_name e \<noteq> []"
    "primary_key e = key_of db g0 (o_name e)"
    "?col ` set (persisted_properties e) = {(i, x). i < length cols0 \<and> sig oid (cols0 ! i) = Some (Some x)}"
    by (rule file_class [OF g0 e])
  from progressD(2) [OF p c0(1)] obtain ys where
    ys: "sigs db oid g (o_name e) = Some (map (sig oid) cols0 @ ys)" by blast
  then have "o_name e \<in> set (names E')" using class_in_file [OF g E' c0(2)] by simp
  then obtain e' where e': "e' \<in> set E'" "o_name e' = o_name e" by (auto simp: names_def)
  obtain cols where c: "sigs db oid g (o_name e') = Some (map (sig oid) cols)"
    "primary_key e' = key_of db g (o_name e')"
    "?col ` set (persisted_properties e') = {(i, x). i < length cols \<and> sig oid (cols ! i) = Some (Some x)}"
    by (rule file_class [OF g E' e'(1)])
  have m: "map (sig oid) cols = map (sig oid) cols0 @ ys" using ys c(1) e'(2) by simp
  have "i < length cols \<and> sig oid (cols ! i) = sig oid (cols0 ! i)" if "i < length cols0" for i
  proof -
    have l: "length cols = length cols0 + length ys" using arg_cong [OF m, of length] by simp
    with that have "sig oid (cols ! i) = (map (sig oid) cols0 @ ys) ! i" by (metis m nth_map trans_less_add1)
    with that l show ?thesis by (simp add: nth_append)
  qed
  then have "?col ` set (persisted_properties e) \<subseteq> ?col ` set (persisted_properties e')"
    unfolding c0(4) c(3) by auto
  moreover have "primary_key e' = primary_key e"
    using progressD(4) [OF p, of "o_name e"] c0(1,3) c(2) e'(2) by simp
  ultimately show "\<exists>e'\<in>set E'. o_name e' = o_name e \<and> primary_key e' = primary_key e \<and>
      ?col ` set (persisted_properties e) \<subseteq> ?col ` set (persisted_properties e')"
    using e' by blast
qed

text \<open>C23: when a file is updated to a valid schema in the additive mode, all the changes of the
  comparison can be applied, the file can be read again, every class and column of it is still
  there with its name, type and place, and comparing it with the schema again finds nothing
  to do but indexes and columns that are not asked for. The hypotheses are the documented
  behaviour of the storage engine, and that the schemas are compatible.\<close>

theorem additive_update:
  assumes "update_ok db oid g E T" and "additive_compatible E T"
  shows "\<exists>g' E'. apply_additive_changes db g (schema_compare E (make_schema T) False) update_indexes = Some g' \<and>
    schema_from_group oid (db_view db g') = Some E' \<and> keeps E E' \<and>
    list_all harmless (schema_compare E' (make_schema T) False)"
proof -
  let ?cs = "schema_compare E (make_schema T) False"
  from assms(1) have g: "unique_tables db g" "schema_from_group oid (db_view db g) = Some E"
    by (simp_all add: update_ok_def)
  obtain g' where g': "apply_additive_changes db g ?cs update_indexes = Some g'"
    "progress db oid g T (set ?cs) g'" "\<forall>c. needed E T False c \<longrightarrow> c \<in> set ?cs"
    using additive_progress [OF assms(1)] by blast
  note a = applied [OF assms g'(2,3)]
  note p = progressD(1) [OF g'(2)]
  obtain E' where E': "schema_from_group oid (db_view db g') = Some E'"
    by (rule progress_readable [OF assms(1) g'(2)])
  note E'_ok = schema_from_group_set(2,3) [OF p [unfolded unique_tables_def] E']
  have T: "distinct (names T)" "list_all distinct_properties T"
    using assms(1) by (auto simp: update_ok_def valid_class_def list_all_iff)
  have pair: "harmless c" if e': "e' \<in> set E'" "t \<in> set T" "o_name t = o_name e'" "differs e' t c" for e' t c
  proof -
    obtain ys where ys: "sigs db oid g' (o_name t) = Some ys" "key_of db g' (o_name t) = primary_key t"
      "\<forall>q\<in>set (persisted_properties t). created q \<in> set ys"
      "\<forall>n ty ob. Some (Some (n, ty, ob)) \<in> set ys \<longrightarrow>
        (\<forall>q\<in>set (persisted_properties t). p_name q = n \<longrightarrow> triple q = (n, ty, ob))"
      by (rule a [OF e'(2)])
    obtain cols where c: "sigs db oid g' (o_name e') = Some (map (sig oid) cols)"
      "primary_key e' = key_of db g' (o_name e')"
      "triple ` set (persisted_properties e') = {x. Some (Some x) \<in> sig oid ` set cols}"
      by (rule file_class [OF p E' e'(1)])
    have ts: "triple ` set (persisted_properties e') = {x. Some (Some x) \<in> set ys}"
    proof -
      have "ys = map (sig oid) cols" using c(1) ys(1) e'(3) by simp
      then show ?thesis unfolding c(3) by simp
    qed
    have same: "triple p = triple q" if "p \<in> set (persisted_properties e')" "q \<in> set (persisted_properties t)"
      "p_name q = p_name p" for p q
    proof -
      have "triple p \<in> {x. Some (Some x) \<in> set ys}" unfolding ts [symmetric] using that(1) by (rule imageI)
      with ys(4) that show ?thesis by (simp add: triple_def)
    qed
    have there: "\<exists>p\<in>set (persisted_properties e'). p_name p = p_name q" if "q \<in> set (persisted_properties t)" for q
    proof -
      have "triple q \<in> triple ` set (persisted_properties e')" unfolding ts using ys(3) that by simp
      then show ?thesis by (auto simp: triple_def)
    qed
    show ?thesis
      using e'(3,4) same there c(2) ys(2) by (cases c) (auto simp: same_triple)
  qed
  have "harmless c" if n: "needed E' T False c" for c
  proof (cases "is_table_change c \<or> (\<exists>t. c = AddInitialProperties t)")
    case True
    with n obtain t where t: "added E' T t" by (cases c) auto
    then have "t \<in> set T" by (simp add: added_def)
    then obtain ys where "sigs db oid g' (o_name t) = Some ys" by (rule a)
    moreover have "o_name t \<noteq> []" using assms(1) t by (auto simp: update_ok_def storable_def added_def)
    ultimately show ?thesis using class_in_file [OF p E', of "o_name t"] t by (simp add: added_def)
  next
    case False
    then show ?thesis using needed_pair [OF n] pair by metis
  qed
  then have "list_all harmless (schema_compare E' (make_schema T) False)"
    using compare_to_target [OF E'_ok(1) T E'_ok(2)] by (simp add: list_all_iff)
  with g'(1) E' progress_keeps [OF assms(1) g'(2) E'] show ?thesis by blast
qed

definition sample_file :: group where
  "sample_file = \<lparr>g_tables = [(table_name_for_object_type (lit ''dog''),
     [Core_Column (lit ''age'') type_Int False False [] []])], g_primary_keys = None\<rparr>"

definition sample_dog :: object_schema where
  "sample_dog = new_object_schema (lit ''dog'')
     [(value_property (lit ''age'') PT_Int False False [])\<lparr>table_column := 0\<rparr>] []"

definition sample_target :: "object_schema list" where
  "sample_target =
    [new_object_schema (lit ''dog'') [value_property (lit ''age'') PT_Int False False [],
       link_property (lit ''owner'') (PT_Object OR PT_Nullable) (lit ''person'') [] []] [],
     new_object_schema (lit ''person'') [value_property (lit ''id'') PT_Int True False []] []]"

lemma sample_core:
  "to_core_type PT_Int = Some type_Int" "to_core_type (PT_Object OR PT_Nullable) = None"
  "PT_Int OR PT_Required = PT_Int"
  by code_simp+

lemma sample_read: "schema_from_group (lit ''!OID'') sample_file = Some [sample_dog]"
  by (simp add: schema_from_group_sig readable_file_def readable_def read_class_def sample_file_def
      sample_dog_def sig_def sample_core make_schema_def std_sort_def class_of_def prop_at_def
      set_primary_key_property_def get_primary_key_for_object_def new_defs sample_flags lit_def
      update_property_def)

lemma sample_update_ok:
  "update_ok (memory_engine (lit ''!OID'')) (lit ''!OID'') sample_file [sample_dog] sample_target"
proof -
  have "list_all (\<lambda>t. storable (lit ''!OID'') t \<and> valid_class t) sample_target"
    by (simp add: sample_target_def storable_def valid_class_def new_defs all_properties_def
        creatable_def valid_column_def is_link_def sample_flags more_flags sample_core requires_index_def
        type_is_indexable_def distinct_properties_def lit_def table_name_for_object_type_def
        c_object_table_prefix_def)
  moreover have "distinct (names sample_target)"
    by (simp add: sample_target_def names_def new_defs lit_def)
  moreover have "is_link q \<longrightarrow> object_type q \<in> set (names sample_target)"
    if "t \<in> set sample_target" "q \<in> set (persisted_properties t)" for t q
    using that by (auto simp: sample_target_def names_def new_defs is_link_def sample_flags)
  ultimately show ?thesis
    unfolding update_ok_def
    using memory_engine_ok sample_read
    by (auto simp: list_all_iff unique_tables_def memory_engine_def key_of_def sample_file_def
        get_primary_key_for_object_def)
qed

theorem additive_update_witness:
  "\<exists>g' E'. apply_additive_changes (memory_engine (lit ''!OID'')) sample_file
      (schema_compare [sample_dog] (make_schema sample_target) False) True = Some g' \<and>
    schema_from_group (lit ''!OID'') g' = Some E' \<and> keeps [sample_dog] E' \<and>
    list_all harmless (schema_compare E' (make_schema sample_target) False)"
proof -
  have "additive_compatible [sample_dog] sample_target"
    by (simp add: additive_compatible_def sample_dog_def sample_target_def new_defs same_shape_def pt_eq_def lit_def)
  from additive_update [OF sample_update_ok this, of True] show ?thesis
    by (simp add: memory_engine_def)
qed

subsection \<open>Modes\<close>

fun table_or_index_change :: "schema_change \<Rightarrow> bool" where
  "table_or_index_change (AddTable t) = True"
| "table_or_index_change (RemoveTable t) = True"
| "table_or_index_change (AddInitialProperties t) = True"
| "table_or_index_change (AddIndex t p) = True"
| "table_or_index_change (RemoveIndex t p) = True"
| "table_or_index_change c = False"

lemma explain_migration_silent: "explain_migration c = [] \<longleftrightarrow> table_or_index_change c"
  by (cases c) (auto split: option.splits)

text \<open>C21: for schemas with distinct names, this is exactly what the modes that may write accept. The automatic mode needs a version that does not decrease, and when the
  version stays the same the changes are applied if there are none but new classes and indexes, and
  refused otherwise; the additive mode needs the same types, nullability and primary keys of what both
  have, at any version, and ignores columns that only the file has;
  the manual mode a new version for every change; and the mode that resets the file accepts
  everything. A refusal is an exception, never the branch that the code declares unreachable.\<close>

theorem mode_accepts:
  assumes "distinct (names E)" and "distinct (names T)" and "list_all distinct_properties T"
    and "mode \<noteq> Immutable" and "mode \<noteq> ReadOnlyAlternative"
  shows "let changes = schema_compare (make_schema E) (make_schema T) False;
      result = schema_change_needs_write_transaction mode old changes new
    in result \<noteq> None \<and> ((\<exists>d. result = Some (Inr d)) \<longleftrightarrow> accepted mode old new E T) \<and>
      (mode = Automatic \<and> new = old \<and> apply_non_migration_changes db g changes = Some r \<longrightarrow>
        ((\<exists>g'. r = Inr g') \<longleftrightarrow> (\<forall>c. needed E T False c \<longrightarrow> table_or_index_change c)))"
proof -
  let ?cs = "schema_compare (make_schema E) (make_schema T) False"
  have "verify_no_errors Schema_Mismatch explain_migration ?cs = Inr () \<longleftrightarrow>
      (\<forall>c. needed E T False c \<longrightarrow> table_or_index_change c)"
    using schema_compare_changes [OF assms(1-3)] by (auto simp: verify_no_errors_ok explain_migration_silent)
  then have "(\<exists>g'. r = Inr g') \<longleftrightarrow> (\<forall>c. needed E T False c \<longrightarrow> table_or_index_change c)"
    if "apply_non_migration_changes db g ?cs = Some r"
    using that by (auto simp: apply_non_migration_changes_def split: option.splits sum.splits)
  then show ?thesis using mode_decision [OF assms(1-3), of mode old new] by (simp add: Let_def)
qed

theorem mode_accepts_witness:
  "\<not> accepted Additive 1 2 sample_required sample_optional \<and>
   (\<exists>e. schema_change_needs_write_transaction Additive 1
      (schema_compare (make_schema sample_required) (make_schema sample_optional) False) 2 = Some (Inl e)) \<and>
   (\<exists>d. schema_change_needs_write_transaction Automatic 1
      (schema_compare (make_schema sample_required) (make_schema sample_optional) False) 2 = Some (Inr d))"
proof -
  have no: "\<not> accepted Additive 1 2 sample_required sample_optional"
    by (simp add: accepted_def additive_compatible_def sample_required_def sample_optional_def new_defs
        sample_flags more_flags)
  moreover have "accepted Automatic 1 2 sample_required sample_optional" by (simp add: accepted_def)
  moreover have either: "x \<noteq> None \<Longrightarrow> \<not> (\<exists>d. x = Some (Inr d)) \<Longrightarrow> \<exists>e. x = Some (Inl e)"
    for x :: "(schema_exception + decision) option"
    by (cases x; cases "the x") auto
  note accepts = mode_accepts [OF sample_distinct(1,2,4), where old = 1 and new = 2, unfolded Let_def]
  have "\<exists>e. schema_change_needs_write_transaction Additive 1
      (schema_compare (make_schema sample_required) (make_schema sample_optional) False) 2 = Some (Inl e)"
    by (rule either) (use accepts [of Additive] no in simp_all)
  ultimately show ?thesis using accepts [of Automatic] by simp
qed


end
