(* ===== verification/Sync_Config.thy ===== *)
theory Sync_Config
  imports Prelude
begin

section \<open>Errors and configuration of a synchronisation session\<close>

text \<open>
  The values that a synchronisation session is told: the error codes of the server and of the
  client library with the classification of \<open>include/sync/sync_config.hpp\<close>, and the
  configuration a session is created with. \<open>std::error_code\<close> is a category and a number; the
  numbers that the two enumerations name are constructors, any other number is
  \<open>PE_unlisted\<close> or \<open>CE_unlisted\<close>. Callbacks and handles of other libraries are numbers.
\<close>

subsection \<open>Error codes\<close>

datatype protocol_error =
    PE_connection_closed | PE_other_error | PE_unknown_message | PE_bad_syntax
  | PE_limits_exceeded | PE_wrong_protocol_version | PE_bad_session_ident
  | PE_reuse_of_session_ident | PE_bound_in_other_session | PE_bad_message_order
  | PE_bad_decompression | PE_bad_changeset_header_syntax | PE_bad_changeset_size
  | PE_bad_changesets
  | PE_session_closed | PE_other_session_error | PE_token_expired | PE_bad_authentication
  | PE_illegal_realm_path | PE_no_such_realm | PE_permission_denied
  | PE_bad_server_file_ident | PE_bad_client_file_ident | PE_bad_server_version
  | PE_bad_client_version | PE_diverging_histories | PE_bad_changeset
  | PE_disabled_session | PE_partial_sync_disabled | PE_unsupported_session_feature
  | PE_bad_origin_file_ident | PE_bad_client_file | PE_server_file_deleted
  | PE_client_file_blacklisted | PE_user_blacklisted | PE_transact_before_upload
  | PE_client_file_expired
  | PE_unlisted int

datatype client_error =
    CE_connection_closed | CE_unknown_message | CE_bad_syntax | CE_limits_exceeded
  | CE_bad_session_ident | CE_bad_message_order | CE_bad_client_file_ident | CE_bad_progress
  | CE_bad_changeset_header_syntax | CE_bad_changeset_size | CE_bad_origin_file_ident
  | CE_bad_server_version | CE_bad_changeset | CE_bad_request_ident | CE_bad_error_code
  | CE_bad_compression | CE_bad_client_version | CE_ssl_server_cert_rejected
  | CE_pong_timeout | CE_bad_client_file_ident_salt | CE_bad_file_ident | CE_connect_timeout
  | CE_bad_timestamp | CE_bad_protocol_from_server | CE_client_too_old_for_server
  | CE_client_too_new_for_server | CE_protocol_mismatch | CE_bad_state_message
  | CE_missing_protocol_feature | CE_bad_serial_transact_status
  | CE_bad_object_id_substitutions | CE_http_tunnel_failed
  | CE_unlisted int

text \<open>\<open>Success\<close> is \<open>std::error_code{}\<close>; \<open>Aborted\<close> is \<open>util::error::operation_aborted\<close>, which
  belongs to neither of the two categories above, like any \<open>Other_code\<close>.\<close>

datatype error_code =
    Success | Aborted
  | Protocol_code protocol_error
  | Client_code client_error
  | Other_code int

record sync_error =
  error_code :: error_code
  message :: string
  is_fatal :: bool
  user_info :: "(string \<times> string) list"
  is_unrecognized_by_client :: bool

definition c_original_file_path_key :: string where
  "c_original_file_path_key = ''ORIGINAL_FILE_PATH''"

definition c_recovery_file_path_key :: string where
  "c_recovery_file_path_key = ''RECOVERY_FILE_PATH''"

definition make_sync_error :: "error_code \<Rightarrow> string \<Rightarrow> bool \<Rightarrow> sync_error" where
  "make_sync_error code msg fatal =
     \<lparr>error_code = code, message = msg, is_fatal = fatal, user_info = [],
      is_unrecognized_by_client = False\<rparr>"

text \<open>The numbers of the enumeration, as far as the classification needs them.\<close>

definition protocol_error_value :: "protocol_error \<Rightarrow> int" where
  "protocol_error_value e = (case e of
       PE_connection_closed \<Rightarrow> 100 | PE_other_error \<Rightarrow> 101 | PE_unknown_message \<Rightarrow> 102
     | PE_bad_syntax \<Rightarrow> 103 | PE_limits_exceeded \<Rightarrow> 104 | PE_wrong_protocol_version \<Rightarrow> 105
     | PE_bad_session_ident \<Rightarrow> 106 | PE_reuse_of_session_ident \<Rightarrow> 107
     | PE_bound_in_other_session \<Rightarrow> 108 | PE_bad_message_order \<Rightarrow> 109
     | PE_bad_decompression \<Rightarrow> 110 | PE_bad_changeset_header_syntax \<Rightarrow> 111
     | PE_bad_changeset_size \<Rightarrow> 112 | PE_bad_changesets \<Rightarrow> 113
     | PE_session_closed \<Rightarrow> 200 | PE_other_session_error \<Rightarrow> 201 | PE_token_expired \<Rightarrow> 202
     | PE_bad_authentication \<Rightarrow> 203 | PE_illegal_realm_path \<Rightarrow> 204 | PE_no_such_realm \<Rightarrow> 205
     | PE_permission_denied \<Rightarrow> 206 | PE_bad_server_file_ident \<Rightarrow> 207
     | PE_bad_client_file_ident \<Rightarrow> 208 | PE_bad_server_version \<Rightarrow> 209
     | PE_bad_client_version \<Rightarrow> 210 | PE_diverging_histories \<Rightarrow> 211
     | PE_bad_changeset \<Rightarrow> 212 | PE_disabled_session \<Rightarrow> 213
     | PE_partial_sync_disabled \<Rightarrow> 214 | PE_unsupported_session_feature \<Rightarrow> 215
     | PE_bad_origin_file_ident \<Rightarrow> 216 | PE_bad_client_file \<Rightarrow> 217
     | PE_server_file_deleted \<Rightarrow> 218 | PE_client_file_blacklisted \<Rightarrow> 219
     | PE_user_blacklisted \<Rightarrow> 220 | PE_transact_before_upload \<Rightarrow> 221
     | PE_client_file_expired \<Rightarrow> 222
     | PE_unlisted n \<Rightarrow> n)"

definition is_session_level_error :: "protocol_error \<Rightarrow> bool" where
  "is_session_level_error e \<longleftrightarrow> 200 \<le> protocol_error_value e \<and> protocol_error_value e \<le> 299"

definition is_client_error :: "sync_error \<Rightarrow> bool" where
  "is_client_error e = (case error_code e of Client_code _ \<Rightarrow> True | _ \<Rightarrow> False)"

definition is_connection_level_protocol_error :: "sync_error \<Rightarrow> bool" where
  "is_connection_level_protocol_error e =
     (case error_code e of Protocol_code p \<Rightarrow> \<not> is_session_level_error p | _ \<Rightarrow> False)"

definition is_session_level_protocol_error :: "sync_error \<Rightarrow> bool" where
  "is_session_level_protocol_error e =
     (case error_code e of Protocol_code p \<Rightarrow> is_session_level_error p | _ \<Rightarrow> False)"

definition is_client_reset_requested :: "sync_error \<Rightarrow> bool" where
  "is_client_reset_requested e = (case error_code e of
       Protocol_code p \<Rightarrow>
         p = PE_bad_server_file_ident \<or> p = PE_bad_client_file_ident \<or>
         p = PE_bad_server_version \<or> p = PE_diverging_histories \<or> p = PE_client_file_expired
     | _ \<Rightarrow> False)"

subsection \<open>Configuration\<close>

datatype stop_policy = Immediately | Live_Indefinitely | After_Changes_Uploaded

datatype resync_mode = Recover | Discard_Local | Manual

record sync_config =
  config_user :: "nat option"
  reference_realm_url :: string
  stop_policy :: stop_policy
  error_handler :: bool
  transformer :: "nat option"
  realm_encryption_key :: "nat list option"
  client_validate_ssl :: bool
  ssl_trust_certificate_path :: "string option"
  ssl_verify_callback :: "nat option"
  proxy_config :: "nat option"
  is_partial :: bool
  custom_partial_sync_identifier :: "string option"
  cancel_waits_on_nonfatal_error :: bool
  config_authorization_header :: "string option"
  config_http_headers :: "(string \<times> string) list"
  config_url_prefix :: "string option"
  recovery_directory :: "string option"
  client_resync_mode :: resync_mode

text \<open>
  The address a session synchronises with. \<open>identity\<close> and \<open>partial_sync_identifier\<close> are what the
  user and the digest of the client library give; \<open>base_url.back()\<close> is the last character
  of a string that is not empty, as the assertion at the start of the method demands.
\<close>

definition realm_url ::
  "(nat option \<Rightarrow> string) \<Rightarrow> (nat option \<Rightarrow> string) \<Rightarrow> sync_config \<Rightarrow> string" where
  "realm_url identity partial_sync_identifier c =
     (if \<not> is_partial c then reference_realm_url c
      else
        let base_url = reference_realm_url c;
            base_url = (if last base_url = CHR ''/'' then butlast base_url else base_url)
        in (case custom_partial_sync_identifier c of
              Some i \<Rightarrow> base_url @ ''/__partial/'' @ i
            | None \<Rightarrow> base_url @ ''/__partial/'' @ identity (config_user c) @ ''/''
                        @ partial_sync_identifier (config_user c)))"

subsection \<open>Configuration of a session of the client library\<close>

record client_reset =
  metadata_dir :: string
  recover_local_changes :: bool

record client_config =
  changeset_cooker :: "nat option"
  encryption_key :: "nat list option"
  verify_servers_ssl_certificate :: bool
  client_trust_certificate_path :: "string option"
  client_ssl_verify_callback :: "nat option"
  client_proxy_config :: "nat option"
  multiplex_ident :: string
  authorization_header_name :: string
  custom_http_headers :: "(string \<times> string) list"
  url_prefix :: string
  client_reset_config :: "client_reset option"

text \<open>The first part of \<open>create_sync_session\<close>: everything the session passes on. Without a header
  name or a prefix of its own the defaults of the client library stay.\<close>

definition make_client_config ::
  "string \<Rightarrow> string \<Rightarrow> bool \<Rightarrow> sync_config \<Rightarrow> client_config" where
  "make_client_config realm_path multiplex_identity force_client_resync c =
     \<lparr>changeset_cooker = transformer c,
      encryption_key = realm_encryption_key c,
      verify_servers_ssl_certificate = client_validate_ssl c,
      client_trust_certificate_path = ssl_trust_certificate_path c,
      client_ssl_verify_callback = ssl_verify_callback c,
      client_proxy_config = proxy_config c,
      multiplex_ident = multiplex_identity,
      authorization_header_name =
        (case config_authorization_header c of Some n \<Rightarrow> n | None \<Rightarrow> ''Authorization''),
      custom_http_headers = config_http_headers c,
      url_prefix = (case config_url_prefix c of Some p \<Rightarrow> p | None \<Rightarrow> ''/realm-sync''),
      client_reset_config =
        (if force_client_resync
         then Some \<lparr>metadata_dir = realm_path @ ''.resync'',
                    recover_local_changes = (client_resync_mode c = Recover)\<rparr>
         else None)\<rparr>"

end
