(* ===== verification/Sync_Session.thy ===== *)
theory Sync_Session
  imports Sync_Config "HOL-Library.Multiset"
begin

section \<open>The synchronisation session\<close>

text \<open>
  \<open>SyncSession\<close> (\<open>include/sync/sync_session.hpp\<close>, \<open>ObjectStore/sync/sync_session.cpp\<close>) drives one
  session of the client library for one Realm file. Its methods run on many threads; a lock
  guards the fields, and the code releases it before it calls anything back. So a method is a
  sequence of sections, each of which runs while the lock is held, and between two of them
  any other method may run.

  A section is a function from the fields to \<open>(fields, events, rest)\<close>: the events are what the
  section does to the outside while it runs, and the rest is what the same thread does
  after the lock is released. \<open>None\<close> is a call through a null pointer or the value of an empty
  \<open>Optional\<close>. The end of the theory puts threads together: a world has the fields, the
  threads with their remaining actions, the waits that the client library still has to
  complete, and the events so far.

  A completion handler of the application is a number. The weak pointers to the session in the
  callbacks of the client library are taken to be alive: a callback that finds its session
  destroyed does nothing.
\<close>

subsection \<open>Data\<close>

datatype session_state = Waiting_For_Access_Token | Active | Dying | Inactive

datatype connection_state = Disconnected | Connecting | Connected

datatype direction = Upload | Download

text \<open>What the client library is asked to call when a wait is over: the handler made by
  \<open>add_completion_callback\<close> with the counter it captured, and the one made on entering the state
  dying.\<close>

datatype wait_handler = Completion int direction | Death nat

datatype client_call =
    Make_Session client_config
  | Bind string string
  | Refresh string
  | Cancel_Reconnect_Delay
  | Override_Server string int
  | Nonsync_Transact_Notify int
  | Async_Wait direction wait_handler

datatype event =
    Client nat client_call
  | Entered session_state
  | Requested direction nat
  | Called nat error_code
  | Connection_Changed connection_state connection_state
  | Unregister_Session
  | Bind_Session_Handler
  | Make_Directory string
  | Local_Version int
  | Mark_File nat "string option"
  | Invalidate_User nat
  | Error_Handler sync_error

text \<open>\<open>m_client\<close> counts the sessions that the client library made for this object, so that the
  next one has a number of its own. \<open>m_external_reference\<close> tells whether the weak pointer still has
  an object.\<close>

record session =
  m_state :: session_state
  m_connection_state :: connection_state
  m_death_count :: nat
  m_config :: sync_config
  m_force_client_resync :: bool
  m_realm_path :: string
  m_client :: nat
  m_download_completion_callbacks :: "nat list"
  m_upload_completion_callbacks :: "nat list"
  m_client_resync_counter :: int
  m_server_override :: "(string \<times> int) option"
  m_session :: "nat option"
  m_session_has_been_bound :: bool
  m_deferred_commit_notification :: "int option"
  m_deferred_close :: bool
  m_server_url :: "string option"
  m_multiplex_identity :: string
  m_external_reference :: bool

text \<open>\<open>m_session_has_been_bound\<close> has no initial value in the code, so it is an argument.\<close>

definition new_session :: "string \<Rightarrow> sync_config \<Rightarrow> bool \<Rightarrow> bool \<Rightarrow> session" where
  "new_session path c force_resync unset_bound =
     \<lparr>m_state = Inactive, m_connection_state = Disconnected, m_death_count = 0, m_config = c,
      m_force_client_resync = force_resync, m_realm_path = path, m_client = 0,
      m_download_completion_callbacks = [], m_upload_completion_callbacks = [],
      m_client_resync_counter = 0, m_server_override = None, m_session = None,
      m_session_has_been_bound = unset_bound, m_deferred_commit_notification = None,
      m_deferred_close = False, m_server_url = None, m_multiplex_identity = [],
      m_external_reference = False\<rparr>"

text \<open>What a thread has left to do. The first group are the sections in the middle of a method,
  the second the methods that others call, the third the callbacks that the client library
  calls.\<close>

datatype next_state = Next_None | Next_Inactive | Next_Error

datatype action =
    Call_Waiter nat error_code
  | Notify_Connection connection_state
  | Notify_Change connection_state connection_state
  | Do_Unregister
  | Call_Bind_Handler
  | Restore_Handlers "nat list" "nat list"
  | Handle_Error_Code sync_error
  | Resync
  | Access_Token_Expired
  | Bad_Authentication error_code
  | Cancel_Waits error_code
  | Do_Invalidate nat
  | Mark_For_Deletion sync_error bool
  | Finish_Error next_state sync_error
  | Move_Inactive
  | Report_Error sync_error
  | Did_Drop_External_Reference

  | Refresh_Access_Token string "string option"
  | Notify_Commit int
  | Revive_If_Needed
  | Handle_Reconnect
  | Log_Out
  | Close
  | Wait_For_Completion direction nat
  | Set_Server_Override string int
  | Update_Configuration sync_config
  | External_Reference
  | Drop_External_Reference
  | Set_Multiplex_Identifier string
  | Set_Url_Prefix string

  | Wait_Completed wait_handler error_code
  | Connection_State_Change connection_state "sync_error option"
  | Handle_Error sync_error

type_synonym locked = "(session \<times> event list \<times> action list) option"

subsection \<open>Sections\<close>

definition ok :: "session \<Rightarrow> locked" where
  "ok s = Some (s, [], [])"

definition andthen :: "locked \<Rightarrow> (session \<Rightarrow> locked) \<Rightarrow> locked" where
  "andthen x f = (case x of None \<Rightarrow> None
     | Some (s, es, as) \<Rightarrow> (case f s of None \<Rightarrow> None
         | Some (s', es', as') \<Rightarrow> Some (s', es @ es', as @ as')))"

primrec run :: "(session \<Rightarrow> locked) list \<Rightarrow> session \<Rightarrow> locked" where
  "run [] s = ok s"
| "run (f # fs) s = andthen (f s) (run fs)"

text \<open>A call of a method of \<open>m_session\<close>.\<close>

definition call_client :: "client_call \<Rightarrow> session \<Rightarrow> locked" where
  "call_client c s = (case m_session s of None \<Rightarrow> None | Some i \<Rightarrow> Some (s, [Client i c], []))"

definition add_completion_callback :: "direction \<Rightarrow> session \<Rightarrow> locked" where
  "add_completion_callback d s =
     call_client (Async_Wait d (Completion (m_client_resync_counter s) d)) s"

definition completion_callbacks :: "direction \<Rightarrow> session \<Rightarrow> nat list" where
  "completion_callbacks d s =
     (case d of Download \<Rightarrow> m_download_completion_callbacks s
              | Upload \<Rightarrow> m_upload_completion_callbacks s)"

definition set_completion_callbacks :: "direction \<Rightarrow> nat list \<Rightarrow> session \<Rightarrow> session" where
  "set_completion_callbacks d cbs s =
     (case d of Download \<Rightarrow> s\<lparr>m_download_completion_callbacks := cbs\<rparr>
              | Upload \<Rightarrow> s\<lparr>m_upload_completion_callbacks := cbs\<rparr>)"

definition call_waiters :: "error_code \<Rightarrow> nat list \<Rightarrow> action list" where
  "call_waiters ec cbs = map (\<lambda>cb. Call_Waiter cb ec) cbs"

definition clear_waiters :: "session \<Rightarrow> session" where
  "clear_waiters s =
     s\<lparr>m_download_completion_callbacks := [], m_upload_completion_callbacks := []\<rparr>"

definition cancel_pending_waits :: "error_code \<Rightarrow> session \<Rightarrow> locked" where
  "cancel_pending_waits ec s =
     Some (clear_waiters s, [],
       call_waiters ec (m_download_completion_callbacks s)
       @ call_waiters ec (m_upload_completion_callbacks s))"

subsection \<open>Entering a state\<close>

text \<open>The state inactive destroys the client session and lets go of the lock, so what comes after
  that is left to the thread.\<close>

definition enter_inactive :: "session \<Rightarrow> locked" where
  "enter_inactive s =
     (let old_state = m_connection_state s;
          s' = (clear_waiters s)\<lparr>m_connection_state := Disconnected, m_session := None\<rparr>
      in Some (s', [],
           Do_Unregister
           # (if old_state \<noteq> Disconnected then [Notify_Connection old_state] else [])
           @ call_waiters Aborted (m_download_completion_callbacks s)
           @ call_waiters Aborted (m_upload_completion_callbacks s)))"

definition advance_inactive :: "session \<Rightarrow> locked" where
  "advance_inactive s =
     andthen (Some (s\<lparr>m_state := Inactive\<rparr>, [Entered Inactive], [])) enter_inactive"

definition enter_dying :: "session \<Rightarrow> locked" where
  "enter_dying s =
     (if m_session s = None then advance_inactive s
      else
        let s = s\<lparr>m_death_count := Suc (m_death_count s)\<rparr>
        in call_client (Async_Wait Upload (Death (m_death_count s))) s)"

definition enter_active :: "session \<Rightarrow> locked" where
  "enter_active s =
     run [\<lambda>s. if m_upload_completion_callbacks s \<noteq> [] then add_completion_callback Upload s
              else ok s,
          \<lambda>s. if m_download_completion_callbacks s \<noteq> [] then add_completion_callback Download s
              else ok s] s"

definition enter_waiting :: "session \<Rightarrow> locked" where
  "enter_waiting s = ok (s\<lparr>m_deferred_close := False\<rparr>)"

definition advance_state :: "session_state \<Rightarrow> session \<Rightarrow> locked" where
  "advance_state st s =
     andthen (Some (s\<lparr>m_state := st\<rparr>, [Entered st], []))
       (case st of Waiting_For_Access_Token \<Rightarrow> enter_waiting | Active \<Rightarrow> enter_active
          | Dying \<Rightarrow> enter_dying | Inactive \<Rightarrow> enter_inactive)"

subsection \<open>Operations of the states\<close>

definition create_sync_session :: "session \<Rightarrow> locked" where
  "create_sync_session s = (case m_session s of Some _ \<Rightarrow> ok s
     | None \<Rightarrow>
         let c = make_client_config (m_realm_path s) (m_multiplex_identity s)
                   (m_force_client_resync s) (m_config s);
             i = m_client s
         in Some (s\<lparr>m_session := Some i, m_client := Suc i, m_session_has_been_bound := False\<rparr>,
              (if m_force_client_resync s then [Make_Directory (m_realm_path s @ ''.resync'')]
               else []) @ [Client i (Make_Session c)], []))"

definition waiting_close :: "session \<Rightarrow> locked" where
  "waiting_close s = (case stop_policy (m_config s) of
       Immediately \<Rightarrow> advance_state Inactive s
     | Live_Indefinitely \<Rightarrow> ok (s\<lparr>m_deferred_close := True\<rparr>)
     | After_Changes_Uploaded \<Rightarrow> ok (s\<lparr>m_deferred_close := True\<rparr>))"

definition active_close :: "session \<Rightarrow> locked" where
  "active_close s = (case stop_policy (m_config s) of
       Immediately \<Rightarrow> advance_state Inactive s
     | Live_Indefinitely \<Rightarrow> ok s
     | After_Changes_Uploaded \<Rightarrow> advance_state Dying s)"

definition inactive_close :: "session \<Rightarrow> locked" where
  "inactive_close s = Some (s, [], [Do_Unregister])"

definition close_in_state :: "session \<Rightarrow> locked" where
  "close_in_state s = (case m_state s of
       Waiting_For_Access_Token \<Rightarrow> waiting_close s
     | Active \<Rightarrow> active_close s
     | Dying \<Rightarrow> ok s
     | Inactive \<Rightarrow> inactive_close s)"

definition bind_or_refresh :: "string \<Rightarrow> session \<Rightarrow> locked" where
  "bind_or_refresh token s =
     (if m_session_has_been_bound s
      then run [call_client (Refresh token), call_client Cancel_Reconnect_Delay] s
      else (case m_server_url s of None \<Rightarrow> None
        | Some url \<Rightarrow> run [call_client (Bind url token),
                          \<lambda>s. ok (s\<lparr>m_session_has_been_bound := True\<rparr>)] s))"

definition send_server_override :: "session \<Rightarrow> locked" where
  "send_server_override s = (case m_server_override s of None \<Rightarrow> ok s
     | Some (address, port) \<Rightarrow> call_client (Override_Server address port) s)"

definition send_deferred_commit :: "session \<Rightarrow> locked" where
  "send_deferred_commit s = (case m_deferred_commit_notification s of None \<Rightarrow> ok s
     | Some v \<Rightarrow> run [call_client (Nonsync_Transact_Notify v),
                     \<lambda>s. ok (s\<lparr>m_deferred_commit_notification := None\<rparr>)] s)"

definition refresh_waiting :: "string \<Rightarrow> string option \<Rightarrow> session \<Rightarrow> locked" where
  "refresh_waiting token server_url =
     run [create_sync_session,
          \<lambda>s. ok (if m_server_url s = None then s\<lparr>m_server_url := server_url\<rparr> else s),
          bind_or_refresh token,
          send_server_override,
          send_deferred_commit,
          advance_state Active,
          \<lambda>s. if m_deferred_close s then close_in_state s else ok s]"

definition refresh_active :: "string \<Rightarrow> session \<Rightarrow> locked" where
  "refresh_active token = run [call_client (Refresh token), call_client Cancel_Reconnect_Delay]"

definition log_out_in_state :: "session \<Rightarrow> locked" where
  "log_out_in_state s = (case m_state s of
       Waiting_For_Access_Token \<Rightarrow> advance_state Inactive s
     | Active \<Rightarrow> advance_state Inactive s
     | Dying \<Rightarrow> advance_state Inactive s
     | Inactive \<Rightarrow> ok s)"

definition waiting_revive :: "session \<Rightarrow> locked" where
  "waiting_revive s = ok (s\<lparr>m_deferred_close := False\<rparr>)"

definition dying_revive :: "session \<Rightarrow> locked" where
  "dying_revive s = advance_state Active s"

definition inactive_revive :: "session \<Rightarrow> locked" where
  "inactive_revive s = run [advance_state Waiting_For_Access_Token,
     \<lambda>s. Some (s, [], [Call_Bind_Handler])] s"

definition revive_in_state :: "session \<Rightarrow> locked" where
  "revive_in_state s = (case m_state s of
       Waiting_For_Access_Token \<Rightarrow> waiting_revive s
     | Active \<Rightarrow> ok s
     | Dying \<Rightarrow> dying_revive s
     | Inactive \<Rightarrow> inactive_revive s)"

definition reconnect_in_state :: "session \<Rightarrow> locked" where
  "reconnect_in_state s = (case m_state s of
       Waiting_For_Access_Token \<Rightarrow> Some (s, [], [Call_Bind_Handler])
     | Active \<Rightarrow> call_client Cancel_Reconnect_Delay s
     | Dying \<Rightarrow> ok s
     | Inactive \<Rightarrow> ok s)"

definition notify_commit_in_state :: "int \<Rightarrow> session \<Rightarrow> locked" where
  "notify_commit_in_state v s = (case m_state s of
       Waiting_For_Access_Token \<Rightarrow> ok (s\<lparr>m_deferred_commit_notification := Some v\<rparr>)
     | Active \<Rightarrow> call_client (Nonsync_Transact_Notify v) s
     | Dying \<Rightarrow> ok s
     | Inactive \<Rightarrow> ok s)"

definition wait_in_state :: "direction \<Rightarrow> session \<Rightarrow> locked" where
  "wait_in_state d s = (case m_state s of
       Waiting_For_Access_Token \<Rightarrow> ok s
     | Active \<Rightarrow> add_completion_callback d s
     | Dying \<Rightarrow> add_completion_callback d s
     | Inactive \<Rightarrow> ok s)"

definition override_in_state :: "string \<Rightarrow> int \<Rightarrow> session \<Rightarrow> locked" where
  "override_in_state address port s =
     (let s = s\<lparr>m_server_override := Some (address, port)\<rparr> in (case m_state s of
       Waiting_For_Access_Token \<Rightarrow> ok s
     | Active \<Rightarrow> call_client (Override_Server address port) s
     | Dying \<Rightarrow> call_client (Override_Server address port) s
     | Inactive \<Rightarrow> ok s))"

definition token_expired_in_state :: "session \<Rightarrow> locked" where
  "token_expired_in_state s = (case m_state s of
       Active \<Rightarrow> run [advance_state Waiting_For_Access_Token,
                     \<lambda>s. Some (s, [], [Call_Bind_Handler])] s
     | _ \<Rightarrow> ok s)"

subsection \<open>Errors\<close>

text \<open>The first section of \<open>handle_error\<close> asks the state; only dying takes the error for itself.\<close>

definition handle_error :: "sync_error \<Rightarrow> session \<Rightarrow> locked" where
  "handle_error e s =
     (if m_state s = Dying
      then (if is_fatal e then advance_state Inactive s else ok s)
      else Some (s, [], [Handle_Error_Code e]))"

definition protocol_error_actions :: "sync_error \<Rightarrow> next_state \<Rightarrow> protocol_error \<Rightarrow> action list" where
  "protocol_error_actions e next_state p = (case p of
       PE_connection_closed \<Rightarrow> []
     | PE_other_error \<Rightarrow> []
     | PE_session_closed \<Rightarrow> []
     | PE_other_session_error \<Rightarrow> []
     | PE_disabled_session \<Rightarrow> []
     | PE_token_expired \<Rightarrow> [Access_Token_Expired]
     | PE_bad_authentication \<Rightarrow> [Bad_Authentication (error_code e), Finish_Error Next_None e]
     | PE_permission_denied \<Rightarrow> [Mark_For_Deletion e False]
     | PE_bad_client_file \<Rightarrow> [Mark_For_Deletion e True]
     | PE_bad_client_file_ident \<Rightarrow> [Mark_For_Deletion e True]
     | PE_bad_origin_file_ident \<Rightarrow> [Mark_For_Deletion e True]
     | PE_bad_server_file_ident \<Rightarrow> [Mark_For_Deletion e True]
     | PE_bad_server_version \<Rightarrow> [Mark_For_Deletion e True]
     | PE_client_file_blacklisted \<Rightarrow> [Mark_For_Deletion e True]
     | PE_diverging_histories \<Rightarrow> [Mark_For_Deletion e True]
     | PE_server_file_deleted \<Rightarrow> [Mark_For_Deletion e True]
     | PE_user_blacklisted \<Rightarrow> [Mark_For_Deletion e True]
     | PE_client_file_expired \<Rightarrow> [Mark_For_Deletion e True]
     | _ \<Rightarrow> [Finish_Error next_state e])"

definition client_error_actions :: "sync_error \<Rightarrow> next_state \<Rightarrow> client_error \<Rightarrow> action list" where
  "client_error_actions e next_state c = (case c of
       CE_connection_closed \<Rightarrow> []
     | CE_pong_timeout \<Rightarrow> []
     | _ \<Rightarrow> [Finish_Error next_state e])"

definition handle_error_code :: "sync_error \<Rightarrow> session \<Rightarrow> action list" where
  "handle_error_code e s =
     (let next_state = (if is_fatal e then Next_Error else Next_None)
      in if is_client_reset_requested e \<and> client_resync_mode (m_config s) \<noteq> Manual
         then [Resync, Revive_If_Needed]
         else (case error_code e of
             Protocol_code p \<Rightarrow> protocol_error_actions e next_state p
           | Client_code c \<Rightarrow> client_error_actions e next_state c
           | _ \<Rightarrow> [Finish_Error next_state (e\<lparr>is_unrecognized_by_client := True\<rparr>)]))"

text \<open>The handlers are put aside while the session is torn down. Entering the state inactive lets
  go of the lock, so they are put back by a later action of the thread.\<close>

definition resync :: "session \<Rightarrow> locked" where
  "resync s =
     (let download_handlers = m_download_completion_callbacks s;
          upload_handlers = m_upload_completion_callbacks s;
          s' = (clear_waiters s)\<lparr>m_force_client_resync := True,
                 m_client_resync_counter := m_client_resync_counter s + 1\<rparr>
      in run [advance_state Inactive,
              \<lambda>s. Some (s, [], [Restore_Handlers download_handlers upload_handlers])] s')"

definition set_user_info :: "string \<Rightarrow> string \<Rightarrow> sync_error \<Rightarrow> sync_error" where
  "set_user_info key v e =
     e\<lparr>user_info := (key, v) # filter (\<lambda>p. fst p \<noteq> key) (user_info e)\<rparr>"

text \<open>\<open>reserve\<close> gives the name of a file that is not in use, in the recovery directory. The address
  of the file and the identity of the user go into the metadata (there is a metadata manager), and
  \<open>m_config.user\<close> is followed for it, so a null user is an error here.\<close>

definition mark_for_deletion ::
  "(string option \<Rightarrow> string) \<Rightarrow> sync_error \<Rightarrow> bool \<Rightarrow> session \<Rightarrow> locked" where
  "mark_for_deletion reserve e should_backup s =
     (let e' = set_user_info c_original_file_path_key (m_realm_path s) e;
          recovery_path = reserve (recovery_directory (m_config s))
      in case config_user (m_config s) of
           None \<Rightarrow> None
         | Some user \<Rightarrow>
             if should_backup
             then Some (s, [Mark_File user (Some recovery_path)],
                    [Finish_Error Next_Inactive
                       (set_user_info c_recovery_file_path_key recovery_path e')])
             else Some (s, [Mark_File user None], [Finish_Error Next_Inactive e']))"

definition finish_error :: "next_state \<Rightarrow> sync_error \<Rightarrow> session \<Rightarrow> action list" where
  "finish_error next_state e s = (case next_state of
       Next_None \<Rightarrow>
         if cancel_waits_on_nonfatal_error (m_config s) then [Cancel_Waits (error_code e)] else []
     | Next_Inactive \<Rightarrow> [Move_Inactive]
     | Next_Error \<Rightarrow> [Cancel_Waits (error_code e)]) @ [Report_Error e]"

definition bad_authentication :: "error_code \<Rightarrow> session \<Rightarrow> locked" where
  "bad_authentication ec s =
     run [cancel_pending_waits ec,
          \<lambda>s. Some (s, [],
                case config_user (m_config s) of None \<Rightarrow> [] | Some u \<Rightarrow> [Do_Invalidate u])] s"

subsection \<open>Methods and callbacks\<close>

definition refresh_access_token :: "string \<Rightarrow> string option \<Rightarrow> session \<Rightarrow> locked" where
  "refresh_access_token token server_url s =
     (if m_server_url s = None \<and> server_url = None then ok s
      else (case m_state s of
          Waiting_For_Access_Token \<Rightarrow> refresh_waiting token server_url s
        | Active \<Rightarrow> refresh_active token s
        | Dying \<Rightarrow> ok s
        | Inactive \<Rightarrow> ok s))"

definition wait_for_completion :: "direction \<Rightarrow> nat \<Rightarrow> session \<Rightarrow> locked" where
  "wait_for_completion d cb s =
     run [\<lambda>s. if completion_callbacks d s = [] then wait_in_state d s else ok s,
          \<lambda>s. Some (set_completion_callbacks d (completion_callbacks d s @ [cb]) s,
                [Requested d cb], [])] s"

definition update_configuration :: "sync_config \<Rightarrow> session \<Rightarrow> locked" where
  "update_configuration new_config s =
     (if m_state s \<noteq> Inactive
      then run [advance_state Inactive,
                \<lambda>s. Some (s, [], [Update_Configuration new_config])] s
      else Some (s\<lparr>m_config := new_config\<rparr>, [], [Revive_If_Needed]))"

text \<open>The destructor of the last external reference, after the weak pointer has expired.\<close>

definition did_drop_external_reference :: "session \<Rightarrow> locked" where
  "did_drop_external_reference s = (if m_external_reference s then ok s else close_in_state s)"

text \<open>The handlers that \<open>create_sync_session\<close>, \<open>add_completion_callback\<close> and the state dying give to
  the client library.\<close>

definition connection_state_change ::
  "connection_state \<Rightarrow> sync_error option \<Rightarrow> session \<Rightarrow> locked" where
  "connection_state_change st e s =
     Some (s\<lparr>m_connection_state := st\<rparr>, [],
       Notify_Change (m_connection_state s) st
       # (case e of None \<Rightarrow> [] | Some e \<Rightarrow> [Handle_Error e]))"

definition wait_completed :: "wait_handler \<Rightarrow> error_code \<Rightarrow> session \<Rightarrow> locked" where
  "wait_completed h ec s = (case h of
       Completion resync_counter d \<Rightarrow>
         if resync_counter \<noteq> m_client_resync_counter s then ok s
         else Some (set_completion_callbacks d [] s, [],
                call_waiters ec (completion_callbacks d s))
     | Death current_death_count \<Rightarrow>
         if m_state s = Dying \<and> m_death_count s = current_death_count
         then advance_state Inactive s else ok s)"

text \<open>One action of a thread.\<close>

definition exec :: "(string option \<Rightarrow> string) \<Rightarrow> action \<Rightarrow> session \<Rightarrow> locked" where
  "exec reserve a s = (case a of
       Call_Waiter cb ec \<Rightarrow> Some (s, [Called cb ec], [])
     | Notify_Connection old_state \<Rightarrow>
         Some (s, [Connection_Changed old_state (m_connection_state s)], [])
     | Notify_Change old_state new_state \<Rightarrow>
         Some (s, [Connection_Changed old_state new_state], [])
     | Do_Unregister \<Rightarrow> Some (s, [Unregister_Session], [])
     | Call_Bind_Handler \<Rightarrow> Some (s, [Bind_Session_Handler], [])
     | Restore_Handlers download_handlers upload_handlers \<Rightarrow>
         ok (s\<lparr>m_download_completion_callbacks := download_handlers,
               m_upload_completion_callbacks := upload_handlers\<rparr>)
     | Handle_Error_Code e \<Rightarrow> Some (s, [], handle_error_code e s)
     | Resync \<Rightarrow> resync s
     | Access_Token_Expired \<Rightarrow> token_expired_in_state s
     | Bad_Authentication ec \<Rightarrow> bad_authentication ec s
     | Cancel_Waits ec \<Rightarrow> cancel_pending_waits ec s
     | Do_Invalidate u \<Rightarrow> Some (s, [Invalidate_User u], [])
     | Mark_For_Deletion e should_backup \<Rightarrow> mark_for_deletion reserve e should_backup s
     | Finish_Error next_state e \<Rightarrow> Some (s, [], finish_error next_state e s)
     | Move_Inactive \<Rightarrow> advance_state Inactive s
     | Report_Error e \<Rightarrow>
         Some (s, if error_handler (m_config s) then [Error_Handler e] else [], [])
     | Did_Drop_External_Reference \<Rightarrow>
         did_drop_external_reference s
     | Refresh_Access_Token token server_url \<Rightarrow> refresh_access_token token server_url s
     | Notify_Commit v \<Rightarrow>
         andthen (Some (s, [Local_Version v], [])) (notify_commit_in_state v)
     | Revive_If_Needed \<Rightarrow> revive_in_state s
     | Handle_Reconnect \<Rightarrow> reconnect_in_state s
     | Log_Out \<Rightarrow> log_out_in_state s
     | Close \<Rightarrow> close_in_state s
     | Wait_For_Completion d cb \<Rightarrow> wait_for_completion d cb s
     | Set_Server_Override address port \<Rightarrow> override_in_state address port s
     | Update_Configuration c \<Rightarrow> update_configuration c s
     | External_Reference \<Rightarrow> ok (s\<lparr>m_external_reference := True\<rparr>)
     | Drop_External_Reference \<Rightarrow>
         Some (s\<lparr>m_external_reference := False\<rparr>, [], [Did_Drop_External_Reference])
     | Set_Multiplex_Identifier i \<Rightarrow> ok (s\<lparr>m_multiplex_identity := i\<rparr>)
     | Set_Url_Prefix p \<Rightarrow> ok (s\<lparr>m_config := (m_config s)\<lparr>config_url_prefix := Some p\<rparr>\<rparr>)
     | Wait_Completed h ec \<Rightarrow> wait_completed h ec s
     | Connection_State_Change st e \<Rightarrow> connection_state_change st e s
     | Handle_Error e \<Rightarrow> handle_error e s)"

subsection \<open>Threads\<close>

text \<open>What the application, the object store and the client library may start at any time. The
  completion of a wait is started only when the wait is pending. A configuration has a user: the
  manager registers each session with its user before it hands it out, and an update asserts that
  the user stays the same.\<close>

definition public_action :: "action \<Rightarrow> bool" where
  "public_action a = (case a of
       Refresh_Access_Token _ _ \<Rightarrow> True
     | Notify_Commit _ \<Rightarrow> True
     | Revive_If_Needed \<Rightarrow> True
     | Handle_Reconnect \<Rightarrow> True
     | Log_Out \<Rightarrow> True
     | Close \<Rightarrow> True
     | Wait_For_Completion _ _ \<Rightarrow> True
     | Set_Server_Override _ _ \<Rightarrow> True
     | Update_Configuration c \<Rightarrow> config_user c \<noteq> None
     | External_Reference \<Rightarrow> True
     | Drop_External_Reference \<Rightarrow> True
     | Set_Multiplex_Identifier _ \<Rightarrow> True
     | Set_Url_Prefix _ \<Rightarrow> True
     | Connection_State_Change _ _ \<Rightarrow> True
     | Handle_Error _ \<Rightarrow> True
     | _ \<Rightarrow> False)"

record world =
  shared :: session
  threads :: "action list list"
  waits :: "(nat \<times> wait_handler) list"
  log :: "event list"

definition new_waits :: "event list \<Rightarrow> (nat \<times> wait_handler) list" where
  "new_waits es =
     concat (map (\<lambda>e. case e of Client i (Async_Wait d h) \<Rightarrow> [(i, h)] | _ \<Rightarrow> []) es)"

definition start_world :: "session \<Rightarrow> world" where
  "start_world s = \<lparr>shared = s, threads = [], waits = [], log = []\<rparr>"

datatype move = Start action | Run nat | Complete nat error_code

text \<open>One step of the world, by its name: a thread starts, a thread runs its next section, or the
  client library completes a wait.\<close>

definition move_world ::
  "(string option \<Rightarrow> string) \<Rightarrow> move \<Rightarrow> world \<Rightarrow> world option" where
  "move_world reserve m w = (case m of
       Start a \<Rightarrow>
         if public_action a then Some (w\<lparr>threads := threads w @ [[a]]\<rparr>) else None
     | Run i \<Rightarrow>
         if i < length (threads w) then
           (case threads w ! i of [] \<Rightarrow> None
            | a # as \<Rightarrow> (case exec reserve a (shared w) of None \<Rightarrow> None
                | Some (s, es, rest) \<Rightarrow>
                    Some \<lparr>shared = s, threads = (threads w)[i := rest @ as],
                          waits = waits w @ new_waits es, log = log w @ es\<rparr>))
         else None
     | Complete i ec \<Rightarrow>
         if i < length (waits w)
         then Some (w\<lparr>waits := take i (waits w) @ drop (Suc i) (waits w),
                      threads := threads w @ [[Wait_Completed (snd (waits w ! i)) ec]]\<rparr>)
         else None)"

primrec moves_world ::
  "(string option \<Rightarrow> string) \<Rightarrow> move list \<Rightarrow> world \<Rightarrow> world option" where
  "moves_world reserve [] w = Some w"
| "moves_world reserve (m # ms) w = (case move_world reserve m w of None \<Rightarrow> None
     | Some w' \<Rightarrow> moves_world reserve ms w')"

inductive reachable :: "(string option \<Rightarrow> string) \<Rightarrow> session \<Rightarrow> world \<Rightarrow> bool"
  for reserve :: "string option \<Rightarrow> string" and s :: session where
  reachable_start: "reachable reserve s (start_world s)"
| reachable_move: "reachable reserve s w \<Longrightarrow> move_world reserve m w = Some w' \<Longrightarrow>
    reachable reserve s w'"

end
