(* ===== verification/Session_Lemmas.thy ===== *)
theory Session_Lemmas
  imports Sync_Session
begin

section \<open>Invariants of the session\<close>

text \<open>
  Sections are reasoned about with \<open>sat\<close>, their weakest precondition: the section has a result
  and it satisfies a condition. The rules of \<open>sat\<close> walk through a section from its end.
\<close>

named_theorems sat_simps

definition sat :: "locked \<Rightarrow> (session \<Rightarrow> event list \<Rightarrow> action list \<Rightarrow> bool) \<Rightarrow> bool" where
  "sat x Q = (case x of None \<Rightarrow> False | Some (s, es, as) \<Rightarrow> Q s es as)"

lemma sat_None [sat_simps]: "sat None Q = False"
  by (simp add: sat_def)

lemma sat_Some [sat_simps]: "sat (Some (s, es, as)) Q = Q s es as"
  by (simp add: sat_def)

lemma sat_ok [sat_simps]: "sat (ok s) Q = Q s [] []"
  by (simp add: sat_def ok_def)

lemma sat_andthen [sat_simps]:
  "sat (andthen x f) Q = sat x (\<lambda>s es as. sat (f s) (\<lambda>s' es' as'. Q s' (es @ es') (as @ as')))"
  by (auto simp: sat_def andthen_def split: option.splits)

lemma sat_if [sat_simps]: "sat (if b then x else y) Q = (if b then sat x Q else sat y Q)"
  by simp

lemma sat_option [sat_simps]:
  "sat (case z of None \<Rightarrow> x | Some v \<Rightarrow> y v) Q
     = (case z of None \<Rightarrow> sat x Q | Some v \<Rightarrow> sat (y v) Q)"
  by (cases z) auto

lemma sat_run_Nil [sat_simps]: "sat (run [] s) Q = Q s [] []"
  by (simp add: sat_simps)

lemma sat_run_Cons [sat_simps]:
  "sat (run (f # fs) s) Q
     = sat (f s) (\<lambda>s es as. sat (run fs s) (\<lambda>s' es' as'. Q s' (es @ es') (as @ as')))"
  by (simp add: sat_simps)

lemma sat_call_client [sat_simps]:
  "sat (call_client c s) Q = (\<exists>i. m_session s = Some i \<and> Q s [Client i c] [])"
  by (auto simp: sat_def call_client_def split: option.splits)

lemma sat_mono: "sat x P \<Longrightarrow> (\<And>s es as. P s es as \<Longrightarrow> Q s es as) \<Longrightarrow> sat x Q"
  by (auto simp: sat_def split: option.splits)

lemma sat_conj: "sat x P \<Longrightarrow> sat x Q \<Longrightarrow> sat x (\<lambda>s es as. P s es as \<and> Q s es as)"
  by (auto simp: sat_def split: option.splits)

lemma satD: "sat x Q \<Longrightarrow> x = Some (s, es, as) \<Longrightarrow> Q s es as"
  by (simp add: sat_def)

lemma satE: "sat x Q \<Longrightarrow> (\<And>s es as. x = Some (s, es, as) \<Longrightarrow> Q s es as \<Longrightarrow> thesis) \<Longrightarrow> thesis"
  by (auto simp: sat_def split: option.splits)

lemmas advance_defs =
  add_completion_callback_def completion_callbacks_def set_completion_callbacks_def
  clear_waiters_def cancel_pending_waits_def enter_inactive_def advance_inactive_def
  enter_dying_def enter_active_def enter_waiting_def advance_state_def

lemmas close_defs = close_in_state_def waiting_close_def active_close_def inactive_close_def

lemmas revive_defs = revive_in_state_def waiting_revive_def dying_revive_def inactive_revive_def

lemmas state_defs =
  create_sync_session_def close_defs bind_or_refresh_def send_server_override_def
  send_deferred_commit_def refresh_waiting_def refresh_active_def log_out_in_state_def
  revive_defs reconnect_in_state_def notify_commit_in_state_def wait_in_state_def
  override_in_state_def token_expired_in_state_def

lemmas method_defs =
  handle_error_def resync_def mark_for_deletion_def bad_authentication_def
  refresh_access_token_def wait_for_completion_def update_configuration_def
  connection_state_change_def wait_completed_def did_drop_external_reference_def

lemmas section_defs = advance_defs state_defs method_defs Let_def

lemmas section_splits =
  option.splits if_splits session_state.splits stop_policy.splits direction.splits
  wait_handler.splits prod.splits

text \<open>What holds whenever the lock is free.\<close>

definition session_inv :: "session \<Rightarrow> bool" where
  "session_inv s \<longleftrightarrow>
     (m_state s = Inactive \<longrightarrow> m_session s = None) \<and>
     (m_state s = Active \<or> m_state s = Dying \<longrightarrow> m_session s \<noteq> None) \<and>
     (m_session s \<noteq> None \<longrightarrow> m_session_has_been_bound s \<and> m_server_url s \<noteq> None) \<and>
     (\<forall>i. m_session s = Some i \<longrightarrow> Suc i = m_client s) \<and>
     config_user (m_config s) \<noteq> None"

text \<open>What the first five parts of \<open>refresh_waiting\<close> make of the fields, and what they tell the client
  library.\<close>

definition client_session :: "session \<Rightarrow> nat" where
  "client_session s = (case m_session s of Some i \<Rightarrow> i | None \<Rightarrow> m_client s)"

definition bound_session :: "string option \<Rightarrow> session \<Rightarrow> session" where
  "bound_session url s =
     s\<lparr>m_session := Some (client_session s),
       m_client := (if m_session s = None then Suc (m_client s) else m_client s),
       m_session_has_been_bound := True,
       m_server_url := (if m_server_url s = None then url else m_server_url s),
       m_deferred_commit_notification := None\<rparr>"

definition make_events :: "session \<Rightarrow> event list" where
  "make_events s =
     (if m_force_client_resync s then [Make_Directory (m_realm_path s @ ''.resync'')] else [])
     @ [Client (m_client s) (Make_Session (make_client_config (m_realm_path s)
          (m_multiplex_identity s) (m_force_client_resync s) (m_config s)))]"

definition token_calls :: "string \<Rightarrow> string option \<Rightarrow> session \<Rightarrow> client_call list" where
  "token_calls token url s =
     (if m_session s = None
      then [Bind (the (if m_server_url s = None then url else m_server_url s)) token]
      else [Refresh token, Cancel_Reconnect_Delay])"

definition late_calls :: "session \<Rightarrow> client_call list" where
  "late_calls s =
     (case m_server_override s of None \<Rightarrow> [] | Some (a, p) \<Rightarrow> [Override_Server a p])
     @ (case m_deferred_commit_notification s of None \<Rightarrow> [] | Some v \<Rightarrow> [Nonsync_Transact_Notify v])"

definition bind_events :: "string \<Rightarrow> string option \<Rightarrow> session \<Rightarrow> event list" where
  "bind_events token url s =
     (if m_session s = None then make_events s else [])
     @ map (Client (client_session s)) (token_calls token url s @ late_calls s)"

definition wait_calls :: "session \<Rightarrow> client_call list" where
  "wait_calls s =
     (if m_upload_completion_callbacks s \<noteq> []
      then [Async_Wait Upload (Completion (m_client_resync_counter s) Upload)] else [])
     @ (if m_download_completion_callbacks s \<noteq> []
        then [Async_Wait Download (Completion (m_client_resync_counter s) Download)] else [])"

lemma andthen_ok: "andthen x ok = x"
  by (auto simp: andthen_def ok_def split: option.splits)

lemma andthen_assoc: "andthen (andthen x f) g = andthen x (\<lambda>s. andthen (f s) g)"
  by (auto simp: andthen_def split: option.splits)

lemma run_one: "run [f] = f"
  by (rule ext) (simp add: andthen_ok [unfolded fun_eq_iff [of "run []"]] andthen_def ok_def
      split: option.splits prod.splits)

lemma run_two: "run [f, g] s = andthen (f s) g"
  using run_one [of g] by simp

lemma run_append: "run (fs @ gs) s = andthen (run fs s) (run gs)"
  by (induction fs arbitrary: s) (auto simp: ok_def andthen_def split: option.splits prod.splits)

lemma send_server_override_eq:
  "m_session s = Some i \<Longrightarrow> send_server_override s = Some (s, map (Client i)
     (case m_server_override s of None \<Rightarrow> [] | Some (a, p) \<Rightarrow> [Override_Server a p]), [])"
  by (auto simp: send_server_override_def ok_def call_client_def split: option.splits)

lemma send_deferred_commit_eq:
  "m_session s = Some i \<Longrightarrow> send_deferred_commit s
     = Some (s\<lparr>m_deferred_commit_notification := None\<rparr>, map (Client i)
         (case m_deferred_commit_notification s of None \<Rightarrow> [] | Some v \<Rightarrow> [Nonsync_Transact_Notify v]),
         [])"
  by (cases s) (auto simp: send_deferred_commit_def ok_def call_client_def andthen_def
      split: option.splits)

lemma bind_or_refresh_eq:
  assumes "m_session s = Some i" "m_server_url s = Some u"
  shows "bind_or_refresh token s
     = Some (s\<lparr>m_session_has_been_bound := True\<rparr>,
         map (Client i) (if m_session_has_been_bound s then [Refresh token, Cancel_Reconnect_Delay]
           else [Bind u token]), [])"
  using assms by (cases s) (auto simp: bind_or_refresh_def ok_def call_client_def andthen_def)

lemma run_bind:
  assumes "session_inv s" "m_server_url s \<noteq> None \<or> url \<noteq> None"
  shows "run [create_sync_session,
          \<lambda>s. ok (if m_server_url s = None then s\<lparr>m_server_url := url\<rparr> else s),
          bind_or_refresh token, send_server_override, send_deferred_commit] s
     = Some (bound_session url s, bind_events token url s, [])"
proof (cases "m_session s")
  case None
  define s' where "s' = s\<lparr>m_session := Some (m_client s), m_client := Suc (m_client s),
    m_session_has_been_bound := False\<rparr>"
  define s'' where "s'' = (if m_server_url s = None then s'\<lparr>m_server_url := url\<rparr> else s')"
  obtain u where u: "(if m_server_url s = None then url else m_server_url s) = Some u"
    using assms(2) by (cases "m_server_url s") auto
  have s'': "m_session s'' = Some (m_client s)" "m_server_url s'' = Some u"
    "\<not> m_session_has_been_bound s''"
    "m_server_override s'' = m_server_override s"
    "m_deferred_commit_notification s'' = m_deferred_commit_notification s"
    using u by (auto simp: s''_def s'_def split: if_splits)
  have create: "create_sync_session s = Some (s', make_events s, [])"
    using None by (simp add: create_sync_session_def s'_def make_events_def Let_def)
  have url: "(if m_server_url s' = None then s'\<lparr>m_server_url := url\<rparr> else s') = s''"
    by (simp add: s''_def s'_def)
  have end_eq: "s''\<lparr>m_session_has_been_bound := True, m_deferred_commit_notification := None\<rparr>
      = bound_session url s"
    using None by (cases s) (simp add: s''_def s'_def bound_session_def client_session_def)
  show ?thesis using None u
    by (simp add: create url ok_def andthen_def bind_or_refresh_eq s'' send_server_override_eq
        send_deferred_commit_eq end_eq bind_events_def token_calls_def late_calls_def
        client_session_def)
next
  case (Some i)
  then obtain u where u: "m_server_url s = Some u" "m_session_has_been_bound s"
    using assms(1) by (auto simp: session_inv_def)
  have "create_sync_session s = Some (s, [], [])"
    using Some by (simp add: create_sync_session_def ok_def)
  moreover have "s\<lparr>m_session_has_been_bound := True, m_deferred_commit_notification := None\<rparr>
      = bound_session url s"
    using Some u by (cases s) (simp add: bound_session_def client_session_def)
  ultimately show ?thesis using Some u
    by (simp add: ok_def andthen_def bind_or_refresh_eq send_server_override_eq
        send_deferred_commit_eq bind_events_def token_calls_def late_calls_def
        client_session_def)
qed

lemma advance_active:
  assumes "m_session s = Some i"
  shows "advance_state Active s
     = Some (s\<lparr>m_state := Active\<rparr>, Entered Active # map (Client i) (wait_calls s), [])"
  using assms by (simp add: advance_state_def enter_active_def ok_def andthen_def call_client_def
      add_completion_callback_def wait_calls_def)

lemma advance_waiting:
  "advance_state Waiting_For_Access_Token s
     = Some (s\<lparr>m_state := Waiting_For_Access_Token, m_deferred_close := False\<rparr>,
         [Entered Waiting_For_Access_Token], [])"
  by (simp add: advance_state_def enter_waiting_def ok_def andthen_def)

lemma advance_dying:
  assumes "m_session s = Some i"
  shows "advance_state Dying s
     = Some (s\<lparr>m_state := Dying, m_death_count := Suc (m_death_count s)\<rparr>,
         [Entered Dying, Client i (Async_Wait Upload (Death (Suc (m_death_count s))))], [])"
  using assms by (simp add: advance_state_def enter_dying_def andthen_def call_client_def)

definition inactive_session :: "session \<Rightarrow> session" where
  "inactive_session s =
     (clear_waiters s)\<lparr>m_state := Inactive, m_connection_state := Disconnected, m_session := None\<rparr>"

definition inactive_actions :: "session \<Rightarrow> action list" where
  "inactive_actions s =
     Do_Unregister
     # (if m_connection_state s \<noteq> Disconnected then [Notify_Connection (m_connection_state s)]
        else [])
     @ call_waiters Aborted (m_download_completion_callbacks s)
     @ call_waiters Aborted (m_upload_completion_callbacks s)"

lemma advance_inactive:
  "advance_state Inactive s = Some (inactive_session s, [Entered Inactive], inactive_actions s)"
  by (simp add: advance_state_def enter_inactive_def andthen_def inactive_session_def
      inactive_actions_def clear_waiters_def)

lemma andthen_Some: "andthen (Some (s, es, as)) f
    = (case f s of None \<Rightarrow> None | Some (s', es', as') \<Rightarrow> Some (s', es @ es', as @ as'))"
  by (simp add: andthen_def)

lemma refresh_waiting_eq:
  assumes "session_inv s" "m_server_url s \<noteq> None \<or> url \<noteq> None"
  shows "refresh_waiting token url s
     = andthen (Some ((bound_session url s)\<lparr>m_state := Active\<rparr>,
          bind_events token url s
          @ Entered Active # map (Client (client_session s)) (wait_calls s), []))
         (\<lambda>s. if m_deferred_close s then close_in_state s else ok s)"
proof -
  define c where "c = (\<lambda>s. if m_deferred_close s then close_in_state s else ok s)"
  have "refresh_waiting token url s = run ([create_sync_session,
          \<lambda>s. ok (if m_server_url s = None then s\<lparr>m_server_url := url\<rparr> else s),
          bind_or_refresh token, send_server_override, send_deferred_commit]
          @ [advance_state Active, c]) s"
    by (simp only: refresh_waiting_def c_def append.simps)
  also have "\<dots> = andthen (Some (bound_session url s, bind_events token url s, []))
      (run [advance_state Active, c])"
    by (simp only: run_append run_bind [OF assms])
  also have "\<dots> = andthen (andthen (Some (bound_session url s, bind_events token url s, []))
      (advance_state Active)) c"
    by (simp only: andthen_assoc run_two [abs_def])
  also have "andthen (Some (bound_session url s, bind_events token url s, []))
      (advance_state Active) = Some ((bound_session url s)\<lparr>m_state := Active\<rparr>,
          bind_events token url s
          @ Entered Active # map (Client (client_session s)) (wait_calls s), [])"
  proof -
    have "wait_calls (bound_session url s) = wait_calls s"
      by (simp add: wait_calls_def bound_session_def)
    moreover have "m_session (bound_session url s) = Some (client_session s)"
      by (simp add: bound_session_def)
    ultimately show ?thesis
      by (simp add: andthen_Some advance_active)
  qed
  finally show ?thesis
    by (simp only: c_def)
qed

lemma session_inv_cases:
  assumes "session_inv s"
  obtains (Waiting) "m_state s = Waiting_For_Access_Token"
  | (Active) i where "m_state s = Active" "m_session s = Some i"
  | (Dying) i where "m_state s = Dying" "m_session s = Some i"
  | (Inactive) "m_state s = Inactive" "m_session s = None"
  using assms by (cases "m_state s"; cases "m_session s") (auto simp: session_inv_def)

lemma inactive_session_simps [simp]:
  "m_state (inactive_session s) = Inactive" "m_session (inactive_session s) = None"
  "m_client (inactive_session s) = m_client s"
  "m_client_resync_counter (inactive_session s) = m_client_resync_counter s"
  "m_download_completion_callbacks (inactive_session s) = []"
  "m_upload_completion_callbacks (inactive_session s) = []"
  "m_config (inactive_session s) = m_config s"
  by (simp_all add: inactive_session_def clear_waiters_def)

lemma bound_session_simps [simp]:
  "m_state (bound_session url s) = m_state s"
  "m_session (bound_session url s) = Some (client_session s)"
  "m_client_resync_counter (bound_session url s) = m_client_resync_counter s"
  "m_download_completion_callbacks (bound_session url s) = m_download_completion_callbacks s"
  "m_upload_completion_callbacks (bound_session url s) = m_upload_completion_callbacks s"
  "m_config (bound_session url s) = m_config s"
  "m_session_has_been_bound (bound_session url s)"
  "m_deferred_close (bound_session url s) = m_deferred_close s"
  "m_death_count (bound_session url s) = m_death_count s"
  by (simp_all add: bound_session_def)

lemma session_inv_inactive [simp]:
  "session_inv (inactive_session s) \<longleftrightarrow> config_user (m_config s) \<noteq> None"
  by (simp add: session_inv_def)

lemma session_inv_user: "session_inv s \<Longrightarrow> config_user (m_config s) \<noteq> None"
  by (simp add: session_inv_def)

lemma session_inv_bound:
  "session_inv s \<Longrightarrow> m_server_url s \<noteq> None \<or> url \<noteq> None \<Longrightarrow> m_state s \<noteq> Inactive \<Longrightarrow>
    session_inv ((bound_session url s)\<lparr>m_state := Active\<rparr>)"
  by (auto simp: session_inv_def bound_session_def client_session_def split: option.splits)

lemma sat_close:
  assumes "session_inv s"
  shows "sat (close_in_state s) Q \<longleftrightarrow> (case m_state s of
       Waiting_For_Access_Token \<Rightarrow>
         if stop_policy (m_config s) = Immediately
         then Q (inactive_session s) [Entered Inactive] (inactive_actions s)
         else Q (s\<lparr>m_deferred_close := True\<rparr>) [] []
     | Active \<Rightarrow> (case stop_policy (m_config s) of
         Immediately \<Rightarrow> Q (inactive_session s) [Entered Inactive] (inactive_actions s)
       | Live_Indefinitely \<Rightarrow> Q s [] []
       | After_Changes_Uploaded \<Rightarrow> Q (s\<lparr>m_state := Dying, m_death_count := Suc (m_death_count s)\<rparr>)
           [Entered Dying, Client (client_session s)
              (Async_Wait Upload (Death (Suc (m_death_count s))))] [])
     | Dying \<Rightarrow> Q s [] []
     | Inactive \<Rightarrow> Q s [] [Do_Unregister])"
  using assms
  by (cases rule: session_inv_cases)
    (auto simp: close_defs sat_simps advance_inactive advance_dying client_session_def
      split: stop_policy.splits)

lemmas exec_simps =
  exec_def sat_simps advance_active advance_waiting advance_dying advance_inactive

subsection \<open>Transitions\<close>

text \<open>The states that are entered, and the transitions that the comment before the state classes
  lists.\<close>

definition entered :: "event list \<Rightarrow> session_state list" where
  "entered es = concat (map (\<lambda>e. case e of Entered st \<Rightarrow> [st] | _ \<Rightarrow> []) es)"

definition documented :: "session_state \<Rightarrow> session_state \<Rightarrow> bool" where
  "documented a b \<longleftrightarrow> (case a of
       Waiting_For_Access_Token \<Rightarrow> b = Active \<or> b = Inactive
     | Active \<Rightarrow> b = Waiting_For_Access_Token \<or> b = Inactive \<or> b = Dying
     | Dying \<Rightarrow> b = Inactive \<or> b = Active
     | Inactive \<Rightarrow> b = Waiting_For_Access_Token)"

primrec chained :: "('a \<Rightarrow> 'a \<Rightarrow> bool) \<Rightarrow> 'a \<Rightarrow> 'a list \<Rightarrow> bool" where
  "chained R a [] \<longleftrightarrow> True"
| "chained R a (b # bs) \<longleftrightarrow> R a b \<and> chained R b bs"

lemma chained_append: "chained R a (bs @ cs) \<longleftrightarrow> chained R a bs \<and> chained R (last (a # bs)) cs"
  by (induction bs arbitrary: a) auto

lemma entered_simps [simp]:
  "entered [] = []" "entered (Entered st # es) = st # entered es"
  "entered (Client i c # es) = entered es" "entered (Requested d cb # es) = entered es"
  "entered (Called cb ec # es) = entered es" "entered (Local_Version v # es) = entered es"
  "entered (Connection_Changed a b # es) = entered es"
  "entered (Unregister_Session # es) = entered es"
  "entered (Bind_Session_Handler # es) = entered es"
  "entered (Make_Directory p # es) = entered es" "entered (Mark_File us r # es) = entered es"
  "entered (Invalidate_User u # es) = entered es" "entered (Error_Handler e # es) = entered es"
  "entered (xs @ ys) = entered xs @ entered ys"
  "entered (map (Client i) cs) = []"
  by (simp_all add: entered_def map_idI)

lemma entered_bind [simp]: "entered (bind_events t url s) = []"
  by (simp add: bind_events_def make_events_def)

definition step_path :: "session \<Rightarrow> session \<Rightarrow> event list \<Rightarrow> bool" where
  "step_path s s' es \<longleftrightarrow>
     chained (\<lambda>a b. documented a b \<or> a = Inactive \<and> b = Inactive) (m_state s) (entered es) \<and>
     m_state s' = last (m_state s # entered es)"

subsection \<open>Completion handlers\<close>

text \<open>The handlers the session holds, those an action of a thread still has to call or to put back,
  and those that were requested and called.\<close>

definition registered :: "session \<Rightarrow> nat multiset" where
  "registered s =
     mset (m_download_completion_callbacks s) + mset (m_upload_completion_callbacks s)"

definition due :: "action \<Rightarrow> nat multiset" where
  "due a = (case a of Call_Waiter cb ec \<Rightarrow> {#cb#}
     | Restore_Handlers ds us \<Rightarrow> mset ds + mset us | _ \<Rightarrow> {#})"

definition dues :: "action list \<Rightarrow> nat multiset" where
  "dues as = sum_list (map due as)"

definition called :: "event list \<Rightarrow> nat multiset" where
  "called es = mset (concat (map (\<lambda>e. case e of Called cb ec \<Rightarrow> [cb] | _ \<Rightarrow> []) es))"

definition requested :: "event list \<Rightarrow> nat multiset" where
  "requested es = mset (concat (map (\<lambda>e. case e of Requested d cb \<Rightarrow> [cb] | _ \<Rightarrow> []) es))"

definition is_restore :: "action \<Rightarrow> bool" where
  "is_restore a = (case a of Restore_Handlers ds us \<Rightarrow> True | _ \<Rightarrow> False)"

lemma dues_simps [simp]:
  "dues [] = {#}" "dues (a # as) = due a + dues as" "dues (as @ bs) = dues as + dues bs"
  "dues (call_waiters ec cbs) = mset cbs"
  by (simp_all add: dues_def) (induction cbs; simp add: call_waiters_def due_def)

lemma due_simps [simp]:
  "due (Call_Waiter cb ec) = {#cb#}" "due (Restore_Handlers ds us) = mset ds + mset us"
  "due (Notify_Connection st1) = {#}" "due (Notify_Change st1 st2) = {#}" "due Do_Unregister = {#}"
  "due Call_Bind_Handler = {#}" "due (Handle_Error_Code e) = {#}" "due Resync = {#}"
  "due Access_Token_Expired = {#}" "due (Bad_Authentication ec1) = {#}"
  "due (Cancel_Waits ec) = {#}" "due (Do_Invalidate u) = {#}"
  "due (Mark_For_Deletion e b) = {#}" "due (Finish_Error n e) = {#}" "due Move_Inactive = {#}"
  "due (Report_Error e) = {#}" "due Did_Drop_External_Reference = {#}"
  "due Revive_If_Needed = {#}" "due (Update_Configuration conf) = {#}" "due (Handle_Error e) = {#}"
  "due (Refresh_Access_Token t url) = {#}" "due (Notify_Commit v) = {#}"
  "due Handle_Reconnect = {#}" "due Log_Out = {#}" "due Close = {#}"
  "due (Wait_For_Completion d cb) = {#}" "due (Set_Server_Override adr port) = {#}"
  "due External_Reference = {#}" "due Drop_External_Reference = {#}"
  "due (Set_Multiplex_Identifier ident) = {#}" "due (Set_Url_Prefix prefix) = {#}"
  "due (Wait_Completed h ec) = {#}" "due (Connection_State_Change st e') = {#}"
  by (simp_all add: due_def)

lemma called_simps [simp]:
  "called [] = {#}" "called (Called cb ec # es) = add_mset cb (called es)"
  "called (Entered st # es) = called es" "called (Client i c # es) = called es"
  "called (Requested d cb # es) = called es" "called (Local_Version v # es) = called es"
  "called (Connection_Changed a b # es) = called es" "called (Unregister_Session # es) = called es"
  "called (Bind_Session_Handler # es) = called es" "called (Make_Directory p # es) = called es"
  "called (Mark_File u r # es) = called es" "called (Invalidate_User u # es) = called es"
  "called (Error_Handler e # es) = called es" "called (xs @ ys) = called xs + called ys"
  "called (map (Client i) cs) = {#}"
  by (simp_all add: called_def map_idI)

lemma requested_simps [simp]:
  "requested [] = {#}" "requested (Requested d cb # es) = add_mset cb (requested es)"
  "requested (Entered st # es) = requested es" "requested (Client i c # es) = requested es"
  "requested (Called cb ec # es) = requested es" "requested (Local_Version v # es) = requested es"
  "requested (Connection_Changed a b # es) = requested es"
  "requested (Unregister_Session # es) = requested es"
  "requested (Bind_Session_Handler # es) = requested es"
  "requested (Make_Directory p # es) = requested es"
  "requested (Mark_File u r # es) = requested es" "requested (Invalidate_User u # es) = requested es"
  "requested (Error_Handler e # es) = requested es"
  "requested (xs @ ys) = requested xs + requested ys"
  "requested (map (Client i) cs) = {#}"
  by (simp_all add: requested_def map_idI)

lemma bind_events_callbacks [simp]:
  "called (bind_events t url s) = {#}" "requested (bind_events t url s) = {#}"
  by (simp_all add: bind_events_def make_events_def)

definition step_callbacks :: "session \<Rightarrow> action \<Rightarrow> session \<Rightarrow> event list \<Rightarrow> action list \<Rightarrow> bool" where
  "step_callbacks s a s' es as \<longleftrightarrow>
     (if is_restore a
      then registered s' = due a \<and> as = [] \<and> es = []
      else registered s' + dues as + called es = registered s + due a + requested es) \<and>
     m_client_resync_counter s \<le> m_client_resync_counter s' \<and>
     (m_client_resync_counter s' = m_client_resync_counter s \<longrightarrow> \<not> list_ex is_restore as)"

subsection \<open>Calls of the client library\<close>

definition client_calls :: "event list \<Rightarrow> (nat \<times> client_call) list" where
  "client_calls es = concat (map (\<lambda>e. case e of Client i c \<Rightarrow> [(i, c)] | _ \<Rightarrow> []) es)"

definition plain_call :: "client_call \<Rightarrow> bool" where
  "plain_call c = (case c of Make_Session _ \<Rightarrow> False | Bind _ _ \<Rightarrow> False | _ \<Rightarrow> True)"

definition bound_first :: "client_call list \<Rightarrow> bool" where
  "bound_first cs = (case cs of Make_Session _ # Bind _ _ # cs' \<Rightarrow> list_all plain_call cs' | _ \<Rightarrow> False)"

lemma client_calls_simps [simp]:
  "client_calls [] = []" "client_calls (Client i c # es) = (i, c) # client_calls es"
  "client_calls (Requested d cb # es) = client_calls es"
  "client_calls (Entered st # es) = client_calls es"
  "client_calls (Called cb ec # es) = client_calls es"
  "client_calls (Local_Version v # es) = client_calls es"
  "client_calls (Connection_Changed a b # es) = client_calls es"
  "client_calls (Unregister_Session # es) = client_calls es"
  "client_calls (Bind_Session_Handler # es) = client_calls es"
  "client_calls (Make_Directory p # es) = client_calls es"
  "client_calls (Mark_File u r # es) = client_calls es"
  "client_calls (Invalidate_User u # es) = client_calls es"
  "client_calls (Error_Handler e # es) = client_calls es"
  "client_calls (xs @ ys) = client_calls xs @ client_calls ys"
  "client_calls (map (Client i) cs) = map (Pair i) cs"
  by (simp_all add: client_calls_def) (induction cs; simp)

lemma plain_call_simps [simp]:
  "\<not> plain_call (Make_Session m)" "\<not> plain_call (Bind u t)" "plain_call (Refresh t)"
  "plain_call Cancel_Reconnect_Delay" "plain_call (Override_Server a p)"
  "plain_call (Nonsync_Transact_Notify v)" "plain_call (Async_Wait d h)"
  by (simp_all add: plain_call_def)

lemma late_calls_plain [simp]: "list_all plain_call (late_calls s)" "list_all plain_call (wait_calls s)"
  by (auto simp: late_calls_def wait_calls_def split: option.splits)

definition step_client :: "session \<Rightarrow> session \<Rightarrow> event list \<Rightarrow> bool" where
  "step_client s s' es \<longleftrightarrow>
     m_client s' = m_client s \<and>
       (\<forall>(i, c) \<in> set (client_calls es). m_session s = Some i \<and> plain_call c)
     \<or> m_client s' = Suc (m_client s) \<and>
       (\<exists>cs. client_calls es = map (Pair (m_client s)) cs \<and> bound_first cs)"

subsection \<open>Waits\<close>

text \<open>A session that is connected and holds handlers has asked the client library to be told.\<close>

definition connected :: "session \<Rightarrow> bool" where
  "connected s \<longleftrightarrow> m_state s = Active \<or> m_state s = Dying"

definition waits_for :: "direction \<Rightarrow> session \<Rightarrow> bool" where
  "waits_for d s \<longleftrightarrow> connected s \<and> completion_callbacks d s \<noteq> []"

definition step_waits :: "session \<Rightarrow> action \<Rightarrow> session \<Rightarrow> event list \<Rightarrow> bool" where
  "step_waits s a s' es \<longleftrightarrow> (\<forall>d. waits_for d s' \<longrightarrow>
     is_restore a
     \<or> (the (m_session s'), Completion (m_client_resync_counter s') d) \<in> set (new_waits es)
     \<or> waits_for d s \<and> m_session s' = m_session s \<and>
       m_client_resync_counter s' = m_client_resync_counter s \<and>
       (\<forall>ec. a \<noteq> Wait_Completed (Completion (m_client_resync_counter s) d) ec))"

lemma new_waits_simps [simp]:
  "new_waits [] = []" "new_waits (xs @ ys) = new_waits xs @ new_waits ys"
  "new_waits (Entered st # es) = new_waits es"
  "new_waits (Client i (Async_Wait d h) # es) = (i, h) # new_waits es"
  "new_waits (Requested d cb # es) = new_waits es"
  "new_waits (Local_Version v # es) = new_waits es"
  by (simp_all add: new_waits_def)

lemma new_waits_wait_calls [simp]:
  "new_waits (map (Client i) (wait_calls s))
     = (if m_upload_completion_callbacks s \<noteq> []
        then [(i, Completion (m_client_resync_counter s) Upload)] else [])
       @ (if m_download_completion_callbacks s \<noteq> []
          then [(i, Completion (m_client_resync_counter s) Download)] else [])"
  by (simp add: wait_calls_def)

subsection \<open>One action\<close>

definition has_user :: "action \<Rightarrow> bool" where
  "has_user a = (case a of Update_Configuration c \<Rightarrow> config_user c \<noteq> None | _ \<Rightarrow> True)"

definition step_facts :: "session \<Rightarrow> action \<Rightarrow> session \<Rightarrow> event list \<Rightarrow> action list \<Rightarrow> bool" where
  "step_facts s a s' es as \<longleftrightarrow> session_inv s' \<and> step_path s s' es \<and> step_callbacks s a s' es as
     \<and> step_client s s' es \<and> step_waits s a s' es \<and> list_all has_user as"

lemmas step_defs =
  step_path_def step_callbacks_def step_client_def step_waits_def waits_for_def connected_def
  documented_def registered_def

lemma call_waiters_restore [simp]: "\<not> list_ex is_restore (call_waiters ec cbs)"
  by (auto simp: call_waiters_def is_restore_def list_ex_iff)

lemma call_waiters_user [simp]: "list_all has_user (call_waiters ec cbs)"
  by (auto simp: call_waiters_def has_user_def list_all_iff)

lemma inactive_actions_simps [simp]:
  "dues (inactive_actions s) = registered s" "\<not> list_ex is_restore (inactive_actions s)"
  "list_all has_user (inactive_actions s)"
  by (auto simp: inactive_actions_def registered_def is_restore_def has_user_def)

lemma registered_inactive [simp]: "registered (inactive_session s) = {#}"
  by (simp add: registered_def)

text \<open>An action that neither carries handlers nor completes a wait.\<close>

definition simple_action :: "action \<Rightarrow> bool" where
  "simple_action a \<longleftrightarrow> due a = {#} \<and> \<not> is_restore a \<and> (\<forall>h ec. a \<noteq> Wait_Completed h ec)"

lemma close_facts:
  assumes "session_inv s" "simple_action a"
  shows "sat (close_in_state s) (step_facts s a)"
proof -
  have "sat (close_in_state s) (\<lambda>s' es as. session_inv s')"
    using assms(1) by (simp add: sat_close)
      (auto simp: session_inv_def split: session_state.splits stop_policy.splits)
  moreover have "sat (close_in_state s) (\<lambda>s' es as. step_path s s' es)"
    using assms(1) by (simp add: sat_close)
      (auto simp: step_defs split: session_state.splits stop_policy.splits)
  moreover have "sat (close_in_state s) (\<lambda>s' es as. step_callbacks s a s' es as)"
    using assms by (simp add: sat_close)
      (auto simp: step_defs simple_action_def is_restore_def split: session_state.splits stop_policy.splits)
  moreover have "sat (close_in_state s) (\<lambda>s' es as. step_client s s' es)"
    using assms(1) by (cases rule: session_inv_cases; simp add: sat_close)
      (auto simp: step_defs client_session_def split: stop_policy.splits)
  moreover have "sat (close_in_state s) (\<lambda>s' es as. step_waits s a s' es)"
    using assms by (simp add: sat_close)
      (auto simp: step_defs simple_action_def completion_callbacks_def
        split: session_state.splits stop_policy.splits direction.splits)
  moreover have "sat (close_in_state s) (\<lambda>s' es as. list_all has_user as)"
    using assms(1) by (simp add: sat_close)
      (auto simp: has_user_def split: session_state.splits stop_policy.splits)
  ultimately show ?thesis
    unfolding step_facts_def [abs_def] by (intro sat_conj)
qed

text \<open>What comes after binding: the section ends here, or the session closes at once.\<close>

lemma bind_events_client:
  "client_calls (bind_events t url s @ Entered Active # map (Client (client_session s)) (wait_calls s))
     = map (Pair (client_session s))
         ((if m_session s = None then [Make_Session (make_client_config (m_realm_path s)
             (m_multiplex_identity s) (m_force_client_resync s) (m_config s))] else [])
          @ token_calls t url s @ late_calls s @ wait_calls s)"
  by (simp add: bind_events_def make_events_def client_session_def)

lemma bind_client:
  assumes "session_inv s"
  shows "step_client s (bound_session url s)
    (bind_events t url s @ Entered Active # map (Client (client_session s)) (wait_calls s))"
proof (cases "m_session s")
  case None
  then have "client_session s = m_client s"
    "bound_first ([Make_Session c] @ token_calls t url s @ late_calls s @ wait_calls s)" for c
    by (simp_all add: client_session_def bound_first_def token_calls_def)
  with None show ?thesis
    unfolding step_client_def bind_events_client
    by (intro disjI2 conjI exI) (simp add: bound_session_def, simp only: simp_thms if_True, simp)
next
  case (Some i)
  then have "list_all plain_call (token_calls t url s @ late_calls s @ wait_calls s)"
    by (simp add: token_calls_def)
  then show ?thesis using Some
    unfolding step_client_def bind_events_client
    by (auto simp: bound_session_def client_session_def list_all_iff)
qed

lemma step_client_extend:
  assumes "step_client s s' es" "m_client s'' = m_client s'"
    "client_calls es' = map (Pair i) cs" "list_all plain_call cs"
    "m_client s' = m_client s \<Longrightarrow> cs \<noteq> [] \<Longrightarrow> m_session s = Some i"
    "m_client s' = Suc (m_client s) \<Longrightarrow> i = m_client s"
  shows "step_client s s'' (es @ es')"
  using assms(1) unfolding step_client_def
proof (elim disjE conjE exE)
  assume h: "m_client s' = m_client s"
    "\<forall>(i, c) \<in> set (client_calls es). m_session s = Some i \<and> plain_call c"
  then show "m_client s'' = m_client s \<and>
      (\<forall>(i, c) \<in> set (client_calls (es @ es')). m_session s = Some i \<and> plain_call c) \<or>
    m_client s'' = Suc (m_client s) \<and>
      (\<exists>cs. client_calls (es @ es') = map (Pair (m_client s)) cs \<and> bound_first cs)"
    using assms(2-5) by (cases cs) (auto simp: list_all_iff)
next
  fix cs' assume h: "m_client s' = Suc (m_client s)"
    "client_calls es = map (Pair (m_client s)) cs'" "bound_first cs'"
  then have "bound_first (cs' @ cs)"
    using assms(4) by (auto simp: bound_first_def split: list.splits client_call.splits)
  then show "m_client s'' = m_client s \<and>
      (\<forall>(i, c) \<in> set (client_calls (es @ es')). m_session s = Some i \<and> plain_call c) \<or>
    m_client s'' = Suc (m_client s) \<and>
      (\<exists>cs. client_calls (es @ es') = map (Pair (m_client s)) cs \<and> bound_first cs)"
    using h assms(2,3) assms(6) [OF h(1)] by (intro disjI2) (auto intro!: exI [of _ "cs' @ cs"])
qed

lemma new_waits_bind [simp]: "new_waits (bind_events t url s) = []"
  by (auto simp: bind_events_def make_events_def new_waits_def token_calls_def late_calls_def
      split: option.splits)

lemma registered_bound [simp]: "registered ((bound_session url s)\<lparr>m_state := st\<rparr>) = registered s"
  by (simp add: registered_def)

lemma refresh_waiting_facts:
  assumes "session_inv s" "m_server_url s \<noteq> None \<or> url \<noteq> None"
    "m_state s = Waiting_For_Access_Token" "simple_action a"
  shows "sat (refresh_waiting t url s) (step_facts s a)"
proof -
  let ?s = "(bound_session url s)\<lparr>m_state := Active\<rparr>"
  let ?es = "bind_events t url s @ Entered Active # map (Client (client_session s)) (wait_calls s)"
  have ok: "session_inv ?s"
    using assms by (intro session_inv_bound) auto
  have client: "step_client s ?s ?es"
    using bind_client [OF assms(1), of url t] by (simp add: step_client_def)
  have facts: "step_facts s a ?s ?es []"
    using ok client assms(3,4)
    by (auto simp: step_facts_def step_path_def step_callbacks_def step_waits_def waits_for_def
        connected_def documented_def simple_action_def completion_callbacks_def
        split: direction.splits)
  have "step_client s (inactive_session ?s) (?es @ [Entered Inactive])"
    using step_client_extend [OF client, where s'' = "inactive_session ?s" and cs = "[]"
        and i = "m_client s" and es' = "[Entered Inactive]"] by simp
  then have inactive: "step_facts s a (inactive_session ?s) (?es @ [Entered Inactive])
      (inactive_actions ?s)"
    using assms(3,4) session_inv_user [OF assms(1)]
    by (auto simp: step_facts_def step_path_def step_callbacks_def step_waits_def waits_for_def
        connected_def documented_def simple_action_def)
  have dying: "step_facts s a (?s\<lparr>m_state := Dying, m_death_count := Suc n\<rparr>)
      (?es @ [Entered Dying, Client (client_session s) (Async_Wait Upload h)]) []" for n h
  proof -
    let ?s' = "?s\<lparr>m_state := Dying, m_death_count := Suc n\<rparr>"
    let ?es' = "[Entered Dying, Client (client_session s) (Async_Wait Upload h)]"
    have "m_client ?s = m_client s \<Longrightarrow> m_session s = Some (client_session s)"
      "m_client ?s = Suc (m_client s) \<Longrightarrow> client_session s = m_client s"
      by (auto simp: bound_session_def client_session_def split: if_splits)
    then have "step_client s ?s' (?es @ ?es')"
      using step_client_extend [OF client, where s'' = ?s' and cs = "[Async_Wait Upload h]"
          and i = "client_session s" and es' = ?es'] by simp
    moreover have "session_inv ?s'"
      using ok by (simp add: session_inv_def)
    moreover have "step_path s ?s' (?es @ ?es')"
      using assms(3) by (simp add: step_path_def documented_def)
    moreover have "step_callbacks s a ?s' (?es @ ?es') []"
      using assms(4) by (simp add: step_callbacks_def simple_action_def registered_def)
    moreover have "step_waits s a ?s' (?es @ ?es')"
      by (auto simp: step_waits_def waits_for_def completion_callbacks_def split: direction.splits)
    ultimately show ?thesis
      unfolding step_facts_def by simp
  qed
  have "client_session ?s = client_session s"
    by (simp add: client_session_def)
  then show ?thesis
    using facts inactive dying
    by (simp add: refresh_waiting_eq [OF assms(1,2)] sat_simps sat_close [OF ok]
        split: stop_policy.splits)
qed

lemma refresh_facts:
  assumes "session_inv s" "simple_action a"
  shows "sat (refresh_access_token t url s) (step_facts s a)"
proof (cases "m_server_url s = None \<and> url = None")
  case True
  then show ?thesis using assms
    by (simp add: refresh_access_token_def sat_simps step_facts_def step_defs simple_action_def)
next
  case False
  note url = False [unfolded de_Morgan_conj]
  show ?thesis using assms(1)
  proof (cases rule: session_inv_cases)
    case Waiting
    then show ?thesis using refresh_waiting_facts [OF assms(1) url Waiting assms(2)] url
      by (auto simp: refresh_access_token_def)
  qed (use assms in \<open>simp_all add: refresh_access_token_def refresh_active_def sat_simps
         step_facts_def step_defs simple_action_def new_waits_def completion_callbacks_def
       split: direction.splits\<close>)
qed

lemma new_waits_others [simp]:
  "new_waits (Called cb ec # es) = new_waits es"
  "new_waits (Connection_Changed a b # es) = new_waits es"
  "new_waits (Unregister_Session # es) = new_waits es"
  "new_waits (Bind_Session_Handler # es) = new_waits es"
  "new_waits (Make_Directory p # es) = new_waits es"
  "new_waits (Mark_File u r # es) = new_waits es"
  "new_waits (Invalidate_User u # es) = new_waits es"
  "new_waits (Error_Handler e # es) = new_waits es"
  "new_waits (Client i (Refresh t) # es) = new_waits es"
  "new_waits (Client i Cancel_Reconnect_Delay # es) = new_waits es"
  "new_waits (Client i (Override_Server adr port) # es) = new_waits es"
  "new_waits (Client i (Nonsync_Transact_Notify v) # es) = new_waits es"
  by (simp_all add: new_waits_def)

lemma is_restore_simps [simp]:
  "is_restore (Restore_Handlers ds us)" "\<not> is_restore (Call_Waiter cb ec)"
  "\<not> is_restore (Notify_Connection st1)" "\<not> is_restore (Notify_Change st1 st2)"
  "\<not> is_restore Do_Unregister" "\<not> is_restore Call_Bind_Handler"
  "\<not> is_restore (Handle_Error_Code e)" "\<not> is_restore Resync"
  "\<not> is_restore Access_Token_Expired" "\<not> is_restore (Bad_Authentication ec1)"
  "\<not> is_restore (Cancel_Waits ec)" "\<not> is_restore (Do_Invalidate u)"
  "\<not> is_restore (Mark_For_Deletion e b)" "\<not> is_restore (Finish_Error n e)"
  "\<not> is_restore Move_Inactive" "\<not> is_restore (Report_Error e)"
  "\<not> is_restore Did_Drop_External_Reference" "\<not> is_restore (Refresh_Access_Token t url)"
  "\<not> is_restore (Notify_Commit v)" "\<not> is_restore Revive_If_Needed"
  "\<not> is_restore Handle_Reconnect" "\<not> is_restore Log_Out" "\<not> is_restore Close"
  "\<not> is_restore (Wait_For_Completion d cb)" "\<not> is_restore (Set_Server_Override adr port)"
  "\<not> is_restore (Update_Configuration conf)" "\<not> is_restore External_Reference"
  "\<not> is_restore Drop_External_Reference" "\<not> is_restore (Set_Multiplex_Identifier ident)"
  "\<not> is_restore (Set_Url_Prefix prefix)" "\<not> is_restore (Wait_Completed h ec)"
  "\<not> is_restore (Connection_State_Change st e')" "\<not> is_restore (Handle_Error e)"
  by (simp_all add: is_restore_def)

lemma has_user_simps [simp]:
  "has_user (Restore_Handlers ds us)" "has_user (Call_Waiter cb ec)"
  "has_user (Notify_Connection st1)" "has_user (Notify_Change st1 st2)"
  "has_user Do_Unregister" "has_user Call_Bind_Handler"
  "has_user (Handle_Error_Code e)" "has_user Resync"
  "has_user Access_Token_Expired" "has_user (Bad_Authentication ec1)"
  "has_user (Cancel_Waits ec)" "has_user (Do_Invalidate u)"
  "has_user (Mark_For_Deletion e b)" "has_user (Finish_Error n e)"
  "has_user Move_Inactive" "has_user (Report_Error e)"
  "has_user Did_Drop_External_Reference" "has_user (Refresh_Access_Token t url)"
  "has_user (Notify_Commit v)" "has_user Revive_If_Needed"
  "has_user Handle_Reconnect" "has_user Log_Out"
  "has_user Close" "has_user (Wait_For_Completion d cb)"
  "has_user (Set_Server_Override adr port)" "has_user External_Reference"
  "has_user Drop_External_Reference" "has_user (Set_Multiplex_Identifier ident)"
  "has_user (Set_Url_Prefix prefix)" "has_user (Wait_Completed h ec)"
  "has_user (Connection_State_Change st e')" "has_user (Handle_Error e)"
  "has_user (Update_Configuration conf) \<longleftrightarrow> config_user conf \<noteq> None"
  by (simp_all add: has_user_def)

lemma error_actions_simps [simp]:
  "dues (handle_error_code e s) = {#}" "\<not> list_ex is_restore (handle_error_code e s)"
  "dues (finish_error n e s) = {#}" "\<not> list_ex is_restore (finish_error n e s)"
  "list_all has_user (handle_error_code e s)" "list_all has_user (finish_error n e s)"
proof -
  have "dues (protocol_error_actions e n p) = {#} \<and> \<not> list_ex is_restore (protocol_error_actions e n p) \<and>
      list_all has_user (protocol_error_actions e n p)"
    for n p by (cases p) (simp_all add: protocol_error_actions_def)
  moreover have "dues (client_error_actions e n c) = {#} \<and> \<not> list_ex is_restore (client_error_actions e n c) \<and>
      list_all has_user (client_error_actions e n c)"
    for n c by (cases c) (simp_all add: client_error_actions_def)
  ultimately show "dues (handle_error_code e s) = {#}" "\<not> list_ex is_restore (handle_error_code e s)"
    "list_all has_user (handle_error_code e s)"
    by (auto simp: handle_error_code_def Let_def split: error_code.splits)
  show "dues (finish_error n e s) = {#}" "\<not> list_ex is_restore (finish_error n e s)"
    "list_all has_user (finish_error n e s)"
    by (auto simp: finish_error_def split: next_state.splits)
qed

lemmas fact_defs =
  step_facts_def step_defs session_inv_def simple_action_def
  completion_callbacks_def set_completion_callbacks_def

lemma exec_facts:
  assumes inv: "session_inv s" and user: "has_user a"
  shows "sat (exec reserve a s) (step_facts s a)"
proof (cases a)
  case (Refresh_Access_Token t u)
  then show ?thesis using refresh_facts [OF inv, of a] by (simp add: exec_def simple_action_def)
next
  case Close
  then show ?thesis using close_facts [OF inv, of a] by (simp add: exec_def simple_action_def)
next
  case Did_Drop_External_Reference
  then show ?thesis using inv user close_facts [OF inv, of a]
    by (simp add: exec_simps did_drop_external_reference_def simple_action_def)
      (simp add: fact_defs split: direction.splits)
next
  case (Wait_For_Completion d cb)
  show ?thesis using inv user unfolding Wait_For_Completion
    by (cases rule: session_inv_cases; cases d)
      (auto simp: exec_simps wait_for_completion_def wait_in_state_def add_completion_callback_def
        fact_defs split: direction.splits)
next
  case (Wait_Completed h ec)
  show ?thesis using inv user unfolding Wait_Completed
    by (cases h) (auto simp: exec_simps wait_completed_def fact_defs split: direction.splits)
next
  case (Handle_Error_Code e)
  then show ?thesis using inv user by (simp add: exec_simps) (auto simp: fact_defs split: direction.splits)
next
  case Resync
  then show ?thesis using inv user
    by (simp add: exec_simps resync_def Let_def clear_waiters_def) (auto simp: fact_defs split: direction.splits session_state.splits)
next
  case Revive_If_Needed
  show ?thesis unfolding Revive_If_Needed
    by (rule session_inv_cases [OF inv]; insert inv user;
        auto simp: exec_simps revive_defs fact_defs dest: late_calls_plain(2) [unfolded list_all_iff, rule_format] split: direction.splits)
next
  case Access_Token_Expired
  show ?thesis unfolding Access_Token_Expired
    by (rule session_inv_cases [OF inv]; insert inv user;
        auto simp: exec_simps token_expired_in_state_def fact_defs split: direction.splits)
qed (rule session_inv_cases [OF inv]; insert inv user;
  force simp: exec_simps state_defs method_defs cancel_pending_waits_def clear_waiters_def
    Let_def fact_defs split: option.splits prod.splits direction.splits)+

end
