(* ===== verification/Session_World.thy ===== *)
theory Session_World
  imports Session_Lemmas
begin

section \<open>Invariants of the world of a session\<close>

text \<open>
  What holds in every reachable world: in each part of the invariant, the facts about one action
  (\<open>exec_facts\<close>) are carried over to a step of the world.
\<close>

lemma move_cases:
  assumes "move_world reserve m w = Some w'"
  obtains (Start) a where "m = Start a" "public_action a" "w' = w\<lparr>threads := threads w @ [[a]]\<rparr>"
  | (Run) i ts a as us s es rest where "m = Run i" "threads w = ts @ (a # as) # us"
      "exec reserve a (shared w) = Some (s, es, rest)"
      "w' = \<lparr>shared = s, threads = ts @ (rest @ as) # us, waits = waits w @ new_waits es,
             log = log w @ es\<rparr>"
  | (Complete) i ec ws n h vs where "m = Complete i ec" "waits w = ws @ (n, h) # vs"
      "w' = w\<lparr>waits := ws @ vs, threads := threads w @ [[Wait_Completed h ec]]\<rparr>"
proof (cases m)
  case (Start a)
  then show ?thesis using assms by (intro that(1) [of a]) (auto simp: move_world_def split: if_splits)
next
  case (Run i)
  then obtain a as s es rest where r: "i < length (threads w)" "threads w ! i = a # as"
    "exec reserve a (shared w) = Some (s, es, rest)"
    "w' = \<lparr>shared = s, threads = (threads w)[i := rest @ as], waits = waits w @ new_waits es,
           log = log w @ es\<rparr>"
    using assms by (auto simp: move_world_def split: if_splits list.splits option.splits)
  have "threads w = take i (threads w) @ (a # as) # drop (Suc i) (threads w)"
    using r(1,2) id_take_nth_drop [of i "threads w"] by simp
  then show ?thesis using Run r upd_conv_take_nth_drop [OF r(1), of "rest @ as"]
    by (intro that(2) [of i "take i (threads w)" a as "drop (Suc i) (threads w)" s es rest]) auto
next
  case (Complete i ec)
  then have i: "i < length (waits w)"
    and w': "w' = w\<lparr>waits := take i (waits w) @ drop (Suc i) (waits w),
                threads := threads w @ [[Wait_Completed (snd (waits w ! i)) ec]]\<rparr>"
    using assms by (auto simp: move_world_def split: if_splits)
  obtain n h where nh: "waits w ! i = (n, h)" by (cases "waits w ! i")
  have "waits w = take i (waits w) @ (n, h) # drop (Suc i) (waits w)"
    using id_take_nth_drop [OF i] nh by simp
  then show ?thesis using Complete w' nh
    by (intro that(3) [of i ec "take i (waits w)" n h "drop (Suc i) (waits w)"]) auto
qed

lemma public_action_simps:
  assumes "public_action a"
  shows "due a = {#}" "\<not> is_restore a" "a \<noteq> Wait_Completed h ec" "has_user a"
  using assms by (auto simp: public_action_def due_def is_restore_def has_user_def split: action.splits)

definition initial :: "session \<Rightarrow> bool" where
  "initial s \<longleftrightarrow> (\<exists>path c f b. s = new_session path c f b \<and> config_user c \<noteq> None)"

lemma initial_simps:
  assumes "initial s"
  shows "session_inv s" "m_state s = Inactive" "registered s = {#}" "m_client s = 0"
    "m_client_resync_counter s = 0"
  using assms by (auto simp: initial_def new_session_def session_inv_def registered_def)

text \<open>The configurations that threads carry have users.\<close>

definition users_ok :: "world \<Rightarrow> bool" where
  "users_ok w \<longleftrightarrow> (\<forall>t \<in> set (threads w). list_all has_user t)"

text \<open>An invariant of the world that holds at the start and is kept by every move. In the step the
  facts about the action may be used.\<close>

lemma reachable_invariant:
  assumes reach: "reachable reserve s0 w" and s0: "initial s0"
    and start: "P (start_world s0)"
    and start_thread: "\<And>w a. reachable reserve s0 w \<Longrightarrow> session_inv (shared w) \<Longrightarrow> P w \<Longrightarrow> public_action a \<Longrightarrow>
      P (w\<lparr>threads := threads w @ [[a]]\<rparr>)"
    and run_thread: "\<And>w ts a as us s es rest. reachable reserve s0 w \<Longrightarrow> session_inv (shared w) \<Longrightarrow> P w \<Longrightarrow>
      threads w = ts @ (a # as) # us \<Longrightarrow> step_facts (shared w) a s es rest \<Longrightarrow>
      P \<lparr>shared = s, threads = ts @ (rest @ as) # us, waits = waits w @ new_waits es,
         log = log w @ es\<rparr>"
    and complete: "\<And>w ws n h vs ec. reachable reserve s0 w \<Longrightarrow> session_inv (shared w) \<Longrightarrow> P w \<Longrightarrow>
      waits w = ws @ (n, h) # vs \<Longrightarrow>
      P (w\<lparr>waits := ws @ vs, threads := threads w @ [[Wait_Completed h ec]]\<rparr>)"
  shows "P w \<and> session_inv (shared w) \<and> users_ok w"
  using reach
proof induction
  case reachable_start
  then show ?case using start initial_simps(1) [OF s0] by (simp add: start_world_def users_ok_def)
next
  case (reachable_move w m w')
  then have ok: "session_inv (shared w)" and P: "P w" and users: "users_ok w" by auto
  from reachable_move(2) show ?case
  proof (cases rule: move_cases)
    case (Start a)
    then show ?thesis using start_thread [OF reachable_move(1) ok P Start(2)] ok users
      by (auto simp: users_ok_def public_action_simps)
  next
    case (Run i ts a as us s es rest)
    then have a: "has_user a" "list_all has_user as" using users by (auto simp: users_ok_def)
    then have step: "step_facts (shared w) a s es rest"
      using satD [OF exec_facts [OF ok]] Run by blast
    then have "users_ok w'" using users Run a by (auto simp: users_ok_def step_facts_def)
    then show ?thesis using run_thread [OF reachable_move(1) ok P Run(2) step] Run step
      by (simp add: step_facts_def)
  next
    case (Complete i ec ws n h vs)
    then show ?thesis using complete [OF reachable_move(1) ok P Complete(2)] ok users
      by (auto simp: users_ok_def has_user_def)
  qed
qed

subsection \<open>The invariants\<close>

definition path_ok :: "world \<Rightarrow> bool" where
  "path_ok w \<longleftrightarrow>
     chained (\<lambda>a b. documented a b \<or> a = Inactive \<and> b = Inactive) Inactive (entered (log w)) \<and>
     m_state (shared w) = last (Inactive # entered (log w))"

lemma path_reachable:
  assumes "reachable reserve s0 w" "initial s0"
  shows "path_ok w"
proof -
  have "path_ok w \<and> session_inv (shared w) \<and> users_ok w"
    using assms(1,2)
    by (rule reachable_invariant)
      (auto simp: path_ok_def start_world_def initial_simps [OF assms(2)] step_facts_def
        step_path_def chained_append)
  then show ?thesis by simp
qed

definition due_threads :: "world \<Rightarrow> nat multiset" where
  "due_threads w = dues (concat (threads w))"

definition callbacks_ok :: "world \<Rightarrow> bool" where
  "callbacks_ok w \<longleftrightarrow>
     0 \<le> m_client_resync_counter (shared w) \<and>
     called (log w) + due_threads w + registered (shared w) \<subseteq># requested (log w) \<and>
     (m_client_resync_counter (shared w) = 0 \<longrightarrow>
        \<not> list_ex is_restore (concat (threads w)) \<and>
        called (log w) + due_threads w + registered (shared w) = requested (log w))"

lemma callbacks_reachable:
  assumes "reachable reserve s0 w" "initial s0"
  shows "callbacks_ok w"
proof -
  have "callbacks_ok w \<and> session_inv (shared w) \<and> users_ok w"
    using assms(1,2)
  proof (rule reachable_invariant)
    show "callbacks_ok (start_world s0)"
      by (simp add: callbacks_ok_def start_world_def due_threads_def initial_simps [OF assms(2)])
  next
    fix w a assume "callbacks_ok w" "public_action a"
    then show "callbacks_ok (w\<lparr>threads := threads w @ [[a]]\<rparr>)"
      by (simp add: callbacks_ok_def due_threads_def public_action_simps)
  next
    fix w ws n h vs ec assume "callbacks_ok w"
    then show "callbacks_ok (w\<lparr>waits := ws @ vs, threads := threads w @ [[Wait_Completed h ec]]\<rparr>)"
      by (simp add: callbacks_ok_def due_threads_def)
  next
    fix w ts a as us s es rest
    assume inv: "callbacks_ok w" and th: "threads w = ts @ (a # as) # us"
      and step: "step_facts (shared w) a s es rest"
    let ?w = "\<lparr>shared = s, threads = ts @ (rest @ as) # us, waits = waits w @ new_waits es,
         log = log w @ es\<rparr>"
    let ?c = "called (log w) + due_threads w + registered (shared w)"
    let ?c' = "called (log ?w) + due_threads ?w + registered (shared ?w)"
    have step': "step_callbacks (shared w) a s es rest"
      using step by (simp add: step_facts_def)
    show "callbacks_ok ?w"
    proof (cases "is_restore a")
      case True
      then have r: "registered s = due a" "rest = []" "es = []"
        using step' by (auto simp: step_callbacks_def)
      have "called (log w) + due_threads w \<subseteq># requested (log w)"
        using inv unfolding callbacks_ok_def by (meson mset_subset_eq_add_left subset_mset.order_trans)
      moreover have "due_threads w = due_threads ?w + due a"
        using th r by (simp add: due_threads_def ac_simps)
      ultimately have "?c' \<subseteq># requested (log ?w)"
        using r by (simp add: ac_simps)
      moreover have "m_client_resync_counter s \<noteq> 0"
        using inv th True step' by (auto simp: callbacks_ok_def step_callbacks_def)
      moreover have "0 \<le> m_client_resync_counter s"
        using inv step' by (auto simp: callbacks_ok_def step_callbacks_def)
      ultimately show ?thesis
        by (simp add: callbacks_ok_def)
    next
      case False
      have "?c' + requested (log w) = ?c + requested (log ?w)"
        using step' False th by (simp add: step_callbacks_def due_threads_def ac_simps)
      moreover have "requested (log ?w) = requested (log w) + requested es" by simp
      ultimately have "?c' + requested (log w) = (?c + requested es) + requested (log w)"
        by (simp only: ac_simps)
      then have eq: "?c' = ?c + requested es"
        by (rule add_right_imp_eq)
      have "?c' \<subseteq># requested (log ?w)"
        unfolding eq using inv by (simp add: callbacks_ok_def subset_mset.add_right_mono)
      moreover have "0 \<le> m_client_resync_counter s"
        using inv step' by (simp add: callbacks_ok_def step_callbacks_def)
      moreover have "\<not> list_ex is_restore (concat (threads ?w)) \<and> ?c' = requested (log ?w)"
        if zero: "m_client_resync_counter s = 0"
      proof -
        have "m_client_resync_counter (shared w) = 0"
          using zero inv step' by (simp add: callbacks_ok_def step_callbacks_def)
        then have "\<not> list_ex is_restore (concat (threads w))" "?c = requested (log w)"
          "\<not> list_ex is_restore rest"
          using inv step' zero by (simp_all add: callbacks_ok_def step_callbacks_def)
        then show ?thesis using th eq by simp
      qed
      ultimately show ?thesis
        by (simp add: callbacks_ok_def)
    qed
  qed
  then show ?thesis by simp
qed

definition calls_of :: "nat \<Rightarrow> event list \<Rightarrow> client_call list" where
  "calls_of i es = map snd (filter (\<lambda>p. fst p = i) (client_calls es))"

definition clients_ok :: "world \<Rightarrow> bool" where
  "clients_ok w \<longleftrightarrow>
     (\<forall>p \<in> set (client_calls (log w)). fst p < m_client (shared w)) \<and>
     sorted (map fst (client_calls (log w))) \<and>
     (\<forall>i < m_client (shared w). bound_first (calls_of i (log w)))"

lemma bound_first_append:
  "bound_first cs \<Longrightarrow> list_all plain_call cs' \<Longrightarrow> bound_first (cs @ cs')"
  by (auto simp: bound_first_def split: list.splits client_call.splits)

lemma clients_step:
  assumes inv: "clients_ok w" and ok: "session_inv (shared w)"
    and step: "step_client (shared w) s es"
  shows "clients_ok \<lparr>shared = s, threads = ts, waits = ws, log = log w @ es\<rparr>"
proof -
  let ?n = "m_client (shared w)"
  from step show ?thesis unfolding step_client_def
  proof (elim disjE conjE exE)
    assume n: "m_client s = ?n" and
      c: "\<forall>(i, c) \<in> set (client_calls es). m_session (shared w) = Some i \<and> plain_call c"
    have all: "Suc (fst p) = ?n \<and> plain_call (snd p)" if "p \<in> set (client_calls es)" for p
      using c that ok by (cases p) (auto simp: session_inv_def)
    have "map fst (client_calls es) = replicate (length (client_calls es)) (?n - 1)"
      by (rule replicate_eqI) (use all in \<open>fastforce+\<close>)
    then have "sorted (map fst (client_calls es))"
      by (metis sorted_replicate)
    moreover have "fst p \<le> fst q" if "p \<in> set (client_calls (log w))" "q \<in> set (client_calls es)" for p q
      using inv that(1) all [OF that(2)] by (auto simp: clients_ok_def)
    ultimately have "sorted (map fst (client_calls (log w @ es)))"
      using inv by (auto simp: clients_ok_def sorted_append)
    moreover have "bound_first (calls_of i (log w @ es))" if "i < ?n" for i
    proof -
      have "list_all plain_call (calls_of i es)"
        using all by (auto simp: calls_of_def list_all_iff)
      then show ?thesis using inv that bound_first_append
        by (auto simp: clients_ok_def calls_of_def)
    qed
    moreover have "\<forall>p \<in> set (client_calls (log w @ es)). fst p < ?n"
    proof
      fix p assume "p \<in> set (client_calls (log w @ es))"
      then show "fst p < ?n"
        using inv all [of p] by (auto simp: clients_ok_def)
    qed
    ultimately show ?thesis
      using n by (simp add: clients_ok_def)
  next
    fix cs assume n: "m_client s = Suc ?n" and es: "client_calls es = map (Pair ?n) cs"
      and cs: "bound_first cs"
    have less: "\<forall>p \<in> set (client_calls (log w)). fst p < ?n"
      using inv by (simp add: clients_ok_def)
    have "sorted (map fst (client_calls (log w @ es)))"
      using inv less by (auto simp: clients_ok_def es sorted_append comp_def map_replicate_const)
    moreover have "bound_first (calls_of i (log w @ es))" if "i < Suc ?n" for i
    proof (cases "i = ?n")
      case True
      then have "calls_of i (log w) = []" using less by (auto simp: calls_of_def filter_empty_conv)
      moreover have "calls_of i es = cs" using True by (simp add: calls_of_def es comp_def filter_map)
      ultimately show ?thesis using cs by (simp add: calls_of_def)
    next
      case False
      then have "calls_of i es = []" by (auto simp: calls_of_def es filter_empty_conv)
      then show ?thesis using False that inv by (simp add: calls_of_def clients_ok_def)
    qed
    moreover have "\<forall>p \<in> set (client_calls (log w @ es)). fst p < Suc ?n"
      using less by (auto simp: es less_Suc_eq)
    ultimately show ?thesis
      using n by (simp add: clients_ok_def)
  qed
qed

lemma clients_reachable:
  assumes "reachable reserve s0 w" "initial s0"
  shows "clients_ok w"
proof -
  have "clients_ok w \<and> session_inv (shared w) \<and> users_ok w"
    using assms(1,2)
  proof (rule reachable_invariant)
    show "clients_ok (start_world s0)"
      by (simp add: clients_ok_def start_world_def initial_simps [OF assms(2)])
  next
    fix w ts a as us s es rest
    assume "session_inv (shared w)" "clients_ok w" "step_facts (shared w) a s es rest"
    then show "clients_ok \<lparr>shared = s, threads = ts @ (rest @ as) # us,
        waits = waits w @ new_waits es, log = log w @ es\<rparr>"
      by (intro clients_step) (auto simp: step_facts_def)
  qed (simp_all add: clients_ok_def)
  then show ?thesis by simp
qed

definition waits_ok :: "world \<Rightarrow> bool" where
  "waits_ok w \<longleftrightarrow> (m_client_resync_counter (shared w) = 0 \<longrightarrow> (\<forall>d. waits_for d (shared w) \<longrightarrow>
     (the (m_session (shared w)), Completion 0 d) \<in> set (waits w) \<or>
     (\<exists>ec. Wait_Completed (Completion 0 d) ec \<in> set (concat (threads w)))))"

lemma waits_step:
  assumes inv: "waits_ok w" "callbacks_ok w" and th: "threads w = ts @ (a # as) # us"
    and step: "step_waits (shared w) a s es" "step_callbacks (shared w) a s es rest"
  shows "waits_ok \<lparr>shared = s, threads = ts @ (rest @ as) # us, waits = waits w @ new_waits es,
         log = log w @ es\<rparr>" (is "waits_ok ?w")
  unfolding waits_ok_def
proof (intro impI allI)
  fix d assume zero: "m_client_resync_counter (shared ?w) = 0" and d: "waits_for d (shared ?w)"
  then have zero': "m_client_resync_counter (shared w) = 0"
    using inv(2) step(2) by (simp add: callbacks_ok_def step_callbacks_def)
  then have "\<not> is_restore a"
    using inv(2) th by (simp add: callbacks_ok_def)
  then consider "(the (m_session s), Completion 0 d) \<in> set (new_waits es)"
    | "waits_for d (shared w)" "m_session s = m_session (shared w)"
      "\<forall>ec. a \<noteq> Wait_Completed (Completion 0 d) ec"
    using step(1) zero zero' d unfolding step_waits_def by auto
  then show "(the (m_session (shared ?w)), Completion 0 d) \<in> set (waits ?w) \<or>
      (\<exists>ec. Wait_Completed (Completion 0 d) ec \<in> set (concat (threads ?w)))"
  proof cases
    case 2
    then have "(the (m_session s), Completion 0 d) \<in> set (waits w) \<or>
        (\<exists>ec. Wait_Completed (Completion 0 d) ec \<in> set (concat (threads w)))"
      using inv(1) zero' by (simp add: waits_ok_def)
    then show ?thesis using th 2(3) by auto
  qed simp
qed

lemma waits_reachable:
  assumes "reachable reserve s0 w" "initial s0"
  shows "waits_ok w"
proof -
  have "waits_ok w \<and> session_inv (shared w) \<and> users_ok w"
    using assms(1,2)
  proof (rule reachable_invariant)
    show "waits_ok (start_world s0)"
      by (simp add: waits_ok_def start_world_def waits_for_def connected_def
          initial_simps [OF assms(2)])
  next
    fix w ts a as us s es rest
    assume "reachable reserve s0 w" "waits_ok w" "threads w = ts @ (a # as) # us"
      "step_facts (shared w) a s es rest"
    then show "waits_ok \<lparr>shared = s, threads = ts @ (rest @ as) # us,
        waits = waits w @ new_waits es, log = log w @ es\<rparr>"
      using callbacks_reachable [OF _ assms(2)] by (intro waits_step) (auto simp: step_facts_def)
  qed (auto simp: waits_ok_def)
  then show ?thesis by simp
qed

end
