(* ===== verification/Session_Props.thy ===== *)
theory Session_Props
  imports Session_World
begin

section \<open>Properties of the synchronisation session\<close>

text \<open>
  The properties of \<open>SyncSession\<close> in every interleaving of its threads: none of them follows a null
  pointer, the states change as documented, every completion handler is called once, and each
  session of the client library is bound before it is used. Three runs show what goes wrong when
  the lock is released in between.
\<close>

lemma reachable_moves:
  "reachable reserve s w \<Longrightarrow> moves_world reserve ms w = Some w' \<Longrightarrow> reachable reserve s w'"
  by (induction ms arbitrary: w) (auto split: option.splits intro: reachable_move)

lemma reachable_run:
  "\<exists>w. moves_world reserve ms (start_world s) = Some w \<and> P w \<Longrightarrow>
    \<exists>w. reachable reserve s w \<and> P w"
  using reachable_moves [OF reachable_start] by blast

lemma initial_new_session: "config_user c \<noteq> None \<Longrightarrow> initial (new_session path c f b)"
  by (auto simp: initial_def)

lemmas run_defs =
  move_world_def exec_def public_action_def new_session_def start_world_def
  section_defs ok_def andthen_def call_client_def new_waits_def call_waiters_def
  handle_error_code_def protocol_error_actions_def finish_error_def make_sync_error_def
  is_client_reset_requested_def

definition connect :: "nat \<Rightarrow> move list" where
  "connect n = [Start Revive_If_Needed, Run n, Run n,
     Start (Refresh_Access_Token ''t'' (Some ''u'')), Run (Suc n)]"

text \<open>Configuration and runs of the examples.\<close>

definition sample_config :: sync_config where
  "sample_config =
     \<lparr>config_user = Some 0, reference_realm_url = ''realm'', stop_policy = After_Changes_Uploaded,
      error_handler = True, transformer = None, realm_encryption_key = None,
      client_validate_ssl = True, ssl_trust_certificate_path = None, ssl_verify_callback = None,
      proxy_config = None, is_partial = False, custom_partial_sync_identifier = None,
      cancel_waits_on_nonfatal_error = False, config_authorization_header = None,
      config_http_headers = [], config_url_prefix = None, recovery_directory = None,
      client_resync_mode = Manual\<rparr>"

lemma initial_sample: "initial (new_session path sample_config f b)"
  by (rule initial_new_session) (simp add: sample_config_def)

lemma connected_sample:
  obtains w where "reachable (\<lambda>_. []) (new_session [] sample_config False False) w"
    "entered (log w) = [Waiting_For_Access_Token, Active]" "called (log w) = {#}"
  using reachable_run [of "\<lambda>_. []" "connect 0" "new_session [] sample_config False False"
      "\<lambda>w. entered (log w) = [Waiting_For_Access_Token, Active] \<and> called (log w) = {#}"]
  by (auto simp: connect_def run_defs sample_config_def)

lemma settled_run:
  "\<exists>w. moves_world (\<lambda>_. []) (connect 0 @ [Start (Wait_For_Completion Upload 1), Run 2,
        Complete 0 Success, Run 3, Run 3]) (start_world (new_session [] sample_config False False))
      = Some w \<and>
     requested (log w) = {#1#} \<and> m_client_resync_counter (shared w) = 0 \<and> connected (shared w) \<and>
     concat (threads w) = [] \<and> waits w = [] \<and> m_client (shared w) = 1"
  by (simp add: connect_def run_defs sample_config_def connected_def)

lemma settled_sample:
  obtains w where "reachable (\<lambda>_. []) (new_session [] sample_config False False) w"
    "requested (log w) = {#1#}" "m_client_resync_counter (shared w) = 0" "connected (shared w)"
    "concat (threads w) = []" "waits w = []" "m_client (shared w) = 1"
  using reachable_run [OF settled_run] by auto

text \<open>C24: No thread of a session whose configuration has a user ever follows a null pointer or reads an
  empty value (the client session, its address, the user): whatever methods and callbacks run in whatever interleaving, the fields satisfy \<open>session_inv\<close> whenever the lock is
  free (there is no client session in the state inactive, there is one in the states active and
  dying, and a client session has been bound to an address), and every thread that has something
  left to do can do its next section.\<close>

theorem session_progress:
  assumes "reachable reserve s w" "initial s" "i < length (threads w)" "threads w ! i \<noteq> []"
  shows "session_inv (shared w) \<and> (\<exists>w'. move_world reserve (Run i) w = Some w')"
proof -
  have ok: "session_inv (shared w)" and users: "users_ok w"
    using reachable_invariant [OF assms(1,2), of "\<lambda>_. True"] by simp_all
  obtain a as where a: "threads w ! i = a # as"
    using assms(4) by (cases "threads w ! i") auto
  have "has_user a" using users a assms(3) nth_mem [of i "threads w"] by (auto simp: users_ok_def)
  then obtain s' es rest where "exec reserve a (shared w) = Some (s', es, rest)"
    using exec_facts [OF ok, of a reserve] by (auto elim: satE)
  then show ?thesis using ok a assms(3) by (simp add: move_world_def)
qed

theorem session_progress_witness:
  "\<exists>w. threads w = [[Call_Bind_Handler]] \<and> session_inv (shared w) \<and>
     (\<exists>w'. move_world (\<lambda>_. []) (Run 0) w = Some w')"
proof -
  let ?s = "new_session [] sample_config False False"
  obtain w where w: "reachable (\<lambda>_. []) ?s w" "threads w = [[Call_Bind_Handler]]"
    using reachable_run [of "\<lambda>_. []" "[Start Revive_If_Needed, Run 0]" ?s
        "\<lambda>w. threads w = [[Call_Bind_Handler]]"] by (auto simp: run_defs sample_config_def)
  then show ?thesis
    using session_progress [OF w(1) initial_sample, of 0] by auto
qed

text \<open>C28: The states are entered one after the other only by the transitions that the comment
  before the state classes lists, and the current state is the one entered last. The only
  exception is that the state inactive may be entered again from itself, which
  \<open>inactive_entered_twice\<close> shows to happen.\<close>

theorem session_transitions:
  assumes "reachable reserve s w" "initial s"
  shows "chained (\<lambda>a b. documented a b \<or> a = Inactive \<and> b = Inactive) Inactive (entered (log w)) \<and>
     m_state (shared w) = last (Inactive # entered (log w))"
  using path_reachable [OF assms] by (simp add: path_ok_def)

theorem session_transitions_witness:
  "\<exists>w::world. entered (log w) = [Waiting_For_Access_Token, Active] \<and>
     chained (\<lambda>a b. documented a b \<or> a = Inactive \<and> b = Inactive) Inactive (entered (log w)) \<and>
     m_state (shared w) = last (Inactive # entered (log w))"
proof -
  obtain w where w: "reachable (\<lambda>_. []) (new_session [] sample_config False False) w"
    "entered (log w) = [Waiting_For_Access_Token, Active]" "called (log w) = {#}"
    by (rule connected_sample)
  then show ?thesis
    using session_transitions [OF w(1) initial_sample] w by blast
qed

text \<open>C25: No completion handler is called twice, and none is called that was not requested. As long
  as there was no client resync none gets lost: every handler that was requested is still held by
  the session, is about to be called by a thread, or was called. The counting is by multisets, so
  handlers that were requested twice are called twice.\<close>

theorem callbacks_conserved:
  assumes "reachable reserve s w" "initial s"
  shows "called (log w) + due_threads w + registered (shared w) \<subseteq># requested (log w) \<and>
     (m_client_resync_counter (shared w) = 0 \<longrightarrow>
        called (log w) + due_threads w + registered (shared w) = requested (log w))"
  using callbacks_reachable [OF assms] by (simp add: callbacks_ok_def)

theorem callbacks_conserved_witness:
  "\<exists>w. requested (log w) = {#1#} \<and> m_client_resync_counter (shared w) = 0 \<and>
     called (log w) + due_threads w + registered (shared w) = requested (log w)"
proof -
  obtain w where w: "reachable (\<lambda>_. []) (new_session [] sample_config False False) w"
    "requested (log w) = {#1#}" "m_client_resync_counter (shared w) = 0"
    by (rule settled_sample)
  then show ?thesis
    using callbacks_conserved [OF w(1) initial_sample] w by blast
qed

text \<open>C26: When the session is connected (active or dying), the client library has completed all
  waits and all threads have come to an end, and there was no client resync, then every handler
  that was requested has been called exactly as often as it was requested: no handler waits for an
  event that does not come.\<close>

theorem settled_all_called:
  assumes "reachable reserve s w" "initial s"
    and "m_client_resync_counter (shared w) = 0" "connected (shared w)"
    and "concat (threads w) = []" "waits w = []"
  shows "called (log w) = requested (log w)"
proof -
  have "\<not> waits_for d (shared w)" for d
    using waits_reachable [OF assms(1,2)] assms(3,5,6) by (auto simp: waits_ok_def)
  then have "completion_callbacks d (shared w) = []" for d
    using assms(4) by (simp add: waits_for_def)
  from this [of Upload] this [of Download] have "registered (shared w) = {#}"
    by (simp add: registered_def completion_callbacks_def)
  then show ?thesis
    using callbacks_reachable [OF assms(1,2)] assms(3,5) by (simp add: callbacks_ok_def due_threads_def)
qed

theorem settled_all_called_witness:
  "\<exists>w::world. requested (log w) = {#1#} \<and> called (log w) = requested (log w)"
proof -
  obtain w where w: "reachable (\<lambda>_. []) (new_session [] sample_config False False) w"
    "requested (log w) = {#1#}" "m_client_resync_counter (shared w) = 0" "connected (shared w)"
    "concat (threads w) = []" "waits w = []"
    by (rule settled_sample)
  then show ?thesis
    using settled_all_called [OF w(1) initial_sample w(3-6)] w(2) by blast
qed

text \<open>C27: The protocol of the client library is kept: a session of the library is made, then bound
  exactly once, before any other call (waits included), and once the next session is made the
  earlier ones are not called again. The calls carry the numbers of the sessions.\<close>

theorem client_sessions_bound:
  assumes "reachable reserve s w" "initial s"
  shows "sorted (map fst (client_calls (log w))) \<and>
     (\<forall>p \<in> set (client_calls (log w)). fst p < m_client (shared w)) \<and>
     (\<forall>i < m_client (shared w). bound_first (calls_of i (log w)))"
  using clients_reachable [OF assms] by (simp add: clients_ok_def)

theorem client_sessions_bound_witness:
  "\<exists>w::world. m_client (shared w) = 1 \<and> bound_first (calls_of 0 (log w))"
proof -
  obtain w where w: "reachable (\<lambda>_. []) (new_session [] sample_config False False) w"
    "m_client (shared w) = 1"
    by (rule settled_sample)
  then show ?thesis
    using client_sessions_bound [OF w(1) initial_sample] w by auto
qed

text \<open>A thread that has only handlers to call calls them.\<close>

lemma run_waiters:
  "threads w = ts @ [call_waiters ec cbs] \<Longrightarrow>
    moves_world reserve (replicate (length cbs) (Run (length ts))) w
      = Some (w\<lparr>threads := ts @ [[]], log := log w @ map (\<lambda>cb. Called cb ec) cbs\<rparr>)"
proof (induction cbs arbitrary: w)
  case (Cons cb cbs)
  let ?w = "w\<lparr>threads := ts @ [call_waiters ec cbs], log := log w @ [Called cb ec]\<rparr>"
  have "move_world reserve (Run (length ts)) w = Some ?w"
    using Cons(2) by (simp add: move_world_def exec_def call_waiters_def new_waits_def)
  then show ?case using Cons(1) [of ?w] by simp
qed (simp add: call_waiters_def)

text \<open>C29: The late completion of a destroyed session of the client library aborts the handlers that
  wait for its successor. Let the session be connected, with handlers that wait for the current
  client session and with all threads idle, and let a wait of another client session still be
  pending. When the client library completes that wait with \<open>operation_aborted\<close>, nothing else has
  to happen for all the handlers to be called with this error, although the current client session
  goes on and its own wait is still pending. The code means to discard such completions, but
  \<open>m_client_resync_counter\<close> tells client sessions apart only after a client resync; a log out and in
  is enough to get there.\<close>

theorem late_completion_aborts:
  assumes "reachable reserve s w" "initial s" "m_client_resync_counter (shared w) = 0"
    and "concat (threads w) = []" "connected (shared w)" "m_session (shared w) = Some j"
    and "completion_callbacks d (shared w) \<noteq> []"
    and "i < length (waits w)" "waits w ! i = (k, Completion 0 d)" "k \<noteq> j"
  shows "\<exists>w'. moves_world reserve (Complete i Aborted #
        replicate (Suc (length (completion_callbacks d (shared w)))) (Run (length (threads w)))) w = Some w' \<and>
     log w' = log w @ map (\<lambda>cb. Called cb Aborted) (completion_callbacks d (shared w)) \<and>
     m_state (shared w') = m_state (shared w) \<and> m_session (shared w') = Some j \<and>
     (j, Completion 0 d) \<in> set (waits w')"
proof -
  let ?cbs = "completion_callbacks d (shared w)"
  let ?ts = "threads w"
  have "(j, Completion 0 d) \<in> set (waits w)"
    using waits_reachable [OF assms(1,2)] assms(3-7) by (simp add: waits_ok_def waits_for_def)
  moreover have "waits w = take i (waits w) @ (k, Completion 0 d) # drop (Suc i) (waits w)"
    using id_take_nth_drop [OF assms(8)] assms(9) by simp
  ultimately have pending: "(j, Completion 0 d) \<in> set (take i (waits w) @ drop (Suc i) (waits w))"
    using assms(10) by (metis Pair_inject Un_iff set_ConsD set_append)
  define w1 where "w1 = w\<lparr>waits := take i (waits w) @ drop (Suc i) (waits w),
    threads := ?ts @ [[Wait_Completed (Completion 0 d) Aborted]]\<rparr>"
  define w2 where "w2 = w1\<lparr>shared := set_completion_callbacks d [] (shared w), threads := ?ts @ [call_waiters Aborted ?cbs]\<rparr>"
  have "move_world reserve (Complete i Aborted) w = Some w1"
    using assms(8,9) by (simp add: move_world_def w1_def)
  moreover have "move_world reserve (Run (length ?ts)) w1 = Some w2"
    using assms(3) by (simp add: move_world_def w1_def w2_def exec_def wait_completed_def)
  moreover have "moves_world reserve (replicate (length ?cbs) (Run (length ?ts))) w2 =
      Some (w2\<lparr>threads := ?ts @ [[]], log := log w @ map (\<lambda>cb. Called cb Aborted) ?cbs\<rparr>)"
    using run_waiters [of w2 ?ts Aborted ?cbs reserve] by (simp add: w2_def w1_def)
  ultimately show ?thesis
    using pending assms(6) by (simp add: w2_def w1_def set_completion_callbacks_def split: direction.splits)
qed

text \<open>A user who logs out and in again, with a handler before and one after.\<close>

definition late_moves :: "move list" where
  "late_moves = connect 0
     @ [Start (Wait_For_Completion Upload 1), Run 2, Start Log_Out, Run 3, Run 3, Run 3]
     @ connect 4 @ [Start (Wait_For_Completion Upload 2), Run 6]"

lemma late_run:
  "\<exists>w. moves_world (\<lambda>_. []) late_moves (start_world (new_session [] sample_config False False)) = Some w \<and>
     m_client_resync_counter (shared w) = 0 \<and> threads w = replicate 7 [] \<and> connected (shared w) \<and>
     m_session (shared w) = Some 1 \<and> completion_callbacks Upload (shared w) = [2] \<and>
     waits w = [(0, Completion 0 Upload), (1, Completion 0 Upload)]"
  by (simp add: late_moves_def connect_def run_defs connected_def sample_config_def completion_callbacks_def)
    (simp add: eval_nat_numeral)

theorem late_completion_aborts_witness:
  "\<exists>w w'. completion_callbacks Upload (shared w) = [2] \<and> m_session (shared w) = Some 1 \<and>
     moves_world (\<lambda>_. []) [Complete 0 Aborted, Run 7, Run 7] w = Some w' \<and>
     log w' = log w @ [Called 2 Aborted] \<and> (1, Completion 0 Upload) \<in> set (waits w')"
proof -
  obtain w where w: "reachable (\<lambda>_. []) (new_session [] sample_config False False) w"
    "m_client_resync_counter (shared w) = 0" "threads w = replicate 7 []" "connected (shared w)"
    "m_session (shared w) = Some 1" "completion_callbacks Upload (shared w) = [2]"
    "waits w = [(0, Completion 0 Upload), (1, Completion 0 Upload)]"
    using reachable_run [OF late_run] by auto
  have "concat (threads w) = []" "completion_callbacks Upload (shared w) \<noteq> []"
    "0 < length (waits w)" "waits w ! 0 = (0, Completion 0 Upload)" "(0 :: nat) \<noteq> 1"
    using w(3,6,7) by simp_all
  then show ?thesis
    using late_completion_aborts [OF w(1) initial_sample w(2) _ w(4,5), of Upload 0 0] w(3,5,6)
    by (auto simp: numeral_2_eq_2)
qed

definition lost_moves :: "move list" where
  "lost_moves = connect 0
     @ [Start (Wait_For_Completion Upload 1), Run 2,
        Start (Handle_Error (make_sync_error (Protocol_code PE_bad_server_version) [] True)),
        Run 3, Run 3, Run 3,
        Start (Wait_For_Completion Upload 2), Run 4,
        Run 3, Run 3, Run 3, Run 3,
        Start (Refresh_Access_Token ''t'' None), Run 5,
        Complete 0 Aborted, Run 6, Complete 0 Success, Run 7, Run 7]"

lemma lost_run:
  "\<exists>w. moves_world reserve lost_moves
      (start_world (new_session p (c\<lparr>client_resync_mode := Recover\<rparr>) f b)) = Some w \<and>
     connected (shared w) \<and> concat (threads w) = [] \<and> waits w = [] \<and>
     requested (log w) = {#1, 2#} \<and> called (log w) = {#1#} \<and> registered (shared w) = {#}"
  by (simp add: lost_moves_def connect_def run_defs connected_def registered_def)

text \<open>C30: A handler that is registered while a client resync puts the session into the state
  inactive is lost: the resync puts the handlers it has saved back after the lock was released,
  and overwrites the list. At the end of the run the session is connected, no thread and no wait
  is left, two handlers were requested and only the first was called.\<close>

theorem resync_loses_handler:
  "\<exists>w. reachable reserve (new_session p (c\<lparr>client_resync_mode := Recover\<rparr>) f b) w \<and>
     connected (shared w) \<and> concat (threads w) = [] \<and> waits w = [] \<and>
     requested (log w) = {#1, 2#} \<and> called (log w) = {#1#} \<and> registered (shared w) = {#}"
  by (rule reachable_run [OF lost_run])

definition twice_moves :: "move list" where
  "twice_moves = connect 0
     @ [Start (Handle_Error (make_sync_error (Protocol_code PE_permission_denied) [] True)),
        Run 2, Run 2, Run 2, Run 2, Start Log_Out, Run 3, Run 2]"

lemma twice_run:
  "\<exists>w. moves_world reserve twice_moves (start_world (new_session p (c\<lparr>config_user := Some u\<rparr>) f b)) = Some w \<and>
     entered (log w) = [Waiting_For_Access_Token, Active, Inactive, Inactive]"
  by (simp add: twice_moves_def connect_def run_defs)

text \<open>When the user logs out while an error is handled on another thread, the error handler moves
  an inactive session to inactive again, against the assertion of \<open>advance_state\<close> that the new state
  differs.\<close>

theorem inactive_entered_twice:
  "\<exists>w. reachable reserve (new_session p (c\<lparr>config_user := Some u\<rparr>) f b) w \<and>
     entered (log w) = [Waiting_For_Access_Token, Active, Inactive, Inactive]"
  by (rule reachable_run [OF twice_run])

end
