(* ===== verification/Callback_List.thy ===== *)
theory Callback_List
  imports Prelude
begin

section \<open>Calling back a list that changes\<close>

text \<open>
  Notifiers keep a vector of callbacks and call them one after the other without holding the lock,
  so that a callback may add and remove callbacks while the vector is walked through. The walk uses
  two fields: \<open>m_callback_index\<close>, which removals in front of it decrease, and \<open>m_callback_count\<close>,
  the number of callbacks that take part, so that new ones are not called.
  \<open>SyncSession::ConnectionChangeNotifier\<close> (\<open>ObjectStore/sync/sync_session.cpp\<close>) is modelled here, and
  the walk in the form that \<open>CollectionNotifier\<close> (\<open>ObjectStore/impl/collection_notifier.cpp\<close>) shares.

  What a callback does is a parameter: it sees the calls made so far and gives the operations that
  are run before the walk takes the lock again, be it by the callback or by another thread. The
  walk is a partial function, because callbacks can keep it going forever; reading past the vector
  is the outcome \<open>Out_Of_Range\<close>. A token that is not in the vector is ignored, as in a release build.
\<close>

definition sz_inc :: "nat \<Rightarrow> nat" where
  "sz_inc a = (if a = npos then 0 else Suc a)"

record 'd notifier =
  m_callbacks :: "(nat \<times> 'd) list"
  m_callback_index :: nat
  m_callback_count :: nat
  m_next_token :: nat

definition new_notifier :: "'d notifier" where
  "new_notifier = \<lparr>m_callbacks = [], m_callback_index = npos, m_callback_count = npos, m_next_token = 0\<rparr>"

definition find_token :: "nat \<Rightarrow> ('d, 'm) notifier_scheme \<Rightarrow> nat" where
  "find_token token n = find_if (\<lambda>c. fst c = token) (m_callbacks n)"

definition add_callback :: "'d \<Rightarrow> ('d, 'm) notifier_scheme \<Rightarrow> ('d, 'm) notifier_scheme" where
  "add_callback d n =
     n\<lparr>m_callbacks := m_callbacks n @ [(m_next_token n, d)], m_next_token := Suc (m_next_token n)\<rparr>"

definition remove_callback :: "nat \<Rightarrow> ('d, 'm) notifier_scheme \<Rightarrow> ('d, 'm) notifier_scheme" where
  "remove_callback token n =
     (let idx = find_token token n
      in if idx = length (m_callbacks n) then n
         else n\<lparr>m_callback_index :=
                  (if m_callback_index n \<noteq> npos \<and> m_callback_index n \<ge> idx
                   then sz_sub (m_callback_index n) 1 else m_callback_index n),
                m_callback_count := sz_sub (m_callback_count n) 1,
                m_callbacks := take idx (m_callbacks n) @ drop (Suc idx) (m_callbacks n)\<rparr>)"

subsection \<open>The walk\<close>

datatype 'd operation = Add 'd | Remove nat

datatype ('p, 'n) outcome =
    Finished "(nat \<times> 'p) list" 'n
  | Out_Of_Range "(nat \<times> 'p) list"

definition perform ::
  "('d \<Rightarrow> 'n \<Rightarrow> 'n) \<Rightarrow> (nat \<Rightarrow> 'n \<Rightarrow> 'n) \<Rightarrow> 'd operation \<Rightarrow> 'n \<Rightarrow> 'n" where
  "perform add remove p n = (case p of Add d \<Rightarrow> add d n | Remove t \<Rightarrow> remove t n)"

text \<open>\<open>visit\<close> is what is done with an entry while the lock is held: its new data, and the argument of
  the call if the callback is called.\<close>

partial_function (option) for_each ::
  "('d operation \<Rightarrow> ('d, 'm) notifier_scheme \<Rightarrow> ('d, 'm) notifier_scheme) \<Rightarrow>
   ('d \<Rightarrow> 'd \<times> 'p option) \<Rightarrow> ((nat \<times> 'p) list \<Rightarrow> 'd operation list) \<Rightarrow>
   (nat \<times> 'p) list \<Rightarrow> ('d, 'm) notifier_scheme \<Rightarrow> ('p, ('d, 'm) notifier_scheme) outcome option"
where
  "for_each act visit react calls n =
     (if m_callback_index n < m_callback_count n then
        if m_callback_index n < length (m_callbacks n) then
          let (token, d) = m_callbacks n ! m_callback_index n;
              (d', call) = visit d;
              n = n\<lparr>m_callbacks := (m_callbacks n)[m_callback_index n := (token, d')]\<rparr>
          in (case call of
                None \<Rightarrow> for_each act visit react calls
                  (n\<lparr>m_callback_index := sz_inc (m_callback_index n)\<rparr>)
              | Some p \<Rightarrow>
                  let calls = calls @ [(token, p)];
                      n = fold act (react calls) n
                  in for_each act visit react calls
                       (n\<lparr>m_callback_index := sz_inc (m_callback_index n)\<rparr>))
        else Some (Out_Of_Range calls)
      else Some (Finished calls (n\<lparr>m_callback_index := npos\<rparr>)))"

text \<open>The first statement of the loop increments the index. \<open>invoke_callbacks\<close> first counts the
  callbacks.\<close>

definition for_each_callback where
  "for_each_callback act visit react n =
     for_each act visit react [] (n\<lparr>m_callback_index := sz_inc (m_callback_index n)\<rparr>)"

definition invoke_callbacks ::
  "'p \<Rightarrow> ((nat \<times> 'p) list \<Rightarrow> 'd operation list) \<Rightarrow> ('d, 'm) notifier_scheme \<Rightarrow>
   ('p, ('d, 'm) notifier_scheme) outcome option" where
  "invoke_callbacks change react n =
     for_each_callback (perform add_callback remove_callback) (\<lambda>d. (d, Some change)) react
       (n\<lparr>m_callback_count := length (m_callbacks n)\<rparr>)"

subsection \<open>What a walk should do\<close>

definition removed :: "'d operation list \<Rightarrow> nat set" where
  "removed ps = {t. Remove t \<in> set ps}"

text \<open>Every callback that was there at the start is visited in its turn, unless it has been removed
  by then.\<close>

primrec deliveries ::
  "('d \<Rightarrow> 'd \<times> 'p option) \<Rightarrow> ((nat \<times> 'p) list \<Rightarrow> 'd operation list) \<Rightarrow>
   nat set \<Rightarrow> (nat \<times> 'p) list \<Rightarrow> (nat \<times> 'd) list \<Rightarrow> (nat \<times> 'p) list" where
  "deliveries visit react gone calls [] = calls"
| "deliveries visit react gone calls (c # cs) =
     (if fst c \<in> gone then deliveries visit react gone calls cs
      else (case snd (visit (snd c)) of
          None \<Rightarrow> deliveries visit react gone calls cs
        | Some p \<Rightarrow> let calls = calls @ [(fst c, p)]
                    in deliveries visit react (gone \<union> removed (react calls)) calls cs))"

text \<open>A notifier on which no walk is going on: the tokens are different and have all been given.\<close>

definition notifier_ok :: "('d, 'm) notifier_scheme \<Rightarrow> bool" where
  "notifier_ok n \<longleftrightarrow> m_callback_index n = npos \<and> length (m_callbacks n) < npos \<and>
     distinct (map fst (m_callbacks n)) \<and> (\<forall>c \<in> set (m_callbacks n). fst c < m_next_token n)"

subsection \<open>The walk is correct\<close>

text \<open>While a callback runs, the vector has the entries that had their turn, those that are still to
  come and the new ones; the index is that of the last entry of the first part.\<close>

definition walking :: "nat \<Rightarrow> (nat \<times> 'd) list \<Rightarrow> (nat \<times> 'd) list \<Rightarrow> (nat \<times> 'd) list \<Rightarrow>
    ('d, 'm) notifier_scheme \<Rightarrow> bool" where
  "walking N xs ys zs n \<longleftrightarrow>
     m_callbacks n = xs @ ys @ zs \<and>
     m_callback_index n = (if xs = [] then npos else length xs - 1) \<and>
     m_callback_count n = length xs + length ys \<and> length xs + length ys < npos \<and>
     distinct (map fst (xs @ ys @ zs)) \<and>
     (\<forall>c \<in> set (xs @ ys). fst c < N) \<and> (\<forall>c \<in> set zs. N \<le> fst c \<and> fst c < m_next_token n) \<and>
     N \<le> m_next_token n"

definition core :: "('d, 'm) notifier_scheme \<Rightarrow> (nat \<times> 'd) list \<times> nat \<times> nat \<times> nat" where
  "core n = (m_callbacks n, m_callback_index n, m_callback_count n, m_next_token n)"

lemma walking_core: "core n = core n' \<Longrightarrow> walking N xs ys zs n = walking N xs ys zs n'"
  by (simp add: walking_def core_def)

lemma sz_sub_one: "sz_sub m 1 = (if m = 0 then npos else m - 1)"
  by (auto simp: sz_sub_def npos_def)

text \<open>Without the entry of a token a list is filtered.\<close>

lemma without_token:
  assumes "distinct (map fst cs)" "t \<in> fst ` set cs"
  obtains as c bs where "cs = as @ c # bs" "fst c = t"
    "\<forall>x \<in> set as. fst x \<noteq> t" "filter (\<lambda>c. fst c \<noteq> t) cs = as @ bs"
proof -
  obtain c as bs where c: "cs = as @ c # bs" "fst c = t"
    using assms(2) by (metis imageE split_list)
  then have "\<forall>x \<in> set as. fst x \<noteq> t" "\<forall>x \<in> set bs. fst x \<noteq> t"
    using assms(1) by (auto simp: rev_image_eqI)
  then show thesis
    using c by (intro that [of as c bs]) (auto simp: filter_id_conv)
qed

lemma remove_present:
  assumes "m_callbacks n = as @ c # bs" "fst c = t"
    "find_if (\<lambda>c. fst c = t) (m_callbacks n) = length as"
  shows "remove_callback t n = n\<lparr>m_callback_index :=
       (if m_callback_index n \<noteq> npos \<and> m_callback_index n \<ge> length as
        then sz_sub (m_callback_index n) 1 else m_callback_index n),
       m_callback_count := sz_sub (m_callback_count n) 1, m_callbacks := as @ bs\<rparr>"
  using assms by (simp add: remove_callback_def find_token_def Let_def)

lemma remove_absent:
  assumes "t \<notin> fst ` set (m_callbacks n)"
  shows "remove_callback t n = n"
proof -
  have "takeWhile (\<lambda>c. fst c \<noteq> t) (m_callbacks n) = m_callbacks n"
    using assms by (auto simp: takeWhile_eq_all_conv rev_image_eqI)
  then have "find_token t n = length (m_callbacks n)"
    unfolding find_token_def find_if_def by metis
  then show ?thesis
    by (simp add: remove_callback_def)
qed

lemma remove_walking:
  assumes "walking N xs ys zs n" "t < N"
  shows "walking N (filter (\<lambda>c. fst c \<noteq> t) xs) (filter (\<lambda>c. fst c \<noteq> t) ys) zs (remove_callback t n)"
proof (cases "t \<in> fst ` set (xs @ ys @ zs)")
  case False
  then have "filter (\<lambda>c. fst c \<noteq> t) xs = xs" "filter (\<lambda>c. fst c \<noteq> t) ys = ys"
    by (auto simp: filter_id_conv rev_image_eqI)
  moreover have "remove_callback t n = n"
    using False assms(1) by (intro remove_absent) (simp add: walking_def)
  ultimately show ?thesis using assms(1) by simp
next
  case True
  have dist: "distinct (map fst (xs @ ys @ zs))" and cbs: "m_callbacks n = xs @ ys @ zs"
    using assms(1) by (auto simp: walking_def)
  have "t \<notin> fst ` set zs"
    using assms by (force simp: walking_def)
  then consider "t \<in> fst ` set xs" | "t \<in> fst ` set ys"
    using True by auto
  then show ?thesis
  proof cases
    case 1
    have "distinct (map fst xs)" using dist by simp
    from this 1 obtain as c bs where s: "xs = as @ c # bs" "fst c = t"
      "\<forall>x \<in> set as. fst x \<noteq> t" "filter (\<lambda>c. fst c \<noteq> t) xs = as @ bs"
      by (rule without_token)
    have ys: "filter (\<lambda>c. fst c \<noteq> t) ys = ys"
      using dist s(1,2) by (auto simp: filter_id_conv rev_image_eqI)
    have "find_if (\<lambda>c. fst c = t) (m_callbacks n) = length as"
      using s(3) unfolding cbs s(1) using s(2) by (simp add: find_if_def takeWhile_append)
    then have "remove_callback t n = n\<lparr>m_callback_index :=
       (if m_callback_index n \<noteq> npos \<and> m_callback_index n \<ge> length as
        then sz_sub (m_callback_index n) 1 else m_callback_index n),
       m_callback_count := sz_sub (m_callback_count n) 1, m_callbacks := as @ bs @ ys @ zs\<rparr>"
      using remove_present [of n as c "bs @ ys @ zs" t] cbs s(1,2) by simp
    then show ?thesis
      using assms(1) unfolding s(4) ys
      by (auto simp: walking_def s(1) sz_sub_one [simplified])
  next
    case 2
    have "distinct (map fst ys)" using dist by simp
    from this 2 obtain as c bs where s: "ys = as @ c # bs" "fst c = t"
      "\<forall>x \<in> set as. fst x \<noteq> t" "filter (\<lambda>c. fst c \<noteq> t) ys = as @ bs"
      by (rule without_token)
    have xs: "filter (\<lambda>c. fst c \<noteq> t) xs = xs" "\<forall>x \<in> set xs. fst x \<noteq> t"
      using dist s(1,2) by (auto simp: filter_id_conv rev_image_eqI)
    have "find_if (\<lambda>c. fst c = t) (m_callbacks n) = length (xs @ as)"
      using s(3) xs(2) unfolding cbs s(1) using s(2) by (simp add: find_if_def takeWhile_append)
    then have "remove_callback t n = n\<lparr>m_callback_index :=
       (if m_callback_index n \<noteq> npos \<and> m_callback_index n \<ge> length (xs @ as)
        then sz_sub (m_callback_index n) 1 else m_callback_index n),
       m_callback_count := sz_sub (m_callback_count n) 1, m_callbacks := (xs @ as) @ bs @ zs\<rparr>"
      using remove_present [of n "xs @ as" c "bs @ zs" t] cbs s(1,2) by simp
    then show ?thesis
      using assms(1) unfolding s(4) xs(1)
      by (auto simp: walking_def s(1) sz_sub_one [simplified])
  qed
qed

lemma add_walking:
  assumes "walking N xs ys zs n"
  shows "walking N xs ys (zs @ [(m_next_token n, d)]) (add_callback d n)"
proof -
  have less: "fst c < m_next_token n" if "c \<in> set (xs @ ys @ zs)" for c
    using assms that unfolding walking_def by (metis Un_iff set_append order.strict_trans2)
  then have "m_next_token n \<notin> fst ` set (xs @ ys @ zs)"
    by force
  moreover have "distinct (map fst (xs @ ys @ zs))"
    using assms by (simp add: walking_def)
  ultimately have "distinct (map fst (xs @ ys @ zs @ [(m_next_token n, d)]))"
    by (auto simp: rev_image_eqI)
  then show ?thesis
    using assms less by (auto simp: walking_def add_callback_def less_Suc_eq)
qed

subsection \<open>Notifiers\<close>

text \<open>A notifier adds and removes callbacks with \<open>act\<close>. All the walk needs to know is that \<open>act\<close>
  treats the vector, the index, the count and the tokens as \<open>add_callback\<close> and \<open>remove_callback\<close>
  do.\<close>

locale notifier_operations =
  fixes act :: "'d operation \<Rightarrow> ('d, 'm) notifier_scheme \<Rightarrow> ('d, 'm) notifier_scheme"
  assumes act_core: "core (act p n) = core (perform add_callback remove_callback p n)"
begin

lemma act_walking:
  assumes "walking N xs ys zs n" "removed [p] \<subseteq> {..<N}"
  shows "\<exists>zs'. walking N (filter (\<lambda>c. fst c \<notin> removed [p]) xs)
    (filter (\<lambda>c. fst c \<notin> removed [p]) ys) zs' (act p n)"
proof (cases p)
  case (Add d)
  then show ?thesis
    using add_walking [OF assms(1), of d]
    by (auto simp: removed_def perform_def walking_core [OF act_core])
next
  case (Remove t)
  then show ?thesis
    using remove_walking [OF assms(1), of t] assms(2)
    by (auto simp: removed_def perform_def walking_core [OF act_core])
qed

lemma acts_walking:
  assumes "walking N xs ys zs n" "removed ps \<subseteq> {..<N}"
  shows "\<exists>zs'. walking N (filter (\<lambda>c. fst c \<notin> removed ps) xs)
    (filter (\<lambda>c. fst c \<notin> removed ps) ys) zs' (fold act ps n)"
  using assms
proof (induction ps arbitrary: xs ys zs n)
  case Nil
  then show ?case by (auto simp: removed_def)
next
  case (Cons p ps)
  have parts: "removed [p] \<subseteq> {..<N}" "removed ps \<subseteq> {..<N}"
    and un: "removed (p # ps) = removed [p] \<union> removed ps"
    using Cons.prems(2) by (auto simp: removed_def)
  obtain zs1 where "walking N (filter (\<lambda>c. fst c \<notin> removed [p]) xs)
      (filter (\<lambda>c. fst c \<notin> removed [p]) ys) zs1 (act p n)"
    using act_walking [OF Cons.prems(1) parts(1)] by blast
  from Cons.IH [OF this parts(2)] show ?case
    by (simp add: un conj_commute)
qed

lemma walk_step:
  assumes "walking N xs (c # ys) zs n"
  shows "m_callback_index (n\<lparr>m_callback_index := sz_inc (m_callback_index n)\<rparr>) = length xs"
    "m_callbacks n ! length xs = c" "length xs < m_callback_count n"
    "length xs < length (m_callbacks n)"
    "walking N (xs @ [(fst c, d)]) ys zs (n\<lparr>m_callback_index := length xs,
       m_callbacks := (m_callbacks n)[length xs := (fst c, d)]\<rparr>)"
  using assms by (auto simp: walking_def sz_inc_def nth_append)

lemma for_each_deliveries:
  assumes "walking N xs (filter (\<lambda>c. fst c \<notin> gone) cs) zs n"
    and react: "\<And>calls. removed (react calls) \<subseteq> {..<N}"
  shows "\<exists>n'. for_each act visit react calls (n\<lparr>m_callback_index := sz_inc (m_callback_index n)\<rparr>)
      = Some (Finished (deliveries visit react gone calls cs) n') \<and> m_callback_index n' = npos"
  using assms(1)
proof (induction cs arbitrary: xs zs n gone calls)
  case Nil
  then have "\<not> sz_inc (m_callback_index n) < m_callback_count n"
    by (auto simp: walking_def sz_inc_def)
  then show ?case
    by (subst for_each.simps) simp
next
  case (Cons c cs)
  show ?case
  proof (cases "fst c \<in> gone")
    case True
    then show ?thesis using Cons.IH [of xs gone zs n calls] Cons.prems by simp
  next
    case False
    then have w: "walking N xs (c # filter (\<lambda>c. fst c \<notin> gone) cs) zs n"
      using Cons.prems by simp
    obtain token d where c: "c = (token, d)" by (cases c)
    obtain d' call where v: "visit d = (d', call)" by (cases "visit d")
    let ?n = "n\<lparr>m_callback_index := length xs,
       m_callbacks := (m_callbacks n)[length xs := (token, d')]\<rparr>"
    have inc: "sz_inc (m_callback_index n) = length xs"
      using walk_step(1) [OF w] by simp
    note entry = walk_step(2-4) [OF w] inc
    have w': "walking N (xs @ [(token, d')]) (filter (\<lambda>c. fst c \<notin> gone) cs) zs ?n"
      using walk_step(5) [OF w, of d'] c by simp
    show ?thesis
    proof (cases call)
      case None
      have "for_each act visit react calls (n\<lparr>m_callback_index := sz_inc (m_callback_index n)\<rparr>)
          = for_each act visit react calls (?n\<lparr>m_callback_index := sz_inc (m_callback_index ?n)\<rparr>)"
        by (subst for_each.simps) (simp add: entry c v None)
      then show ?thesis using Cons.IH [OF w', of calls] False c v None by simp
    next
      case (Some p)
      let ?calls = "calls @ [(token, p)]"
      let ?m = "fold act (react ?calls) ?n"
      have step: "for_each act visit react calls (n\<lparr>m_callback_index := sz_inc (m_callback_index n)\<rparr>)
          = for_each act visit react ?calls (?m\<lparr>m_callback_index := sz_inc (m_callback_index ?m)\<rparr>)"
        by (subst for_each.simps) (simp add: entry c v Some Let_def)
      obtain xs' zs' where "walking N xs' (filter (\<lambda>c. fst c \<notin> removed (react ?calls))
          (filter (\<lambda>c. fst c \<notin> gone) cs)) zs' ?m"
        using acts_walking [OF w' react] by blast
      then have "walking N xs' (filter (\<lambda>c. fst c \<notin> gone \<union> removed (react ?calls)) cs) zs' ?m"
        by (simp add: conj_commute)
      from Cons.IH [OF this, of ?calls] show ?thesis
        using step False c v Some by (simp add: Let_def)
    qed
  qed
qed

text \<open>The walk over the first \<open>k\<close> callbacks, when no walk was going on.\<close>

lemma for_each_callback_deliveries:
  assumes "notifier_ok n" "m_callback_count n = k" "k \<le> length (m_callbacks n)"
    and react: "\<And>calls. removed (react calls) \<subseteq> {..<N}"
    and "\<And>c. c \<in> set (drop k (m_callbacks n)) \<Longrightarrow> N \<le> fst c"
    and "\<And>c. c \<in> set (take k (m_callbacks n)) \<Longrightarrow> fst c < N" "N \<le> m_next_token n"
  shows "\<exists>n'. for_each_callback act visit react n
      = Some (Finished (deliveries visit react {} [] (take k (m_callbacks n))) n')
      \<and> m_callback_index n' = npos"
proof -
  have cbs: "take k (m_callbacks n) @ drop k (m_callbacks n) = m_callbacks n" by simp
  have "walking N [] (filter (\<lambda>c. fst c \<notin> {}) (take k (m_callbacks n))) (drop k (m_callbacks n)) n"
    using assms(1-3,5-7) cbs unfolding walking_def notifier_ok_def
    by (auto dest: in_set_dropD)
  then show ?thesis
    unfolding for_each_callback_def
    by (rule for_each_deliveries) (rule react)
qed

end

interpretation plain: notifier_operations "perform add_callback remove_callback"
  by unfold_locales simp

end
