(* ===== verification/Collection_Notifier.thy ===== *)
theory Collection_Notifier
  imports Callback_List Change_Builder
begin

section \<open>Collection notifiers\<close>

text \<open>
  \<open>CollectionNotifier\<close> (\<open>ObjectStore/impl/collection_notifier.cpp\<close>) keeps, for every callback, the
  changes it has not been told yet. The background thread merges the changes of each transaction
  into them (\<open>add_changes\<close>), the target thread packages them (\<open>package_for_delivery\<close>) and walks
  through the callbacks before and after it advances. Waking up threads, the shared group and the
  transaction versions belong to other components; that a callback is a function and that a removed
  one is destroyed outside the lock has no counterpart here.
\<close>

record callback_data =
  accumulated_changes :: change_builder
  changes_to_deliver :: change_set
  initial_delivered :: bool
  skip_next :: bool

record collection_notifier = "callback_data notifier" +
  m_have_callbacks :: bool
  m_error :: bool

definition no_changes :: change_set where
  "no_changes = \<lparr>deletions = [], insertions = [], modifications = [], modifications_new = [],
     moves = [], columns = []\<rparr>"

definition new_callback :: callback_data where
  "new_callback = \<lparr>accumulated_changes = empty_builder, changes_to_deliver = no_changes,
     initial_delivered = False, skip_next = False\<rparr>"

definition add_collection_callback ::
  "callback_data \<Rightarrow> collection_notifier \<Rightarrow> collection_notifier" where
  "add_collection_callback d n =
     (let n' = add_callback d n
      in if m_callback_index n' = npos then n'\<lparr>m_have_callbacks := True\<rparr> else n')"

definition remove_collection_callback :: "nat \<Rightarrow> collection_notifier \<Rightarrow> collection_notifier" where
  "remove_collection_callback token n =
     (if find_token token n = length (m_callbacks n) then n
      else let n' = remove_callback token n
           in n'\<lparr>m_have_callbacks := (m_callbacks n' \<noteq> [])\<rparr>)"

definition perform_collection ::
  "callback_data operation \<Rightarrow> collection_notifier \<Rightarrow> collection_notifier" where
  "perform_collection = perform add_collection_callback remove_collection_callback"

definition suppress_next_notification :: "nat \<Rightarrow> collection_notifier \<Rightarrow> collection_notifier" where
  "suppress_next_notification token n =
     (let it = find_token token n
      in if it = length (m_callbacks n) then n
         else n\<lparr>m_callbacks := (m_callbacks n)[it :=
                  (fst (m_callbacks n ! it), (snd (m_callbacks n ! it))\<lparr>skip_next := True\<rparr>)]\<rparr>)"

subsection \<open>Collecting and packaging changes\<close>

definition add_change :: "change_builder \<Rightarrow> callback_data \<Rightarrow> callback_data" where
  "add_change change d =
     (if skip_next d then d\<lparr>skip_next := False\<rparr>
      else d\<lparr>accumulated_changes := merge (accumulated_changes d) change\<rparr>)"

definition add_changes :: "change_builder \<Rightarrow> collection_notifier \<Rightarrow> collection_notifier" where
  "add_changes change n = n\<lparr>m_callbacks := map (map_prod id (add_change change)) (m_callbacks n)\<rparr>"

text \<open>What \<open>finalize\<close> leaves behind in the builder it moves the sets out of.\<close>

definition given_up :: "change_builder \<Rightarrow> change_builder" where
  "given_up c = c\<lparr>deletions := [], insertions := [], modifications := [], moves := [], columns := []\<rparr>"

definition package_changes :: "callback_data \<Rightarrow> callback_data" where
  "package_changes d =
     d\<lparr>changes_to_deliver := finalize (accumulated_changes d),
       accumulated_changes := given_up (accumulated_changes d)\<rparr>"

definition package_for_delivery :: "bool \<Rightarrow> collection_notifier \<Rightarrow> bool \<times> collection_notifier" where
  "package_for_delivery prepared n =
     (if \<not> prepared then (False, n)
      else (True, n\<lparr>m_callbacks := map (map_prod id package_changes) (m_callbacks n),
                    m_callback_count := length (m_callbacks n)\<rparr>))"

subsection \<open>Delivery\<close>

definition before_visit :: "callback_data \<Rightarrow> callback_data \<times> change_set option" where
  "before_visit d =
     (if change_set_empty (changes_to_deliver d) then (d, None) else (d, Some (changes_to_deliver d)))"

definition before_advance ::
  "((nat \<times> change_set) list \<Rightarrow> callback_data operation list) \<Rightarrow> collection_notifier \<Rightarrow>
   (change_set, collection_notifier) outcome option" where
  "before_advance react n = for_each_callback perform_collection before_visit react n"

definition after_visit :: "callback_data \<Rightarrow> callback_data \<times> change_set option" where
  "after_visit d =
     (if initial_delivered d \<and> change_set_empty (changes_to_deliver d) then (d, None)
      else (d\<lparr>initial_delivered := True, changes_to_deliver := no_changes\<rparr>,
            Some (changes_to_deliver d)))"

definition after_advance ::
  "((nat \<times> change_set) list \<Rightarrow> callback_data operation list) \<Rightarrow> collection_notifier \<Rightarrow>
   (change_set, collection_notifier) outcome option" where
  "after_advance react n = for_each_callback perform_collection after_visit react n"

text \<open>After the call the callback is removed, whatever it did.\<close>

definition deliver_error ::
  "'e \<Rightarrow> ((nat \<times> 'e) list \<Rightarrow> callback_data operation list) \<Rightarrow> collection_notifier \<Rightarrow>
   ('e, collection_notifier) outcome option" where
  "deliver_error err react n =
     for_each_callback perform_collection (\<lambda>d. (d, Some err))
       (\<lambda>calls. react calls @ [Remove (fst (last calls))])
       (n\<lparr>m_error := True, m_callback_count := length (m_callbacks n)\<rparr>)"

subsection \<open>The walk of a collection notifier\<close>

lemma perform_collection_core:
  "core (perform_collection p n) = core (perform add_callback remove_callback p n)"
  by (cases p) (auto simp: perform_collection_def perform_def core_def add_collection_callback_def
      remove_collection_callback_def remove_callback_def Let_def)

interpretation collection: notifier_operations perform_collection
  by unfold_locales (rule perform_collection_core)

lemma add_collection_callback_simps [simp]:
  "m_callbacks (add_collection_callback d n) = m_callbacks n @ [(m_next_token n, d)]"
  "m_callback_index (add_collection_callback d n) = m_callback_index n"
  "m_callback_count (add_collection_callback d n) = m_callback_count n"
  "m_next_token (add_collection_callback d n) = Suc (m_next_token n)"
  by (simp_all add: add_collection_callback_def add_callback_def Let_def)

lemma added_fields [simp]:
  "m_callback_index (fold add_collection_callback ds n) = m_callback_index n"
  "m_callback_count (fold add_collection_callback ds n) = m_callback_count n"
  "m_next_token (fold add_collection_callback ds n) = m_next_token n + length ds"
  by (induction ds arbitrary: n) simp_all

lemma added_callbacks:
  "\<exists>cs. m_callbacks (fold add_collection_callback ds n) = m_callbacks n @ cs \<and>
     length cs = length ds \<and> distinct (map fst cs) \<and>
     (\<forall>c \<in> set cs. m_next_token n \<le> fst c \<and> fst c < m_next_token n + length ds)"
proof (induction ds arbitrary: n)
  case (Cons d ds)
  obtain cs where "m_callbacks (fold add_collection_callback ds (add_collection_callback d n))
      = m_callbacks (add_collection_callback d n) @ cs" "length cs = length ds"
    "distinct (map fst cs)" "\<forall>c \<in> set cs. Suc (m_next_token n) \<le> fst c \<and>
       fst c < Suc (m_next_token n) + length ds"
    using Cons.IH [of "add_collection_callback d n"] by auto
  then show ?case
    by (intro exI [of _ "(m_next_token n, d) # cs"]) fastforce
qed simp

lemma add_changes_fold:
  assumes "\<forall>c \<in> set (m_callbacks n). \<not> skip_next (snd c)"
  shows "fold add_changes cs n = n\<lparr>m_callbacks := map (map_prod id (\<lambda>d.
     d\<lparr>accumulated_changes := foldl merge (accumulated_changes d) cs\<rparr>)) (m_callbacks n)\<rparr>"
  using assms
proof (induction cs arbitrary: n)
  case Nil
  have "map (map_prod id (\<lambda>d. d\<lparr>accumulated_changes := accumulated_changes d\<rparr>)) (m_callbacks n)
      = m_callbacks n"
    by (intro map_idI) auto
  then show ?case by simp
next
  case (Cons c cs)
  have add: "add_changes c n = n\<lparr>m_callbacks := map (map_prod id (\<lambda>d.
      d\<lparr>accumulated_changes := merge (accumulated_changes d) c\<rparr>)) (m_callbacks n)\<rparr>"
    using Cons.prems
    by (force simp: add_changes_def add_change_def intro!: arg_cong [of _ _ "\<lambda>x. n\<lparr>m_callbacks := x\<rparr>"])
  then have "\<forall>c \<in> set (m_callbacks (add_changes c n)). \<not> skip_next (snd c)"
    using Cons.prems by auto
  from Cons.IH [OF this] show ?case
    by (simp add: add comp_def prod.map_comp)
qed

end
