(* ===== verification/Notifier_Props.thy ===== *)
theory Notifier_Props
  imports Collection_Notifier
begin

section \<open>Properties of the notifiers\<close>

text \<open>
  A walk over the callbacks calls each of them once, in order, as long as no callback removes one
  that was added during the walk; for collection notifiers this says which change sets are
  delivered to whom. Two examples show what happens otherwise, and when two threads walk at once.
\<close>

text \<open>C31: \<open>invoke_callbacks\<close> comes to an end without reading past the vector, and calls the
  callbacks that were registered at its start once each, in their order, leaving out those that
  were removed before their turn; callbacks that are added meanwhile are not called. What the
  callbacks do is arbitrary but for one thing: they do not remove callbacks that were added during
  the walk (tokens from \<open>m_next_token\<close> on).\<close>

theorem invoke_callbacks_calls:
  assumes "notifier_ok n" "\<And>calls. removed (react calls) \<subseteq> {..<m_next_token n}"
  shows "\<exists>n'. invoke_callbacks change react n
      = Some (Finished (deliveries (\<lambda>d. (d, Some change)) react {} [] (m_callbacks n)) n')
      \<and> m_callback_index n' = npos"
proof -
  let ?n = "n\<lparr>m_callback_count := length (m_callbacks n)\<rparr>"
  have "notifier_ok ?n" "\<forall>c \<in> set (m_callbacks n). fst c < m_next_token n"
    using assms(1) by (auto simp: notifier_ok_def)
  then show ?thesis
    using plain.for_each_callback_deliveries [of ?n "length (m_callbacks n)" react "m_next_token n"
        "\<lambda>d. (d, Some change)"] assms(2)
    by (simp add: invoke_callbacks_def)
qed

definition two_callbacks :: "nat notifier" where
  "two_callbacks = add_callback 8 (add_callback 7 new_notifier)"

lemma two_callbacks_simps [simp]:
  "m_callbacks two_callbacks = [(0, 7), (1, 8)]" "m_callback_index two_callbacks = npos"
  "m_next_token two_callbacks = 2"
  by (simp_all add: two_callbacks_def add_callback_def new_notifier_def)

theorem invoke_callbacks_calls_witness:
  "\<exists>n'. invoke_callbacks ''x'' (\<lambda>calls. [Remove 1]) two_callbacks
      = Some (Finished [(0, ''x'')] n') \<and> m_callback_index n' = npos"
proof -
  have "notifier_ok two_callbacks"
    by (simp add: notifier_ok_def npos_def)
  then show ?thesis
    using invoke_callbacks_calls [of two_callbacks "\<lambda>calls. [Remove 1]" "''x''"]
    by (simp add: removed_def)
qed

lemmas walk_defs =
  invoke_callbacks_def for_each_callback_def for_each.simps perform_def add_callback_def
  remove_callback_def find_token_def find_if_def sz_inc_def

lemma npos_value: "npos = 18446744073709551615"
  by (simp add: npos_def)

text \<open>A callback that adds callbacks and removes them again breaks the walk, because
  \<open>remove_callback\<close> decreases \<open>m_callback_count\<close> for every callback it removes. With two callbacks
  of which the first adds one and removes it, the second is not called. With one callback that adds
  two and removes them, the count wraps around and the walk reads past the vector.\<close>

theorem removal_breaks_walk:
  "(\<exists>n'. invoke_callbacks x (\<lambda>calls. [Add 9, Remove 2]) two_callbacks
      = Some (Finished [(0, x)] n')) \<and>
   invoke_callbacks x (\<lambda>calls. [Add 8, Add 9, Remove 1, Remove 2])
     (add_callback 7 new_notifier) = Some (Out_Of_Range [(0, x)])"
  by (simp add: walk_defs new_notifier_def npos_value sz_sub_def two_callbacks_def)

text \<open>Two walks at the same time share the index. While the first thread calls the first of two
  callbacks, a second walk starts behind it, calls only the second callback, and resets the index
  when it ends; the first walk then starts over. So the first callback is never told the second
  change and is told the first one twice.\<close>

theorem concurrent_walks_skip:
  "\<exists>n2 n3. invoke_callbacks y (\<lambda>calls. [])
       (two_callbacks\<lparr>m_callback_count := 2, m_callback_index := sz_inc npos\<rparr>)
     = Some (Finished [(1, y)] n2) \<and>
     for_each (perform add_callback remove_callback) (\<lambda>d. (d, Some x)) (\<lambda>calls. []) [(0, x)]
       (n2\<lparr>m_callback_index := sz_inc (m_callback_index n2)\<rparr>)
     = Some (Finished [(0, x), (0, x), (1, x)] n3)"
  by (simp add: walk_defs new_notifier_def npos_value two_callbacks_def)

text \<open>C32: A round of notifications of a collection notifier: the transactions \<open>cs\<close> are merged into
  what each callback has accumulated, the notifier is packaged, callbacks may be added, and the
  target thread advances. Every callback that was there when the notifier was packaged is called
  once and in order, unless it was removed, with the finalized sum of its changes; it is left out if
  there are none and it has been called before. The callbacks that were added in between are not
  called. As above, callbacks do not remove callbacks that came later; and no callback has asked to
  skip the next notification (\<open>suppress_next_notification\<close>).\<close>

theorem collection_delivery:
  assumes "notifier_ok n" "\<forall>c \<in> set (m_callbacks n). \<not> skip_next (snd c)"
    "length (m_callbacks n) + length ds < npos"
    "\<And>calls. removed (react calls) \<subseteq> {..<m_next_token n}"
  shows "\<exists>n'. after_advance react (fold add_collection_callback ds
        (snd (package_for_delivery True (fold add_changes cs n))))
      = Some (Finished (deliveries after_visit react {} [] (map (map_prod id (\<lambda>d. package_changes
          (d\<lparr>accumulated_changes := foldl merge (accumulated_changes d) cs\<rparr>))) (m_callbacks n))) n')
      \<and> m_callback_index n' = npos"
proof -
  let ?p = "snd (package_for_delivery True (fold add_changes cs n))"
  let ?n = "fold add_collection_callback ds ?p"
  let ?k = "length (m_callbacks n)"
  obtain new where new: "m_callbacks ?n = m_callbacks ?p @ new" "length new = length ds"
    "distinct (map fst new)"
    "\<forall>c \<in> set new. m_next_token ?p \<le> fst c \<and> fst c < m_next_token ?p + length ds"
    using added_callbacks [of ds ?p] by blast
  have p: "m_callbacks ?p = map (map_prod id (\<lambda>d. package_changes
      (d\<lparr>accumulated_changes := foldl merge (accumulated_changes d) cs\<rparr>))) (m_callbacks n)"
    "m_callback_count ?p = ?k" "m_callback_index ?p = m_callback_index n"
    "m_next_token ?p = m_next_token n"
    by (simp_all add: package_for_delivery_def add_changes_fold [OF assms(2)] prod.map_comp comp_def id_def)
  have tokens: "map fst (m_callbacks ?p) = map fst (m_callbacks n)"
    by (simp add: p comp_def)
  have old: "fst c < m_next_token n" if "c \<in> set (m_callbacks ?p)" for c
  proof -
    have "fst c \<in> set (map fst (m_callbacks n))"
      using that unfolding tokens [symmetric] by simp
    then show ?thesis using assms(1) by (auto simp: notifier_ok_def)
  qed
  have "distinct (map fst (m_callbacks ?n))"
    using assms(1) old new(3,4) p(4) unfolding new(1) map_append tokens distinct_append
    by (auto simp: notifier_ok_def tokens [symmetric] simp del: set_map) (force simp: p(1))
  then have "notifier_ok ?n"
    using assms(1,3) old new p by (fastforce simp: notifier_ok_def)
  moreover have "take ?k (m_callbacks ?n) = m_callbacks ?p" "drop ?k (m_callbacks ?n) = new"
    by (simp_all add: new(1) p(1))
  ultimately show ?thesis
    using collection.for_each_callback_deliveries [of ?n ?k react "m_next_token n" after_visit]
      assms(4) old new(4) p by (simp add: after_advance_def new(1))
qed

definition one_callback :: collection_notifier where
  "one_callback = add_collection_callback new_callback
     \<lparr>m_callbacks = [], m_callback_index = npos, m_callback_count = npos, m_next_token = 0,
      m_have_callbacks = False, m_error = False\<rparr>"

lemma one_callback_simps [simp]:
  "m_callbacks one_callback = [(0, new_callback)]" "m_callback_index one_callback = npos"
  "m_next_token one_callback = 1"
  by (simp_all add: one_callback_def)

theorem collection_delivery_witness:
  "\<exists>n'. after_advance (\<lambda>calls. []) (fold add_collection_callback [new_callback]
        (snd (package_for_delivery True (fold add_changes [new_builder [] (iset_add [] 3) [] []] one_callback))))
      = Some (Finished [(0, finalize (new_builder [] (iset_add [] 3) [] []))] n')
      \<and> m_callback_index n' = npos"
proof -
  have "notifier_ok one_callback"
    by (simp add: notifier_ok_def npos_def)
  moreover have "merge empty_builder (new_builder [] (iset_add [] 3) [] []) = new_builder [] (iset_add [] 3) [] []"
    by (simp add: merge_def change_set_empty_def empty_builder_def new_builder_def)
  ultimately show ?thesis
    using collection_delivery [of one_callback "[new_callback]" "\<lambda>calls. []"
        "[new_builder [] (iset_add [] 3) [] []]"]
    by (simp add: removed_def new_callback_def after_visit_def package_changes_def npos_def)
qed

end
