(* ===== verification/Progress_Notifier.thy ===== *)
theory Progress_Notifier
  imports Prelude
begin

section \<open>Progress of a synchronisation session\<close>

text \<open>
  \<open>SyncProgressNotifier\<close> (\<open>ObjectStore/sync/sync_session.cpp\<close>, lines 1013 to 1104) tells the application
  how many bytes have been uploaded or downloaded. A notifier that is not streaming reports against
  the number of bytes that were transferrable when it first had a say, and is dropped when that many
  have been transferred. Byte counts and versions are natural numbers. \<open>m_packages\<close> is a hash map in
  the code; here it is a list of pairs in the order of registration, and an update calls the
  notifiers in that order, which the code does not promise.
\<close>

record sync_progress =
  uploadable :: nat
  downloadable :: nat
  uploaded :: nat
  downloaded :: nat
  progress_snapshot :: nat

record package =
  notifier_id :: nat
  captured_transferrable :: "nat option"
  snapshot_version :: nat
  is_streaming :: bool
  is_download :: bool

record progress_notifier =
  m_progress_notifier_token :: nat
  m_local_transaction_version :: nat
  m_current_progress :: "sync_progress option"
  m_packages :: "(nat \<times> package) list"

text \<open>A call of a notifier: which one, the bytes transferred, the bytes transferrable.\<close>

type_synonym report = "nat \<times> nat \<times> nat"

definition new_progress_notifier :: progress_notifier where
  "new_progress_notifier = \<lparr>m_progress_notifier_token = 1, m_local_transaction_version = 0,
     m_current_progress = None, m_packages = []\<rparr>"

text \<open>The result is the package, whether it has expired, and the call to make, if there is one. A
  package that is not called keeps the flag of the caller, which is false.\<close>

definition transferrable_for :: "sync_progress \<Rightarrow> package \<Rightarrow> nat" where
  "transferrable_for cur p = (if is_download p then downloadable cur else uploadable cur)"

definition create_invocation ::
  "sync_progress \<Rightarrow> package \<Rightarrow> package \<times> bool \<times> report option" where
  "create_invocation cur p =
     (let invoke = (\<lambda>p transferrable.
            let transferred = (if is_download p then downloaded cur else uploaded cur)
            in (p, \<not> is_streaming p \<and> transferred \<ge> transferrable,
                Some (notifier_id p, transferred, transferrable)))
      in if is_streaming p then invoke p (transferrable_for cur p)
         else (case captured_transferrable p of
             Some t \<Rightarrow> invoke p t
           | None \<Rightarrow>
               if \<not> is_download p \<and> snapshot_version p > progress_snapshot cur then (p, False, None)
               else invoke (p\<lparr>captured_transferrable := Some (transferrable_for cur p)\<rparr>)
                      (transferrable_for cur p)))"

definition register_progress ::
  "nat \<Rightarrow> bool \<Rightarrow> bool \<Rightarrow> progress_notifier \<Rightarrow> nat \<times> progress_notifier \<times> report list" where
  "register_progress fn download streaming s =
     (let token_value = m_progress_notifier_token s;
          s = s\<lparr>m_progress_notifier_token := Suc token_value\<rparr>;
          p = \<lparr>notifier_id = fn, captured_transferrable = None,
               snapshot_version = m_local_transaction_version s,
               is_streaming = streaming, is_download = download\<rparr>
      in (case m_current_progress s of
            None \<Rightarrow> (token_value, s\<lparr>m_packages := m_packages s @ [(token_value, p)]\<rparr>, [])
          | Some cur \<Rightarrow>
              let (p, skip_registration, call) = create_invocation cur p;
                  calls = (case call of None \<Rightarrow> [] | Some c \<Rightarrow> [c])
              in if skip_registration then (0, s, calls)
                 else (token_value, s\<lparr>m_packages := m_packages s @ [(token_value, p)]\<rparr>, calls)))"

definition unregister_progress :: "nat \<Rightarrow> progress_notifier \<Rightarrow> progress_notifier" where
  "unregister_progress token s = s\<lparr>m_packages := filter (\<lambda>c. fst c \<noteq> token) (m_packages s)\<rparr>"

primrec update_packages ::
  "sync_progress \<Rightarrow> (nat \<times> package) list \<Rightarrow> (nat \<times> package) list \<times> report list" where
  "update_packages cur [] = ([], [])"
| "update_packages cur (c # cs) =
     (let (p, should_delete, call) = create_invocation cur (snd c);
          (ps, calls) = update_packages cur cs
      in (if should_delete then ps else (fst c, p) # ps,
          (case call of None \<Rightarrow> [] | Some r \<Rightarrow> [r]) @ calls))"

definition update_progress ::
  "nat \<Rightarrow> nat \<Rightarrow> nat \<Rightarrow> nat \<Rightarrow> nat \<Rightarrow> nat \<Rightarrow> progress_notifier \<Rightarrow>
   progress_notifier \<times> report list" where
  "update_progress down downloadable_bytes up uploadable_bytes download_version snapshot s =
     (if download_version = 0 then (s, [])
      else
        let cur = \<lparr>uploadable = uploadable_bytes, downloadable = downloadable_bytes, uploaded = up,
                   downloaded = down, progress_snapshot = snapshot\<rparr>;
            (ps, calls) = update_packages cur (m_packages s)
        in (s\<lparr>m_current_progress := Some cur, m_packages := ps\<rparr>, calls))"

definition set_local_version :: "nat \<Rightarrow> progress_notifier \<Rightarrow> progress_notifier" where
  "set_local_version v s = s\<lparr>m_local_transaction_version := v\<rparr>"

subsection \<open>Runs\<close>

datatype progress_op =
    Register nat bool bool
  | Unregister nat
  | Local_Version_Set nat
  | Update nat nat nat nat nat nat

definition progress_step :: "progress_op \<Rightarrow> progress_notifier \<Rightarrow> progress_notifier \<times> report list" where
  "progress_step x s = (case x of
       Register fn download streaming \<Rightarrow> snd (register_progress fn download streaming s)
     | Unregister token \<Rightarrow> (unregister_progress token s, [])
     | Local_Version_Set v \<Rightarrow> (set_local_version v s, [])
     | Update d dl u ul dv sv \<Rightarrow> update_progress d dl u ul dv sv s)"

primrec progress_run ::
  "progress_op list \<Rightarrow> progress_notifier \<Rightarrow> progress_notifier \<times> report list" where
  "progress_run [] s = (s, [])"
| "progress_run (x # xs) s =
     (let (s', calls) = progress_step x s; (s'', calls') = progress_run xs s'
      in (s'', calls @ calls'))"

subsection \<open>What a notifier is told\<close>

definition reports :: "nat \<Rightarrow> report list \<Rightarrow> (nat \<times> nat) list" where
  "reports fn calls = map snd (filter (\<lambda>c. fst c = fn) calls)"

text \<open>One number of transferrable bytes, which is reached by the last report at most.\<close>

definition consistent :: "(nat \<times> nat) list \<Rightarrow> bool" where
  "consistent rs \<longleftrightarrow> (\<forall>r \<in> set rs. snd r = snd (hd rs)) \<and> (\<forall>r \<in> set (butlast rs). fst r < snd r)"

definition op_ids :: "progress_op \<Rightarrow> nat list" where
  "op_ids x = (case x of Register fn d st \<Rightarrow> [fn] | _ \<Rightarrow> [])"

definition registered_ids :: "progress_op list \<Rightarrow> nat list" where
  "registered_ids xs = concat (map op_ids xs)"

text \<open>What is known about a package after some calls.\<close>

definition package_ok :: "report list \<Rightarrow> package \<Rightarrow> bool" where
  "package_ok calls p \<longleftrightarrow> (\<not> is_streaming p \<longrightarrow> (case captured_transferrable p of
       None \<Rightarrow> reports (notifier_id p) calls = []
     | Some t \<Rightarrow> \<forall>r \<in> set (reports (notifier_id p) calls). snd r = t \<and> fst r < t))"

lemma reports_append [simp]: "reports fn (xs @ ys) = reports fn xs @ reports fn ys"
  by (simp add: reports_def)

lemma reports_simps [simp]:
  "reports fn [] = []"
  "reports fn (c # cs) = (if fst c = fn then [snd c] else []) @ reports fn cs"
  by (simp_all add: reports_def)

lemma consistent_below:
  assumes "\<forall>r \<in> set rs. snd r = t \<and> fst r < t"
  shows "consistent rs" "consistent (rs @ [(b, t)])"
proof -
  have "\<forall>r \<in> set (rs @ [(b, t)]). snd r = t" using assms by auto
  moreover from this have "snd (hd (rs @ [(b, t)])) = t" by (cases rs) auto
  ultimately show "consistent (rs @ [(b, t)])"
    using assms by (auto simp: consistent_def butlast_append)
  show "consistent rs"
    using assms by (cases rs) (fastforce simp: consistent_def dest: in_set_butlastD)+
qed

lemma package_ok_consistent:
  "package_ok calls p \<Longrightarrow> \<not> is_streaming p \<Longrightarrow> consistent (reports (notifier_id p) calls)"
  using consistent_below(1)
  by (fastforce simp: package_ok_def consistent_def split: option.splits)

definition call_list :: "report option \<Rightarrow> report list" where
  "call_list call = (case call of None \<Rightarrow> [] | Some r \<Rightarrow> [r])"

lemma create_invocation_id:
  assumes "create_invocation cur p = (p', del, call)"
  shows "notifier_id p' = notifier_id p" "is_streaming p' = is_streaming p"
    "fn \<noteq> notifier_id p \<Longrightarrow> reports fn (call_list call) = []"
  using assms by (auto simp: create_invocation_def call_list_def Let_def split: if_splits option.splits)

lemma create_invocation_facts:
  assumes "create_invocation cur p = (p', del, call)" "package_ok calls p"
  shows "\<not> is_streaming p \<Longrightarrow> consistent (reports (notifier_id p) (calls @ call_list call))"
    "\<not> del \<Longrightarrow> package_ok (calls @ call_list call) p'"
proof -
  let ?now = "if is_download p then downloaded cur else uploaded cur"
  let ?t = "case captured_transferrable p of Some t \<Rightarrow> t | None \<Rightarrow> transferrable_for cur p"
  have below: "\<forall>r \<in> set (reports (notifier_id p) calls). snd r = ?t \<and> fst r < ?t"
    if "\<not> is_streaming p"
    using that assms(2) by (auto simp: package_ok_def split: option.splits)
  have silent: "p' = p \<and> call = None
      \<or> (\<not> is_streaming p \<longrightarrow> captured_transferrable p' = Some ?t \<and> (del \<longleftrightarrow> ?now \<ge> ?t) \<and>
           call = Some (notifier_id p, ?now, ?t))"
    using assms(1) by (auto simp: create_invocation_def Let_def split: if_splits option.splits)
  show "consistent (reports (notifier_id p) (calls @ call_list call))" if "\<not> is_streaming p"
    using silent that consistent_below [OF below [OF that]] by (auto simp: call_list_def)
  show "package_ok (calls @ call_list call) p'" if "\<not> del"
  proof (cases "is_streaming p")
    case True
    then show ?thesis using create_invocation_id(2) [OF assms(1)] by (simp add: package_ok_def)
  next
    case False
    show ?thesis
    proof (cases "p' = p \<and> call = None")
      case True
      then show ?thesis using assms(2) by (simp add: call_list_def)
    next
      case False': False
      then show ?thesis
        using silent below [OF False] that False create_invocation_id(1,2) [OF assms(1)]
        by (auto simp: package_ok_def call_list_def)
    qed
  qed
qed

text \<open>Packages with different notifiers, which are all in a set, and reports that fit.\<close>

definition packages_ok :: "nat set \<Rightarrow> report list \<Rightarrow> (nat \<times> package) list \<Rightarrow> bool" where
  "packages_ok known calls cs \<longleftrightarrow>
     distinct (map (\<lambda>c. notifier_id (snd c)) cs) \<and>
     (\<forall>c \<in> set cs. notifier_id (snd c) \<in> known \<and> package_ok calls (snd c))"

lemma package_ok_below:
  "package_ok calls p \<Longrightarrow> \<not> is_streaming p \<Longrightarrow> r \<in> set (reports (notifier_id p) calls) \<Longrightarrow>
    fst r < snd r"
  by (auto simp: package_ok_def split: option.splits)

lemma package_ok_reports:
  "reports (notifier_id p) xs = reports (notifier_id p) ys \<Longrightarrow> package_ok xs p = package_ok ys p"
  unfolding package_ok_def by (cases "captured_transferrable p") simp_all

lemma update_packages_ids:
  assumes "update_packages cur cs = (ps, calls)"
  shows "set (map (\<lambda>c. notifier_id (snd c)) ps) \<subseteq> set (map (\<lambda>c. notifier_id (snd c)) cs) \<and>
    (\<forall>fn. fn \<notin> set (map (\<lambda>c. notifier_id (snd c)) cs) \<longrightarrow> reports fn calls = [])"
  using assms
proof (induction cs arbitrary: ps calls)
  case (Cons c cs)
  obtain p del call where i: "create_invocation cur (snd c) = (p, del, call)"
    by (cases "create_invocation cur (snd c)") auto
  obtain ps' calls' where u: "update_packages cur cs = (ps', calls')"
    by (cases "update_packages cur cs") auto
  have e: "ps = (if del then ps' else (fst c, p) # ps')" "calls = call_list call @ calls'"
    using Cons.prems i u by (auto simp: call_list_def)
  show ?case
    using Cons.IH [OF u] e create_invocation_id(1,3) [OF i] by auto
qed auto

lemma update_packages_ok:
  assumes "packages_ok known calls cs" "update_packages cur cs = (ps, new)"
  shows "packages_ok known (calls @ new) ps \<and>
    (\<forall>c \<in> set cs. \<not> is_streaming (snd c) \<longrightarrow> consistent (reports (notifier_id (snd c)) (calls @ new)))"
  using assms
proof (induction cs arbitrary: ps new)
  case (Cons c cs)
  let ?id = "\<lambda>c. notifier_id (snd c)"
  obtain p del call where i: "create_invocation cur (snd c) = (p, del, call)"
    by (cases "create_invocation cur (snd c)") auto
  obtain ps' new' where u: "update_packages cur cs = (ps', new')"
    by (cases "update_packages cur cs") auto
  have e: "ps = (if del then ps' else (fst c, p) # ps')" "new = call_list call @ new'"
    using Cons.prems(2) i u by (auto simp: call_list_def)
  have ok: "packages_ok known calls cs" "package_ok calls (snd c)" "?id c \<notin> set (map ?id cs)"
    "?id c \<in> known"
    using Cons.prems(1) by (auto simp: packages_ok_def)
  note IH = Cons.IH [OF ok(1) u, THEN conjunct1] Cons.IH [OF ok(1) u, THEN conjunct2]
  note ids = update_packages_ids [OF u, THEN conjunct1]
    update_packages_ids [OF u, THEN conjunct2, THEN spec, THEN mp]
  have c_new: "reports (?id c) (calls @ new) = reports (?id c) (calls @ call_list call)"
    using ids(2) [OF ok(3)] e(2) by simp
  have others: "reports (?id d) (calls @ new) = reports (?id d) (calls @ new')" if "d \<in> set cs" for d
  proof -
    have "?id d \<in> set (map ?id cs)" using that by simp
    then have "?id d \<noteq> ?id c" using ok(3) by (intro notI) simp
    then show ?thesis using create_invocation_id(3) [OF i, of "?id d"] e(2) by simp
  qed
  have ps': "package_ok (calls @ new) (snd d)" if "d \<in> set ps'" for d
  proof -
    have "?id d \<in> set (map ?id cs)" using that ids(1) by auto
    then have "?id d \<noteq> ?id c" using ok(3) by (intro notI) simp
    then have "reports (?id d) (calls @ new) = reports (?id d) (calls @ new')"
      using create_invocation_id(3) [OF i, of "?id d"] e(2) by simp
    moreover have "package_ok (calls @ new') (snd d)"
      using IH(1) that by (simp add: packages_ok_def)
    ultimately show ?thesis by (metis package_ok_reports)
  qed
  have "package_ok (calls @ new) p" if "\<not> del"
    using create_invocation_facts(2) [OF i ok(2) that] create_invocation_id(1) [OF i] c_new
    by (simp add: package_ok_def split: option.splits)
  then have "packages_ok known (calls @ new) ps"
    using IH(1) e(1) ps' ids(1) ok(3,4) create_invocation_id(1) [OF i] by (auto simp: packages_ok_def)
  moreover have "consistent (reports (?id d) (calls @ new))"
    if "d \<in> set (c # cs)" "\<not> is_streaming (snd d)" for d
  proof (cases "d = c")
    case True
    then show ?thesis using c_new create_invocation_facts(1) [OF i ok(2)] that(2) by simp
  next
    case False
    then have "d \<in> set cs" using that(1) by simp
    then show ?thesis using IH(2) others that(2) by metis
  qed
  ultimately show ?case by blast
qed (auto simp: packages_ok_def)

text \<open>The state and all reports so far, when the notifiers in \<open>known\<close> have been registered, those in
  \<open>once\<close> without streaming.\<close>

definition progress_ok ::
  "nat set \<Rightarrow> nat set \<Rightarrow> report list \<Rightarrow> progress_notifier \<Rightarrow> bool" where
  "progress_ok known once calls s \<longleftrightarrow>
     packages_ok known calls (m_packages s) \<and>
     (\<forall>c \<in> set (m_packages s). notifier_id (snd c) \<in> once \<longrightarrow> \<not> is_streaming (snd c)) \<and>
     (\<forall>fn. fn \<notin> known \<longrightarrow> reports fn calls = []) \<and>
     (\<forall>fn \<in> once. fn \<in> known \<longrightarrow> consistent (reports fn calls))"

lemma update_packages_streaming:
  assumes "update_packages cur cs = (ps, new)"
  shows "\<forall>c \<in> set ps. \<exists>d \<in> set cs. notifier_id (snd c) = notifier_id (snd d) \<and>
     is_streaming (snd c) = is_streaming (snd d)"
  using assms
proof (induction cs arbitrary: ps new)
  case (Cons c cs)
  obtain p del call where i: "create_invocation cur (snd c) = (p, del, call)"
    by (cases "create_invocation cur (snd c)") auto
  then show ?case
    using Cons create_invocation_id(1,2) [OF i]
    by (fastforce simp: Let_def split: prod.splits if_splits)
qed auto

lemma update_ok:
  assumes "progress_ok known once calls s" "update_progress d dl u ul dv sv s = (s', new)"
  shows "progress_ok known once (calls @ new) s'"
proof (cases "dv = 0")
  case True
  then show ?thesis using assms by (simp add: update_progress_def)
next
  case False
  let ?cur = "\<lparr>uploadable = ul, downloadable = dl, uploaded = u, downloaded = d, progress_snapshot = sv\<rparr>"
  obtain ps where u: "update_packages ?cur (m_packages s) = (ps, new)" and s': "m_packages s' = ps"
    using assms(2) False by (auto simp: update_progress_def Let_def split: prod.splits)
  have ok: "packages_ok known calls (m_packages s)"
    using assms(1) by (simp add: progress_ok_def)
  note new = update_packages_ok [OF ok u]
  have quiet: "reports fn new = []" if "fn \<notin> (\<lambda>c. notifier_id (snd c)) ` set (m_packages s)" for fn
    using update_packages_ids [OF u] that by simp
  have "reports fn (calls @ new) = []" if "fn \<notin> known" for fn
    using assms(1) quiet [of fn] that by (fastforce simp: progress_ok_def packages_ok_def)
  moreover have "consistent (reports fn (calls @ new))" if "fn \<in> once" "fn \<in> known" for fn
  proof (cases "fn \<in> (\<lambda>c. notifier_id (snd c)) ` set (m_packages s)")
    case True
    then show ?thesis using new that assms(1) by (auto simp: progress_ok_def)
  next
    case False
    then show ?thesis using quiet [OF False] that assms(1) by (simp add: progress_ok_def)
  qed
  moreover have "\<forall>c \<in> set ps. notifier_id (snd c) \<in> once \<longrightarrow> \<not> is_streaming (snd c)"
    using update_packages_streaming [OF u] assms(1) by (fastforce simp: progress_ok_def)
  ultimately show ?thesis
    using new s' by (simp add: progress_ok_def)
qed

lemma register_ok:
  assumes "progress_ok known once calls s" "fn \<notin> known" "fn \<in> once \<Longrightarrow> \<not> streaming"
    "register_progress fn download streaming s = (token, s', new)"
  shows "progress_ok (insert fn known) once (calls @ new) s'"
proof -
  let ?p = "\<lparr>notifier_id = fn, captured_transferrable = None,
    snapshot_version = m_local_transaction_version s, is_streaming = streaming, is_download = download\<rparr>"
  have fresh: "reports fn calls = []" "package_ok calls ?p"
    using assms(1,2) by (auto simp: progress_ok_def package_ok_def)
  have old: "package_ok (calls @ new) (snd c)" if "c \<in> set (m_packages s)" "reports (notifier_id (snd c)) new = []" for c
    using that assms(1) package_ok_reports [of "snd c" "calls @ new" calls]
    by (simp add: progress_ok_def packages_ok_def)
  have ids: "notifier_id (snd c) \<noteq> fn" if "c \<in> set (m_packages s)" for c
    using that assms(1,2) by (auto simp: progress_ok_def packages_ok_def)
  have conclude: "progress_ok (insert fn known) once (calls @ new) s'"
    if p: "m_packages s' = m_packages s \<or>
          (m_packages s' = m_packages s @ [(token, p)] \<and> package_ok (calls @ new) p \<and>
           notifier_id p = fn \<and> is_streaming p = streaming)"
      and new: "\<And>f. f \<noteq> fn \<Longrightarrow> reports f new = []"
      and cons: "\<not> streaming \<Longrightarrow> consistent (reports fn (calls @ new))" for p
  proof -
    have "packages_ok (insert fn known) (calls @ new) (m_packages s')"
      using p assms(1,2) old ids new unfolding progress_ok_def packages_ok_def by fastforce
    moreover have "consistent (reports f (calls @ new))" if "f \<in> once" "f \<in> insert fn known" for f
      using that assms(1,3) new [of f] cons by (cases "f = fn") (auto simp: progress_ok_def)
    ultimately show ?thesis
      using p assms(1,3) new ids by (auto simp: progress_ok_def)
  qed
  show ?thesis
  proof (cases "m_current_progress s")
    case None
    then show ?thesis
      using assms(4) fresh conclude [of ?p] by (auto simp: register_progress_def Let_def consistent_def)
  next
    case (Some cur)
    obtain p del call where i: "create_invocation cur ?p = (p, del, call)"
      by (cases "create_invocation cur ?p") auto
    have e: "new = call_list call" "m_packages s' = (if del then m_packages s else m_packages s @ [(token, p)])"
      using assms(4) Some i by (auto simp: register_progress_def Let_def call_list_def split: if_splits)
    show ?thesis
      using conclude [of p] e create_invocation_facts [OF i fresh(2)] create_invocation_id [OF i] by auto
  qed
qed

lemma step_ok:
  assumes "progress_ok known once calls s" "distinct (op_ids x)"
    "\<forall>fn \<in> set (op_ids x). fn \<notin> known"
    "\<forall>fn d. x = Register fn d True \<longrightarrow> fn \<notin> once" "progress_step x s = (s', new)"
  shows "progress_ok (set (op_ids x) \<union> known) once (calls @ new) s'"
proof (cases x)
  case (Register fn download streaming)
  then show ?thesis
    using register_ok [OF assms(1), of fn streaming download] assms(3-5)
    by (cases streaming) (auto simp: progress_step_def op_ids_def prod_eq_iff)
next
  case (Update d dl u ul dv sv)
  then show ?thesis
    using update_ok [OF assms(1)] assms(5) by (simp add: progress_step_def op_ids_def)
qed (use assms in \<open>auto simp: progress_step_def op_ids_def progress_ok_def packages_ok_def
  unregister_progress_def set_local_version_def intro: distinct_map_filter\<close>)

lemma registered_ids_simps [simp]:
  "registered_ids [] = []" "registered_ids (x # xs) = op_ids x @ registered_ids xs"
  by (simp_all add: registered_ids_def)

lemma op_ids_Register [simp]: "op_ids (Register fn d st) = [fn]"
  by (simp add: op_ids_def)

lemma run_ok:
  assumes "progress_ok known once calls s" "distinct (registered_ids xs)"
    "set (registered_ids xs) \<inter> known = {}"
    "\<forall>fn d. Register fn d True \<in> set xs \<longrightarrow> fn \<notin> once" "progress_run xs s = (s', new)"
  shows "progress_ok (set (registered_ids xs) \<union> known) once (calls @ new) s'"
  using assms
proof (induction xs arbitrary: known calls s s' new)
  case (Cons x xs)
  obtain s1 new1 where st: "progress_step x s = (s1, new1)" by (cases "progress_step x s")
  obtain new2 where r: "progress_run xs s1 = (s', new2)" "new = new1 @ new2"
    using Cons.prems(5) st by (auto split: prod.splits)
  have "progress_ok (set (op_ids x) \<union> known) once (calls @ new1) s1"
    by (rule step_ok [OF Cons.prems(1) _ _ _ st]) (use Cons.prems in auto)
  from Cons.IH [OF this _ _ _ r(1)] show ?case
    using Cons.prems(2-4) r(2) by (auto simp: Un_ac)
qed simp

text \<open>A notifier without streaming that is registered is registered only once, so never with
  streaming.\<close>

lemma registered_once:
  assumes "distinct (registered_ids xs)" "Register fn d st \<in> set xs" "Register fn e tt \<in> set xs"
  shows "st = tt"
  using assms
proof (induction xs)
  case (Cons x xs)
  have in_ids: "fn \<in> set (registered_ids xs)" if "Register fn d st \<in> set xs" for d st
    using that by (force simp: registered_ids_def op_ids_def)
  have head: "fn \<notin> set (registered_ids xs)" if "x = Register fn d st" for d st
    using that Cons.prems(1) by simp
  show ?case
    using Cons head in_ids by (cases "Register fn d st \<in> set xs"; cases "Register fn e tt \<in> set xs") auto
qed simp

text \<open>C40: Whatever notifiers come and go and whatever progress the client library reports: a
  notifier that does not stream is told one and the same number of transferrable bytes each time;
  every report before its last one is below that number, and as long as the notifier is still
  registered all its reports are. So it is told at most once that everything has been transferred,
  and nothing after that.\<close>

theorem progress_reports:
  assumes "distinct (registered_ids xs)" "Register fn d False \<in> set xs"
    "progress_run xs new_progress_notifier = (s, calls)"
  shows "consistent (reports fn calls) \<and>
     (\<forall>c \<in> set (m_packages s). notifier_id (snd c) = fn \<longrightarrow>
        (\<forall>r \<in> set (reports fn calls). fst r < snd r))"
proof -
  have "progress_ok {} {fn} [] new_progress_notifier"
    by (simp add: progress_ok_def packages_ok_def new_progress_notifier_def)
  moreover have "\<forall>f d. Register f d True \<in> set xs \<longrightarrow> f \<notin> {fn}"
    using registered_once [OF assms(1,2)] by auto
  ultimately have ok: "progress_ok (set (registered_ids xs)) {fn} calls s"
    using run_ok [of "{}" "{fn}" "[]" new_progress_notifier xs s calls] assms(1,3) by simp
  moreover have "fn \<in> set (registered_ids xs)"
    using assms(2) by (force simp: registered_ids_def op_ids_def)
  moreover have "\<forall>r \<in> set (reports fn calls). fst r < snd r"
    if "c \<in> set (m_packages s)" "notifier_id (snd c) = fn" for c
    using ok that package_ok_below [of calls "snd c"] by (auto simp: progress_ok_def packages_ok_def)
  ultimately show ?thesis
    by (auto simp: progress_ok_def)
qed

theorem progress_reports_witness:
  "consistent [(4, 10), (10, 10)] \<and>
   reports 7 (snd (progress_run [Register 7 True False, Update 4 10 0 0 1 1, Update 10 12 0 0 1 2,
       Update 12 12 0 0 1 3] new_progress_notifier)) = [(4, 10), (10, 10)]"
proof -
  let ?xs = "[Register 7 True False, Update 4 10 0 0 1 1, Update 10 12 0 0 1 2, Update 12 12 0 0 1 3]"
  have run: "reports 7 (snd (progress_run ?xs new_progress_notifier)) = [(4, 10), (10, 10)]"
    by (simp add: progress_step_def register_progress_def update_progress_def create_invocation_def
        transferrable_for_def new_progress_notifier_def Let_def)
  obtain s calls where "progress_run ?xs new_progress_notifier = (s, calls)"
    by (cases "progress_run ?xs new_progress_notifier")
  then show ?thesis
    using run progress_reports [of ?xs 7 True s calls] by (simp add: op_ids_def)
qed

end
