(* ===== verification/Array_Direct.thy ===== *)
theory Array_Direct
  imports Prelude "HOL-Library.Word"
begin

unbundle bit_operations_syntax

section \<open>Packed integers\<close>

text \<open>
  An array of the storage engine keeps its integers packed in \<open>width\<close> bits each, where the width
  is 0, 1, 2, 4, 8, 16, 32 or 64 (\<open>include/core/realm/array_direct.hpp\<close>). Integers of less than 8
  bits are not negative; the others are in two's complement and in little-endian order. The
  memory behind a \<open>char*\<close> is the list of its bytes, an \<open>int64_t\<close> is an integer in its range.

  \<open>data_bit\<close>, \<open>element\<close> and \<open>elements\<close> are the specification: the bits of the memory in one row,
  the element that a run of \<open>width\<close> of them stands for, and the list of the first elements.
  \<open>storable\<close> are the values that a width has room for.
\<close>

type_synonym cells = "8 word list"

definition widths :: "nat set" where
  "widths = {0, 1, 2, 4, 8, 16, 32, 64}"

definition data_bit :: "cells \<Rightarrow> nat \<Rightarrow> bool" where
  "data_bit data n = bit (data ! (n div 8)) (n mod 8)"

definition raw :: "nat \<Rightarrow> cells \<Rightarrow> nat \<Rightarrow> int" where
  "raw w data i = horner_sum of_bool 2 (map (data_bit data) [i * w..<i * w + w])"

definition element :: "nat \<Rightarrow> cells \<Rightarrow> nat \<Rightarrow> int" where
  "element w data i = (if w < 8 then raw w data i else signed_take_bit (w - 1) (raw w data i))"

definition fits :: "nat \<Rightarrow> cells \<Rightarrow> nat \<Rightarrow> bool" where
  "fits w data n \<longleftrightarrow> n * w \<le> 8 * length data"

definition lbound_for_width :: "nat \<Rightarrow> int" where
  "lbound_for_width w = (if w < 8 then 0 else - (2 ^ (w - 1)))"

definition ubound_for_width :: "nat \<Rightarrow> int" where
  "ubound_for_width w = (if w < 8 then 2 ^ w - 1 else 2 ^ (w - 1) - 1)"

definition storable :: "nat \<Rightarrow> int \<Rightarrow> bool" where
  "storable w v \<longleftrightarrow> lbound_for_width w \<le> v \<and> v \<le> ubound_for_width w"

definition elements :: "nat \<Rightarrow> cells \<Rightarrow> nat \<Rightarrow> int list" where
  "elements w data n = map (element w data) [0..<n]"

subsection \<open>The operations\<close>

text \<open>An integer in memory: \<open>n\<close> bytes from \<open>offset\<close>, the least significant one first.\<close>

definition load_le :: "nat \<Rightarrow> cells \<Rightarrow> nat \<Rightarrow> 'a::len word" where
  "load_le n data offset =
     word_of_int (horner_sum uint 256 (map (\<lambda>i. data ! (offset + i)) [0..<n]))"

definition store_le :: "nat \<Rightarrow> cells \<Rightarrow> nat \<Rightarrow> 'a::len word \<Rightarrow> cells" where
  "store_le n data offset v =
     fold (\<lambda>i d. d[offset + i := ucast (drop_bit (8 * i) v)]) [0..<n] data"

text \<open>The update of some bits of a byte, which is computed in an \<open>int\<close>.\<close>

definition put_bits :: "32 word \<Rightarrow> nat \<Rightarrow> 8 word \<Rightarrow> int \<Rightarrow> 8 word" where
  "put_bits m bit_ndx p value =
     ucast ((ucast p AND NOT (push_bit bit_ndx m)) OR push_bit bit_ndx (word_of_int value AND m))"

definition set_direct :: "nat \<Rightarrow> cells \<Rightarrow> nat \<Rightarrow> int \<Rightarrow> cells" where
  "set_direct width data ndx value =
     (if width = 0 then data
      else if width = 1 then
        let byte_ndx = ndx div 8; bit_ndx = ndx mod 8
        in data[byte_ndx := put_bits 0x01 bit_ndx (data ! byte_ndx) value]
      else if width = 2 then
        let byte_ndx = ndx div 4; bit_ndx = ndx mod 4 * 2
        in data[byte_ndx := put_bits 0x03 bit_ndx (data ! byte_ndx) value]
      else if width = 4 then
        let byte_ndx = ndx div 2; bit_ndx = ndx mod 2 * 4
        in data[byte_ndx := put_bits 0x0F bit_ndx (data ! byte_ndx) value]
      else if width = 8 then data[ndx := word_of_int value]
      else if width = 16 then store_le 2 data (ndx * 2) (word_of_int value :: 16 word)
      else if width = 32 then store_le 4 data (ndx * 4) (word_of_int value :: 32 word)
      else if width = 64 then store_le 8 data (ndx * 8) (word_of_int value :: 64 word)
      else data)"

text \<open>The loop ends when \<open>i\<close> meets \<open>end\<close>; it is only called with \<open>begin\<close> at most \<open>end\<close>.\<close>

function fill_direct :: "nat \<Rightarrow> cells \<Rightarrow> nat \<Rightarrow> nat \<Rightarrow> int \<Rightarrow> cells" where
  "fill_direct width data i end_i value =
     (if i < end_i then fill_direct width (set_direct width data i value) (i + 1) end_i value
      else data)"
  by pat_completeness auto
termination by (relation "measure (\<lambda>(_, _, i, end_i, _). end_i - i)") auto

declare fill_direct.simps [simp del]

text \<open>A \<open>char\<close> is signed, and is an \<open>int\<close> when it is shifted.\<close>

definition get_direct :: "nat \<Rightarrow> cells \<Rightarrow> nat \<Rightarrow> int" where
  "get_direct w data ndx =
     (if w = 0 then 0
      else if w = 1 then
        let offset = drop_bit 3 ndx
        in sint (signed_drop_bit (ndx AND 7) (scast (data ! offset) :: 32 word) AND 0x01)
      else if w = 2 then
        let offset = drop_bit 2 ndx
        in sint (signed_drop_bit (push_bit 1 (ndx AND 3)) (scast (data ! offset) :: 32 word) AND 0x03)
      else if w = 4 then
        let offset = drop_bit 1 ndx
        in sint (signed_drop_bit (push_bit 2 (ndx AND 1)) (scast (data ! offset) :: 32 word) AND 0x0F)
      else if w = 8 then sint (data ! ndx)
      else if w = 16 then sint (load_le 2 data (ndx * 2) :: 16 word)
      else if w = 32 then sint (load_le 4 data (ndx * 4) :: 32 word)
      else if w = 64 then sint (load_le 8 data (ndx * 8) :: 64 word)
      else - 1)"

definition get_two :: "nat \<Rightarrow> cells \<Rightarrow> nat \<Rightarrow> int \<times> int" where
  "get_two w data ndx = (get_direct w data (ndx + 0), get_direct w data (ndx + 1))"

text \<open>References are the same bits read without a sign.\<close>

definition to_ref :: "int \<Rightarrow> nat" where
  "to_ref v = unat (word_of_int v :: 64 word)"

definition from_ref :: "nat \<Rightarrow> int" where
  "from_ref v = sint (of_nat v :: 64 word)"

definition get_three :: "nat \<Rightarrow> cells \<Rightarrow> nat \<Rightarrow> nat \<times> nat \<times> nat" where
  "get_three w data ndx =
     (to_ref (get_direct w data (ndx + 0)), to_ref (get_direct w data (ndx + 1)),
      to_ref (get_direct w data (ndx + 2)))"

text \<open>One step of the searches (the code block that the source marks X, Y, Z and A), and their
  loops: three steps at a time while there are eight elements or more, then one by one. \<open>left v\<close> is
  the test that keeps the upper part.\<close>

definition bound_step :: "(int \<Rightarrow> bool) \<Rightarrow> nat \<Rightarrow> cells \<Rightarrow> nat \<times> nat \<Rightarrow> nat \<times> nat" where
  "bound_step left width data = (\<lambda>(sz, low).
     let half = sz div 2;
         other_half = sz - half;
         probe = low + half;
         other_low = low + other_half;
         v = get_direct width data probe
     in (half, if left v then other_low else low))"

function bound_unrolled :: "(int \<Rightarrow> bool) \<Rightarrow> nat \<Rightarrow> cells \<Rightarrow> nat \<times> nat \<Rightarrow> nat \<times> nat" where
  "bound_unrolled left width data (sz, low) =
     (if sz \<ge> 8 then
        bound_unrolled left width data
          (bound_step left width data (bound_step left width data (bound_step left width data (sz, low))))
      else (sz, low))"
  by pat_completeness auto
termination
  by (relation "measure (\<lambda>(_, _, _, sz, _). sz)")
    (auto simp: bound_step_def Let_def)

function bound_single :: "(int \<Rightarrow> bool) \<Rightarrow> nat \<Rightarrow> cells \<Rightarrow> nat \<times> nat \<Rightarrow> nat" where
  "bound_single left width data (sz, low) =
     (if sz > 0 then bound_single left width data (bound_step left width data (sz, low)) else low)"
  by pat_completeness auto
termination
  by (relation "measure (\<lambda>(_, _, _, sz, _). sz)")
    (auto simp: bound_step_def Let_def)

declare bound_unrolled.simps [simp del] bound_single.simps [simp del]

definition lower_bound_direct :: "nat \<Rightarrow> cells \<Rightarrow> nat \<Rightarrow> int \<Rightarrow> nat" where
  "lower_bound_direct width data sz value =
     bound_single (\<lambda>v. v < value) width data
       (bound_unrolled (\<lambda>v. v < value) width data (sz, 0))"

definition upper_bound_direct :: "nat \<Rightarrow> cells \<Rightarrow> nat \<Rightarrow> int \<Rightarrow> nat" where
  "upper_bound_direct width data sz value =
     bound_single (\<lambda>v. value \<ge> v) width data
       (bound_unrolled (\<lambda>v. value \<ge> v) width data (sz, 0))"

subsection \<open>Reading\<close>

lemma data_bit_range: "n < w \<Longrightarrow> bit (raw w data i) n = data_bit data (i * w + n)"
  by (simp add: raw_def bit_simps)

lemma bit_raw: "bit (raw w data i) n \<longleftrightarrow> n < w \<and> data_bit data (i * w + n)"
  by (auto simp: raw_def bit_simps)

lemma take_bit_raw [simp]: "take_bit w (raw w data i) = raw w data i"
  by (rule bit_eqI) (auto simp: bit_simps bit_raw)

lemma raw_nonneg [simp]: "0 \<le> raw w data i"
  by (simp add: raw_def horner_sum_nonnegative)

lemma raw_less: "raw w data i < 2 ^ w"
  using horner_sum_bound [of "map (data_bit data) [i * w..<i * w + w]"] by (simp add: raw_def)

lemma bit_load_le:
  "bit (load_le n data offset :: 'a::len word) k
     \<longleftrightarrow> k < LENGTH('a) \<and> k < 8 * n \<and> bit (data ! (offset + k div 8)) (k mod 8)"
  by (auto simp: load_le_def bit_simps
      bit_horner_sum_uint_exp_iff [where 'a = 8, simplified])

lemma and_mod: "(n::nat) AND 7 = n mod 8" "n AND 3 = n mod 4" "n AND 1 = n mod 2"
  using take_bit_eq_mask [of 3 n] take_bit_eq_mask [of 2 n] take_bit_eq_mask [of 1 n]
  by (simp_all add: take_bit_eq_mod mask_eq_exp_minus_1)

lemma shifted_char:
  assumes "k + w \<le> 8" "w \<le> 4"
  shows "sint (signed_drop_bit k (scast (b :: 8 word) :: 32 word) AND mask w) = take_bit w (drop_bit k (uint b))"
proof (rule bit_eqI)
  fix n
  show "bit (sint (signed_drop_bit k (scast b :: 32 word) AND mask w)) n = bit (take_bit w (drop_bit k (uint b))) n"
    using assms by (auto simp: bit_simps)
qed

lemma raw_in_byte:
  assumes "w dvd 8" "0 < w"
  shows "raw w data i = take_bit w (drop_bit (i mod (8 div w) * w) (uint (data ! (i div (8 div w)))))"
proof (rule bit_eqI)
  fix n
  obtain k where k: "8 = w * k" using assms by (auto elim: dvdE)
  then have k8: "8 div w = k" using assms by (metis nonzero_mult_div_cancel_left less_not_refl)
  have "k > 0" using k by (cases k) auto
  have eq: "i * w + n = (i div k) * 8 + ((i mod k) * w + n)" for n
  proof -
    have "(i div k * k + i mod k) * w = i div k * 8 + i mod k * w"
      unfolding k by (simp only: distrib_right mult.assoc mult.commute [of k w])
    then show ?thesis by simp
  qed
  have less: "n < w \<Longrightarrow> (i mod k) * w + n < 8"
  proof -
    assume "n < w"
    have "i mod k < k" using \<open>k > 0\<close> by simp
    then have "(i mod k + 1) * w \<le> k * w" by (metis Suc_eq_plus1 Suc_leI mult_le_mono1)
    then show ?thesis using \<open>n < w\<close> k by (simp add: mult.commute)
  qed
  show "bit (raw w data i) n = bit (take_bit w (drop_bit (i mod (8 div w) * w) (uint (data ! (i div (8 div w)))))) n"
    using less [of ] by (auto simp: bit_raw bit_simps data_bit_def eq k8)
qed

lemma load_le_raw:
  assumes "LENGTH('a::len) = 8 * m"
  shows "(load_le m data (i * m) :: 'a word) = word_of_int (raw LENGTH('a) data i)"
proof (rule bit_word_eqI)
  fix n assume "n < LENGTH('a)"
  have 1: "i * (8 * m) + n = n + (i * m) * 8" by simp
  have 2: "(i * (8 * m) + n) div 8 = i * m + n div 8" unfolding 1 by (simp only: div_mult_self1 [of 8])
  have 3: "(i * (8 * m) + n) mod 8 = n mod 8" unfolding 1 by simp
  show "bit (load_le m data (i * m) :: 'a word) n = bit (word_of_int (raw LENGTH('a) data i) :: 'a word) n"
    using \<open>n < LENGTH('a)\<close> by (simp add: bit_load_le bit_simps bit_raw assms data_bit_def 2 3)
qed

lemma sint_load_le:
  assumes "LENGTH('a::len) = 8 * m"
  shows "sint (load_le m data (i * m) :: 'a word) = signed_take_bit (LENGTH('a) - 1) (raw LENGTH('a) data i)"
  by (simp add: load_le_raw [OF assms] signed_of_int)

lemma sint_byte: "sint (data ! i) = signed_take_bit 7 (raw 8 data i)"
proof -
  have "raw 8 data i = uint (data ! i)"
  proof (rule bit_eqI)
    fix n
    show "bit (raw 8 data i) n = bit (uint (data ! i)) n"
      by (cases "n < 8") (auto simp: bit_simps bit_raw data_bit_def dest: bit_imp_le_length)
  qed
  then show ?thesis by (simp add: sint_uint)
qed

lemma mask_words: "(1 :: 32 word) = mask 1" "(3 :: 32 word) = mask 2" "(15 :: 32 word) = mask 4"
  by (simp_all add: mask_numeral mask_Suc_0)

theorem get_direct_element:
  assumes "w \<in> widths"
  shows "get_direct w data i = element w data i"
proof -
  consider "w = 0" | "w = 1" | "w = 2" | "w = 4" | "w = 8" | "w = 16" | "w = 32" | "w = 64"
    using assms by (auto simp: widths_def)
  then show ?thesis
  proof cases
    case 1 then show ?thesis by (simp add: get_direct_def element_def raw_def)
  next
    case 2
    have "get_direct w data i = sint (signed_drop_bit (i mod 8) (scast (data ! (i div 8)) :: 32 word) AND mask 1)"
      using 2 by (simp add: get_direct_def Let_def and_mod drop_bit_eq_div mask_Suc_0)
    also have "\<dots> = element w data i"
      using 2 shifted_char [of "i mod 8" 1] raw_in_byte [of 1 data i] by (simp add: element_def)
    finally show ?thesis .
  next
    case 3
    have "get_direct w data i = sint (signed_drop_bit (i mod 4 * 2) (scast (data ! (i div 4)) :: 32 word) AND mask 2)"
      using 3 by (simp add: get_direct_def Let_def and_mod drop_bit_eq_div push_bit_eq_mult mask_numeral mult.commute)
    also have "\<dots> = element w data i"
      using 3 shifted_char [of "i mod 4 * 2" 2] raw_in_byte [of 2 data i] by (simp add: element_def)
    finally show ?thesis .
  next
    case 4
    have "get_direct w data i = sint (signed_drop_bit (i mod 2 * 4) (scast (data ! (i div 2)) :: 32 word) AND mask 4)"
      using 4 by (simp add: get_direct_def Let_def and_mod drop_bit_eq_div push_bit_eq_mult mask_numeral mult.commute)
    also have "\<dots> = element w data i"
      using 4 shifted_char [of "i mod 2 * 4" 4] raw_in_byte [of 4 data i] by (simp add: element_def)
    finally show ?thesis .
  next
    case 5 then show ?thesis by (simp add: get_direct_def element_def sint_byte)
  next
    case 6 then show ?thesis
      using sint_load_le [where 'a = 16, of 2 data i] by (simp add: get_direct_def element_def)
  next
    case 7 then show ?thesis
      using sint_load_le [where 'a = 32, of 4 data i] by (simp add: get_direct_def element_def)
  next
    case 8 then show ?thesis
      using sint_load_le [where 'a = 64, of 8 data i] by (simp add: get_direct_def element_def)
  qed
qed

subsection \<open>Writing\<close>

lemma bit_put_bits:
  assumes "k + w \<le> 8" "w \<le> 4" "j < 8"
  shows "bit (put_bits (mask w) k p v) j = (if k \<le> j \<and> j < k + w then bit v (j - k) else bit p j)"
  using assms by (auto simp: put_bits_def bit_simps)

lemma length_store_le [simp]: "length (store_le n data offset v) = length data"
proof -
  have "length (fold (\<lambda>i d. d[offset + i := f i]) xs data) = length data" for xs :: "nat list" and f
    by (induction xs arbitrary: data) auto
  then show ?thesis by (simp add: store_le_def)
qed

lemma nth_store_le:
  "j < length data \<Longrightarrow> store_le n data offset v ! j =
     (if offset \<le> j \<and> j < offset + n then ucast (drop_bit (8 * (j - offset)) v) else data ! j)"
proof (induction n)
  case 0
  then show ?case by (auto simp: store_le_def)
next
  case (Suc n)
  have "store_le (Suc n) data offset v = (store_le n data offset v)[offset + n := ucast (drop_bit (8 * n) v)]"
    by (simp add: store_le_def)
  with Suc show ?case by (cases "j = offset + n") auto
qed

lemma length_set_direct [simp]: "length (set_direct w data i v) = length data"
  by (simp add: set_direct_def Let_def)

lemma data_bit_update:
  "b < length data \<Longrightarrow>
     data_bit (data[b := x]) n = (if n div 8 = b then bit x (n mod 8) else data_bit data n)"
  by (simp add: data_bit_def nth_list_update)

lemma data_bit_put_bits:
  assumes "8 = w * k" "w \<le> 4" "i div k < length data"
  shows "data_bit (data[i div k := put_bits (mask w) (i mod k * w) (data ! (i div k)) v]) n =
    (if i * w \<le> n \<and> n < i * w + w then bit v (n - i * w) else data_bit data n)"
proof -
  have "(i div k * k + i mod k) * w = i div k * 8 + i mod k * w"
    unfolding assms(1) by (simp only: distrib_right mult.assoc mult.commute [of k w])
  then have iw: "i * w = i div k * 8 + i mod k * w" by simp
  have "k > 0" using assms(1) by (cases k) auto
  then have "i mod k < k" by simp
  then have "(i mod k + 1) * w \<le> k * w" by (metis Suc_eq_plus1 Suc_leI mult_le_mono1)
  then have room: "i mod k * w + w \<le> 8" using assms(1) by (simp add: mult.commute)
  show ?thesis
  proof (cases "n div 8 = i div k")
    case True
    then have n: "n = i div k * 8 + n mod 8" by (metis div_mult_mod_eq)
    have "data_bit data n = bit (data ! (i div k)) (n mod 8)" by (simp add: data_bit_def True)
    moreover have "i * w \<le> n \<longleftrightarrow> i mod k * w \<le> n mod 8" "n < i * w + w \<longleftrightarrow> n mod 8 < i mod k * w + w"
      "n - i * w = n mod 8 - i mod k * w"
      using n unfolding iw by linarith+
    ultimately show ?thesis
      using assms room by (simp add: data_bit_update True bit_put_bits)
  next
    case False
    moreover have "n div 8 = i div k" if "i * w \<le> n" "n < i * w + w"
      using that room unfolding iw by linarith
    ultimately show ?thesis using assms(3) by (auto simp: data_bit_update)
  qed
qed

lemma data_bit_store_le:
  assumes "LENGTH('a::len) = 8 * m" "i * m + m \<le> length data" "n < 8 * length data"
  shows "data_bit (store_le m data (i * m) (word_of_int v :: 'a word)) n =
    (if i * (8 * m) \<le> n \<and> n < i * (8 * m) + 8 * m then bit v (n - i * (8 * m)) else data_bit data n)"
proof -
  have n: "n = 8 * (n div 8) + n mod 8" "n mod 8 < 8" by simp_all
  have r: "i * m \<le> n div 8 \<and> n div 8 < i * m + m \<longleftrightarrow> i * (8 * m) \<le> n \<and> n < i * (8 * m) + 8 * m"
    using n by linarith
  have "n div 8 < length data" using assms(3) by linarith
  moreover have "8 * (n div 8 - i * m) + n mod 8 = n - i * (8 * m)" if "i * m \<le> n div 8"
    using that n by linarith
  ultimately show ?thesis
    using r assms(1) by (auto simp: data_bit_def nth_store_le bit_simps)
qed

lemma data_bit_set_direct:
  assumes "w \<in> widths" "fits w data (Suc i)" "n < 8 * length data"
  shows "data_bit (set_direct w data i v) n =
    (if i * w \<le> n \<and> n < i * w + w then bit v (n - i * w) else data_bit data n)"
proof -
  have f: "i * w + w \<le> 8 * length data" using assms(2) by (simp add: fits_def)
  consider "w = 0" | "w = 1" | "w = 2" | "w = 4" | "w = 8" | "w = 16" | "w = 32" | "w = 64"
    using assms by (auto simp: widths_def)
  then show ?thesis
  proof cases
    case 1 then show ?thesis by (simp add: set_direct_def)
  next
    case 2
    with f have "i div 8 < length data" by auto
    then show ?thesis using 2 data_bit_put_bits [of 1 8 i data v n]
      by (simp add: set_direct_def Let_def mask_Suc_0)
  next
    case 3
    with f have "i div 4 < length data" by auto
    then show ?thesis using 3 data_bit_put_bits [of 2 4 i data v n]
      by (simp add: set_direct_def Let_def mask_numeral)
  next
    case 4
    with f have "i div 2 < length data" by auto
    then show ?thesis using 4 data_bit_put_bits [of 4 2 i data v n]
      by (simp add: set_direct_def Let_def mask_numeral)
  next
    case 5
    with f have "i < length data" by auto
    then show ?thesis using 5 data_bit_store_le [where 'a = 8, of 1 i data n v] assms(3)
      by (simp add: set_direct_def store_le_def)
  next
    case 6
    with f assms(3) show ?thesis using data_bit_store_le [where 'a = 16, of 2 i data n v]
      by (simp add: set_direct_def)
  next
    case 7
    with f assms(3) show ?thesis using data_bit_store_le [where 'a = 32, of 4 i data n v]
      by (simp add: set_direct_def)
  next
    case 8
    with f assms(3) show ?thesis using data_bit_store_le [where 'a = 64, of 8 i data n v]
      by (simp add: set_direct_def)
  qed
qed


lemma raw_cong: "(\<And>n. i * w \<le> n \<Longrightarrow> n < i * w + w \<Longrightarrow> data_bit d n = data_bit d' n) \<Longrightarrow> raw w d i = raw w d' i"
  unfolding raw_def by (rule arg_cong [where f = "horner_sum of_bool 2"]) (rule map_cong, auto)

lemma element_set_same:
  assumes "w \<in> widths" "fits w data (Suc i)" "storable w v"
  shows "element w (set_direct w data i v) i = v"
proof -
  have "bit (raw w (set_direct w data i v) i) n = bit (take_bit w v) n" for n
  proof (cases "n < w")
    case True
    with assms(2) have "i * w + n < 8 * length data" by (simp add: fits_def)
    with assms True show ?thesis by (simp add: bit_raw bit_simps data_bit_set_direct)
  qed (simp add: bit_raw bit_simps)
  then have raw: "raw w (set_direct w data i v) i = take_bit w v" by (rule bit_eqI)
  show ?thesis
  proof (cases "w < 8")
    case True
    with assms(3) have "0 \<le> v" "v < 2 ^ w" by (auto simp: storable_def lbound_for_width_def ubound_for_width_def)
    then show ?thesis using True raw by (simp add: element_def take_bit_int_eq_self)
  next
    case False
    with assms(3) have "- (2 ^ (w - 1)) \<le> v" "v < 2 ^ (w - 1)"
      by (auto simp: storable_def lbound_for_width_def ubound_for_width_def)
    then have "signed_take_bit (w - 1) v = v" by (simp add: signed_take_bit_int_eq_self)
    moreover have "\<not> w \<le> w - 1" using False by simp
    ultimately show ?thesis using False raw
      by (simp add: element_def signed_take_bit_take_bit)
  qed
qed

lemma element_set_other:
  assumes "w \<in> widths" "fits w data (Suc i)" "fits w data (Suc j)" "i \<noteq> j"
  shows "element w (set_direct w data i v) j = element w data j"
proof -
  have apart: "\<not> (i * w \<le> n \<and> n < i * w + w)" if "j * w \<le> n" "n < j * w + w" for n
  proof
    assume n: "i * w \<le> n \<and> n < i * w + w"
    with that have "w > 0" by linarith
    have "n div w = i" using n by (metis Suc_eq_plus1 add.commute div_nat_eqI mult.commute mult_Suc)
    moreover have "n div w = j" using that by (metis Suc_eq_plus1 add.commute div_nat_eqI mult.commute mult_Suc)
    ultimately show False using assms(4) by simp
  qed
  have "raw w (set_direct w data i v) j = raw w data j"
  proof (rule raw_cong)
    fix n assume n: "j * w \<le> n" "n < j * w + w"
    with assms(3) have "n < 8 * length data" by (simp add: fits_def)
    with apart [OF n] show "data_bit (set_direct w data i v) n = data_bit data n"
      using assms(1,2) by (auto simp: data_bit_set_direct)
  qed
  then show ?thesis by (simp add: element_def)
qed

lemma fits_set [simp]: "fits w (set_direct w' data i v) n = fits w data n"
  by (simp add: fits_def)

lemma fits_mono: "fits w data n \<Longrightarrow> m \<le> n \<Longrightarrow> fits w data m"
  unfolding fits_def by (meson le_trans mult_le_mono1)

lemma length_elements [simp]: "length (elements w data n) = n"
  by (simp add: elements_def)

lemma nth_elements [simp]: "i < n \<Longrightarrow> elements w data n ! i = element w data i"
  by (simp add: elements_def)

lemma elements_set_direct:
  assumes "w \<in> widths" "fits w data n" "i < n" "storable w v"
  shows "elements w (set_direct w data i v) n = (elements w data n)[i := v]"
proof (rule nth_equalityI)
  fix j assume "j < length (elements w (set_direct w data i v) n)"
  then have j: "j < n" by simp
  with assms have "fits w data (Suc i)" "fits w data (Suc j)" by (auto intro: fits_mono)
  with assms j show "elements w (set_direct w data i v) n ! j = (elements w data n)[i := v] ! j"
    by (cases "i = j") (simp_all add: element_set_same element_set_other)
qed simp

lemma elements_fill_direct:
  assumes "w \<in> widths" "fits w data n" "b \<le> e" "e \<le> n" "storable w v"
  shows "elements w (fill_direct w data b e v) n =
    take b (elements w data n) @ replicate (e - b) v @ drop e (elements w data n)"
  using assms
proof (induction w data b e v rule: fill_direct.induct)
  case (1 w data b e v)
  show ?case
  proof (cases "b < e")
    case True
    let ?d = "set_direct w data b v"
    have "elements w (fill_direct w data b e v) n = elements w (fill_direct w ?d (b + 1) e v) n"
      using True by (subst fill_direct.simps) simp
    also have "\<dots> = take (b + 1) (elements w ?d n) @ replicate (e - (b + 1)) v @ drop e (elements w ?d n)"
      using 1 True by simp
    also have "elements w ?d n = (elements w data n)[b := v]"
      using 1(2-) True by (simp add: elements_set_direct)
    also have "take (b + 1) \<dots> = take b (elements w data n) @ [v]"
      using True 1(2-) by (simp add: take_Suc_conv_app_nth)
    also have "drop e ((elements w data n)[b := v]) = drop e (elements w data n)"
      using True by simp
    also have "replicate (e - b) v = v # replicate (e - (b + 1)) v"
      using True by (metis Suc_diff_Suc Suc_eq_plus1 replicate_Suc)
    ultimately show ?thesis by simp
  next
    case False
    with 1(2-) show ?thesis by (subst fill_direct.simps) simp
  qed
qed

subsection \<open>Searching\<close>

lemma bound_step_bounds:
  assumes "\<And>i. i < n \<Longrightarrow> left (get_direct w data i) \<longleftrightarrow> i < r"
    and "0 < sz" "low \<le> r" "r \<le> low + sz" "low + sz \<le> n"
    and "bound_step left w data (sz, low) = (sz', low')"
  shows "low' \<le> r \<and> r \<le> low' + sz' \<and> low' + sz' \<le> n \<and> sz' = sz div 2"
proof -
  have p: "low + sz div 2 < n" using assms(2,5) by linarith
  have half: "sz div 2 + (sz - sz div 2) = sz" "sz - sz div 2 \<le> sz div 2 + 1" "sz div 2 < sz" using assms(2) by linarith+
  show ?thesis
  proof (cases "left (get_direct w data (low + sz div 2))")
    case True
    with assms(1) [OF p] have "low + sz div 2 < r" by simp
    with True assms half show ?thesis by (auto simp: bound_step_def Let_def)
  next
    case False
    with assms(1) [OF p] have "r \<le> low + sz div 2" by simp
    with False assms half show ?thesis by (auto simp: bound_step_def Let_def)
  qed
qed

lemma bound_unrolled_bounds:
  assumes "\<And>i. i < n \<Longrightarrow> left (get_direct w data i) \<longleftrightarrow> i < r"
    and "low \<le> r" "r \<le> low + sz" "low + sz \<le> n"
    and "bound_unrolled left w data (sz, low) = (sz', low')"
  shows "low' \<le> r \<and> r \<le> low' + sz' \<and> low' + sz' \<le> n"
  using assms
proof (induction left w data "(sz, low)" arbitrary: sz low rule: bound_unrolled.induct)
  case (1 left w data sz low)
  show ?case
  proof (cases "8 \<le> sz")
    case True
    obtain s1 l1 where e1: "bound_step left w data (sz, low) = (s1, l1)" by fastforce
    obtain s2 l2 where e2: "bound_step left w data (s1, l1) = (s2, l2)" by fastforce
    obtain s3 l3 where e3: "bound_step left w data (s2, l2) = (s3, l3)" by fastforce
    have b1: "l1 \<le> r \<and> r \<le> l1 + s1 \<and> l1 + s1 \<le> n \<and> s1 = sz div 2"
      using bound_step_bounds [of n left w data r sz low s1 l1] 1(2-5) e1 True by simp
    then have b2: "l2 \<le> r \<and> r \<le> l2 + s2 \<and> l2 + s2 \<le> n \<and> s2 = s1 div 2"
      using bound_step_bounds [of n left w data r s1 l1 s2 l2] 1(2) e2 True by simp
    then have b3: "l3 \<le> r \<and> r \<le> l3 + s3 \<and> l3 + s3 \<le> n"
      using bound_step_bounds [of n left w data r s2 l2 s3 l3] 1(2) e3 b1 True by simp
    have "bound_unrolled left w data (s3, l3) = (sz', low')"
      using 1(6) True by (simp add: bound_unrolled.simps [of _ _ _ sz] e1 e2 e3)
    then show ?thesis using 1(1) [of s3 l3] 1(2) True b3 e1 e2 e3 by simp
  next
    case False
    with 1 show ?thesis by (simp add: bound_unrolled.simps)
  qed
qed

lemma bound_single_result:
  assumes "\<And>i. i < n \<Longrightarrow> left (get_direct w data i) \<longleftrightarrow> i < r"
    and "low \<le> r" "r \<le> low + sz" "low + sz \<le> n"
  shows "bound_single left w data (sz, low) = r"
  using assms
proof (induction left w data "(sz, low)" arbitrary: sz low rule: bound_single.induct)
  case (1 left w data sz low)
  show ?case
  proof (cases "0 < sz")
    case True
    obtain s1 l1 where e1: "bound_step left w data (sz, low) = (s1, l1)" by fastforce
    have "l1 \<le> r \<and> r \<le> l1 + s1 \<and> l1 + s1 \<le> n"
      using bound_step_bounds [OF 1(2) True 1(3-5) e1] by simp
    then have "bound_single left w data (s1, l1) = r"
      using 1(1) [of s1 l1] 1(2) True e1 by simp
    then show ?thesis using True by (simp add: bound_single.simps [of _ _ _ sz] e1)
  next
    case False
    with 1 show ?thesis by (simp add: bound_single.simps)
  qed
qed

lemma find_if_partition:
  assumes "sorted xs" "\<And>x y. x \<le> y \<Longrightarrow> left y \<Longrightarrow> left x" "i < length xs"
  shows "left (xs ! i) \<longleftrightarrow> i < find_if (\<lambda>x. \<not> left x) xs"
proof
  assume "left (xs ! i)"
  show "i < find_if (\<lambda>x. \<not> left x) xs"
  proof (rule ccontr)
    assume n: "\<not> i < find_if (\<lambda>x. \<not> left x) xs"
    then have "\<not> left (xs ! find_if (\<lambda>x. \<not> left x) xs)"
      using find_if_at [of "\<lambda>x. \<not> left x" xs] assms(3) by simp
    moreover have "xs ! find_if (\<lambda>x. \<not> left x) xs \<le> xs ! i"
      using n assms(1,3) by (simp add: sorted_nth_mono)
    ultimately show False using \<open>left (xs ! i)\<close> assms(2) by blast
  qed
qed (use find_if_before in fastforce)

lemma bound_find_if:
  assumes "w \<in> widths" "sorted (elements w data n)" "\<And>x y. x \<le> y \<Longrightarrow> left y \<Longrightarrow> left x"
  shows "bound_single left w data (bound_unrolled left w data (n, 0)) = find_if (\<lambda>x. \<not> left x) (elements w data n)"
    (is "_ = ?r")
proof -
  have part: "left (get_direct w data i) \<longleftrightarrow> i < ?r" if "i < n" for i
    using find_if_partition [OF assms(2,3)] that by (simp add: get_direct_element assms(1))
  obtain s l where u: "bound_unrolled left w data (n, 0) = (s, l)" by fastforce
  have "?r \<le> n" using find_if_le [of "\<lambda>x. \<not> left x" "elements w data n"] by simp
  then have "l \<le> ?r \<and> ?r \<le> l + s \<and> l + s \<le> n"
    using bound_unrolled_bounds [of n left w data ?r 0 n s l] part u by simp
  then show ?thesis using bound_single_result [of n left w data ?r l s] part u by simp
qed

end
