(* ===== verification/Array_Header.thy ===== *)
theory Array_Header
  imports Array_Direct
begin

section \<open>Headers of arrays\<close>

text \<open>
  Every array starts with eight bytes that say how many bytes are allocated (bytes 0 to 2), of
  which kind it is and how wide its elements are (byte 4), and how many elements it has (bytes 5
  to 7): \<open>Array::get_..._from_header\<close>, \<open>set_header_...\<close>, \<open>init_header\<close> and \<open>calc_byte_size\<close> of
  \<open>include/core/realm/array.hpp\<close>. A header is the list of its bytes; they are read as \<open>int\<close>, which
  is a 32 bit word, or as \<open>size_t\<close>, a 64 bit word. A reference in an array is told from a number by
  its lowest bit (\<open>RefOrTagged\<close>).
\<close>

text \<open>Two bits hold the width type; a fourth value has no enumerator.\<close>

datatype width_type = Wtype_Bits | Wtype_Multiply | Wtype_Ignore

datatype array_type = Type_Normal | Type_InnerBptreeNode | Type_HasRefs

definition wtype_int :: "width_type \<Rightarrow> nat" where
  "wtype_int t = (case t of Wtype_Bits \<Rightarrow> 0 | Wtype_Multiply \<Rightarrow> 1 | Wtype_Ignore \<Rightarrow> 2)"

definition wtype_of_int :: "nat \<Rightarrow> width_type option" where
  "wtype_of_int n =
     (if n = 0 then Some Wtype_Bits else if n = 1 then Some Wtype_Multiply
      else if n = 2 then Some Wtype_Ignore else None)"

definition header_size :: nat where
  "header_size = 8"

definition max_array_size :: nat where
  "max_array_size = 0x00ffffff"

subsection \<open>Reading a header\<close>

definition int_at :: "cells \<Rightarrow> nat \<Rightarrow> 32 word" where
  "int_at h i = ucast (h ! i)"

definition size_at :: "cells \<Rightarrow> nat \<Rightarrow> 64 word" where
  "size_at h i = ucast (h ! i)"

definition get_is_inner_bptree_node_from_header :: "cells \<Rightarrow> bool" where
  "get_is_inner_bptree_node_from_header h \<longleftrightarrow> (int_at h 4 AND 0x80) \<noteq> 0"

definition get_hasrefs_from_header :: "cells \<Rightarrow> bool" where
  "get_hasrefs_from_header h \<longleftrightarrow> (int_at h 4 AND 0x40) \<noteq> 0"

definition get_context_flag_from_header :: "cells \<Rightarrow> bool" where
  "get_context_flag_from_header h \<longleftrightarrow> (int_at h 4 AND 0x20) \<noteq> 0"

definition get_wtype_from_header :: "cells \<Rightarrow> width_type option" where
  "get_wtype_from_header h = wtype_of_int (unat (drop_bit 3 (int_at h 4 AND 0x18)))"

definition get_width_from_header :: "cells \<Rightarrow> nat" where
  "get_width_from_header h =
     unat (ucast (drop_bit 1 (push_bit (unat (int_at h 4 AND 0x07)) (1 :: 32 word))) :: 8 word)"

definition get_size_from_header :: "cells \<Rightarrow> nat" where
  "get_size_from_header h =
     unat (push_bit 16 (size_at h 5) + push_bit 8 (size_at h 6) + size_at h 7)"

definition get_capacity_from_header :: "cells \<Rightarrow> nat" where
  "get_capacity_from_header h =
     unat (push_bit 19 (size_at h 0) + push_bit 11 (size_at h 1) + ucast (push_bit 3 (int_at h 2)))"

definition get_type_from_header :: "cells \<Rightarrow> array_type" where
  "get_type_from_header h =
     (if get_is_inner_bptree_node_from_header h then Type_InnerBptreeNode
      else if get_hasrefs_from_header h then Type_HasRefs
      else Type_Normal)"

subsection \<open>Writing a header\<close>

text \<open>\<open>uchar((int(h[4]) & ~mask) | value << shift)\<close>\<close>

definition replace_bits :: "32 word \<Rightarrow> 32 word \<Rightarrow> nat \<Rightarrow> cells \<Rightarrow> cells" where
  "replace_bits m v shift h = h[4 := ucast ((int_at h 4 AND NOT m) OR push_bit shift v)]"

definition set_header_is_inner_bptree_node :: "bool \<Rightarrow> cells \<Rightarrow> cells" where
  "set_header_is_inner_bptree_node v h = replace_bits 0x80 (of_bool v) 7 h"

definition set_header_hasrefs :: "bool \<Rightarrow> cells \<Rightarrow> cells" where
  "set_header_hasrefs v h = replace_bits 0x40 (of_bool v) 6 h"

definition set_header_context_flag :: "bool \<Rightarrow> cells \<Rightarrow> cells" where
  "set_header_context_flag v h = replace_bits 0x20 (of_bool v) 5 h"

definition set_header_wtype :: "width_type \<Rightarrow> cells \<Rightarrow> cells" where
  "set_header_wtype v h = replace_bits 0x18 (of_nat (wtype_int v)) 3 h"

text \<open>The loop that counts the bits of a width; the width is not negative.\<close>

fun count_shifts :: "nat \<Rightarrow> nat" where
  "count_shifts v = (if v = 0 then 0 else count_shifts (v div 2) + 1)"

declare count_shifts.simps [simp del]

definition set_header_width :: "nat \<Rightarrow> cells \<Rightarrow> cells" where
  "set_header_width v h = replace_bits 0x7 (of_nat (count_shifts v)) 0 h"

definition low_byte :: "64 word \<Rightarrow> 8 word" where
  "low_byte v = ucast (v AND 0x000000FF)"

definition set_header_size :: "nat \<Rightarrow> cells \<Rightarrow> cells" where
  "set_header_size v h =
     h[5 := low_byte (drop_bit 16 (of_nat v)), 6 := low_byte (drop_bit 8 (of_nat v)),
       7 := low_byte (of_nat v)]"

definition set_header_capacity :: "nat \<Rightarrow> cells \<Rightarrow> cells" where
  "set_header_capacity v h =
     h[0 := low_byte (drop_bit 19 (of_nat v)), 1 := low_byte (drop_bit 11 (of_nat v)),
       2 := low_byte (drop_bit 3 (of_nat v))]"

definition init_header ::
  "cells \<Rightarrow> bool \<Rightarrow> bool \<Rightarrow> bool \<Rightarrow> width_type \<Rightarrow> nat \<Rightarrow> nat \<Rightarrow> nat \<Rightarrow> cells" where
  "init_header h is_inner_bptree_node has_refs context_flag width_type width sz capacity =
     (let h = replicate header_size 0 @ drop header_size h;
          h = set_header_is_inner_bptree_node is_inner_bptree_node h;
          h = set_header_hasrefs has_refs h;
          h = set_header_context_flag context_flag h;
          h = set_header_wtype width_type h;
          h = set_header_width width h;
          h = set_header_size sz h
      in set_header_capacity capacity h)"

subsection \<open>The size in bytes\<close>

definition calc_byte_size :: "width_type option \<Rightarrow> nat \<Rightarrow> nat \<Rightarrow> nat" where
  "calc_byte_size wtype sz width =
     (let num_bytes =
        (case wtype of
           Some Wtype_Bits \<Rightarrow> drop_bit 3 ((of_nat sz * of_nat width :: 64 word) + 7)
         | Some Wtype_Multiply \<Rightarrow> of_nat sz * of_nat width
         | Some Wtype_Ignore \<Rightarrow> of_nat sz
         | None \<Rightarrow> 0);
      num_bytes = (num_bytes + 7) AND NOT 7
      in unat (num_bytes + of_nat header_size))"

definition get_byte_size_from_header :: "cells \<Rightarrow> nat" where
  "get_byte_size_from_header h =
     calc_byte_size (get_wtype_from_header h) (get_size_from_header h) (get_width_from_header h)"

definition get_max_byte_size :: "nat \<Rightarrow> nat" where
  "get_max_byte_size num_elems = header_size + num_elems * 8"

subsection \<open>References and tagged integers\<close>

text \<open>\<open>m_value\<close> is an \<open>int_fast64_t\<close>.\<close>

definition is_ref :: "int \<Rightarrow> bool" where
  "is_ref m_value \<longleftrightarrow> m_value AND 1 = 0"

definition is_tagged :: "int \<Rightarrow> bool" where
  "is_tagged m_value \<longleftrightarrow> \<not> is_ref m_value"

definition get_as_ref :: "int \<Rightarrow> nat" where
  "get_as_ref m_value = to_ref m_value"

definition get_as_int :: "int \<Rightarrow> 64 word" where
  "get_as_int m_value = drop_bit 1 (word_of_int m_value AND 0xFFFFFFFFFFFFFFFF)"

definition make_ref :: "nat \<Rightarrow> int" where
  "make_ref ref = from_ref ref"

text \<open>The number has to fit into 63 bits, which the code asserts.\<close>

definition make_tagged :: "64 word \<Rightarrow> int option" where
  "make_tagged i = (if i < push_bit 63 1 then Some (sint (push_bit 1 i OR 1)) else None)"

subsection \<open>What is written is read\<close>

lemma bit_int_at [simp]: "bit (int_at h i) n = bit (h ! i) n"
  by (auto simp: int_at_def bit_simps dest: bit_imp_le_length)

lemma length_replace_bits [simp]: "length (replace_bits m v s h) = length h"
  by (simp add: replace_bits_def)

lemma nth_replace_bits [simp]: "i \<noteq> 4 \<Longrightarrow> replace_bits m v s h ! i = h ! i"
  by (simp add: replace_bits_def)

lemma bit_replace_bits:
  "4 < length h \<Longrightarrow> n < 8 \<Longrightarrow> bit (replace_bits m v s h ! 4) n \<longleftrightarrow>
     (bit (h ! 4) n \<and> \<not> bit m n) \<or> (s \<le> n \<and> bit v (n - s))"
  by (auto simp: replace_bits_def bit_simps)

lemmas header_defs =
  set_header_is_inner_bptree_node_def set_header_hasrefs_def set_header_context_flag_def
  set_header_wtype_def set_header_width_def set_header_size_def set_header_capacity_def

lemma mask_words_header:
  "(0x80 :: 32 word) = 2 ^ 7" "(0x40 :: 32 word) = 2 ^ 6" "(0x20 :: 32 word) = 2 ^ 5"
  "(0x18 :: 32 word) = push_bit 3 (mask 2)"
  "(7 :: 32 word) = mask 3"
  by (simp_all add: mask_numeral mask_Suc_0)

lemma bit_masks:
  "bit (0x80 :: 32 word) n \<longleftrightarrow> n = 7" "bit (0x40 :: 32 word) n \<longleftrightarrow> n = 6"
  "bit (0x20 :: 32 word) n \<longleftrightarrow> n = 5" "bit (0x18 :: 32 word) n \<longleftrightarrow> n = 3 \<or> n = 4"
  "bit (7 :: 32 word) n \<longleftrightarrow> n < 3"
  unfolding mask_words_header by (auto simp: bit_push_bit_iff bit_mask_iff bit_exp_iff simp del: power_numeral)

lemma bit_wtype: "bit (of_nat (wtype_int t) :: 32 word) n \<Longrightarrow> n < 2"
  by (cases t) (auto simp: wtype_int_def bit_simps split: if_splits)

lemma bit_of_nat_less: "x < 2 ^ k \<Longrightarrow> bit (of_nat x :: 'a::len word) n \<Longrightarrow> n < k"
  using bit_take_bit_iff [of k x n] by (simp add: bit_simps take_bit_nat_eq_self)

lemma bit_init_header:
  assumes "count_shifts w < 8" "j < 8"
  shows "bit (init_header h a b c t w sz cap ! 4) j \<longleftrightarrow>
    j = 7 \<and> a \<or> j = 6 \<and> b \<or> j = 5 \<and> c
    \<or> 3 \<le> j \<and> bit (of_nat (wtype_int t) :: 32 word) (j - 3) \<and> j < 5
    \<or> j < 3 \<and> bit (of_nat (count_shifts w) :: 32 word) j"
proof -
  have w: "bit (of_nat (count_shifts w) :: 32 word) n \<Longrightarrow> n < 3" for n
    using bit_of_nat_less [of "count_shifts w" 3 n] assms(1) by simp
  have t: "bit (of_nat (wtype_int t) :: 32 word) n \<Longrightarrow> n < 2" for n by (rule bit_wtype)
  from assms(2) show ?thesis
    by (auto simp: init_header_def Let_def header_defs bit_replace_bits header_size_def bit_1_iff
        bit_masks nth_append simp del: bit_numeral_word_iff dest: w t)
qed


lemma int_at_and_exp: "(int_at h i AND 2 ^ n) \<noteq> 0 \<longleftrightarrow> bit (h ! i) n"
  using and_exp_eq_0_iff_not_bit [of "int_at h i" n] by simp

lemma flags_from_header:
  "get_is_inner_bptree_node_from_header h \<longleftrightarrow> bit (h ! 4) 7"
  "get_hasrefs_from_header h \<longleftrightarrow> bit (h ! 4) 6"
  "get_context_flag_from_header h \<longleftrightarrow> bit (h ! 4) 5"
  using int_at_and_exp [of h 4 7] int_at_and_exp [of h 4 6] int_at_and_exp [of h 4 5]
  by (simp_all add: get_is_inner_bptree_node_from_header_def get_hasrefs_from_header_def
      get_context_flag_from_header_def)

lemma wtype_of_wtype_int [simp]: "wtype_of_int (wtype_int t) = Some t"
  by (cases t) (simp_all add: wtype_of_int_def wtype_int_def)

lemma get_wtype_init:
  assumes "count_shifts w < 8"
  shows "get_wtype_from_header (init_header h a b c t w sz cap) = Some t"
proof -
  have "drop_bit 3 (int_at (init_header h a b c t w sz cap) 4 AND 0x18) = of_nat (wtype_int t)"
  proof (rule bit_word_eqI)
    fix n
    show "bit (drop_bit 3 (int_at (init_header h a b c t w sz cap) 4 AND 0x18)) n
      = bit (of_nat (wtype_int t) :: 32 word) n"
      (is "bit (drop_bit 3 ?x) n = _")
    proof -
      have "bit (drop_bit 3 ?x) n \<longleftrightarrow> bit (init_header h a b c t w sz cap ! 4) (3 + n) \<and> n < 2"
        by (simp only: bit_drop_bit_eq o_apply bit_and_iff bit_masks bit_int_at) arith
      also have "\<dots> \<longleftrightarrow> bit (of_nat (wtype_int t) :: 32 word) n \<and> n < 2"
        by (auto simp: bit_init_header [OF assms])
      finally show ?thesis using bit_wtype [of t n] by blast
    qed
  qed
  moreover have "unat (of_nat (wtype_int t) :: 32 word) = wtype_int t"
    by (cases t) (simp_all add: wtype_int_def)
  ultimately show ?thesis by (simp add: get_wtype_from_header_def)
qed

lemma count_shifts_values:
  "count_shifts 0 = 0" "count_shifts 1 = 1" "count_shifts 2 = 2" "count_shifts 4 = 3"
  "count_shifts (Suc 0) = 1" "count_shifts 8 = 4" "count_shifts 16 = 5" "count_shifts 32 = 6" "count_shifts 64 = 7"
  by (simp_all add: count_shifts.simps)

lemma count_shifts_widths:
  assumes "w \<in> widths"
  shows "count_shifts w < 8" "2 ^ count_shifts w div 2 = w"
  using assms unfolding widths_def by (auto simp: count_shifts_values)

lemma get_width_init:
  assumes "w \<in> widths"
  shows "get_width_from_header (init_header h a b c t w sz cap) = w"
proof -
  note less = count_shifts_widths(1) [OF assms]
  have "int_at (init_header h a b c t w sz cap) 4 AND 0x07 = of_nat (count_shifts w)"
  proof (rule bit_word_eqI)
    fix n
    show "bit (int_at (init_header h a b c t w sz cap) 4 AND 0x07) n
      = bit (of_nat (count_shifts w) :: 32 word) n"
      using bit_of_nat_less [of "count_shifts w" 3 n, where 'a = 32] less
      by (auto simp: bit_and_iff bit_masks bit_init_header [OF less] simp del: bit_numeral_word_iff)
  qed
  moreover have "unat (of_nat (count_shifts w) :: 32 word) = count_shifts w"
    using less by (simp add: unat_of_nat)
  ultimately show ?thesis
    using assms unfolding widths_def by (auto simp: get_width_from_header_def count_shifts_values)
qed

lemma nth_init_header:
  "init_header h a b c t w sz cap ! 5 = low_byte (drop_bit 16 (of_nat sz))"
  "init_header h a b c t w sz cap ! 6 = low_byte (drop_bit 8 (of_nat sz))"
  "init_header h a b c t w sz cap ! 7 = low_byte (of_nat sz)"
  "init_header h a b c t w sz cap ! 0 = low_byte (drop_bit 19 (of_nat cap))"
  "init_header h a b c t w sz cap ! 1 = low_byte (drop_bit 11 (of_nat cap))"
  "init_header h a b c t w sz cap ! 2 = low_byte (drop_bit 3 (of_nat cap))"
  by (simp_all add: init_header_def Let_def header_defs header_size_def)

lemma drop_of_nat:
  assumes "n < 2 ^ 64"
  shows "drop_bit k (of_nat n :: 64 word) = of_nat (n div 2 ^ k)"
proof (rule bit_word_eqI)
  fix i
  have "bit n m \<Longrightarrow> m < 64" for m
    using assms take_bit_nat_eq_self [of n 64] bit_take_bit_iff [of 64 n m] by simp
  moreover have "bit (n div 2 ^ k) i \<longleftrightarrow> bit n (k + i)"
    by (simp add: bit_drop_bit_eq flip: drop_bit_eq_div)
  moreover have "bit (of_nat m :: 64 word) j \<longleftrightarrow> j < 64 \<and> bit m j" for m j
    by (simp add: bit_simps)
  ultimately show "bit (drop_bit k (of_nat n :: 64 word)) i = bit (of_nat (n div 2 ^ k) :: 64 word) i"
    by (fastforce simp: bit_drop_bit_eq)
qed

lemma low_byte_of_nat: "low_byte (of_nat n) = of_nat n"
proof -
  have "x AND 0xFF = take_bit 8 x" for x :: "64 word"
    by (simp add: take_bit_eq_mask mask_numeral)
  then show ?thesis unfolding low_byte_def
    by (simp only:) (rule bit_word_eqI, auto simp: bit_simps)
qed

text \<open>Three bytes put together again; the sum has no carries.\<close>

lemma three_bytes:
  assumes "n < 2 ^ 24"
  shows "(n div 2 ^ 16) mod 256 * 2 ^ 16 + (n div 2 ^ 8) mod 256 * 2 ^ 8 + n mod 256 = (n :: nat)"
proof -
  let ?q = "n div 256"
  have "n div 65536 = ?q div 256" using div_mult2_eq [of n 256 256] by simp
  moreover have "n div 65536 < 256" using assms by simp
  moreover have "?q div 256 * 65536 + ?q mod 256 * 256 + n mod 256 = n"
    using div_mult_mod_eq [of ?q 256] div_mult_mod_eq [of n 256] by linarith
  ultimately show ?thesis by simp
qed

lemma push_byte:
  assumes "k \<le> 32"
  shows "push_bit k (ucast (of_nat m :: 8 word) :: 64 word) = of_nat (m mod 256 * 2 ^ k)"
proof -
  have "(ucast (of_nat m :: 8 word) :: 64 word) = of_nat (m mod 256)"
    by (simp add: unsigned_of_nat take_bit_eq_mod)
  then show ?thesis by (simp add: push_bit_eq_mult)
qed


lemma size_sum:
  assumes "n < 2 ^ 24" "k \<le> 3"
  shows "unat (of_nat ((n div 2 ^ 16) mod 256 * 2 ^ (k + 16)) + of_nat ((n div 2 ^ 8) mod 256 * 2 ^ (k + 8))
    + (of_nat (n mod 256 * 2 ^ k) :: 64 word)) = n * 2 ^ k"
proof -
  have "of_nat ((n div 2 ^ 16) mod 256 * 2 ^ (k + 16)) + of_nat ((n div 2 ^ 8) mod 256 * 2 ^ (k + 8))
    + (of_nat (n mod 256 * 2 ^ k) :: 64 word)
    = of_nat (((n div 2 ^ 16) mod 256 * 2 ^ 16 + (n div 2 ^ 8) mod 256 * 2 ^ 8 + n mod 256) * 2 ^ k)"
    by (simp only: of_nat_add [symmetric] power_add distrib_right mult.assoc mult.commute [of "2 ^ k"])
  also have "\<dots> = of_nat (n * 2 ^ k)" by (simp only: three_bytes [OF assms(1)])
  also have "unat (of_nat (n * 2 ^ k) :: 64 word) = n * 2 ^ k"
  proof -
    have "(2 :: nat) ^ k \<le> 2 ^ 3" using assms(2) by (rule power_increasing) simp
    then have "n * 2 ^ k < 2 ^ 24 * 2 ^ 3 + 1" using mult_mono [of n "2 ^ 24" "2 ^ k" "2 ^ 3"] assms(1) by simp
    then show ?thesis by (simp only: unat_of_nat) simp
  qed
  finally show ?thesis .
qed

lemma low_byte_div:
  assumes "n < 2 ^ 64"
  shows "low_byte (drop_bit k (of_nat n)) = of_nat (n div 2 ^ k)"
  by (simp only: drop_of_nat [OF assms] low_byte_of_nat)

lemma get_size_init:
  assumes "sz \<le> max_array_size"
  shows "get_size_from_header (init_header h a b c t w sz cap) = sz"
proof -
  have less: "sz < 2 ^ 24" using assms by (simp add: max_array_size_def)
  then have bytes: "low_byte (drop_bit k (of_nat sz)) = of_nat (sz div 2 ^ k)" for k
    by (intro low_byte_div) simp
  show ?thesis
    unfolding get_size_from_header_def size_at_def nth_init_header bytes
      bytes [of 0, unfolded drop_bit_0 id_def power_0 div_by_1]
    using size_sum [OF less, of 0] push_byte [of 16 "sz div 2 ^ 16"] push_byte [of 8 "sz div 2 ^ 8"] push_byte [of 0 sz]
    by simp
qed

lemma get_capacity_init:
  assumes "cap \<le> 0xffffff * 8" "8 dvd cap"
  shows "get_capacity_from_header (init_header h a b c t w sz cap) = cap"
proof -
  obtain n where n: "cap = 8 * n" using assms(2) by (elim dvdE)
  have less: "n < 2 ^ 24" using assms(1) n by simp
  have byte: "low_byte (drop_bit (3 + k) (of_nat cap)) = of_nat (n div 2 ^ k)" for k
  proof -
    have "cap < 2 ^ 64" using assms(1) by simp
    moreover have "cap div 2 ^ (3 + k) = n div 2 ^ k"
      unfolding n power_add by (simp add: div_mult2_eq)
    ultimately show ?thesis by (simp add: low_byte_div)
  qed
  have third: "(ucast (push_bit 3 (int_at h 2)) :: 64 word) = push_bit 3 (size_at h 2)" for h
    by (rule bit_word_eqI) (auto simp: bit_simps size_at_def dest: bit_imp_le_length)
  show ?thesis
    unfolding get_capacity_from_header_def third size_at_def nth_init_header
    using byte [of 16] byte [of 8] byte [of 0] size_sum [OF less, of 3]
      push_byte [of 19 "n div 2 ^ 16"] push_byte [of 11 "n div 2 ^ 8"] push_byte [of 3 n]
    by (simp add: n)
qed

lemma length_init_header: "header_size \<le> length h \<Longrightarrow> length (init_header h a b c t w sz cap) = length h"
  by (simp add: init_header_def Let_def header_defs header_size_def)

lemma drop_init_header:
  "drop header_size (init_header h a b c t w sz cap) = drop header_size h"
  by (simp add: init_header_def Let_def header_defs header_size_def replace_bits_def)

subsection \<open>The size in bytes\<close>

lemma and_not_mask: "x AND NOT (mask k) = push_bit k (drop_bit k (x :: 64 word))"
  by (rule bit_word_eqI) (auto simp: bit_simps)

lemma round_8:
  assumes "n + 7 < 2 ^ 64"
  shows "(of_nat n + 7) AND NOT 7 = (of_nat ((n + 7) div 8 * 8) :: 64 word)"
proof -
  have "(7 :: 64 word) = mask 3" by (simp add: mask_numeral)
  then have "x AND NOT 7 = push_bit 3 (drop_bit 3 x)" for x :: "64 word"
    by (simp only: and_not_mask)
  then have "(of_nat n + 7) AND NOT 7 = push_bit 3 (drop_bit 3 (of_nat (n + 7) :: 64 word))" by simp
  also have "drop_bit 3 (of_nat (n + 7) :: 64 word) = of_nat ((n + 7) div 8)"
    using drop_of_nat [OF assms, of 3] by simp
  finally show ?thesis by (simp add: push_bit_eq_mult)
qed

lemma round_up_8_8: "((m + 7) div 8 + 7) div 8 = (m + 63) div (64 :: nat)"
proof -
  have "(m + 7 + 7 * 8) div 8 = (m + 7) div 8 + 7" using div_mult_self3 [of 8 7 "m + 7"] by simp
  then have "(m + 7) div 8 + 7 = (m + 63) div 8" by simp
  then show ?thesis using div_mult2_eq [of "m + 63" 8 8] by simp
qed

lemma len64: "LENGTH(64) = 64"
  by simp

lemma calc_byte_size_bits:
  assumes "sz \<le> max_array_size" "w \<le> 64"
  shows "calc_byte_size (Some Wtype_Bits) sz w = header_size + (sz * w + 63) div 64 * 8"
proof -
  have le: "sz * w \<le> 0xffffff * 64" using assms mult_mono [of sz "0xffffff" w 64] by (simp add: max_array_size_def)
  have "drop_bit 3 (of_nat (sz * w + 7) :: 64 word) = of_nat ((sz * w + 7) div 8)"
    using drop_of_nat [of "sz * w + 7" 3] le by simp
  then have "calc_byte_size (Some Wtype_Bits) sz w =
      unat (((of_nat ((sz * w + 7) div 8) + 7) AND NOT 7) + of_nat header_size :: 64 word)"
    by (simp add: calc_byte_size_def)
  also have "\<dots> = unat (of_nat (((sz * w + 7) div 8 + 7) div 8 * 8 + header_size) :: 64 word)"
    using le by (subst round_8) simp_all
  also have "((sz * w + 7) div 8 + 7) div 8 = (sz * w + 63) div 64" by (rule round_up_8_8)
  also have "unat (of_nat ((sz * w + 63) div 64 * 8 + header_size) :: 64 word) = (sz * w + 63) div 64 * 8 + header_size"
  proof -
    have "(sz * w + 63) div 64 * 8 + header_size < 2 ^ 64" using le by (simp add: header_size_def)
    then show ?thesis by (simp only: unat_of_nat take_bit_nat_eq_self len64 mod_less)
  qed
  finally show ?thesis by simp
qed


lemma elements_fit:
  assumes "sz \<le> max_array_size" "w \<le> 64"
  shows "sz * w \<le> 8 * (calc_byte_size (Some Wtype_Bits) sz w - header_size)"
    "calc_byte_size (Some Wtype_Bits) sz w \<le> get_max_byte_size sz"
    "8 dvd calc_byte_size (Some Wtype_Bits) sz w"
proof -
  note eq = calc_byte_size_bits [OF assms]
  show "sz * w \<le> 8 * (calc_byte_size (Some Wtype_Bits) sz w - header_size)"
    unfolding eq by simp
  have "sz * w \<le> sz * 64" using assms(2) by simp
  then have "(sz * w + 63) div 64 \<le> (sz * 64 + 63) div 64" by (intro div_le_mono) simp
  then show "calc_byte_size (Some Wtype_Bits) sz w \<le> get_max_byte_size sz"
    unfolding eq get_max_byte_size_def by simp
  show "8 dvd calc_byte_size (Some Wtype_Bits) sz w"
    unfolding eq header_size_def by simp
qed

subsection \<open>References and tagged integers\<close>

lemma even_sint: "even (sint (x :: 64 word)) \<longleftrightarrow> even x"
  using bit_sint_iff [of x 0] by (simp add: bit_0)

lemma is_ref_even: "is_ref v \<longleftrightarrow> even v"
  by (simp add: is_ref_def and_one_eq even_iff_mod_2_eq_zero)

lemma make_tagged_value:
  assumes "i < 2 ^ 63"
  shows "\<exists>v. make_tagged i = Some v \<and> is_tagged v \<and> get_as_int v = i"
proof -
  let ?v = "sint (push_bit 1 i OR 1)"
  have hi: "\<not> bit i 63"
  proof -
    have "take_bit 63 (unat i) = unat i" using assms by (intro take_bit_nat_eq_self) (simp add: word_less_nat_alt)
    then have "bit (unat i) 63 \<longleftrightarrow> False" using bit_take_bit_iff [of 63 "unat i" 63] by simp
    then show ?thesis by (simp add: bit_unsigned_iff)
  qed
  have "make_tagged i = Some ?v" using assms by (simp add: make_tagged_def push_bit_eq_mult)
  moreover have "is_tagged ?v"
  proof -
    have "bit (push_bit 1 i OR 1) 0" by (simp add: bit_or_iff bit_1_iff)
    then show ?thesis by (simp add: is_tagged_def is_ref_even even_sint bit_0)
  qed
  moreover have "get_as_int ?v = i"
  proof -
    have "(0xFFFFFFFFFFFFFFFF :: 64 word) = mask 64" by (simp add: mask_numeral)
    then have "x AND 0xFFFFFFFFFFFFFFFF = x" for x :: "64 word"
      by (simp only: take_bit_eq_mask [symmetric]) (simp add: take_bit_word_eq_self)
    then have "get_as_int ?v = drop_bit 1 (push_bit 1 i OR 1)"
      by (simp only: get_as_int_def of_int_sint scast_id)
    also have "\<dots> = i"
    proof (rule bit_word_eqI)
      fix n assume "n < LENGTH(64)"
      then show "bit (drop_bit 1 (push_bit 1 i OR 1)) n = bit i n"
        using hi by (cases "n = 63") (auto simp: bit_simps simp del: push_bit_Suc One_nat_def)
    qed
    finally show ?thesis .
  qed
  ultimately show ?thesis by blast
qed

lemma make_ref_value:
  assumes "ref < 2 ^ 64" "8 dvd ref"
  shows "is_ref (make_ref ref)" "get_as_ref (make_ref ref) = ref"
proof -
  have "even ref" using assms(2) by auto
  then have "\<not> bit (of_nat ref :: 64 word) 0"
    by (simp add: bit_of_nat_iff bit_0)
  then show "is_ref (make_ref ref)"
    by (simp add: is_ref_even make_ref_def from_ref_def even_sint bit_0)
  show "get_as_ref (make_ref ref) = ref"
    using assms(1) by (simp add: get_as_ref_def make_ref_def to_ref_def from_ref_def unat_of_nat take_bit_nat_eq_self)
qed

end
