(* ===== verification/Array_Lanes.thy ===== *)
theory Array_Lanes
  imports Array_Direct
begin

section \<open>Many elements in one word\<close>

text \<open>
  The search of an array (\<open>include/core/realm/array.hpp\<close>) looks at 64 bits at a time: a \<open>uint64_t\<close>
  holds \<open>64 / width\<close> elements, its lanes. This theory models the functions that find out with a few
  word operations whether, where and how often a lane is zero (\<open>test_zero\<close>, \<open>find_zero\<close>, \<open>cascade\<close>)
  or greater than a value (\<open>find_gtlt_magic\<close>), and shows what they say of the lanes. A width is one
  of 1, 2, 4, 8, 16, 32 and 64 where there are lanes.
\<close>

definition lane_widths :: "nat set" where
  "lane_widths = {1, 2, 4, 8, 16, 32, 64}"

definition lanes :: "nat \<Rightarrow> nat" where
  "lanes w = 64 div w"

definition lane :: "nat \<Rightarrow> nat \<Rightarrow> 64 word \<Rightarrow> int" where
  "lane w k v = take_bit w (drop_bit (w * k) (uint v))"

subsection \<open>The functions\<close>

definition no0 :: "nat \<Rightarrow> nat" where
  "no0 v = (if v = 0 then 1 else v)"

text \<open>\<open>(1ULL << width) - 1\<close>, without a warning for 64.\<close>

definition lane_mask :: "nat \<Rightarrow> 64 word" where
  "lane_mask width =
     (if width = 64 then NOT 0 else push_bit (if width = 64 then 0 else width) 1 - 1)"

definition no0_word :: "64 word \<Rightarrow> 64 word" where
  "no0_word v = (if v = 0 then 1 else v)"

definition lower_bits :: "nat \<Rightarrow> 64 word" where
  "lower_bits width =
     (if width = 1 then 0xFFFFFFFFFFFFFFFF
      else if width = 2 then 0x5555555555555555
      else if width = 4 then 0x1111111111111111
      else if width = 8 then 0x0101010101010101
      else if width = 16 then 0x0001000100010001
      else if width = 32 then 0x0000000100000001
      else if width = 64 then 0x0000000000000001
      else - 1)"

definition test_zero :: "nat \<Rightarrow> 64 word \<Rightarrow> bool" where
  "test_zero width v =
     (let lower = lower_bits width;
          upper = push_bit (if width = 0 then 0 else width - 1) (lower_bits width * 1);
          hasZeroByte = (v - lower) AND NOT v AND upper
      in hasZeroByte \<noteq> 0)"

text \<open>The last loop of \<open>find_zero\<close>; \<open>None\<close> is the failure of its assertion.\<close>

function find_zero_loop :: "bool \<Rightarrow> nat \<Rightarrow> 64 word \<Rightarrow> nat \<Rightarrow> nat option" where
  "find_zero_loop eq width v start =
     (if eq = ((drop_bit (width * start) v AND lane_mask width) \<noteq> 0) then
        if start \<le> 8 * 8 then find_zero_loop eq width v (start + 1) else None
      else Some start)"
  by pat_completeness auto
termination by (relation "measure (\<lambda>(_, _, _, start). 65 - start)") auto

declare find_zero_loop.simps [simp del]

definition find_zero_start :: "bool \<Rightarrow> nat \<Rightarrow> 64 word \<Rightarrow> nat" where
  "find_zero_start eq width v =
     (let start = 0 in
      if width \<le> 8 then
        if (if eq then \<not> test_zero width (v OR 0xffffffff00000000) else v AND 0x00000000ffffffff = 0) then
          let start = start + 64 div no0 width div 2 in
          if width \<le> 4 then
            if (if eq then \<not> test_zero width (v OR 0xffff000000000000) else v AND 0x0000ffffffffffff = 0)
            then start + 64 div no0 width div 4
            else start
          else start
        else
          if width \<le> 4 then
            if (if eq then \<not> test_zero width (v OR 0xffffffffffff0000) else v AND 0x000000000000ffff = 0)
            then start + 64 div no0 width div 4
            else start
          else start
      else start)"

definition find_zero :: "bool \<Rightarrow> nat \<Rightarrow> 64 word \<Rightarrow> nat option" where
  "find_zero eq width v =
     (if eq = ((drop_bit (width * 0) v AND lane_mask width) = 0) then Some 0
      else find_zero_loop eq width v (find_zero_start eq width v))"

text \<open>The cascades: \<open>~0ULL / e * c\<close> repeats \<open>c\<close> in every lane of ones \<open>e\<close>.\<close>

definition repeated :: "64 word \<Rightarrow> 64 word \<Rightarrow> 64 word" where
  "repeated e c = NOT 0 div e * c"

definition spill :: "nat \<Rightarrow> 64 word \<Rightarrow> 64 word \<Rightarrow> 64 word" where
  "spill s c a = a OR (drop_bit s a AND c)"

definition isolate :: "bool \<Rightarrow> 64 word \<Rightarrow> 64 word \<Rightarrow> 64 word" where
  "isolate zero m a = (let a = a AND m in if zero then a XOR m else a)"

definition cascade :: "nat \<Rightarrow> bool \<Rightarrow> 64 word \<Rightarrow> 64 word" where
  "cascade width zero a =
     (if width = 1 then (if zero then NOT a else a)
      else if width = 2 then
        isolate zero 0x5555555555555555 (spill 1 (repeated 0x3 0x1) a)
      else if width = 4 then
        isolate zero (repeated 0xF 0x1)
          (spill 2 (repeated 0xF 0x3) (spill 1 (repeated 0xF 0x7) a))
      else if width = 8 then
        isolate zero (repeated 0xFF 0x1)
          (spill 4 (repeated 0xFF 0x0F) (spill 2 (repeated 0xFF 0x3F) (spill 1 (repeated 0xFF 0x7F) a)))
      else if width = 16 then
        isolate zero (repeated 0xFFFF 0x1)
          (spill 8 (repeated 0xFFFF 0x00FF) (spill 4 (repeated 0xFFFF 0x0FFF)
            (spill 2 (repeated 0xFFFF 0x3FFF) (spill 1 (repeated 0xFFFF 0x7FFF) a))))
      else if width = 32 then
        isolate zero (repeated 0xFFFFFFFF 0x1)
          (spill 16 (repeated 0xFFFFFFFF 0x0000FFFF) (spill 8 (repeated 0xFFFFFFFF 0x00FFFFFF)
            (spill 4 (repeated 0xFFFFFFFF 0x0FFFFFFF) (spill 2 (repeated 0xFFFFFFFF 0x3FFFFFFF)
              (spill 1 (repeated 0xFFFFFFFF 0x7FFFFFFF) a)))))
      else if width = 64 then of_bool ((a = 0) = zero)
      else - 1)"

definition find_gtlt_magic :: "bool \<Rightarrow> nat \<Rightarrow> int \<Rightarrow> 64 word" where
  "find_gtlt_magic gt width v =
     (let mask1 = lane_mask width;
          mask2 = drop_bit 1 mask1
      in if gt then NOT 0 div no0_word mask1 * (mask2 - word_of_int v)
         else NOT 0 div no0_word mask1 * word_of_int v)"

text \<open>The bits that \<open>find_gtlt_fast\<close> computes for the lanes that match.\<close>

definition gtlt_matches :: "bool \<Rightarrow> nat \<Rightarrow> 64 word \<Rightarrow> 64 word \<Rightarrow> 64 word" where
  "gtlt_matches gt width chunk magic =
     (let mask1 = lane_mask width;
          mask2 = drop_bit 1 mask1
      in if gt then ((chunk + magic) OR chunk) AND (NOT 0 div no0_word mask1 * (mask2 + 1))
         else (chunk - magic) AND NOT chunk AND (NOT 0 div no0_word mask1 * (mask2 + 1)))"

subsection \<open>Lanes of integers\<close>

text \<open>\<open>spread w n x\<close> has \<open>x\<close> in each of its first \<open>n\<close> lanes.\<close>

fun spread :: "nat \<Rightarrow> nat \<Rightarrow> int \<Rightarrow> int" where
  "spread w 0 x = 0"
| "spread w (Suc n) x = x + 2 ^ w * spread w n x"

lemma spread_times: "spread w n (x * y) = spread w n x * y"
  by (induction n) (simp_all add: algebra_simps)

lemma spread_scale: "spread w n x = spread w n 1 * x"
  using spread_times [of w n 1 x] by simp

lemma drop_split:
  assumes "0 \<le> d" "d < 2 ^ w"
  shows "drop_bit w (d + 2 ^ w * r) = (r :: int)" "take_bit w (d + 2 ^ w * r) = d"
  using assms by (simp_all add: drop_bit_eq_div take_bit_eq_mod)

lemma int_lane_split: "(v :: int) = take_bit w v + 2 ^ w * drop_bit w v"
  by (simp add: drop_bit_eq_div take_bit_eq_mod)

definition int_lane :: "nat \<Rightarrow> nat \<Rightarrow> int \<Rightarrow> int" where
  "int_lane w k v = take_bit w (drop_bit (w * k) v)"

lemma int_lane_0: "int_lane w 0 v = take_bit w v"
  by (simp add: int_lane_def)

lemma int_lane_Suc: "int_lane w (Suc k) v = int_lane w k (drop_bit w v)"
  by (simp add: int_lane_def drop_bit_drop_bit add.commute)

lemma int_lane_range: "0 \<le> int_lane w k v" "int_lane w k v < 2 ^ w"
  by (simp_all add: int_lane_def)

lemma int_lane_spread:
  assumes "0 \<le> x" "x < 2 ^ w" "k < n"
  shows "int_lane w k (spread w n x) = x"
  using assms(3)
proof (induction n arbitrary: k)
  case (Suc n)
  then show ?case
    by (cases k) (simp_all add: int_lane_0 int_lane_Suc drop_split [OF assms(1,2)])
qed simp

lemma int_lane_add_spread:
  assumes "0 \<le> c" "\<And>j. j \<le> k \<Longrightarrow> int_lane w j v + c < 2 ^ w" "k < n"
  shows "int_lane w k (v + spread w n c) = int_lane w k v + c"
  using assms(2,3)
proof (induction k arbitrary: v n)
  case 0
  then obtain m where n: "n = Suc m" by (cases n) auto
  have "v + spread w n c = (take_bit w v + c) + 2 ^ w * (drop_bit w v + spread w m c)"
    using int_lane_split [of v w] by (simp add: n algebra_simps)
  then show ?case using 0(1) [of 0] assms(1) by (simp add: int_lane_0 drop_split)
next
  case (Suc k)
  then obtain m where n: "n = Suc m" by (cases n) auto
  have eq: "v + spread w n c = (take_bit w v + c) + 2 ^ w * (drop_bit w v + spread w m c)"
    using int_lane_split [of v w] by (simp add: n algebra_simps)
  have d: "0 \<le> take_bit w v + c" "take_bit w v + c < 2 ^ w"
    using Suc(2) [of 0] assms(1) by (simp_all add: int_lane_0)
  have "int_lane w k (drop_bit w v + spread w m c) = int_lane w k (drop_bit w v) + c"
    using Suc(1) [of "drop_bit w v" m] Suc(2) [of "Suc j" for j] Suc(3) n by (simp add: int_lane_Suc)
  then show ?case unfolding eq int_lane_Suc drop_split [OF d] .
qed

text \<open>Subtracting one from every lane borrows for the first time at the first lane that is zero.\<close>

lemma sub_split:
  assumes "take_bit w v \<noteq> (0 :: int)"
  shows "v - spread w (Suc m) 1 = (take_bit w v - 1) + 2 ^ w * (drop_bit w v - spread w m 1)"
    "0 \<le> take_bit w v - 1" "take_bit w v - 1 < 2 ^ w"
proof -
  show "v - spread w (Suc m) 1 = (take_bit w v - 1) + 2 ^ w * (drop_bit w v - spread w m 1)"
    using int_lane_split [of v w] by (simp add: algebra_simps)
  have "0 \<le> take_bit w v" by simp
  with assms show "0 \<le> take_bit w v - 1" by linarith
  have "take_bit w v < 2 ^ w" by simp
  then show "take_bit w v - 1 < 2 ^ w" by linarith
qed

lemma bit_top_lane: "0 < w \<Longrightarrow> bit v (w * k + (w - 1)) = bit (int_lane w k v) (w - 1)"
  by (simp add: int_lane_def bit_simps)

lemma int_lane_sub:
  assumes "\<And>j. j < k \<Longrightarrow> int_lane w j v \<noteq> 0" "k < n"
  shows "int_lane w k (v - spread w n 1) = take_bit w (int_lane w k v - 1)"
  using assms
proof (induction k arbitrary: v n)
  case 0
  then obtain m where n: "n = Suc m" by (cases n) auto
  show ?case unfolding n int_lane_0
    by (simp add: take_bit_diff [symmetric, of w v] take_bit_eq_mod)
      (metis mod_diff_left_eq mod_diff_right_eq mod_mult_self2 diff_diff_eq)
next
  case (Suc k)
  then obtain m where n: "n = Suc m" by (cases n) auto
  have t: "take_bit w v \<noteq> 0" using Suc(2) [of 0] by (simp add: int_lane_0)
  have "int_lane w k (drop_bit w v - spread w m 1) = take_bit w (int_lane w k (drop_bit w v) - 1)"
    using Suc(1) [of "drop_bit w v" m] Suc(2) [of "Suc j" for j] Suc(3) n by (simp add: int_lane_Suc)
  then show ?case
    unfolding n int_lane_Suc sub_split(1) [OF t] drop_split [OF sub_split(2,3) [OF t]] .
qed

lemma top_bit_small: "0 \<le> x \<Longrightarrow> x < 2 ^ n \<Longrightarrow> \<not> bit (x :: int) n"
  using bit_take_bit_iff [of n x n] by (simp add: take_bit_int_eq_self)

lemma top_bit_large: "2 ^ n \<le> x \<Longrightarrow> x < 2 ^ Suc n \<Longrightarrow> bit (x :: int) n"
proof -
  assume "2 ^ n \<le> x" "x < 2 ^ Suc n"
  then have "x div 2 ^ n = 1" using int_div_pos_eq [of x "2 ^ n" 1 "x - 2 ^ n"] by simp
  then show ?thesis by (simp add: bit_iff_odd)
qed

lemma top_bit_iff: "0 \<le> x \<Longrightarrow> x < 2 ^ Suc n \<Longrightarrow> bit (x :: int) n \<longleftrightarrow> 2 ^ n \<le> x"
  using top_bit_small [of x n] top_bit_large [of n x] by (meson not_le)


lemma bit_int_lane:
  assumes "0 < w"
  shows "bit v j = bit (int_lane w (j div w) v) (j mod w)"
  using assms by (simp add: int_lane_def bit_simps)

lemma spread_range: "0 \<le> x \<Longrightarrow> x < 2 ^ w \<Longrightarrow> 0 \<le> spread w n x \<and> spread w n x < 2 ^ (w * n)"
proof (induction n)
  case (Suc n)
  then have s: "0 \<le> spread w n x" "spread w n x \<le> 2 ^ (w * n) - 1" by auto
  have "2 ^ w * spread w n x \<le> 2 ^ w * (2 ^ (w * n) - 1)" using s(2) by (intro mult_left_mono) auto
  then show ?case using Suc(2,3) s(1) by (auto simp: power_add algebra_simps)
qed simp

lemma bit_spread:
  assumes "0 < w" "0 \<le> x" "x < 2 ^ w"
  shows "bit (spread w n x) j \<longleftrightarrow> j < w * n \<and> bit x (j mod w)"
proof (cases "j < w * n")
  case True
  then have "j div w < n" using assms(1) by (simp add: less_mult_imp_div_less mult.commute)
  then show ?thesis using True assms by (simp add: bit_int_lane [of w "spread w n x"] int_lane_spread)
next
  case False
  then have "take_bit (w * n) (spread w n x) = spread w n x"
    using spread_range [OF assms(2,3), of n] by (simp add: take_bit_int_eq_self)
  then show ?thesis using False bit_take_bit_iff [of "w * n" "spread w n x" j] by simp
qed

lemma spread_ones: "spread w n 1 * (2 ^ w - 1) = 2 ^ (w * n) - 1"
  by (induction n) (simp_all add: algebra_simps power_add)

lemma lane_width_facts:
  assumes "w \<in> lane_widths"
  shows "0 < w" "w * lanes w = 64" "w \<in> widths" "w \<le> 64" "0 < lanes w" "lanes w \<le> 64" "w dvd 64"
  using assms by (auto simp: lane_widths_def lanes_def widths_def)

lemma uint_lower_bits:
  assumes "w \<in> lane_widths"
  shows "uint (lower_bits w) = spread w (lanes w) 1"
proof -
  have "uint (lower_bits w) * (2 ^ w - 1) = 2 ^ 64 - 1"
    using assms unfolding lane_widths_def by (auto simp: lower_bits_def)
  also have "\<dots> = spread w (lanes w) 1 * (2 ^ w - 1)"
    by (simp add: spread_ones lane_width_facts [OF assms])
  finally have "uint (lower_bits w) * (2 ^ w - 1) = spread w (lanes w) 1 * (2 ^ w - 1)" .
  moreover have "2 ^ w - 1 \<noteq> (0 :: int)" using assms by (auto simp: lane_widths_def)
  ultimately show ?thesis by (simp only: mult_cancel_right) blast
qed

lemma bit_uint64: "bit (uint (v :: 64 word)) j \<longleftrightarrow> bit v j"
  by (auto simp: bit_uint_iff dest: bit_imp_le_length)

lemma bit_lower_bits:
  assumes "w \<in> lane_widths"
  shows "bit (lower_bits w) j \<longleftrightarrow> j < 64 \<and> w dvd j"
proof -
  have "bit (lower_bits w) j \<longleftrightarrow> bit (uint (lower_bits w)) j" by (simp add: bit_uint64)
  also have "\<dots> \<longleftrightarrow> j < 64 \<and> j mod w = 0"
    using lane_width_facts [OF assms]
    by (cases "w = 0") (auto simp: uint_lower_bits [OF assms] bit_spread bit_1_iff)
  finally show ?thesis by (simp add: mod_eq_0_iff_dvd)
qed

lemma lane_eq: "lane w k v = int_lane w k (uint v)"
  by (simp add: lane_def int_lane_def)

lemma lane_range: "0 \<le> lane w k v" "lane w k v < 2 ^ w"
  by (simp_all add: lane_def)

lemma top_bit_index:
  assumes "w \<in> lane_widths" "k < lanes w"
  shows "w * k + (w - 1) < 64"
proof -
  have "w * (k + 1) \<le> w * lanes w" using assms(2) by (intro mult_le_mono) auto
  then show ?thesis using lane_width_facts [OF assms(1)] by simp
qed

lemma bit_top:
  assumes "w \<in> lane_widths" "k < lanes w"
  shows "bit v (w * k + (w - 1)) \<longleftrightarrow> 2 ^ (w - 1) \<le> lane w k v"
proof -
  have "bit v (w * k + (w - 1)) \<longleftrightarrow> bit (uint v) (w * k + (w - 1))" by (simp add: bit_uint64)
  also have "\<dots> \<longleftrightarrow> bit (lane w k v) (w - 1)"
    using bit_top_lane lane_width_facts(1) [OF assms(1)] by (simp add: lane_eq)
  also have "\<dots> \<longleftrightarrow> 2 ^ (w - 1) \<le> lane w k v"
    using top_bit_iff [of "lane w k v" "w - 1"] lane_range [of w k v] lane_width_facts(1) [OF assms(1)] by simp
  finally show ?thesis .
qed

lemma bit_nonzero: "bit x n \<Longrightarrow> x \<noteq> (0 :: 64 word)"
  by auto

lemma first_lane:
  assumes "\<exists>k<n :: nat. P k"
  obtains k where "k < n" "P k" "\<And>j. j < k \<Longrightarrow> \<not> P j"
proof
  define k where "k = (LEAST k. k < n \<and> P k)"
  show "k < n" "P k" using LeastI_ex [OF assms] by (simp_all add: k_def)
  then show "\<not> P j" if "j < k" for j using not_less_Least [of j "\<lambda>k. k < n \<and> P k"] that by (auto simp: k_def)
qed

text \<open>A word that has bits only at the top of lanes.\<close>

lemma top_bits_only:
  assumes "w \<in> lane_widths"
  shows "push_bit (w - 1) (lower_bits w) AND x \<noteq> 0 \<longleftrightarrow> (\<exists>k<lanes w. bit x (w * k + (w - 1)))"
proof
  assume "push_bit (w - 1) (lower_bits w) AND x \<noteq> 0"
  then obtain j where j: "bit (push_bit (w - 1) (lower_bits w) AND x) j" by (auto simp: bit_eq_iff)
  then have "w - 1 \<le> j" "w dvd (j - (w - 1))" "j < 64" "bit x j"
    by (auto simp: bit_simps bit_lower_bits [OF assms])
  then obtain k where "j - (w - 1) = w * k" by (elim dvdE)
  then have jk: "j = w * k + (w - 1)" using \<open>w - 1 \<le> j\<close> by simp
  have "w * k < w * lanes w" using jk \<open>j < 64\<close> lane_width_facts [OF assms] by simp
  then show "\<exists>k<lanes w. bit x (w * k + (w - 1))" using jk \<open>bit x j\<close> by auto
next
  assume "\<exists>k<lanes w. bit x (w * k + (w - 1))"
  then obtain k where k: "k < lanes w" "bit x (w * k + (w - 1))" by blast
  then have "bit (push_bit (w - 1) (lower_bits w) AND x) (w * k + (w - 1))"
    using top_bit_index [OF assms k(1)] by (simp add: bit_simps bit_lower_bits [OF assms])
  then show "push_bit (w - 1) (lower_bits w) AND x \<noteq> 0" by (rule bit_nonzero)
qed

lemma lane_minus_lower:
  assumes "w \<in> lane_widths" "k < lanes w" "\<And>j. j < k \<Longrightarrow> lane w j v \<noteq> 0"
  shows "lane w k (v - lower_bits w) = take_bit w (lane w k v - 1)"
proof -
  have "uint (v - lower_bits w) = take_bit 64 (uint v - uint (lower_bits w))"
    by (simp add: uint_word_ariths(2) take_bit_eq_mod)
  moreover have "w * k + w \<le> 64" using top_bit_index [OF assms(1,2)] lane_width_facts(1) [OF assms(1)] by simp
  ultimately have "lane w k (v - lower_bits w) = int_lane w k (uint v - uint (lower_bits w))"
    unfolding lane_eq int_lane_def by (auto simp: bit_simps intro!: bit_eqI)
  also have "\<dots> = take_bit w (lane w k v - 1)"
    using int_lane_sub [of k w "uint v" "lanes w"] assms by (simp add: lane_eq uint_lower_bits)
  finally show ?thesis .
qed

theorem test_zero_iff:
  assumes "w \<in> lane_widths"
  shows "test_zero w v \<longleftrightarrow> (\<exists>k<lanes w. lane w k v = 0)"
proof -
  note W = lane_width_facts [OF assms]
  have "test_zero w v \<longleftrightarrow> push_bit (w - 1) (lower_bits w) AND ((v - lower_bits w) AND NOT v) \<noteq> 0"
    using W(1) by (simp add: test_zero_def Let_def and.commute and.left_commute)
  also have "\<dots> \<longleftrightarrow> (\<exists>k<lanes w. 2 ^ (w - 1) \<le> lane w k (v - lower_bits w) \<and> \<not> 2 ^ (w - 1) \<le> lane w k v)"
    unfolding top_bits_only [OF assms]
    by (auto simp: bit_and_iff bit_not_iff bit_top [OF assms] top_bit_index [OF assms] simp del: One_nat_def)
  also have "\<dots> \<longleftrightarrow> (\<exists>k<lanes w. lane w k v = 0)"
  proof
    assume "\<exists>k<lanes w. 2 ^ (w - 1) \<le> lane w k (v - lower_bits w) \<and> \<not> 2 ^ (w - 1) \<le> lane w k v"
    then obtain k where k: "k < lanes w" "2 ^ (w - 1) \<le> lane w k (v - lower_bits w)" "\<not> 2 ^ (w - 1) \<le> lane w k v" by blast
    show "\<exists>k<lanes w. lane w k v = 0"
    proof (rule ccontr)
      assume none: "\<not> (\<exists>k<lanes w. lane w k v = 0)"
      then have "lane w k (v - lower_bits w) = take_bit w (lane w k v - 1)"
        using k(1) by (intro lane_minus_lower [OF assms]) auto
      moreover have "0 \<le> lane w k v - 1" using none k(1) lane_range(1) [of w k v] by fastforce
      ultimately have "lane w k (v - lower_bits w) = lane w k v - 1"
        using lane_range(2) [of w k v] by (simp add: take_bit_int_eq_self)
      with k(2,3) show False by simp
    qed
  next
    assume "\<exists>k<lanes w. lane w k v = 0"
    then obtain k where k: "k < lanes w" "lane w k v = 0" "\<And>j. j < k \<Longrightarrow> lane w j v \<noteq> 0"
      by (rule first_lane) blast
    have "lane w k (v - lower_bits w) = take_bit w (- 1)"
      using lane_minus_lower [OF assms k(1) k(3)] k(2) by simp
    also have "\<dots> = 2 ^ w - 1" by (simp add: take_bit_minus_one_eq_mask mask_eq_exp_minus_1)
    also have "\<dots> \<ge> 2 ^ (w - 1)" using W(1) by (cases w) auto
    finally show "\<exists>k<lanes w. 2 ^ (w - 1) \<le> lane w k (v - lower_bits w) \<and> \<not> 2 ^ (w - 1) \<le> lane w k v"
      using k by auto
  qed
  finally show ?thesis .
qed


subsection \<open>The first lane that is zero, or not\<close>

lemma lane_mask_eq: "w \<in> lane_widths \<Longrightarrow> lane_mask w = mask w"
  unfolding lane_widths_def by (auto simp: lane_mask_def mask_numeral mask_Suc_0)

lemma masked_lane: "uint (drop_bit (w * k) v AND mask w) = lane w k v"
  by (rule bit_eqI) (auto simp: lane_def bit_simps bit_uint64 dest: bit_imp_le_length)

lemma masked_lane_0: "w \<in> lane_widths \<Longrightarrow> drop_bit (w * k) v AND lane_mask w = 0 \<longleftrightarrow> lane w k v = 0"
  using masked_lane [of w k v] by (simp add: lane_mask_eq word_uint_eq_iff)

lemma lane_bits_0: "0 < w \<Longrightarrow> lane w k v = 0 \<longleftrightarrow> (\<forall>j<w. \<not> bit v (w * k + j))"
  by (auto simp: lane_def bit_eq_iff bit_simps bit_uint64)

lemma lanes_below:
  assumes "w \<in> lane_widths" "w dvd h" "h \<le> 64"
  shows "test_zero w (v OR NOT (mask h)) \<longleftrightarrow> (\<exists>k<h div w. lane w k v = 0)"
    and "v AND mask h = 0 \<longleftrightarrow> (\<forall>k<h div w. lane w k v = 0)"
proof -
  note W = lane_width_facts [OF assms(1)]
  obtain m where m: "h = w * m" using assms(2) by (elim dvdE)
  have hm: "h div w = m" using W(1) m by simp
  have "m \<le> lanes w" using assms(3) m W(1,2) by (metis mult_le_cancel1)
  have low: "w * k + j < h" if "k < m" "j < w" for k j
  proof -
    have "w * (k + 1) \<le> w * m" using that(1) by (intro mult_le_mono) auto
    then show ?thesis using that(2) m by simp
  qed
  have inside: "lane w k (v OR NOT (mask h)) = 0 \<longleftrightarrow> lane w k v = 0" if "k < m" for k
    using low [OF that] assms(3) by (force simp: lane_bits_0 [OF W(1)] bit_simps)
  have outside: "lane w k (v OR NOT (mask h)) \<noteq> 0" if "\<not> k < m" "k < lanes w" for k
  proof -
    have "h \<le> w * k" using that(1) m by simp
    moreover have "w * k < 64" using top_bit_index [OF assms(1) that(2)] by simp
    ultimately have "bit (v OR NOT (mask h)) (w * k + 0)" by (simp add: bit_simps)
    then show ?thesis using W(1) by (auto simp: lane_bits_0)
  qed
  show "test_zero w (v OR NOT (mask h)) \<longleftrightarrow> (\<exists>k<h div w. lane w k v = 0)"
    unfolding test_zero_iff [OF assms(1)] hm
    using inside outside \<open>m \<le> lanes w\<close> by (meson less_le_trans)
  show "v AND mask h = 0 \<longleftrightarrow> (\<forall>k<h div w. lane w k v = 0)"
  proof
    assume z: "v AND mask h = 0"
    show "\<forall>k<h div w. lane w k v = 0"
    proof (intro allI impI)
      fix k assume "k < h div w"
      then have k: "k < m" by (simp add: hm)
      have "\<not> bit v j" if "j < h" for j
      proof -
        have "\<not> bit (v AND mask h) j" by (simp add: z)
        with that assms(3) show ?thesis by (simp add: bit_simps)
      qed
      then show "lane w k v = 0" using low [OF k] by (auto simp: lane_bits_0 [OF W(1)])
    qed
  next
    assume z: "\<forall>k<h div w. lane w k v = 0"
    show "v AND mask h = 0"
    proof (rule bit_word_eqI)
      fix j
      have "j = w * (j div w) + j mod w" "j mod w < w" using W(1) by simp_all
      moreover have "j div w < m" if "j < h" using that m by (simp add: less_mult_imp_div_less mult.commute)
      ultimately show "bit (v AND mask h) j = bit 0 j"
        using z hm lane_bits_0 [OF W(1), of "j div w" v] by (auto simp: bit_simps)
    qed
  qed
qed

definition lane_match :: "bool \<Rightarrow> nat \<Rightarrow> 64 word \<Rightarrow> nat \<Rightarrow> bool" where
  "lane_match eq w v k \<longleftrightarrow> (lane w k v = 0) = eq"

lemma no_match_below:
  assumes "w \<in> lane_widths" "w dvd h" "h \<le> 64"
    and "(if eq then \<not> test_zero w (v OR NOT (mask h)) else v AND mask h = 0)"
  shows "\<forall>k<h div w. \<not> lane_match eq w v k"
  using assms(4) lanes_below [OF assms(1-3), of v] by (auto simp: lane_match_def split: if_splits)

lemma half_masks:
  "(0xffffffff00000000 :: 64 word) = NOT (mask 32)" "(0x00000000ffffffff :: 64 word) = mask 32"
  "(0xffff000000000000 :: 64 word) = NOT (mask 48)" "(0x0000ffffffffffff :: 64 word) = mask 48"
  "(0xffffffffffff0000 :: 64 word) = NOT (mask 16)" "(0x000000000000ffff :: 64 word) = mask 16"
  by (simp_all add: mask_numeral)

lemma find_zero_start_le:
  assumes "w \<in> lane_widths" "k < lanes w" "lane_match eq w v k"
  shows "find_zero_start eq w v \<le> k"
proof -
  note below = no_match_below [OF assms(1), of _ eq v]
  have dvd: "w dvd 32" "w dvd 48 \<and> w dvd 16" if "w \<le> 8" using that assms(1) by (auto simp: lane_widths_def)
  have past: "\<not> k < h div w" if "w dvd h" "h \<le> 64"
    "(if eq then \<not> test_zero w (v OR NOT (mask h)) else v AND mask h = 0)" for h
    using below [OF that] assms(3) by blast
  have div: "64 div no0 w div 2 = 32 div w" "64 div no0 w div 4 = 16 div w" "32 div w + 16 div w = 48 div w"
    using assms(1) by (auto simp: lane_widths_def no0_def)
  show ?thesis
    unfolding find_zero_start_def half_masks Let_def div add_0
    using past [of 32] past [of 48] past [of 16] dvd div(3) by (auto simp: not_less)
qed

lemma find_zero_loop_result:
  assumes "w \<in> lane_widths" "lane_match eq w v k" "s \<le> k" "k \<le> 64" "\<And>j. j < k \<Longrightarrow> \<not> lane_match eq w v j"
  shows "find_zero_loop eq w v s = Some k"
  using assms(3)
proof (induction "k - s" arbitrary: s)
  case 0
  then show ?case using assms(1,2)
    by (subst find_zero_loop.simps) (auto simp: masked_lane_0 lane_match_def)
next
  case (Suc d)
  then have "s < k" by simp
  with assms(5) have "\<not> lane_match eq w v s" by simp
  moreover have "find_zero_loop eq w v (s + 1) = Some k" using Suc by simp
  ultimately show ?case using assms(1,4) \<open>s < k\<close>
    by (subst find_zero_loop.simps) (auto simp: masked_lane_0 lane_match_def)
qed

theorem find_zero_first:
  assumes "w \<in> lane_widths" "k < lanes w" "lane_match eq w v k" "\<And>j. j < k \<Longrightarrow> \<not> lane_match eq w v j"
  shows "find_zero eq w v = Some k"
proof -
  have k: "k \<le> 64" using assms(1,2) lane_width_facts(6) [OF assms(1)] by simp
  have "eq = ((drop_bit (w * 0) v AND lane_mask w) = 0) \<longleftrightarrow> lane_match eq w v 0"
    using masked_lane_0 [OF assms(1), of 0 v] by (auto simp: lane_match_def)
  moreover have "k = 0" if "lane_match eq w v 0" using that assms(4) [of 0] by (cases k) auto
  moreover have "find_zero_loop eq w v (find_zero_start eq w v) = Some k"
    using find_zero_loop_result [OF assms(1,3) find_zero_start_le [OF assms(1-3)] k] assms(4) by blast
  ultimately show ?thesis unfolding find_zero_def by auto
qed


subsection \<open>Repeated values\<close>

lemma lower_bits_div: "w \<in> lane_widths \<Longrightarrow> NOT 0 div mask w = lower_bits w"
  unfolding lane_widths_def by (auto simp: lower_bits_def mask_numeral mask_Suc_0)

lemma uint_lower_times:
  assumes "w \<in> lane_widths" "0 \<le> c" "c < 2 ^ w"
  shows "uint (lower_bits w * word_of_int c) = spread w (lanes w) c"
proof -
  have "lower_bits w * word_of_int c = word_of_int (spread w (lanes w) c)"
    by (metis of_int_mult spread_scale uint_lower_bits [OF assms(1)] word_of_int_uint)
  moreover have "0 \<le> spread w (lanes w) c" "spread w (lanes w) c < 2 ^ 64"
    using spread_range [OF assms(2,3), of "lanes w"] lane_width_facts(2) [OF assms(1)] by simp_all
  ultimately show ?thesis by (simp add: unsigned_of_int take_bit_int_eq_self)
qed

lemma bit_repeated_mask:
  assumes "w \<in> lane_widths" "m \<le> w"
  shows "bit (repeated (mask w) (mask m)) j \<longleftrightarrow> j < 64 \<and> j mod w < m"
proof -
  have le: "(2 :: int) ^ m \<le> 2 ^ w" using assms(2) by (simp add: power_increasing)
  have c: "0 \<le> (2 :: int) ^ m - 1" "(2 :: int) ^ m - 1 < 2 ^ w"
    using le one_le_power [of "2 :: int" m] by linarith+
  have "repeated (mask w) (mask m) = lower_bits w * word_of_int (2 ^ m - 1)"
    unfolding repeated_def lower_bits_div [OF assms(1)] by (simp add: mask_eq_exp_minus_1 [of m])
  then have "bit (repeated (mask w) (mask m)) j \<longleftrightarrow> bit (spread w (lanes w) (2 ^ m - 1)) j"
    using bit_uint64 [of "repeated (mask w) (mask m)" j] uint_lower_times [OF assms(1) c] by simp
  also have "\<dots> \<longleftrightarrow> j < 64 \<and> j mod w < m"
    using lane_width_facts [OF assms(1)] c
    by (auto simp: bit_spread mask_eq_exp_minus_1 [symmetric] bit_mask_iff)
  finally show ?thesis .
qed

subsection \<open>Cascades\<close>

text \<open>\<open>window w s v a\<close>: every bit of \<open>a\<close> is the disjunction of the next \<open>s\<close> bits of \<open>v\<close> in its
  lane.\<close>

definition window :: "nat \<Rightarrow> nat \<Rightarrow> 64 word \<Rightarrow> 64 word \<Rightarrow> bool" where
  "window w s v a \<longleftrightarrow> (\<forall>j<64. bit a j \<longleftrightarrow> (\<exists>i < s. j mod w + i < w \<and> bit v (j + i)))"

lemma window_1: "0 < w \<Longrightarrow> window w 1 v v"
  by (simp add: window_def)

lemma window_spill:
  assumes "w \<in> lane_widths" "window w s v a" "s \<le> w"
  shows "window w (2 * s) v (spill s (repeated (mask w) (mask (w - s))) a)"
  unfolding window_def
proof (intro allI impI)
  fix j :: nat
  assume j: "j < 64"
  note W = lane_width_facts [OF assms(1)]
  have a: "bit a i \<longleftrightarrow> (\<exists>k < s. i mod w + k < w \<and> bit v (i + k))" if "i < 64" for i
    using assms(2) that by (simp add: window_def)
  have next_lane: "j + s < 64 \<and> (j + s) mod w = j mod w + s" if "j mod w + s < w"
  proof
    have "j div w < lanes w" using j W by (simp add: lanes_def less_mult_imp_div_less)
    then have "w * (j div w + 1) \<le> w * lanes w" by (intro mult_le_mono) auto
    then have "w * (j div w) + w \<le> 64" using W(2) by simp
    then show "j + s < 64" using that mult_div_mod_eq [of w j] by linarith
    show "(j + s) mod w = j mod w + s" using that by (metis mod_add_left_eq mod_less)
  qed
  have "bit (spill s (repeated (mask w) (mask (w - s))) a) j \<longleftrightarrow>
      bit a j \<or> bit a (j + s) \<and> j mod w + s < w"
    using j by (auto simp: spill_def bit_simps bit_repeated_mask [OF assms(1)] add.commute)
  also have "\<dots> \<longleftrightarrow> (\<exists>i<2 * s. j mod w + i < w \<and> bit v (j + i))"
  proof
    assume "bit a j \<or> bit a (j + s) \<and> j mod w + s < w"
    then show "\<exists>i<2 * s. j mod w + i < w \<and> bit v (j + i)"
    proof
      assume "bit a j"
      then obtain k where "k < s" "j mod w + k < w" "bit v (j + k)" using a [OF j] by blast
      then show ?thesis by (intro exI [of _ k]) simp
    next
      assume h: "bit a (j + s) \<and> j mod w + s < w"
      then obtain k where "k < s" "j mod w + s + k < w" "bit v (j + s + k)"
        using a [of "j + s"] next_lane by auto
      then show ?thesis by (intro exI [of _ "s + k"]) (simp add: add.assoc)
    qed
  next
    assume "\<exists>i<2 * s. j mod w + i < w \<and> bit v (j + i)"
    then obtain i where i: "i < 2 * s" "j mod w + i < w" "bit v (j + i)" by blast
    show "bit a j \<or> bit a (j + s) \<and> j mod w + s < w"
    proof (cases "i < s")
      case True
      then show ?thesis using a [OF j] i by blast
    next
      case False
      then have "i - s < s" "j mod w + s + (i - s) < w" "bit v (j + s + (i - s))" "j mod w + s < w"
        using i by simp_all
      then show ?thesis using a [of "j + s"] next_lane by auto
    qed
  qed
  finally show "bit (spill s (repeated (mask w) (mask (w - s))) a) j \<longleftrightarrow> (\<exists>i<2 * s. j mod w + i < w \<and> bit v (j + i))" .
qed

lemma bit_isolate_window:
  assumes "w \<in> lane_widths" "window w w v a" "j < 64"
  shows "bit (isolate zero (repeated (mask w) (mask 1)) a) j \<longleftrightarrow> w dvd j \<and> lane_match zero w v (j div w)"
proof -
  note W = lane_width_facts [OF assms(1)]
  have m: "bit (repeated (mask w) (mask 1)) j \<longleftrightarrow> w dvd j"
    using assms(3) W(1) by (subst bit_repeated_mask [OF assms(1)]) (auto simp: mod_eq_0_iff_dvd)
  show ?thesis
  proof (cases "w dvd j")
    case True
    then obtain k where k: "j = w * k" by (elim dvdE)
    have "bit a j \<longleftrightarrow> lane w k v \<noteq> 0"
      using assms(2,3) W(1) k by (auto simp: window_def lane_bits_0)
    then show ?thesis using m True k W(1) by (auto simp: isolate_def Let_def bit_simps lane_match_def)
  next
    case False
    then show ?thesis using m by (auto simp: isolate_def Let_def bit_simps)
  qed
qed

lemma repeated_numerals:
  "(0x5555555555555555 :: 64 word) = repeated (mask 2) (mask 1)"
  "repeated 0x3 0x1 = repeated (mask 2) (mask (2 - 1))"
  "repeated 0xF 0x1 = repeated (mask 4) (mask 1)"
  "repeated 0xF 0x7 = repeated (mask 4) (mask (4 - 1))" "repeated 0xF 0x3 = repeated (mask 4) (mask (4 - 2))"
  "repeated 0xFF 0x1 = repeated (mask 8) (mask 1)"
  "repeated 0xFF 0x7F = repeated (mask 8) (mask (8 - 1))" "repeated 0xFF 0x3F = repeated (mask 8) (mask (8 - 2))"
  "repeated 0xFF 0x0F = repeated (mask 8) (mask (8 - 4))"
  "repeated 0xFFFF 0x1 = repeated (mask 16) (mask 1)"
  "repeated 0xFFFF 0x7FFF = repeated (mask 16) (mask (16 - 1))"
  "repeated 0xFFFF 0x3FFF = repeated (mask 16) (mask (16 - 2))"
  "repeated 0xFFFF 0x0FFF = repeated (mask 16) (mask (16 - 4))"
  "repeated 0xFFFF 0x00FF = repeated (mask 16) (mask (16 - 8))"
  "repeated 0xFFFFFFFF 0x1 = repeated (mask 32) (mask 1)"
  "repeated 0xFFFFFFFF 0x7FFFFFFF = repeated (mask 32) (mask (32 - 1))"
  "repeated 0xFFFFFFFF 0x3FFFFFFF = repeated (mask 32) (mask (32 - 2))"
  "repeated 0xFFFFFFFF 0x0FFFFFFF = repeated (mask 32) (mask (32 - 4))"
  "repeated 0xFFFFFFFF 0x00FFFFFF = repeated (mask 32) (mask (32 - 8))"
  "repeated 0xFFFFFFFF 0x0000FFFF = repeated (mask 32) (mask (32 - 16))"
  by (simp_all add: repeated_def mask_numeral mask_Suc_0)

theorem bit_cascade:
  assumes "w \<in> lane_widths" "j < 64"
  shows "bit (cascade w zero v) j \<longleftrightarrow> w dvd j \<and> lane_match zero w v (j div w)"
proof -
  note W = lane_width_facts [OF assms(1)]
  note spill = window_spill [OF assms(1)] and start = window_1 [OF W(1), of v]
  note finish = bit_isolate_window [OF assms(1) _ assms(2)]
  consider "w = 1" | "w = 2" | "w = 4" | "w = 8" | "w = 16" | "w = 32" | "w = 64"
    using assms(1) by (auto simp: lane_widths_def)
  then show ?thesis
  proof cases
    case 1
    then show ?thesis using assms(2) lane_bits_0 [of 1 j v]
      by (auto simp: cascade_def lane_match_def bit_simps)
  next
    case 2
    have "window w w v (spill 1 (repeated (mask 2) (mask (2 - 1))) v)"
      using spill [OF start] 2 by simp
    then show ?thesis using finish 2 by (simp only: cascade_def repeated_numerals) simp
  next
    case 3
    have s1: "window w 2 v (spill 1 (repeated (mask 4) (mask (4 - 1))) v)"
      using spill [OF start] 3 by simp
    have s2: "window w 4 v (spill 2 (repeated (mask 4) (mask (4 - 2))) (spill 1 (repeated (mask 4) (mask (4 - 1))) v))"
      using spill [OF s1] 3 by simp
    show ?thesis using finish s2 3 by (simp only: cascade_def repeated_numerals) simp
  next
    case 4
    have s1: "window w 2 v (spill 1 (repeated (mask 8) (mask (8 - 1))) v)"
      using spill [OF start] 4 by simp
    have s2: "window w 4 v (spill 2 (repeated (mask 8) (mask (8 - 2))) (spill 1 (repeated (mask 8) (mask (8 - 1))) v))"
      using spill [OF s1] 4 by simp
    have s4: "window w 8 v (spill 4 (repeated (mask 8) (mask (8 - 4))) (spill 2 (repeated (mask 8) (mask (8 - 2))) (spill 1 (repeated (mask 8) (mask (8 - 1))) v)))"
      using spill [OF s2] 4 by simp
    show ?thesis using finish s4 4 by (simp only: cascade_def repeated_numerals) simp
  next
    case 5
    have s1: "window w 2 v (spill 1 (repeated (mask 16) (mask (16 - 1))) v)"
      using spill [OF start] 5 by simp
    have s2: "window w 4 v (spill 2 (repeated (mask 16) (mask (16 - 2))) (spill 1 (repeated (mask 16) (mask (16 - 1))) v))"
      using spill [OF s1] 5 by simp
    have s4: "window w 8 v (spill 4 (repeated (mask 16) (mask (16 - 4))) (spill 2 (repeated (mask 16) (mask (16 - 2))) (spill 1 (repeated (mask 16) (mask (16 - 1))) v)))"
      using spill [OF s2] 5 by simp
    have s8: "window w 16 v (spill 8 (repeated (mask 16) (mask (16 - 8))) (spill 4 (repeated (mask 16) (mask (16 - 4))) (spill 2 (repeated (mask 16) (mask (16 - 2))) (spill 1 (repeated (mask 16) (mask (16 - 1))) v))))"
      using spill [OF s4] 5 by simp
    show ?thesis using finish s8 5 by (simp only: cascade_def repeated_numerals) simp
  next
    case 6
    have s1: "window w 2 v (spill 1 (repeated (mask 32) (mask (32 - 1))) v)"
      using spill [OF start] 6 by simp
    have s2: "window w 4 v (spill 2 (repeated (mask 32) (mask (32 - 2))) (spill 1 (repeated (mask 32) (mask (32 - 1))) v))"
      using spill [OF s1] 6 by simp
    have s4: "window w 8 v (spill 4 (repeated (mask 32) (mask (32 - 4))) (spill 2 (repeated (mask 32) (mask (32 - 2))) (spill 1 (repeated (mask 32) (mask (32 - 1))) v)))"
      using spill [OF s2] 6 by simp
    have s8: "window w 16 v (spill 8 (repeated (mask 32) (mask (32 - 8))) (spill 4 (repeated (mask 32) (mask (32 - 4))) (spill 2 (repeated (mask 32) (mask (32 - 2))) (spill 1 (repeated (mask 32) (mask (32 - 1))) v))))"
      using spill [OF s4] 6 by simp
    have s16: "window w 32 v (spill 16 (repeated (mask 32) (mask (32 - 16))) (spill 8 (repeated (mask 32) (mask (32 - 8))) (spill 4 (repeated (mask 32) (mask (32 - 4))) (spill 2 (repeated (mask 32) (mask (32 - 2))) (spill 1 (repeated (mask 32) (mask (32 - 1))) v)))))"
      using spill [OF s8] 6 by simp
    show ?thesis using finish s16 6 by (simp only: cascade_def repeated_numerals) simp
  next
    case 7
    have "lane 64 0 v = uint v" by (rule bit_eqI) (auto simp: lane_def bit_simps bit_uint64 dest: bit_imp_le_length)
    with 7 assms(2) have "lane w (j div w) v = 0 \<longleftrightarrow> v = 0" "w dvd j \<longleftrightarrow> j = 0"
      by (auto simp: word_uint_eq_iff dest: dvd_imp_le)
    then show ?thesis using 7 by (auto simp: cascade_def lane_match_def bit_1_iff)
  qed
qed

subsection \<open>Patterns and how many bits they have\<close>

lemma card_pattern:
  assumes "0 < w" "\<And>j. bit (p :: 64 word) j \<longleftrightarrow> (\<exists>k<n. j = w * k \<and> P k)"
  shows "card {j. bit p j} = card {k. k < n \<and> P k}"
proof -
  have "{j. bit p j} = (*) w ` {k. k < n \<and> P k}" using assms(2) by auto
  moreover have "inj_on ((*) w) {k. k < n \<and> P k}" using assms(1) by (auto simp: inj_on_def)
  ultimately show ?thesis by (simp add: card_image)
qed

lemma card_cascade:
  assumes "w \<in> lane_widths"
  shows "card {j. bit (cascade w zero v) j} = card {k. k < lanes w \<and> lane_match zero w v k}"
proof (rule card_pattern)
  note W = lane_width_facts [OF assms]
  show "0 < w" by (rule W)
  show "bit (cascade w zero v) j \<longleftrightarrow> (\<exists>k<lanes w. j = w * k \<and> lane_match zero w v k)" for j
  proof
    assume b: "bit (cascade w zero v) j"
    then have "j < 64" using bit_imp_le_length by fastforce
    with b obtain k where k: "j = w * k" "lane_match zero w v k"
      using W(1) by (auto simp: bit_cascade [OF assms] elim!: dvdE)
    then show "\<exists>k<lanes w. j = w * k \<and> lane_match zero w v k"
      using \<open>j < 64\<close> W(1,2) by (metis mult_less_cancel1)
  next
    assume "\<exists>k<lanes w. j = w * k \<and> lane_match zero w v k"
    then obtain k where k: "k < lanes w" "j = w * k" "lane_match zero w v k" by blast
    then have "j < 64" using W(1,2) by (metis mult_less_cancel1)
    then show "bit (cascade w zero v) j" using k W(1) by (simp add: bit_cascade [OF assms])
  qed
qed


subsection \<open>Comparing every lane with a value\<close>

lemma word_of_int_mask: "word_of_int value AND mask w = (word_of_int (take_bit w value) :: 64 word)"
  by (rule bit_word_eqI) (auto simp: bit_simps)

definition valuemask :: "nat \<Rightarrow> int \<Rightarrow> 64 word" where
  "valuemask width value =
     NOT 0 div no0_word (lane_mask width) * (word_of_int value AND lane_mask width)"

lemma mask_nonzero: "w \<in> lane_widths \<Longrightarrow> no0_word (lane_mask w) = mask w"
  unfolding lane_widths_def by (auto simp: no0_word_def lane_mask_def mask_numeral mask_Suc_0)

lemma lane_lower_times:
  assumes "w \<in> lane_widths" "0 \<le> c" "c < 2 ^ w" "k < lanes w"
  shows "lane w k (lower_bits w * word_of_int c) = c"
  unfolding lane_eq uint_lower_times [OF assms(1-3)] by (rule int_lane_spread [OF assms(2-4)])

lemma lane_xor: "lane w k (x XOR y) = lane w k x XOR lane w k y"
  by (rule bit_eqI) (auto simp: lane_def bit_simps bit_uint64)

lemma lane_xor_valuemask:
  assumes "w \<in> lane_widths" "k < lanes w"
  shows "lane w k (chunk XOR valuemask w value) = 0 \<longleftrightarrow> lane w k chunk = take_bit w value"
proof -
  have "valuemask w value = lower_bits w * word_of_int (take_bit w value)"
    unfolding valuemask_def mask_nonzero [OF assms(1)]
    unfolding lane_mask_eq [OF assms(1)] word_of_int_mask lower_bits_div [OF assms(1)] ..
  then have "lane w k (valuemask w value) = take_bit w value"
    using lane_lower_times [OF assms(1) _ _ assms(2), of "take_bit w value"] by simp
  moreover have "x XOR y = 0 \<longleftrightarrow> x = y" for x y :: int by (auto simp: bit_eq_iff bit_simps)
  ultimately show ?thesis by (simp add: lane_xor)
qed

lemma half_mask: "w \<in> lane_widths \<Longrightarrow> drop_bit 1 (lane_mask w) = mask (w - 1)"
  unfolding lane_widths_def by (auto simp: lane_mask_def mask_numeral mask_Suc_0)

lemma bit_gt_matches:
  assumes "w \<in> lane_widths" "0 \<le> value" "value < 2 ^ (w - 1)"
    and "\<And>k. k < lanes w \<Longrightarrow> lane w k chunk < 2 ^ (w - 1)"
  shows "bit (gtlt_matches True w chunk (find_gtlt_magic True w value)) j \<longleftrightarrow>
    (\<exists>k<lanes w. j = w * k + (w - 1) \<and> lane w k chunk > value)"
proof -
  note W = lane_width_facts [OF assms(1)]
  let ?c = "2 ^ (w - 1) - 1 - value"
  have two: "(2 :: int) * 2 ^ (w - 1) = 2 ^ w" using W(1) by (cases w) auto
  have c: "0 \<le> ?c" "?c < 2 ^ w" using assms(2,3) two zero_less_power [of "2 :: int" "w - 1"] by linarith+
  have t: "(0 :: int) \<le> 2 ^ (w - 1)" "(2 :: int) ^ (w - 1) < 2 ^ w" using two zero_less_power [of "2 :: int" "w - 1"] by linarith+
  have magic: "find_gtlt_magic True w value = lower_bits w * word_of_int ?c"
    unfolding find_gtlt_magic_def Let_def mask_nonzero [OF assms(1)] half_mask [OF assms(1)] lower_bits_div [OF assms(1)]
    by (simp add: mask_eq_exp_minus_1)
  have "NOT 0 div no0_word (lane_mask w) * (drop_bit 1 (lane_mask w) + 1) = lower_bits w * word_of_int (2 ^ (w - 1))"
    unfolding mask_nonzero [OF assms(1)] half_mask [OF assms(1)] lower_bits_div [OF assms(1)]
    by (simp add: mask_eq_exp_minus_1)
  moreover have "bit (lower_bits w * word_of_int (2 ^ (w - 1))) j \<longleftrightarrow> (\<exists>k<lanes w. j = w * k + (w - 1))"
  proof -
    have "bit (lower_bits w * word_of_int (2 ^ (w - 1))) j \<longleftrightarrow> j < 64 \<and> bit (2 ^ (w - 1) :: int) (j mod w)"
      using bit_uint64 [of "lower_bits w * word_of_int (2 ^ (w - 1))" j] uint_lower_times [OF assms(1) t] W(1,2) t
      by (simp add: bit_spread del: of_int_power)
    also have "\<dots> \<longleftrightarrow> j < 64 \<and> j mod w = w - 1" by (auto simp: bit_exp_iff)
    also have "\<dots> \<longleftrightarrow> (\<exists>k<lanes w. j = w * k + (w - 1))"
    proof
      assume h: "j < 64 \<and> j mod w = w - 1"
      then have "j = w * (j div w) + (w - 1)" by (metis mult_div_mod_eq)
      moreover have "j div w < lanes w" using h W by (simp add: lanes_def less_mult_imp_div_less)
      ultimately show "\<exists>k<lanes w. j = w * k + (w - 1)" by blast
    next
      assume "\<exists>k<lanes w. j = w * k + (w - 1)"
      then obtain k where k: "k < lanes w" "j = w * k + (w - 1)" by blast
      moreover have "(w * k + (w - 1)) mod w = (w - 1) mod w" by (rule mod_mult_self4)
      ultimately show "j < 64 \<and> j mod w = w - 1" using top_bit_index [OF assms(1) k(1)] W(1) by simp
    qed
    finally show ?thesis .
  qed
  moreover have "bit ((chunk + find_gtlt_magic True w value) OR chunk) (w * k + (w - 1)) \<longleftrightarrow> lane w k chunk > value"
    if k: "k < lanes w" for k
  proof -
    have range: "w * k + w \<le> 64" using top_bit_index [OF assms(1) k] W(1) by simp
    have "uint (chunk + find_gtlt_magic True w value) = take_bit 64 (uint chunk + uint (find_gtlt_magic True w value))"
      by (simp add: uint_word_ariths(1) take_bit_eq_mod)
    then have "lane w k (chunk + find_gtlt_magic True w value)
        = int_lane w k (uint chunk + spread w (lanes w) ?c)"
      using range unfolding lane_eq int_lane_def magic uint_lower_times [OF assms(1) c]
      by (auto simp: bit_simps intro!: bit_eqI)
    also have "\<dots> = int_lane w k (uint chunk) + ?c"
    proof (rule int_lane_add_spread [OF c(1) _ k])
      fix i assume "i \<le> k"
      then have "lane w i chunk < 2 ^ (w - 1)" using k assms(4) by simp
      then show "int_lane w i (uint chunk) + ?c < 2 ^ w" using assms(2) two unfolding lane_eq by linarith
    qed
    finally have "2 ^ (w - 1) \<le> lane w k (chunk + find_gtlt_magic True w value) \<longleftrightarrow> lane w k chunk > value"
      unfolding lane_eq [of w k chunk, symmetric] by linarith
    moreover have "\<not> 2 ^ (w - 1) \<le> lane w k chunk" using assms(4) [OF k] by simp
    ultimately show ?thesis unfolding bit_or_iff by (simp only: bit_top [OF assms(1) k] simp_thms)
  qed
  ultimately show ?thesis
    unfolding gtlt_matches_def Let_def if_True bit_and_iff using W(1) by (auto simp del: One_nat_def)
qed

end
