(* ===== verification/Array_Find.thy ===== *)
theory Array_Find
  imports Array_Lanes
begin

section \<open>The search of an array\<close>

text \<open>
  \<open>Array::find\<close> (\<open>include/core/realm/array.hpp\<close>) visits the elements of a leaf that satisfy a
  condition, in order, and performs an action for each of them: return the first, count, sum, find
  the greatest or the least, collect the positions, or call back. Almost all queries end here. The
  search looks at whole words, and offers the action a bit pattern with all matches of a word.

  What is not in the headers is a parameter: \<open>array_lib\<close> has the functions for counting and finding
  bits and for rounding (\<open>utilities.hpp\<close> declares them), the aggregates of an array and, as
  \<open>over_shift\<close>, the value of a shift by 64 bits or more, which the language leaves undefined. The
  variant for processors with SSE instructions is not modelled; the processors of telephones take
  the other one. A \<open>size_t\<close> is a natural number, except that an index to report is computed modulo
  \<open>2 ^ 64\<close>. The search is generic in the callback, which keeps a state of its own.
\<close>

record int_array =
  a_data :: cells
  a_size :: nat
  a_width :: nat
  a_lbound :: int
  a_ubound :: int

record array_lib =
  fast_popcount64 :: "64 word \<Rightarrow> nat"
  first_set_bit64 :: "64 word \<Rightarrow> nat"
  round_up :: "nat \<Rightarrow> nat \<Rightarrow> nat"
  over_shift :: "64 word \<Rightarrow> nat \<Rightarrow> 64 word"
  array_sum :: "int_array \<Rightarrow> nat \<Rightarrow> nat \<Rightarrow> int"
  array_maximum :: "int_array \<Rightarrow> nat \<Rightarrow> nat \<Rightarrow> int \<times> nat"
  array_minimum :: "int_array \<Rightarrow> nat \<Rightarrow> nat \<Rightarrow> int \<times> nat"

subsection \<open>Conditions\<close>

text \<open>The conditions of \<open>query_conditions.hpp\<close> on integers; the two flags say that a value is null.\<close>

datatype condition = Cond_Equal | Cond_NotEqual | Cond_Greater | Cond_Less | Cond_None | Cond_LeftNotNull

definition holds :: "condition \<Rightarrow> int \<Rightarrow> int \<Rightarrow> bool \<Rightarrow> bool \<Rightarrow> bool" where
  "holds c v1 v2 v1null v2null =
     (case c of
        Cond_Equal \<Rightarrow> (v1null \<and> v2null) \<or> (\<not> v1null \<and> \<not> v2null \<and> v1 = v2)
      | Cond_NotEqual \<Rightarrow>
          if \<not> v1null \<and> \<not> v2null then v1 \<noteq> v2 else if v1null \<and> v2null then False else True
      | Cond_Greater \<Rightarrow> if v1null \<or> v2null then False else v1 > v2
      | Cond_Less \<Rightarrow> if v1null \<or> v2null then False else v1 < v2
      | Cond_None \<Rightarrow> True
      | Cond_LeftNotNull \<Rightarrow> \<not> v1null)"

definition can_match :: "condition \<Rightarrow> int \<Rightarrow> int \<Rightarrow> int \<Rightarrow> bool" where
  "can_match c v lbound ubound =
     (case c of
        Cond_Equal \<Rightarrow> v \<ge> lbound \<and> v \<le> ubound
      | Cond_NotEqual \<Rightarrow> \<not> (v = 0 \<and> ubound = 0 \<and> lbound = 0)
      | Cond_Greater \<Rightarrow> ubound > v
      | Cond_Less \<Rightarrow> lbound < v
      | Cond_None \<Rightarrow> True
      | Cond_LeftNotNull \<Rightarrow> True)"

definition will_match :: "condition \<Rightarrow> int \<Rightarrow> int \<Rightarrow> int \<Rightarrow> bool" where
  "will_match c v lbound ubound =
     (case c of
        Cond_Equal \<Rightarrow> v = 0 \<and> ubound = 0 \<and> lbound = 0
      | Cond_NotEqual \<Rightarrow> v > ubound \<or> v < lbound
      | Cond_Greater \<Rightarrow> lbound > v
      | Cond_Less \<Rightarrow> ubound < v
      | Cond_None \<Rightarrow> True
      | Cond_LeftNotNull \<Rightarrow> True)"

subsection \<open>The state of a query\<close>

text \<open>\<open>QueryState<int64_t>\<close>. For \<open>act_FindAll\<close> its \<open>m_state\<close> is a pointer to the column that collects
  positions, which is \<open>q_akku\<close>; \<open>q_env\<close> is what the callback works on.\<close>

datatype array_action =
  Act_ReturnFirst | Act_Sum | Act_Max | Act_Min | Act_Count | Act_FindAll | Act_CallIdx
  | Act_CallbackIdx | Act_CallbackVal | Act_CallbackNone | Act_CallbackBoth | Act_Average

record 'c query_state =
  q_state :: int
  q_match_count :: nat
  q_limit :: nat
  q_minmax_index :: nat
  q_akku :: "nat list"
  q_env :: 'c

definition wrap64 :: "int \<Rightarrow> int" where
  "wrap64 i = signed_take_bit 63 i"

definition int64_of_size :: "nat \<Rightarrow> int" where
  "int64_of_size n = wrap64 (int n)"

definition size_of_int64 :: "int \<Rightarrow> nat" where
  "size_of_int64 i = nat (take_bit 64 i)"

definition query_init :: "array_action \<Rightarrow> nat \<Rightarrow> 'c query_state \<Rightarrow> 'c query_state" where
  "query_init act limit st =
     (let st = st\<lparr>q_match_count := 0, q_limit := limit, q_minmax_index := npos\<rparr> in
      case act of
        Act_Max \<Rightarrow> st\<lparr>q_state := - 0x7fffffffffffffff - 1\<rparr>
      | Act_Min \<Rightarrow> st\<lparr>q_state := 0x7fffffffffffffff\<rparr>
      | Act_ReturnFirst \<Rightarrow> st\<lparr>q_state := int64_of_size npos\<rparr>
      | Act_Sum \<Rightarrow> st\<lparr>q_state := 0\<rparr>
      | Act_Count \<Rightarrow> st\<lparr>q_state := 0\<rparr>
      | _ \<Rightarrow> st)"

definition match_pattern ::
  "array_lib \<Rightarrow> array_action \<Rightarrow> 64 word \<Rightarrow> 'c query_state \<Rightarrow> bool \<times> 'c query_state" where
  "match_pattern lib act indexpattern st =
     (if act = Act_Count then
        if q_match_count st + 64 \<ge> q_limit st then (False, st)
        else
          let st = st\<lparr>q_state := wrap64 (q_state st + int (fast_popcount64 lib indexpattern))\<rparr>
          in (True, st\<lparr>q_match_count := size_of_int64 (q_state st)\<rparr>)
      else (False, st))"

definition match_value ::
  "array_action \<Rightarrow> nat \<Rightarrow> int \<Rightarrow> 'c query_state \<Rightarrow> bool \<times> 'c query_state" where
  "match_value act index v st =
     (let st = st\<lparr>q_match_count := q_match_count st + 1\<rparr>;
          go = (\<lambda>st :: 'c query_state. (q_limit st > q_match_count st, st))
      in case act of
        Act_Max \<Rightarrow> go (if v > q_state st then st\<lparr>q_state := v, q_minmax_index := index\<rparr> else st)
      | Act_Min \<Rightarrow> go (if v < q_state st then st\<lparr>q_state := v, q_minmax_index := index\<rparr> else st)
      | Act_Sum \<Rightarrow> go (st\<lparr>q_state := wrap64 (q_state st + v)\<rparr>)
      | Act_Count \<Rightarrow>
          let st = st\<lparr>q_state := wrap64 (q_state st + 1)\<rparr>
          in go (st\<lparr>q_match_count := size_of_int64 (q_state st)\<rparr>)
      | Act_FindAll \<Rightarrow> go (st\<lparr>q_akku := q_akku st @ [index]\<rparr>)
      | Act_ReturnFirst \<Rightarrow> (False, st\<lparr>q_state := int64_of_size index\<rparr>)
      | _ \<Rightarrow> go st)"

definition match_optional ::
  "array_action \<Rightarrow> nat \<Rightarrow> int option \<Rightarrow> 'c query_state \<Rightarrow> bool \<times> 'c query_state" where
  "match_optional act index value st =
     (case value of
        Some v \<Rightarrow> match_value act index v st
      | None \<Rightarrow>
          let go = (\<lambda>st :: 'c query_state. (q_limit st > q_match_count st, st)) in
          case act of
            Act_Count \<Rightarrow>
              let st = st\<lparr>q_state := wrap64 (q_state st + 1)\<rparr>
              in go (st\<lparr>q_match_count := size_of_int64 (q_state st)\<rparr>)
          | Act_FindAll \<Rightarrow> go (st\<lparr>q_akku := q_akku st @ [index]\<rparr>)
          | Act_ReturnFirst \<Rightarrow>
              (False, st\<lparr>q_match_count := q_match_count st + 1, q_state := int64_of_size index\<rparr>)
          | _ \<Rightarrow> go st)"

type_synonym 'c callback = "nat \<Rightarrow> 'c \<Rightarrow> bool \<times> 'c"

definition find_action ::
  "array_action \<Rightarrow> 'c callback \<Rightarrow> nat \<Rightarrow> int option \<Rightarrow> 'c query_state \<Rightarrow> bool \<times> 'c query_state" where
  "find_action act callback index value st =
     (if act = Act_CallbackIdx then
        case callback index (q_env st) of (r, env) \<Rightarrow> (r, st\<lparr>q_env := env\<rparr>)
      else match_optional act index value st)"

definition find_action_pattern ::
  "array_lib \<Rightarrow> array_action \<Rightarrow> 64 word \<Rightarrow> 'c query_state \<Rightarrow> bool \<times> 'c query_state" where
  "find_action_pattern lib act pattern st =
     (if act = Act_CallbackIdx then (False, st) else match_pattern lib act pattern st)"

text \<open>The sum of two \<open>size_t\<close>.\<close>

definition sz_add :: "nat \<Rightarrow> nat \<Rightarrow> nat" where
  "sz_add a b = (a + b) mod 2 ^ 64"

subsection \<open>Loops over elements\<close>

text \<open>A loop over indexes that performs an action where a test holds, and ends early when the
  action says so.\<close>

fun scan :: "('i \<Rightarrow> bool) \<Rightarrow> ('i \<Rightarrow> 's \<Rightarrow> bool \<times> 's) \<Rightarrow> 'i list \<Rightarrow> 's \<Rightarrow> bool \<times> 's" where
  "scan test act [] st = (True, st)"
| "scan test act (i # is) st =
     (if test i then
        case act i st of
          (True, st) \<Rightarrow> scan test act is st
        | (False, st) \<Rightarrow> (False, st)
      else scan test act is st)"

definition get_universal :: "nat \<Rightarrow> cells \<Rightarrow> nat \<Rightarrow> int" where
  "get_universal w data ndx = get_direct w data ndx"

definition array_get :: "int_array \<Rightarrow> nat \<Rightarrow> int" where
  "array_get arr ndx = get_universal (a_width arr) (a_data arr) ndx"

definition visit ::
  "array_action \<Rightarrow> 'c callback \<Rightarrow> int_array \<Rightarrow> nat \<Rightarrow> nat \<Rightarrow> 'c query_state \<Rightarrow> bool \<times> 'c query_state" where
  "visit act callback arr baseindex i st =
     find_action act callback (sz_add i baseindex) (Some (array_get arr i)) st"

text \<open>\<open>v >> n\<close>\<close>

definition shift_right :: "array_lib \<Rightarrow> 64 word \<Rightarrow> nat \<Rightarrow> 64 word" where
  "shift_right lib v n = (if n < 64 then drop_bit n v else over_shift lib v n)"

text \<open>A pointer to \<open>int64_t\<close> is its distance from \<open>m_data\<close> in bytes.\<close>

definition index_of_word :: "nat \<Rightarrow> nat \<Rightarrow> nat" where
  "index_of_word width p = p div 8 * 8 * 8 div no0 width"

definition word_end :: "nat \<Rightarrow> nat \<Rightarrow> int" where
  "word_end width end_i = int (end_i * width div 8) - 8"

subsection \<open>Equality\<close>

lemma below_lanes: "\<not> 64 div no0 w \<le> n \<Longrightarrow> n < 64"
  using div_le_dividend [of 64 "no0 w"] by linarith

text \<open>The inner loop of \<open>compare_equality\<close> on one word.\<close>

function equality_chunk ::
  "array_lib \<Rightarrow> array_action \<Rightarrow> 'c callback \<Rightarrow> bool \<Rightarrow> int_array \<Rightarrow> nat \<Rightarrow> nat \<Rightarrow>
     nat \<Rightarrow> 64 word \<Rightarrow> 'c query_state \<Rightarrow> (bool \<times> 'c query_state) option" where
  "equality_chunk lib act callback eq arr start baseindex a v2 st =
     (let width = a_width arr in
      if (if eq then test_zero width v2 else v2 \<noteq> 0) then
        case find_action_pattern lib act (cascade width eq v2) st of
          (True, st) \<Rightarrow> Some (True, st)
        | (False, st) \<Rightarrow>
            (case find_zero eq width v2 of
               None \<Rightarrow> None
             | Some t \<Rightarrow>
                 if a + t \<ge> 64 div no0 width then Some (True, st)
                 else
                   (case find_action act callback (sz_add (a + t + start) baseindex)
                           (Some (array_get arr (start + (a + t)))) st of
                      (False, st) \<Rightarrow> Some (False, st)
                    | (True, st) \<Rightarrow>
                        equality_chunk lib act callback eq arr start baseindex (a + t + 1)
                          (shift_right lib v2 ((t + 1) * width)) st))
      else Some (True, st))"
  by pat_completeness auto
termination
  by (relation "measure (\<lambda>(_, _, _, _, _, _, _, a, _, _). 65 - a)") (auto dest: below_lanes)

declare equality_chunk.simps [simp del]

function equality_words ::
  "array_lib \<Rightarrow> array_action \<Rightarrow> 'c callback \<Rightarrow> bool \<Rightarrow> int_array \<Rightarrow> 64 word \<Rightarrow> nat \<Rightarrow> int \<Rightarrow>
     nat \<Rightarrow> 'c query_state \<Rightarrow> (bool \<times> nat \<times> 'c query_state) option" where
  "equality_words lib act callback eq arr vmask baseindex e p st =
     (if int p < e then
        let chunk = load_le 8 (a_data arr) p;
            v2 = chunk XOR vmask;
            start = index_of_word (a_width arr) p
        in case equality_chunk lib act callback eq arr start baseindex 0 v2 st of
             None \<Rightarrow> None
           | Some (False, st) \<Rightarrow> Some (False, p, st)
           | Some (True, st) \<Rightarrow> equality_words lib act callback eq arr vmask baseindex e (p + 8) st
      else Some (True, p, st))"
  by pat_completeness auto
termination by (relation "measure (\<lambda>(_, _, _, _, _, _, _, e, p, _). nat (e - int p))") auto

declare equality_words.simps [simp del]

definition compare_equality ::
  "array_lib \<Rightarrow> array_action \<Rightarrow> 'c callback \<Rightarrow> bool \<Rightarrow> int_array \<Rightarrow> int \<Rightarrow> nat \<Rightarrow> nat \<Rightarrow> nat \<Rightarrow>
     'c query_state \<Rightarrow> (bool \<times> 'c query_state) option" where
  "compare_equality lib act callback eq arr value start end_i baseindex st =
     (let width = a_width arr;
          test = (\<lambda>i. if eq then array_get arr i = value else array_get arr i \<noteq> value);
          step = visit act callback arr baseindex;
          ee = round_up lib start (64 div no0 width);
          ee = if ee > end_i then end_i else ee
      in case scan test step [start..<ee] st of
           (False, st) \<Rightarrow> Some (False, st)
         | (True, st) \<Rightarrow>
             let start = max start ee in
             if start \<ge> end_i then Some (True, st)
             else if width \<noteq> 32 \<and> width \<noteq> 64 then
               (case equality_words lib act callback eq arr (valuemask width value) baseindex
                       (word_end width end_i) (start * width div 8) st of
                  None \<Rightarrow> None
                | Some (False, p, st) \<Rightarrow> Some (False, st)
                | Some (True, p, st) \<Rightarrow> Some (scan test step [index_of_word width p..<end_i] st))
             else Some (scan test step [start..<end_i] st))"

subsection \<open>Order\<close>

text \<open>\<open>find_gtlt_fast\<close> takes the matches of a word from a mask; whether that loop ends depends on
  \<open>first_set_bit64\<close>, so that it is a partial function.\<close>

partial_function (option) gtlt_fast_loop ::
  "array_lib \<Rightarrow> array_action \<Rightarrow> 'c callback \<Rightarrow> nat \<Rightarrow> 64 word \<Rightarrow> nat \<Rightarrow> nat \<Rightarrow> 64 word \<Rightarrow>
     'c query_state \<Rightarrow> (bool \<times> 'c query_state) option" where
  "gtlt_fast_loop lib act callback width chunk baseindex p m st =
     (if m \<noteq> 0 then
        case find_action_pattern lib act (drop_bit (no0 width - 1) m) st of
          (consumed, st) \<Rightarrow>
            if consumed then Some (True, st)
            else
              let t = first_set_bit64 lib m div no0 width;
                  p = p + t
              in case find_action act callback (sz_add p baseindex)
                        (Some (sint (shift_right lib chunk (p * width) AND lane_mask width))) st of
                   (go, st) \<Rightarrow>
                     if \<not> go then Some (False, st)
                     else
                       gtlt_fast_loop lib act callback width chunk baseindex (p + 1)
                         (if (t + 1) * width = 64 then 0 else shift_right lib m ((t + 1) * width)) st
      else Some (True, st))"

definition find_gtlt_fast ::
  "array_lib \<Rightarrow> array_action \<Rightarrow> 'c callback \<Rightarrow> bool \<Rightarrow> nat \<Rightarrow> 64 word \<Rightarrow> 64 word \<Rightarrow> nat \<Rightarrow>
     'c query_state \<Rightarrow> (bool \<times> 'c query_state) option" where
  "find_gtlt_fast lib act callback gt width chunk magic baseindex st =
     gtlt_fast_loop lib act callback width chunk baseindex 0 (gtlt_matches gt width chunk magic) st"

text \<open>The unrolled steps of \<open>find_gtlt\<close>: element \<open>t\<close> of the word is read by \<open>get\<close>, and the word is
  shifted on.\<close>

fun gtlt_steps ::
  "array_action \<Rightarrow> 'c callback \<Rightarrow> bool \<Rightarrow> int \<Rightarrow> nat \<Rightarrow> (64 word \<Rightarrow> int) \<Rightarrow> nat \<Rightarrow> nat list \<Rightarrow> 64 word \<Rightarrow>
     'c query_state \<Rightarrow> bool \<times> 'c query_state" where
  "gtlt_steps act callback gt v baseindex get shift [] chunk st = (True, st)"
| "gtlt_steps act callback gt v baseindex get shift (t # ts) chunk st =
     (if (if gt then get chunk > v else get chunk < v) then
        case find_action act callback (sz_add t baseindex) (Some (get chunk)) st of
          (False, st) \<Rightarrow> (False, st)
        | (True, st) \<Rightarrow> gtlt_steps act callback gt v baseindex get shift ts (drop_bit shift chunk) st
      else gtlt_steps act callback gt v baseindex get shift ts (drop_bit shift chunk) st)"

definition find_gtlt ::
  "array_action \<Rightarrow> 'c callback \<Rightarrow> bool \<Rightarrow> nat \<Rightarrow> int \<Rightarrow> 64 word \<Rightarrow> nat \<Rightarrow> 'c query_state \<Rightarrow>
     bool \<times> 'c query_state" where
  "find_gtlt act callback gt width v chunk baseindex st =
     (let steps = (\<lambda>get shift ts. gtlt_steps act callback gt v baseindex get shift ts chunk st) in
      if width = 1 then steps (\<lambda>c. sint (c AND 0x1)) 1 [0..<64]
      else if width = 2 then steps (\<lambda>c. sint (c AND 0x3)) 2 [0..<32]
      else if width = 4 then steps (\<lambda>c. sint (c AND 0xf)) 4 [0..<16]
      else if width = 8 then steps (\<lambda>c. sint (ucast c :: 8 word)) 8 [0..<8]
      else if width = 16 then
        scan (\<lambda>t. let e = sint (ucast (drop_bit (t * 16) chunk) :: 16 word) in if gt then e > v else e < v)
          (\<lambda>t. find_action act callback (sz_add t baseindex)
                 (Some (sint (ucast (drop_bit (t * 16) chunk) :: 16 word))))
          [0, 1, 2, 3] st
      else if width = 32 then steps (\<lambda>c. sint (ucast c :: 32 word)) 32 [0, 1]
      else if width = 64 then
        (if (if gt then v > v else v < v) then
           case find_action act callback (sz_add 0 baseindex) (Some v) st of
             (False, st) \<Rightarrow> (False, st)
           | (True, st) \<Rightarrow> (True, st)
         else (True, st))
      else (True, st))"

text \<open>The two loops of \<open>compare_relation\<close> over whole words, with and without bit hacks. A word is
  compared by \<open>find_gtlt_fast\<close> if none of its elements has its highest bit set.\<close>

function relation_words ::
  "array_lib \<Rightarrow> array_action \<Rightarrow> 'c callback \<Rightarrow> bool \<Rightarrow> int_array \<Rightarrow> bool \<Rightarrow> int \<Rightarrow> 64 word \<Rightarrow> nat \<Rightarrow> int \<Rightarrow>
     nat \<Rightarrow> 'c query_state \<Rightarrow> (bool \<times> nat \<times> 'c query_state) option" where
  "relation_words lib act callback gt arr hacks value magic baseindex e p st =
     (if int p < e then
        let width = a_width arr;
            v = load_le 8 (a_data arr) p;
            upper = push_bit (no0 width - 1) (lower_bits width) AND v;
            base = sz_add (index_of_word width p) baseindex
        in case (if hacks \<and> upper = 0
                 then find_gtlt_fast lib act callback gt width v magic base st
                 else Some (find_gtlt act callback gt width value v base st)) of
             None \<Rightarrow> None
           | Some (False, st) \<Rightarrow> Some (False, p, st)
           | Some (True, st) \<Rightarrow> relation_words lib act callback gt arr hacks value magic baseindex e (p + 8) st
      else Some (True, p, st))"
  by pat_completeness auto
termination by (relation "measure (\<lambda>(_, _, _, _, _, _, _, _, _, e, p, _). nat (e - int p))") auto

declare relation_words.simps [simp del]

definition use_bit_hacks :: "bool \<Rightarrow> nat \<Rightarrow> int \<Rightarrow> bool" where
  "use_bit_hacks gt bitwidth value \<longleftrightarrow>
     (let mask = lane_mask bitwidth;
          magic = find_gtlt_magic gt bitwidth value
      in value \<noteq> sint (magic AND mask) \<and> value \<ge> 0 \<and> bitwidth \<ge> 2 \<and>
         value \<le> sint (drop_bit 1 mask - (if gt then 1 else 0)))"

definition compare_relation ::
  "array_lib \<Rightarrow> array_action \<Rightarrow> 'c callback \<Rightarrow> bool \<Rightarrow> int_array \<Rightarrow> int \<Rightarrow> nat \<Rightarrow> nat \<Rightarrow> nat \<Rightarrow>
     'c query_state \<Rightarrow> (bool \<times> 'c query_state) option" where
  "compare_relation lib act callback gt arr value start end_i baseindex st =
     (let bitwidth = a_width arr;
          test = (\<lambda>i. if gt then array_get arr i > value else array_get arr i < value);
          step = visit act callback arr baseindex;
          ee = round_up lib start (64 div no0 bitwidth);
          ee = if ee > end_i then end_i else ee
      in case scan test step [start..<ee] st of
           (False, st) \<Rightarrow> Some (False, st)
         | (True, st) \<Rightarrow>
             let start = max start ee in
             if start \<ge> end_i then Some (True, st)
             else if bitwidth = 1 \<or> bitwidth = 2 \<or> bitwidth = 4 \<or> bitwidth = 8 \<or> bitwidth = 16 then
               (case relation_words lib act callback gt arr (use_bit_hacks gt bitwidth value) value
                       (find_gtlt_magic gt bitwidth value) baseindex
                       (word_end bitwidth end_i) (start * bitwidth div 8) st of
                  None \<Rightarrow> None
                | Some (False, p, st) \<Rightarrow> Some (False, st)
                | Some (True, p, st) \<Rightarrow> Some (scan test step [index_of_word bitwidth p..<end_i] st))
             else Some (scan test step [start..<end_i] st))"

subsection \<open>The main function\<close>

text \<open>\<open>compare\<close> has no branch for the conditions that are always decided before it is called.\<close>

definition compare_array ::
  "array_lib \<Rightarrow> array_action \<Rightarrow> 'c callback \<Rightarrow> condition \<Rightarrow> int_array \<Rightarrow> int \<Rightarrow> nat \<Rightarrow> nat \<Rightarrow> nat \<Rightarrow>
     'c query_state \<Rightarrow> (bool \<times> 'c query_state) option" where
  "compare_array lib act callback cond arr value start end_i baseindex st =
     (case cond of
        Cond_Equal \<Rightarrow> compare_equality lib act callback True arr value start end_i baseindex st
      | Cond_NotEqual \<Rightarrow> compare_equality lib act callback False arr value start end_i baseindex st
      | Cond_Greater \<Rightarrow> compare_relation lib act callback True arr value start end_i baseindex st
      | Cond_Less \<Rightarrow> compare_relation lib act callback False arr value start end_i baseindex st
      | _ \<Rightarrow> Some (False, st))"

text \<open>The four elements that are tested first, if the search does not start at the first one.\<close>

fun first_items ::
  "array_action \<Rightarrow> 'c callback \<Rightarrow> condition \<Rightarrow> int_array \<Rightarrow> int \<Rightarrow> nat \<Rightarrow> nat \<Rightarrow> nat \<Rightarrow> nat \<Rightarrow>
     'c query_state \<Rightarrow> bool \<times> 'c query_state" where
  "first_items act callback cond arr value end_i baseindex 0 start2 st = (True, st)"
| "first_items act callback cond arr value end_i baseindex (Suc n) start2 st =
     (if a_size arr > start2 \<and> holds cond (array_get arr start2) value False False \<and> start2 < end_i then
        case visit act callback arr baseindex start2 st of
          (False, st) \<Rightarrow> (False, st)
        | (True, st) \<Rightarrow> first_items act callback cond arr value end_i baseindex n (start2 + 1) st
      else first_items act callback cond arr value end_i baseindex n (start2 + 1) st)"

text \<open>What is done when the bounds of the array show that every element matches.\<close>

definition all_match ::
  "array_lib \<Rightarrow> array_action \<Rightarrow> 'c callback \<Rightarrow> int_array \<Rightarrow> nat \<Rightarrow> nat \<Rightarrow> nat \<Rightarrow>
     'c query_state \<Rightarrow> bool \<times> 'c query_state" where
  "all_match lib act callback arr start2 end_i baseindex st =
     (let end2 =
        (if act = Act_CallbackIdx then end_i
         else
           let process = sz_sub (q_limit st) (q_match_count st)
           in if end_i - start2 > process then start2 + process else end_i)
      in if act = Act_Sum \<or> act = Act_Max \<or> act = Act_Min then
           let (res, res_ndx) =
                 (if act = Act_Sum then (array_sum lib arr start2 end2, 0)
                  else if act = Act_Max then array_maximum lib arr start2 end2
                  else array_minimum lib arr start2 end2);
               st = snd (find_action act callback (sz_add res_ndx baseindex) (Some res) st)
           in (True, st\<lparr>q_match_count := sz_sub (q_match_count st + (end2 - start2)) 1\<rparr>)
         else if act = Act_Count then
           (True, st\<lparr>q_state := wrap64 (q_state st + int (end2 - start2))\<rparr>)
         else
           case scan (\<lambda>_. True) (visit act callback arr baseindex) [start2..<end2] st of
             (False, st) \<Rightarrow> (False, st)
           | (True, st) \<Rightarrow> (True, st))"

definition find_in_leaf ::
  "array_lib \<Rightarrow> array_action \<Rightarrow> 'c callback \<Rightarrow> condition \<Rightarrow> int_array \<Rightarrow> int \<Rightarrow> nat \<Rightarrow> nat \<Rightarrow> nat \<Rightarrow>
     'c query_state \<Rightarrow> (bool \<times> 'c query_state) option" where
  "find_in_leaf lib act callback cond arr value start2 end_i baseindex st =
     (case (if start2 > 0 then first_items act callback cond arr value end_i baseindex 4 start2 st
            else (True, st)) of
        (False, st) \<Rightarrow> Some (False, st)
      | (True, st) \<Rightarrow>
          let start2 = (if start2 > 0 then start2 + 4 else start2) in
          if \<not> (a_size arr > start2 \<and> start2 < end_i) then Some (True, st)
          else
            let end_i = (if end_i = npos then a_size arr else end_i) in
            if \<not> can_match cond value (a_lbound arr) (a_ubound arr) then Some (True, st)
            else if will_match cond value (a_lbound arr) (a_ubound arr) then
              Some (all_match lib act callback arr start2 end_i baseindex st)
            else compare_array lib act callback cond arr value start2 end_i baseindex st)"

definition find_optimized ::
  "array_lib \<Rightarrow> array_action \<Rightarrow> 'c callback \<Rightarrow> condition \<Rightarrow> int_array \<Rightarrow> int \<Rightarrow> nat \<Rightarrow> nat \<Rightarrow> nat \<Rightarrow>
     bool \<Rightarrow> bool \<Rightarrow> 'c query_state \<Rightarrow> (bool \<times> 'c query_state) option" where
  "find_optimized lib act callback cond arr value start end_i baseindex nullable_array find_null st =
     (let end_i = (if end_i = npos then if nullable_array then sz_sub (a_size arr) 1 else a_size arr else end_i)
      in if nullable_array then
           if cond = Cond_Equal then
             if \<not> find_null \<and> value = array_get arr 0 then Some (True, st)
             else
               find_in_leaf lib act callback cond arr (if find_null then array_get arr 0 else value)
                 (start + 1) (end_i + 1) (sz_sub baseindex 1) st
           else
             let null_value = array_get arr 0 in
             Some (scan
               (\<lambda>i. let v = array_get arr (i + 1) in holds cond v value (v = null_value) find_null)
               (\<lambda>i. let v = array_get arr (i + 1) in
                     find_action act callback (sz_add i baseindex) (if v = null_value then None else Some v))
               [start..<end_i] st)
         else find_in_leaf lib act callback cond arr value start end_i baseindex st)"

text \<open>The search for the first match. Its callback is a null pointer, which is not called.\<close>

definition callback_dummy :: "'c callback" where
  "callback_dummy index env = (False, env)"

definition find_first ::
  "array_lib \<Rightarrow> condition \<Rightarrow> int_array \<Rightarrow> int \<Rightarrow> nat \<Rightarrow> nat \<Rightarrow> nat option" where
  "find_first lib cond arr value start end_i =
     (let st = query_init Act_ReturnFirst 1
                 \<lparr>q_state = 0, q_match_count = 0, q_limit = 0, q_minmax_index = 0, q_akku = [], q_env = ()\<rparr>
      in case find_optimized lib Act_ReturnFirst callback_dummy cond arr value start end_i 0 False False st of
           None \<Rightarrow> None
         | Some (_, st) \<Rightarrow> Some (size_of_int64 (q_state st)))"

subsection \<open>Two arrays\<close>

text \<open>\<open>compare_leafs\<close> compares the elements of two arrays at the same positions: the first, the next
  three if there are more, and then the rest in a loop (\<open>compare_leafs_4\<close>).\<close>

definition compare_leafs_4 ::
  "array_action \<Rightarrow> 'c callback \<Rightarrow> condition \<Rightarrow> int_array \<Rightarrow> int_array \<Rightarrow> nat \<Rightarrow> nat \<Rightarrow> nat \<Rightarrow>
     'c query_state \<Rightarrow> bool \<times> 'c query_state" where
  "compare_leafs_4 act callback cond arr foreign start end_i baseindex st =
     (let rest = (\<lambda>start st. scan (\<lambda>i. holds cond (array_get arr i) (array_get foreign i) False False)
             (visit act callback arr baseindex) [start..<end_i] st)
      in if a_width arr = 0 \<and> a_width foreign = 0 then
           if holds cond 0 0 False False then
             case scan (\<lambda>_. True) (\<lambda>i. find_action act callback (sz_add i baseindex) (Some 0)) [start..<end_i] st of
               (False, st) \<Rightarrow> (False, st)
             | (True, st) \<Rightarrow> rest (max start end_i) st
           else (True, st)
         else rest start st)"

definition compare_leafs ::
  "array_action \<Rightarrow> 'c callback \<Rightarrow> condition \<Rightarrow> int_array \<Rightarrow> int_array \<Rightarrow> nat \<Rightarrow> nat \<Rightarrow> nat \<Rightarrow>
     'c query_state \<Rightarrow> bool \<times> 'c query_state" where
  "compare_leafs act callback cond arr foreign start end_i baseindex st =
     (let test = (\<lambda>i. holds cond (array_get arr i) (array_get foreign i) False False);
          step = visit act callback arr baseindex
      in if start = end_i then (True, st)
         else
           case scan test step [start] st of
             (False, st) \<Rightarrow> (False, st)
           | (True, st) \<Rightarrow>
               let start = start + 1 in
               if start + 3 < end_i then
                 case scan test step [start, start + 1, start + 2] st of
                   (False, st) \<Rightarrow> (False, st)
                 | (True, st) \<Rightarrow> compare_leafs_4 act callback cond arr foreign (start + 3) end_i baseindex st
               else if start = end_i then (True, st)
               else compare_leafs_4 act callback cond arr foreign start end_i baseindex st)"

end
