(* ===== verification/Array_Find_Lemmas.thy ===== *)
theory Array_Find_Lemmas
  imports Array_Find
begin

section \<open>Words, patterns and the plain loop\<close>

text \<open>
  The search does what a plain loop over the elements would do (\<open>scan\<close>). This theory shows it for
  one word and for all words, by equality and by order, with and without bit patterns. \<open>lib_ok\<close>
  states what the functions outside the headers are documented to do, \<open>array_ok\<close> what holds of an
  attached array, and \<open>count_ok\<close> what a query that counts maintains between two leaves.
\<close>

definition lib_ok :: "array_lib \<Rightarrow> bool" where
  "lib_ok lib \<longleftrightarrow>
     (\<forall>v. fast_popcount64 lib v = card {j. bit v j}) \<and>
     (\<forall>v. v \<noteq> 0 \<longrightarrow> first_set_bit64 lib v = (LEAST j. bit v j)) \<and>
     (\<forall>p align. 0 < align \<longrightarrow> p \<le> round_up lib p align \<and> align dvd round_up lib p align)"

definition array_ok :: "int_array \<Rightarrow> bool" where
  "array_ok arr \<longleftrightarrow>
     a_width arr \<in> widths \<and> fits (a_width arr) (a_data arr) (a_size arr) \<and>
     a_lbound arr = lbound_for_width (a_width arr) \<and> a_ubound arr = ubound_for_width (a_width arr)"

definition count_ok :: "array_action \<Rightarrow> 'c query_state \<Rightarrow> bool" where
  "count_ok act st \<longleftrightarrow>
     (act = Act_Count \<longrightarrow> q_match_count st = size_of_int64 (q_state st) \<and>
        q_match_count st < q_limit st \<and> q_limit st < 2 ^ 64)"

subsection \<open>The plain loop\<close>

lemma scan_append:
  "scan test act (xs @ ys) st =
     (case scan test act xs st of (True, st) \<Rightarrow> scan test act ys st | (False, st) \<Rightarrow> (False, st))"
  by (induction xs arbitrary: st) (auto split: prod.splits bool.splits)

lemma scan_cong:
  assumes "\<And>i. i \<in> set is \<Longrightarrow> test i = test' i" "\<And>i st. i \<in> set is \<Longrightarrow> test' i \<Longrightarrow> act i st = act' i st"
  shows "scan test act is st = scan test' act' is st"
  using assms by (induction "is" arbitrary: st) (auto split: prod.splits bool.splits)

lemma scan_none: "\<forall>i \<in> set is. \<not> test i \<Longrightarrow> scan test act is st = (True, st)"
  by (induction "is") auto

lemma scan_map: "scan test act (map f is) st = scan (test \<circ> f) (act \<circ> f) is st"
  by (induction "is" arbitrary: st) (auto split: prod.splits bool.splits)

lemma scan_skip:
  assumes "a \<le> k" "\<And>i. a \<le> i \<Longrightarrow> i < k \<Longrightarrow> \<not> test i" "k \<le> b"
  shows "scan test act [a..<b] st = scan test act [k..<b] st"
proof -
  have "[a..<b] = [a..<k] @ [k..<b]" using assms by (metis le_add_diff_inverse upt_add_eq_append)
  moreover have "scan test act [a..<k] st = (True, st)" using assms by (intro scan_none) auto
  ultimately show ?thesis by (simp add: scan_append)
qed

lemma scan_first:
  assumes "a \<le> k" "k < b" "test k" "\<And>i. a \<le> i \<Longrightarrow> i < k \<Longrightarrow> \<not> test i" "act k st = (go, st')"
  shows "scan test act [a..<b] st = (if go then scan test act [Suc k..<b] st' else (False, st'))"
proof -
  have "scan test act [a..<b] st = scan test act [k..<b] st"
    using assms by (intro scan_skip) auto
  then show ?thesis using assms by (simp add: upt_conv_Cons)
qed

lemma scan_invariant:
  assumes "\<And>i st st'. i \<in> set is \<Longrightarrow> act i st = (True, st') \<Longrightarrow> P st \<Longrightarrow> P st'"
    and "scan test act is st = (True, st')" "P st"
  shows "P st'"
  using assms
proof (induction "is" arbitrary: st)
  case (Cons i "is")
  obtain go st1 where i: "act i st = (go, st1)" by fastforce
  show ?case
  proof (cases "test i")
    case True
    with Cons(3) i have "go" "scan test act is st1 = (True, st')" by (auto split: bool.splits)
    moreover have "P st1" using Cons(2) [of i st st1] i \<open>go\<close> Cons(4) by simp
    ultimately show ?thesis using Cons(1) [of st1] Cons(2) by (meson list.set_intros(2))
  next
    case False
    with Cons show ?thesis by (simp, meson list.set_intros(2))
  qed
qed simp

lemma scan_shift:
  "scan test act [s + a..<s + b] st = scan (\<lambda>i. test (s + i)) (\<lambda>i. act (s + i)) [a..<b] st"
proof -
  have "[s + a..<s + b] = map ((+) s) [a..<b]"
    by (rule nth_equalityI) auto
  then show ?thesis by (simp add: scan_map comp_def)
qed

subsection \<open>Counting\<close>

lemma wrap64_wrap64 [simp]: "wrap64 (wrap64 i + j) = wrap64 (i + j)"
  unfolding wrap64_def by (metis signed_take_bit_add signed_take_bit_signed_take_bit min.idem)

lemma size_of_wrap64: "size_of_int64 (wrap64 i) = nat (take_bit 64 i)"
  by (simp add: size_of_int64_def wrap64_def take_bit_signed_take_bit)

lemma size_of_wrap64_add:
  assumes "size_of_int64 i + n < 2 ^ 64"
  shows "size_of_int64 (wrap64 (i + int n)) = size_of_int64 i + n"
proof -
  have "take_bit 64 (i + int n) = take_bit 64 (take_bit 64 i + int n)"
    by (simp add: take_bit_eq_mod mod_add_left_eq)
  also have "\<dots> = take_bit 64 i + int n"
  proof (rule take_bit_int_eq_self)
    have "take_bit 64 i + int n = int (size_of_int64 i + n)" by (simp add: size_of_int64_def)
    also have "\<dots> < int (2 ^ 64)" using assms by (simp only: of_nat_less_iff)
    finally show "take_bit 64 i + int n < 2 ^ 64" by simp
  qed simp
  finally show ?thesis unfolding size_of_wrap64 by (simp add: size_of_int64_def nat_add_distrib)
qed

lemma visit_count:
  assumes "count_ok Act_Count st"
  shows "visit Act_Count callback arr baseindex i st =
    (q_limit st > q_match_count st + 1,
     st\<lparr>q_state := wrap64 (q_state st + 1), q_match_count := q_match_count st + 1\<rparr>)"
proof -
  have "size_of_int64 (wrap64 (q_state st + 1)) = q_match_count st + 1"
    using assms size_of_wrap64_add [of "q_state st" 1] by (simp add: count_ok_def)
  then show ?thesis
    by (simp add: visit_def find_action_def match_optional_def match_value_def Let_def)
qed

lemma visit_count_ok:
  "visit act callback arr baseindex i st = (True, st') \<Longrightarrow> count_ok act st \<Longrightarrow> count_ok act st'"
proof (cases "act = Act_Count")
  case True
  assume v: "visit act callback arr baseindex i st = (True, st')" and ok: "count_ok act st"
  have "size_of_int64 (wrap64 (q_state st + 1)) = q_match_count st + 1"
    using ok True size_of_wrap64_add [of "q_state st" 1] by (simp add: count_ok_def)
  then show ?thesis using v ok True by (auto simp: visit_count count_ok_def)
qed (simp add: count_ok_def)

lemma scan_count_ok:
  "scan test (visit act callback arr baseindex) is st = (True, st') \<Longrightarrow> count_ok act st \<Longrightarrow> count_ok act st'"
  by (rule scan_invariant [where P = "count_ok act"]) (auto intro: visit_count_ok)

lemma scan_counts:
  assumes "count_ok Act_Count st" "length (filter test is) = n" "q_match_count st + n < q_limit st"
  shows "scan test (visit Act_Count callback arr baseindex) is st =
    (True, if n = 0 then st
           else st\<lparr>q_state := wrap64 (q_state st + int n), q_match_count := q_match_count st + n\<rparr>)"
  using assms
proof (induction "is" arbitrary: st n)
  case (Cons i "is")
  show ?case
  proof (cases "test i")
    case True
    define m where "m = length (filter test is)"
    have n: "n = Suc m" using Cons(3) True by (simp add: m_def)
    let ?st = "st\<lparr>q_state := wrap64 (q_state st + 1), q_match_count := q_match_count st + 1\<rparr>"
    have v: "visit Act_Count callback arr baseindex i st = (True, ?st)"
      using visit_count [OF Cons(2)] Cons(4) n by simp
    have "scan test (visit Act_Count callback arr baseindex) is ?st =
      (True, if m = 0 then ?st
             else ?st\<lparr>q_state := wrap64 (q_state ?st + int m), q_match_count := q_match_count ?st + m\<rparr>)"
      using Cons(1) [OF visit_count_ok [OF v Cons(2)]] Cons(4) n m_def by simp
    moreover have "wrap64 (wrap64 (q_state st + 1) + int m) = wrap64 (q_state st + int n)"
      unfolding wrap64_wrap64 n by (simp add: algebra_simps)
    ultimately show ?thesis using True v n by simp
  next
    case False
    then show ?thesis using Cons by simp
  qed
qed simp

lemma pattern_taken:
  assumes "count_ok act st" "find_action_pattern lib act p st = (True, st')" "lib_ok lib"
    and "card {j. bit p j} = length (filter test is)" "filter test is \<noteq> []" "length is \<le> 64"
  shows "scan test (visit act callback arr baseindex) is st = (True, st')"
proof -
  let ?n = "length (filter test is)"
  have act: "act = Act_Count" and room: "q_match_count st + 64 < q_limit st"
    and st': "st' = st\<lparr>q_state := wrap64 (q_state st + int ?n),
                      q_match_count := size_of_int64 (wrap64 (q_state st + int ?n))\<rparr>"
    using assms(2,3,4) by (auto simp: find_action_pattern_def match_pattern_def lib_ok_def Let_def split: if_splits)
  have le: "?n \<le> 64" using assms(6) length_filter_le [of test "is"] by linarith
  have "size_of_int64 (wrap64 (q_state st + int ?n)) = q_match_count st + ?n"
    using assms(1) act le room size_of_wrap64_add [of "q_state st" ?n] by (simp add: count_ok_def)
  then show ?thesis
    using scan_counts [OF _ refl, of st test "is" callback arr baseindex] assms(1,5) act le room st' by auto
qed

lemma pattern_refused:
  assumes "find_action_pattern lib act p st = (False, st')"
  shows "st' = st \<and> \<not> (act = Act_Count \<and> q_match_count st + 64 < q_limit st)"
  using assms by (auto simp: find_action_pattern_def match_pattern_def Let_def split: if_splits)

lemma no_pattern:
  assumes "\<not> (act = Act_Count \<and> q_match_count st + 64 < q_limit st)"
  shows "find_action_pattern lib act p st = (False, st)"
  using assms by (auto simp: find_action_pattern_def match_pattern_def)

lemma no_pattern_visit:
  assumes "visit act callback arr baseindex i st = (True, st')" "count_ok act st"
    and "\<not> (act = Act_Count \<and> q_match_count st + 64 < q_limit st)"
  shows "\<not> (act = Act_Count \<and> q_match_count st' + 64 < q_limit st')"
  using assms by (auto simp: visit_count)


subsection \<open>A word of the array\<close>

lemma lane_word:
  assumes "w \<in> lane_widths"
  shows "lane w k (load_le 8 data (8 * q)) = (if k < lanes w then raw w data (q * lanes w + k) else 0)"
proof (rule bit_eqI)
  fix j
  note W = lane_width_facts [OF assms]
  have word: "(load_le 8 data (8 * q) :: 64 word) = word_of_int (raw 64 data q)"
    using load_le_raw [where 'a = 64, of 8 data q] by (simp add: mult.commute)
  have "bit (lane w k (load_le 8 data (8 * q))) j \<longleftrightarrow> j < w \<and> w * k + j < 64 \<and> data_bit data (q * 64 + (w * k + j))"
    unfolding word by (auto simp: lane_def bit_simps bit_raw bit_uint64)
  moreover have "w * k + j < 64 \<longleftrightarrow> k < lanes w" if "j < w"
  proof
    assume "w * k + j < 64"
    then have "w * k < w * lanes w" using W(2) by simp
    then show "k < lanes w" by simp
  next
    assume "k < lanes w"
    then have "w * (k + 1) \<le> w * lanes w" by (intro mult_le_mono) auto
    then show "w * k + j < 64" using that W(2) by simp
  qed
  moreover have "q * 64 + (w * k + j) = (q * lanes w + k) * w + j" using W(2) by (simp add: algebra_simps)
  ultimately show "bit (lane w k (load_le 8 data (8 * q))) j
      = bit (if k < lanes w then raw w data (q * lanes w + k) else 0) j"
    by (auto simp: bit_raw)
qed

lemma index_of_word_eq: "w \<in> lane_widths \<Longrightarrow> index_of_word w (8 * q) = q * lanes w"
proof -
  assume w: "w \<in> lane_widths"
  note W = lane_width_facts [OF w]
  have "index_of_word w (8 * q) = q * 64 div w" using W(1) by (simp add: index_of_word_def no0_def mult.commute)
  also have "q * 64 = q * lanes w * w" using W(2) by (simp add: mult.assoc mult.commute)
  finally show ?thesis using W(1) by simp
qed

lemma array_get_element: "a_width arr \<in> widths \<Longrightarrow> array_get arr i = element (a_width arr) (a_data arr) i"
  by (simp add: array_get_def get_universal_def get_direct_element)

lemma element_eq_iff:
  assumes "storable w v"
  shows "element w data i = v \<longleftrightarrow> raw w data i = take_bit w v"
proof (cases "w < 8")
  case True
  with assms have "take_bit w v = v"
    by (intro take_bit_int_eq_self) (auto simp: storable_def lbound_for_width_def ubound_for_width_def)
  then show ?thesis using True by (simp add: element_def)
next
  case False
  then have w: "Suc (w - 1) = w" by simp
  have v: "signed_take_bit (w - 1) v = v"
    using assms False by (intro signed_take_bit_int_eq_self) (auto simp: storable_def lbound_for_width_def ubound_for_width_def)
  have "element w data i = v \<longleftrightarrow> signed_take_bit (w - 1) (raw w data i) = signed_take_bit (w - 1) v"
    using False v by (simp add: element_def)
  also have "\<dots> \<longleftrightarrow> take_bit w (raw w data i) = take_bit w v"
    unfolding signed_take_bit_eq_iff_take_bit_eq w ..
  finally show ?thesis by simp
qed

lemma element_storable: "storable w (element w data i)" if "w \<in> widths"
proof (cases "w < 8")
  case True
  then show ?thesis using raw_less [of w data i] raw_nonneg [of w data i]
    by (simp add: storable_def element_def lbound_for_width_def ubound_for_width_def)
next
  case False
  then show ?thesis
    using signed_take_bit_int_greater_eq_minus_exp [of "w - 1" "raw w data i"]
      signed_take_bit_int_less_exp [of "w - 1" "raw w data i"]
    by (simp add: storable_def element_def lbound_for_width_def ubound_for_width_def)
qed

lemma element_small:
  assumes "raw w data i < 2 ^ (w - 1)"
  shows "element w data i = raw w data i"
proof (cases "w < 8")
  case False
  have "signed_take_bit (w - 1) (raw w data i) = raw w data i"
    using assms raw_nonneg [of w data i] zero_le_power [of "2 :: int" "w - 1"]
    by (intro signed_take_bit_int_eq_self) (linarith, simp)
  with False show ?thesis by (simp add: element_def)
qed (simp add: element_def)

subsection \<open>Equality in one word\<close>

lemma lane_drop: "lane w k (drop_bit (w * a) v) = lane w (a + k) v"
  by (rule bit_eqI) (auto simp: lane_def bit_simps bit_uint64 algebra_simps)

lemma lane_match_drop: "lane_match eq w (drop_bit (w * a) v) k \<longleftrightarrow> lane_match eq w v (a + k)"
  by (simp add: lane_match_def lane_drop)

lemma chunk_test:
  assumes "w \<in> lane_widths"
  shows "(if eq then test_zero w v else v \<noteq> 0) \<longleftrightarrow> (\<exists>k<lanes w. lane_match eq w v k)"
proof (cases eq)
  case True
  then show ?thesis by (simp add: test_zero_iff [OF assms] lane_match_def)
next
  case False
  have "NOT (mask 64) = (0 :: 64 word)" by (rule bit_word_eqI) (simp add: bit_simps)
  then have "v AND mask 64 = v" by (simp add: take_bit_eq_mask [symmetric] take_bit_word_eq_self)
  then have "v = 0 \<longleftrightarrow> (\<forall>k<64 div w. lane w k v = 0)"
    using lanes_below(2) [OF assms lane_width_facts(7) [OF assms], of v] by simp
  then show ?thesis using False by (auto simp: lane_match_def lanes_def)
qed

lemma first_match:
  assumes "w \<in> lane_widths" "if eq then test_zero w v else v \<noteq> 0"
  obtains k where "k < lanes w" "lane_match eq w v k" "\<And>j. j < k \<Longrightarrow> \<not> lane_match eq w v j"
proof -
  have "\<exists>k<lanes w. lane_match eq w v k" using chunk_test [OF assms(1)] assms(2) by blast
  then show thesis by (rule first_lane) (rule that)
qed

lemma shift_right_lane:
  assumes "w * n < 64"
  shows "shift_right lib v (w * n) = drop_bit (w * n) v"
  using assms by (simp add: shift_right_def)

text \<open>After the last lane the loop may go on with a word that the language does not define; it
  stops there without another action.\<close>

lemma equality_chunk_after:
  assumes "a \<ge> lanes (a_width arr)" "a_width arr \<in> lane_widths"
    and "\<not> (act = Act_Count \<and> q_match_count st + 64 < q_limit st)"
  shows "equality_chunk lib act callback eq arr start baseindex a v2 st = Some (True, st)"
proof (cases "if eq then test_zero (a_width arr) v2 else v2 \<noteq> 0")
  case True
  then obtain k where k: "k < lanes (a_width arr)" "lane_match eq (a_width arr) v2 k"
    "\<And>j. j < k \<Longrightarrow> \<not> lane_match eq (a_width arr) v2 j"
    using first_match [OF assms(2)] by blast
  have "64 div no0 (a_width arr) \<le> a + k"
    using assms(1) lane_width_facts(1) [OF assms(2)] by (simp add: lanes_def no0_def)
  then show ?thesis using True find_zero_first [OF assms(2) k] no_pattern [OF assms(3)]
    by (subst equality_chunk.simps) (simp add: Let_def)
next
  case False
  then show ?thesis by (subst equality_chunk.simps) (auto simp: Let_def)
qed

lemma equality_chunk_scan:
  assumes w: "a_width arr = w" "w \<in> lane_widths" and "a \<le> lanes w" "v2 = drop_bit (w * a) v"
    and "count_ok act st" "\<not> (act = Act_Count \<and> q_match_count st + 64 < q_limit st)"
  shows "equality_chunk lib act callback eq arr start baseindex a v2 st =
    Some (scan (lane_match eq w v) (\<lambda>k. visit act callback arr baseindex (start + k)) [a..<lanes w] st)"
  using assms(3-)
proof (induction "lanes w - a" arbitrary: a v2 st rule: less_induct)
  case less
  note W = lane_width_facts [OF w(2)]
  have n: "64 div no0 w = lanes w" using W(1) by (simp add: lanes_def no0_def)
  show ?case
  proof (cases "\<exists>k<lanes w. a + k < lanes w \<and> lane_match eq w v (a + k)")
    case False
    have none: "scan (lane_match eq w v) (\<lambda>k. visit act callback arr baseindex (start + k)) [a..<lanes w] st = (True, st)"
    proof (rule scan_none, rule ballI)
      fix i assume "i \<in> set [a..<lanes w]"
      then show "\<not> lane_match eq w v i" using False [simplified, rule_format, of "i - a"] by auto
    qed
    show ?thesis
    proof (cases "if eq then test_zero w v2 else v2 \<noteq> 0")
      case True
      then obtain k where k: "k < lanes w" "lane_match eq w v2 k" "\<And>j. j < k \<Longrightarrow> \<not> lane_match eq w v2 j"
        using first_match [OF w(2)] by blast
      have "\<not> a + k < lanes w" using False k(1,2) less(3) by (auto simp: lane_match_drop)
      then show ?thesis
        using True find_zero_first [OF w(2) k] no_pattern [OF less(5)] none w(1) n
        by (subst equality_chunk.simps) (simp add: Let_def)
    next
      case False
      then show ?thesis using none w(1) by (subst equality_chunk.simps) (auto simp: Let_def)
    qed
  next
    case True
    then have "\<exists>k<lanes w. lane_match eq w v2 k" using less(3) by (auto simp: lane_match_drop)
    then obtain t where t: "t < lanes w" "lane_match eq w v2 t" "\<And>j. j < t \<Longrightarrow> \<not> lane_match eq w v2 j"
      by (rule first_lane) blast
    have "a + t < lanes w"
    proof -
      obtain k where "a + k < lanes w" "lane_match eq w v2 k" using True less(3) by (auto simp: lane_match_drop)
      then show ?thesis using t(3) [of k] by (meson add_le_mono le_less_trans nat_less_le not_le order_refl)
    qed
    obtain go st1 where v: "visit act callback arr baseindex (start + (a + t)) st = (go, st1)" by fastforce
    have scan: "scan (lane_match eq w v) (\<lambda>k. visit act callback arr baseindex (start + k)) [a..<lanes w] st =
        (if go then scan (lane_match eq w v) (\<lambda>k. visit act callback arr baseindex (start + k)) [Suc (a + t)..<lanes w] st1
         else (False, st1))"
    proof (rule scan_first)
      show "a + t < lanes w" by fact
      show "visit act callback arr baseindex (start + (a + t)) st = (go, st1)" by (fact v)
      show "lane_match eq w v (a + t)" using t(2) less(3) by (simp add: lane_match_drop)
      fix i assume "a \<le> i" "i < a + t"
      then show "\<not> lane_match eq w v i" using t(3) [of "i - a"] less(3) by (simp add: lane_match_drop)
    qed simp
    have step: "equality_chunk lib act callback eq arr start baseindex a v2 st =
        (if go then equality_chunk lib act callback eq arr start baseindex (a + t + 1)
                      (shift_right lib v2 ((t + 1) * w)) st1
         else Some (False, st1))"
      using t v \<open>a + t < lanes w\<close> find_zero_first [OF w(2) t] chunk_test [OF w(2), of eq v2] no_pattern [OF less(5)] w(1) n
      by (subst equality_chunk.simps) (auto simp: Let_def visit_def add.commute add.left_commute split: prod.splits bool.splits)
    show ?thesis
    proof (cases go)
      case True
      then have v1: "visit act callback arr baseindex (start + (a + t)) st = (True, st1)" using v by simp
      note ok = visit_count_ok [OF v1 less(4)] no_pattern_visit [OF v1 less(4,5)]
      show ?thesis
      proof (cases "a + t + 1 < lanes w")
        case True
        have "w * (a + t + 1) < w * lanes w" using True W(1) by (simp only: mult_less_cancel1)
        then have "w * (t + 1) < 64" using W(2) by (simp add: algebra_simps)
        then have "shift_right lib v2 ((t + 1) * w) = drop_bit (w * (a + t + 1)) v"
          using less(3) by (simp add: shift_right_def mult.commute drop_bit_drop_bit algebra_simps)
        then show ?thesis
          using less(1) [of "a + t + 1" _ st1] True ok step scan v \<open>go\<close> by simp
      next
        case False
        then show ?thesis
          using equality_chunk_after [of arr "a + t + 1" act st1] ok step scan v \<open>go\<close> w by simp
      qed
    next
      case False
      then show ?thesis using step scan v by simp
    qed
  qed
qed


lemma visit_count_any: "visit Act_Count callback arr baseindex i = visit Act_Count callback arr baseindex j"
  by (rule ext) (simp add: visit_def find_action_def match_optional_def match_value_def Let_def)

lemma scan_pattern:
  assumes "count_ok act st" "find_action_pattern lib act p st = (True, st')" "lib_ok lib"
    and "card {j. bit p j} = card {k. k < n \<and> test k}" "\<exists>k<n. test k" "n \<le> 64"
  shows "scan test (\<lambda>k. visit act callback arr baseindex (f k)) [0..<n] st = (True, st')"
proof -
  have act: "act = Act_Count" using assms(2) by (auto simp: find_action_pattern_def match_pattern_def split: if_splits)
  have "length (filter test [0..<n]) = card {k. k < n \<and> test k}"
    by (simp add: length_filter_conv_card) (rule arg_cong [where f = card], auto)
  moreover have "filter test [0..<n] \<noteq> []" using assms(5) by (auto simp: filter_empty_conv)
  ultimately have "scan test (visit act callback arr baseindex) [0..<n] st = (True, st')"
    using assms by (intro pattern_taken) auto
  moreover have "scan test (visit act callback arr baseindex) [0..<n] st
      = scan test (\<lambda>k. visit act callback arr baseindex (f k)) [0..<n] st"
    unfolding act by (rule scan_cong) (simp_all add: fun_cong [OF visit_count_any])
  ultimately show ?thesis by simp
qed

lemma equality_word:
  assumes w: "a_width arr = w" "w \<in> lane_widths" and "count_ok act st" "lib_ok lib"
  shows "equality_chunk lib act callback eq arr start baseindex 0 v st =
    Some (scan (lane_match eq w v) (\<lambda>k. visit act callback arr baseindex (start + k)) [0..<lanes w] st)"
proof (cases "act = Act_Count \<and> q_match_count st + 64 < q_limit st")
  case False
  then show ?thesis using equality_chunk_scan [OF w, of 0 v v act st] assms(3) by simp
next
  case True
  show ?thesis
  proof (cases "\<exists>k<lanes w. lane_match eq w v k")
    case none: False
    then have "scan (lane_match eq w v) (\<lambda>k. visit act callback arr baseindex (start + k)) [0..<lanes w] st = (True, st)"
      by (intro scan_none) auto
    then show ?thesis using none chunk_test [OF w(2), of eq v] w(1)
      by (subst equality_chunk.simps) (auto simp: Let_def)
  next
    case some: True
    obtain st' where p: "find_action_pattern lib act (cascade w eq v) st = (True, st')"
      using True by (auto simp: find_action_pattern_def match_pattern_def Let_def)
    have "scan (lane_match eq w v) (\<lambda>k. visit act callback arr baseindex (start + k)) [0..<lanes w] st = (True, st')"
      using card_cascade [OF w(2), of eq v] some lane_width_facts(6) [OF w(2)]
      by (intro scan_pattern [OF assms(3) p assms(4)]) auto
    then show ?thesis using some p chunk_test [OF w(2), of eq v] w(1)
      by (subst equality_chunk.simps) (auto simp: Let_def)
  qed
qed

subsection \<open>All words\<close>

text \<open>What a loop over words reports, against the plain loop over the elements.\<close>

definition words_result ::
  "nat \<Rightarrow> (nat \<Rightarrow> bool) \<Rightarrow> (nat \<Rightarrow> 's \<Rightarrow> bool \<times> 's) \<Rightarrow> nat \<Rightarrow> nat \<Rightarrow> 's \<Rightarrow> bool \<times> nat \<times> 's \<Rightarrow> bool" where
  "words_result w test act q end_i st r \<longleftrightarrow>
     (case r of (go, p, st') \<Rightarrow>
        if go then \<exists>q'. p = 8 * q' \<and>
          scan test act [q * lanes w..<end_i] st = scan test act [q' * lanes w..<end_i] st'
        else scan test act [q * lanes w..<end_i] st = (False, st'))"

lemma next_word: "8 * (q + 1) = 8 * q + (8 :: nat)"
  by simp

lemma less_div_8: "x < n div 8 \<Longrightarrow> x * 8 < (n :: nat)"
  by linarith

lemma word_before_end:
  assumes "w \<in> lane_widths" "int (8 * q) < word_end w end_i"
  shows "(q + 1) * lanes w < end_i"
proof -
  note W = lane_width_facts [OF assms(1)]
  have "8 * q + 8 < end_i * w div 8" using assms(2) by (simp add: word_end_def)
  then have "(8 * q + 8) * 8 < end_i * w" by (rule less_div_8)
  moreover have "(8 * q + 8) * 8 = (q + 1) * lanes w * w" using W(2) by (simp add: algebra_simps)
  ultimately show ?thesis by simp
qed

lemma words_step:
  assumes "w \<in> lane_widths" "(q + 1) * lanes w < end_i"
    and "scan test act [q * lanes w..<(q + 1) * lanes w] st = (go, st1)"
  shows "scan test act [q * lanes w..<end_i] st =
    (if go then scan test act [(q + 1) * lanes w..<end_i] st1 else (False, st1))"
proof -
  have "[q * lanes w..<end_i] = [q * lanes w..<(q + 1) * lanes w] @ [(q + 1) * lanes w..<end_i]"
  proof -
    have "q * lanes w \<le> (q + 1) * lanes w" by simp
    then show ?thesis using assms(2) by (metis le_add_diff_inverse less_imp_le upt_add_eq_append)
  qed
  then show ?thesis using assms(3) by (cases go) (simp_all add: scan_append)
qed

lemma equality_words_result:
  assumes w: "a_width arr = w" "w \<in> lane_widths" and "lib_ok lib" "storable w value"
    and "count_ok act st"
    and test_def: "test = (\<lambda>i. if eq then array_get arr i = value else array_get arr i \<noteq> value)"
  shows "\<exists>r. equality_words lib act callback eq arr (valuemask w value) baseindex (word_end w end_i) (8 * q) st = Some r \<and>
    words_result w test (visit act callback arr baseindex) q end_i st r"
  using assms(5)
proof (induction "nat (word_end w end_i - int (8 * q))" arbitrary: q st rule: less_induct)
  case less
  note W = lane_width_facts [OF w(2)]
  show ?case
  proof (cases "int (8 * q) < word_end w end_i")
    case False
    then show ?thesis
      by (subst equality_words.simps) (auto simp: words_result_def)
  next
    case True
    note before = word_before_end [OF w(2) True]
    define v where "v = load_le 8 (a_data arr) (8 * q) XOR valuemask w value"
    have test: "lane_match eq w v k = test (q * lanes w + k)" if "k < lanes w" for k
    proof -
      have "lane w k v = 0 \<longleftrightarrow> raw w (a_data arr) (q * lanes w + k) = take_bit w value"
        unfolding v_def lane_xor_valuemask [OF w(2) that] using that by (simp add: lane_word [OF w(2)])
      also have "\<dots> \<longleftrightarrow> array_get arr (q * lanes w + k) = value"
        using W(3) w(1) by (simp add: array_get_element element_eq_iff [OF assms(4)])
      finally show ?thesis by (auto simp: lane_match_def test_def)
    qed
    obtain go st1 where s1: "scan test (visit act callback arr baseindex) [q * lanes w..<(q + 1) * lanes w] st = (go, st1)"
      by fastforce
    have "scan (lane_match eq w v) (\<lambda>k. visit act callback arr baseindex (q * lanes w + k)) [0..<lanes w] st
        = scan (\<lambda>k. test (q * lanes w + k)) (\<lambda>k. visit act callback arr baseindex (q * lanes w + k)) [0..<lanes w] st"
      by (rule scan_cong) (simp_all add: test)
    also have "\<dots> = (go, st1)"
      using s1 scan_shift [of test _ "q * lanes w" 0 "lanes w" st] by (simp add: algebra_simps)
    finally have chunk: "equality_chunk lib act callback eq arr (index_of_word w (8 * q)) baseindex 0 v st = Some (go, st1)"
      using equality_word [OF w less(2) assms(3)] by (simp add: index_of_word_eq [OF w(2)])
    note rest = words_step [OF w(2) before s1]
    show ?thesis
    proof (cases go)
      case go: True
      have ok: "count_ok act st1" using s1 go less(2) by (auto intro: scan_count_ok)
      obtain r where r: "equality_words lib act callback eq arr (valuemask w value) baseindex (word_end w end_i) (8 * (q + 1)) st1 = Some r"
        "words_result w test (visit act callback arr baseindex) (q + 1) end_i st1 r"
        using less(1) [of "q + 1" st1] True ok by auto
      have "words_result w test (visit act callback arr baseindex) q end_i st r"
        using r(2) rest go by (auto simp: words_result_def split: prod.splits if_splits)
      moreover have "equality_words lib act callback eq arr (valuemask w value) baseindex (word_end w end_i) (8 * q) st = Some r"
        using r(1) True chunk go w(1) unfolding next_word
        by (subst equality_words.simps) (simp add: Let_def flip: v_def)
      ultimately show ?thesis by blast
    next
      case False
      then show ?thesis using True chunk rest w(1)
        by (subst equality_words.simps) (simp add: Let_def words_result_def flip: v_def)
    qed
  qed
qed


text \<open>The three parts of a comparison: elements up to a multiple of the lanes, words, the rest.\<close>

lemma scan_three_parts:
  assumes "w \<in> lane_widths" "start \<le> end_i" "start \<le> ee" "lanes w dvd ee"
    and "\<And>q st1. ee = q * lanes w \<Longrightarrow> ee < end_i \<Longrightarrow> scan test act [start..<ee] st = (True, st1) \<Longrightarrow>
      \<exists>r. words (8 * q) st1 = Some r \<and> words_result w test act q end_i st1 r"
  shows "(case scan test act [start..<min ee end_i] st of
      (False, st) \<Rightarrow> Some (False, st)
    | (True, st) \<Rightarrow>
        if max start (min ee end_i) \<ge> end_i then Some (True, st)
        else
          (case words (max start (min ee end_i) * w div 8) st of
             None \<Rightarrow> None
           | Some (False, p, st) \<Rightarrow> Some (False, st)
           | Some (True, p, st) \<Rightarrow> Some (scan test act [index_of_word w p..<end_i] st)))
    = Some (scan test act [start..<end_i] st)"
proof -
  note W = lane_width_facts [OF assms(1)]
  obtain go st1 where s1: "scan test act [start..<min ee end_i] st = (go, st1)" by fastforce
  have "[start..<end_i] = [start..<min ee end_i] @ [min ee end_i..<end_i]"
    using assms(2,3) by (metis le_add_diff_inverse min.bounded_iff min.cobounded2 upt_add_eq_append)
  then have split: "scan test act [start..<end_i] st =
      (if go then scan test act [min ee end_i..<end_i] st1 else (False, st1))"
    using s1 by (cases go) (simp_all add: scan_append)
  show ?thesis
  proof (cases "go \<and> ee < end_i")
    case False
    then show ?thesis using split s1 assms(2,3) by (auto simp: min_def max_def split: bool.splits)
  next
    case True
    obtain q where q: "ee = q * lanes w" using assms(4) by (metis dvdE mult.commute)
    have start: "max start (min ee end_i) = ee" "min ee end_i = ee" using True assms(3) by simp_all
    have "ee * w = q * 64" using q W(2) by (simp add: mult.assoc mult.commute)
    then have word: "ee * w div 8 = 8 * q" by simp
    obtain r where r: "words (8 * q) st1 = Some r" "words_result w test act q end_i st1 r"
      using assms(5) [OF q] True s1 start by auto
    have "scan test act [start..<end_i] st = scan test act [q * lanes w..<end_i] st1"
      using split True start q by simp
    then show ?thesis
      using r True s1 start word index_of_word_eq [OF assms(1)]
      by (cases r) (auto simp: words_result_def split: bool.splits if_splits)
  qed
qed


lemma lanes_no0: "w \<in> lane_widths \<Longrightarrow> 64 div no0 w = lanes w"
  using lane_width_facts(1) [of w] by (simp add: lanes_def no0_def)

lemma if_min: "(if ee > end_i then end_i else ee) = min ee (end_i :: nat)"
  by (simp add: min_def)

lemma scan_two_parts:
  assumes "start \<le> end_i" "start \<le> ee"
  shows "(case scan test act [start..<min ee end_i] st of
      (False, st) \<Rightarrow> Some (False, st)
    | (True, st) \<Rightarrow>
        if max start (min ee end_i) \<ge> end_i then Some (True, st)
        else Some (scan test act [max start (min ee end_i)..<end_i] st))
    = Some (scan test act [start..<end_i] st)"
proof -
  have "[start..<end_i] = [start..<min ee end_i] @ [min ee end_i..<end_i]"
    using assms by (metis le_add_diff_inverse min.bounded_iff min.cobounded2 upt_add_eq_append)
  moreover obtain go st1 where "scan test act [start..<min ee end_i] st = (go, st1)" by fastforce
  ultimately show ?thesis using assms by (cases go) (simp_all add: scan_append max_def min_def)
qed

lemma compare_equality_scan:
  assumes "a_width arr \<in> lane_widths" "lib_ok lib" "storable (a_width arr) value" "count_ok act st" "start \<le> end_i"
  shows "compare_equality lib act callback eq arr value start end_i baseindex st =
    Some (scan (\<lambda>i. if eq then array_get arr i = value else array_get arr i \<noteq> value)
            (visit act callback arr baseindex) [start..<end_i] st)"
proof -
  define w where "w = a_width arr"
  define ee where "ee = round_up lib start (lanes w)"
  define test where "test = (\<lambda>i. if eq then array_get arr i = value else array_get arr i \<noteq> value)"
  note W = lane_width_facts [OF assms(1), folded w_def]
  have w: "w \<in> lane_widths" using assms(1) by (simp add: w_def)
  have ee: "start \<le> ee" "lanes w dvd ee" using assms(2) W(5) by (simp_all add: lib_ok_def ee_def)
  note eq = compare_equality_def [of lib act callback eq arr "value" start end_i baseindex st,
      unfolded Let_def, folded w_def, folded test_def, unfolded lanes_no0 [OF w], folded ee_def, unfolded if_min]
  show ?thesis
  proof (cases "w \<noteq> 32 \<and> w \<noteq> 64")
    case True
    have "\<exists>r. equality_words lib act callback eq arr (valuemask w value) baseindex (word_end w end_i) (8 * q) st1 = Some r \<and>
        words_result w test (visit act callback arr baseindex) q end_i st1 r"
      if "scan test (visit act callback arr baseindex) [start..<ee] st = (True, st1)" for q st1
      by (rule equality_words_result [OF w_def [symmetric] w assms(2) assms(3) [folded w_def]
            scan_count_ok [OF that assms(4)] test_def])
    note parts = scan_three_parts [where words = "equality_words lib act callback eq arr (valuemask w value) baseindex (word_end w end_i)"
        and test = test and act = "visit act callback arr baseindex" and st = st, OF w assms(5) ee this]
    have c: "(w \<noteq> 32 \<and> w \<noteq> 64) = True" using True by simp
    show ?thesis unfolding eq test_def [symmetric] c if_True by (rule parts)
  next
    case False
    then have c: "(w \<noteq> 32 \<and> w \<noteq> 64) = False" by simp
    show ?thesis unfolding eq test_def [symmetric] c if_False by (rule scan_two_parts [OF assms(5) ee(1)])
  qed
qed


subsection \<open>Order\<close>

lemma sz_add_add: "sz_add k (sz_add s b) = sz_add (s + k) b"
  by (simp add: sz_add_def mod_add_right_eq add.left_commute add.commute)

definition in_order :: "bool \<Rightarrow> int \<Rightarrow> int \<Rightarrow> bool" where
  "in_order gt value e \<longleftrightarrow> (if gt then e > value else e < value)"

lemma sint_and_mask:
  assumes "w < 64"
  shows "sint (drop_bit (w * k) (c :: 64 word) AND mask w) = lane w k c"
proof (rule bit_eqI)
  fix j
  show "bit (sint (drop_bit (w * k) c AND mask w)) j = bit (lane w k c) j"
    using assms by (auto simp: bit_simps lane_def bit_uint64 dest: bit_imp_le_length)
qed

lemma sint_ucast_lane:
  assumes "LENGTH('a::len) = w" "w \<le> 64"
  shows "sint (ucast (drop_bit (w * k) (c :: 64 word)) :: 'a word) = signed_take_bit (w - 1) (lane w k c)"
proof (rule bit_eqI)
  fix j
  have "0 < w" using assms(1) len_gt_0 [where 'a = 'a] by simp
  then show "bit (sint (ucast (drop_bit (w * k) c) :: 'a word)) j = bit (signed_take_bit (w - 1) (lane w k c)) j"
    using assms by (auto simp: bit_simps lane_def bit_uint64 min_def)
qed

lemma gtlt_steps_scan:
  assumes "\<And>t. t < n \<Longrightarrow> get (drop_bit (w * t) chunk) = array_get arr (s + t)" "a \<le> n"
  shows "gtlt_steps act callback gt value (sz_add s baseindex) get w [a..<n] (drop_bit (w * a) chunk) st =
    scan (\<lambda>k. in_order gt value (array_get arr (s + k))) (\<lambda>k. visit act callback arr baseindex (s + k)) [a..<n] st"
  using assms(2)
proof (induction "n - a" arbitrary: a st)
  case (Suc d)
  then have "a < n" by simp
  then have upt: "[a..<n] = a # [Suc a..<n]" by (simp add: upt_conv_Cons)
  have "drop_bit w (drop_bit (w * a) chunk) = drop_bit (w * Suc a) chunk"
    by (simp add: drop_bit_drop_bit add.commute)
  moreover obtain go st1 where "visit act callback arr baseindex (s + a) st = (go, st1)" by fastforce
  moreover have "d = n - Suc a" using Suc(2) by simp
  ultimately show ?case unfolding upt
    using Suc(1) [of "Suc a"] \<open>a < n\<close> assms(1) [of a]
    by (cases go) (simp_all add: visit_def sz_add_add flip: in_order_def)
qed simp

lemma word_element:
  assumes "w \<in> lane_widths" "a_width arr = w" "k < lanes w" "c = load_le 8 (a_data arr) (8 * q)"
  shows "array_get arr (q * lanes w + k) =
    (if w < 8 then lane w k c else signed_take_bit (w - 1) (lane w k c))"
  using assms lane_width_facts(3) [OF assms(1)]
  by (simp add: array_get_element element_def lane_word)

lemma find_gtlt_scan:
  assumes w: "a_width arr = w" "w \<in> {1, 2, 4, 8, 16}" and c: "c = load_le 8 (a_data arr) (8 * q)"
  shows "find_gtlt act callback gt w value c (sz_add (q * lanes w) baseindex) st =
    scan (\<lambda>k. in_order gt value (array_get arr (q * lanes w + k)))
      (\<lambda>k. visit act callback arr baseindex (q * lanes w + k)) [0..<lanes w] st"
proof -
  have lw: "w \<in> lane_widths" using w(2) by (auto simp: lane_widths_def)
  note elem = word_element [OF lw w(1) _ c]
  note steps = gtlt_steps_scan [where a = 0, simplified, of "lanes w" _ w c arr "q * lanes w"]
  consider "w = 1" | "w = 2" | "w = 4" | "w = 8" | "w = 16" using w(2) by auto
  then show ?thesis
  proof cases
    case 1
    have "sint (drop_bit (w * t) c AND 0x1) = array_get arr (q * lanes w + t)" if "t < lanes w" for t
      using elem [OF that] sint_and_mask [of w t c] 1 by (simp add: mask_Suc_0)
    then show ?thesis using steps [of "\<lambda>c. sint (c AND 0x1)"] 1 by (simp add: find_gtlt_def lanes_def)
  next
    case 2
    have "sint (drop_bit (w * t) c AND 0x3) = array_get arr (q * lanes w + t)" if "t < lanes w" for t
      using elem [OF that] sint_and_mask [of w t c] 2 by (simp add: mask_numeral)
    then show ?thesis using steps [of "\<lambda>c. sint (c AND 0x3)"] 2 by (simp add: find_gtlt_def lanes_def)
  next
    case 3
    have "sint (drop_bit (w * t) c AND 0xf) = array_get arr (q * lanes w + t)" if "t < lanes w" for t
      using elem [OF that] sint_and_mask [of w t c] 3 by (simp add: mask_numeral)
    then show ?thesis using steps [of "\<lambda>c. sint (c AND 0xf)"] 3 by (simp add: find_gtlt_def lanes_def)
  next
    case 4
    have "sint (ucast (drop_bit (w * t) c) :: 8 word) = array_get arr (q * lanes w + t)" if "t < lanes w" for t
      using elem [OF that] sint_ucast_lane [where 'a = 8, of w t c] 4 by simp
    then show ?thesis using steps [of "\<lambda>c. sint (ucast c :: 8 word)"] 4 by (simp add: find_gtlt_def lanes_def)
  next
    case 5
    have e: "sint (ucast (drop_bit (t * 16) c) :: 16 word) = array_get arr (q * lanes w + t)" if "t < lanes w" for t
      using elem [OF that] sint_ucast_lane [where 'a = 16, of w t c] 5 by (simp add: mult.commute)
    have "[0, 1, 2, 3] = [0..<lanes w]" using 5 by (simp add: lanes_def upt_rec)
    then have "find_gtlt act callback gt w value c (sz_add (q * lanes w) baseindex) st =
      scan (\<lambda>t. let e = sint (ucast (drop_bit (t * 16) c) :: 16 word) in if gt then e > value else e < value)
          (\<lambda>t. find_action act callback (sz_add t (sz_add (q * lanes w) baseindex))
                 (Some (sint (ucast (drop_bit (t * 16) c) :: 16 word)))) [0..<lanes w] st"
      using 5 by (simp add: find_gtlt_def)
    also have "\<dots> = scan (\<lambda>k. in_order gt value (array_get arr (q * lanes w + k)))
      (\<lambda>k. visit act callback arr baseindex (q * lanes w + k)) [0..<lanes w] st"
      by (rule scan_cong) (simp_all add: e in_order_def visit_def sz_add_add)
    finally show ?thesis .
  qed
qed


text \<open>\<open>find_gtlt_fast\<close> jumps from one match to the next.\<close>

lemma first_set_top:
  assumes "w \<in> lane_widths" "lib_ok lib" "p \<le> t" "t < lanes w" "P t" "\<And>i. p \<le> i \<Longrightarrow> i < t \<Longrightarrow> \<not> P i"
    and "\<And>j. bit m0 j \<longleftrightarrow> (\<exists>k<lanes w. j = w * k + (w - 1) \<and> P k)"
  shows "drop_bit (w * p) m0 \<noteq> 0" "first_set_bit64 lib (drop_bit (w * p) m0) div w = t - p"
proof -
  note W = lane_width_facts [OF assms(1)]
  have wt: "w * p + (w * (t - p) + (w - 1)) = w * t + (w - 1)"
    using assms(3) by (simp add: add_mult_distrib2 [symmetric] flip: add.assoc)
  have at: "bit (drop_bit (w * p) m0) (w * (t - p) + (w - 1))"
    using assms(4,5,7) wt by (auto simp: bit_drop_bit_eq)
  then show nz: "drop_bit (w * p) m0 \<noteq> 0" by (rule bit_nonzero)
  have "(LEAST j. bit (drop_bit (w * p) m0) j) = w * (t - p) + (w - 1)"
  proof (rule Least_equality)
    show "bit (drop_bit (w * p) m0) (w * (t - p) + (w - 1))" by (rule at)
    fix j assume "bit (drop_bit (w * p) m0) j"
    then obtain k where k: "k < lanes w" "w * p + j = w * k + (w - 1)" "P k"
      using assms(7) by (auto simp: bit_drop_bit_eq)
    have "p \<le> k"
    proof (rule ccontr)
      assume "\<not> p \<le> k"
      then have "w * (k + 1) \<le> w * p" by (intro mult_le_mono) auto
      with k(2) W(1) show False by simp
    qed
    then have "t \<le> k" using k(3) assms(6) by (meson not_le)
    then have "w * t \<le> w * k" by simp
    then show "w * (t - p) + (w - 1) \<le> j" using k(2) wt by linarith
  qed
  then have "first_set_bit64 lib (drop_bit (w * p) m0) = w * (t - p) + (w - 1)"
    using assms(2) nz by (simp add: lib_ok_def)
  moreover have "(w * (t - p) + (w - 1)) div w = t - p"
    using div_mult_self2 [of w "w - 1" "t - p"] W(1) by (simp only: add.commute) simp
  ultimately show "first_set_bit64 lib (drop_bit (w * p) m0) div w = t - p" by simp
qed

lemma gtlt_fast_loop_scan:
  assumes w: "a_width arr = w" "w \<in> lane_widths" "w < 64" and lib: "lib_ok lib"
    and bits: "\<And>j. bit m0 j \<longleftrightarrow> (\<exists>k<lanes w. j = w * k + (w - 1) \<and> P k)"
    and elem: "\<And>k. k < lanes w \<Longrightarrow> lane w k c = array_get arr (s + k)"
    and "p \<le> lanes w" "count_ok act st" "\<not> (act = Act_Count \<and> q_match_count st + 64 < q_limit st)"
  shows "gtlt_fast_loop lib act callback w c (sz_add s baseindex) p (drop_bit (w * p) m0) st =
    Some (scan P (\<lambda>k. visit act callback arr baseindex (s + k)) [p..<lanes w] st)"
  using assms(7-)
proof (induction "lanes w - p" arbitrary: p st rule: less_induct)
  case less
  note W = lane_width_facts [OF w(2)]
  have w0: "no0 w = w" using W(1) by (simp add: no0_def)
  show ?case
  proof (cases "\<exists>k<lanes w. p \<le> k \<and> P k")
    case False
    have "drop_bit (w * p) m0 = 0"
    proof (rule bit_word_eqI)
      fix j
      have "\<not> bit m0 (w * p + j)"
      proof
        assume "bit m0 (w * p + j)"
        then obtain k where k: "k < lanes w" "w * p + j = w * k + (w - 1)" "P k" using bits by blast
        have "p \<le> k"
        proof (rule ccontr)
          assume "\<not> p \<le> k"
          then have "w * (k + 1) \<le> w * p" by (intro mult_le_mono) auto
          with k(2) W(1) show False by simp
        qed
        with False k show False by blast
      qed
      then show "bit (drop_bit (w * p) m0) j = bit 0 j" by (simp add: bit_drop_bit_eq)
    qed
    moreover have "scan P (\<lambda>k. visit act callback arr baseindex (s + k)) [p..<lanes w] st = (True, st)"
      using False by (intro scan_none) auto
    ultimately show ?thesis by (subst gtlt_fast_loop.simps) simp
  next
    case True
    then obtain t where t: "t < lanes w" "p \<le> t \<and> P t" "\<And>i. i < t \<Longrightarrow> \<not> (p \<le> i \<and> P i)"
      by (rule first_lane) blast
    have first: "drop_bit (w * p) m0 \<noteq> 0" "first_set_bit64 lib (drop_bit (w * p) m0) div w = t - p"
      using first_set_top [OF w(2) lib, of p t P m0] t bits by auto
    obtain go st1 where v: "visit act callback arr baseindex (s + t) st = (go, st1)" by fastforce
    have scan: "scan P (\<lambda>k. visit act callback arr baseindex (s + k)) [p..<lanes w] st =
        (if go then scan P (\<lambda>k. visit act callback arr baseindex (s + k)) [Suc t..<lanes w] st1 else (False, st1))"
      using t v by (intro scan_first) auto
    have wt: "w * t < 64" using top_bit_index [OF w(2) t(1)] by simp
    have action: "find_action act callback (sz_add t (sz_add s baseindex))
        (Some (sint (shift_right lib c (t * w) AND lane_mask w))) st = (go, st1)"
      using v wt elem [OF t(1)] sint_and_mask [OF w(3), of t c]
      by (simp add: shift_right_def lane_mask_eq [OF w(2)] visit_def sz_add_add mult.commute)
    define m' where "m' = (if (t - p + 1) * w = 64 then 0 else shift_right lib (drop_bit (w * p) m0) ((t - p + 1) * w))"
    have m': "m' = drop_bit (w * Suc t) m0"
    proof -
      have e: "w * p + (t - p + 1) * w = w * Suc t"
      proof -
        have "p + (t - p + 1) = Suc t" using t(2) by simp
        then show ?thesis by (metis distrib_left mult.commute)
      qed
      have le: "w * Suc t \<le> w * lanes w" using t(1) by (intro mult_le_mono) auto
      show ?thesis
      proof (cases "(t - p + 1) * w = 64")
        case True
        then have "64 \<le> w * Suc t" using e by simp
        then have "drop_bit (w * Suc t) m0 = 0" by (intro bit_word_eqI) (auto simp: bit_drop_bit_eq dest: bit_imp_le_length)
        then show ?thesis using True by (simp add: m'_def)
      next
        case False
        then have "(t - p + 1) * w < 64" using e le W(2) by linarith
        then have "m' = drop_bit ((t - p + 1) * w) (drop_bit (w * p) m0)" using False by (simp only: m'_def shift_right_def if_True if_False)
        also have "\<dots> = drop_bit (w * p + (t - p + 1) * w) m0" unfolding drop_bit_drop_bit by (simp only: add.commute)
        finally show ?thesis unfolding e .
      qed
    qed
    have step: "gtlt_fast_loop lib act callback w c (sz_add s baseindex) p (drop_bit (w * p) m0) st =
        (if go then gtlt_fast_loop lib act callback w c (sz_add s baseindex) (Suc t) m' st1 else Some (False, st1))"
      using first t(2) action no_pattern [OF less(4)]
      by (subst gtlt_fast_loop.simps) (simp add: w0 Let_def m'_def)
    show ?thesis
    proof (cases go)
      case True
      then have v1: "visit act callback arr baseindex (s + t) st = (True, st1)" using v by simp
      note ok = visit_count_ok [OF v1 less(3)] no_pattern_visit [OF v1 less(3,4)]
      have "lanes w - Suc t < lanes w - p" using t(1,2) by linarith
      then show ?thesis using less(1) [of "Suc t" st1] t ok True step scan m' by simp
    next
      case False
      then show ?thesis using step scan by simp
    qed
  qed
qed

lemma find_gtlt_fast_scan:
  assumes w: "a_width arr = w" "w \<in> lane_widths" "w < 64" and lib: "lib_ok lib"
    and "0 \<le> value" "value < 2 ^ (w - 1)"
    and c: "c = load_le 8 (a_data arr) (8 * q)" and low: "\<And>k. k < lanes w \<Longrightarrow> lane w k c < 2 ^ (w - 1)"
    and "count_ok act st"
  shows "find_gtlt_fast lib act callback True w c (find_gtlt_magic True w value) (sz_add (q * lanes w) baseindex) st =
    Some (scan (\<lambda>k. in_order True value (array_get arr (q * lanes w + k)))
      (\<lambda>k. visit act callback arr baseindex (q * lanes w + k)) [0..<lanes w] st)"
proof -
  note W = lane_width_facts [OF w(2)]
  let ?m = "gtlt_matches True w c (find_gtlt_magic True w value)"
  let ?P = "\<lambda>k. in_order True value (array_get arr (q * lanes w + k))"
  let ?scan = "scan ?P (\<lambda>k. visit act callback arr baseindex (q * lanes w + k)) [0..<lanes w] st"
  have elem: "lane w k c = array_get arr (q * lanes w + k)" if "k < lanes w" for k
  proof -
    have "lane w k c = raw w (a_data arr) (q * lanes w + k)" using that c by (simp add: lane_word [OF w(2)])
    then show ?thesis using low [OF that] element_small W(3) w(1) by (simp add: array_get_element)
  qed
  have bits: "bit ?m j \<longleftrightarrow> (\<exists>k<lanes w. j = w * k + (w - 1) \<and> ?P k)" for j
  proof -
    have "bit ?m j \<longleftrightarrow> (\<exists>k<lanes w. j = w * k + (w - 1) \<and> lane w k c > value)"
      by (rule bit_gt_matches [OF w(2) assms(5,6) low])
    then show ?thesis by (auto simp: in_order_def elem)
  qed
  show ?thesis
  proof (cases "act = Act_Count \<and> q_match_count st + 64 < q_limit st")
    case False
    show ?thesis using gtlt_fast_loop_scan [OF w lib bits elem, of 0 act st] assms(9) False
      by (simp add: find_gtlt_fast_def)
  next
    case True
    show ?thesis
    proof (cases "?m = 0")
      case zero: True
      have "\<not> ?P k" if "k < lanes w" for k using bits [of "w * k + (w - 1)"] zero that by auto
      then have "?scan = (True, st)" by (intro scan_none) auto
      then show ?thesis using zero unfolding find_gtlt_fast_def by (subst gtlt_fast_loop.simps) simp
    next
      case nonzero: False
      obtain st' where p: "find_action_pattern lib act (drop_bit (w - 1) ?m) st = (True, st')"
        using True by (auto simp: find_action_pattern_def match_pattern_def Let_def)
      have "\<exists>j. bit ?m j" using nonzero by (auto simp: bit_eq_iff)
      then have some: "\<exists>k<lanes w. ?P k" using bits by blast
      have "bit (drop_bit (w - 1) ?m) j \<longleftrightarrow> (\<exists>k<lanes w. j = w * k \<and> ?P k)" for j
        unfolding bit_drop_bit_eq o_apply bits by auto
      then have "card {j. bit (drop_bit (w - 1) ?m) j} = card {k. k < lanes w \<and> ?P k}"
        by (rule card_pattern [OF W(1)])
      then have "?scan = (True, st')"
        using some W(6) by (intro scan_pattern [OF assms(9) p lib]) auto
      then show ?thesis using nonzero p W(1) unfolding find_gtlt_fast_def
        by (subst gtlt_fast_loop.simps) (simp add: no0_def)
    qed
  qed
qed


text \<open>The bit hacks are only used for \<open>greater\<close>: the test before them compares the value with the
  lowest lane of the magic number, which for \<open>less\<close> is the value.\<close>

lemma less_never_fast:
  assumes "w \<in> lane_widths" "w < 64"
  shows "\<not> use_bit_hacks False w value"
proof
  assume h: "use_bit_hacks False w value"
  note W = lane_width_facts [OF assms(1)]
  have two: "(2 :: int) * 2 ^ (w - 1) = 2 ^ w" using W(1) by (cases w) auto
  have "value \<le> sint (mask (w - 1) :: 64 word)" "0 \<le> value" "value \<noteq> sint (find_gtlt_magic False w value AND mask w)"
    using h by (simp_all add: use_bit_hacks_def Let_def half_mask [OF assms(1)] lane_mask_eq [OF assms(1)]
        flip: lane_mask_eq [OF assms(1)] del: One_nat_def)
  moreover have "sint (mask (w - 1) :: 64 word) = mask (w - 1)"
    using assms(2) by (intro bit_eqI) (auto simp: bit_simps)
  ultimately have v: "0 \<le> value" "value < 2 ^ w"
    using two by (simp_all add: mask_eq_exp_minus_1)
  have "find_gtlt_magic False w value = lower_bits w * word_of_int value"
    by (simp add: find_gtlt_magic_def mask_nonzero [OF assms(1)] lower_bits_div [OF assms(1), simplified])
  then have "sint (find_gtlt_magic False w value AND mask w) = value"
    using sint_and_mask [OF assms(2), of 0 "find_gtlt_magic False w value"] lane_lower_times [OF assms(1) v W(5)] by simp
  with \<open>value \<noteq> _\<close> show False by simp
qed

lemma relation_word:
  assumes w: "a_width arr = w" "w \<in> {1, 2, 4, 8, 16}" and lib: "lib_ok lib" and "count_ok act st"
    and c: "c = load_le 8 (a_data arr) (8 * q)"
  shows "(if use_bit_hacks gt w bound \<and> push_bit (no0 w - 1) (lower_bits w) AND c = 0
      then find_gtlt_fast lib act callback gt w c (find_gtlt_magic gt w bound) (sz_add (q * lanes w) baseindex) st
      else Some (find_gtlt act callback gt w bound c (sz_add (q * lanes w) baseindex) st))
    = Some (scan (\<lambda>k. in_order gt bound (array_get arr (q * lanes w + k)))
        (\<lambda>k. visit act callback arr baseindex (q * lanes w + k)) [0..<lanes w] st)"
proof (cases "use_bit_hacks gt w bound \<and> push_bit (no0 w - 1) (lower_bits w) AND c = 0")
  case False
  then show ?thesis by (simp only: find_gtlt_scan [OF w c] if_False)
next
  case True
  have lw: "w \<in> lane_widths" "w < 64" using w(2) by (auto simp: lane_widths_def)
  note W = lane_width_facts [OF lw(1)]
  have gt: "gt" using True less_never_fast [OF lw, of bound] by (cases gt) auto
  have low: "lane w k c < 2 ^ (w - 1)" if "k < lanes w" for k
    using True top_bits_only [OF lw(1), of c] that bit_top [OF lw(1) that, of c] W(1)
    by (auto simp: no0_def simp del: One_nat_def)
  have v: "0 \<le> bound" "bound < 2 ^ (w - 1)"
  proof -
    have "w - 1 < 64" using lw(2) by simp
    have "w \<ge> 2" "0 \<le> bound" "bound \<le> sint (mask (w - 1) - 1 :: 64 word)"
      using True gt by (simp_all add: use_bit_hacks_def Let_def half_mask [OF lw(1)] del: One_nat_def)
    moreover have "sint (mask (w - 1) - 1 :: 64 word) = 2 ^ (w - 1) - 2"
      using w(2) \<open>w \<ge> 2\<close> by (auto simp: mask_numeral mask_Suc_0)
    ultimately show "0 \<le> bound" "bound < 2 ^ (w - 1)" by linarith+
  qed
  show ?thesis
    using True gt find_gtlt_fast_scan [OF w(1) lw lib v c low assms(4)] by simp
qed

lemma relation_words_result:
  assumes w: "a_width arr = w" "w \<in> {1, 2, 4, 8, 16}" and "lib_ok lib" and "count_ok act st"
    and test_def: "test = (\<lambda>i. in_order gt value (array_get arr i))"
  shows "\<exists>r. relation_words lib act callback gt arr (use_bit_hacks gt w value) value (find_gtlt_magic gt w value)
      baseindex (word_end w end_i) (8 * q) st = Some r \<and>
    words_result w test (visit act callback arr baseindex) q end_i st r"
  using assms(4)
proof (induction "nat (word_end w end_i - int (8 * q))" arbitrary: q st rule: less_induct)
  case less
  have lw: "w \<in> lane_widths" using w(2) by (auto simp: lane_widths_def)
  show ?case
  proof (cases "int (8 * q) < word_end w end_i")
    case False
    then show ?thesis by (subst relation_words.simps) (auto simp: words_result_def)
  next
    case True
    note before = word_before_end [OF lw True]
    obtain go st1 where s1: "scan test (visit act callback arr baseindex) [q * lanes w..<(q + 1) * lanes w] st = (go, st1)"
      by fastforce
    have "scan (\<lambda>k. in_order gt value (array_get arr (q * lanes w + k)))
        (\<lambda>k. visit act callback arr baseindex (q * lanes w + k)) [0..<lanes w] st = (go, st1)"
      using s1 scan_shift [of test _ "q * lanes w" 0 "lanes w" st] by (simp add: test_def algebra_simps)
    note word = relation_word [OF w assms(3) less(2) refl, where q = q and gt = gt and bound = "value"
        and callback = callback and baseindex = baseindex, unfolded this]
    note rest = words_step [OF lw before s1]
    show ?thesis
    proof (cases go)
      case go: True
      have ok: "count_ok act st1" using s1 go less(2) by (auto intro: scan_count_ok)
      obtain r where r: "relation_words lib act callback gt arr (use_bit_hacks gt w value) value (find_gtlt_magic gt w value)
          baseindex (word_end w end_i) (8 * (q + 1)) st1 = Some r"
        "words_result w test (visit act callback arr baseindex) (q + 1) end_i st1 r"
        using less(1) [of "q + 1" st1] True ok by auto
      have "words_result w test (visit act callback arr baseindex) q end_i st r"
        using r(2) rest go by (auto simp: words_result_def split: prod.splits if_splits)
      moreover have "relation_words lib act callback gt arr (use_bit_hacks gt w value) value (find_gtlt_magic gt w value)
          baseindex (word_end w end_i) (8 * q) st = Some r"
        using r(1) True go unfolding next_word
        by (subst relation_words.simps) (simp only: Let_def w(1) index_of_word_eq [OF lw] word if_True option.case prod.case bool.case)
      ultimately show ?thesis by blast
    next
      case False
      then have "relation_words lib act callback gt arr (use_bit_hacks gt w value) value (find_gtlt_magic gt w value)
          baseindex (word_end w end_i) (8 * q) st = Some (False, 8 * q, st1)"
        using True
        by (subst relation_words.simps) (simp only: Let_def w(1) index_of_word_eq [OF lw] word if_True option.case prod.case bool.case)
      then show ?thesis using False rest by (simp add: words_result_def)
    qed
  qed
qed

lemma compare_relation_scan:
  assumes "a_width arr \<in> lane_widths" "lib_ok lib" "count_ok act st" "start \<le> end_i"
  shows "compare_relation lib act callback gt arr value start end_i baseindex st =
    Some (scan (\<lambda>i. in_order gt value (array_get arr i))
            (visit act callback arr baseindex) [start..<end_i] st)"
proof -
  define w where "w = a_width arr"
  define ee where "ee = round_up lib start (lanes w)"
  define test where "test = (\<lambda>i. in_order gt value (array_get arr i))"
  note W = lane_width_facts [OF assms(1), folded w_def]
  have w: "w \<in> lane_widths" using assms(1) by (simp add: w_def)
  have ee: "start \<le> ee" "lanes w dvd ee" using assms(2) W(5) by (simp_all add: lib_ok_def ee_def)
  note eq = compare_relation_def [of lib act callback gt arr "value" start end_i baseindex st,
      unfolded Let_def, folded in_order_def, folded w_def, folded test_def, unfolded lanes_no0 [OF w], folded ee_def, unfolded if_min]
  show ?thesis
  proof (cases "w = 1 \<or> w = 2 \<or> w = 4 \<or> w = 8 \<or> w = 16")
    case True
    then have small: "w \<in> {1, 2, 4, 8, 16}" by auto
    have "\<exists>r. relation_words lib act callback gt arr (use_bit_hacks gt w value) value (find_gtlt_magic gt w value)
        baseindex (word_end w end_i) (8 * q) st1 = Some r \<and>
        words_result w test (visit act callback arr baseindex) q end_i st1 r"
      if "scan test (visit act callback arr baseindex) [start..<ee] st = (True, st1)" for q st1
      by (rule relation_words_result [OF w_def [symmetric] small assms(2) scan_count_ok [OF that assms(3)] test_def])
    note parts = scan_three_parts [where words = "relation_words lib act callback gt arr (use_bit_hacks gt w value) value
          (find_gtlt_magic gt w value) baseindex (word_end w end_i)"
        and test = test and act = "visit act callback arr baseindex" and st = st, OF w assms(4) ee this]
    have c: "(w = 1 \<or> w = 2 \<or> w = 4 \<or> w = 8 \<or> w = 16) = True" using True by simp
    show ?thesis unfolding eq test_def [symmetric] c if_True by (rule parts)
  next
    case False
    then have c: "(w = 1 \<or> w = 2 \<or> w = 4 \<or> w = 8 \<or> w = 16) = False" by simp
    show ?thesis unfolding eq test_def [symmetric] c if_False by (rule scan_two_parts [OF assms(4) ee(1)])
  qed
qed

end
