(* ===== verification/Array_Search.thy ===== *)
theory Array_Search
  imports Array_Find_Lemmas
begin

section \<open>The search against the plain loop\<close>

text \<open>
  Lemmas that put the parts of \<open>find_optimized\<close> together: the first elements, the decisions by the
  bounds of the array, the comparison of words, nullable arrays, and queries that compute one
  number. \<open>aggregates_ok\<close> is what the aggregates of an array are documented to return.
\<close>

definition matches :: "condition \<Rightarrow> int_array \<Rightarrow> int \<Rightarrow> nat \<Rightarrow> bool" where
  "matches cond arr value i \<longleftrightarrow> holds cond (array_get arr i) value False False"

definition aggregates_ok :: "array_lib \<Rightarrow> int_array \<Rightarrow> bool" where
  "aggregates_ok lib arr \<longleftrightarrow>
     (\<forall>s e. s < e \<longrightarrow> e \<le> a_size arr \<longrightarrow>
        array_sum lib arr s e = wrap64 (sum_list (map (array_get arr) [s..<e])) \<and>
        fst (array_maximum lib arr s e) = Max (array_get arr ` {s..<e}) \<and>
        fst (array_minimum lib arr s e) = Min (array_get arr ` {s..<e}))"

subsection \<open>Bounds\<close>

lemma array_get_bounds:
  assumes "array_ok arr"
  shows "a_lbound arr \<le> array_get arr i" "array_get arr i \<le> a_ubound arr"
  using assms element_storable [of "a_width arr" "a_data arr" i]
  by (simp_all add: array_ok_def array_get_element storable_def)

lemma no_match: "array_ok arr \<Longrightarrow> \<not> can_match cond v (a_lbound arr) (a_ubound arr) \<Longrightarrow> \<not> matches cond arr v i"
  using array_get_bounds [of arr i] by (auto simp: can_match_def matches_def holds_def split: condition.splits)

lemma all_matches: "array_ok arr \<Longrightarrow> will_match cond v (a_lbound arr) (a_ubound arr) \<Longrightarrow> matches cond arr v i"
  using array_get_bounds [of arr i] by (auto simp: will_match_def matches_def holds_def split: condition.splits)

lemma undecided:
  assumes "array_ok arr" "can_match cond v (a_lbound arr) (a_ubound arr)"
    "\<not> will_match cond v (a_lbound arr) (a_ubound arr)"
  shows "a_width arr \<in> lane_widths" "cond \<in> {Cond_Equal, Cond_NotEqual} \<Longrightarrow> storable (a_width arr) v"
    "cond \<in> {Cond_Equal, Cond_NotEqual, Cond_Greater, Cond_Less}"
proof -
  have "a_width arr \<noteq> 0"
  proof
    assume "a_width arr = 0"
    then have "a_lbound arr = 0" "a_ubound arr = 0"
      using assms(1) by (simp_all add: array_ok_def lbound_for_width_def ubound_for_width_def)
    with assms(2,3) show False by (auto simp: can_match_def will_match_def split: condition.splits)
  qed
  then show "a_width arr \<in> lane_widths" using assms(1) by (auto simp: array_ok_def widths_def lane_widths_def)
  show "storable (a_width arr) v" if "cond \<in> {Cond_Equal, Cond_NotEqual}"
    using that assms by (auto simp: array_ok_def storable_def can_match_def will_match_def not_less)
  show "cond \<in> {Cond_Equal, Cond_NotEqual, Cond_Greater, Cond_Less}"
    using assms(3) by (cases cond) (auto simp: will_match_def)
qed

lemma compare_array_scan:
  assumes "array_ok arr" "lib_ok lib" "count_ok act st" "start \<le> end_i"
    and "can_match cond v (a_lbound arr) (a_ubound arr)" "\<not> will_match cond v (a_lbound arr) (a_ubound arr)"
  shows "compare_array lib act callback cond arr v start end_i baseindex st =
    Some (scan (matches cond arr v) (visit act callback arr baseindex) [start..<end_i] st)"
proof -
  note U = undecided [OF assms(1,5,6)]
  note E = compare_equality_scan [OF U(1) assms(2) U(2) assms(3,4)]
  note R = compare_relation_scan [OF U(1) assms(2,3,4)]
  from U(3) consider "cond = Cond_Equal" | "cond = Cond_NotEqual" | "cond = Cond_Greater" | "cond = Cond_Less" by auto
  then show ?thesis
    by cases (simp_all add: compare_array_def E R matches_def [abs_def] holds_def in_order_def)
qed

subsection \<open>The first elements\<close>

lemma first_items_scan:
  assumes "end_i \<le> a_size arr"
  shows "first_items act callback cond arr v end_i baseindex n s st =
    scan (matches cond arr v) (visit act callback arr baseindex) [s..<min (s + n) end_i] st"
proof (induction n arbitrary: s st)
  case (Suc n)
  show ?case
  proof (cases "s < end_i")
    case True
    then have "[s..<min (s + Suc n) end_i] = s # [Suc s..<min (Suc s + n) end_i]" by (simp add: upt_conv_Cons)
    moreover obtain go st1 where "visit act callback arr baseindex s st = (go, st1)" by fastforce
    ultimately show ?thesis using True assms Suc by (cases go) (simp_all add: matches_def)
  next
    case False
    then show ?thesis using Suc [of "Suc s" st] by simp
  qed
qed simp

lemma scan_split:
  assumes "s \<le> m" "m \<le> e"
  shows "scan test act [s..<e] st =
    (case scan test act [s..<m] st of (True, st) \<Rightarrow> scan test act [m..<e] st | (False, st) \<Rightarrow> (False, st))"
proof -
  have "[s..<e] = [s..<m] @ [m..<e]" using assms by (metis le_add_diff_inverse upt_add_eq_append)
  then show ?thesis by (simp add: scan_append)
qed

text \<open>\<open>find_in_leaf\<close> is the plain loop on the first elements, and then decides what to do with the
  rest.\<close>

lemma find_in_leaf_split:
  assumes "s \<le> e" "e \<le> a_size arr" "e \<noteq> npos"
  defines "m \<equiv> if s > 0 then min (s + 4) e else s"
  shows "find_in_leaf lib act callback cond arr v s e baseindex st =
    (case scan (matches cond arr v) (visit act callback arr baseindex) [s..<m] st of
       (False, st) \<Rightarrow> Some (False, st)
     | (True, st) \<Rightarrow>
         if \<not> m < e then Some (True, st)
         else if \<not> can_match cond v (a_lbound arr) (a_ubound arr) then Some (True, st)
         else if will_match cond v (a_lbound arr) (a_ubound arr) then
           Some (all_match lib act callback arr m e baseindex st)
         else compare_array lib act callback cond arr v m e baseindex st)"
proof -
  have m: "(a_size arr > (if s > 0 then s + 4 else s) \<and> (if s > 0 then s + 4 else s) < e) = (m < e)"
    using assms(2) by (auto simp: m_def)
  have m': "m < e \<Longrightarrow> (if s > 0 then s + 4 else s) = m" by (auto simp: m_def)
  have items: "(if s > 0 then first_items act callback cond arr v e baseindex 4 s st else (True, st)) =
      scan (matches cond arr v) (visit act callback arr baseindex) [s..<m] st"
    by (simp add: m_def first_items_scan [OF assms(2)])
  obtain go st1 where s1: "scan (matches cond arr v) (visit act callback arr baseindex) [s..<m] st = (go, st1)"
    by fastforce
  show ?thesis
    unfolding find_in_leaf_def items s1 Let_def m
    using m' assms(3) by (cases go; cases "m < e") simp_all
qed

subsection \<open>Actions that end the loop themselves\<close>

lemma visit_counts:
  assumes "act \<noteq> Act_CallbackIdx" "act \<noteq> Act_Count" "visit act callback arr baseindex i st = (go, st')"
  shows "q_match_count st' = q_match_count st + 1 \<and> q_limit st' = q_limit st \<and> (go \<longrightarrow> q_limit st > q_match_count st + 1)"
  using assms
  by (auto simp: visit_def find_action_def match_optional_def match_value_def Let_def split: array_action.splits if_splits)

lemma scan_reaches_limit:
  assumes "act \<noteq> Act_CallbackIdx" "act \<noteq> Act_Count" "q_match_count st < q_limit st"
    "q_limit st - q_match_count st \<le> length is"
  shows "\<not> fst (scan (\<lambda>_. True) (visit act callback arr baseindex) is st)"
  using assms(3,4)
proof (induction "is" arbitrary: st)
  case (Cons i "is")
  obtain go st1 where v: "visit act callback arr baseindex i st = (go, st1)" by fastforce
  note C = visit_counts [OF assms(1,2) v]
  show ?case
  proof (cases go)
    case True
    with C Cons(2,3) have "q_match_count st1 < q_limit st1" "q_limit st1 - q_match_count st1 \<le> length is" by auto
    then show ?thesis using Cons(1) v True by simp
  qed (simp add: v)
qed simp

lemma all_match_scan:
  assumes "act \<notin> {Act_Sum, Act_Max, Act_Min, Act_Count}" "s \<le> e"
    and "act \<noteq> Act_CallbackIdx \<Longrightarrow> q_match_count st < q_limit st"
  shows "all_match lib act callback arr s e baseindex st =
    scan (\<lambda>_. True) (visit act callback arr baseindex) [s..<e] st"
proof -
  have triv: "(case r of (True, st) \<Rightarrow> (True, st) | (False, st) \<Rightarrow> (False, st)) = r" for r :: "bool \<times> 'a query_state"
    by (auto split: prod.splits bool.splits)
  define process where "process = sz_sub (q_limit st) (q_match_count st)"
  show ?thesis
  proof (cases "act = Act_CallbackIdx \<or> \<not> process < e - s")
    case True
    then show ?thesis
    proof (cases "act = Act_CallbackIdx")
      case False
      then have "\<not> process < e - s" using True by simp
      then show ?thesis using assms(1) by (simp add: all_match_def Let_def triv process_def [symmetric])
    qed (simp add: all_match_def Let_def triv)
  next
    case False
    have p: "process = q_limit st - q_match_count st" "q_match_count st < q_limit st"
      using assms(3) False by (simp_all add: process_def sz_sub_le)
    let ?scan = "scan (\<lambda>_. True) (visit act callback arr baseindex)"
    have "\<not> fst (?scan [s..<s + process] st)"
      using assms(1) False p by (intro scan_reaches_limit) auto
    then have "?scan [s..<e] st = ?scan [s..<s + process] st"
      using scan_split [of s "s + process" e "\<lambda>_. True" "visit act callback arr baseindex" st] False
      by (auto split: prod.splits bool.splits)
    then show ?thesis using assms(1) False by (simp add: all_match_def Let_def triv process_def [symmetric])
  qed
qed

lemma visit_in_limit:
  assumes "act \<noteq> Act_CallbackIdx" "visit act callback arr baseindex i st = (True, st')"
  shows "q_match_count st' < q_limit st'"
  using assms
  by (auto simp: visit_def find_action_def match_optional_def match_value_def Let_def split: array_action.splits if_splits)

lemma scan_in_limit:
  assumes "act \<noteq> Act_CallbackIdx" "q_match_count st < q_limit st"
    "scan test (visit act callback arr baseindex) is st = (True, st')"
  shows "q_match_count st' < q_limit st'"
  using assms(3,2) by (rule scan_invariant [rotated]) (auto intro: visit_in_limit [OF assms(1)])

theorem find_in_leaf_scan:
  assumes "array_ok arr" "lib_ok lib" "count_ok act st" "s \<le> e" "e \<le> a_size arr" "e \<noteq> npos"
    and "act \<noteq> Act_CallbackIdx \<Longrightarrow> q_match_count st < q_limit st"
    and "act \<in> {Act_Sum, Act_Max, Act_Min, Act_Count} \<Longrightarrow> \<not> will_match cond v (a_lbound arr) (a_ubound arr)"
  shows "find_in_leaf lib act callback cond arr v s e baseindex st =
    Some (scan (matches cond arr v) (visit act callback arr baseindex) [s..<e] st)"
proof -
  define m where "m = (if s > 0 then min (s + 4) e else s)"
  have le: "s \<le> m" "m \<le> e" using assms(4) by (auto simp: m_def)
  obtain go st1 where s1: "scan (matches cond arr v) (visit act callback arr baseindex) [s..<m] st = (go, st1)" by fastforce
  note split = scan_split [OF le, of "matches cond arr v" "visit act callback arr baseindex" st, unfolded s1]
  note from_eq = find_in_leaf_split [OF assms(4-6), folded m_def, of lib act callback cond v baseindex st, unfolded s1]
  show ?thesis
  proof (cases "go \<and> m < e")
    case False
    then show ?thesis unfolding from_eq split using le by (cases go) simp_all
  next
    case True
    then have s2: "scan (matches cond arr v) (visit act callback arr baseindex) [s..<m] st = (True, st1)" using s1 by simp
    have ok: "count_ok act st1" by (rule scan_count_ok [OF s2 assms(3)])
    have limit: "q_match_count st1 < q_limit st1" if "act \<noteq> Act_CallbackIdx"
      using scan_in_limit [OF that assms(7) [OF that] s2] .
    consider "\<not> can_match cond v (a_lbound arr) (a_ubound arr)"
      | "can_match cond v (a_lbound arr) (a_ubound arr)" "will_match cond v (a_lbound arr) (a_ubound arr)"
      | "can_match cond v (a_lbound arr) (a_ubound arr)" "\<not> will_match cond v (a_lbound arr) (a_ubound arr)" by blast
    then show ?thesis
    proof cases
      case 1
      then have "scan (matches cond arr v) (visit act callback arr baseindex) [m..<e] st1 = (True, st1)"
        by (intro scan_none) (simp add: no_match [OF assms(1)])
      then show ?thesis unfolding from_eq split using True 1 by simp
    next
      case 2
      then have "act \<notin> {Act_Sum, Act_Max, Act_Min, Act_Count}" using assms(8) by blast
      then have "all_match lib act callback arr m e baseindex st1 =
          scan (\<lambda>_. True) (visit act callback arr baseindex) [m..<e] st1"
        using le limit by (intro all_match_scan) auto
      also have "\<dots> = scan (matches cond arr v) (visit act callback arr baseindex) [m..<e] st1"
        by (rule scan_cong) (simp_all add: all_matches [OF assms(1) 2(2)])
      finally show ?thesis unfolding from_eq split using True 2 by simp
    next
      case 3
      then show ?thesis unfolding from_eq split
        using True compare_array_scan [OF assms(1,2) ok le(2) 3] by simp
    qed
  qed
qed

end
