(* ===== verification/Array_Results.thy ===== *)
theory Array_Results
  imports Array_Search
begin

section \<open>Queries that compute one number\<close>

text \<open>
  Count, sum, greatest and least: the state of a query after the search is the matching elements
  put together one by one, also where the search takes the number from the bounds of the array or
  from its aggregates. \<open>accumulate\<close> is what one element does to the state.
\<close>

definition number_actions :: "array_action set" where
  "number_actions = {Act_Sum, Act_Max, Act_Min, Act_Count}"

definition accumulate :: "array_action \<Rightarrow> int \<Rightarrow> int \<Rightarrow> int" where
  "accumulate act v s =
     (case act of
        Act_Sum \<Rightarrow> wrap64 (s + v)
      | Act_Max \<Rightarrow> max s v
      | Act_Min \<Rightarrow> min s v
      | Act_Count \<Rightarrow> wrap64 (s + 1)
      | _ \<Rightarrow> s)"

subsection \<open>The plain loop\<close>

lemma visit_number:
  assumes "act \<in> number_actions" "count_ok act st" "q_match_count st + 1 < q_limit st"
  shows "\<exists>st'. visit act callback arr baseindex i st = (True, st') \<and>
    q_state st' = accumulate act (array_get arr i) (q_state st) \<and>
    q_match_count st' = q_match_count st + 1 \<and> q_limit st' = q_limit st"
proof (cases "act = Act_Count")
  case True
  then show ?thesis using assms by (simp add: visit_count accumulate_def)
next
  case False
  then show ?thesis using assms
    by (auto simp: number_actions_def visit_def find_action_def match_optional_def match_value_def
        accumulate_def Let_def max_def min_def)
qed

lemma scan_number:
  assumes "act \<in> number_actions" "count_ok act st" "q_match_count st + length is < q_limit st"
  shows "\<exists>st'. scan test (visit act callback arr baseindex) is st = (True, st') \<and>
    q_state st' = fold (accumulate act) (map (array_get arr) (filter test is)) (q_state st) \<and>
    q_match_count st' \<le> q_match_count st + length is \<and> q_limit st' = q_limit st"
  using assms(2,3)
proof (induction "is" arbitrary: st)
  case (Cons i "is")
  show ?case
  proof (cases "test i")
    case True
    have room: "q_match_count st + 1 < q_limit st" using Cons(3) by simp
    obtain st1 where v: "visit act callback arr baseindex i st = (True, st1)"
      and st1: "q_state st1 = accumulate act (array_get arr i) (q_state st)"
        "q_match_count st1 = q_match_count st + 1" "q_limit st1 = q_limit st"
      using visit_number [OF assms(1) Cons(2) room] by blast
    have ok: "count_ok act st1" by (rule visit_count_ok [OF v Cons(2)])
    have "q_match_count st1 + length is < q_limit st1" using Cons(3) st1 by simp
    then show ?thesis using Cons(1) [OF ok] True v st1 by auto
  next
    case False
    have "q_match_count st + length is < q_limit st" using Cons(3) by simp
    then show ?thesis using Cons(1) [OF Cons(2)] False by auto
  qed
qed simp

subsection \<open>The aggregates\<close>

lemma wrap64_add: "wrap64 (i + wrap64 j) = wrap64 (i + j)"
  using wrap64_wrap64 [of j i] by (simp add: add.commute)

lemma fold_sum:
  "xs \<noteq> [] \<Longrightarrow> fold (accumulate Act_Sum) xs s = wrap64 (s + sum_list xs)"
  by (induction xs arbitrary: s rule: list_nonempty_induct) (simp_all add: accumulate_def wrap64_add algebra_simps)

lemma fold_count:
  "xs \<noteq> [] \<Longrightarrow> fold (accumulate Act_Count) xs s = wrap64 (s + int (length xs))"
  by (induction xs arbitrary: s rule: list_nonempty_induct) (simp_all add: accumulate_def wrap64_add algebra_simps)

lemma fold_max: "xs \<noteq> [] \<Longrightarrow> fold (accumulate Act_Max) xs s = max s (Max (set xs))"
  by (induction xs arbitrary: s rule: list_nonempty_induct) (simp_all add: accumulate_def max.assoc)

lemma fold_min: "xs \<noteq> [] \<Longrightarrow> fold (accumulate Act_Min) xs s = min s (Min (set xs))"
  by (induction xs arbitrary: s rule: list_nonempty_induct) (simp_all add: accumulate_def min.assoc)

lemma all_match_number:
  assumes "act \<in> number_actions" "aggregates_ok lib arr" "m < e" "e \<le> a_size arr"
    and "q_match_count st + (e - m) \<le> q_limit st"
  shows "\<exists>st'. all_match lib act callback arr m e baseindex st = (True, st') \<and>
    q_state st' = fold (accumulate act) (map (array_get arr) [m..<e]) (q_state st)"
proof -
  let ?xs = "map (array_get arr) [m..<e]"
  have ne: "?xs \<noteq> []" using assms(3) by simp
  have process: "\<not> sz_sub (q_limit st) (q_match_count st) < e - m" using assms(5) by (simp add: sz_sub_def)
  obtain mx mi where mx: "array_maximum lib arr m e = (mx, mi)" by fastforce
  obtain mn ni where mn: "array_minimum lib arr m e = (mn, ni)" by fastforce
  have agg: "array_sum lib arr m e = wrap64 (sum_list ?xs)" "mx = Max (set ?xs)" "mn = Min (set ?xs)"
    using assms(2) [unfolded aggregates_ok_def, rule_format, OF assms(3,4)] mx mn by simp_all
  note defs = all_match_def Let_def find_action_def match_optional_def match_value_def
  from assms(1) consider "act = Act_Sum" | "act = Act_Max" | "act = Act_Min" | "act = Act_Count"
    by (auto simp: number_actions_def)
  then show ?thesis
  proof cases
    case 1
    then show ?thesis by (simp add: defs process agg(1) fold_sum [OF ne] wrap64_add del: upt_Suc)
  next
    case 2
    have "fold (accumulate Act_Max) ?xs (q_state st) = max (q_state st) mx" by (simp only: fold_max [OF ne] agg)
    with 2 show ?thesis by (simp add: defs process mx max_def)
  next
    case 3
    have "fold (accumulate Act_Min) ?xs (q_state st) = min (q_state st) mn" by (simp only: fold_min [OF ne] agg)
    with 3 show ?thesis by (simp add: defs process mn min_def)
  next
    case 4
    then show ?thesis using fold_count [OF ne, of "q_state st"] by (simp add: defs process)
  qed
qed

lemma find_in_leaf_number:
  assumes "array_ok arr" "lib_ok lib" "aggregates_ok lib arr" "act \<in> number_actions"
    and "count_ok act st" "s \<le> e" "e \<le> a_size arr" "e \<noteq> npos" "q_match_count st + (e - s) < q_limit st"
  shows "\<exists>go st'. find_in_leaf lib act callback cond arr v s e baseindex st = Some (go, st') \<and>
    q_state st' = fold (accumulate act) (map (array_get arr) (filter (matches cond arr v) [s..<e])) (q_state st)"
proof (cases "will_match cond v (a_lbound arr) (a_ubound arr)")
  case False
  have "q_match_count st < q_limit st" using assms(9) by simp
  then have "find_in_leaf lib act callback cond arr v s e baseindex st =
      Some (scan (matches cond arr v) (visit act callback arr baseindex) [s..<e] st)"
    using False by (intro find_in_leaf_scan [OF assms(1,2,5-8)]) simp_all
  then show ?thesis using scan_number [OF assms(4,5), of "[s..<e]" "matches cond arr v"] assms(9) by fastforce
next
  case True
  note all = all_matches [OF assms(1) True]
  define m where "m = (if s > 0 then min (s + 4) e else s)"
  have le: "s \<le> m" "m \<le> e" using assms(6) by (auto simp: m_def)
  have all_filter: "filter (matches cond arr v) xs = xs" for xs by (simp add: all)
  have "m - s \<le> e - s" using le by simp
  then have room: "q_match_count st + length [s..<m] < q_limit st" using assms(9) by (simp del: add_diff_assoc)
  obtain st1 where s1: "scan (matches cond arr v) (visit act callback arr baseindex) [s..<m] st = (True, st1)"
    and st1: "q_state st1 = fold (accumulate act) (map (array_get arr) [s..<m]) (q_state st)"
      "q_match_count st1 \<le> q_match_count st + (m - s)" "q_limit st1 = q_limit st"
    using scan_number [OF assms(4,5) room, of "matches cond arr v" callback arr baseindex]
    by (auto simp: all_filter)
  note from_eq = find_in_leaf_split [OF assms(6-8), folded m_def, of lib act callback cond v baseindex st, unfolded s1]
  show ?thesis
  proof (cases "m < e")
    case False
    then have "m = e" using le by simp
    then have "find_in_leaf lib act callback cond arr v s e baseindex st = Some (True, st1)" unfolding from_eq by simp
    then show ?thesis using st1 \<open>m = e\<close> by (auto simp: all_filter)
  next
    case m: True
    then have can: "can_match cond v (a_lbound arr) (a_ubound arr)"
      using no_match [OF assms(1)] all by blast
    have "q_match_count st1 + (e - m) \<le> q_limit st1" using st1 assms(9) le by linarith
    then obtain st2 where st2: "all_match lib act callback arr m e baseindex st1 = (True, st2)"
        "q_state st2 = fold (accumulate act) (map (array_get arr) [m..<e]) (q_state st1)"
      using all_match_number [OF assms(4,3) m assms(7)] by blast
    have "[s..<e] = [s..<m] @ [m..<e]" using le by (metis le_add_diff_inverse upt_add_eq_append)
    moreover have "find_in_leaf lib act callback cond arr v s e baseindex st = Some (True, st2)"
      unfolding from_eq using m can True st2 by simp
    ultimately show ?thesis using st2 st1 by (auto simp: all_filter)
  qed
qed

subsection \<open>A query without a limit\<close>

text \<open>The answer that a query is asked for.\<close>

definition answer :: "array_action \<Rightarrow> int list \<Rightarrow> int" where
  "answer act xs =
     (if act = Act_Count then int (length xs)
      else if act = Act_Sum then wrap64 (sum_list xs)
      else if act = Act_Max then if xs = [] then - (2 ^ 63) else Max (set xs)
      else if xs = [] then 2 ^ 63 - 1 else Min (set xs))"

lemma wrap64_id: "- (2 ^ 63) \<le> i \<Longrightarrow> i < 2 ^ 63 \<Longrightarrow> wrap64 i = i"
  by (simp add: wrap64_def signed_take_bit_int_eq_self)

lemma fold_answer:
  assumes "act \<in> number_actions" "length xs < 2 ^ 63" "\<And>x. x \<in> set xs \<Longrightarrow> - (2 ^ 63) \<le> x \<and> x < 2 ^ 63"
  shows "fold (accumulate act) xs (q_state (query_init act limit st)) = answer act xs"
proof (cases "xs = []")
  case True
  then show ?thesis using assms(1)
    by (auto simp: number_actions_def answer_def query_init_def Let_def wrap64_def)
next
  case False
  have "Max (set xs) \<in> set xs" "Min (set xs) \<in> set xs" using False by simp_all
  then have "- (2 ^ 63) \<le> Max (set xs)" "Min (set xs) < 2 ^ 63" using assms(3) by blast+
  then show ?thesis using assms(1,2) False
    by (auto simp: number_actions_def answer_def query_init_def Let_def wrap64_id
        fold_sum fold_count fold_max fold_min)
qed

lemma query_init_count_ok:
  assumes "0 < limit" "limit < 2 ^ 64"
  shows "count_ok act (query_init act limit st)" "q_match_count (query_init act limit st) = 0"
    "q_limit (query_init act limit st) = limit"
  using assms
  by (auto simp: count_ok_def query_init_def Let_def size_of_int64_def split: array_action.splits)

lemma array_get_int64: "array_ok arr \<Longrightarrow> - (2 ^ 63) \<le> array_get arr i \<and> array_get arr i < 2 ^ 63"
proof -
  assume ok: "array_ok arr"
  then have "a_width arr \<in> widths" by (simp add: array_ok_def)
  then have "lbound_for_width (a_width arr) \<ge> - (2 ^ 63)" "ubound_for_width (a_width arr) < 2 ^ 63"
    by (auto simp: widths_def lbound_for_width_def ubound_for_width_def)
  then show ?thesis using array_get_bounds [OF ok, of i] ok by (simp add: array_ok_def)
qed

subsection \<open>A library\<close>

text \<open>Functions that do what \<open>lib_ok\<close> and \<open>aggregates_ok\<close> ask of the parameters; the concrete runs use
  them.\<close>

definition plain_lib :: array_lib where
  "plain_lib =
     \<lparr>fast_popcount64 = (\<lambda>v. length (filter (bit v) [0..<64])),
      first_set_bit64 = (\<lambda>v. length (takeWhile (\<lambda>j. \<not> bit v j) [0..<64])),
      round_up = (\<lambda>p align. (p + align - 1) div align * align),
      over_shift = (\<lambda>v n. v),
      array_sum = (\<lambda>arr s e. wrap64 (sum_list (map (array_get arr) [s..<e]))),
      array_maximum = (\<lambda>arr s e. (fold max (map (array_get arr) [s..<e]) (array_get arr s), 0)),
      array_minimum = (\<lambda>arr s e. (fold min (map (array_get arr) [s..<e]) (array_get arr s), 0))\<rparr>"

lemma first_bit:
  assumes "v \<noteq> (0 :: 64 word)"
  shows "length (takeWhile (\<lambda>j. \<not> bit v j) [0..<64]) = (LEAST j. bit v j)"
proof -
  obtain j where j: "bit v j" using assms by (metis bit_word_eqI bit_0_eq bot_apply bot_bool_def)
  define k where "k = (LEAST j. bit v j)"
  have k: "bit v k" "\<And>i. i < k \<Longrightarrow> \<not> bit v i" unfolding k_def using j by (auto intro: LeastI dest: not_less_Least)
  have "k < 64" using bit_imp_le_length [OF k(1)] by simp
  then have "[0..<64] = [0..<k] @ k # [Suc k..<64]"
    by (metis le_add_diff_inverse less_imp_le upt_add_eq_append upt_conv_Cons zero_le add_0)
  moreover have "takeWhile (\<lambda>j. \<not> bit v j) ([0..<k] @ k # [Suc k..<64]) = [0..<k]"
    using k by (subst takeWhile_append2) auto
  ultimately show ?thesis by (simp add: k_def)
qed

lemma plain_lib_ok: "lib_ok plain_lib"
proof -
  have "length (filter (bit v) [0..<64]) = card {j. bit v j}" for v :: "64 word"
  proof -
    have "{i. i < length [0..<64] \<and> bit v ([0..<64] ! i)} = {j. bit v j}"
    proof -
      have "i < 64" if "bit v i" for i using bit_imp_le_length [OF that] by simp
      then show ?thesis by (auto simp del: upt_rec_numeral)
    qed
    then show ?thesis by (simp only: length_filter_conv_card)
  qed
  moreover have "p \<le> (p + align - 1) div align * align" if "0 < align" for p align :: nat
  proof -
    have "(p + align - 1) div align * align + (p + align - 1) mod align = p + align - 1" by simp
    moreover have "(p + align - 1) mod align < align" using that by simp
    ultimately show ?thesis by linarith
  qed
  ultimately show ?thesis unfolding lib_ok_def plain_lib_def by (simp add: first_bit)
qed

lemma plain_aggregates_ok: "aggregates_ok plain_lib arr"
proof -
  have "Max (array_get arr ` {s..<e}) = fold max (map (array_get arr) [s..<e]) (array_get arr s)"
    "Min (array_get arr ` {s..<e}) = fold min (map (array_get arr) [s..<e]) (array_get arr s)" if "s < e" for s e
  proof -
    have eq: "array_get arr ` {s..<e} = set (array_get arr s # map (array_get arr) [s..<e])" using that by auto
    show "Max (array_get arr ` {s..<e}) = fold max (map (array_get arr) [s..<e]) (array_get arr s)"
      unfolding eq by (simp only: Max.set_eq_fold)
    show "Min (array_get arr ` {s..<e}) = fold min (map (array_get arr) [s..<e]) (array_get arr s)"
      unfolding eq by (simp only: Min.set_eq_fold)
  qed
  then show ?thesis by (simp add: aggregates_ok_def plain_lib_def)
qed

text \<open>Sixteen numbers of four bits, and seven of one byte behind the number that stands for null.\<close>

definition example_array :: int_array where
  "example_array = \<lparr>a_data = [0x21, 0x53, 0x25, 0x00, 0xf7, 0x92, 0x31, 0xd2], a_size = 16, a_width = 4,
     a_lbound = 0, a_ubound = 15\<rparr>"

definition example_nullable :: int_array where
  "example_nullable = \<lparr>a_data = [7, 3, 7, 250, 7, 0, 9, 7], a_size = 8, a_width = 8,
     a_lbound = - 128, a_ubound = 127\<rparr>"

lemma example_sizes [simp]:
  "a_size example_array = 16" "a_lbound example_array = 0" "a_ubound example_array = 15"
  "a_size example_nullable = 8" "a_width example_nullable = 8"
  by (simp_all add: example_array_def example_nullable_def)

lemma example_arrays_ok: "array_ok example_array" "array_ok example_nullable"
  by (simp_all add: array_ok_def example_array_def example_nullable_def widths_def fits_def
      lbound_for_width_def ubound_for_width_def)

end
