(* ===== verification/Array_Props.thy ===== *)
theory Array_Props
  imports Array_Header Array_Results
begin

section \<open>Properties of integer arrays\<close>

text \<open>
  The properties of the arrays in which Realm keeps everything: an array is a list of integers
  (\<open>get_direct\<close>, \<open>set_direct\<close>), its header is read as it was written, the binary searches are those
  of the standard library, and a search over an array is the plain loop over its elements, whatever
  words, bit patterns, bounds and aggregates the code uses on the way. Two theorems at the end show
  where the search does not do what its comments say.
\<close>

subsection \<open>Elements\<close>

lemma elements_direct: "w \<in> widths \<Longrightarrow> map (get_direct w data) [0..<n] = elements w data n"
  by (simp add: elements_def get_direct_element)

text \<open>C33: For each of the eight widths an array is a list of integers: writing a number in the range
  of the width to one position and reading everything back gives the list with that position
  updated, and filling a range gives the list with that range replaced.\<close>

theorem array_is_list:
  assumes "w \<in> widths" "fits w data n" "storable w v" "i < n" "i \<le> j" "j \<le> n"
  shows "let xs = map (get_direct w data) [0..<n] in
    map (get_direct w (set_direct w data i v)) [0..<n] = xs[i := v] \<and>
    map (get_direct w (fill_direct w data i j v)) [0..<n] = take i xs @ replicate (j - i) v @ drop j xs"
  using assms by (simp add: elements_direct elements_set_direct elements_fill_direct)

lemma array_is_list_witness:
  "let xs = map (get_direct 16 [0x34, 0x12, 0xff, 0xff, 0x00, 0x80]) [0..<3] in
   xs = [0x1234, - 1, - 32768] \<and>
   map (get_direct 16 (set_direct 16 [0x34, 0x12, 0xff, 0xff, 0x00, 0x80] 1 (- 2))) [0..<3] = xs[1 := - 2] \<and>
   map (get_direct 16 (fill_direct 16 [0x34, 0x12, 0xff, 0xff, 0x00, 0x80] 1 3 (- 2))) [0..<3] =
     take 1 xs @ replicate (3 - 1) (- 2) @ drop 3 xs"
proof -
  have "map (get_direct 16 [0x34, 0x12, 0xff, 0xff, 0x00, 0x80]) [0..<3] = [0x1234, - 1, - 32768]" by code_simp
  then show ?thesis
    using array_is_list [of 16 "[0x34, 0x12, 0xff, 0xff, 0x00, 0x80]" 3 "- 2" 1 3]
    by (simp add: widths_def fits_def storable_def lbound_for_width_def ubound_for_width_def Let_def)
qed

text \<open>C34: The binary searches of an array return what \<open>std::lower_bound\<close> and \<open>std::upper_bound\<close> return
  on its elements, if these are sorted: the first position whose element is not less than the
  number, and the first whose element is greater.\<close>

theorem binary_searches:
  assumes "w \<in> widths" "sorted (map (get_direct w data) [0..<n])"
  shows "lower_bound_direct w data n v = find_if (\<lambda>x. \<not> x < v) (map (get_direct w data) [0..<n]) \<and>
    upper_bound_direct w data n v = find_if (\<lambda>x. x > v) (map (get_direct w data) [0..<n])"
proof -
  have xs: "sorted (elements w data n)" using assms by (simp add: elements_direct)
  show ?thesis
    using bound_find_if [OF assms(1) xs, of "\<lambda>x. x < v"] bound_find_if [OF assms(1) xs, of "\<lambda>x. v \<ge> x"]
    by (simp add: elements_direct [OF assms(1)] lower_bound_direct_def upper_bound_direct_def not_le)
qed

lemma binary_searches_witness:
  "lower_bound_direct 4 [0x21, 0x53, 0x95] 6 5 = 3 \<and> upper_bound_direct 4 [0x21, 0x53, 0x95] 6 5 = 5"
proof -
  have "map (get_direct 4 [0x21, 0x53, 0x95]) [0..<6] = [1, 2, 3, 5, 5, 9]" by code_simp
  then show ?thesis
    using binary_searches [of 4 "[0x21, 0x53, 0x95]" 6 5] by (simp add: widths_def find_if_def)
qed

subsection \<open>Headers\<close>



subsection \<open>Searches\<close>





text \<open>The search of a nullable array for a number or for nulls is that of a plain array for a number,
  from the second element on.\<close>

lemma find_optimized_equal:
  assumes "array_ok arr" "lib_ok lib" "0 < a_size arr" "a_size arr < npos"
    and "e = (if end_i = npos then a_size arr - 1 else end_i)" "s \<le> e" "e < a_size arr"
    and "count_ok act st" "act \<noteq> Act_CallbackIdx \<Longrightarrow> q_match_count st < q_limit st"
    and "act \<in> number_actions \<Longrightarrow> a_width arr \<noteq> 0"
    and "find_null \<or> v \<noteq> array_get arr 0" "needle = (if find_null then array_get arr 0 else v)"
  shows "find_optimized lib act callback Cond_Equal arr v s end_i baseindex True find_null st =
    Some (scan (matches Cond_Equal arr needle) (visit act callback arr (sz_sub baseindex 1)) [s + 1..<e + 1] st)"
proof -
  have will: "\<not> will_match Cond_Equal needle (a_lbound arr) (a_ubound arr)" if "a_width arr \<noteq> 0"
  proof -
    have "a_ubound arr \<noteq> 0"
      using assms(1) that by (auto simp: array_ok_def widths_def ubound_for_width_def)
    then show ?thesis by (simp add: will_match_def)
  qed
  have "find_in_leaf lib act callback Cond_Equal arr needle (s + 1) (e + 1) (sz_sub baseindex 1) st =
    Some (scan (matches Cond_Equal arr needle) (visit act callback arr (sz_sub baseindex 1)) [s + 1..<e + 1] st)"
    using assms(1-10) will by (intro find_in_leaf_scan) (auto simp: number_actions_def)
  moreover have "find_optimized lib act callback Cond_Equal arr v s end_i baseindex True find_null st =
      find_in_leaf lib act callback Cond_Equal arr needle (s + 1) (e + 1) (sz_sub baseindex 1) st"
  proof -
    have "sz_sub (a_size arr) 1 = a_size arr - 1" using assms(3) by (simp add: sz_sub_def)
    then show ?thesis unfolding find_optimized_def Let_def assms(5,12)
      using assms(11) by (cases find_null) simp_all
  qed
  ultimately show ?thesis by simp
qed



subsection \<open>Answers\<close>

text \<open>C38: A query for the number of matches, their sum, the greatest or the least, without a limit, has
  the answer for the list of the matching elements of the range, whether the search reads them all,
  takes them word by word or leaves them to the aggregates of the array; if nothing matches, this is
  the initial value of the state.\<close>

theorem number_query:
  assumes "array_ok arr" "lib_ok lib" "aggregates_ok lib arr" "act \<in> number_actions"
    and "a_size arr < 2 ^ 63" "s \<le> e" "e \<le> a_size arr"
  shows "\<exists>go st'. find_optimized lib act callback cond arr v s e baseindex False False (query_init act npos st) = Some (go, st') \<and>
    q_state st' = answer act (filter (\<lambda>x. holds cond x v False False) (map (array_get arr) [s..<e]))"
proof -
  let ?st = "query_init act npos st"
  let ?xs = "filter (\<lambda>x. holds cond x v False False) (map (array_get arr) [s..<e])"
  have xs: "?xs = map (array_get arr) (filter (matches cond arr v) [s..<e])"
    by (simp add: filter_map comp_def matches_def [abs_def])
  have ne: "e \<noteq> npos" using assms(5,7) by (simp add: npos_def)
  have limit: "0 < npos" "npos < 2 ^ 64" by (simp_all add: npos_def)
  note init = query_init_count_ok [OF limit, of act st]
  have "e - s < npos" using assms(5,7) by (simp add: npos_def)
  then have room: "q_match_count ?st + (e - s) < q_limit ?st" by (simp add: init)
  obtain go st' where find: "find_in_leaf lib act callback cond arr v s e baseindex ?st = Some (go, st')"
    and state: "q_state st' = fold (accumulate act) ?xs (q_state ?st)"
    using find_in_leaf_number [OF assms(1-4) init(1) assms(6,7) ne room] unfolding xs by blast
  have "length ?xs \<le> length (map (array_get arr) [s..<e])" by (rule length_filter_le)
  then have "length ?xs < 2 ^ 63" using assms(5,7) by simp
  then have "fold (accumulate act) ?xs (q_state ?st) = answer act ?xs"
    using array_get_int64 [OF assms(1)] by (intro fold_answer [OF assms(4)]) auto
  then show ?thesis using find state ne by (simp add: find_optimized_def)
qed

lemma number_query_witness:
  "\<exists>go st'. find_optimized plain_lib Act_Max callback_dummy Cond_Less example_array 9 0 16 0 False False
     (query_init Act_Max npos \<lparr>q_state = 0, q_match_count = 0, q_limit = 0, q_minmax_index = 0, q_akku = [], q_env = ()\<rparr>)
     = Some (go, st') \<and> q_state st' = 7"
proof -
  let ?st = "\<lparr>q_state = 0, q_match_count = 0, q_limit = 0, q_minmax_index = 0, q_akku = [], q_env = ()\<rparr>"
  have "answer Act_Max (filter (\<lambda>x. holds Cond_Less x 9 False False) (map (array_get example_array) [0..<16])) = 7"
    by code_simp
  moreover have "Act_Max \<in> number_actions" by (simp add: number_actions_def)
  ultimately show ?thesis
    using number_query [OF example_arrays_ok(1) plain_lib_ok plain_aggregates_ok, of Act_Max 0 16 callback_dummy
        Cond_Less 9 0 ?st] by simp
qed





subsection \<open>Where the search is not what the comments say\<close>

text \<open>C39: A query that counts up to a limit forgets to add the elements to the number of matches when
  the bounds of a leaf show that all match: it tells its caller to go on, and after two such leaves,
  each with at least as many elements as the limit, the count is twice the limit.\<close>

theorem count_overruns_limit:
  assumes "array_ok a1" "array_ok a2" "will_match cond v (a_lbound a1) (a_ubound a1)"
    "will_match cond v (a_lbound a2) (a_ubound a2)"
    and "0 < k" "k \<le> a_size a1" "k \<le> a_size a2" "a_size a1 < npos" "a_size a2 < npos" "2 * k < 2 ^ 63"
  shows "\<exists>st1 st2.
    find_optimized lib Act_Count callback cond a1 v 0 npos b1 False False (query_init Act_Count k st) = Some (True, st1) \<and>
    find_optimized lib Act_Count callback cond a2 v 0 npos b2 False False st1 = Some (True, st2) \<and>
    q_limit st2 = k \<and> size_of_int64 (q_state st2) = 2 * k"
proof -
  have step: "find_optimized lib Act_Count callback cond a v 0 npos b False False st =
      Some (True, st\<lparr>q_state := wrap64 (q_state st + int k)\<rparr>)"
    if "array_ok a" "will_match cond v (a_lbound a) (a_ubound a)" "k \<le> a_size a" "a_size a < npos"
      "q_limit st = k" "q_match_count st = 0" for a b and st :: "'a query_state"
  proof -
    have "can_match cond v (a_lbound a) (a_ubound a)"
      using no_match [OF that(1)] all_matches [OF that(1,2)] by blast
    then show ?thesis using that assms(5)
      by (auto simp: find_optimized_def find_in_leaf_def all_match_def sz_sub_def Let_def)
  qed
  let ?st = "query_init Act_Count k st"
  have init: "q_limit ?st = k" "q_match_count ?st = 0" "q_state ?st = 0" by (simp_all add: query_init_def Let_def)
  have "size_of_int64 (wrap64 (int k + int k)) = 2 * k"
    using assms(10) by (simp add: size_of_wrap64 take_bit_int_eq_self)
  then show ?thesis
    using assms init by (simp add: step)
qed

lemma count_overruns_limit_witness:
  "\<exists>st1 st2.
    find_optimized plain_lib Act_Count callback_dummy Cond_NotEqual example_array 99 0 npos 0 False False
      (query_init Act_Count 5 \<lparr>q_state = 0, q_match_count = 0, q_limit = 0, q_minmax_index = 0, q_akku = [], q_env = ()\<rparr>)
      = Some (True, st1) \<and>
    find_optimized plain_lib Act_Count callback_dummy Cond_NotEqual example_array 99 0 npos 16 False False st1 = Some (True, st2) \<and>
    q_limit st2 = 5 \<and> size_of_int64 (q_state st2) = 2 * 5"
  by (rule count_overruns_limit)
    (simp_all add: example_arrays_ok will_match_def npos_def)

text \<open>A search for nulls in a nullable array gives the placeholder to the action, so that the sum
  over the nulls is the placeholder times their number, although the code says that nulls have no
  effect on a sum.\<close>

theorem nulls_are_summed:
  assumes "array_ok arr" "lib_ok lib" "a_width arr \<noteq> 0" "0 < a_size arr" "a_size arr < 2 ^ 63"
  shows "\<exists>go st'. find_optimized lib Act_Sum callback Cond_Equal arr v 0 npos baseindex True True
      (query_init Act_Sum npos st) = Some (go, st') \<and>
    q_state st' = wrap64 (int (length (filter (\<lambda>i. array_get arr (i + 1) = array_get arr 0) [0..<a_size arr - 1]))
      * array_get arr 0)"
proof -
  let ?st = "query_init Act_Sum npos st"
  let ?null = "\<lambda>i. array_get arr (i + 1) = array_get arr 0"
  let ?nulls = "filter (matches Cond_Equal arr (array_get arr 0)) [0 + 1..<a_size arr - 1 + 1]"
  have size: "a_size arr < npos" using assms(5) by (simp add: npos_def)
  have init: "q_match_count ?st = 0" "q_limit ?st = npos" "q_state ?st = 0" "count_ok Act_Sum ?st"
    by (simp_all add: query_init_def Let_def count_ok_def)
  have room: "q_match_count ?st + length [0 + 1..<a_size arr - 1 + 1] < q_limit ?st" using size by (simp add: init del: upt_Suc)
  have "find_optimized lib Act_Sum callback Cond_Equal arr v 0 npos baseindex True True ?st =
    Some (scan (matches Cond_Equal arr (array_get arr 0)) (visit Act_Sum callback arr (sz_sub baseindex 1))
      [0 + 1..<a_size arr - 1 + 1] ?st)"
    using assms size init by (intro find_optimized_equal) simp_all
  moreover obtain st' where "scan (matches Cond_Equal arr (array_get arr 0)) (visit Act_Sum callback arr (sz_sub baseindex 1))
      [0 + 1..<a_size arr - 1 + 1] ?st = (True, st')"
    "q_state st' = fold (accumulate Act_Sum) (map (array_get arr) ?nulls) 0"
    using scan_number [OF _ init(4) room] init(3) by (fastforce simp: number_actions_def)
  moreover have "map (array_get arr) ?nulls = replicate (length ?nulls) (array_get arr 0)"
    by (rule replicate_eqI) (auto simp: matches_def holds_def)
  moreover have "length ?nulls = length (filter ?null [0..<a_size arr - 1])"
  proof -
    have "[0 + 1..<a_size arr - 1 + 1] = map Suc [0..<a_size arr - 1]" by (simp add: map_Suc_upt)
    then show ?thesis by (simp add: filter_map comp_def matches_def holds_def)
  qed
  moreover have "fold (accumulate Act_Sum) (replicate n p) 0 = wrap64 (int n * p)" for n p
    using fold_sum [of "replicate n p" 0] by (cases n) (simp_all add: sum_list_replicate wrap64_def distrib_right)
  ultimately show ?thesis by (auto simp del: upt_Suc)
qed

lemma nulls_are_summed_witness:
  "\<exists>go st'. find_optimized plain_lib Act_Sum callback_dummy Cond_Equal example_nullable 0 0 npos 0 True True
     (query_init Act_Sum npos \<lparr>q_state = 0, q_match_count = 0, q_limit = 0, q_minmax_index = 0, q_akku = [], q_env = ()\<rparr>)
     = Some (go, st') \<and> q_state st' = 21"
proof -
  have "wrap64 (int (length (filter (\<lambda>i. array_get example_nullable (i + 1) = array_get example_nullable 0) [0..<8 - 1]))
      * array_get example_nullable 0) = 21" by code_simp
  then show ?thesis
    using nulls_are_summed [OF example_arrays_ok(2) plain_lib_ok]
    by simp
qed

end
