(* ===== verification/Spec2Isabelle.thy ===== *)
theory Spec2Isabelle
  imports Index_Set_Props Change_Props Transact_Props Convenient_Props Observer_Props Schema_Props Apply_Props
    Session_Props Notifier_Props Progress_Notifier Array_Props
begin

text \<open>
  A verification development for the C++ object store of Realm, the data layer of the
  application in this repository (\<open>src/FinalProject/Pods/Realm\<close>; paths below are relative to
  it, \<open>ObjectStore\<close> standing for \<open>Realm/ObjectStore/src\<close>).

  \<^bold>\<open>The program.\<close> Every write to a Realm file is described by a transaction log, a sequence of
  bytes that the storage engine writes through an encoder
  (\<open>include/core/realm/impl/transact_log.hpp\<close>). Whoever wants to know what a transaction did parses
  the log again with a handler of its own. A rollback parses it with a handler that writes the
  inverse log. A thread that advances to a new version parses it with a handler
  (\<open>ObjectStore/impl/transact_log_handler.cpp\<close>) that records, for every table and list that is
  observed, which rows were inserted, deleted, modified and moved. The recording is the
  \<open>CollectionChangeBuilder\<close> (\<open>ObjectStore/impl/collection_change_builder.cpp\<close>), which is made of four
  \<open>IndexSet\<close>s (\<open>ObjectStore/index_set.cpp\<close>): sets of row numbers, stored as chunks of disjoint ranges.
  Before any of this, the classes that the application declares are validated and compared with
  those in the file (\<open>ObjectStore/object_schema.cpp\<close>, \<open>schema.cpp\<close>, \<open>object_store.cpp\<close>), and the schema
  mode decides what may be changed (\<open>ObjectStore/shared_realm.cpp\<close>); the changes are then applied
  to the tables of the file. When a transaction is over, the notifiers of the observed queries and
  lists package its changes and call the application back
  (\<open>ObjectStore/impl/collection_notifier.cpp\<close>). A file that is shared with a server has a
  \<open>SyncSession\<close> (\<open>ObjectStore/sync/sync_session.cpp\<close>), a state machine between the application and the
  synchronisation client. All data of a file is in nodes of the storage engine that are arrays of
  integers (\<open>include/core/realm/array.hpp\<close>); the part of the engine that reads, searches and labels
  them is in its headers.

  \<^bold>\<open>Theories and the code they model.\<close>

  \<^item> \<open>Prelude\<close>: the reading of \<open>size_t\<close>, the collections of rules, facts about lists.

  \<^item> \<open>Range_Vector\<close>: \<open>ChunkedRangeVector\<close>, its iterators and its builder. An iterator is a pair of a
    chunk number and an offset; a chunk is a record with its ranges and its cached \<open>begin\<close>, \<open>end\<close>
    and \<open>count\<close>. \<open>Index_Set\<close> has the operations of \<open>IndexSet\<close>; \<open>Index_Set_Edit\<close>, \<open>Index_Set_Erase\<close>
    and \<open>Index_Set_Bulk\<close> prove for each of them, loop by loop, what it does to the set of rows.
    \<open>Index_Rows\<close> is that abstract level (sets of numbers, their rank and closing of gaps), and
    \<open>Index_Set_Props\<close> holds the properties.

  \<^item> \<open>Change_Builder\<close>: \<open>CollectionChangeSet\<close> and every operation of \<open>CollectionChangeBuilder\<close>.
    \<open>List_Edit\<close> says on plain lists what it means that deleting and inserting rows turns an old
    list into a new one; \<open>Row_Sets\<close> is the interface between builder and index sets, as locales
    that are interpreted on \<open>IndexSet\<close>; \<open>Change_Edits\<close>, \<open>Change_Rows\<close> and \<open>Change_Calculate\<close> prove the
    operations on lists, on table rows and the comparison of two sequences; \<open>Change_Props\<close> holds
    the properties.

  \<^item> \<open>Varint\<close>: \<open>encode_int\<close> and \<open>read_int\<close>, template by template argument. \<open>Log_Input\<close>: the buffered
    input of the parser. \<open>Transact_Encode\<close>: one constructor per method of the handler interface
    and one definition per method of \<open>TransactLogEncoder\<close>. \<open>Transact_Parse\<close>: \<open>TransactLogParser\<close>.
    \<open>Transact_Roundtrip\<close>: what is written is read back. \<open>Transact_Reverse\<close>: \<open>TransactReverser\<close>.
    \<open>Transact_Convenient\<close>: \<open>TransactLogConvenientEncoder\<close>, which selects the table, descriptor or
    list an instruction is about and caches the selection; \<open>Convenient_Log\<close> specifies it without
    caches. \<open>Transact_Props\<close> and \<open>Convenient_Props\<close> hold the properties.

  \<^item> \<open>Callback_List\<close>: adding, removing and walking the callbacks of \<open>CollectionNotifier\<close>, over any
    per-callback data; \<open>Collection_Notifier\<close>: the data the class really keeps, its hand-over from
    the background thread (\<open>add_changes\<close>, \<open>package_for_delivery\<close>) and its deliveries;
    \<open>Notifier_Props\<close> holds the properties. The contract between the walk and the steps that prepare
    and finish a delivery is the locale \<open>notifier_operations\<close>. \<open>Progress_Notifier\<close> is
    \<open>SyncProgressNotifier\<close>.

  \<^item> \<open>Transact_Observer\<close>: \<open>TransactLogValidator\<close> and \<open>TransactLogObserver\<close>, handlers over a state
    record; \<open>KVO_Adapter\<close>: \<open>KVOAdapter\<close>. \<open>Observer_Rows\<close> and \<open>Observer_Lists\<close> relate the state to the
    rows of the tables and to the lists; \<open>Observer_Props\<close> holds the properties.

  \<^item> \<open>Std_Algorithms\<close>: the algorithms of the C++ library that the schema code calls.
    \<open>Property_Type\<close>: \<open>PropertyType\<close>, a byte with two flags, and \<open>Property\<close> (\<open>include/property.hpp\<close>).
    \<open>Object_Schema\<close>: \<open>ObjectSchema\<close>, and how it is read from a file. \<open>Schema_Compare\<close>: \<open>Schema\<close>, its
    search and \<open>compare\<close>. \<open>Schema_Validate\<close>: \<open>validate\<close>. \<open>Schema_Modes\<close>: the verifiers of
    \<open>object_store.cpp\<close> and the decisions of \<open>Realm\<close> that depend on \<open>SchemaMode\<close>. \<open>Schema_Lemmas\<close> and
    \<open>Schema_Props\<close> hold lemmas and properties. \<open>Schema_Apply\<close>: the functions of \<open>object_store.cpp\<close>
    that carry the changes out, table by table and column by column. They call the storage engine
    through the record \<open>db\<close> of its functions; \<open>engine_ok\<close> is what its documentation promises of them,
    and \<open>Memory_Engine\<close> is an engine in memory that keeps the promises, for the running examples.
    \<open>Apply_Lemmas\<close> and \<open>Apply_Props\<close> follow the changes through to the schema that is read back.

  \<^item> \<open>Sync_Config\<close>: the errors and configurations of synchronisation and what a session hands to the
    client when it creates it. \<open>Sync_Session\<close>: \<open>SyncSession\<close> with its four states. What the code does
    while it holds the mutex of the session is one step, a function from the session to the new
    session, the calls it makes outside (to the synchronisation client, the user, the manager, the
    callbacks of the application) and the work it leaves to do without the lock; threads take
    such steps in any order (\<open>move_world\<close>, \<open>reachable\<close>). \<open>Session_Lemmas\<close> has the invariant of the
    session and what each step does, \<open>Session_World\<close> the invariants of the threads together, and
    \<open>Session_Props\<close> the properties.

  \<^item> \<open>Array_Direct\<close>: an element of 0 to 64 bits in the bytes of an array (\<open>array_direct.hpp\<close>:
    \<open>get_direct\<close>, \<open>set_direct\<close>, the binary searches); \<open>Array_Header\<close>: the fields of the eight bytes
    in front of them, and tagged integers. \<open>Array_Lanes\<close>: the arithmetic on 64 bits that finds out
    which of the elements in a word are zero or greater than a number. \<open>Array_Find\<close>: \<open>Array::find\<close>
    with its conditions (\<open>query_conditions.hpp\<close>), actions and the state of a query, in the variant
    without SSE instructions. \<open>Array_Find_Lemmas\<close> and \<open>Array_Search\<close> reduce the loops over words to
    a plain loop over elements (\<open>scan\<close>), \<open>Array_Results\<close> computes the answers of aggregates from it,
    and \<open>Array_Props\<close> holds the properties.

  \<^bold>\<open>What is shown.\<close> For index sets: the invariant of the representation, the set of rows every
  operation computes, and that renumbering by a set and back are inverse. For the change
  builder: from whatever sequence of operations, the change set is an edit from the old rows to
  the new ones, its moves are real and exactly the modified rows are marked; the comparison of
  two sequences ends and yields an edit. For the log: integers, calls and whole sessions survive
  the trip through the bytes, the encoder stays in the space it reserved, the reader makes
  progress on any input, and a rollback gets the inverses in reverse order, each under its
  selection. For the observer: at the end of the log the builder of every observed table and
  list is the record of its changes. For schemas: search, validation and comparison compute
  what they should, in an order in which changes can be applied, and every mode that may write accepts
  exactly what it is meant for; applying the changes to a file leaves the declared schema in it. For
  notifiers: a walk calls every callback once, in order, also when the callbacks add and remove
  callbacks, and a delivery hands over the changes collected since the last one. For sessions whose configuration has a user: the
  state only follows documented edges, whatever the threads do; a callback that waits for a
  completion is called at most once, and, without a client resync, exactly once before the session
  comes to rest; the calls to the client come in the order its interface asks for. For arrays: the
  elements are a list of integers, headers are read as they were written, and the search by words
  performs its action on exactly the elements that match, in order. A few theorems show instead where the code departs from this; their
  texts say how.

  \<^bold>\<open>Conventions.\<close> Nothing runs on fuel: every loop has a measure, except the walk
  over the callbacks of a notifier, which the callbacks can prolong, and the loop of \<open>find_gtlt_fast\<close>,
  which depends on a function for the first bit of a word; these are partial functions whose
  value \<open>None\<close> means that they do not return, and the theorems show when they do. A method that throws, or whose
  input is rejected by the parser, is \<open>None\<close> or \<open>Inl\<close>; a branch that the code declares
  unreachable is \<open>None\<close>. \<open>REALM_ASSERT\<close> does nothing in a release build and is not control flow: its
  condition is a hypothesis where a theorem needs it. \<open>size_t\<close> is a 64 bit word in the log, where its bytes matter, and a natural number in the
  other parts, with \<open>npos\<close> for \<open>2^64 - 1\<close>, subtraction below zero written out and bounds as
  hypotheses. The parser has room for 8 numbers of a path, as in a release build. Vectors and
  pointers into them are lists and indexes; a pointer to an object of the storage engine is a
  number. Code that is not in the repository is a parameter: \<open>sel\<close> for the encoders of selections
  with \<open>select_ok\<close>, \<open>selector\<close> for the functions that select in the convenient encoder with
  \<open>selector_ok\<close>, the accessors of the storage engine, its functions on tables
  (\<open>db\<close> with \<open>engine_ok\<close>), those that count and find bits and the aggregates of an array
  (\<open>array_lib\<close> with \<open>lib_ok\<close> and \<open>aggregates_ok\<close>), and the name of the column that synchronisation adds; what the
  synchronisation client and the application answer is an input of the steps of the session, and
  what they are asked is recorded in its list of events. Strings are lists of bytes, floating point values are their bits.

  \<^bold>\<open>Not modelled.\<close> The tables and files behind the log are the storage engine, whose code is
  precompiled and whose headers declare it, except for what is listed above; of its arrays the
  memory management and the operations that change their size, and the search with SSE instructions. The Objective-C++ binding and the Swift application
  are other languages. Of the object store: the coordinators, the background threads of the
  notifiers and the files, pipes and keychains of the platforms, which interleave through the
  operating system; live queries, lists and objects (\<open>results.cpp\<close>, \<open>list.cpp\<close>, \<open>object.cpp\<close>), thin
  layers over queries and tables of the engine; of \<open>object_store.cpp\<close> the tables of permissions
  (\<open>create_default_permissions\<close>, \<open>ensure_private_role\<close>); of a session the check of the history on
  opening (\<open>validate_sync_history\<close>), the callback after a remote transaction, the end of the session
  object while a weak pointer to it is held, and plain getters; users, the manager and the
  metadata of synchronisation.
\<close>

end
